(* ===== verification/CLib.thy ===== *)
theory CLib
  imports Prelude
begin

text \<open>
  The parts of the C library the sources call on strings and files: \<open>strcmp\<close>, \<open>strstr\<close>, \<open>strtol\<close>,
  \<open>strtok\<close> with the delimiter newline, \<open>isspace\<close>, \<open>fgets\<close>, the \<open>%s\<close> conversion of \<open>sscanf\<close>, the
  \<open>%d\<close> conversion of \<open>printf\<close> and the truncation \<open>snprintf\<close> does. A NUL-terminated string is the
  list of the characters before its NUL, so a string value holds no NUL; \<open>cstr\<close> reads one out of a
  character array.
\<close>

section \<open>NUL-terminated strings\<close>

abbreviation NUL :: char where "NUL \<equiv> CHR 0x00"

definition cstr :: "string \<Rightarrow> string" where
  "cstr s = takeWhile (\<lambda>c. c \<noteq> NUL) s"

lemma cstr_id: "NUL \<notin> set s \<Longrightarrow> cstr s = s"
  by (auto simp: cstr_def takeWhile_eq_all_conv)

lemma cstr_no_NUL [simp]: "NUL \<notin> set (cstr s)"
  by (auto simp: cstr_def dest: set_takeWhileD)

lemma cstr_append_NUL: "NUL \<notin> set s \<Longrightarrow> cstr (s @ NUL # t) = s"
  unfolding cstr_def by (subst takeWhile_append_stop) auto

section \<open>strcmp and strstr\<close>

definition char_code :: "char \<Rightarrow> nat" where
  "char_code c = of_char c"

lemma char_code_inj: "char_code a = char_code b \<longleftrightarrow> a = b"
  by (simp add: char_code_def)

lemma char_code_less: "char_code c < 256"
  by (simp add: char_code_def)

text \<open>Only the sign of \<open>strcmp\<close> is specified by the standard; the model returns -1, 0 or 1.\<close>

fun strcmp :: "string \<Rightarrow> string \<Rightarrow> int" where
  "strcmp [] [] = 0"
| "strcmp [] (y # ys) = - 1"
| "strcmp (x # xs) [] = 1"
| "strcmp (x # xs) (y # ys) =
     (if x = y then strcmp xs ys
      else if char_code x < char_code y then - 1 else 1)"

lemma strcmp_eq_0_iff [simp]: "strcmp s t = 0 \<longleftrightarrow> s = t"
  by (induction s t rule: strcmp.induct) auto

lemma strcmp_self [simp]: "strcmp s s = 0"
  by simp

lemma strcmp_antisym: "strcmp t s = - strcmp s t"
  by (induction s t rule: strcmp.induct) (auto simp: char_code_inj)

lemma strcmp_range: "strcmp s t \<in> {- 1, 0, 1}"
  by (induction s t rule: strcmp.induct) auto

lemma strcmp_trans: "strcmp s t < 0 \<Longrightarrow> strcmp t u < 0 \<Longrightarrow> strcmp s u < 0"
proof (induction s t arbitrary: u rule: strcmp.induct)
  case (4 x xs y ys)
  then obtain z zs where u: "u = z # zs"
    by (cases u) auto
  show ?case
    using 4 by (auto simp: u char_code_inj split: if_splits)
next
  case (2 y ys)
  then show ?case by (cases u) auto
qed auto

fun strprefix :: "string \<Rightarrow> string \<Rightarrow> bool" where
  "strprefix [] s = True"
| "strprefix (x # xs) [] = False"
| "strprefix (x # xs) (y # ys) = (x = y \<and> strprefix xs ys)"

fun strstr :: "string \<Rightarrow> string \<Rightarrow> bool" where
  "strstr [] needle = strprefix needle []"
| "strstr (c # cs) needle = (strprefix needle (c # cs) \<or> strstr cs needle)"

lemma strprefix_iff: "strprefix p s \<longleftrightarrow> (\<exists>t. s = p @ t)"
  by (induction p s rule: strprefix.induct) auto

lemma strstr_iff: "strstr s needle \<longleftrightarrow> (\<exists>a b. s = a @ needle @ b)"
proof (induction s)
  case Nil
  then show ?case by (cases needle) auto
next
  case (Cons c cs)
  have "(\<exists>a b. c # cs = a @ needle @ b) \<longleftrightarrow>
        (\<exists>b. c # cs = needle @ b) \<or> (\<exists>a b. cs = a @ needle @ b)"
    by (auto simp: Cons_eq_append_conv)
  then show ?case
    using Cons.IH by (simp add: strprefix_iff)
qed

section \<open>Character classes and numbers\<close>

definition isspace :: "char \<Rightarrow> bool" where
  "isspace c \<longleftrightarrow> c = CHR '' '' \<or> c = CHR 0x09 \<or> c = CHR 0x0A \<or> c = CHR 0x0B \<or> c = CHR 0x0C \<or> c = CHR 0x0D"

text \<open>The value of a digit in any base up to 36, as \<open>strtol\<close> reads it.\<close>

definition digit_val :: "char \<Rightarrow> nat option" where
  "digit_val c =
     (let n = char_code c in
      if 48 \<le> n \<and> n \<le> 57 then Some (n - 48)
      else if 97 \<le> n \<and> n \<le> 122 then Some (n - 87)
      else if 65 \<le> n \<and> n \<le> 90 then Some (n - 55)
      else None)"

fun digits_from :: "nat \<Rightarrow> string \<Rightarrow> nat \<Rightarrow> nat \<times> string" where
  "digits_from b [] acc = (acc, [])"
| "digits_from b (c # cs) acc =
     (case digit_val c of
        None \<Rightarrow> (acc, c # cs)
      | Some d \<Rightarrow> if d < b then digits_from b cs (acc * b + d) else (acc, c # cs))"

text \<open>
  \<open>strtol\<close> for a \<open>long\<close> of \<open>lb\<close> bits: optional white space, an optional sign, the digits; the
  value saturates at the ends of the type, and the second component is what \<open>*endptr\<close> points to
  (the whole string when no digit was read). Base 0 takes the base from the prefix.
\<close>

definition is_digit :: "nat \<Rightarrow> char \<Rightarrow> bool" where
  "is_digit b c \<longleftrightarrow> (case digit_val c of None \<Rightarrow> False | Some d \<Rightarrow> d < b)"

definition starts_digit :: "nat \<Rightarrow> string \<Rightarrow> bool" where
  "starts_digit b s \<longleftrightarrow> (case s of [] \<Rightarrow> False | c # _ \<Rightarrow> is_digit b c)"

definition base_prefix :: "nat \<Rightarrow> string \<Rightarrow> nat \<times> string" where
  "base_prefix b s =
     (if b = 0 then
        (case s of
           c # x # r \<Rightarrow>
             if c = CHR ''0'' \<and> (x = CHR ''x'' \<or> x = CHR ''X'') \<and> starts_digit 16 r then (16, r)
             else if c = CHR ''0'' then (8, s) else (10, s)
         | [c] \<Rightarrow> if c = CHR ''0'' then (8, s) else (10, s)
         | [] \<Rightarrow> (10, s))
      else (b, s))"

definition long_saturate :: "nat \<Rightarrow> int \<Rightarrow> int" where
  "long_saturate lb v = max (- (2 ^ (lb - 1))) (min (2 ^ (lb - 1) - 1) v)"

definition strtol :: "nat \<Rightarrow> nat \<Rightarrow> string \<Rightarrow> int \<times> string" where
  "strtol lb b s =
     (let s1 = dropWhile isspace s;
          (neg, s2) = (case s1 of
                         c # r \<Rightarrow> if c = CHR ''-'' then (True, r) else if c = CHR ''+'' then (False, r)
                                  else (False, s1)
                       | [] \<Rightarrow> (False, s1));
          (b', s3) = base_prefix b s2
      in if starts_digit b' s3
         then (let (n, r) = digits_from b' s3 0
               in (long_saturate lb (if neg then - int n else int n), r))
         else (0, s))"

text \<open>A \<open>long\<close> stored into a 32-bit \<open>int\<close>.\<close>

definition int_of_long :: "int \<Rightarrow> int" where
  "int_of_long v = (v + 2 ^ 31) mod 2 ^ 32 - 2 ^ 31"

fun dec_digits :: "nat \<Rightarrow> string" where
  "dec_digits n =
     (if n < 10 then [char_of (48 + n)] else dec_digits (n div 10) @ [char_of (48 + n mod 10)])"

declare dec_digits.simps [simp del]

definition show_int :: "int \<Rightarrow> string" where
  "show_int i = (if i < 0 then CHR ''-'' # dec_digits (nat (- i)) else dec_digits (nat i))"

text \<open>\<open>snprintf\<close> into a buffer of \<open>n\<close> bytes keeps \<open>n - 1\<close> characters.\<close>

definition snprintf_trunc :: "nat \<Rightarrow> string \<Rightarrow> string" where
  "snprintf_trunc n s = take (n - 1) s"

section \<open>strtok, fgets and sscanf\<close>

text \<open>
  The tokens \<open>strtok (s, "\n")\<close> and \<open>strtok (NULL, "\n")\<close> yield in turn: the maximal non-empty runs
  of other characters. The first delimiter after a token is overwritten with NUL, so the array as a
  string is afterwards its leading delimiters and the first token (\<open>strtok_left\<close>).
\<close>

function strtok_lines :: "string \<Rightarrow> string list" where
  "strtok_lines s =
     (case dropWhile (\<lambda>c. c = CHR 0x0A) s of
        [] \<Rightarrow> []
      | c # r \<Rightarrow> takeWhile (\<lambda>c. c \<noteq> CHR 0x0A) (c # r)
                 # strtok_lines (dropWhile (\<lambda>c. c \<noteq> CHR 0x0A) (c # r)))"
  by pat_completeness auto
termination
proof (relation "measure length", goal_cases)
  case (2 s c r)
  have "length (c # r) \<le> length s"
    unfolding 2(1) [symmetric] by (rule length_dropWhile_le)
  moreover have "c \<noteq> CHR 0x0A"
    using 2 by (auto simp: dropWhile_eq_Cons_conv)
  then have "length (dropWhile (\<lambda>c. c \<noteq> CHR 0x0A) (c # r)) \<le> length r"
    by (simp add: length_dropWhile_le)
  ultimately show ?case by simp
qed simp

declare strtok_lines.simps [simp del]

definition strtok_left :: "string \<Rightarrow> string" where
  "strtok_left s =
     takeWhile (\<lambda>c. c = CHR 0x0A) s
       @ takeWhile (\<lambda>c. c \<noteq> CHR 0x0A) (dropWhile (\<lambda>c. c = CHR 0x0A) s)"

text \<open>
  \<open>fgets (buf, size, f)\<close> on a stream whose unread bytes are \<open>s\<close>: at most \<open>size - 1\<close> of them, up to
  and with the first newline; NULL at the end of the file.
\<close>

fun fgets_take :: "nat \<Rightarrow> string \<Rightarrow> string \<times> string" where
  "fgets_take 0 s = ([], s)"
| "fgets_take (Suc n) [] = ([], [])"
| "fgets_take (Suc n) (c # cs) =
     (if c = CHR 0x0A then ([c], cs)
      else (let (l, r) = fgets_take n cs in (c # l, r)))"

definition fgets :: "nat \<Rightarrow> string \<Rightarrow> (string \<times> string) option" where
  "fgets sz s = (if s = [] then None else Some (fgets_take (sz - 1) s))"

lemma fgets_take_append: "fgets_take n s = (l, r) \<Longrightarrow> l @ r = s"
  by (induction n s arbitrary: l r rule: fgets_take.induct)
     (auto split: if_splits prod.splits)

lemma fgets_take_le: "fgets_take n s = (l, r) \<Longrightarrow> length l \<le> n"
  by (induction n s arbitrary: l r rule: fgets_take.induct)
     (auto split: if_splits prod.splits)

text \<open>The chunks a loop \<open>while (fgets (buf, size, f))\<close> sees, for \<open>1 < size\<close>.\<close>

function fgets_all :: "nat \<Rightarrow> string \<Rightarrow> string list" where
  "fgets_all sz s =
     (if s = [] \<or> sz \<le> 1 then []
      else (let (l, r) = fgets_take (sz - 1) s in l # fgets_all sz r))"
  by pat_completeness auto
termination
proof (relation "measure (\<lambda>(sz, s). length s)", goal_cases)
  case (2 sz s p l r)
  then obtain c cs n where "s = c # cs" "sz - 1 = Suc n"
    by (cases s; cases "sz - 1") auto
  with 2 show ?case
    by (auto split: if_splits prod.splits dest!: fgets_take_append)
qed simp

declare fgets_all.simps [simp del]

text \<open>\<open>sscanf (s, "%s", buf)\<close>: the first word, or nothing stored when there is none.\<close>

definition scan_word :: "string \<Rightarrow> (string \<times> string) option" where
  "scan_word s =
     (let t = dropWhile isspace s
      in if t = [] then None
         else Some (takeWhile (\<lambda>c. \<not> isspace c) t, dropWhile (\<lambda>c. \<not> isspace c) t))"

section \<open>Facts about numbers\<close>

lemma digit_val_dec: "d < 10 \<Longrightarrow> digit_val (char_of (48 + d)) = Some d"
proof -
  assume "d < 10"
  then have "char_code (char_of (48 + d)) = 48 + d"
    by (simp add: char_code_def)
  with \<open>d < 10\<close> show ?thesis by (simp add: digit_val_def Let_def)
qed

lemma digits_from_append:
  "digits_from b s acc = (n, []) \<Longrightarrow> digits_from b (s @ t) acc = digits_from b t n"
  by (induction b s acc rule: digits_from.induct) (auto split: option.splits if_splits)

lemma digits_from_dec: "digits_from 10 (dec_digits n) 0 = (n, [])"
proof (induction n rule: dec_digits.induct)
  case (1 n)
  show ?case
  proof (cases "n < 10")
    case True
    then show ?thesis by (subst dec_digits.simps) (simp add: digit_val_dec)
  next
    case False
    with 1 have "digits_from 10 (dec_digits (n div 10)) 0 = (n div 10, [])" by simp
    then have "digits_from 10 (dec_digits (n div 10) @ [char_of (48 + n mod 10)]) 0
        = digits_from 10 [char_of (48 + n mod 10)] (n div 10)"
      by (rule digits_from_append)
    also have "\<dots> = (n div 10 * 10 + n mod 10, [])"
      by (simp add: digit_val_dec)
    finally show ?thesis
      using False by (subst dec_digits.simps) simp
  qed
qed

end
