(* ===== verification/EdifyTypes.thy ===== *)
theory EdifyTypes
  imports CLib
begin

text \<open>
  The data types of edify/expr.h and edify/yydefs.h. A C function pointer of type \<open>Function\<close> is the
  name of the function it points to (\<open>efn\<close>): the interpreter stores and calls such pointers and
  compares them with NULL, nothing else. \<open>argc\<close> is the length of \<open>argv\<close>: every \<open>Expr\<close> the parser
  builds sets both together.
\<close>

datatype efn =
    Fn_Literal | Fn_Concat | Fn_IfElse | Fn_Abort | Fn_Assert | Fn_Sleep | Fn_Stdout
  | Fn_LogicalAnd | Fn_LogicalOr | Fn_LogicalNot | Fn_Substring | Fn_Equality | Fn_Inequality
  | Fn_Sequence | Fn_LessThanInt | Fn_GreaterThanInt
  | Fn_InsModule | Fn_RmModule | Fn_ModuleLoaded | Fn_KillProcess | Fn_KillProcessByPID
  | Fn_FileExists | Fn_WriteFile | Fn_UnlinkFile | Fn_LoadWifi | Fn_UnloadWifi | Fn_Log
  | Fn_WhiteListMacs | Fn_ShowProgress | Fn_SetProgress | Fn_GetProp | Fn_SetProp | Fn_GetCfg
  | Fn_GetAction | Fn_UIPrint | Fn_RunProgram

datatype expr =
  Expr (e_fn: efn) (e_name: string) (e_argv: "expr list") (e_start: int) (e_end: int)

definition argc :: "expr \<Rightarrow> nat" where
  "argc e = length (e_argv e)"

record yyltype =
  loc_start :: int
  loc_end :: int

text \<open>\<open>$$->start = ...; $$->end = ...\<close> on a node nobody else points to.\<close>

definition set_span :: "expr \<Rightarrow> int \<Rightarrow> int \<Rightarrow> expr" where
  "set_span e s t = Expr (e_fn e) (e_name e) (e_argv e) s t"

definition Build :: "efn \<Rightarrow> yyltype \<Rightarrow> expr list \<Rightarrow> expr" where
  "Build fn loc args = Expr fn ''(operator)'' args (loc_start loc) (loc_end loc)"

text \<open>An expression without its source positions: what evaluation can depend on but for \<open>assert\<close>.\<close>

fun strip :: "expr \<Rightarrow> expr" where
  "strip (Expr f n as s t) = Expr f n (map strip as) 0 0"

lemma strip_set_span [simp]: "strip (set_span e s t) = strip e"
  by (cases e) (simp add: set_span_def)

lemma strip_Build [simp]: "strip (Build f loc as) = Expr f ''(operator)'' (map strip as) 0 0"
  by (simp add: Build_def)

end
