(* ===== verification/EdifyParserTables.thy ===== *)
theory EdifyParserTables
  imports EdifyTypes
begin

text \<open>
  The tables of y.tab.c as the file has them, and their entries as rewrite rules (the collection
  \<open>lr_tables\<close>). \<open>yytname\<close> holds the symbol names the error messages print.
\<close>

named_theorems lr_tables \<open>the entries of the parser's tables\<close>

definition YYFINAL :: int where "YYFINAL = 13"
definition YYLAST :: int where "YYLAST = 129"
definition YYNTOKENS :: nat where "YYNTOKENS = 21"
definition YYPACT_NINF :: int where "YYPACT_NINF = - 16"
definition YYTABLE_NINF :: int where "YYTABLE_NINF = - 18"
definition YYMAXUTOK :: int where "YYMAXUTOK = 269"
definition YYUNDEFTOK :: nat where "YYUNDEFTOK = 2"
definition YYEMPTY :: int where "YYEMPTY = - 2"
definition YYEOF :: int where "YYEOF = 0"
definition YYINITDEPTH :: nat where "YYINITDEPTH = 200"
definition YYMAXDEPTH :: nat where "YYMAXDEPTH = 10000"

lemmas lr_consts = YYFINAL_def YYLAST_def YYNTOKENS_def YYPACT_NINF_def YYTABLE_NINF_def
  YYMAXUTOK_def YYUNDEFTOK_def YYEMPTY_def YYEOF_def

definition yytranslate :: "nat list" where
  "yytranslate = [
      0, 2, 2, 2, 2, 2, 2, 2, 2, 2, 2, 2, 2, 2, 2, 2, 2, 2, 2, 2, 2, 2, 2, 2, 2, 2, 2, 2, 2,
      2, 2, 2, 2, 18, 2, 2, 2, 2, 2, 2, 19, 20, 2, 17, 16, 2, 2, 2, 2, 2, 2, 2, 2, 2, 2, 2,
      2, 2, 2, 15, 2, 2, 2, 2, 2, 2, 2, 2, 2, 2, 2, 2, 2, 2, 2, 2, 2, 2, 2, 2, 2, 2, 2, 2,
      2, 2, 2, 2, 2, 2, 2, 2, 2, 2, 2, 2, 2, 2, 2, 2, 2, 2, 2, 2, 2, 2, 2, 2, 2, 2, 2, 2, 2,
      2, 2, 2, 2, 2, 2, 2, 2, 2, 2, 2, 2, 2, 2, 2, 2, 2, 2, 2, 2, 2, 2, 2, 2, 2, 2, 2, 2, 2,
      2, 2, 2, 2, 2, 2, 2, 2, 2, 2, 2, 2, 2, 2, 2, 2, 2, 2, 2, 2, 2, 2, 2, 2, 2, 2, 2, 2, 2,
      2, 2, 2, 2, 2, 2, 2, 2, 2, 2, 2, 2, 2, 2, 2, 2, 2, 2, 2, 2, 2, 2, 2, 2, 2, 2, 2, 2, 2,
      2, 2, 2, 2, 2, 2, 2, 2, 2, 2, 2, 2, 2, 2, 2, 2, 2, 2, 2, 2, 2, 2, 2, 2, 2, 2, 2, 2, 2,
      2, 2, 2, 2, 2, 2, 2, 2, 2, 2, 2, 2, 2, 2, 2, 2, 2, 2, 2, 2, 2, 2, 2, 2, 2, 2, 2, 1, 2,
      3, 4, 5, 6, 7, 8, 9, 10, 11, 12, 13, 14]"

definition yyr1 :: "nat list" where
  "yyr1 = [
      0, 21, 22, 23, 23, 23, 23, 23, 23, 23, 23, 23, 23, 23, 23, 23, 23, 24, 24, 24]"

lemma yyr1_rd [lr_tables]:
  "rd yyr1 0 = Some 0 \<and> rd yyr1 1 = Some 21 \<and>
   rd yyr1 2 = Some 22 \<and> rd yyr1 3 = Some 23 \<and>
   rd yyr1 4 = Some 23 \<and> rd yyr1 5 = Some 23 \<and>
   rd yyr1 6 = Some 23 \<and> rd yyr1 7 = Some 23 \<and>
   rd yyr1 8 = Some 23 \<and> rd yyr1 9 = Some 23 \<and>
   rd yyr1 10 = Some 23 \<and> rd yyr1 11 = Some 23 \<and>
   rd yyr1 12 = Some 23 \<and> rd yyr1 13 = Some 23 \<and>
   rd yyr1 14 = Some 23 \<and> rd yyr1 15 = Some 23 \<and>
   rd yyr1 16 = Some 23 \<and> rd yyr1 17 = Some 24 \<and>
   rd yyr1 18 = Some 24 \<and> rd yyr1 19 = Some 24"
  by (simp add: yyr1_def del: One_nat_def)

definition yyr2 :: "nat list" where
  "yyr2 = [
      0, 2, 1, 1, 3, 2, 3, 3, 3, 3, 3, 3, 3, 2, 5, 7, 4, 0, 1, 3]"

lemma yyr2_rd [lr_tables]:
  "rd yyr2 0 = Some 0 \<and> rd yyr2 1 = Some 2 \<and>
   rd yyr2 2 = Some 1 \<and> rd yyr2 3 = Some 1 \<and>
   rd yyr2 4 = Some 3 \<and> rd yyr2 5 = Some 2 \<and>
   rd yyr2 6 = Some 3 \<and> rd yyr2 7 = Some 3 \<and>
   rd yyr2 8 = Some 3 \<and> rd yyr2 9 = Some 3 \<and>
   rd yyr2 10 = Some 3 \<and> rd yyr2 11 = Some 3 \<and>
   rd yyr2 12 = Some 3 \<and> rd yyr2 13 = Some 2 \<and>
   rd yyr2 14 = Some 5 \<and> rd yyr2 15 = Some 7 \<and>
   rd yyr2 16 = Some 4 \<and> rd yyr2 17 = Some 0 \<and>
   rd yyr2 18 = Some 1 \<and> rd yyr2 19 = Some 3"
  by (simp add: yyr2_def del: One_nat_def)

definition yydefact :: "nat list" where
  "yydefact = [
      0, 0, 0, 3, 0, 0, 0, 2, 0, 0, 0, 13, 0, 1, 0, 0, 0, 0, 0, 0, 7, 0, 18, 0, 4, 11, 12,
      9, 10, 6, 8, 0, 0, 16, 0, 14, 19, 0, 15]"

lemma yydefact_rd [lr_tables]:
  "rd yydefact 0 = Some 0 \<and> rd yydefact 1 = Some 0 \<and>
   rd yydefact 2 = Some 0 \<and> rd yydefact 3 = Some 3 \<and>
   rd yydefact 4 = Some 0 \<and> rd yydefact 5 = Some 0 \<and>
   rd yydefact 6 = Some 0 \<and> rd yydefact 7 = Some 2 \<and>
   rd yydefact 8 = Some 0 \<and> rd yydefact 9 = Some 0 \<and>
   rd yydefact 10 = Some 0 \<and> rd yydefact 11 = Some 13 \<and>
   rd yydefact 12 = Some 0 \<and> rd yydefact 13 = Some 1 \<and>
   rd yydefact 14 = Some 0 \<and> rd yydefact 15 = Some 0 \<and>
   rd yydefact 16 = Some 0 \<and> rd yydefact 17 = Some 0 \<and>
   rd yydefact 18 = Some 0 \<and> rd yydefact 19 = Some 0 \<and>
   rd yydefact 20 = Some 7 \<and> rd yydefact 21 = Some 0 \<and>
   rd yydefact 22 = Some 18 \<and> rd yydefact 23 = Some 0 \<and>
   rd yydefact 24 = Some 4 \<and> rd yydefact 25 = Some 11 \<and>
   rd yydefact 26 = Some 12 \<and> rd yydefact 27 = Some 9 \<and>
   rd yydefact 28 = Some 10 \<and> rd yydefact 29 = Some 6 \<and>
   rd yydefact 30 = Some 8 \<and> rd yydefact 31 = Some 0 \<and>
   rd yydefact 32 = Some 0 \<and> rd yydefact 33 = Some 16 \<and>
   rd yydefact 34 = Some 0 \<and> rd yydefact 35 = Some 14 \<and>
   rd yydefact 36 = Some 19 \<and> rd yydefact 37 = Some 0 \<and>
   rd yydefact 38 = Some 15"
  by (simp add: yydefact_def del: One_nat_def)

definition yydefgoto :: "int list" where
  "yydefgoto = [
      - 1, 6, 7, 23]"

lemma yydefgoto_rd [lr_tables]:
  "rd yydefgoto 0 = Some (- 1) \<and> rd yydefgoto 1 = Some 6 \<and>
   rd yydefgoto 2 = Some 7 \<and> rd yydefgoto 3 = Some 23"
  by (simp add: yydefgoto_def del: One_nat_def)

definition yypact :: "int list" where
  "yypact = [
      46, - 11, 46, - 12, 46, 46, 11, 95, 46, 74, 9, - 16, 53, - 16, 46, 46, 46, 46, 33, 46,
      110, 46, 95, - 15, - 16, 112, 108, - 8, - 8, 110, - 16, 68, 46, - 16, 46, - 16, 95,
      89, - 16]"

lemma yypact_rd [lr_tables]:
  "rd yypact 0 = Some 46 \<and> rd yypact 1 = Some (- 11) \<and>
   rd yypact 2 = Some 46 \<and> rd yypact 3 = Some (- 12) \<and>
   rd yypact 4 = Some 46 \<and> rd yypact 5 = Some 46 \<and>
   rd yypact 6 = Some 11 \<and> rd yypact 7 = Some 95 \<and>
   rd yypact 8 = Some 46 \<and> rd yypact 9 = Some 74 \<and>
   rd yypact 10 = Some 9 \<and> rd yypact 11 = Some (- 16) \<and>
   rd yypact 12 = Some 53 \<and> rd yypact 13 = Some (- 16) \<and>
   rd yypact 14 = Some 46 \<and> rd yypact 15 = Some 46 \<and>
   rd yypact 16 = Some 46 \<and> rd yypact 17 = Some 46 \<and>
   rd yypact 18 = Some 33 \<and> rd yypact 19 = Some 46 \<and>
   rd yypact 20 = Some 110 \<and> rd yypact 21 = Some 46 \<and>
   rd yypact 22 = Some 95 \<and> rd yypact 23 = Some (- 15) \<and>
   rd yypact 24 = Some (- 16) \<and> rd yypact 25 = Some 112 \<and>
   rd yypact 26 = Some 108 \<and> rd yypact 27 = Some (- 8) \<and>
   rd yypact 28 = Some (- 8) \<and> rd yypact 29 = Some 110 \<and>
   rd yypact 30 = Some (- 16) \<and> rd yypact 31 = Some 68 \<and>
   rd yypact 32 = Some 46 \<and> rd yypact 33 = Some (- 16) \<and>
   rd yypact 34 = Some 46 \<and> rd yypact 35 = Some (- 16) \<and>
   rd yypact 36 = Some 95 \<and> rd yypact 37 = Some 89 \<and>
   rd yypact 38 = Some (- 16)"
  by (simp add: yypact_def del: One_nat_def)

definition yypgoto :: "int list" where
  "yypgoto = [
      - 16, - 16, - 2, - 16]"

lemma yypgoto_rd [lr_tables]:
  "rd yypgoto 0 = Some (- 16) \<and> rd yypgoto 1 = Some (- 16) \<and>
   rd yypgoto 2 = Some (- 2) \<and> rd yypgoto 3 = Some (- 16)"
  by (simp add: yypgoto_def del: One_nat_def)

definition yytable :: "int list" where
  "yytable = [
      9, 32, 11, 12, 8, 33, 20, 10, 22, 19, 1, 13, 25, 26, 27, 28, 29, 30, 2, 31, 0, 0, 3,
      0, 0, - 17, 0, 4, 5, - 17, 36, 0, 37, - 5, 1, 0, - 5, - 5, 0, 0, - 5, - 5, 2, - 5, -
      5, - 5, 3, 1, - 5, - 5, - 5, 4, 5, - 5, 0, 2, 14, 15, 0, 3, 16, 17, 0, 0, 4, 5, 0, 0,
      18, 0, 19, 14, 15, 24, 0, 16, 17, 14, 15, 34, 35, 16, 17, 18, 21, 19, 0, 0, 0, 18, 0,
      19, 14, 15, 0, 0, 16, 17, 14, 15, 0, 38, 16, 17, 18, 0, 19, 0, 0, 0, 18, 14, 19, 14,
      15, 16, 17, 16, 17, 16, 17, 0, 0, 0, 0, 19, 0, 19, 0, 19]"

lemma yytable_rd [lr_tables]:
  "rd yytable 0 = Some 9 \<and> rd yytable 1 = Some 32 \<and>
   rd yytable 2 = Some 11 \<and> rd yytable 3 = Some 12 \<and>
   rd yytable 4 = Some 8 \<and> rd yytable 5 = Some 33 \<and>
   rd yytable 6 = Some 20 \<and> rd yytable 7 = Some 10 \<and>
   rd yytable 8 = Some 22 \<and> rd yytable 9 = Some 19 \<and>
   rd yytable 10 = Some 1 \<and> rd yytable 11 = Some 13 \<and>
   rd yytable 12 = Some 25 \<and> rd yytable 13 = Some 26 \<and>
   rd yytable 14 = Some 27 \<and> rd yytable 15 = Some 28 \<and>
   rd yytable 16 = Some 29 \<and> rd yytable 17 = Some 30 \<and>
   rd yytable 18 = Some 2 \<and> rd yytable 19 = Some 31 \<and>
   rd yytable 20 = Some 0 \<and> rd yytable 21 = Some 0 \<and>
   rd yytable 22 = Some 3 \<and> rd yytable 23 = Some 0 \<and>
   rd yytable 24 = Some 0 \<and> rd yytable 25 = Some (- 17) \<and>
   rd yytable 26 = Some 0 \<and> rd yytable 27 = Some 4 \<and>
   rd yytable 28 = Some 5 \<and> rd yytable 29 = Some (- 17) \<and>
   rd yytable 30 = Some 36 \<and> rd yytable 31 = Some 0 \<and>
   rd yytable 32 = Some 37 \<and> rd yytable 33 = Some (- 5) \<and>
   rd yytable 34 = Some 1 \<and> rd yytable 35 = Some 0 \<and>
   rd yytable 36 = Some (- 5) \<and> rd yytable 37 = Some (- 5) \<and>
   rd yytable 38 = Some 0 \<and> rd yytable 39 = Some 0 \<and>
   rd yytable 40 = Some (- 5) \<and> rd yytable 41 = Some (- 5) \<and>
   rd yytable 42 = Some 2 \<and> rd yytable 43 = Some (- 5) \<and>
   rd yytable 44 = Some (- 5) \<and> rd yytable 45 = Some (- 5) \<and>
   rd yytable 46 = Some 3 \<and> rd yytable 47 = Some 1 \<and>
   rd yytable 48 = Some (- 5) \<and> rd yytable 49 = Some (- 5) \<and>
   rd yytable 50 = Some (- 5) \<and> rd yytable 51 = Some 4 \<and>
   rd yytable 52 = Some 5 \<and> rd yytable 53 = Some (- 5) \<and>
   rd yytable 54 = Some 0 \<and> rd yytable 55 = Some 2 \<and>
   rd yytable 56 = Some 14 \<and> rd yytable 57 = Some 15 \<and>
   rd yytable 58 = Some 0 \<and> rd yytable 59 = Some 3 \<and>
   rd yytable 60 = Some 16 \<and> rd yytable 61 = Some 17 \<and>
   rd yytable 62 = Some 0 \<and> rd yytable 63 = Some 0 \<and>
   rd yytable 64 = Some 4 \<and> rd yytable 65 = Some 5 \<and>
   rd yytable 66 = Some 0 \<and> rd yytable 67 = Some 0 \<and>
   rd yytable 68 = Some 18 \<and> rd yytable 69 = Some 0 \<and>
   rd yytable 70 = Some 19 \<and> rd yytable 71 = Some 14 \<and>
   rd yytable 72 = Some 15 \<and> rd yytable 73 = Some 24 \<and>
   rd yytable 74 = Some 0 \<and> rd yytable 75 = Some 16 \<and>
   rd yytable 76 = Some 17 \<and> rd yytable 77 = Some 14 \<and>
   rd yytable 78 = Some 15 \<and> rd yytable 79 = Some 34 \<and>
   rd yytable 80 = Some 35 \<and> rd yytable 81 = Some 16 \<and>
   rd yytable 82 = Some 17 \<and> rd yytable 83 = Some 18 \<and>
   rd yytable 84 = Some 21 \<and> rd yytable 85 = Some 19 \<and>
   rd yytable 86 = Some 0 \<and> rd yytable 87 = Some 0 \<and>
   rd yytable 88 = Some 0 \<and> rd yytable 89 = Some 18 \<and>
   rd yytable 90 = Some 0 \<and> rd yytable 91 = Some 19 \<and>
   rd yytable 92 = Some 14 \<and> rd yytable 93 = Some 15 \<and>
   rd yytable 94 = Some 0 \<and> rd yytable 95 = Some 0 \<and>
   rd yytable 96 = Some 16 \<and> rd yytable 97 = Some 17 \<and>
   rd yytable 98 = Some 14 \<and> rd yytable 99 = Some 15 \<and>
   rd yytable 100 = Some 0 \<and> rd yytable 101 = Some 38 \<and>
   rd yytable 102 = Some 16 \<and> rd yytable 103 = Some 17 \<and>
   rd yytable 104 = Some 18 \<and> rd yytable 105 = Some 0 \<and>
   rd yytable 106 = Some 19 \<and> rd yytable 107 = Some 0 \<and>
   rd yytable 108 = Some 0 \<and> rd yytable 109 = Some 0 \<and>
   rd yytable 110 = Some 18 \<and> rd yytable 111 = Some 14 \<and>
   rd yytable 112 = Some 19 \<and> rd yytable 113 = Some 14 \<and>
   rd yytable 114 = Some 15 \<and> rd yytable 115 = Some 16 \<and>
   rd yytable 116 = Some 17 \<and> rd yytable 117 = Some 16 \<and>
   rd yytable 118 = Some 17 \<and> rd yytable 119 = Some 16 \<and>
   rd yytable 120 = Some 17 \<and> rd yytable 121 = Some 0 \<and>
   rd yytable 122 = Some 0 \<and> rd yytable 123 = Some 0 \<and>
   rd yytable 124 = Some 0 \<and> rd yytable 125 = Some 19 \<and>
   rd yytable 126 = Some 0 \<and> rd yytable 127 = Some 19 \<and>
   rd yytable 128 = Some 0 \<and> rd yytable 129 = Some 19"
  by (simp add: yytable_def del: One_nat_def)

definition yycheck :: "int list" where
  "yycheck = [
      2, 16, 4, 5, 15, 20, 8, 19, 10, 17, 1, 0, 14, 15, 16, 17, 18, 19, 9, 21, - 1, - 1, 13,
      - 1, - 1, 16, - 1, 18, 19, 20, 32, - 1, 34, 0, 1, - 1, 3, 4, - 1, - 1, 7, 8, 9, 10,
      11, 12, 13, 1, 15, 16, 17, 18, 19, 20, - 1, 9, 3, 4, - 1, 13, 7, 8, - 1, - 1, 18, 19,
      - 1, - 1, 15, - 1, 17, 3, 4, 20, - 1, 7, 8, 3, 4, 11, 12, 7, 8, 15, 10, 17, - 1, - 1,
      - 1, 15, - 1, 17, 3, 4, - 1, - 1, 7, 8, 3, 4, - 1, 12, 7, 8, 15, - 1, 17, - 1, - 1, -
      1, 15, 3, 17, 3, 4, 7, 8, 7, 8, 7, 8, - 1, - 1, - 1, - 1, 17, - 1, 17, - 1, 17]"

lemma yycheck_rd [lr_tables]:
  "rd yycheck 0 = Some 2 \<and> rd yycheck 1 = Some 16 \<and>
   rd yycheck 2 = Some 4 \<and> rd yycheck 3 = Some 5 \<and>
   rd yycheck 4 = Some 15 \<and> rd yycheck 5 = Some 20 \<and>
   rd yycheck 6 = Some 8 \<and> rd yycheck 7 = Some 19 \<and>
   rd yycheck 8 = Some 10 \<and> rd yycheck 9 = Some 17 \<and>
   rd yycheck 10 = Some 1 \<and> rd yycheck 11 = Some 0 \<and>
   rd yycheck 12 = Some 14 \<and> rd yycheck 13 = Some 15 \<and>
   rd yycheck 14 = Some 16 \<and> rd yycheck 15 = Some 17 \<and>
   rd yycheck 16 = Some 18 \<and> rd yycheck 17 = Some 19 \<and>
   rd yycheck 18 = Some 9 \<and> rd yycheck 19 = Some 21 \<and>
   rd yycheck 20 = Some (- 1) \<and> rd yycheck 21 = Some (- 1) \<and>
   rd yycheck 22 = Some 13 \<and> rd yycheck 23 = Some (- 1) \<and>
   rd yycheck 24 = Some (- 1) \<and> rd yycheck 25 = Some 16 \<and>
   rd yycheck 26 = Some (- 1) \<and> rd yycheck 27 = Some 18 \<and>
   rd yycheck 28 = Some 19 \<and> rd yycheck 29 = Some 20 \<and>
   rd yycheck 30 = Some 32 \<and> rd yycheck 31 = Some (- 1) \<and>
   rd yycheck 32 = Some 34 \<and> rd yycheck 33 = Some 0 \<and>
   rd yycheck 34 = Some 1 \<and> rd yycheck 35 = Some (- 1) \<and>
   rd yycheck 36 = Some 3 \<and> rd yycheck 37 = Some 4 \<and>
   rd yycheck 38 = Some (- 1) \<and> rd yycheck 39 = Some (- 1) \<and>
   rd yycheck 40 = Some 7 \<and> rd yycheck 41 = Some 8 \<and>
   rd yycheck 42 = Some 9 \<and> rd yycheck 43 = Some 10 \<and>
   rd yycheck 44 = Some 11 \<and> rd yycheck 45 = Some 12 \<and>
   rd yycheck 46 = Some 13 \<and> rd yycheck 47 = Some 1 \<and>
   rd yycheck 48 = Some 15 \<and> rd yycheck 49 = Some 16 \<and>
   rd yycheck 50 = Some 17 \<and> rd yycheck 51 = Some 18 \<and>
   rd yycheck 52 = Some 19 \<and> rd yycheck 53 = Some 20 \<and>
   rd yycheck 54 = Some (- 1) \<and> rd yycheck 55 = Some 9 \<and>
   rd yycheck 56 = Some 3 \<and> rd yycheck 57 = Some 4 \<and>
   rd yycheck 58 = Some (- 1) \<and> rd yycheck 59 = Some 13 \<and>
   rd yycheck 60 = Some 7 \<and> rd yycheck 61 = Some 8 \<and>
   rd yycheck 62 = Some (- 1) \<and> rd yycheck 63 = Some (- 1) \<and>
   rd yycheck 64 = Some 18 \<and> rd yycheck 65 = Some 19 \<and>
   rd yycheck 66 = Some (- 1) \<and> rd yycheck 67 = Some (- 1) \<and>
   rd yycheck 68 = Some 15 \<and> rd yycheck 69 = Some (- 1) \<and>
   rd yycheck 70 = Some 17 \<and> rd yycheck 71 = Some 3 \<and>
   rd yycheck 72 = Some 4 \<and> rd yycheck 73 = Some 20 \<and>
   rd yycheck 74 = Some (- 1) \<and> rd yycheck 75 = Some 7 \<and>
   rd yycheck 76 = Some 8 \<and> rd yycheck 77 = Some 3 \<and>
   rd yycheck 78 = Some 4 \<and> rd yycheck 79 = Some 11 \<and>
   rd yycheck 80 = Some 12 \<and> rd yycheck 81 = Some 7 \<and>
   rd yycheck 82 = Some 8 \<and> rd yycheck 83 = Some 15 \<and>
   rd yycheck 84 = Some 10 \<and> rd yycheck 85 = Some 17 \<and>
   rd yycheck 86 = Some (- 1) \<and> rd yycheck 87 = Some (- 1) \<and>
   rd yycheck 88 = Some (- 1) \<and> rd yycheck 89 = Some 15 \<and>
   rd yycheck 90 = Some (- 1) \<and> rd yycheck 91 = Some 17 \<and>
   rd yycheck 92 = Some 3 \<and> rd yycheck 93 = Some 4 \<and>
   rd yycheck 94 = Some (- 1) \<and> rd yycheck 95 = Some (- 1) \<and>
   rd yycheck 96 = Some 7 \<and> rd yycheck 97 = Some 8 \<and>
   rd yycheck 98 = Some 3 \<and> rd yycheck 99 = Some 4 \<and>
   rd yycheck 100 = Some (- 1) \<and> rd yycheck 101 = Some 12 \<and>
   rd yycheck 102 = Some 7 \<and> rd yycheck 103 = Some 8 \<and>
   rd yycheck 104 = Some 15 \<and> rd yycheck 105 = Some (- 1) \<and>
   rd yycheck 106 = Some 17 \<and> rd yycheck 107 = Some (- 1) \<and>
   rd yycheck 108 = Some (- 1) \<and> rd yycheck 109 = Some (- 1) \<and>
   rd yycheck 110 = Some 15 \<and> rd yycheck 111 = Some 3 \<and>
   rd yycheck 112 = Some 17 \<and> rd yycheck 113 = Some 3 \<and>
   rd yycheck 114 = Some 4 \<and> rd yycheck 115 = Some 7 \<and>
   rd yycheck 116 = Some 8 \<and> rd yycheck 117 = Some 7 \<and>
   rd yycheck 118 = Some 8 \<and> rd yycheck 119 = Some 7 \<and>
   rd yycheck 120 = Some 8 \<and> rd yycheck 121 = Some (- 1) \<and>
   rd yycheck 122 = Some (- 1) \<and> rd yycheck 123 = Some (- 1) \<and>
   rd yycheck 124 = Some (- 1) \<and> rd yycheck 125 = Some 17 \<and>
   rd yycheck 126 = Some (- 1) \<and> rd yycheck 127 = Some 17 \<and>
   rd yycheck 128 = Some (- 1) \<and> rd yycheck 129 = Some 17"
  by (simp add: yycheck_def del: One_nat_def)

text \<open>A single quote is written by its code; the names of the character tokens include the quotes.\<close>

definition yytname :: "string list" where
  "yytname = [
      ''$end'', ''error'', ''$undefined'', ''AND'', ''OR'', ''SUBSTR'', ''SUPERSTR'', ''EQ'',
      ''NE'', ''IF'', ''THEN'', ''ELSE'', ''ENDIF'', ''STRING'', ''BAD'',
      [CHR 0x27, CHR '';'', CHR 0x27], [CHR 0x27, CHR '','', CHR 0x27],
      [CHR 0x27, CHR ''+'', CHR 0x27], [CHR 0x27, CHR ''!'', CHR 0x27],
      [CHR 0x27, CHR ''('', CHR 0x27], [CHR 0x27, CHR '')'', CHR 0x27],
      ''$accept'', ''input'', ''expr'', ''arglist'']"

lemma yytranslate_rd [lr_tables]:
  "rd yytranslate 0 = Some 0"
  "rd yytranslate 33 = Some 18"
  "rd yytranslate 40 = Some 19"
  "rd yytranslate 41 = Some 20"
  "rd yytranslate 43 = Some 17"
  "rd yytranslate 44 = Some 16"
  "rd yytranslate 59 = Some 15"
  "rd yytranslate 258 = Some 3"
  "rd yytranslate 259 = Some 4"
  "rd yytranslate 262 = Some 7"
  "rd yytranslate 263 = Some 8"
  "rd yytranslate 264 = Some 9"
  "rd yytranslate 265 = Some 10"
  "rd yytranslate 266 = Some 11"
  "rd yytranslate 267 = Some 12"
  "rd yytranslate 268 = Some 13"
  "rd yytranslate 269 = Some 14"
  by (simp_all add: yytranslate_def del: One_nat_def)

end
