(* ===== verification/EdifyLexTables.thy ===== *)
theory EdifyLexTables
  imports EdifyTypes
begin

text \<open>
  The tables of lex.yy.c, as the file has them, and their entries as rewrite rules (the collection
  \<open>yy_tables\<close>), so that the simplifier reads an entry in one step. \<open>yy_ec\<close> is given as the character
  classes it encodes instead (\<open>yy_ec_classes\<close>).
\<close>

named_theorems yy_tables \<open>the entries of the scanner's tables\<close>

definition yy_accept :: "nat list" where
  "yy_accept = [
      0, 0, 0, 0, 0, 24, 22, 20, 21, 19, 1, 22, 22, 19, 14, 22, 14, 14, 14, 22, 9, 8, 9, 2, 9, 20,
      18, 0, 21, 15, 14, 17, 14, 14, 10, 14, 16, 8, 5, 6, 3, 4, 0, 14, 14, 14, 0, 12, 14, 11, 7,
      13, 0]"

definition yy_ec :: "nat list" where
  "yy_ec = [
      0, 1, 1, 1, 1, 1, 1, 1, 1, 2, 3, 1, 1, 4, 1, 1, 1, 1, 1, 1, 1, 1, 1, 1, 1, 1, 1, 1, 1, 1, 1,
      1, 2, 5, 6, 7, 1, 1, 8, 1, 9, 9, 1, 9, 9, 1, 10, 10, 11, 11, 11, 11, 11, 11, 11, 11, 11, 11,
      10, 9, 1, 12, 1, 1, 1, 11, 11, 11, 11, 11, 11, 10, 10, 10, 10, 10, 10, 10, 10, 10, 10, 10,
      10, 10, 10, 10, 10, 10, 10, 10, 10, 1, 13, 1, 1, 10, 1, 11, 11, 11, 14, 15, 16, 10, 17, 18,
      10, 10, 19, 10, 20, 10, 10, 10, 10, 21, 22, 10, 10, 10, 23, 10, 10, 1, 24, 1, 1, 1, 1, 1, 1,
      1, 1, 1, 1, 1, 1, 1, 1, 1, 1, 1, 1, 1, 1, 1, 1, 1, 1, 1, 1, 1, 1, 1, 1, 1, 1, 1, 1, 1, 1, 1,
      1, 1, 1, 1, 1, 1, 1, 1, 1, 1, 1, 1, 1, 1, 1, 1, 1, 1, 1, 1, 1, 1, 1, 1, 1, 1, 1, 1, 1, 1, 1,
      1, 1, 1, 1, 1, 1, 1, 1, 1, 1, 1, 1, 1, 1, 1, 1, 1, 1, 1, 1, 1, 1, 1, 1, 1, 1, 1, 1, 1, 1, 1,
      1, 1, 1, 1, 1, 1, 1, 1, 1, 1, 1, 1, 1, 1, 1, 1, 1, 1, 1, 1, 1, 1, 1, 1, 1, 1, 1, 1, 1, 1, 1,
      1]"

definition yy_meta :: "nat list" where
  "yy_meta = [
      0, 1, 1, 1, 1, 1, 1, 1, 1, 1, 2, 3, 1, 1, 3, 3, 3, 2, 2, 2, 2, 2, 2, 2, 1]"

definition yy_base :: "nat list" where
  "yy_base = [
      0, 0, 0, 22, 33, 57, 73, 54, 73, 43, 73, 50, 44, 73, 0, 39, 10, 34, 32, 24, 73, 73, 42, 73,
      41, 42, 73, 40, 73, 73, 0, 73, 21, 27, 0, 25, 73, 73, 73, 73, 73, 73, 0, 23, 16, 13, 0, 0,
      16, 0, 73, 0, 73, 64, 67, 69, 28, 24]"

definition yy_def :: "nat list" where
  "yy_def = [
      0, 52, 1, 53, 53, 52, 52, 52, 52, 52, 52, 54, 52, 52, 55, 52, 55, 55, 55, 52, 52, 52, 52,
      52, 52, 52, 52, 54, 52, 52, 55, 52, 55, 55, 55, 55, 52, 52, 52, 52, 52, 52, 56, 55, 55, 55,
      57, 55, 55, 55, 52, 55, 0, 52, 52, 52, 52, 52]"

definition yy_nxt :: "nat list" where
  "yy_nxt = [
      0, 6, 7, 8, 6, 9, 10, 11, 12, 13, 14, 14, 15, 6, 14, 16, 14, 14, 17, 14, 14, 14, 18, 14, 19,
      21, 22, 50, 23, 32, 33, 46, 51, 49, 48, 24, 21, 22, 47, 23, 45, 44, 43, 28, 25, 37, 24, 38,
      36, 35, 34, 31, 29, 28, 39, 26, 25, 52, 52, 52, 52, 40, 52, 41, 42, 20, 20, 20, 27, 27, 27,
      30, 30, 5, 52, 52, 52, 52, 52, 52, 52, 52, 52, 52, 52, 52, 52, 52, 52, 52, 52, 52, 52, 52,
      52, 52, 52, 52]"

definition yy_chk :: "nat list" where
  "yy_chk = [
      0, 1, 1, 1, 1, 1, 1, 1, 1, 1, 1, 1, 1, 1, 1, 1, 1, 1, 1, 1, 1, 1, 1, 1, 1, 3, 3, 57, 3, 16,
      16, 56, 48, 45, 44, 3, 4, 4, 43, 4, 35, 33, 32, 27, 25, 22, 4, 24, 19, 18, 17, 15, 12, 11,
      24, 9, 7, 5, 0, 0, 0, 24, 0, 24, 24, 53, 53, 53, 54, 54, 54, 55, 55, 52, 52, 52, 52, 52, 52,
      52, 52, 52, 52, 52, 52, 52, 52, 52, 52, 52, 52, 52, 52, 52, 52, 52, 52, 52]"

lemma yy_accept_rd [yy_tables]:
  "rd yy_accept 0 = Some 0 \<and> rd yy_accept 1 = Some 0 \<and>
   rd yy_accept 2 = Some 0 \<and> rd yy_accept 3 = Some 0 \<and> rd yy_accept 4 = Some 0 \<and>
   rd yy_accept 5 = Some 24 \<and> rd yy_accept 6 = Some 22 \<and> rd yy_accept 7 = Some 20 \<and>
   rd yy_accept 8 = Some 21 \<and> rd yy_accept 9 = Some 19 \<and> rd yy_accept 10 = Some 1 \<and>
   rd yy_accept 11 = Some 22 \<and> rd yy_accept 12 = Some 22 \<and>
   rd yy_accept 13 = Some 19 \<and> rd yy_accept 14 = Some 14 \<and>
   rd yy_accept 15 = Some 22 \<and> rd yy_accept 16 = Some 14 \<and>
   rd yy_accept 17 = Some 14 \<and> rd yy_accept 18 = Some 14 \<and>
   rd yy_accept 19 = Some 22 \<and> rd yy_accept 20 = Some 9 \<and>
   rd yy_accept 21 = Some 8 \<and> rd yy_accept 22 = Some 9 \<and> rd yy_accept 23 = Some 2 \<and>
   rd yy_accept 24 = Some 9 \<and> rd yy_accept 25 = Some 20 \<and>
   rd yy_accept 26 = Some 18 \<and> rd yy_accept 27 = Some 0 \<and>
   rd yy_accept 28 = Some 21 \<and> rd yy_accept 29 = Some 15 \<and>
   rd yy_accept 30 = Some 14 \<and> rd yy_accept 31 = Some 17 \<and>
   rd yy_accept 32 = Some 14 \<and> rd yy_accept 33 = Some 14 \<and>
   rd yy_accept 34 = Some 10 \<and> rd yy_accept 35 = Some 14 \<and>
   rd yy_accept 36 = Some 16 \<and> rd yy_accept 37 = Some 8 \<and>
   rd yy_accept 38 = Some 5 \<and> rd yy_accept 39 = Some 6 \<and> rd yy_accept 40 = Some 3 \<and>
   rd yy_accept 41 = Some 4 \<and> rd yy_accept 42 = Some 0 \<and>
   rd yy_accept 43 = Some 14 \<and> rd yy_accept 44 = Some 14 \<and>
   rd yy_accept 45 = Some 14 \<and> rd yy_accept 46 = Some 0 \<and>
   rd yy_accept 47 = Some 12 \<and> rd yy_accept 48 = Some 14 \<and>
   rd yy_accept 49 = Some 11 \<and> rd yy_accept 50 = Some 7 \<and>
   rd yy_accept 51 = Some 13 \<and> rd yy_accept 52 = Some 0"
  by (simp add: yy_accept_def del: One_nat_def)

lemma yy_meta_rd [yy_tables]:
  "rd yy_meta 0 = Some 0 \<and> rd yy_meta 1 = Some 1 \<and> rd yy_meta 2 = Some 1 \<and>
   rd yy_meta 3 = Some 1 \<and> rd yy_meta 4 = Some 1 \<and> rd yy_meta 5 = Some 1 \<and>
   rd yy_meta 6 = Some 1 \<and> rd yy_meta 7 = Some 1 \<and> rd yy_meta 8 = Some 1 \<and>
   rd yy_meta 9 = Some 1 \<and> rd yy_meta 10 = Some 2 \<and> rd yy_meta 11 = Some 3 \<and>
   rd yy_meta 12 = Some 1 \<and> rd yy_meta 13 = Some 1 \<and> rd yy_meta 14 = Some 3 \<and>
   rd yy_meta 15 = Some 3 \<and> rd yy_meta 16 = Some 3 \<and> rd yy_meta 17 = Some 2 \<and>
   rd yy_meta 18 = Some 2 \<and> rd yy_meta 19 = Some 2 \<and> rd yy_meta 20 = Some 2 \<and>
   rd yy_meta 21 = Some 2 \<and> rd yy_meta 22 = Some 2 \<and> rd yy_meta 23 = Some 2 \<and>
   rd yy_meta 24 = Some 1"
  by (simp add: yy_meta_def del: One_nat_def)

lemma yy_base_rd [yy_tables]:
  "rd yy_base 0 = Some 0 \<and> rd yy_base 1 = Some 0 \<and> rd yy_base 2 = Some 0 \<and>
   rd yy_base 3 = Some 22 \<and> rd yy_base 4 = Some 33 \<and> rd yy_base 5 = Some 57 \<and>
   rd yy_base 6 = Some 73 \<and> rd yy_base 7 = Some 54 \<and> rd yy_base 8 = Some 73 \<and>
   rd yy_base 9 = Some 43 \<and> rd yy_base 10 = Some 73 \<and> rd yy_base 11 = Some 50 \<and>
   rd yy_base 12 = Some 44 \<and> rd yy_base 13 = Some 73 \<and> rd yy_base 14 = Some 0 \<and>
   rd yy_base 15 = Some 39 \<and> rd yy_base 16 = Some 10 \<and> rd yy_base 17 = Some 34 \<and>
   rd yy_base 18 = Some 32 \<and> rd yy_base 19 = Some 24 \<and> rd yy_base 20 = Some 73 \<and>
   rd yy_base 21 = Some 73 \<and> rd yy_base 22 = Some 42 \<and> rd yy_base 23 = Some 73 \<and>
   rd yy_base 24 = Some 41 \<and> rd yy_base 25 = Some 42 \<and> rd yy_base 26 = Some 73 \<and>
   rd yy_base 27 = Some 40 \<and> rd yy_base 28 = Some 73 \<and> rd yy_base 29 = Some 73 \<and>
   rd yy_base 30 = Some 0 \<and> rd yy_base 31 = Some 73 \<and> rd yy_base 32 = Some 21 \<and>
   rd yy_base 33 = Some 27 \<and> rd yy_base 34 = Some 0 \<and> rd yy_base 35 = Some 25 \<and>
   rd yy_base 36 = Some 73 \<and> rd yy_base 37 = Some 73 \<and> rd yy_base 38 = Some 73 \<and>
   rd yy_base 39 = Some 73 \<and> rd yy_base 40 = Some 73 \<and> rd yy_base 41 = Some 73 \<and>
   rd yy_base 42 = Some 0 \<and> rd yy_base 43 = Some 23 \<and> rd yy_base 44 = Some 16 \<and>
   rd yy_base 45 = Some 13 \<and> rd yy_base 46 = Some 0 \<and> rd yy_base 47 = Some 0 \<and>
   rd yy_base 48 = Some 16 \<and> rd yy_base 49 = Some 0 \<and> rd yy_base 50 = Some 73 \<and>
   rd yy_base 51 = Some 0 \<and> rd yy_base 52 = Some 73 \<and> rd yy_base 53 = Some 64 \<and>
   rd yy_base 54 = Some 67 \<and> rd yy_base 55 = Some 69 \<and> rd yy_base 56 = Some 28 \<and>
   rd yy_base 57 = Some 24"
  by (simp add: yy_base_def del: One_nat_def)

lemma yy_def_rd [yy_tables]:
  "rd yy_def 0 = Some 0 \<and> rd yy_def 1 = Some 52 \<and> rd yy_def 2 = Some 1 \<and>
   rd yy_def 3 = Some 53 \<and> rd yy_def 4 = Some 53 \<and> rd yy_def 5 = Some 52 \<and>
   rd yy_def 6 = Some 52 \<and> rd yy_def 7 = Some 52 \<and> rd yy_def 8 = Some 52 \<and>
   rd yy_def 9 = Some 52 \<and> rd yy_def 10 = Some 52 \<and> rd yy_def 11 = Some 54 \<and>
   rd yy_def 12 = Some 52 \<and> rd yy_def 13 = Some 52 \<and> rd yy_def 14 = Some 55 \<and>
   rd yy_def 15 = Some 52 \<and> rd yy_def 16 = Some 55 \<and> rd yy_def 17 = Some 55 \<and>
   rd yy_def 18 = Some 55 \<and> rd yy_def 19 = Some 52 \<and> rd yy_def 20 = Some 52 \<and>
   rd yy_def 21 = Some 52 \<and> rd yy_def 22 = Some 52 \<and> rd yy_def 23 = Some 52 \<and>
   rd yy_def 24 = Some 52 \<and> rd yy_def 25 = Some 52 \<and> rd yy_def 26 = Some 52 \<and>
   rd yy_def 27 = Some 54 \<and> rd yy_def 28 = Some 52 \<and> rd yy_def 29 = Some 52 \<and>
   rd yy_def 30 = Some 55 \<and> rd yy_def 31 = Some 52 \<and> rd yy_def 32 = Some 55 \<and>
   rd yy_def 33 = Some 55 \<and> rd yy_def 34 = Some 55 \<and> rd yy_def 35 = Some 55 \<and>
   rd yy_def 36 = Some 52 \<and> rd yy_def 37 = Some 52 \<and> rd yy_def 38 = Some 52 \<and>
   rd yy_def 39 = Some 52 \<and> rd yy_def 40 = Some 52 \<and> rd yy_def 41 = Some 52 \<and>
   rd yy_def 42 = Some 56 \<and> rd yy_def 43 = Some 55 \<and> rd yy_def 44 = Some 55 \<and>
   rd yy_def 45 = Some 55 \<and> rd yy_def 46 = Some 57 \<and> rd yy_def 47 = Some 55 \<and>
   rd yy_def 48 = Some 55 \<and> rd yy_def 49 = Some 55 \<and> rd yy_def 50 = Some 52 \<and>
   rd yy_def 51 = Some 55 \<and> rd yy_def 52 = Some 0 \<and> rd yy_def 53 = Some 52 \<and>
   rd yy_def 54 = Some 52 \<and> rd yy_def 55 = Some 52 \<and> rd yy_def 56 = Some 52 \<and>
   rd yy_def 57 = Some 52"
  by (simp add: yy_def_def del: One_nat_def)

lemma yy_nxt_rd [yy_tables]:
  "rd yy_nxt 0 = Some 0 \<and> rd yy_nxt 1 = Some 6 \<and> rd yy_nxt 2 = Some 7 \<and>
   rd yy_nxt 3 = Some 8 \<and> rd yy_nxt 4 = Some 6 \<and> rd yy_nxt 5 = Some 9 \<and>
   rd yy_nxt 6 = Some 10 \<and> rd yy_nxt 7 = Some 11 \<and> rd yy_nxt 8 = Some 12 \<and>
   rd yy_nxt 9 = Some 13 \<and> rd yy_nxt 10 = Some 14 \<and> rd yy_nxt 11 = Some 14 \<and>
   rd yy_nxt 12 = Some 15 \<and> rd yy_nxt 13 = Some 6 \<and> rd yy_nxt 14 = Some 14 \<and>
   rd yy_nxt 15 = Some 16 \<and> rd yy_nxt 16 = Some 14 \<and> rd yy_nxt 17 = Some 14 \<and>
   rd yy_nxt 18 = Some 17 \<and> rd yy_nxt 19 = Some 14 \<and> rd yy_nxt 20 = Some 14 \<and>
   rd yy_nxt 21 = Some 14 \<and> rd yy_nxt 22 = Some 18 \<and> rd yy_nxt 23 = Some 14 \<and>
   rd yy_nxt 24 = Some 19 \<and> rd yy_nxt 25 = Some 21 \<and> rd yy_nxt 26 = Some 22 \<and>
   rd yy_nxt 27 = Some 50 \<and> rd yy_nxt 28 = Some 23 \<and> rd yy_nxt 29 = Some 32 \<and>
   rd yy_nxt 30 = Some 33 \<and> rd yy_nxt 31 = Some 46 \<and> rd yy_nxt 32 = Some 51 \<and>
   rd yy_nxt 33 = Some 49 \<and> rd yy_nxt 34 = Some 48 \<and> rd yy_nxt 35 = Some 24 \<and>
   rd yy_nxt 36 = Some 21 \<and> rd yy_nxt 37 = Some 22 \<and> rd yy_nxt 38 = Some 47 \<and>
   rd yy_nxt 39 = Some 23 \<and> rd yy_nxt 40 = Some 45 \<and> rd yy_nxt 41 = Some 44 \<and>
   rd yy_nxt 42 = Some 43 \<and> rd yy_nxt 43 = Some 28 \<and> rd yy_nxt 44 = Some 25 \<and>
   rd yy_nxt 45 = Some 37 \<and> rd yy_nxt 46 = Some 24 \<and> rd yy_nxt 47 = Some 38 \<and>
   rd yy_nxt 48 = Some 36 \<and> rd yy_nxt 49 = Some 35 \<and> rd yy_nxt 50 = Some 34 \<and>
   rd yy_nxt 51 = Some 31 \<and> rd yy_nxt 52 = Some 29 \<and> rd yy_nxt 53 = Some 28 \<and>
   rd yy_nxt 54 = Some 39 \<and> rd yy_nxt 55 = Some 26 \<and> rd yy_nxt 56 = Some 25 \<and>
   rd yy_nxt 57 = Some 52 \<and> rd yy_nxt 58 = Some 52 \<and> rd yy_nxt 59 = Some 52 \<and>
   rd yy_nxt 60 = Some 52 \<and> rd yy_nxt 61 = Some 40 \<and> rd yy_nxt 62 = Some 52 \<and>
   rd yy_nxt 63 = Some 41 \<and> rd yy_nxt 64 = Some 42 \<and> rd yy_nxt 65 = Some 20 \<and>
   rd yy_nxt 66 = Some 20 \<and> rd yy_nxt 67 = Some 20 \<and> rd yy_nxt 68 = Some 27 \<and>
   rd yy_nxt 69 = Some 27 \<and> rd yy_nxt 70 = Some 27 \<and> rd yy_nxt 71 = Some 30 \<and>
   rd yy_nxt 72 = Some 30 \<and> rd yy_nxt 73 = Some 5 \<and> rd yy_nxt 74 = Some 52 \<and>
   rd yy_nxt 75 = Some 52 \<and> rd yy_nxt 76 = Some 52 \<and> rd yy_nxt 77 = Some 52 \<and>
   rd yy_nxt 78 = Some 52 \<and> rd yy_nxt 79 = Some 52 \<and> rd yy_nxt 80 = Some 52 \<and>
   rd yy_nxt 81 = Some 52 \<and> rd yy_nxt 82 = Some 52 \<and> rd yy_nxt 83 = Some 52 \<and>
   rd yy_nxt 84 = Some 52 \<and> rd yy_nxt 85 = Some 52 \<and> rd yy_nxt 86 = Some 52 \<and>
   rd yy_nxt 87 = Some 52 \<and> rd yy_nxt 88 = Some 52 \<and> rd yy_nxt 89 = Some 52 \<and>
   rd yy_nxt 90 = Some 52 \<and> rd yy_nxt 91 = Some 52 \<and> rd yy_nxt 92 = Some 52 \<and>
   rd yy_nxt 93 = Some 52 \<and> rd yy_nxt 94 = Some 52 \<and> rd yy_nxt 95 = Some 52 \<and>
   rd yy_nxt 96 = Some 52 \<and> rd yy_nxt 97 = Some 52"
  by (simp add: yy_nxt_def del: One_nat_def)

lemma yy_chk_rd [yy_tables]:
  "rd yy_chk 0 = Some 0 \<and> rd yy_chk 1 = Some 1 \<and> rd yy_chk 2 = Some 1 \<and>
   rd yy_chk 3 = Some 1 \<and> rd yy_chk 4 = Some 1 \<and> rd yy_chk 5 = Some 1 \<and>
   rd yy_chk 6 = Some 1 \<and> rd yy_chk 7 = Some 1 \<and> rd yy_chk 8 = Some 1 \<and>
   rd yy_chk 9 = Some 1 \<and> rd yy_chk 10 = Some 1 \<and> rd yy_chk 11 = Some 1 \<and>
   rd yy_chk 12 = Some 1 \<and> rd yy_chk 13 = Some 1 \<and> rd yy_chk 14 = Some 1 \<and>
   rd yy_chk 15 = Some 1 \<and> rd yy_chk 16 = Some 1 \<and> rd yy_chk 17 = Some 1 \<and>
   rd yy_chk 18 = Some 1 \<and> rd yy_chk 19 = Some 1 \<and> rd yy_chk 20 = Some 1 \<and>
   rd yy_chk 21 = Some 1 \<and> rd yy_chk 22 = Some 1 \<and> rd yy_chk 23 = Some 1 \<and>
   rd yy_chk 24 = Some 1 \<and> rd yy_chk 25 = Some 3 \<and> rd yy_chk 26 = Some 3 \<and>
   rd yy_chk 27 = Some 57 \<and> rd yy_chk 28 = Some 3 \<and> rd yy_chk 29 = Some 16 \<and>
   rd yy_chk 30 = Some 16 \<and> rd yy_chk 31 = Some 56 \<and> rd yy_chk 32 = Some 48 \<and>
   rd yy_chk 33 = Some 45 \<and> rd yy_chk 34 = Some 44 \<and> rd yy_chk 35 = Some 3 \<and>
   rd yy_chk 36 = Some 4 \<and> rd yy_chk 37 = Some 4 \<and> rd yy_chk 38 = Some 43 \<and>
   rd yy_chk 39 = Some 4 \<and> rd yy_chk 40 = Some 35 \<and> rd yy_chk 41 = Some 33 \<and>
   rd yy_chk 42 = Some 32 \<and> rd yy_chk 43 = Some 27 \<and> rd yy_chk 44 = Some 25 \<and>
   rd yy_chk 45 = Some 22 \<and> rd yy_chk 46 = Some 4 \<and> rd yy_chk 47 = Some 24 \<and>
   rd yy_chk 48 = Some 19 \<and> rd yy_chk 49 = Some 18 \<and> rd yy_chk 50 = Some 17 \<and>
   rd yy_chk 51 = Some 15 \<and> rd yy_chk 52 = Some 12 \<and> rd yy_chk 53 = Some 11 \<and>
   rd yy_chk 54 = Some 24 \<and> rd yy_chk 55 = Some 9 \<and> rd yy_chk 56 = Some 7 \<and>
   rd yy_chk 57 = Some 5 \<and> rd yy_chk 58 = Some 0 \<and> rd yy_chk 59 = Some 0 \<and>
   rd yy_chk 60 = Some 0 \<and> rd yy_chk 61 = Some 24 \<and> rd yy_chk 62 = Some 0 \<and>
   rd yy_chk 63 = Some 24 \<and> rd yy_chk 64 = Some 24 \<and> rd yy_chk 65 = Some 53 \<and>
   rd yy_chk 66 = Some 53 \<and> rd yy_chk 67 = Some 53 \<and> rd yy_chk 68 = Some 54 \<and>
   rd yy_chk 69 = Some 54 \<and> rd yy_chk 70 = Some 54 \<and> rd yy_chk 71 = Some 55 \<and>
   rd yy_chk 72 = Some 55 \<and> rd yy_chk 73 = Some 52 \<and> rd yy_chk 74 = Some 52 \<and>
   rd yy_chk 75 = Some 52 \<and> rd yy_chk 76 = Some 52 \<and> rd yy_chk 77 = Some 52 \<and>
   rd yy_chk 78 = Some 52 \<and> rd yy_chk 79 = Some 52 \<and> rd yy_chk 80 = Some 52 \<and>
   rd yy_chk 81 = Some 52 \<and> rd yy_chk 82 = Some 52 \<and> rd yy_chk 83 = Some 52 \<and>
   rd yy_chk 84 = Some 52 \<and> rd yy_chk 85 = Some 52 \<and> rd yy_chk 86 = Some 52 \<and>
   rd yy_chk 87 = Some 52 \<and> rd yy_chk 88 = Some 52 \<and> rd yy_chk 89 = Some 52 \<and>
   rd yy_chk 90 = Some 52 \<and> rd yy_chk 91 = Some 52 \<and> rd yy_chk 92 = Some 52 \<and>
   rd yy_chk 93 = Some 52 \<and> rd yy_chk 94 = Some 52 \<and> rd yy_chk 95 = Some 52 \<and>
   rd yy_chk 96 = Some 52 \<and> rd yy_chk 97 = Some 52"
  by (simp add: yy_chk_def del: One_nat_def)

text \<open>The classes of \<open>yy_ec\<close> by character code.\<close>

definition char_class :: "nat \<Rightarrow> nat" where
  "char_class n =
     (if n = 0 then 0 else if n = 9 \<or> n = 32 then 2 else if n = 10 then 3 else if n = 13 then 4
      else if n = 33 then 5 else if n = 34 then 6 else if n = 35 then 7 else if n = 38 then 8
      else if n = 40 \<or> n = 41 \<or> n = 43 \<or> n = 44 \<or> n = 59 then 9
      else if n = 46 \<or> n = 47 \<or> n = 58 \<or> n = 95 \<or> (71 \<le> n \<and> n \<le> 90) then 10
      else if (48 \<le> n \<and> n \<le> 57) \<or> (65 \<le> n \<and> n \<le> 70) \<or> (97 \<le> n \<and> n \<le> 99) then 11
      else if n = 61 then 12 else if n = 92 then 13 else if n = 100 then 14 else if n = 101 then 15
      else if n = 102 then 16 else if n = 104 then 17 else if n = 105 then 18 else if n = 108 then 19
      else if n = 110 then 20 else if n = 115 then 21 else if n = 116 then 22 else if n = 120 then 23
      else if 103 \<le> n \<and> n \<le> 122 then 10 else if n = 124 then 24 else 1)"

lemma byte_codes: "[0..<256] = [
      0, 1, 2, 3, 4, 5, 6, 7, 8, 9, 10, 11, 12, 13, 14, 15, 16, 17, 18, 19, 20, 21, 22, 23, 24,
      25, 26, 27, 28, 29, 30, 31, 32, 33, 34, 35, 36, 37, 38, 39, 40, 41, 42, 43, 44, 45, 46, 47,
      48, 49, 50, 51, 52, 53, 54, 55, 56, 57, 58, 59, 60, 61, 62, 63, 64, 65, 66, 67, 68, 69, 70,
      71, 72, 73, 74, 75, 76, 77, 78, 79, 80, 81, 82, 83, 84, 85, 86, 87, 88, 89, 90, 91, 92, 93,
      94, 95, 96, 97, 98, 99, 100, 101, 102, 103, 104, 105, 106, 107, 108, 109, 110, 111, 112,
      113, 114, 115, 116, 117, 118, 119, 120, 121, 122, 123, 124, 125, 126, 127, 128, 129, 130,
      131, 132, 133, 134, 135, 136, 137, 138, 139, 140, 141, 142, 143, 144, 145, 146, 147, 148,
      149, 150, 151, 152, 153, 154, 155, 156, 157, 158, 159, 160, 161, 162, 163, 164, 165, 166,
      167, 168, 169, 170, 171, 172, 173, 174, 175, 176, 177, 178, 179, 180, 181, 182, 183, 184,
      185, 186, 187, 188, 189, 190, 191, 192, 193, 194, 195, 196, 197, 198, 199, 200, 201, 202,
      203, 204, 205, 206, 207, 208, 209, 210, 211, 212, 213, 214, 215, 216, 217, 218, 219, 220,
      221, 222, 223, 224, 225, 226, 227, 228, 229, 230, 231, 232, 233, 234, 235, 236, 237, 238,
      239, 240, 241, 242, 243, 244, 245, 246, 247, 248, 249, 250, 251, 252, 253, 254, 255]"
  by code_simp

lemma yy_ec_classes: "yy_ec = map char_class [0..<256]"
  unfolding byte_codes by (simp add: yy_ec_def char_class_def del: One_nat_def)

text \<open>Facts the simplifier must not use when it evaluates on numerals of type \<^typ>\<open>nat\<close>.\<close>

lemmas nat_eval_del = One_nat_def add_2_eq_Suc add_2_eq_Suc'

end
