(* ===== verification/EdifyLexer.thy ===== *)
theory EdifyLexer
  imports EdifyLexTables
begin

text \<open>
  The scanner of edify: the tables, the matching loop and the actions of lex.yy.c, which is the file
  the library is built from. A buffer (\<open>yy_ch_buf\<close>) is the script followed by the two NUL
  end-of-buffer characters \<open>yy_scan_bytes\<close> appends; positions in it are indexes. The scanner's writes
  of a NUL behind \<open>yytext\<close> and of \<open>yy_hold_char\<close> back are the reading of a slice. Every table read is
  checked, and a run that would read outside a table or the buffer is \<^term>\<open>None\<close>.
\<close>

section \<open>State\<close>

text \<open>
  \<open>yy_start\<close> is 1 in \<open>INITIAL\<close> and 3 in \<open>STR\<close> (\<open>BEGIN\<close> stores 1 + 2 * the condition).
  \<open>string_buffer\<close> holds the characters written through \<open>string_pos\<close>, so \<open>string_pos\<close> points behind
  the last of them; a write needs an index below \<open>MAX_STRING_LEN\<close>. \<open>yylval\<close> is its \<open>str\<close> member.
\<close>

definition MAX_STRING_LEN :: nat where
  "MAX_STRING_LEN = 1024"

record lexer =
  yy_ch_buf :: string
  yy_n_chars :: nat
  yy_c_buf_p :: nat
  yy_start :: nat
  yy_last_accepting_state :: nat
  yy_last_accepting_cpos :: nat
  string_buffer :: string
  gLine :: int
  gColumn :: int
  gPos :: int
  yylloc :: yyltype
  yylval :: string

definition lexer_init :: lexer where
  "lexer_init = \<lparr>yy_ch_buf = [], yy_n_chars = 0, yy_c_buf_p = 0, yy_start = 1,
     yy_last_accepting_state = 0, yy_last_accepting_cpos = 0, string_buffer = [],
     gLine = 1, gColumn = 1, gPos = 0, yylloc = \<lparr>loc_start = 0, loc_end = 0\<rparr>, yylval = []\<rparr>"

text \<open>
  \<open>yy_scan_bytes\<close> copies the bytes, appends the end-of-buffer characters and switches to the new
  buffer; the start condition, the line, column and position counters and the string buffer keep
  what an earlier scan left in them.
\<close>

definition yy_load_buffer_state :: "string \<Rightarrow> nat \<Rightarrow> lexer \<Rightarrow> lexer" where
  "yy_load_buffer_state buf n l = l\<lparr>yy_ch_buf := buf, yy_n_chars := n, yy_c_buf_p := 0\<rparr>"

definition yy_scan_buffer :: "string \<Rightarrow> lexer \<Rightarrow> lexer option" where
  "yy_scan_buffer base l =
     (if length base < 2 \<or> base ! (length base - 2) \<noteq> NUL \<or> base ! (length base - 1) \<noteq> NUL
      then None
      else Some (yy_load_buffer_state base (length base - 2) l))"

definition yy_scan_bytes :: "string \<Rightarrow> lexer \<Rightarrow> lexer option" where
  "yy_scan_bytes yybytes l = yy_scan_buffer (yybytes @ [NUL, NUL]) l"

definition yy_scan_string :: "string \<Rightarrow> lexer \<Rightarrow> lexer option" where
  "yy_scan_string yystr l = yy_scan_bytes (cstr yystr) l"

section \<open>Matching\<close>

text \<open>
  One transition: follow the default chain until the state owns the entry, then take it. The chain
  ends, which the C loop relies on, because the tables are what they are (\<open>yy_next_total\<close> below).
\<close>

partial_function (option) yy_next :: "nat \<Rightarrow> nat \<Rightarrow> nat option" where
  "yy_next s c =
     do { b \<leftarrow> rd yy_base s;
          k \<leftarrow> rd yy_chk (b + c);
          if k \<noteq> s
          then do { s' \<leftarrow> rd yy_def s;
                    if 53 \<le> s' then do { c' \<leftarrow> rd yy_meta c; yy_next s' c' } else yy_next s' c }
          else rd yy_nxt (b + c) }"

declare yy_next.simps [code]

definition note_accept :: "nat \<Rightarrow> nat \<Rightarrow> nat \<times> nat \<Rightarrow> (nat \<times> nat) option" where
  "note_accept s cp la = do { a \<leftarrow> rd yy_accept s; Some (if a \<noteq> 0 then (s, cp) else la) }"

text \<open>\<open>yy_match\<close>: the loop from \<open>cp\<close> on, over the characters from \<open>cp\<close> to the end of the buffer.\<close>

fun yy_match :: "string \<Rightarrow> nat \<Rightarrow> nat \<Rightarrow> nat \<times> nat \<Rightarrow> (nat \<times> nat \<times> nat \<times> nat) option" where
  "yy_match [] s cp la = None"
| "yy_match (ch # chs) s cp la =
     do { c \<leftarrow> rd yy_ec (char_code ch);
          la1 \<leftarrow> note_accept s cp la;
          s1 \<leftarrow> yy_next s c;
          b \<leftarrow> rd yy_base s1;
          if b \<noteq> 73 then yy_match chs s1 (Suc cp) la1 else Some (s1, Suc cp, la1) }"

fun yy_get_previous_state ::
  "string \<Rightarrow> nat \<Rightarrow> nat \<Rightarrow> nat \<times> nat \<Rightarrow> (nat \<times> nat \<times> nat) option" where
  "yy_get_previous_state [] s cp la = Some (s, la)"
| "yy_get_previous_state (ch # chs) s cp la =
     do { c \<leftarrow> (if ch \<noteq> NUL then rd yy_ec (char_code ch) else Some 1);
          la1 \<leftarrow> note_accept s cp la;
          s1 \<leftarrow> yy_next s c;
          yy_get_previous_state chs s1 (Suc cp) la1 }"

definition yy_try_NUL_trans :: "nat \<Rightarrow> nat \<Rightarrow> nat \<times> nat \<Rightarrow> (nat \<times> nat \<times> nat) option" where
  "yy_try_NUL_trans s cp la =
     do { la1 \<leftarrow> note_accept s cp la;
          s1 \<leftarrow> yy_next s 1;
          Some (if s1 = 52 then 0 else s1, la1) }"

text \<open>
  From a label of \<open>yylex\<close> to the action it selects: \<open>Act n cp\<close> is rule \<open>n\<close> with the token ending
  before \<open>cp\<close>, \<open>Eof\<close> the end-of-file action. Rule 24 is the end-of-buffer action: a NUL inside the
  script is scanned on, the end of the script either ends the scan (\<open>yywrap\<close> is 1 and the buffer of
  \<open>yy_scan_bytes\<close> is not refilled) or re-scans the text before it as the last token. Backing up to a
  state that accepts nothing would not end, and is \<^term>\<open>None\<close>; so is the "end of buffer missed"
  fatal error.
\<close>

datatype scan_result = Act nat nat | Eof

datatype scan_label = At_match nat nat "nat \<times> nat" | At_find_action nat nat "nat \<times> nat"

partial_function (option) yy_scan ::
  "string \<Rightarrow> nat \<Rightarrow> nat \<Rightarrow> nat \<Rightarrow> scan_label \<Rightarrow> (scan_result \<times> nat \<times> nat) option" where
  "yy_scan buf n start bp lbl =
     (case lbl of
        At_match s cp la \<Rightarrow>
          do { m \<leftarrow> yy_match (drop cp buf) s cp la;
               yy_scan buf n start bp (At_find_action (fst m) (fst (snd m)) (snd (snd m))) }
      | At_find_action s cp la \<Rightarrow>
          do { a0 \<leftarrow> rd yy_accept s;
               a \<leftarrow> (if a0 = 0 then rd yy_accept (fst la) else Some a0);
               (let cp1 = (if a0 = 0 then snd la else cp)
                in if a = 0 then None
                   else if a \<noteq> 24 then Some (Act a cp1, la)
                   else if cp1 \<le> n then
                     (let p = bp + (cp1 - bp - 1)
                      in do { q \<leftarrow> yy_get_previous_state (take (p - bp) (drop bp buf)) start bp la;
                              t \<leftarrow> yy_try_NUL_trans (fst q) p (snd q);
                              if fst t \<noteq> 0
                              then yy_scan buf n start bp (At_match (fst t) (Suc p) (snd t))
                              else yy_scan buf n start bp (At_find_action (fst q) p (snd t)) })
                   else if n + 1 < cp1 then None
                   else if cp1 - bp = 1 then Some (Eof, la)
                   else do { q \<leftarrow> yy_get_previous_state (take (n - bp) (drop bp buf)) start bp la;
                             yy_scan buf n start bp (At_find_action (fst q) n (snd q)) }) })"

declare yy_scan.simps [code]

section \<open>Actions\<close>

abbreviation T_AND :: int where "T_AND \<equiv> 258"
abbreviation T_OR :: int where "T_OR \<equiv> 259"
abbreviation T_EQ :: int where "T_EQ \<equiv> 262"
abbreviation T_NE :: int where "T_NE \<equiv> 263"
abbreviation T_IF :: int where "T_IF \<equiv> 264"
abbreviation T_THEN :: int where "T_THEN \<equiv> 265"
abbreviation T_ELSE :: int where "T_ELSE \<equiv> 266"
abbreviation T_ENDIF :: int where "T_ENDIF \<equiv> 267"
abbreviation T_STRING :: int where "T_STRING \<equiv> 268"
abbreviation T_BAD :: int where "T_BAD \<equiv> 269"

definition ADVANCE :: "nat \<Rightarrow> lexer \<Rightarrow> lexer" where
  "ADVANCE yyleng l =
     l\<lparr>yylloc := \<lparr>loc_start = gPos l, loc_end = gPos l + int yyleng\<rparr>,
       gColumn := gColumn l + int yyleng, gPos := gPos l + int yyleng\<rparr>"

text \<open>\<open>*string_pos++ = c\<close>, undefined when \<open>string_pos\<close> is behind the buffer.\<close>

definition put_string_char :: "char \<Rightarrow> lexer \<Rightarrow> lexer option" where
  "put_string_char c l =
     (if length (string_buffer l) < MAX_STRING_LEN
      then Some (l\<lparr>string_buffer := string_buffer l @ [c]\<rparr>) else None)"

definition move :: "nat \<Rightarrow> lexer \<Rightarrow> lexer" where
  "move k l = l\<lparr>gColumn := gColumn l + int k, gPos := gPos l + int k\<rparr>"

text \<open>\<open>sscanf (yytext + 2, "%x", &val)\<close> on the two hexadecimal digits of rule 7.\<close>

definition hex_escape :: "string \<Rightarrow> char" where
  "hex_escape txt = char_of (fst (digits_from 16 (take 2 (drop 2 txt)) 0))"

text \<open>The value \<open>yylex\<close> returns, or \<^term>\<open>None\<close> inside when the action goes on scanning.\<close>

definition yy_action :: "nat \<Rightarrow> string \<Rightarrow> lexer \<Rightarrow> (int option \<times> lexer) option" where
  "yy_action act txt l =
     (let leng = length txt in
      if act = 1 then
        Some (None, move 1 (l\<lparr>yy_start := 3, string_buffer := [],
                              yylloc := (yylloc l)\<lparr>loc_start := gPos l\<rparr>\<rparr>))
      else if act = 2 then
        (let l1 = (move 1 l)\<lparr>yy_start := 1\<rparr>
         in if length (string_buffer l1) < MAX_STRING_LEN
            then Some (Some T_STRING,
                   l1\<lparr>yylval := cstr (string_buffer l1),
                      yylloc := (yylloc l1)\<lparr>loc_end := gPos l1\<rparr>\<rparr>)
            else None)
      else if act = 3 then map_option (Pair None) (put_string_char (CHR 0x0A) (move leng l))
      else if act = 4 then map_option (Pair None) (put_string_char (CHR 0x09) (move leng l))
      else if act = 5 then map_option (Pair None) (put_string_char (CHR 0x22) (move leng l))
      else if act = 6 then map_option (Pair None) (put_string_char (CHR 0x5C) (move leng l))
      else if act = 7 then map_option (Pair None) (put_string_char (hex_escape txt) (move leng l))
      else if act = 8 then
        do { c \<leftarrow> rd txt 0;
             map_option (Pair None)
               (put_string_char c (l\<lparr>gLine := gLine l + 1, gPos := gPos l + 1, gColumn := 1\<rparr>)) }
      else if act = 9 then
        do { c \<leftarrow> rd txt 0; map_option (Pair None) (put_string_char c (move 1 l)) }
      else if act = 10 then Some (Some T_IF, ADVANCE leng l)
      else if act = 11 then Some (Some T_THEN, ADVANCE leng l)
      else if act = 12 then Some (Some T_ELSE, ADVANCE leng l)
      else if act = 13 then Some (Some T_ENDIF, ADVANCE leng l)
      else if act = 14 then Some (Some T_STRING, (ADVANCE leng l)\<lparr>yylval := cstr txt\<rparr>)
      else if act = 15 then Some (Some T_AND, ADVANCE leng l)
      else if act = 16 then Some (Some T_OR, ADVANCE leng l)
      else if act = 17 then Some (Some T_EQ, ADVANCE leng l)
      else if act = 18 then Some (Some T_NE, ADVANCE leng l)
      else if act = 19 then
        do { c \<leftarrow> rd txt 0; Some (Some (int (char_code c)), ADVANCE leng l) }
      else if act = 20 then Some (None, ADVANCE leng l)
      else if act = 21 then
        Some (None, l\<lparr>gPos := gPos l + int leng, gLine := gLine l + 1, gColumn := 1\<rparr>)
      else if act = 22 then Some (Some T_BAD, l)
      else None)"

definition yy_next_token :: "lexer \<Rightarrow> (int option \<times> lexer) option" where
  "yy_next_token l =
     (let bp = yy_c_buf_p l
      in do { r \<leftarrow> yy_scan (yy_ch_buf l) (yy_n_chars l) (yy_start l) bp
                      (At_match (yy_start l) bp
                         (yy_last_accepting_state l, yy_last_accepting_cpos l));
              (let l1 = l\<lparr>yy_last_accepting_state := fst (snd r),
                          yy_last_accepting_cpos := snd (snd r)\<rparr>
               in case fst r of
                    Eof \<Rightarrow> Some (Some 0, l1)
                  | Act a cp \<Rightarrow>
                      yy_action a (take (cp - bp) (drop bp (yy_ch_buf l)))
                        (l1\<lparr>yy_c_buf_p := cp\<rparr>)) })"

text \<open>\<open>yylex\<close>: scan and act until an action returns. A \<open>return\<close> of 0 is the end of the input.\<close>

partial_function (option) yylex :: "lexer \<Rightarrow> (int \<times> lexer) option" where
  "yylex l =
     do { r \<leftarrow> yy_next_token l;
          (case fst r of Some tok \<Rightarrow> Some (tok, snd r) | None \<Rightarrow> yylex (snd r)) }"

declare yylex.simps [code]

end
