(* ===== verification/EdifyRegistry.thy ===== *)
theory EdifyRegistry
  imports EdifyTypes
begin

text \<open>
  The function table of edify/expr.c: \<open>fn_entries\<close>, \<open>fn_size\<close> and \<open>fn_table\<close>, with the slots
  \<open>realloc\<close> adds uninitialised (\<^term>\<open>None\<close>). \<open>qsort\<close> and \<open>bsearch\<close> are the C library's: an insertion
  sort by the comparison function (the result is unique when the names differ), and the halving
  search of the C library the program is built against.
\<close>

type_synonym named_function = "string \<times> efn"

record fn_registry =
  fn_entries :: nat
  fn_size :: nat
  fn_table :: "named_function option list"

definition fn_registry_init :: fn_registry where
  "fn_registry_init = \<lparr>fn_entries = 0, fn_size = 0, fn_table = []\<rparr>"

definition RegisterFunction :: "string \<Rightarrow> efn \<Rightarrow> fn_registry \<Rightarrow> fn_registry option" where
  "RegisterFunction name fn r =
     (let r1 = (if fn_entries r \<ge> fn_size r
                then (let sz = fn_size r * 2 + 1
                      in r\<lparr>fn_size := sz,
                           fn_table := fn_table r @ replicate (sz - length (fn_table r)) None\<rparr>)
                else r)
      in do { t \<leftarrow> wr (fn_table r1) (fn_entries r1) (Some (name, fn));
              Some (r1\<lparr>fn_table := t, fn_entries := Suc (fn_entries r1)\<rparr>) })"

definition fn_entry_compare :: "named_function \<Rightarrow> named_function \<Rightarrow> int" where
  "fn_entry_compare a b = strcmp (fst a) (fst b)"

fun insert_entry :: "named_function \<Rightarrow> named_function list \<Rightarrow> named_function list" where
  "insert_entry x [] = [x]"
| "insert_entry x (y # ys) =
     (if fn_entry_compare x y \<le> 0 then x # y # ys else y # insert_entry x ys)"

fun qsort_entries :: "named_function list \<Rightarrow> named_function list" where
  "qsort_entries [] = []"
| "qsort_entries (x # xs) = insert_entry x (qsort_entries xs)"

definition FinishRegistration :: "fn_registry \<Rightarrow> fn_registry option" where
  "FinishRegistration r =
     do { es \<leftarrow> those (take (fn_entries r) (fn_table r));
          Some (r\<lparr>fn_table := map Some (qsort_entries es) @ drop (fn_entries r) (fn_table r)\<rparr>) }"

fun bsearch :: "string \<Rightarrow> named_function option list \<Rightarrow> nat \<Rightarrow> nat \<Rightarrow> efn option option" where
  "bsearch key tbl base lim =
     (if lim = 0 then Some None
      else do { slot \<leftarrow> rd tbl (base + lim div 2);
                nf \<leftarrow> slot;
                (let c = fn_entry_compare (key, snd nf) nf
                 in if c = 0 then Some (Some (snd nf))
                    else if 0 < c then bsearch key tbl (base + lim div 2 + 1) ((lim - 1) div 2)
                    else bsearch key tbl base (lim div 2)) })"

declare bsearch.simps [simp del]

definition FindFunction :: "fn_registry \<Rightarrow> string \<Rightarrow> efn option option" where
  "FindFunction r name = bsearch name (fn_table r) 0 (fn_entries r)"

fun register_all :: "named_function list \<Rightarrow> fn_registry \<Rightarrow> fn_registry option" where
  "register_all [] r = Some r"
| "register_all (x # xs) r =
     do { r1 \<leftarrow> RegisterFunction (fst x) (snd x) r; register_all xs r1 }"

definition builtin_functions :: "named_function list" where
  "builtin_functions =
     [(''ifelse'', Fn_IfElse), (''abort'', Fn_Abort), (''assert'', Fn_Assert),
      (''concat'', Fn_Concat), (''is_substring'', Fn_Substring), (''stdout'', Fn_Stdout),
      (''sleep'', Fn_Sleep), (''less_than_int'', Fn_LessThanInt),
      (''greater_than_int'', Fn_GreaterThanInt)]"

definition RegisterBuiltins :: "fn_registry \<Rightarrow> fn_registry option" where
  "RegisterBuiltins r = register_all builtin_functions r"

definition install_functions :: "named_function list" where
  "install_functions =
     [(''insmod'', Fn_InsModule), (''rmmod'', Fn_RmModule), (''module_loaded'', Fn_ModuleLoaded),
      (''kill_process'', Fn_KillProcess), (''kill_pidfile'', Fn_KillProcessByPID),
      (''file_exists'', Fn_FileExists), (''file_write'', Fn_WriteFile),
      (''file_unlink'', Fn_UnlinkFile), (''load_wifi'', Fn_LoadWifi),
      (''unload_wifi'', Fn_UnloadWifi), (''log'', Fn_Log), (''whitelist_macs'', Fn_WhiteListMacs),
      (''show_progress'', Fn_ShowProgress), (''set_progress'', Fn_SetProgress),
      (''getprop'', Fn_GetProp), (''setprop'', Fn_SetProp), (''getcfg'', Fn_GetCfg),
      (''action'', Fn_GetAction), (''ui_print'', Fn_UIPrint), (''run_program'', Fn_RunProgram)]"

definition RegisterInstallFunctions :: "fn_registry \<Rightarrow> fn_registry option" where
  "RegisterInstallFunctions r = register_all install_functions r"

section \<open>The registry interface\<close>

text \<open>
  What a client of the table relies on: registering appends an entry, finishing the registration
  keeps the entries' meaning and makes the table searchable, and a search then answers for every
  name.
\<close>

locale name_registry =
  fixes register :: "'n \<Rightarrow> 'f \<Rightarrow> 'r \<Rightarrow> 'r option"
    and finish :: "'r \<Rightarrow> 'r option"
    and find :: "'r \<Rightarrow> 'n \<Rightarrow> 'f option option"
    and entries :: "'r \<Rightarrow> ('n \<times> 'f) list"
    and inv :: "'r \<Rightarrow> bool"
    and searchable :: "'r \<Rightarrow> bool"
  assumes register_entries:
      "inv r \<Longrightarrow> \<exists>r'. register n f r = Some r' \<and> inv r' \<and> entries r' = entries r @ [(n, f)]"
    and finish_map:
      "inv r \<Longrightarrow> distinct (map fst (entries r)) \<Longrightarrow>
         \<exists>r'. finish r = Some r' \<and> inv r' \<and> searchable r' \<and>
           set (entries r') = set (entries r) \<and> map_of (entries r') = map_of (entries r)"
    and find_map: "inv r \<Longrightarrow> searchable r \<Longrightarrow> find r n = Some (map_of (entries r) n)"
begin

fun reg_all :: "('n \<times> 'f) list \<Rightarrow> 'r \<Rightarrow> 'r option" where
  "reg_all [] r = Some r"
| "reg_all (x # xs) r = do { r1 \<leftarrow> register (fst x) (snd x) r; reg_all xs r1 }"

lemma reg_all_entries:
  "inv r \<Longrightarrow> \<exists>r'. reg_all xs r = Some r' \<and> inv r' \<and> entries r' = entries r @ xs"
proof (induction xs arbitrary: r)
  case Nil
  then show ?case by simp
next
  case (Cons x xs)
  obtain r1 where r1: "register (fst x) (snd x) r = Some r1" "inv r1" "entries r1 = entries r @ [x]"
    using register_entries [OF Cons.prems, of "fst x" "snd x"] by auto
  from Cons.IH [OF r1(2)] obtain r' where
    "reg_all xs r1 = Some r'" "inv r'" "entries r' = entries r1 @ xs" by blast
  with r1 show ?case by simp
qed

lemma reg_all_append: "reg_all (xs @ ys) r = Option.bind (reg_all xs r) (reg_all ys)"
proof (induction xs arbitrary: r)
  case (Cons x xs)
  then show ?case by (cases "register (fst x) (snd x) r") simp_all
qed simp

lemma lookup_after_finish:
  assumes "inv r" and "entries r = []" and "distinct (map fst xs)"
  shows "\<exists>r'. Option.bind (reg_all xs r) finish = Some r' \<and> inv r' \<and> searchable r' \<and>
              set (entries r') = set xs \<and> (\<forall>n. find r' n = Some (map_of xs n))"
proof -
  obtain r1 where r1: "reg_all xs r = Some r1" "inv r1" "entries r1 = xs"
    using reg_all_entries [OF assms(1), of xs] assms(2) by auto
  from finish_map [OF r1(2)] assms(3) r1(3) obtain r' where
    "finish r1 = Some r'" "inv r'" "searchable r'" "set (entries r') = set xs" "map_of (entries r') = map_of xs" by auto
  with r1(1) find_map show ?thesis by auto
qed

end

section \<open>The table meets the interface\<close>

definition reg_entries :: "fn_registry \<Rightarrow> named_function list" where
  "reg_entries r = map the (take (fn_entries r) (fn_table r))"

definition reg_inv :: "fn_registry \<Rightarrow> bool" where
  "reg_inv r \<longleftrightarrow> fn_entries r \<le> fn_size r \<and> length (fn_table r) = fn_size r \<and>
                 (\<forall>x \<in> set (take (fn_entries r) (fn_table r)). x \<noteq> None)"

definition entry_less :: "named_function \<Rightarrow> named_function \<Rightarrow> bool" where
  "entry_less a b \<longleftrightarrow> fn_entry_compare a b < 0"

definition reg_searchable :: "fn_registry \<Rightarrow> bool" where
  "reg_searchable r \<longleftrightarrow> sorted_wrt entry_less (reg_entries r)"

lemma reg_inv_init: "reg_inv fn_registry_init" "reg_entries fn_registry_init = []"
  by (simp_all add: reg_inv_def reg_entries_def fn_registry_init_def)

lemma RegisterFunction_entries:
  assumes "reg_inv r"
  shows "\<exists>r'. RegisterFunction n f r = Some r' \<and> reg_inv r' \<and>
              reg_entries r' = reg_entries r @ [(n, f)]"
proof -
  define t where "t = (if fn_entries r \<ge> fn_size r
     then fn_table r @ replicate (fn_size r * 2 + 1 - length (fn_table r)) None else fn_table r)"
  define sz where "sz = (if fn_entries r \<ge> fn_size r then fn_size r * 2 + 1 else fn_size r)"
  have len: "length t = sz" and lt: "fn_entries r < sz"
    and pre: "take (fn_entries r) t = take (fn_entries r) (fn_table r)"
    using assms by (auto simp: t_def sz_def reg_inv_def)
  have "RegisterFunction n f r =
      Some (r\<lparr>fn_size := sz, fn_table := t[fn_entries r := Some (n, f)],
             fn_entries := Suc (fn_entries r)\<rparr>)"
    using len lt by (auto simp: RegisterFunction_def t_def sz_def wr_def Let_def)
  moreover have "take (Suc (fn_entries r)) (t[fn_entries r := Some (n, f)])
      = take (fn_entries r) (fn_table r) @ [Some (n, f)]"
    using len lt pre by (simp add: take_Suc_conv_app_nth)
  ultimately show ?thesis
    using assms len lt by (auto simp: reg_inv_def reg_entries_def)
qed

lemma set_insert_entry: "set (insert_entry x xs) = insert x (set xs)"
  by (induction xs) auto

lemma set_qsort_entries: "set (qsort_entries xs) = set xs"
  by (induction xs) (auto simp: set_insert_entry)

lemma length_qsort_entries: "length (qsort_entries xs) = length xs"
proof -
  have "length (insert_entry x ys) = Suc (length ys)" for x ys
    by (induction ys) auto
  then show ?thesis by (induction xs) auto
qed

lemma entry_less_trans: "entry_less a b \<Longrightarrow> entry_less b c \<Longrightarrow> entry_less a c"
  by (auto simp: entry_less_def fn_entry_compare_def intro: strcmp_trans)

lemma entry_cmp_cases:
  "fst a \<noteq> fst b \<Longrightarrow> entry_less a b \<or> entry_less b a"
  using strcmp_range [of "fst a" "fst b"] strcmp_antisym [of "fst a" "fst b"]
  by (auto simp: entry_less_def fn_entry_compare_def)

lemma insert_entry_sorted:
  "sorted_wrt entry_less ys \<Longrightarrow> fst x \<notin> fst ` set ys \<Longrightarrow> sorted_wrt entry_less (insert_entry x ys)"
proof (induction ys)
  case (Cons y ys)
  show ?case
  proof (cases "fn_entry_compare x y \<le> 0")
    case True
    with Cons.prems have "entry_less x y"
      by (auto simp: entry_less_def fn_entry_compare_def order.order_iff_strict)
    with True Cons.prems show ?thesis by (auto intro: entry_less_trans)
  next
    case False
    then have "entry_less y x"
      using strcmp_antisym [of "fst x" "fst y"] by (auto simp: entry_less_def fn_entry_compare_def)
    with False Cons show ?thesis by (auto simp: set_insert_entry)
  qed
qed simp

lemma qsort_entries_sorted:
  "distinct (map fst xs) \<Longrightarrow> sorted_wrt entry_less (qsort_entries xs)"
  by (induction xs) (auto intro!: insert_entry_sorted simp: set_qsort_entries)

lemma sorted_distinct_names: "sorted_wrt entry_less xs \<Longrightarrow> distinct (map fst xs)"
proof (induction xs)
  case (Cons a xs)
  have "fst x \<noteq> fst a" if "x \<in> set xs" for x
    using Cons.prems that by (auto simp: entry_less_def fn_entry_compare_def)
  then have "fst a \<notin> fst ` set xs" by (metis imageE)
  with Cons show ?case by simp
qed simp

lemma map_of_qsort_entries:
  assumes "distinct (map fst xs)"
  shows "map_of (qsort_entries xs) = map_of xs"
proof (rule ext)
  fix n
  have d: "distinct (map fst (qsort_entries xs))"
    by (rule sorted_distinct_names) (rule qsort_entries_sorted [OF assms])
  show "map_of (qsort_entries xs) n = map_of xs n"
  proof (cases "map_of xs n")
    case None
    then have "map_of (qsort_entries xs) n = None"
      by (simp add: map_of_eq_None_iff set_qsort_entries)
    with None show ?thesis by simp
  next
    case (Some v)
    then have "(n, v) \<in> set (qsort_entries xs)"
      by (auto simp: set_qsort_entries dest: map_of_SomeD)
    with d Some show ?thesis by simp
  qed
qed

lemma those_map_Some: "(\<forall>x \<in> set xs. x \<noteq> None) \<Longrightarrow> those xs = Some (map the xs)"
  by (induction xs) auto

lemma FinishRegistration_map:
  assumes "reg_inv r" and "distinct (map fst (reg_entries r))"
  shows "\<exists>r'. FinishRegistration r = Some r' \<and> reg_inv r' \<and> reg_searchable r' \<and>
              set (reg_entries r') = set (reg_entries r) \<and> map_of (reg_entries r') = map_of (reg_entries r)"
proof -
  let ?es = "reg_entries r"
  let ?t = "map Some (qsort_entries ?es) @ drop (fn_entries r) (fn_table r)"
  have len: "length ?es = fn_entries r"
    using assms(1) by (simp add: reg_entries_def reg_inv_def)
  have those: "those (take (fn_entries r) (fn_table r)) = Some ?es"
    using assms(1) by (simp add: reg_inv_def reg_entries_def those_map_Some)
  have tk: "take (fn_entries r) ?t = map Some (qsort_entries ?es)"
    by (simp add: length_qsort_entries len)
  have "reg_entries (r\<lparr>fn_table := ?t\<rparr>) = map the (take (fn_entries r) ?t)"
    by (simp add: reg_entries_def [of "r\<lparr>fn_table := ?t\<rparr>"])
  also have "\<dots> = qsort_entries ?es"
    unfolding tk by (simp add: comp_def)
  finally have "reg_entries (r\<lparr>fn_table := ?t\<rparr>) = qsort_entries ?es" .
  moreover have "reg_inv (r\<lparr>fn_table := ?t\<rparr>)"
    using assms(1) tk by (auto simp: reg_inv_def length_qsort_entries len)
  ultimately show ?thesis
    using assms(2)
    by (simp add: FinishRegistration_def those reg_searchable_def qsort_entries_sorted
        map_of_qsort_entries set_qsort_entries)
qed

lemma seg_split:
  assumes "0 < lim" and "base + lim \<le> length es"
  shows "take lim (drop base es) =
     take (lim div 2) (drop base es) @ es ! (base + lim div 2)
       # take ((lim - 1) div 2) (drop (base + lim div 2 + 1) es)"
proof -
  have "lim = lim div 2 + Suc ((lim - 1) div 2)"
    using assms(1) by presburger
  then have "take lim (drop base es) = take (lim div 2) (drop base es)
      @ take (Suc ((lim - 1) div 2)) (drop (lim div 2) (drop base es))"
    by (metis take_add)
  moreover have "drop (lim div 2) (drop base es)
      = es ! (base + lim div 2) # drop (base + lim div 2 + 1) es"
    using assms by (simp add: Cons_nth_drop_Suc add.commute)
  ultimately show ?thesis by simp
qed

lemma map_of_seg_less:
  assumes "sorted_wrt entry_less es" and "m < length es" and "strcmp key (fst (es ! m)) < 0"
  shows "map_of (take k (drop (m + 1) es)) key = None"
proof -
  have "x \<in> set (take k (drop (m + 1) es)) \<Longrightarrow> fst x \<noteq> key" for x
  proof -
    assume "x \<in> set (take k (drop (m + 1) es))"
    then have "x \<in> set (drop (m + 1) es)" by (rule in_set_takeD)
    then obtain j where "m < j" "j < length es" "x = es ! j"
      by (auto simp: set_conv_nth) (metis add_Suc_right le_add1 le_imp_less_Suc less_diff_conv add.commute)
    with assms(1,2) have "entry_less (es ! m) x"
      by (simp add: sorted_wrt_iff_nth_less)
    with assms(3) show ?thesis
      using strcmp_antisym [of "fst x" "fst (es ! m)"]
      by (auto simp: entry_less_def fn_entry_compare_def)
  qed
  then show ?thesis by (auto simp: map_of_eq_None_iff)
qed

lemma map_of_seg_greater:
  assumes "sorted_wrt entry_less es" and "m < length es" and "0 \<le> strcmp key (fst (es ! m))"
    and "b + k \<le> m"
  shows "map_of (take k (drop b es)) key = None"
proof -
  have "fst x \<noteq> key" if "x \<in> set (take k (drop b es))" for x
  proof -
    from that obtain i where i: "i < k" "x = es ! (b + i)"
      by (auto simp: in_set_conv_nth)
    then have "b + i < m" using assms(4) by linarith
    define j where "j = b + i"
    with i \<open>b + i < m\<close> have "j < m" "x = es ! j" by simp_all
    with assms(1,2) have "entry_less x (es ! m)"
      by (simp add: sorted_wrt_iff_nth_less)
    with assms(3) show ?thesis
      by (auto simp: entry_less_def fn_entry_compare_def)
  qed
  then show ?thesis by (auto simp: map_of_eq_None_iff)
qed

lemma bsearch_map_of:
  assumes "sorted_wrt entry_less es"
  shows "take (length es) tbl = map Some es \<Longrightarrow> base + lim \<le> length es \<Longrightarrow>
         bsearch key tbl base lim = Some (map_of (take lim (drop base es)) key)"
proof (induction key tbl base lim rule: bsearch.induct)
  case (1 key tbl base lim)
  show ?case
  proof (cases "lim = 0")
    case True
    then show ?thesis by (subst bsearch.simps) simp
  next
    case False
    let ?m = "base + lim div 2"
    have m: "?m < length es" using False 1(4) by linarith
    have slot: "rd tbl ?m = Some (Some (es ! ?m))"
    proof -
      have "take (length es) tbl ! ?m = Some (es ! ?m)" "?m < length (take (length es) tbl)"
        using m 1(3) by simp_all
      then show ?thesis by (simp add: rd_def)
    qed
    let ?c = "strcmp key (fst (es ! ?m))"
    have cmp: "fn_entry_compare (key, snd (es ! ?m)) (es ! ?m) = ?c"
      by (simp add: fn_entry_compare_def)
    have unfold: "bsearch key tbl base lim =
        (if ?c = 0 then Some (Some (snd (es ! ?m)))
         else if 0 < ?c then bsearch key tbl (?m + 1) ((lim - 1) div 2)
         else bsearch key tbl base (lim div 2))"
      using False by (subst bsearch.simps) (simp add: slot cmp Let_def)
    have split: "map_of (take lim (drop base es)) key =
        (case map_of (take ((lim - 1) div 2) (drop (?m + 1) es)) key of
           Some v \<Rightarrow> (case map_of (take (lim div 2) (drop base es)) key of None \<Rightarrow>
               (if key = fst (es ! ?m) then Some (snd (es ! ?m)) else Some v) | Some w \<Rightarrow> Some w)
         | None \<Rightarrow> (case map_of (take (lim div 2) (drop base es)) key of None \<Rightarrow>
               (if key = fst (es ! ?m) then Some (snd (es ! ?m)) else None) | Some w \<Rightarrow> Some w))"
      using False 1(4)
      by (subst seg_split) (auto simp: map_add_def fun_upd_def split: option.splits)
    consider "?c = 0" | "0 < ?c" | "?c < 0" by linarith
    then show ?thesis
    proof cases
      case 1
      then show ?thesis
        using split map_of_seg_greater [OF assms m, of key base "lim div 2"] unfold
        by (auto split: option.splits)
    next
      case 2
      then have "bsearch key tbl (?m + 1) ((lim - 1) div 2)
          = Some (map_of (take ((lim - 1) div 2) (drop (?m + 1) es)) key)"
        using False "1.prems" cmp by (intro "1.IH"(1) [OF False slot refl refl]) auto
      then show ?thesis
        using 2 split map_of_seg_greater [OF assms m, of key base "lim div 2"] unfold
        by (auto split: option.splits)
    next
      case 3
      then have "bsearch key tbl base (lim div 2)
          = Some (map_of (take (lim div 2) (drop base es)) key)"
        using False "1.prems" cmp by (intro "1.IH"(2) [OF False slot refl refl]) auto
      then show ?thesis
        using 3 split map_of_seg_less [OF assms m, of key "(lim - 1) div 2"] unfold
        by (auto split: option.splits)
    qed
  qed
qed

lemma FindFunction_map_of:
  assumes "reg_inv r" and "reg_searchable r"
  shows "FindFunction r name = Some (map_of (reg_entries r) name)"
proof -
  have "take (length (reg_entries r)) (fn_table r) = map Some (reg_entries r)"
    using assms(1)
    by (auto simp: reg_inv_def reg_entries_def comp_def intro!: map_idI [symmetric])
  moreover have "length (reg_entries r) = fn_entries r"
    using assms(1) by (simp add: reg_inv_def reg_entries_def)
  ultimately show ?thesis
    using bsearch_map_of [of "reg_entries r" "fn_table r" 0 "fn_entries r" name] assms(2)
    by (simp add: FindFunction_def reg_searchable_def)
qed

interpretation reg: name_registry RegisterFunction FinishRegistration FindFunction
  reg_entries reg_inv reg_searchable
  by unfold_locales
     (auto intro: RegisterFunction_entries FinishRegistration_map FindFunction_map_of)

lemma register_all_eq: "register_all xs r = reg.reg_all xs r"
proof (induction xs arbitrary: r)
  case (Cons x xs)
  then show ?case by (cases "RegisterFunction (fst x) (snd x) r") simp_all
qed simp

section \<open>The two registration sequences of the program\<close>

definition host_registry :: "fn_registry option" where
  "host_registry = do { r \<leftarrow> RegisterBuiltins fn_registry_init; FinishRegistration r }"

definition device_registry :: "fn_registry option" where
  "device_registry =
     do { r \<leftarrow> RegisterBuiltins fn_registry_init;
          r2 \<leftarrow> RegisterInstallFunctions r;
          FinishRegistration r2 }"

lemma distinct_device_names: "distinct (map fst (builtin_functions @ install_functions))"
  by (simp add: builtin_functions_def install_functions_def)

lemma device_registry_eq:
  "device_registry =
     Option.bind (reg.reg_all (builtin_functions @ install_functions) fn_registry_init) FinishRegistration"
  by (simp add: device_registry_def RegisterBuiltins_def RegisterInstallFunctions_def
      register_all_eq reg.reg_all_append Option.bind_assoc)

text \<open>
  C5. After \<open>RegisterBuiltins\<close>, \<open>RegisterInstallFunctions\<close> and \<open>FinishRegistration\<close>, as
  \<open>adhoc.c\<close> calls them, the table has been built without a write outside it, its entries are
  exactly what was registered, in strictly ascending order of their names, and
  \<open>FindFunction\<close> finds under every name exactly the function registered under it, and NULL under
  any other.
\<close>

theorem device_registry_lookup:
  "\<exists>r. device_registry = Some r \<and> reg_inv r \<and> sorted_wrt entry_less (reg_entries r) \<and>
       set (reg_entries r) = set (builtin_functions @ install_functions) \<and>
       (\<forall>name. FindFunction r name = Some (map_of (builtin_functions @ install_functions) name))"
  unfolding device_registry_eq
  using reg.lookup_after_finish [OF reg_inv_init distinct_device_names] unfolding reg_searchable_def by metis

lemma device_registry_safe:
  assumes "device_registry = Some r"
  shows "FindFunction r name \<noteq> None"
  using assms reg.lookup_after_finish [OF reg_inv_init distinct_device_names]
  unfolding device_registry_eq by (metis option.distinct(1) option.inject)

lemma host_registry_lookup:
  "\<exists>r. host_registry = Some r \<and> reg_inv r \<and>
       (\<forall>name. FindFunction r name = Some (map_of builtin_functions name))"
proof -
  have "distinct (map fst builtin_functions)"
    using distinct_device_names by simp
  from reg.lookup_after_finish [OF reg_inv_init this] show ?thesis
    unfolding host_registry_def RegisterBuiltins_def register_all_eq by metis
qed

end
