(* ===== verification/EdifyParser.thy ===== *)
theory EdifyParser
  imports EdifyParserTables EdifyLexer EdifyRegistry
begin

text \<open>
  The parser of y.tab.c: the LR automaton over the tables, the semantic actions of parser.y, error
  messages and error recovery. The three stacks are lists with the top first; the value and location
  stacks leave out the bottom element the C code never initialises, so a read of it is
  \<^term>\<open>None\<close>. A value is the member of \<open>YYSTYPE\<close> last written (\<open>yyvalue\<close>), and reading another
  member is \<^term>\<open>None\<close>. \<open>malloc\<close> succeeds. What \<open>printf\<close> writes is collected in \<open>p_out\<close>.
\<close>

section \<open>State\<close>

datatype yyvalue = VStr string | VExpr expr | VArgs "expr list" | VUndef

record parser =
  yyss :: "nat list"
  yyvs :: "yyvalue list"
  yyls :: "yyltype list"
  yystacksize :: nat
  yychar :: int
  yytoken :: nat
  yyerrstatus :: nat
  yynerrs :: nat
  p_lexer :: lexer
  p_root :: "expr option"
  p_error_count :: int
  p_out :: string

definition parser_init :: "expr option \<Rightarrow> int \<Rightarrow> lexer \<Rightarrow> parser" where
  "parser_init r ec l = \<lparr>yyss = [0], yyvs = [], yyls = [], yystacksize = YYINITDEPTH,
     yychar = YYEMPTY, yytoken = 0, yyerrstatus = 0, yynerrs = 0, p_lexer = l, p_root = r,
     p_error_count = ec, p_out = []\<rparr>"

datatype presult = Running parser | Return nat parser

definition str_of :: "yyvalue \<Rightarrow> string option" where
  "str_of v = (case v of VStr s \<Rightarrow> Some s | _ \<Rightarrow> None)"

definition expr_of :: "yyvalue \<Rightarrow> expr option" where
  "expr_of v = (case v of VExpr e \<Rightarrow> Some e | _ \<Rightarrow> None)"

definition args_of :: "yyvalue \<Rightarrow> expr list option" where
  "args_of v = (case v of VArgs as \<Rightarrow> Some as | _ \<Rightarrow> None)"

section \<open>Error messages\<close>

definition yyerror :: "string \<Rightarrow> parser \<Rightarrow> parser" where
  "yyerror s p =
     p\<lparr>p_out := p_out p @ ''line '' @ show_int (gLine (p_lexer p)) @ '' col '' @
         show_int (gColumn (p_lexer p)) @ '': '' @ (if s = [] then ''syntax error'' else s) @ [CHR 0x0A],
       p_error_count := p_error_count p + 1\<rparr>"

definition YYTRANSLATE :: "int \<Rightarrow> nat option" where
  "YYTRANSLATE yyx =
     (if 0 \<le> yyx \<and> yyx \<le> YYMAXUTOK then rdi yytranslate yyx else Some YYUNDEFTOK)"

text \<open>The terminals the state has an entry for, the error token left out.\<close>

fun yyexpecting :: "int \<Rightarrow> nat list \<Rightarrow> string list option" where
  "yyexpecting yyn [] = Some []"
| "yyexpecting yyn (yyx # yyxs) =
     do { c \<leftarrow> rdi yycheck (int yyx + yyn);
          r \<leftarrow> yyexpecting yyn yyxs;
          if c = int yyx \<and> yyx \<noteq> 1 then do { nm \<leftarrow> rd yytname yyx; Some (nm # r) } else Some r }"

fun join_or :: "string list \<Rightarrow> string" where
  "join_or [] = []"
| "join_or [x] = x"
| "join_or (x # y # ys) = x @ '' or '' @ join_or (y # ys)"

text \<open>
  The empty string stands for the result 0. More than four expected tokens are not listed
  (\<open>YYERROR_VERBOSE_ARGS_MAXIMUM\<close> is 5 and counts the unexpected one).
\<close>

definition yysyntax_error :: "nat \<Rightarrow> int \<Rightarrow> string option" where
  "yysyntax_error yystate yych =
     do { yyn \<leftarrow> rd yypact yystate;
          if \<not> (YYPACT_NINF < yyn \<and> yyn \<le> YYLAST) then Some []
          else do {
            yytype \<leftarrow> YYTRANSLATE yych;
            nm \<leftarrow> rd yytname yytype;
            exp \<leftarrow> yyexpecting yyn
                    [nat (if yyn < 0 then - yyn else 0) ..<
                     nat (min (YYLAST - yyn + 1) (int YYNTOKENS))];
            Some (''syntax error, unexpected '' @ nm @
                  (if exp = [] \<or> 4 < length exp then [] else '', expecting '' @ join_or exp)) } }"

section \<open>The automaton\<close>

datatype paction = Shift nat | Reduce nat | Accept | Error_action

definition yydefault :: "nat \<Rightarrow> paction option" where
  "yydefault yystate =
     do { yyn \<leftarrow> rd yydefact yystate; Some (if yyn = 0 then Error_action else Reduce yyn) }"

text \<open>\<open>yybackup\<close> from the point where the look-ahead token is known.\<close>

definition yydecide :: "nat \<Rightarrow> nat \<Rightarrow> paction option" where
  "yydecide yystate yytok =
     do { n0 \<leftarrow> rd yypact yystate;
          (let yyn = n0 + int yytok
           in if yyn < 0 \<or> YYLAST < yyn then yydefault yystate
              else do { c \<leftarrow> rdi yycheck yyn;
                        if c \<noteq> int yytok then yydefault yystate
                        else do { a \<leftarrow> rdi yytable yyn;
                                  Some (if a \<le> 0
                                        then (if a = 0 \<or> a = YYTABLE_NINF then Error_action
                                              else Reduce (nat (- a)))
                                        else if a = YYFINAL then Accept else Shift (nat a)) } }) }"

text \<open>Reading the look-ahead token if there is none, and its translation.\<close>

definition yyread :: "parser \<Rightarrow> parser option" where
  "yyread p =
     do { p1 \<leftarrow> (if yychar p = YYEMPTY
                 then do { r \<leftarrow> yylex (p_lexer p); Some (p\<lparr>yychar := fst r, p_lexer := snd r\<rparr>) }
                 else Some p);
          if yychar p1 \<le> YYEOF then Some (p1\<lparr>yychar := YYEOF, yytoken := 0\<rparr>)
          else do { t \<leftarrow> YYTRANSLATE (yychar p1); Some (p1\<lparr>yytoken := t\<rparr>) } }"

definition yybackup :: "parser \<Rightarrow> (paction \<times> parser) option" where
  "yybackup p =
     do { s \<leftarrow> rd (yyss p) 0;
          n \<leftarrow> rd yypact s;
          if n = YYPACT_NINF then do { a \<leftarrow> yydefault s; Some (a, p) }
          else do { p1 \<leftarrow> yyread p; a \<leftarrow> yydecide s (yytoken p1); Some (a, p1) } }"

text \<open>The state a reduction enters from the state it uncovers.\<close>

definition yygoto :: "nat \<Rightarrow> nat \<Rightarrow> nat option" where
  "yygoto rule s =
     do { lhs \<leftarrow> rd yyr1 rule;
          g \<leftarrow> rd yypgoto (lhs - YYNTOKENS);
          (let yystate = g + int s
           in do { hit \<leftarrow> (if 0 \<le> yystate \<and> yystate \<le> YYLAST
                          then do { c \<leftarrow> rdi yycheck yystate; Some (c = int s) } else Some False);
                   t \<leftarrow> (if hit then rdi yytable yystate else rd yydefgoto (lhs - YYNTOKENS));
                   do { u \<leftarrow> ensure (0 \<le> t); Some (nat t) } }) }"

definition YYLLOC_DEFAULT :: "yyltype list \<Rightarrow> nat \<Rightarrow> yyltype option" where
  "YYLLOC_DEFAULT ls n =
     (if n \<noteq> 0
      then do { a \<leftarrow> rd ls (n - 1); b \<leftarrow> rd ls 0;
                Some \<lparr>loc_start = loc_start a, loc_end = loc_end b\<rparr> }
      else rd ls 0)"

section \<open>Semantic actions\<close>

datatype action_result = Value yyvalue parser | YYERROR parser

definition bin_op :: "efn \<Rightarrow> yyltype \<Rightarrow> yyvalue list \<Rightarrow> parser \<Rightarrow> action_result option" where
  "bin_op fn loc vs p =
     do { a \<leftarrow> rd vs 2; a' \<leftarrow> expr_of a; b \<leftarrow> rd vs 0; b' \<leftarrow> expr_of b;
          Some (Value (VExpr (Build fn loc [a', b'])) p) }"

text \<open>
  The action of rule \<open>n\<close>. \<open>$i\<close> of a rule with \<open>l\<close> symbols is entry \<open>l - i\<close> of the value stack, and
  \<open>@i\<close> of the location stack.
\<close>

definition yyrule :: "fn_registry \<Rightarrow> nat \<Rightarrow> yyltype \<Rightarrow> parser \<Rightarrow> action_result option" where
  "yyrule reg n yyloc p =
     (let vs = yyvs p; ls = yyls p in
      if n = 2 then do { a \<leftarrow> rd vs 0; e \<leftarrow> expr_of a; Some (Value a (p\<lparr>p_root := Some e\<rparr>)) }
      else if n = 3 then
        do { a \<leftarrow> rd vs 0; s \<leftarrow> str_of a;
             Some (Value (VExpr (Expr Fn_Literal s [] (loc_start yyloc) (loc_end yyloc))) p) }
      else if n = 4 then
        do { a \<leftarrow> rd vs 1; e \<leftarrow> expr_of a;
             Some (Value (VExpr (set_span e (loc_start yyloc) (loc_end yyloc))) p) }
      else if n = 5 then
        do { a \<leftarrow> rd vs 1; e \<leftarrow> expr_of a; l \<leftarrow> rd ls 1;
             Some (Value (VExpr (set_span e (loc_start l) (loc_end l))) p) }
      else if n = 6 then bin_op Fn_Sequence yyloc vs p
      else if n = 7 then
        do { a \<leftarrow> rd vs 0; e \<leftarrow> expr_of a;
             Some (Value (VExpr (set_span e (loc_start yyloc) (loc_end yyloc))) p) }
      else if n = 8 then bin_op Fn_Concat yyloc vs p
      else if n = 9 then bin_op Fn_Equality yyloc vs p
      else if n = 10 then bin_op Fn_Inequality yyloc vs p
      else if n = 11 then bin_op Fn_LogicalAnd yyloc vs p
      else if n = 12 then bin_op Fn_LogicalOr yyloc vs p
      else if n = 13 then
        do { a \<leftarrow> rd vs 0; e \<leftarrow> expr_of a; Some (Value (VExpr (Build Fn_LogicalNot yyloc [e])) p) }
      else if n = 14 then
        do { c \<leftarrow> rd vs 3; c' \<leftarrow> expr_of c; t \<leftarrow> rd vs 1; t' \<leftarrow> expr_of t;
             Some (Value (VExpr (Build Fn_IfElse yyloc [c', t'])) p) }
      else if n = 15 then
        do { c \<leftarrow> rd vs 5; c' \<leftarrow> expr_of c; t \<leftarrow> rd vs 3; t' \<leftarrow> expr_of t; e \<leftarrow> rd vs 1; e' \<leftarrow> expr_of e;
             Some (Value (VExpr (Build Fn_IfElse yyloc [c', t', e'])) p) }
      else if n = 16 then
        do { a \<leftarrow> rd vs 3; name \<leftarrow> str_of a; fn \<leftarrow> FindFunction reg name;
             (case fn of
                None \<Rightarrow>
                  Some (YYERROR (yyerror (snprintf_trunc 256
                     (''unknown function '' @ CHR 0x22 # name @ [CHR 0x22])) p))
              | Some f \<Rightarrow>
                  do { b \<leftarrow> rd vs 1; as \<leftarrow> args_of b;
                       Some (Value (VExpr (Expr f name as (loc_start yyloc) (loc_end yyloc))) p) }) }
      else if n = 17 then Some (Value (VArgs []) p)
      else if n = 18 then
        do { a \<leftarrow> rd vs 0; e \<leftarrow> expr_of a; Some (Value (VArgs [e]) p) }
      else if n = 19 then
        do { a \<leftarrow> rd vs 2; as \<leftarrow> args_of a; b \<leftarrow> rd vs 0; e \<leftarrow> expr_of b;
             Some (Value (VArgs (as @ [e])) p) }
      else if n \<le> 1 then do { a \<leftarrow> rd vs 0; Some (Value a p) }
      else None)"

section \<open>Error recovery\<close>

text \<open>Does the state shift the error token?\<close>

definition shifts_error :: "nat \<Rightarrow> nat option option" where
  "shifts_error s =
     do { n \<leftarrow> rd yypact s;
          if n = YYPACT_NINF then Some None
          else if 0 \<le> n + 1 \<and> n + 1 \<le> YYLAST
               then do { c \<leftarrow> rdi yycheck (n + 1);
                         if c = 1 then do { a \<leftarrow> rdi yytable (n + 1);
                                            Some (if 0 < a then Some (nat a) else None) }
                         else Some None }
               else Some None }"

text \<open>
  The popping loop of \<open>yyerrlab1\<close>, with \<open>yyerror_range[0]\<close>: the state the error token is shifted to
  and what is left of the stacks, or \<^term>\<open>None\<close> inside for \<open>YYABORT\<close>.
\<close>

fun yypop :: "nat list \<Rightarrow> yyvalue list \<Rightarrow> yyltype list \<Rightarrow> yyltype \<Rightarrow>
    (nat \<times> nat list \<times> yyvalue list \<times> yyltype list \<times> yyltype) option option" where
  "yypop [] vs ls r0 = None"
| "yypop (s # ss) vs ls r0 =
     do { e \<leftarrow> shifts_error s;
          (case e of
             Some n \<Rightarrow> Some (Some (n, s # ss, vs, ls, r0))
           | None \<Rightarrow>
               if ss = [] then Some None
               else (case ls of [] \<Rightarrow> None | l # ls' \<Rightarrow> yypop ss (drop 1 vs) ls' l)) }"

definition yyerrlab1 :: "yyltype \<Rightarrow> parser \<Rightarrow> presult option" where
  "yyerrlab1 r0 p0 =
     (let p = p0\<lparr>yyerrstatus := 3\<rparr> in
      do { q \<leftarrow> yypop (yyss p) (yyvs p) (yyls p) r0;
           (case q of
              None \<Rightarrow> Some (Return 1 p)
            | Some (n, ss, vs, ls, r) \<Rightarrow>
                if int n = YYFINAL then Some (Return 0 p)
                else Some (Running
                  (p\<lparr>yyss := n # ss, yyvs := VStr (yylval (p_lexer p)) # vs,
                     yyls := \<lparr>loc_start = loc_start r, loc_end = loc_end (yylloc (p_lexer p))\<rparr> # ls\<rparr>))) })"

definition yyerrlab :: "parser \<Rightarrow> presult option" where
  "yyerrlab p =
     do { s \<leftarrow> rd (yyss p) 0;
          p1 \<leftarrow> (if yyerrstatus p = 0
                 then do { m \<leftarrow> yysyntax_error s (yychar p);
                           Some (yyerror (if m = [] then ''syntax error'' else m)
                                   (p\<lparr>yynerrs := Suc (yynerrs p)\<rparr>)) }
                 else Some p);
          (let r0 = yylloc (p_lexer p1)
           in if yyerrstatus p1 = 3
              then (if yychar p1 \<le> YYEOF
                    then (if yychar p1 = YYEOF then Some (Return 1 p1) else yyerrlab1 r0 p1)
                    else yyerrlab1 r0 (p1\<lparr>yychar := YYEMPTY\<rparr>))
              else yyerrlab1 r0 p1) }"

definition yyerrorlab :: "nat \<Rightarrow> parser \<Rightarrow> presult option" where
  "yyerrorlab yylen p =
     do { r0 \<leftarrow> rd (yyls p) (yylen - 1);
          yyerrlab1 r0 (p\<lparr>yyss := drop yylen (yyss p), yyvs := drop yylen (yyvs p),
                          yyls := drop yylen (yyls p)\<rparr>) }"

section \<open>The loop\<close>

definition yyreduce :: "fn_registry \<Rightarrow> nat \<Rightarrow> parser \<Rightarrow> presult option" where
  "yyreduce reg yyn p =
     do { yylen \<leftarrow> rd yyr2 yyn;
          yyloc \<leftarrow> YYLLOC_DEFAULT (yyls p) yylen;
          r \<leftarrow> yyrule reg yyn yyloc p;
          (case r of
             YYERROR p1 \<Rightarrow> yyerrorlab yylen p1
           | Value yyval p1 \<Rightarrow>
               (let ss = drop yylen (yyss p1)
                in do { s \<leftarrow> rd ss 0;
                        t \<leftarrow> yygoto yyn s;
                        Some (Running (p1\<lparr>yyss := t # ss, yyvs := yyval # drop yylen (yyvs p1),
                                          yyls := yyloc # drop yylen (yyls p1)\<rparr>)) })) }"

definition yyshift :: "nat \<Rightarrow> parser \<Rightarrow> parser" where
  "yyshift n p =
     p\<lparr>yyerrstatus := yyerrstatus p - 1,
       yychar := (if yychar p \<noteq> YYEOF then YYEMPTY else yychar p),
       yyss := n # yyss p, yyvs := VStr (yylval (p_lexer p)) # yyvs p,
       yyls := yylloc (p_lexer p) # yyls p\<rparr>"

text \<open>
  \<open>yysetstate\<close>: the store of the state, which must be inside the stack, and the growth of the
  stacks to \<open>YYMAXDEPTH\<close>.
\<close>

definition yysetstate :: "parser \<Rightarrow> presult option" where
  "yysetstate p =
     (let n = length (yyss p) in
      if yystacksize p < n then None
      else if yystacksize p - 1 \<le> n - 1 then
        (if YYMAXDEPTH \<le> yystacksize p then Some (Return 2 (yyerror ''memory exhausted'' p))
         else (let sz = min YYMAXDEPTH (yystacksize p * 2);
                   p1 = p\<lparr>yystacksize := sz\<rparr>
               in if sz - 1 \<le> n - 1 then Some (Return 1 p1) else Some (Running p1)))
      else Some (Running p))"

definition yystep :: "fn_registry \<Rightarrow> parser \<Rightarrow> presult option" where
  "yystep reg p =
     do { r \<leftarrow> yysetstate p;
          (case r of
             Return k p1 \<Rightarrow> Some (Return k p1)
           | Running p1 \<Rightarrow>
               do { b \<leftarrow> yybackup p1;
                    (case fst b of
                       Accept \<Rightarrow> Some (Return 0 (snd b))
                     | Shift n \<Rightarrow> Some (Running (yyshift n (snd b)))
                     | Reduce n \<Rightarrow> yyreduce reg n (snd b)
                     | Error_action \<Rightarrow> yyerrlab (snd b)) }) }"

partial_function (option) yyloop :: "fn_registry \<Rightarrow> parser \<Rightarrow> (nat \<times> parser) option" where
  "yyloop reg p =
     do { r \<leftarrow> yystep reg p;
          (case r of Return k p1 \<Rightarrow> Some (k, p1) | Running p1 \<Rightarrow> yyloop reg p1) }"

declare yyloop.simps [code]

definition yyparse :: "fn_registry \<Rightarrow> expr option \<Rightarrow> int \<Rightarrow> lexer \<Rightarrow> (nat \<times> parser) option" where
  "yyparse reg r ec l = yyloop reg (parser_init r ec l)"

end
