(* ===== verification/EdifyEval.thy ===== *)
theory EdifyEval
  imports EdifyTypes
begin

text \<open>
  The evaluator of edify/expr.c. \<open>est\<close> is what a running script can read and change: the members of
  \<open>State\<close>, the streams written so far, and the rest of the system as a value of an unspecified type
  \<open>'w\<close>, which only the operations of the parameter \<open>os\<close> change. A result of \<open>Evaluate\<close> is \<^term>\<open>None\<close>
  when the C code has no defined behaviour, and otherwise a string or NULL (an option) with the
  state after. Memory that is only freed or leaked is not modelled.

  A builtin gets its arguments unevaluated, as an array of \<open>Expr*\<close>: here the evaluation of each
  argument as a function, with the argument's source span, which is all a builtin uses.
\<close>

section \<open>State and the operating system\<close>

record updater_info =
  ui_action :: string
  ui_log_open :: bool

record 'w est =
  st_cookie :: "updater_info option"
  st_script :: string
  st_errmsg :: "string option"
  st_stdout :: string
  st_stderr :: string
  st_pipe :: string
  st_log :: string
  st_world :: 'w

text \<open>
  What the code calls outside itself and the C string functions. Files are read by name
  (\<open>os_fopen_r\<close> yields the contents, or \<^term>\<open>None\<close> when the file cannot be opened); calls with a
  status return it with the world after. \<open>os_long_bits\<close> is the width of \<open>long\<close>, \<open>os_strtod_f\<close> the text
  \<open>printf ("%f")\<close> prints for what \<open>strtod\<close> reads, \<open>os_time\<close> the text of \<open>asctime (localtime (...))\<close>
  and \<open>os_strerror\<close> that of \<open>strerror (errno)\<close>.
\<close>

record 'w os =
  os_long_bits :: nat
  os_sleep :: "int \<Rightarrow> 'w \<Rightarrow> 'w"
  os_fopen_r :: "string \<Rightarrow> 'w \<Rightarrow> string option"
  os_stat_size :: "string \<Rightarrow> 'w \<Rightarrow> int option"
  os_fopen_w :: "string \<Rightarrow> 'w \<Rightarrow> 'w option"
  os_fwrite :: "string \<Rightarrow> string \<Rightarrow> 'w \<Rightarrow> bool \<times> 'w"
  os_unlink :: "string \<Rightarrow> 'w \<Rightarrow> int \<times> 'w"
  os_init_module :: "string \<Rightarrow> int \<Rightarrow> string \<Rightarrow> 'w \<Rightarrow> int \<times> 'w"
  os_delete_module :: "string \<Rightarrow> 'w \<Rightarrow> int \<times> 'w"
  os_kill :: "int \<Rightarrow> int \<Rightarrow> 'w \<Rightarrow> int \<times> 'w"
  os_proc_entries :: "'w \<Rightarrow> string list option"
  os_system :: "string \<Rightarrow> 'w \<Rightarrow> int \<times> 'w"
  os_prop_get :: "string \<Rightarrow> 'w \<Rightarrow> string"
  os_have_cutils :: "'w \<Rightarrow> bool"
  os_prop_set :: "string \<Rightarrow> string \<Rightarrow> 'w \<Rightarrow> int \<times> 'w"
  os_wifi_load :: "'w \<Rightarrow> (int \<times> 'w) option"
  os_wifi_unload :: "'w \<Rightarrow> (int \<times> 'w) option"
  os_strtod_f :: "string \<Rightarrow> string"
  os_time :: "'w \<Rightarrow> string"
  os_strerror :: "'w \<Rightarrow> string"
  os_fdopen :: "int \<Rightarrow> 'w \<Rightarrow> bool"

type_synonym 'w result = "(string option \<times> 'w est) option"

type_synonym 'w arg = "('w est \<Rightarrow> 'w result) \<times> int \<times> int"

definition ret :: "string \<Rightarrow> 'w est \<Rightarrow> 'w result" where
  "ret s st = Some (Some s, st)"

definition ret_null :: "'w est \<Rightarrow> 'w result" where
  "ret_null st = Some (None, st)"

definition set_errmsg :: "string \<Rightarrow> 'w est \<Rightarrow> 'w est" where
  "set_errmsg m st = st\<lparr>st_errmsg := Some m\<rparr>"

text \<open>
  \<open>char *v = Evaluate (state, argv[i]); if (v == NULL) return NULL;\<close> and go on with \<open>v\<close>.
\<close>

definition eval_arg :: "'w arg list \<Rightarrow> nat \<Rightarrow> 'w est \<Rightarrow> 'w result" where
  "eval_arg argv i st = do { a \<leftarrow> rd argv i; fst a st }"

definition with_arg :: "'w arg list \<Rightarrow> nat \<Rightarrow> 'w est \<Rightarrow> (string \<Rightarrow> 'w est \<Rightarrow> 'w result) \<Rightarrow> 'w result" where
  "with_arg argv i st k =
     do { r \<leftarrow> eval_arg argv i st;
          (case fst r of None \<Rightarrow> ret_null (snd r) | Some v \<Rightarrow> k v (snd r)) }"

definition BooleanString :: "string \<Rightarrow> bool" where
  "BooleanString s \<longleftrightarrow> s \<noteq> []"

definition c_bool :: "bool \<Rightarrow> string" where
  "c_bool b = (if b then ''t'' else [])"

section \<open>Convenience functions\<close>

text \<open>
  \<open>ReadArgs\<close> with \<open>count\<close> places to fill: the values, or \<^term>\<open>None\<close> inside for -1. It reads \<open>argv\<close>
  up to \<open>count\<close> whatever \<open>argc\<close> is. \<open>ReadVarArgs\<close> reads \<open>argc\<close> of them.
\<close>

fun ReadArgs :: "nat \<Rightarrow> 'w arg list \<Rightarrow> 'w est \<Rightarrow> (string list option \<times> 'w est) option" where
  "ReadArgs 0 argv st = Some (Some [], st)"
| "ReadArgs (Suc n) [] st = None"
| "ReadArgs (Suc n) (a # as) st =
     do { r \<leftarrow> fst a st;
          (case fst r of
             None \<Rightarrow> Some (None, snd r)
           | Some v \<Rightarrow> do { q \<leftarrow> ReadArgs n as (snd r);
                          Some (map_option (Cons v) (fst q), snd q) }) }"

fun ReadVarArgs :: "'w arg list \<Rightarrow> 'w est \<Rightarrow> (string list option \<times> 'w est) option" where
  "ReadVarArgs [] st = Some (Some [], st)"
| "ReadVarArgs (a # as) st =
     do { r \<leftarrow> fst a st;
          (case fst r of
             None \<Rightarrow> Some (None, snd r)
           | Some v \<Rightarrow> do { q \<leftarrow> ReadVarArgs as (snd r);
                          Some (map_option (Cons v) (fst q), snd q) }) }"

text \<open>\<open>ErrorAbort\<close> with the message already formatted: cut to its 4096-byte buffer.\<close>

definition ErrorAbort :: "string \<Rightarrow> 'w est \<Rightarrow> 'w result" where
  "ErrorAbort m st = ret_null (set_errmsg (snprintf_trunc 4096 m) st)"

section \<open>The builtins\<close>

definition Literal :: "string \<Rightarrow> 'w est \<Rightarrow> 'w result" where
  "Literal name st = ret name st"

definition ConcatFn :: "'w arg list \<Rightarrow> 'w est \<Rightarrow> 'w result" where
  "ConcatFn argv st =
     (if argv = [] then ret [] st
      else do { r \<leftarrow> ReadVarArgs argv st;
                Some (map_option concat (fst r), snd r) })"

definition IfElseFn :: "'w arg list \<Rightarrow> 'w est \<Rightarrow> 'w result" where
  "IfElseFn argv st =
     (if length argv \<noteq> 2 \<and> length argv \<noteq> 3
      then ret_null (set_errmsg ''ifelse expects 2 or 3 arguments'' st)
      else with_arg argv 0 st (\<lambda>cond st1.
        if BooleanString cond then eval_arg argv 1 st1
        else if length argv = 3 then eval_arg argv 2 st1
        else ret cond st1))"

definition AbortFn :: "'w arg list \<Rightarrow> 'w est \<Rightarrow> 'w result" where
  "AbortFn argv st =
     do { r \<leftarrow> (if argv \<noteq> [] then eval_arg argv 0 st else ret_null st);
          ret_null (set_errmsg (case fst r of Some msg \<Rightarrow> msg | None \<Rightarrow> ''called abort()'') (snd r)) }"

text \<open>\<open>memcpy (..., state->script + start, len)\<close> of \<open>len + 20\<close> allocated bytes, read as a string.\<close>

definition script_copy :: "string \<Rightarrow> int \<Rightarrow> int \<Rightarrow> string option" where
  "script_copy script start len =
     (if 0 \<le> start \<and> 0 \<le> len \<and> start + len \<le> int (length script) + 1
      then Some (cstr (take (nat len) (drop (nat start) (script @ [NUL])))) else None)"

fun AssertFn :: "'w arg list \<Rightarrow> 'w est \<Rightarrow> 'w result" where
  "AssertFn [] st = ret [] st"
| "AssertFn (a # as) st =
     do { r \<leftarrow> fst a st;
          (case fst r of
             None \<Rightarrow> ret_null (snd r)
           | Some v \<Rightarrow>
               if BooleanString v then AssertFn as (snd r)
               else do { src \<leftarrow> script_copy (st_script (snd r)) (fst (snd a)) (snd (snd a) - fst (snd a));
                         ret_null (set_errmsg (''assert failed: '' @ src) (snd r)) }) }"

definition SleepFn :: "'w os \<Rightarrow> 'w arg list \<Rightarrow> 'w est \<Rightarrow> 'w result" where
  "SleepFn os argv st =
     with_arg argv 0 st (\<lambda>val st1.
       ret val (st1\<lparr>st_world := os_sleep os (int_of_long (fst (strtol (os_long_bits os) 10 val))) (st_world st1)\<rparr>))"

fun StdoutFn :: "'w arg list \<Rightarrow> 'w est \<Rightarrow> 'w result" where
  "StdoutFn [] st = ret [] st"
| "StdoutFn (a # as) st =
     do { r \<leftarrow> fst a st;
          (case fst r of
             None \<Rightarrow> ret_null (snd r)
           | Some v \<Rightarrow> StdoutFn as ((snd r)\<lparr>st_stdout := st_stdout (snd r) @ v\<rparr>)) }"

definition LogicalAndFn :: "'w arg list \<Rightarrow> 'w est \<Rightarrow> 'w result" where
  "LogicalAndFn argv st =
     with_arg argv 0 st (\<lambda>left st1. if BooleanString left then eval_arg argv 1 st1 else ret left st1)"

definition LogicalOrFn :: "'w arg list \<Rightarrow> 'w est \<Rightarrow> 'w result" where
  "LogicalOrFn argv st =
     with_arg argv 0 st (\<lambda>left st1. if \<not> BooleanString left then eval_arg argv 1 st1 else ret left st1)"

definition LogicalNotFn :: "'w arg list \<Rightarrow> 'w est \<Rightarrow> 'w result" where
  "LogicalNotFn argv st = with_arg argv 0 st (\<lambda>val st1. ret (if BooleanString val then [] else ''t'') st1)"

definition SubstringFn :: "'w arg list \<Rightarrow> 'w est \<Rightarrow> 'w result" where
  "SubstringFn argv st =
     with_arg argv 0 st (\<lambda>needle st1. with_arg argv 1 st1 (\<lambda>haystack st2.
       ret (c_bool (strstr haystack needle)) st2))"

definition EqualityFn :: "'w arg list \<Rightarrow> 'w est \<Rightarrow> 'w result" where
  "EqualityFn argv st =
     with_arg argv 0 st (\<lambda>left st1. with_arg argv 1 st1 (\<lambda>right st2.
       ret (c_bool (strcmp left right = 0)) st2))"

definition InequalityFn :: "'w arg list \<Rightarrow> 'w est \<Rightarrow> 'w result" where
  "InequalityFn argv st =
     with_arg argv 0 st (\<lambda>left st1. with_arg argv 1 st1 (\<lambda>right st2.
       ret (c_bool (strcmp left right \<noteq> 0)) st2))"

definition SequenceFn :: "'w arg list \<Rightarrow> 'w est \<Rightarrow> 'w result" where
  "SequenceFn argv st = with_arg argv 0 st (\<lambda>left st1. eval_arg argv 1 st1)"

text \<open>The message and the value of one side: \<^term>\<open>None\<close> when it is not an int.\<close>

definition int_side :: "'w os \<Rightarrow> string \<Rightarrow> int option" where
  "int_side os s =
     (let (v, rest) = strtol (os_long_bits os) 10 s
      in if s = [] \<or> rest \<noteq> [] then None else Some v)"

definition not_an_int :: "string \<Rightarrow> 'w est \<Rightarrow> 'w est" where
  "not_an_int s st = st\<lparr>st_stderr := st_stderr st @ ''['' @ s @ ''] is not an int'' @ [CHR 0x0A]\<rparr>"

definition LessThanIntFn :: "'w os \<Rightarrow> 'w arg list \<Rightarrow> 'w est \<Rightarrow> 'w result" where
  "LessThanIntFn os argv st =
     (if length argv \<noteq> 2 then ret_null (set_errmsg ''less_than_int expects 2 arguments'' st)
      else do { r \<leftarrow> ReadArgs 2 argv st;
                (case fst r of
                   None \<Rightarrow> ret_null (snd r)
                 | Some vs \<Rightarrow>
                     do { left \<leftarrow> rd vs 0; right \<leftarrow> rd vs 1;
                          (case int_side os left of
                             None \<Rightarrow> ret [] (not_an_int left (snd r))
                           | Some l_int \<Rightarrow>
                               (case int_side os right of
                                  None \<Rightarrow> ret [] (not_an_int right (snd r))
                                | Some r_int \<Rightarrow> ret (c_bool (l_int < r_int)) (snd r))) }) })"

definition GreaterThanIntFn :: "'w os \<Rightarrow> 'w arg list \<Rightarrow> 'w est \<Rightarrow> 'w result" where
  "GreaterThanIntFn os argv st =
     (if length argv \<noteq> 2 then ret_null (set_errmsg ''greater_than_int expects 2 arguments'' st)
      else do { a0 \<leftarrow> rd argv 0; a1 \<leftarrow> rd argv 1; LessThanIntFn os [a1, a0] st })"

section \<open>A small system, for examples\<close>

text \<open>No files but the ones of an association list; the world is the list of calls made.\<close>

definition sample_os :: "(string \<times> string) list \<Rightarrow> string list os" where
  "sample_os files =
     \<lparr>os_long_bits = 32, os_sleep = (\<lambda>n w. w @ [''sleep '' @ show_int n]),
      os_fopen_r = (\<lambda>f w. map_of files f),
      os_stat_size = (\<lambda>f w. map_option (\<lambda>s. int (length s)) (map_of files f)),
      os_fopen_w = (\<lambda>f w. Some (w @ [''open '' @ f])),
      os_fwrite = (\<lambda>f s w. (True, w @ [''write '' @ s])),
      os_unlink = (\<lambda>f w. (0, w @ [''unlink '' @ f])),
      os_init_module = (\<lambda>img n opts w. (0, w @ [''init_module'' @ opts])),
      os_delete_module = (\<lambda>m w. (0, w @ [''delete_module '' @ m])),
      os_kill = (\<lambda>pid sig w. (0, w @ [''kill '' @ show_int pid @ '' '' @ show_int sig])),
      os_proc_entries = (\<lambda>w. Some [''..'', ''17'', ''42'']),
      os_system = (\<lambda>c w. (0, w @ [c])),
      os_prop_get = (\<lambda>k w. []), os_have_cutils = (\<lambda>w. True),
      os_prop_set = (\<lambda>k v w. (0, w @ [''setprop '' @ k @ ''='' @ v])),
      os_wifi_load = (\<lambda>w. None), os_wifi_unload = (\<lambda>w. None),
      os_strtod_f = (\<lambda>s. s), os_time = (\<lambda>w. ''now''), os_strerror = (\<lambda>w. ''error''),
      os_fdopen = (\<lambda>fd w. True)\<rparr>"

definition sample_state :: "string \<Rightarrow> string list est" where
  "sample_state script =
     \<lparr>st_cookie = Some \<lparr>ui_action = ''start'', ui_log_open = True\<rparr>, st_script = script, st_errmsg = None,
      st_stdout = [], st_stderr = [], st_pipe = [], st_log = [], st_world = []\<rparr>"

end
