(* ===== verification/EdifyInstall.thy ===== *)
theory EdifyInstall
  imports EdifyEval
begin

text \<open>
  The functions install.c registers for the device: modules, processes, files, properties, progress
  and log output, and programs, over the operating system parameter. Local arrays that are read
  before \<open>sscanf\<close> has stored into them, and \<open>sprintf\<close> behind the end of one, are \<^term>\<open>None\<close>.
\<close>

section \<open>Helpers\<close>

definition READ_BUF_SIZE :: nat where
  "READ_BUF_SIZE = 50"

text \<open>\<open>"%s() expects k args, got %d"\<close>.\<close>

definition expects :: "string \<Rightarrow> string \<Rightarrow> 'w arg list \<Rightarrow> 'w est \<Rightarrow> 'w result" where
  "expects name what argv st =
     ErrorAbort (name @ ''() expects '' @ what @ '', got '' @ show_int (int (length argv))) st"

definition log_err :: "string \<Rightarrow> 'w est \<Rightarrow> 'w est" where
  "log_err s st = st\<lparr>st_stderr := st_stderr st @ s\<rparr>"

definition set_world :: "'w \<Rightarrow> 'w est \<Rightarrow> 'w est" where
  "set_world w st = st\<lparr>st_world := w\<rparr>"

text \<open>Reading exactly one, or two, arguments.\<close>

definition with_args1 :: "'w arg list \<Rightarrow> 'w est \<Rightarrow> (string \<Rightarrow> 'w est \<Rightarrow> 'w result) \<Rightarrow> 'w result" where
  "with_args1 argv st k =
     do { r \<leftarrow> ReadArgs 1 argv st;
          (case fst r of
             None \<Rightarrow> ret_null (snd r)
           | Some vs \<Rightarrow> do { a \<leftarrow> rd vs 0; k a (snd r) }) }"

definition with_args2 :: "'w arg list \<Rightarrow> 'w est \<Rightarrow> (string \<Rightarrow> string \<Rightarrow> 'w est \<Rightarrow> 'w result) \<Rightarrow> 'w result" where
  "with_args2 argv st k =
     do { r \<leftarrow> ReadArgs 2 argv st;
          (case fst r of
             None \<Rightarrow> ret_null (snd r)
           | Some vs \<Rightarrow> do { a \<leftarrow> rd vs 0; b \<leftarrow> rd vs 1; k a b (snd r) }) }"

section \<open>Kernel modules\<close>

text \<open>
  \<open>read_file\<close>: the buffer and the value left in \<open>*_size\<close>, which keeps the caller's value when
  \<open>read\<close> returns another count than \<open>fstat\<close> announced (the buffer is returned all the same).
\<close>

definition read_file :: "'w os \<Rightarrow> string \<Rightarrow> int \<Rightarrow> 'w \<Rightarrow> (string \<times> int) option" where
  "read_file os filename size0 w =
     (case os_fopen_r os filename w of
        None \<Rightarrow> None
      | Some contents \<Rightarrow>
          (case os_stat_size os filename w of
             None \<Rightarrow> None
           | Some sz \<Rightarrow>
               (let buffer = take (nat sz) contents
                in Some (buffer, if int (length buffer) = sz then sz else size0))))"

definition InsModuleFn :: "'w os \<Rightarrow> string \<Rightarrow> 'w arg list \<Rightarrow> 'w est \<Rightarrow> 'w result" where
  "InsModuleFn os name argv st =
     (if length argv \<noteq> 2 then expects name ''2 args'' argv st
      else with_args2 argv st (\<lambda>module_name options st1.
        (case read_file os module_name (2147483647 - 4095) (st_world st1) of
           None \<Rightarrow> ret [] st1
         | Some (img, len) \<Rightarrow>
             (let (rc, w) = os_init_module os img len options (st_world st1)
              in ret (c_bool (rc = 0)) (set_world w st1)))))"

definition RmModuleFn :: "'w os \<Rightarrow> string \<Rightarrow> 'w arg list \<Rightarrow> 'w est \<Rightarrow> 'w result" where
  "RmModuleFn os name argv st =
     (if length argv \<noteq> 1 then expects name ''1 arg'' argv st
      else with_args1 argv st (\<lambda>module_name st1.
        (let (rc, w) = os_delete_module os module_name (st_world st1)
         in ret (c_bool (rc = 0)) (set_world w st1))))"

text \<open>
  The loop over /proc/modules: \<open>mname\<close> (\<^term>\<open>None\<close> until the first word is stored) and whether a
  name has matched. A line longer than the buffer is read in pieces, each of them a "line".
\<close>

fun scan_modules :: "string \<Rightarrow> string option \<Rightarrow> bool \<Rightarrow> string list \<Rightarrow> bool option" where
  "scan_modules module_name mname found [] = Some found"
| "scan_modules module_name mname found (buffer # lines) =
     (let mname1 = (case scan_word (cstr buffer) of Some (w, _) \<Rightarrow> Some w | None \<Rightarrow> mname)
      in do { m \<leftarrow> mname1;
              scan_modules module_name mname1 (found \<or> strstr m module_name) lines })"

definition ModuleLoadedFn :: "'w os \<Rightarrow> string \<Rightarrow> 'w arg list \<Rightarrow> 'w est \<Rightarrow> 'w result" where
  "ModuleLoadedFn os name argv st =
     (if length argv \<noteq> 1 then expects name ''1 arg'' argv st
      else with_args1 argv st (\<lambda>module_name st1.
        (case os_fopen_r os ''/proc/modules'' (st_world st1) of
           None \<Rightarrow> ret [] (log_err (''Can'' @ CHR 0x27 # ''t open /proc/modules for read '' @ [CHR 0x0A]) st1)
         | Some contents \<Rightarrow>
             do { found \<leftarrow> scan_modules module_name None False (fgets_all READ_BUF_SIZE contents);
                  ret (c_bool found) st1 })))"

section \<open>Processes\<close>

definition kill_processes_by_pidfile :: "'w os \<Rightarrow> int \<Rightarrow> string \<Rightarrow> 'w est \<Rightarrow> int \<times> 'w est" where
  "kill_processes_by_pidfile os parameter pidfile st =
     (case os_fopen_r os pidfile (st_world st) of
        None \<Rightarrow> (- 1, st)
      | Some contents \<Rightarrow>
          (case fgets (READ_BUF_SIZE - 1) contents of
             None \<Rightarrow> (- 1, st)
           | Some (buffer, _) \<Rightarrow>
               (let pid = int_of_long (fst (strtol (os_long_bits os) 0 (cstr buffer)));
                    (sig, w) = os_kill os pid parameter (st_world st)
                in if sig \<noteq> 0
                   then (- 1, log_err (''Unable to kill process ('' @ cstr buffer @ '')'' @ [CHR 0x0A])
                                (set_world w st))
                   else (0, set_world w st))))"

text \<open>
  One directory entry of /proc. \<open>filename\<close> holds 50 bytes; \<open>name\<close> is the second word of the first
  line of the status file.
\<close>

definition kill_entry :: "'w os \<Rightarrow> int \<Rightarrow> string \<Rightarrow> string \<Rightarrow> int \<times> 'w est \<Rightarrow> (int \<times> 'w est) option" where
  "kill_entry os parameter processName d_name s =
     (let (returncode, st) = s in
      if d_name = ''..'' then Some (returncode, st)
      else do {
        u \<leftarrow> ensure (length (''/proc/'' @ d_name @ ''/status'') < READ_BUF_SIZE);
        (case os_fopen_r os (''/proc/'' @ d_name @ ''/status'') (st_world st) of
           None \<Rightarrow> Some (returncode, st)
         | Some contents \<Rightarrow>
             (case fgets (READ_BUF_SIZE - 1) contents of
                None \<Rightarrow> Some (returncode, st)
              | Some (buffer, _) \<Rightarrow>
                  do { w1 \<leftarrow> scan_word (cstr buffer);
                       w2 \<leftarrow> scan_word (snd w1);
                       if strstr (fst w2) processName
                       then (let pid = int_of_long (fst (strtol (os_long_bits os) 0 d_name));
                                 (sig, w) = os_kill os pid parameter (st_world st)
                             in Some (if sig \<noteq> 0
                                      then (- 1, log_err (''Unable to kill process '' @ fst w2 @ '' ('' @ d_name
                                                           @ '')'' @ [CHR 0x0A]) (set_world w st))
                                      else (returncode, set_world w st)))
                       else Some (returncode, st) })) })"

fun kill_loop :: "'w os \<Rightarrow> int \<Rightarrow> string \<Rightarrow> string list \<Rightarrow> int \<times> 'w est \<Rightarrow> (int \<times> 'w est) option" where
  "kill_loop os parameter processName [] s = Some s"
| "kill_loop os parameter processName (d # ds) s =
     do { s1 \<leftarrow> kill_entry os parameter processName d s; kill_loop os parameter processName ds s1 }"

definition kill_processes_by_name :: "'w os \<Rightarrow> int \<Rightarrow> string \<Rightarrow> 'w est \<Rightarrow> (int \<times> 'w est) option" where
  "kill_processes_by_name os parameter processName st =
     do { ds \<leftarrow> os_proc_entries os (st_world st); kill_loop os parameter processName ds (0, st) }"

definition KillProcessFn :: "'w os \<Rightarrow> string \<Rightarrow> 'w arg list \<Rightarrow> 'w est \<Rightarrow> 'w result" where
  "KillProcessFn os name argv st =
     (if length argv \<noteq> 1 then expects name ''1 arg'' argv st
      else with_args1 argv st (\<lambda>process_name st1.
        do { r2 \<leftarrow> kill_processes_by_name os 2 process_name st1;
             r9 \<leftarrow> kill_processes_by_name os 9 process_name (snd r2);
             ret ''t'' (snd r9) }))"

definition KillProcessByPIDFn :: "'w os \<Rightarrow> string \<Rightarrow> 'w arg list \<Rightarrow> 'w est \<Rightarrow> 'w result" where
  "KillProcessByPIDFn os name argv st =
     (if length argv \<noteq> 1 then expects name ''1 arg'' argv st
      else with_args1 argv st (\<lambda>pidfile st1.
        (let st2 = snd (kill_processes_by_pidfile os 2 pidfile st1);
             st3 = snd (kill_processes_by_pidfile os 9 pidfile st2)
         in ret ''t'' st3)))"

section \<open>Files\<close>

definition file_exists :: "'w os \<Rightarrow> string \<Rightarrow> 'w \<Rightarrow> int" where
  "file_exists os filename w = (case os_fopen_r os filename w of None \<Rightarrow> - 1 | Some _ \<Rightarrow> 0)"

definition FileExistsFn :: "'w os \<Rightarrow> string \<Rightarrow> 'w arg list \<Rightarrow> 'w est \<Rightarrow> 'w result" where
  "FileExistsFn os name argv st =
     (if length argv \<noteq> 1 then expects name ''1 arg'' argv st
      else with_args1 argv st (\<lambda>filename st1.
        ret (if file_exists os filename (st_world st1) = - 1 then [] else ''t'') st1))"

definition UnlinkFileFn :: "'w os \<Rightarrow> string \<Rightarrow> 'w arg list \<Rightarrow> 'w est \<Rightarrow> 'w result" where
  "UnlinkFileFn os name argv st =
     (if length argv \<noteq> 1 then expects name ''1 arg'' argv st
      else with_args1 argv st (\<lambda>filename st1.
        (let (rc, w) = os_unlink os filename (st_world st1)
         in ret (if rc \<noteq> 0 then [] else ''t'') (set_world w st1))))"

text \<open>
  \<open>fwrite (line, strlen (line), 1, fd)\<close> returns 1 when it wrote the one item, and 0 when the item's
  size is 0.
\<close>

definition WriteFileFn :: "'w os \<Rightarrow> string \<Rightarrow> 'w arg list \<Rightarrow> 'w est \<Rightarrow> 'w result" where
  "WriteFileFn os name argv st =
     (if length argv \<noteq> 2 then expects name ''2 args'' argv st
      else with_args2 argv st (\<lambda>filename line st1.
        (case os_fopen_w os filename (st_world st1) of
           None \<Rightarrow> ret [] (log_err (''Can'' @ CHR 0x27 # ''t open '' @ filename @ '' for write '' @ [CHR 0x0A]) st1)
         | Some w1 \<Rightarrow>
             if line = [] then ret [] (set_world w1 st1)
             else (let (ok, w2) = os_fwrite os filename line w1
                   in ret (c_bool ok) (set_world w2 st1)))))"

section \<open>Programs\<close>

text \<open>
  One line of the white list: \<open>sscanf\<close> reads the first word of the buffer into the buffer (and
  leaves it when there is none), and the command must fit 100 bytes.
\<close>

definition whitelist_command :: "string \<Rightarrow> string" where
  "whitelist_command mac =
     ''/data/data/org.servalproject/bin/iptables -t nat -I PREROUTING -m mac --mac-source '' @ mac @
     '' -j ACCEPT''"

fun whitelist_loop :: "'w os \<Rightarrow> string list \<Rightarrow> 'w \<Rightarrow> (int \<times> 'w) option" where
  "whitelist_loop os [] w = Some (0, w)"
| "whitelist_loop os (line # lines) w =
     (let buffer = (case scan_word (cstr line) of Some (m, _) \<Rightarrow> m | None \<Rightarrow> cstr line)
      in do { u \<leftarrow> ensure (length (whitelist_command buffer) < 100);
              (let (rc, w1) = os_system os (whitelist_command buffer) w
               in if rc = 0 then whitelist_loop os lines w1 else Some (rc, w1)) })"

definition WhiteListMacsFn :: "'w os \<Rightarrow> string \<Rightarrow> 'w arg list \<Rightarrow> 'w est \<Rightarrow> 'w result" where
  "WhiteListMacsFn os name argv st =
     (if length argv \<noteq> 1 then expects name ''1 arg'' argv st
      else with_args1 argv st (\<lambda>filename st1.
        (if file_exists os filename (st_world st1) = 0
         then (case os_fopen_r os filename (st_world st1) of
                 None \<Rightarrow> ret [] (log_err (''Can'' @ CHR 0x27 # ''t open '' @ filename @ '' for read '' @ [CHR 0x0A]) st1)
               | Some contents \<Rightarrow>
                   do { r \<leftarrow> whitelist_loop os (fgets_all 20 contents) (st_world st1);
                        ret (c_bool (fst r = 0)) (set_world (snd r) st1) })
         else ret ''t'' st1)))"

definition WEXITSTATUS :: "int \<Rightarrow> int" where
  "WEXITSTATUS status = (status div 256) mod 256"

definition RunProgramFn :: "'w os \<Rightarrow> string \<Rightarrow> 'w arg list \<Rightarrow> 'w est \<Rightarrow> 'w result" where
  "RunProgramFn os name argv st =
     (if length argv \<noteq> 1 then ErrorAbort (name @ ''() expects 1 arg'') st
      else with_args1 argv st (\<lambda>cmd st1.
        (let st2 = log_err (''about to run: ['' @ cmd @ '']'' @ [CHR 0x0A]) st1;
             (s0, w) = os_system os cmd (st_world st2);
             status = (if s0 \<noteq> - 1 then WEXITSTATUS s0 else s0)
         in ret (if status \<noteq> 0 then [] else ''t'') (set_world w st2))))"

definition LoadWifiFn :: "'w os \<Rightarrow> string \<Rightarrow> 'w arg list \<Rightarrow> 'w est \<Rightarrow> 'w result" where
  "LoadWifiFn os name argv st =
     (if length argv \<noteq> 0 then expects name ''0 arg'' argv st
      else (case os_wifi_load os (st_world st) of
              None \<Rightarrow> ErrorAbort ''libhardware_legacy is not available.'' st
            | Some (rc, w) \<Rightarrow>
                if rc \<noteq> 0
                then ErrorAbort (''Unable to load wifi-driver: '' @ os_strerror os w) (set_world w st)
                else ret ''t'' (set_world w st)))"

definition UnloadWifiFn :: "'w os \<Rightarrow> string \<Rightarrow> 'w arg list \<Rightarrow> 'w est \<Rightarrow> 'w result" where
  "UnloadWifiFn os name argv st =
     (if length argv \<noteq> 0 then expects name ''0 arg'' argv st
      else (case os_wifi_unload os (st_world st) of
              None \<Rightarrow> ErrorAbort ''libhardware_legacy is not available.'' st
            | Some (rc, w) \<Rightarrow>
                if rc \<noteq> 0
                then ErrorAbort (''Unable to unload wifi-driver: '' @ os_strerror os w) (set_world w st)
                else ret ''t'' (set_world w st)))"

section \<open>Progress, log and messages\<close>

text \<open>\<open>fprintf (((UpdaterInfo *)state->cookie)->cmd_pipe, ...)\<close>: the cookie must be there.\<close>

definition to_pipe :: "string \<Rightarrow> 'w est \<Rightarrow> 'w est option" where
  "to_pipe s st = do { ui \<leftarrow> st_cookie st; Some (st\<lparr>st_pipe := st_pipe st @ s\<rparr>) }"

definition ShowProgressFn :: "'w os \<Rightarrow> string \<Rightarrow> 'w arg list \<Rightarrow> 'w est \<Rightarrow> 'w result" where
  "ShowProgressFn os name argv st =
     (if length argv \<noteq> 2 then expects name ''2 args'' argv st
      else with_args2 argv st (\<lambda>frac_str sec_str st1.
        do { st2 \<leftarrow> to_pipe (''progress '' @ os_strtod_f os frac_str @ '' '' @
                    show_int (int_of_long (fst (strtol (os_long_bits os) 10 sec_str))) @ [CHR 0x0A]) st1;
             ret frac_str st2 }))"

definition SetProgressFn :: "'w os \<Rightarrow> string \<Rightarrow> 'w arg list \<Rightarrow> 'w est \<Rightarrow> 'w result" where
  "SetProgressFn os name argv st =
     (if length argv \<noteq> 1 then expects name ''1 arg'' argv st
      else with_args1 argv st (\<lambda>frac_str st1.
        do { st2 \<leftarrow> to_pipe (''set_progress '' @ os_strtod_f os frac_str @ [CHR 0x0A]) st1;
             ret frac_str st2 }))"

fun print_lines :: "string list \<Rightarrow> string" where
  "print_lines [] = []"
| "print_lines (l # ls) = ''ui_print '' @ l @ [CHR 0x0A] @ print_lines ls"

definition UIPrintFn :: "'w arg list \<Rightarrow> 'w est \<Rightarrow> 'w result" where
  "UIPrintFn argv st =
     do { r \<leftarrow> ReadVarArgs argv st;
          (case fst r of
             None \<Rightarrow> ret_null (snd r)
           | Some args \<Rightarrow>
               (let buffer = concat args
                in do { st2 \<leftarrow> to_pipe (print_lines (strtok_lines buffer) @ ''ui_print'' @ [CHR 0x0A]) (snd r);
                        ret (strtok_left buffer) st2 })) }"

definition GetActionFn :: "'w arg list \<Rightarrow> 'w est \<Rightarrow> 'w result" where
  "GetActionFn argv st = do { ui \<leftarrow> st_cookie st; ret (ui_action ui) st }"

section \<open>Properties and configuration\<close>

definition property_set :: "'w os \<Rightarrow> string \<Rightarrow> string \<Rightarrow> 'w \<Rightarrow> int \<times> 'w" where
  "property_set os key v w = (if \<not> os_have_cutils os w then (- 1, w) else os_prop_set os key v w)"

definition GetPropFn :: "'w os \<Rightarrow> string \<Rightarrow> 'w arg list \<Rightarrow> 'w est \<Rightarrow> 'w result" where
  "GetPropFn os name argv st =
     (if length argv \<noteq> 1 then expects name ''1 arg'' argv st
      else with_arg argv 0 st (\<lambda>key st1. ret (os_prop_get os key (st_world st1)) st1))"

text \<open>Both arguments are evaluated before either is compared with NULL.\<close>

definition SetPropFn :: "'w os \<Rightarrow> string \<Rightarrow> 'w arg list \<Rightarrow> 'w est \<Rightarrow> 'w result" where
  "SetPropFn os name argv st =
     (if length argv \<noteq> 2 then expects name ''2 arg'' argv st
      else do { k \<leftarrow> eval_arg argv 0 st;
                v \<leftarrow> eval_arg argv 1 (snd k);
                (case (fst k, fst v) of
                   (Some key, Some val) \<Rightarrow>
                     ret [] (set_world (snd (property_set os key val (st_world (snd v)))) (snd v))
                 | _ \<Rightarrow> ret_null (snd v)) })"

definition LogFn :: "'w os \<Rightarrow> string \<Rightarrow> 'w arg list \<Rightarrow> 'w est \<Rightarrow> 'w result" where
  "LogFn os name argv st =
     (if length argv \<noteq> 1 \<and> length argv \<noteq> 2 then ErrorAbort (name @ ''() expects 1 or 2 args'') st
      else (let time_now = os_time os (st_world st);
                html = (\<lambda>message cls txt. ''<div class='' @ CHR 0x22 # ''date'' @ CHR 0x22 # ''>'' @ time_now @
                  ''</div><div class='' @ CHR 0x22 # ''action'' @ CHR 0x22 # ''>'' @ message @
                  ''...</div><div class='' @ CHR 0x22 # ''output'' @ CHR 0x22 # ''></div><div class='' @
                  CHR 0x22 # cls @ CHR 0x22 # ''>'' @ txt @ ''</div><hr>'');
                emit = (\<lambda>status message st1.
                  (if strcmp status ''t'' = 0
                   then do { ui \<leftarrow> st_cookie st1; u \<leftarrow> ensure (ui_log_open ui);
                             ret [] (st1\<lparr>st_log := st_log st1 @ html message ''done'' ''done''\<rparr>) }
                   else (let st2 = set_world (snd (property_set os ''tether.status'' ''failed'' (st_world st1))) st1
                         in do { ui \<leftarrow> st_cookie st2; u \<leftarrow> ensure (ui_log_open ui);
                                 ret [] (st2\<lparr>st_log := st_log st2 @ html message ''failed'' ''failed''\<rparr>) })))
            in if length argv = 1 then with_args1 argv st (\<lambda>message st1. emit ''t'' message st1)
               else with_args2 argv st emit))"

text \<open>
  The lines of the configuration file: \<open>cfg_line\<close> is one turn of the loop over \<open>strtok\<close>.
  \<open>Cfg_next\<close> goes on with the next line, \<open>Cfg_found\<close> ends with a value, \<open>Cfg_bad\<close> is a line
  without an equals sign (reported with its leading white space skipped). A key is cut after its last
  non-space character, but not before its first character, and so is a value.
\<close>

datatype cfg_result = Cfg_next | Cfg_found string | Cfg_bad string

definition trim_end :: "string \<Rightarrow> string" where
  "trim_end s = (case s of [] \<Rightarrow> [] | c # cs \<Rightarrow> c # rev (dropWhile isspace (rev cs)))"

definition cfg_line :: "string \<Rightarrow> string \<Rightarrow> cfg_result" where
  "cfg_line key line0 =
     (let line = dropWhile isspace line0
      in if line = [] \<or> hd line = CHR ''#'' then Cfg_next
         else if CHR ''='' \<notin> set line then Cfg_bad line
         else (let k = trim_end (takeWhile (\<lambda>c. c \<noteq> CHR ''='') line);
                   val = dropWhile isspace (tl (dropWhile (\<lambda>c. c \<noteq> CHR ''='') line))
               in if strcmp key k \<noteq> 0 then Cfg_next else Cfg_found (trim_end val)))"

fun cfg_lines :: "string \<Rightarrow> string list \<Rightarrow> cfg_result" where
  "cfg_lines key [] = Cfg_next"
| "cfg_lines key (l # ls) = (case cfg_line key l of Cfg_next \<Rightarrow> cfg_lines key ls | r \<Rightarrow> r)"

definition CFG_FILE :: string where
  "CFG_FILE = ''/data/data/org.servalproject/conf/adhoc.conf''"

definition MAX_FILE_GETPROP_SIZE :: int where
  "MAX_FILE_GETPROP_SIZE = 65536"

text \<open>
  The \<open>do\<close> loop reads \<open>*line\<close> before it looks whether \<open>strtok\<close> returned a line: a file without
  one is \<^term>\<open>None\<close>.
\<close>

definition quoted :: "string \<Rightarrow> string" where
  "quoted s = CHR 0x22 # s @ [CHR 0x22]"

definition GetCfgFn :: "'w os \<Rightarrow> string \<Rightarrow> 'w arg list \<Rightarrow> 'w est \<Rightarrow> 'w result" where
  "GetCfgFn os name argv st =
     with_args1 argv st (\<lambda>key st1.
       (case os_stat_size os CFG_FILE (st_world st1) of
          None \<Rightarrow> ErrorAbort (name @ '': failed to stat '' @ quoted CFG_FILE @ '': '' @ os_strerror os (st_world st1)) st1
        | Some sz \<Rightarrow>
            if sz > MAX_FILE_GETPROP_SIZE
            then ErrorAbort (CFG_FILE @ '' too large for '' @ name @ '' (max '' @ show_int MAX_FILE_GETPROP_SIZE @ '')'') st1
            else (case os_fopen_r os CFG_FILE (st_world st1) of
                    None \<Rightarrow> ErrorAbort (name @ '': failed to open '' @ CFG_FILE @ '': '' @ os_strerror os (st_world st1)) st1
                  | Some contents \<Rightarrow>
                      if int (length (take (nat sz) contents)) \<noteq> sz
                      then ErrorAbort (name @ '': failed to read '' @ show_int (sz + 1) @ '' bytes from '' @ CFG_FILE) st1
                      else (let ls = strtok_lines (cstr (take (nat sz) contents))
                            in do { u \<leftarrow> ensure (ls \<noteq> []);
                                    (case cfg_lines key ls of
                                       Cfg_next \<Rightarrow> ret [] st1
                                     | Cfg_found v \<Rightarrow> ret v st1
                                     | Cfg_bad l \<Rightarrow> ErrorAbort (name @ '': malformed line '' @ quoted l @ '': '' @ CFG_FILE
                                                      @ '' not a prop file?'') st1) }))))"

section \<open>Evaluate\<close>

text \<open>The call through \<open>expr->fn\<close>.\<close>

definition call_fn :: "'w os \<Rightarrow> efn \<Rightarrow> string \<Rightarrow> 'w arg list \<Rightarrow> 'w est \<Rightarrow> 'w result" where
  "call_fn os f name argv st =
     (case f of
        Fn_Literal \<Rightarrow> Literal name st
      | Fn_Concat \<Rightarrow> ConcatFn argv st
      | Fn_IfElse \<Rightarrow> IfElseFn argv st
      | Fn_Abort \<Rightarrow> AbortFn argv st
      | Fn_Assert \<Rightarrow> AssertFn argv st
      | Fn_Sleep \<Rightarrow> SleepFn os argv st
      | Fn_Stdout \<Rightarrow> StdoutFn argv st
      | Fn_LogicalAnd \<Rightarrow> LogicalAndFn argv st
      | Fn_LogicalOr \<Rightarrow> LogicalOrFn argv st
      | Fn_LogicalNot \<Rightarrow> LogicalNotFn argv st
      | Fn_Substring \<Rightarrow> SubstringFn argv st
      | Fn_Equality \<Rightarrow> EqualityFn argv st
      | Fn_Inequality \<Rightarrow> InequalityFn argv st
      | Fn_Sequence \<Rightarrow> SequenceFn argv st
      | Fn_LessThanInt \<Rightarrow> LessThanIntFn os argv st
      | Fn_GreaterThanInt \<Rightarrow> GreaterThanIntFn os argv st
      | Fn_InsModule \<Rightarrow> InsModuleFn os name argv st
      | Fn_RmModule \<Rightarrow> RmModuleFn os name argv st
      | Fn_ModuleLoaded \<Rightarrow> ModuleLoadedFn os name argv st
      | Fn_KillProcess \<Rightarrow> KillProcessFn os name argv st
      | Fn_KillProcessByPID \<Rightarrow> KillProcessByPIDFn os name argv st
      | Fn_FileExists \<Rightarrow> FileExistsFn os name argv st
      | Fn_WriteFile \<Rightarrow> WriteFileFn os name argv st
      | Fn_UnlinkFile \<Rightarrow> UnlinkFileFn os name argv st
      | Fn_LoadWifi \<Rightarrow> LoadWifiFn os name argv st
      | Fn_UnloadWifi \<Rightarrow> UnloadWifiFn os name argv st
      | Fn_Log \<Rightarrow> LogFn os name argv st
      | Fn_WhiteListMacs \<Rightarrow> WhiteListMacsFn os name argv st
      | Fn_ShowProgress \<Rightarrow> ShowProgressFn os name argv st
      | Fn_SetProgress \<Rightarrow> SetProgressFn os name argv st
      | Fn_GetProp \<Rightarrow> GetPropFn os name argv st
      | Fn_SetProp \<Rightarrow> SetPropFn os name argv st
      | Fn_GetCfg \<Rightarrow> GetCfgFn os name argv st
      | Fn_GetAction \<Rightarrow> GetActionFn argv st
      | Fn_UIPrint \<Rightarrow> UIPrintFn argv st
      | Fn_RunProgram \<Rightarrow> RunProgramFn os name argv st)"

fun Evaluate :: "'w os \<Rightarrow> expr \<Rightarrow> 'w est \<Rightarrow> 'w result" where
  "Evaluate os (Expr f name argv s e) =
     call_fn os f name (map (\<lambda>a. (Evaluate os a, e_start a, e_end a)) argv)"

end
