(* ===== verification/EdifyMain.thy ===== *)
theory EdifyMain
  imports EdifyParser EdifyInstall
begin

text \<open>
  The two programs around the interpreter: the driver of the device (adhoc.c), which runs the
  installed script and reports through the command pipe, and the host tool (edify/main.c) with its
  test-suite and its tree dump. A program's result is its exit status with everything it wrote.
\<close>

section \<open>The device driver\<close>

definition SCRIPT_NAME :: string where
  "SCRIPT_NAME = ''/data/data/org.servalproject/conf/adhoc.edify''"

definition LOG_NAME :: string where
  "LOG_NAME = ''/data/data/org.servalproject/var/adhoc.log''"

definition fresh_state :: "updater_info option \<Rightarrow> string \<Rightarrow> string \<Rightarrow> 'w \<Rightarrow> 'w est" where
  "fresh_state cookie script out w =
     \<lparr>st_cookie = cookie, st_script = script, st_errmsg = None, st_stdout = out, st_stderr = [],
      st_pipe = [], st_log = [], st_world = w\<rparr>"

text \<open>Reading the script: the text, or the message for the standard error stream.\<close>

datatype load_result = Loaded string | Load_failed string

definition load_script :: "'w os \<Rightarrow> 'w \<Rightarrow> load_result" where
  "load_script os w =
     (case os_stat_size os SCRIPT_NAME w of
        None \<Rightarrow> Load_failed (''Could not stat '' @ SCRIPT_NAME @ '': '' @ os_strerror os w)
      | Some sz \<Rightarrow>
          if sz > 128000 then Load_failed (SCRIPT_NAME @ '' too large (max 128k)'')
          else (case os_fopen_r os SCRIPT_NAME w of
                  None \<Rightarrow> Load_failed (''Cannot read '' @ SCRIPT_NAME @ [CHR 0x0A])
                | Some contents \<Rightarrow>
                    if int (length (take (nat sz) contents)) \<noteq> sz
                    then Load_failed (''Failed to read '' @ show_int (sz + 1) @ '' bytes from '' @ SCRIPT_NAME)
                    else Loaded (take (nat sz) contents)))"

text \<open>What \<open>main\<close> does with the result of the script: status 7 for an aborted one.\<close>

definition report :: "string option \<Rightarrow> 'w est \<Rightarrow> (int \<times> 'w est)" where
  "report result st =
     (case result of
        None \<Rightarrow>
          (case st_errmsg st of
             None \<Rightarrow>
               (7, st\<lparr>st_stderr := st_stderr st @ ''script aborted (no error message)'' @ [CHR 0x0A],
                      st_pipe := st_pipe st @ ''ui_print script aborted (no error message)'' @ [CHR 0x0A]\<rparr>)
           | Some m \<Rightarrow>
               (7, st\<lparr>st_stderr := st_stderr st @ ''script aborted: '' @ m @ [CHR 0x0A],
                      st_pipe := st_pipe st @ print_lines (strtok_lines m) @ ''ui_print'' @ [CHR 0x0A]\<rparr>))
      | Some r \<Rightarrow>
          (0, st\<lparr>st_stderr := st_stderr st @ ''script result was ['' @ r @ '']'' @ [CHR 0x0A]\<rparr>))"

text \<open>
  \<open>main\<close> of adhoc.c. \<open>argv\<close> is read without a check of \<open>argc\<close>, \<open>root\<close> is uninitialised until the
  parser stores it, and the log stream is not checked when it is opened.
\<close>

definition run_script :: "'w os \<Rightarrow> string list \<Rightarrow> string \<Rightarrow> expr \<Rightarrow> string \<Rightarrow> 'w \<Rightarrow> (int \<times> 'w est) option" where
  "run_script os argv script root out w =
     do { action \<leftarrow> rd argv 1;
          (let (log_open, w1) = (case os_fopen_w os LOG_NAME w of None \<Rightarrow> (False, w) | Some w1 \<Rightarrow> (True, w1));
               st = fresh_state (Some \<lparr>ui_action = action, ui_log_open = log_open\<rparr>) script out w1
           in do { r \<leftarrow> Evaluate os root st; Some (report (fst r) (snd r)) }) }"

definition adhoc_main :: "'w os \<Rightarrow> string list \<Rightarrow> 'w \<Rightarrow> (int \<times> 'w est) option" where
  "adhoc_main os argv w =
     do { a2 \<leftarrow> rd argv 2;
          u \<leftarrow> ensure (os_fdopen os (int_of_long (fst (strtol (os_long_bits os) 10 a2))) w);
          (case load_script os w of
             Load_failed m \<Rightarrow> Some (1, (fresh_state None [] [] w)\<lparr>st_stderr := m\<rparr>)
           | Loaded script \<Rightarrow>
               do { reg \<leftarrow> device_registry;
                    l \<leftarrow> yy_scan_string script lexer_init;
                    q \<leftarrow> yyparse reg None 0 l;
                    (let p = snd q in
                     if fst q \<noteq> 0 \<or> p_error_count p > 0
                     then Some (6, (fresh_state None script (p_out p) w)
                                  \<lparr>st_stderr := show_int (p_error_count p) @ '' parse errors'' @ [CHR 0x0A]\<rparr>)
                     else do { root \<leftarrow> p_root p; run_script os argv script root (p_out p) w }) }) }"

section \<open>The host tool\<close>

text \<open>
  One call of \<open>expect\<close>: the scanner state and the number of errors go through all of them; the streams
  are collected. \<open>e\<close> is uninitialised before the parse.
\<close>

record host =
  h_lexer :: lexer
  h_errors :: int
  h_stdout :: string
  h_stderr :: string

definition fail :: "string \<Rightarrow> host \<Rightarrow> host" where
  "fail m h = h\<lparr>h_stderr := h_stderr h @ m @ [CHR 0x0A], h_errors := h_errors h + 1\<rparr>"

definition expect :: "unit os \<Rightarrow> fn_registry \<Rightarrow> string \<Rightarrow> string option \<Rightarrow> host \<Rightarrow> (bool \<times> host) option" where
  "expect os reg expr_str expected h =
     do { l \<leftarrow> yy_scan_string expr_str (h_lexer h);
          q \<leftarrow> yyparse reg None 0 l;
          (let p = snd q;
               h1 = h\<lparr>h_lexer := p_lexer p, h_stdout := h_stdout h @ ''.'' @ p_out p\<rparr>
           in if fst q > 0 \<or> p_error_count p > 0
              then Some (False, fail (''error parsing '' @ quoted expr_str @ '' ('' @
                                      show_int (p_error_count p) @ '' errors)'') h1)
              else do {
                e \<leftarrow> p_root p;
                r \<leftarrow> Evaluate os e (fresh_state None expr_str [] ());
                (let h2 = h1\<lparr>h_stdout := h_stdout h1 @ st_stdout (snd r), h_stderr := h_stderr h1 @ st_stderr (snd r)\<rparr>
                 in case (fst r, expected) of
                      (None, None) \<Rightarrow> Some (True, h2)
                    | (None, Some _) \<Rightarrow> Some (False, fail (''error evaluating '' @ quoted expr_str) h2)
                    | (Some _, None) \<Rightarrow> None
                    | (Some result, Some x) \<Rightarrow>
                        if strcmp result x \<noteq> 0
                        then Some (False, fail (''evaluating '' @ quoted expr_str @ '': expected '' @ quoted x @
                                                '', got '' @ quoted result) h2)
                        else Some (True, h2)) }) }"

text \<open>The scripts of \<open>test\<close>, with a tilde for a double quote and a caret for a newline.\<close>

definition c_text :: "string \<Rightarrow> string" where
  "c_text s = map (\<lambda>c. if c = CHR 0x7E then CHR 0x22 else if c = CHR 0x5E then CHR 0x0A else c) s"

definition test_cases :: "(string \<times> string option) list" where
  "test_cases = [
      (''a'', Some ''a''),
      (c_text ''~a~'', Some ''a''),
      ([CHR 0x22, CHR 0x5C] @ ''x61'' @ [CHR 0x22], Some ''a''),
      (c_text ''# this is a comment^  a^   ^'', Some ''a''),
      (''a; b; c'', Some ''c''),
      (''a + b'', Some ''ab''),
      (c_text ''a + ^ ~b~'', Some ''ab''),
      (c_text ''a + b +^c^'', Some ''abc''),
      (''concat(a, b)'', Some ''ab''),
      (c_text ''concat(a,^ ~b~)'', Some ''ab''),
      (c_text ''concat(a + b,^c,~d~)'', Some ''abcd''),
      (c_text ''~concat~(a + b,^c,~d~)'', Some ''abcd''),
      (''a && b'', Some ''b''),
      (c_text ''a && ~~'', Some []),
      (c_text ''~~ && b'', Some []),
      (c_text ''~~ && ~~'', Some []),
      (c_text ''~~ && abort()'', Some []),
      (''t && abort()'', None),
      (''a || b'', Some ''a''),
      (c_text ''a || ~~'', Some ''a''),
      (c_text ''~~ || b'', Some ''b''),
      (c_text ''~~ || ~~'', Some []),
      (''a || abort()'', Some ''a''),
      (c_text ''~~ || abort()'', None),
      (''!a'', Some []),
      (c_text ''! ~~'', Some ''t''),
      (''!!a'', Some ''t''),
      (c_text ''~~ == ~~ && b'', Some ''b''),
      (''a + b == ab'', Some ''t''),
      (''ab == a + b'', Some ''t''),
      (''a + (b == ab)'', Some ''a''),
      (''(ab == a) + b'', Some ''b''),
      (''is_substring(cad, abracadabra)'', Some ''t''),
      (''is_substring(abrac, abracadabra)'', Some ''t''),
      (''is_substring(dabra, abracadabra)'', Some ''t''),
      (''is_substring(cad, abracxadabra)'', Some []),
      (''is_substring(abrac, axbracadabra)'', Some []),
      (''is_substring(dabra, abracadabrxa)'', Some []),
      (''ifelse(t, yes, no)'', Some ''yes''),
      (''ifelse(!t, yes, no)'', Some ''no''),
      (''ifelse(t, yes, abort())'', Some ''yes''),
      (''ifelse(!t, abort(), no)'', Some ''no''),
      (''if t then yes else no endif'', Some ''yes''),
      (c_text ''if ~~ then yes else no endif'', Some ''no''),
      (c_text ''if ~~ then yes endif'', Some []),
      (c_text ''if ~~; t then yes endif'', Some ''yes''),
      (''less_than_int(3, 14)'', Some ''t''),
      (''less_than_int(14, 3)'', Some []),
      (''less_than_int(x, 3)'', Some []),
      (''less_than_int(3, x)'', Some []),
      (''greater_than_int(3, 14)'', Some []),
      (''greater_than_int(14, 3)'', Some ''t''),
      (''greater_than_int(x, 3)'', Some []),
      (''greater_than_int(3, x)'', Some [])]"

fun run_tests :: "unit os \<Rightarrow> fn_registry \<Rightarrow> (string \<times> string option) list \<Rightarrow> host \<Rightarrow> host option" where
  "run_tests os reg [] h = Some h"
| "run_tests os reg (t # ts) h =
     do { r \<leftarrow> expect os reg (fst t) (snd t) h; run_tests os reg ts (snd r) }"

definition host_init :: host where
  "host_init = \<lparr>h_lexer = lexer_init, h_errors = 0, h_stdout = [], h_stderr = []\<rparr>"

definition test :: "unit os \<Rightarrow> fn_registry \<Rightarrow> host option" where
  "test os reg = map_option (\<lambda>h. h\<lparr>h_stdout := h_stdout h @ [CHR 0x0A]\<rparr>) (run_tests os reg test_cases host_init)"

text \<open>
  \<open>ExprDump\<close>: \<open>fp\<close> is the text \<open>%p\<close> prints for a function. The NUL put at \<open>n->end\<close> and the character
  put back must be inside the buffer, whose NUL is at the length of \<open>script\<close>.
\<close>

fun ExprDump :: "(efn \<Rightarrow> string) \<Rightarrow> string \<Rightarrow> nat \<Rightarrow> expr \<Rightarrow> string option" where
  "ExprDump fp script depth (Expr f name argv s e) =
     do { u \<leftarrow> ensure (0 \<le> e \<and> e \<le> int (length script) \<and> 0 \<le> s \<and> s \<le> int (length script));
          subs \<leftarrow> those (map (ExprDump fp script (depth + 1)) argv);
          Some (replicate (depth * 2) (CHR '' '') @ name @ '' '' @ fp f @ '' ('' @ show_int s @ ''-'' @
                show_int e @ '') '' @
                quoted (cstr (drop (nat s) ((script @ [NUL])[nat e := NUL]))) @ [CHR 0x0A] @ concat subs) }"

text \<open>\<open>main\<close> of the host tool, with the exit status. The file is read into 8192 bytes.\<close>

definition edify_main :: "unit os \<Rightarrow> (efn \<Rightarrow> string) \<Rightarrow> string list \<Rightarrow> (int \<times> string \<times> string) option" where
  "edify_main os fp argv =
     do { reg \<leftarrow> host_registry;
          if length argv = 1
          then do { h \<leftarrow> test os reg;
                    Some (if h_errors h \<noteq> 0 then 1 else 0, h_stdout h, h_stderr h) }
          else do {
            fname \<leftarrow> rd argv 1;
            contents \<leftarrow> os_fopen_r os fname ();
            (let buffer = take 8191 contents
             in do { l \<leftarrow> yy_scan_bytes buffer lexer_init;
                     q \<leftarrow> yyparse reg None 0 l;
                     (let p = snd q;
                          out = p_out p @ ''parse returned '' @ show_int (int (fst q)) @ ''; '' @
                            show_int (p_error_count p) @ '' errors encountered'' @ [CHR 0x0A]
                      in if fst q = 0 \<or> p_error_count p > 0
                         then do { root \<leftarrow> p_root p;
                                   d \<leftarrow> ExprDump fp buffer 0 root;
                                   r \<leftarrow> Evaluate os root (fresh_state None buffer [] ());
                                   Some (0, out @ d @ st_stdout (snd r) @
                                     (case fst r of
                                        None \<Rightarrow> ''result was NULL, message is: '' @
                                          (case st_errmsg (snd r) of None \<Rightarrow> ''(NULL)'' | Some m \<Rightarrow> m) @ [CHR 0x0A]
                                      | Some s \<Rightarrow> ''result is ['' @ s @ '']'' @ [CHR 0x0A]),
                                     st_stderr (snd r)) }
                         else Some (0, out, [])) }) } }"

end
