(* ===== verification/EdifyLexSpec.thy ===== *)
theory EdifyLexSpec
  imports EdifyLexer
begin

text \<open>
  The scanner against its rules. \<open>lex_rule\<close> is the choice among the 22 rules lex.yy.c has, as a function
  on lists with \<open>takeWhile\<close>; the table-driven loop of lex.yy.c selects the same rule and the same length
  at every position of every script (\<open>yy_scan_rule\<close>). From it follow the termination of \<open>yylex\<close>, its
  token positions, the round trip of quoted strings, and the comparison with lexer.l in EdifyLexRules.
\<close>

section \<open>The rules\<close>

definition is_word :: "char \<Rightarrow> bool" where
  "is_word c \<longleftrightarrow>
     (let n = char_code c in
      (97 \<le> n \<and> n \<le> 122) \<or> (65 \<le> n \<and> n \<le> 90) \<or> (46 \<le> n \<and> n \<le> 58) \<or> n = 95)"

definition is_blank :: "char \<Rightarrow> bool" where
  "is_blank c \<longleftrightarrow> c = CHR '' '' \<or> c = CHR 0x09"

definition is_xdigit :: "char \<Rightarrow> bool" where
  "is_xdigit c \<longleftrightarrow> is_digit 16 c"

definition keyword_rule :: "string \<Rightarrow> nat" where
  "keyword_rule w =
     (if w = ''if'' then 10 else if w = ''then'' then 11 else if w = ''else'' then 12
      else if w = ''endif'' then 13 else 14)"

fun lex_initial :: "string \<Rightarrow> nat \<times> nat" where
  "lex_initial [] = (0, 0)"
| "lex_initial (c # cs) =
     (if c = CHR 0x22 then (1, 1)
      else if is_word c then
        (let w = takeWhile is_word (c # cs) in (keyword_rule w, length w))
      else if is_blank c then (20, length (takeWhile is_blank (c # cs)))
      else if c = CHR 0x0A then (21, 1)
      else if c = CHR ''#'' then
        (if CHR 0x0A \<in> set cs then (21, length (takeWhile (\<lambda>d. d \<noteq> CHR 0x0A) (c # cs)) + 1)
         else (22, 1))
      else if c = CHR ''&'' then (if take 1 cs = ''&'' then (15, 2) else (22, 1))
      else if c = CHR ''|'' then (if take 1 cs = ''|'' then (16, 2) else (22, 1))
      else if c = CHR ''='' then (if take 1 cs = ''='' then (17, 2) else (22, 1))
      else if c = CHR ''!'' then (if take 1 cs = ''='' then (18, 2) else (19, 1))
      else if c \<in> set ''+(),;'' then (19, 1)
      else (22, 1))"

fun lex_str :: "string \<Rightarrow> nat \<times> nat" where
  "lex_str [] = (0, 0)"
| "lex_str (c # cs) =
     (if c = CHR 0x22 then (2, 1)
      else if c = CHR 0x5C then
        (case cs of
           [] \<Rightarrow> (9, 1)
         | d # ds \<Rightarrow>
             if d = CHR ''n'' then (3, 2)
             else if d = CHR ''t'' then (4, 2)
             else if d = CHR 0x22 then (5, 2)
             else if d = CHR 0x5C then (6, 2)
             else if d = CHR ''x'' \<and> 2 \<le> length ds \<and> is_xdigit (ds ! 0) \<and> is_xdigit (ds ! 1)
             then (7, 4)
             else (9, 1))
      else if c = CHR 0x0A then (8, 1)
      else if c = CHR 0x0D then (if take 1 cs = [CHR 0x0A] then (8, 2) else (9, 1))
      else (9, 1))"

definition lex_rule :: "nat \<Rightarrow> string \<Rightarrow> nat \<times> nat" where
  "lex_rule start xs = (if start = 3 then lex_str xs else lex_initial xs)"

section \<open>The automaton\<close>

definition ec :: "char \<Rightarrow> nat" where
  "ec c = yy_ec ! char_code c"

definition word_class :: "nat \<Rightarrow> bool" where
  "word_class c \<longleftrightarrow> c = 10 \<or> c = 11 \<or> (14 \<le> c \<and> c \<le> 23)"

definition word_state :: "nat \<Rightarrow> bool" where
  "word_state s \<longleftrightarrow> s = 14 \<or> s = 16 \<or> s = 17 \<or> s = 18 \<or> s = 30 \<or> s = 32 \<or> s = 33 \<or> s = 34 \<or>
     s = 35 \<or> s = 43 \<or> s = 44 \<or> s = 45 \<or> s = 47 \<or> s = 48 \<or> s = 49 \<or> s = 51"

text \<open>The automaton the tables encode, state by state and class by class.\<close>

definition delta :: "nat \<Rightarrow> nat \<Rightarrow> nat" where
  "delta s c =
     (if s = 5 then 52
      else if c = 0 then 5
      else if s = 1 then
        (if c = 2 then 7 else if c = 3 then 8 else if c = 5 then 9 else if c = 6 then 10
         else if c = 7 then 11 else if c = 8 then 12 else if c = 9 then 13 else if c = 12 then 15
         else if c = 15 then 16 else if c = 18 then 17 else if c = 22 then 18
         else if c = 24 then 19 else if word_class c then 14 else 6)
      else if s = 3 then
        (if c = 3 then 21 else if c = 4 then 22 else if c = 6 then 23 else if c = 13 then 24 else 20)
      else if s = 7 \<or> s = 25 then (if c = 2 then 25 else 52)
      else if s = 9 then (if c = 12 then 26 else 52)
      else if s = 11 \<or> s = 27 then (if c = 3 then 28 else 27)
      else if s = 12 then (if c = 8 then 29 else 52)
      else if s = 15 then (if c = 12 then 31 else 52)
      else if s = 19 then (if c = 24 then 36 else 52)
      else if s = 22 then (if c = 3 then 37 else 52)
      else if s = 24 then
        (if c = 6 then 38 else if c = 13 then 39 else if c = 20 then 40 else if c = 22 then 41
         else if c = 23 then 42 else 52)
      else if s = 42 \<or> s = 46 then
        (if c = 11 \<or> (14 \<le> c \<and> c \<le> 16) then s + 4 else 52)
      else if word_state s then
        (if \<not> word_class c then 52
         else if s = 16 \<and> c = 19 then 32 else if s = 16 \<and> c = 20 then 33
         else if s = 17 \<and> c = 16 then 34 else if s = 18 \<and> c = 17 then 35
         else if s = 32 \<and> c = 21 then 43 else if s = 33 \<and> c = 14 then 44
         else if s = 35 \<and> c = 15 then 45 else if s = 43 \<and> c = 15 then 47
         else if s = 44 \<and> c = 18 then 48 else if s = 45 \<and> c = 20 then 49
         else if s = 48 \<and> c = 16 then 51 else 30)
      else 52)"

definition acc :: "nat \<Rightarrow> nat" where
  "acc s = yy_accept ! s"

definition live :: "nat \<Rightarrow> bool" where
  "live s \<longleftrightarrow> \<not> (s = 6 \<or> s = 8 \<or> s = 10 \<or> s = 13 \<or> s = 20 \<or> s = 21 \<or> s = 23 \<or> s = 26 \<or> s = 28 \<or>
                 s = 29 \<or> s = 31 \<or> (36 \<le> s \<and> s \<le> 41) \<or> s = 50 \<or> s = 52)"

definition state_ok :: "nat \<Rightarrow> bool" where
  "state_ok s \<longleftrightarrow> s = 1 \<or> s = 3 \<or> (5 \<le> s \<and> s < 53)"

lemma ec_char_class: "ec c = char_class (char_code c)"
  using char_code_less [of c] by (simp add: ec_def yy_ec_classes)

lemma yy_ec_rd: "rd yy_ec (char_code c) = Some (ec c)"
  using char_code_less [of c] by (simp add: rd_def ec_def yy_ec_classes)

lemma list_all_class:
  "list_all P [0, 1, 2, 3, 4, 5, 6, 7, 8, 9, 10, 11, 12, 13, 14, 15, 16, 17, 18, 19, 20, 21, 22, 23, 24]
   \<Longrightarrow> c < 25 \<Longrightarrow> P (c :: nat)"
proof -
  have "[0..<25] = [0, 1, 2, 3, 4, 5, 6, 7, 8, 9, 10, 11, 12, 13, 14, 15, 16, 17, 18, 19, 20, 21,
     22, 23, 24 :: nat]" by code_simp
  then show "list_all P [0, 1, 2, 3, 4, 5, 6, 7, 8, 9, 10, 11, 12, 13, 14, 15, 16, 17, 18, 19, 20,
     21, 22, 23, 24] \<Longrightarrow> c < 25 \<Longrightarrow> P c"
    by (metis atLeastLessThan_iff list_all_iff set_upt zero_le)
qed

lemma list_all_state:
  "list_all P [1, 3, 5, 6, 7, 8, 9, 10, 11, 12, 13, 14, 15, 16, 17, 18, 19, 20, 21, 22, 23, 24, 25,
     26, 27, 28, 29, 30, 31, 32, 33, 34, 35, 36, 37, 38, 39, 40, 41, 42, 43, 44, 45, 46, 47, 48, 49,
     50, 51, 52] \<Longrightarrow> state_ok s \<Longrightarrow> P (s :: nat)"
proof -
  have "[1, 3] @ [5..<53] = [1, 3, 5, 6, 7, 8, 9, 10, 11, 12, 13, 14, 15, 16, 17, 18, 19, 20, 21,
     22, 23, 24, 25, 26, 27, 28, 29, 30, 31, 32, 33, 34, 35, 36, 37, 38, 39, 40, 41, 42, 43, 44, 45,
     46, 47, 48, 49, 50, 51, 52 :: nat]" by code_simp
  moreover have "state_ok s \<Longrightarrow> s \<in> set ([1, 3] @ [5..<53])"
    unfolding set_append set_upt by (auto simp: state_ok_def)
  ultimately show "list_all P [1, 3, 5, 6, 7, 8, 9, 10, 11, 12, 13, 14, 15, 16, 17, 18, 19, 20, 21,
     22, 23, 24, 25, 26, 27, 28, 29, 30, 31, 32, 33, 34, 35, 36, 37, 38, 39, 40, 41, 42, 43, 44, 45,
     46, 47, 48, 49, 50, 51, 52] \<Longrightarrow> state_ok s \<Longrightarrow> P s"
    by (metis list_all_iff)
qed

text \<open>The compressed tables with their default chains are that automaton.\<close>

lemma yy_next_delta:
  assumes "state_ok s" and "c < 25"
  shows "yy_next s c = Some (delta s c)"
proof -
  have "list_all (\<lambda>s. list_all (\<lambda>c. yy_next s c = Some (delta s c))
      [0, 1, 2, 3, 4, 5, 6, 7, 8, 9, 10, 11, 12, 13, 14, 15, 16, 17, 18, 19, 20, 21, 22, 23, 24])
    [1, 3, 5, 6, 7, 8, 9, 10, 11, 12, 13, 14, 15, 16, 17, 18, 19, 20, 21, 22, 23, 24, 25, 26, 27,
     28, 29, 30, 31, 32, 33, 34, 35, 36, 37, 38, 39, 40, 41, 42, 43, 44, 45, 46, 47, 48, 49, 50, 51,
     52]"
    by (simp add: delta_def word_class_def word_state_def yy_next.simps yy_tables del: nat_eval_del)
  from list_all_class [OF list_all_state [OF this assms(1)] assms(2)] show ?thesis .
qed

lemma between_if:
  "(b \<Longrightarrow> l \<le> x \<and> x < u) \<Longrightarrow> (\<not> b \<Longrightarrow> l \<le> y \<and> y < u) \<Longrightarrow>
   l \<le> (if b then x else y) \<and> (if b then x else y) < (u :: nat)"
  by simp

lemma delta_range: "5 \<le> delta s c \<and> delta s c < 53"
  unfolding delta_def by (intro between_if) auto

lemma delta_ok [simp]: "state_ok (delta s c)"
  using delta_range [of s c] by (auto simp: state_ok_def)

lemma base_rd:
  assumes "state_ok s" shows "\<exists>b. rd yy_base s = Some b \<and> (b = 73 \<longleftrightarrow> \<not> live s)"
proof -
  have "list_all (\<lambda>s. case rd yy_base s of None \<Rightarrow> False | Some b \<Rightarrow> b = 73 \<longleftrightarrow> \<not> live s)
    [1, 3, 5, 6, 7, 8, 9, 10, 11, 12, 13, 14, 15, 16, 17, 18, 19, 20, 21, 22, 23, 24, 25, 26, 27,
     28, 29, 30, 31, 32, 33, 34, 35, 36, 37, 38, 39, 40, 41, 42, 43, 44, 45, 46, 47, 48, 49, 50, 51,
     52]"
    by (simp add: live_def yy_tables del: nat_eval_del)
  from list_all_state [OF this assms] show ?thesis by (auto split: option.splits)
qed

lemma acc_rd: "state_ok s \<Longrightarrow> rd yy_accept s = Some (acc s)"
proof -
  have "length yy_accept = 53" by (simp add: yy_accept_def)
  then show "state_ok s \<Longrightarrow> rd yy_accept s = Some (acc s)"
    by (auto simp: rd_def acc_def state_ok_def)
qed

text \<open>The accepting states, by rule.\<close>

lemma acc_values:
  "acc 1 = 0 \<and> acc 3 = 0 \<and> acc 5 = 24 \<and> acc 6 = 22 \<and> acc 7 = 20 \<and> acc 8 = 21 \<and> acc 9 = 19 \<and> acc 10 = 1 \<and>
   acc 11 = 22 \<and> acc 12 = 22 \<and> acc 13 = 19 \<and> acc 14 = 14 \<and> acc 15 = 22 \<and> acc 16 = 14 \<and> acc 17 = 14 \<and>
   acc 18 = 14 \<and> acc 19 = 22 \<and> acc 20 = 9 \<and> acc 21 = 8 \<and> acc 22 = 9 \<and> acc 23 = 2 \<and> acc 24 = 9 \<and>
   acc 25 = 20 \<and> acc 26 = 18 \<and> acc 27 = 0 \<and> acc 28 = 21 \<and> acc 29 = 15 \<and> acc 30 = 14 \<and> acc 31 = 17 \<and>
   acc 32 = 14 \<and> acc 33 = 14 \<and> acc 34 = 10 \<and> acc 35 = 14 \<and> acc 36 = 16 \<and> acc 37 = 8 \<and> acc 38 = 5 \<and>
   acc 39 = 6 \<and> acc 40 = 3 \<and> acc 41 = 4 \<and> acc 42 = 0 \<and> acc 43 = 14 \<and> acc 44 = 14 \<and> acc 45 = 14 \<and>
   acc 46 = 0 \<and> acc 47 = 12 \<and> acc 48 = 14 \<and> acc 49 = 11 \<and> acc 50 = 7 \<and> acc 51 = 13 \<and> acc 52 = 0"
  by (simp add: acc_def yy_accept_def)

section \<open>Runs of the automaton\<close>

fun dfa :: "nat \<Rightarrow> string \<Rightarrow> nat" where
  "dfa s [] = s"
| "dfa s (c # cs) = dfa (delta s (ec c)) cs"

fun la_run :: "nat \<Rightarrow> string \<Rightarrow> nat \<Rightarrow> nat \<times> nat \<Rightarrow> nat \<times> nat" where
  "la_run s [] cp la = la"
| "la_run s (c # cs) cp la = la_run (delta s (ec c)) cs (Suc cp) (if acc s \<noteq> 0 then (s, cp) else la)"

fun all_live :: "nat \<Rightarrow> string \<Rightarrow> bool" where
  "all_live s [] = True"
| "all_live s (c # cs) = (live (delta s (ec c)) \<and> all_live (delta s (ec c)) cs)"

lemma dfa_append: "dfa s (v @ w) = dfa (dfa s v) w"
  by (induction v arbitrary: s) auto

lemma dfa_ok: "state_ok s \<Longrightarrow> state_ok (dfa s w)"
  by (induction w arbitrary: s) auto

lemma la_run_append:
  "la_run s (v @ w) cp la = la_run (dfa s v) w (cp + length v) (la_run s v cp la)"
  by (induction v arbitrary: s cp la) auto

lemma all_live_append: "all_live s (v @ w) \<longleftrightarrow> all_live s v \<and> all_live (dfa s v) w"
  by (induction v arbitrary: s) auto

lemma note_accept_eq:
  "state_ok s \<Longrightarrow> note_accept s cp la = Some (if acc s \<noteq> 0 then (s, cp) else la)"
  by (simp add: note_accept_def acc_rd)

lemma ec_less: "ec c < 25"
  by (simp add: ec_char_class char_class_def)

lemma ec_0_iff: "ec c = 0 \<longleftrightarrow> c = NUL"
  using char_code_inj [of c NUL] by (auto simp: ec_char_class char_class_def char_code_def)

lemma ec_NUL [simp]: "ec NUL = 0"
  by (simp add: ec_0_iff)

lemma yy_match_step:
  assumes "state_ok s"
  shows "yy_match (c # cs) s cp la =
    (let s1 = delta s (ec c); la1 = (if acc s \<noteq> 0 then (s, cp) else la)
     in if live s1 then yy_match cs s1 (Suc cp) la1 else Some (s1, Suc cp, la1))"
proof -
  obtain b where b: "rd yy_base (delta s (ec c)) = Some b" "b = 73 \<longleftrightarrow> \<not> live (delta s (ec c))"
    using base_rd [OF delta_ok] by blast
  show ?thesis
    by (simp add: yy_ec_rd note_accept_eq assms yy_next_delta ec_less b Let_def del: split_paired_All)
qed

lemma yy_match_live:
  "state_ok s \<Longrightarrow> all_live s w \<Longrightarrow>
   yy_match (w @ r) s cp la = yy_match r (dfa s w) (cp + length w) (la_run s w cp la)"
proof (induction w arbitrary: s cp la)
  case (Cons c w)
  then show ?case
    by (simp add: yy_match_step Let_def del: yy_match.simps)
qed simp

lemma yy_get_previous_state_eq:
  "state_ok s \<Longrightarrow> NUL \<notin> set w \<Longrightarrow>
   yy_get_previous_state w s cp la = Some (dfa s w, la_run s w cp la)"
proof (induction w arbitrary: s cp la)
  case (Cons c w)
  then have "c \<noteq> NUL" "NUL \<notin> set w" by auto
  with Cons.IH Cons.prems(1) show ?case
    by (simp add: yy_ec_rd note_accept_eq yy_next_delta ec_less)
qed simp

lemma yy_match_EOB:
  assumes "state_ok s"
  shows "yy_match [NUL, NUL] s cp la =
     Some (52, if s = 5 then Suc cp else cp + 2,
           if s = 5 then (5, cp) else (5, Suc cp))"
proof -
  have "delta s 0 = (if s = 5 then 52 else 5)" "delta 5 0 = 52"
    by (simp_all add: delta_def)
  moreover have "live 5" "\<not> live 52" "acc 5 = 24"
    by (simp_all add: live_def acc_values)
  moreover have "state_ok 5" by (simp add: state_ok_def)
  ultimately show ?thesis
    using assms by (simp add: yy_match_step Let_def del: yy_match.simps)
qed

section \<open>From a match to the action\<close>

text \<open>The rule the label \<open>yy_find_action\<close> selects, with the back-up to the last accepting state.\<close>

definition select :: "nat \<Rightarrow> nat \<Rightarrow> nat \<times> nat \<Rightarrow> nat \<times> nat" where
  "select s cp la = (if acc s \<noteq> 0 then (acc s, cp) else (acc (fst la), snd la))"

lemma find_action_select:
  assumes "state_ok s" and "acc s = 0 \<Longrightarrow> state_ok (fst la)"
    and "select s cp la = (a, cp1)" and "a \<noteq> 0" and "a \<noteq> 24"
  shows "yy_scan buf n start bp (At_find_action s cp la) = Some (Act a cp1, la)"
  using assms by (subst yy_scan.simps) (auto simp: select_def acc_rd split: if_splits)

lemma scan_inside:
  assumes "drop bp buf = w @ d # r" and "state_ok start" and "all_live start w"
    and "\<not> live (delta (dfa start w) (ec d))"
    and "la' = la_run start (w @ [d]) bp la"
    and "acc (delta (dfa start w) (ec d)) = 0 \<Longrightarrow> state_ok (fst la')"
    and "select (delta (dfa start w) (ec d)) (bp + length w + 1) la' = (a, cp1)"
    and "a \<noteq> 0" and "a \<noteq> 24"
  shows "yy_scan buf n start bp (At_match start bp la) = Some (Act a cp1, la')"
proof -
  have m: "yy_match (drop bp buf) start bp la
      = Some (delta (dfa start w) (ec d), bp + length w + 1, la')"
    using assms(2-4) dfa_ok [OF assms(2), of w]
    by (simp add: assms(1,5) yy_match_live yy_match_step Let_def la_run_append del: yy_match.simps)
  have "yy_scan buf n start bp
      (At_find_action (delta (dfa start w) (ec d)) (bp + length w + 1) la') = Some (Act a cp1, la')"
    using assms(6-9) by (intro find_action_select) auto
  then show ?thesis
    by (subst yy_scan.simps) (simp add: m)
qed

lemma scan_at_end:
  assumes "buf = text @ [NUL, NUL]" and "n = length text" and "bp < n"
    and "NUL \<notin> set text" and "xs = drop bp text" and "state_ok start"
    and "all_live start xs"
    and "la' = la_run start xs bp (5, Suc n)"
    and "acc (dfa start xs) = 0 \<Longrightarrow> state_ok (fst la')"
    and "select (dfa start xs) n la' = (a, cp1)" and "a \<noteq> 0" and "a \<noteq> 24"
    and "dfa start xs \<noteq> 5"
  shows "yy_scan buf n start bp (At_match start bp la) = Some (Act a cp1, la')"
proof -
  have d: "drop bp buf = xs @ [NUL, NUL]" "length xs = n - bp"
    using assms(1-3,5) by auto
  have ok: "state_ok (dfa start xs)" by (rule dfa_ok [OF assms(6)])
  have m: "yy_match (drop bp buf) start bp la = Some (52, n + 2, 5, Suc n)"
    using assms(3,6,7,13) ok d(2)
    by (simp add: d(1) yy_match_live yy_match_EOB del: yy_match.simps)
  have tk: "take (n - bp) (drop bp buf) = xs"
    using d by simp
  have xs0: "NUL \<notin> set xs" using assms(4,5) by (auto dest: in_set_dropD)
  have "yy_scan buf n start bp (At_find_action (dfa start xs) n la') = Some (Act a cp1, la')"
    using assms(9-12) ok by (intro find_action_select) auto
  moreover have "state_ok 52" "state_ok 5" by (simp_all add: state_ok_def)
  ultimately have "yy_scan buf n start bp (At_find_action 52 (n + 2) (5, Suc n))
      = Some (Act a cp1, la')"
    using assms(3)
    by (subst yy_scan.simps)
       (simp add: acc_rd acc_values tk yy_get_previous_state_eq assms(6,8) xs0)
  then show ?thesis
    by (subst yy_scan.simps) (simp add: m)
qed

lemma scan_eof:
  assumes "buf = text @ [NUL, NUL]" and "n = length text" and "state_ok start" and "start \<noteq> 5"
  shows "yy_scan buf n start n (At_match start n la) = Some (Eof, 5, Suc n)"
proof -
  have m: "yy_match (drop n buf) start n la = Some (52, n + 2, 5, Suc n)"
    using assms by (simp add: yy_match_EOB del: yy_match.simps)
  have "state_ok 52" "state_ok 5" by (simp_all add: state_ok_def)
  then have "yy_scan buf n start n (At_find_action 52 (n + 2) (5, Suc n)) = Some (Eof, 5, Suc n)"
    by (subst yy_scan.simps) (simp add: acc_rd acc_values)
  then show ?thesis
    by (subst yy_scan.simps) (simp add: m)
qed

section \<open>The longest match, as a function of the text\<close>

text \<open>The last accepting state of the longest live run: its rule and the length it accepts.\<close>

fun pick :: "nat \<Rightarrow> string \<Rightarrow> nat \<Rightarrow> nat \<times> nat \<Rightarrow> nat \<times> nat" where
  "pick s [] k best = (if acc s \<noteq> 0 then (acc s, k) else best)"
| "pick s (c # cs) k best =
     (let best1 = (if acc s \<noteq> 0 then (acc s, k) else best); s1 = delta s (ec c)
      in if live s1 then pick s1 cs (Suc k) best1
         else if acc s1 \<noteq> 0 then (acc s1, Suc k) else best1)"

fun best_run :: "nat \<Rightarrow> string \<Rightarrow> nat \<Rightarrow> nat \<times> nat \<Rightarrow> nat \<times> nat" where
  "best_run s [] k best = best"
| "best_run s (c # cs) k best =
     best_run (delta s (ec c)) cs (Suc k) (if acc s \<noteq> 0 then (acc s, k) else best)"

lemma pick_live:
  "all_live s w \<Longrightarrow> pick s (w @ r) k best = pick (dfa s w) r (k + length w) (best_run s w k best)"
  by (induction w arbitrary: s k best) (auto simp: Let_def)

definition la_best :: "nat \<Rightarrow> nat \<times> nat \<Rightarrow> nat \<times> nat \<Rightarrow> bool" where
  "la_best bp la best \<longleftrightarrow>
     (fst best \<noteq> 0 \<longrightarrow> state_ok (fst la) \<and> acc (fst la) = fst best \<and> snd la = bp + snd best)"

lemma la_best_run:
  "\<lbrakk>state_ok s; la_best bp la best; cp = bp + k\<rbrakk>
   \<Longrightarrow> la_best bp (la_run s w cp la) (best_run s w k best)"
proof (induction w arbitrary: s cp la k best)
  case (Cons c w)
  show ?case
    unfolding la_run.simps best_run.simps
    by (rule Cons.IH) (use Cons.prems in \<open>auto simp: la_best_def\<close>)
qed simp

lemma live_split:
  obtains "all_live s xs"
  | w d r where "xs = w @ d # r" "all_live s w" "\<not> live (delta (dfa s w) (ec d))"
proof (induction xs arbitrary: s thesis)
  case (Cons c xs)
  show ?case
  proof (cases "live (delta s (ec c))")
    case True
    show ?thesis
    proof (rule Cons.IH [of "delta s (ec c)"], goal_cases)
      case 1
      with True show ?case by (intro Cons.prems(1)) simp
    next
      case (2 w d r)
      with True show ?case by (intro Cons.prems(2) [of "c # w" d r]) simp_all
    qed
  next
    case False
    then show ?thesis by (intro Cons.prems(2) [of "[]" c xs]) simp_all
  qed
qed simp

lemma scan_pick:
  assumes "buf = text @ [NUL, NUL]" and "n = length text" and "bp < n"
    and "NUL \<notin> set text" and "state_ok start" and "start \<noteq> 5"
    and "pick start (drop bp text) 0 (0, 0) = (a, k)" and "a \<noteq> 0" and "a \<noteq> 24"
  shows "\<exists>la'. yy_scan buf n start bp (At_match start bp la) = Some (Act a (bp + k), la')"
proof (rule live_split [of start "drop bp text"], goal_cases)
  case 1
  let ?xs = "drop bp text" and ?la = "(5, Suc n)"
  let ?lb = "la_run start ?xs bp ?la" and ?s = "dfa start ?xs"
  let ?best = "best_run start ?xs 0 (0, 0)"
  have r: "la_best bp ?lb ?best"
    by (rule la_best_run [OF assms(5)]) (simp_all add: la_best_def)
  have p: "(if acc ?s \<noteq> 0 then (acc ?s, length ?xs) else ?best) = (a, k)"
    using assms(7) pick_live [OF 1, of "[]" 0 "(0, 0)"] by simp
  have "length ?xs = n - bp" "set ?xs \<subseteq> set text"
    using assms(2) by (auto dest: in_set_dropD)
  moreover have "acc 5 = 24" by (simp add: acc_values)
  ultimately have s5: "?s \<noteq> 5"
    using p assms(9) by (auto split: if_splits)
  have sel: "select ?s n ?lb = (a, bp + k)"
    using r p assms(2,3,8) by (auto simp: select_def la_best_def split: if_splits)
  have ok: "acc ?s = 0 \<Longrightarrow> state_ok (fst ?lb)"
    using r p assms(8) by (auto simp: la_best_def split: if_splits)
  show ?case
    using scan_at_end [OF assms(1-4) refl assms(5) 1 refl ok sel assms(8,9) s5] by blast
next
  case (2 w d r)
  let ?la = "la_run start (w @ [d]) bp la" and ?s = "delta (dfa start w) (ec d)"
  let ?best = "best_run start (w @ [d]) 0 (0, 0)"
  have rel: "la_best bp ?la ?best"
    by (rule la_best_run [OF assms(5)]) (simp_all add: la_best_def)
  have br: "best_run start (w @ [d]) 0 (0, 0) = (if acc (dfa start w) \<noteq> 0
      then (acc (dfa start w), length w) else best_run start w 0 (0, 0))"
  proof -
    have "best_run s (w @ [d]) j b = (if acc (dfa s w) \<noteq> 0
      then (acc (dfa s w), j + length w) else best_run s w j b)" for s j b
      by (induction w arbitrary: s j b) auto
    then show ?thesis by simp
  qed
  have p: "(if acc ?s \<noteq> 0 then (acc ?s, Suc (length w)) else ?best) = (a, k)"
    using assms(7) pick_live [OF 2(2), of "d # r" 0 "(0, 0)"] 2(3)
    by (simp only: 2(1) br) (simp add: Let_def split: if_splits)
  have sel: "select ?s (bp + length w + 1) ?la = (a, bp + k)"
    using rel p assms(8) by (auto simp: select_def la_best_def split: if_splits)
  have ok: "acc ?s = 0 \<Longrightarrow> state_ok (fst ?la)"
    using rel p assms(8) by (auto simp: la_best_def split: if_splits)
  have dr: "drop bp buf = w @ d # (r @ [NUL, NUL])"
    using assms(1-3) 2(1) by simp
  show ?case
    using scan_inside [OF dr assms(5) 2(2,3) refl ok sel assms(8,9)] by blast
qed

section \<open>The automaton reads the rules\<close>

text \<open>A fact about a character and its class is a fact about the 256 entries of the class table.\<close>

definition class_list :: "(nat \<times> nat) list" where
  "class_list = zip [0..<256] yy_ec"

lemma class_all: "list_all (\<lambda>(n, k). P n k) class_list \<Longrightarrow> P (char_code c) (ec c)"
proof -
  have "length yy_ec = 256" by (simp add: yy_ec_classes)
  then have "(char_code c, ec c) \<in> set class_list"
    using char_code_less [of c] by (auto simp: class_list_def ec_def in_set_zip intro!: exI [of _ "char_code c"])
  then show "list_all (\<lambda>(n, k). P n k) class_list \<Longrightarrow> P (char_code c) (ec c)"
    by (auto simp: list_all_iff)
qed

lemmas class_list_eval = class_list_def byte_codes yy_ec_def

lemma is_word_class: "is_word c \<longleftrightarrow> word_class (ec c)"
proof -
  have "list_all (\<lambda>(n, k). ((97 \<le> n \<and> n \<le> 122) \<or> (65 \<le> n \<and> n \<le> 90) \<or> (46 \<le> n \<and> n \<le> 58) \<or>
      n = 95) \<longleftrightarrow> k = 10 \<or> k = 11 \<or> (14 \<le> k \<and> k \<le> 23)) class_list"
    unfolding class_list_eval by (simp del: nat_eval_del)
  from class_all [OF this, of c] show ?thesis
    by (simp only: is_word_def Let_def word_class_def)
qed

lemma is_xdigit_class: "is_xdigit c \<longleftrightarrow> ec c = 11 \<or> (14 \<le> ec c \<and> ec c \<le> 16)"
proof -
  have "list_all (\<lambda>(n, k). (case (if 48 \<le> n \<and> n \<le> 57 then Some (n - 48)
      else if 97 \<le> n \<and> n \<le> 122 then Some (n - 87) else if 65 \<le> n \<and> n \<le> 90 then Some (n - 55)
      else None) of None \<Rightarrow> False | Some d \<Rightarrow> d < 16) \<longleftrightarrow> k = 11 \<or> (14 \<le> k \<and> k \<le> 16)) class_list"
    unfolding class_list_eval by (simp del: nat_eval_del)
  from class_all [OF this, of c] show ?thesis
    by (simp only: is_xdigit_def is_digit_def digit_val_def Let_def)
qed

lemma class_codes:
  "(ec c = 2 \<longleftrightarrow> char_code c = 9 \<or> char_code c = 32) \<and>
   (ec c = 9 \<longleftrightarrow> char_code c = 43 \<or> char_code c = 40 \<or> char_code c = 41 \<or> char_code c = 44 \<or>
     char_code c = 59) \<and>
   (ec c = 3 \<longleftrightarrow> char_code c = 10) \<and> (ec c = 4 \<longleftrightarrow> char_code c = 13) \<and>
   (ec c = 5 \<longleftrightarrow> char_code c = 33) \<and> (ec c = 6 \<longleftrightarrow> char_code c = 34) \<and>
   (ec c = 7 \<longleftrightarrow> char_code c = 35) \<and> (ec c = 8 \<longleftrightarrow> char_code c = 38) \<and>
   (ec c = 12 \<longleftrightarrow> char_code c = 61) \<and> (ec c = 13 \<longleftrightarrow> char_code c = 92) \<and>
   (ec c = 14 \<longleftrightarrow> char_code c = 100) \<and> (ec c = 15 \<longleftrightarrow> char_code c = 101) \<and>
   (ec c = 16 \<longleftrightarrow> char_code c = 102) \<and> (ec c = 17 \<longleftrightarrow> char_code c = 104) \<and>
   (ec c = 18 \<longleftrightarrow> char_code c = 105) \<and> (ec c = 19 \<longleftrightarrow> char_code c = 108) \<and>
   (ec c = 20 \<longleftrightarrow> char_code c = 110) \<and> (ec c = 21 \<longleftrightarrow> char_code c = 115) \<and>
   (ec c = 22 \<longleftrightarrow> char_code c = 116) \<and> (ec c = 23 \<longleftrightarrow> char_code c = 120) \<and>
   (ec c = 24 \<longleftrightarrow> char_code c = 124)"
proof -
  have "list_all (\<lambda>(n, k). (k = 2 \<longleftrightarrow> n = 9 \<or> n = 32) \<and>
      (k = 9 \<longleftrightarrow> n = 43 \<or> n = 40 \<or> n = 41 \<or> n = 44 \<or> n = 59) \<and>
      (k = 3 \<longleftrightarrow> n = 10) \<and> (k = 4 \<longleftrightarrow> n = 13) \<and> (k = 5 \<longleftrightarrow> n = 33) \<and> (k = 6 \<longleftrightarrow> n = 34) \<and>
      (k = 7 \<longleftrightarrow> n = 35) \<and> (k = 8 \<longleftrightarrow> n = 38) \<and> (k = 12 \<longleftrightarrow> n = 61) \<and> (k = 13 \<longleftrightarrow> n = 92) \<and>
      (k = 14 \<longleftrightarrow> n = 100) \<and> (k = 15 \<longleftrightarrow> n = 101) \<and> (k = 16 \<longleftrightarrow> n = 102) \<and> (k = 17 \<longleftrightarrow> n = 104) \<and>
      (k = 18 \<longleftrightarrow> n = 105) \<and> (k = 19 \<longleftrightarrow> n = 108) \<and> (k = 20 \<longleftrightarrow> n = 110) \<and> (k = 21 \<longleftrightarrow> n = 115) \<and>
      (k = 22 \<longleftrightarrow> n = 116) \<and> (k = 23 \<longleftrightarrow> n = 120) \<and> (k = 24 \<longleftrightarrow> n = 124)) class_list"
    unfolding class_list_eval by (simp del: nat_eval_del)
  from class_all [OF this, of c] show ?thesis .
qed

text \<open>The same, as facts about characters.\<close>

lemma char_eq_code: "c = d \<longleftrightarrow> char_code c = char_code d"
  by (simp add: char_code_inj)

lemma single_class:
  "ec c = 2 \<longleftrightarrow> is_blank c"
  "ec c = 3 \<longleftrightarrow> c = CHR 0x0A" "ec c = 4 \<longleftrightarrow> c = CHR 0x0D" "ec c = 5 \<longleftrightarrow> c = CHR ''!''"
  "ec c = 6 \<longleftrightarrow> c = CHR 0x22" "ec c = 7 \<longleftrightarrow> c = CHR ''#''" "ec c = 8 \<longleftrightarrow> c = CHR ''&''"
  "ec c = 9 \<longleftrightarrow> c \<in> set ''+(),;''" "ec c = 12 \<longleftrightarrow> c = CHR ''=''" "ec c = 13 \<longleftrightarrow> c = CHR 0x5C"
  "ec c = 14 \<longleftrightarrow> c = CHR ''d''" "ec c = 15 \<longleftrightarrow> c = CHR ''e''" "ec c = 16 \<longleftrightarrow> c = CHR ''f''"
  "ec c = 17 \<longleftrightarrow> c = CHR ''h''" "ec c = 18 \<longleftrightarrow> c = CHR ''i''" "ec c = 19 \<longleftrightarrow> c = CHR ''l''"
  "ec c = 20 \<longleftrightarrow> c = CHR ''n''" "ec c = 21 \<longleftrightarrow> c = CHR ''s''" "ec c = 22 \<longleftrightarrow> c = CHR ''t''"
  "ec c = 23 \<longleftrightarrow> c = CHR ''x''" "ec c = 24 \<longleftrightarrow> c = CHR ''|''"
  by (auto simp: class_codes is_blank_def char_eq_code [of c] char_code_def)

lemma word_state_cases:
  "word_state s \<Longrightarrow> list_all P [14, 16, 17, 18, 30, 32, 33, 34, 35, 43, 44, 45, 47, 48, 49, 51] \<Longrightarrow> P s"
  by (auto simp: word_state_def)

lemma word_state_acc: "word_state s \<Longrightarrow> acc s \<noteq> 0 \<and> live s \<and> s \<noteq> 5 \<and> state_ok s"
  by (erule word_state_cases) (simp add: acc_values live_def state_ok_def)

lemma word_state_delta:
  assumes "word_state s"
  shows "word_class c \<Longrightarrow> word_state (delta s c)"
    and "c \<noteq> 0 \<Longrightarrow> \<not> word_class c \<Longrightarrow> delta s c = 52"
proof -
  assume "word_class c"
  moreover have "list_all (\<lambda>c. word_state (delta s c)) [10, 11, 14, 15, 16, 17, 18, 19, 20, 21, 22, 23]"
    by (rule word_state_cases [OF assms])
       (simp add: delta_def word_state_def word_class_def del: nat_eval_del)
  moreover have "word_class c \<Longrightarrow> c \<in> set [10, 11, 14, 15, 16, 17, 18, 19, 20, 21, 22, 23]"
    unfolding word_class_def by simp presburger
  ultimately show "word_state (delta s c)" by (metis list_all_iff)
next
  show "c \<noteq> 0 \<Longrightarrow> \<not> word_class c \<Longrightarrow> delta s c = 52"
    by (rule word_state_cases [OF assms]) (simp add: delta_def word_state_def)
qed

lemma pick_word:
  "word_state s \<Longrightarrow> NUL \<notin> set xs \<Longrightarrow>
   pick s xs k best = (acc (dfa s (takeWhile is_word xs)), k + length (takeWhile is_word xs))"
proof (induction xs arbitrary: s k best)
  case Nil
  then show ?case by (simp add: word_state_acc)
next
  case (Cons c cs)
  have l: "live 52 = False" "acc 52 = 0" by (simp_all add: live_def acc_values)
  show ?case
  proof (cases "is_word c")
    case True
    then have "word_state (delta s (ec c))"
      using Cons.prems by (simp add: is_word_class word_state_delta)
    with True Cons show ?thesis by (simp add: Let_def word_state_acc)
  next
    case False
    then have "delta s (ec c) = 52"
      using Cons.prems by (intro word_state_delta) (auto simp: is_word_class ec_0_iff)
    with False Cons.prems show ?thesis by (simp add: l word_state_acc)
  qed
qed

lemma delta_word:
  "word_class c \<Longrightarrow> delta 30 c = 30"
  "word_class c \<Longrightarrow> delta 14 c = 30"
  "word_class c \<Longrightarrow> delta 34 c = 30"
  "word_class c \<Longrightarrow> delta 47 c = 30"
  "word_class c \<Longrightarrow> delta 49 c = 30"
  "word_class c \<Longrightarrow> delta 51 c = 30"
  "word_class c \<Longrightarrow> delta 16 c = (if c = 19 then 32 else if c = 20 then 33 else 30)"
  "word_class c \<Longrightarrow> delta 17 c = (if c = 16 then 34 else 30)"
  "word_class c \<Longrightarrow> delta 18 c = (if c = 17 then 35 else 30)"
  "word_class c \<Longrightarrow> delta 32 c = (if c = 21 then 43 else 30)"
  "word_class c \<Longrightarrow> delta 33 c = (if c = 14 then 44 else 30)"
  "word_class c \<Longrightarrow> delta 35 c = (if c = 15 then 45 else 30)"
  "word_class c \<Longrightarrow> delta 43 c = (if c = 15 then 47 else 30)"
  "word_class c \<Longrightarrow> delta 44 c = (if c = 18 then 48 else 30)"
  "word_class c \<Longrightarrow> delta 45 c = (if c = 20 then 49 else 30)"
  "word_class c \<Longrightarrow> delta 48 c = (if c = 16 then 51 else 30)"
  "word_class c \<Longrightarrow> delta 1 c = (if c = 15 then 16 else if c = 18 then 17 else if c = 22 then 18 else 14)"
  by (auto simp: delta_def word_state_def word_class_def)

lemma dfa_word: "\<forall>c \<in> set w. is_word c \<Longrightarrow> dfa 30 w = 30"
  by (induction w) (auto simp: is_word_class delta_word)

text \<open>The keyword trie, from its leaves to its root.\<close>

lemma trie:
  assumes "\<forall>c \<in> set w. is_word c"
  shows trie_14: "acc (dfa 14 w) = 14"
    and trie_34: "acc (dfa 34 w) = (if w = [] then 10 else 14)"
    and trie_47: "acc (dfa 47 w) = (if w = [] then 12 else 14)"
    and trie_49: "acc (dfa 49 w) = (if w = [] then 11 else 14)"
    and trie_51: "acc (dfa 51 w) = (if w = [] then 13 else 14)"
  using assms by (cases w; simp add: is_word_class delta_word dfa_word acc_values)+

lemma trie1:
  assumes "\<forall>c \<in> set w. is_word c"
  shows trie_43: "acc (dfa 43 w) = (if w = ''e'' then 12 else 14)"
    and trie_45: "acc (dfa 45 w) = (if w = ''n'' then 11 else 14)"
    and trie_48: "acc (dfa 48 w) = (if w = ''f'' then 13 else 14)"
    and trie_17: "acc (dfa 17 w) = (if w = ''f'' then 10 else 14)"
  using assms by (cases w; simp add: is_word_class delta_word dfa_word acc_values trie single_class)+

lemma trie2:
  assumes "\<forall>c \<in> set w. is_word c"
  shows trie_32: "acc (dfa 32 w) = (if w = ''se'' then 12 else 14)"
    and trie_35: "acc (dfa 35 w) = (if w = ''en'' then 11 else 14)"
    and trie_44: "acc (dfa 44 w) = (if w = ''if'' then 13 else 14)"
  using assms by (cases w; simp add: is_word_class delta_word dfa_word acc_values trie1 single_class)+

lemma trie3:
  assumes "\<forall>c \<in> set w. is_word c"
  shows trie_18: "acc (dfa 18 w) = (if w = ''hen'' then 11 else 14)"
    and trie_33: "acc (dfa 33 w) = (if w = ''dif'' then 13 else 14)"
  using assms by (cases w; simp add: is_word_class delta_word dfa_word acc_values trie2 single_class)+

lemma trie_16:
  "\<forall>c \<in> set w. is_word c \<Longrightarrow>
   acc (dfa 16 w) = (if w = ''lse'' then 12 else if w = ''ndif'' then 13 else 14)"
  by (cases w) (simp_all add: is_word_class delta_word dfa_word acc_values trie2 trie3 single_class)

lemma delta_root:
  "is_word c \<Longrightarrow> delta 1 (ec c) =
     (if c = CHR ''e'' then 16 else if c = CHR ''i'' then 17 else if c = CHR ''t'' then 18 else 14)"
  by (subst delta_word) (simp_all add: is_word_class single_class)

lemma trie_root:
  assumes "\<forall>d \<in> set (c # w). is_word d"
  shows "acc (dfa (delta 1 (ec c)) w) = keyword_rule (c # w)"
proof -
  have w: "is_word c" "\<forall>d \<in> set w. is_word d" using assms by auto
  consider "c = CHR ''e''" | "c = CHR ''i''" | "c = CHR ''t''"
    | "c \<noteq> CHR ''e''" "c \<noteq> CHR ''i''" "c \<noteq> CHR ''t''" by blast
  then show ?thesis
  proof cases
    case 1
    then have "delta 1 (ec c) = 16" by (subst delta_root [OF w(1)]) simp
    then show ?thesis
      by (simp only: trie_16 [OF w(2)]) (simp add: keyword_rule_def 1)
  next
    case 2
    then have "delta 1 (ec c) = 17" by (subst delta_root [OF w(1)]) simp
    then show ?thesis
      by (simp only: trie_17 [OF w(2)]) (simp add: keyword_rule_def 2)
  next
    case 3
    then have "delta 1 (ec c) = 18" by (subst delta_root [OF w(1)]) simp
    then show ?thesis
      by (simp only: trie_18 [OF w(2)]) (simp add: keyword_rule_def 3)
  next
    case 4
    then have "delta 1 (ec c) = 14" by (subst delta_root [OF w(1)]) simp
    then show ?thesis
      by (simp only: trie_14 [OF w(2)]) (simp add: keyword_rule_def 4)
  qed
qed

section \<open>The scanner selects the rule the patterns name\<close>

lemma acc_1 [simp]: "acc (Suc 0) = 0"
  using acc_values by simp

lemma delta_simple:
  "c \<noteq> 0 \<Longrightarrow> delta 7 c = (if c = 2 then 25 else 52)"
  "c \<noteq> 0 \<Longrightarrow> delta 25 c = (if c = 2 then 25 else 52)"
  "c \<noteq> 0 \<Longrightarrow> delta 9 c = (if c = 12 then 26 else 52)"
  "c \<noteq> 0 \<Longrightarrow> delta 11 c = (if c = 3 then 28 else 27)"
  "c \<noteq> 0 \<Longrightarrow> delta 27 c = (if c = 3 then 28 else 27)"
  "c \<noteq> 0 \<Longrightarrow> delta 12 c = (if c = 8 then 29 else 52)"
  "c \<noteq> 0 \<Longrightarrow> delta 15 c = (if c = 12 then 31 else 52)"
  "c \<noteq> 0 \<Longrightarrow> delta 19 c = (if c = 24 then 36 else 52)"
  "c \<noteq> 0 \<Longrightarrow> delta 22 c = (if c = 3 then 37 else 52)"
  "c \<noteq> 0 \<Longrightarrow> delta 24 c = (if c = 6 then 38 else if c = 13 then 39 else if c = 20 then 40
     else if c = 22 then 41 else if c = 23 then 42 else 52)"
  "c \<noteq> 0 \<Longrightarrow> delta 42 c = (if c = 11 \<or> (14 \<le> c \<and> c \<le> 16) then 46 else 52)"
  "c \<noteq> 0 \<Longrightarrow> delta 46 c = (if c = 11 \<or> (14 \<le> c \<and> c \<le> 16) then 50 else 52)"
  "c \<noteq> 0 \<Longrightarrow> delta 3 c = (if c = 3 then 21 else if c = 4 then 22 else if c = 6 then 23
     else if c = 13 then 24 else 20)"
  by (simp_all add: delta_def word_state_def)

text \<open>A live state is left with what it accepts; the others end the match.\<close>

lemma pick_step:
  "pick s (c # cs) k best =
     (let s1 = delta s (ec c); best1 = (if acc s \<noteq> 0 then (acc s, k) else best)
      in if live s1 then pick s1 cs (Suc k) best1
         else if s1 = 52 then best1
         else if acc s1 \<noteq> 0 then (acc s1, Suc k) else best1)"
  by (simp add: Let_def acc_values)

lemma pick_final:
  "delta s (ec c) = 52 \<Longrightarrow> acc s \<noteq> 0 \<Longrightarrow> pick s (c # cs) k best = (acc s, k)"
  by (simp add: acc_values live_def)

lemma pick_blank:
  assumes "NUL \<notin> set xs"
  shows "pick 25 xs k best = (20, k + length (takeWhile is_blank xs))"
  using assms
proof (induction xs arbitrary: k best)
  case Nil
  then show ?case by (simp add: acc_values)
next
  case (Cons c cs)
  then have "ec c \<noteq> 0" "NUL \<notin> set cs" by (auto simp: ec_0_iff)
  moreover have "live 25" "\<not> live 52" "acc 52 = 0" "acc 25 = 20"
    by (simp_all add: live_def acc_values)
  ultimately show ?case using Cons.IH by (simp add: Let_def delta_simple single_class)
qed

lemma pick_comment:
  assumes "NUL \<notin> set xs"
  shows "pick 27 xs k best =
    (if CHR 0x0A \<in> set xs then (21, k + length (takeWhile (\<lambda>d. d \<noteq> CHR 0x0A) xs) + 1) else best)"
  using assms
proof (induction xs arbitrary: k best)
  case Nil
  then show ?case by (simp add: acc_values)
next
  case (Cons c cs)
  then have "ec c \<noteq> 0" "NUL \<notin> set cs" by (auto simp: ec_0_iff)
  moreover have "live 27" "\<not> live 28" "acc 27 = 0" "acc 28 = 21"
    by (simp_all add: live_def acc_values)
  ultimately show ?case
    using Cons.IH by (cases "c = CHR 0x0A") (simp_all add: Let_def delta_simple single_class)
qed

lemma pick_two:
  assumes "s1 \<noteq> 52 \<Longrightarrow> \<not> live s1 \<and> acc s1 \<noteq> 0" and "acc s \<noteq> 0"
    and "\<And>c. c \<noteq> 0 \<Longrightarrow> delta s c = (if c = k0 then s1 else 52)" and "NUL \<notin> set xs"
    and "\<And>c. ec c = k0 \<longleftrightarrow> c = d" and "s1 \<noteq> 52"
  shows "pick s xs k best = (if take 1 xs = [d] then (acc s1, Suc k) else (acc s, k))"
proof (cases xs)
  case (Cons c cs)
  with assms(4) have "ec c \<noteq> 0" by (auto simp: ec_0_iff)
  moreover have "\<not> live 52" "acc 52 = 0" by (simp_all add: live_def acc_values)
  ultimately show ?thesis using assms Cons by (simp add: Let_def)
qed (use assms(2) in simp)

lemma delta_1:
  "c \<noteq> 0 \<Longrightarrow> \<not> word_class c \<Longrightarrow> delta 1 c =
     (if c = 2 then 7 else if c = 3 then 8 else if c = 5 then 9 else if c = 6 then 10
      else if c = 7 then 11 else if c = 8 then 12 else if c = 9 then 13 else if c = 12 then 15
      else if c = 24 then 19 else 6)"
  by (auto simp: delta_def word_class_def)

lemma pick_1:
  assumes "D = delta 1 (ec c)"
  shows "pick 1 (c # cs) 0 (0, 0) =
     (if live D then pick D cs 1 (0, 0) else if acc D \<noteq> 0 then (acc D, 1) else (0, 0))"
  unfolding assms by (simp add: Let_def)

lemmas pick_ops =
  pick_two [of 26 9 12 _ "CHR ''=''", OF _ _ delta_simple(3)]
  pick_two [of 29 12 8 _ "CHR ''&''", OF _ _ delta_simple(6)]
  pick_two [of 31 15 12 _ "CHR ''=''", OF _ _ delta_simple(7)]
  pick_two [of 36 19 24 _ "CHR ''|''", OF _ _ delta_simple(8)]

lemma pick_7:
  "NUL \<notin> set xs \<Longrightarrow> pick 7 xs k best = (20, k + length (takeWhile is_blank xs))"
proof (cases xs)
  case (Cons c cs)
  assume "NUL \<notin> set xs"
  with Cons have "ec c \<noteq> 0" "NUL \<notin> set cs" by (auto simp: ec_0_iff)
  moreover have "live 25" "\<not> live 52" "acc 52 = 0" "acc 7 = 20"
    by (simp_all add: live_def acc_values)
  ultimately show ?thesis using Cons by (simp add: Let_def delta_simple single_class pick_blank)
qed (simp add: acc_values)

lemma pick_11:
  "NUL \<notin> set xs \<Longrightarrow> pick 11 xs k best =
    (if CHR 0x0A \<in> set xs then (21, k + length (takeWhile (\<lambda>d. d \<noteq> CHR 0x0A) xs) + 1) else (22, k))"
proof (cases xs)
  case (Cons c cs)
  assume "NUL \<notin> set xs"
  with Cons have "ec c \<noteq> 0" "NUL \<notin> set cs" by (auto simp: ec_0_iff)
  moreover have "live 27" "\<not> live 28" "acc 28 = 21" "acc 11 = 22"
    by (simp_all add: live_def acc_values)
  ultimately show ?thesis
    using Cons by (cases "c = CHR 0x0A") (simp_all add: Let_def delta_simple single_class pick_comment)
qed (simp add: acc_values)

lemma char_not_word:
  "\<not> is_word (CHR 0x22)" "\<not> is_word (CHR '' '')" "\<not> is_word (CHR 0x09)" "\<not> is_word (CHR 0x0A)"
  "\<not> is_word (CHR ''#'')" "\<not> is_word (CHR ''&'')" "\<not> is_word (CHR ''|'')" "\<not> is_word (CHR ''='')"
  "\<not> is_word (CHR ''!'')"
  by (simp_all add: is_word_def char_code_def)

lemma pick_initial:
  assumes "NUL \<notin> set (c # cs)"
  shows "pick 1 (c # cs) 0 (0, 0) = lex_initial (c # cs)"
proof -
  define D where "D = delta 1 (ec c)"
  have nz: "ec c \<noteq> 0" "NUL \<notin> set cs" using assms by (auto simp: ec_0_iff)
  note p = pick_1 [OF D_def, of cs]
  have L: "live 7" "\<not> live 8" "live 9" "\<not> live 10" "live 11" "live 12" "\<not> live 13" "live 15"
    "live 19" "\<not> live 6" "\<not> live 26" "\<not> live 29" "\<not> live 31" "\<not> live 36"
    by (simp_all add: live_def)
  show ?thesis
  proof (cases "is_word c")
    case True
    then have c: "c \<noteq> CHR 0x22" using char_not_word by auto
    have ws: "word_state D"
      unfolding D_def delta_root [OF True] by (simp add: word_state_def)
    let ?w = "takeWhile is_word cs"
    have "\<forall>d \<in> set (c # ?w). is_word d" using True by (auto dest: set_takeWhileD)
    from trie_root [OF this] have "acc (dfa D ?w) = keyword_rule (c # ?w)"
      by (simp only: D_def)
    then show ?thesis
      using True c p word_state_acc [OF ws] pick_word [OF ws nz(2), of 1 "(0, 0)"]
      by (simp add: Let_def)
  next
    case False
    then have D: "D = (if is_blank c then 7 else if c = CHR 0x0A then 8 else if c = CHR ''!'' then 9
        else if c = CHR 0x22 then 10 else if c = CHR ''#'' then 11 else if c = CHR ''&'' then 12
        else if c \<in> set ''+(),;'' then 13 else if c = CHR ''='' then 15
        else if c = CHR ''|'' then 19 else 6)"
      unfolding D_def using nz(1)
      by (subst delta_1) (simp_all only: is_word_class single_class not_False_eq_True)
    note ops = pick_ops [of cs] single_class L acc_values
    show ?thesis
      using False nz p D
      by (simp add: ops pick_7 pick_11 is_blank_def split: if_splits)
  qed
qed

lemma pick_24:
  assumes "NUL \<notin> set cs"
  shows "pick 24 cs 1 (0, 0) = lex_str (CHR 0x5C # cs)"
proof (cases cs)
  case Nil
  then show ?thesis by (simp add: acc_values)
next
  case (Cons d ds)
  have L: "\<not> live 38" "\<not> live 39" "\<not> live 40" "\<not> live 41" "live 42" "live 46" "\<not> live 50" "\<not> live 52"
    by (simp_all add: live_def)
  have nz: "ec d \<noteq> 0" "NUL \<notin> set ds" using assms Cons by (auto simp: ec_0_iff)
  have p42: "pick 42 ds 2 (9, 1) =
     (if 2 \<le> length ds \<and> is_xdigit (ds ! 0) \<and> is_xdigit (ds ! 1) then (7, 4) else (9, 1))"
  proof (cases ds)
    case (Cons h1 t1)
    then have n1: "ec h1 \<noteq> 0" "NUL \<notin> set t1" using nz by (auto simp: ec_0_iff)
    show ?thesis
    proof (cases t1)
      case Nil
      then show ?thesis using Cons n1 L by (simp add: Let_def delta_simple acc_values)
    next
      case (Cons h2 t2)
      then have n2: "ec h2 \<noteq> 0" "NUL \<notin> set t2" using n1 by (auto simp: ec_0_iff)
      show ?thesis
        using \<open>ds = h1 # t1\<close> Cons n1 n2 L
        by (simp add: Let_def delta_simple acc_values is_xdigit_class)
    qed
  qed (simp add: acc_values)
  have "pick 24 (d # ds) 1 (0, 0) =
    (if d = CHR 0x22 then (5, 2) else if d = CHR 0x5C then (6, 2) else if d = CHR ''n'' then (3, 2)
     else if d = CHR ''t'' then (4, 2) else if d = CHR ''x'' then pick 42 ds 2 (9, 1) else (9, 1))"
    using nz L by (simp add: Let_def delta_simple single_class acc_values numeral_2_eq_2)
  moreover have "lex_str (CHR 0x5C # d # ds) =
    (if d = CHR ''n'' then (3, 2) else if d = CHR ''t'' then (4, 2) else if d = CHR 0x22 then (5, 2)
     else if d = CHR 0x5C then (6, 2)
     else if d = CHR ''x'' \<and> 2 \<le> length ds \<and> is_xdigit (ds ! 0) \<and> is_xdigit (ds ! 1)
     then (7, 4) else (9, 1))"
    by simp
  ultimately show ?thesis
    unfolding Cons p42 by (simp only:) auto
qed

lemma pick_str:
  assumes "NUL \<notin> set (c # cs)"
  shows "pick 3 (c # cs) 0 (0, 0) = lex_str (c # cs)"
proof -
  have nz: "ec c \<noteq> 0" "NUL \<notin> set cs" using assms by (auto simp: ec_0_iff)
  have L: "\<not> live 20" "\<not> live 21" "live 22" "\<not> live 23" "live 24" "\<not> live 37" by (simp_all add: live_def)
  have p: "pick 3 (c # cs) 0 (0, 0) =
    (if c = CHR 0x0A then (8, 1) else if c = CHR 0x0D then pick 22 cs 1 (0, 0)
     else if c = CHR 0x22 then (2, 1) else if c = CHR 0x5C then pick 24 cs 1 (0, 0) else (9, 1))"
    using nz L by (simp add: Let_def delta_simple single_class acc_values)
  have p22: "pick 22 cs 1 (0, 0) = (if take 1 cs = [CHR 0x0A] then (8, 2) else (9, 1))"
    using pick_two [of 37 22 3 cs "CHR 0x0A" 1 "(0, 0)", OF _ _ delta_simple(9)] nz L
    by (simp add: acc_values single_class)
  show ?thesis
    unfolding p p22 pick_24 [OF nz(2)] by auto
qed

lemma keyword_rule_range: "10 \<le> keyword_rule w \<and> keyword_rule w \<le> 14"
  by (simp add: keyword_rule_def)

lemma lex_initial_bounds:
  "lex_initial (c # cs) = (a, k) \<Longrightarrow>
     (a = 1 \<or> (10 \<le> a \<and> a \<le> 22)) \<and> 1 \<le> k \<and> k \<le> Suc (length cs)"
proof -
  have "length (takeWhile P cs) \<le> length cs" for P :: "char \<Rightarrow> bool"
    by (rule length_takeWhile_le)
  moreover have "CHR 0x0A \<in> set cs \<Longrightarrow> length (takeWhile (\<lambda>d. d \<noteq> CHR 0x0A) cs) < length cs"
    by (induction cs) auto
  moreover have "take 1 cs = [d] \<Longrightarrow> cs \<noteq> []" for d by auto
  ultimately show "lex_initial (c # cs) = (a, k) \<Longrightarrow> ?thesis"
    using keyword_rule_range [of "takeWhile is_word (c # cs)"]
    by (auto simp: Let_def Suc_le_eq split: if_splits)
qed

lemma lex_str_bounds:
  "lex_str (c # cs) = (a, k) \<Longrightarrow> 2 \<le> a \<and> a \<le> 9 \<and> 1 \<le> k \<and> k \<le> Suc (length cs)"
  by (cases cs) (auto split: if_splits)

lemma lex_rule_bounds:
  assumes "xs \<noteq> []" and "lex_rule start xs = (a, k)"
  shows "1 \<le> a \<and> a \<le> 22 \<and> 1 \<le> k \<and> k \<le> length xs"
proof -
  obtain c cs where xs: "xs = c # cs" using assms(1) by (cases xs) auto
  show ?thesis
  proof (cases "start = 3")
    case True
    with assms(2) show ?thesis
      using lex_str_bounds [of c cs a k] by (simp add: lex_rule_def xs del: lex_str.simps)
  next
    case False
    with assms(2) show ?thesis
      using lex_initial_bounds [of c cs a k] by (auto simp: lex_rule_def xs simp del: lex_initial.simps)
  qed
qed

lemma yy_scan_rule:
  assumes "NUL \<notin> set text" and "start = 1 \<or> start = 3" and "bp \<le> length text"
  shows "\<exists>la'. yy_scan (text @ [NUL, NUL]) (length text) start bp (At_match start bp la) =
     Some (if bp = length text then Eof
           else Act (fst (lex_rule start (drop bp text)))
                    (bp + snd (lex_rule start (drop bp text))), la')"
proof (cases "bp = length text")
  case True
  then show ?thesis
    using scan_eof [OF refl refl, of start "text" la] assms(2) by (auto simp: state_ok_def)
next
  case False
  then obtain c cs where xs: "drop bp text = c # cs"
    using assms(3) by (cases "drop bp text") auto
  then have nul: "NUL \<notin> set (c # cs)"
    using assms(1) by (metis in_set_dropD)
  obtain a k where ak: "lex_rule start (drop bp text) = (a, k)" by fastforce
  then have "pick start (drop bp text) 0 (0, 0) = (a, k)"
    using assms(2) pick_initial [OF nul] pick_str [OF nul]
    by (auto simp: lex_rule_def xs simp del: pick.simps lex_initial.simps lex_str.simps)
  moreover have "1 \<le> a \<and> a \<le> 22"
    using lex_rule_bounds [OF _ ak] xs by auto
  ultimately show ?thesis
    using scan_pick [OF refl refl, of bp "text" start a k la] assms False ak
    by (auto simp: state_ok_def)
qed

end
