(* ===== verification/EdifyLexProofs.thy ===== *)
theory EdifyLexProofs
  imports EdifyLexSpec
begin

text \<open>
  \<open>yylex\<close> on whole scripts, over the rule selection of EdifyLexSpec: it returns after finitely many
  actions with at least one character consumed, the only undefined step is a write behind
  \<open>string_buffer\<close>, and quoted literals and words come back with the characters they denote.
\<close>

section \<open>A lexer on a script\<close>

definition lexer_on :: "string \<Rightarrow> lexer \<Rightarrow> bool" where
  "lexer_on scr l \<longleftrightarrow> NUL \<notin> set scr \<and> yy_ch_buf l = scr @ [NUL, NUL] \<and> yy_n_chars l = length scr \<and>
     yy_c_buf_p l \<le> length scr \<and> (yy_start l = 1 \<or> yy_start l = 3)"

text \<open>What is left to scan.\<close>

definition rest :: "lexer \<Rightarrow> string" where
  "rest l = drop (yy_c_buf_p l) (take (yy_n_chars l) (yy_ch_buf l))"

definition set_accepting :: "nat \<times> nat \<Rightarrow> lexer \<Rightarrow> lexer" where
  "set_accepting la l = l\<lparr>yy_last_accepting_state := fst la, yy_last_accepting_cpos := snd la\<rparr>"

lemma rest_on: "lexer_on scr l \<Longrightarrow> rest l = drop (yy_c_buf_p l) scr"
  by (simp add: lexer_on_def rest_def)

lemma yy_scan_string_on:
  assumes "NUL \<notin> set scr" and "yy_start l = 1 \<or> yy_start l = 3"
  shows "\<exists>l'. yy_scan_string scr l = Some l' \<and> lexer_on scr l' \<and> rest l' = scr \<and>
     yy_start l' = yy_start l \<and> string_buffer l' = string_buffer l \<and> gPos l' = gPos l"
  using assms
  by (simp add: yy_scan_string_def yy_scan_bytes_def yy_scan_buffer_def yy_load_buffer_state_def
      cstr_id lexer_on_def rest_def nth_append)

lemma yy_next_token_eq:
  assumes "lexer_on scr l"
  obtains (eof) la where "rest l = []" "yy_next_token l = Some (Some 0, set_accepting la l)"
  | (act) la a k where "rest l \<noteq> []" "lex_rule (yy_start l) (rest l) = (a, k)" "1 \<le> k"
      "k \<le> length (rest l)" "1 \<le> a" "a \<le> 22"
      "yy_next_token l = yy_action a (take k (rest l))
         ((set_accepting la l)\<lparr>yy_c_buf_p := yy_c_buf_p l + k\<rparr>)"
proof -
  let ?bp = "yy_c_buf_p l"
  have on: "NUL \<notin> set scr" "yy_ch_buf l = scr @ [NUL, NUL]" "yy_n_chars l = length scr"
    "?bp \<le> length scr" "yy_start l = 1 \<or> yy_start l = 3"
    using assms by (auto simp: lexer_on_def)
  obtain la where la: "yy_scan (yy_ch_buf l) (yy_n_chars l) (yy_start l) ?bp
      (At_match (yy_start l) ?bp (yy_last_accepting_state l, yy_last_accepting_cpos l)) =
     Some (if ?bp = length scr then Eof
           else Act (fst (lex_rule (yy_start l) (drop ?bp scr)))
                    (?bp + snd (lex_rule (yy_start l) (drop ?bp scr))), la)"
    using yy_scan_rule [OF on(1,5,4), of "(yy_last_accepting_state l, yy_last_accepting_cpos l)"]
    unfolding on(2,3) by blast
  show thesis
  proof (cases "?bp = length scr")
    case True
    with la show thesis
      by (intro eof [of la])
         (simp_all add: rest_on [OF assms] yy_next_token_def Let_def set_accepting_def)
  next
    case False
    obtain a k where ak: "lex_rule (yy_start l) (drop ?bp scr) = (a, k)" by fastforce
    have ne: "drop ?bp scr \<noteq> []" using False on(4) by simp
    note b = lex_rule_bounds [OF ne ak]
    have "yy_next_token l = yy_action a (take k (drop ?bp scr))
         ((set_accepting la l)\<lparr>yy_c_buf_p := ?bp + k\<rparr>)"
      using la False ak b on(2) by (simp add: yy_next_token_def Let_def set_accepting_def)
    with ak b ne show thesis
      by (intro act [of a k la]) (simp_all add: rest_on [OF assms])
  qed
qed

section \<open>Totality up to the string buffer\<close>

text \<open>
  Whether scanning \<open>xs\<close> to its end, from a start condition and with \<open>b\<close> characters in
  \<open>string_buffer\<close>, writes behind \<open>string_buffer\<close>: the only check the actions lack.
\<close>

function overflows :: "nat \<Rightarrow> string \<Rightarrow> nat \<Rightarrow> bool" where
  "overflows start xs b =
     (if xs = [] then False
      else (let a = fst (lex_rule start xs); r = drop (snd (lex_rule start xs)) xs
            in if a = 1 then overflows 3 r 0
               else if a = 2 then MAX_STRING_LEN \<le> b \<or> overflows 1 r b
               else if a \<le> 9 then MAX_STRING_LEN \<le> b \<or> overflows start r (Suc b)
               else overflows start r b))"
  by pat_completeness auto
termination
proof (relation "measure (\<lambda>(start, xs, b). length xs)", simp)
  have "length (drop (snd (lex_rule start xs)) xs) < length xs" if "xs \<noteq> []" for start xs
    using lex_rule_bounds [OF that, of start] that
    by (metis diff_less length_drop length_greater_0_conv less_le_trans prod.collapse zero_less_one)
  then show "\<And>start xs b x xa. xs \<noteq> [] \<Longrightarrow> x = fst (lex_rule start xs) \<Longrightarrow>
      xa = drop (snd (lex_rule start xs)) xs \<Longrightarrow> x = 1 \<Longrightarrow>
      ((3, xa, 0), start, xs, b) \<in> measure (\<lambda>(start, xs, b). length xs)"
    and "\<And>start xs b x xa. xs \<noteq> [] \<Longrightarrow> x = fst (lex_rule start xs) \<Longrightarrow>
      xa = drop (snd (lex_rule start xs)) xs \<Longrightarrow> x \<noteq> 1 \<Longrightarrow> x = 2 \<Longrightarrow>
      ((1, xa, b), start, xs, b) \<in> measure (\<lambda>(start, xs, b). length xs)"
    and "\<And>start xs b x xa. xs \<noteq> [] \<Longrightarrow> x = fst (lex_rule start xs) \<Longrightarrow>
      xa = drop (snd (lex_rule start xs)) xs \<Longrightarrow> x \<noteq> 1 \<Longrightarrow> x \<noteq> 2 \<Longrightarrow> x \<le> 9 \<Longrightarrow>
      ((start, xa, Suc b), start, xs, b) \<in> measure (\<lambda>(start, xs, b). length xs)"
    and "\<And>start xs b x xa. xs \<noteq> [] \<Longrightarrow> x = fst (lex_rule start xs) \<Longrightarrow>
      xa = drop (snd (lex_rule start xs)) xs \<Longrightarrow> x \<noteq> 1 \<Longrightarrow> x \<noteq> 2 \<Longrightarrow> \<not> x \<le> 9 \<Longrightarrow>
      ((start, xa, b), start, xs, b) \<in> measure (\<lambda>(start, xs, b). length xs)"
    by auto
qed

declare overflows.simps [simp del]

lemma overflows_step:
  "xs \<noteq> [] \<Longrightarrow> lex_rule start xs = (a, k) \<Longrightarrow> overflows start xs b =
     (if a = 1 then overflows 3 (drop k xs) 0
      else if a = 2 then MAX_STRING_LEN \<le> b \<or> overflows 1 (drop k xs) b
      else if a \<le> 9 then MAX_STRING_LEN \<le> b \<or> overflows start (drop k xs) (Suc b)
      else overflows start (drop k xs) b)"
  by (subst overflows.simps) simp

lemma overflows_Nil [simp]: "\<not> overflows start [] b"
  by (simp add: overflows.simps)

definition fits :: "lexer \<Rightarrow> bool" where
  "fits l \<longleftrightarrow> \<not> overflows (yy_start l) (rest l) (length (string_buffer l))"

lemma overflows_short:
  "b + length xs < MAX_STRING_LEN \<Longrightarrow> \<not> overflows start xs b"
proof (induction start xs b rule: overflows.induct)
  case (1 start xs b)
  show ?case
  proof (cases "xs = []")
    case False
    have "1 \<le> snd (lex_rule start xs)" "snd (lex_rule start xs) \<le> length xs"
      using lex_rule_bounds [OF False, of start] by (metis prod.collapse)+
    with 1 False show ?thesis
      by (subst overflows.simps) (auto simp: Let_def)
  qed (simp add: overflows.simps)
qed

lemma scan_string_fits:
  assumes "NUL \<notin> set scr" and "length scr < MAX_STRING_LEN"
  shows "\<exists>l. yy_scan_string scr lexer_init = Some l \<and> lexer_on scr l \<and> fits l"
proof -
  have "yy_start lexer_init = 1" "string_buffer lexer_init = []" by (simp_all add: lexer_init_def)
  then show ?thesis
    using yy_scan_string_on [OF assms(1), of lexer_init] overflows_short [of 0 scr] assms(2)
    by (auto simp: fits_def)
qed

text \<open>One action, by what it does to the fields the next scan reads.\<close>

lemma yy_action_frame:
  assumes "yy_action a txt l = Some (r, l')"
  shows "yy_ch_buf l' = yy_ch_buf l \<and> yy_n_chars l' = yy_n_chars l \<and> yy_c_buf_p l' = yy_c_buf_p l \<and>
    yy_start l' = (if a = 1 then 3 else if a = 2 then 1 else yy_start l) \<and>
    length (string_buffer l') = (if a = 1 then 0 else if 3 \<le> a \<and> a \<le> 9
      then Suc (length (string_buffer l)) else length (string_buffer l)) \<and>
    (2 \<le> a \<and> a \<le> 9 \<longrightarrow> length (string_buffer l) < MAX_STRING_LEN)"
  using assms
  by (auto simp: yy_action_def Let_def move_def put_string_char_def ADVANCE_def
      option_bind_Some_iff split: if_splits)

lemma yy_action_total:
  assumes "1 \<le> a" and "a \<le> 22" and "txt \<noteq> []"
    and "2 \<le> a \<Longrightarrow> a \<le> 9 \<Longrightarrow> length (string_buffer l) < MAX_STRING_LEN"
  shows "\<exists>r l'. yy_action a txt l = Some (r, l')"
proof -
  have "rd txt 0 = Some (txt ! 0)" using assms(3) by simp
  then show ?thesis
    using assms(1,2,4)
    by (auto simp: yy_action_def Let_def move_def put_string_char_def) presburger?
qed

text \<open>The token codes the parser's \<open>YYTRANSLATE\<close> knows.\<close>

definition token_codes :: "int list" where
  "token_codes = [0, 33, 40, 41, 43, 44, 59, T_AND, T_OR, T_EQ, T_NE, T_IF, T_THEN, T_ELSE, T_ENDIF,
     T_STRING, T_BAD]"

lemma lex_rule_19:
  "lex_rule start xs = (19, k) \<Longrightarrow> xs \<noteq> [] \<Longrightarrow>
   hd xs \<in> set ''!+(),;'' \<and> k = 1"
proof -
  obtain c cs where xs: "xs \<noteq> [] \<Longrightarrow> xs = c # cs" by (cases xs) auto
  have "keyword_rule w \<noteq> 19" for w using keyword_rule_range [of w] by auto
  moreover have "lex_str (c # cs) \<noteq> (19, k)" using lex_str_bounds [of c cs 19 k] by auto
  ultimately show "lex_rule start xs = (19, k) \<Longrightarrow> xs \<noteq> [] \<Longrightarrow> ?thesis"
    using xs by (auto simp: lex_rule_def Let_def simp del: lex_str.simps split: if_splits)
qed

lemma yy_action_token:
  assumes "yy_action a txt l = Some (Some tok, l')"
    and "a = 19 \<Longrightarrow> txt \<noteq> [] \<and> hd txt \<in> set ''!+(),;''"
  shows "tok \<in> set token_codes \<and> tok \<noteq> 0"
  using assms
  by (cases "txt")
     (auto simp: yy_action_def Let_def token_codes_def char_code_def option_bind_Some_iff split: if_splits)

lemma frame_rest:
  assumes "lexer_on scr l" and "k \<le> length (rest l)"
    and "yy_action a txt ((set_accepting la l)\<lparr>yy_c_buf_p := yy_c_buf_p l + k\<rparr>) = Some (r, l')"
  shows "lexer_on scr l'" and "rest l' = drop k (rest l)"
  using assms(1,2) yy_action_frame [OF assms(3)]
  by (auto simp: lexer_on_def set_accepting_def rest_def add.commute)

lemma frame_fits:
  assumes "lexer_on scr l" and "rest l \<noteq> []" and "lex_rule (yy_start l) (rest l) = (a, k)"
    and "k \<le> length (rest l)" and "1 \<le> a"
    and "yy_action a txt ((set_accepting la l)\<lparr>yy_c_buf_p := yy_c_buf_p l + k\<rparr>) = Some (r, l')"
  shows "fits l' \<longleftrightarrow> fits l"
proof -
  note f = yy_action_frame [OF assms(6)]
  show ?thesis
    unfolding fits_def overflows_step [OF assms(2,3)] frame_rest [OF assms(1,4,6)]
    using assms(5) f by (auto simp: set_accepting_def)
qed

lemma fits_None:
  assumes "lexer_on scr l" and "rest l \<noteq> []" and "lex_rule (yy_start l) (rest l) = (a, k)"
    and "1 \<le> a" and "a \<le> 22" and "txt \<noteq> []"
    and "yy_action a txt ((set_accepting la l)\<lparr>yy_c_buf_p := yy_c_buf_p l + k\<rparr>) = None"
  shows "\<not> fits l"
proof -
  have "2 \<le> a \<and> a \<le> 9 \<and> MAX_STRING_LEN \<le> length (string_buffer l)"
  proof (rule ccontr)
    assume "\<not> ?thesis"
    then have "\<exists>r l'. yy_action a txt ((set_accepting la l)\<lparr>yy_c_buf_p := yy_c_buf_p l + k\<rparr>)
        = Some (r, l')"
      using assms(4-6) by (intro yy_action_total) (auto simp: set_accepting_def)
    with assms(7) show False by simp
  qed
  then show ?thesis
    by (auto simp: fits_def overflows_step [OF assms(2,3)])
qed

lemma yylex_cases:
  assumes "lexer_on scr l"
  shows "case yylex l of None \<Rightarrow> \<not> fits l
    | Some (tok, l') \<Rightarrow> lexer_on scr l' \<and> (fits l' \<longleftrightarrow> fits l) \<and> tok \<in> set token_codes \<and>
        (if tok = 0 then rest l' = [] else length (rest l') < length (rest l))"
  using assms
proof (induction "length (rest l)" arbitrary: l rule: less_induct)
  case less
  show ?case
  proof (rule yy_next_token_eq [OF less.prems], goal_cases)
    case (1 la)
    then have "yylex l = Some (0, set_accepting la l)"
      by (subst yylex.simps) simp
    then show ?case
      using less.prems 1(1)
      by (auto simp: lexer_on_def set_accepting_def rest_def fits_def token_codes_def)
  next
    case (2 la a k)
    let ?l1 = "(set_accepting la l)\<lparr>yy_c_buf_p := yy_c_buf_p l + k\<rparr>" and ?txt = "take k (rest l)"
    have ne: "?txt \<noteq> []" using 2 by auto
    show ?case
    proof (cases "yy_action a ?txt ?l1")
      case None
      then have "yylex l = None" by (subst yylex.simps) (simp add: 2)
      then show ?thesis using fits_None [OF less.prems 2(1,2,5,6) ne None] by simp
    next
      case (Some p)
      then obtain r l' where rl: "yy_action a ?txt ?l1 = Some (r, l')" by (cases p) auto
      note on = frame_rest [OF less.prems 2(4) rl] and fits = frame_fits [OF less.prems 2(1,2,4,5) rl]
      have lt: "length (rest l') < length (rest l)" using on(2) 2 by simp
      show ?thesis
      proof (cases r)
        case None
        then have "yylex l = yylex l'" by (subst yylex.simps) (simp add: 2(7) rl)
        with less.hyps [OF lt on(1)] lt fits show ?thesis
          by (auto split: option.splits if_splits)
      next
        case (Some tok)
        then have "yylex l = Some (tok, l')" by (subst yylex.simps) (simp add: 2(7) rl)
        moreover have "tok \<in> set token_codes \<and> tok \<noteq> 0"
          using rl Some 2 lex_rule_19 [of "yy_start l" "rest l" k] ne
          by (intro yy_action_token [of a ?txt ?l1]) auto
        ultimately show ?thesis using on fits lt by simp
      qed
    qed
  qed
qed

section \<open>The source of tokens\<close>

text \<open>
  What the parser relies on: a call returns a token the parser's translation table knows, and the
  input left gets shorter with every token but the end of the input.
\<close>

locale token_source =
  fixes lex :: "'l \<Rightarrow> (int \<times> 'l) option"
    and ready :: "'l \<Rightarrow> bool"
    and left :: "'l \<Rightarrow> nat"
    and codes :: "int list"
  assumes lex_ready: "ready l \<Longrightarrow> \<exists>tok l'. lex l = Some (tok, l') \<and> ready l' \<and> tok \<in> set codes \<and>
      (if tok = 0 then left l' = 0 else left l' < left l)"
begin

fun lex_n :: "nat \<Rightarrow> 'l \<Rightarrow> (int list \<times> 'l) option" where
  "lex_n 0 l = Some ([], l)"
| "lex_n (Suc n) l =
     do { r \<leftarrow> lex l;
          if fst r = 0 then Some ([0], snd r)
          else do { q \<leftarrow> lex_n n (snd r); Some (fst r # fst q, snd q) } }"

lemma lex_n_ends:
  "ready l \<Longrightarrow> left l < n \<Longrightarrow>
   \<exists>ts l'. lex_n n l = Some (ts @ [0], l') \<and> 0 \<notin> set ts \<and> length ts \<le> left l \<and> ready l'"
proof (induction n arbitrary: l)
  case (Suc n)
  obtain tok l1 where l1: "lex l = Some (tok, l1)" "ready l1"
    "if tok = 0 then left l1 = 0 else left l1 < left l"
    using lex_ready [OF Suc.prems(1)] by blast
  show ?case
  proof (cases "tok = 0")
    case True
    then show ?thesis using l1 by (auto intro: exI [of _ "[]"])
  next
    case False
    with l1 Suc.prems(2) have "left l1 < n" by auto
    from Suc.IH [OF l1(2) this] obtain ts l' where
      "lex_n n l1 = Some (ts @ [0], l')" "0 \<notin> set ts" "length ts \<le> left l1" "ready l'" by blast
    with l1 False show ?thesis by (auto intro!: exI [of _ "tok # ts"])
  qed
qed simp

end

definition lexer_ready :: "lexer \<Rightarrow> bool" where
  "lexer_ready l \<longleftrightarrow> (\<exists>scr. lexer_on scr l) \<and> fits l"

definition left_len :: "lexer \<Rightarrow> nat" where
  "left_len l = length (rest l)"

interpretation src: token_source yylex lexer_ready left_len token_codes
proof
  fix l assume "lexer_ready l"
  then obtain scr where on: "lexer_on scr l" "fits l" by (auto simp: lexer_ready_def)
  then obtain tok l' where "yylex l = Some (tok, l')"
    using yylex_cases [OF on(1)] by (cases "yylex l") auto
  moreover from this have "lexer_on scr l'" "fits l'" "tok \<in> set token_codes"
    "if tok = 0 then rest l' = [] else length (rest l') < length (rest l)"
    using yylex_cases [OF on(1)] on(2) by auto
  ultimately show "\<exists>tok l'. yylex l = Some (tok, l') \<and> lexer_ready l' \<and>
      tok \<in> set token_codes \<and> (if tok = 0 then left_len l' = 0 else left_len l' < left_len l)"
    by (auto simp: lexer_ready_def left_len_def)
qed

section \<open>Scanning a whole script\<close>

text \<open>All tokens up to the end of the input, as the parser consumes them.\<close>

partial_function (option) lex_script :: "lexer \<Rightarrow> (int list \<times> lexer) option" where
  "lex_script l =
     do { r \<leftarrow> yylex l;
          if fst r = 0 then Some ([0], snd r)
          else do { q \<leftarrow> lex_script (snd r); Some (fst r # fst q, snd q) } }"

text \<open>
  C28. Scanning a script token by token has a defined result exactly when no string literal of the
  script decodes to more characters than \<open>string_buffer\<close> holds: scanning always ends, and the only
  undefined behaviour it can have is the write behind \<open>string_buffer\<close> that lexer.l marks
  \<open>TODO: enforce\<close>.
\<close>

theorem lex_script_defined_iff:
  assumes "lexer_on scr l"
  shows "(\<exists>r. lex_script l = Some r) \<longleftrightarrow> fits l"
  using assms
proof (induction "length (rest l)" arbitrary: l rule: less_induct)
  case less
  note c = yylex_cases [OF less.prems]
  show ?case
  proof (cases "yylex l")
    case None
    then have "lex_script l = None" by (subst lex_script.simps) simp
    with None c show ?thesis by simp
  next
    case (Some p)
    then obtain tok l' where p: "yylex l = Some (tok, l')" by (cases p) auto
    note q = c [unfolded p, simplified]
    show ?thesis
    proof (cases "tok = 0")
      case True
      then have "lex_script l = Some ([0], l')" by (subst lex_script.simps) (simp add: p)
      moreover have "fits l'" using q True by (simp add: fits_def)
      ultimately show ?thesis using q by simp
    next
      case False
      then have "lex_script l = Option.bind (lex_script l') (\<lambda>q. Some (tok # fst q, snd q))"
        by (subst lex_script.simps) (simp add: p)
      moreover have "(\<exists>r. lex_script l' = Some r) \<longleftrightarrow> fits l'"
        using q False by (intro less.hyps) auto
      ultimately show ?thesis using q False by (auto simp: option_bind_Some_iff)
    qed
  qed
qed

section \<open>Literals come back\<close>

fun quote_char :: "char \<Rightarrow> string" where
  "quote_char c =
     (if c = CHR 0x22 then [CHR 0x5C, CHR 0x22] else if c = CHR 0x5C then [CHR 0x5C, CHR 0x5C]
      else if c = CHR 0x0A then [CHR 0x5C, CHR ''n''] else if c = CHR 0x09 then [CHR 0x5C, CHR ''t'']
      else [c])"

definition quote :: "string \<Rightarrow> string" where
  "quote s = CHR 0x22 # concat (map quote_char s) @ [CHR 0x22]"

declare quote_char.simps [simp del]

text \<open>What one scan leaves unchanged, and what it advances by.\<close>

lemma yy_next_token_act:
  assumes "lexer_on scr l" and "rest l = t @ r" and "t \<noteq> []"
    and "lex_rule (yy_start l) (t @ r) = (a, length t)"
  shows "\<exists>la. yy_next_token l =
     yy_action a t ((set_accepting la l)\<lparr>yy_c_buf_p := yy_c_buf_p l + length t\<rparr>)"
  by (rule yy_next_token_eq [OF assms(1)]) (use assms(2-4) in auto)

lemma lex_str_quote_char:
  "ys \<noteq> [] \<Longrightarrow> hd ys \<noteq> CHR 0x0A \<Longrightarrow>
   lex_str (quote_char c @ ys) =
     (if c = CHR 0x22 then 5 else if c = CHR 0x5C then 6 else if c = CHR 0x0A then 3
      else if c = CHR 0x09 then 4 else 9, length (quote_char c))"
  by (cases ys) (auto simp: quote_char.simps)

lemma quote_tail_hd: "hd (concat (map quote_char s) @ CHR 0x22 # r) \<noteq> CHR 0x0A"
  by (cases s) (auto simp: quote_char.simps)

lemma quote_char_step:
  assumes on: "lexer_on scr l" and "rest l = quote_char c @ ys" and "ys \<noteq> []" "hd ys \<noteq> CHR 0x0A"
    and "yy_start l = 3" and "length (string_buffer l) < MAX_STRING_LEN"
  obtains l' where "yy_next_token l = Some (None, l')" "lexer_on scr l'" "rest l' = ys"
    "yy_start l' = 3" "string_buffer l' = string_buffer l @ [c]"
    "gPos l' = gPos l + int (length (quote_char c))" "yylloc l' = yylloc l"
proof -
  have ne: "quote_char c \<noteq> []" by (simp add: quote_char.simps)
  obtain a where a: "lex_rule (yy_start l) (quote_char c @ ys) = (a, length (quote_char c))"
    "a = (if c = CHR 0x22 then 5 else if c = CHR 0x5C then 6 else if c = CHR 0x0A then 3
      else if c = CHR 0x09 then 4 else 9)"
    using lex_str_quote_char [OF assms(3,4), of c] assms(5)
    by (simp add: lex_rule_def del: lex_str.simps)
  obtain la where la: "yy_next_token l = yy_action a (quote_char c)
      ((set_accepting la l)\<lparr>yy_c_buf_p := yy_c_buf_p l + length (quote_char c)\<rparr>)"
    using yy_next_token_act [OF on assms(2) ne a(1)] by blast
  let ?l1 = "(set_accepting la l)\<lparr>yy_c_buf_p := yy_c_buf_p l + length (quote_char c)\<rparr>"
  let ?l' = "(move (length (quote_char c)) ?l1)\<lparr>string_buffer := string_buffer l @ [c]\<rparr>"
  have act: "yy_action a (quote_char c) ?l1 = Some (None, ?l')"
    using assms(6) a(2)
    by (auto simp: yy_action_def Let_def put_string_char_def move_def set_accepting_def quote_char.simps)
  have "length (quote_char c) \<le> length (rest l)" using assms(2) by simp
  note fr = frame_rest [OF on this act]
  show thesis
    by (rule that [of ?l'])
       (use la act fr assms(2,5) in \<open>auto simp: move_def set_accepting_def\<close>)
qed

lemma yylex_literal_tail:
  "\<lbrakk>lexer_on scr l; rest l = concat (map quote_char s) @ CHR 0x22 # r; yy_start l = 3;
    length (string_buffer l) + length s < MAX_STRING_LEN\<rbrakk> \<Longrightarrow>
   \<exists>l'. yylex l = Some (T_STRING, l') \<and> lexer_on scr l' \<and> rest l' = r \<and> yy_start l' = 1 \<and>
     yylval l' = cstr (string_buffer l @ s) \<and>
     gPos l' = gPos l + int (length (concat (map quote_char s))) + 1 \<and>
     loc_start (yylloc l') = loc_start (yylloc l) \<and> loc_end (yylloc l') = gPos l'"
proof (induction s arbitrary: l)
  case Nil
  have "lex_rule (yy_start l) ([CHR 0x22] @ r) = (2, length [CHR 0x22])"
    using Nil by (simp add: lex_rule_def)
  then obtain la where la: "yy_next_token l =
      yy_action 2 [CHR 0x22] ((set_accepting la l)\<lparr>yy_c_buf_p := yy_c_buf_p l + length [CHR 0x22]\<rparr>)"
    using yy_next_token_act [OF Nil(1), of "[CHR 0x22]" r 2] Nil(2) by auto
  let ?l1 = "(set_accepting la l)\<lparr>yy_c_buf_p := yy_c_buf_p l + 1\<rparr>"
  let ?l2 = "(move 1 ?l1)\<lparr>yy_start := 1\<rparr>"
  let ?l3 = "?l2\<lparr>yylval := cstr (string_buffer l), yylloc := (yylloc l)\<lparr>loc_end := gPos l + 1\<rparr>\<rparr>"
  have act: "yy_action 2 [CHR 0x22] ?l1 = Some (Some T_STRING, ?l3)"
    using Nil(4) by (simp add: yy_action_def Let_def move_def set_accepting_def)
  have "1 \<le> length (rest l)" using Nil(2) by simp
  note fr = frame_rest [OF Nil(1) this act]
  have "yylex l = Some (T_STRING, ?l3)"
    using la act by (subst yylex.simps) simp
  then show ?case
    using fr Nil(2) by (auto simp: move_def set_accepting_def)
next
  case (Cons c s)
  let ?ys = "concat (map quote_char s) @ CHR 0x22 # r"
  have lt: "length (string_buffer l) < MAX_STRING_LEN" using Cons.prems(4) by simp
  have eq: "rest l = quote_char c @ ?ys" using Cons.prems(2) by simp
  obtain l1 where l1: "yy_next_token l = Some (None, l1)" "lexer_on scr l1" "rest l1 = ?ys"
    "yy_start l1 = 3" "string_buffer l1 = string_buffer l @ [c]"
    "gPos l1 = gPos l + int (length (quote_char c))" "yylloc l1 = yylloc l"
    by (rule quote_char_step [OF Cons.prems(1) eq _ quote_tail_hd Cons.prems(3) lt]) simp_all
  have "yylex l = yylex l1" by (subst yylex.simps) (simp add: l1(1))
  with Cons.IH [OF l1(2,3,4)] l1 Cons.prems(4) show ?case by (simp add: add.assoc)
qed

text \<open>
  C29. A string written as a literal with the escapes of lexer.l scans back to itself: if it is at
  most 1023 characters long, one call of \<open>yylex\<close> consumes exactly the literal, returns \<open>STRING\<close> with
  the string as its value, and sets the token's location to the extent of the literal.
\<close>

theorem yylex_quote:
  assumes "lexer_on scr l" and "rest l = quote s @ r" and "yy_start l = 1"
    and "length s < MAX_STRING_LEN"
  shows "\<exists>l'. yylex l = Some (T_STRING, l') \<and> lexer_on scr l' \<and> rest l' = r \<and> yy_start l' = 1 \<and>
     yylval l' = s \<and>
     yylloc l' = \<lparr>loc_start = gPos l, loc_end = gPos l + int (length (quote s))\<rparr> \<and>
     gPos l' = gPos l + int (length (quote s))"
proof -
  have "lex_rule (yy_start l) ([CHR 0x22] @ concat (map quote_char s) @ CHR 0x22 # r) = (1, length [CHR 0x22])"
    using assms(3) by (simp add: lex_rule_def)
  then obtain la where la: "yy_next_token l =
      yy_action 1 [CHR 0x22] ((set_accepting la l)\<lparr>yy_c_buf_p := yy_c_buf_p l + length [CHR 0x22]\<rparr>)"
    using yy_next_token_act [OF assms(1), of "[CHR 0x22]" _ 1] assms(2) by (auto simp: quote_def)
  let ?l1 = "(set_accepting la l)\<lparr>yy_c_buf_p := yy_c_buf_p l + 1\<rparr>"
  let ?l2 = "move 1 (?l1\<lparr>yy_start := 3, string_buffer := [],
                              yylloc := (yylloc ?l1)\<lparr>loc_start := gPos ?l1\<rparr>\<rparr>)"
  have act: "yy_action 1 [CHR 0x22] ?l1 = Some (None, ?l2)"
    by (simp add: yy_action_def Let_def)
  have "1 \<le> length (rest l)" using assms(2) by (simp add: quote_def)
  note fr = frame_rest [OF assms(1) this act]
  have nz: "NUL \<notin> set s"
  proof -
    have "set s \<subseteq> set (quote s) \<union> {CHR 0x0A, CHR 0x09}"
      by (auto simp: quote_def quote_char.simps split: if_splits)
    moreover have "set (quote s) \<subseteq> set scr"
      using assms(1,2) rest_on [OF assms(1)] by (metis set_append Un_subset_iff set_drop_subset)
    moreover have "NUL \<notin> set scr" using assms(1) by (simp add: lexer_on_def)
    ultimately show ?thesis by auto
  qed
  have r2: "rest ?l2 = concat (map quote_char s) @ CHR 0x22 # r"
    using fr(2) assms(2) by (simp add: quote_def)
  have "yylex l = yylex ?l2" using la act by (subst yylex.simps) simp
  then show ?thesis
    using yylex_literal_tail [OF fr(1) r2] assms(4) nz
    by (auto simp: move_def set_accepting_def cstr_id quote_def)
qed

theorem yylex_quote_witness:
  "\<exists>l l'. yy_scan_string (quote [CHR ''a'', CHR 0x22, CHR 0x0A]) lexer_init = Some l \<and>
     yylex l = Some (T_STRING, l') \<and> yylval l' = [CHR ''a'', CHR 0x22, CHR 0x0A] \<and>
     yylloc l' = \<lparr>loc_start = 0, loc_end = 7\<rparr>"
proof -
  let ?s = "[CHR ''a'', CHR 0x22, CHR 0x0A]"
  have "NUL \<notin> set (quote ?s)" by (simp add: quote_def quote_char.simps)
  from yy_scan_string_on [OF this, of lexer_init] obtain l where
    l: "yy_scan_string (quote ?s) lexer_init = Some l" "lexer_on (quote ?s) l" "rest l = quote ?s @ []"
       "yy_start l = 1" "gPos l = 0"
    by (auto simp: lexer_init_def)
  have "length (quote ?s) = 7" by (simp add: quote_def quote_char.simps)
  with yylex_quote [OF l(2,3,4)] l(1,5) show ?thesis by (auto simp: MAX_STRING_LEN_def)
qed

theorem lex_script_defined_iff_witness:
  "\<exists>l r. yy_scan_string ''if a then b endif'' lexer_init = Some l \<and> lex_script l = Some r"
proof -
  let ?s = "''if a then b endif''"
  obtain l where l: "yy_scan_string ?s lexer_init = Some l" "lexer_on ?s l" "rest l = ?s"
       "string_buffer l = []"
    using yy_scan_string_on [of ?s lexer_init] by (auto simp: lexer_init_def)
  have "fits l"
    unfolding fits_def l(3,4) by (rule overflows_short) (simp add: MAX_STRING_LEN_def)
  with lex_script_defined_iff [OF l(2)] l(1) show ?thesis by blast
qed

text \<open>A longer literal writes behind the buffer.\<close>

lemma yylex_literal_tail_overflow:
  "\<lbrakk>lexer_on scr l; rest l = concat (map quote_char s) @ CHR 0x22 # r; yy_start l = 3;
    length (string_buffer l) \<le> MAX_STRING_LEN; MAX_STRING_LEN \<le> length (string_buffer l) + length s\<rbrakk> \<Longrightarrow>
   yylex l = None"
proof (induction s arbitrary: l)
  case Nil
  have "lex_rule (yy_start l) ([CHR 0x22] @ r) = (2, length [CHR 0x22])"
    using Nil by (simp add: lex_rule_def)
  then obtain la where "yy_next_token l =
      yy_action 2 [CHR 0x22] ((set_accepting la l)\<lparr>yy_c_buf_p := yy_c_buf_p l + length [CHR 0x22]\<rparr>)"
    using yy_next_token_act [OF Nil(1), of "[CHR 0x22]" r 2] Nil(2) by auto
  then have "yy_next_token l = None"
    using Nil(4,5) by (simp add: yy_action_def Let_def move_def set_accepting_def)
  then show ?case by (subst yylex.simps) simp
next
  case (Cons c s)
  let ?ys = "concat (map quote_char s) @ CHR 0x22 # r"
  have eq: "rest l = quote_char c @ ?ys" using Cons.prems(2) by simp
  show ?case
  proof (cases "length (string_buffer l) < MAX_STRING_LEN")
    case True
    obtain l1 where l1: "yy_next_token l = Some (None, l1)" "lexer_on scr l1" "rest l1 = ?ys"
      "yy_start l1 = 3" "string_buffer l1 = string_buffer l @ [c]"
      by (rule quote_char_step [OF Cons.prems(1) eq _ quote_tail_hd Cons.prems(3) True]) simp_all
    have "yylex l = yylex l1" by (subst yylex.simps) (simp add: l1(1))
    with Cons.IH [OF l1(2,3,4)] l1(5) Cons.prems True show ?thesis by simp
  next
    case False
    have ne: "quote_char c \<noteq> []" by (simp add: quote_char.simps)
    obtain a where a: "lex_rule (yy_start l) (quote_char c @ ?ys) = (a, length (quote_char c))"
      "3 \<le> a" "a \<le> 9"
      using lex_str_quote_char [OF _ quote_tail_hd, of s r c] Cons.prems(3)
      by (auto simp: lex_rule_def simp del: lex_str.simps split: if_splits)
    obtain la where la: "yy_next_token l = yy_action a (quote_char c)
        ((set_accepting la l)\<lparr>yy_c_buf_p := yy_c_buf_p l + length (quote_char c)\<rparr>)"
      using yy_next_token_act [OF Cons.prems(1) eq ne a(1)] by blast
    have "yy_next_token l = None"
    proof (rule ccontr)
      assume "yy_next_token l \<noteq> None"
      then obtain r l' where "yy_next_token l = Some (r, l')" by auto
      from yy_action_frame [OF this [unfolded la]] a(2,3) False show False
        by (simp add: set_accepting_def)
    qed
    then show ?thesis by (subst yylex.simps) simp
  qed
qed

end
