(* ===== verification/EdifyParserProofs.thy ===== *)
theory EdifyParserProofs
  imports EdifyParser EdifyLexProofs
begin

text \<open>
  The parser always ends and never reads outside its tables or stacks, nor a member of \<open>YYSTYPE\<close>
  that was not written. The stack invariant \<open>okstk\<close> is the reading of the LR automaton as a graph
  (\<open>preds\<close> lists the states a state is entered from): the states on the stack are a path from the
  initial state, and the value beside a state has the type of the state's accessing symbol.
\<close>

section \<open>The automaton as a graph\<close>

abbreviation start_states :: "nat list" where
  "start_states \<equiv> [0, 2, 4, 5, 8, 10, 14, 15, 16, 17, 18, 19, 21, 32, 34]"

abbreviation expr_states :: "nat list" where
  "expr_states \<equiv> [7, 9, 11, 12, 20, 22, 25, 26, 27, 28, 29, 30, 31, 36, 37]"

definition preds :: "nat \<Rightarrow> nat list" where
  "preds s =
     (if s = 0 \<or> s = 13 then []
      else if s \<le> 5 then start_states
      else if s = 6 \<or> s = 7 then [0]
      else if s = 8 then [1] else if s = 9 then [2] else if s = 10 then [3]
      else if s = 11 then [4] else if s = 12 then [5]
      else if s \<le> 19 then expr_states
      else if s = 20 then [8] else if s = 21 then [9] else if s = 22 \<or> s = 23 then [10]
      else if s = 24 then [12]
      else if s \<le> 30 then [s - 11]
      else if s = 31 then [21] else if s = 32 \<or> s = 33 then [23] else if s = 34 \<or> s = 35 then [31]
      else if s = 36 then [32] else if s = 37 then [34] else if s = 38 then [37] else [])"

text \<open>The state in which a rule is complete.\<close>

definition completes :: "nat \<Rightarrow> nat" where
  "completes n = [13, 13, 7, 3, 24, 18, 29, 20, 30, 27, 28, 25, 26, 11, 35, 38, 33, 10, 22, 36] ! n"

definition completing :: "nat \<Rightarrow> nat \<Rightarrow> bool" where
  "completing n s \<longleftrightarrow> 2 \<le> n \<and> n \<le> 19 \<and> completes n = s"

text \<open>\<open>yystos\<close>: the symbol a state is entered by.\<close>

definition stos :: "nat \<Rightarrow> nat" where
  "stos s = [0, 1, 9, 13, 18, 19, 22, 23, 15, 23, 19, 23, 23, 0, 3, 4, 7, 8, 15, 17, 23, 10, 23, 24, 20,
     23, 23, 23, 23, 23, 23, 23, 16, 20, 11, 12, 23, 23, 12] ! s"

text \<open>The member of \<open>YYSTYPE\<close> a symbol's value has: \<open>STRING\<close>, \<open>expr\<close> and \<open>arglist\<close> have one.\<close>

definition vsym :: "nat \<Rightarrow> yyvalue \<Rightarrow> bool" where
  "vsym X v \<longleftrightarrow> (X = 13 \<longrightarrow> (\<exists>x. v = VStr x)) \<and> (X = 23 \<longrightarrow> (\<exists>e. v = VExpr e)) \<and>
              (X = 24 \<longrightarrow> (\<exists>as. v = VArgs as))"

text \<open>
  The stack invariant over a relation \<open>V\<close> between a symbol, its value and a ghost the proofs keep
  beside the value.
\<close>

fun okstk :: "(nat \<Rightarrow> yyvalue \<Rightarrow> 'g \<Rightarrow> bool) \<Rightarrow> nat list \<Rightarrow> yyvalue list \<Rightarrow> yyltype list \<Rightarrow> 'g list \<Rightarrow> bool" where
  "okstk V [s] [] [] [] = (s = 0)"
| "okstk V (s # s' # ss) (v # vs) (l # ls) (g # gs) =
     (s' \<in> set (preds s) \<and> V (stos s) v g \<and> okstk V (s' # ss) vs ls gs)"
| "okstk V _ _ _ _ = False"

lemma okstk_E:
  assumes "okstk V (s # ss) vs ls gs" and "s \<noteq> 0"
  obtains s' ss' v vs' l ls' g gs' where "ss = s' # ss'" "vs = v # vs'" "ls = l # ls'" "gs = g # gs'"
    "s' \<in> set (preds s)" "V (stos s) v g" "okstk V (s' # ss') vs' ls' gs'"
  using assms by (cases "(V, s # ss, vs, ls, gs)" rule: okstk.cases) auto

lemma okstk_state: "okstk V (s # ss) vs ls gs \<Longrightarrow> s \<le> 38 \<and> s \<noteq> 13"
  by (cases "(V, s # ss, vs, ls, gs)" rule: okstk.cases) (auto simp: preds_def split: if_splits)

lemma okstk_ne: "okstk V ss vs ls gs \<Longrightarrow> ss \<noteq> []"
  by (cases "(V, ss, vs, ls, gs)" rule: okstk.cases) auto

lemma okstk_bottom: "okstk V [s] vs ls gs \<Longrightarrow> s = 0"
  by (cases "(V, [s], vs, ls, gs)" rule: okstk.cases) auto

lemma okstk_lengths:
  "okstk V ss vs ls gs \<Longrightarrow> length ss = Suc (length vs) \<and> length ls = length vs \<and> length gs = length vs"
  by (induction V ss vs ls gs rule: okstk.induct) auto

lemma okstk_push:
  "okstk V (s # ss) vs ls gs \<Longrightarrow> s \<in> set (preds t) \<Longrightarrow> V (stos t) v g \<Longrightarrow>
   okstk V (t # s # ss) (v # vs) (l # ls) (g # gs)"
  by simp

text \<open>
  \<open>comes T s Xs\<close>: every path into \<open>s\<close> has \<open>Xs\<close> as its last symbols, the last one first, and leads
  through a state of \<open>T\<close> before them.
\<close>

fun comes :: "nat list \<Rightarrow> nat \<Rightarrow> nat list \<Rightarrow> bool" where
  "comes T s [] = (s \<in> set T)"
| "comes T s (X # Xs) = (s \<noteq> 0 \<and> stos s = X \<and> list_all (\<lambda>s'. comes T s' Xs) (preds s))"

lemma okstk_back:
  "okstk V (s # ss) vs ls gs \<Longrightarrow> comes T s Xs \<Longrightarrow> k = length Xs \<Longrightarrow>
   k \<le> length vs \<and> map stos (take k (s # ss)) = Xs \<and>
   list_all2 (\<lambda>X (v, g). V X v g) Xs (zip (take k vs) (take k gs)) \<and>
   okstk V (drop k (s # ss)) (drop k vs) (drop k ls) (drop k gs) \<and>
   hd (drop k (s # ss)) \<in> set T"
proof (induction Xs arbitrary: s ss vs ls gs k)
  case (Cons X Xs)
  from Cons.prems(2) have "s \<noteq> 0" by simp
  from okstk_E [OF Cons.prems(1) this] obtain s' ss' v vs' l ls' g gs' where
    1: "ss = s' # ss'" "vs = v # vs'" "ls = l # ls'" "gs = g # gs'" "s' \<in> set (preds s)"
       "V (stos s) v g" "okstk V (s' # ss') vs' ls' gs'" by metis
  have "comes T s' Xs" using Cons.prems(2) 1(5) by (simp add: list_all_iff)
  from Cons.IH [OF 1(7) this refl] 1 Cons.prems(2,3) show ?case by simp
qed simp

abbreviation all_states :: "nat list" where
  "all_states \<equiv> [0, 1, 2, 3, 4, 5, 6, 7, 8, 9, 10, 11, 12, 14, 15, 16, 17, 18, 19, 20, 21, 22, 23, 24,
     25, 26, 27, 28, 29, 30, 31, 32, 33, 34, 35, 36, 37, 38]"

lemma list_all_mem: "list_all P xs \<Longrightarrow> x \<in> set xs \<Longrightarrow> P x"
  by (simp add: list_all_iff)

lemma all_states_check: "list_all P all_states \<Longrightarrow> s \<le> 38 \<Longrightarrow> s \<noteq> 13 \<Longrightarrow> P s"
proof -
  assume s: "s \<le> 38" "s \<noteq> 13"
  have eq: "[0..<13] @ [14..<39] = all_states" by code_simp
  have "s \<in> set ([0..<13] @ [14..<39])"
    unfolding set_append set_upt using s by auto
  then show "list_all P all_states \<Longrightarrow> P s" unfolding eq by (rule list_all_mem [rotated])
qed

abbreviation all_tokens :: "nat list" where
  "all_tokens \<equiv> [0, 1, 2, 3, 4, 5, 6, 7, 8, 9, 10, 11, 12, 13, 14, 15, 16, 17, 18, 19, 20]"

lemma all_tokens_check: "list_all P all_tokens \<Longrightarrow> t < 21 \<Longrightarrow> P t"
proof -
  assume t: "t < 21"
  have eq: "[0..<21] = all_tokens" by code_simp
  have "t \<in> set [0..<21]" unfolding set_upt using t by auto
  then show "list_all P all_tokens \<Longrightarrow> P t" unfolding eq by (rule list_all_mem [rotated])
qed

text \<open>What each table entry says, in terms of the graph.\<close>

definition good_action :: "nat \<Rightarrow> nat \<Rightarrow> paction \<Rightarrow> bool" where
  "good_action s t a \<longleftrightarrow>
     (case a of
        Shift n \<Rightarrow> t \<noteq> 0 \<and> s \<in> set (preds n) \<and> stos n = t
      | Reduce n \<Rightarrow> completing n s
      | Accept \<Rightarrow> s = 6 \<and> t = 0
      | Error_action \<Rightarrow> True)"

lemmas lr_eval = lr_consts lr_tables rdi_def Let_def One_nat_def [symmetric]

lemma yydecide_good_eval:
  "list_all (\<lambda>s. list_all (\<lambda>t. case yydecide s t of None \<Rightarrow> False | Some a \<Rightarrow> good_action s t a)
     all_tokens) all_states"
  by (simp add: yydecide_def yydefault_def good_action_def preds_def stos_def completing_def completes_def
      lr_eval del: nat_eval_del)

lemma yydecide_good:
  assumes "s \<le> 38" and "s \<noteq> 13" and "t < 21"
  obtains a where "yydecide s t = Some a" "good_action s t a"
  using all_tokens_check [OF all_states_check [OF yydecide_good_eval assms(1,2)] assms(3)]
  by (auto split: option.splits)

text \<open>States that decide without a look-ahead token reduce.\<close>

lemma yydefault_good:
  assumes "s \<le> 38" and "s \<noteq> 13"
  obtains n where "rd yypact s = Some n"
    "n = YYPACT_NINF \<Longrightarrow> \<exists>r. yydefault s = Some (Reduce r) \<and> completing r s"
proof -
  have "list_all (\<lambda>s. case rd yypact s of None \<Rightarrow> False | Some n \<Rightarrow>
      n = YYPACT_NINF \<longrightarrow> (case yydefault s of Some (Reduce r) \<Rightarrow> completing r s | _ \<Rightarrow> False)) all_states"
    by (simp add: yydefault_def completing_def completes_def lr_eval del: nat_eval_del)
  from all_states_check [OF this assms] that show thesis
    by (auto split: option.splits paction.splits)
qed

lemma shifts_error_start:
  "s \<le> 38 \<Longrightarrow> s \<noteq> 13 \<Longrightarrow> shifts_error s = Some (if s \<in> set start_states then Some 1 else None)"
proof -
  have "list_all (\<lambda>s. shifts_error s = Some (if s \<in> set start_states then Some 1 else None)) all_states"
    by (simp add: shifts_error_def lr_eval del: nat_eval_del)
  then show "s \<le> 38 \<Longrightarrow> s \<noteq> 13 \<Longrightarrow> ?thesis" by (rule all_states_check)
qed

section \<open>Reductions\<close>

text \<open>The right-hand sides of the rules, the last symbol first.\<close>

definition rhs_rev :: "nat \<Rightarrow> nat list" where
  "rhs_rev n = [[], [], [23], [13], [20, 23, 19], [15, 23], [23, 15, 23], [23, 15, 1], [23, 17, 23],
     [23, 7, 23], [23, 8, 23], [23, 3, 23], [23, 4, 23], [23, 18], [12, 23, 10, 23, 9],
     [12, 23, 11, 23, 10, 23, 9], [20, 24, 19, 13], [], [23], [23, 16, 24]] ! n"

abbreviation expr_rules :: "nat list" where
  "expr_rules \<equiv> [3, 4, 5, 6, 7, 8, 9, 10, 11, 12, 13, 14, 15, 16]"

definition origin :: "nat \<Rightarrow> nat list" where
  "origin n = (if n = 2 then [0] else if n \<le> 16 then start_states else [10])"

abbreviation all_rules :: "nat list" where
  "all_rules \<equiv> 2 # expr_rules @ [17, 18, 19]"

lemma rules_back_eval:
  "list_all (\<lambda>n. comes (origin n) (completes n) (rhs_rev n) \<and> rd yyr2 n = Some (length (rhs_rev n)) \<and>
      completes n \<noteq> 0) all_rules"
  by (simp add: origin_def completes_def rhs_rev_def preds_def stos_def lr_tables del: nat_eval_del)

lemma completing_rule: "completing n s \<Longrightarrow> n \<in> set all_rules"
proof -
  have eq: "[2..<20] = all_rules" by code_simp
  assume "completing n s"
  then have "n \<in> set [2..<20]" unfolding set_upt by (auto simp: completing_def)
  then show ?thesis unfolding eq .
qed

lemma reduce_shape:
  assumes "okstk V (s # ss) vs ls gs" and "completing n s"
  defines "k \<equiv> length (rhs_rev n)"
  shows "rd yyr2 n = Some k" "k \<le> length vs" "map stos (take k (s # ss)) = rhs_rev n"
    "list_all2 (\<lambda>X (v, g). V X v g) (rhs_rev n) (zip (take k vs) (take k gs))"
    "okstk V (drop k (s # ss)) (drop k vs) (drop k ls) (drop k gs)"
    "hd (drop k (s # ss)) \<in> set (origin n)"
proof -
  note r = list_all_mem [OF rules_back_eval completing_rule [OF assms(2)]]
  then have "comes (origin n) s (rhs_rev n)" using assms(2) by (simp add: completing_def)
  from okstk_back [OF assms(1) this refl] r
  show "rd yyr2 n = Some k" "k \<le> length vs" "map stos (take k (s # ss)) = rhs_rev n"
    "list_all2 (\<lambda>X (v, g). V X v g) (rhs_rev n) (zip (take k vs) (take k gs))"
    "okstk V (drop k (s # ss)) (drop k vs) (drop k ls) (drop k gs)"
    "hd (drop k (s # ss)) \<in> set (origin n)"
    by (simp_all add: k_def)
qed

lemma yygoto_rule:
  assumes "n \<in> set all_rules" and "s \<in> set (origin n)"
  obtains t where "yygoto n s = Some t" "s \<in> set (preds t)"
    "stos t = (if n = 2 then 22 else if n \<le> 16 then 23 else 24)" "t \<noteq> 0" "t \<noteq> 10"
proof -
  have "list_all (\<lambda>n. list_all (\<lambda>s. case yygoto n s of None \<Rightarrow> False
     | Some t \<Rightarrow> s \<in> set (preds t) \<and> stos t = (if n = 2 then 22 else if n \<le> 16 then 23 else 24) \<and>
         t \<noteq> 0 \<and> t \<noteq> 10) (origin n)) all_rules"
    by (simp add: yygoto_def preds_def origin_def stos_def lr_eval ensure_def del: nat_eval_del)
  from list_all_mem [OF list_all_mem [OF this assms(1)] assms(2)] that show thesis
    by (auto split: option.splits)
qed

fun tops :: "nat list \<Rightarrow> yyvalue list \<Rightarrow> bool" where
  "tops [] vs = True"
| "tops (X # Xs) [] = False"
| "tops (X # Xs) (v # vs) = (vsym X v \<and> tops Xs vs)"

lemma tops_Cons: "tops (X # Xs) vs \<longleftrightarrow> (\<exists>v vs'. vs = v # vs' \<and> vsym X v \<and> tops Xs vs')"
  by (cases vs) auto

lemma vsym_sorts:
  "vsym 13 v \<longleftrightarrow> (\<exists>x. v = VStr x)" "vsym 23 v \<longleftrightarrow> (\<exists>e. v = VExpr e)" "vsym 24 v \<longleftrightarrow> (\<exists>as. v = VArgs as)"
  by (auto simp: vsym_def)

definition lhs :: "nat \<Rightarrow> nat" where
  "lhs n = (if n = 2 then 22 else if n \<le> 16 then 23 else 24)"

definition registry_ok :: "fn_registry \<Rightarrow> bool" where
  "registry_ok reg \<longleftrightarrow> (\<forall>name. FindFunction reg name \<noteq> None)"

definition rule_result :: "nat \<Rightarrow> parser \<Rightarrow> action_result \<Rightarrow> bool" where
  "rule_result n p r \<longleftrightarrow>
     (case r of
        Value v p1 \<Rightarrow> vsym (lhs n) v \<and> (p1 = p \<or> (\<exists>e. p1 = p\<lparr>p_root := Some e\<rparr>))
      | YYERROR p1 \<Rightarrow> n = 16 \<and> (\<exists>m. p1 = yyerror m p))"

text \<open>The actions on stacks of the right shape.\<close>

lemma yyrule_values:
  "yyvs p = VExpr e # vs \<Longrightarrow> yyrule reg 2 loc p = Some (Value (VExpr e) (p\<lparr>p_root := Some e\<rparr>))"
  "yyvs p = VStr x # vs \<Longrightarrow> yyrule reg 3 loc p =
     Some (Value (VExpr (Expr Fn_Literal x [] (loc_start loc) (loc_end loc))) p)"
  "yyvs p = z # VExpr e # vs \<Longrightarrow> yyrule reg 4 loc p =
     Some (Value (VExpr (set_span e (loc_start loc) (loc_end loc))) p)"
  "yyvs p = z # VExpr e # vs \<Longrightarrow> yyls p = l0 # l # ls \<Longrightarrow> yyrule reg 5 loc p =
     Some (Value (VExpr (set_span e (loc_start l) (loc_end l))) p)"
  "yyvs p = VExpr e # vs \<Longrightarrow> yyrule reg 7 loc p =
     Some (Value (VExpr (set_span e (loc_start loc) (loc_end loc))) p)"
  "yyvs p = VExpr b # z # VExpr a # vs \<Longrightarrow> yyrule reg 6 loc p =
     Some (Value (VExpr (Build Fn_Sequence loc [a, b])) p)"
  "yyvs p = VExpr b # z # VExpr a # vs \<Longrightarrow> yyrule reg 8 loc p =
     Some (Value (VExpr (Build Fn_Concat loc [a, b])) p)"
  "yyvs p = VExpr b # z # VExpr a # vs \<Longrightarrow> yyrule reg 9 loc p =
     Some (Value (VExpr (Build Fn_Equality loc [a, b])) p)"
  "yyvs p = VExpr b # z # VExpr a # vs \<Longrightarrow> yyrule reg 10 loc p =
     Some (Value (VExpr (Build Fn_Inequality loc [a, b])) p)"
  "yyvs p = VExpr b # z # VExpr a # vs \<Longrightarrow> yyrule reg 11 loc p =
     Some (Value (VExpr (Build Fn_LogicalAnd loc [a, b])) p)"
  "yyvs p = VExpr b # z # VExpr a # vs \<Longrightarrow> yyrule reg 12 loc p =
     Some (Value (VExpr (Build Fn_LogicalOr loc [a, b])) p)"
  "yyvs p = VExpr e # vs \<Longrightarrow> yyrule reg 13 loc p =
     Some (Value (VExpr (Build Fn_LogicalNot loc [e])) p)"
  "yyvs p = x1 # VExpr b # x2 # VExpr a # vs \<Longrightarrow> yyrule reg 14 loc p =
     Some (Value (VExpr (Build Fn_IfElse loc [a, b])) p)"
  "yyvs p = x1 # VExpr c # x2 # VExpr b # x3 # VExpr a # vs \<Longrightarrow> yyrule reg 15 loc p =
     Some (Value (VExpr (Build Fn_IfElse loc [a, b, c])) p)"
  "yyrule reg 17 loc p = Some (Value (VArgs []) p)"
  "yyvs p = VExpr e # vs \<Longrightarrow> yyrule reg 18 loc p = Some (Value (VArgs [e]) p)"
  "yyvs p = VExpr e # z # VArgs as # vs \<Longrightarrow> yyrule reg 19 loc p = Some (Value (VArgs (as @ [e])) p)"
  by (simp_all add: yyrule_def bin_op_def expr_of_def str_of_def args_of_def Let_def)

lemma yyrule_16:
  "yyvs p = x1 # VArgs as # x2 # VStr name # vs \<Longrightarrow> FindFunction reg name = Some fn \<Longrightarrow>
   yyrule reg 16 loc p = Some
     (case fn of
        None \<Rightarrow> YYERROR (yyerror (snprintf_trunc 256 (''unknown function '' @ CHR 0x22 # name @ [CHR 0x22])) p)
      | Some f \<Rightarrow> Value (VExpr (Expr f name as (loc_start loc) (loc_end loc))) p)"
  by (cases fn) (simp_all add: yyrule_def str_of_def args_of_def Let_def)

lemma yyrule_total_1:
  assumes "tops (rhs_rev n) (yyvs p)" and "n = 2 \<or> n = 3 \<or> n = 4 \<or> n = 7 \<or> n = 13 \<or> n = 17 \<or> n = 18 \<or> n = 19"
  shows "\<exists>r. yyrule reg n loc p = Some r \<and> rule_result n p r"
proof -
  have "vsym 22 v" for v by (simp add: vsym_def)
  with assms(2,1) show ?thesis
    by (elim disjE) (auto simp: rhs_rev_def tops_Cons vsym_sorts yyrule_values rule_result_def lhs_def)
qed

lemma yyrule_total_2:
  assumes "tops (rhs_rev n) (yyvs p)" and "n = 6 \<or> n = 8 \<or> n = 9 \<or> n = 10 \<or> n = 11 \<or> n = 12"
  shows "\<exists>r. yyrule reg n loc p = Some r \<and> rule_result n p r"
  using assms(2,1)
  by (elim disjE) (auto simp: rhs_rev_def tops_Cons vsym_sorts yyrule_values rule_result_def lhs_def)

lemma yyrule_total_3:
  assumes "tops (rhs_rev n) (yyvs p)" and "n = 5 \<or> n = 14 \<or> n = 15 \<or> n = 16" and "registry_ok reg"
    and "length (rhs_rev n) \<le> length (yyls p)"
  shows "\<exists>r. yyrule reg n loc p = Some r \<and> rule_result n p r"
proof -
  consider "n = 5" | "n = 14" | "n = 15" | "n = 16" using assms(2) by auto
  then show ?thesis
  proof cases
    case 1
    with assms(4) obtain l0 l ls where "yyls p = l0 # l # ls"
      by (cases "yyls p"; cases "tl (yyls p)") (auto simp: rhs_rev_def)
    with 1 assms(1) show ?thesis
      by (auto simp: rhs_rev_def tops_Cons vsym_sorts yyrule_values rule_result_def lhs_def)
  next
    case 4
    with assms(1) obtain v1 as v2 name vs' where vs: "yyvs p = v1 # VArgs as # v2 # VStr name # vs'"
      by (auto simp: rhs_rev_def tops_Cons vsym_sorts)
    obtain fn where "FindFunction reg name = Some fn"
      using assms(3) by (auto simp: registry_ok_def)
    with 4 vs show ?thesis
      by (cases fn) (auto simp: yyrule_16 [OF vs] rule_result_def lhs_def vsym_sorts)
  qed (use assms(1) in \<open>auto simp: rhs_rev_def tops_Cons vsym_sorts yyrule_values rule_result_def lhs_def\<close>)
qed

lemma yyrule_total:
  assumes "tops (rhs_rev n) (yyvs p)" and "n \<in> set all_rules" and "registry_ok reg"
    and "length (rhs_rev n) \<le> length (yyls p)"
  shows "\<exists>r. yyrule reg n loc p = Some r \<and> rule_result n p r"
  using yyrule_total_1 [OF assms(1)] yyrule_total_2 [OF assms(1)]
    yyrule_total_3 [OF assms(1) _ assms(3,4)] assms(2)
  by (simp only: list.set append.simps insert_iff empty_iff) blast

section \<open>The typed stack\<close>

abbreviation typed :: "nat \<Rightarrow> yyvalue \<Rightarrow> unit \<Rightarrow> bool" where
  "typed X v g \<equiv> vsym X v"

definition okp :: "parser \<Rightarrow> bool" where
  "okp p \<longleftrightarrow> (\<exists>gs. okstk typed (yyss p) (yyvs p) (yyls p) gs)"

lemma typed_tops:
  "list_all2 (\<lambda>X (v, g). typed X v g) Xs (zip (take (length Xs) vs) (take (length Xs) gs)) \<Longrightarrow> tops Xs vs"
proof (induction Xs arbitrary: vs gs)
  case (Cons X Xs)
  then show ?case by (cases vs; cases gs) auto
qed simp

definition weight :: "nat \<Rightarrow> nat" where
  "weight s = (if stos s = 13 then 3 else if stos s = 23 then 2 else 1)"

definition stack_weight :: "nat list \<Rightarrow> nat" where
  "stack_weight ss = sum_list (map weight ss)"

lemma stack_weight_simps [simp]:
  "stack_weight [] = 0" "stack_weight (s # ss) = weight s + stack_weight ss"
  "stack_weight (ss @ ts) = stack_weight ss + stack_weight ts"
  by (simp_all add: stack_weight_def)

definition sym_weight :: "nat \<Rightarrow> nat" where
  "sym_weight X = (if X = 13 then 3 else if X = 23 then 2 else 1)"

lemma stack_weight_syms: "stack_weight ss = sum_list (map sym_weight (map stos ss))"
  by (induction ss) (auto simp: weight_def sym_weight_def)

text \<open>Every rule but the empty one makes the stack lighter.\<close>

lemma rhs_weight:
  "n \<in> set all_rules \<Longrightarrow> n \<noteq> 17 \<Longrightarrow> sym_weight (lhs n) < sum_list (map sym_weight (rhs_rev n))"
  by (simp, elim disjE) (simp_all add: rhs_rev_def sym_weight_def lhs_def)

section \<open>Error recovery keeps the stack\<close>

lemma okstk_pop:
  "okstk V ss vs ls gs \<Longrightarrow> \<exists>ss' vs' ls' gs' r.
     yypop ss vs ls r0 = Some (Some (1, ss', vs', ls', r)) \<and> okstk V ss' vs' ls' gs' \<and>
     hd ss' \<in> set start_states \<and> stack_weight ss' \<le> stack_weight ss \<and> length ss' \<le> length ss"
proof (induction ss arbitrary: vs ls gs r0)
  case Nil
  then show ?case using okstk_ne by blast
next
  case (Cons s ss)
  have se: "shifts_error s = Some (if s \<in> set start_states then Some 1 else None)"
    using okstk_state [OF Cons.prems] by (intro shifts_error_start) auto
  show ?case
  proof (cases "s \<in> set start_states")
    case True
    then show ?thesis using Cons.prems se by auto
  next
    case False
    then have "s \<noteq> 0" by auto
    from okstk_E [OF Cons.prems this] obtain s' ss' v vs' l ls' g gs' where
      1: "ss = s' # ss'" "vs = v # vs'" "ls = l # ls'" "gs = g # gs'" "okstk V (s' # ss') vs' ls' gs'"
      by metis
    from Cons.IH [of vs' ls' gs' l] 1 obtain ss2 vs2 ls2 gs2 r where
      "yypop ss vs' ls' l = Some (Some (1, ss2, vs2, ls2, r))" "okstk V ss2 vs2 ls2 gs2"
      "hd ss2 \<in> set start_states" "stack_weight ss2 \<le> stack_weight ss" "length ss2 \<le> length ss"
      by blast
    then show ?thesis using 1 se False by (auto simp: trans_le_add2 le_SucI)
  qed
qed

lemma yyerrlab1_ok:
  assumes "okp p"
  shows "\<exists>p'. yyerrlab1 r0 p = Some (Running p') \<and> okp p' \<and> hd (yyss p') = 1 \<and>
     stack_weight (yyss p') \<le> stack_weight (yyss p) + 1 \<and> length (yyss p') \<le> Suc (length (yyss p)) \<and>
     yyerrstatus p' = 3 \<and> yychar p' = yychar p \<and> p_lexer p' = p_lexer p \<and>
     yystacksize p' = yystacksize p \<and> p_error_count p' = p_error_count p"
proof -
  let ?p = "p\<lparr>yyerrstatus := 3\<rparr>"
  from assms obtain gs where "okstk typed (yyss p) (yyvs p) (yyls p) gs" by (auto simp: okp_def)
  from okstk_pop [OF this, of r0] obtain ss vs ls gs' r where
    q: "yypop (yyss p) (yyvs p) (yyls p) r0 = Some (Some (1, ss, vs, ls, r))" "okstk typed ss vs ls gs'"
       "hd ss \<in> set start_states" "stack_weight ss \<le> stack_weight (yyss p)" "length ss \<le> length (yyss p)"
    by blast
  obtain s ss2 where ss: "ss = s # ss2" using okstk_ne [OF q(2)] by (cases ss) auto
  have "s \<in> set (preds 1)" using q(3) by (simp add: ss preds_def)
  moreover have "weight 1 = 1" "stos 1 = 1" by (simp_all add: weight_def stos_def)
  moreover have "vsym 1 v" for v by (simp add: vsym_def)
  ultimately have "okstk typed (1 # ss) (v # vs) (l # ls) (() # gs')" for v l
    using q(2) by (simp add: ss)
  with q \<open>weight 1 = 1\<close> show ?thesis
    by (auto simp: yyerrlab1_def Let_def okp_def YYFINAL_def)
qed

lemma yyexpecting_total:
  "\<forall>x \<in> set xs. 0 \<le> int x + n \<and> int x + n \<le> 129 \<and> x < 21 \<Longrightarrow> \<exists>r. yyexpecting n xs = Some r"
proof (induction xs)
  case (Cons x xs)
  then obtain r where r: "yyexpecting n xs = Some r" by auto
  have "length yycheck = 130" "length yytname = 25" by (simp_all add: yycheck_def yytname_def)
  then have "rdi yycheck (int x + n) = Some (yycheck ! nat (int x + n))" "rd yytname x = Some (yytname ! x)"
    using Cons.prems by (auto simp: rdi_def rd_def)
  with r show ?case by simp
qed simp

lemma YYTRANSLATE_codes:
  assumes "tok \<in> set token_codes"
  obtains t where "YYTRANSLATE tok = Some t" "t < 21" "t = 0 \<longleftrightarrow> tok = 0"
proof -
  have "list_all (\<lambda>tok. case YYTRANSLATE tok of None \<Rightarrow> False | Some t \<Rightarrow> t < 21 \<and> (t = 0 \<longleftrightarrow> tok = 0)) token_codes"
    by (simp add: token_codes_def YYTRANSLATE_def rdi_def lr_tables lr_consts)
  from list_all_mem [OF this assms] that show thesis by (auto split: option.splits)
qed

lemma yysyntax_error_total:
  assumes "s \<le> 38" and "tok \<in> set token_codes"
  shows "\<exists>m. yysyntax_error s tok = Some m"
proof -
  obtain t where t: "YYTRANSLATE tok = Some t" "t < 21" using YYTRANSLATE_codes [OF assms(2)] by metis
  have "length yypact = 39" "length yytname = 25" by (simp_all add: yypact_def yytname_def)
  with assms(1) t obtain n nm where n: "rd yypact s = Some n" "rd yytname t = Some nm"
    by (auto simp: rd_def)
  show ?thesis
  proof (cases "- 16 < n \<and> n \<le> 129")
    case True
    have "\<exists>r. yyexpecting n [nat (if n < 0 then - n else 0) ..< nat (min (129 - n + 1) 21)] = Some r"
      by (rule yyexpecting_total) (use True in \<open>auto simp: nat_less_iff split: if_splits\<close>)
    then show ?thesis using n t by (auto simp: yysyntax_error_def lr_consts)
  next
    case False
    then show ?thesis using n t by (auto simp: yysyntax_error_def lr_consts)
  qed
qed

section \<open>One step\<close>

definition parser_ok :: "parser \<Rightarrow> bool" where
  "parser_ok p \<longleftrightarrow> okp p \<and> length (yyss p) \<le> yystacksize p \<and> 2 \<le> yystacksize p \<and>
     yystacksize p \<le> YYMAXDEPTH \<and> lexer_ready (p_lexer p) \<and>
     (yychar p = YYEMPTY \<or> yychar p \<in> set token_codes) \<and> yyerrstatus p \<le> 3"

text \<open>What decreases: the tokens left, then the weight of the stack and the error status.\<close>

definition tokens_left :: "parser \<Rightarrow> nat" where
  "tokens_left p = 2 * left_len (p_lexer p) + (if yychar p = YYEMPTY \<or> yychar p = YYEOF then 0 else 1)"

definition parse_measure :: "parser \<Rightarrow> nat" where
  "parse_measure p = 10 * tokens_left p + stack_weight (yyss p) + (if yyerrstatus p < 3 then 3 else 0) +
     (if hd (yyss p) = 10 then 2 else 0)"

definition same_stacks :: "parser \<Rightarrow> parser \<Rightarrow> bool" where
  "same_stacks p q \<longleftrightarrow> yyss q = yyss p \<and> yyvs q = yyvs p \<and> yyls q = yyls p \<and>
     yystacksize q = yystacksize p \<and> yyerrstatus q = yyerrstatus p \<and> p_error_count q = p_error_count p"

lemma yyread_ok:
  assumes "parser_ok p"
  obtains q where "yyread p = Some q" "parser_ok q" "yychar q \<in> set token_codes" "yytoken q < 21"
    "yytoken q = 0 \<longleftrightarrow> yychar q = 0" "tokens_left q \<le> tokens_left p" "same_stacks p q"
    "YYTRANSLATE (yychar q) = Some (yytoken q)"
proof -
  have pos: "list_all (\<lambda>t. 0 \<le> t) token_codes" by (simp add: token_codes_def)
  have "\<exists>q1. (if yychar p = YYEMPTY then
      do { r \<leftarrow> yylex (p_lexer p); Some (p\<lparr>yychar := fst r, p_lexer := snd r\<rparr>) } else Some p) = Some q1 \<and>
    parser_ok q1 \<and> yychar q1 \<in> set token_codes \<and> tokens_left q1 \<le> tokens_left p \<and> same_stacks p q1"
  proof (cases "yychar p = YYEMPTY")
    case True
    obtain tok l' where l': "yylex (p_lexer p) = Some (tok, l')" "lexer_ready l'" "tok \<in> set token_codes"
      "if tok = 0 then left_len l' = 0 else left_len l' < left_len (p_lexer p)"
      using src.lex_ready [of "p_lexer p"] assms by (auto simp: parser_ok_def)
    then show ?thesis
      using True assms
      by (auto simp: parser_ok_def okp_def tokens_left_def same_stacks_def YYEOF_def YYEMPTY_def split: if_splits)
  next
    case False
    then show ?thesis using assms by (auto simp: parser_ok_def same_stacks_def)
  qed
  then obtain q1 where q1: "(if yychar p = YYEMPTY then
      do { r \<leftarrow> yylex (p_lexer p); Some (p\<lparr>yychar := fst r, p_lexer := snd r\<rparr>) } else Some p) = Some q1"
    "parser_ok q1" "yychar q1 \<in> set token_codes" "tokens_left q1 \<le> tokens_left p" "same_stacks p q1"
    by blast
  obtain t where t: "YYTRANSLATE (yychar q1) = Some t" "t < 21" "t = 0 \<longleftrightarrow> yychar q1 = 0"
    using YYTRANSLATE_codes [OF q1(3)] by blast
  have "0 \<le> yychar q1" using pos q1(3) by (simp add: list_all_iff)
  then have "yyread p = Some (q1\<lparr>yytoken := t\<rparr>)"
    using q1(1) t by (auto simp: yyread_def YYEOF_def)
  then show thesis
    using q1 t that [of "q1\<lparr>yytoken := t\<rparr>"]
    by (simp add: parser_ok_def okp_def tokens_left_def same_stacks_def)
qed

text \<open>What a step does to a running parser; \<open>e\<close> tells whether it reported an error.\<close>

definition good_step :: "parser \<Rightarrow> presult \<Rightarrow> bool" where
  "good_step p r \<longleftrightarrow>
     (case r of
        Return k q \<Rightarrow> k \<le> 2
      | Running q \<Rightarrow> parser_ok q \<and> parse_measure q < parse_measure p)"

lemma okp_top:
  assumes "okp p" obtains s ss where "yyss p = s # ss" "s \<le> 38" "s \<noteq> 13" "rd (yyss p) 0 = Some s"
  using assms okstk_ne okstk_state unfolding okp_def by (cases "yyss p") (auto, blast)

lemma shift_ok:
  assumes "parser_ok p" and "length (yyss p) < yystacksize p" and "yyss p = s # ss"
    and "good_action s (yytoken p) (Shift n)" and "yychar p \<in> set token_codes"
    and "yytoken p = 0 \<longleftrightarrow> yychar p = 0" and "yytoken p < 21"
  shows "good_step p (Running (yyshift n p))"
proof -
  obtain gs where gs: "okstk typed (s # ss) (yyvs p) (yyls p) gs"
    using assms(1,3) by (auto simp: parser_ok_def okp_def)
  have n: "yychar p \<noteq> 0" "s \<in> set (preds n)" "stos n = yytoken p"
    using assms(4,6) by (auto simp: good_action_def)
  have v: "vsym (stos n) (VStr x)" for x
    using n(3) assms(7) by (simp add: vsym_def)
  have "okstk typed (n # s # ss) (VStr (yylval (p_lexer p)) # yyvs p) (yylloc (p_lexer p) # yyls p) (() # gs)"
    using okstk_push [OF gs n(2)] v by blast
  then have "okp (yyshift n p)"
    unfolding okp_def yyshift_def using assms(3) by (intro exI [of _ "() # gs"]) simp
  moreover have "yychar (yyshift n p) = YYEMPTY" "yychar p \<noteq> YYEMPTY"
    using n(1) assms(5) by (auto simp: yyshift_def YYEOF_def YYEMPTY_def token_codes_def)
  moreover have "weight n \<le> 3" by (simp add: weight_def)
  ultimately show ?thesis
    using assms(1,2,3) n(1)
    by (auto simp: good_step_def parser_ok_def parse_measure_def tokens_left_def yyshift_def YYEOF_def)
qed

lemma reduce_ok:
  assumes "parser_ok p" and "length (yyss p) < yystacksize p" and "yyss p = s # ss"
    and "completing n s" and "registry_ok reg"
  shows "\<exists>r. yyreduce reg n p = Some r \<and> good_step p r"
proof -
  obtain gs where gs: "okstk typed (s # ss) (yyvs p) (yyls p) gs"
    using assms(1,3) by (auto simp: parser_ok_def okp_def)
  define k where "k = length (rhs_rev n)"
  note sh = reduce_shape [OF gs assms(4), folded k_def]
  have n: "n \<in> set all_rules" by (rule completing_rule [OF assms(4)])
  have len: "length (yyls p) = length (yyvs p)" "length (s # ss) = Suc (length (yyvs p))"
    using okstk_lengths [OF gs] by simp_all
  have "s \<noteq> 0" using list_all_mem [OF rules_back_eval n] assms(4) by (simp add: completing_def)
  then have ls1: "yyls p \<noteq> []" using okstk_E [OF gs] by (metis list.discI)
  have tops: "tops (rhs_rev n) (yyvs p)"
    using typed_tops [of "rhs_rev n" "yyvs p" gs] sh(4) by (simp add: k_def)
  obtain l0 where "rd (yyls p) 0 = Some l0" using ls1 by (cases "yyls p") auto
  moreover have "k \<noteq> 0 \<Longrightarrow> k - 1 < length (yyls p)" using sh(2) len by linarith
  ultimately obtain loc where loc: "YYLLOC_DEFAULT (yyls p) k = Some loc"
    by (cases "k = 0") (auto simp: YYLLOC_DEFAULT_def)
  obtain r where r: "yyrule reg n loc p = Some r" "rule_result n p r"
    using yyrule_total [OF tops n assms(5)] sh(2) len by (auto simp: k_def)
  obtain s' ss' where drop: "drop k (s # ss) = s' # ss'" "s' \<in> set (origin n)"
    using sh(6) okstk_ne [OF sh(5)] by (cases "drop k (s # ss)") auto
  have split: "s # ss = take k (s # ss) @ s' # ss'" using drop(1) by (metis append_take_drop_id)
  have w: "stack_weight (s # ss) = sum_list (map sym_weight (rhs_rev n)) + stack_weight (s' # ss')"
    by (subst split, subst stack_weight_simps(3), subst (1) stack_weight_syms) (simp only: sh(3))
  show ?thesis
  proof (cases r)
    case (YYERROR p1)
    then obtain m where n16: "n = 16" and p1: "p1 = yyerror m p" using r(2) by (auto simp: rule_result_def)
    obtain r0 where r0: "rd (yyls p) (k - 1) = Some r0"
      using sh(2) len by (simp add: k_def n16 rhs_rev_def)
    let ?p2 = "p1\<lparr>yyss := drop k (yyss p1), yyvs := drop k (yyvs p1), yyls := drop k (yyls p1)\<rparr>"
    have "okp ?p2" using sh(5) assms(3) by (auto simp: okp_def p1 yyerror_def)
    from yyerrlab1_ok [OF this, of r0] obtain q where q: "yyerrlab1 r0 ?p2 = Some (Running q)" "okp q"
      "hd (yyss q) = 1" "stack_weight (yyss q) \<le> stack_weight (s' # ss') + 1"
      "length (yyss q) \<le> Suc (length (s' # ss'))" "yyerrstatus q = 3" "yychar q = yychar p"
      "p_lexer q = p_lexer p" "yystacksize q = yystacksize p"
      using assms(3) drop(1) by (auto simp: p1 yyerror_def)
    have "sum_list (map sym_weight (rhs_rev n)) = 6"
      by (simp add: n16 rhs_rev_def sym_weight_def)
    then have "parse_measure q < parse_measure p"
      using q(3,4,6,7,8) w assms(3) by (simp add: parse_measure_def tokens_left_def)
    moreover have "length (s' # ss') \<le> length (yyss p)" using drop(1) assms(3) by (metis length_drop diff_le_self)
    then have "parser_ok q" using q assms(1,2) by (auto simp: parser_ok_def)
    moreover have "yyreduce reg n p = Some (Running q)"
      using sh(1) loc r(1) YYERROR q(1) r0 by (simp add: yyreduce_def yyerrorlab_def p1 yyerror_def)
    ultimately show ?thesis by (simp add: good_step_def)
  next
    case (Value v p1)
    have same: "vsym (lhs n) v" "yyss p1 = yyss p" "yyvs p1 = yyvs p" "yyls p1 = yyls p"
      "yystacksize p1 = yystacksize p" "yychar p1 = yychar p" "yyerrstatus p1 = yyerrstatus p"
      "p_lexer p1 = p_lexer p"
      using r(2) Value by (auto simp: rule_result_def)
    obtain t where t: "yygoto n s' = Some t" "s' \<in> set (preds t)" "stos t = lhs n" "t \<noteq> 0" "t \<noteq> 10"
      using yygoto_rule [OF n drop(2)] by (auto simp: lhs_def)
    let ?q = "p1\<lparr>yyss := t # s' # ss', yyvs := v # drop k (yyvs p1), yyls := loc # drop k (yyls p1)\<rparr>"
    have "yyreduce reg n p = Some (Running ?q)"
      using sh(1) loc r(1) Value drop(1) t(1) same assms(3) by (simp add: yyreduce_def Let_def)
    moreover have "okp ?q"
      using sh(5) drop(1) t same(1,3,4) unfolding okp_def
      by (auto intro!: exI [of _ "() # drop k gs"])
    moreover have "length (s' # ss') \<le> length (yyss p)" using drop(1) assms(3) by (metis length_drop diff_le_self)
    moreover have "parse_measure ?q < parse_measure p"
    proof (cases "n = 17")
      case True
      then have "s' = s" "ss' = ss" "s = 10"
        using drop(1) assms(4) by (auto simp: k_def rhs_rev_def completing_def completes_def)
      then show ?thesis
        using t(3,5) assms(3) same True
        by (simp add: parse_measure_def tokens_left_def weight_def lhs_def)
    next
      case False
      have "weight t = sym_weight (lhs n)" using t(3) by (simp add: weight_def sym_weight_def)
      then show ?thesis
        using rhs_weight [OF n False] w t(5) assms(3) same
        by (simp add: parse_measure_def tokens_left_def)
    qed
    ultimately show ?thesis
      using assms(1,2) same by (auto simp: good_step_def parser_ok_def)
  qed
qed

lemma error_ok:
  assumes "parser_ok p" and "length (yyss p) < yystacksize p" and "yychar p \<in> set token_codes"
  shows "\<exists>r. yyerrlab p = Some r \<and> good_step p r"
proof -
  have okp: "okp p" using assms(1) by (simp add: parser_ok_def)
  obtain s ss where s: "yyss p = s # ss" "s \<le> 38" "rd (yyss p) 0 = Some s"
    by (rule okp_top [OF okp]) auto
  obtain m where m: "yysyntax_error s (yychar p) = Some m"
    using yysyntax_error_total [OF s(2) assms(3)] by blast
  have pos: "list_all (\<lambda>t. 0 \<le> t) token_codes" by (simp add: token_codes_def)
  then have c0: "0 \<le> yychar p" "yychar p \<noteq> YYEMPTY"
    using assms(3) by (auto simp: list_all_iff YYEMPTY_def)
  define p1 where "p1 = (if yyerrstatus p = 0 then
     yyerror (if m = [] then ''syntax error'' else m) (p\<lparr>yynerrs := Suc (yynerrs p)\<rparr>) else p)"
  have same: "yyss p1 = yyss p" "yyvs p1 = yyvs p" "yyls p1 = yyls p" "yystacksize p1 = yystacksize p"
      "yychar p1 = yychar p" "yyerrstatus p1 = yyerrstatus p" "p_lexer p1 = p_lexer p"
    by (simp_all add: p1_def yyerror_def)
  let ?r0 = "yylloc (p_lexer p1)"
  have eq: "yyerrlab p = (if yyerrstatus p = 3 \<and> yychar p = 0 then Some (Return 1 p1)
      else yyerrlab1 ?r0 (if yyerrstatus p = 3 then p1\<lparr>yychar := YYEMPTY\<rparr> else p1))"
    using m s(3) c0(1) by (auto simp: yyerrlab_def Let_def p1_def yyerror_def YYEOF_def)
  have "okp p1" "okp (p1\<lparr>yychar := YYEMPTY\<rparr>)" using okp same by (simp_all add: okp_def)
  note l1 = yyerrlab1_ok [OF this(1), of ?r0] and l2 = yyerrlab1_ok [OF this(2), of ?r0]
  show ?thesis
  proof (cases "yyerrstatus p = 3")
    case False
    from l1 obtain q where q: "yyerrlab1 ?r0 p1 = Some (Running q)" "okp q" "hd (yyss q) = 1"
      "stack_weight (yyss q) \<le> stack_weight (yyss p) + 1" "length (yyss q) \<le> Suc (length (yyss p))"
      "yyerrstatus q = 3" "yychar q = yychar p" "p_lexer q = p_lexer p" "yystacksize q = yystacksize p"
      using same by auto
    have "yyerrstatus p < 3" using False assms(1) by (simp add: parser_ok_def)
    then have "parse_measure q < parse_measure p"
      using q by (simp add: parse_measure_def tokens_left_def)
    then show ?thesis
      using eq False q assms by (auto simp: good_step_def parser_ok_def)
  next
    case True
    show ?thesis
    proof (cases "yychar p = 0")
      case True
      then show ?thesis using eq \<open>yyerrstatus p = 3\<close> by (simp add: good_step_def)
    next
      case False
      from l2 obtain q where q: "yyerrlab1 ?r0 (p1\<lparr>yychar := YYEMPTY\<rparr>) = Some (Running q)" "okp q"
        "hd (yyss q) = 1" "stack_weight (yyss q) \<le> stack_weight (yyss p) + 1"
        "length (yyss q) \<le> Suc (length (yyss p))" "yyerrstatus q = 3" "yychar q = YYEMPTY"
        "p_lexer q = p_lexer p" "yystacksize q = yystacksize p"
        using same by auto
      have "parse_measure q < parse_measure p"
        using q c0 False by (simp add: parse_measure_def tokens_left_def YYEOF_def)
      then show ?thesis
        using eq False True q assms by (auto simp: good_step_def parser_ok_def)
    qed
  qed
qed

lemma yystep_ok:
  assumes "parser_ok p" and "registry_ok reg"
  shows "\<exists>r. yystep reg p = Some r \<and> good_step p r"
proof -
  have "\<exists>r. yysetstate p = Some r \<and> (case r of Return k q \<Rightarrow> k \<le> 2
     | Running q \<Rightarrow> parser_ok q \<and> length (yyss q) < yystacksize q \<and> parse_measure q = parse_measure p)"
    using assms(1)
    by (auto simp: yysetstate_def Let_def parser_ok_def okp_def parse_measure_def tokens_left_def YYMAXDEPTH_def)
  then obtain r where r: "yysetstate p = Some r" "case r of Return k q \<Rightarrow> k \<le> 2
     | Running q \<Rightarrow> parser_ok q \<and> length (yyss q) < yystacksize q \<and> parse_measure q = parse_measure p"
    by blast
  show ?thesis
  proof (cases r)
    case (Return k q)
    then show ?thesis using r by (simp add: yystep_def good_step_def)
  next
    case (Running q)
    with r(2) have q: "parser_ok q" "length (yyss q) < yystacksize q" "parse_measure q = parse_measure p"
      by simp_all
    have good: "good_step q r' \<Longrightarrow> good_step p r'" for r'
      using q(3) by (simp add: good_step_def split: presult.splits)
    obtain s ss where s: "yyss q = s # ss" "s \<le> 38" "s \<noteq> 13" "rd (yyss q) 0 = Some s"
      using q(1) okp_top unfolding parser_ok_def by metis
    obtain n where n: "rd yypact s = Some n"
      "n = YYPACT_NINF \<Longrightarrow> \<exists>k. yydefault s = Some (Reduce k) \<and> completing k s"
      by (rule yydefault_good [OF s(2,3)]) blast
    have step: "yystep reg p = Option.bind (yybackup q) (\<lambda>b. case fst b of Accept \<Rightarrow> Some (Return 0 (snd b))
       | Shift n \<Rightarrow> Some (Running (yyshift n (snd b))) | Reduce n \<Rightarrow> yyreduce reg n (snd b)
       | Error_action \<Rightarrow> yyerrlab (snd b))"
      using r(1) Running by (simp add: yystep_def)
    show ?thesis
    proof (cases "n = YYPACT_NINF")
      case True
      then obtain k where k: "yydefault s = Some (Reduce k)" "completing k s" using n(2) by blast
      have "yystep reg p = yyreduce reg k q"
        using step s(4) n(1) True k(1) by (simp add: yybackup_def)
      with reduce_ok [OF q(1,2) s(1) k(2) assms(2)] good show ?thesis by auto
    next
      case False
      obtain t where t: "yyread q = Some t" "parser_ok t" "yychar t \<in> set token_codes" "yytoken t < 21"
        "yytoken t = 0 \<longleftrightarrow> yychar t = 0" "tokens_left t \<le> tokens_left q" "same_stacks q t"
        using yyread_ok [OF q(1)] by metis
      obtain a where a: "yydecide s (yytoken t) = Some a" "good_action s (yytoken t) a"
        using yydecide_good [OF s(2,3) t(4)] by blast
      have st: "yyss t = s # ss" "length (yyss t) < yystacksize t" "parse_measure t \<le> parse_measure q"
        using t(6,7) s(1) q(2) by (simp_all add: same_stacks_def parse_measure_def)
      have good': "good_step t r' \<Longrightarrow> good_step p r'" for r'
        using st(3) q(3) by (auto simp: good_step_def split: presult.splits)
      have "yybackup q = Some (a, t)"
        using s(4) n(1) False t(1) a(1) by (simp add: yybackup_def)
      then have step': "yystep reg p = (case a of Accept \<Rightarrow> Some (Return 0 t)
         | Shift n \<Rightarrow> Some (Running (yyshift n t)) | Reduce n \<Rightarrow> yyreduce reg n t
         | Error_action \<Rightarrow> yyerrlab t)"
        using step by (cases a) simp_all
      show ?thesis
      proof (cases a)
        case (Shift k)
        then show ?thesis
          using step' a(2) shift_ok [OF t(2) st(2,1) _ t(3,5,4)] good' by simp
      next
        case (Reduce k)
        then have "completing k s" using a(2) by (simp add: good_action_def)
        from reduce_ok [OF t(2) st(2,1) this assms(2)] Reduce step' good' show ?thesis by auto
      next
        case Accept
        then show ?thesis using step' by (simp add: good_step_def)
      next
        case Error_action
        then show ?thesis using step' error_ok [OF t(2) st(2) t(3)] good' by auto
      qed
    qed
  qed
qed

lemma yyloop_total:
  assumes "registry_ok reg" and "parser_ok p"
  shows "\<exists>k q. yyloop reg p = Some (k, q) \<and> k \<le> 2"
  using assms(2)
proof (induction "parse_measure p" arbitrary: p rule: less_induct)
  case less
  obtain r where r: "yystep reg p = Some r" "good_step p r"
    using yystep_ok [OF less.prems assms(1)] by blast
  show ?case
  proof (cases r)
    case (Return k q)
    then show ?thesis
      using r by (subst yyloop.simps) (simp add: good_step_def)
  next
    case (Running q)
    then have "parser_ok q" "parse_measure q < parse_measure p" using r(2) by (simp_all add: good_step_def)
    from less.hyps [OF this(2,1)] Running r(1) show ?thesis
      by (subst yyloop.simps) simp
  qed
qed

lemma parser_init_ok:
  assumes "lexer_on scr l" and "fits l"
  shows "parser_ok (parser_init r n0 l)"
proof -
  have "okp (parser_init r n0 l)"
    unfolding okp_def by (rule exI [of _ "[]"]) (simp add: parser_init_def)
  then show ?thesis
    using assms
    by (auto simp: parser_ok_def parser_init_def YYINITDEPTH_def YYMAXDEPTH_def lexer_ready_def)
qed

text \<open>
  C3. For every script whose literals fit the scanner's buffer, whatever its syntax errors,
  \<open>yyparse\<close> returns: with 0, 1 or 2, without a read or write outside its tables and stacks, without
  reading a member of \<open>YYSTYPE\<close> that was not written, and without looping in error recovery.
\<close>

theorem yyparse_total:
  assumes "\<forall>name. FindFunction reg name \<noteq> None" and "lexer_on scr l" and "fits l"
  shows "\<exists>k p. yyparse reg r n0 l = Some (k, p) \<and> k \<le> 2"
proof -
  have "registry_ok reg" using assms(1) by (simp add: registry_ok_def)
  then show ?thesis
    unfolding yyparse_def using parser_init_ok [OF assms(2,3)] by (intro yyloop_total)
qed

theorem yyparse_total_witness:
  "\<exists>reg l k p. host_registry = Some reg \<and> yy_scan_string ''if a then (b + ;'' lexer_init = Some l \<and>
     yyparse reg None 0 l = Some (k, p) \<and> k \<le> 2"
proof -
  obtain reg where reg: "host_registry = Some reg" "\<forall>name. FindFunction reg name \<noteq> None"
    using host_registry_lookup by (metis option.distinct(1))
  obtain l where l: "yy_scan_string ''if a then (b + ;'' lexer_init = Some l"
      "lexer_on ''if a then (b + ;'' l" "fits l"
    using scan_string_fits [of "''if a then (b + ;''"] by (auto simp: MAX_STRING_LEN_def)
  from yyparse_total [OF reg(2) l(2,3), of None 0] reg(1) l(1) show ?thesis by blast
qed

end
