(* ===== verification/EdifyGrammar.thy ===== *)
theory EdifyGrammar
  imports EdifyParserProofs
begin

text \<open>
  What a successful parse means. \<open>gexpr\<close> and \<open>gargs\<close> are the productions of parser.y as an inductive
  relation between tokens and trees (without source positions); a parse that returns 0 and reported
  no error has consumed the whole script, and the root is a tree the grammar gives to its tokens.
\<close>

section \<open>The grammar\<close>

text \<open>A token is its symbol number and the string the scanner left in \<open>yylval\<close>.\<close>

type_synonym token = "nat \<times> string"

definition binop :: "nat \<Rightarrow> efn option" where
  "binop X = map_of [(15, Fn_Sequence), (17, Fn_Concat), (7, Fn_Equality), (8, Fn_Inequality),
     (3, Fn_LogicalAnd), (4, Fn_LogicalOr)] X"

inductive gexpr :: "fn_registry \<Rightarrow> token list \<Rightarrow> expr \<Rightarrow> bool"
  and gargs :: "fn_registry \<Rightarrow> token list \<Rightarrow> expr list \<Rightarrow> bool" for reg where
  g_literal: "gexpr reg [(13, x)] (Expr Fn_Literal x [] 0 0)"
| g_paren: "gexpr reg ts e \<Longrightarrow> gexpr reg ((19, x) # ts @ [(20, y)]) e"
| g_trailing: "gexpr reg ts e \<Longrightarrow> gexpr reg (ts @ [(15, x)]) e"
| g_binop: "gexpr reg ts a \<Longrightarrow> gexpr reg us b \<Longrightarrow> binop X = Some f \<Longrightarrow>
    gexpr reg (ts @ (X, x) # us) (Expr f ''(operator)'' [a, b] 0 0)"
| g_not: "gexpr reg ts e \<Longrightarrow> gexpr reg ((18, x) # ts) (Expr Fn_LogicalNot ''(operator)'' [e] 0 0)"
| g_if: "gexpr reg ts c \<Longrightarrow> gexpr reg us a \<Longrightarrow>
    gexpr reg ((9, x) # ts @ (10, y) # us @ [(12, z)]) (Expr Fn_IfElse ''(operator)'' [c, a] 0 0)"
| g_if_else: "gexpr reg ts c \<Longrightarrow> gexpr reg us a \<Longrightarrow> gexpr reg ws b \<Longrightarrow>
    gexpr reg ((9, x) # ts @ (10, y) # us @ (11, w) # ws @ [(12, z)])
      (Expr Fn_IfElse ''(operator)'' [c, a, b] 0 0)"
| g_call: "gargs reg ts as \<Longrightarrow> FindFunction reg name = Some (Some f) \<Longrightarrow>
    gexpr reg ((13, name) # (19, x) # ts @ [(20, y)]) (Expr f name as 0 0)"
| g_noargs: "gargs reg [] []"
| g_arg: "gexpr reg ts e \<Longrightarrow> gargs reg ts [e]"
| g_args: "gargs reg ts as \<Longrightarrow> gexpr reg us e \<Longrightarrow> gargs reg (ts @ (16, x) # us) (as @ [e])"

text \<open>The tokens read on the way from one scanner state to another.\<close>

inductive reads :: "lexer \<Rightarrow> token list \<Rightarrow> lexer \<Rightarrow> bool" where
  reads_none: "reads l [] l"
| reads_one: "reads l ts l1 \<Longrightarrow> yylex l1 = Some (tok, l2) \<Longrightarrow> YYTRANSLATE tok = Some t \<Longrightarrow>
    reads l (ts @ [(t, yylval l2)]) l2"

inductive_cases reads_NilE: "reads l [] l'"

section \<open>The invariant of an error-free parse\<close>

text \<open>Symbol, value and the tokens it was read from.\<close>

definition spells :: "fn_registry \<Rightarrow> nat \<Rightarrow> yyvalue \<Rightarrow> token list \<Rightarrow> bool" where
  "spells reg X v g \<longleftrightarrow>
     (if X = 24 then \<exists>as. v = VArgs as \<and> gargs reg g (map strip as)
      else if X = 22 \<or> X = 23 then \<exists>e. v = VExpr e \<and> gexpr reg g (strip e)
      else if X = 13 then \<exists>s. v = VStr s \<and> g = [(13, s)]
      else X \<noteq> 1 \<and> (\<exists>s. g = [(X, s)]))"

definition sound :: "fn_registry \<Rightarrow> lexer \<Rightarrow> parser \<Rightarrow> bool" where
  "sound reg l0 p \<longleftrightarrow> yyerrstatus p = 0 \<and>
     (\<exists>gs. okstk (spells reg) (yyss p) (yyvs p) (yyls p) gs \<and>
        (if yychar p = YYEMPTY then reads l0 (concat (rev gs)) (p_lexer p)
         else \<exists>t. YYTRANSLATE (yychar p) = Some t \<and>
                  reads l0 (concat (rev gs) @ [(t, yylval (p_lexer p))]) (p_lexer p))) \<and>
     (hd (yyss p) = 6 \<longrightarrow> (\<exists>e vs. yyvs p = VExpr e # vs \<and> p_root p = Some e))"

fun gtops :: "fn_registry \<Rightarrow> nat list \<Rightarrow> yyvalue list \<Rightarrow> token list list \<Rightarrow> bool" where
  "gtops reg [] vs gs = True"
| "gtops reg (X # Xs) (v # vs) (g # gs) = (spells reg X v g \<and> gtops reg Xs vs gs)"
| "gtops reg (X # Xs) _ _ = False"

lemma gtops_Cons:
  "gtops reg (X # Xs) vs gs \<longleftrightarrow>
   (\<exists>v vs' g gs'. vs = v # vs' \<and> gs = g # gs' \<and> spells reg X v g \<and> gtops reg Xs vs' gs')"
  by (cases vs; cases gs) auto

lemma spells_gtops:
  "list_all2 (\<lambda>X (v, g). spells reg X v g) Xs (zip (take (length Xs) vs) (take (length Xs) gs)) \<Longrightarrow>
   gtops reg Xs vs gs"
proof (induction Xs arbitrary: vs gs)
  case (Cons X Xs)
  then show ?case by (cases vs; cases gs) auto
qed simp

lemma spells_sorts:
  "spells reg 24 v g \<longleftrightarrow> (\<exists>as. v = VArgs as \<and> gargs reg g (map strip as))"
  "spells reg 23 v g \<longleftrightarrow> (\<exists>e. v = VExpr e \<and> gexpr reg g (strip e))"
  "spells reg 22 v g \<longleftrightarrow> (\<exists>e. v = VExpr e \<and> gexpr reg g (strip e))"
  "spells reg 13 v g \<longleftrightarrow> (\<exists>s. v = VStr s \<and> g = [(13, s)])"
  "\<not> spells reg 1 v g" "\<not> spells reg (Suc 0) v g"
  by (simp_all add: spells_def)

lemma spells_term:
  "X \<in> set [3, 4, 7, 8, 9, 10, 11, 12, 15, 16, 17, 18, 19, 20] \<Longrightarrow> spells reg X v g \<longleftrightarrow> (\<exists>s. g = [(X, s)])"
  by (simp, elim disjE) (simp_all add: spells_def)

text \<open>A rule's value spells what its right-hand side spells.\<close>

lemma rule_spells_expr:
  assumes "gtops reg (rhs_rev n) (yyvs p) gs" and "n = 3 \<or> n = 4 \<or> n = 5 \<or> n = 7 \<or> n = 13"
    and "yyrule reg n loc p = Some (Value v p1)" and "length (rhs_rev n) \<le> length (yyls p)"
  shows "spells reg 23 v (concat (rev (take (length (rhs_rev n)) gs)))"
proof -
  consider "n = 3" | "n = 4" | "n = 5" | "n = 7" | "n = 13" using assms(2) by auto
  then show ?thesis
  proof cases
    case 3
    with assms(4) obtain l0 l ls where "yyls p = l0 # l # ls"
      by (cases "yyls p"; cases "tl (yyls p)") (auto simp: rhs_rev_def)
    with 3 assms(1,3) show ?thesis
      by (auto simp: rhs_rev_def gtops_Cons spells_sorts spells_term yyrule_values intro!: g_trailing)
  next
    case 4
    with assms(1) show ?thesis by (auto simp: rhs_rev_def gtops_Cons spells_sorts)
  qed (use assms(1,3) in \<open>auto simp: rhs_rev_def gtops_Cons spells_sorts spells_term yyrule_values
         intro!: g_literal g_paren g_not\<close>)
qed

lemma rule_spells_binop:
  assumes "gtops reg (rhs_rev n) (yyvs p) gs" and "n = 6 \<or> n = 8 \<or> n = 9 \<or> n = 10 \<or> n = 11 \<or> n = 12"
    and "yyrule reg n loc p = Some (Value v p1)"
  shows "spells reg 23 v (concat (rev (take (length (rhs_rev n)) gs)))"
  using assms(2,1,3)
  by (elim disjE)
     (auto simp: rhs_rev_def gtops_Cons spells_sorts spells_term yyrule_values binop_def
       intro!: g_binop)

lemma rule_spells_others:
  assumes "gtops reg (rhs_rev n) (yyvs p) gs"
    and "n = 2 \<or> n = 14 \<or> n = 15 \<or> n = 17 \<or> n = 18 \<or> n = 19"
    and "yyrule reg n loc p = Some (Value v p1)"
  shows "spells reg (lhs n) v (concat (rev (take (length (rhs_rev n)) gs)))"
  using assms(2,1,3)
  by (elim disjE)
     (auto simp: rhs_rev_def gtops_Cons spells_sorts spells_term yyrule_values lhs_def
       intro!: g_if g_if_else g_noargs g_arg g_args)

lemma rule_spells_call:
  assumes "gtops reg (rhs_rev 16) (yyvs p) gs" and "registry_ok reg"
    and "yyrule reg 16 loc p = Some (Value v p1)"
  shows "spells reg 23 v (concat (rev (take (length (rhs_rev 16)) gs)))"
proof -
  obtain x1 as g2 x2 name gs' y1 y2 vs' where
    vs: "yyvs p = x1 # VArgs as # x2 # VStr name # vs'" "gs = [(20, y1)] # g2 # [(19, y2)] # [(13, name)] # gs'"
    and as: "gargs reg g2 (map strip as)"
    using assms(1) by (auto simp: rhs_rev_def gtops_Cons spells_sorts spells_term)
  obtain fn where fn: "FindFunction reg name = Some fn" using assms(2) by (auto simp: registry_ok_def)
  from assms(3) yyrule_16 [OF vs(1) fn, of loc] fn as show ?thesis
    by (cases fn) (auto simp: rhs_rev_def vs spells_sorts intro: g_call)
qed

lemma rule_spells:
  assumes "gtops reg (rhs_rev n) (yyvs p) gs" and "n \<in> set all_rules" and "registry_ok reg"
    and "yyrule reg n loc p = Some (Value v p1)" and "length (rhs_rev n) \<le> length (yyls p)"
  shows "spells reg (lhs n) v (concat (rev (take (length (rhs_rev n)) gs)))"
proof -
  have "lhs n = 23" if "n = 3 \<or> n = 4 \<or> n = 5 \<or> n = 7 \<or> n = 13 \<or> n = 6 \<or> n = 8 \<or> n = 9 \<or> n = 10 \<or>
      n = 11 \<or> n = 12 \<or> n = 16"
    using that by (auto simp: lhs_def)
  then show ?thesis
    using rule_spells_expr [OF assms(1) _ assms(4,5)] rule_spells_binop [OF assms(1) _ assms(4)]
      rule_spells_others [OF assms(1) _ assms(4)] rule_spells_call [of reg p gs loc v p1] assms
    by (simp only: list.set append.simps insert_iff empty_iff) metis
qed

section \<open>The invariant is kept\<close>

lemma yyread_sound:
  assumes "parser_ok p" and "sound reg l0 p" and "yyread p = Some q"
  shows "sound reg l0 q \<and> yychar q \<noteq> YYEMPTY"
proof -
  obtain q' where q': "yyread p = Some q'" "yychar q' \<in> set token_codes" "same_stacks p q'"
    "YYTRANSLATE (yychar q') = Some (yytoken q')"
    using yyread_ok [OF assms(1)] by metis
  with assms(3) have q: "q = q'" by simp
  have ne: "yychar q \<noteq> YYEMPTY" using q' q by (auto simp: token_codes_def YYEMPTY_def)
  have T0: "YYTRANSLATE 0 = Some 0" by (simp add: YYTRANSLATE_def rdi_def lr_tables lr_consts)
  obtain gs where gs: "okstk (spells reg) (yyss p) (yyvs p) (yyls p) gs"
    "if yychar p = YYEMPTY then reads l0 (concat (rev gs)) (p_lexer p)
     else \<exists>t. YYTRANSLATE (yychar p) = Some t \<and>
              reads l0 (concat (rev gs) @ [(t, yylval (p_lexer p))]) (p_lexer p)"
    "yyerrstatus p = 0" "hd (yyss p) = 6 \<longrightarrow> (\<exists>e vs. yyvs p = VExpr e # vs \<and> p_root p = Some e)"
    using assms(2) by (auto simp: sound_def)
  have root: "p_root q = p_root p"
    using assms(3) by (auto simp: yyread_def option_bind_Some_iff split: if_splits)
  have "reads l0 (concat (rev gs) @ [(yytoken q, yylval (p_lexer q))]) (p_lexer q)"
  proof (cases "yychar p = YYEMPTY")
    case False
    then have "yychar q = yychar p" "p_lexer q = p_lexer p"
      using assms(3) gs(2) T0 assms(1)
      by (auto simp: yyread_def option_bind_Some_iff parser_ok_def token_codes_def lr_consts split: if_splits)
    then show ?thesis using gs(2) False q' q by auto
  next
    case True
    obtain tok l2 where l2: "yylex (p_lexer p) = Some (tok, l2)" "p_lexer q = l2"
      using assms(3) True by (auto simp: yyread_def option_bind_Some_iff split: if_splits)
    obtain tok' l2' where "yylex (p_lexer p) = Some (tok', l2')" "tok' \<in> set token_codes"
      using src.lex_ready [of "p_lexer p"] assms(1) unfolding parser_ok_def by blast
    then have "tok \<in> set token_codes" using l2(1) by simp
    then have "yychar q = tok"
      using assms(3) True l2(1)
      by (auto simp: yyread_def option_bind_Some_iff token_codes_def lr_consts split: if_splits)
    then have "YYTRANSLATE tok = Some (yytoken q)" using q' q by simp
    with l2 gs(2) True show ?thesis by (auto intro: reads_one)
  qed
  then show ?thesis
    using gs q' q ne root by (auto simp: sound_def same_stacks_def)
qed

lemma shift_sound:
  assumes "sound reg l0 p" and "yychar p \<noteq> YYEMPTY" and "yyss p = s # ss"
    and "good_action s t (Shift n)" and "YYTRANSLATE (yychar p) = Some t" and "t < 21" and "t \<noteq> 1"
    and "yychar p \<noteq> YYEOF"
  shows "sound reg l0 (yyshift n p)"
proof -
  obtain gs where gs: "okstk (spells reg) (s # ss) (yyvs p) (yyls p) gs"
    "reads l0 (concat (rev gs) @ [(t, yylval (p_lexer p))]) (p_lexer p)" "yyerrstatus p = 0"
    using assms(1,2,3,5) by (auto simp: sound_def)
  have n: "s \<in> set (preds n)" "stos n = t" using assms(4) by (auto simp: good_action_def)
  have "spells reg t (VStr x) [(t, x)]" for x
    using assms(6,7) by (auto simp: spells_def)
  then have "okstk (spells reg) (n # s # ss) (VStr (yylval (p_lexer p)) # yyvs p)
      (yylloc (p_lexer p) # yyls p) ([(t, yylval (p_lexer p))] # gs)"
    using okstk_push [OF gs(1) n(1)] n(2) by blast
  moreover have "n \<noteq> 6" using n assms(6) by (auto simp: stos_def)
  ultimately show ?thesis
    using gs(2,3) assms(3,8)
    by (auto simp: sound_def yyshift_def intro!: exI [of _ "[(t, yylval (p_lexer p))] # gs"])
qed

text \<open>A reduction keeps the invariant; an unknown function is an error.\<close>

definition parsed :: "fn_registry \<Rightarrow> lexer \<Rightarrow> parser \<Rightarrow> bool" where
  "parsed reg l0 q \<longleftrightarrow> (\<exists>ts x e. reads l0 (ts @ [(0, x)]) (p_lexer q) \<and> p_root q = Some e \<and>
     gexpr reg ts (strip e))"

definition sound_result :: "fn_registry \<Rightarrow> lexer \<Rightarrow> int \<Rightarrow> presult \<Rightarrow> bool" where
  "sound_result reg l0 n r \<longleftrightarrow>
     (case r of
        Return k q \<Rightarrow> k = 0 \<longrightarrow> p_error_count q = n \<longrightarrow> parsed reg l0 q
      | Running q \<Rightarrow> p_error_count q = n \<longrightarrow> sound reg l0 q)"

lemma reduce_sound:
  assumes "sound reg l0 p" and "parser_ok p" and "registry_ok reg" and "yyss p = s # ss"
    and "completing n s" and "yyreduce reg n p = Some r"
  shows "sound_result reg l0 (p_error_count p) r"
proof -
  obtain gs where gs: "okstk (spells reg) (s # ss) (yyvs p) (yyls p) gs"
    "if yychar p = YYEMPTY then reads l0 (concat (rev gs)) (p_lexer p)
     else \<exists>t. YYTRANSLATE (yychar p) = Some t \<and>
              reads l0 (concat (rev gs) @ [(t, yylval (p_lexer p))]) (p_lexer p)"
    "yyerrstatus p = 0"
    using assms(1,4) by (auto simp: sound_def)
  define k where "k = length (rhs_rev n)"
  note sh = reduce_shape [OF gs(1) assms(5), folded k_def]
  have n: "n \<in> set all_rules" by (rule completing_rule [OF assms(5)])
  have len: "length (yyls p) = length (yyvs p)" using okstk_lengths [OF gs(1)] by simp
  have tops: "gtops reg (rhs_rev n) (yyvs p) gs"
    using spells_gtops [of reg "rhs_rev n" "yyvs p" gs] sh(4) by (simp add: k_def)
  obtain loc a where loc: "YYLLOC_DEFAULT (yyls p) k = Some loc" "yyrule reg n loc p = Some a"
    using assms(6) sh(1) by (auto simp: yyreduce_def option_bind_Some_iff)
  have le: "length (rhs_rev n) \<le> length (yyls p)" using sh(2) len by (simp add: k_def)
  obtain s' ss' where drop: "drop k (s # ss) = s' # ss'" "s' \<in> set (origin n)"
    using sh(6) okstk_ne [OF sh(5)] by (cases "drop k (s # ss)") auto
  show ?thesis
  proof (cases a)
    case (YYERROR p1)
    have "okp p" using assms(2) by (simp add: parser_ok_def)
    then obtain us where us: "okstk typed (s # ss) (yyvs p) (yyls p) us"
      using assms(4) by (auto simp: okp_def)
    have "tops (rhs_rev n) (yyvs p)"
      using typed_tops [of "rhs_rev n" "yyvs p" us] reduce_shape(4) [OF us assms(5)] by simp
    from yyrule_total [OF this n assms(3) le, of loc] loc(2) YYERROR
    obtain m where p1: "p1 = yyerror m p" by (auto simp: rule_result_def)
    let ?p2 = "p1\<lparr>yyss := drop k (yyss p1), yyvs := drop k (yyvs p1), yyls := drop k (yyls p1)\<rparr>"
    have "okp ?p2"
      using reduce_shape(5) [OF us assms(5)] assms(4) by (auto simp: okp_def p1 yyerror_def k_def)
    moreover obtain r0 where "rd (yyls p1) (k - 1) = Some r0" "yyerrlab1 r0 ?p2 = Some r"
      using assms(6) sh(1) loc YYERROR
      by (auto simp: yyreduce_def yyerrorlab_def option_bind_Some_iff)
    ultimately obtain q where "r = Running q" "p_error_count q = p_error_count p + 1"
      using yyerrlab1_ok [of ?p2 r0] by (auto simp: p1 yyerror_def)
    then show ?thesis by (simp add: sound_result_def)
  next
    case (Value v p1)
    have sv: "spells reg (lhs n) v (concat (rev (take k gs)))"
      using rule_spells [OF tops n assms(3) _ le] loc(2) Value by (simp add: k_def)
    have same: "yyss p1 = yyss p" "yyvs p1 = yyvs p" "yyls p1 = yyls p" "yychar p1 = yychar p"
      "yyerrstatus p1 = yyerrstatus p" "p_lexer p1 = p_lexer p" "p_error_count p1 = p_error_count p"
      using loc(2) Value by (auto simp: yyrule_def Let_def bin_op_def option_bind_Some_iff split: if_splits option.splits)
    obtain t where t: "yygoto n s' = Some t" "s' \<in> set (preds t)" "stos t = lhs n"
      using yygoto_rule [OF n drop(2)] by (auto simp: lhs_def)
    let ?q = "p1\<lparr>yyss := t # s' # ss', yyvs := v # drop k (yyvs p1), yyls := loc # drop k (yyls p1)\<rparr>"
    have r: "r = Running ?q"
      using assms(6) sh(1) loc Value drop(1) t(1) same assms(4) by (simp add: yyreduce_def Let_def)
    have ok: "okstk (spells reg) (yyss ?q) (yyvs ?q) (yyls ?q) (concat (rev (take k gs)) # drop k gs)"
      using okstk_push [OF sh(5) [unfolded drop(1)] t(2)] sv t(3) same by simp
    have "concat (rev gs) = concat (rev (drop k gs)) @ concat (rev (take k gs))"
      by (metis append_take_drop_id concat_append rev_append)
    then have cc: "concat (rev (concat (rev (take k gs)) # drop k gs)) = concat (rev gs)" by simp
    have root: "t = 6 \<Longrightarrow> \<exists>e. v = VExpr e \<and> p_root p1 = Some e"
    proof -
      assume "t = 6"
      then have "n = 2" using t(3) by (simp add: stos_def lhs_def split: if_splits)
      then obtain e vs where "yyvs p = VExpr e # vs"
        using tops by (auto simp: rhs_rev_def gtops_Cons spells_sorts)
      from yyrule_values(1) [OF this, of reg loc] loc(2) Value \<open>n = 2\<close>
      show "\<exists>e. v = VExpr e \<and> p_root p1 = Some e" by auto
    qed
    have "sound reg l0 ?q"
      unfolding sound_def
      by (intro conjI exI [of _ "concat (rev (take k gs)) # drop k gs"] ok)
         (use gs(2,3) same root cc in auto)
    then show ?thesis using same by (simp add: sound_result_def r)
  qed
qed

section \<open>Reported errors stay reported\<close>

definition errors_of :: "presult \<Rightarrow> int" where
  "errors_of r = (case r of Return k q \<Rightarrow> p_error_count q | Running q \<Rightarrow> p_error_count q)"

lemma yyerror_count [simp]: "p_error_count (yyerror m p) = p_error_count p + 1"
  by (simp add: yyerror_def)

lemma yyerrlab1_errors:
  assumes "yyerrlab1 r0 p = Some r" shows "errors_of r = p_error_count p"
proof -
  obtain x where "yypop (yyss p) (yyvs p) (yyls p) r0 = Some x"
    using assms by (auto simp: yyerrlab1_def Let_def option_bind_Some_iff)
  with assms show ?thesis
    by (cases x) (auto simp: yyerrlab1_def Let_def errors_of_def split: if_splits)
qed

lemma yyerrlab_errors:
  "yyerrlab p = Some r \<Longrightarrow>
   p_error_count p \<le> errors_of r \<and> (yyerrstatus p = 0 \<longrightarrow> errors_of r = p_error_count p + 1)"
  by (auto simp: yyerrlab_def Let_def option_bind_Some_iff errors_of_def [of "Return _ _"]
      dest!: yyerrlab1_errors split: if_splits)

lemma yyrule_errors:
  "yyrule reg n loc p = Some a \<Longrightarrow>
   case a of Value v q \<Rightarrow> p_error_count q = p_error_count p | YYERROR q \<Rightarrow> p_error_count q = p_error_count p + 1"
  by (auto simp: yyrule_def Let_def bin_op_def option_bind_Some_iff split: if_splits option.splits)

lemma yyreduce_errors:
  assumes "yyreduce reg n p = Some r" shows "p_error_count p \<le> errors_of r"
proof -
  obtain k loc a where a: "rd yyr2 n = Some k" "YYLLOC_DEFAULT (yyls p) k = Some loc" "yyrule reg n loc p = Some a"
    using assms by (auto simp: yyreduce_def option_bind_Some_iff)
  show ?thesis
  proof (cases a)
    case (Value v q)
    with assms a yyrule_errors [OF a(3)] show ?thesis
      by (auto simp: yyreduce_def Let_def option_bind_Some_iff errors_of_def)
  next
    case (YYERROR q)
    with assms a yyrule_errors [OF a(3)] show ?thesis
      by (auto simp: yyreduce_def yyerrorlab_def option_bind_Some_iff dest!: yyerrlab1_errors)
  qed
qed

lemma yybackup_errors: "yybackup p = Some (a, q) \<Longrightarrow> p_error_count q = p_error_count p"
  by (auto simp: yybackup_def yyread_def option_bind_Some_iff split: if_splits)

lemma yysetstate_errors: "yysetstate p = Some r \<Longrightarrow> p_error_count p \<le> errors_of r"
  by (auto simp: yysetstate_def Let_def errors_of_def split: if_splits)

lemma yystep_errors:
  assumes "yystep reg p = Some r" shows "p_error_count p \<le> errors_of r"
proof -
  obtain r1 where r1: "yysetstate p = Some r1" using assms by (auto simp: yystep_def option_bind_Some_iff)
  note e1 = yysetstate_errors [OF r1]
  show ?thesis
  proof (cases r1)
    case (Return k q)
    then show ?thesis using assms r1 e1 by (simp add: yystep_def)
  next
    case (Running q)
    then obtain a t where b: "yybackup q = Some (a, t)"
      using assms r1 by (auto simp: yystep_def option_bind_Some_iff)
    have "p_error_count p \<le> p_error_count t"
      using e1 Running yybackup_errors [OF b] by (simp add: errors_of_def)
    moreover have "p_error_count t \<le> errors_of r"
      using assms r1 Running b yyreduce_errors [of reg _ t r] yyerrlab_errors [of t r]
      by (cases a) (auto simp: yystep_def errors_of_def [of "Return _ _"] errors_of_def [of "Running _"] yyshift_def)
    ultimately show ?thesis by simp
  qed
qed

section \<open>Successful parses\<close>

lemma accept_parsed:
  assumes "sound reg l0 p" and "yyss p = 6 # ss" and "yychar p = YYEOF"
  shows "parsed reg l0 p"
proof -
  have T0: "YYTRANSLATE 0 = Some 0" by (simp add: YYTRANSLATE_def rdi_def lr_tables lr_consts)
  obtain gs e vs where gs: "okstk (spells reg) (6 # ss) (yyvs p) (yyls p) gs"
    "reads l0 (concat (rev gs) @ [(0, yylval (p_lexer p))]) (p_lexer p)"
    "yyvs p = VExpr e # vs" "p_root p = Some e"
    using assms T0 by (auto simp: sound_def lr_consts)
  have "6 \<noteq> (0 :: nat)" by simp
  from okstk_E [OF gs(1) this] obtain s' ss' v vs' l ls' g gs' where
    1: "ss = s' # ss'" "yyvs p = v # vs'" "gs = g # gs'" "s' \<in> set (preds 6)" "spells reg (stos 6) v g"
       "okstk (spells reg) (s' # ss') vs' ls' gs'" by metis
  have "s' = 0" using 1(4) by (simp add: preds_def)
  then have "gs' = []"
    using 1(6) by (cases "(spells reg, s' # ss', vs', ls', gs')" rule: okstk.cases) (auto simp: preds_def)
  moreover have "gexpr reg g (strip e)"
    using 1(2,5) gs(3) by (auto simp: stos_def spells_sorts)
  ultimately show ?thesis using gs 1(3) by (auto simp: parsed_def)
qed

lemma YYTRANSLATE_not_error: "tok \<in> set token_codes \<Longrightarrow> YYTRANSLATE tok \<noteq> Some 1"
proof -
  have "list_all (\<lambda>tok. YYTRANSLATE tok \<noteq> Some 1) token_codes"
    by (simp add: token_codes_def YYTRANSLATE_def rdi_def lr_tables lr_consts)
  then show "tok \<in> set token_codes \<Longrightarrow> ?thesis" by (rule list_all_mem)
qed

lemma yystep_sound:
  assumes "sound reg l0 p" and "parser_ok p" and "registry_ok reg" and "yystep reg p = Some r"
  shows "sound_result reg l0 (p_error_count p) r"
proof -
  obtain r1 where r1: "yysetstate p = Some r1" using assms(4) by (auto simp: yystep_def option_bind_Some_iff)
  show ?thesis
  proof (cases r1)
    case (Return k q)
    then have "k \<noteq> 0" using r1 by (auto simp: yysetstate_def Let_def split: if_splits)
    then show ?thesis using assms(4) r1 Return by (auto simp: yystep_def sound_result_def)
  next
    case (Running q)
    have q: "parser_ok q" "sound reg l0 q" "p_error_count q = p_error_count p"
      using r1 Running assms(1,2)
      by (auto simp: yysetstate_def Let_def parser_ok_def okp_def sound_def YYMAXDEPTH_def split: if_splits)
    have "okp q" using q(1) by (simp add: parser_ok_def)
    then obtain s ss where s: "yyss q = s # ss" "s \<le> 38" "s \<noteq> 13" "rd (yyss q) 0 = Some s"
      by (rule okp_top)
    obtain n where n: "rd yypact s = Some n"
      "n = YYPACT_NINF \<Longrightarrow> \<exists>k. yydefault s = Some (Reduce k) \<and> completing k s"
      by (rule yydefault_good [OF s(2,3)]) blast
    show ?thesis
    proof (cases "n = YYPACT_NINF")
      case True
      then obtain k where k: "yydefault s = Some (Reduce k)" "completing k s" using n(2) by blast
      then have "yyreduce reg k q = Some r"
        using assms(4) r1 Running s(4) n(1) True by (simp add: yystep_def yybackup_def)
      with reduce_sound [OF q(2,1) assms(3) s(1) k(2)] q(3) show ?thesis by metis
    next
      case False
      obtain t where t: "yyread q = Some t" "parser_ok t" "yychar t \<in> set token_codes" "yytoken t < 21"
        "yytoken t = 0 \<longleftrightarrow> yychar t = 0" "same_stacks q t" "YYTRANSLATE (yychar t) = Some (yytoken t)"
        using yyread_ok [OF q(1)] by metis
      have st: "sound reg l0 t" "yychar t \<noteq> YYEMPTY" using yyread_sound [OF q(1,2) t(1)] by auto
      have ct: "p_error_count t = p_error_count p" "yyss t = s # ss" "yyerrstatus t = 0"
        using t(6) q(3) s(1) st(1) by (auto simp: same_stacks_def sound_def)
      obtain a where a: "yydecide s (yytoken t) = Some a" "good_action s (yytoken t) a"
        using yydecide_good [OF s(2,3) t(4)] by blast
      have step: "Some r = (case a of Accept \<Rightarrow> Some (Return 0 t)
         | Shift n \<Rightarrow> Some (Running (yyshift n t)) | Reduce n \<Rightarrow> yyreduce reg n t
         | Error_action \<Rightarrow> yyerrlab t)"
        using assms(4) r1 Running s(4) n(1) False t(1) a(1) by (cases a) (simp_all add: yystep_def yybackup_def)
      show ?thesis
      proof (cases a)
        case (Shift k)
        have "yytoken t \<noteq> 1" using YYTRANSLATE_not_error [OF t(3)] t(7) by simp
        moreover have "yychar t \<noteq> YYEOF" using a(2) Shift t(5) by (simp add: good_action_def YYEOF_def)
        ultimately have "sound reg l0 (yyshift k t)"
          using shift_sound [OF st ct(2) _ t(7,4)] a(2) Shift by blast
        then show ?thesis using step Shift by (simp add: sound_result_def)
      next
        case (Reduce k)
        then have "completing k s" using a(2) by (simp add: good_action_def)
        from reduce_sound [OF st(1) t(2) assms(3) ct(2) this] Reduce step ct(1) show ?thesis by simp
      next
        case Accept
        then have "s = 6" "yychar t = YYEOF" using a(2) t(5) by (simp_all add: good_action_def YYEOF_def)
        with accept_parsed [OF st(1)] ct(2) step Accept show ?thesis by (simp add: sound_result_def)
      next
        case Error_action
        then have "yyerrlab t = Some r" using step by simp
        then have "errors_of r = p_error_count p + 1" using yyerrlab_errors [of t r] ct by simp
        then show ?thesis by (auto simp: errors_of_def sound_result_def split: presult.splits)
      qed
    qed
  qed
qed

lemma yyloop_sound:
  assumes "registry_ok reg" and "yyloop reg p = Some (0, q)" and "p_error_count q = n0"
    and "parser_ok p" and "n0 \<le> p_error_count p" and "p_error_count p = n0 \<longrightarrow> sound reg l0 p"
  shows "parsed reg l0 q"
  using assms(2,4-6)
proof (induction "parse_measure p" arbitrary: p rule: less_induct)
  case less
  obtain r where r: "yystep reg p = Some r" "good_step p r"
    using yystep_ok [OF less.prems(2) assms(1)] by blast
  note mono = yystep_errors [OF r(1)]
  have res: "p_error_count p = n0 \<Longrightarrow> sound_result reg l0 n0 r"
    using yystep_sound [OF _ less.prems(2) assms(1) r(1), of l0] less.prems(4) by metis
  show ?case
  proof (cases r)
    case (Return k q')
    then have "q' = q" "k = 0" using less.prems(1) r(1) by (subst (asm) yyloop.simps, simp)+
    then have "p_error_count p = n0"
      using mono Return assms(3) less.prems(3) by (simp add: errors_of_def)
    with res Return \<open>q' = q\<close> \<open>k = 0\<close> assms(3) show ?thesis by (simp add: sound_result_def)
  next
    case (Running p1)
    then have "yyloop reg p1 = Some (0, q)"
      using less.prems(1) r(1) by (subst (asm) yyloop.simps) simp
    moreover have "parser_ok p1" "parse_measure p1 < parse_measure p"
      using r(2) Running by (simp_all add: good_step_def)
    moreover have "n0 \<le> p_error_count p1" using mono Running less.prems(3) by (simp add: errors_of_def)
    moreover have "p_error_count p1 = n0 \<longrightarrow> sound reg l0 p1"
      using mono Running less.prems(3) res by (auto simp: errors_of_def sound_result_def)
    ultimately show ?thesis using less.hyps by blast
  qed
qed

lemma yyloop_errors:
  "yyloop reg p = Some (k, q) \<Longrightarrow> parser_ok p \<Longrightarrow> registry_ok reg \<Longrightarrow>
   p_error_count p \<le> p_error_count q"
proof (induction "parse_measure p" arbitrary: p rule: less_induct)
  case less
  obtain r where r: "yystep reg p = Some r" "good_step p r"
    using yystep_ok [OF less.prems(2,3)] by blast
  note mono = yystep_errors [OF r(1)]
  show ?case
  proof (cases r)
    case (Return j q')
    then have "q' = q" using less.prems(1) r(1) by (subst (asm) yyloop.simps) simp
    then show ?thesis using mono Return by (simp add: errors_of_def)
  next
    case (Running p1)
    then have "yyloop reg p1 = Some (k, q)"
      using less.prems(1) r(1) by (subst (asm) yyloop.simps) simp
    moreover have "parser_ok p1" "parse_measure p1 < parse_measure p"
      using r(2) Running by (simp_all add: good_step_def)
    ultimately have "p_error_count p1 \<le> p_error_count q" using less.hyps less.prems(3) by blast
    then show ?thesis using mono Running by (simp add: errors_of_def)
  qed
qed

lemma yyparse_errors:
  assumes "registry_ok reg" and "lexer_on scr l" and "fits l" and "yyparse reg r n0 l = Some (k, q)"
  shows "n0 \<le> p_error_count q"
  using yyloop_errors [OF _ parser_init_ok [OF assms(2,3)] assms(1), of r n0 k q] assms(4)
  by (simp add: yyparse_def parser_init_def)

lemma parse_reads:
  assumes "registry_ok reg" and "lexer_on scr l" and "fits l"
    and "yyparse reg r n0 l = Some (0, q)" and "p_error_count q = n0"
  shows "parsed reg l q"
proof -
  have "sound reg l (parser_init r n0 l)"
    unfolding sound_def
    by (intro conjI exI [of _ "[]"]) (auto simp: parser_init_def reads_none)
  then show ?thesis
    using assms(1,4,5) parser_init_ok [OF assms(2,3)]
    by (intro yyloop_sound [of reg _ q n0]) (auto simp: yyparse_def parser_init_def)
qed

text \<open>
  C1. A parse that returns 0 and reported no error has read the tokens of the whole script up to its
  end, and the root is the tree the grammar of parser.y derives from them: nothing was skipped, no
  node was lost or duplicated, and every function node is the function the table has under its name.
\<close>

theorem yyparse_sound:
  assumes "\<forall>name. FindFunction reg name \<noteq> None" and "lexer_on scr l" and "fits l"
    and "yyparse reg r n0 l = Some (0, q)" and "p_error_count q = n0"
  shows "\<exists>ts x e. reads l (ts @ [(0, x)]) (p_lexer q) \<and> p_root q = Some e \<and> gexpr reg ts (strip e)"
  using parse_reads [OF _ assms(2-5)] assms(1) by (simp add: registry_ok_def parsed_def)

theorem yyparse_sound_witness:
  "\<exists>reg l q ts x e. host_registry = Some reg \<and> yy_scan_string ''concat(a, b)'' lexer_init = Some l \<and>
     yyparse reg None 0 l = Some (0, q) \<and> reads l (ts @ [(0, x)]) (p_lexer q) \<and> p_root q = Some e \<and>
     gexpr reg ts (strip e)"
proof -
  obtain reg where reg: "host_registry = Some reg" "\<forall>name. FindFunction reg name \<noteq> None"
    using host_registry_lookup by (metis option.distinct(1))
  obtain l where l: "yy_scan_string ''concat(a, b)'' lexer_init = Some l" "lexer_on ''concat(a, b)'' l" "fits l"
    using scan_string_fits [of "''concat(a, b)''"] by (auto simp: MAX_STRING_LEN_def)
  have "map_option (\<lambda>(k, p). (k, p_error_count p)) (Option.bind host_registry (\<lambda>reg.
          Option.bind (yy_scan_string ''concat(a, b)'' lexer_init) (yyparse reg None 0))) = Some (0, 0)"
    by code_simp
  then have "map_option (\<lambda>(k, p). (k, p_error_count p)) (yyparse reg None 0 l) = Some (0, 0)"
    by (simp only: reg(1) l(1) Option.bind.bind_lunit)
  then obtain q where q: "yyparse reg None 0 l = Some (0, q)" "p_error_count q = 0" by auto
  from yyparse_sound [OF reg(2) l(2,3) q] reg(1) l(1) q(1) show ?thesis by blast
qed

end
