(* ===== verification/EdifyEvalProofs.thy ===== *)
theory EdifyEvalProofs
  imports EdifyMain EdifyGrammar
begin

text \<open>
  What evaluation promises: the equations between operators that hold with every side effect and
  failure of the operands, the value of pure expressions, the freedom of parsed scripts from
  undefined behaviour, and integer comparison on decimal numerals.
\<close>

named_theorems eval_ops \<open>the operators of the language as functions of their arguments\<close>

declare LogicalAndFn_def [eval_ops] LogicalOrFn_def [eval_ops] LogicalNotFn_def [eval_ops]
  EqualityFn_def [eval_ops] InequalityFn_def [eval_ops] SequenceFn_def [eval_ops]
  SubstringFn_def [eval_ops] IfElseFn_def [eval_ops] ConcatFn_def [eval_ops] Literal_def [eval_ops]
  with_arg_def [eval_ops] eval_arg_def [eval_ops] ret_def [eval_ops] ret_null_def [eval_ops]
  call_fn_def [eval_ops] BooleanString_def [eval_ops] c_bool_def [eval_ops]

section \<open>Laws of the operators\<close>

abbreviation op :: "efn \<Rightarrow> expr list \<Rightarrow> expr" where
  "op f as \<equiv> Expr f ''(operator)'' as 0 0"

abbreviation lit :: "string \<Rightarrow> expr" where
  "lit s \<equiv> Expr Fn_Literal s [] 0 0"

text \<open>An operand is evaluated, fails, or has no defined result.\<close>

lemma result_cases [case_names undefined null val]:
  fixes r :: "'w result"
  obtains "r = None" | st where "r = Some (None, st)" | v st where "r = Some (Some v, st)"
  by (cases r) (auto, metis option.exhaust)

text \<open>The result of an expression, its string read as a boolean.\<close>

definition truth :: "'w result \<Rightarrow> (bool option \<times> 'w est) option" where
  "truth r = map_option (\<lambda>(v, st). (map_option BooleanString v, st)) r"

text \<open> \<open>a && b\<close> is \<open>if a then b endif\<close>, \<open>a != b\<close> is \<open>!(a == b)\<close>, and \<open>a || b\<close> is \<open>!(!a && !b)\<close> up to
  the spelling of true: the same side effects in the same order, NULL for NULL and true for true.
\<close>

theorem operator_equivalences:
  "Evaluate os (op Fn_LogicalAnd [a, b]) st = Evaluate os (op Fn_IfElse [a, b]) st \<and>
   Evaluate os (op Fn_Inequality [a, b]) st = Evaluate os (op Fn_LogicalNot [op Fn_Equality [a, b]]) st \<and>
   truth (Evaluate os (op Fn_LogicalOr [a, b]) st) =
     truth (Evaluate os (op Fn_LogicalNot [op Fn_LogicalAnd [op Fn_LogicalNot [a], op Fn_LogicalNot [b]]]) st)"
proof (cases "Evaluate os a st" rule: result_cases)
  case (val va st1)
  then show ?thesis
    by (cases "Evaluate os b st1" rule: result_cases) (auto simp: eval_ops truth_def)
qed (simp_all add: eval_ops truth_def)

section \<open>Pure expressions\<close>

text \<open>The value of an expression of literals and operators, as a function of the tree alone.\<close>

fun sem :: "expr \<Rightarrow> string" where
  "sem (Expr f n as s e) =
     (let vs = map sem as; v = (\<lambda>i. vs ! i) in
      case f of
        Fn_Literal \<Rightarrow> n
      | Fn_Concat \<Rightarrow> concat vs
      | Fn_IfElse \<Rightarrow> if v 0 \<noteq> [] then v 1 else if length vs = 3 then v 2 else v 0
      | Fn_LogicalAnd \<Rightarrow> if v 0 \<noteq> [] then v 1 else v 0
      | Fn_LogicalOr \<Rightarrow> if v 0 = [] then v 1 else v 0
      | Fn_LogicalNot \<Rightarrow> c_bool (v 0 = [])
      | Fn_Substring \<Rightarrow> c_bool (\<exists>x y. v 1 = x @ v 0 @ y)
      | Fn_Equality \<Rightarrow> c_bool (v 0 = v 1)
      | Fn_Inequality \<Rightarrow> c_bool (v 0 \<noteq> v 1)
      | Fn_Sequence \<Rightarrow> v 1
      | _ \<Rightarrow> [])"

definition pure_arity :: "efn \<Rightarrow> nat \<Rightarrow> bool" where
  "pure_arity f k \<longleftrightarrow>
     (case f of
        Fn_Literal \<Rightarrow> True
      | Fn_Concat \<Rightarrow> True
      | Fn_IfElse \<Rightarrow> k = 2 \<or> k = 3
      | Fn_LogicalNot \<Rightarrow> 1 \<le> k
      | f \<Rightarrow> f \<in> {Fn_LogicalAnd, Fn_LogicalOr, Fn_Substring, Fn_Equality, Fn_Inequality, Fn_Sequence} \<and> 2 \<le> k)"

fun pure :: "expr \<Rightarrow> bool" where
  "pure (Expr f n as s e) = (pure_arity f (length as) \<and> list_all pure as)"

lemma ReadVarArgs_pure:
  "(\<And>a. a \<in> set as \<Longrightarrow> Evaluate os a st = Some (Some (sem a), st)) \<Longrightarrow>
   ReadVarArgs (map (\<lambda>a. (Evaluate os a, e_start a, e_end a)) as) st = Some (Some (map sem as), st)"
  by (induction as) simp_all

lemma pure_cases2:
  assumes "2 \<le> length as" obtains a b bs where "as = a # b # bs"
  using assms by (cases as; cases "tl as") auto

text \<open>
  C31. A pure expression, of any size, evaluates to its value: no error, no side effect, and
  short-circuiting is not observable. (The C functions free, reuse and duplicate strings; the value
  is that of the tree.)
\<close>

theorem Evaluate_pure:
  "pure e \<Longrightarrow> Evaluate os e st = Some (Some (sem e), st)"
proof (induction e)
  case (Expr f n as s e)
  let ?argv = "map (\<lambda>a. (Evaluate os a, e_start a, e_end a)) as"
  have IH: "Evaluate os a st = Some (Some (sem a), st)" if "a \<in> set as" for a
    using Expr that by (simp add: list_all_iff)
  have arity: "pure_arity f (length as)" using Expr.prems by simp
  show ?case
  proof (cases "f = Fn_Literal \<or> f = Fn_Concat")
    case True
    then show ?thesis
      using ReadVarArgs_pure [OF IH] by (auto simp: eval_ops)
  next
    case F: False
    show ?thesis
    proof (cases "f = Fn_LogicalNot")
      case True
      then obtain a bs where "as = a # bs" using arity by (cases as) (auto simp: pure_arity_def)
      then show ?thesis using IH True by (simp add: eval_ops)
    next
      case False
      then have "2 \<le> length as" using arity F by (auto simp: pure_arity_def split: efn.splits)
      then obtain a b bs where as: "as = a # b # bs" by (rule pure_cases2)
      show ?thesis
      proof (cases "f = Fn_IfElse")
        case True
        then have "bs = [] \<or> (\<exists>c. bs = [c])"
          using arity as by (cases bs) (auto simp: pure_arity_def)
        then show ?thesis using IH True as by (auto simp: eval_ops numeral_2_eq_2)
      next
        case False
        then have "f \<in> {Fn_LogicalAnd, Fn_LogicalOr, Fn_Substring, Fn_Equality, Fn_Inequality, Fn_Sequence}"
          using arity F \<open>f \<noteq> Fn_LogicalNot\<close> by (auto simp: pure_arity_def split: efn.splits)
        then show ?thesis using IH as by (auto simp: eval_ops strstr_iff)
      qed
    qed
  qed
qed

theorem Evaluate_pure_witness:
  "Evaluate (sample_os []) (op Fn_Equality [op Fn_Concat [lit ''a'', lit ''b''], lit ''ab'']) (sample_state [])
   = Some (Some ''t'', sample_state [])"
  by (subst Evaluate_pure) (simp_all add: pure_arity_def c_bool_def)

section \<open>Parsed scripts have a defined result\<close>

text \<open>
  The shape the parser gives operator nodes, whoever is called by name: \<open>calls\<close> says which functions
  may be called, and with how many arguments.
\<close>

definition op_arity :: "efn \<Rightarrow> nat \<Rightarrow> bool" where
  "op_arity f k \<longleftrightarrow>
     (f \<in> {Fn_Sequence, Fn_Concat, Fn_Equality, Fn_Inequality, Fn_LogicalAnd, Fn_LogicalOr} \<and> k = 2) \<or>
     (f = Fn_LogicalNot \<and> k = 1) \<or> (f = Fn_IfElse \<and> (k = 2 \<or> k = 3)) \<or> (f = Fn_Literal \<and> k = 0)"

fun shaped :: "(efn \<Rightarrow> nat \<Rightarrow> bool) \<Rightarrow> expr \<Rightarrow> bool" where
  "shaped calls (Expr f n as s e) =
     ((op_arity f (length as) \<or> calls f (length as)) \<and> list_all (shaped calls) as)"

lemma binop_values:
  "binop X = Some f \<Longrightarrow>
   f \<in> {Fn_Sequence, Fn_Concat, Fn_Equality, Fn_Inequality, Fn_LogicalAnd, Fn_LogicalOr}"
  by (auto simp: binop_def split: if_splits)

lemma grammar_shaped:
  "(gexpr reg ts e \<longrightarrow> shaped (\<lambda>f k. \<exists>n. FindFunction reg n = Some (Some f)) e) \<and>
   (gargs reg us as \<longrightarrow> list_all (shaped (\<lambda>f k. \<exists>n. FindFunction reg n = Some (Some f))) as)"
proof -
  let ?S = "shaped (\<lambda>f k. \<exists>n. FindFunction reg n = Some (Some f))"
  have "gexpr reg ts e \<Longrightarrow> ?S e" and "gargs reg us as \<Longrightarrow> list_all ?S as"
  proof (induction rule: gexpr_gargs.inducts)
    case (g_binop ts a us b X f x)
    then show ?case using binop_values [OF g_binop(5)] by (auto simp: op_arity_def)
  qed (auto simp: op_arity_def)
  then show ?thesis by blast
qed

text \<open>
  The host tool's functions and the arguments they read whatever \<open>argc\<close> is: \<open>sleep\<close> and
  \<open>is_substring\<close> do not check it.
\<close>

definition host_calls :: "efn \<Rightarrow> nat \<Rightarrow> bool" where
  "host_calls f k \<longleftrightarrow>
     f \<in> {Fn_Concat, Fn_IfElse, Fn_Abort, Fn_Assert, Fn_Stdout, Fn_LessThanInt, Fn_GreaterThanInt} \<or>
     (f = Fn_Sleep \<and> 1 \<le> k) \<or> (f = Fn_Substring \<and> 2 \<le> k)"

text \<open>The source spans of the arguments of \<open>assert\<close>, which copies the one that fails, lie in the script.\<close>

fun assert_spans :: "string \<Rightarrow> expr \<Rightarrow> bool" where
  "assert_spans scr (Expr f n as s e) =
     ((f = Fn_Assert \<longrightarrow> list_all (\<lambda>a. 0 \<le> e_start a \<and> e_start a \<le> e_end a \<and> e_end a \<le> int (length scr)) as) \<and>
      list_all (assert_spans scr) as)"

text \<open>A result there is, and the script is what it was.\<close>

definition has_result :: "string \<Rightarrow> 'w result \<Rightarrow> bool" where
  "has_result scr r \<longleftrightarrow> (\<exists>v st'. r = Some (v, st') \<and> st_script st' = scr)"

lemma has_result_ret [simp]:
  "has_result scr (ret s st) = (st_script st = scr)" "has_result scr (ret_null st) = (st_script st = scr)"
  "has_result scr (Some (v, st)) = (st_script st = scr)"
  by (auto simp: has_result_def ret_def ret_null_def)

lemma script_kept [simp]: "st_script (set_errmsg m st) = st_script st" "st_script (not_an_int s st) = st_script st"
  by (simp_all add: set_errmsg_def not_an_int_def)

definition defined :: "string \<Rightarrow> ('w est \<Rightarrow> 'w result) \<Rightarrow> bool" where
  "defined scr c \<longleftrightarrow> (\<forall>st. st_script st = scr \<longrightarrow> has_result scr (c st))"

lemma defined_ex: "defined scr c \<Longrightarrow> st_script st = scr \<Longrightarrow> \<exists>v st'. c st = Some (v, st') \<and> st_script st' = scr"
  by (simp add: defined_def has_result_def)

lemma ReadVarArgs_defined:
  "list_all (\<lambda>a. defined scr (fst a)) argv \<Longrightarrow> st_script st = scr \<Longrightarrow>
   \<exists>r st'. ReadVarArgs argv st = Some (r, st') \<and> st_script st' = scr \<and> (\<forall>vs. r = Some vs \<longrightarrow> length vs = length argv)"
proof (induction argv arbitrary: st)
  case (Cons a argv)
  then obtain v st1 where v: "fst a st = Some (v, st1)" "st_script st1 = scr" using defined_ex [of scr "fst a" st] by auto
  obtain r st2 where "ReadVarArgs argv st1 = Some (r, st2)" "st_script st2 = scr" "\<forall>vs. r = Some vs \<longrightarrow> length vs = length argv"
    using Cons.IH [OF _ v(2)] Cons.prems(1) by auto
  with v show ?case by (cases v) auto
qed simp

lemma ReadArgs_defined:
  "list_all (\<lambda>a. defined scr (fst a)) argv \<Longrightarrow> st_script st = scr \<Longrightarrow> n \<le> length argv \<Longrightarrow>
   \<exists>r st'. ReadArgs n argv st = Some (r, st') \<and> st_script st' = scr \<and> (\<forall>vs. r = Some vs \<longrightarrow> length vs = n)"
proof (induction n arbitrary: argv st)
  case (Suc n)
  then obtain a as where argv: "argv = a # as" by (cases argv) auto
  then obtain v st1 where v: "fst a st = Some (v, st1)" "st_script st1 = scr" using defined_ex [of scr "fst a" st] Suc.prems(1,2) by auto
  obtain r st2 where "ReadArgs n as st1 = Some (r, st2)" "st_script st2 = scr" "\<forall>vs. r = Some vs \<longrightarrow> length vs = n"
    using Suc.IH [of as st1] Suc.prems argv v(2) by auto
  with v argv show ?case by (cases v) auto
qed simp

lemma with_arg_defined:
  assumes "list_all (\<lambda>a. defined scr (fst a)) argv" and "i < length argv" and "st_script st = scr"
    and "\<And>v st. st_script st = scr \<Longrightarrow> has_result scr (k v st)"
  shows "has_result scr (with_arg argv i st k)"
proof -
  have "defined scr (fst (argv ! i))" using assms(1,2) by (simp add: list_all_length)
  then obtain v st' where "fst (argv ! i) st = Some (v, st')" "st_script st' = scr" using defined_ex assms(3) by blast
  then show ?thesis
    using assms(2,4) by (cases v) (auto simp: with_arg_def eval_arg_def)
qed

lemma eval_arg_defined:
  "list_all (\<lambda>a. defined scr (fst a)) argv \<Longrightarrow> i < length argv \<Longrightarrow> st_script st = scr \<Longrightarrow> has_result scr (eval_arg argv i st)"
  by (simp add: eval_arg_def list_all_length defined_def)

lemma StdoutFn_defined: "list_all (\<lambda>a. defined scr (fst a)) argv \<Longrightarrow> st_script st = scr \<Longrightarrow> has_result scr (StdoutFn argv st)"
proof (induction argv arbitrary: st)
  case (Cons a argv)
  then obtain v st1 where v: "fst a st = Some (v, st1)" "st_script st1 = scr" using defined_ex [of scr "fst a" st] by auto
  with Cons show ?case by (cases v) auto
qed simp

lemma script_copy_span: "0 \<le> s \<Longrightarrow> s \<le> e \<Longrightarrow> e \<le> int (length scr) \<Longrightarrow> \<exists>src. script_copy scr s (e - s) = Some src"
  by (simp add: script_copy_def)

lemma AssertFn_defined:
  assumes "list_all (\<lambda>a. defined scr (fst a)) argv" and "st_script st = scr"
    and "list_all (\<lambda>a. 0 \<le> fst (snd a) \<and> fst (snd a) \<le> snd (snd a) \<and> snd (snd a) \<le> int (length scr)) argv"
  shows "has_result scr (AssertFn argv st)"
  using assms
proof (induction argv arbitrary: st)
  case (Cons a argv)
  then obtain v st1 where v: "fst a st = Some (v, st1)" "st_script st1 = scr" using defined_ex [of scr "fst a" st] by auto
  obtain src where "script_copy scr (fst (snd a)) (snd (snd a) - fst (snd a)) = Some src" using script_copy_span Cons.prems(3) by fastforce
  with v Cons show ?case by (cases v) auto
qed simp

lemma LessThanIntFn_defined:
  assumes "list_all (\<lambda>a. defined scr (fst a)) argv" and "st_script st = scr"
  shows "has_result scr (LessThanIntFn os argv st)"
proof (cases "length argv = 2")
  case True
  obtain r st' where r: "ReadArgs 2 argv st = Some (r, st')" "st_script st' = scr" "\<forall>vs. r = Some vs \<longrightarrow> length vs = 2"
    using ReadArgs_defined [OF assms, of 2] True by auto
  show ?thesis
  proof (cases r)
    case (Some vs)
    then obtain a b where "vs = [a, b]" using r(3) by (cases vs; cases "tl vs") auto
    with r Some show ?thesis
      by (auto simp: LessThanIntFn_def True split: option.splits)
  qed (use r in \<open>simp add: LessThanIntFn_def True\<close>)
qed (use assms(2) in \<open>simp add: LessThanIntFn_def\<close>)

lemma call_defined:
  assumes d: "list_all (\<lambda>a. defined (st_script st) (fst a)) argv"
    and "op_arity f (length argv) \<or> host_calls f (length argv)"
    and sp: "f = Fn_Assert \<longrightarrow> list_all (\<lambda>a. 0 \<le> fst (snd a) \<and> fst (snd a) \<le> snd (snd a) \<and> snd (snd a) \<le> int (length (st_script st))) argv"
  shows "has_result (st_script st) (call_fn os f name argv st)"
proof -
  note st = refl [of "st_script st"]
  note wd = with_arg_defined [OF d] and ed = eval_arg_defined [OF d]
  have 1: "\<lbrakk>f \<in> {Fn_LogicalAnd, Fn_LogicalOr, Fn_Equality, Fn_Inequality, Fn_Sequence, Fn_Substring};
     2 \<le> length argv\<rbrakk> \<Longrightarrow> ?thesis"
    by (auto simp: call_fn_def LogicalAndFn_def LogicalOrFn_def EqualityFn_def InequalityFn_def
        SequenceFn_def SubstringFn_def intro!: wd ed st)
  have 2: "\<lbrakk>f = Fn_LogicalNot \<or> f = Fn_Sleep; 1 \<le> length argv\<rbrakk> \<Longrightarrow> ?thesis"
    by (auto simp: call_fn_def LogicalNotFn_def SleepFn_def intro!: wd st)
  have 3: "f = Fn_IfElse \<Longrightarrow> ?thesis"
    by (auto simp: call_fn_def IfElseFn_def intro!: wd ed st)
  have 4: "f = Fn_Concat \<Longrightarrow> ?thesis"
    using ReadVarArgs_defined [OF d st] st by (auto simp: call_fn_def ConcatFn_def)
  have 5: "f = Fn_Abort \<Longrightarrow> ?thesis"
    using ed [of 0 st] st by (cases argv) (auto simp: call_fn_def AbortFn_def has_result_def ret_null_def)
  have 6: "f = Fn_Literal \<or> f = Fn_Stdout \<or> f = Fn_LessThanInt \<or> f = Fn_Assert \<Longrightarrow> ?thesis"
    using StdoutFn_defined [OF d st] LessThanIntFn_defined [OF d st, of os] AssertFn_defined [OF d st] st sp
    by (auto simp: call_fn_def Literal_def )
  have 7: "f = Fn_GreaterThanInt \<Longrightarrow> ?thesis"
  proof -
    have "length argv = 2 \<Longrightarrow> has_result (st_script st) (LessThanIntFn os [argv ! 1, argv ! 0] st)"
    proof -
      assume "length argv = 2"
      then obtain x y where "argv = [x, y]" by (cases argv; cases "tl argv") auto
      with d st show "has_result (st_script st) (LessThanIntFn os [argv ! 1, argv ! 0] st)" by (intro LessThanIntFn_defined) simp_all
    qed
    then show "f = Fn_GreaterThanInt \<Longrightarrow> ?thesis"
      using st by (simp add: call_fn_def GreaterThanIntFn_def )
  qed
  show ?thesis
    using assms(2) 1 2 3 4 5 6 7 by (auto simp: op_arity_def host_calls_def )
qed

text \<open>
  C30. Every tree over the functions of the host tool with the operator nodes the parser builds, whatever
  its size, evaluates to a defined result (a string or NULL) in every state and system and leaves the
  script as it was, provided each call of \<open>sleep\<close> has an argument and each call of \<open>is_substring\<close> two -
  these two read \<open>argv\<close> without looking at \<open>argc\<close> - and the spans of the arguments of \<open>assert\<close> lie in
  the script it copies them from.
\<close>

theorem Evaluate_defined:
  assumes "shaped host_calls e" and "assert_spans (st_script st) e"
  shows "\<exists>v st'. Evaluate os e st = Some (v, st') \<and> st_script st' = st_script st"
proof -
  have "defined scr (Evaluate os e)" if "shaped host_calls e" "assert_spans scr e" for scr
    using that
  proof (induction e)
    case (Expr f n as s e)
    let ?argv = "map (\<lambda>a. (Evaluate os a, e_start a, e_end a)) as"
    have d: "list_all (\<lambda>a. defined scr (fst a)) ?argv" using Expr by (auto simp: list_all_iff)
    have "op_arity f (length ?argv) \<or> host_calls f (length ?argv)" using Expr.prems(1) by simp
    moreover have "f = Fn_Assert \<longrightarrow> list_all (\<lambda>a. 0 \<le> fst (snd a) \<and> fst (snd a) \<le> snd (snd a) \<and> snd (snd a) \<le> int (length scr)) ?argv"
      using Expr.prems(2) by (simp add: list_all_iff)
    ultimately have "has_result scr (call_fn os f n ?argv st)" if "st_script st = scr" for st using call_defined [of st ?argv] d that by simp
    then show ?case by (simp add: defined_def)
  qed
  from defined_ex [OF this [OF assms] refl] show ?thesis .
qed

theorem Evaluate_defined_witness:
  "\<exists>v st'. Evaluate (sample_os []) (op Fn_Sequence [Expr Fn_Sleep ''sleep'' [lit ''2''] 0 8,
       Expr Fn_Assert ''assert'' [op Fn_Concat []] 0 10]) (sample_state ''assert(concat())'') = Some (v, st') \<and>
     st_script st' = ''assert(concat())''"
  using Evaluate_defined [of "op Fn_Sequence [Expr Fn_Sleep ''sleep'' [lit ''2''] 0 8,
       Expr Fn_Assert ''assert'' [op Fn_Concat []] 0 10]" "sample_state ''assert(concat())''" "sample_os []"]
  by (simp add: op_arity_def host_calls_def sample_state_def)

section \<open>Integer comparison\<close>

lemma isspace_not_digit: "isspace c \<Longrightarrow> digit_val c = None"
  by (auto simp: isspace_def digit_val_def char_code_def)

lemma dec_digits_hd: "\<exists>(d :: nat) r. dec_digits n = char_of (48 + d) # r \<and> d < 10"
proof (induction n rule: dec_digits.induct)
  case (1 n)
  show ?case
  proof (cases "n < 10")
    case True
    then show ?thesis by (subst dec_digits.simps) (auto intro!: exI [of _ n])
  next
    case False
    with 1 obtain d :: nat and r where "dec_digits (n div 10) = char_of (48 + d) # r" "d < 10" by blast
    then have "dec_digits n = char_of (48 + d) # (r @ [char_of (48 + n mod 10)])"
      using False by (subst dec_digits.simps) simp
    then show ?thesis using \<open>d < 10\<close> by blast
  qed
qed

lemma char_of_digit_facts:
  fixes d :: nat
  assumes "d < 10"
  shows "\<not> isspace (char_of (48 + d))" "char_of (48 + d) \<noteq> CHR ''-''" "char_of (48 + d) \<noteq> CHR ''+''"
    "is_digit 10 (char_of (48 + d))"
proof -
  have v: "digit_val (char_of (48 + d)) = Some d" by (rule digit_val_dec [OF assms])
  have n: "digit_val (CHR ''-'') = None" "digit_val (CHR ''+'') = None"
    by (simp_all add: digit_val_def char_code_def)
  show "\<not> isspace (char_of (48 + d))" using v isspace_not_digit by force
  show "char_of (48 + d) \<noteq> CHR ''-''" "char_of (48 + d) \<noteq> CHR ''+''" using v n by force+
  show "is_digit 10 (char_of (48 + d))" using v assms by (simp add: is_digit_def)
qed

lemma strtol_show_int: "strtol lb 10 (show_int i) = (long_saturate lb i, [])"
proof -
  obtain d :: nat and r where h: "dec_digits (nat \<bar>i\<bar>) = char_of (48 + d) # r" "d < 10"
    using dec_digits_hd by blast
  note f = char_of_digit_facts [OF h(2)]
  have dg: "digits_from 10 (char_of (48 + d) # r) 0 = (nat \<bar>i\<bar>, [])"
    using digits_from_dec [of "nat \<bar>i\<bar>"] h(1) by simp
  have sd: "starts_digit 10 (char_of (48 + d) # r)" using f(4) by (simp add: starts_digit_def)
  show ?thesis
  proof (cases "i < 0")
    case True
    then have "show_int i = CHR ''-'' # char_of (48 + d) # r" using h(1) by (simp add: show_int_def)
    moreover have "\<not> isspace (CHR ''-'')" by (simp add: isspace_def)
    ultimately show ?thesis using True dg sd by (simp add: strtol_def base_prefix_def Let_def)
  next
    case False
    then have "show_int i = char_of (48 + d) # r" using h(1) by (simp add: show_int_def)
    then show ?thesis using False f dg sd by (simp add: strtol_def base_prefix_def Let_def)
  qed
qed

lemma show_int_not_Nil: "show_int i \<noteq> []"
  using dec_digits_hd [of "nat i"] by (auto simp: show_int_def)

lemma int_side_show: "int_side os (show_int i) = Some (long_saturate (os_long_bits os) i)"
  by (simp add: int_side_def strtol_show_int show_int_not_Nil)

text \<open>
  C33. \<open>less_than_int\<close> of two decimal numerals compares the numbers, exactly as long as they fit the
  platform's \<open>long\<close>; numbers outside compare as the end of the range they are beyond, so two numbers
  beyond the same end are never less than each other. \<open>greater_than_int\<close> is its mirror image.
\<close>

theorem less_than_int_numerals:
  "Evaluate os (Expr Fn_LessThanInt n [lit (show_int a), lit (show_int b)] s e) st =
     Some (Some (c_bool (long_saturate (os_long_bits os) a < long_saturate (os_long_bits os) b)), st) \<and>
   Evaluate os (Expr Fn_GreaterThanInt n [lit (show_int b), lit (show_int a)] s e) st =
     Some (Some (c_bool (long_saturate (os_long_bits os) a < long_saturate (os_long_bits os) b)), st) \<and>
   (\<bar>a\<bar> < 2 ^ (os_long_bits os - 1) \<longrightarrow> \<bar>b\<bar> < 2 ^ (os_long_bits os - 1) \<longrightarrow>
     (long_saturate (os_long_bits os) a < long_saturate (os_long_bits os) b \<longleftrightarrow> a < b))"
proof -
  have "\<bar>x\<bar> < 2 ^ (os_long_bits os - 1) \<Longrightarrow> long_saturate (os_long_bits os) x = x" for x
    by (auto simp: long_saturate_def)
  then show ?thesis
    by (simp add: call_fn_def LessThanIntFn_def GreaterThanIntFn_def Literal_def ret_def int_side_show
        numeral_2_eq_2)
qed

theorem less_than_int_numerals_witness:
  "Evaluate (sample_os []) (Expr Fn_LessThanInt ''less_than_int'' [lit (show_int 3), lit (show_int 14)] 0 9)
     (sample_state []) = Some (Some ''t'', sample_state [])"
proof -
  have "os_long_bits (sample_os []) = 32" by (simp add: sample_os_def)
  then show ?thesis
    using less_than_int_numerals [of "sample_os []" "''less_than_int''" 3 14 0 9 "sample_state []"]
    by (simp add: c_bool_def)
qed

end
