(* ===== verification/EdifyDeviceProofs.thy ===== *)
theory EdifyDeviceProofs
  imports EdifyEvalProofs
begin

text \<open>
  Properties of the device functions and of the two programs: the lines \<open>ui_print\<close> sends, the value
  \<open>getcfg\<close> reads back from a configuration file, which processes \<open>kill_process\<close> signals, and that a
  script with a parse error is not run.
\<close>

section \<open>The configuration file\<close>

text \<open>A configuration file as one would write it: \<open>key = value\<close> lines.\<close>

definition cfg_text :: "(string \<times> string) list \<Rightarrow> string" where
  "cfg_text kvs = concat (map (\<lambda>(k, v). k @ '' = '' @ v @ [CHR 0x0A]) kvs)"

definition plain_key :: "string \<Rightarrow> bool" where
  "plain_key k \<longleftrightarrow> k \<noteq> [] \<and> (\<forall>c \<in> set k. c \<noteq> NUL \<and> c \<noteq> CHR ''='' \<and> \<not> isspace c) \<and> hd k \<noteq> CHR ''#''"

definition plain_value :: "string \<Rightarrow> bool" where
  "plain_value v \<longleftrightarrow> (\<forall>c \<in> set v. c \<noteq> NUL \<and> c \<noteq> CHR 0x0A) \<and>
     (v \<noteq> [] \<longrightarrow> \<not> isspace (hd v) \<and> \<not> isspace (last v))"

lemma newline_space: "isspace (CHR 0x0A)" "isspace (CHR '' '')" "\<not> isspace (CHR ''='')"
  by (simp_all add: isspace_def)

lemma strtok_lines_line:
  assumes "l \<noteq> []" and "CHR 0x0A \<notin> set l"
  shows "strtok_lines (l @ CHR 0x0A # r) = l # strtok_lines r"
proof -
  let ?nl = "CHR 0x0A"
  have hd: "dropWhile (\<lambda>c. c = ?nl) (l @ ?nl # r) = l @ ?nl # r"
    using assms by (cases l) auto
  obtain c cs where l: "l = c # cs" using assms(1) by (cases l) auto
  have tk: "takeWhile (\<lambda>c. c \<noteq> ?nl) (l @ ?nl # r) = l"
    using assms(2) by (intro takeWhile_append_stop) auto
  have dr: "dropWhile (\<lambda>c. c \<noteq> ?nl) (l @ ?nl # r) = ?nl # r"
    using assms(2) by (intro dropWhile_append_stop) auto
  have nl: "strtok_lines (?nl # r) = strtok_lines r"
    by (subst (1 2) strtok_lines.simps) simp
  show ?thesis
    by (subst strtok_lines.simps) (use hd tk dr nl in \<open>simp add: l\<close>)
qed

lemma strtok_cfg:
  "list_all (\<lambda>(k, v). plain_key k \<and> plain_value v) kvs \<Longrightarrow>
   strtok_lines (cfg_text kvs) = map (\<lambda>(k, v). k @ '' = '' @ v) kvs"
proof (induction kvs)
  case Nil
  then show ?case by (subst strtok_lines.simps) (simp add: cfg_text_def)
next
  case (Cons kv kvs)
  obtain k v where kv: "kv = (k, v)" by (cases kv)
  have "CHR 0x0A \<notin> set (k @ '' = '' @ v)"
    using Cons.prems newline_space by (auto simp: kv plain_key_def plain_value_def)
  moreover have "cfg_text (kv # kvs) = (k @ '' = '' @ v) @ CHR 0x0A # cfg_text kvs"
    by (simp add: cfg_text_def kv)
  ultimately show ?case
    using Cons strtok_lines_line [of "k @ '' = '' @ v" "cfg_text kvs"] by (simp add: kv)
qed

lemma trim_end_plain: "plain_value v \<Longrightarrow> trim_end v = v"
proof (cases v)
  case (Cons c cs)
  assume p: "plain_value v"
  have "dropWhile isspace (rev cs) = rev cs"
    using p Cons by (cases cs rule: rev_cases) (auto simp: plain_value_def)
  then show ?thesis by (simp add: trim_end_def Cons)
qed (simp add: trim_end_def)

lemma trim_end_key: "plain_key k \<Longrightarrow> trim_end (k @ '' '') = k"
proof (cases k)
  case (Cons c cs)
  assume p: "plain_key k"
  have "dropWhile isspace (CHR '' '' # rev cs) = rev cs"
    using p Cons newline_space by (cases cs rule: rev_cases) (auto simp: plain_key_def)
  then show ?thesis by (simp add: trim_end_def Cons)
qed (simp add: plain_key_def)

lemma cfg_line_plain:
  assumes "plain_key k" and "plain_value v"
  shows "cfg_line key (k @ '' = '' @ v) = (if key = k then Cfg_found v else Cfg_next)"
proof -
  obtain c cs where k: "k = c # cs" using assms(1) by (cases k) (auto simp: plain_key_def)
  have ns: "\<not> isspace c" "c \<noteq> CHR ''#''" using assms(1) k by (auto simp: plain_key_def)
  have tw: "takeWhile (\<lambda>c. c \<noteq> CHR ''='') (k @ '' = '' @ v) = k @ '' ''"
    using assms(1) takeWhile_append_stop [of "k @ '' ''" "\<lambda>c. c \<noteq> CHR ''=''" "CHR ''=''" "'' '' @ v"]
    by (auto simp: plain_key_def)
  have dw: "dropWhile (\<lambda>c. c \<noteq> CHR ''='') (k @ '' = '' @ v) = ''= '' @ v"
    using assms(1) dropWhile_append_stop [of "k @ '' ''" "\<lambda>c. c \<noteq> CHR ''=''" "CHR ''=''" "'' '' @ v"]
    by (auto simp: plain_key_def)
  have vl: "dropWhile isspace ('' '' @ v) = v"
    using assms(2) newline_space by (cases v) (auto simp: plain_value_def)
  have sp: "dropWhile isspace (k @ '' = '' @ v) = k @ '' = '' @ v" using ns by (simp add: k)
  show ?thesis
    unfolding cfg_line_def Let_def sp tw dw
    using ns vl trim_end_key [OF assms(1)] trim_end_plain [OF assms(2)] by (simp add: k)
qed

lemma cfg_lines_plain:
  "list_all (\<lambda>(k, v). plain_key k \<and> plain_value v) kvs \<Longrightarrow>
   cfg_lines key (map (\<lambda>(k, v). k @ '' = '' @ v) kvs) =
     (case map_of kvs key of None \<Rightarrow> Cfg_next | Some v \<Rightarrow> Cfg_found v)"
proof (induction kvs)
  case (Cons kv kvs)
  obtain k v where "kv = (k, v)" by (cases kv)
  with Cons show ?case using cfg_line_plain [of k v key] by simp
qed simp

lemma cfg_no_nul:
  "list_all (\<lambda>(k, v). plain_key k \<and> plain_value v) kvs \<Longrightarrow> NUL \<notin> set (cfg_text kvs)"
proof (induction kvs)
  case (Cons kv kvs)
  obtain k v where kv: "kv = (k, v)" by (cases kv)
  have "NUL \<notin> set k" "NUL \<notin> set v"
    using Cons.prems by (auto simp: kv plain_key_def plain_value_def)
  moreover have "cfg_text (kv # kvs) = k @ '' = '' @ v @ CHR 0x0A # cfg_text kvs"
    by (simp add: cfg_text_def kv)
  ultimately show ?case using Cons by simp
qed (simp add: cfg_text_def)

text \<open>
  \<open>getcfg\<close> reads back what a configuration file says: for a file of \<open>key = value\<close> lines (of at
  most 65536 bytes and at least one line) it returns the value of the first line with the key, or
  the empty string when there is none, and changes nothing.
\<close>

theorem getcfg_lookup:
  assumes "kvs \<noteq> []" and "list_all (\<lambda>(k, v). plain_key k \<and> plain_value v) kvs"
    and "os_fopen_r os CFG_FILE (st_world st) = Some (cfg_text kvs)"
    and "os_stat_size os CFG_FILE (st_world st) = Some (int (length (cfg_text kvs)))"
    and "int (length (cfg_text kvs)) \<le> MAX_FILE_GETPROP_SIZE"
  shows "Evaluate os (Expr Fn_GetCfg n [lit key] s e) st =
     Some (Some (case map_of kvs key of None \<Rightarrow> [] | Some v \<Rightarrow> v), st)"
proof -
  have c: "cstr (cfg_text kvs) = cfg_text kvs" by (rule cstr_id [OF cfg_no_nul [OF assms(2)]])
  have ls: "strtok_lines (cfg_text kvs) \<noteq> []" using strtok_cfg [OF assms(2)] assms(1) by simp
  have "cfg_lines key (strtok_lines (cfg_text kvs)) =
      (case map_of kvs key of None \<Rightarrow> Cfg_next | Some v \<Rightarrow> Cfg_found v)"
    using cfg_lines_plain [OF assms(2)] strtok_cfg [OF assms(2)] by simp
  then show ?thesis
    using assms(3-5) c ls
    by (cases "map_of kvs key")
       (simp_all add: call_fn_def GetCfgFn_def with_args1_def Literal_def ret_def Let_def)
qed

theorem getcfg_lookup_witness:
  "Evaluate (sample_os [(CFG_FILE, cfg_text [(''ssid'', ''mesh''), (''ip'', ''10.0.0.1'')])])
     (Expr Fn_GetCfg ''getcfg'' [lit ''ip''] 0 9) (sample_state []) = Some (Some ''10.0.0.1'', sample_state [])"
proof -
  let ?kvs = "[(''ssid'', ''mesh''), (''ip'', ''10.0.0.1'')]"
  have "list_all (\<lambda>(k, v). plain_key k \<and> plain_value v) ?kvs"
    by (simp add: plain_key_def plain_value_def isspace_def)
  moreover have "int (length (cfg_text ?kvs)) \<le> MAX_FILE_GETPROP_SIZE"
    by (simp add: cfg_text_def MAX_FILE_GETPROP_SIZE_def)
  ultimately show ?thesis
    using getcfg_lookup [of ?kvs "sample_os [(CFG_FILE, cfg_text ?kvs)]" "sample_state []" "''getcfg''" "''ip''" 0 9]
    by (simp add: sample_os_def)
qed

section \<open>Messages to the recovery console\<close>

text \<open>One command line of the pipe.\<close>

definition pipe_line :: "string \<Rightarrow> string" where
  "pipe_line l = ''ui_print '' @ l @ [CHR 0x0A]"

lemma print_lines_eq: "print_lines ls = concat (map pipe_line ls)"
  by (induction ls) (simp_all add: pipe_line_def)

text \<open>The lines of a text: what stands between its newlines, before the first and behind the last.\<close>

fun split_lines :: "string \<Rightarrow> string list" where
  "split_lines [] = [[]]"
| "split_lines (c # s) =
     (if c = CHR 0x0A then [] # split_lines s
      else (case split_lines s of [] \<Rightarrow> [[c]] | l # ls \<Rightarrow> (c # l) # ls))"

lemma split_lines_Cons: "\<exists>l ls. split_lines s = l # ls"
  by (cases s) (auto split: list.splits)

lemma split_lines_join: "CHR 0x0A \<notin> set l \<Longrightarrow> split_lines (l @ CHR 0x0A # s) = l # split_lines s"
  by (induction l) auto

lemma split_lines_last: "CHR 0x0A \<notin> set l \<Longrightarrow> split_lines l = [l]"
  by (induction l) auto

lemma strtok_lines_nl: "strtok_lines (CHR 0x0A # s) = strtok_lines s"
  by (subst (1 2) strtok_lines.simps) simp

lemma strtok_lines_plain: "l \<noteq> [] \<Longrightarrow> CHR 0x0A \<notin> set l \<Longrightarrow> strtok_lines l = [l]"
proof -
  assume l: "l \<noteq> []" "CHR 0x0A \<notin> set l"
  then obtain c cs where c: "l = c # cs" by (cases l) auto
  have "takeWhile (\<lambda>c. c \<noteq> CHR 0x0A) l = l" "dropWhile (\<lambda>c. c \<noteq> CHR 0x0A) l = []" using l(2) by (auto simp: takeWhile_eq_all_conv)
  moreover have "strtok_lines [] = []" by (subst strtok_lines.simps) simp
  moreover have "dropWhile (\<lambda>c. c = CHR 0x0A) l = l" using l(2) c by auto
  ultimately show ?thesis using c by (subst strtok_lines.simps) simp
qed

text \<open>\<open>strtok\<close> with the newline as its only delimiter yields the lines that are not empty.\<close>

lemma strtok_lines_split: "strtok_lines s = filter (\<lambda>l. l \<noteq> []) (split_lines s)"
proof (induction "length s" arbitrary: s rule: less_induct)
  case less
  show ?case
  proof (cases "CHR 0x0A \<in> set s")
    case True
    then obtain l r where s: "s = l @ CHR 0x0A # r" "CHR 0x0A \<notin> set l" by (meson split_list_first)
    have "strtok_lines r = filter (\<lambda>l. l \<noteq> []) (split_lines r)" by (rule less) (simp add: s(1))
    then show ?thesis using split_lines_join [OF s(2)] strtok_lines_line [of l r] strtok_lines_nl [of r] s by (cases "l = []") simp_all
  next
    case False
    moreover have "strtok_lines [] = []" by (subst strtok_lines.simps) simp
    ultimately show ?thesis using split_lines_last [OF False] strtok_lines_plain [of s] by (cases "s = []") simp_all
  qed
qed

lemma ReadVarArgs_literals:
  "ReadVarArgs (map (\<lambda>x. (Evaluate os (lit x), e_start (lit x), e_end (lit x))) xs) st = Some (Some xs, st)"
  by (induction xs) (simp_all add: call_fn_def Literal_def ret_def)

text \<open>
  C34. What \<open>ui_print\<close> sends through the command pipe is, for any message, exactly its lines that are
  not empty, in order, each as one \<open>ui_print\<close> command, and a closing \<open>ui_print\<close>: no message can start
  another command, since no line has a newline in it. The result is the message as \<open>strtok\<close> leaves it,
  cut at the end of its first non-empty line; nothing else of the state changes.
\<close>

theorem ui_print_protocol:
  assumes "st_cookie st = Some ui"
  shows "Evaluate os (Expr Fn_UIPrint n (map lit msgs) s e) st =
       Some (Some (strtok_left (concat msgs)),
             st\<lparr>st_pipe := st_pipe st @ concat (map pipe_line (filter (\<lambda>l. l \<noteq> []) (split_lines (concat msgs)))) @ ''ui_print'' @ [CHR 0x0A]\<rparr>)"
  using ReadVarArgs_literals [of os msgs st] assms
  by (simp add: call_fn_def UIPrintFn_def to_pipe_def ret_def print_lines_eq comp_def Let_def strtok_lines_split)

theorem ui_print_protocol_witness:
  "\<exists>r st. Evaluate (sample_os []) (Expr Fn_UIPrint ''ui_print'' (map lit [''on'', [CHR 0x0A, CHR 0x0A], ''off'']) 0 9) (sample_state []) = Some (r, st) \<and>
     st_pipe st = st_pipe (sample_state []) @ ''ui_print on'' @ [CHR 0x0A] @ ''ui_print off'' @ [CHR 0x0A] @ ''ui_print'' @ [CHR 0x0A]"
proof -
  have "st_cookie (sample_state []) \<noteq> None" by (simp add: sample_state_def)
  then obtain ui where "st_cookie (sample_state []) = Some ui" by blast
  from ui_print_protocol [OF this, of "sample_os []" "''ui_print''" "[''on'', [CHR 0x0A, CHR 0x0A], ''off'']" 0 9]
  show ?thesis by (simp add: pipe_line_def)
qed

section \<open>The white list\<close>

text \<open>
  C35. \<open>whitelist_macs\<close> of a file whose first line is a full MAC address (17 characters, no white
  space) has no defined result: the command it prints needs 111 bytes of a buffer of 100.
\<close>

theorem whitelist_macs_overflows:
  assumes "length mac = 17" and "\<forall>c \<in> set mac. \<not> isspace c \<and> c \<noteq> NUL"
    and "os_fopen_r os file (st_world st) = Some (mac @ CHR 0x0A # others)"
  shows "Evaluate os (Expr Fn_WhiteListMacs n [lit file] s e) st = None"
proof -
  let ?l = "mac @ [CHR 0x0A]"
  have ft: "length m \<le> k \<Longrightarrow> CHR 0x0A \<notin> set m \<Longrightarrow> fgets_take (Suc k) (m @ CHR 0x0A # others) = (m @ [CHR 0x0A], others)"
    for m k
    by (induction m arbitrary: k) (auto simp: Suc_le_eq dest!: less_imp_Suc_add split: prod.splits)
  have nl: "CHR 0x0A \<notin> set mac" using assms(2) newline_space by auto
  have "fgets_take 19 (mac @ CHR 0x0A # others) = (?l, others)"
    using ft [of mac 18] nl assms(1) by simp
  then have chunks: "fgets_all 20 (mac @ CHR 0x0A # others) = ?l # fgets_all 20 others"
    by (subst fgets_all.simps) simp
  have "cstr ?l = ?l" using assms(2) by (intro cstr_id) auto
  moreover have "scan_word ?l = Some (mac, [CHR 0x0A])"
  proof -
    have "dropWhile isspace ?l = ?l" using assms(1,2) by (cases mac) auto
    then show ?thesis
      using assms(2) newline_space(1) assms(1)
      by (auto simp: scan_word_def takeWhile_append2 dropWhile_append2)
  qed
  ultimately have "whitelist_loop os (?l # fgets_all 20 others) w = None" for w
    using assms(1) by (simp add: ensure_def whitelist_command_def)
  then show ?thesis
    using chunks assms(3)
    by (simp add: call_fn_def WhiteListMacsFn_def with_args1_def Literal_def ret_def file_exists_def)
qed

theorem whitelist_macs_overflows_witness:
  "Evaluate (sample_os [(''macs'', ''00:11:22:33:44:55'' @ [CHR 0x0A])])
     (Expr Fn_WhiteListMacs ''whitelist_macs'' [lit ''macs''] 0 9) (sample_state []) = None"
  by (rule whitelist_macs_overflows [of "''00:11:22:33:44:55''" _ _ _ "[]"])
     (simp_all add: sample_os_def isspace_def)

section \<open>The driver\<close>

text \<open>The run of a script, told without the scanner and the parser: the tree and its evaluation.\<close>

definition runs :: "'w os \<Rightarrow> string list \<Rightarrow> string \<Rightarrow> 'w \<Rightarrow> int \<Rightarrow> 'w est \<Rightarrow> bool" where
  "runs os argv script w code st \<longleftrightarrow>
     (\<exists>reg l ts x l' e out. device_registry = Some reg \<and> yy_scan_string script lexer_init = Some l \<and>
        reads l (ts @ [(0, x)]) l' \<and> gexpr reg ts (strip e) \<and>
        run_script os argv script e out w = Some (code, st))"

lemma report_code: "report r st = (code, st') \<Longrightarrow> code = (if r = None then 7 else 0)"
  by (auto simp: report_def split: option.splits)

lemma run_script_code:
  assumes "run_script os argv script e out w = Some (code, st)"
  shows "code = 0 \<or> code = 7"
proof -
  obtain r st' where "report r st' = (code, st)"
    using assms
    by (cases "os_fopen_w os LOG_NAME w") (auto simp: run_script_def option_bind_Some_iff)
  from report_code [OF this] show ?thesis by simp
qed

text \<open>
  C2. The device driver runs nothing but a script that parsed: for an installed script whose
  literals fit, either it exits with 6, no function was called, nothing was sent through the pipe
  or written to the log and the world is as it was, or the tokens of the whole script form a
  sentence of the grammar, the tree evaluated is the one the grammar derives, and the exit status is
  0 or 7 as its evaluation returned a value or NULL.
\<close>

theorem adhoc_main_runs_parsed_scripts:
  assumes "load_script os w = Loaded script" and "NUL \<notin> set script" and "\<not> overflows 1 script 0"
    and "adhoc_main os argv w = Some (code, st)"
  shows "code = 6 \<and> st_world st = w \<and> st_pipe st = [] \<and> st_log st = [] \<or>
     (code = 0 \<or> code = 7) \<and> runs os argv script w code st"
proof -
  have start: "yy_start lexer_init = 1" "string_buffer lexer_init = []" by (simp_all add: lexer_init_def)
  obtain l where l: "yy_scan_string script lexer_init = Some l" "lexer_on script l" "fits l"
    using yy_scan_string_on [OF assms(2), of lexer_init] start assms(3) by (auto simp: fits_def)
  obtain reg k p where r: "device_registry = Some reg" "yyparse reg None 0 l = Some (k, p)"
      and res: "(if k \<noteq> 0 \<or> p_error_count p > 0
         then Some (6, (fresh_state None script (p_out p) w)
                \<lparr>st_stderr := show_int (p_error_count p) @ '' parse errors'' @ [CHR 0x0A]\<rparr>)
         else do { root \<leftarrow> p_root p; run_script os argv script root (p_out p) w }) = Some (code, st)"
    using assms(1,4) l(1)
    by (auto simp: adhoc_main_def Let_def option_bind_Some_iff split: if_splits)
  have reg: "registry_ok reg" using device_registry_safe [OF r(1)] by (simp add: registry_ok_def)
  show ?thesis
  proof (cases "k \<noteq> 0 \<or> p_error_count p > 0")
    case True
    then show ?thesis using res by (auto simp: fresh_state_def)
  next
    case False
    have "0 \<le> p_error_count p" using yyparse_errors [OF reg l(2,3) r(2)] .
    then have "parsed reg l p" using False r(2) by (intro parse_reads [OF reg l(2,3)]) auto
    then obtain ts x e where p: "reads l (ts @ [(0, x)]) (p_lexer p)" "p_root p = Some e" "gexpr reg ts (strip e)"
      by (auto simp: parsed_def)
    then have run: "run_script os argv script e (p_out p) w = Some (code, st)" using res False by simp
    show ?thesis using r(1) l(1) p run run_script_code [OF run] unfolding runs_def by blast
  qed
qed

theorem adhoc_main_runs_parsed_scripts_witness:
  "\<exists>st. adhoc_main (sample_os [(SCRIPT_NAME, ''ui_print(on)'')]) [''adhoc'', ''start'', ''3''] [] = Some (0, st) \<and>
     runs (sample_os [(SCRIPT_NAME, ''ui_print(on)'')]) [''adhoc'', ''start'', ''3''] ''ui_print(on)'' [] 0 st"
proof -
  let ?os = "sample_os [(SCRIPT_NAME, ''ui_print(on)'')]" and ?argv = "[''adhoc'', ''start'', ''3'']"
  have "map_option fst (adhoc_main ?os ?argv []) = Some 0" by code_simp
  then obtain st where st: "adhoc_main ?os ?argv [] = Some (0, st)" by auto
  have "load_script ?os [] = Loaded ''ui_print(on)''" by (simp add: load_script_def sample_os_def)
  moreover have "\<not> overflows 1 ''ui_print(on)'' 0" by (rule overflows_short) (simp add: MAX_STRING_LEN_def)
  ultimately have "runs ?os ?argv ''ui_print(on)'' [] 0 st"
    using adhoc_main_runs_parsed_scripts [OF _ _ _ st] by fastforce
  with st show ?thesis by blast
qed

end
