(* ===== verification/EdifyLexRules.thy ===== *)
theory EdifyLexRules
  imports EdifyLexSpec
begin

text \<open>
  The scanner against lexer.l. The patterns of lexer.l are predicates on a token, flex's choice among
  them - the longest token, of the rules that match it the first - is \<open>longest_match\<close>, and the
  table-driven loop of lex.yy.c makes that choice at every position of every script.
\<close>

section \<open>The rules of lexer.l\<close>

datatype lexer_rule =
    R_open | R_close | R_escape_n | R_escape_t | R_escape_quote | R_escape_backslash | R_escape_hex
  | R_line_end | R_carriage_return | R_string_char | R_if | R_then | R_else | R_endif | R_word
  | R_and | R_or | R_eq | R_ne | R_operator | R_blank | R_line | R_bad

definition lexer_rules :: "lexer_rule list" where
  "lexer_rules =
     [R_open, R_close, R_escape_n, R_escape_t, R_escape_quote, R_escape_backslash, R_escape_hex,
      R_line_end, R_carriage_return, R_string_char, R_if, R_then, R_else, R_endif, R_word,
      R_and, R_or, R_eq, R_ne, R_operator, R_blank, R_line, R_bad]"

text \<open>The rules inside \<open><STR>{ ... }\<close>; \<open>STR\<close> is exclusive, and its entry of the tables is 3.\<close>

definition in_string :: "lexer_rule \<Rightarrow> bool" where
  "in_string r \<longleftrightarrow> r \<in> {R_close, R_escape_n, R_escape_t, R_escape_quote, R_escape_backslash, R_escape_hex,
     R_line_end, R_carriage_return, R_string_char}"

fun pattern :: "lexer_rule \<Rightarrow> string \<Rightarrow> bool" where
  "pattern R_open w = (w = [CHR 0x22])"
| "pattern R_close w = (w = [CHR 0x22])"
| "pattern R_escape_n w = (w = [CHR 0x5C, CHR ''n''])"
| "pattern R_escape_t w = (w = [CHR 0x5C, CHR ''t''])"
| "pattern R_escape_quote w = (w = [CHR 0x5C, CHR 0x22])"
| "pattern R_escape_backslash w = (w = [CHR 0x5C, CHR 0x5C])"
| "pattern R_escape_hex w = (length w = 4 \<and> take 2 w = [CHR 0x5C, CHR ''x''] \<and> is_xdigit (w ! 2) \<and> is_xdigit (w ! 3))"
| "pattern R_line_end w = (w = [CHR 0x0A] \<or> w = [CHR 0x0D, CHR 0x0A])"
| "pattern R_carriage_return w = (w = [CHR 0x0D])"
| "pattern R_string_char w = (length w = 1 \<and> w \<noteq> [CHR 0x0A])"
| "pattern R_if w = (w = ''if'')"
| "pattern R_then w = (w = ''then'')"
| "pattern R_else w = (w = ''else'')"
| "pattern R_endif w = (w = ''endif'')"
| "pattern R_word w = (w \<noteq> [] \<and> list_all is_word w)"
| "pattern R_and w = (w = ''&&'')"
| "pattern R_or w = (w = ''||'')"
| "pattern R_eq w = (w = ''=='')"
| "pattern R_ne w = (w = ''!='')"
| "pattern R_operator w = (length w = 1 \<and> hd w \<in> set ''+(),!;'')"
| "pattern R_blank w = (w \<noteq> [] \<and> list_all is_blank w)"
| "pattern R_line w = (w \<noteq> [] \<and> last w = CHR 0x0A \<and> CHR 0x0A \<notin> set (butlast w) \<and> (butlast w = [] \<or> hd w = CHR ''#''))"
| "pattern R_bad w = (length w = 1 \<and> w \<noteq> [CHR 0x0A])"

definition matches :: "nat \<Rightarrow> lexer_rule \<Rightarrow> string \<Rightarrow> bool" where
  "matches start r w \<longleftrightarrow> in_string r = (start = 3) \<and> pattern r w"

definition rule_pos :: "lexer_rule \<Rightarrow> nat" where
  "rule_pos r = length (takeWhile (\<lambda>r'. r' \<noteq> r) lexer_rules)"

definition longest_match :: "nat \<Rightarrow> string \<Rightarrow> lexer_rule \<Rightarrow> nat \<Rightarrow> bool" where
  "longest_match start xs r k \<longleftrightarrow> k \<le> length xs \<and> matches start r (take k xs) \<and>
     (\<forall>k' \<in> set [0..<Suc (length xs)]. \<forall>r' \<in> set lexer_rules. matches start r' (take k' xs) \<longrightarrow>
        k' < k \<or> k' = k \<and> rule_pos r \<le> rule_pos r')"

text \<open>
  The case of \<open>yy_action\<close> a rule has become in lex.yy.c. The bare carriage return of a literal has none:
  lex.yy.c was generated from a lexer.l without that rule, and the character is left to the rule behind it.
\<close>

fun yy_case :: "lexer_rule \<Rightarrow> nat" where
  "yy_case R_carriage_return = 9"
| "yy_case R_open = 1" | "yy_case R_close = 2" | "yy_case R_escape_n = 3" | "yy_case R_escape_t = 4"
| "yy_case R_escape_quote = 5" | "yy_case R_escape_backslash = 6" | "yy_case R_escape_hex = 7"
| "yy_case R_line_end = 8" | "yy_case R_string_char = 9" | "yy_case R_if = 10" | "yy_case R_then = 11"
| "yy_case R_else = 12" | "yy_case R_endif = 13" | "yy_case R_word = 14" | "yy_case R_and = 15"
| "yy_case R_or = 16" | "yy_case R_eq = 17" | "yy_case R_ne = 18" | "yy_case R_operator = 19"
| "yy_case R_blank = 20" | "yy_case R_line = 21" | "yy_case R_bad = 22"

lemma rule_pos_nth: "lexer_rules ! rule_pos r = r"
  by (cases r) (simp_all add: rule_pos_def lexer_rules_def)

lemma rule_pos_inj: "rule_pos r = rule_pos r' \<Longrightarrow> r = r'"
  by (metis rule_pos_nth)

lemma all_rules: "r \<in> set lexer_rules"
  by (cases r) (simp_all add: lexer_rules_def)

text \<open>At most one rule and length are the longest match.\<close>

lemma longest_match_unique:
  assumes "longest_match start xs r k" and "longest_match start xs r' k'"
  shows "r = r' \<and> k = k'"
proof -
  have k: "k \<in> set [0..<Suc (length xs)]" "k' \<in> set [0..<Suc (length xs)]" using assms unfolding longest_match_def set_upt by auto
  have "k < k' \<or> k = k' \<and> rule_pos r' \<le> rule_pos r" "k' < k \<or> k' = k \<and> rule_pos r \<le> rule_pos r'"
    using assms k all_rules unfolding longest_match_def by blast+
  then show ?thesis using rule_pos_inj [of r r'] by auto
qed

section \<open>The longest match\<close>

lemma longest_matchI:
  assumes "xs = w @ ys" and "matches start r w"
    and "\<And>r' w' zs. xs = w' @ zs \<Longrightarrow> matches start r' w' \<Longrightarrow> length w' < length w \<or> length w' = length w \<and> rule_pos r \<le> rule_pos r'"
  shows "longest_match start xs r (length w)"
  unfolding longest_match_def
proof (intro conjI ballI impI)
  show "length w \<le> length xs" "matches start r (take (length w) xs)" using assms(1,2) by simp_all
  fix k' r' assume k': "k' \<in> set [0..<Suc (length xs)]" and m: "matches start r' (take k' xs)"
  have "length (take k' xs) = k'" using k' unfolding set_upt by simp
  then show "k' < length w \<or> k' = length w \<and> rule_pos r \<le> rule_pos r'"
    using assms(3) [OF append_take_drop_id [symmetric] m] by simp
qed

lemma prefix_takeWhile: "xs = w @ zs \<Longrightarrow> list_all P w \<Longrightarrow> length w \<le> length (takeWhile P xs)"
  by (simp add: list_all_iff takeWhile_append2)

lemma prefix_same: "xs = w @ ys \<Longrightarrow> xs = w' @ zs \<Longrightarrow> length w' = length w \<Longrightarrow> w' = w"
  by (metis append_eq_append_conv)

lemma is_word_codes:
  "is_word CHR ''i''" "is_word CHR ''f''" "is_word CHR ''t''" "is_word CHR ''h''" "is_word CHR ''e''" "is_word CHR ''n''"
  "is_word CHR ''l''" "is_word CHR ''s''" "is_word CHR ''d''"
  "\<not> is_word CHR ''+''" "\<not> is_word CHR ''(''" "\<not> is_word CHR '')''" "\<not> is_word CHR '',''" "\<not> is_word CHR '';''"
  by (simp_all add: is_word_def char_code_def Let_def)

lemmas not_words = char_not_word is_word_codes(10-)

lemma word_first: "is_word c \<Longrightarrow> c \<notin> set ''+(),!;'' \<and> c \<noteq> CHR 0x22 \<and> \<not> is_blank c \<and> c \<noteq> CHR 0x0A \<and> c \<noteq> CHR ''#'' \<and>
    c \<noteq> CHR ''&'' \<and> c \<noteq> CHR ''|'' \<and> c \<noteq> CHR ''=''"
  using not_words by (auto simp: is_blank_def)

lemma all_takeWhile: "list_all P (takeWhile P xs)"
  unfolding list_all_iff by (blast dest: set_takeWhileD)

lemma word_pattern:
  assumes "pattern r (c # u)" and "\<not> in_string r" and "is_word c"
  shows "r \<in> {R_if, R_then, R_else, R_endif, R_word, R_bad} \<and> (r = R_bad \<longrightarrow> u = [])"
proof -
  have c: "c \<noteq> CHR 0x22" "c \<noteq> CHR ''&''" "c \<noteq> CHR ''|''" "c \<noteq> CHR ''=''" "c \<noteq> CHR ''!''" "c \<notin> set ''+(),!;''" "\<not> is_blank c"
    "c \<noteq> CHR 0x0A" "c \<noteq> CHR ''#''" using word_first [OF assms(3)] char_not_word(9) assms(3) by blast+
  show ?thesis using assms(1,2) c by (cases r; cases u; simp add: in_string_def)
qed

lemma longest_word:
  assumes "is_word c" and w: "w = takeWhile is_word (c # cs)"
  shows "\<exists>r. longest_match 1 (c # cs) r (length w) \<and> yy_case r = keyword_rule w"
proof -
  define r where "r = (if w = ''if'' then R_if else if w = ''then'' then R_then else if w = ''else'' then R_else
    else if w = ''endif'' then R_endif else R_word)"
  have all: "list_all is_word w" unfolding w by (rule all_takeWhile)
  have ne: "w \<noteq> []" "0 < length w" using assms by simp_all
  have xs: "c # cs = w @ dropWhile is_word (c # cs)" unfolding w by (rule takeWhile_dropWhile_id [symmetric])
  have "longest_match 1 (c # cs) r (length w)"
  proof (rule longest_matchI [OF xs])
    show "matches 1 r w" using all ne(1) by (simp add: matches_def r_def in_string_def)
    fix r' w' zs assume w': "c # cs = w' @ zs" and "matches 1 r' w'"
    then have p: "pattern r' w'" "\<not> in_string r'" by (simp_all add: matches_def)
    have "w' \<noteq> []" using p(1) by (cases r') auto
    then obtain u where u: "w' = c # u" using w' by (cases w') auto
    note r' = word_pattern [OF p(1) [unfolded u] p(2) assms(1)]
    then have one: "length w' = 1 \<or> list_all is_word w'" using p(1) u by (elim conjE insertE; simp add: is_word_codes)
    have "length w' \<le> length w"
    proof (cases "list_all is_word w'")
      case True
      then show ?thesis unfolding w by (rule prefix_takeWhile [OF w'])
    next
      case False
      then show ?thesis using ne(2) one by linarith
    qed
    moreover have "rule_pos r \<le> rule_pos r'" if "length w' = length w"
    proof -
      have "w' = w" by (rule prefix_same [OF xs w' that])
      then have "pattern r' w" using p(1) by simp
      then show ?thesis using r' by (elim conjE insertE; simp add: r_def rule_pos_def lexer_rules_def)
    qed
    ultimately show "length w' < length w \<or> length w' = length w \<and> rule_pos r \<le> rule_pos r'" by linarith
  qed
  moreover have "yy_case r = keyword_rule w" unfolding r_def keyword_rule_def by simp
  ultimately show ?thesis by blast
qed

lemma pattern_nonempty: "pattern r w \<Longrightarrow> w \<noteq> []"
  by (cases r) auto

text \<open>What a pattern of the initial condition that does not begin with a word character begins with.\<close>

lemma initial_pattern:
  assumes "pattern r (c # u)" and "\<not> in_string r" and "\<not> is_word c"
  shows "(r = R_open \<and> c = CHR 0x22 \<and> u = []) \<or> (r = R_and \<and> c = CHR ''&'' \<and> u = ''&'') \<or> (r = R_or \<and> c = CHR ''|'' \<and> u = ''|'') \<or>
    (r = R_eq \<and> c = CHR ''='' \<and> u = ''='') \<or> (r = R_ne \<and> c = CHR ''!'' \<and> u = ''='') \<or> (r = R_operator \<and> c \<in> set ''+(),!;'' \<and> u = []) \<or>
    (r = R_blank \<and> is_blank c \<and> list_all is_blank u) \<or> (r = R_line \<and> (c = CHR 0x0A \<and> u = [] \<or> c = CHR ''#'' \<and> (\<exists>v. u = v @ [CHR 0x0A] \<and> CHR 0x0A \<notin> set v))) \<or>
    (r = R_bad \<and> u = [] \<and> c \<noteq> CHR 0x0A)"
proof (cases "r = R_line")
  case True
  then have l: "last (c # u) = CHR 0x0A" "CHR 0x0A \<notin> set (butlast (c # u))" "butlast (c # u) = [] \<or> c = CHR ''#''" using assms(1) by simp_all
  show ?thesis
  proof (cases "u = []")
    case False
    then have u: "last u = CHR 0x0A" "CHR 0x0A \<notin> set (butlast u)" "c = CHR ''#''" using l by simp_all
    from append_butlast_last_id [OF False, unfolded u(1)] have "u = butlast u @ [CHR 0x0A]" by (rule sym)
    then have "\<exists>v. u = v @ [CHR 0x0A] \<and> CHR 0x0A \<notin> set v" using u(2) by (intro exI conjI)
    then show ?thesis using True u(3) by simp
  qed (use l True in simp)
next
  case False
  have w: "is_word CHR ''i''" "is_word CHR ''t''" "is_word CHR ''e''" by (rule is_word_codes)+
  show ?thesis using assms False w by (cases r; cases u; simp add: in_string_def; blast)
qed

lemma longest_initialI:
  assumes "c # cs = w @ ys" and "pattern r w" and "\<not> in_string r" and "\<not> is_word c"
    and "\<And>r' u zs. cs = u @ zs \<Longrightarrow> pattern r' (c # u) \<Longrightarrow> \<not> in_string r' \<Longrightarrow> Suc (length u) < length w \<or> Suc (length u) = length w \<and> rule_pos r \<le> rule_pos r'"
  shows "longest_match 1 (c # cs) r (length w)"
proof (rule longest_matchI [OF assms(1)])
  show "matches 1 r w" using assms(2,3) by (simp add: matches_def)
  fix r' w' zs assume w': "c # cs = w' @ zs" and m: "matches 1 r' w'"
  have "w' \<noteq> []" using m pattern_nonempty by (auto simp: matches_def)
  then obtain u where u: "w' = c # u" using w' by (cases w') auto
  show "length w' < length w \<or> length w' = length w \<and> rule_pos r \<le> rule_pos r'"
    using assms(5) [of u zs r'] w' m by (simp add: u matches_def)
qed

definition rules_of :: "nat \<Rightarrow> string \<Rightarrow> nat \<Rightarrow> nat \<Rightarrow> bool" where
  "rules_of start xs a k \<longleftrightarrow> (\<exists>r. longest_match start xs r k \<and> yy_case r = a)"

lemma rules_ofI: "longest_match start xs r (length w) \<Longrightarrow> yy_case r = a \<Longrightarrow> length w = k \<Longrightarrow> rules_of start xs a k"
  by (auto simp: rules_of_def)

lemmas rule_poss = rule_pos_def lexer_rules_def

lemma longest_initial:
  "rules_of 1 (c # cs) (fst (lex_initial (c # cs))) (snd (lex_initial (c # cs)))"
proof (cases "is_word c")
  case True
  from longest_word [OF True refl, of cs] obtain r where
    "longest_match 1 (c # cs) r (length (takeWhile is_word (c # cs)))" "yy_case r = keyword_rule (takeWhile is_word (c # cs))" by blast
  then show ?thesis using True word_first [OF True] by (auto simp: rules_of_def Let_def)
next
  case nw: False
  note ip = initial_pattern [OF _ _ nw]
  have single: "rules_of 1 (c # cs) (yy_case r) 1"
    if "pattern r [c]" "\<not> in_string r" "\<And>r' u. pattern r' (c # u) \<Longrightarrow> \<not> in_string r' \<Longrightarrow> \<exists>zs. cs = u @ zs \<Longrightarrow> u = [] \<and> rule_pos r \<le> rule_pos r'" for r
    by (rule rules_ofI [of _ _ r "[c]"], rule longest_initialI [of _ _ _ cs]) (use that nw in \<open>auto\<close>)
  have double: "rules_of 1 (c # cs) (yy_case r) 2"
    if "cs = d # ds" "pattern r [c, d]" "\<not> in_string r" "\<And>r' u. pattern r' (c # u) \<Longrightarrow> \<not> in_string r' \<Longrightarrow> u = [] \<or> (u = [d] \<and> r' = r)" for r d ds
    by (rule rules_ofI [of _ _ r "[c, d]"], rule longest_initialI [of _ _ _ ds]) (use that nw in \<open>fastforce+\<close>)
  consider "c = CHR 0x22" | "is_blank c" | "c = CHR 0x0A" | "c = CHR ''#''" | "c = CHR ''&''" | "c = CHR ''|''" | "c = CHR ''=''" | "c = CHR ''!''"
    | "c \<in> set ''+(),;''"
    | "c \<noteq> CHR 0x22" "\<not> is_blank c" "c \<noteq> CHR 0x0A" "c \<noteq> CHR ''#''" "c \<noteq> CHR ''&''" "c \<noteq> CHR ''|''" "c \<noteq> CHR ''=''" "c \<notin> set ''+(),!;''" by auto
  then show ?thesis
  proof cases
    case 1
    have "rules_of 1 (c # cs) (yy_case R_open) 1"
    proof (rule single)
      fix r' u assume p: "pattern r' (c # u)" "\<not> in_string r'"
      show "u = [] \<and> rule_pos R_open \<le> rule_pos r'" using ip [OF p] 1 by (elim disjE conjE exE; simp add: is_blank_def rule_poss)
    qed (use 1 in \<open>auto simp: in_string_def\<close>)
    then show ?thesis using 1 nw by simp
  next
    case 2
    define w where "w = takeWhile is_blank (c # cs)"
    have xs: "c # cs = w @ dropWhile is_blank (c # cs)" unfolding w_def by (rule takeWhile_dropWhile_id [symmetric])
    have all: "list_all is_blank w" unfolding w_def by (rule all_takeWhile)
    have ne: "w \<noteq> []" "0 < length w" using 2 by (simp_all add: w_def)
    have "rules_of 1 (c # cs) (yy_case R_blank) (length w)"
    proof (rule rules_ofI [OF longest_initialI [OF xs _ _ nw] refl refl])
      fix r' u zs assume p: "cs = u @ zs" "pattern r' (c # u)" "\<not> in_string r'"
      have c: "c \<noteq> CHR 0x0A" "c \<notin> set ''+(),!;''" "c \<noteq> CHR 0x22" "c \<noteq> CHR ''&''" "c \<noteq> CHR ''|''" "c \<noteq> CHR ''=''" "c \<noteq> CHR ''!''" "c \<noteq> CHR ''#''"
        using 2 by (auto simp: is_blank_def)
      have "r' = R_blank \<and> list_all is_blank (c # u) \<or> r' = R_bad \<and> u = []"
        using ip [OF p(2,3)] c 2 by (elim disjE conjE exE; simp)
      moreover have "length (c # u) \<le> length w" if "list_all is_blank (c # u)" unfolding w_def by (rule prefix_takeWhile [OF _ that]) (simp add: p(1))
      moreover have "1 < length w \<or> length w = 1" using ne(2) by linarith
      ultimately show "Suc (length u) < length w \<or> Suc (length u) = length w \<and> rule_pos R_blank \<le> rule_pos r'"
        by (elim disjE conjE) (auto simp: rule_poss)
    qed (use all ne in \<open>simp_all add: in_string_def\<close>)
    moreover have "lex_initial (c # cs) = (20, length w)" using 2 nw unfolding w_def by (auto simp: is_blank_def)
    ultimately show ?thesis by simp
  next
    case 3
    have "rules_of 1 (c # cs) (yy_case R_line) 1"
    proof (rule single)
      fix r' u assume p: "pattern r' (c # u)" "\<not> in_string r'"
      show "u = [] \<and> rule_pos R_line \<le> rule_pos r'" using ip [OF p] 3 by (elim disjE conjE exE; simp add: is_blank_def rule_poss)
    qed (use 3 in \<open>auto simp: in_string_def\<close>)
    then show ?thesis using 3 nw by (simp add: is_blank_def)
  next
    case 4
    have c: "\<not> is_blank c" using 4 by (simp add: is_blank_def)
    show ?thesis
    proof (cases "CHR 0x0A \<in> set cs")
      case True
      then obtain v z where cs: "cs = v @ CHR 0x0A # z" "CHR 0x0A \<notin> set v" by (meson split_list_first)
      have "rules_of 1 (c # cs) (yy_case R_line) (length v + 2)"
      proof (rule rules_ofI [OF longest_initialI [of c cs "c # v @ [CHR 0x0A]" z, OF _ _ _ nw] refl])
        fix r' u zs assume p: "cs = u @ zs" "pattern r' (c # u)" "\<not> in_string r'"
        have "r' = R_bad \<and> u = [] \<or> r' = R_line \<and> (\<exists>v. u = v @ [CHR 0x0A] \<and> CHR 0x0A \<notin> set v)"
          using ip [OF p(2,3)] 4 c by (elim disjE conjE exE; simp)
        moreover have "v' = v" if "u = v' @ [CHR 0x0A]" "CHR 0x0A \<notin> set v'" for v'
        proof -
          have "v' @ CHR 0x0A # zs = v @ CHR 0x0A # z" using p(1) cs(1) that(1) by simp
          then have "takeWhile (\<lambda>d. d \<noteq> CHR 0x0A) (v' @ CHR 0x0A # zs) = takeWhile (\<lambda>d. d \<noteq> CHR 0x0A) (v @ CHR 0x0A # z)" by (rule arg_cong)
          moreover have "takeWhile (\<lambda>d. d \<noteq> CHR 0x0A) (x @ CHR 0x0A # y) = x" if "CHR 0x0A \<notin> set x" for x y
            using that by (intro takeWhile_append_stop) auto
          ultimately show ?thesis using cs(2) that(2) by simp
        qed
        ultimately have "r' = R_bad \<and> u = [] \<or> r' = R_line \<and> u = v @ [CHR 0x0A]" by blast
        then show "Suc (length u) < length (c # v @ [CHR 0x0A]) \<or> Suc (length u) = length (c # v @ [CHR 0x0A]) \<and> rule_pos R_line \<le> rule_pos r'"
          by (elim disjE conjE) simp_all
      qed (use 4 cs in \<open>simp_all add: in_string_def butlast_append\<close>)
      moreover have "takeWhile (\<lambda>d. d \<noteq> CHR 0x0A) cs = v" unfolding cs(1) by (rule takeWhile_append_stop) (use cs(2) in auto)
      ultimately show ?thesis using 4 nw c True by simp
    next
      case False
      have "rules_of 1 (c # cs) (yy_case R_bad) 1"
      proof (rule single)
        fix r' u assume p: "pattern r' (c # u)" "\<not> in_string r'" "\<exists>zs. cs = u @ zs"
        show "u = [] \<and> rule_pos R_bad \<le> rule_pos r'" using ip [OF p(1,2)] p(3) False 4 c by (elim disjE conjE exE; simp add: rule_poss)
      qed (use 4 in \<open>auto simp: in_string_def\<close>)
      then show ?thesis using 4 nw c False by simp
    qed
  next
    case 5
    show ?thesis
    proof (cases "take 1 cs = [CHR ''&'']")
      case True
      then obtain ds where cs: "cs = CHR ''&'' # ds" by (cases cs) auto
      have "rules_of 1 (c # cs) (yy_case R_and) 2"
      proof (rule double [OF cs])
        fix r' u assume p: "pattern r' (c # u)" "\<not> in_string r'"
        show "u = [] \<or> (u = [CHR ''&''] \<and> r' = R_and)" using ip [OF p] 5 by (elim disjE conjE exE; simp add: is_blank_def)
      qed (use 5 in \<open>auto simp: in_string_def\<close>)
      then show ?thesis using 5 nw cs by (simp add: is_blank_def)
    next
      case False
      have "rules_of 1 (c # cs) (yy_case R_bad) 1"
      proof (rule single)
        fix r' u assume p: "pattern r' (c # u)" "\<not> in_string r'" "\<exists>zs. cs = u @ zs"
        show "u = [] \<and> rule_pos R_bad \<le> rule_pos r'" using ip [OF p(1,2)] p(3) False 5 by (elim disjE conjE exE; simp add: is_blank_def rule_poss)
      qed (use 5 in \<open>auto simp: in_string_def\<close>)
      then show ?thesis using 5 nw False by (simp add: is_blank_def)
    qed
  next
    case 6
    show ?thesis
    proof (cases "take 1 cs = [CHR ''|'']")
      case True
      then obtain ds where cs: "cs = CHR ''|'' # ds" by (cases cs) auto
      have "rules_of 1 (c # cs) (yy_case R_or) 2"
      proof (rule double [OF cs])
        fix r' u assume p: "pattern r' (c # u)" "\<not> in_string r'"
        show "u = [] \<or> (u = [CHR ''|''] \<and> r' = R_or)" using ip [OF p] 6 by (elim disjE conjE exE; simp add: is_blank_def)
      qed (use 6 in \<open>auto simp: in_string_def\<close>)
      then show ?thesis using 6 nw cs by (simp add: is_blank_def)
    next
      case False
      have "rules_of 1 (c # cs) (yy_case R_bad) 1"
      proof (rule single)
        fix r' u assume p: "pattern r' (c # u)" "\<not> in_string r'" "\<exists>zs. cs = u @ zs"
        show "u = [] \<and> rule_pos R_bad \<le> rule_pos r'" using ip [OF p(1,2)] p(3) False 6 by (elim disjE conjE exE; simp add: is_blank_def rule_poss)
      qed (use 6 in \<open>auto simp: in_string_def\<close>)
      then show ?thesis using 6 nw False by (simp add: is_blank_def)
    qed
  next
    case 7
    show ?thesis
    proof (cases "take 1 cs = [CHR ''='']")
      case True
      then obtain ds where cs: "cs = CHR ''='' # ds" by (cases cs) auto
      have "rules_of 1 (c # cs) (yy_case R_eq) 2"
      proof (rule double [OF cs])
        fix r' u assume p: "pattern r' (c # u)" "\<not> in_string r'"
        show "u = [] \<or> (u = [CHR ''=''] \<and> r' = R_eq)" using ip [OF p] 7 by (elim disjE conjE exE; simp add: is_blank_def)
      qed (use 7 in \<open>auto simp: in_string_def\<close>)
      then show ?thesis using 7 nw cs by (simp add: is_blank_def)
    next
      case False
      have "rules_of 1 (c # cs) (yy_case R_bad) 1"
      proof (rule single)
        fix r' u assume p: "pattern r' (c # u)" "\<not> in_string r'" "\<exists>zs. cs = u @ zs"
        show "u = [] \<and> rule_pos R_bad \<le> rule_pos r'" using ip [OF p(1,2)] p(3) False 7 by (elim disjE conjE exE; simp add: is_blank_def rule_poss)
      qed (use 7 in \<open>auto simp: in_string_def\<close>)
      then show ?thesis using 7 nw False by (simp add: is_blank_def)
    qed
  next
    case 8
    show ?thesis
    proof (cases "take 1 cs = [CHR ''='']")
      case True
      then obtain ds where cs: "cs = CHR ''='' # ds" by (cases cs) auto
      have "rules_of 1 (c # cs) (yy_case R_ne) 2"
      proof (rule double [OF cs])
        fix r' u assume p: "pattern r' (c # u)" "\<not> in_string r'"
        show "u = [] \<or> (u = [CHR ''=''] \<and> r' = R_ne)" using ip [OF p] 8 by (elim disjE conjE exE; simp add: is_blank_def)
      qed (use 8 in \<open>auto simp: in_string_def\<close>)
      then show ?thesis using 8 nw cs by (simp add: is_blank_def)
    next
      case False
      have "rules_of 1 (c # cs) (yy_case R_operator) 1"
      proof (rule single)
        fix r' u assume p: "pattern r' (c # u)" "\<not> in_string r'" "\<exists>zs. cs = u @ zs"
        show "u = [] \<and> rule_pos R_operator \<le> rule_pos r'" using ip [OF p(1,2)] p(3) False 8 by (elim disjE conjE exE; simp add: is_blank_def rule_poss)
      qed (use 8 in \<open>auto simp: in_string_def\<close>)
      then show ?thesis using 8 nw False by (simp add: is_blank_def)
    qed
  next
    case 9
    have nb: "\<not> is_blank c" using 9 by (auto simp: is_blank_def)
    have "rules_of 1 (c # cs) (yy_case R_operator) 1"
    proof (rule single)
      fix r' u assume p: "pattern r' (c # u)" "\<not> in_string r'"
      show "u = [] \<and> rule_pos R_operator \<le> rule_pos r'" using ip [OF p] nb 9 by (elim disjE conjE exE; auto simp: rule_poss)
    qed (use 9 in \<open>auto simp: in_string_def\<close>)
    then show ?thesis using 9 nw by (auto simp: is_blank_def)
  next
    case 10
    have "rules_of 1 (c # cs) (yy_case R_bad) 1"
    proof (rule single)
      fix r' u assume p: "pattern r' (c # u)" "\<not> in_string r'"
      show "u = [] \<and> rule_pos R_bad \<le> rule_pos r'" using ip [OF p] 10 by (elim disjE conjE exE; simp add: is_blank_def rule_poss)
    qed (use 10 in \<open>auto simp: in_string_def\<close>)
    then show ?thesis using 10 nw by auto
  qed
qed

text \<open>Inside a literal.\<close>

lemma string_pattern:
  assumes "pattern r (c # u)" and "in_string r"
  shows "(r = R_close \<and> c = CHR 0x22 \<and> u = []) \<or> (c = CHR 0x5C \<and> (r = R_escape_n \<and> u = ''n'' \<or> r = R_escape_t \<and> u = ''t'' \<or>
      r = R_escape_quote \<and> u = [CHR 0x22] \<or> r = R_escape_backslash \<and> u = [CHR 0x5C] \<or>
      r = R_escape_hex \<and> (\<exists>x y. u = [CHR ''x'', x, y] \<and> is_xdigit x \<and> is_xdigit y))) \<or>
    (r = R_line_end \<and> (c = CHR 0x0A \<and> u = [] \<or> c = CHR 0x0D \<and> u = [CHR 0x0A])) \<or> (r = R_carriage_return \<and> c = CHR 0x0D \<and> u = []) \<or>
    (r = R_string_char \<and> u = [] \<and> c \<noteq> CHR 0x0A)"
proof (cases "r = R_escape_hex")
  case True
  then have "length u = 3" "c = CHR 0x5C" "take 1 u = [CHR ''x'']" "is_xdigit (u ! 1)" "is_xdigit (u ! 2)" using assms(1) by (simp_all add: numeral_2_eq_2 numeral_3_eq_3)
  moreover from this(1) obtain a x y where "u = [a, x, y]" by (auto simp: numeral_3_eq_3 length_Suc_conv)
  ultimately show ?thesis using True by simp
next
  case False
  show ?thesis using assms False by (cases r; simp add: in_string_def)
qed

lemma longest_stringI:
  assumes "c # cs = w @ ys" and "pattern r w" and "in_string r"
    and "\<And>r' u zs. cs = u @ zs \<Longrightarrow> pattern r' (c # u) \<Longrightarrow> in_string r' \<Longrightarrow> Suc (length u) < length w \<or> Suc (length u) = length w \<and> rule_pos r \<le> rule_pos r'"
  shows "longest_match 3 (c # cs) r (length w)"
proof (rule longest_matchI [OF assms(1)])
  show "matches 3 r w" using assms(2,3) by (simp add: matches_def)
  fix r' w' zs assume w': "c # cs = w' @ zs" and m: "matches 3 r' w'"
  have "w' \<noteq> []" using m pattern_nonempty by (auto simp: matches_def)
  then obtain u where u: "w' = c # u" using w' by (cases w') auto
  show "length w' < length w \<or> length w' = length w \<and> rule_pos r \<le> rule_pos r'"
    using assms(4) [of u zs r'] w' m by (simp add: u matches_def)
qed

lemma longest_string: "rules_of 3 (c # cs) (fst (lex_str (c # cs))) (snd (lex_str (c # cs)))"
proof -
  have pick: "rules_of 3 (c # cs) (yy_case r) (length w)"
    if "c # cs = w @ ys" "pattern r w" "in_string r"
      "\<And>r' u zs. cs = u @ zs \<Longrightarrow> pattern r' (c # u) \<Longrightarrow> in_string r' \<Longrightarrow> Suc (length u) < length w \<or> Suc (length u) = length w \<and> rule_pos r \<le> rule_pos r'" for r w ys
    using longest_stringI [OF that] by (rule rules_ofI) simp_all
  define R where "R = (\<lambda>cs'. if c = CHR 0x22 then (R_close, [c]) else if c = CHR 0x5C then
      (case cs' of [] \<Rightarrow> (R_string_char, [c])
       | d # ds \<Rightarrow> if d = CHR ''n'' then (R_escape_n, [c, d]) else if d = CHR ''t'' then (R_escape_t, [c, d])
           else if d = CHR 0x22 then (R_escape_quote, [c, d]) else if d = CHR 0x5C then (R_escape_backslash, [c, d])
           else (case ds of x # y # z \<Rightarrow> if d = CHR ''x'' \<and> is_xdigit x \<and> is_xdigit y then (R_escape_hex, [c, d, x, y]) else (R_string_char, [c])
                 | _ \<Rightarrow> (R_string_char, [c])))
    else if c = CHR 0x0A then (R_line_end, [c])
    else if c = CHR 0x0D then (case cs' of d # ds \<Rightarrow> if d = CHR 0x0A then (R_line_end, [c, d]) else (R_carriage_return, [c]) | [] \<Rightarrow> (R_carriage_return, [c]))
    else (R_string_char, [c]))"
  have eq: "lex_str (c # cs) = (yy_case (fst (R cs)), length (snd (R cs)))"
    by (auto simp: R_def split: list.splits)
  have "rules_of 3 (c # cs) (yy_case (fst (R cs))) (length (snd (R cs)))"
  proof (rule pick [of _ "drop (length (snd (R cs))) (c # cs)"])
    show "c # cs = snd (R cs) @ drop (length (snd (R cs))) (c # cs)" by (auto simp: R_def split: list.splits)
    show "pattern (fst (R cs)) (snd (R cs))" "in_string (fst (R cs))" by (auto simp: R_def in_string_def split: list.splits)
    fix r' u zs assume cs: "cs = u @ zs" and p: "pattern r' (c # u)" "in_string r'"
    show "Suc (length u) < length (snd (R cs)) \<or> Suc (length u) = length (snd (R cs)) \<and> rule_pos (fst (R cs)) \<le> rule_pos r'"
      using string_pattern [OF p] unfolding cs by (elim disjE conjE exE; simp add: R_def rule_poss split: list.splits)
  qed
  then show ?thesis by (simp only: eq fst_conv snd_conv)
qed

lemma longest_rule:
  assumes "start = 1 \<or> start = 3" and "xs \<noteq> []"
  shows "rules_of start xs (fst (lex_rule start xs)) (snd (lex_rule start xs))"
  using assms longest_initial longest_string by (cases xs) (auto simp: lex_rule_def simp del: lex_initial.simps lex_str.simps)

text \<open>
  C4. At every position of a script, in either start condition and whatever earlier scans left in the
  accepting-state variables, the table-driven loop of \<open>yylex\<close> takes the longest token that a pattern of
  lexer.l matches, and the action of the first rule that matches it; at the end of the script it takes
  the end-of-file action. No table read and no buffer read is out of range. One rule of lexer.l has no
  action of its own in lex.yy.c: where a bare carriage return of a literal is the longest match, the
  scanner performs the action of the rule \<open>.\<close> (\<open>yy_case\<close>).
\<close>

theorem yy_scan_longest_match:
  assumes "NUL \<notin> set text" and "start = 1 \<or> start = 3" and "bp \<le> length text"
  shows "\<exists>act la'. yy_scan (text @ [NUL, NUL]) (length text) start bp (At_match start bp la) = Some (act, la') \<and>
     (if bp = length text then act = Eof
      else \<exists>r k. longest_match start (drop bp text) r k \<and> act = Act (yy_case r) (bp + k))"
proof -
  from yy_scan_rule [OF assms] obtain la' where s: "yy_scan (text @ [NUL, NUL]) (length text) start bp (At_match start bp la) =
     Some (if bp = length text then Eof else Act (fst (lex_rule start (drop bp text))) (bp + snd (lex_rule start (drop bp text))), la')" by blast
  show ?thesis
  proof (cases "bp = length text")
    case False
    then have "drop bp text \<noteq> []" using assms(3) by simp
    from longest_rule [OF assms(2) this] obtain r where
      "longest_match start (drop bp text) r (snd (lex_rule start (drop bp text)))" "yy_case r = fst (lex_rule start (drop bp text))"
      unfolding rules_of_def by blast
    then have "\<exists>r k. longest_match start (drop bp text) r k \<and>
        Act (fst (lex_rule start (drop bp text))) (bp + snd (lex_rule start (drop bp text))) = Act (yy_case r) (bp + k)" by metis
    then show ?thesis using s False by simp
  qed (use s in simp)
qed

theorem yy_scan_longest_match_witness:
  "\<exists>k la'. yy_scan ([CHR 0x0D, CHR 0x22] @ [NUL, NUL]) 2 3 0 (At_match 3 0 (0, 0)) = Some (Act 9 k, la') \<and>
     longest_match 3 [CHR 0x0D, CHR 0x22] R_carriage_return k"
proof -
  have "longest_match 3 [CHR 0x0D, CHR 0x22] R_carriage_return 1" by code_simp
  moreover from this have "r = R_carriage_return \<and> k = 1" if "longest_match 3 [CHR 0x0D, CHR 0x22] r k" for r k
    using longest_match_unique that by blast
  moreover have "\<exists>act la'. yy_scan ([CHR 0x0D, CHR 0x22] @ [NUL, NUL]) 2 3 0 (At_match 3 0 (0, 0)) = Some (act, la') \<and>
     (\<exists>r k. longest_match 3 [CHR 0x0D, CHR 0x22] r k \<and> act = Act (yy_case r) k)"
    using yy_scan_longest_match [of "[CHR 0x0D, CHR 0x22]" 3 0 "(0, 0)"] by (simp add: numeral_2_eq_2)
  ultimately show ?thesis by fastforce
qed

end
