(* ===== verification/WordLib.thy ===== *)
theory WordLib
  imports Prelude "HOL-Library.Word"
begin

text \<open>What the components share on machine words: values of small numbers, and bits of words.\<close>

lemma sint_small: "k < 2 ^ 31 \<Longrightarrow> sint (word_of_nat k :: 32 word) = int k"
  by (simp add: signed_of_nat signed_take_bit_int_eq_self_iff)

lemma unat_small: "k < 2 ^ 32 \<Longrightarrow> unat (word_of_nat k :: 32 word) = k"
  by (simp add: unat_of_nat)

lemma word_eq_natI: "unat p = n \<Longrightarrow> p = word_of_nat n"
  by auto

lemma unat_of_nat_32: "n < 2 ^ 32 \<Longrightarrow> unat (word_of_nat n :: 32 word) = n"
  by (simp add: unat_of_nat)

end
