(* ===== verification/NlMem.thy ===== *)
theory NlMem
  imports WordLib
begin

unbundle bit_operations_syntax

text \<open>
  Memory for libnl: an object is the list of its bytes, a pointer into it an offset. Accesses outside
  the object are \<^term>\<open>None\<close>. The platforms the application is built for (armeabi-v7a, arm64-v8a)
  are little-endian; \<open>int\<close> has 32 bits on both.
\<close>

type_synonym byte = "8 word"

section \<open>Numbers as bytes\<close>

fun le_nat :: "byte list \<Rightarrow> nat" where
  "le_nat [] = 0"
| "le_nat (b # bs) = unat b + 256 * le_nat bs"

fun le_bytes :: "nat \<Rightarrow> nat \<Rightarrow> byte list" where
  "le_bytes 0 v = []"
| "le_bytes (Suc n) v = word_of_nat v # le_bytes n (v div 256)"

lemma length_le_bytes [simp]: "length (le_bytes n v) = n"
  by (induction n v rule: le_bytes.induct) simp_all

lemma unat_byte: "unat (word_of_nat v :: byte) = v mod 256"
  by (simp add: unat_of_nat)

lemma le_nat_bytes: "le_nat (le_bytes n v) = v mod 256 ^ n"
proof (induction n v rule: le_bytes.induct)
  case (2 n v)
  have "v mod (256 * 256 ^ n) = v mod 256 + 256 * (v div 256 mod 256 ^ n)"
    by (simp add: mod_mult2_eq)
  then show ?case using 2 by (simp add: unat_byte)
qed simp

lemma le_nat_less: "le_nat bs < 256 ^ length bs"
proof (induction bs)
  case (Cons b bs)
  have "unat b < 256" using unsigned_less [of b, where 'a = nat] by simp
  then have "unat b + 256 * le_nat bs < 256 * (le_nat bs + 1)" by simp
  also have "\<dots> \<le> 256 * 256 ^ length bs" using Cons by (intro mult_le_mono) auto
  finally show ?case by simp
qed simp

section \<open>Checked accesses\<close>

definition ld :: "nat \<Rightarrow> byte list \<Rightarrow> nat \<Rightarrow> byte list option" where
  "ld n mem p = (if p + n \<le> length mem then Some (take n (drop p mem)) else None)"

definition st :: "byte list \<Rightarrow> byte list \<Rightarrow> nat \<Rightarrow> byte list option" where
  "st bs mem p =
     (if p + length bs \<le> length mem then Some (take p mem @ bs @ drop (p + length bs) mem) else None)"

definition ld8 :: "byte list \<Rightarrow> nat \<Rightarrow> byte option" where
  "ld8 mem p = rd mem p"

definition ld16 :: "byte list \<Rightarrow> nat \<Rightarrow> 16 word option" where
  "ld16 mem p = map_option (\<lambda>bs. word_of_nat (le_nat bs)) (ld 2 mem p)"

text \<open>A \<open>__u16\<close> promoted to \<open>int\<close>.\<close>

definition ldu16 :: "byte list \<Rightarrow> nat \<Rightarrow> nat option" where
  "ldu16 mem p = map_option unat (ld16 mem p)"

definition ld32 :: "byte list \<Rightarrow> nat \<Rightarrow> 32 word option" where
  "ld32 mem p = map_option (\<lambda>bs. word_of_nat (le_nat bs)) (ld 4 mem p)"

definition ld64 :: "byte list \<Rightarrow> nat \<Rightarrow> 64 word option" where
  "ld64 mem p = map_option (\<lambda>bs. word_of_nat (le_nat bs)) (ld 8 mem p)"

definition b16 :: "16 word \<Rightarrow> byte list" where "b16 v = le_bytes 2 (unat v)"

definition b32 :: "32 word \<Rightarrow> byte list" where "b32 v = le_bytes 4 (unat v)"

definition b64 :: "64 word \<Rightarrow> byte list" where "b64 v = le_bytes 8 (unat v)"

lemma length_b [simp]: "length (b16 v) = 2" "length (b32 w) = 4" "length (b64 x) = 8"
  by (simp_all add: b16_def b32_def b64_def)

lemma le_nat_b: "le_nat (b16 v) = unat v" "le_nat (b32 w) = unat w" "le_nat (b64 x) = unat x"
  using unsigned_less [of v, where 'a = nat] unsigned_less [of w, where 'a = nat]
    unsigned_less [of x, where 'a = nat]
  by (simp_all add: b16_def b32_def b64_def le_nat_bytes)

lemma ld_append: "p + n \<le> length m \<Longrightarrow> ld n (m @ r) p = ld n m p"
  by (simp add: ld_def)

lemma ld_at [simp]: "ld (length bs) (pre @ bs @ post) (length pre) = Some bs"
  by (simp add: ld_def)

lemma ld16_at: "p = length pre \<Longrightarrow> ld16 (pre @ b16 v @ post) p = Some v"
  using ld_at [of "b16 v" pre post] by (simp add: ld16_def le_nat_b)

lemma ldu16_at: "p = length pre \<Longrightarrow> n < 65536 \<Longrightarrow> ldu16 (pre @ le_bytes 2 n @ post) p = Some n"
  using ld16_at [of p pre "word_of_nat n" post]
  by (simp add: ldu16_def b16_def unat_of_nat)

lemma ldu16_less: "ldu16 mem p = Some n \<Longrightarrow> n < 65536 \<and> p + 2 \<le> length mem"
  by (auto simp: ldu16_def ld16_def ld_def unat_of_nat split: if_splits)

lemma ldu16_ex: "p + 2 \<le> length mem \<Longrightarrow> \<exists>v. ldu16 mem p = Some v"
  by (simp add: ldu16_def ld16_def ld_def)

lemma ld32_at: "p = length pre \<Longrightarrow> ld32 (pre @ b32 v @ post) p = Some v"
  using ld_at [of "b32 v" pre post] by (simp add: ld32_def le_nat_b)

lemma ld64_at: "p = length pre \<Longrightarrow> ld64 (pre @ b64 v @ post) p = Some v"
  using ld_at [of "b64 v" pre post] by (simp add: ld64_def le_nat_b)

lemma ld_Some_iff: "ld n mem p = Some bs \<longleftrightarrow> p + n \<le> length mem \<and> bs = take n (drop p mem)"
  by (auto simp: ld_def)

lemma ld16_None_iff: "ld16 mem p = None \<longleftrightarrow> length mem < p + 2"
  by (auto simp: ld16_def ld_def)

lemma ld16_ex: "p + 2 \<le> length mem \<Longrightarrow> \<exists>v. ld16 mem p = Some v"
  by (simp add: ld16_def ld_def)

lemma ld32_ex: "p + 4 \<le> length mem \<Longrightarrow> \<exists>v. ld32 mem p = Some v"
  by (simp add: ld32_def ld_def)

lemma st_Some_iff:
  "st bs mem p = Some m \<longleftrightarrow>
     p + length bs \<le> length mem \<and> m = take p mem @ bs @ drop (p + length bs) mem"
  by (auto simp: st_def)

lemma st_length: "st bs mem p = Some m \<Longrightarrow> length m = length mem"
  by (auto simp: st_Some_iff)

lemma st_at: "length old = length bs \<Longrightarrow> p = length pre \<Longrightarrow> st bs (pre @ old @ post) p = Some (pre @ bs @ post)"
  by (simp add: st_def)

lemma ld_st_same: "st bs mem p = Some m \<Longrightarrow> ld (length bs) m p = Some bs"
  by (auto simp: st_Some_iff ld_def)

lemma ld_st_other:
  assumes "st bs mem p = Some m" and "q + n \<le> p \<or> p + length bs \<le> q"
  shows "ld n m q = ld n mem q"
proof -
  have m: "p + length bs \<le> length mem" "m = take p mem @ bs @ drop (p + length bs) mem"
    using assms(1) by (auto simp: st_Some_iff)
  from assms(2) show ?thesis
  proof
    assume "q + n \<le> p"
    then have "take n (drop q (take p mem)) = take n (drop q mem)"
      by (simp add: drop_take min_def)
    then show ?thesis using m \<open>q + n \<le> p\<close> by (simp add: ld_def)
  next
    assume "p + length bs \<le> q"
    then show ?thesis using m by (simp add: ld_def)
  qed
qed

section \<open>Alignment\<close>

text \<open>\<open>NLMSG_ALIGN\<close> on \<open>__u32\<close> and \<open>size_t\<close>, and \<open>NLA_ALIGN\<close> (the same formula) on \<open>int\<close>.\<close>

definition NLMSG_ALIGN :: "'w::len word \<Rightarrow> 'w word" where
  "NLMSG_ALIGN len = (len + 4 - 1) AND NOT (4 - 1)"

definition NLA_ALIGN :: "int \<Rightarrow> int" where
  "NLA_ALIGN len = (len + 4 - 1) AND NOT (4 - 1)"

definition align4 :: "nat \<Rightarrow> nat" where
  "align4 n = (n + 3) div 4 * 4"

lemma align4_bounds: "n \<le> align4 n" "align4 n < n + 4" "4 dvd align4 n"
  by (simp_all add: align4_def)

lemma align4_add: "4 dvd n \<Longrightarrow> align4 (n + m) = n + align4 m"
proof -
  assume "4 dvd n"
  then obtain k where "n = 4 * k" by (rule dvdE)
  then have "n + m + 3 = (m + 3) + k * 4" by simp
  then have "(n + m + 3) div 4 = k + (m + 3) div 4" by simp
  with \<open>n = 4 * k\<close> show ?thesis by (simp add: align4_def)
qed

lemma align4_id [simp]: "4 dvd n \<Longrightarrow> align4 n = n"
  using align4_add [of n 0] by (simp add: align4_def)

lemma align4_mono: "m \<le> n \<Longrightarrow> align4 m \<le> align4 n"
  by (simp add: align4_def div_le_mono)

lemma and_not_add: "(x AND NOT m) + (x AND m) = (x :: 'a :: ring_bit_operations)"
proof -
  have "(x AND NOT m) + (x AND m) = (x AND NOT m) OR (x AND m)"
    by (rule disjunctive_add) (auto simp: bit_simps)
  also have "\<dots> = x" by (rule bit_eqI) (auto simp: bit_simps)
  finally show ?thesis .
qed

lemma and_not_3: "(x :: 'a :: ring_bit_operations) AND NOT 3 = x - take_bit 2 x"
proof -
  have "(3 :: 'a) = mask 2" by (simp add: mask_eq_exp_minus_1)
  then show ?thesis using and_not_add [of x 3] by (simp add: take_bit_eq_mask eq_diff_eq)
qed

lemma NLA_ALIGN_eq: "0 \<le> len \<Longrightarrow> NLA_ALIGN len = int (align4 (nat len))"
proof -
  assume "0 \<le> len"
  then obtain n where n: "len = int n" by (metis zero_le_imp_eq_int)
  have "NLA_ALIGN len = (len + 3) AND NOT 3" by (simp add: NLA_ALIGN_def add.commute)
  also have "\<dots> = (len + 3) - (len + 3) mod 4" by (simp only: and_not_3 take_bit_eq_mod) simp
  also have "\<dots> = (len + 3) div 4 * 4" by (rule minus_mod_eq_div_mult)
  also have "\<dots> = int (align4 n)" by (simp add: align4_def n zdiv_int)
  finally show ?thesis by (simp add: n)
qed

lemma NLMSG_ALIGN_eq:
  fixes len :: "'w::len word"
  assumes "unat len + 3 < 2 ^ LENGTH('w)" and "2 < LENGTH('w)"
  shows "unat (NLMSG_ALIGN len) = align4 (unat len)"
proof -
  have s: "unat (len + 3) = unat len + 3"
  proof -
    have "(4 :: nat) < 2 ^ LENGTH('w)"
      using assms(2) power_strict_increasing [of 2 "LENGTH('w)" "2 :: nat"] by simp
    then have "unat (3 :: 'w word) = 3" by (simp add: unsigned_numeral take_bit_nat_eq_self)
    then show ?thesis using assms(1) by (simp add: unat_word_ariths)
  qed
  have t: "unat (take_bit 2 (len + 3)) = (unat len + 3) mod 4"
    by (simp only: unsigned_take_bit_eq s) (simp add: take_bit_eq_mod)
  then have "take_bit 2 (len + 3) \<le> len + 3" using s by (simp add: word_le_nat_alt)
  then have "unat ((len + 3) - take_bit 2 (len + 3)) = (unat len + 3) - (unat len + 3) mod 4"
    using s t by (simp only: unat_sub)
  moreover have "NLMSG_ALIGN len = (len + 3) - take_bit 2 (len + 3)"
    by (simp only: NLMSG_ALIGN_def flip: and_not_3) (simp add: add.commute)
  ultimately have "unat (NLMSG_ALIGN len) = (unat len + 3) - (unat len + 3) mod 4" by simp
  also have "\<dots> = (unat len + 3) div 4 * 4" by (rule minus_mod_eq_div_mult)
  finally show ?thesis by (simp add: align4_def)
qed

end
