(* ===== verification/NlMsg.thy ===== *)
theory NlMsg
  imports NlMem
begin

text \<open>
  Netlink messages (libnl/msg.c): a message object owns a block of \<open>nm_size\<close> bytes that starts with
  the message header. A header elsewhere is an offset into the bytes of its object. \<open>size_t\<close> is \<open>'s word\<close>
  for a type parameter of 32 or 64 bits, and \<open>nm_size\<close> the value of one. Allocation is a parameter \<open>ok\<close>: whether a request for
  so many bytes succeeds. The results of allocating functions are \<^term>\<open>Some None\<close> for a null pointer
  and \<^term>\<open>None\<close> for undefined behaviour or an assertion that fails. Error numbers are negative
  results; the text \<open>nl_error\<close> keeps and what goes to the standard error stream are left out.
\<close>

section \<open>Constants\<close>

definition ENOMEM :: int where "ENOMEM = 12"
definition EINVAL :: int where "EINVAL = 22"
definition ERANGE :: int where "ERANGE = 34"

definition NLMSG_HDRLEN :: int where "NLMSG_HDRLEN = 16"
definition NLMSG_ALIGNTO :: int where "NLMSG_ALIGNTO = 4"
definition NL_MSG_CRED_PRESENT :: "32 word" where "NL_MSG_CRED_PRESENT = 1"

record sockaddr_nl =
  nl_family :: "16 word"
  nl_pad :: "16 word"
  nl_pid :: "32 word"
  nl_groups :: "32 word"

record ucred =
  cr_pid :: "32 word"
  cr_uid :: "32 word"
  cr_gid :: "32 word"

record nl_msg =
  nm_protocol :: "32 word"
  nm_flags :: "32 word"
  nm_src :: sockaddr_nl
  nm_dst :: sockaddr_nl
  nm_creds :: ucred
  nm_nlh :: "byte list"
  nm_size :: nat

section \<open>Size calculations\<close>

definition nlmsg_msg_size :: "int \<Rightarrow> int" where
  "nlmsg_msg_size payload = NLMSG_HDRLEN + payload"

definition nlmsg_total_size :: "int \<Rightarrow> int" where
  "nlmsg_total_size payload = NLA_ALIGN (nlmsg_msg_size payload)"

definition nlmsg_padlen :: "int \<Rightarrow> int" where
  "nlmsg_padlen payload = nlmsg_total_size payload - nlmsg_msg_size payload"

section \<open>Payload and attribute access\<close>

definition nlmsg_data :: "nat \<Rightarrow> nat" where
  "nlmsg_data nlh = nlh + 16"

definition nlmsg_tail :: "byte list \<Rightarrow> nat \<Rightarrow> nat option" where
  "nlmsg_tail mem nlh = do { l \<leftarrow> ld32 mem nlh; Some (nlh + unat (NLMSG_ALIGN l)) }"

definition nlmsg_len :: "byte list \<Rightarrow> nat \<Rightarrow> int option" where
  "nlmsg_len mem nlh = do { l \<leftarrow> ld32 mem nlh; Some (sint (l - word_of_int NLMSG_HDRLEN)) }"

definition nlmsg_attrdata :: "nat \<Rightarrow> int \<Rightarrow> int" where
  "nlmsg_attrdata nlh hdrlen = int (nlmsg_data nlh) + NLA_ALIGN hdrlen"

definition nlmsg_attrlen :: "byte list \<Rightarrow> nat \<Rightarrow> int \<Rightarrow> int option" where
  "nlmsg_attrlen mem nlh hdrlen = do { l \<leftarrow> nlmsg_len mem nlh; Some (l - NLA_ALIGN hdrlen) }"

section \<open>Message streams\<close>

text \<open>A comparison of a \<open>__u32\<close> with an \<open>int\<close> is one of \<open>unsigned int\<close>s.\<close>

definition nlmsg_valid_hdr :: "byte list \<Rightarrow> nat \<Rightarrow> int \<Rightarrow> bool option" where
  "nlmsg_valid_hdr mem nlh hdrlen =
     do { l \<leftarrow> ld32 mem nlh; Some (\<not> l < word_of_int (nlmsg_msg_size hdrlen)) }"

definition nlmsg_ok :: "byte list \<Rightarrow> nat \<Rightarrow> int \<Rightarrow> bool option" where
  "nlmsg_ok mem nlh remaining =
     (if 0 \<le> remaining \<and> remaining < 16 then Some False
      else do { l \<leftarrow> ld32 mem nlh; Some (16 \<le> l \<and> l \<le> word_of_int remaining) })"

definition nlmsg_next :: "byte list \<Rightarrow> nat \<Rightarrow> int \<Rightarrow> (int \<times> int) option" where
  "nlmsg_next mem nlh remaining =
     do { l \<leftarrow> ld32 mem nlh;
          (let totlen = sint (NLMSG_ALIGN l) in Some (int nlh + totlen, remaining - totlen)) }"

section \<open>Creating messages\<close>

definition sizeof_nl_msg :: "nat \<Rightarrow> nat" where
  "sizeof_nl_msg size_t_bits = (if size_t_bits = 64 then 64 else 52)"

definition nlmsg_calloc :: "(nat \<Rightarrow> bool) \<Rightarrow> 's::len word \<Rightarrow> nl_msg option option" where
  "nlmsg_calloc ok len =
     (if \<not> ok (sizeof_nl_msg (LENGTH('s))) \<or> \<not> ok (unat len) then Some None
      else do { m \<leftarrow> st (b32 (word_of_int (nlmsg_total_size 0))) (replicate (unat len) 0) 0;
                Some (Some \<lparr>nm_protocol = - 1, nm_flags = 0,
                  nm_src = \<lparr>nl_family = 0, nl_pad = 0, nl_pid = 0, nl_groups = 0\<rparr>,
                  nm_dst = \<lparr>nl_family = 0, nl_pad = 0, nl_pid = 0, nl_groups = 0\<rparr>,
                  nm_creds = \<lparr>cr_pid = 0, cr_uid = 0, cr_gid = 0\<rparr>, nm_nlh = m, nm_size = unat len\<rparr>) })"

definition nlmsg_alloc :: "(nat \<Rightarrow> bool) \<Rightarrow> 's::len word \<Rightarrow> nl_msg option option" where
  "nlmsg_alloc ok default_msg_size = nlmsg_calloc ok default_msg_size"

definition nlmsg_alloc_size :: "(nat \<Rightarrow> bool) \<Rightarrow> 's::len word \<Rightarrow> nl_msg option option" where
  "nlmsg_alloc_size ok max_size = nlmsg_calloc ok max_size"

text \<open>The header fields behind the length: type, flags, sequence number and port.\<close>

definition put_hdr :: "16 word \<Rightarrow> 16 word \<Rightarrow> 32 word \<Rightarrow> 32 word \<Rightarrow> byte list \<Rightarrow> byte list option" where
  "put_hdr ty fl sq pid m =
     do { m1 \<leftarrow> st (b16 ty) m 4; m2 \<leftarrow> st (b16 fl) m1 6; m3 \<leftarrow> st (b32 sq) m2 8; st (b32 pid) m3 12 }"

definition nlmsg_inherit ::
  "(nat \<Rightarrow> bool) \<Rightarrow> 's::len word \<Rightarrow> (byte list \<times> nat) option \<Rightarrow> nl_msg option option" where
  "nlmsg_inherit ok default_msg_size hdr =
     do { nm \<leftarrow> nlmsg_alloc ok default_msg_size;
          (case (nm, hdr) of
             (Some n, Some (mem, p)) \<Rightarrow>
               do { ty \<leftarrow> ld16 mem (p + 4); fl \<leftarrow> ld16 mem (p + 6);
                    sq \<leftarrow> ld32 mem (p + 8); pid \<leftarrow> ld32 mem (p + 12);
                    m \<leftarrow> put_hdr ty fl sq pid (nm_nlh n);
                    Some (Some (n\<lparr>nm_nlh := m\<rparr>)) }
           | _ \<Rightarrow> Some nm) }"

definition nlmsg_alloc_simple ::
  "(nat \<Rightarrow> bool) \<Rightarrow> 's::len word \<Rightarrow> int \<Rightarrow> int \<Rightarrow> nl_msg option option" where
  "nlmsg_alloc_simple ok default_msg_size nlmsgtype flags =
     nlmsg_inherit ok default_msg_size
       (Some (b32 0 @ b16 (word_of_int nlmsgtype) @ b16 (word_of_int flags) @ b32 0 @ b32 0, 0))"

definition nlmsg_set_default_size :: "'s::len word \<Rightarrow> 's word" where
  "nlmsg_set_default_size max_size =
     (if max_size < word_of_int (nlmsg_total_size 0) then word_of_int (nlmsg_total_size 0) else max_size)"

definition nlmsg_convert ::
  "'s::len itself \<Rightarrow> (nat \<Rightarrow> bool) \<Rightarrow> byte list \<Rightarrow> nat \<Rightarrow> nl_msg option option" where
  "nlmsg_convert size_t ok mem hdr =
     do { l \<leftarrow> ld32 mem hdr;
          nm \<leftarrow> nlmsg_calloc ok (ucast (NLMSG_ALIGN l) :: 's word);
          (case nm of
             None \<Rightarrow> Some None
           | Some n \<Rightarrow> do { bs \<leftarrow> ld (unat l) mem hdr; m \<leftarrow> st bs (nm_nlh n) 0;
                            Some (Some (n\<lparr>nm_nlh := m\<rparr>)) }) }"

section \<open>Building messages\<close>

text \<open>
  \<open>nlmsg_reserve\<close>: the offset of the reserved room, or a null pointer, with the message.
  \<open>nlmsg_len += tlen\<close> is computed in \<open>size_t\<close> and stored in 32 bits.
\<close>

definition nlmsg_reserve :: "nl_msg \<Rightarrow> 's::len word \<Rightarrow> int \<Rightarrow> (nat option \<times> nl_msg) option" where
  "nlmsg_reserve n len pad =
     do { l \<leftarrow> ld32 (nm_nlh n) 0;
          (let tlen = (if pad \<noteq> 0 then (len + word_of_int (pad - 1)) AND NOT (word_of_int (pad - 1)) else len)
           in if tlen + ucast l > word_of_nat (nm_size n) then Some (None, n)
              else do { m1 \<leftarrow> st (b32 (ucast (ucast l + tlen))) (nm_nlh n) 0;
                        m2 \<leftarrow> (if tlen > len
                               then st (replicate (unat (tlen - len)) 0) m1 (unat l + unat len)
                               else Some m1);
                        Some (Some (unat l), n\<lparr>nm_nlh := m2\<rparr>) }) }"

definition nlmsg_append :: "nl_msg \<Rightarrow> byte list \<Rightarrow> 's::len word \<Rightarrow> int \<Rightarrow> (int \<times> nl_msg) option" where
  "nlmsg_append n data len pad =
     do { r \<leftarrow> nlmsg_reserve n len pad;
          (case fst r of
             None \<Rightarrow> Some (- ENOMEM, snd r)
           | Some tmp \<Rightarrow>
               do { bs \<leftarrow> ld (unat len) data 0; m \<leftarrow> st bs (nm_nlh (snd r)) tmp;
                    Some (0, (snd r)\<lparr>nm_nlh := m\<rparr>) }) }"

text \<open>\<open>realloc\<close> leaves the new bytes unspecified: they are the parameter \<open>junk\<close>.\<close>

definition nlmsg_expand ::
  "(nat \<Rightarrow> bool) \<Rightarrow> (nat \<Rightarrow> byte) \<Rightarrow> nl_msg \<Rightarrow> 's::len word \<Rightarrow> int \<times> nl_msg" where
  "nlmsg_expand ok junk n newlen =
     (if newlen \<le> word_of_nat (nm_size n) then (- EINVAL, n)
      else if \<not> ok (unat newlen) then (- ENOMEM, n)
      else (0, n\<lparr>nm_nlh := nm_nlh n @ map junk [length (nm_nlh n) ..< unat newlen], nm_size := unat newlen\<rparr>))"

definition nlmsg_put ::
  "'s::len itself \<Rightarrow> nl_msg \<Rightarrow> 32 word \<Rightarrow> 32 word \<Rightarrow> int \<Rightarrow> int \<Rightarrow> int \<Rightarrow> (nat option \<times> nl_msg) option" where
  "nlmsg_put size_t n pid sq ty payload flags =
     do { l \<leftarrow> ld32 (nm_nlh n) 0;
          u \<leftarrow> ensure (\<not> l < word_of_int NLMSG_HDRLEN);
          m \<leftarrow> put_hdr (word_of_int ty) (word_of_int flags) sq pid (nm_nlh n);
          (let n1 = n\<lparr>nm_nlh := m\<rparr>
           in if payload > 0
              then do { r \<leftarrow> nlmsg_reserve n1 (word_of_int payload :: 's word) NLMSG_ALIGNTO;
                        Some (case fst r of None \<Rightarrow> (None, snd r) | Some _ \<Rightarrow> (Some 0, snd r)) }
              else Some (Some 0, n1)) }"

section \<open>Attributes of a message object\<close>

definition nlmsg_set_proto :: "nl_msg \<Rightarrow> int \<Rightarrow> nl_msg" where
  "nlmsg_set_proto msg protocol = msg\<lparr>nm_protocol := word_of_int protocol\<rparr>"

definition nlmsg_get_proto :: "nl_msg \<Rightarrow> int" where
  "nlmsg_get_proto msg = sint (nm_protocol msg)"

definition nlmsg_get_max_size :: "nl_msg \<Rightarrow> nat" where
  "nlmsg_get_max_size msg = nm_size msg"

definition nlmsg_set_src :: "nl_msg \<Rightarrow> sockaddr_nl \<Rightarrow> nl_msg" where
  "nlmsg_set_src msg addr = msg\<lparr>nm_src := addr\<rparr>"

definition nlmsg_get_src :: "nl_msg \<Rightarrow> sockaddr_nl" where
  "nlmsg_get_src msg = nm_src msg"

definition nlmsg_set_dst :: "nl_msg \<Rightarrow> sockaddr_nl \<Rightarrow> nl_msg" where
  "nlmsg_set_dst msg addr = msg\<lparr>nm_dst := addr\<rparr>"

definition nlmsg_get_dst :: "nl_msg \<Rightarrow> sockaddr_nl" where
  "nlmsg_get_dst msg = nm_dst msg"

definition nlmsg_set_creds :: "nl_msg \<Rightarrow> ucred \<Rightarrow> nl_msg" where
  "nlmsg_set_creds msg creds =
     msg\<lparr>nm_creds := creds, nm_flags := nm_flags msg OR NL_MSG_CRED_PRESENT\<rparr>"

definition nlmsg_get_creds :: "nl_msg \<Rightarrow> ucred option" where
  "nlmsg_get_creds msg =
     (if nm_flags msg AND NL_MSG_CRED_PRESENT \<noteq> 0 then Some (nm_creds msg) else None)"

end
