(* ===== verification/NlAttr.thy ===== *)
theory NlAttr
  imports NlMsg
begin

text \<open>
  Netlink attributes (libnl/attr.c, and the functions of msg.c that use them): a stream of type, length
  and value records in the bytes of an object. An attribute is the offset of its header. \<open>int\<close> values
  that cannot leave their range are \<^typ>\<open>int\<close>.
\<close>

section \<open>Sizes and access\<close>

definition NLA_HDRLEN :: int where "NLA_HDRLEN = 4"

definition NLA_TYPE_MASK :: "16 word" where "NLA_TYPE_MASK = NOT (0x8000 OR 0x4000)"

definition nla_attr_size :: "int \<Rightarrow> int" where
  "nla_attr_size payload = NLA_HDRLEN + payload"

definition nla_total_size :: "int \<Rightarrow> int" where
  "nla_total_size payload = NLA_ALIGN (nla_attr_size payload)"

definition nla_padlen :: "int \<Rightarrow> int" where
  "nla_padlen payload = nla_total_size payload - nla_attr_size payload"

definition nla_type :: "byte list \<Rightarrow> nat \<Rightarrow> nat option" where
  "nla_type mem nla = do { t \<leftarrow> ld16 mem (nla + 2); Some (unat (t AND NLA_TYPE_MASK)) }"

definition nla_data :: "nat \<Rightarrow> nat" where
  "nla_data nla = nla + 4"

definition nla_len :: "byte list \<Rightarrow> nat \<Rightarrow> int option" where
  "nla_len mem nla = do { l \<leftarrow> ldu16 mem nla; Some (int l - NLA_HDRLEN) }"

section \<open>Parsing\<close>

text \<open>
  \<open>remaining >= sizeof (*nla)\<close> converts a negative \<open>remaining\<close> to a large unsigned number; the third
  comparison is one of \<open>int\<close>s.
\<close>

definition nla_ok :: "byte list \<Rightarrow> nat \<Rightarrow> int \<Rightarrow> bool option" where
  "nla_ok mem nla remaining =
     (if 0 \<le> remaining \<and> remaining < 4 then Some False
      else do { l \<leftarrow> ldu16 mem nla; Some (4 \<le> l \<and> int l \<le> remaining) })"

definition nla_next :: "byte list \<Rightarrow> nat \<Rightarrow> int \<Rightarrow> (nat \<times> int) option" where
  "nla_next mem nla remaining =
     do { l \<leftarrow> ldu16 mem nla;
          (let totlen = NLA_ALIGN (int l) in Some (nla + nat totlen, remaining - totlen)) }"

text \<open>
  \<open>nla_for_each_attr\<close>: the body gets the attribute and the state of the loop, and goes on or leaves
  the loop with a value. The result is the value or the state after the last turn, with \<open>rem\<close>.
\<close>

datatype ('s, 'r) turn = Next 's | Leave 'r

lemma nla_next_less:
  assumes "nla_ok mem pos r = Some True" and "nla_next mem pos r = Some (pos', r')"
  shows "r' < r" "0 < r"
proof -
  obtain l where l: "ldu16 mem pos = Some l" "4 \<le> l" "int l \<le> r"
    using assms(1) by (auto simp: nla_ok_def option_bind_Some_iff split: if_splits)
  then show "0 < r" by simp
  have "r' = r - int (align4 l)" using assms(2) l(1) by (auto simp: nla_next_def Let_def NLA_ALIGN_eq)
  then show "r' < r" using align4_bounds(1) [of l] l(2) by simp
qed

function nla_for_each_attr ::
  "byte list \<Rightarrow> (nat \<Rightarrow> 's \<Rightarrow> ('s, 'r) turn option) \<Rightarrow> nat \<Rightarrow> int \<Rightarrow> 's \<Rightarrow> (('s, 'r) turn \<times> int) option" where
  "nla_for_each_attr mem body pos r s =
     (case nla_ok mem pos r of
        None \<Rightarrow> None
      | Some False \<Rightarrow> Some (Next s, r)
      | Some True \<Rightarrow>
          (case body pos s of
             None \<Rightarrow> None
           | Some (Leave x) \<Rightarrow> Some (Leave x, r)
           | Some (Next s') \<Rightarrow>
               (case nla_next mem pos r of
                  None \<Rightarrow> None
                | Some (pos', r') \<Rightarrow> nla_for_each_attr mem body pos' r' s')))"
  by pat_completeness auto
termination
  by (relation "measure (\<lambda>(mem, body, pos, r, s). nat r)") (auto dest: nla_next_less)

declare nla_for_each_attr.simps [simp del]

record nla_policy =
  pt_type :: nat
  pt_minlen :: nat
  pt_maxlen :: nat

definition NLA_UNSPEC :: nat where "NLA_UNSPEC = 0"
definition NLA_STRING :: nat where "NLA_STRING = 5"
definition NLA_FLAG :: nat where "NLA_FLAG = 6"
definition NLA_TYPE_MAX :: nat where "NLA_TYPE_MAX = 8"

definition nla_attr_minlen :: "nat list" where
  "nla_attr_minlen = [0, 1, 2, 4, 8, 1, 0, 0, 4]"

definition validate_nla :: "byte list \<Rightarrow> nat \<Rightarrow> nat \<Rightarrow> nla_policy list \<Rightarrow> int option" where
  "validate_nla mem nla maxtype policy =
     do { ty \<leftarrow> nla_type mem nla;
          if ty = 0 \<or> ty > maxtype then Some 0
          else do {
            pt \<leftarrow> rd policy ty;
            u \<leftarrow> ensure (pt_type pt \<le> NLA_TYPE_MAX);
            minlen \<leftarrow> (if pt_minlen pt \<noteq> 0 then Some (pt_minlen pt)
                       else if pt_type pt \<noteq> NLA_UNSPEC then rd nla_attr_minlen (pt_type pt)
                       else Some 0);
            len \<leftarrow> nla_len mem nla;
            if pt_type pt = NLA_FLAG \<and> len > 0 then Some (- ERANGE)
            else if len < int minlen then Some (- ERANGE)
            else if pt_maxlen pt \<noteq> 0 \<and> len > int (pt_maxlen pt) then Some (- ERANGE)
            else if pt_type pt = NLA_STRING
            then do { c \<leftarrow> rdi mem (int (nla_data nla) + len - 1);
                      Some (if c \<noteq> 0 then - EINVAL else 0) }
            else Some 0 } }"

text \<open>\<open>nla_parse\<close>: the result with the array \<open>tb\<close>, which is filled up to the attribute that fails.\<close>

definition nla_parse_attr ::
  "byte list \<Rightarrow> nat \<Rightarrow> nla_policy list option \<Rightarrow> nat \<Rightarrow> nat option list \<Rightarrow>
     (nat option list, int \<times> nat option list) turn option" where
  "nla_parse_attr mem maxtype policy nla tb =
     do { ty \<leftarrow> nla_type mem nla;
          if ty = 0 then Some (Next tb)
          else if ty \<le> maxtype
          then do { err \<leftarrow> (case policy of None \<Rightarrow> Some 0 | Some p \<Rightarrow> validate_nla mem nla maxtype p);
                    if err < 0 then Some (Leave (err, tb))
                    else do { tb1 \<leftarrow> wr tb ty (Some nla); Some (Next tb1) } }
          else Some (Next tb) }"

definition nla_parse ::
  "byte list \<Rightarrow> nat \<Rightarrow> nat \<Rightarrow> int \<Rightarrow> nla_policy list option \<Rightarrow> (int \<times> nat option list) option" where
  "nla_parse mem maxtype head len policy =
     do { r \<leftarrow> nla_for_each_attr mem (nla_parse_attr mem maxtype policy) head len
                 (replicate (maxtype + 1) None);
          Some (case fst r of Leave x \<Rightarrow> x | Next tb \<Rightarrow> (0, tb)) }"

definition nla_parse_nested ::
  "byte list \<Rightarrow> nat \<Rightarrow> nat \<Rightarrow> nla_policy list option \<Rightarrow> (int \<times> nat option list) option" where
  "nla_parse_nested mem maxtype nla policy =
     do { l \<leftarrow> nla_len mem nla; nla_parse mem maxtype (nla_data nla) l policy }"

definition nla_validate :: "byte list \<Rightarrow> nat \<Rightarrow> int \<Rightarrow> nat \<Rightarrow> nla_policy list \<Rightarrow> int option" where
  "nla_validate mem head len maxtype policy =
     do { r \<leftarrow> nla_for_each_attr mem
                 (\<lambda>nla s. do { err \<leftarrow> validate_nla mem nla maxtype policy;
                               Some (if err < 0 then Leave err else Next ()) }) head len ();
          Some (case fst r of Leave err \<Rightarrow> err | Next _ \<Rightarrow> 0) }"

definition nla_find :: "byte list \<Rightarrow> nat \<Rightarrow> int \<Rightarrow> int \<Rightarrow> nat option option" where
  "nla_find mem head len attrtype =
     do { r \<leftarrow> nla_for_each_attr mem
                 (\<lambda>nla s. do { ty \<leftarrow> nla_type mem nla;
                               Some (if int ty = attrtype then Leave nla else Next ()) }) head len ();
          Some (case fst r of Leave nla \<Rightarrow> Some nla | Next _ \<Rightarrow> None) }"

section \<open>Utilities\<close>

text \<open>The number of bytes copied and the bytes. A null attribute is \<^term>\<open>None\<close>.\<close>

definition nla_memcpy :: "byte list \<Rightarrow> nat option \<Rightarrow> int \<Rightarrow> (int \<times> byte list) option" where
  "nla_memcpy mem nla count =
     (case nla of
        None \<Rightarrow> Some (0, [])
      | Some p \<Rightarrow>
          do { l \<leftarrow> nla_len mem p;
               (let minlen = min count l
                in do { u \<leftarrow> ensure (0 \<le> minlen); bs \<leftarrow> ld (nat minlen) mem (nla_data p);
                        Some (minlen, bs) }) })"

text \<open>The destination of \<open>dstsize\<close> bytes, and the length of the string. A payload length below 0 is
  a huge \<open>size_t\<close>, and the read before its end leaves the object.\<close>

definition nla_strlcpy :: "byte list \<Rightarrow> nat \<Rightarrow> nat \<Rightarrow> (byte list \<times> nat) option" where
  "nla_strlcpy mem nla dstsize =
     do { l \<leftarrow> nla_len mem nla;
          u \<leftarrow> ensure (0 \<le> l);
          (let n = nat l
           in do { z \<leftarrow> (if n > 0 then do { c \<leftarrow> ld8 mem (nla_data nla + n - 1); Some (c = 0) } else Some False);
                   (let srclen = (if z then n - 1 else n)
                    in if dstsize > 0
                       then (let len = (if srclen \<ge> dstsize then dstsize - 1 else srclen)
                             in do { bs \<leftarrow> ld len mem (nla_data nla);
                                     Some (bs @ replicate (dstsize - len) 0, srclen) })
                       else Some ([], srclen)) }) }"

text \<open>\<open>memcmp\<close> of blocks of the same length; only the sign of the result is specified.\<close>

fun memcmp :: "byte list \<Rightarrow> byte list \<Rightarrow> int" where
  "memcmp (a # as) (b # bs) = (if a = b then memcmp as bs else if a < b then - 1 else 1)"
| "memcmp _ _ = 0"

definition nla_memcmp :: "byte list \<Rightarrow> nat \<Rightarrow> byte list \<Rightarrow> int option" where
  "nla_memcmp mem nla data =
     do { l \<leftarrow> nla_len mem nla;
          (let d = l - int (length data)
           in if d = 0 then do { bs \<leftarrow> ld (length data) mem (nla_data nla); Some (memcmp bs data) }
              else Some d) }"

definition nla_strcmp :: "byte list \<Rightarrow> nat \<Rightarrow> byte list \<Rightarrow> int option" where
  "nla_strcmp mem nla str =
     (let s0 = str @ [0]
      in do { l \<leftarrow> nla_len mem nla;
              (let d = l - int (length s0)
               in if d = 0 then do { bs \<leftarrow> ld (length s0) mem (nla_data nla); Some (memcmp bs s0) }
                  else Some d) })"

section \<open>Construction\<close>

text \<open>
  \<open>tlen\<close> is an \<open>int\<close> assigned from an unsigned sum; \<open>tlen + nlmsg_len\<close> is unsigned. \<open>nla_len\<close> and
  \<open>nla_type\<close> are cut to 16 bits.
\<close>

definition nla_reserve :: "nl_msg \<Rightarrow> int \<Rightarrow> int \<Rightarrow> (nat option \<times> nl_msg) option" where
  "nla_reserve n attrtype attrlen =
     do { l \<leftarrow> ld32 (nm_nlh n) 0;
          (let tlen = NLMSG_ALIGN l + word_of_int (nla_total_size attrlen)
           in if unat (tlen + l) > nm_size n then Some (None, n)
              else do { nla \<leftarrow> nlmsg_tail (nm_nlh n) 0;
                        m1 \<leftarrow> st (b16 (word_of_int attrtype)) (nm_nlh n) (nla + 2);
                        (let alen = word_of_int (nla_attr_size attrlen) :: 16 word
                         in do { m2 \<leftarrow> st (b16 alen) m1 nla;
                                 m3 \<leftarrow> st (replicate (nat (nla_padlen attrlen)) 0) m2 (nla + unat alen);
                                 m4 \<leftarrow> st (b32 tlen) m3 0;
                                 Some (Some nla, n\<lparr>nm_nlh := m4\<rparr>) }) }) }"

definition nla_put :: "nl_msg \<Rightarrow> int \<Rightarrow> int \<Rightarrow> byte list \<Rightarrow> (int \<times> nl_msg) option" where
  "nla_put n attrtype attrlen data =
     do { r \<leftarrow> nla_reserve n attrtype attrlen;
          (case fst r of
             None \<Rightarrow> Some (- ENOMEM, snd r)
           | Some nla \<Rightarrow>
               do { u \<leftarrow> ensure (0 \<le> attrlen);
                    bs \<leftarrow> ld (nat attrlen) data 0;
                    m \<leftarrow> st bs (nm_nlh (snd r)) (nla_data nla);
                    Some (0, (snd r)\<lparr>nm_nlh := m\<rparr>) }) }"

definition nla_put_nested :: "nl_msg \<Rightarrow> int \<Rightarrow> nl_msg \<Rightarrow> (int \<times> nl_msg) option" where
  "nla_put_nested n attrtype nested =
     do { l \<leftarrow> nlmsg_len (nm_nlh nested) 0;
          nla_put n attrtype l (drop (nlmsg_data 0) (nm_nlh nested)) }"

definition nla_put_u8 :: "nl_msg \<Rightarrow> int \<Rightarrow> byte \<Rightarrow> (int \<times> nl_msg) option" where
  "nla_put_u8 n attrtype v = nla_put n attrtype 1 [v]"

definition nla_put_u16 :: "nl_msg \<Rightarrow> int \<Rightarrow> 16 word \<Rightarrow> (int \<times> nl_msg) option" where
  "nla_put_u16 n attrtype v = nla_put n attrtype 2 (b16 v)"

definition nla_put_u32 :: "nl_msg \<Rightarrow> int \<Rightarrow> 32 word \<Rightarrow> (int \<times> nl_msg) option" where
  "nla_put_u32 n attrtype v = nla_put n attrtype 4 (b32 v)"

definition nla_put_u64 :: "nl_msg \<Rightarrow> int \<Rightarrow> 64 word \<Rightarrow> (int \<times> nl_msg) option" where
  "nla_put_u64 n attrtype v = nla_put n attrtype 8 (b64 v)"

text \<open>A C string is its bytes without the NUL.\<close>

definition nla_put_string :: "nl_msg \<Rightarrow> int \<Rightarrow> byte list \<Rightarrow> (int \<times> nl_msg) option" where
  "nla_put_string n attrtype str = nla_put n attrtype (int (length str) + 1) (str @ [0])"

definition nla_put_flag :: "nl_msg \<Rightarrow> int \<Rightarrow> (int \<times> nl_msg) option" where
  "nla_put_flag n attrtype = nla_put n attrtype 0 []"

definition nla_put_msecs :: "nl_msg \<Rightarrow> int \<Rightarrow> 'l::len word \<Rightarrow> (int \<times> nl_msg) option" where
  "nla_put_msecs n attrtype msecs = nla_put_u64 n attrtype (ucast msecs)"

definition nla_nest_start :: "nl_msg \<Rightarrow> int \<Rightarrow> (nat option \<times> nl_msg) option" where
  "nla_nest_start n attrtype =
     do { start \<leftarrow> nlmsg_tail (nm_nlh n) 0;
          r \<leftarrow> nla_put n attrtype 0 [];
          Some (if fst r < 0 then None else Some start, snd r) }"

definition nla_nest_end :: "nl_msg \<Rightarrow> nat \<Rightarrow> (int \<times> nl_msg) option" where
  "nla_nest_end n start =
     do { tl \<leftarrow> nlmsg_tail (nm_nlh n) 0;
          m \<leftarrow> st (b16 (word_of_int (int tl - int start))) (nm_nlh n) start;
          Some (0, n\<lparr>nm_nlh := m\<rparr>) }"

section \<open>Reading\<close>

definition nla_get_u8 :: "byte list \<Rightarrow> nat \<Rightarrow> byte option" where
  "nla_get_u8 mem nla = ld8 mem (nla_data nla)"

definition nla_get_u16 :: "byte list \<Rightarrow> nat \<Rightarrow> 16 word option" where
  "nla_get_u16 mem nla = ld16 mem (nla_data nla)"

definition nla_get_u32 :: "byte list \<Rightarrow> nat \<Rightarrow> 32 word option" where
  "nla_get_u32 mem nla = ld32 mem (nla_data nla)"

text \<open>\<open>tmp\<close> is uninitialised where the payload is shorter than it.\<close>

definition nla_get_u64 :: "byte list \<Rightarrow> nat option \<Rightarrow> 64 word option" where
  "nla_get_u64 mem nla =
     do { r \<leftarrow> nla_memcpy mem nla 8; u \<leftarrow> ensure (fst r = 8); Some (word_of_nat (le_nat (snd r))) }"

definition nla_get_flag :: "nat option \<Rightarrow> bool" where
  "nla_get_flag nla = (nla \<noteq> None)"

definition nla_get_msecs :: "'l::len itself \<Rightarrow> byte list \<Rightarrow> nat option \<Rightarrow> 'l word option" where
  "nla_get_msecs long mem nla = map_option ucast (nla_get_u64 mem nla)"

section \<open>Attributes of a message\<close>

definition attr_pos :: "int \<Rightarrow> nat option" where
  "attr_pos p = (if 0 \<le> p then Some (nat p) else None)"

definition nlmsg_parse ::
  "byte list \<Rightarrow> nat \<Rightarrow> int \<Rightarrow> nat \<Rightarrow> nla_policy list option \<Rightarrow> (int \<times> nat option list option) option" where
  "nlmsg_parse mem nlh hdrlen maxtype policy =
     do { v \<leftarrow> nlmsg_valid_hdr mem nlh hdrlen;
          if \<not> v then Some (- EINVAL, None)
          else do { p \<leftarrow> attr_pos (nlmsg_attrdata nlh hdrlen);
                    l \<leftarrow> nlmsg_attrlen mem nlh hdrlen;
                    r \<leftarrow> nla_parse mem maxtype p l policy;
                    Some (fst r, Some (snd r)) } }"

definition nlmsg_find_attr :: "byte list \<Rightarrow> nat \<Rightarrow> int \<Rightarrow> int \<Rightarrow> nat option option" where
  "nlmsg_find_attr mem nlh hdrlen attrtype =
     do { p \<leftarrow> attr_pos (nlmsg_attrdata nlh hdrlen);
          l \<leftarrow> nlmsg_attrlen mem nlh hdrlen;
          nla_find mem p l attrtype }"

definition nlmsg_validate :: "byte list \<Rightarrow> nat \<Rightarrow> int \<Rightarrow> nat \<Rightarrow> nla_policy list \<Rightarrow> int option" where
  "nlmsg_validate mem nlh hdrlen maxtype policy =
     do { v \<leftarrow> nlmsg_valid_hdr mem nlh hdrlen;
          if \<not> v then Some (- EINVAL)
          else do { p \<leftarrow> attr_pos (nlmsg_attrdata nlh hdrlen);
                    l \<leftarrow> nlmsg_attrlen mem nlh hdrlen;
                    nla_validate mem p l maxtype policy } }"

end
