(* ===== verification/NlAttrProofs.thy ===== *)
theory NlAttrProofs
  imports NlAttr
begin

text \<open>
  What the attribute code promises: parsing an encoded stream finds every attribute, parsing arbitrary
  bytes stays inside them, and building a message appends to the stream it holds.
\<close>

section \<open>Encoded streams\<close>

text \<open>An attribute is its 16-bit type field and its payload.\<close>

type_synonym attr = "nat \<times> byte list"

definition attr_ok :: "attr \<Rightarrow> bool" where
  "attr_ok a \<longleftrightarrow> fst a < 65536 \<and> 4 + length (snd a) < 65536"

definition enc_attr :: "attr \<Rightarrow> byte list" where
  "enc_attr a = le_bytes 2 (4 + length (snd a)) @ le_bytes 2 (fst a) @ snd a @
     replicate (align4 (4 + length (snd a)) - (4 + length (snd a))) 0"

definition enc_attrs :: "attr list \<Rightarrow> byte list" where
  "enc_attrs as = concat (map enc_attr as)"

lemma length_enc_attr: "length (enc_attr a) = align4 (4 + length (snd a))"
  using align4_bounds(1) [of "4 + length (snd a)"] by (simp add: enc_attr_def)

lemma enc_attrs_simps [simp]:
  "enc_attrs [] = []" "enc_attrs (a # as) = enc_attr a @ enc_attrs as"
  "enc_attrs (as @ bs) = enc_attrs as @ enc_attrs bs"
  by (simp_all add: enc_attrs_def)

lemma dvd_enc_attrs: "4 dvd length (enc_attrs as)"
  by (induction as) (simp_all add: length_enc_attr align4_bounds(3))

text \<open>The attributes with their places, and the index the places make.\<close>

fun places :: "nat \<Rightarrow> attr list \<Rightarrow> (nat \<times> attr) list" where
  "places p [] = []"
| "places p (a # as) = (p, a) # places (p + length (enc_attr a)) as"

lemma places_append:
  "places p (as @ bs) = places p as @ places (p + length (enc_attrs as)) bs"
  by (induction as arbitrary: p) (simp_all add: add.assoc)

abbreviation base_type :: "nat \<Rightarrow> nat" where
  "base_type t \<equiv> t mod 16384"

definition type_index :: "nat \<Rightarrow> attr list \<Rightarrow> (nat \<times> nat) list" where
  "type_index p as = map (\<lambda>(q, a). (base_type (fst a), q)) (places p as)"

lemma type_index_simps [simp]:
  "type_index p [] = []"
  "type_index p (a # as) = (base_type (fst a), p) # type_index (p + length (enc_attr a)) as"
  by (simp_all add: type_index_def)

section \<open>One attribute\<close>

lemma attr_header:
  assumes "attr_ok a"
  shows "ldu16 (pre @ enc_attr a @ post) (length pre) = Some (4 + length (snd a))"
    and "ld16 (pre @ enc_attr a @ post) (length pre + 2) = Some (word_of_nat (fst a))"
    and "ld (length (snd a)) (pre @ enc_attr a @ post) (length pre + 4) = Some (snd a)"
proof -
  let ?l = "le_bytes 2 (4 + length (snd a))" and ?t = "le_bytes 2 (fst a)"
    and ?p = "replicate (align4 (4 + length (snd a)) - (4 + length (snd a))) 0 @ post"
  have m: "pre @ enc_attr a @ post = pre @ ?l @ ?t @ snd a @ ?p" by (simp add: enc_attr_def)
  show "ldu16 (pre @ enc_attr a @ post) (length pre) = Some (4 + length (snd a))"
    unfolding m using assms by (intro ldu16_at) (simp_all add: attr_ok_def)
  have t: "?t = b16 (word_of_nat (fst a))"
    using assms by (simp add: b16_def attr_ok_def unat_of_nat)
  show "ld16 (pre @ enc_attr a @ post) (length pre + 2) = Some (word_of_nat (fst a))"
    unfolding m t using ld16_at [of "length pre + 2" "pre @ ?l" "word_of_nat (fst a)" "snd a @ ?p"] by simp
  show "ld (length (snd a)) (pre @ enc_attr a @ post) (length pre + 4) = Some (snd a)"
    unfolding m using ld_at [of "snd a" "pre @ ?l @ ?t" ?p] by (simp add: add.assoc)
qed

lemma unat_type_mask: "unat (w AND NLA_TYPE_MASK) = unat w mod 16384"
proof -
  have "NLA_TYPE_MASK = mask 14" by (simp add: NLA_TYPE_MASK_def mask_eq_exp_minus_1)
  then have "w AND NLA_TYPE_MASK = take_bit 14 w" by (simp add: take_bit_eq_mask)
  then show ?thesis by (simp only: unsigned_take_bit_eq) (simp add: take_bit_eq_mod)
qed

lemma nla_type_at:
  "attr_ok a \<Longrightarrow> nla_type (pre @ enc_attr a @ post) (length pre) = Some (base_type (fst a))"
  using attr_header(2) [of a pre post]
  by (simp add: nla_type_def unat_type_mask unat_of_nat attr_ok_def)

lemma nla_len_at:
  "attr_ok a \<Longrightarrow> nla_len (pre @ enc_attr a @ post) (length pre) = Some (int (length (snd a)))"
  using attr_header(1) [of a pre post] by (simp add: nla_len_def NLA_HDRLEN_def)

section \<open>The loop\<close>

fun fold_turns :: "(nat \<Rightarrow> 's \<Rightarrow> ('s, 'r) turn option) \<Rightarrow> nat list \<Rightarrow> 's \<Rightarrow> ('s, 'r) turn option" where
  "fold_turns body [] s = Some (Next s)"
| "fold_turns body (p # ps) s =
     (case body p s of
        None \<Rightarrow> None
      | Some (Leave x) \<Rightarrow> Some (Leave x)
      | Some (Next s') \<Rightarrow> fold_turns body ps s')"

lemma loop_stream:
  assumes "\<forall>a \<in> set as. attr_ok a"
  shows "map_option fst (nla_for_each_attr (pre @ enc_attrs as @ post) body (length pre)
           (int (length (enc_attrs as))) s) = fold_turns body (map fst (places (length pre) as)) s"
  using assms
proof (induction as arbitrary: pre s)
  case Nil
  then show ?case by (subst nla_for_each_attr.simps) (simp add: nla_ok_def)
next
  case (Cons a as)
  let ?mem = "pre @ enc_attrs (a # as) @ post" and ?L = "align4 (4 + length (snd a))"
  let ?r = "int (length (enc_attrs (a # as)))"
  have ok: "attr_ok a" using Cons.prems by simp
  have mem: "?mem = pre @ enc_attr a @ (enc_attrs as @ post)" by simp
  have h: "ldu16 ?mem (length pre) = Some (4 + length (snd a))"
    unfolding mem by (rule attr_header(1) [OF ok])
  have L: "4 + length (snd a) \<le> ?L" by (rule align4_bounds)
  have 1: "nla_ok ?mem (length pre) ?r = Some True"
    using h L by (simp add: nla_ok_def length_enc_attr)
  have 2: "nla_next ?mem (length pre) ?r = Some (length pre + ?L, int (length (enc_attrs as)))"
    using h by (simp add: nla_next_def NLA_ALIGN_eq length_enc_attr)
  have mem2: "?mem = (pre @ enc_attr a) @ enc_attrs as @ post" by simp
  have len: "length (pre @ enc_attr a) = length pre + ?L" by (simp add: length_enc_attr)
  have IH: "map_option fst (nla_for_each_attr ?mem body (length pre + ?L) (int (length (enc_attrs as))) s')
      = fold_turns body (map fst (places (length pre + ?L) as)) s'" for s'
    using Cons.IH [of "pre @ enc_attr a" s'] Cons.prems unfolding len mem2 by simp
  show ?case
    by (subst nla_for_each_attr.simps)
       (simp only: 1 2 option.case bool.case prod.case, auto split: option.split turn.split simp: IH [simplified] length_enc_attr)
qed

lemma loop_stream_Some:
  assumes "\<forall>a \<in> set as. attr_ok a"
    and "fold_turns body (map fst (places (length pre) as)) s = Some t"
  shows "\<exists>r. nla_for_each_attr (pre @ enc_attrs as @ post) body (length pre)
           (int (length (enc_attrs as))) s = Some (t, r)"
  using loop_stream [OF assms(1), of pre post body s] assms(2) by auto

text \<open>A stream of arbitrary bytes that ends at \<open>fin\<close>, in an object with five bytes more.\<close>

definition attr_in :: "byte list \<Rightarrow> nat \<Rightarrow> nat \<Rightarrow> bool" where
  "attr_in mem p fin \<longleftrightarrow> (\<exists>l. ldu16 mem p = Some l \<and> 4 \<le> l \<and> p + l \<le> fin)"

lemma loop_inv:
  assumes "int pos + r = int fin" and "- 3 \<le> r" and "fin + 5 \<le> length mem" and "head \<le> pos" and "I s"
    and "\<And>p s. attr_in mem p fin \<Longrightarrow> head \<le> p \<Longrightarrow> I s \<Longrightarrow>
       \<exists>t. body p s = Some t \<and> (case t of Next s' \<Rightarrow> I s' | Leave x \<Rightarrow> J x)"
  shows "\<exists>t r'. nla_for_each_attr mem body pos r s = Some (t, r') \<and>
     (case t of Next s' \<Rightarrow> I s' | Leave x \<Rightarrow> J x)"
  using assms
proof (induction "nat (r + 3)" arbitrary: pos r s rule: less_induct)
  case less
  have "pos + 2 \<le> length mem" using less.prems(1-3) by linarith
  then obtain l where l: "ldu16 mem pos = Some l" using ldu16_ex by blast
  then have ok: "nla_ok mem pos r = Some (4 \<le> l \<and> int l \<le> r \<and> \<not> (0 \<le> r \<and> r < 4))"
    by (auto simp: nla_ok_def)
  show ?case
  proof (cases "4 \<le> l \<and> int l \<le> r")
    case False
    then show ?thesis using ok less.prems(5) by (subst nla_for_each_attr.simps) auto
  next
    case True
    then have okT: "nla_ok mem pos r = Some True" using ok by auto
    have ain: "attr_in mem pos fin" using l True less.prems(1) by (auto simp: attr_in_def)
    obtain t where t: "body pos s = Some t" "case t of Next s' \<Rightarrow> I s' | Leave x \<Rightarrow> J x"
      using less.prems(6) [OF ain less.prems(4,5)] by blast
    have nx: "nla_next mem pos r = Some (pos + align4 l, r - int (align4 l))"
      using l by (simp add: nla_next_def NLA_ALIGN_eq)
    have al: "l \<le> align4 l" "align4 l < l + 4" by (simp_all add: align4_bounds)
    show ?thesis
    proof (cases t)
      case (Leave x)
      then show ?thesis using okT t by (subst nla_for_each_attr.simps) auto
    next
      case (Next s')
      have "\<exists>t r'. nla_for_each_attr mem body (pos + align4 l) (r - int (align4 l)) s' = Some (t, r') \<and>
          (case t of Next s' \<Rightarrow> I s' | Leave x \<Rightarrow> J x)"
      proof (rule less.hyps)
        show "nat (r - int (align4 l) + 3) < nat (r + 3)" using al True by simp
        show "int (pos + align4 l) + (r - int (align4 l)) = int fin" using less.prems(1) by simp
        show "- 3 \<le> r - int (align4 l)" using al True by simp
        show "head \<le> pos + align4 l" using less.prems(4) by simp
        show "I s'" using t(2) Next by simp
      qed (use less.prems in auto)
      then show ?thesis using okT t(1) nx Next by (subst nla_for_each_attr.simps) auto
    qed
  qed
qed

section \<open>nla_parse on a well-formed stream\<close>

definition tb_of :: "nat \<Rightarrow> (nat \<times> nat) list \<Rightarrow> nat option list" where
  "tb_of maxtype ix = map (\<lambda>ty. if ty = 0 then None else map_of (rev ix) ty) [0 ..< Suc maxtype]"

lemma tb_of_snoc:
  "tb_of maxtype (ix @ [(ty, p)]) =
     (if 0 < ty \<and> ty \<le> maxtype then (tb_of maxtype ix)[ty := Some p] else tb_of maxtype ix)"
  by (intro nth_equalityI) (auto simp: tb_of_def nth_list_update simp del: upt_Suc)

lemma parse_turns:
  assumes "\<forall>a \<in> set as. attr_ok a"
  shows "fold_turns (nla_parse_attr (pre @ enc_attrs as @ post) maxtype None)
     (map fst (places (length pre) as)) (tb_of maxtype ix) =
     Some (Next (tb_of maxtype (ix @ type_index (length pre) as)))"
  using assms
proof (induction as arbitrary: pre ix)
  case (Cons a as)
  let ?mem = "pre @ enc_attrs (a # as) @ post" and ?ty = "base_type (fst a)"
  have ty: "nla_type ?mem (length pre) = Some ?ty"
    using nla_type_at [of a pre "enc_attrs as @ post"] Cons.prems by simp
  have "nla_parse_attr ?mem maxtype None (length pre) (tb_of maxtype ix) =
      Some (Next (tb_of maxtype (ix @ [(?ty, length pre)])))"
    unfolding nla_parse_attr_def ty
    by (auto simp: tb_of_snoc wr_def) (simp add: tb_of_def)
  moreover have "fold_turns (nla_parse_attr ?mem maxtype None)
      (map fst (places (length pre + length (enc_attr a)) as)) (tb_of maxtype (ix @ [(?ty, length pre)])) =
      Some (Next (tb_of maxtype ((ix @ [(?ty, length pre)]) @ type_index (length pre + length (enc_attr a)) as)))"
    using Cons.IH [of "pre @ enc_attr a" "ix @ [(?ty, length pre)]"] Cons.prems by simp
  ultimately show ?case by simp
qed simp

lemma parse_stream:
  assumes "\<forall>a \<in> set as. attr_ok a"
  shows "nla_parse (pre @ enc_attrs as @ post) maxtype (length pre) (int (length (enc_attrs as))) None =
     Some (0, tb_of maxtype (type_index (length pre) as))"
proof -
  have e: "replicate (maxtype + 1) None = tb_of maxtype []"
    by (intro nth_equalityI) (auto simp: tb_of_def simp del: upt_Suc)
  show ?thesis
    using loop_stream_Some [OF assms parse_turns [OF assms, of pre post maxtype "[]"], of post]
    unfolding nla_parse_def e by auto
qed

text \<open>
  C7. Parsing a well-formed attribute stream without a policy succeeds, and \<open>tb\<close> holds for every type
  from 1 to \<open>maxtype\<close> the place of the last attribute of that type (its two flag bits ignored), or a
  null pointer when there is none, for any number of attributes and any bytes around the stream.
\<close>

theorem nla_parse_stream:
  assumes "\<forall>a \<in> set as. attr_ok a"
  shows "nla_parse (pre @ enc_attrs as @ post) maxtype (length pre) (int (length (enc_attrs as))) None =
     Some (0, map (\<lambda>ty. if ty = 0 then None else map_of (rev (type_index (length pre) as)) ty) [0 ..< Suc maxtype])"
  unfolding parse_stream [OF assms] tb_of_def ..

theorem nla_parse_stream_witness:
  "nla_parse (enc_attrs [(1, [7]), (0x8002, [1, 2]), (1, [])] @ [9]) 2 0
     (int (length (enc_attrs [(1, [7]), (0x8002, [1, 2]), (1, [])]))) None = Some (0, [None, Some 16, Some 8])"
  using nla_parse_stream [of "[(1, [7]), (0x8002, [1, 2]), (1, [])]" "[]" "[9]" 2]
  by (simp add: attr_ok_def length_enc_attr align4_def type_index_def upt_rec)

section \<open>nla_find\<close>

lemma find_turns:
  assumes "\<forall>a \<in> set as. attr_ok a"
  shows "fold_turns (\<lambda>nla s. do { ty \<leftarrow> nla_type (pre @ enc_attrs as @ post) nla;
        Some (if int ty = attrtype then Leave nla else Next ()) }) (map fst (places (length pre) as)) () =
     Some (case map_of (map (\<lambda>(t, p). (int t, p)) (type_index (length pre) as)) attrtype of
        None \<Rightarrow> Next () | Some p \<Rightarrow> Leave p)"
  using assms
proof (induction as arbitrary: pre)
  case (Cons a as)
  have "nla_type (pre @ enc_attrs (a # as) @ post) (length pre) = Some (base_type (fst a))"
    using nla_type_at [of a pre "enc_attrs as @ post"] Cons.prems by simp
  then show ?case using Cons.IH [of "pre @ enc_attr a"] Cons.prems by simp
qed simp

lemma nla_find_stream:
  assumes "\<forall>a \<in> set as. attr_ok a"
  shows "nla_find (pre @ enc_attrs as @ post) (length pre) (int (length (enc_attrs as))) attrtype =
     Some (map_of (map (\<lambda>(t, p). (int t, p)) (type_index (length pre) as)) attrtype)"
  using loop_stream_Some [OF assms find_turns [OF assms, of pre post attrtype], of post]
  by (auto simp: nla_find_def split: option.splits)

section \<open>Arbitrary bytes\<close>

definition policy_ok :: "nat \<Rightarrow> nla_policy list \<Rightarrow> bool" where
  "policy_ok maxtype pol \<longleftrightarrow> maxtype < length pol \<and> (\<forall>pt \<in> set pol. pt_type pt \<le> NLA_TYPE_MAX)"

lemma attr_in_type: "attr_in mem p fin \<Longrightarrow> fin \<le> length mem \<Longrightarrow> \<exists>ty. nla_type mem p = Some ty"
  using ld16_ex [of "p + 2" mem] by (auto simp: attr_in_def nla_type_def)

lemma validate_nla_defined:
  assumes "attr_in mem p fin" and "fin \<le> length mem" and "policy_ok maxtype pol"
  shows "\<exists>v. validate_nla mem p maxtype pol = Some v \<and> v \<le> 0"
proof -
  obtain l where l: "ldu16 mem p = Some l" "4 \<le> l" "p + l \<le> fin" using assms(1) by (auto simp: attr_in_def)
  obtain ty where ty: "nla_type mem p = Some ty" using attr_in_type [OF assms(1,2)] by blast
  show ?thesis
  proof (cases "ty = 0 \<or> maxtype < ty")
    case False
    then have pt: "ty < length pol" "pt_type (pol ! ty) \<le> 8"
      using assms(3) by (auto simp: policy_ok_def NLA_TYPE_MAX_def)
    have len: "nla_len mem p = Some (int l - 4)" using l(1) by (simp add: nla_len_def NLA_HDRLEN_def)
    define minlen where "minlen = (if pt_minlen (pol ! ty) \<noteq> 0 then pt_minlen (pol ! ty)
        else if pt_type (pol ! ty) \<noteq> 0 then nla_attr_minlen ! pt_type (pol ! ty) else 0)"
    have m: "(if pt_minlen (pol ! ty) \<noteq> 0 then Some (pt_minlen (pol ! ty))
        else if pt_type (pol ! ty) \<noteq> NLA_UNSPEC then rd nla_attr_minlen (pt_type (pol ! ty)) else Some 0) = Some minlen"
      using pt(2) by (simp add: minlen_def NLA_UNSPEC_def rd_def nla_attr_minlen_def)
    have str: "pt_type (pol ! ty) = NLA_STRING \<Longrightarrow> 1 \<le> minlen"
      by (simp add: minlen_def NLA_STRING_def nla_attr_minlen_def)
    have c: "\<exists>c. rdi mem (int (nla_data p) + (int l - 4) - 1) = Some c" if "1 \<le> int l - 4"
      using that l assms(2) by (simp add: rdi_def nla_data_def rd_def)
    from ty False pt len m str c show ?thesis
      by (auto simp: validate_nla_def NLA_TYPE_MAX_def ERANGE_def EINVAL_def)
  qed (use ty in \<open>auto simp: validate_nla_def\<close>)
qed

text \<open>What a table of attributes promises about the bytes from \<open>head\<close> to \<open>fin\<close>.\<close>

definition tb_safe :: "byte list \<Rightarrow> nat \<Rightarrow> nla_policy list option \<Rightarrow> nat \<Rightarrow> nat \<Rightarrow> nat option list \<Rightarrow> bool" where
  "tb_safe mem maxtype policy head fin tb \<longleftrightarrow> length tb = Suc maxtype \<and>
     (\<forall>ty \<le> maxtype. \<forall>p. tb ! ty = Some p \<longrightarrow> head \<le> p \<and> attr_in mem p fin \<and> nla_type mem p = Some ty \<and>
        (\<forall>pol. policy = Some pol \<longrightarrow> validate_nla mem p maxtype pol = Some 0))"

lemma parse_attr_safe:
  assumes "attr_in mem p fin" and "head \<le> p" and "fin \<le> length mem" and "tb_safe mem maxtype policy head fin tb"
    and "\<And>pol. policy = Some pol \<Longrightarrow> policy_ok maxtype pol"
  shows "\<exists>t. nla_parse_attr mem maxtype policy p tb = Some t \<and>
     (case t of Next tb' \<Rightarrow> tb_safe mem maxtype policy head fin tb'
              | Leave x \<Rightarrow> fst x < 0 \<and> tb_safe mem maxtype policy head fin (snd x))"
proof -
  obtain ty where ty: "nla_type mem p = Some ty" using attr_in_type [OF assms(1,3)] by blast
  show ?thesis
  proof (cases "ty = 0 \<or> maxtype < ty")
    case True
    then show ?thesis using ty assms(4) by (auto simp: nla_parse_attr_def)
  next
    case False
    obtain err where err: "(case policy of None \<Rightarrow> Some 0 | Some q \<Rightarrow> validate_nla mem p maxtype q) = Some err" "err \<le> 0"
      using validate_nla_defined [OF assms(1,3)] assms(5) by (cases policy) auto
    have len: "ty < length tb" using False assms(4) by (simp add: tb_safe_def)
    have "err = 0 \<Longrightarrow> tb_safe mem maxtype policy head fin (tb[ty := Some p])"
      using assms(1,2,4) ty err len by (auto simp: tb_safe_def nth_list_update)
    then show ?thesis
      using False ty err len assms(4) by (cases "err = 0") (auto simp: nla_parse_attr_def wr_def)
  qed
qed

text \<open>
  C6. Whatever bytes a message holds, \<open>nla_parse\<close> with a policy of the documented kind (or none)
  returns, reads nothing beyond the five bytes behind the stream, and every pointer it stores in
  \<open>tb\<close>, also when it fails, is an attribute of that type that lies completely inside the stream and
  satisfies the policy.
\<close>

theorem nla_parse_safe:
  assumes "head + len + 5 \<le> length mem" and "\<forall>pol. policy = Some pol \<longrightarrow> policy_ok maxtype pol"
  shows "\<exists>err tb. nla_parse mem maxtype head (int len) policy = Some (err, tb) \<and> err \<le> 0 \<and>
     tb_safe mem maxtype policy head (head + len) tb"
proof -
  let ?I = "tb_safe mem maxtype policy head (head + len)"
  have "?I (replicate (maxtype + 1) None)" by (simp add: tb_safe_def del: replicate.simps)
  then obtain t r' where t: "nla_for_each_attr mem (nla_parse_attr mem maxtype policy) head (int len)
        (replicate (maxtype + 1) None) = Some (t, r')"
      and c: "case t of Next tb \<Rightarrow> ?I tb | Leave x \<Rightarrow> fst x < 0 \<and> ?I (snd x)"
    using loop_inv [where I = ?I and J = "\<lambda>x. fst x < 0 \<and> ?I (snd x)" and mem = mem and fin = "head + len"
        and head = head and pos = head and r = "int len" and s = "replicate (maxtype + 1) None"
        and body = "nla_parse_attr mem maxtype policy"]
      parse_attr_safe [of mem _ "head + len" head maxtype policy] assms by fastforce
  then show ?thesis
    by (cases t) (auto simp: nla_parse_def)
qed

theorem nla_parse_safe_witness:
  "\<exists>err tb. nla_parse ([5, 0, 1, 0, 7] @ replicate 5 0) 1 0 (int 5)
        (Some (replicate 2 \<lparr>pt_type = 2, pt_minlen = 0, pt_maxlen = 0\<rparr>)) = Some (err, tb) \<and> err \<le> 0 \<and>
     tb_safe ([5, 0, 1, 0, 7] @ replicate 5 0) 1
        (Some (replicate 2 \<lparr>pt_type = 2, pt_minlen = 0, pt_maxlen = 0\<rparr>)) 0 (0 + 5) tb"
  by (rule nla_parse_safe) (auto simp: policy_ok_def NLA_TYPE_MAX_def)

end
