(* ===== verification/NlMsgProofs.thy ===== *)
theory NlMsgProofs
  imports NlAttrProofs
begin

text \<open>
  Building messages: what a message object holds, and that every builder extends it. The sizes are
  those of real messages, below a gigabyte, so that no sum wraps around.
\<close>

section \<open>What a message holds\<close>

text \<open>
  A header whose fields behind the length are \<open>hdr\<close>, and a payload; the object's block has \<open>nm_size\<close>
  bytes.
\<close>

definition body :: "nl_msg \<Rightarrow> byte list \<Rightarrow> byte list \<Rightarrow> bool" where
  "body n hdr b \<longleftrightarrow> length hdr = 12 \<and> nm_size n < 2 ^ 30 \<and> length (nm_nlh n) = nm_size n \<and>
     (\<exists>post. nm_nlh n = b32 (word_of_nat (16 + length b)) @ hdr @ b @ post)"

lemma bodyE:
  assumes "body n hdr b"
  obtains post where "nm_nlh n = b32 (word_of_nat (16 + length b)) @ hdr @ b @ post" "length hdr = 12"
    "nm_size n = 16 + length b + length post" "16 + length b + length post < 2 ^ 30"
  using assms by (auto simp: body_def)

lemma bodyI:
  assumes "nm_nlh n = b32 (word_of_nat u) @ hdr @ b @ post" and "u = 16 + length b" and "length hdr = 12"
    and "nm_size n = u + length post" and "nm_size n < 2 ^ 30"
  shows "body n hdr b"
  using assms by (simp add: body_def)

lemma body_len: "body n hdr b \<Longrightarrow> ld32 (nm_nlh n) 0 = Some (word_of_nat (16 + length b))"
  using ld32_at [of 0 "[]" "word_of_nat (16 + length b)"] by (auto simp: body_def)

lemma body_tail:
  assumes "body n hdr b"
  shows "nlmsg_tail (nm_nlh n) 0 = Some (align4 (16 + length b))"
proof -
  have k: "16 + length b < 2 ^ 30" using assms by (auto elim: bodyE)
  then have "unat (word_of_nat (16 + length b) :: 32 word) = 16 + length b" by (intro unat_small) simp
  then show ?thesis
    using body_len [OF assms] NLMSG_ALIGN_eq [of "word_of_nat (16 + length b) :: 32 word"] k
    by (simp add: nlmsg_tail_def)
qed

definition holds :: "byte list \<Rightarrow> byte list \<Rightarrow> nl_msg \<Rightarrow> attr list \<Rightarrow> bool" where
  "holds hdr fam n as \<longleftrightarrow> body n hdr (fam @ enc_attrs as) \<and> 4 dvd length fam \<and> (\<forall>a \<in> set as. attr_ok a)"

definition used :: "byte list \<Rightarrow> attr list \<Rightarrow> nat" where
  "used fam as = 16 + length fam + length (enc_attrs as)"

lemma used_snoc: "used fam (as @ [a]) = used fam as + length (enc_attr a)"
  by (simp add: used_def)

lemma used_dvd: "4 dvd length fam \<Longrightarrow> 4 dvd used fam as"
  using dvd_enc_attrs [of as] by (simp add: used_def)

lemma NLMSG_ALIGN_id:
  assumes "4 dvd k" and "k < 2 ^ 31"
  shows "NLMSG_ALIGN (word_of_nat k :: 32 word) = word_of_nat k"
proof -
  have "unat (word_of_nat k :: 32 word) = k" using assms(2) by (intro unat_small) simp
  then have "unat (NLMSG_ALIGN (word_of_nat k :: 32 word)) = k"
    using assms NLMSG_ALIGN_eq [of "word_of_nat k :: 32 word"] by simp
  then have "word_of_nat (unat (NLMSG_ALIGN (word_of_nat k :: 32 word))) = (word_of_nat k :: 32 word)" by simp
  then show ?thesis by simp
qed

section \<open>nla_put\<close>

lemma take_blocks:
  assumes "length old = a + b + c + d"
  obtains o1 o2 o3 o4 where "old = o1 @ o2 @ o3 @ o4" "length o1 = a" "length o2 = b" "length o3 = c" "length o4 = d"
proof -
  have "old = take a old @ take b (drop a old) @ take c (drop (a + b) old) @ drop (a + b + c) old"
    by (metis add.commute append_take_drop_id drop_drop)
  moreover have "length (take a old) = a" "length (take b (drop a old)) = b"
      "length (take c (drop (a + b) old)) = c" "length (drop (a + b + c) old) = d"
    using assms by auto
  ultimately show ?thesis by (rule that)
qed

lemma put_sizes:
  fixes k :: nat
  assumes "4 + k < 65536" and "t < 65536"
  shows "nla_total_size (int k) = int (align4 (4 + k))"
    "nat (nla_padlen (int k)) = align4 (4 + k) - (4 + k)"
    "b16 (word_of_int (nla_attr_size (int k))) = le_bytes 2 (4 + k)"
    "unat (word_of_int (nla_attr_size (int k)) :: 16 word) = 4 + k"
    "b16 (word_of_int (int t)) = le_bytes 2 t"
proof -
  have e: "nla_attr_size (int k) = int (4 + k)" by (simp add: nla_attr_size_def NLA_HDRLEN_def)
  show T: "nla_total_size (int k) = int (align4 (4 + k))"
    unfolding nla_total_size_def e by (subst NLA_ALIGN_eq) (simp_all only: nat_int of_nat_0_le_iff)
  show "nat (nla_padlen (int k)) = align4 (4 + k) - (4 + k)"
    unfolding nla_padlen_def T e using align4_bounds(1) [of "4 + k"] by (simp only: nat_diff_distrib' flip: of_nat_diff)
  have u: "unat (word_of_nat j :: 16 word) = j" if "j < 65536" for j
    using that by (simp add: unat_of_nat)
  show U: "unat (word_of_int (nla_attr_size (int k)) :: 16 word) = 4 + k"
    unfolding e using u [OF assms(1)] by (simp only: of_int_of_nat_eq)
  show "b16 (word_of_int (nla_attr_size (int k))) = le_bytes 2 (4 + k)"
    by (simp only: b16_def U)
  show "b16 (word_of_int (int t)) = le_bytes 2 t"
    using u [OF assms(2)] by (simp only: b16_def of_int_of_nat_eq)
qed

lemma nla_reserve_start:
  assumes h: "holds hdr fam n as" and ok: "attr_ok a"
  shows "nla_reserve n (int (fst a)) (int (length (snd a))) =
     (if nm_size n < 2 * used fam as + length (enc_attr a) then Some (None, n)
      else do {
        m1 \<leftarrow> st (le_bytes 2 (fst a)) (nm_nlh n) (used fam as + 2);
        m2 \<leftarrow> st (le_bytes 2 (4 + length (snd a))) m1 (used fam as);
        m3 \<leftarrow> st (replicate (align4 (4 + length (snd a)) - (4 + length (snd a))) 0) m2
               (used fam as + (4 + length (snd a)));
        m4 \<leftarrow> st (b32 (word_of_nat (used fam (as @ [a])))) m3 0;
        Some (Some (used fam as), n\<lparr>nm_nlh := m4\<rparr>) })"
proof -
  let ?U = "used fam as" and ?k = "length (snd a)" and ?A = "align4 (4 + length (snd a))"
  have bd: "body n hdr (fam @ enc_attrs as)" and fam: "4 dvd length fam" using h by (auto simp: holds_def)
  have t: "4 + ?k < 65536" "fst a < 65536" using ok by (auto simp: attr_ok_def)
  have U: "?U < 2 ^ 30" "?A < 65540"
    using bd align4_bounds(2) [of "4 + ?k"] t(1) by (auto elim!: bodyE simp: used_def)
  have l: "ld32 (nm_nlh n) 0 = Some (word_of_nat ?U)" using body_len [OF bd] by (simp add: used_def add.assoc)
  have tail: "nlmsg_tail (nm_nlh n) 0 = Some ?U"
    using body_tail [OF bd] used_dvd [OF fam, of as] by (simp add: used_def add.assoc)
  have al: "NLMSG_ALIGN (word_of_nat ?U :: 32 word) = word_of_nat ?U"
    using U by (intro NLMSG_ALIGN_id used_dvd [OF fam]) simp
  have tlen: "(word_of_nat ?U :: 32 word) + word_of_int (int ?A) = word_of_nat (?U + ?A)" by simp
  have sum: "unat ((word_of_nat (?U + ?A) :: 32 word) + word_of_nat ?U) = 2 * ?U + ?A"
  proof -
    have "(word_of_nat (?U + ?A) :: 32 word) + word_of_nat ?U = word_of_nat (2 * ?U + ?A)" by simp
    moreover have "2 * ?U + ?A < 2 ^ 32" using U by simp
    ultimately show ?thesis by (simp only: unat_small)
  qed
  show ?thesis
    unfolding nla_reserve_def l put_sizes [OF t] al tlen Let_def bind.bind_lunit
    by (simp only: sum tail bind.bind_lunit length_enc_attr) (simp add: used_snoc length_enc_attr not_less)
qed

text \<open>The writes, on a block split where they go.\<close>

lemma put_writes:
  fixes T D :: "byte list"
  assumes "length L = 4" and "length o1 = 2" and "length o2 = 2"
    and "length o3 = k" and "length o4 = z" and "length D = k" and "length T = 2" and "length K = 2"
    and "length L' = 4" and "P = L @ Q"
  shows "do { m1 \<leftarrow> st T (P @ o1 @ o2 @ o3 @ o4 @ post) (length P + 2);
              m2 \<leftarrow> st K m1 (length P);
              m3 \<leftarrow> st (replicate z 0) m2 (length P + (4 + k));
              m4 \<leftarrow> st L' m3 0;
              st D m4 (length P + 4) } = Some (L' @ Q @ K @ T @ D @ replicate z 0 @ post)"
proof -
  have 1: "st T (P @ o1 @ o2 @ o3 @ o4 @ post) (length P + 2) = Some (P @ o1 @ T @ o3 @ o4 @ post)"
    using st_at [of o2 T "length P + 2" "P @ o1" "o3 @ o4 @ post"] assms by simp
  have 2: "st K (P @ o1 @ T @ o3 @ o4 @ post) (length P) = Some (P @ K @ T @ o3 @ o4 @ post)"
    using st_at [of o1 K "length P" P "T @ o3 @ o4 @ post"] assms by simp
  have 3: "st (replicate z 0) (P @ K @ T @ o3 @ o4 @ post) (length P + (4 + k)) =
      Some (P @ K @ T @ o3 @ replicate z 0 @ post)"
    using st_at [of o4 "replicate z 0" "length P + (4 + k)" "P @ K @ T @ o3" post] assms by simp
  have 4: "st L' (P @ K @ T @ o3 @ replicate z 0 @ post) 0 = Some (L' @ Q @ K @ T @ o3 @ replicate z 0 @ post)"
    using st_at [of L L' 0 "[]" "Q @ K @ T @ o3 @ replicate z 0 @ post"] assms by simp
  have 5: "st D (L' @ Q @ K @ T @ o3 @ replicate z 0 @ post) (length P + 4) =
      Some (L' @ Q @ K @ T @ D @ replicate z 0 @ post)"
    using st_at [of o3 D "length P + 4" "L' @ Q @ K @ T" "replicate z 0 @ post"] assms by simp
  show ?thesis by (simp only: 1 2 3 4 5 bind.bind_lunit)
qed

lemma nla_put_eq:
  assumes h: "holds hdr fam n as" and ok: "attr_ok a"
  shows "nla_put n (int (fst a)) (int (length (snd a))) (snd a) =
     (if nm_size n < 2 * used fam as + length (enc_attr a) then Some (- ENOMEM, n)
      else do {
        m \<leftarrow> do {
          m1 \<leftarrow> st (le_bytes 2 (fst a)) (nm_nlh n) (used fam as + 2);
          m2 \<leftarrow> st (le_bytes 2 (4 + length (snd a))) m1 (used fam as);
          m3 \<leftarrow> st (replicate (align4 (4 + length (snd a)) - (4 + length (snd a))) 0) m2
                 (used fam as + (4 + length (snd a)));
          m4 \<leftarrow> st (b32 (word_of_nat (used fam (as @ [a])))) m3 0;
          st (snd a) m4 (used fam as + 4) };
        Some (0, n\<lparr>nm_nlh := m\<rparr>) })"
proof -
  have ld: "ld (nat (int (length (snd a)))) (snd a) 0 = Some (snd a)" by (simp add: ld_def)
  show ?thesis
    unfolding nla_put_def nla_reserve_start [OF assms]
    by (simp add: ld nla_data_def bind_assoc del: nat_int)
qed

lemma nla_put_fits:
  assumes h: "holds hdr fam n as" and ok: "attr_ok a"
    and room: "2 * used fam as + length (enc_attr a) \<le> nm_size n"
  shows "\<exists>m. nla_put n (int (fst a)) (int (length (snd a))) (snd a) = Some (0, n\<lparr>nm_nlh := m\<rparr>) \<and>
     holds hdr fam (n\<lparr>nm_nlh := m\<rparr>) (as @ [a])"
proof -
  let ?U = "used fam as" and ?k = "length (snd a)" and ?A = "align4 (4 + length (snd a))"
  have bd: "body n hdr (fam @ enc_attrs as)" and fam: "4 dvd length fam" and oks: "\<forall>a \<in> set as. attr_ok a"
    using h by (auto simp: holds_def)
  obtain post where m: "nm_nlh n = b32 (word_of_nat ?U) @ hdr @ (fam @ enc_attrs as) @ post"
      and hdr: "length hdr = 12" and sz: "nm_size n = ?U + length post" "nm_size n < 2 ^ 30"
    using bd by (elim bodyE) (simp add: used_def add.assoc)
  have "?A \<le> length post" using room sz by (simp add: length_enc_attr)
  then obtain old rst where post: "post = old @ rst" "length old = ?A"
    by (metis append_take_drop_id length_take min_absorb2)
  have A: "?A = 2 + 2 + ?k + (?A - (4 + ?k))" using align4_bounds(1) [of "4 + ?k"] by simp
  obtain o1 o2 o3 o4 where old: "old = o1 @ o2 @ o3 @ o4" "length o1 = 2" "length o2 = 2"
      "length o3 = ?k" "length o4 = ?A - (4 + ?k)"
    using post(2) A by (metis take_blocks)
  let ?Q = "hdr @ fam @ enc_attrs as" and ?L = "b32 (word_of_nat ?U)"
  have nm: "nm_nlh n = (?L @ ?Q) @ o1 @ o2 @ o3 @ o4 @ rst" using m post(1) old(1) by simp
  have lenU: "length (?L @ ?Q) = ?U" using hdr by (simp add: used_def)
  let ?m = "b32 (word_of_nat (used fam (as @ [a]))) @ ?Q @ enc_attr a @ rst"
  have "nla_put n (int (fst a)) (int ?k) (snd a) = Some (0, n\<lparr>nm_nlh := ?m\<rparr>)"
    using room put_writes [of ?L o1 o2 o3 ?k o4 "?A - (4 + ?k)" "snd a" "le_bytes 2 (fst a)"
        "le_bytes 2 (4 + ?k)" "b32 (word_of_nat (used fam (as @ [a])))" "?L @ ?Q" ?Q rst] old
    unfolding nla_put_eq [OF h ok] nm lenU by (simp add: enc_attr_def not_less)
  moreover have "holds hdr fam (n\<lparr>nm_nlh := ?m\<rparr>) (as @ [a])"
  proof -
    have "length ?m = nm_size n"
      using sz(1) post old hdr by (simp add: used_def length_enc_attr)
    then show ?thesis
      using oks ok fam hdr sz(2) by (auto simp: holds_def body_def used_def add.assoc)
  qed
  ultimately show ?thesis by blast
qed

lemma nla_put_size:
  assumes "holds hdr fam n as" and "attr_ok a"
    and "nla_put n (int (fst a)) (int (length (snd a))) (snd a) = Some (0, m')"
  shows "nm_size m' = nm_size n"
proof (cases "2 * used fam as + length (enc_attr a) \<le> nm_size n")
  case True
  from nla_put_fits [OF assms(1,2) this] assms(3) show ?thesis by auto
next
  case False
  then show ?thesis using nla_put_eq [OF assms(1,2)] assms(3) by (simp add: ENOMEM_def)
qed

text \<open>
  C23. \<open>nla_put\<close> on a message that holds a stream of attributes: when twice the bytes used plus the new
  attribute do not exceed the block, it returns 0 and the message holds the stream with the attribute
  appended, header, family header and earlier attributes unchanged; otherwise it returns an error and
  the message is unchanged. (The condition is the code's, which counts the bytes used twice: a message
  more than half full takes no attribute, however much room is left.)
\<close>

theorem nla_put_appends:
  assumes "holds hdr fam n as" and "attr_ok a"
  shows "if 2 * used fam as + length (enc_attr a) \<le> nm_size n
     then \<exists>m. nla_put n (int (fst a)) (int (length (snd a))) (snd a) = Some (0, n\<lparr>nm_nlh := m\<rparr>) \<and>
              holds hdr fam (n\<lparr>nm_nlh := m\<rparr>) (as @ [a])
     else nla_put n (int (fst a)) (int (length (snd a))) (snd a) = Some (- ENOMEM, n)"
  using nla_put_fits [OF assms] nla_put_eq [OF assms] by (simp add: not_le)

section \<open>Writers of attributes\<close>

text \<open>
  What the code that fills a message relies on: \<open>holds m as\<close> is the stream in the message, \<open>room m k\<close>
  that \<open>k\<close> more bytes of attributes can be put.
\<close>

locale attr_writer =
  fixes stream :: "'m \<Rightarrow> attr list \<Rightarrow> bool" and put :: "'m \<Rightarrow> attr \<Rightarrow> (int \<times> 'm) option"
    and room :: "'m \<Rightarrow> nat \<Rightarrow> bool"
  assumes put_ok: "stream m as \<Longrightarrow> attr_ok a \<Longrightarrow> room m (length (enc_attr a)) \<Longrightarrow>
      \<exists>m'. put m a = Some (0, m') \<and> stream m' (as @ [a])"
    and room_put: "stream m as \<Longrightarrow> put m a = Some (0, m') \<Longrightarrow> stream m' (as @ [a]) \<Longrightarrow>
      room m (length (enc_attr a) + k) \<Longrightarrow> room m' k"
    and room_mono: "room m (j + k) \<Longrightarrow> room m j"
begin

fun puts :: "'m \<Rightarrow> attr list \<Rightarrow> 'm option" where
  "puts m [] = Some m"
| "puts m (a # as) = do { r \<leftarrow> put m a; if fst r < 0 then None else puts (snd r) as }"

lemma puts_ok:
  "stream m as \<Longrightarrow> \<forall>b \<in> set bs. attr_ok b \<Longrightarrow> room m (length (enc_attrs bs)) \<Longrightarrow>
   \<exists>m'. puts m bs = Some m' \<and> stream m' (as @ bs)"
proof (induction bs arbitrary: m as)
  case (Cons b bs)
  then obtain m' where m': "put m b = Some (0, m')" "stream m' (as @ [b])"
    using put_ok [of m as b] room_mono [of m "length (enc_attr b)"] by auto
  moreover have "room m' (length (enc_attrs bs))"
    using room_put [OF Cons.prems(1) m'] Cons.prems(3) by simp
  ultimately show ?case using Cons.IH [of m' "as @ [b]"] Cons.prems by simp
qed simp

end

definition put_attr :: "nl_msg \<Rightarrow> attr \<Rightarrow> (int \<times> nl_msg) option" where
  "put_attr n a = nla_put n (int (fst a)) (int (length (snd a))) (snd a)"

definition put_room :: "nl_msg \<Rightarrow> nat \<Rightarrow> bool" where
  "put_room n k \<longleftrightarrow> (\<forall>l. ld32 (nm_nlh n) 0 = Some l \<longrightarrow> 2 * (unat l + k) \<le> nm_size n)"

lemma holds_used:
  assumes "holds hdr fam n as"
  shows "ld32 (nm_nlh n) 0 = Some (word_of_nat (used fam as))" "unat (word_of_nat (used fam as) :: 32 word) = used fam as"
proof -
  have bd: "body n hdr (fam @ enc_attrs as)" using assms by (simp add: holds_def)
  show "ld32 (nm_nlh n) 0 = Some (word_of_nat (used fam as))"
    using body_len [OF bd] by (simp add: used_def add.assoc)
  have "used fam as < 2 ^ 30" using bd by (auto elim!: bodyE simp: used_def)
  then show "unat (word_of_nat (used fam as) :: 32 word) = used fam as" by (intro unat_small) simp
qed

lemma put_room_iff: "holds hdr fam n as \<Longrightarrow> put_room n k \<longleftrightarrow> 2 * (used fam as + k) \<le> nm_size n"
  by (simp add: put_room_def holds_used)

interpretation msg_writer: attr_writer "holds hdr fam" put_attr put_room for hdr fam
proof
  fix n as a assume "holds hdr fam n as" "attr_ok a" "put_room n (length (enc_attr a))"
  then show "\<exists>m'. put_attr n a = Some (0, m') \<and> holds hdr fam m' (as @ [a])"
    using nla_put_fits [of hdr fam n as a] by (auto simp: put_attr_def put_room_iff)
next
  fix n as a m' k
  assume h: "holds hdr fam n as" and p: "put_attr n a = Some (0, m')" and h': "holds hdr fam m' (as @ [a])"
    and r: "put_room n (length (enc_attr a) + k)"
  have "attr_ok a" using h' by (simp add: holds_def)
  then have "nm_size m' = nm_size n"
    using p nla_put_size [OF h] by (simp add: put_attr_def)
  then show "put_room m' k"
    using r by (simp add: put_room_iff [OF h] put_room_iff [OF h'] used_snoc add.assoc)
next
  fix n j k assume "put_room n (j + k)"
  then show "put_room n j" by (auto simp: put_room_def)
qed

section \<open>Reading a message back\<close>

lemma holds_mem:
  assumes "holds hdr fam n as"
  obtains pre post where "nm_nlh n = pre @ enc_attrs as @ post" "length pre = 16 + length fam"
proof -
  obtain post where "nm_nlh n = (b32 (word_of_nat (used fam as)) @ hdr @ fam) @ enc_attrs as @ post"
      "length hdr = 12"
    using assms by (auto simp: holds_def used_def add.assoc elim!: bodyE)
  then show ?thesis by (intro that [of "b32 (word_of_nat (used fam as)) @ hdr @ fam" post]) auto
qed

lemma holds_attrs:
  assumes "holds hdr fam n as"
  shows "attr_pos (nlmsg_attrdata 0 (int (length fam))) = Some (16 + length fam)"
    and "nlmsg_attrlen (nm_nlh n) 0 (int (length fam)) = Some (int (length (enc_attrs as)))"
    and "nlmsg_valid_hdr (nm_nlh n) 0 (int (length fam)) = Some True"
proof -
  have fam: "4 dvd length fam" and bd: "body n hdr (fam @ enc_attrs as)" using assms by (auto simp: holds_def)
  have A: "NLA_ALIGN (int (length fam)) = int (length fam)" using fam by (simp add: NLA_ALIGN_eq)
  show "attr_pos (nlmsg_attrdata 0 (int (length fam))) = Some (16 + length fam)"
    by (simp add: attr_pos_def nlmsg_attrdata_def nlmsg_data_def A nat_add_distrib)
  have U: "used fam as < 2 ^ 30" using bd by (auto elim!: bodyE simp: used_def)
  have w: "(word_of_nat (used fam as) :: 32 word) - word_of_int NLMSG_HDRLEN =
      word_of_nat (length fam + length (enc_attrs as))"
    by (simp add: used_def NLMSG_HDRLEN_def)
  have s: "sint (word_of_nat (length fam + length (enc_attrs as)) :: 32 word) = int (length fam + length (enc_attrs as))"
    using U by (intro sint_small) (simp add: used_def)
  show "nlmsg_attrlen (nm_nlh n) 0 (int (length fam)) = Some (int (length (enc_attrs as)))"
    by (simp only: nlmsg_attrlen_def nlmsg_len_def holds_used(1) [OF assms] bind.bind_lunit w s A) simp
  have "(word_of_int (nlmsg_msg_size (int (length fam))) :: 32 word) = word_of_nat (16 + length fam)"
    by (simp add: nlmsg_msg_size_def NLMSG_HDRLEN_def)
  moreover have "unat (word_of_nat (16 + length fam) :: 32 word) = 16 + length fam"
    using U by (intro unat_small) (simp add: used_def)
  ultimately show "nlmsg_valid_hdr (nm_nlh n) 0 (int (length fam)) = Some True"
    using holds_used [OF assms] by (simp add: nlmsg_valid_hdr_def not_less word_le_nat_alt used_def)
qed

lemma nlmsg_parse_holds:
  assumes "holds hdr fam n as"
  shows "nlmsg_parse (nm_nlh n) 0 (int (length fam)) maxtype None =
     Some (0, Some (tb_of maxtype (type_index (16 + length fam) as)))"
proof -
  obtain pre post where m: "nm_nlh n = pre @ enc_attrs as @ post" "length pre = 16 + length fam"
    using holds_mem [OF assms] .
  have ok: "\<forall>a \<in> set as. attr_ok a" using assms by (simp add: holds_def)
  have "nla_parse (nm_nlh n) maxtype (16 + length fam) (int (length (enc_attrs as))) None =
      Some (0, tb_of maxtype (type_index (16 + length fam) as))"
    using parse_stream [OF ok, of pre post maxtype] unfolding m .
  then show ?thesis by (simp add: nlmsg_parse_def holds_attrs [OF assms])
qed

lemma nlmsg_find_holds:
  assumes "holds hdr fam n as"
  shows "nlmsg_find_attr (nm_nlh n) 0 (int (length fam)) attrtype =
     Some (map_of (map (\<lambda>(t, p). (int t, p)) (type_index (16 + length fam) as)) attrtype)"
proof -
  obtain pre post where m: "nm_nlh n = pre @ enc_attrs as @ post" "length pre = 16 + length fam"
    using holds_mem [OF assms] .
  have ok: "\<forall>a \<in> set as. attr_ok a" using assms by (simp add: holds_def)
  have "nla_find (nm_nlh n) (16 + length fam) (int (length (enc_attrs as))) attrtype =
      Some (map_of (map (\<lambda>(t, p). (int t, p)) (type_index (16 + length fam) as)) attrtype)"
    using nla_find_stream [OF ok, of pre post attrtype] unfolding m .
  then show ?thesis by (simp add: nlmsg_find_attr_def holds_attrs [OF assms])
qed

section \<open>Messages from scratch\<close>

definition simple_hdr :: "int \<Rightarrow> int \<Rightarrow> byte list" where
  "simple_hdr ty flags = b16 (word_of_int ty) @ b16 (word_of_int flags) @ b32 0 @ b32 0"

lemma put_hdr_eq:
  assumes "length hdr = 12" and "length L = 4"
  shows "put_hdr ty fl sq pid (L @ hdr @ post) = Some (L @ (b16 ty @ b16 fl @ b32 sq @ b32 pid) @ post)"
proof -
  have "length hdr = 2 + 2 + 4 + 4" by (simp add: assms(1))
  then obtain o1 o2 o3 o4 where h: "hdr = o1 @ o2 @ o3 @ o4" "length o1 = 2" "length o2 = 2"
      "length o3 = 4" "length o4 = 4"
    by (rule take_blocks)
  show ?thesis
    using st_at [of o1 "b16 ty" 4 L "o2 @ o3 @ o4 @ post"] st_at [of o2 "b16 fl" 6 "L @ b16 ty" "o3 @ o4 @ post"]
      st_at [of o3 "b32 sq" 8 "L @ b16 ty @ b16 fl" "o4 @ post"]
      st_at [of o4 "b32 pid" 12 "L @ b16 ty @ b16 fl @ b32 sq" post] h assms(2)
    by (simp add: put_hdr_def)
qed

lemma calloc_body:
  fixes len :: "'s::len word"
  assumes "ok (sizeof_nl_msg (LENGTH('s)))" and "ok (unat len)" and "16 \<le> unat len" and "unat len < 2 ^ 30"
  obtains n where "nlmsg_calloc ok len = Some (Some n)" "body n (replicate 12 0) []" "nm_size n = unat len"
proof -
  have r: "replicate (unat len) (0 :: byte) = replicate 4 0 @ replicate 12 0 @ replicate (unat len - 16) 0"
    using assms(3) by (simp flip: replicate_add)
  have t: "b32 (word_of_int (nlmsg_total_size 0)) = b32 (word_of_nat 16)"
    by (simp add: nlmsg_total_size_def nlmsg_msg_size_def NLMSG_HDRLEN_def NLA_ALIGN_eq align4_def)
  have "st (b32 (word_of_int (nlmsg_total_size 0))) (replicate (unat len) 0) 0 =
      Some (b32 (word_of_nat 16) @ replicate 12 0 @ replicate (unat len - 16) 0)"
    unfolding r t using st_at [of "replicate 4 0" "b32 (word_of_nat 16)" 0 "[]"] by (simp)
  then show ?thesis
    using assms by (intro that) (auto simp: nlmsg_calloc_def body_def)
qed

lemma alloc_simple_holds:
  fixes len :: "'s::len word"
  assumes "ok (sizeof_nl_msg (LENGTH('s)))" and "ok (unat len)" and "16 \<le> unat len" and "unat len < 2 ^ 30"
  obtains n where "nlmsg_alloc_simple ok len ty flags = Some (Some n)" "holds (simple_hdr ty flags) [] n []"
    "nm_size n = unat len"
proof -
  obtain n where n: "nlmsg_calloc ok len = Some (Some n)" "body n (replicate 12 0) []" "nm_size n = unat len"
    using calloc_body [OF assms] .
  obtain post where m: "nm_nlh n = b32 (word_of_nat 16) @ replicate 12 0 @ post"
      "nm_size n = 16 + length post" "16 + length post < 2 ^ 30"
    using n(2) by (auto elim: bodyE)
  let ?t = "b32 0 @ b16 (word_of_int ty) @ b16 (word_of_int flags) @ b32 0 @ b32 0"
  have "ld16 ?t 4 = Some (word_of_int ty)"
    using ld16_at [of 4 "b32 0" "word_of_int ty" "b16 (word_of_int flags) @ b32 0 @ b32 0"] by simp
  moreover have "ld16 ?t 6 = Some (word_of_int flags)"
    using ld16_at [of 6 "b32 0 @ b16 (word_of_int ty)" "word_of_int flags" "b32 0 @ b32 0"] by simp
  moreover have "ld32 ?t 8 = Some 0"
    using ld32_at [of 8 "b32 0 @ b16 (word_of_int ty) @ b16 (word_of_int flags)" 0 "b32 0"] by simp
  moreover have "ld32 ?t 12 = Some 0"
    using ld32_at [of 12 "b32 0 @ b16 (word_of_int ty) @ b16 (word_of_int flags) @ b32 0" 0 "[]"] by simp
  moreover have "put_hdr (word_of_int ty) (word_of_int flags) 0 0 (nm_nlh n) =
      Some (b32 (word_of_nat 16) @ simple_hdr ty flags @ post)"
    unfolding m(1) simple_hdr_def by (rule put_hdr_eq) simp_all
  ultimately have "nlmsg_alloc_simple ok len ty flags =
      Some (Some (n\<lparr>nm_nlh := b32 (word_of_nat 16) @ simple_hdr ty flags @ post\<rparr>))"
    using n(1) by (simp add: nlmsg_alloc_simple_def nlmsg_inherit_def nlmsg_alloc_def)
  moreover have "holds (simple_hdr ty flags) [] (n\<lparr>nm_nlh := b32 (word_of_nat 16) @ simple_hdr ty flags @ post\<rparr>) []"
    using m(2,3) by (auto simp: holds_def body_def simple_hdr_def)
  ultimately show ?thesis
    using n(3) that [of "n\<lparr>nm_nlh := b32 (word_of_nat 16) @ simple_hdr ty flags @ post\<rparr>"] by simp
qed

text \<open>The puts of a program one after the other, as the \<open>NLA_PUT\<close> macros do: the first failure ends them.\<close>

fun put_attrs :: "nl_msg \<Rightarrow> attr list \<Rightarrow> nl_msg option" where
  "put_attrs n [] = Some n"
| "put_attrs n (a # as) =
     do { r \<leftarrow> nla_put n (int (fst a)) (int (length (snd a))) (snd a);
          if fst r < 0 then None else put_attrs (snd r) as }"

lemma put_attrs_eq: "put_attrs n as = attr_writer.puts put_attr n as"
proof (induction n as rule: put_attrs.induct)
  case (2 n a as)
  then show ?case
    by (cases "put_attr n a") (simp_all add: msg_writer.puts.simps flip: put_attr_def)
qed (simp add: msg_writer.puts.simps)

text \<open>
  C8. Building and parsing: a message allocated with \<open>nlmsg_alloc_simple\<close> takes any sequence of
  attributes that need at most half the block less 16 bytes, and \<open>nlmsg_parse\<close> then finds for every type the last
  attribute put with it, and nothing else.
\<close>

theorem build_and_parse:
  fixes len :: "'s::len word"
  assumes "ok (sizeof_nl_msg (LENGTH('s)))" and "ok (unat len)" and "unat len < 2 ^ 30"
    and "\<forall>b \<in> set bs. attr_ok b" and "2 * (16 + length (enc_attrs bs)) \<le> unat len"
  shows "\<exists>n m. nlmsg_alloc_simple ok len ty flags = Some (Some n) \<and> put_attrs n bs = Some m \<and>
     nlmsg_parse (nm_nlh m) 0 0 maxtype None =
       Some (0, Some (map (\<lambda>t. if t = 0 then None else map_of (rev (type_index 16 bs)) t) [0 ..< Suc maxtype]))"
proof -
  have "16 \<le> unat len" using assms(5) by simp
  then obtain n where n: "nlmsg_alloc_simple ok len ty flags = Some (Some n)"
      "holds (simple_hdr ty flags) [] n []" "nm_size n = unat len"
    using alloc_simple_holds [OF assms(1,2) _ assms(3)] by blast
  have "put_room n (length (enc_attrs bs))"
    using assms(5) n(3) by (simp add: put_room_iff [OF n(2)] used_def)
  then obtain m where m: "put_attrs n bs = Some m" "holds (simple_hdr ty flags) [] m bs"
    using msg_writer.puts_ok [OF n(2) assms(4)] by (auto simp: put_attrs_eq)
  have "nlmsg_parse (nm_nlh m) 0 0 maxtype None = Some (0, Some (tb_of maxtype (type_index 16 bs)))"
    using nlmsg_parse_holds [OF m(2), of maxtype] by simp
  then show ?thesis using n(1) m(1) by (auto simp: tb_of_def simp del: upt_Suc)
qed

theorem build_and_parse_witness:
  "\<exists>n m. nlmsg_alloc_simple (\<lambda>_. True) (128 :: 32 word) 16 1 = Some (Some n) \<and>
     put_attrs n [(1, [7]), (2, [1, 2, 3, 4])] = Some m \<and>
     nlmsg_parse (nm_nlh m) 0 0 2 None = Some (0, Some [None, Some 16, Some 24])"
  using build_and_parse [of "\<lambda>_. True" "128 :: 32 word" "[(1, [7]), (2, [1, 2, 3, 4])]" 16 1 2]
  by (simp add: attr_ok_def length_enc_attr align4_def upt_rec)

theorem nla_put_appends_witness:
  "\<exists>n. holds (replicate 12 0) [] n [] \<and> nm_size n = 20 \<and> nla_put n 3 (int 1) [5] = Some (- ENOMEM, n)"
proof -
  obtain n where n: "nlmsg_calloc (\<lambda>_. True) (20 :: 32 word) = Some (Some n)" "body n (replicate 12 0) []" "nm_size n = 20"
    by (rule calloc_body [of "\<lambda>_. True" "20 :: 32 word"]) simp_all
  then have "holds (replicate 12 0) [] n []" by (simp add: holds_def)
  moreover have "attr_ok (3, [5])" by (simp add: attr_ok_def)
  ultimately show ?thesis
    using nla_put_appends [of "replicate 12 0" "[]" n "[]" "(3, [5])"] n(3)
    by (auto simp: used_def length_enc_attr align4_def)
qed

section \<open>Nesting\<close>

lemma enc_nested:
  assumes "4 + length (enc_attrs bs) < 65536"
  shows "enc_attr (t, []) @ enc_attrs bs = le_bytes 2 4 @ le_bytes 2 t @ enc_attrs bs"
    and "enc_attr (t, enc_attrs bs) = le_bytes 2 (4 + length (enc_attrs bs)) @ le_bytes 2 t @ enc_attrs bs"
proof -
  have "align4 (4 + length (enc_attrs bs)) = 4 + length (enc_attrs bs)"
    using dvd_enc_attrs [of bs] by simp
  then show "enc_attr (t, enc_attrs bs) = le_bytes 2 (4 + length (enc_attrs bs)) @ le_bytes 2 t @ enc_attrs bs"
    by (simp only: enc_attr_def fst_conv snd_conv) simp
  show "enc_attr (t, []) @ enc_attrs bs = le_bytes 2 4 @ le_bytes 2 t @ enc_attrs bs"
    by (simp add: enc_attr_def)
qed

lemma nest_end_holds:
  assumes h: "holds hdr fam n (as @ (t, []) # bs)" and len: "4 + length (enc_attrs bs) < 65536"
  shows "\<exists>m. nla_nest_end n (used fam as) = Some (0, n\<lparr>nm_nlh := m\<rparr>) \<and>
     holds hdr fam (n\<lparr>nm_nlh := m\<rparr>) (as @ [(t, enc_attrs bs)])"
proof -
  let ?U = "used fam as" and ?k = "4 + length (enc_attrs bs)" and ?all = "as @ (t, []) # bs"
  have bd: "body n hdr (fam @ enc_attrs ?all)" and fam: "4 dvd length fam"
    and oks: "\<forall>a \<in> set as. attr_ok a" "t < 65536"
    using h by (auto simp: holds_def attr_ok_def)
  have used: "used fam ?all = ?U + ?k" by (simp add: used_def length_enc_attr align4_def)
  obtain post where m: "nm_nlh n = b32 (word_of_nat (?U + ?k)) @ hdr @ (fam @ enc_attrs ?all) @ post"
      and hdr: "length hdr = 12" and sz: "nm_size n = ?U + ?k + length post" "nm_size n < 2 ^ 30"
    using bd used by (elim bodyE) (simp add: used_def add.assoc)
  let ?P = "b32 (word_of_nat (?U + ?k)) @ hdr @ fam @ enc_attrs as"
    and ?R = "le_bytes 2 t @ enc_attrs bs @ post"
  have nm: "nm_nlh n = ?P @ le_bytes 2 4 @ ?R"
    using m enc_nested(1) [OF len, of t] by simp
  have lenP: "length ?P = ?U" using hdr by (simp add: used_def)
  have tail: "nlmsg_tail (nm_nlh n) 0 = Some (?U + ?k)"
    using body_tail [OF bd] used_dvd [OF fam, of ?all] used by (simp add: used_def add.assoc)
  have w: "b16 (word_of_int (int (?U + ?k) - int ?U)) = le_bytes 2 ?k"
  proof -
    have e: "int (?U + ?k) - int ?U = int ?k" by simp
    show ?thesis unfolding e using len by (simp only: put_sizes(5) [of 0 ?k])
  qed
  let ?m = "?P @ le_bytes 2 ?k @ ?R"
  have "st (le_bytes 2 ?k) (nm_nlh n) ?U = Some ?m"
    unfolding nm by (rule st_at) (simp_all only: length_le_bytes lenP)
  then have "nla_nest_end n ?U = Some (0, n\<lparr>nm_nlh := ?m\<rparr>)"
    unfolding nla_nest_end_def tail bind.bind_lunit w by simp
  moreover have "holds hdr fam (n\<lparr>nm_nlh := ?m\<rparr>) (as @ [(t, enc_attrs bs)])"
  proof -
    have m2: "?m = b32 (word_of_nat (?U + ?k)) @ hdr @ (fam @ enc_attrs (as @ [(t, enc_attrs bs)])) @ post"
      by (simp add: enc_nested(2) [OF len])
    have "length (fam @ enc_attrs (as @ [(t, enc_attrs bs)])) + 16 = ?U + ?k"
      using used_snoc [of fam as "(t, enc_attrs bs)"] enc_nested(2) [OF len, of t] by (simp add: used_def)
    then have "body (n\<lparr>nm_nlh := ?m\<rparr>) hdr (fam @ enc_attrs (as @ [(t, enc_attrs bs)]))"
    proof (intro bodyI [of _ "?U + ?k" _ _ post])
      show "nm_nlh (n\<lparr>nm_nlh := ?m\<rparr>) = b32 (word_of_nat (?U + ?k)) @ hdr @ (fam @ enc_attrs (as @ [(t, enc_attrs bs)])) @ post"
        by (simp add: enc_nested(2) [OF len])
    qed (use sz hdr in simp_all)
    then show ?thesis using oks fam len by (auto simp: holds_def attr_ok_def)
  qed
  ultimately show ?thesis by blast
qed

text \<open>
  C24. Nesting: \<open>nla_nest_start\<close>, any sequence of puts and \<open>nla_nest_end\<close> append one attribute of the
  given type whose payload is the stream of the attributes put in between, provided the payload fits
  the 16-bit length and all of it fits the message; \<open>nla_parse_nested\<close> on it then finds them.
\<close>

theorem nest_appends:
  assumes "holds hdr fam n as" and "t < 65536" and "\<forall>b \<in> set bs. attr_ok b"
    and "4 + length (enc_attrs bs) < 65536"
    and "2 * (used fam as + 4 + length (enc_attrs bs)) \<le> nm_size n"
  shows "\<exists>n1 n2 n3. nla_nest_start n (int t) = Some (Some (used fam as), n1) \<and> put_attrs n1 bs = Some n2 \<and>
     nla_nest_end n2 (used fam as) = Some (0, n3) \<and> holds hdr fam n3 (as @ [(t, enc_attrs bs)]) \<and>
     nla_parse_nested (nm_nlh n3) maxtype (used fam as) None =
       Some (0, map (\<lambda>ty. if ty = 0 then None else map_of (rev (type_index (used fam as + 4) bs)) ty) [0 ..< Suc maxtype])"
proof -
  have bd: "body n hdr (fam @ enc_attrs as)" and fam: "4 dvd length fam" using assms(1) by (auto simp: holds_def)
  have tail: "nlmsg_tail (nm_nlh n) 0 = Some (used fam as)"
    using body_tail [OF bd] used_dvd [OF fam, of as] by (simp add: used_def add.assoc)
  have ok: "attr_ok (t, [])" using assms(2) by (simp add: attr_ok_def)
  have l4: "length (enc_attr (t, [])) = 4" by (simp add: length_enc_attr align4_def)
  obtain m where m: "nla_put n (int t) 0 [] = Some (0, n\<lparr>nm_nlh := m\<rparr>)" "holds hdr fam (n\<lparr>nm_nlh := m\<rparr>) (as @ [(t, [])])"
    using nla_put_fits [OF assms(1) ok] assms(5) l4 by auto
  let ?n1 = "n\<lparr>nm_nlh := m\<rparr>"
  have "put_room ?n1 (length (enc_attrs bs))"
    using assms(5) l4 by (simp add: put_room_iff [OF m(2)] used_snoc)
  then obtain n2 where n2: "put_attrs ?n1 bs = Some n2" "holds hdr fam n2 (as @ (t, []) # bs)"
    using msg_writer.puts_ok [OF m(2) assms(3)] by (auto simp: put_attrs_eq)
  obtain m3 where n3: "nla_nest_end n2 (used fam as) = Some (0, n2\<lparr>nm_nlh := m3\<rparr>)"
      "holds hdr fam (n2\<lparr>nm_nlh := m3\<rparr>) (as @ [(t, enc_attrs bs)])"
    using nest_end_holds [OF n2(2) assms(4)] by blast
  obtain pre post where mem: "m3 = pre @ enc_attrs (as @ [(t, enc_attrs bs)]) @ post" "length pre = 16 + length fam"
    using holds_mem [OF n3(2)] by (metis nl_msg.select_convs(6) nl_msg.surjective nl_msg.update_convs(6))
  have U: "length (pre @ enc_attrs as) = used fam as" using mem(2) by (simp add: used_def)
  have okn: "attr_ok (t, enc_attrs bs)" using assms(2,4) by (simp add: attr_ok_def)
  have "nla_len m3 (used fam as) = Some (int (length (enc_attrs bs)))"
    using nla_len_at [OF okn, of "pre @ enc_attrs as" post] by (simp add: mem(1) U [symmetric])
  moreover have "m3 = (pre @ enc_attrs as @ le_bytes 2 (4 + length (enc_attrs bs)) @ le_bytes 2 t) @ enc_attrs bs @ post"
    by (simp add: mem(1) enc_nested(2) [OF assms(4)])
  moreover have "length (pre @ enc_attrs as @ le_bytes 2 (4 + length (enc_attrs bs)) @ le_bytes 2 t) = used fam as + 4"
    using U by simp
  ultimately have "nla_parse_nested m3 maxtype (used fam as) None =
      Some (0, tb_of maxtype (type_index (used fam as + 4) bs))"
    using parse_stream [OF assms(3), of "pre @ enc_attrs as @ le_bytes 2 (4 + length (enc_attrs bs)) @ le_bytes 2 t" post maxtype]
    by (simp only: nla_parse_nested_def bind.bind_lunit nla_data_def)
  then show ?thesis
    using tail m(1) n2(1) n3 by (auto simp: nla_nest_start_def tb_of_def simp del: upt_Suc)
qed

end
