(* ===== verification/NlMsgProps.thy ===== *)
theory NlMsgProps
  imports NlMsgProofs
begin

text \<open>
  Values through a message: every accessor reads back what its builder put; data appended behind the
  header; a copy of a received message; and the walk over a stream of messages.
\<close>

theorem nest_appends_witness:
  "\<exists>n n1 n2 n3. nm_size n = 128 \<and>
     nla_nest_start n (int 5) = Some (Some 16, n1) \<and> put_attrs n1 [(1, [7]), (2, [])] = Some n2 \<and>
     nla_nest_end n2 16 = Some (0, n3) \<and> holds (replicate 12 0) [] n3 ([] @ [(5, enc_attrs [(1, [7]), (2, [])])]) \<and>
     nla_parse_nested (nm_nlh n3) 2 16 None = Some (0, [None, Some 20, Some 28])"
proof -
  obtain n where n: "nlmsg_calloc (\<lambda>_. True) (128 :: 32 word) = Some (Some n)" "body n (replicate 12 0) []" "nm_size n = 128"
    by (rule calloc_body [of "\<lambda>_. True" "128 :: 32 word"]) simp_all
  have "holds (replicate 12 0) [] n []" using n(2) by (simp add: holds_def)
  moreover have "\<forall>b \<in> set [(1, [7 :: byte]), (2, [])]. attr_ok b" by (simp add: attr_ok_def)
  moreover have "used [] [] = 16" by (simp add: used_def)
  ultimately show ?thesis
    using nest_appends [of "replicate 12 0" "[]" n "[]" 5 "[(1, [7]), (2, [])]" 2] n(3)
    by (simp add: length_enc_attr align4_def upt_rec del: enc_attrs_simps(3)) (auto simp: length_enc_attr align4_def upt_rec)
qed

section \<open>Values\<close>

lemma find_fresh:
  assumes "base_type t \<notin> base_type ` fst ` set as"
  shows "map_of (map (\<lambda>(t, p). (int t, p)) (type_index q (as @ [(t, d)]))) (int (base_type t)) =
     Some (q + length (enc_attrs as))"
  using assms by (induction as arbitrary: q) (auto simp: add.assoc)

lemma put_find:
  assumes h: "holds hdr fam n as" and ok: "attr_ok (t, d)" and fresh: "base_type t \<notin> base_type ` fst ` set as"
    and room: "2 * used fam as + length (enc_attr (t, d)) \<le> nm_size n"
  obtains m where "nla_put n (int t) (int (length d)) d = Some (0, n\<lparr>nm_nlh := m\<rparr>)"
    "nlmsg_find_attr m 0 (int (length fam)) (int (base_type t)) = Some (Some (used fam as))"
    "nla_len m (used fam as) = Some (int (length d))" "ld (length d) m (nla_data (used fam as)) = Some d"
proof -
  obtain m where m: "nla_put n (int t) (int (length d)) d = Some (0, n\<lparr>nm_nlh := m\<rparr>)"
      "holds hdr fam (n\<lparr>nm_nlh := m\<rparr>) (as @ [(t, d)])"
    using nla_put_fits [OF h ok room] by auto
  obtain pre post where mem: "m = pre @ enc_attrs (as @ [(t, d)]) @ post" "length pre = 16 + length fam"
    using holds_mem [OF m(2)] by auto
  then have mm: "m = (pre @ enc_attrs as) @ enc_attr (t, d) @ post" by simp
  have U: "length (pre @ enc_attrs as) = used fam as" using mem(2) by (simp add: used_def)
  show ?thesis
  proof (rule that [OF m(1)])
    show "nlmsg_find_attr m 0 (int (length fam)) (int (base_type t)) = Some (Some (used fam as))"
      using nlmsg_find_holds [OF m(2), of "int (base_type t)"] find_fresh [OF fresh, of "16 + length fam" d]
      by (simp add: used_def)
    show "nla_len m (used fam as) = Some (int (length d))"
      unfolding mm U [symmetric] using nla_len_at [OF ok, of "pre @ enc_attrs as" post] by simp
    show "ld (length d) m (nla_data (used fam as)) = Some d"
      unfolding mm U [symmetric] nla_data_def using attr_header(3) [OF ok, of "pre @ enc_attrs as" post] by simp
  qed
qed

lemma ld_value:
  "ld 2 m p = Some (b16 v) \<Longrightarrow> ld16 m p = Some v"
  "ld 4 m p = Some (b32 w) \<Longrightarrow> ld32 m p = Some w"
  "ld 8 m p = Some (b64 x) \<Longrightarrow> ld64 m p = Some x"
  by (simp_all add: ld16_def ld32_def ld64_def le_nat_b)

lemma ld_one: "ld 1 m p = Some [v] \<Longrightarrow> ld8 m p = Some v"
  by (auto simp: ld_def ld8_def rd_def split: if_splits) (metis Cons_nth_drop_Suc Suc_le_lessD list.sel(1) take_Suc_Cons list.discI take0)

text \<open>
  C25. A value put into a message under a new type is read back: \<open>nlmsg_find_attr\<close> finds the attribute
  and the accessor of the same width returns the value, for 8, 16, 32 and 64 bits.
\<close>

theorem scalars_read_back:
  assumes "holds hdr fam n as" and "t < 65536" and "base_type t \<notin> base_type ` fst ` set as"
    and "2 * used fam as + 12 \<le> nm_size n"
  shows "(\<exists>n' p. nla_put_u8 n (int t) v8 = Some (0, n') \<and>
       nlmsg_find_attr (nm_nlh n') 0 (int (length fam)) (int (base_type t)) = Some (Some p) \<and>
       nla_get_u8 (nm_nlh n') p = Some v8) \<and>
     (\<exists>n' p. nla_put_u16 n (int t) v16 = Some (0, n') \<and>
       nlmsg_find_attr (nm_nlh n') 0 (int (length fam)) (int (base_type t)) = Some (Some p) \<and>
       nla_get_u16 (nm_nlh n') p = Some v16) \<and>
     (\<exists>n' p. nla_put_u32 n (int t) v32 = Some (0, n') \<and>
       nlmsg_find_attr (nm_nlh n') 0 (int (length fam)) (int (base_type t)) = Some (Some p) \<and>
       nla_get_u32 (nm_nlh n') p = Some v32) \<and>
     (\<exists>n' p. nla_put_u64 n (int t) v64 = Some (0, n') \<and>
       nlmsg_find_attr (nm_nlh n') 0 (int (length fam)) (int (base_type t)) = Some (Some p) \<and>
       nla_get_u64 (nm_nlh n') (Some p) = Some v64)"
proof (intro conjI)
  have P: "length d \<le> 8 \<Longrightarrow> \<exists>m. nla_put n (int t) (int (length d)) d = Some (0, n\<lparr>nm_nlh := m\<rparr>) \<and>
      nlmsg_find_attr m 0 (int (length fam)) (int (base_type t)) = Some (Some (used fam as)) \<and>
      nla_len m (used fam as) = Some (int (length d)) \<and> ld (length d) m (nla_data (used fam as)) = Some d" for d
  proof -
    assume d: "length d \<le> 8"
    have ok: "attr_ok (t, d)" using assms(2) d by (simp add: attr_ok_def)
    have "align4 (4 + length d) \<le> align4 12" using d by (intro align4_mono) simp
    then have room: "2 * used fam as + length (enc_attr (t, d)) \<le> nm_size n"
      using assms(4) by (simp add: length_enc_attr align4_def)
    show ?thesis by (rule put_find [OF assms(1) ok assms(3) room]) blast
  qed
  from P [of "[v8]"] show "\<exists>n' p. nla_put_u8 n (int t) v8 = Some (0, n') \<and>
       nlmsg_find_attr (nm_nlh n') 0 (int (length fam)) (int (base_type t)) = Some (Some p) \<and>
       nla_get_u8 (nm_nlh n') p = Some v8"
    using ld_one by (fastforce simp: nla_put_u8_def nla_get_u8_def)
  from P [of "b16 v16"] show "\<exists>n' p. nla_put_u16 n (int t) v16 = Some (0, n') \<and>
       nlmsg_find_attr (nm_nlh n') 0 (int (length fam)) (int (base_type t)) = Some (Some p) \<and>
       nla_get_u16 (nm_nlh n') p = Some v16"
    using ld_value(1) by (fastforce simp: nla_put_u16_def nla_get_u16_def)
  from P [of "b32 v32"] show "\<exists>n' p. nla_put_u32 n (int t) v32 = Some (0, n') \<and>
       nlmsg_find_attr (nm_nlh n') 0 (int (length fam)) (int (base_type t)) = Some (Some p) \<and>
       nla_get_u32 (nm_nlh n') p = Some v32"
    using ld_value(2) by (fastforce simp: nla_put_u32_def nla_get_u32_def)
  from P [of "b64 v64"] obtain m where m: "nla_put n (int t) 8 (b64 v64) = Some (0, n\<lparr>nm_nlh := m\<rparr>)"
      "nlmsg_find_attr m 0 (int (length fam)) (int (base_type t)) = Some (Some (used fam as))"
      "nla_len m (used fam as) = Some 8" "ld 8 m (nla_data (used fam as)) = Some (b64 v64)"
    by auto
  have "nla_get_u64 m (Some (used fam as)) = Some v64"
    by (simp add: nla_get_u64_def nla_memcpy_def m(3,4) le_nat_b)
  then show "\<exists>n' p. nla_put_u64 n (int t) v64 = Some (0, n') \<and>
       nlmsg_find_attr (nm_nlh n') 0 (int (length fam)) (int (base_type t)) = Some (Some p) \<and>
       nla_get_u64 (nm_nlh n') (Some p) = Some v64"
    using m(1,2) by (auto simp: nla_put_u64_def)
qed

theorem scalars_read_back_witness:
  "\<exists>n n' p. nm_size n = 64 \<and> nla_put_u32 n (int 0x8003) 0xDEADBEEF = Some (0, n') \<and>
     nlmsg_find_attr (nm_nlh n') 0 0 3 = Some (Some p) \<and> nla_get_u32 (nm_nlh n') p = Some 0xDEADBEEF"
proof -
  obtain n where n: "nlmsg_calloc (\<lambda>_. True) (64 :: 32 word) = Some (Some n)" "body n (replicate 12 0) []" "nm_size n = 64"
    by (rule calloc_body [of "\<lambda>_. True" "64 :: 32 word"]) simp_all
  have "holds (replicate 12 0) [] n []" using n(2) by (simp add: holds_def)
  then have "\<exists>n' p. nla_put_u32 n (int 0x8003) 0xDEADBEEF = Some (0, n') \<and>
     nlmsg_find_attr (nm_nlh n') 0 (int (length ([] :: byte list))) (int (base_type 0x8003)) = Some (Some p) \<and>
     nla_get_u32 (nm_nlh n') p = Some 0xDEADBEEF"
    using n(3) by (intro scalars_read_back [THEN conjunct2, THEN conjunct2, THEN conjunct1, of "replicate 12 0" "[]" n "[]"])
      (simp_all add: used_def)
  then show ?thesis using n(3) by auto
qed

section \<open>Data behind the header\<close>

lemma unat_size: "32 \<le> LENGTH('s) \<Longrightarrow> k < 2 ^ 32 \<Longrightarrow> unat (word_of_nat k :: 's::len word) = k"
proof -
  assume "32 \<le> LENGTH('s)" "k < 2 ^ 32"
  then have "k < 2 ^ LENGTH('s)" using power_increasing [of 32 "LENGTH('s)" "2 :: nat"] by simp
  then show ?thesis by (simp add: unat_of_nat)
qed

lemma reserve_len:
  assumes "32 \<le> LENGTH('s::len)" and "k < 2 ^ 30"
  shows "((word_of_nat k :: 's word) + word_of_int (NLMSG_ALIGNTO - 1)) AND NOT (word_of_int (NLMSG_ALIGNTO - 1)) =
     word_of_nat (align4 k)"
proof -
  have k: "unat (word_of_nat k :: 's word) = k" using assms by (intro unat_size) simp_all
  have "(2 :: nat) ^ 32 \<le> 2 ^ LENGTH('s)" using assms(1) by (intro power_increasing) simp_all
  then have "unat (NLMSG_ALIGN (word_of_nat k :: 's word)) = align4 k"
    using NLMSG_ALIGN_eq [of "word_of_nat k :: 's word"] assms k by simp
  then have "word_of_nat (unat (NLMSG_ALIGN (word_of_nat k :: 's word))) = (word_of_nat (align4 k) :: 's word)" by simp
  then show ?thesis by (simp add: NLMSG_ALIGN_def NLMSG_ALIGNTO_def add.commute)
qed

lemma word_of_nat_ucast:
  fixes w :: "'a::len word"
  assumes "unat w = k"
  shows "(ucast w :: 'b::len word) = word_of_nat k"
  by (simp flip: assms)

text \<open>
  C26. \<open>nlmsg_append\<close> with the netlink alignment, on both widths of \<open>size_t\<close>: data of any length whose
  padded size fits the block is appended to the payload, padded with zeros to a multiple of four;
  data that does not fit leaves the message as it was, with an error.
\<close>

theorem nlmsg_append_body:
  assumes "32 \<le> LENGTH('s::len)" and "body n hdr b" and "length data < 2 ^ 30"
  shows "if 16 + length b + align4 (length data) \<le> nm_size n
     then \<exists>m. nlmsg_append n data (word_of_nat (length data) :: 's word) NLMSG_ALIGNTO = Some (0, n\<lparr>nm_nlh := m\<rparr>) \<and>
       body (n\<lparr>nm_nlh := m\<rparr>) hdr (b @ data @ replicate (align4 (length data) - length data) 0)
     else nlmsg_append n data (word_of_nat (length data) :: 's word) NLMSG_ALIGNTO = Some (- ENOMEM, n)"
proof -
  let ?k = "length data" and ?A = "align4 (length data)" and ?U = "16 + length b"
  obtain post where m: "nm_nlh n = b32 (word_of_nat ?U) @ hdr @ b @ post" and hdr: "length hdr = 12"
      and sz: "nm_size n = ?U + length post" "?U + length post < 2 ^ 30"
    using assms(2) by (rule bodyE)
  have A: "?k \<le> ?A" "?A < ?k + 4" by (simp_all add: align4_bounds)
  have l: "ld32 (nm_nlh n) 0 = Some (word_of_nat ?U)" by (rule body_len [OF assms(2)])
  have uU: "unat (word_of_nat ?U :: 32 word) = ?U" using sz by (intro unat_small) simp
  have s: "unat (word_of_nat j :: 's word) = j" if "j < 2 ^ 32" for j
    using that assms(1) by (intro unat_size)
  have cU: "ucast (word_of_nat ?U :: 32 word) = (word_of_nat ?U :: 's word)"
    by (rule word_of_nat_ucast [OF uU])
  note tlen = reserve_len [OF assms(1,3)]
  have sum: "(word_of_nat ?A :: 's word) + word_of_nat ?U = word_of_nat (?U + ?A)" by simp
  have sum2: "(word_of_nat ?U :: 's word) + word_of_nat ?A = word_of_nat (?U + ?A)" by simp
  have gt: "(word_of_nat (?U + ?A) :: 's word) > word_of_nat (nm_size n) \<longleftrightarrow> nm_size n < ?U + ?A"
    using s [of "?U + ?A"] s [of "nm_size n"] sz A assms(3) by (simp add: word_less_nat_alt)
  have pad: "(word_of_nat ?A :: 's word) > word_of_nat ?k \<longleftrightarrow> ?k < ?A"
    using s [of ?A] s [of ?k] A assms(3) by (simp add: word_less_nat_alt)
  have diff: "unat ((word_of_nat ?A :: 's word) - word_of_nat ?k) = ?A - ?k"
    using s [of ?A] s [of ?k] A assms(3) by (simp add: unat_sub word_le_nat_alt)
  have uk: "unat (word_of_nat ?k :: 's word) = ?k" using assms(3) by (intro s) simp
  have nz: "NLMSG_ALIGNTO \<noteq> 0" by (simp add: NLMSG_ALIGNTO_def)
  have R: "nlmsg_reserve n (word_of_nat ?k :: 's word) NLMSG_ALIGNTO =
      (if nm_size n < ?U + ?A then Some (None, n)
       else do { m1 \<leftarrow> st (b32 (ucast (word_of_nat (?U + ?A) :: 's word))) (nm_nlh n) 0;
                 m2 \<leftarrow> (if ?k < ?A then st (replicate (?A - ?k) 0) m1 (?U + ?k) else Some m1);
                 Some (Some ?U, n\<lparr>nm_nlh := m2\<rparr>) })"
    unfolding nlmsg_reserve_def l bind.bind_lunit Let_def if_P [OF nz] tlen cU sum sum2 gt pad diff uU uk
    by simp
  show ?thesis
  proof (cases "?U + ?A \<le> nm_size n")
    case False
    then show ?thesis using R by (simp add: nlmsg_append_def)
  next
    case True
    then obtain o1 o2 r where post: "post = o1 @ o2 @ r" "length o1 = ?k" "length o2 = ?A - ?k"
    proof -
      have "length post = ?k + (?A - ?k) + (length post - ?A) + 0" using True sz(1) A by simp
      then show ?thesis by (rule take_blocks) (use that in auto)
    qed
    have cUA: "ucast (word_of_nat (?U + ?A) :: 's word) = (word_of_nat (?U + ?A) :: 32 word)"
      using s [of "?U + ?A"] True sz by (intro word_of_nat_ucast) simp
    let ?L = "b32 (word_of_nat ?U)" and ?L' = "b32 (word_of_nat (?U + ?A))"
    have nm: "nm_nlh n = ?L @ hdr @ b @ o1 @ o2 @ r" using m post by simp
    have 1: "st ?L' (nm_nlh n) 0 = Some (?L' @ hdr @ b @ o1 @ o2 @ r)"
      unfolding nm using st_at [of ?L ?L' 0 "[]"] by simp
    have 2: "(if ?k < ?A then st (replicate (?A - ?k) 0) (?L' @ hdr @ b @ o1 @ o2 @ r) (?U + ?k)
        else Some (?L' @ hdr @ b @ o1 @ o2 @ r)) = Some (?L' @ hdr @ b @ o1 @ replicate (?A - ?k) 0 @ r)"
      using st_at [of o2 "replicate (?A - ?k) 0" "?U + ?k" "?L' @ hdr @ b @ o1" r] post hdr
      by (auto simp flip: length_0_conv)
    have 3: "st data (?L' @ hdr @ b @ o1 @ replicate (?A - ?k) 0 @ r) ?U =
        Some (?L' @ hdr @ b @ data @ replicate (?A - ?k) 0 @ r)"
      using st_at [of o1 data ?U "?L' @ hdr @ b" "replicate (?A - ?k) 0 @ r"] post hdr by simp
    let ?m = "?L' @ hdr @ b @ data @ replicate (?A - ?k) 0 @ r"
    have "nlmsg_append n data (word_of_nat ?k :: 's word) NLMSG_ALIGNTO = Some (0, n\<lparr>nm_nlh := ?m\<rparr>)"
      unfolding nlmsg_append_def R uk using True
      by (simp add: not_less cUA 1 2 3 ld_def del: of_nat_add)
    moreover have "body (n\<lparr>nm_nlh := ?m\<rparr>) hdr (b @ data @ replicate (?A - ?k) 0)"
      using sz post hdr A True by (intro bodyI [of _ "?U + ?A" _ _ r]) simp_all
    ultimately show ?thesis using True by auto
  qed
qed

theorem nlmsg_append_body_witness:
  "\<exists>n m. nm_size n = 24 \<and> nlmsg_append n [1, 2, 3, 4, 5] (5 :: 64 word) NLMSG_ALIGNTO = Some (0, n\<lparr>nm_nlh := m\<rparr>) \<and>
     body (n\<lparr>nm_nlh := m\<rparr>) (replicate 12 0) [1, 2, 3, 4, 5, 0, 0, 0]"
proof -
  obtain n where n: "nlmsg_calloc (\<lambda>_. True) (24 :: 64 word) = Some (Some n)" "body n (replicate 12 0) []" "nm_size n = 24"
    by (rule calloc_body [of "\<lambda>_. True" "24 :: 64 word"]) simp_all
  let ?d = "[1, 2, 3, 4, 5] :: byte list"
  have A: "length ?d = 5" "align4 5 = 8" by (simp_all add: align4_def)
  have "\<exists>m. nlmsg_append n ?d (word_of_nat (length ?d) :: 64 word) NLMSG_ALIGNTO = Some (0, n\<lparr>nm_nlh := m\<rparr>) \<and>
      body (n\<lparr>nm_nlh := m\<rparr>) (replicate 12 0) ([] @ ?d @ replicate (8 - 5) 0)"
    using nlmsg_append_body [where 's = 64, OF _ n(2), of ?d] n(3) unfolding A by simp
  moreover have "replicate (8 - 5) (0 :: byte) = [0, 0, 0]" by (simp add: numeral_3_eq_3)
  ultimately show ?thesis using n(3) unfolding A by auto
qed

section \<open>Streams of messages\<close>

text \<open>
  C27. The loop conditions of the two streams treat a negative number of remaining bytes (as it is
  after a last element whose padding is missing) differently: \<open>nla_ok\<close> rejects it, \<open>nlmsg_ok\<close>, whose
  comparison is unsigned, accepts any header with a length from 16 up to 2^32 plus that number.
\<close>

theorem negative_remaining:
  assumes "- (2 ^ 31) \<le> r" and "r < 0" and "ld32 mem p = Some l"
  shows "nlmsg_ok mem p r = Some (16 \<le> l \<and> int (unat l) \<le> 2 ^ 32 + r) \<and> nla_ok mem p r = Some False"
proof -
  have "uint (word_of_int r :: 32 word) = r mod 2 ^ 32" by (simp add: unsigned_of_int take_bit_eq_mod)
  also have "\<dots> = (2 ^ 32 + r) mod 2 ^ 32" by simp
  also have "\<dots> = 2 ^ 32 + r" using assms(1,2) by (intro mod_pos_pos_trivial) simp_all
  finally have u: "uint (word_of_int r :: 32 word) = 2 ^ 32 + r" .
  have "p + 4 \<le> length mem" using assms(3) by (auto simp: ld32_def ld_def split: if_splits)
  then obtain k where "ldu16 mem p = Some k" using ldu16_ex [of p mem] by auto
  then show ?thesis
    using assms u by (auto simp: nlmsg_ok_def nla_ok_def word_le_def)
qed

theorem negative_remaining_witness:
  "nlmsg_ok (b32 20) 0 (- 1) = Some (16 \<le> (20 :: 32 word) \<and> int (unat (20 :: 32 word)) \<le> 2 ^ 32 + - 1) \<and>
   nla_ok (b32 20) 0 (- 1) = Some False"
  by (rule negative_remaining) (use ld32_at [of 0 "[]" 20 "[]"] in simp_all)

end
