(* ===== verification/C2Quantise.thy ===== *)
theory C2Quantise
  imports WordLib
begin

text \<open>
  The quantisers of the voice codec (codec2/quantise.c, interp.c). Floating point numbers are a type
  parameter \<open>'f\<close> that holds the values of float and double, and the arithmetic is the parameter
  \<open>F\<close>, without laws: the theorems are about the control structure of the code, the indexes and the
  arrays, and hold whatever the rounding. A literal is named by its text. An array is a list, an
  access outside it \<^term>\<open>None\<close>. The contents of the code books (codebook*.c) are the parameter
  \<open>codes\<close>; their shapes are as in the source.
\<close>

section \<open>Numbers\<close>

record 'f fops =
  fadd :: "'f \<Rightarrow> 'f \<Rightarrow> 'f"
  fsub :: "'f \<Rightarrow> 'f \<Rightarrow> 'f"
  fmul :: "'f \<Rightarrow> 'f \<Rightarrow> 'f"
  fdiv :: "'f \<Rightarrow> 'f \<Rightarrow> 'f"
  flt :: "'f \<Rightarrow> 'f \<Rightarrow> bool"
  flit :: "string \<Rightarrow> 'f"
  fofint :: "int \<Rightarrow> 'f"
  ftoint :: "'f \<Rightarrow> int"
  ffloor :: "'f \<Rightarrow> int"
  fpow :: "'f \<Rightarrow> 'f \<Rightarrow> 'f"
  flog10 :: "'f \<Rightarrow> 'f"
  ffabs :: "'f \<Rightarrow> 'f"

definition LPC_ORD :: nat where "LPC_ORD = 10"
definition WO_BITS :: nat where "WO_BITS = 7"
definition WO_LEVELS :: int where "WO_LEVELS = 2 ^ WO_BITS"
definition E_BITS :: nat where "E_BITS = 5"
definition E_LEVELS :: int where "E_LEVELS = 2 ^ E_BITS"
definition WO_E_BITS :: nat where "WO_E_BITS = 8"
definition LSP_SCALAR_INDEXES :: nat where "LSP_SCALAR_INDEXES = 10"
definition LSPD_SCALAR_INDEXES :: nat where "LSPD_SCALAR_INDEXES = 10"
definition LSP_PRED_VQ_INDEXES :: nat where "LSP_PRED_VQ_INDEXES = 3"

definition PI :: "'f fops \<Rightarrow> 'f" where "PI F = flit F ''3.141592654''"
definition TWO_PI :: "'f fops \<Rightarrow> 'f" where "TWO_PI F = flit F ''6.283185307''"
definition P_MIN :: "'f fops \<Rightarrow> 'f" where "P_MIN F = fofint F 20"
definition P_MAX :: "'f fops \<Rightarrow> 'f" where "P_MAX F = fofint F 160"

text \<open>The parameters of one frame.\<close>

record 'f MODEL =
  m_Wo :: 'f
  m_L :: int
  m_A :: "'f list"
  m_phi :: "'f list"
  m_voiced :: "32 word"

section \<open>Code books\<close>

record 'f lsp_codebook =
  cb_k :: nat
  log2m :: nat
  cb_m :: nat
  cb :: "'f list"

definition book :: "(nat \<Rightarrow> 'f) \<Rightarrow> nat \<Rightarrow> nat \<Rightarrow> nat \<Rightarrow> 'f lsp_codebook" where
  "book c k l m = \<lparr>cb_k = k, log2m = l, cb_m = m, cb = map c [0 ..< k * m]\<rparr>"

record 'f codebooks =
  codes_lsp :: "nat \<Rightarrow> nat \<Rightarrow> 'f"
  codes_lspd :: "nat \<Rightarrow> nat \<Rightarrow> 'f"
  codes_jvm :: "nat \<Rightarrow> nat \<Rightarrow> 'f"
  codes_ge :: "nat \<Rightarrow> nat \<Rightarrow> 'f"

definition lsp_cb :: "'f codebooks \<Rightarrow> 'f lsp_codebook list" where
  "lsp_cb C =
     [book (codes_lsp C 0) 1 4 16, book (codes_lsp C 1) 1 4 16, book (codes_lsp C 2) 1 4 16,
      book (codes_lsp C 3) 1 4 16, book (codes_lsp C 4) 1 4 16, book (codes_lsp C 5) 1 4 16,
      book (codes_lsp C 6) 1 4 16, book (codes_lsp C 7) 1 3 8, book (codes_lsp C 8) 1 3 8,
      book (codes_lsp C 9) 1 2 4, \<lparr>cb_k = 0, log2m = 0, cb_m = 0, cb = []\<rparr>]"

definition lsp_cbd :: "'f codebooks \<Rightarrow> 'f lsp_codebook list" where
  "lsp_cbd C =
     [book (codes_lspd C 0) 1 5 32, book (codes_lspd C 1) 1 5 32, book (codes_lspd C 2) 1 5 32,
      book (codes_lspd C 3) 1 5 32, book (codes_lspd C 4) 1 5 32, book (codes_lspd C 5) 1 5 32,
      book (codes_lspd C 6) 1 5 32, book (codes_lspd C 7) 1 5 32, book (codes_lspd C 8) 1 5 32,
      book (codes_lspd C 9) 1 5 32, \<lparr>cb_k = 0, log2m = 0, cb_m = 0, cb = []\<rparr>]"

definition lsp_cbjvm :: "'f codebooks \<Rightarrow> 'f lsp_codebook list" where
  "lsp_cbjvm C =
     [book (codes_jvm C 0) 10 9 512, book (codes_jvm C 1) 5 9 512, book (codes_jvm C 2) 5 9 512,
      \<lparr>cb_k = 0, log2m = 0, cb_m = 0, cb = []\<rparr>]"

definition ge_cb :: "'f codebooks \<Rightarrow> 'f lsp_codebook list" where
  "ge_cb C = [book (codes_ge C 0) 2 8 256, \<lparr>cb_k = 0, log2m = 0, cb_m = 0, cb = []\<rparr>]"

definition lsp_bits :: "'f codebooks \<Rightarrow> nat \<Rightarrow> nat option" where
  "lsp_bits C i = map_option log2m (rd (lsp_cb C) i)"

definition lspd_bits :: "'f codebooks \<Rightarrow> nat \<Rightarrow> nat option" where
  "lspd_bits C i = map_option log2m (rd (lsp_cbd C) i)"

definition lsp_pred_vq_bits :: "'f codebooks \<Rightarrow> nat \<Rightarrow> nat option" where
  "lsp_pred_vq_bits C i = map_option log2m (rd (lsp_cbjvm C) i)"

section \<open>Nearest entries\<close>

text \<open>\<open>quantise\<close>; the accumulated squared error, which no caller reads, is left out.\<close>

definition quantise :: "'f fops \<Rightarrow> 'f list \<Rightarrow> 'f list \<Rightarrow> 'f list \<Rightarrow> nat \<Rightarrow> nat \<Rightarrow> nat option" where
  "quantise F c vec w k m =
     do { r \<leftarrow> foldM (\<lambda>j (besti, beste).
              do { e \<leftarrow> foldM (\<lambda>i e. do { x \<leftarrow> rd c (j * k + i); v \<leftarrow> rd vec i; u \<leftarrow> rd w i;
                       Some (fadd F e (fpow F (fmul F (fsub F x v) u) (flit F ''2.0''))) })
                     [0 ..< k] (flit F ''0.0'');
                    Some (if flt F e beste then (j, e) else (besti, beste)) })
            [0 ..< m] (0, flit F ''1E32'');
          Some (fst r) }"

definition find_nearest :: "'f fops \<Rightarrow> 'f list \<Rightarrow> nat \<Rightarrow> 'f list \<Rightarrow> nat \<Rightarrow> nat option" where
  "find_nearest F codebook nb_entries x ndim =
     do { r \<leftarrow> foldM (\<lambda>i (nearest, min_dist).
              do { d \<leftarrow> foldM (\<lambda>j d. do { a \<leftarrow> rd x j; b \<leftarrow> rd codebook (i * ndim + j);
                       Some (fadd F d (fmul F (fsub F a b) (fsub F a b))) }) [0 ..< ndim] (fofint F 0);
                    Some (if flt F d min_dist then (i, d) else (nearest, min_dist)) })
            [0 ..< nb_entries] (0, flit F ''1e15'');
          Some (fst r) }"

definition find_nearest_weighted ::
  "'f fops \<Rightarrow> 'f list \<Rightarrow> nat \<Rightarrow> 'f list \<Rightarrow> 'f list \<Rightarrow> nat \<Rightarrow> nat option" where
  "find_nearest_weighted F codebook nb_entries x w ndim =
     do { r \<leftarrow> foldM (\<lambda>i (nearest, min_dist).
              do { d \<leftarrow> foldM (\<lambda>j d. do { a \<leftarrow> rd x j; b \<leftarrow> rd codebook (i * ndim + j); u \<leftarrow> rd w j;
                       Some (fadd F d (fmul F (fmul F u (fsub F a b)) (fsub F a b))) }) [0 ..< ndim] (fofint F 0);
                    Some (if flt F d min_dist then (i, d) else (nearest, min_dist)) })
            [0 ..< nb_entries] (0, flit F ''1e15'');
          Some (fst r) }"


section \<open>Line spectral pairs\<close>

definition encode_lspds_scalar :: "'f fops \<Rightarrow> 'f codebooks \<Rightarrow> 'f list \<Rightarrow> nat \<Rightarrow> nat list option" where
  "encode_lspds_scalar F C lsp order =
     do { u \<leftarrow> ensure (order = LPC_ORD);
          lsp_hz \<leftarrow> those (map (\<lambda>i. map_option (fmul F (fdiv F (flit F ''4000.0'') (PI F))) (rd lsp i)) [0 ..< order]);
          r \<leftarrow> foldM (\<lambda>i (indexes, qhz).
              do { hz \<leftarrow> rd lsp_hz i;
                   dlsp \<leftarrow> (if i \<noteq> 0 then map_option (fsub F hz) (rd qhz (i - 1)) else Some hz);
                   b \<leftarrow> rd (lsp_cbd C) i;
                   j \<leftarrow> quantise F (cb b) [dlsp] [flit F ''1.0''] (cb_k b) (cb_m b);
                   dq \<leftarrow> rd (cb b) (j * cb_k b);
                   q \<leftarrow> (if i \<noteq> 0 then map_option (\<lambda>p. fadd F p dq) (rd qhz (i - 1)) else Some dq);
                   Some (indexes @ [j], qhz @ [q]) })
            [0 ..< order] ([], []);
          Some (fst r) }"

definition decode_lspds_scalar :: "'f fops \<Rightarrow> 'f codebooks \<Rightarrow> nat list \<Rightarrow> nat \<Rightarrow> 'f list option" where
  "decode_lspds_scalar F C indexes order =
     do { u \<leftarrow> ensure (order = LPC_ORD);
          r \<leftarrow> foldM (\<lambda>i (out, qhz).
              do { b \<leftarrow> rd (lsp_cbd C) i; j \<leftarrow> rd indexes i;
                   dq \<leftarrow> rd (cb b) (j * cb_k b);
                   q \<leftarrow> (if i \<noteq> 0 then map_option (\<lambda>p. fadd F p dq) (rd qhz (i - 1)) else Some dq);
                   Some (out @ [fmul F (fdiv F (PI F) (flit F ''4000.0'')) q], qhz @ [q]) })
            [0 ..< order] ([], []);
          Some (fst r) }"

definition encode_lsps_scalar :: "'f fops \<Rightarrow> 'f codebooks \<Rightarrow> 'f list \<Rightarrow> nat \<Rightarrow> nat list option" where
  "encode_lsps_scalar F C lsp order =
     do { lsp_hz \<leftarrow> those (map (\<lambda>i. map_option (fmul F (fdiv F (flit F ''4000.0'') (PI F))) (rd lsp i)) [0 ..< order]);
          those (map (\<lambda>i. do { b \<leftarrow> rd (lsp_cb C) i;
                               quantise F (cb b) (drop i lsp_hz) [flit F ''1.0''] (cb_k b) (cb_m b) }) [0 ..< order]) }"

definition decode_lsps_scalar :: "'f fops \<Rightarrow> 'f codebooks \<Rightarrow> nat list \<Rightarrow> nat \<Rightarrow> 'f list option" where
  "decode_lsps_scalar F C indexes order =
     do { lsp_hz \<leftarrow> those (map (\<lambda>i. do { b \<leftarrow> rd (lsp_cb C) i; j \<leftarrow> rd indexes i; rd (cb b) (j * cb_k b) }) [0 ..< order]);
          Some (map (fmul F (fdiv F (PI F) (flit F ''4000.0''))) lsp_hz) }"

definition fmin :: "'f fops \<Rightarrow> 'f \<Rightarrow> 'f \<Rightarrow> 'f" where
  "fmin F a b = (if flt F a b then a else b)"

text \<open>The gaps between neighbours, which \<open>encode_lsps_vq\<close> and \<open>compute_weights\<close> both compute.\<close>

definition lsp_gaps :: "'f fops \<Rightarrow> 'f list \<Rightarrow> nat \<Rightarrow> 'f list option" where
  "lsp_gaps F x ndim =
     do { x0 \<leftarrow> rd x 0; x1 \<leftarrow> rd x 1;
          ws \<leftarrow> those (map (\<lambda>i. do { p \<leftarrow> rd x (i - 1); q \<leftarrow> rd x i; r \<leftarrow> rd x (i + 1);
                                  Some (fmin F (fsub F q p) (fsub F r q)) }) [1 ..< ndim - 1]);
          y \<leftarrow> rd x (ndim - 1); z \<leftarrow> rd x (ndim - 2);
          Some (fmin F x0 (fsub F x1 x0) # ws @ [fmin F (fsub F y z) (fsub F (PI F) y)]) }"

definition compute_weights :: "'f fops \<Rightarrow> 'f list \<Rightarrow> nat \<Rightarrow> 'f list option" where
  "compute_weights F x ndim =
     map_option (map (\<lambda>w. fdiv F (flit F ''1.'') (fadd F (flit F ''.01'') w))) (lsp_gaps F x ndim)"

definition encode_lsps_vq :: "'f fops \<Rightarrow> 'f codebooks \<Rightarrow> 'f list \<Rightarrow> nat \<Rightarrow> (nat list \<times> 'f list) option" where
  "encode_lsps_vq F C x ndim =
     do { b1 \<leftarrow> rd (lsp_cbjvm C) 0; b2 \<leftarrow> rd (lsp_cbjvm C) 1; b3 \<leftarrow> rd (lsp_cbjvm C) 2;
          u \<leftarrow> ensure (ndim \<le> LPC_ORD);
          w0 \<leftarrow> lsp_gaps F x ndim;
          w \<leftarrow> compute_weights F x ndim;
          n1 \<leftarrow> find_nearest F (cb b1) (cb_m b1) x ndim;
          xq \<leftarrow> those (map (\<lambda>i. rd (cb b1) (ndim * n1 + i)) [0 ..< ndim]);
          err \<leftarrow> those (map (\<lambda>i. do { a \<leftarrow> rd x i; b \<leftarrow> rd xq i; Some (fsub F a b) }) [0 ..< ndim]);
          err2 \<leftarrow> those (map (\<lambda>i. rd err (2 * i)) [0 ..< ndim div 2]);
          err3 \<leftarrow> those (map (\<lambda>i. rd err (2 * i + 1)) [0 ..< ndim div 2]);
          w2 \<leftarrow> those (map (\<lambda>i. rd w (2 * i)) [0 ..< ndim div 2]);
          w3 \<leftarrow> those (map (\<lambda>i. rd w (2 * i + 1)) [0 ..< ndim div 2]);
          n2 \<leftarrow> find_nearest_weighted F (cb b2) (cb_m b2) err2 w2 (ndim div 2);
          n3 \<leftarrow> find_nearest_weighted F (cb b3) (cb_m b3) err3 w3 (ndim div 2);
          Some ([n1, n2, n3], xq) }"

definition decode_lsps_vq :: "'f fops \<Rightarrow> 'f codebooks \<Rightarrow> nat list \<Rightarrow> nat \<Rightarrow> 'f list option" where
  "decode_lsps_vq F C indexes ndim =
     do { b1 \<leftarrow> rd (lsp_cbjvm C) 0; b2 \<leftarrow> rd (lsp_cbjvm C) 1; b3 \<leftarrow> rd (lsp_cbjvm C) 2;
          n1 \<leftarrow> rd indexes 0; n2 \<leftarrow> rd indexes 1; n3 \<leftarrow> rd indexes 2;
          xq \<leftarrow> those (map (\<lambda>i. rd (cb b1) (ndim * n1 + i)) [0 ..< ndim]);
          foldM (\<lambda>i xq.
              do { a \<leftarrow> rd xq (2 * i); c2 \<leftarrow> rd (cb b2) (ndim * n2 div 2 + i); xq' \<leftarrow> wr xq (2 * i) (fadd F a c2);
                   b \<leftarrow> rd xq' (2 * i + 1); c3 \<leftarrow> rd (cb b3) (ndim * n3 div 2 + i); wr xq' (2 * i + 1) (fadd F b c3) })
            [0 ..< ndim div 2] xq }"

text \<open>
  \<open>check_lsp_order\<close>: after a swap the loop variable is set to 1 and then incremented, so the check goes
  on at 2. The loop may run forever.
\<close>

partial_function (option) check_lsp_order_loop ::
  "'f fops \<Rightarrow> nat \<Rightarrow> nat \<Rightarrow> 'f list \<Rightarrow> nat \<Rightarrow> (nat \<times> 'f list) option" where
  "check_lsp_order_loop F lpc_order i lsp swaps =
     (if i < lpc_order
      then do { a \<leftarrow> rd lsp i; b \<leftarrow> rd lsp (i - 1);
                (if flt F a b
                 then check_lsp_order_loop F lpc_order (1 + 1)
                        (lsp[i - 1 := fsub F a (flit F ''0.1''), i := fadd F b (flit F ''0.1'')]) (swaps + 1)
                 else check_lsp_order_loop F lpc_order (i + 1) lsp swaps) }
      else Some (swaps, lsp))"

definition check_lsp_order :: "'f fops \<Rightarrow> 'f list \<Rightarrow> nat \<Rightarrow> (nat \<times> 'f list) option" where
  "check_lsp_order F lsp lpc_order = check_lsp_order_loop F lpc_order 1 lsp 0"

definition bw_expand_lsps :: "'f fops \<Rightarrow> 'f list \<Rightarrow> nat \<Rightarrow> 'f list option" where
  "bw_expand_lsps F lsp order =
     (let bump = (\<lambda>d i lsp. do { a \<leftarrow> rd lsp i; b \<leftarrow> rd lsp (i - 1);
                    (if flt F (fsub F a b) (fmul F d (fdiv F (PI F) (flit F ''4000.0'')))
                     then wr lsp i (fadd F b (fmul F d (fdiv F (PI F) (flit F ''4000.0''))))
                     else Some lsp) })
      in do { l1 \<leftarrow> foldM (bump (flit F ''50.0'')) [1 ..< 4] lsp; foldM (bump (flit F ''100.0'')) [4 ..< order] l1 })"

section \<open>Pitch and energy\<close>

definition encode_Wo :: "'f fops \<Rightarrow> 'f \<Rightarrow> int" where
  "encode_Wo F Wo =
     (let Wo_min = fdiv F (TWO_PI F) (P_MAX F); Wo_max = fdiv F (TWO_PI F) (P_MIN F);
          norm = fdiv F (fsub F Wo Wo_min) (fsub F Wo_max Wo_min);
          index = ffloor F (fadd F (fmul F (fofint F WO_LEVELS) norm) (flit F ''0.5''));
          index = (if index < 0 then 0 else index)
      in if index > WO_LEVELS - 1 then WO_LEVELS - 1 else index)"

definition decode_Wo :: "'f fops \<Rightarrow> int \<Rightarrow> 'f" where
  "decode_Wo F index =
     (let Wo_min = fdiv F (TWO_PI F) (P_MAX F); Wo_max = fdiv F (TWO_PI F) (P_MIN F);
          step = fdiv F (fsub F Wo_max Wo_min) (fofint F WO_LEVELS)
      in fadd F Wo_min (fmul F step (fofint F index)))"

definition encode_energy :: "'f fops \<Rightarrow> 'f \<Rightarrow> int" where
  "encode_energy F e =
     (let e_min = flit F ''-10.0''; e_max = flit F ''40.0'';
          e = fmul F (flit F ''10.0'') (flog10 F e);
          norm = fdiv F (fsub F e e_min) (fsub F e_max e_min);
          index = ffloor F (fadd F (fmul F (fofint F E_LEVELS) norm) (flit F ''0.5''));
          index = (if index < 0 then 0 else index)
      in if index > E_LEVELS - 1 then E_LEVELS - 1 else index)"

definition decode_energy :: "'f fops \<Rightarrow> int \<Rightarrow> 'f" where
  "decode_energy F index =
     (let e_min = flit F ''-10.0''; e_max = flit F ''40.0'';
          step = fdiv F (fsub F e_max e_min) (fofint F E_LEVELS);
          e = fadd F e_min (fmul F step (fofint F index))
      in fpow F (flit F ''10.0'') (fdiv F e (flit F ''10.0'')))"

definition ge_coeff :: "'f fops \<Rightarrow> 'f list" where
  "ge_coeff F = [flit F ''0.8'', flit F ''0.9'']"

definition compute_weights2 :: "'f fops \<Rightarrow> 'f list \<Rightarrow> 'f list \<Rightarrow> 'f list option" where
  "compute_weights2 F x xp =
     do { x0 \<leftarrow> rd x 0; x1 \<leftarrow> rd x 1; p0 \<leftarrow> rd xp 0; p1 \<leftarrow> rd xp 1;
          (let w0 = fofint F 30; w1 = fofint F 1;
               (w0, w1) = (if flt F x1 (fofint F 0) then (fmul F w0 (flit F ''.6''), fmul F w1 (flit F ''.3'')) else (w0, w1));
               (w0, w1) = (if flt F x1 (fofint F (- 10)) then (fmul F w0 (flit F ''.3''), fmul F w1 (flit F ''.3'')) else (w0, w1));
               d = ffabs F (fsub F x0 p0);
               (w0, w1) = (if flt F d (flit F ''.2'') then (fmul F w0 (fofint F 2), fmul F w1 (flit F ''1.5''))
                           else if flt F (flit F ''.5'') d then (fmul F w0 (flit F ''.5''), w1) else (w0, w1));
               w1 = (if flt F x1 (fsub F p1 (fofint F 10)) then fmul F w1 (flit F ''.5'') else w1);
               w1 = (if flt F x1 (fsub F p1 (fofint F 20)) then fmul F w1 (flit F ''.5'') else w1)
           in Some [fmul F w0 w0, fmul F w1 w1]) }"

definition encode_WoE :: "'f fops \<Rightarrow> 'f codebooks \<Rightarrow> 'f MODEL \<Rightarrow> 'f \<Rightarrow> 'f list \<Rightarrow> (nat \<times> 'f list) option" where
  "encode_WoE F C model e xq =
     do { b \<leftarrow> rd (ge_cb C) 0;
          (let nb_entries = cb_m b; ndim = cb_k b
           in do { u \<leftarrow> ensure (2 ^ WO_E_BITS = nb_entries);
                   (let e = (if flt F e (flit F ''0.0'') then fofint F 0 else e);
                        x = [fdiv F (flog10 F (fdiv F (fmul F (fdiv F (m_Wo model) (PI F)) (flit F ''4000.0'')) (flit F ''50.0'')))
                               (flog10 F (fofint F 2)),
                             fmul F (flit F ''10.0'') (flog10 F (fadd F (flit F ''1e-4'') e))]
                    in do { w \<leftarrow> compute_weights2 F x xq;
                            err \<leftarrow> those (map (\<lambda>i. do { a \<leftarrow> rd x i; g \<leftarrow> rd (ge_coeff F) i; q \<leftarrow> rd xq i;
                                      Some (fsub F a (fmul F g q)) }) [0 ..< ndim]);
                            n1 \<leftarrow> find_nearest_weighted F (cb b) nb_entries err w ndim;
                            xq' \<leftarrow> those (map (\<lambda>i. do { g \<leftarrow> rd (ge_coeff F) i; q \<leftarrow> rd xq i; c \<leftarrow> rd (cb b) (ndim * n1 + i);
                                      Some (fadd F (fmul F g q) c) }) [0 ..< ndim]);
                            Some (n1, xq') }) }) }"

text \<open>\<open>err\<close>, which \<open>decode_WoE\<close> updates without ever setting it, is left out: nothing depends on it.\<close>

definition decode_WoE :: "'f fops \<Rightarrow> 'f codebooks \<Rightarrow> 'f MODEL \<Rightarrow> 'f list \<Rightarrow> nat \<Rightarrow> ('f MODEL \<times> 'f \<times> 'f list) option" where
  "decode_WoE F C model xq n1 =
     do { b \<leftarrow> rd (ge_cb C) 0;
          xq' \<leftarrow> those (map (\<lambda>i. do { g \<leftarrow> rd (ge_coeff F) i; q \<leftarrow> rd xq i; c \<leftarrow> rd (cb b) (cb_k b * n1 + i);
                    Some (fadd F (fmul F g q) c) }) [0 ..< cb_k b]);
          x0 \<leftarrow> rd xq' 0; x1 \<leftarrow> rd xq' 1;
          (let Wo_min = fdiv F (TWO_PI F) (P_MAX F); Wo_max = fdiv F (TWO_PI F) (P_MIN F);
               Wo = fdiv F (fmul F (fpow F (flit F ''2.0'') x0) (fmul F (PI F) (flit F ''50.0''))) (flit F ''4000.0'');
               Wo = (if flt F Wo_max Wo then Wo_max else Wo);
               Wo = (if flt F Wo Wo_min then Wo_min else Wo)
           in Some (model\<lparr>m_Wo := Wo, m_L := ftoint F (fdiv F (PI F) Wo)\<rparr>,
                    fpow F (flit F ''10.0'') (fdiv F x1 (flit F ''10.0'')), xq')) }"

definition apply_lpc_correction :: "'f fops \<Rightarrow> 'f MODEL \<Rightarrow> 'f MODEL option" where
  "apply_lpc_correction F model =
     (if flt F (m_Wo model) (fdiv F (fmul F (PI F) (flit F ''150.0'')) (fofint F 4000))
      then do { a \<leftarrow> rd (m_A model) 1; A' \<leftarrow> wr (m_A model) 1 (fmul F a (flit F ''0.032'')); Some (model\<lparr>m_A := A'\<rparr>) }
      else Some model)"

section \<open>Interpolation\<close>

definition interp_Wo2 :: "'f fops \<Rightarrow> 'f MODEL \<Rightarrow> 'f MODEL \<Rightarrow> 'f MODEL \<Rightarrow> 'f \<Rightarrow> 'f MODEL" where
  "interp_Wo2 F interp prv nxt weight =
     (let v = (if m_voiced interp \<noteq> 0 \<and> \<not> m_voiced prv \<noteq> 0 \<and> \<not> m_voiced nxt \<noteq> 0 then 0 else m_voiced interp);
          Wo = (if v \<noteq> 0
                then (if m_voiced prv \<noteq> 0 \<and> m_voiced nxt \<noteq> 0
                      then fadd F (fmul F (fsub F (flit F ''1.0'') weight) (m_Wo prv)) (fmul F weight (m_Wo nxt))
                      else if \<not> m_voiced prv \<noteq> 0 \<and> m_voiced nxt \<noteq> 0 then m_Wo nxt
                      else if m_voiced prv \<noteq> 0 \<and> \<not> m_voiced nxt \<noteq> 0 then m_Wo prv
                      else m_Wo interp)
                else fdiv F (TWO_PI F) (P_MAX F))
      in interp\<lparr>m_voiced := v, m_Wo := Wo, m_L := ftoint F (fdiv F (PI F) Wo)\<rparr>)"

definition interp_Wo :: "'f fops \<Rightarrow> 'f MODEL \<Rightarrow> 'f MODEL \<Rightarrow> 'f MODEL \<Rightarrow> 'f MODEL" where
  "interp_Wo F interp prv nxt = interp_Wo2 F interp prv nxt (flit F ''0.5'')"

definition interp_energy :: "'f fops \<Rightarrow> 'f \<Rightarrow> 'f \<Rightarrow> 'f" where
  "interp_energy F prev_e next_e =
     fpow F (flit F ''10.0'') (fdiv F (fadd F (flog10 F prev_e) (flog10 F next_e)) (flit F ''2.0''))"

definition interp_energy2 :: "'f fops \<Rightarrow> 'f \<Rightarrow> 'f \<Rightarrow> 'f \<Rightarrow> 'f" where
  "interp_energy2 F prev_e next_e weight =
     fpow F (flit F ''10.0'')
       (fadd F (fmul F (fsub F (flit F ''1.0'') weight) (flog10 F prev_e)) (fmul F weight (flog10 F next_e)))"

definition interpolate_lsp_ver2 :: "'f fops \<Rightarrow> 'f list \<Rightarrow> 'f list \<Rightarrow> 'f \<Rightarrow> 'f list option" where
  "interpolate_lsp_ver2 F prv nxt weight =
     those (map (\<lambda>i. do { p \<leftarrow> rd prv i; q \<leftarrow> rd nxt i;
                        Some (fadd F (fmul F (fsub F (flit F ''1.0'') weight) p) (fmul F weight q)) }) [0 ..< LPC_ORD])"

end
