(* ===== verification/C2Pack.thy ===== *)
theory C2Pack
  imports WordLib
begin

unbundle bit_operations_syntax

text \<open>
  Packing the fields of a voice frame into bytes (codec2/pack.c): every field is converted to Gray code
  and written at a bit index, most significant bit first, in slices that end at byte boundaries. The
  loops run over \<open>fieldWidth\<close> as the code does; a shift by 32 or more and an access outside the bytes
  are \<^term>\<open>None\<close>. A right shift of a negative \<open>int\<close> keeps the sign.
\<close>

section \<open>The code\<close>

definition bits_left :: "32 word \<Rightarrow> 32 word" where
  "bits_left bI = 8 - (bI AND 7)"

definition slice_width :: "32 word \<Rightarrow> 32 word \<Rightarrow> 32 word" where
  "slice_width bI fieldWidth = (if bits_left bI < fieldWidth then bits_left bI else fieldWidth)"

lemma unat_bits_left: "unat (bits_left bI) = 8 - unat bI mod 8"
proof -
  have a: "unat (bI AND 7) = unat bI mod 8"
    using take_bit_eq_mask [of 3 "unat bI"] by (simp add: mask_eq_exp_minus_1 take_bit_eq_mod unsigned_and_eq)
  then have "unat (bI AND 7) < 8" by simp
  then have "bI AND 7 \<le> 8" by (simp add: word_le_nat_alt)
  then show ?thesis by (simp add: bits_left_def unat_sub a)
qed

lemma unat_slice_width: "unat (slice_width bI w) = min (8 - unat bI mod 8) (unat w)"
  by (auto simp: slice_width_def unat_bits_left word_less_nat_alt min_def)

lemma unat_rest: "unat (w - slice_width bI w) = unat w - unat (slice_width bI w)"
  by (rule unat_sub) (simp add: word_le_nat_alt unat_slice_width)

function pack_loop :: "8 word list \<Rightarrow> 32 word \<Rightarrow> 32 word \<Rightarrow> 32 word \<Rightarrow> (8 word list \<times> 32 word) option" where
  "pack_loop bitArray bI field fieldWidth =
     (let bitsLeft = bits_left bI; sliceWidth = slice_width bI fieldWidth; wordIndex = unat (drop_bit 3 bI)
      in do { u \<leftarrow> ensure (unat (fieldWidth - sliceWidth) < 32);
               old \<leftarrow> rd bitArray wordIndex;
               arr \<leftarrow> wr bitArray wordIndex
                 (old OR ucast (push_bit (unat (bitsLeft - sliceWidth))
                    (signed_drop_bit (unat (fieldWidth - sliceWidth)) field)));
               (if fieldWidth - sliceWidth \<noteq> 0
                then pack_loop arr (bI + sliceWidth) field (fieldWidth - sliceWidth)
                else Some (arr, bI + sliceWidth)) })"
  by pat_completeness auto
termination
proof (relation "measure (\<lambda>(a, b, c, w). unat w)", goal_cases)
  case (2 bitArray bI field fieldWidth)
  have "unat (fieldWidth - slice_width bI fieldWidth) \<noteq> 0" using 2 by (simp add: unat_eq_0)
  then have "0 < unat fieldWidth" "0 < unat (slice_width bI fieldWidth)" by (simp_all add: unat_rest unat_slice_width)
  then show ?case using 2 by (simp add: unat_rest)
qed simp

declare pack_loop.simps [simp del]

definition pack :: "8 word list \<Rightarrow> 32 word \<Rightarrow> 32 word \<Rightarrow> 32 word \<Rightarrow> (8 word list \<times> 32 word) option" where
  "pack bitArray bitIndex field fieldWidth =
     pack_loop bitArray bitIndex (signed_drop_bit 1 field XOR field) fieldWidth"

function unpack_loop :: "8 word list \<Rightarrow> 32 word \<Rightarrow> 32 word \<Rightarrow> 32 word \<Rightarrow> (32 word \<times> 32 word) option" where
  "unpack_loop bitArray bI field fieldWidth =
     (let bitsLeft = bits_left bI; sliceWidth = slice_width bI fieldWidth
      in do { u \<leftarrow> ensure (unat (fieldWidth - sliceWidth) < 32);
               b \<leftarrow> rd bitArray (unat (drop_bit 3 bI));
               (let f = field OR push_bit (unat (fieldWidth - sliceWidth))
                      (drop_bit (unat (bitsLeft - sliceWidth)) (ucast b) AND (push_bit (unat sliceWidth) 1 - 1))
                in if fieldWidth - sliceWidth \<noteq> 0
                   then unpack_loop bitArray (bI + sliceWidth) f (fieldWidth - sliceWidth)
                   else Some (f, bI + sliceWidth)) })"
  by pat_completeness auto
termination
proof (relation "measure (\<lambda>(a, b, c, w). unat w)", goal_cases)
  case (2 bitArray bI field fieldWidth)
  have "unat (fieldWidth - slice_width bI fieldWidth) \<noteq> 0" using 2 by (simp add: unat_eq_0)
  then have "0 < unat fieldWidth" "0 < unat (slice_width bI fieldWidth)" by (simp_all add: unat_rest unat_slice_width)
  then show ?case using 2 by (simp add: unat_rest)
qed simp

declare unpack_loop.simps [simp del]

text \<open>Gray code back to binary.\<close>

definition from_gray :: "32 word \<Rightarrow> 32 word" where
  "from_gray field =
     (let t = field XOR drop_bit 8 field; t = t XOR drop_bit 4 t; t = t XOR drop_bit 2 t in t XOR drop_bit 1 t)"

definition unpack :: "8 word list \<Rightarrow> 32 word \<Rightarrow> 32 word \<Rightarrow> (32 word \<times> 32 word) option" where
  "unpack bitArray bitIndex fieldWidth =
     do { r \<leftarrow> unpack_loop bitArray bitIndex 0 fieldWidth; Some (from_gray (fst r), snd r) }"


section \<open>The bytes as a stream of bits\<close>

text \<open>Bit \<open>k\<close> of the stream is bit \<open>7 - k mod 8\<close> of byte \<open>k div 8\<close>.\<close>

definition sbit :: "8 word list \<Rightarrow> nat \<Rightarrow> bool" where
  "sbit arr k \<longleftrightarrow> k div 8 < length arr \<and> bit (arr ! (k div 8)) (7 - k mod 8)"

lemma slice_bits:
  fixes g :: "32 word"
  assumes "0 < F" and "F \<le> 16" and "m < 8" and "q < 8" and "(\<forall>j \<ge> F. \<not> bit g j) \<or> q = 0"
  defines "s \<equiv> min (8 - q) F"
  shows "bit (ucast (push_bit (8 - q - s) (signed_drop_bit (F - s) g)) :: 8 word) (7 - m) \<longleftrightarrow>
     q \<le> m \<and> m < q + s \<and> bit g (F - 1 - (m - q))"
proof -
  have c: "bit (ucast (push_bit (8 - q - s) (signed_drop_bit (F - s) g)) :: 8 word) (7 - m) \<longleftrightarrow>
      8 - q - s \<le> 7 - m \<and> bit g (F - s + (7 - m - (8 - q - s)))"
    using assms(2,3) by (auto simp: bit_ucast_iff bit_push_bit_iff bit_signed_drop_bit_iff)
  have le: "8 - q - s \<le> 7 - m \<longleftrightarrow> m < q + s" using assms(3,4) by (auto simp: s_def)
  show ?thesis
  proof (cases "m < q + s")
    case True
    then have "F - s + (7 - m - (8 - q - s)) = F - 1 + q - m" using assms(1,3,4) by (auto simp: s_def)
    moreover have "q \<le> m \<Longrightarrow> F - 1 + q - m = F - 1 - (m - q)" by simp
    moreover have "\<not> q \<le> m \<Longrightarrow> F \<le> F - 1 + q - m" using assms(1) by simp
    ultimately show ?thesis unfolding c le using True assms(5) by (cases "q \<le> m") auto
  next
    case False
    then show ?thesis unfolding c le by simp
  qed
qed

lemma pack_slice:
  assumes "0 < F" and "F \<le> 16" and "p div 8 < length arr" and "(\<forall>j \<ge> F. \<not> bit g j) \<or> p mod 8 = 0"
  defines "s \<equiv> min (8 - p mod 8) F"
  shows "sbit (arr[p div 8 := arr ! (p div 8) OR ucast (push_bit (8 - p mod 8 - s) (signed_drop_bit (F - s) (g :: 32 word)))]) k \<longleftrightarrow>
     sbit arr k \<or> (p \<le> k \<and> k < p + s \<and> bit g (F - 1 - (k - p)))"
proof (cases "k div 8 = p div 8")
  case True
  have kp: "k = 8 * (p div 8) + k mod 8" "p = 8 * (p div 8) + p mod 8" using True mult_div_mod_eq [of 8 k] by simp_all
  have "p \<le> k \<longleftrightarrow> p mod 8 \<le> k mod 8" "k < p + s \<longleftrightarrow> k mod 8 < p mod 8 + s" "k - p = k mod 8 - p mod 8"
    using kp by linarith+
  moreover have "bit (ucast (push_bit (8 - p mod 8 - s) (signed_drop_bit (F - s) g)) :: 8 word) (7 - k mod 8) \<longleftrightarrow>
      p mod 8 \<le> k mod 8 \<and> k mod 8 < p mod 8 + s \<and> bit g (F - 1 - (k mod 8 - p mod 8))"
    unfolding s_def by (rule slice_bits [OF assms(1,2) _ _ assms(4)]) simp_all
  moreover have "sbit arr k \<longleftrightarrow> bit (arr ! (p div 8)) (7 - k mod 8)" using True assms(3) by (simp add: sbit_def)
  ultimately show ?thesis using True assms(3) unfolding sbit_def by (simp only: length_list_update nth_list_update_eq bit_or_iff simp_thms)
next
  case False
  have "\<not> (p \<le> k \<and> k < p + s)"
  proof
    assume a: "p \<le> k \<and> k < p + s"
    have "s \<le> 8 - p mod 8" "p mod 8 < 8" by (simp_all add: s_def)
    then have "p + s \<le> 8 * (p div 8) + 8" using mult_div_mod_eq [of 8 p] by linarith
    then show False using a False by linarith
  qed
  then show ?thesis using False by (auto simp: sbit_def)
qed


lemma words_less: "unat (bI :: 32 word) + n < 2 ^ 32 \<Longrightarrow> unat w \<le> n \<Longrightarrow> unat (bI + w) = unat bI + unat w"
  by (simp add: unat_add_lem [THEN iffD1])

lemma unat_index: "unat (drop_bit 3 (bI :: 32 word)) = unat bI div 8"
  by (simp add: drop_bit_eq_div unat_div)

lemma pack_loop_bits:
  assumes "0 < unat w" and "unat w \<le> 16" and "unat bI + unat w \<le> 8 * length arr" and "8 * length arr < 2 ^ 32"
    and "(\<forall>j \<ge> unat w. \<not> bit g j) \<or> unat bI mod 8 = 0"
  shows "\<exists>arr'. pack_loop arr bI g w = Some (arr', bI + w) \<and> length arr' = length arr \<and>
     (\<forall>k. sbit arr' k \<longleftrightarrow> sbit arr k \<or> (unat bI \<le> k \<and> k < unat bI + unat w \<and> bit g (unat w - 1 - (k - unat bI))))"
  using assms
proof (induction "unat w" arbitrary: w bI arr rule: less_induct)
  case less
  let ?p = "unat bI" and ?F = "unat w"
  define s where "s = min (8 - ?p mod 8) ?F"
  define arr1 where "arr1 = arr[?p div 8 := arr ! (?p div 8) OR ucast (push_bit (8 - ?p mod 8 - s) (signed_drop_bit (?F - s) g))]"
  define w1 and b1 where "w1 = w - slice_width bI w" and "b1 = bI + slice_width bI w"
  have s: "unat (slice_width bI w) = s" "0 < s" "s \<le> ?F"
    using less.prems(1) by (auto simp: s_def unat_slice_width)
  have i: "?p div 8 < length arr" using less.prems(1,3) by linarith
  have le: "slice_width bI w \<le> bits_left bI" by (simp add: word_le_nat_alt unat_slice_width unat_bits_left)
  have small: "?F - s < 32" using less.prems(2) by simp
  have step: "pack_loop arr bI g w = (if w1 \<noteq> 0 then pack_loop arr1 b1 g w1 else Some (arr1, b1))"
    unfolding arr1_def w1_def b1_def using small s i
    by (subst pack_loop.simps) (simp only: Let_def unat_index unat_rest unat_sub [OF le] unat_bits_left wr_def, simp)
  have bits: "sbit arr1 k \<longleftrightarrow> sbit arr k \<or> (?p \<le> k \<and> k < ?p + s \<and> bit g (?F - 1 - (k - ?p)))" for k
    unfolding arr1_def by (rule pack_slice [OF less.prems(1,2) i less.prems(5), folded s_def])
  have w: "unat w1 = ?F - s" by (simp add: w1_def unat_rest s)
  have e: "b1 + w1 = bI + w" "length arr1 = length arr" by (simp_all add: w1_def b1_def arr1_def)
  show ?case
  proof (cases "s < ?F")
    case False
    then have "w1 = 0" "s = ?F" using w s by (auto simp: unat_eq_0)
    then show ?thesis using step bits e by auto
  next
    case True
    have b: "unat b1 = ?p + s"
      using words_less [of bI ?F "slice_width bI w"] less.prems(3,4) s by (simp add: b1_def)
    have "s = 8 - ?p mod 8" using True by (simp add: s_def)
    then have "(?p + s) mod 8 = 0" by presburger
    moreover have "?F - s \<le> 16" using less.prems(2) by simp
    ultimately obtain arr' where r: "pack_loop arr1 b1 g w1 = Some (arr', bI + w)" "length arr' = length arr"
      "\<forall>k. sbit arr' k \<longleftrightarrow> sbit arr1 k \<or> (?p + s \<le> k \<and> k < ?p + ?F \<and> bit g (?F - s - 1 - (k - (?p + s))))"
      using less.hyps [of w1 b1 arr1] less.prems s(2,3) True unfolding b w e by auto
    have "?F - s - 1 - (k - (?p + s)) = ?F - 1 - (k - ?p)" if "?p + s \<le> k" for k using that by simp
    then have "sbit arr' k \<longleftrightarrow> sbit arr k \<or> (?p \<le> k \<and> k < ?p + ?F \<and> bit g (?F - 1 - (k - ?p)))" for k
      using r(3) bits [of k] s(3) by (cases "?p + s \<le> k") auto
    moreover have "w1 \<noteq> 0" using w True by (metis unat_0 zero_less_diff less_irrefl)
    ultimately show ?thesis using step r(1,2) by simp
  qed
qed

lemma unslice_bits:
  assumes "j < 32" and "F \<le> 16" and "q < 8" and "0 < F"
  defines "s \<equiv> min (8 - q) F"
  shows "bit (push_bit (F - s) (drop_bit (8 - q - s) (ucast (b :: 8 word)) AND (push_bit s 1 - 1)) :: 32 word) j \<longleftrightarrow>
     F - s \<le> j \<and> j < F \<and> bit b (7 - (q + (F - 1 - j)))"
proof -
  have s: "0 < s" "s \<le> F" "s \<le> 8 - q" using assms(3,4) by (auto simp: s_def)
  have m: "push_bit s 1 - 1 = (mask s :: 32 word)" by (simp add: mask_eq_exp_minus_1 push_bit_eq_mult)
  have e: "8 - q - s + (j - (F - s)) = 7 - (q + (F - 1 - j))" if "F - s \<le> j" "j < F" using that s by auto
  show ?thesis
    unfolding m using assms(1,2) s
    by (auto simp: e add.commute bit_push_bit_iff bit_and_iff bit_mask_iff bit_drop_bit_eq bit_ucast_iff)
qed

lemma unpack_loop_bits:
  assumes "0 < unat w" and "unat w \<le> 16" and "unat bI + unat w \<le> 8 * length arr" and "8 * length arr < 2 ^ 32"
  shows "\<exists>f'. unpack_loop arr bI f w = Some (f', bI + w) \<and>
     (\<forall>j < 32. bit f' j \<longleftrightarrow> bit f j \<or> (j < unat w \<and> sbit arr (unat bI + (unat w - 1 - j))))"
  using assms
proof (induction "unat w" arbitrary: w bI f rule: less_induct)
  case less
  let ?p = "unat bI" and ?F = "unat w"
  define s where "s = min (8 - ?p mod 8) ?F"
  define f1 where "f1 = f OR push_bit (?F - s) (drop_bit (8 - ?p mod 8 - s) (ucast (arr ! (?p div 8))) AND (push_bit s 1 - 1))"
  define w1 and b1 where "w1 = w - slice_width bI w" and "b1 = bI + slice_width bI w"
  have s: "unat (slice_width bI w) = s" "0 < s" "s \<le> ?F" "s \<le> 8 - ?p mod 8"
    using less.prems(1) by (auto simp: s_def unat_slice_width)
  have i: "?p div 8 < length arr" using less.prems(1,3) by linarith
  have le: "slice_width bI w \<le> bits_left bI" by (simp add: word_le_nat_alt unat_slice_width unat_bits_left)
  have small: "?F - s < 32" using less.prems(2) by simp
  have step: "unpack_loop arr bI f w = (if w1 \<noteq> 0 then unpack_loop arr b1 f1 w1 else Some (f1, b1))"
    unfolding f1_def w1_def b1_def using small s(1-3) i
    by (subst unpack_loop.simps) (simp only: Let_def unat_index unat_rest unat_sub [OF le] unat_bits_left, simp)
  have bits: "bit f1 j \<longleftrightarrow> bit f j \<or> (?F - s \<le> j \<and> j < ?F \<and> sbit arr (?p + (?F - 1 - j)))" if "j < 32" for j
  proof -
    have "bit (arr ! (?p div 8)) (7 - (?p mod 8 + (?F - 1 - j))) \<longleftrightarrow> sbit arr (?p + (?F - 1 - j))"
      if r: "?F - s \<le> j" "j < ?F"
    proof -
      have d: "?p mod 8 + (?F - 1 - j) < 8" using r s by linarith
      have k: "?p + (?F - 1 - j) = 8 * (?p div 8) + (?p mod 8 + (?F - 1 - j))" by simp
      have "(?p + (?F - 1 - j)) div 8 = ?p div 8" "(?p + (?F - 1 - j)) mod 8 = ?p mod 8 + (?F - 1 - j)"
        unfolding k using d by (simp_all only: div_mult_self4 mod_mult_self4 div_less mod_less)
      then show ?thesis using i by (simp add: sbit_def)
    qed
    moreover note unslice_bits [OF \<open>j < 32\<close> less.prems(2) _ less.prems(1), of "?p mod 8" "arr ! (?p div 8)", folded s_def]
    ultimately show ?thesis unfolding f1_def bit_or_iff by (metis mod_less_divisor zero_less_numeral)
  qed
  have w: "unat w1 = ?F - s" by (simp add: w1_def unat_rest s)
  have e: "b1 + w1 = bI + w" by (simp add: w1_def b1_def)
  show ?case
  proof (cases "s < ?F")
    case False
    then have "w1 = 0" "s = ?F" using w s by (auto simp: unat_eq_0)
    then show ?thesis using step bits e by auto
  next
    case True
    have b: "unat b1 = ?p + s"
      using words_less [of bI ?F "slice_width bI w"] less.prems(3,4) s by (simp add: b1_def)
    have "?F - s \<le> 16" using less.prems(2) by simp
    then obtain f' where r: "unpack_loop arr b1 f1 w1 = Some (f', bI + w)"
      "\<forall>j < 32. bit f' j \<longleftrightarrow> bit f1 j \<or> (j < ?F - s \<and> sbit arr (?p + s + (?F - s - 1 - j)))"
      using less.hyps [of w1 b1 f1] less.prems s(2,3) True unfolding b w e by auto
    have "?p + s + (?F - s - 1 - j) = ?p + (?F - 1 - j)" if "j < ?F - s" for j using that by simp
    then have "bit f' j \<longleftrightarrow> bit f j \<or> (j < ?F \<and> sbit arr (?p + (?F - 1 - j)))" if "j < 32" for j
      using r(2) bits [OF that] that s(3) by (cases "j < ?F - s") auto
    moreover have "w1 \<noteq> 0" using w True by (metis unat_0 zero_less_diff less_irrefl)
    ultimately show ?thesis using step r(1) by simp
  qed
qed


section \<open>Gray code\<close>

definition gray_step :: "nat \<Rightarrow> 32 word \<Rightarrow> 32 word" where
  "gray_step k x = x XOR drop_bit k x"

lemma drop_bit_xor_word: "drop_bit k (x XOR y) = drop_bit k x XOR drop_bit k (y :: 32 word)"
  by (rule bit_word_eqI) (simp add: bit_drop_bit_eq bit_xor_iff)

lemma gray_step_commute: "gray_step j (gray_step k x) = gray_step k (gray_step j x)"
  by (rule bit_word_eqI) (auto simp: gray_step_def drop_bit_xor_word bit_xor_iff bit_drop_bit_eq add.commute add.left_commute)

lemma gray_step_twice: "gray_step k (gray_step k x) = gray_step (k + k) x"
  by (rule bit_word_eqI) (auto simp: gray_step_def drop_bit_xor_word bit_xor_iff bit_drop_bit_eq)

lemma from_gray_step: "from_gray (gray_step 1 x) = gray_step 16 x"
proof -
  have "from_gray (gray_step 1 x) = gray_step 1 (gray_step 2 (gray_step 4 (gray_step 8 (gray_step 1 x))))"
    by (simp only: from_gray_def gray_step_def Let_def)
  also have "\<dots> = gray_step 1 (gray_step 1 (gray_step 2 (gray_step 4 (gray_step 8 x))))"
    by (simp only: gray_step_commute [of 8 1] gray_step_commute [of 4 1] gray_step_commute [of 2 1])
  also have "\<dots> = gray_step 2 (gray_step 2 (gray_step 4 (gray_step 8 x)))"
    by (simp only: gray_step_twice one_add_one)
  also have "\<dots> = gray_step 16 x"
    using gray_step_twice [of 2] gray_step_twice [of 4] gray_step_twice [of 8] by simp
  finally show ?thesis .
qed

lemma small_bit: "unat (f :: 32 word) < 2 ^ n \<Longrightarrow> n \<le> j \<Longrightarrow> \<not> bit f j"
proof
  assume a: "unat f < 2 ^ n" "n \<le> j" "bit f j"
  have "unat f < 2 ^ j" using a(1) power_increasing [OF a(2), of "2 :: nat"] by linarith
  moreover have "odd (unat f div 2 ^ j)" using a(3) by (simp add: bit_unsigned_iff flip: bit_iff_odd)
  ultimately show False by simp
qed

lemma gray_code:
  assumes "unat f < 2 ^ n" and "n \<le> 16"
  shows "signed_drop_bit 1 f XOR f = gray_step 1 f" and "from_gray (gray_step 1 f) = f"
    and "\<forall>j \<ge> n. \<not> bit (gray_step 1 f) j"
proof -
  have z: "\<not> bit f j" if "n \<le> j" for j using small_bit [OF assms(1) that] .
  then show "signed_drop_bit 1 f XOR f = gray_step 1 f"
    using assms(2) by (intro bit_word_eqI) (auto simp: gray_step_def bit_signed_drop_bit_iff bit_xor_iff bit_drop_bit_eq)
  show "from_gray (gray_step 1 f) = f"
    using z assms(2) unfolding from_gray_step
    by (intro bit_word_eqI) (auto simp: gray_step_def bit_xor_iff bit_drop_bit_eq)
  show "\<forall>j \<ge> n. \<not> bit (gray_step 1 f) j"
    using z by (auto simp: gray_step_def bit_xor_iff bit_drop_bit_eq)
qed

section \<open>Fields and frames\<close>

definition fits :: "8 word list \<Rightarrow> 32 word \<Rightarrow> 32 word \<Rightarrow> bool" where
  "fits arr bI w \<longleftrightarrow> 0 < unat w \<and> unat w \<le> 16 \<and> unat bI + unat w \<le> 8 * length arr \<and> 8 * length arr < 2 ^ 32"

text \<open>The field a width of bits spells.\<close>

definition spells :: "8 word list \<Rightarrow> 32 word \<Rightarrow> 32 word \<Rightarrow> 32 word \<Rightarrow> bool" where
  "spells arr bI w f \<longleftrightarrow> (\<forall>j < unat w. bit (gray_step 1 f) j \<longleftrightarrow> sbit arr (unat bI + (unat w - 1 - j)))"

lemma pack_spells:
  assumes "fits arr bI w" and "unat f < 2 ^ unat w" and "\<forall>k. unat bI \<le> k \<and> k < unat bI + unat w \<longrightarrow> \<not> sbit arr k"
  shows "\<exists>arr'. pack arr bI f w = Some (arr', bI + w) \<and> length arr' = length arr \<and> spells arr' bI w f \<and>
     (\<forall>k. k < unat bI \<or> unat bI + unat w \<le> k \<longrightarrow> sbit arr' k = sbit arr k)"
proof -
  have w: "unat w \<le> 16" using assms(1) by (simp add: fits_def)
  note g = gray_code [OF assms(2) w]
  obtain arr' where a: "pack arr bI f w = Some (arr', bI + w)" "length arr' = length arr"
    "\<And>k. sbit arr' k \<longleftrightarrow> sbit arr k \<or> (unat bI \<le> k \<and> k < unat bI + unat w \<and> bit (gray_step 1 f) (unat w - 1 - (k - unat bI)))"
    using pack_loop_bits [OF _ _ _ _ disjI1 [OF g(3)], of bI arr] assms(1) unfolding pack_def g(1) fits_def by metis
  have "spells arr' bI w f" using a(3) assms(3) by (auto simp: spells_def)
  moreover have "\<forall>k. k < unat bI \<or> unat bI + unat w \<le> k \<longrightarrow> sbit arr' k = sbit arr k" using a(3) by auto
  ultimately show ?thesis using a(1,2) by blast
qed

lemma unpack_spells:
  assumes "fits arr bI w" and "unat f < 2 ^ unat w" and "spells arr bI w f"
  shows "unpack arr bI w = Some (f, bI + w)"
proof -
  have w: "unat w \<le> 16" using assms(1) by (simp add: fits_def)
  note g = gray_code [OF assms(2) w]
  obtain f' where f: "unpack_loop arr bI 0 w = Some (f', bI + w)"
    "\<forall>j < 32. bit f' j \<longleftrightarrow> (j < unat w \<and> sbit arr (unat bI + (unat w - 1 - j)))"
    using unpack_loop_bits [of w bI arr 0] assms(1) by (auto simp: fits_def)
  have "f' = gray_step 1 f"
  proof (rule bit_word_eqI)
    fix j assume "j < LENGTH(32)"
    then show "bit f' j \<longleftrightarrow> bit (gray_step 1 f) j"
      using f(2) assms(3) g(3) by (cases "j < unat w") (auto simp: spells_def)
  qed
  then show ?thesis using f(1) g(2) by (simp add: unpack_def)
qed


lemma spells_cong:
  assumes "\<forall>k. unat bI \<le> k \<and> k < unat bI + unat w \<longrightarrow> sbit arr' k = sbit arr k" and "0 < unat w"
  shows "spells arr' bI w f \<longleftrightarrow> spells arr bI w f"
  using assms by (auto simp: spells_def)

text \<open>A frame is a series of fields, values and widths.\<close>

fun pack_fields :: "8 word list \<Rightarrow> 32 word \<Rightarrow> (32 word \<times> 32 word) list \<Rightarrow> (8 word list \<times> 32 word) option" where
  "pack_fields arr bI [] = Some (arr, bI)"
| "pack_fields arr bI ((f, w) # fs) = do { (arr', bI') \<leftarrow> pack arr bI f w; pack_fields arr' bI' fs }"

fun unpack_fields :: "8 word list \<Rightarrow> 32 word \<Rightarrow> 32 word list \<Rightarrow> (32 word list \<times> 32 word) option" where
  "unpack_fields arr bI [] = Some ([], bI)"
| "unpack_fields arr bI (w # ws) =
     do { (f, bI') \<leftarrow> unpack arr bI w; (fs, bI'') \<leftarrow> unpack_fields arr bI' ws; Some (f # fs, bI'') }"

definition field_ok :: "32 word \<times> 32 word \<Rightarrow> bool" where
  "field_ok fw \<longleftrightarrow> 0 < unat (snd fw) \<and> unat (snd fw) \<le> 16 \<and> unat (fst fw) < 2 ^ unat (snd fw)"

definition frame_bits :: "(32 word \<times> 32 word) list \<Rightarrow> nat" where
  "frame_bits fs = sum_list (map (unat \<circ> snd) fs)"

lemma pack_fields_bits:
  assumes "\<forall>fw \<in> set fs. field_ok fw" and "unat bI + frame_bits fs \<le> 8 * length arr" and "8 * length arr < 2 ^ 32"
    and "\<forall>k. unat bI \<le> k \<and> k < unat bI + frame_bits fs \<longrightarrow> \<not> sbit arr k"
  shows "\<exists>arr'. pack_fields arr bI fs = Some (arr', bI + word_of_nat (frame_bits fs)) \<and> length arr' = length arr \<and>
     (\<forall>k < unat bI. sbit arr' k = sbit arr k) \<and>
     unpack_fields arr' bI (map snd fs) = Some (map fst fs, bI + word_of_nat (frame_bits fs))"
  using assms
proof (induction fs arbitrary: arr bI)
  case (Cons fw fs)
  obtain f w where fw: "fw = (f, w)" by (cases fw)
  have ok: "0 < unat w" "unat w \<le> 16" "unat f < 2 ^ unat w" using Cons.prems(1) by (auto simp: fw field_ok_def)
  have fb: "frame_bits (fw # fs) = unat w + frame_bits fs" by (simp add: frame_bits_def fw)
  have ft: "fits arr bI w" using ok Cons.prems(2,3) by (simp add: fits_def fb)
  obtain arr1 where a: "pack arr bI f w = Some (arr1, bI + w)" "length arr1 = length arr" "spells arr1 bI w f"
    "\<forall>k. k < unat bI \<or> unat bI + unat w \<le> k \<longrightarrow> sbit arr1 k = sbit arr k"
    using pack_spells [OF ft ok(3)] Cons.prems(4) by (force simp: fb)
  have b: "unat (bI + w) = unat bI + unat w" using words_less [of bI "unat w" w] Cons.prems(2,3) by (simp add: fb)
  have "\<exists>arr'. pack_fields arr1 (bI + w) fs = Some (arr', bI + w + word_of_nat (frame_bits fs)) \<and> length arr' = length arr1 \<and>
     (\<forall>k < unat (bI + w). sbit arr' k = sbit arr1 k) \<and>
     unpack_fields arr' (bI + w) (map snd fs) = Some (map fst fs, bI + w + word_of_nat (frame_bits fs))"
    by (rule Cons.IH) (use Cons.prems a(2,4) in \<open>auto simp: b fb\<close>)
  then obtain arr' where r: "pack_fields arr1 (bI + w) fs = Some (arr', bI + w + word_of_nat (frame_bits fs))"
    "length arr' = length arr1" "\<forall>k < unat bI + unat w. sbit arr' k = sbit arr1 k"
    "unpack_fields arr' (bI + w) (map snd fs) = Some (map fst fs, bI + w + word_of_nat (frame_bits fs))"
    unfolding b by blast
  have "spells arr' bI w f" using spells_cong [of bI w arr' arr1] r(3) ok(1) a(3) by auto
  then have "unpack arr' bI w = Some (f, bI + w)"
    using ft ok(3) r(2) a(2) by (intro unpack_spells) (simp_all add: fits_def)
  moreover have "bI + w + word_of_nat (frame_bits fs) = bI + word_of_nat (frame_bits (fw # fs))"
    by (simp add: fb add.assoc)
  ultimately show ?case using a r by (auto simp: fw)
qed (simp add: frame_bits_def)

section \<open>Properties\<close>

text \<open>
  \<open>unpack\<close> undoes \<open>pack\<close>: a field of 1 to 16 bits packed over clear bits at any bit index, across
  byte boundaries, is read back, both leave the index behind the field, and every other bit of the
  array is what it was. (The comment in the code promises this for 8 bits only.)
\<close>

theorem pack_unpack:
  assumes "fits arr bI w" and "unat f < 2 ^ unat w" and "\<forall>k. unat bI \<le> k \<and> k < unat bI + unat w \<longrightarrow> \<not> sbit arr k"
  shows "\<exists>arr'. pack arr bI f w = Some (arr', bI + w) \<and> unpack arr' bI w = Some (f, bI + w) \<and> length arr' = length arr \<and>
     (\<forall>k. k < unat bI \<or> unat bI + unat w \<le> k \<longrightarrow> sbit arr' k = sbit arr k)"
proof -
  obtain arr' where a: "pack arr bI f w = Some (arr', bI + w)" "length arr' = length arr" "spells arr' bI w f"
    "\<forall>k. k < unat bI \<or> unat bI + unat w \<le> k \<longrightarrow> sbit arr' k = sbit arr k"
    using pack_spells [OF assms] by blast
  moreover have "fits arr' bI w" using assms(1) a(2) by (simp add: fits_def)
  ultimately show ?thesis using unpack_spells [OF _ assms(2)] by blast
qed

theorem pack_unpack_witness:
  "\<exists>arr'. pack [0xE0, 0, 1] 3 0x5A5 12 = Some (arr', 15) \<and> unpack arr' 3 12 = Some (0x5A5, 15)"
proof -
  have "list_all (\<lambda>k. \<not> sbit [0xE0, 0, 1] k) [3 ..< 15]" by (simp add: upt_rec sbit_def)
  then have "\<forall>k. 3 \<le> k \<and> k < 15 \<longrightarrow> \<not> sbit [0xE0, 0, 1] k"
    by (simp only: list_all_iff set_upt atLeastLessThan_iff) simp
  then show ?thesis using pack_unpack [of "[0xE0, 0, 1]" 3 12 "0x5A5"] by (auto simp: fits_def)
qed


text \<open>
  C36. A frame: fields of 1 to 16 bits packed one after the other into cleared bytes with room for
  them are read back, in order, by the same widths; no access leaves the bytes.
\<close>

theorem frame_roundtrip:
  assumes "\<forall>fw \<in> set fs. field_ok fw" and "frame_bits fs \<le> 8 * n" and "8 * n < 2 ^ 32"
  shows "\<exists>arr. pack_fields (replicate n 0) 0 fs = Some (arr, word_of_nat (frame_bits fs)) \<and>
     unpack_fields arr 0 (map snd fs) = Some (map fst fs, word_of_nat (frame_bits fs))"
  using pack_fields_bits [of fs 0 "replicate n 0"] assms by (auto simp: sbit_def)

theorem frame_roundtrip_witness:
  "\<exists>arr. pack_fields (replicate 3 0) 0 [(5, 3), (200, 9), (1, 1), (77, 7)] = Some (arr, 20) \<and>
     unpack_fields arr 0 [3, 9, 1, 7] = Some ([5, 200, 1, 77], 20)"
  using frame_roundtrip [of "[(5, 3), (200, 9), (1, 1), (77, 7)]" 3] by (simp add: field_ok_def frame_bits_def)

end
