(* ===== verification/C2Codec.thy ===== *)
theory C2Codec
  imports C2Quantise C2Pack
begin

text \<open>
  The frames of the voice codec (codec2/codec2.c): six modes, each with an encoder that analyses 20 or
  40 ms of speech and packs the quantised parameters, and a decoder that unpacks, interpolates and
  synthesises. The signal processing between them is the parameter \<open>D\<close>: pitch and voicing estimation
  and the amplitude model (sine.c, nlp.c), linear prediction (lpc.c, lsp.c), and the synthesis
  (phase.c, postfilter.c, sine.c). Their states, and the windows and transforms made by
  codec2_create, are the field \<open>dsp_state\<close>.
\<close>

definition CODEC2_MODE_3200 :: int where "CODEC2_MODE_3200 = 0"
definition CODEC2_MODE_2400 :: int where "CODEC2_MODE_2400 = 1"
definition CODEC2_MODE_1600 :: int where "CODEC2_MODE_1600 = 2"
definition CODEC2_MODE_1400 :: int where "CODEC2_MODE_1400 = 3"
definition CODEC2_MODE_1300 :: int where "CODEC2_MODE_1300 = 4"
definition CODEC2_MODE_1200 :: int where "CODEC2_MODE_1200 = 5"

lemmas codec2_modes = CODEC2_MODE_3200_def CODEC2_MODE_2400_def CODEC2_MODE_1600_def
  CODEC2_MODE_1400_def CODEC2_MODE_1300_def CODEC2_MODE_1200_def

definition N :: nat where "N = 80"
definition M :: nat where "M = 320"
definition MAX_AMP :: nat where "MAX_AMP = 80"

record ('f, 'x) CODEC2 =
  c_mode :: int
  Sn :: "'f list"
  Sn_out :: "'f list"
  prev_Wo_enc :: 'f
  prev_model_dec :: "'f MODEL"
  prev_lsps_dec :: "'f list"
  prev_e_dec :: 'f
  xq_enc :: "'f list"
  xq_dec :: "'f list"
  dsp_state :: 'x

text \<open>
  \<open>estimate\<close>: the model of the last 40 ms; \<open>uq_lsps\<close>: energy and line spectral pairs; \<open>synth\<close>: from the
  model and the filter to the output buffer. \<open>stack_model\<close> is what an uninitialised \<open>MODEL\<close> holds.
\<close>

record ('f, 'x) dsp =
  ops :: "'f fops"
  books :: "'f codebooks"
  estimate :: "'x \<Rightarrow> 'f list \<Rightarrow> 'f \<Rightarrow> 'x \<times> 'f MODEL"
  uq_lsps :: "'x \<Rightarrow> 'f list \<Rightarrow> 'f \<times> 'f list"
  lsp_to_lpc :: "'f list \<Rightarrow> 'f list"
  aks_to_M2 :: "'x \<Rightarrow> 'f list \<Rightarrow> 'f MODEL \<Rightarrow> 'f \<Rightarrow> 'f MODEL"
  synth :: "'x \<Rightarrow> 'f list \<Rightarrow> 'f MODEL \<Rightarrow> 'f list \<Rightarrow> 'x \<times> 'f list \<times> 'f MODEL"
  stack_model :: "'f MODEL"

definition codec2_bits_per_frame :: "('f, 'x) CODEC2 \<Rightarrow> int" where
  "codec2_bits_per_frame c2 =
     (if c_mode c2 = CODEC2_MODE_3200 then 64
      else if c_mode c2 = CODEC2_MODE_2400 then 48
      else if c_mode c2 = CODEC2_MODE_1600 then 64
      else if c_mode c2 = CODEC2_MODE_1400 then 56
      else if c_mode c2 = CODEC2_MODE_1300 then 52
      else if c_mode c2 = CODEC2_MODE_1200 then 48
      else 0)"

definition codec2_samples_per_frame :: "('f, 'x) CODEC2 \<Rightarrow> int" where
  "codec2_samples_per_frame c2 =
     (if c_mode c2 = CODEC2_MODE_3200 then 160
      else if c_mode c2 = CODEC2_MODE_2400 then 160
      else if c_mode c2 = CODEC2_MODE_1600 then 320
      else if c_mode c2 = CODEC2_MODE_1400 then 320
      else if c_mode c2 = CODEC2_MODE_1300 then 320
      else if c_mode c2 = CODEC2_MODE_1200 then 320
      else 0)"

section \<open>Encoding\<close>

definition analyse_one_frame :: "('f, 'x) dsp \<Rightarrow> ('f, 'x) CODEC2 \<Rightarrow> 16 word list \<Rightarrow> (('f, 'x) CODEC2 \<times> 'f MODEL) option" where
  "analyse_one_frame D c2 speech =
     do { old \<leftarrow> those (map (\<lambda>i. rd (Sn c2) (i + N)) [0 ..< M - N]);
          new \<leftarrow> those (map (\<lambda>i. map_option (\<lambda>s. fofint (ops D) (sint s)) (rd speech i)) [0 ..< N]);
          (let (x, model) = estimate D (dsp_state c2) (old @ new) (prev_Wo_enc c2)
           in Some (c2\<lparr>Sn := old @ new, dsp_state := x, prev_Wo_enc := m_Wo model\<rparr>, model)) }"

text \<open>\<open>memset (bits, 0, n)\<close>\<close>

definition clear_bytes :: "8 word list \<Rightarrow> nat \<Rightarrow> 8 word list option" where
  "clear_bytes bits n = (if n \<le> length bits then Some (replicate n 0 @ drop n bits) else None)"

text \<open>The loop that packs the indexes of the line spectral pairs.\<close>

fun pack_indexes :: "8 word list \<Rightarrow> 32 word \<Rightarrow> nat list \<Rightarrow> (nat \<Rightarrow> nat option) \<Rightarrow> nat list \<Rightarrow> (8 word list \<times> 32 word) option" where
  "pack_indexes bits nbit indexes width [] = Some (bits, nbit)"
| "pack_indexes bits nbit indexes width (i # is) =
     do { j \<leftarrow> rd indexes i; w \<leftarrow> width i;
          (bits, nbit) \<leftarrow> pack bits nbit (word_of_nat j) (word_of_nat w);
          pack_indexes bits nbit indexes width is }"

definition codec2_encode_3200 ::
  "('f, 'x) dsp \<Rightarrow> ('f, 'x) CODEC2 \<Rightarrow> 8 word list \<Rightarrow> 16 word list \<Rightarrow> (('f, 'x) CODEC2 \<times> 8 word list) option" where
  "codec2_encode_3200 D c2 bits speech =
     do { bits \<leftarrow> clear_bytes bits (nat ((codec2_bits_per_frame c2 + 7) div 8));
          (c2, model) \<leftarrow> analyse_one_frame D c2 speech;
          (bits, nbit) \<leftarrow> pack bits 0 (m_voiced model) 1;
          (c2, model) \<leftarrow> analyse_one_frame D c2 (drop N speech);
          (bits, nbit) \<leftarrow> pack bits nbit (m_voiced model) 1;
          (bits, nbit) \<leftarrow> pack bits nbit (word_of_int (encode_Wo (ops D) (m_Wo model))) (word_of_nat WO_BITS);
          (let (e, lsps) = uq_lsps D (dsp_state c2) (Sn c2)
           in do { (bits, nbit) \<leftarrow> pack bits nbit (word_of_int (encode_energy (ops D) e)) (word_of_nat E_BITS);
                   lspd_indexes \<leftarrow> encode_lspds_scalar (ops D) (books D) lsps LPC_ORD;
                   (bits, nbit) \<leftarrow> pack_indexes bits nbit lspd_indexes (lspd_bits (books D)) [0 ..< LSPD_SCALAR_INDEXES];
                   u \<leftarrow> ensure (uint nbit = codec2_bits_per_frame c2);
                   Some (c2, bits) }) }"

definition codec2_encode_2400 ::
  "('f, 'x) dsp \<Rightarrow> ('f, 'x) CODEC2 \<Rightarrow> 8 word list \<Rightarrow> 16 word list \<Rightarrow> (('f, 'x) CODEC2 \<times> 8 word list) option" where
  "codec2_encode_2400 D c2 bits speech =
     do { bits \<leftarrow> clear_bytes bits (nat ((codec2_bits_per_frame c2 + 7) div 8));
          (c2, model) \<leftarrow> analyse_one_frame D c2 speech;
          (bits, nbit) \<leftarrow> pack bits 0 (m_voiced model) 1;
          (c2, model) \<leftarrow> analyse_one_frame D c2 (drop N speech);
          (bits, nbit) \<leftarrow> pack bits nbit (m_voiced model) 1;
          (let (e, lsps) = uq_lsps D (dsp_state c2) (Sn c2)
           in do { (WoE_index, xq) \<leftarrow> encode_WoE (ops D) (books D) model e (xq_enc c2);
                   (bits, nbit) \<leftarrow> pack bits nbit (word_of_nat WoE_index) (word_of_nat WO_E_BITS);
                   lsp_indexes \<leftarrow> encode_lsps_scalar (ops D) (books D) lsps LPC_ORD;
                   (bits, nbit) \<leftarrow> pack_indexes bits nbit lsp_indexes (lsp_bits (books D)) [0 ..< LSP_SCALAR_INDEXES];
                   (bits, nbit) \<leftarrow> pack bits nbit 0 2;
                   u \<leftarrow> ensure (uint nbit = codec2_bits_per_frame c2);
                   Some (c2\<lparr>xq_enc := xq\<rparr>, bits) }) }"

definition codec2_encode_1600 ::
  "('f, 'x) dsp \<Rightarrow> ('f, 'x) CODEC2 \<Rightarrow> 8 word list \<Rightarrow> 16 word list \<Rightarrow> (('f, 'x) CODEC2 \<times> 8 word list) option" where
  "codec2_encode_1600 D c2 bits speech =
     do { bits \<leftarrow> clear_bytes bits (nat ((codec2_bits_per_frame c2 + 7) div 8));
          (c2, model) \<leftarrow> analyse_one_frame D c2 speech;
          (bits, nbit) \<leftarrow> pack bits 0 (m_voiced model) 1;
          (c2, model) \<leftarrow> analyse_one_frame D c2 (drop N speech);
          (bits, nbit) \<leftarrow> pack bits nbit (m_voiced model) 1;
          (bits, nbit) \<leftarrow> pack bits nbit (word_of_int (encode_Wo (ops D) (m_Wo model))) (word_of_nat WO_BITS);
          (let (e, lsps) = uq_lsps D (dsp_state c2) (Sn c2)
           in do { (bits, nbit) \<leftarrow> pack bits nbit (word_of_int (encode_energy (ops D) e)) (word_of_nat E_BITS);
                   (c2, model) \<leftarrow> analyse_one_frame D c2 (drop (2 * N) speech);
                   (bits, nbit) \<leftarrow> pack bits nbit (m_voiced model) 1;
                   (c2, model) \<leftarrow> analyse_one_frame D c2 (drop (3 * N) speech);
                   (bits, nbit) \<leftarrow> pack bits nbit (m_voiced model) 1;
                   (bits, nbit) \<leftarrow> pack bits nbit (word_of_int (encode_Wo (ops D) (m_Wo model))) (word_of_nat WO_BITS);
                   (let (e, lsps) = uq_lsps D (dsp_state c2) (Sn c2)
                    in do { (bits, nbit) \<leftarrow> pack bits nbit (word_of_int (encode_energy (ops D) e)) (word_of_nat E_BITS);
                            lsp_indexes \<leftarrow> encode_lsps_scalar (ops D) (books D) lsps LPC_ORD;
                            (bits, nbit) \<leftarrow> pack_indexes bits nbit lsp_indexes (lsp_bits (books D)) [0 ..< LSP_SCALAR_INDEXES];
                            u \<leftarrow> ensure (uint nbit = codec2_bits_per_frame c2);
                            Some (c2, bits) }) }) }"

definition codec2_encode_1400 ::
  "('f, 'x) dsp \<Rightarrow> ('f, 'x) CODEC2 \<Rightarrow> 8 word list \<Rightarrow> 16 word list \<Rightarrow> (('f, 'x) CODEC2 \<times> 8 word list) option" where
  "codec2_encode_1400 D c2 bits speech =
     do { bits \<leftarrow> clear_bytes bits (nat ((codec2_bits_per_frame c2 + 7) div 8));
          (c2, model) \<leftarrow> analyse_one_frame D c2 speech;
          (bits, nbit) \<leftarrow> pack bits 0 (m_voiced model) 1;
          (c2, model) \<leftarrow> analyse_one_frame D c2 (drop N speech);
          (bits, nbit) \<leftarrow> pack bits nbit (m_voiced model) 1;
          (let (e, lsps) = uq_lsps D (dsp_state c2) (Sn c2)
           in do { (WoE_index, xq) \<leftarrow> encode_WoE (ops D) (books D) model e (xq_enc c2);
                   (bits, nbit) \<leftarrow> pack bits nbit (word_of_nat WoE_index) (word_of_nat WO_E_BITS);
                   (c2, model) \<leftarrow> analyse_one_frame D (c2\<lparr>xq_enc := xq\<rparr>) (drop (2 * N) speech);
                   (bits, nbit) \<leftarrow> pack bits nbit (m_voiced model) 1;
                   (c2, model) \<leftarrow> analyse_one_frame D c2 (drop (3 * N) speech);
                   (bits, nbit) \<leftarrow> pack bits nbit (m_voiced model) 1;
                   (let (e, lsps) = uq_lsps D (dsp_state c2) (Sn c2)
                    in do { (WoE_index, xq) \<leftarrow> encode_WoE (ops D) (books D) model e (xq_enc c2);
                            (bits, nbit) \<leftarrow> pack bits nbit (word_of_nat WoE_index) (word_of_nat WO_E_BITS);
                            lsp_indexes \<leftarrow> encode_lsps_scalar (ops D) (books D) lsps LPC_ORD;
                            (bits, nbit) \<leftarrow> pack_indexes bits nbit lsp_indexes (lsp_bits (books D)) [0 ..< LSP_SCALAR_INDEXES];
                            u \<leftarrow> ensure (uint nbit = codec2_bits_per_frame c2);
                            Some (c2\<lparr>xq_enc := xq\<rparr>, bits) }) }) }"

definition codec2_encode_1300 ::
  "('f, 'x) dsp \<Rightarrow> ('f, 'x) CODEC2 \<Rightarrow> 8 word list \<Rightarrow> 16 word list \<Rightarrow> (('f, 'x) CODEC2 \<times> 8 word list) option" where
  "codec2_encode_1300 D c2 bits speech =
     do { bits \<leftarrow> clear_bytes bits (nat ((codec2_bits_per_frame c2 + 7) div 8));
          (c2, model) \<leftarrow> analyse_one_frame D c2 speech;
          (bits, nbit) \<leftarrow> pack bits 0 (m_voiced model) 1;
          (c2, model) \<leftarrow> analyse_one_frame D c2 (drop N speech);
          (bits, nbit) \<leftarrow> pack bits nbit (m_voiced model) 1;
          (c2, model) \<leftarrow> analyse_one_frame D c2 (drop (2 * N) speech);
          (bits, nbit) \<leftarrow> pack bits nbit (m_voiced model) 1;
          (c2, model) \<leftarrow> analyse_one_frame D c2 (drop (3 * N) speech);
          (bits, nbit) \<leftarrow> pack bits nbit (m_voiced model) 1;
          (bits, nbit) \<leftarrow> pack bits nbit (word_of_int (encode_Wo (ops D) (m_Wo model))) (word_of_nat WO_BITS);
          (let (e, lsps) = uq_lsps D (dsp_state c2) (Sn c2)
           in do { (bits, nbit) \<leftarrow> pack bits nbit (word_of_int (encode_energy (ops D) e)) (word_of_nat E_BITS);
                   lsp_indexes \<leftarrow> encode_lsps_scalar (ops D) (books D) lsps LPC_ORD;
                   (bits, nbit) \<leftarrow> pack_indexes bits nbit lsp_indexes (lsp_bits (books D)) [0 ..< LSP_SCALAR_INDEXES];
                   u \<leftarrow> ensure (uint nbit = codec2_bits_per_frame c2);
                   Some (c2, bits) }) }"

definition codec2_encode_1200 ::
  "('f, 'x) dsp \<Rightarrow> ('f, 'x) CODEC2 \<Rightarrow> 8 word list \<Rightarrow> 16 word list \<Rightarrow> (('f, 'x) CODEC2 \<times> 8 word list) option" where
  "codec2_encode_1200 D c2 bits speech =
     do { bits \<leftarrow> clear_bytes bits (nat ((codec2_bits_per_frame c2 + 7) div 8));
          (c2, model) \<leftarrow> analyse_one_frame D c2 speech;
          (bits, nbit) \<leftarrow> pack bits 0 (m_voiced model) 1;
          (c2, model) \<leftarrow> analyse_one_frame D c2 (drop N speech);
          (bits, nbit) \<leftarrow> pack bits nbit (m_voiced model) 1;
          (let (e, lsps) = uq_lsps D (dsp_state c2) (Sn c2)
           in do { (WoE_index, xq) \<leftarrow> encode_WoE (ops D) (books D) model e (xq_enc c2);
                   (bits, nbit) \<leftarrow> pack bits nbit (word_of_nat WoE_index) (word_of_nat WO_E_BITS);
                   (c2, model) \<leftarrow> analyse_one_frame D (c2\<lparr>xq_enc := xq\<rparr>) (drop (2 * N) speech);
                   (bits, nbit) \<leftarrow> pack bits nbit (m_voiced model) 1;
                   (c2, model) \<leftarrow> analyse_one_frame D c2 (drop (3 * N) speech);
                   (bits, nbit) \<leftarrow> pack bits nbit (m_voiced model) 1;
                   (let (e, lsps) = uq_lsps D (dsp_state c2) (Sn c2)
                    in do { (WoE_index, xq) \<leftarrow> encode_WoE (ops D) (books D) model e (xq_enc c2);
                            (bits, nbit) \<leftarrow> pack bits nbit (word_of_nat WoE_index) (word_of_nat WO_E_BITS);
                            (lsp_indexes, lsps') \<leftarrow> encode_lsps_vq (ops D) (books D) lsps LPC_ORD;
                            (bits, nbit) \<leftarrow> pack_indexes bits nbit lsp_indexes (lsp_pred_vq_bits (books D)) [0 ..< LSP_PRED_VQ_INDEXES];
                            (bits, nbit) \<leftarrow> pack bits nbit 0 1;
                            u \<leftarrow> ensure (uint nbit = codec2_bits_per_frame c2);
                            Some (c2\<lparr>xq_enc := xq\<rparr>, bits) }) }) }"

text \<open>The dispatch asserts that the mode is one of the six.\<close>

definition codec2_encode ::
  "('f, 'x) dsp \<Rightarrow> ('f, 'x) CODEC2 \<Rightarrow> 8 word list \<Rightarrow> 16 word list \<Rightarrow> (('f, 'x) CODEC2 \<times> 8 word list) option" where
  "codec2_encode D c2 bits speech =
     (if c_mode c2 = CODEC2_MODE_3200 then codec2_encode_3200 D c2 bits speech
      else if c_mode c2 = CODEC2_MODE_2400 then codec2_encode_2400 D c2 bits speech
      else if c_mode c2 = CODEC2_MODE_1600 then codec2_encode_1600 D c2 bits speech
      else if c_mode c2 = CODEC2_MODE_1400 then codec2_encode_1400 D c2 bits speech
      else if c_mode c2 = CODEC2_MODE_1300 then codec2_encode_1300 D c2 bits speech
      else if c_mode c2 = CODEC2_MODE_1200 then codec2_encode_1200 D c2 bits speech
      else None)"


section \<open>Decoding\<close>

fun unpack_indexes :: "8 word list \<Rightarrow> 32 word \<Rightarrow> (nat \<Rightarrow> nat option) \<Rightarrow> nat list \<Rightarrow> (nat list \<times> 32 word) option" where
  "unpack_indexes bits nbit width [] = Some ([], nbit)"
| "unpack_indexes bits nbit width (i # is) =
     do { w \<leftarrow> width i; (j, nbit) \<leftarrow> unpack bits nbit (word_of_nat w);
          (js, nbit) \<leftarrow> unpack_indexes bits nbit width is; Some (unat j # js, nbit) }"

text \<open>The amplitudes 1 to \<open>MAX_AMP\<close> of a model on the stack are cleared first.\<close>

definition fresh_model :: "('f, 'x) dsp \<Rightarrow> 32 word \<Rightarrow> 'f MODEL" where
  "fresh_model D v = (stack_model D)\<lparr>m_A := hd (m_A (stack_model D)) # replicate MAX_AMP (flit (ops D) ''0.0''), m_voiced := v\<rparr>"

definition set_Wo :: "('f, 'x) dsp \<Rightarrow> 'f \<Rightarrow> 'f MODEL \<Rightarrow> 'f MODEL" where
  "set_Wo D w model = model\<lparr>m_Wo := w, m_L := ftoint (ops D) (fdiv (ops D) (PI (ops D)) w)\<rparr>"

text \<open>
  The state made by codec2_create, with \<open>x\<close> the windows, transforms and filter memories it sets up; another
  mode fails the assertion.
\<close>

definition codec2_create :: "('f, 'x) dsp \<Rightarrow> 'x \<Rightarrow> int \<Rightarrow> ('f, 'x) CODEC2 option" where
  "codec2_create D x mode =
     (let F = ops D
      in if mode \<in> {CODEC2_MODE_3200, CODEC2_MODE_2400, CODEC2_MODE_1600, CODEC2_MODE_1400, CODEC2_MODE_1300, CODEC2_MODE_1200}
         then Some \<lparr>c_mode = mode, Sn = replicate M (flit F ''1.0''), Sn_out = replicate (2 * N) (flit F ''0''),
                    prev_Wo_enc = flit F ''0.0'', prev_model_dec = set_Wo D (fdiv F (TWO_PI F) (P_MAX F)) (fresh_model D 0),
                    prev_lsps_dec = map (\<lambda>i. fdiv F (fmul F (fofint F (int i)) (PI F)) (fofint F (int (LPC_ORD + 1)))) [0 ..< LPC_ORD],
                    prev_e_dec = fofint F 1, xq_enc = [flit F ''0.0'', flit F ''0.0''], xq_dec = [flit F ''0.0'', flit F ''0.0''],
                    dsp_state = x\<rparr>
         else None)"

definition ear_protection :: "'f fops \<Rightarrow> 'f list \<Rightarrow> nat \<Rightarrow> 'f list option" where
  "ear_protection F in_out n =
     do { max_sample \<leftarrow> foldM (\<lambda>i mx. do { x \<leftarrow> rd in_out i; Some (if flt F mx x then x else mx) }) [0 ..< n] (flit F ''0.0'');
          (let over = fdiv F max_sample (flit F ''30000.0'')
           in if flt F (flit F ''1.0'') over
              then (let gain = fdiv F (flit F ''1.0'') (fmul F over over)
                    in foldM (\<lambda>i xs. do { x \<leftarrow> rd xs i; wr xs i (fmul F x gain) }) [0 ..< n] in_out)
              else Some in_out) }"

definition clip :: "'f fops \<Rightarrow> 'f \<Rightarrow> 16 word" where
  "clip F x =
     (if flt F (flit F ''32767.0'') x then 32767
      else if flt F x (flit F ''-32767.0'') then word_of_int (- 32767)
      else word_of_int (ftoint F x))"

definition synthesise_one_frame ::
  "('f, 'x) dsp \<Rightarrow> ('f, 'x) CODEC2 \<Rightarrow> 'f MODEL \<Rightarrow> 'f list \<Rightarrow> (('f, 'x) CODEC2 \<times> 'f MODEL \<times> 16 word list) option" where
  "synthesise_one_frame D c2 model ak =
     (let (x, out, model) = synth D (dsp_state c2) (Sn_out c2) model ak
      in do { out \<leftarrow> ear_protection (ops D) out N;
              speech \<leftarrow> those (map (\<lambda>i. map_option (clip (ops D)) (rd out i)) [0 ..< N]);
              Some (c2\<lparr>dsp_state := x, Sn_out := out\<rparr>, model, speech) })"

text \<open>Spectral amplitudes of a frame from its line spectral pairs.\<close>

definition recover :: "('f, 'x) dsp \<Rightarrow> ('f, 'x) CODEC2 \<Rightarrow> 'f list \<Rightarrow> 'f MODEL \<Rightarrow> 'f \<Rightarrow> ('f MODEL \<times> 'f list) option" where
  "recover D c2 lsps model e =
     (let ak = lsp_to_lpc D lsps
      in do { model \<leftarrow> apply_lpc_correction (ops D) (aks_to_M2 D (dsp_state c2) ak model e); Some (model, ak) })"

text \<open>The end of the 20 ms decoders: interpolation, synthesis, and the memories for the next frame.\<close>

definition synth_20ms ::
  "('f, 'x) dsp \<Rightarrow> ('f, 'x) CODEC2 \<Rightarrow> 'f MODEL \<Rightarrow> 'f MODEL \<Rightarrow> 'f \<Rightarrow> 'f list \<Rightarrow> (('f, 'x) CODEC2 \<times> 16 word list) option" where
  "synth_20ms D c2 model0 model1 e1 lsps1 =
     (let F = ops D; model0 = interp_Wo F model0 (prev_model_dec c2) model1; e0 = interp_energy F (prev_e_dec c2) e1
      in do { lsps0 \<leftarrow> interpolate_lsp_ver2 F (prev_lsps_dec c2) lsps1 (flit F ''0.5'');
              (model0, ak0) \<leftarrow> recover D c2 lsps0 model0 e0;
              (model1, ak1) \<leftarrow> recover D c2 lsps1 model1 e1;
              (c2, model0, s0) \<leftarrow> synthesise_one_frame D c2 model0 ak0;
              (c2, model1, s1) \<leftarrow> synthesise_one_frame D c2 model1 ak1;
              Some (c2\<lparr>prev_model_dec := model1, prev_e_dec := e1, prev_lsps_dec := lsps1\<rparr>, s0 @ s1) })"

text \<open>The end of the 40 ms decoders, with the models and energies of the four frames.\<close>

definition synth_frames ::
  "('f, 'x) dsp \<Rightarrow> ('f, 'x) CODEC2 \<Rightarrow> 'f MODEL list \<Rightarrow> 'f list \<Rightarrow> 'f list list \<Rightarrow> (('f, 'x) CODEC2 \<times> 16 word list) option" where
  "synth_frames D c2 models es lspss =
     do { ms \<leftarrow> those (map (\<lambda>(model, e, lsps). recover D c2 lsps model e) (zip models (zip es lspss)));
          (c2, last_model, speech) \<leftarrow>
            foldM (\<lambda>(model, ak) (c2, m0, speech).
                do { (c2, model, s) \<leftarrow> synthesise_one_frame D c2 model ak; Some (c2, model, speech @ s) })
              ms (c2, stack_model D, []);
          Some (c2\<lparr>prev_model_dec := last_model, prev_e_dec := last es, prev_lsps_dec := last lspss\<rparr>, speech) }"

definition lsps_40ms :: "'f fops \<Rightarrow> 'f list \<Rightarrow> 'f list \<Rightarrow> 'f list list option" where
  "lsps_40ms F prv lsps3 =
     (let w0 = flit F ''0.25''; w1 = fadd F w0 (flit F ''0.25''); w2 = fadd F w1 (flit F ''0.25'')
      in do { l0 \<leftarrow> interpolate_lsp_ver2 F prv lsps3 w0; l1 \<leftarrow> interpolate_lsp_ver2 F prv lsps3 w1;
              l2 \<leftarrow> interpolate_lsp_ver2 F prv lsps3 w2; Some [l0, l1, l2, lsps3] })"

definition synth_40ms ::
  "('f, 'x) dsp \<Rightarrow> ('f, 'x) CODEC2 \<Rightarrow> 'f MODEL \<Rightarrow> 'f MODEL \<Rightarrow> 'f MODEL \<Rightarrow> 'f MODEL \<Rightarrow> 'f \<Rightarrow> 'f \<Rightarrow> 'f list \<Rightarrow>
     (('f, 'x) CODEC2 \<times> 16 word list) option" where
  "synth_40ms D c2 model0 model1 model2 model3 e1 e3 lsps3 =
     (let F = ops D;
          model0 = interp_Wo F model0 (prev_model_dec c2) model1; e0 = interp_energy F (prev_e_dec c2) e1;
          model2 = interp_Wo F model2 model1 model3; e2 = interp_energy F e1 e3
      in do { lspss \<leftarrow> lsps_40ms F (prev_lsps_dec c2) lsps3;
              synth_frames D c2 [model0, model1, model2, model3] [e0, e1, e2, e3] lspss })"

definition synth_1300 ::
  "('f, 'x) dsp \<Rightarrow> ('f, 'x) CODEC2 \<Rightarrow> 'f MODEL \<Rightarrow> 'f MODEL \<Rightarrow> 'f MODEL \<Rightarrow> 'f MODEL \<Rightarrow> 'f \<Rightarrow> 'f list \<Rightarrow>
     (('f, 'x) CODEC2 \<times> 16 word list) option" where
  "synth_1300 D c2 model0 model1 model2 model3 e3 lsps3 =
     (let F = ops D; w0 = flit F ''0.25''; w1 = fadd F w0 (flit F ''0.25''); w2 = fadd F w1 (flit F ''0.25'');
          p = prev_model_dec c2; pe = prev_e_dec c2
      in do { lspss \<leftarrow> lsps_40ms F (prev_lsps_dec c2) lsps3;
              synth_frames D c2 [interp_Wo2 F model0 p model3 w0, interp_Wo2 F model1 p model3 w1, interp_Wo2 F model2 p model3 w2, model3]
                [interp_energy2 F pe e3 w0, interp_energy2 F pe e3 w1, interp_energy2 F pe e3 w2, e3] lspss })"

text \<open>Checked and expanded line spectral pairs.\<close>

definition ordered_lsps :: "'f fops \<Rightarrow> 'f list \<Rightarrow> 'f list option" where
  "ordered_lsps F lsps = do { r \<leftarrow> check_lsp_order F lsps LPC_ORD; bw_expand_lsps F (snd r) LPC_ORD }"

definition codec2_decode_3200 ::
  "('f, 'x) dsp \<Rightarrow> ('f, 'x) CODEC2 \<Rightarrow> 8 word list \<Rightarrow> (('f, 'x) CODEC2 \<times> 16 word list) option" where
  "codec2_decode_3200 D c2 bits =
     do { (v0, nbit) \<leftarrow> unpack bits 0 1;
          (v1, nbit) \<leftarrow> unpack bits nbit 1;
          (Wo_index, nbit) \<leftarrow> unpack bits nbit (word_of_nat WO_BITS);
          (e_index, nbit) \<leftarrow> unpack bits nbit (word_of_nat E_BITS);
          (lspd_indexes, nbit) \<leftarrow> unpack_indexes bits nbit (lspd_bits (books D)) [0 ..< LSPD_SCALAR_INDEXES];
          lsps1 \<leftarrow> decode_lspds_scalar (ops D) (books D) lspd_indexes LPC_ORD;
          synth_20ms D c2 (fresh_model D v0) (set_Wo D (decode_Wo (ops D) (sint Wo_index)) (fresh_model D v1))
            (decode_energy (ops D) (sint e_index)) lsps1 }"

definition codec2_decode_2400 ::
  "('f, 'x) dsp \<Rightarrow> ('f, 'x) CODEC2 \<Rightarrow> 8 word list \<Rightarrow> (('f, 'x) CODEC2 \<times> 16 word list) option" where
  "codec2_decode_2400 D c2 bits =
     do { (v0, nbit) \<leftarrow> unpack bits 0 1;
          (v1, nbit) \<leftarrow> unpack bits nbit 1;
          (WoE_index, nbit) \<leftarrow> unpack bits nbit (word_of_nat WO_E_BITS);
          (model1, e1, xq) \<leftarrow> decode_WoE (ops D) (books D) (fresh_model D v1) (xq_dec c2) (unat WoE_index);
          (lsp_indexes, nbit) \<leftarrow> unpack_indexes bits nbit (lsp_bits (books D)) [0 ..< LSP_SCALAR_INDEXES];
          lsps \<leftarrow> decode_lsps_scalar (ops D) (books D) lsp_indexes LPC_ORD;
          lsps1 \<leftarrow> ordered_lsps (ops D) lsps;
          synth_20ms D (c2\<lparr>xq_dec := xq\<rparr>) (fresh_model D v0) model1 e1 lsps1 }"

definition codec2_decode_1600 ::
  "('f, 'x) dsp \<Rightarrow> ('f, 'x) CODEC2 \<Rightarrow> 8 word list \<Rightarrow> (('f, 'x) CODEC2 \<times> 16 word list) option" where
  "codec2_decode_1600 D c2 bits =
     do { (v0, nbit) \<leftarrow> unpack bits 0 1;
          (v1, nbit) \<leftarrow> unpack bits nbit 1;
          (Wo1, nbit) \<leftarrow> unpack bits nbit (word_of_nat WO_BITS);
          (ei1, nbit) \<leftarrow> unpack bits nbit (word_of_nat E_BITS);
          (v2, nbit) \<leftarrow> unpack bits nbit 1;
          (v3, nbit) \<leftarrow> unpack bits nbit 1;
          (Wo3, nbit) \<leftarrow> unpack bits nbit (word_of_nat WO_BITS);
          (ei3, nbit) \<leftarrow> unpack bits nbit (word_of_nat E_BITS);
          (lsp_indexes, nbit) \<leftarrow> unpack_indexes bits nbit (lsp_bits (books D)) [0 ..< LSP_SCALAR_INDEXES];
          lsps \<leftarrow> decode_lsps_scalar (ops D) (books D) lsp_indexes LPC_ORD;
          lsps3 \<leftarrow> ordered_lsps (ops D) lsps;
          synth_40ms D c2 (fresh_model D v0) (set_Wo D (decode_Wo (ops D) (sint Wo1)) (fresh_model D v1))
            (fresh_model D v2) (set_Wo D (decode_Wo (ops D) (sint Wo3)) (fresh_model D v3))
            (decode_energy (ops D) (sint ei1)) (decode_energy (ops D) (sint ei3)) lsps3 }"

definition codec2_decode_1400 ::
  "('f, 'x) dsp \<Rightarrow> ('f, 'x) CODEC2 \<Rightarrow> 8 word list \<Rightarrow> (('f, 'x) CODEC2 \<times> 16 word list) option" where
  "codec2_decode_1400 D c2 bits =
     do { (v0, nbit) \<leftarrow> unpack bits 0 1;
          (v1, nbit) \<leftarrow> unpack bits nbit 1;
          (WoE1, nbit) \<leftarrow> unpack bits nbit (word_of_nat WO_E_BITS);
          (model1, e1, xq) \<leftarrow> decode_WoE (ops D) (books D) (fresh_model D v1) (xq_dec c2) (unat WoE1);
          (v2, nbit) \<leftarrow> unpack bits nbit 1;
          (v3, nbit) \<leftarrow> unpack bits nbit 1;
          (WoE3, nbit) \<leftarrow> unpack bits nbit (word_of_nat WO_E_BITS);
          (model3, e3, xq) \<leftarrow> decode_WoE (ops D) (books D) (fresh_model D v3) xq (unat WoE3);
          (lsp_indexes, nbit) \<leftarrow> unpack_indexes bits nbit (lsp_bits (books D)) [0 ..< LSP_SCALAR_INDEXES];
          lsps \<leftarrow> decode_lsps_scalar (ops D) (books D) lsp_indexes LPC_ORD;
          lsps3 \<leftarrow> ordered_lsps (ops D) lsps;
          synth_40ms D (c2\<lparr>xq_dec := xq\<rparr>) (fresh_model D v0) model1 (fresh_model D v2) model3 e1 e3 lsps3 }"

definition codec2_decode_1300 ::
  "('f, 'x) dsp \<Rightarrow> ('f, 'x) CODEC2 \<Rightarrow> 8 word list \<Rightarrow> (('f, 'x) CODEC2 \<times> 16 word list) option" where
  "codec2_decode_1300 D c2 bits =
     do { (v0, nbit) \<leftarrow> unpack bits 0 1;
          (v1, nbit) \<leftarrow> unpack bits nbit 1;
          (v2, nbit) \<leftarrow> unpack bits nbit 1;
          (v3, nbit) \<leftarrow> unpack bits nbit 1;
          (Wo_index, nbit) \<leftarrow> unpack bits nbit (word_of_nat WO_BITS);
          (e_index, nbit) \<leftarrow> unpack bits nbit (word_of_nat E_BITS);
          (lsp_indexes, nbit) \<leftarrow> unpack_indexes bits nbit (lsp_bits (books D)) [0 ..< LSP_SCALAR_INDEXES];
          lsps \<leftarrow> decode_lsps_scalar (ops D) (books D) lsp_indexes LPC_ORD;
          lsps3 \<leftarrow> ordered_lsps (ops D) lsps;
          synth_1300 D c2 (fresh_model D v0) (fresh_model D v1) (fresh_model D v2)
            (set_Wo D (decode_Wo (ops D) (sint Wo_index)) (fresh_model D v3)) (decode_energy (ops D) (sint e_index)) lsps3 }"

definition codec2_decode_1200 ::
  "('f, 'x) dsp \<Rightarrow> ('f, 'x) CODEC2 \<Rightarrow> 8 word list \<Rightarrow> (('f, 'x) CODEC2 \<times> 16 word list) option" where
  "codec2_decode_1200 D c2 bits =
     do { (v0, nbit) \<leftarrow> unpack bits 0 1;
          (v1, nbit) \<leftarrow> unpack bits nbit 1;
          (WoE1, nbit) \<leftarrow> unpack bits nbit (word_of_nat WO_E_BITS);
          (model1, e1, xq) \<leftarrow> decode_WoE (ops D) (books D) (fresh_model D v1) (xq_dec c2) (unat WoE1);
          (v2, nbit) \<leftarrow> unpack bits nbit 1;
          (v3, nbit) \<leftarrow> unpack bits nbit 1;
          (WoE3, nbit) \<leftarrow> unpack bits nbit (word_of_nat WO_E_BITS);
          (model3, e3, xq) \<leftarrow> decode_WoE (ops D) (books D) (fresh_model D v3) xq (unat WoE3);
          (lsp_indexes, nbit) \<leftarrow> unpack_indexes bits nbit (lsp_pred_vq_bits (books D)) [0 ..< LSP_PRED_VQ_INDEXES];
          lsps \<leftarrow> decode_lsps_vq (ops D) (books D) lsp_indexes LPC_ORD;
          lsps3 \<leftarrow> ordered_lsps (ops D) lsps;
          synth_40ms D (c2\<lparr>xq_dec := xq\<rparr>) (fresh_model D v0) model1 (fresh_model D v2) model3 e1 e3 lsps3 }"

definition codec2_decode ::
  "('f, 'x) dsp \<Rightarrow> ('f, 'x) CODEC2 \<Rightarrow> 8 word list \<Rightarrow> (('f, 'x) CODEC2 \<times> 16 word list) option" where
  "codec2_decode D c2 bits =
     (if c_mode c2 = CODEC2_MODE_3200 then codec2_decode_3200 D c2 bits
      else if c_mode c2 = CODEC2_MODE_2400 then codec2_decode_2400 D c2 bits
      else if c_mode c2 = CODEC2_MODE_1600 then codec2_decode_1600 D c2 bits
      else if c_mode c2 = CODEC2_MODE_1400 then codec2_decode_1400 D c2 bits
      else if c_mode c2 = CODEC2_MODE_1300 then codec2_decode_1300 D c2 bits
      else if c_mode c2 = CODEC2_MODE_1200 then codec2_decode_1200 D c2 bits
      else None)"

section \<open>The spare bit\<close>

definition codec2_get_spare_bit_index :: "('f, 'x) CODEC2 \<Rightarrow> int" where
  "codec2_get_spare_bit_index c2 =
     (if c_mode c2 = CODEC2_MODE_1300 then 2
      else if c_mode c2 = CODEC2_MODE_1400 then 10
      else if c_mode c2 = CODEC2_MODE_1600 then 15
      else - 1)"

definition codec2_rebuild_spare_bit :: "('f, 'x) CODEC2 \<Rightarrow> int list \<Rightarrow> (int \<times> int list) option" where
  "codec2_rebuild_spare_bit c2 unpacked_bits =
     do { v1 \<leftarrow> rd unpacked_bits 1;
          (if c_mode c2 = CODEC2_MODE_1300
           then do { v3 \<leftarrow> rd unpacked_bits (1 + 1 + 1);
                     bs \<leftarrow> wr unpacked_bits 2 (if v1 \<noteq> 0 \<or> v3 \<noteq> 0 then 1 else 0); Some (0, bs) }
           else if c_mode c2 = CODEC2_MODE_1400
           then do { v3 \<leftarrow> rd unpacked_bits (1 + 1 + 8 + 1);
                     bs \<leftarrow> wr unpacked_bits 10 (if v1 \<noteq> 0 \<or> v3 \<noteq> 0 then 1 else 0); Some (0, bs) }
           else if c_mode c2 = CODEC2_MODE_1600
           then do { v3 \<leftarrow> rd unpacked_bits (1 + 1 + 8 + 5 + 1);
                     bs \<leftarrow> wr unpacked_bits 15 (if v1 \<noteq> 0 \<or> v3 \<noteq> 0 then 1 else 0); Some (0, bs) }
           else Some (- 1, unpacked_bits)) }"

end
