(* ===== verification/C2CodecProofs.thy ===== *)
theory C2CodecProofs
  imports C2Codec
begin

text \<open>
  The frame format. \<open>frame_*\<close> is the list of fields, values and widths, an encoder sends for a piece of
  speech, \<open>play_*\<close> what a decoder makes of the values: the encoders are packing after \<open>frame_*\<close>, the
  decoders \<open>play_*\<close> after unpacking. With the bounds of the quantisers and the round trip of packed
  fields, every decoder receives exactly the values its encoder computed.
\<close>

section \<open>The bounds of the quantisers\<close>

lemma those_map_ex:
  assumes "\<And>x. x \<in> set xs \<Longrightarrow> \<exists>y. f x = Some y \<and> P x y"
  shows "\<exists>ys. those (map f xs) = Some ys \<and> list_all2 P xs ys"
  using assms
proof (induction xs)
  case (Cons x xs)
  then obtain y ys where "f x = Some y" "P x y" "those (map f xs) = Some ys" "list_all2 P xs ys" by fastforce
  then show ?case by simp
qed simp

lemma those_map_rd: "\<forall>i \<in> set is. i < length xs \<Longrightarrow> those (map (\<lambda>i. rd xs i) is) = Some (map (\<lambda>i. xs ! i) is)"
  by (induction "is") auto

lemma row_bound: "j < m \<Longrightarrow> i < k \<Longrightarrow> k * m \<le> n \<Longrightarrow> j * k + i < (n :: nat)"
proof -
  assume a: "j < m" "i < k" "k * m \<le> n"
  have "j * k + k \<le> m * k" using a(1) mult_le_mono1 [of "Suc j" m k] by simp
  then show ?thesis using a(2,3) by (simp add: mult.commute)
qed

lemma nearest_loop:
  assumes "0 < m" and "\<And>j. j < m \<Longrightarrow> \<exists>e. dist j = Some e"
  shows "\<exists>j e. foldM (\<lambda>j (b, best). do { e \<leftarrow> dist j; Some (if lt e best then (j, e) else (b, best)) }) [0 ..< m] (0, big) = Some (j, e) \<and> j < m"
proof -
  have "\<exists>s. foldM (\<lambda>j (b, best). do { e \<leftarrow> dist j; Some (if lt e best then (j, e) else (b, best)) }) [0 ..< m] (0, big) = Some s \<and> fst s < m"
    by (rule foldM_inv) (use assms in \<open>fastforce+\<close>)
  then show ?thesis by auto
qed

lemma foldM_total: "(\<And>x s. x \<in> set xs \<Longrightarrow> \<exists>s'. f x s = Some s') \<Longrightarrow> \<exists>s'. foldM f xs s = Some s'"
  using foldM_inv [of "\<lambda>_. True" s xs f] by auto

lemma quantise_less:
  assumes "0 < m" and "k * m \<le> length c" and "k \<le> length vec" and "k \<le> length w"
  shows "\<exists>j. quantise F c vec w k m = Some j \<and> j < m"
proof -
  let ?d = "\<lambda>j. foldM (\<lambda>i e. do { x \<leftarrow> rd c (j * k + i); v \<leftarrow> rd vec i; u \<leftarrow> rd w i;
      Some (fadd F e (fpow F (fmul F (fsub F x v) u) (flit F ''2.0''))) }) [0 ..< k] (flit F ''0.0'')"
  have d: "\<exists>e. ?d j = Some e" if "j < m" for j
    by (rule foldM_total) (use row_bound [OF that _ assms(2)] assms(3-) in simp)
  from nearest_loop [of m ?d, OF assms(1) d, where lt = "flt F" and big = "flit F ''1E32''"]
  show ?thesis by (auto simp: quantise_def)
qed

lemma find_nearest_less:
  assumes "0 < m" and "k * m \<le> length c" and "k \<le> length x"
  shows "\<exists>j. find_nearest F c m x k = Some j \<and> j < m"
proof -
  let ?d = "\<lambda>i. foldM (\<lambda>j d. do { a \<leftarrow> rd x j; b \<leftarrow> rd c (i * k + j);
      Some (fadd F d (fmul F (fsub F a b) (fsub F a b))) }) [0 ..< k] (fofint F 0)"
  have d: "\<exists>e. ?d i = Some e" if "i < m" for i
    by (rule foldM_total) (use row_bound [OF that _ assms(2)] assms(3-) in simp)
  from nearest_loop [of m ?d, OF assms(1) d, where lt = "flt F" and big = "flit F ''1e15''"]
  show ?thesis by (auto simp: find_nearest_def)
qed

lemma find_nearest_weighted_less:
  assumes "0 < m" and "k * m \<le> length c" and "k \<le> length x" and "k \<le> length w"
  shows "\<exists>j. find_nearest_weighted F c m x w k = Some j \<and> j < m"
proof -
  let ?d = "\<lambda>i. foldM (\<lambda>j d. do { a \<leftarrow> rd x j; b \<leftarrow> rd c (i * k + j); u \<leftarrow> rd w j;
      Some (fadd F d (fmul F (fmul F u (fsub F a b)) (fsub F a b))) }) [0 ..< k] (fofint F 0)"
  have d: "\<exists>e. ?d i = Some e" if "i < m" for i
    by (rule foldM_total) (use row_bound [OF that _ assms(2)] assms(3-) in simp)
  from nearest_loop [of m ?d, OF assms(1) d, where lt = "flt F" and big = "flit F ''1e15''"]
  show ?thesis by (auto simp: find_nearest_weighted_def)
qed


lemma book_simps [simp]:
  "cb_k (book c k l m) = k" "log2m (book c k l m) = l" "cb_m (book c k l m) = m" "length (cb (book c k l m)) = k * m"
  by (simp_all add: book_def)

lemma scalar_books:
  assumes "i < 10"
  shows "\<exists>c. rd (lsp_cbd C) i = Some (book c 1 5 32)" and "\<exists>c l. rd (lsp_cb C) i = Some (book c 1 l (2 ^ l)) \<and> lsp_bits C i = Some l"
  using assms by (auto simp: lsp_cbd_def lsp_cb_def lsp_bits_def less_Suc_eq numeral_eq_Suc)

lemma encode_lspds_scalar_less:
  assumes "length lsp = LPC_ORD"
  shows "\<exists>js. encode_lspds_scalar F C lsp LPC_ORD = Some js \<and> length js = 10 \<and> (\<forall>j \<in> set js. j < 32)"
proof -
  let ?hz = "map (\<lambda>i. fmul F (fdiv F (flit F ''4000.0'') (PI F)) (lsp ! i)) [0 ..< LPC_ORD]"
  have hz: "those (map (\<lambda>i. map_option (fmul F (fdiv F (flit F ''4000.0'') (PI F))) (rd lsp i)) [0 ..< LPC_ORD]) = Some ?hz"
    using assms by (auto simp: those_map_conv list_all2_conv_all_nth)
  let ?step = "\<lambda>i (indexes, qhz). do { hz \<leftarrow> rd ?hz i;
      dlsp \<leftarrow> (if i \<noteq> 0 then map_option (fsub F hz) (rd qhz (i - 1)) else Some hz);
      b \<leftarrow> rd (lsp_cbd C) i;
      j \<leftarrow> quantise F (cb b) [dlsp] [flit F ''1.0''] (cb_k b) (cb_m b);
      dq \<leftarrow> rd (cb b) (j * cb_k b);
      q \<leftarrow> (if i \<noteq> 0 then map_option (\<lambda>p. fadd F p dq) (rd qhz (i - 1)) else Some dq);
      Some (indexes @ [j], qhz @ [q]) }"
  have step: "\<exists>s'. ?step i s = Some s' \<and> length (fst s') = Suc i \<and> length (snd s') = Suc i \<and> (\<forall>j \<in> set (fst s'). j < 32)"
    if s: "length (fst s) = i" "length (snd s) = i" "\<forall>j \<in> set (fst s). j < 32" and i: "i < 10" for i s
  proof -
    obtain js qs where js: "s = (js, qs)" by (cases s)
    obtain c where b: "rd (lsp_cbd C) i = Some (book c 1 5 32)" using scalar_books(1) [OF i] by blast
    obtain d where d: "(if i \<noteq> 0 then map_option (fsub F (?hz ! i)) (rd qs (i - 1)) else Some (?hz ! i)) = Some d"
      using s(2) by (cases "i = 0") (auto simp: js)
    obtain j where j: "quantise F (cb (book c 1 5 32)) [d] [flit F ''1.0''] 1 32 = Some j" "j < 32"
      using quantise_less [of 32 1 "cb (book c 1 5 32)" "[d]" "[flit F ''1.0'']" F] by auto
    show ?thesis using s i b d j by (auto simp: js LPC_ORD_def)
  qed
  have "\<exists>s. foldM ?step [0 ..< n] ([], []) = Some s \<and> length (fst s) = n \<and> length (snd s) = n \<and> (\<forall>j \<in> set (fst s). j < 32)"
    if "n \<le> 10" for n
    using that
  proof (induction n)
    case (Suc n)
    then obtain s where s: "foldM ?step [0 ..< n] ([], []) = Some s" "length (fst s) = n" "length (snd s) = n" "\<forall>j \<in> set (fst s). j < 32"
      by auto
    then show ?case using step [OF s(2-4)] Suc.prems by (simp add: foldM_append del: split_paired_Ex)
  qed simp
  from this [of 10] show ?thesis unfolding encode_lspds_scalar_def hz by (auto simp: LPC_ORD_def)
qed

lemma encode_lsps_scalar_less:
  assumes "length lsp = LPC_ORD"
  shows "\<exists>js. encode_lsps_scalar F C lsp LPC_ORD = Some js \<and> list_all2 (\<lambda>i j. \<exists>l. lsp_bits C i = Some l \<and> j < 2 ^ l) [0 ..< 10] js"
proof -
  let ?hz = "map (\<lambda>i. fmul F (fdiv F (flit F ''4000.0'') (PI F)) (lsp ! i)) [0 ..< LPC_ORD]"
  have hz: "those (map (\<lambda>i. map_option (fmul F (fdiv F (flit F ''4000.0'') (PI F))) (rd lsp i)) [0 ..< LPC_ORD]) = Some ?hz"
    using assms by (auto simp: those_map_conv list_all2_conv_all_nth)
  have "\<exists>j. do { b \<leftarrow> rd (lsp_cb C) i; quantise F (cb b) (drop i ?hz) [flit F ''1.0''] (cb_k b) (cb_m b) } = Some j \<and>
      (\<exists>l. lsp_bits C i = Some l \<and> j < 2 ^ l)" if "i \<in> set [0 ..< 10]" for i
  proof -
    have i: "i < 10" using that by simp
    obtain c l where b: "rd (lsp_cb C) i = Some (book c 1 l (2 ^ l))" "lsp_bits C i = Some l" using scalar_books(2) [OF i] by blast
    then show ?thesis
      using quantise_less [of "2 ^ l" 1 "cb (book c 1 l (2 ^ l))" "drop i ?hz" "[flit F ''1.0'']" F] i by (auto simp: LPC_ORD_def)
  qed
  from those_map_ex [of "[0 ..< 10]", OF this] show ?thesis unfolding encode_lsps_scalar_def hz by (simp add: LPC_ORD_def)
qed

lemma lsp_gaps_ex:
  assumes "length x = n" and "2 \<le> n"
  shows "\<exists>w. lsp_gaps F x n = Some w \<and> length w = n"
proof -
  have "\<exists>ys. those (map (\<lambda>i. do { p \<leftarrow> rd x (i - 1); q \<leftarrow> rd x i; r \<leftarrow> rd x (i + 1);
      Some (fmin F (fsub F q p) (fsub F r q)) }) [1 ..< n - 1]) = Some ys \<and> list_all2 (\<lambda>_ _. True) [1 ..< n - 1] ys"
    by (rule those_map_ex) (use assms in auto)
  then obtain ys where ys: "those (map (\<lambda>i. do { p \<leftarrow> rd x (i - 1); q \<leftarrow> rd x i; r \<leftarrow> rd x (i + 1);
      Some (fmin F (fsub F q p) (fsub F r q)) }) [1 ..< n - 1]) = Some ys" "length ys = n - 2"
    by (auto dest: list_all2_lengthD)
  have "rd x 0 = Some (x ! 0)" "rd x 1 = Some (x ! 1)" "rd x (n - 1) = Some (x ! (n - 1))" "rd x (n - 2) = Some (x ! (n - 2))"
    using assms by simp_all
  then show ?thesis unfolding lsp_gaps_def ys(1) using ys(2) assms(2) by simp
qed

lemma encode_lsps_vq_less:
  assumes "length lsp = LPC_ORD"
  shows "\<exists>n1 n2 n3 xq. encode_lsps_vq F C lsp LPC_ORD = Some ([n1, n2, n3], xq) \<and> n1 < 512 \<and> n2 < 512 \<and> n3 < 512"
proof -
  have len: "length lsp = 10" using assms by (simp add: LPC_ORD_def)
  let ?b1 = "book (codes_jvm C 0) 10 9 512" and ?b2 = "book (codes_jvm C 1) 5 9 512" and ?b3 = "book (codes_jvm C 2) 5 9 512"
  obtain w0 where w0: "lsp_gaps F lsp 10 = Some w0" "length w0 = 10" using lsp_gaps_ex [OF len] by auto
  define w where "w = map (\<lambda>w. fdiv F (flit F ''1.'') (fadd F (flit F ''.01'') w)) w0"
  have w: "compute_weights F lsp 10 = Some w" "length w = 10" by (simp_all add: compute_weights_def w0 w_def)
  obtain n1 where n1: "find_nearest F (cb ?b1) 512 lsp 10 = Some n1" "n1 < 512"
    using find_nearest_less [of 512 10 "cb ?b1" lsp F] len by auto
  define xq where "xq = map (\<lambda>i. cb ?b1 ! (10 * n1 + i)) [0 ..< 10]"
  have xq: "those (map (\<lambda>i. rd (cb ?b1) (10 * n1 + i)) [0 ..< 10]) = Some xq"
    using n1(2) unfolding xq_def by (auto simp: those_map_conv list_all2_conv_all_nth)
  define err where "err = map (\<lambda>i. fsub F (lsp ! i) (xq ! i)) [0 ..< 10]"
  have err: "those (map (\<lambda>i. do { a \<leftarrow> rd lsp i; b \<leftarrow> rd xq i; Some (fsub F a b) }) [0 ..< 10]) = Some err"
    using len unfolding err_def by (auto simp: those_map_conv list_all2_conv_all_nth xq_def)
  have half: "\<exists>ys. those (map (\<lambda>i. rd xs (2 * i)) [0 ..< 5]) = Some ys \<and> length ys = 5"
    "\<exists>ys. those (map (\<lambda>i. rd xs (Suc (2 * i))) [0 ..< 5]) = Some ys \<and> length ys = 5" if "length xs = 10" for xs :: "'a list"
    using that by (auto simp: upt_rec)
  obtain e2 e3 where e: "those (map (\<lambda>i. rd err (2 * i)) [0 ..< 5]) = Some e2" "length e2 = 5"
      "those (map (\<lambda>i. rd err (Suc (2 * i))) [0 ..< 5]) = Some e3" "length e3 = 5"
    using half [of err] by (auto simp: err_def)
  obtain w2 w3 where ww: "those (map (\<lambda>i. rd w (2 * i)) [0 ..< 5]) = Some w2" "length w2 = 5"
      "those (map (\<lambda>i. rd w (Suc (2 * i))) [0 ..< 5]) = Some w3" "length w3 = 5"
    using half [of w] w(2) by auto
  obtain n2 where n2: "find_nearest_weighted F (cb ?b2) 512 e2 w2 5 = Some n2" "n2 < 512"
    using find_nearest_weighted_less [of 512 5 "cb ?b2" e2 w2 F] e(2) ww(2) by auto
  obtain n3 where n3: "find_nearest_weighted F (cb ?b3) 512 e3 w3 5 = Some n3" "n3 < 512"
    using find_nearest_weighted_less [of 512 5 "cb ?b3" e3 w3 F] e(4) ww(4) by auto
  show ?thesis
    using w0(1) w(1) n1 xq err e ww n2 n3 by (simp add: encode_lsps_vq_def lsp_cbjvm_def LPC_ORD_def)
qed

lemma encode_WoE_less:
  assumes "length xq = 2"
  shows "\<exists>j xq'. encode_WoE F C model e xq = Some (j, xq') \<and> j < 256 \<and> length xq' = 2"
proof -
  obtain q0 q1 where q: "xq = [q0, q1]" using assms by (auto simp: length_Suc_conv numeral_2_eq_2)
  let ?b = "book (codes_ge C 0) 2 8 256"
  let ?e = "if flt F e (flit F ''0.0'') then fofint F 0 else e"
  define x0 where "x0 = fdiv F (flog10 F (fdiv F (fmul F (fdiv F (m_Wo model) (PI F)) (flit F ''4000.0'')) (flit F ''50.0''))) (flog10 F (fofint F 2))"
  define x1 where "x1 = fmul F (flit F ''10.0'') (flog10 F (fadd F (flit F ''1e-4'') ?e))"
  have "\<exists>w. compute_weights2 F [x0, x1] [q0, q1] = Some w \<and> length w = 2"
    by (simp add: compute_weights2_def Let_def split_def)
  then obtain w where w: "compute_weights2 F [x0, x1] [q0, q1] = Some w" "length w = 2" by blast
  let ?err = "[fsub F x0 (fmul F (flit F ''0.8'') q0), fsub F x1 (fmul F (flit F ''0.9'') q1)]"
  obtain j where j: "find_nearest_weighted F (cb ?b) 256 ?err w 2 = Some j" "j < 256"
    using find_nearest_weighted_less [of 256 2 "cb ?b" ?err w F] w(2) by auto
  have two: "[0 ..< 2] = [0, Suc 0]" by (simp add: upt_rec)
  show ?thesis
    using w j unfolding encode_WoE_def q
    by (simp add: ge_cb_def WO_E_BITS_def ge_coeff_def two Let_def x0_def [symmetric] x1_def [symmetric])
qed

end
