(* ===== verification/C2FrameProofs.thy ===== *)
theory C2FrameProofs
  imports C2CodecProofs
begin

text \<open>
  What the encoders send and the decoders play, and the theorem that ties them: for all six modes the
  decoder works on exactly the field values the encoder computed. Also the spare bit.
\<close>

section \<open>What an encoder sends\<close>

definition lsp_fields :: "nat list \<Rightarrow> (nat \<Rightarrow> nat option) \<Rightarrow> nat list \<Rightarrow> (32 word \<times> 32 word) list option" where
  "lsp_fields indexes width is =
     those (map (\<lambda>i. do { j \<leftarrow> rd indexes i; w \<leftarrow> width i; Some (word_of_nat j, word_of_nat w) }) is)"

definition Wo_field :: "('f, 'x) dsp \<Rightarrow> 'f MODEL \<Rightarrow> 32 word \<times> 32 word" where
  "Wo_field D model = (word_of_int (encode_Wo (ops D) (m_Wo model)), word_of_nat WO_BITS)"

definition energy_field :: "('f, 'x) dsp \<Rightarrow> 'f \<Rightarrow> 32 word \<times> 32 word" where
  "energy_field D e = (word_of_int (encode_energy (ops D) e), word_of_nat E_BITS)"

type_synonym ('f, 'x) frame = "(('f, 'x) CODEC2 \<times> (32 word \<times> 32 word) list) option"

definition frame_3200 :: "('f, 'x) dsp \<Rightarrow> ('f, 'x) CODEC2 \<Rightarrow> 16 word list \<Rightarrow> ('f, 'x) frame" where
  "frame_3200 D c0 speech =
     do { (c1, m0) \<leftarrow> analyse_one_frame D c0 speech;
          (c2, m1) \<leftarrow> analyse_one_frame D c1 (drop N speech);
          (let (e, lsps) = uq_lsps D (dsp_state c2) (Sn c2)
           in do { js \<leftarrow> encode_lspds_scalar (ops D) (books D) lsps LPC_ORD;
                   fs \<leftarrow> lsp_fields js (lspd_bits (books D)) [0 ..< LSPD_SCALAR_INDEXES];
                   Some (c2, (m_voiced m0, 1) # (m_voiced m1, 1) # Wo_field D m1 # energy_field D e # fs) }) }"

definition frame_2400 :: "('f, 'x) dsp \<Rightarrow> ('f, 'x) CODEC2 \<Rightarrow> 16 word list \<Rightarrow> ('f, 'x) frame" where
  "frame_2400 D c0 speech =
     do { (c1, m0) \<leftarrow> analyse_one_frame D c0 speech;
          (c2, m1) \<leftarrow> analyse_one_frame D c1 (drop N speech);
          (let (e, lsps) = uq_lsps D (dsp_state c2) (Sn c2)
           in do { (j, xq) \<leftarrow> encode_WoE (ops D) (books D) m1 e (xq_enc c2);
                   js \<leftarrow> encode_lsps_scalar (ops D) (books D) lsps LPC_ORD;
                   fs \<leftarrow> lsp_fields js (lsp_bits (books D)) [0 ..< LSP_SCALAR_INDEXES];
                   Some (c2\<lparr>xq_enc := xq\<rparr>,
                     (m_voiced m0, 1) # (m_voiced m1, 1) # (word_of_nat j, word_of_nat WO_E_BITS) # fs @ [(0, 2)]) }) }"

definition frame_1600 :: "('f, 'x) dsp \<Rightarrow> ('f, 'x) CODEC2 \<Rightarrow> 16 word list \<Rightarrow> ('f, 'x) frame" where
  "frame_1600 D c0 speech =
     do { (c1, m0) \<leftarrow> analyse_one_frame D c0 speech;
          (c2, m1) \<leftarrow> analyse_one_frame D c1 (drop N speech);
          (c3, m2) \<leftarrow> analyse_one_frame D c2 (drop (2 * N) speech);
          (c4, m3) \<leftarrow> analyse_one_frame D c3 (drop (3 * N) speech);
          (let (e1, lsps1) = uq_lsps D (dsp_state c2) (Sn c2); (e3, lsps) = uq_lsps D (dsp_state c4) (Sn c4)
           in do { js \<leftarrow> encode_lsps_scalar (ops D) (books D) lsps LPC_ORD;
                   fs \<leftarrow> lsp_fields js (lsp_bits (books D)) [0 ..< LSP_SCALAR_INDEXES];
                   Some (c4, (m_voiced m0, 1) # (m_voiced m1, 1) # Wo_field D m1 # energy_field D e1 #
                     (m_voiced m2, 1) # (m_voiced m3, 1) # Wo_field D m3 # energy_field D e3 # fs) }) }"

definition frame_1400 :: "('f, 'x) dsp \<Rightarrow> ('f, 'x) CODEC2 \<Rightarrow> 16 word list \<Rightarrow> ('f, 'x) frame" where
  "frame_1400 D c0 speech =
     do { (c1, m0) \<leftarrow> analyse_one_frame D c0 speech;
          (c2, m1) \<leftarrow> analyse_one_frame D c1 (drop N speech);
          (j1, xq1) \<leftarrow> encode_WoE (ops D) (books D) m1 (fst (uq_lsps D (dsp_state c2) (Sn c2))) (xq_enc c2);
          (c3, m2) \<leftarrow> analyse_one_frame D (c2\<lparr>xq_enc := xq1\<rparr>) (drop (2 * N) speech);
          (c4, m3) \<leftarrow> analyse_one_frame D c3 (drop (3 * N) speech);
          (let (e, lsps) = uq_lsps D (dsp_state c4) (Sn c4)
           in do { (j3, xq3) \<leftarrow> encode_WoE (ops D) (books D) m3 e (xq_enc c4);
                   js \<leftarrow> encode_lsps_scalar (ops D) (books D) lsps LPC_ORD;
                   fs \<leftarrow> lsp_fields js (lsp_bits (books D)) [0 ..< LSP_SCALAR_INDEXES];
                   Some (c4\<lparr>xq_enc := xq3\<rparr>,
                     (m_voiced m0, 1) # (m_voiced m1, 1) # (word_of_nat j1, word_of_nat WO_E_BITS) #
                     (m_voiced m2, 1) # (m_voiced m3, 1) # (word_of_nat j3, word_of_nat WO_E_BITS) # fs) }) }"

definition frame_1300 :: "('f, 'x) dsp \<Rightarrow> ('f, 'x) CODEC2 \<Rightarrow> 16 word list \<Rightarrow> ('f, 'x) frame" where
  "frame_1300 D c0 speech =
     do { (c1, m0) \<leftarrow> analyse_one_frame D c0 speech;
          (c2, m1) \<leftarrow> analyse_one_frame D c1 (drop N speech);
          (c3, m2) \<leftarrow> analyse_one_frame D c2 (drop (2 * N) speech);
          (c4, m3) \<leftarrow> analyse_one_frame D c3 (drop (3 * N) speech);
          (let (e, lsps) = uq_lsps D (dsp_state c4) (Sn c4)
           in do { js \<leftarrow> encode_lsps_scalar (ops D) (books D) lsps LPC_ORD;
                   fs \<leftarrow> lsp_fields js (lsp_bits (books D)) [0 ..< LSP_SCALAR_INDEXES];
                   Some (c4, (m_voiced m0, 1) # (m_voiced m1, 1) # (m_voiced m2, 1) # (m_voiced m3, 1) #
                     Wo_field D m3 # energy_field D e # fs) }) }"

definition frame_1200 :: "('f, 'x) dsp \<Rightarrow> ('f, 'x) CODEC2 \<Rightarrow> 16 word list \<Rightarrow> ('f, 'x) frame" where
  "frame_1200 D c0 speech =
     do { (c1, m0) \<leftarrow> analyse_one_frame D c0 speech;
          (c2, m1) \<leftarrow> analyse_one_frame D c1 (drop N speech);
          (j1, xq1) \<leftarrow> encode_WoE (ops D) (books D) m1 (fst (uq_lsps D (dsp_state c2) (Sn c2))) (xq_enc c2);
          (c3, m2) \<leftarrow> analyse_one_frame D (c2\<lparr>xq_enc := xq1\<rparr>) (drop (2 * N) speech);
          (c4, m3) \<leftarrow> analyse_one_frame D c3 (drop (3 * N) speech);
          (let (e, lsps) = uq_lsps D (dsp_state c4) (Sn c4)
           in do { (j3, xq3) \<leftarrow> encode_WoE (ops D) (books D) m3 e (xq_enc c4);
                   (js, lsps') \<leftarrow> encode_lsps_vq (ops D) (books D) lsps LPC_ORD;
                   fs \<leftarrow> lsp_fields js (lsp_pred_vq_bits (books D)) [0 ..< LSP_PRED_VQ_INDEXES];
                   Some (c4\<lparr>xq_enc := xq3\<rparr>,
                     (m_voiced m0, 1) # (m_voiced m1, 1) # (word_of_nat j1, word_of_nat WO_E_BITS) #
                     (m_voiced m2, 1) # (m_voiced m3, 1) # (word_of_nat j3, word_of_nat WO_E_BITS) # fs @ [(0, 1)]) }) }"

section \<open>The encoders pack their frames\<close>

lemma pack_indexes_fields:
  "lsp_fields js width is = Some fs \<Longrightarrow> pack_indexes bits n js width is = pack_fields bits n fs"
proof (induction "is" arbitrary: bits n fs)
  case (Cons i "is")
  then obtain j w fs' where f: "rd js i = Some j" "width i = Some w" "lsp_fields js width is = Some fs'"
      "fs = (word_of_nat j, word_of_nat w) # fs'"
    by (auto simp: lsp_fields_def option_bind_Some_iff split: option.splits)
  then show ?case by (simp add: Cons.IH [OF f(3)])
qed (simp add: lsp_fields_def)

lemma pack_fields_append:
  "pack_fields arr b (xs @ ys) = do { (arr', b') \<leftarrow> pack_fields arr b xs; pack_fields arr' b' ys }"
  by (induction arr b xs rule: pack_fields.induct) (auto split: Option.bind_splits)

lemma analyse_frame_mode:
  assumes "analyse_one_frame D c2 sp = Some (c2', m)"
  shows "codec2_bits_per_frame c2' = codec2_bits_per_frame c2"
proof -
  have "c_mode c2' = c_mode c2"
    using assms by (clarsimp simp: analyse_one_frame_def option_bind_Some_iff split_def Let_def)
  then show ?thesis unfolding codec2_bits_per_frame_def by simp
qed

lemma bits_xq [simp]: "codec2_bits_per_frame (c2\<lparr>xq_enc := xq\<rparr>) = codec2_bits_per_frame c2"
  by (simp add: codec2_bits_per_frame_def)

lemmas packs_simps = Let_def split_def option_bind_Some_iff pack_indexes_fields Wo_field_def energy_field_def pack_fields_append

lemma encode_3200_packs:
  assumes "frame_3200 D c2 speech = Some (c2', fs)" and "clear_bytes bits (nat ((codec2_bits_per_frame c2 + 7) div 8)) = Some z"
    and "pack_fields z 0 fs = Some (b, nb)" and "uint nb = codec2_bits_per_frame c2"
  shows "codec2_encode_3200 D c2 bits speech = Some (c2', b)"
  using assms by (clarsimp simp: frame_3200_def codec2_encode_3200_def packs_simps) (auto dest!: analyse_frame_mode)

lemma encode_2400_packs:
  assumes "frame_2400 D c2 speech = Some (c2', fs)" and "clear_bytes bits (nat ((codec2_bits_per_frame c2 + 7) div 8)) = Some z"
    and "pack_fields z 0 fs = Some (b, nb)" and "uint nb = codec2_bits_per_frame c2"
  shows "codec2_encode_2400 D c2 bits speech = Some (c2', b)"
  using assms by (clarsimp simp: frame_2400_def codec2_encode_2400_def packs_simps) (auto dest!: analyse_frame_mode)

lemma encode_1600_packs:
  assumes "frame_1600 D c2 speech = Some (c2', fs)" and "clear_bytes bits (nat ((codec2_bits_per_frame c2 + 7) div 8)) = Some z"
    and "pack_fields z 0 fs = Some (b, nb)" and "uint nb = codec2_bits_per_frame c2"
  shows "codec2_encode_1600 D c2 bits speech = Some (c2', b)"
  using assms by (clarsimp simp: frame_1600_def codec2_encode_1600_def packs_simps) (auto dest!: analyse_frame_mode)

lemma encode_1400_packs:
  assumes "frame_1400 D c2 speech = Some (c2', fs)" and "clear_bytes bits (nat ((codec2_bits_per_frame c2 + 7) div 8)) = Some z"
    and "pack_fields z 0 fs = Some (b, nb)" and "uint nb = codec2_bits_per_frame c2"
  shows "codec2_encode_1400 D c2 bits speech = Some (c2', b)"
  using assms by (clarsimp simp: frame_1400_def codec2_encode_1400_def packs_simps) (auto dest!: analyse_frame_mode)

lemma encode_1300_packs:
  assumes "frame_1300 D c2 speech = Some (c2', fs)" and "clear_bytes bits (nat ((codec2_bits_per_frame c2 + 7) div 8)) = Some z"
    and "pack_fields z 0 fs = Some (b, nb)" and "uint nb = codec2_bits_per_frame c2"
  shows "codec2_encode_1300 D c2 bits speech = Some (c2', b)"
  using assms by (clarsimp simp: frame_1300_def codec2_encode_1300_def packs_simps) (auto dest!: analyse_frame_mode)

lemma encode_1200_packs:
  assumes "frame_1200 D c2 speech = Some (c2', fs)" and "clear_bytes bits (nat ((codec2_bits_per_frame c2 + 7) div 8)) = Some z"
    and "pack_fields z 0 fs = Some (b, nb)" and "uint nb = codec2_bits_per_frame c2"
  shows "codec2_encode_1200 D c2 bits speech = Some (c2', b)"
  using assms by (clarsimp simp: frame_1200_def codec2_encode_1200_def packs_simps) (auto dest!: analyse_frame_mode)


section \<open>What a decoder plays\<close>

definition play_3200 :: "('f, 'x) dsp \<Rightarrow> ('f, 'x) CODEC2 \<Rightarrow> 32 word list \<Rightarrow> (('f, 'x) CODEC2 \<times> 16 word list) option" where
  "play_3200 D c2 vs =
     do { lsps1 \<leftarrow> decode_lspds_scalar (ops D) (books D) (map unat (drop 4 vs)) LPC_ORD;
          synth_20ms D c2 (fresh_model D (vs ! 0)) (set_Wo D (decode_Wo (ops D) (sint (vs ! 2))) (fresh_model D (vs ! 1)))
            (decode_energy (ops D) (sint (vs ! 3))) lsps1 }"

definition play_2400 :: "('f, 'x) dsp \<Rightarrow> ('f, 'x) CODEC2 \<Rightarrow> 32 word list \<Rightarrow> (('f, 'x) CODEC2 \<times> 16 word list) option" where
  "play_2400 D c2 vs =
     do { (model1, e1, xq) \<leftarrow> decode_WoE (ops D) (books D) (fresh_model D (vs ! 1)) (xq_dec c2) (unat (vs ! 2));
          lsps \<leftarrow> decode_lsps_scalar (ops D) (books D) (map unat (take 10 (drop 3 vs))) LPC_ORD;
          lsps1 \<leftarrow> ordered_lsps (ops D) lsps;
          synth_20ms D (c2\<lparr>xq_dec := xq\<rparr>) (fresh_model D (vs ! 0)) model1 e1 lsps1 }"

definition play_1600 :: "('f, 'x) dsp \<Rightarrow> ('f, 'x) CODEC2 \<Rightarrow> 32 word list \<Rightarrow> (('f, 'x) CODEC2 \<times> 16 word list) option" where
  "play_1600 D c2 vs =
     do { lsps \<leftarrow> decode_lsps_scalar (ops D) (books D) (map unat (drop 8 vs)) LPC_ORD;
          lsps3 \<leftarrow> ordered_lsps (ops D) lsps;
          synth_40ms D c2 (fresh_model D (vs ! 0)) (set_Wo D (decode_Wo (ops D) (sint (vs ! 2))) (fresh_model D (vs ! 1)))
            (fresh_model D (vs ! 4)) (set_Wo D (decode_Wo (ops D) (sint (vs ! 6))) (fresh_model D (vs ! 5)))
            (decode_energy (ops D) (sint (vs ! 3))) (decode_energy (ops D) (sint (vs ! 7))) lsps3 }"

text \<open>The 1400 and 1200 bit/s modes differ in the line spectral pairs only.\<close>

definition play_WoE :: "('f, 'x) dsp \<Rightarrow> ('f, 'x) CODEC2 \<Rightarrow> 32 word list \<Rightarrow> 'f list option \<Rightarrow> (('f, 'x) CODEC2 \<times> 16 word list) option" where
  "play_WoE D c2 vs lsps =
     do { (model1, e1, xq1) \<leftarrow> decode_WoE (ops D) (books D) (fresh_model D (vs ! 1)) (xq_dec c2) (unat (vs ! 2));
          (model3, e3, xq3) \<leftarrow> decode_WoE (ops D) (books D) (fresh_model D (vs ! 4)) xq1 (unat (vs ! 5));
          lsps3 \<leftarrow> lsps \<bind> ordered_lsps (ops D);
          synth_40ms D (c2\<lparr>xq_dec := xq3\<rparr>) (fresh_model D (vs ! 0)) model1 (fresh_model D (vs ! 3)) model3 e1 e3 lsps3 }"

definition play_1400 :: "('f, 'x) dsp \<Rightarrow> ('f, 'x) CODEC2 \<Rightarrow> 32 word list \<Rightarrow> (('f, 'x) CODEC2 \<times> 16 word list) option" where
  "play_1400 D c2 vs = play_WoE D c2 vs (decode_lsps_scalar (ops D) (books D) (map unat (drop 6 vs)) LPC_ORD)"

definition play_1300 :: "('f, 'x) dsp \<Rightarrow> ('f, 'x) CODEC2 \<Rightarrow> 32 word list \<Rightarrow> (('f, 'x) CODEC2 \<times> 16 word list) option" where
  "play_1300 D c2 vs =
     do { lsps \<leftarrow> decode_lsps_scalar (ops D) (books D) (map unat (drop 6 vs)) LPC_ORD;
          lsps3 \<leftarrow> ordered_lsps (ops D) lsps;
          synth_1300 D c2 (fresh_model D (vs ! 0)) (fresh_model D (vs ! 1)) (fresh_model D (vs ! 2))
            (set_Wo D (decode_Wo (ops D) (sint (vs ! 4))) (fresh_model D (vs ! 3))) (decode_energy (ops D) (sint (vs ! 5))) lsps3 }"

definition play_1200 :: "('f, 'x) dsp \<Rightarrow> ('f, 'x) CODEC2 \<Rightarrow> 32 word list \<Rightarrow> (('f, 'x) CODEC2 \<times> 16 word list) option" where
  "play_1200 D c2 vs = play_WoE D c2 vs (decode_lsps_vq (ops D) (books D) (map unat (take 3 (drop 6 vs))) LPC_ORD)"

text \<open>The widths of the fields, as the bit allocations in the comments of codec2.c have them.\<close>

definition layout_3200 :: "32 word list" where "layout_3200 = [1, 1, 7, 5, 5, 5, 5, 5, 5, 5, 5, 5, 5, 5]"
definition layout_2400 :: "32 word list" where "layout_2400 = [1, 1, 8, 4, 4, 4, 4, 4, 4, 4, 3, 3, 2, 2]"
definition layout_1600 :: "32 word list" where "layout_1600 = [1, 1, 7, 5, 1, 1, 7, 5, 4, 4, 4, 4, 4, 4, 4, 3, 3, 2]"
definition layout_1400 :: "32 word list" where "layout_1400 = [1, 1, 8, 1, 1, 8, 4, 4, 4, 4, 4, 4, 4, 3, 3, 2]"
definition layout_1300 :: "32 word list" where "layout_1300 = [1, 1, 1, 1, 7, 5, 4, 4, 4, 4, 4, 4, 4, 3, 3, 2]"
definition layout_1200 :: "32 word list" where "layout_1200 = [1, 1, 8, 1, 1, 8, 9, 9, 9, 1]"

section \<open>The decoders unpack their frames\<close>

lemma index_ranges:
  "[0 ..< LSPD_SCALAR_INDEXES] = [0, 1, 2, 3, 4, 5, 6, 7, 8, 9]" "[0 ..< LSP_SCALAR_INDEXES] = [0, 1, 2, 3, 4, 5, 6, 7, 8, 9]"
  "[0 ..< LSP_PRED_VQ_INDEXES] = [0, 1, 2]"
  by (simp_all add: LSPD_SCALAR_INDEXES_def LSP_SCALAR_INDEXES_def LSP_PRED_VQ_INDEXES_def upt_rec)

lemma index_bits [simp]:
  "lspd_bits C 0 = Some 5" "lspd_bits C 1 = Some 5" "lspd_bits C 2 = Some 5" "lspd_bits C 3 = Some 5" "lspd_bits C 4 = Some 5"
  "lspd_bits C 5 = Some 5" "lspd_bits C 6 = Some 5" "lspd_bits C 7 = Some 5" "lspd_bits C 8 = Some 5" "lspd_bits C 9 = Some 5"
  "lsp_bits C 0 = Some 4" "lsp_bits C 1 = Some 4" "lsp_bits C 2 = Some 4" "lsp_bits C 3 = Some 4" "lsp_bits C 4 = Some 4"
  "lsp_bits C 5 = Some 4" "lsp_bits C 6 = Some 4" "lsp_bits C 7 = Some 3" "lsp_bits C 8 = Some 3" "lsp_bits C 9 = Some 2"
  "lsp_pred_vq_bits C 0 = Some 9" "lsp_pred_vq_bits C 1 = Some 9" "lsp_pred_vq_bits C 2 = Some 9"
  "lspd_bits C (Suc 0) = Some 5" "lsp_bits C (Suc 0) = Some 4" "lsp_pred_vq_bits C (Suc 0) = Some 9"
  by (simp_all add: lspd_bits_def lsp_bits_def lsp_pred_vq_bits_def lsp_cbd_def lsp_cb_def lsp_cbjvm_def)

lemmas plays_simps = option_bind_Some_iff split_def index_ranges WO_BITS_def E_BITS_def WO_E_BITS_def play_WoE_def

lemma decode_3200_plays:
  assumes "unpack_fields b 0 layout_3200 = Some (vs, nb)"
  shows "codec2_decode_3200 D c2 b = play_3200 D c2 vs"
  using assms by (clarsimp simp: layout_3200_def codec2_decode_3200_def play_3200_def plays_simps)

lemma decode_2400_plays:
  assumes "unpack_fields b 0 layout_2400 = Some (vs, nb)"
  shows "codec2_decode_2400 D c2 b = play_2400 D c2 vs"
  using assms by (clarsimp simp: layout_2400_def codec2_decode_2400_def play_2400_def plays_simps)

lemma decode_1600_plays:
  assumes "unpack_fields b 0 layout_1600 = Some (vs, nb)"
  shows "codec2_decode_1600 D c2 b = play_1600 D c2 vs"
  using assms by (clarsimp simp: layout_1600_def codec2_decode_1600_def play_1600_def plays_simps)

lemma decode_1400_plays:
  assumes "unpack_fields b 0 layout_1400 = Some (vs, nb)"
  shows "codec2_decode_1400 D c2 b = play_1400 D c2 vs"
  using assms by (clarsimp simp: layout_1400_def codec2_decode_1400_def play_1400_def plays_simps)

lemma decode_1300_plays:
  assumes "unpack_fields b 0 layout_1300 = Some (vs, nb)"
  shows "codec2_decode_1300 D c2 b = play_1300 D c2 vs"
  using assms by (clarsimp simp: layout_1300_def codec2_decode_1300_def play_1300_def plays_simps)

lemma decode_1200_plays:
  assumes "unpack_fields b 0 layout_1200 = Some (vs, nb)"
  shows "codec2_decode_1200 D c2 b = play_1200 D c2 vs"
  using assms by (clarsimp simp: layout_1200_def codec2_decode_1200_def play_1200_def plays_simps)

section \<open>The frames are well-formed\<close>

text \<open>
  What the quantisers rely on: voicing is a bit (est_voicing_mbe in sine.c sets it to 0 or 1), and
  there are \<open>LPC_ORD\<close> line spectral pairs.
\<close>

definition dsp_ok :: "('f, 'x) dsp \<Rightarrow> bool" where
  "dsp_ok D \<longleftrightarrow> (\<forall>x sn w. m_voiced (snd (estimate D x sn w)) \<in> {0, 1}) \<and> (\<forall>x sn. length (snd (uq_lsps D x sn)) = LPC_ORD)"

definition c2_ok :: "('f, 'x) CODEC2 \<Rightarrow> bool" where
  "c2_ok c2 \<longleftrightarrow> length (Sn c2) = M \<and> length (xq_enc c2) = 2"

lemma c2_ok_xq [simp]: "c2_ok (c2\<lparr>xq_enc := xq\<rparr>) \<longleftrightarrow> length (Sn c2) = M \<and> length xq = 2"
  by (simp add: c2_ok_def)

lemma analyse_ok:
  assumes "dsp_ok D" and "c2_ok c2" and "N \<le> length sp"
  shows "\<exists>c2' m. analyse_one_frame D c2 sp = Some (c2', m) \<and> c2_ok c2' \<and> c_mode c2' = c_mode c2 \<and> m_voiced m \<in> {0, 1}"
proof -
  have "those (map (\<lambda>i. rd (Sn c2) (i + N)) [0 ..< M - N]) = Some (map (\<lambda>i. Sn c2 ! (i + N)) [0 ..< M - N])"
    using assms(2) by (auto simp: those_map_conv list_all2_conv_all_nth c2_ok_def M_def N_def)
  moreover have "those (map (\<lambda>i. map_option (\<lambda>s. fofint (ops D) (sint s)) (rd sp i)) [0 ..< N]) =
      Some (map (\<lambda>i. fofint (ops D) (sint (sp ! i))) [0 ..< N])"
    using assms(3) by (auto simp: those_map_conv list_all2_conv_all_nth)
  ultimately show ?thesis
    using assms(1,2) by (auto simp: analyse_one_frame_def dsp_ok_def c2_ok_def M_def N_def split_def Let_def)
qed

lemma field_okI: "j < 2 ^ w \<Longrightarrow> 0 < w \<Longrightarrow> w \<le> 16 \<Longrightarrow> field_ok (word_of_nat j, word_of_nat w)"
proof -
  assume a: "j < 2 ^ w" "0 < w" "w \<le> 16"
  have "(2 :: nat) ^ w \<le> 2 ^ 16" by (rule power_increasing) (use a in simp_all)
  then have "unat (word_of_nat j :: 32 word) = j" "unat (word_of_nat w :: 32 word) = w"
    using a by (intro unat_small; simp)+
  then show ?thesis using a by (simp add: field_ok_def)
qed

lemma field_ok_voiced: "v \<in> {0, 1} \<Longrightarrow> field_ok (v, 1)"
  by (auto simp: field_ok_def)

lemma field_ok_Wo: "field_ok (Wo_field D m)"
proof -
  let ?i = "encode_Wo (ops D) (m_Wo m)"
  have "0 \<le> ?i" "?i < 128" by (auto simp: encode_Wo_def Let_def WO_LEVELS_def WO_BITS_def)
  then show ?thesis using field_okI [of "nat ?i" 7] by (simp add: Wo_field_def WO_BITS_def)
qed

lemma field_ok_energy: "field_ok (energy_field D e)"
proof -
  let ?i = "encode_energy (ops D) e"
  have "0 \<le> ?i" "?i < 32" by (auto simp: encode_energy_def Let_def E_LEVELS_def E_BITS_def)
  then show ?thesis using field_okI [of "nat ?i" 5] by (simp add: energy_field_def E_BITS_def)
qed

lemma list_10:
  assumes "length js = 10"
  obtains j0 j1 j2 j3 j4 j5 j6 j7 j8 j9 where "js = [j0, j1, j2, j3, j4, j5, j6, j7, j8, j9]"
  using assms by (auto simp: length_Suc_conv numeral_eq_Suc)

lemma lspd_fields_ok:
  assumes "length js = 10" and "\<forall>j \<in> set js. j < 32"
  shows "\<exists>fs. lsp_fields js (lspd_bits C) [0 ..< LSPD_SCALAR_INDEXES] = Some fs \<and> map snd fs = replicate 10 5 \<and> (\<forall>fw \<in> set fs. field_ok fw)"
proof -
  obtain j0 j1 j2 j3 j4 j5 j6 j7 j8 j9 where js: "js = [j0, j1, j2, j3, j4, j5, j6, j7, j8, j9]"
    using assms(1) by (rule list_10)
  have "lsp_fields js (lspd_bits C) [0 ..< LSPD_SCALAR_INDEXES] = Some (map (\<lambda>j. (word_of_nat j, 5)) js)"
    unfolding lsp_fields_def index_ranges js by simp
  moreover have "\<forall>j \<in> set js. field_ok (word_of_nat j, 5)" using assms(2) field_okI [of _ 5] by auto
  ultimately show ?thesis using assms(1) by (auto simp: comp_def map_replicate_const)
qed

lemma lsp_fields_ok:
  assumes "list_all2 (\<lambda>i j. \<exists>l. lsp_bits C i = Some l \<and> j < 2 ^ l) [0 ..< 10] js"
  shows "\<exists>fs. lsp_fields js (lsp_bits C) [0 ..< LSP_SCALAR_INDEXES] = Some fs \<and>
     map snd fs = [4, 4, 4, 4, 4, 4, 4, 3, 3, 2] \<and> (\<forall>fw \<in> set fs. field_ok fw)"
proof -
  have "length js = 10" using list_all2_lengthD [OF assms] by simp
  then obtain j0 j1 j2 j3 j4 j5 j6 j7 j8 j9 where js: "js = [j0, j1, j2, j3, j4, j5, j6, j7, j8, j9]"
    by (rule list_10)
  have u: "[0 ..< 10] = [0, 1, 2, 3, 4, 5, 6, 7, 8, 9]" by (simp add: upt_rec)
  have "lsp_fields js (lsp_bits C) [0 ..< LSP_SCALAR_INDEXES] =
      Some [(word_of_nat j0, 4), (word_of_nat j1, 4), (word_of_nat j2, 4), (word_of_nat j3, 4), (word_of_nat j4, 4),
        (word_of_nat j5, 4), (word_of_nat j6, 4), (word_of_nat j7, 3), (word_of_nat j8, 3), (word_of_nat j9, 2)]"
    unfolding lsp_fields_def index_ranges js by simp
  then show ?thesis
    using assms field_okI [of _ 4] field_okI [of _ 3] field_okI [of _ 2] unfolding js u by simp
qed

lemma vq_fields_ok:
  assumes "n1 < 512" and "n2 < 512" and "n3 < 512"
  shows "\<exists>fs. lsp_fields [n1, n2, n3] (lsp_pred_vq_bits C) [0 ..< LSP_PRED_VQ_INDEXES] = Some fs \<and>
     map snd fs = [9, 9, 9] \<and> (\<forall>fw \<in> set fs. field_ok fw)"
  unfolding lsp_fields_def index_ranges using assms field_okI [of _ 9] by simp

text \<open>\<open>well_framed\<close>: the encoder's frame exists, has the layout, and every value fits its width.\<close>

definition well_framed :: "('f, 'x) CODEC2 \<Rightarrow> 32 word list \<Rightarrow> ('f, 'x) frame \<Rightarrow> bool" where
  "well_framed c2 layout r \<longleftrightarrow> (\<exists>c2' fs. r = Some (c2', fs) \<and> c2_ok c2' \<and> c_mode c2' = c_mode c2 \<and> map snd fs = layout \<and>
     (\<forall>fw \<in> set fs. field_ok fw))"

lemma uq_lsps_length: "dsp_ok D \<Longrightarrow> length (snd (uq_lsps D x sn)) = LPC_ORD"
  by (simp add: dsp_ok_def)

lemma two_frames:
  assumes "dsp_ok D" and "c2_ok c0" and "N \<le> length s0" and "N \<le> length s1"
  obtains c1 m0 c2 m1 where "analyse_one_frame D c0 s0 = Some (c1, m0)" "analyse_one_frame D c1 s1 = Some (c2, m1)"
    "c2_ok c2" "c_mode c2 = c_mode c0" "field_ok (m_voiced m0, 1)" "field_ok (m_voiced m1, 1)"
proof -
  obtain c1 m0 where 1: "analyse_one_frame D c0 s0 = Some (c1, m0)" "c2_ok c1" "c_mode c1 = c_mode c0" "m_voiced m0 \<in> {0, 1}"
    using analyse_ok [OF assms(1,2,3)] by blast
  obtain c2 m1 where "analyse_one_frame D c1 s1 = Some (c2, m1)" "c2_ok c2" "c_mode c2 = c_mode c1" "m_voiced m1 \<in> {0, 1}"
    using analyse_ok [OF assms(1) 1(2) assms(4)] by blast
  then show thesis using 1 that field_ok_voiced by metis
qed

lemma WoE_ok:
  assumes "c2_ok c2"
  obtains j xq where "encode_WoE F C m e (xq_enc c2) = Some (j, xq)" "field_ok (word_of_nat j, 8)" "length xq = 2"
  using encode_WoE_less [of "xq_enc c2" F C m e] assms field_okI [of _ 8] by (auto simp: c2_ok_def)

lemma scalar_lsps_ok:
  assumes "dsp_ok D"
  obtains js fs where "encode_lsps_scalar F C (snd (uq_lsps D x sn)) LPC_ORD = Some js"
    "lsp_fields js (lsp_bits C) [0 ..< LSP_SCALAR_INDEXES] = Some fs"
    "map snd fs = [4, 4, 4, 4, 4, 4, 4, 3, 3, 2]" "\<forall>fw \<in> set fs. field_ok fw"
proof -
  obtain js where "encode_lsps_scalar F C (snd (uq_lsps D x sn)) LPC_ORD = Some js"
      "list_all2 (\<lambda>i j. \<exists>l. lsp_bits C i = Some l \<and> j < 2 ^ l) [0 ..< 10] js"
    using encode_lsps_scalar_less [OF uq_lsps_length [OF assms]] by blast
  moreover then obtain fs where "lsp_fields js (lsp_bits C) [0 ..< LSP_SCALAR_INDEXES] = Some fs"
      "map snd fs = [4, 4, 4, 4, 4, 4, 4, 3, 3, 2]" "\<forall>fw \<in> set fs. field_ok fw"
    using lsp_fields_ok [of C js] by auto
  ultimately show thesis by (intro that)
qed

lemma widths [simp]: "snd (Wo_field D m) = 7" "snd (energy_field D e) = 5"
  by (simp_all add: Wo_field_def energy_field_def WO_BITS_def E_BITS_def)

lemmas framed_simps = well_framed_def split_def Let_def field_ok_Wo field_ok_energy WO_E_BITS_def

lemma frame_3200_ok:
  assumes "dsp_ok D" and "c2_ok c0" and "2 * N \<le> length sp"
  shows "well_framed c0 layout_3200 (frame_3200 D c0 sp)"
proof -
  obtain c1 m0 c2 m1 where a: "analyse_one_frame D c0 sp = Some (c1, m0)" "analyse_one_frame D c1 (drop N sp) = Some (c2, m1)"
    "c2_ok c2" "c_mode c2 = c_mode c0" "field_ok (m_voiced m0, 1)" "field_ok (m_voiced m1, 1)"
    by (rule two_frames [OF assms(1,2), of sp "drop N sp"]) (use assms(3) in simp_all)
  let ?u = "uq_lsps D (dsp_state c2) (Sn c2)"
  obtain js where j: "encode_lspds_scalar (ops D) (books D) (snd ?u) LPC_ORD = Some js" "length js = 10" "\<forall>j \<in> set js. j < 32"
    using encode_lspds_scalar_less [OF uq_lsps_length [OF assms(1)]] by blast
  obtain fs where f: "lsp_fields js (lspd_bits (books D)) [0 ..< LSPD_SCALAR_INDEXES] = Some fs" "map snd fs = replicate 10 5"
      "\<forall>fw \<in> set fs. field_ok fw"
    using lspd_fields_ok [OF j(2,3)] by blast
  have "replicate 10 (5 :: 32 word) = [5, 5, 5, 5, 5, 5, 5, 5, 5, 5]" by (simp add: numeral_eq_Suc)
  then show ?thesis using a j f by (simp add: framed_simps frame_3200_def layout_3200_def)
qed

lemma frame_2400_ok:
  assumes "dsp_ok D" and "c2_ok c0" and "2 * N \<le> length sp"
  shows "well_framed c0 layout_2400 (frame_2400 D c0 sp)"
proof -
  obtain c1 m0 c2 m1 where a: "analyse_one_frame D c0 sp = Some (c1, m0)" "analyse_one_frame D c1 (drop N sp) = Some (c2, m1)"
    "c2_ok c2" "c_mode c2 = c_mode c0" "field_ok (m_voiced m0, 1)" "field_ok (m_voiced m1, 1)"
    by (rule two_frames [OF assms(1,2), of sp "drop N sp"]) (use assms(3) in simp_all)
  let ?u = "uq_lsps D (dsp_state c2) (Sn c2)"
  obtain j xq where w: "encode_WoE (ops D) (books D) m1 (fst ?u) (xq_enc c2) = Some (j, xq)" "field_ok (word_of_nat j, 8)" "length xq = 2"
    by (rule WoE_ok [OF a(3)])
  obtain js fs where f: "encode_lsps_scalar (ops D) (books D) (snd ?u) LPC_ORD = Some js"
    "lsp_fields js (lsp_bits (books D)) [0 ..< LSP_SCALAR_INDEXES] = Some fs"
    "map snd fs = [4, 4, 4, 4, 4, 4, 4, 3, 3, 2]" "\<forall>fw \<in> set fs. field_ok fw"
    by (rule scalar_lsps_ok [OF assms(1)])
  have "field_ok (0, 2)" using field_okI [of 0 2] by simp
  then show ?thesis using a w f by (auto simp: framed_simps frame_2400_def layout_2400_def c2_ok_def)
qed

lemma frame_1600_ok:
  assumes "dsp_ok D" and "c2_ok c0" and "4 * N \<le> length sp"
  shows "well_framed c0 layout_1600 (frame_1600 D c0 sp)"
proof -
  obtain c1 m0 c2 m1 where a: "analyse_one_frame D c0 sp = Some (c1, m0)" "analyse_one_frame D c1 (drop N sp) = Some (c2, m1)"
    "c2_ok c2" "c_mode c2 = c_mode c0" "field_ok (m_voiced m0, 1)" "field_ok (m_voiced m1, 1)"
    by (rule two_frames [OF assms(1,2), of sp "drop N sp"]) (use assms(3) in simp_all)
  obtain c3 m2 c4 m3 where b: "analyse_one_frame D c2 (drop (2 * N) sp) = Some (c3, m2)" "analyse_one_frame D c3 (drop (3 * N) sp) = Some (c4, m3)"
    "c2_ok c4" "c_mode c4 = c_mode c2" "field_ok (m_voiced m2, 1)" "field_ok (m_voiced m3, 1)"
    by (rule two_frames [OF assms(1) a(3), of "drop (2 * N) sp" "drop (3 * N) sp"]) (use assms(3) in simp_all)
  obtain js fs where f: "encode_lsps_scalar (ops D) (books D) (snd (uq_lsps D (dsp_state c4) (Sn c4))) LPC_ORD = Some js"
    "lsp_fields js (lsp_bits (books D)) [0 ..< LSP_SCALAR_INDEXES] = Some fs"
    "map snd fs = [4, 4, 4, 4, 4, 4, 4, 3, 3, 2]" "\<forall>fw \<in> set fs. field_ok fw"
    by (rule scalar_lsps_ok [OF assms(1)])
  show ?thesis using a b f by (simp add: framed_simps frame_1600_def layout_1600_def)
qed

lemma frame_1300_ok:
  assumes "dsp_ok D" and "c2_ok c0" and "4 * N \<le> length sp"
  shows "well_framed c0 layout_1300 (frame_1300 D c0 sp)"
proof -
  obtain c1 m0 c2 m1 where a: "analyse_one_frame D c0 sp = Some (c1, m0)" "analyse_one_frame D c1 (drop N sp) = Some (c2, m1)"
    "c2_ok c2" "c_mode c2 = c_mode c0" "field_ok (m_voiced m0, 1)" "field_ok (m_voiced m1, 1)"
    by (rule two_frames [OF assms(1,2), of sp "drop N sp"]) (use assms(3) in simp_all)
  obtain c3 m2 c4 m3 where b: "analyse_one_frame D c2 (drop (2 * N) sp) = Some (c3, m2)" "analyse_one_frame D c3 (drop (3 * N) sp) = Some (c4, m3)"
    "c2_ok c4" "c_mode c4 = c_mode c2" "field_ok (m_voiced m2, 1)" "field_ok (m_voiced m3, 1)"
    by (rule two_frames [OF assms(1) a(3), of "drop (2 * N) sp" "drop (3 * N) sp"]) (use assms(3) in simp_all)
  obtain js fs where f: "encode_lsps_scalar (ops D) (books D) (snd (uq_lsps D (dsp_state c4) (Sn c4))) LPC_ORD = Some js"
    "lsp_fields js (lsp_bits (books D)) [0 ..< LSP_SCALAR_INDEXES] = Some fs"
    "map snd fs = [4, 4, 4, 4, 4, 4, 4, 3, 3, 2]" "\<forall>fw \<in> set fs. field_ok fw"
    by (rule scalar_lsps_ok [OF assms(1)])
  show ?thesis using a b f by (simp add: framed_simps frame_1300_def layout_1300_def)
qed

text \<open>The analysis the 1400 and 1200 bit/s modes share.\<close>

lemma WoE_frames:
  assumes "dsp_ok D" and "c2_ok c0" and "4 * N \<le> length sp"
  obtains c1 m0 c2 m1 j1 xq1 c3 m2 c4 m3 j3 xq3 where
    "analyse_one_frame D c0 sp = Some (c1, m0)" "analyse_one_frame D c1 (drop N sp) = Some (c2, m1)"
    "encode_WoE (ops D) (books D) m1 (fst (uq_lsps D (dsp_state c2) (Sn c2))) (xq_enc c2) = Some (j1, xq1)"
    "analyse_one_frame D (c2\<lparr>xq_enc := xq1\<rparr>) (drop (2 * N) sp) = Some (c3, m2)"
    "analyse_one_frame D c3 (drop (3 * N) sp) = Some (c4, m3)"
    "encode_WoE (ops D) (books D) m3 (fst (uq_lsps D (dsp_state c4) (Sn c4))) (xq_enc c4) = Some (j3, xq3)"
    "c_mode c4 = c_mode c0" "length (Sn c4) = M" "length xq3 = 2"
    "field_ok (m_voiced m0, 1)" "field_ok (m_voiced m1, 1)" "field_ok (word_of_nat j1, 8)"
    "field_ok (m_voiced m2, 1)" "field_ok (m_voiced m3, 1)" "field_ok (word_of_nat j3, 8)"
proof -
  obtain c1 m0 c2 m1 where a: "analyse_one_frame D c0 sp = Some (c1, m0)" "analyse_one_frame D c1 (drop N sp) = Some (c2, m1)"
    "c2_ok c2" "c_mode c2 = c_mode c0" "field_ok (m_voiced m0, 1)" "field_ok (m_voiced m1, 1)"
    by (rule two_frames [OF assms(1,2), of sp "drop N sp"]) (use assms(3) in simp_all)
  obtain j1 xq1 where w: "encode_WoE (ops D) (books D) m1 (fst (uq_lsps D (dsp_state c2) (Sn c2))) (xq_enc c2) = Some (j1, xq1)"
      "field_ok (word_of_nat j1, 8)" "length xq1 = 2"
    by (rule WoE_ok [OF a(3)])
  have "c2_ok (c2\<lparr>xq_enc := xq1\<rparr>)" using a(3) w(3) by (simp add: c2_ok_def)
  then obtain c3 m2 c4 m3 where b: "analyse_one_frame D (c2\<lparr>xq_enc := xq1\<rparr>) (drop (2 * N) sp) = Some (c3, m2)"
      "analyse_one_frame D c3 (drop (3 * N) sp) = Some (c4, m3)" "c2_ok c4" "c_mode c4 = c_mode (c2\<lparr>xq_enc := xq1\<rparr>)"
      "field_ok (m_voiced m2, 1)" "field_ok (m_voiced m3, 1)"
    by (rule two_frames [OF assms(1), of _ "drop (2 * N) sp" "drop (3 * N) sp"]) (use assms(3) in simp_all)
  obtain j3 xq3 where v: "encode_WoE (ops D) (books D) m3 (fst (uq_lsps D (dsp_state c4) (Sn c4))) (xq_enc c4) = Some (j3, xq3)"
      "field_ok (word_of_nat j3, 8)" "length xq3 = 2"
    by (rule WoE_ok [OF b(3)])
  have "c_mode c4 = c_mode c0" "length (Sn c4) = M" using a(4) b(3,4) by (simp_all add: c2_ok_def)
  then show thesis using a b w v by (intro that)
qed

lemma frame_1400_ok:
  assumes "dsp_ok D" and "c2_ok c0" and "4 * N \<le> length sp"
  shows "well_framed c0 layout_1400 (frame_1400 D c0 sp)"
proof (rule WoE_frames [OF assms])
  fix c1 m0 c2 m1 j1 xq1 c3 m2 c4 m3 j3 xq3
  assume a: "analyse_one_frame D c0 sp = Some (c1, m0)" "analyse_one_frame D c1 (drop N sp) = Some (c2, m1)"
    "encode_WoE (ops D) (books D) m1 (fst (uq_lsps D (dsp_state c2) (Sn c2))) (xq_enc c2) = Some (j1, xq1)"
    "analyse_one_frame D (c2\<lparr>xq_enc := xq1\<rparr>) (drop (2 * N) sp) = Some (c3, m2)"
    "analyse_one_frame D c3 (drop (3 * N) sp) = Some (c4, m3)"
    "encode_WoE (ops D) (books D) m3 (fst (uq_lsps D (dsp_state c4) (Sn c4))) (xq_enc c4) = Some (j3, xq3)"
    "c_mode c4 = c_mode c0" "length (Sn c4) = M" "length xq3 = 2"
    "field_ok (m_voiced m0, 1)" "field_ok (m_voiced m1, 1)" "field_ok (word_of_nat j1, 8)"
    "field_ok (m_voiced m2, 1)" "field_ok (m_voiced m3, 1)" "field_ok (word_of_nat j3, 8)"
  obtain js fs where f: "encode_lsps_scalar (ops D) (books D) (snd (uq_lsps D (dsp_state c4) (Sn c4))) LPC_ORD = Some js"
    "lsp_fields js (lsp_bits (books D)) [0 ..< LSP_SCALAR_INDEXES] = Some fs"
    "map snd fs = [4, 4, 4, 4, 4, 4, 4, 3, 3, 2]" "\<forall>fw \<in> set fs. field_ok fw"
    by (rule scalar_lsps_ok [OF assms(1)])
  show ?thesis using a f by (simp add: framed_simps frame_1400_def layout_1400_def)
qed

lemma frame_1200_ok:
  assumes "dsp_ok D" and "c2_ok c0" and "4 * N \<le> length sp"
  shows "well_framed c0 layout_1200 (frame_1200 D c0 sp)"
proof (rule WoE_frames [OF assms])
  fix c1 m0 c2 m1 j1 xq1 c3 m2 c4 m3 j3 xq3
  assume a: "analyse_one_frame D c0 sp = Some (c1, m0)" "analyse_one_frame D c1 (drop N sp) = Some (c2, m1)"
    "encode_WoE (ops D) (books D) m1 (fst (uq_lsps D (dsp_state c2) (Sn c2))) (xq_enc c2) = Some (j1, xq1)"
    "analyse_one_frame D (c2\<lparr>xq_enc := xq1\<rparr>) (drop (2 * N) sp) = Some (c3, m2)"
    "analyse_one_frame D c3 (drop (3 * N) sp) = Some (c4, m3)"
    "encode_WoE (ops D) (books D) m3 (fst (uq_lsps D (dsp_state c4) (Sn c4))) (xq_enc c4) = Some (j3, xq3)"
    "c_mode c4 = c_mode c0" "length (Sn c4) = M" "length xq3 = 2"
    "field_ok (m_voiced m0, 1)" "field_ok (m_voiced m1, 1)" "field_ok (word_of_nat j1, 8)"
    "field_ok (m_voiced m2, 1)" "field_ok (m_voiced m3, 1)" "field_ok (word_of_nat j3, 8)"
  obtain n1 n2 n3 xq where v: "encode_lsps_vq (ops D) (books D) (snd (uq_lsps D (dsp_state c4) (Sn c4))) LPC_ORD = Some ([n1, n2, n3], xq)"
      "n1 < 512" "n2 < 512" "n3 < 512"
    using encode_lsps_vq_less [OF uq_lsps_length [OF assms(1)]] by metis
  obtain fs where f: "lsp_fields [n1, n2, n3] (lsp_pred_vq_bits (books D)) [0 ..< LSP_PRED_VQ_INDEXES] = Some fs"
      "map snd fs = [9, 9, 9]" "\<forall>fw \<in> set fs. field_ok fw"
    using vq_fields_ok [OF v(2-4), of "books D"] by auto
  have "field_ok (0, 1)" using field_okI [of 0 1] by simp
  then show ?thesis using a v(1) f by (auto simp: framed_simps frame_1200_def layout_1200_def)
qed


section \<open>Encoders and decoders agree\<close>

definition encoder_frame :: "('f, 'x) dsp \<Rightarrow> ('f, 'x) CODEC2 \<Rightarrow> 16 word list \<Rightarrow> ('f, 'x) frame" where
  "encoder_frame D c2 =
     ([frame_3200, frame_2400, frame_1600, frame_1400, frame_1300, frame_1200] ! nat (c_mode c2)) D c2"

definition decoder_frame :: "('f, 'x) dsp \<Rightarrow> ('f, 'x) CODEC2 \<Rightarrow> 32 word list \<Rightarrow> (('f, 'x) CODEC2 \<times> 16 word list) option" where
  "decoder_frame D c2 =
     ([play_3200, play_2400, play_1600, play_1400, play_1300, play_1200] ! nat (c_mode c2)) D c2"

definition layout :: "('f, 'x) CODEC2 \<Rightarrow> 32 word list" where
  "layout c2 = [layout_3200, layout_2400, layout_1600, layout_1400, layout_1300, layout_1200] ! nat (c_mode c2)"

lemma cleared_bits:
  assumes "clear_bytes bits n = Some z" and "m \<le> 8 * n"
  shows "length z = length bits" and "\<forall>k < m. \<not> sbit z k"
  using assms by (auto simp: clear_bytes_def sbit_def nth_append split: if_splits)

lemma framed_packs:
  assumes "well_framed c2 lay r" and "sum_list (map unat lay) = nat (codec2_bits_per_frame c2)" and "0 \<le> codec2_bits_per_frame c2"
    and "clear_bytes bits (nat ((codec2_bits_per_frame c2 + 7) div 8)) = Some z" and "length bits < 2 ^ 29"
  obtains c2' fs b nb where "r = Some (c2', fs)" "pack_fields z 0 fs = Some (b, nb)" "uint nb = codec2_bits_per_frame c2"
    "unpack_fields b 0 lay = Some (map fst fs, nb)" "length b = length bits" "map snd fs = lay" "c_mode c2' = c_mode c2" "c2_ok c2'"
proof -
  obtain c2' fs where r: "r = Some (c2', fs)" "c2_ok c2'" "c_mode c2' = c_mode c2" "map snd fs = lay" "\<forall>fw \<in> set fs. field_ok fw"
    using assms(1) by (auto simp: well_framed_def)
  have n: "int (frame_bits fs) = codec2_bits_per_frame c2"
    using assms(2,3) r(4) by (auto simp: frame_bits_def simp flip: list.map_comp)
  then have le: "frame_bits fs \<le> 8 * nat ((codec2_bits_per_frame c2 + 7) div 8)" by linarith
  note z = cleared_bits [OF assms(4) le]
  have len: "frame_bits fs \<le> 8 * length z" using le assms(4) z(1) by (auto simp: clear_bytes_def split: if_splits)
  obtain b where b: "pack_fields z 0 fs = Some (b, word_of_nat (frame_bits fs))" "length b = length z"
      "unpack_fields b 0 (map snd fs) = Some (map fst fs, word_of_nat (frame_bits fs))"
    using pack_fields_bits [of fs 0 z] r(5) len assms(5) z by auto
  have "frame_bits fs < 2 ^ 32" using len assms(5) z(1) by simp
  then have "uint (word_of_nat (frame_bits fs) :: 32 word) = codec2_bits_per_frame c2"
    using n by (simp add: uint_nat unat_small)
  then show thesis using that [OF r(1) b(1)] b(2,3) r z(1) by simp
qed

lemma mode_cases:
  assumes "0 \<le> m" and "m \<le> 5"
  obtains "m = CODEC2_MODE_3200" | "m = CODEC2_MODE_2400" | "m = CODEC2_MODE_1600" | "m = CODEC2_MODE_1400" |
    "m = CODEC2_MODE_1300" | "m = CODEC2_MODE_1200"
  using assms unfolding codec2_modes by linarith

lemma layout_sum:
  assumes "0 \<le> c_mode c2" and "c_mode c2 \<le> 5"
  shows "sum_list (map unat (layout c2)) = nat (codec2_bits_per_frame c2)" and "0 \<le> codec2_bits_per_frame c2"
  using mode_cases [OF assms]
  by (cases, simp_all add: layout_def codec2_bits_per_frame_def codec2_modes layout_3200_def layout_2400_def layout_1600_def
      layout_1400_def layout_1300_def layout_1200_def)+

lemma encoder_framed:
  assumes "dsp_ok D" and "c2_ok c2" and "0 \<le> c_mode c2" and "c_mode c2 \<le> 5"
    and "codec2_samples_per_frame c2 \<le> int (length speech)"
  shows "well_framed c2 (layout c2) (encoder_frame D c2 speech)"
  using mode_cases [OF assms(3,4)] assms(5) frame_3200_ok [OF assms(1,2)] frame_2400_ok [OF assms(1,2)] frame_1600_ok [OF assms(1,2)]
    frame_1400_ok [OF assms(1,2)] frame_1300_ok [OF assms(1,2)] frame_1200_ok [OF assms(1,2)]
  by (cases, simp_all add: layout_def encoder_frame_def codec2_samples_per_frame_def codec2_modes N_def)

lemma encode_packs:
  assumes "0 \<le> c_mode c2" and "c_mode c2 \<le> 5" and "encoder_frame D c2 speech = Some (c2', fs)"
    and "clear_bytes bits (nat ((codec2_bits_per_frame c2 + 7) div 8)) = Some z"
    and "pack_fields z 0 fs = Some (b, nb)" and "uint nb = codec2_bits_per_frame c2"
  shows "codec2_encode D c2 bits speech = Some (c2', b)"
  using mode_cases [OF assms(1,2)] assms(3) encode_3200_packs [OF _ assms(4-6)] encode_2400_packs [OF _ assms(4-6)]
    encode_1600_packs [OF _ assms(4-6)] encode_1400_packs [OF _ assms(4-6)] encode_1300_packs [OF _ assms(4-6)]
    encode_1200_packs [OF _ assms(4-6)]
  by (cases, simp_all add: encoder_frame_def codec2_encode_def codec2_modes)

lemma decode_plays:
  assumes "0 \<le> c_mode c2" and "c_mode c2 \<le> 5" and "unpack_fields b 0 (layout c2) = Some (vs, nb)"
  shows "codec2_decode D c2 b = decoder_frame D c2 vs"
  using mode_cases [OF assms(1,2)] assms(3)
  by (cases, simp_all add: decoder_frame_def codec2_decode_def codec2_modes layout_def decode_3200_plays decode_2400_plays
      decode_1600_plays decode_1400_plays decode_1300_plays decode_1200_plays)

section \<open>Properties\<close>

text \<open>
  C9. In every mode encoder and decoder agree on the frame: for any signal processing that yields a
  voicing bit and ten line spectral pairs, and whatever the arithmetic, encoding a full frame of speech
  returns and passes its assertion on the number of bits, and a decoder of the same mode, in any state,
  makes of the bytes what it makes of exactly the quantised values the encoder computed.
\<close>

theorem codec2_frame_roundtrip:
  assumes "dsp_ok D" and "c2_ok c2" and "0 \<le> c_mode c2" and "c_mode c2 \<le> 5"
    and "codec2_samples_per_frame c2 \<le> int (length speech)"
    and "codec2_bits_per_frame c2 \<le> 8 * int (length bits)" and "length bits < 2 ^ 29"
  shows "\<exists>c2' fs bits'. encoder_frame D c2 speech = Some (c2', fs) \<and> map snd fs = layout c2 \<and>
     codec2_encode D c2 bits speech = Some (c2', bits') \<and> length bits' = length bits \<and> c2_ok c2' \<and> c_mode c2' = c_mode c2 \<and>
     (\<forall>dec. c_mode dec = c_mode c2 \<longrightarrow> codec2_decode D dec bits' = decoder_frame D dec (map fst fs))"
proof -
  have "nat ((codec2_bits_per_frame c2 + 7) div 8) \<le> length bits" using assms(6) by linarith
  then obtain z where z: "clear_bytes bits (nat ((codec2_bits_per_frame c2 + 7) div 8)) = Some z"
    by (simp add: clear_bytes_def)
  obtain c2' fs b nb where p: "encoder_frame D c2 speech = Some (c2', fs)" "pack_fields z 0 fs = Some (b, nb)"
      "uint nb = codec2_bits_per_frame c2" "unpack_fields b 0 (layout c2) = Some (map fst fs, nb)" "length b = length bits"
      "map snd fs = layout c2" "c_mode c2' = c_mode c2" "c2_ok c2'"
    by (rule framed_packs [OF encoder_framed [OF assms(1-5)] layout_sum [OF assms(3,4)] z assms(7)])
  have "codec2_decode D dec b = decoder_frame D dec (map fst fs)" if "c_mode dec = c_mode c2" for dec
    using decode_plays [of dec b _ nb D] assms(3,4) p(4) that by (simp add: layout_def)
  then show ?thesis using p encode_packs [OF assms(3,4) p(1) z p(2,3)] by blast
qed

end
