(* ===== verification/C2Fifo.thy ===== *)
theory C2Fifo
  imports WordLib
begin

text \<open>
  The queue of speech samples between the sound card and the codec (codec2/fifo.c): a ring buffer of
  \<open>nshort\<close> shorts, one of which stays free. The pointers \<open>pin\<close> and \<open>pout\<close> into \<open>buf\<close> are offsets. An
  assertion that fails is \<^term>\<open>None\<close>. The bytes \<open>malloc\<close> returns are the parameter \<open>junk\<close>; \<open>ok\<close> says
  whether the allocations for so many shorts succeed (a negative number is a request for almost the
  whole address space and fails).
\<close>

section \<open>The code\<close>

record fifo =
  buf :: "16 word list"
  pin :: nat
  pout :: nat
  nshort :: int

definition fifo_create :: "(int \<Rightarrow> bool) \<Rightarrow> (nat \<Rightarrow> 16 word) \<Rightarrow> int \<Rightarrow> fifo option" where
  "fifo_create ok junk n =
     do { u \<leftarrow> ensure (0 \<le> n \<and> ok n);
          Some \<lparr>buf = map junk [0 ..< nat n], pin = 0, pout = 0, nshort = n\<rparr> }"

text \<open>\<open>used\<close> is \<open>unsigned int\<close>, the result an \<open>int\<close>.\<close>

definition fifo_used :: "fifo \<Rightarrow> int" where
  "fifo_used f =
     sint (if pout f \<le> pin f then word_of_nat (pin f - pout f)
           else word_of_int (nshort f) + word_of_int (int (pin f) - int (pout f)) :: 32 word)"

text \<open>The pointer behind one of the samples.\<close>

definition fifo_next :: "fifo \<Rightarrow> nat \<Rightarrow> nat" where
  "fifo_next f p = (if int (Suc p) = nshort f then 0 else Suc p)"

primrec fifo_write_loop :: "nat \<Rightarrow> nat \<Rightarrow> 16 word list \<Rightarrow> fifo \<Rightarrow> fifo option" where
  "fifo_write_loop 0 i dat f = Some f"
| "fifo_write_loop (Suc k) i dat f =
     do { v \<leftarrow> rd dat i; b \<leftarrow> wr (buf f) (pin f) v;
          fifo_write_loop k (Suc i) dat (f\<lparr>buf := b, pin := fifo_next f (pin f)\<rparr>) }"

definition fifo_write :: "fifo \<Rightarrow> 16 word list \<Rightarrow> int \<Rightarrow> (int \<times> fifo) option" where
  "fifo_write f dat n =
     (let fifo_free = nshort f - fifo_used f - 1
      in if n > fifo_free then Some (- 1, f)
         else do { f' \<leftarrow> fifo_write_loop (nat n) 0 dat f; Some (0, f') })"

primrec fifo_read_loop :: "nat \<Rightarrow> nat \<Rightarrow> 16 word list \<Rightarrow> fifo \<Rightarrow> (16 word list \<times> fifo) option" where
  "fifo_read_loop 0 i dat f = Some (dat, f)"
| "fifo_read_loop (Suc k) i dat f =
     do { v \<leftarrow> rd (buf f) (pout f); d \<leftarrow> wr dat i v;
          fifo_read_loop k (Suc i) d (f\<lparr>pout := fifo_next f (pout f)\<rparr>) }"

definition fifo_read :: "fifo \<Rightarrow> 16 word list \<Rightarrow> int \<Rightarrow> (int \<times> 16 word list \<times> fifo) option" where
  "fifo_read f dat n =
     (if n > fifo_used f then Some (- 1, dat, f)
      else do { r \<leftarrow> fifo_read_loop (nat n) 0 dat f; Some (0, r) })"

section \<open>The queue it implements\<close>

definition fifo_inv :: "fifo \<Rightarrow> bool" where
  "fifo_inv f \<longleftrightarrow> int (length (buf f)) = nshort f \<and> nshort f < 2 ^ 31 \<and> pin f < length (buf f) \<and> pout f < length (buf f)"

text \<open>The number of samples in the ring, and the samples, oldest first.\<close>

definition fill :: "fifo \<Rightarrow> nat" where
  "fill f = (if pout f \<le> pin f then pin f - pout f else length (buf f) + pin f - pout f)"

definition contents :: "fifo \<Rightarrow> 16 word list" where
  "contents f = map (\<lambda>i. buf f ! ((pout f + i) mod length (buf f))) [0 ..< fill f]"

definition space :: "fifo \<Rightarrow> nat" where
  "space f = length (buf f) - 1 - fill f"

lemma length_contents [simp]: "length (contents f) = fill f"
  by (simp add: contents_def)

lemma fill_less: "fifo_inv f \<Longrightarrow> fill f < length (buf f)"
  by (auto simp: fifo_inv_def fill_def)

lemma fill_mod: "fifo_inv f \<Longrightarrow> (pout f + fill f) mod length (buf f) = pin f"
  by (auto simp: fifo_inv_def fill_def)

lemma fill_unique:
  assumes "fifo_inv f" and "k < length (buf f)" and "(pout f + k) mod length (buf f) = pin f"
  shows "fill f = k"
proof (cases "pout f + k < length (buf f)")
  case True
  then show ?thesis using assms by (auto simp: fill_def)
next
  case False
  then have "(pout f + k) mod length (buf f) = pout f + k - length (buf f)"
    using assms(1,2) by (auto simp: fifo_inv_def mod_if)
  then show ?thesis using assms False by (auto simp: fill_def fifo_inv_def)
qed

lemma fifo_used_fill:
  assumes "fifo_inv f"
  shows "fifo_used f = int (fill f)"
proof -
  have i: "fill f < length (buf f)" "int (length (buf f)) < 2 ^ 31"
    using fill_less [OF assms] assms by (auto simp: fifo_inv_def)
  have n: "word_of_int (nshort f) = (word_of_nat (length (buf f)) :: 32 word)"
    using assms by (metis fifo_inv_def of_int_of_nat_eq)
  have "fifo_used f = sint (word_of_int (int (fill f)) :: 32 word)"
    unfolding fifo_used_def n using assms by (auto simp: fill_def fifo_inv_def of_nat_diff algebra_simps)
  also have "\<dots> = int (fill f)" using i by (simp add: sint_small)
  finally show ?thesis .
qed

lemma fifo_next_mod:
  assumes "fifo_inv f" and "p < length (buf f)"
  shows "fifo_next f p = Suc p mod length (buf f)" and "fifo_next f p < length (buf f)"
proof -
  have "int (Suc p) = nshort f \<longleftrightarrow> Suc p = length (buf f)" using assms by (auto simp: fifo_inv_def)
  then show "fifo_next f p = Suc p mod length (buf f)" and "fifo_next f p < length (buf f)"
    using assms by (auto simp: fifo_next_def)
qed

lemma put_one:
  fixes v :: "16 word"
  assumes "fifo_inv f" and "fill f + 1 < length (buf f)"
  defines "g \<equiv> f\<lparr>buf := (buf f)[pin f := v], pin := fifo_next f (pin f)\<rparr>"
  shows "fifo_inv g" and "contents g = contents f @ [v]"
proof -
  have p: "pin f < length (buf f)" using assms(1) by (simp add: fifo_inv_def)
  show i: "fifo_inv g" using assms(1) fifo_next_mod [OF assms(1) p] by (simp add: fifo_inv_def g_def)
  have "(pout g + (fill f + 1)) mod length (buf g) = pin g"
    using fill_mod [OF assms(1)] fifo_next_mod(1) [OF assms(1) p] by (simp add: g_def mod_Suc_eq [of "pout f + fill f", symmetric] del: mod_Suc_eq)
  then have fill: "fill g = Suc (fill f)" using fill_unique [OF i, of "fill f + 1"] assms(2) by (simp add: g_def)
  have other: "(pout f + j) mod length (buf f) \<noteq> pin f" if "j < fill f" for j
    using fill_unique [OF assms(1), of j] that fill_less [OF assms(1)] by auto
  have "contents g = map (\<lambda>i. (buf f)[pin f := v] ! ((pout f + i) mod length (buf f))) [0 ..< fill f] @
      [(buf f)[pin f := v] ! ((pout f + fill f) mod length (buf f))]"
    unfolding contents_def fill by (simp add: g_def)
  then show "contents g = contents f @ [v]"
    using fill_mod [OF assms(1)] p other by (auto simp: contents_def nth_list_update_neq [OF not_sym])
qed

lemma get_one:
  assumes "fifo_inv f" and "0 < fill f"
  defines "g \<equiv> f\<lparr>pout := fifo_next f (pout f)\<rparr>"
  shows "fifo_inv g" and "contents f = buf f ! pout f # contents g"
proof -
  have p: "pout f < length (buf f)" using assms(1) by (simp add: fifo_inv_def)
  note n = fifo_next_mod [OF assms(1) p]
  show i: "fifo_inv g" using assms(1) n by (simp add: fifo_inv_def g_def)
  obtain k where k: "fill f = Suc k" using assms(2) gr0_implies_Suc by auto
  have "(pout g + (fill f - 1)) mod length (buf g) = pin g"
    using fill_mod [OF assms(1)] n by (simp add: k g_def mod_simps)
  then have fill: "fill f = Suc (fill g)"
    using fill_unique [OF i, of "fill f - 1"] assms(2) fill_less [OF assms(1)] by (simp add: g_def)
  show "contents f = buf f ! pout f # contents g"
    using p n(1) unfolding contents_def fill upt_conv_Cons [OF zero_less_Suc] map_Suc_upt [symmetric] list.map map_map
    by (simp add: g_def mod_simps comp_def)
qed


lemma write_loop:
  assumes "fifo_inv f" and "fill f + k < length (buf f)" and "i + k \<le> length dat"
  shows "\<exists>f'. fifo_write_loop k i dat f = Some f' \<and> fifo_inv f' \<and> length (buf f') = length (buf f) \<and>
     contents f' = contents f @ take k (drop i dat)"
  using assms
proof (induction k arbitrary: i f)
  case (Suc k)
  let ?g = "f\<lparr>buf := (buf f)[pin f := dat ! i], pin := fifo_next f (pin f)\<rparr>"
  have g: "fifo_inv ?g" "contents ?g = contents f @ [dat ! i]"
    using put_one [OF Suc.prems(1)] Suc.prems(2) by simp_all
  have "fill ?g = Suc (fill f)" using g(2) length_contents [of ?g] by simp
  then obtain f' where "fifo_write_loop k (Suc i) dat ?g = Some f' \<and> fifo_inv f' \<and> length (buf f') = length (buf f) \<and>
     contents f' = contents ?g @ take k (drop (Suc i) dat)"
    using Suc.IH [OF g(1), of "Suc i"] Suc.prems(2,3) by auto
  then show ?case
    using g(2) Suc.prems by (auto simp: wr_def fifo_inv_def simp flip: Cons_nth_drop_Suc)
qed simp

lemma read_loop:
  assumes "fifo_inv f" and "k \<le> fill f" and "i + k \<le> length dat"
  shows "\<exists>f'. fifo_read_loop k i dat f = Some (take i dat @ take k (contents f) @ drop (i + k) dat, f') \<and>
     fifo_inv f' \<and> length (buf f') = length (buf f) \<and> contents f' = drop k (contents f)"
  using assms
proof (induction k arbitrary: i f dat)
  case (Suc k)
  let ?g = "f\<lparr>pout := fifo_next f (pout f)\<rparr>" and ?v = "buf f ! pout f"
  have g: "fifo_inv ?g" "contents f = ?v # contents ?g"
    using get_one [OF Suc.prems(1)] Suc.prems(2) by simp_all
  have "fill f = Suc (fill ?g)" using arg_cong [OF g(2), of length] by simp
  then obtain f' where "fifo_read_loop k (Suc i) (dat[i := ?v]) ?g =
        Some (take (Suc i) (dat[i := ?v]) @ take k (contents ?g) @ drop (Suc i + k) (dat[i := ?v]), f')"
      "fifo_inv f'" "length (buf f') = length (buf f)" "contents f' = drop k (contents ?g)"
    using Suc.IH [OF g(1), of "Suc i" "dat[i := ?v]"] Suc.prems(2,3) by auto
  then show ?case
    using g(2) Suc.prems by (auto simp: wr_def fifo_inv_def take_Suc_conv_app_nth)
qed simp


section \<open>Bounded queues\<close>

text \<open>
  What the users of a queue rely on. \<open>queue_run\<close> performs a series of writes and reads and collects
  what was accepted and what was returned.
\<close>

datatype 'a queue_op = Put "'a list" | Get nat

fun queue_run :: "('s \<Rightarrow> 'a list \<Rightarrow> int \<Rightarrow> (int \<times> 's) option) \<Rightarrow>
    ('s \<Rightarrow> 'a list \<Rightarrow> int \<Rightarrow> (int \<times> 'a list \<times> 's) option) \<Rightarrow> 'a \<Rightarrow> 's \<Rightarrow> 'a queue_op list \<Rightarrow> ('a list \<times> 'a list \<times> 's) option" where
  "queue_run wrt rdq z s [] = Some ([], [], s)"
| "queue_run wrt rdq z s (Put xs # ops) =
     do { (rc, s1) \<leftarrow> wrt s xs (int (length xs)); (w, r, s2) \<leftarrow> queue_run wrt rdq z s1 ops;
          Some ((if rc = 0 then xs @ w else w), r, s2) }"
| "queue_run wrt rdq z s (Get k # ops) =
     do { (rc, ys, s1) \<leftarrow> rdq s (replicate k z) (int k); (w, r, s2) \<leftarrow> queue_run wrt rdq z s1 ops;
          Some (w, (if rc = 0 then ys @ r else r), s2) }"

locale bounded_queue =
  fixes inv :: "'s \<Rightarrow> bool" and items :: "'s \<Rightarrow> 'a list" and capacity :: "'s \<Rightarrow> nat"
    and wrt :: "'s \<Rightarrow> 'a list \<Rightarrow> int \<Rightarrow> (int \<times> 's) option"
    and rdq :: "'s \<Rightarrow> 'a list \<Rightarrow> int \<Rightarrow> (int \<times> 'a list \<times> 's) option"
  assumes bounded: "inv s \<Longrightarrow> length (items s) \<le> capacity s"
    and wrt_fits: "inv s \<Longrightarrow> length (items s) + length xs \<le> capacity s \<Longrightarrow>
        \<exists>s'. wrt s xs (int (length xs)) = Some (0, s') \<and> inv s' \<and> capacity s' = capacity s \<and> items s' = items s @ xs"
    and wrt_full: "inv s \<Longrightarrow> capacity s < length (items s) + length xs \<Longrightarrow> wrt s xs (int (length xs)) = Some (- 1, s)"
    and rdq_fits: "inv s \<Longrightarrow> length ys \<le> length (items s) \<Longrightarrow>
        \<exists>s'. rdq s ys (int (length ys)) = Some (0, take (length ys) (items s), s') \<and> inv s' \<and>
          capacity s' = capacity s \<and> items s' = drop (length ys) (items s)"
    and rdq_empty: "inv s \<Longrightarrow> length (items s) < length ys \<Longrightarrow> rdq s ys (int (length ys)) = Some (- 1, ys, s)"
begin

lemma run_order:
  "inv s \<Longrightarrow> \<exists>w r s'. queue_run wrt rdq z s ops = Some (w, r, s') \<and> inv s' \<and> capacity s' = capacity s \<and>
     items s @ w = r @ items s'"
proof (induction ops arbitrary: s)
  case (Cons op ops)
  show ?case
  proof (cases op)
    case (Put xs)
    show ?thesis
    proof (cases "length (items s) + length xs \<le> capacity s")
      case True
      then obtain s1 where "wrt s xs (int (length xs)) = Some (0, s1)" "inv s1" "capacity s1 = capacity s"
          "items s1 = items s @ xs" using wrt_fits Cons.prems by blast
      then show ?thesis using Cons.IH [of s1] by (auto simp: Put)
    qed (use Cons in \<open>auto simp: Put wrt_full\<close>)
  next
    case (Get k)
    show ?thesis
    proof (cases "k \<le> length (items s)")
      case True
      then obtain s1 where "rdq s (replicate k z) (int k) = Some (0, take k (items s), s1)" "inv s1"
          "capacity s1 = capacity s" "items s1 = drop k (items s)"
        using rdq_fits [of s "replicate k z"] Cons.prems by auto
      moreover from this obtain w r s2 where "queue_run wrt rdq z s1 ops = Some (w, r, s2)" "inv s2"
          "capacity s2 = capacity s1" "items s1 @ w = r @ items s2" using Cons.IH [of s1] by blast
      moreover have "items s @ w = take k (items s) @ drop k (items s) @ w" by simp
      ultimately show ?thesis by (simp add: Get del: append_take_drop_id)
    qed (use Cons rdq_empty [of s "replicate k z"] in \<open>auto simp: Get\<close>)
  qed
qed simp

end

lemma fifo_write_cases:
  assumes "fifo_inv f" and "0 \<le> n" and "nat n \<le> length dat"
  shows "if fill f + nat n < length (buf f)
     then \<exists>f'. fifo_write f dat n = Some (0, f') \<and> fifo_inv f' \<and> length (buf f') = length (buf f) \<and>
       contents f' = contents f @ take (nat n) dat
     else fifo_write f dat n = Some (- 1, f)"
  using write_loop [OF assms(1), of "nat n" 0 dat] assms fill_less [OF assms(1)]
  by (auto simp: fifo_write_def fifo_used_fill Let_def fifo_inv_def)

lemma fifo_read_cases:
  assumes "fifo_inv f" and "0 \<le> n" and "nat n \<le> length dat"
  shows "if nat n \<le> fill f
     then \<exists>f'. fifo_read f dat n = Some (0, take (nat n) (contents f) @ drop (nat n) dat, f') \<and> fifo_inv f' \<and>
       length (buf f') = length (buf f) \<and> contents f' = drop (nat n) (contents f)
     else fifo_read f dat n = Some (- 1, dat, f)"
  using read_loop [OF assms(1), of "nat n" 0 dat] assms
  by (auto simp: fifo_read_def fifo_used_fill)

interpretation fq: bounded_queue fifo_inv contents "\<lambda>f. length (buf f) - 1" fifo_write fifo_read
proof unfold_locales
  fix s :: fifo and xs :: "16 word list" assume i: "fifo_inv s"
  show "length (contents s) \<le> length (buf s) - 1" using fill_less [OF i] by simp
  note w = fifo_write_cases [OF i, of "int (length xs)" xs] and r = fifo_read_cases [OF i, of "int (length xs)" xs]
  { assume "length (contents s) + length xs \<le> length (buf s) - 1"
    then show "\<exists>s'. fifo_write s xs (int (length xs)) = Some (0, s') \<and> fifo_inv s' \<and>
        length (buf s') - 1 = length (buf s) - 1 \<and> contents s' = contents s @ xs"
      using w fill_less [OF i] by (auto split: if_splits) }
  { assume "length (buf s) - 1 < length (contents s) + length xs"
    then show "fifo_write s xs (int (length xs)) = Some (- 1, s)" using w fill_less [OF i] by auto }
  { assume "length xs \<le> length (contents s)"
    then show "\<exists>s'. fifo_read s xs (int (length xs)) = Some (0, take (length xs) (contents s), s') \<and> fifo_inv s' \<and>
        length (buf s') - 1 = length (buf s) - 1 \<and> contents s' = drop (length xs) (contents s)"
      using r by auto }
  { assume "length (contents s) < length xs"
    then show "fifo_read s xs (int (length xs)) = Some (- 1, xs, s)" using r by auto }
qed

lemma fifo_create_inv:
  assumes "fifo_create ok junk n = Some f" and "0 < n" and "n < 2 ^ 31"
  shows "fifo_inv f" and "contents f = []" and "length (buf f) = nat n"
  using assms by (auto simp: fifo_create_def fifo_inv_def contents_def fill_def option_bind_Some_iff)

section \<open>Properties\<close>

text \<open>
  C10. The ring buffer is a bounded queue in every interleaving: from a new one of \<open>n\<close> shorts, any
  series of writes and reads is free of accesses outside the buffer, never holds more than \<open>n - 1\<close>
  samples, and the samples that were accepted are, in order, those returned and those still inside.
\<close>

theorem fifo_order:
  assumes "fifo_create ok junk n = Some f" and "0 < n" and "n < 2 ^ 31"
  shows "\<exists>w r f'. queue_run fifo_write fifo_read 0 f ops = Some (w, r, f') \<and> w = r @ contents f' \<and>
     fifo_used f' = int (length w) - int (length r) \<and> fifo_used f' < n"
proof -
  note c = fifo_create_inv [OF assms]
  obtain w r f' where "queue_run fifo_write fifo_read 0 f ops = Some (w, r, f')" "fifo_inv f'"
      "length (buf f') - 1 = nat n - 1" "w = r @ contents f'"
    using fq.run_order [OF c(1), of 0 ops] c(2,3) by auto
  then show ?thesis using fq.bounded [of f'] assms(2) by (auto simp: fifo_used_fill)
qed

theorem fifo_order_witness:
  "\<exists>w r f'. queue_run fifo_write fifo_read 0 \<lparr>buf = [0, 0, 0], pin = 0, pout = 0, nshort = 3\<rparr>
       [Put [1, 2], Get 1, Put [3, 4], Put [5], Get 2] = Some (w, r, f') \<and>
     w = r @ contents f' \<and> fifo_used f' = int (length w) - int (length r) \<and> fifo_used f' < 3"
  by (rule fifo_order [of "\<lambda>_. True" "\<lambda>_. 0"]) (simp_all add: fifo_create_def upt_rec)

text \<open>
  C37. \<open>fifo_write\<close> and \<open>fifo_read\<close> on every branch: a write appends the \<open>n\<close> samples or returns -1 and
  changes nothing, exactly when they do not fit beside the free place; a read takes the \<open>n\<close> oldest
  samples, leaving the rest of the caller's array alone, or returns -1 and changes nothing.
\<close>

theorem fifo_refines_queue:
  assumes "fifo_inv f" and "0 \<le> n" and "nat n \<le> length dat"
  shows "(if int (length (contents f)) + n \<le> nshort f - 1
      then \<exists>f'. fifo_write f dat n = Some (0, f') \<and> fifo_inv f' \<and> nshort f' = nshort f \<and>
        contents f' = contents f @ take (nat n) dat
      else fifo_write f dat n = Some (- 1, f)) \<and>
     (if n \<le> int (length (contents f))
      then \<exists>f'. fifo_read f dat n = Some (0, take (nat n) (contents f) @ drop (nat n) dat, f') \<and> fifo_inv f' \<and>
        nshort f' = nshort f \<and> contents f' = drop (nat n) (contents f)
      else fifo_read f dat n = Some (- 1, dat, f))"
proof -
  have l: "int (length (buf g)) = nshort g" if "fifo_inv g" for g using that by (simp add: fifo_inv_def)
  have n: "int (fill f) + n \<le> nshort f - 1 \<longleftrightarrow> fill f + nat n < length (buf f)" "n \<le> int (fill f) \<longleftrightarrow> nat n \<le> fill f"
    using l [OF assms(1)] assms(2) by linarith+
  have same: "nshort g = nshort f" if "fifo_inv g" "length (buf g) = length (buf f)" for g
    using l [OF that(1)] l [OF assms(1)] that(2) by simp
  show ?thesis
    unfolding length_contents n
    using fifo_write_cases [OF assms] fifo_read_cases [OF assms] by (metis same)
qed

theorem fifo_refines_queue_witness:
  "fifo_write \<lparr>buf = [7, 8, 9], pin = 1, pout = 2, nshort = 3\<rparr> [4] 1 = Some (- 1, \<lparr>buf = [7, 8, 9], pin = 1, pout = 2, nshort = 3\<rparr>) \<and>
   (\<exists>f'. fifo_read \<lparr>buf = [7, 8, 9], pin = 1, pout = 2, nshort = 3\<rparr> [4] 1 = Some (0, [9], f') \<and> contents f' = [7])"
proof -
  let ?f = "\<lparr>buf = [7, 8, 9], pin = 1, pout = 2, nshort = 3\<rparr> :: fifo"
  have "contents ?f = [9, 7]" by (simp add: contents_def fill_def upt_rec)
  then show ?thesis using fifo_refines_queue [of ?f 1 "[4]"] by (auto simp: fifo_inv_def)
qed

end
