(* ===== verification/C2Props.thy ===== *)
theory C2Props
  imports C2FrameProofs C2Fifo
begin

text \<open>
  Further properties of the voice codec: the witness of the frame round trip, the spare voicing bit,
  and the check of the order of line spectral pairs.
\<close>

text \<open>An instance over the integers whose signal processing does nothing.\<close>

definition int_ops :: "int fops" where
  "int_ops = \<lparr>fadd = (+), fsub = (-), fmul = (*), fdiv = (div), flt = (<),
     flit = (\<lambda>s. if s = ''0.1'' then 1 else 0), fofint = id, ftoint = id, ffloor = id, fpow = (\<lambda>a b. a), flog10 = id, ffabs = abs\<rparr>"

definition silent_dsp :: "(int, unit) dsp" where
  "silent_dsp = \<lparr>ops = int_ops, books = \<lparr>codes_lsp = (\<lambda>_ _. 0), codes_lspd = (\<lambda>_ _. 0), codes_jvm = (\<lambda>_ _. 0), codes_ge = (\<lambda>_ _. 0)\<rparr>,
     estimate = (\<lambda>x sn w. ((), \<lparr>m_Wo = 0, m_L = 0, m_A = replicate 81 0, m_phi = [], m_voiced = 1\<rparr>)),
     uq_lsps = (\<lambda>x sn. (0, replicate 10 0)), lsp_to_lpc = id, aks_to_M2 = (\<lambda>x ak m e. m), synth = (\<lambda>x out m ak. ((), out, m)),
     stack_model = \<lparr>m_Wo = 0, m_L = 0, m_A = replicate 81 0, m_phi = [], m_voiced = 0\<rparr>\<rparr>"

definition silent_c2 :: "int \<Rightarrow> (int, unit) CODEC2" where
  "silent_c2 mode = \<lparr>c_mode = mode, Sn = replicate 320 0, Sn_out = replicate 160 0, prev_Wo_enc = 0,
     prev_model_dec = \<lparr>m_Wo = 0, m_L = 0, m_A = replicate 81 0, m_phi = [], m_voiced = 0\<rparr>, prev_lsps_dec = replicate 10 0,
     prev_e_dec = 0, xq_enc = [0, 0], xq_dec = [0, 0], dsp_state = ()\<rparr>"

theorem codec2_frame_roundtrip_witness:
  "\<exists>c2' fs bits'. encoder_frame silent_dsp (silent_c2 4) (replicate 320 0) = Some (c2', fs) \<and>
     codec2_encode silent_dsp (silent_c2 4) (replicate 7 255) (replicate 320 0) = Some (c2', bits') \<and>
     (\<forall>dec. c_mode dec = 4 \<longrightarrow> codec2_decode silent_dsp dec bits' = decoder_frame silent_dsp dec (map fst fs))"
proof -
  have "c_mode (silent_c2 4) = 4" by (simp add: silent_c2_def)
  moreover have "dsp_ok silent_dsp" by (simp add: dsp_ok_def silent_dsp_def LPC_ORD_def)
  moreover have "c2_ok (silent_c2 4)" by (simp add: c2_ok_def silent_c2_def M_def)
  ultimately show ?thesis
    using codec2_frame_roundtrip [of silent_dsp "silent_c2 4" "replicate 320 0" "replicate 7 255"]
    by (simp add: codec2_samples_per_frame_def codec2_bits_per_frame_def codec2_modes) blast
qed

section \<open>The spare voicing bit\<close>

text \<open>Where in a frame the voicing bits are: the fields of one bit.\<close>

definition voicing_at :: "32 word list \<Rightarrow> nat list" where
  "voicing_at lay = map (\<lambda>i. sum_list (map unat (take i lay))) (filter (\<lambda>i. lay ! i = 1) [0 ..< length lay])"

lemma voicing_positions:
  "voicing_at layout_1300 = [0, 1, 2, 3]" "voicing_at layout_1400 = [0, 1, 10, 11]" "voicing_at layout_1600 = [0, 1, 14, 15]"
  by (simp_all add: voicing_at_def layout_1300_def layout_1400_def layout_1600_def upt_rec)

lemma layouts:
  "c_mode c2 = CODEC2_MODE_1300 \<Longrightarrow> layout c2 = layout_1300" "c_mode c2 = CODEC2_MODE_1400 \<Longrightarrow> layout c2 = layout_1400"
  "c_mode c2 = CODEC2_MODE_1600 \<Longrightarrow> layout c2 = layout_1600"
  by (simp_all add: layout_def codec2_modes)

text \<open>
  C38. In the 1300 and 1400 bit/s modes the spare bit is the third voicing bit of the frame, and rebuilding
  it makes the third 10 ms voiced exactly when one of its neighbours is, changing no other bit.
\<close>

theorem rebuild_spare_bit:
  assumes "c_mode c2 = CODEC2_MODE_1300 \<or> c_mode c2 = CODEC2_MODE_1400" and "int (length ub) = codec2_bits_per_frame c2"
  shows "codec2_get_spare_bit_index c2 = int (voicing_at (layout c2) ! 2) \<and>
     codec2_rebuild_spare_bit c2 ub = Some (0, ub[voicing_at (layout c2) ! 2 :=
       if ub ! (voicing_at (layout c2) ! 1) \<noteq> 0 \<or> ub ! (voicing_at (layout c2) ! 3) \<noteq> 0 then 1 else 0])"
  using assms
  by (auto simp: layouts voicing_positions codec2_get_spare_bit_index_def codec2_rebuild_spare_bit_def codec2_bits_per_frame_def
      wr_def codec2_modes numeral_3_eq_3)

theorem rebuild_spare_bit_witness:
  "codec2_get_spare_bit_index (silent_c2 4) = 2 \<and> codec2_rebuild_spare_bit (silent_c2 4) (replicate 52 0) = Some (0, (replicate 52 0)[2 := 0])"
  using rebuild_spare_bit [of "silent_c2 4" "replicate 52 0"]
  by (simp add: silent_c2_def codec2_bits_per_frame_def codec2_modes layout_def voicing_positions)

text \<open>
  C39. In the 1600 bit/s mode the code gives the wrong bit: index 15 is the fourth voicing bit, not the
  third (14), and rebuilding overwrites it from the second voicing bit and bit 16, the top bit of the
  pitch.
\<close>

theorem spare_bit_1600:
  assumes "c_mode c2 = CODEC2_MODE_1600" and "int (length ub) = codec2_bits_per_frame c2"
  shows "voicing_at (layout c2) ! 2 = 14 \<and> codec2_get_spare_bit_index c2 = int (voicing_at (layout c2) ! 3) \<and>
     codec2_rebuild_spare_bit c2 ub = Some (0, ub[voicing_at (layout c2) ! 3 :=
       if ub ! (voicing_at (layout c2) ! 1) \<noteq> 0 \<or> ub ! Suc (voicing_at (layout c2) ! 3) \<noteq> 0 then 1 else 0])"
  using assms
  by (auto simp: layouts voicing_positions codec2_get_spare_bit_index_def codec2_rebuild_spare_bit_def codec2_bits_per_frame_def
      wr_def codec2_modes numeral_3_eq_3)

theorem spare_bit_1600_witness:
  "codec2_rebuild_spare_bit (silent_c2 2) (replicate 64 0) = Some (0, (replicate 64 0)[15 := 0])"
  using spare_bit_1600 [of "silent_c2 2" "replicate 64 0"]
  by (simp add: silent_c2_def codec2_bits_per_frame_def codec2_modes layout_def voicing_positions)

section \<open>The order of line spectral pairs\<close>

definition ordered_from :: "'f fops \<Rightarrow> nat \<Rightarrow> nat \<Rightarrow> 'f list \<Rightarrow> bool" where
  "ordered_from F lo hi lsp \<longleftrightarrow> (\<forall>i. lo \<le> i \<and> i < hi \<longrightarrow> \<not> flt F (lsp ! i) (lsp ! (i - 1)))"

definition checked :: "'f fops \<Rightarrow> nat \<Rightarrow> nat \<Rightarrow> 'f list \<Rightarrow> nat \<Rightarrow> nat \<times> 'f list \<Rightarrow> bool" where
  "checked F n i lsp k r \<longleftrightarrow> (0 < i \<longrightarrow> i \<le> n \<longrightarrow> n \<le> length lsp \<longrightarrow> ordered_from F 2 i lsp \<longrightarrow>
     length (snd r) = length lsp \<and> ordered_from F 2 n (snd r) \<and> k \<le> fst r \<and> (fst r = k \<longrightarrow> snd r = lsp \<and> ordered_from F i n lsp))"

lemma check_loop_ordered:
  assumes "check_lsp_order_loop F n i lsp k = Some r"
  shows "checked F n i lsp k r"
  using assms
proof (rule check_lsp_order_loop.raw_induct [where P = checked, rotated], unfold checked_def, goal_cases)
  case (1 loop F n i lsp k r)
  show ?case
  proof (cases "i < n")
    case False
    then show ?thesis using 1(2) by (auto simp: ordered_from_def)
  next
    case True
    show ?thesis
    proof (intro impI)
      assume p: "0 < i" "i \<le> n" "n \<le> length lsp" "ordered_from F 2 i lsp"
      show "length (snd r) = length lsp \<and> ordered_from F 2 n (snd r) \<and> k \<le> fst r \<and> (fst r = k \<longrightarrow> snd r = lsp \<and> ordered_from F i n lsp)"
      proof (cases "flt F (lsp ! i) (lsp ! (i - 1))")
        case True
        let ?l = "lsp[i - 1 := fsub F (lsp ! i) (flit F ''0.1''), i := fadd F (lsp ! (i - 1)) (flit F ''0.1'')]"
        have "loop F n 2 ?l (k + 1) = Some r" using 1(2) \<open>i < n\<close> p True by (simp add: numeral_2_eq_2)
        from 1(1) [OF this] have "ordered_from F 2 2 ?l \<longrightarrow> length (snd r) = length lsp \<and>
            ordered_from F 2 n (snd r) \<and> Suc k \<le> fst r"
          using \<open>i < n\<close> p by simp
        moreover have "ordered_from F 2 2 ?l" unfolding ordered_from_def by linarith
        ultimately show ?thesis by simp
      next
        case False
        have "loop F n (i + 1) lsp k = Some r" using 1(2) \<open>i < n\<close> p False by simp
        from 1(1) [OF this] have "ordered_from F 2 (Suc i) lsp \<longrightarrow> length (snd r) = length lsp \<and> ordered_from F 2 n (snd r) \<and>
            k \<le> fst r \<and> (fst r = k \<longrightarrow> snd r = lsp \<and> ordered_from F (Suc i) n lsp)"
          using \<open>i < n\<close> p by simp
        moreover have "ordered_from F 2 (Suc i) lsp" using p(4) False by (auto simp: ordered_from_def less_Suc_eq)
        moreover have "ordered_from F i n lsp" if "ordered_from F (Suc i) n lsp"
          unfolding ordered_from_def
        proof (intro allI impI)
          fix j assume j: "i \<le> j \<and> j < n"
          show "\<not> flt F (lsp ! j) (lsp ! (j - 1))"
          proof (cases "j = i")
            case False
            then show ?thesis using that j unfolding ordered_from_def by simp
          qed (use \<open>\<not> flt F (lsp ! i) (lsp ! (i - 1))\<close> in simp)
        qed
        ultimately show ?thesis by blast
      qed
    qed
  qed
qed

lemma check_lsp_order_result:
  assumes "check_lsp_order F lsp n = Some (swaps, lsp')" and "0 < n" and "n \<le> length lsp"
  shows "length lsp' = length lsp \<and> (\<forall>i. 2 \<le> i \<and> i < n \<longrightarrow> \<not> flt F (lsp' ! i) (lsp' ! (i - 1))) \<and>
     (swaps = 0 \<longrightarrow> lsp' = lsp \<and> (\<forall>i. 1 \<le> i \<and> i < n \<longrightarrow> \<not> flt F (lsp ! i) (lsp ! (i - 1))))"
  using check_loop_ordered [OF assms(1) [unfolded check_lsp_order_def]] assms(2,3) by (auto simp: checked_def ordered_from_def)

lemma check_loop_passes:
  "ordered_from F i n lsp \<Longrightarrow> 0 < i \<Longrightarrow> i \<le> n \<Longrightarrow> n \<le> length lsp \<Longrightarrow> check_lsp_order_loop F n i lsp k = Some (k, lsp)"
proof (induction "n - i" arbitrary: i)
  case 0
  then show ?case by (subst check_lsp_order_loop.simps) simp
next
  case (Suc d)
  then have i: "i < n" "\<not> flt F (lsp ! i) (lsp ! (i - 1))" by (auto simp: ordered_from_def)
  have "check_lsp_order_loop F n (i + 1) lsp k = Some (k, lsp)" using Suc i(1) by (intro Suc.hyps(1)) (auto simp: ordered_from_def)
  then show ?case using i Suc.prems by (subst check_lsp_order_loop.simps) simp
qed

text \<open>The pair at 1 and 2 exchanged as the code does it.\<close>

definition exchanged :: "'f fops \<Rightarrow> 'f list \<Rightarrow> 'f list" where
  "exchanged F lsp = lsp[1 := fsub F (lsp ! 2) (flit F ''0.1''), 2 := fadd F (lsp ! 1) (flit F ''0.1'')]"

text \<open>
  C40. What check_lsp_order checks and what it does not, whatever the arithmetic, for any order from 3
  on. When it returns, the line spectral pairs from the second on are in order, and a count of 0 says that
  nothing was changed and all are. But the first pair is not looked at again after an exchange: where the
  first two are in order, the third is below the second and exchanging them puts the others in order, the
  function returns with that one exchange, in order or not where the new second pair, the third less 0.1, is
  below the first.
\<close>

theorem check_lsp_order_checks:
  assumes "3 \<le> n" and "n \<le> length lsp"
  shows "(\<forall>swaps lsp'. check_lsp_order F lsp n = Some (swaps, lsp') \<longrightarrow>
       length lsp' = length lsp \<and> (\<forall>i. 2 \<le> i \<and> i < n \<longrightarrow> \<not> flt F (lsp' ! i) (lsp' ! (i - 1))) \<and>
       (swaps = 0 \<longrightarrow> lsp' = lsp \<and> (\<forall>i. 1 \<le> i \<and> i < n \<longrightarrow> \<not> flt F (lsp ! i) (lsp ! (i - 1))))) \<and>
     (\<not> flt F (lsp ! 1) (lsp ! 0) \<and> flt F (lsp ! 2) (lsp ! 1) \<and>
      (\<forall>i. 2 \<le> i \<and> i < n \<longrightarrow> \<not> flt F (exchanged F lsp ! i) (exchanged F lsp ! (i - 1))) \<longrightarrow>
       check_lsp_order F lsp n = Some (1, exchanged F lsp) \<and>
       exchanged F lsp ! 0 = lsp ! 0 \<and> exchanged F lsp ! 1 = fsub F (lsp ! 2) (flit F ''0.1''))"
proof (intro conjI allI impI)
  have n: "0 < n" using assms(1) by linarith
  fix swaps lsp' assume "check_lsp_order F lsp n = Some (swaps, lsp')"
  from check_lsp_order_result [OF this n assms(2)]
  show "length lsp' = length lsp" "\<And>i. 2 \<le> i \<and> i < n \<Longrightarrow> \<not> flt F (lsp' ! i) (lsp' ! (i - 1))" "swaps = 0 \<Longrightarrow> lsp' = lsp"
    "\<And>i. swaps = 0 \<Longrightarrow> 1 \<le> i \<and> i < n \<Longrightarrow> \<not> flt F (lsp ! i) (lsp ! (i - 1))" by blast+
next
  assume *: "\<not> flt F (lsp ! 1) (lsp ! 0) \<and> flt F (lsp ! 2) (lsp ! 1) \<and>
      (\<forall>i. 2 \<le> i \<and> i < n \<longrightarrow> \<not> flt F (exchanged F lsp ! i) (exchanged F lsp ! (i - 1)))"
  have l: "0 < length lsp" "lsp \<noteq> []" "Suc 0 < length lsp" "Suc (Suc 0) < length lsp" "Suc 0 < n" "Suc (Suc 0) < n" using assms by auto
  have "ordered_from F 2 n (exchanged F lsp)" using * by (simp add: ordered_from_def)
  then have "check_lsp_order_loop F n 2 (exchanged F lsp) 1 = Some (1, exchanged F lsp)"
    by (rule check_loop_passes) (use assms in \<open>simp_all add: exchanged_def\<close>)
  moreover have "check_lsp_order F lsp n = check_lsp_order_loop F n 2 lsp 0" unfolding check_lsp_order_def
    using * l by (subst check_lsp_order_loop.simps) (simp add: numeral_2_eq_2)
  moreover have "check_lsp_order_loop F n 2 lsp 0 = check_lsp_order_loop F n 2 (exchanged F lsp) 1"
    using * l by (subst check_lsp_order_loop.simps) (simp add: exchanged_def numeral_2_eq_2)
  ultimately show "check_lsp_order F lsp n = Some (1, exchanged F lsp)" by simp
  show "exchanged F lsp ! 0 = lsp ! 0" "exchanged F lsp ! 1 = fsub F (lsp ! 2) (flit F ''0.1'')" using assms by (simp_all add: exchanged_def)
qed

theorem check_lsp_order_checks_witness:
  "check_lsp_order int_ops [5, 6, 1, 9] 4 = Some (1, [5, 0, 7, 9]) \<and> flt int_ops ([5, 0, 7, 9] ! 1) ([5, 0, 7, 9] ! 0)"
proof -
  have i: "i = 2 \<or> i = 3" if "2 \<le> i \<and> i < 4" for i :: nat using that by linarith
  have e: "exchanged int_ops [5, 6, 1, 9] = [5, 0, 7, 9]" by (simp add: exchanged_def int_ops_def numeral_2_eq_2)
  have "\<not> flt int_ops ([5, 0, 7, 9] ! i) ([5, 0, 7, 9] ! (i - 1))" if "2 \<le> i \<and> i < 4" for i
    using i [OF that] by (auto simp: int_ops_def numeral_2_eq_2 numeral_3_eq_3)
  moreover have "\<not> flt int_ops ([5, 6, 1, 9 :: int] ! 1) ([5, 6, 1, 9] ! 0)" "flt int_ops ([5, 6, 1, 9 :: int] ! 2) ([5, 6, 1, 9] ! 1)"
    by (simp_all add: int_ops_def numeral_2_eq_2)
  ultimately have "check_lsp_order int_ops [5, 6, 1, 9] 4 = Some (1, [5, 0, 7, 9])"
    using check_lsp_order_checks [of 4 "[5, 6, 1, 9]" int_ops] unfolding e by simp
  then show ?thesis by (simp add: int_ops_def)
qed

end
