(* ===== verification/OpusPacket.thy ===== *)
theory OpusPacket
  imports WordLib "HOL-Library.Signed_Division"
begin

unbundle bit_operations_syntax

text \<open>
  Opus packets: parsing (opus/src/opus.c, the packet functions of opus/src/opus_decoder.c) and
  the repacketizer (opus/src/repacketizer.c). All buffers are regions of one memory, a list of bytes,
  and a pointer is an offset into it, so that packets padded or unpadded in place overlap as in the code.
  A length is an \<open>opus_int32\<close>; no sum of lengths below the size of a memory leaves its range.
\<close>

type_synonym mem = "8 word list"

definition OPUS_OK :: int where "OPUS_OK = 0"
definition OPUS_BAD_ARG :: int where "OPUS_BAD_ARG = - 1"
definition OPUS_BUFFER_TOO_SMALL :: int where "OPUS_BUFFER_TOO_SMALL = - 2"
definition OPUS_INVALID_PACKET :: int where "OPUS_INVALID_PACKET = - 4"

definition OPUS_BANDWIDTH_NARROWBAND :: int where "OPUS_BANDWIDTH_NARROWBAND = 1101"
definition OPUS_BANDWIDTH_MEDIUMBAND :: int where "OPUS_BANDWIDTH_MEDIUMBAND = 1102"
definition OPUS_BANDWIDTH_SUPERWIDEBAND :: int where "OPUS_BANDWIDTH_SUPERWIDEBAND = 1104"
definition OPUS_BANDWIDTH_FULLBAND :: int where "OPUS_BANDWIDTH_FULLBAND = 1105"

text \<open>Conversion to \<open>opus_int16\<close>, signed arithmetic that may overflow, and \<open>memmove\<close>.\<close>

definition int16 :: "int \<Rightarrow> int" where
  "int16 x = signed_take_bit 15 x"

definition i32 :: "int \<Rightarrow> int option" where
  "i32 x = (if - (2 ^ 31) \<le> x \<and> x < 2 ^ 31 then Some x else None)"

definition OPUS_MOVE :: "mem \<Rightarrow> nat \<Rightarrow> nat \<Rightarrow> nat \<Rightarrow> mem option" where
  "OPUS_MOVE m dst src n =
     (if dst + n \<le> length m \<and> src + n \<le> length m then Some (take dst m @ take n (drop src m) @ drop (dst + n) m) else None)"

section \<open>What the first byte says\<close>

definition opus_packet_get_samples_per_frame :: "mem \<Rightarrow> nat \<Rightarrow> int \<Rightarrow> int option" where
  "opus_packet_get_samples_per_frame m data Fs =
     do { b \<leftarrow> rd m data;
          (let audiosize = unat (drop_bit 3 b AND 3)
           in if b AND 0x80 \<noteq> 0
              then do { u \<leftarrow> ensure (0 \<le> Fs); x \<leftarrow> i32 (Fs * 2 ^ audiosize); Some (x sdiv 400) }
              else if b AND 0x60 = 0x60
              then Some (if b AND 0x08 \<noteq> 0 then Fs sdiv 50 else Fs sdiv 100)
              else if audiosize = 3 then do { x \<leftarrow> i32 (Fs * 60); Some (x sdiv 1000) }
              else do { u \<leftarrow> ensure (0 \<le> Fs); x \<leftarrow> i32 (Fs * 2 ^ audiosize); Some (x sdiv 100) }) }"

definition opus_packet_get_bandwidth :: "mem \<Rightarrow> nat \<Rightarrow> int option" where
  "opus_packet_get_bandwidth m data =
     do { b \<leftarrow> rd m data;
          Some (if b AND 0x80 \<noteq> 0
                then (let bandwidth = OPUS_BANDWIDTH_MEDIUMBAND + uint (drop_bit 5 b AND 3)
                      in if bandwidth = OPUS_BANDWIDTH_MEDIUMBAND then OPUS_BANDWIDTH_NARROWBAND else bandwidth)
                else if b AND 0x60 = 0x60
                then (if b AND 0x10 \<noteq> 0 then OPUS_BANDWIDTH_FULLBAND else OPUS_BANDWIDTH_SUPERWIDEBAND)
                else OPUS_BANDWIDTH_NARROWBAND + uint (drop_bit 5 b AND 3)) }"

definition opus_packet_get_nb_channels :: "mem \<Rightarrow> nat \<Rightarrow> int option" where
  "opus_packet_get_nb_channels m data = do { b \<leftarrow> rd m data; Some (if b AND 0x4 \<noteq> 0 then 2 else 1) }"

definition opus_packet_get_nb_frames :: "mem \<Rightarrow> nat \<Rightarrow> int \<Rightarrow> int option" where
  "opus_packet_get_nb_frames m packet len =
     (if len < 1 then Some OPUS_BAD_ARG
      else do { b \<leftarrow> rd m packet;
                (let count = b AND 3
                 in if count = 0 then Some 1
                    else if count \<noteq> 3 then Some 2
                    else if len < 2 then Some OPUS_INVALID_PACKET
                    else do { c \<leftarrow> rd m (packet + 1); Some (uint (c AND 0x3F)) }) })"

definition opus_packet_get_nb_samples :: "mem \<Rightarrow> nat \<Rightarrow> int \<Rightarrow> int \<Rightarrow> int option" where
  "opus_packet_get_nb_samples m packet len Fs =
     do { count \<leftarrow> opus_packet_get_nb_frames m packet len;
          (if count < 0 then Some count
           else do { n \<leftarrow> opus_packet_get_samples_per_frame m packet Fs;
                     samples \<leftarrow> i32 (count * n);
                     l \<leftarrow> i32 (samples * 25);
                     r \<leftarrow> i32 (Fs * 3);
                     Some (if l > r then OPUS_INVALID_PACKET else samples) }) }"

section \<open>Parsing\<close>

text \<open>The number of bytes read and the size; both are -1 where the bytes end too early.\<close>

definition parse_size :: "mem \<Rightarrow> nat \<Rightarrow> int \<Rightarrow> (int \<times> int) option" where
  "parse_size m data len =
     (if len < 1 then Some (- 1, - 1)
      else do { b0 \<leftarrow> rd m data;
                (if uint b0 < 252 then Some (1, uint b0)
                 else if len < 2 then Some (- 1, - 1)
                 else do { b1 \<leftarrow> rd m (data + 1); Some (2, 4 * uint b1 + uint b0) }) })"

text \<open>The padding length of a code 3 packet: an error, or the pointer, the length left and the padding.\<close>

function parse_padding :: "mem \<Rightarrow> nat \<Rightarrow> int \<Rightarrow> int \<Rightarrow> (int + nat \<times> int \<times> int) option" where
  "parse_padding m data len pad =
     (if len \<le> 0 then Some (Inl OPUS_INVALID_PACKET)
      else do { b \<leftarrow> rd m data;
                (let p = uint b; tmp = (if p = 255 then 254 else p)
                 in if p = 255 then parse_padding m (data + 1) (len - 1 - tmp) (pad + tmp)
                    else Some (Inr (data + 1, len - 1 - tmp, pad + tmp))) })"
  by pat_completeness auto
termination
  by (relation "measure (\<lambda>(m, d, l, p). nat l)") (auto split: if_splits)

declare parse_padding.simps [simp del]

text \<open>The sizes of all frames but the last; in an error the array \<open>size\<close> as it was left.\<close>

primrec parse_sizes :: "mem \<Rightarrow> nat list \<Rightarrow> nat \<Rightarrow> int \<Rightarrow> int \<Rightarrow> int list \<Rightarrow> (int list + nat \<times> int \<times> int \<times> int list) option" where
  "parse_sizes m [] data len last_size sz = Some (Inr (data, len, last_size, sz))"
| "parse_sizes m (i # is) data len last_size sz =
     do { (bytes, s) \<leftarrow> parse_size m data len;
          sz \<leftarrow> wr sz i s;
          (if s < 0 \<or> s > len - bytes then Some (Inl sz)
           else parse_sizes m is (data + nat bytes) (len - bytes) (last_size - (bytes + s)) sz) }"

definition set_sizes :: "nat \<Rightarrow> int \<Rightarrow> int list \<Rightarrow> int list option" where
  "set_sizes n s sz = foldM (\<lambda>i sz. wr sz i s) [0 ..< n] sz"

text \<open>
  The switch on the code of the packet, after the first byte. An error with the array \<open>size\<close>, or the
  pointer, the length left, \<open>count\<close>, \<open>cbr\<close>, \<open>last_size\<close>, \<open>pad\<close> and \<open>size\<close>.
\<close>

definition parse_code ::
  "mem \<Rightarrow> nat \<Rightarrow> int \<Rightarrow> bool \<Rightarrow> 8 word \<Rightarrow> int \<Rightarrow> int list \<Rightarrow>
     (int \<times> int list + nat \<times> int \<times> nat \<times> bool \<times> int \<times> int \<times> int list) option" where
  "parse_code m data len self_delimited toc framesize sz =
     (if toc AND 3 = 0 then Some (Inr (data, len, 1, False, len, 0, sz))
      else if toc AND 3 = 1
      then (if self_delimited then Some (Inr (data, len, 2, True, len, 0, sz))
            else if len mod 2 = 1 then Some (Inl (OPUS_INVALID_PACKET, sz))
            else do { sz \<leftarrow> wr sz 0 (int16 (len div 2)); Some (Inr (data, len, 2, True, len div 2, 0, sz)) })
      else if toc AND 3 = 2
      then do { (bytes, s) \<leftarrow> parse_size m data len;
                sz \<leftarrow> wr sz 0 s;
                (if s < 0 \<or> s > len - bytes then Some (Inl (OPUS_INVALID_PACKET, sz))
                 else Some (Inr (data + nat bytes, len - bytes, 2, False, len - bytes - s, 0, sz))) }
      else if len < 1 then Some (Inl (OPUS_INVALID_PACKET, sz))
      else do { ch \<leftarrow> rd m data;
                (let count = unat (ch AND 0x3F)
                 in if count = 0 \<or> framesize * int count > 5760 then Some (Inl (OPUS_INVALID_PACKET, sz))
                    else do { r \<leftarrow> (if ch AND 0x40 \<noteq> 0 then parse_padding m (data + 1) (len - 1) 0
                                    else Some (Inr (data + 1, len - 1, 0)));
                      (case r of Inl e \<Rightarrow> Some (Inl (e, sz))
                       | Inr (data, len', pad) \<Rightarrow>
                           if len' < 0 then Some (Inl (OPUS_INVALID_PACKET, sz))
                           else if ch AND 0x80 \<noteq> 0
                           then do { r \<leftarrow> parse_sizes m [0 ..< count - 1] data len' len' sz;
                                     (case r of Inl sz \<Rightarrow> Some (Inl (OPUS_INVALID_PACKET, sz))
                                      | Inr (data, len', last_size, sz) \<Rightarrow>
                                          if last_size < 0 then Some (Inl (OPUS_INVALID_PACKET, sz))
                                          else Some (Inr (data, len', count, False, last_size, pad, sz))) }
                           else if self_delimited then Some (Inr (data, len', count, True, len, pad, sz))
                           else if len' div int count * int count \<noteq> len' then Some (Inl (OPUS_INVALID_PACKET, sz))
                           else do { sz \<leftarrow> set_sizes (count - 1) (int16 (len' div int count)) sz;
                                     Some (Inr (data, len', count, True, len' div int count, pad, sz)) }) }) })"

text \<open>The size of the last frame, explicit in self-delimited framing.\<close>

definition parse_last ::
  "mem \<Rightarrow> nat \<Rightarrow> int \<Rightarrow> bool \<Rightarrow> nat \<Rightarrow> bool \<Rightarrow> int \<Rightarrow> int list \<Rightarrow> (int \<times> int list + nat \<times> int list) option" where
  "parse_last m data len self_delimited count cbr last_size sz =
     (if self_delimited
      then do { (bytes, s) \<leftarrow> parse_size m data len;
                sz \<leftarrow> wr sz (count - 1) s;
                (if s < 0 \<or> s > len - bytes then Some (Inl (OPUS_INVALID_PACKET, sz))
                 else if cbr
                 then (if s * int count > len - bytes then Some (Inl (OPUS_INVALID_PACKET, sz))
                       else do { sz \<leftarrow> set_sizes (count - 1) s sz; Some (Inr (data + nat bytes, sz)) })
                 else if bytes + s > last_size then Some (Inl (OPUS_INVALID_PACKET, sz))
                 else Some (Inr (data + nat bytes, sz))) }
      else if last_size > 1275 then Some (Inl (OPUS_INVALID_PACKET, sz))
      else do { sz \<leftarrow> wr sz (count - 1) (int16 last_size); Some (Inr (data, sz)) })"

primrec place_frames :: "nat list \<Rightarrow> nat \<Rightarrow> int list \<Rightarrow> nat list option \<Rightarrow> (nat \<times> nat list option) option" where
  "place_frames [] data sz frames = Some (data, frames)"
| "place_frames (i # is) data sz frames =
     do { frames \<leftarrow> (case frames of None \<Rightarrow> Some None | Some fs \<Rightarrow> map_option Some (wr fs i data));
          s \<leftarrow> rd sz i;
          place_frames is (nat (int data + s)) sz frames }"

text \<open>
  A result is the returned number, the arrays \<open>size\<close> and \<open>frames\<close>, and, if they are stored, the first
  byte, the offset of the first frame and the length of the packet. \<open>frames\<close> and \<open>size\<close> may be NULL.
\<close>

type_synonym parsed = "int \<times> int list \<times> nat list option \<times> (8 word \<times> int \<times> int) option"

definition opus_packet_parse_impl ::
  "mem \<Rightarrow> nat \<Rightarrow> int \<Rightarrow> bool \<Rightarrow> nat list option \<Rightarrow> int list option \<Rightarrow> parsed option" where
  "opus_packet_parse_impl m data0 len self_delimited frames sz =
     (case sz of None \<Rightarrow> Some (OPUS_BAD_ARG, [], frames, None)
      | Some sz \<Rightarrow>
          if len < 0 then Some (OPUS_BAD_ARG, sz, frames, None)
          else if len = 0 then Some (OPUS_INVALID_PACKET, sz, frames, None)
          else do { framesize \<leftarrow> opus_packet_get_samples_per_frame m data0 48000;
                    toc \<leftarrow> rd m data0;
                    r \<leftarrow> parse_code m (data0 + 1) (len - 1) self_delimited toc framesize sz;
                    (case r of Inl (e, sz) \<Rightarrow> Some (e, sz, frames, None)
                     | Inr (data, len, count, cbr, last_size, pad, sz) \<Rightarrow>
                         do { r \<leftarrow> parse_last m data len self_delimited count cbr last_size sz;
                              (case r of Inl (e, sz) \<Rightarrow> Some (e, sz, frames, None)
                               | Inr (data, sz) \<Rightarrow>
                                   do { (data', frames) \<leftarrow> place_frames [0 ..< count] data sz frames;
                                        Some (int count, sz, frames,
                                          Some (toc, int data - int data0, pad + (int data' - int data0))) }) }) })"

definition opus_packet_parse :: "mem \<Rightarrow> nat \<Rightarrow> int \<Rightarrow> nat list option \<Rightarrow> int list option \<Rightarrow> parsed option" where
  "opus_packet_parse m data len frames sz = opus_packet_parse_impl m data len False frames sz"

end
