(* ===== verification/OpusFraming.thy ===== *)
theory OpusFraming
  imports OpusPacket
begin

text \<open>
  The format of Opus packets, as section 3 of RFC 6716 defines it, and what the parser makes of it:
  \<open>opus_packet_parse_impl\<close> accepts exactly the packets of the format, self-delimited or not, and points
  at their frames.
\<close>

section \<open>The format\<close>

definition size_bytes :: "nat \<Rightarrow> mem" where
  "size_bytes n =
     (if n < 252 then [word_of_nat n] else [word_of_nat (252 + n mod 4), word_of_nat ((n - (252 + n mod 4)) div 4)])"

text \<open>
  \<open>Many vbr padding\<close>: any number of frames, with sizes or of one size, with a padding of
  \<open>254 * k + b\<close> bytes for \<open>Some (k, b)\<close>.
\<close>

datatype framing = One | TwoEqual | Two | Many bool "(nat \<times> nat) option"

fun pad_code :: "(nat \<times> nat) option \<Rightarrow> mem" where
  "pad_code None = []"
| "pad_code (Some (k, b)) = replicate k 255 @ [word_of_nat b]"

fun pad_bytes :: "framing \<Rightarrow> nat" where
  "pad_bytes (Many vbr (Some (k, b))) = 254 * k + b"
| "pad_bytes fm = 0"

fun code :: "framing \<Rightarrow> 8 word" where
  "code One = 0"
| "code TwoEqual = 1"
| "code Two = 2"
| "code (Many vbr pad) = 3"

definition count_byte :: "nat \<Rightarrow> bool \<Rightarrow> bool \<Rightarrow> 8 word" where
  "count_byte n vbr padded = word_of_nat (n + (if vbr then 128 else 0) + (if padded then 64 else 0))"

fun header :: "framing \<Rightarrow> nat list \<Rightarrow> mem" where
  "header One ls = []"
| "header TwoEqual ls = []"
| "header Two ls = size_bytes (hd ls)"
| "header (Many vbr pad) ls =
     count_byte (length ls) vbr (pad \<noteq> None) # pad_code pad @ (if vbr then concat (map size_bytes (butlast ls)) else [])"

definition lead :: "framing \<Rightarrow> 8 word \<Rightarrow> bool \<Rightarrow> nat list \<Rightarrow> mem" where
  "lead fm c sd ls = c # header fm ls @ (if sd then size_bytes (last ls) else [])"

text \<open>Samples of a frame at 48 kHz by the configuration number.\<close>

definition config_frame :: "nat \<Rightarrow> nat" where
  "config_frame config =
     (if config < 12 then [480, 960, 1920, 2880] ! (config mod 4)
      else if config < 16 then [480, 960] ! (config mod 2)
      else [120, 240, 480, 960] ! (config mod 4))"

definition frame_samples :: "8 word \<Rightarrow> nat" where
  "frame_samples c = config_frame (unat c div 8)"

definition all_equal :: "nat list \<Rightarrow> bool" where
  "all_equal ls \<longleftrightarrow> (\<forall>l \<in> set ls. l = hd ls)"

fun form_ok :: "framing \<Rightarrow> 8 word \<Rightarrow> nat list \<Rightarrow> bool" where
  "form_ok One c ls \<longleftrightarrow> length ls = 1"
| "form_ok TwoEqual c ls \<longleftrightarrow> length ls = 2 \<and> all_equal ls"
| "form_ok Two c ls \<longleftrightarrow> length ls = 2"
| "form_ok (Many vbr pad) c ls \<longleftrightarrow>
     ls \<noteq> [] \<and> length ls * frame_samples c \<le> 5760 \<and> (\<not> vbr \<longrightarrow> all_equal ls) \<and>
     (case pad of None \<Rightarrow> True | Some (k, b) \<Rightarrow> b \<le> 254)"

definition framing_ok :: "framing \<Rightarrow> 8 word \<Rightarrow> nat list \<Rightarrow> bool" where
  "framing_ok fm c ls \<longleftrightarrow> c AND 3 = code fm \<and> (\<forall>l \<in> set ls. l \<le> 1275) \<and> form_ok fm c ls"

text \<open>What lies at a place of the memory.\<close>

primrec lies :: "mem \<Rightarrow> nat \<Rightarrow> mem \<Rightarrow> bool" where
  "lies m d [] \<longleftrightarrow> d \<le> length m"
| "lies m d (x # xs) \<longleftrightarrow> rd m d = Some x \<and> lies m (Suc d) xs"

lemma lies_append [simp]: "lies m d (xs @ ys) \<longleftrightarrow> lies m d xs \<and> lies m (d + length xs) ys"
proof (induction xs arbitrary: d)
  case Nil
  then show ?case by (cases ys) (auto simp: rd_Some_iff)
qed simp

lemma lies_bound: "lies m d xs \<Longrightarrow> d + length xs \<le> length m"
  by (induction xs arbitrary: d) fastforce+

lemma lies_iff: "lies m d xs \<longleftrightarrow> d + length xs \<le> length m \<and> take (length xs) (drop d m) = xs"
proof (induction xs arbitrary: d)
  case (Cons x xs)
  show ?case
  proof (cases "d < length m")
    case True
    then show ?thesis using Cons.IH [of "Suc d"] by (auto simp: rd_Some_iff Cons_nth_drop_Suc [symmetric])
  qed (auto simp: rd_Some_iff)
qed auto

definition framed :: "mem \<Rightarrow> nat \<Rightarrow> int \<Rightarrow> bool \<Rightarrow> framing \<Rightarrow> 8 word \<Rightarrow> nat list \<Rightarrow> bool" where
  "framed m d len sd fm c ls \<longleftrightarrow> framing_ok fm c ls \<and> lies m d (lead fm c sd ls) \<and>
     (let n = int (length (lead fm c sd ls) + sum_list ls + pad_bytes fm) in if sd then n \<le> len else n = len)"

text \<open>Where the frames begin, from the first one on.\<close>

primrec offsets :: "nat \<Rightarrow> nat list \<Rightarrow> nat list" where
  "offsets d [] = []"
| "offsets d (l # ls) = d # offsets (d + l) ls"

lemma length_offsets [simp]: "length (offsets d ls) = length ls"
  by (induction ls arbitrary: d) auto

section \<open>Bytes\<close>

lemma less_8: "(\<forall>n < 8. P n) \<longleftrightarrow> P 0 \<and> P 1 \<and> P 2 \<and> P 3 \<and> P 4 \<and> P 5 \<and> P 6 \<and> P (7 :: nat)"
  by (simp add: numeral_eq_Suc All_less_Suc) blast

lemma byte_eq_iff: "a = b \<longleftrightarrow> (\<forall>n < 8. bit a n = bit (b :: 8 word) n)"
  by (auto intro: bit_word_eqI)

lemma bit_unat: "bit b k \<longleftrightarrow> odd (unat (b :: 8 word) div 2 ^ k)"
proof -
  have "bit b k \<longleftrightarrow> bit (unat b) k"
    by (auto simp: bit_unsigned_iff dest: bit_imp_le_length)
  then show ?thesis by (simp add: bit_iff_odd)
qed

lemma byte_tests:
  "b AND 0x80 = 0 \<longleftrightarrow> \<not> bit (b :: 8 word) 7" "b AND 0x40 = 0 \<longleftrightarrow> \<not> bit b 6" "b AND 0x08 = 0 \<longleftrightarrow> \<not> bit b 3"
  "b AND 0x60 = 0x60 \<longleftrightarrow> bit b 5 \<and> bit b 6"
  by (simp_all add: byte_eq_iff less_8 bit_simps)

lemma byte_parts:
  "unat (drop_bit 3 b :: 8 word) = unat b div 8" "unat (b AND 0x3F) = unat b mod 64" "unat (b AND 3) = unat b mod 4"
  using take_bit_eq_mask [of 2 "unat (drop_bit 3 b)"] take_bit_eq_mask [of 6 "unat b"] take_bit_eq_mask [of 2 "unat b"]
  by (simp_all add: unsigned_and_eq mask_eq_exp_minus_1 take_bit_eq_mod unat_drop_bit_eq drop_bit_eq_div unat_div_distrib)

lemma byte_less: "unat (b :: 8 word) < 256"
  using unsigned_less [of b] by simp

lemma config_bits:
  defines "k \<equiv> \<lambda>b :: 8 word. unat b div 8"
  shows "bit b 7 \<longleftrightarrow> odd (k b div 16)" "bit b 6 \<longleftrightarrow> odd (k b div 8)" "bit b 5 \<longleftrightarrow> odd (k b div 4)" "bit b 3 \<longleftrightarrow> odd (k b)"
  by (simp_all add: bit_unat k_def div_mult2_eq [symmetric])

text \<open>The computation and the table, over the 32 configurations.\<close>

definition config_samples :: "int \<Rightarrow> nat \<Rightarrow> int" where
  "config_samples Fs k =
     (if odd (k div 16) then Fs * 2 ^ (k mod 4) div 400
      else if odd (k div 4) \<and> odd (k div 8) then (if odd k then Fs div 50 else Fs div 100)
      else if k mod 4 = 3 then Fs * 60 div 1000 else Fs * 2 ^ (k mod 4) div 100)"

lemma config_table:
  "\<forall>k \<in> set [0 ..< 32]. config_samples 48000 k = int (config_frame k) \<and> config_samples 8000 k = int (config_frame k div 6) \<and>
     120 \<le> config_frame k \<and> config_frame k \<le> 2880 \<and> 6 dvd config_frame k"
  by (simp add: upt_rec config_samples_def config_frame_def)

lemma get_samples_config:
  assumes "rd m d = Some b" and "0 \<le> Fs" and "Fs \<le> 48000"
  shows "opus_packet_get_samples_per_frame m d Fs = Some (config_samples Fs (unat b div 8))"
proof -
  have "Fs * 2 ^ (unat b div 8 mod 4) \<le> 48000 * 2 ^ 3"
    using assms by (intro mult_mono power_increasing) (auto simp: less_Suc_eq_le [symmetric])
  moreover have "0 \<le> Fs * 2 ^ (unat b div 8 mod 4)" using assms(2) by simp
  ultimately have "i32 (Fs * 2 ^ (unat b div 8 mod 4)) = Some (Fs * 2 ^ (unat b div 8 mod 4))" by (simp add: i32_def)
  moreover have "i32 (Fs * 60) = Some (Fs * 60)" using assms by (simp add: i32_def)
  ultimately show ?thesis
    using assms
    by (simp add: opus_packet_get_samples_per_frame_def byte_tests config_bits byte_parts Let_def
        signed_divide_int_def sgn_if config_samples_def)
qed

lemma samples_at:
  assumes "rd m d = Some b"
  shows "opus_packet_get_samples_per_frame m d 48000 = Some (int (frame_samples b))"
    and "opus_packet_get_samples_per_frame m d 8000 = Some (int (frame_samples b div 6))"
    and "120 \<le> frame_samples b" and "frame_samples b \<le> 2880" and "6 dvd frame_samples b"
proof -
  have "unat b div 8 \<in> set [0 ..< 32]" using byte_less [of b] by simp
  from bspec [OF config_table this] show "opus_packet_get_samples_per_frame m d 48000 = Some (int (frame_samples b))"
    "opus_packet_get_samples_per_frame m d 8000 = Some (int (frame_samples b div 6))"
    "120 \<le> frame_samples b" "frame_samples b \<le> 2880" "6 dvd frame_samples b"
    by (simp_all add: get_samples_config [OF assms] frame_samples_def)
qed

section \<open>Sizes and padding lengths\<close>

lemma uint_small_byte [simp]: "n < 256 \<Longrightarrow> uint (word_of_nat n :: 8 word) = int n"
  by (simp add: uint_nat unat_of_nat)

lemma unat_small_byte [simp]: "n < 256 \<Longrightarrow> unat (word_of_nat n :: 8 word) = n"
  by (simp add: unat_of_nat)

lemma uint_byte_less: "(uint (b :: 8 word) < numeral k) = (unat b < numeral k)"
  unfolding unat_eq_nat_uint by (subst nat_less_iff) simp_all

lemma size_bytes_two:
  assumes "252 \<le> a" and "a < 256"
  shows "size_bytes (a + 4 * q) = [word_of_nat a, word_of_nat q]"
proof -
  have "252 + (a + 4 * q) mod 4 = a" using assms by presburger
  then show ?thesis using assms by (simp add: size_bytes_def)
qed

lemma two_byte_size:
  assumes "252 \<le> n"
  obtains a q where "252 \<le> a" "a < 256" "n = a + 4 * (q :: nat)"
proof
  show "n = (252 + n mod 4) + 4 * (n div 4 - 63)" using assms div_mult_mod_eq [of n 4] by linarith
qed simp_all

lemma parse_size_lies:
  assumes "lies m d (size_bytes n)" and "n \<le> 1275" and "int (length (size_bytes n)) \<le> len"
  shows "parse_size m d len = Some (int (length (size_bytes n)), int n)"
proof (cases "n < 252")
  case False
  then obtain a q where n: "252 \<le> a" "a < 256" "n = a + 4 * q" using two_byte_size [of n] by auto
  then have "q < 256" using assms(2) by linarith
  then show ?thesis using assms(1,3) n(1,2) unfolding n(3) size_bytes_two [OF n(1,2)] by (simp add: parse_size_def)
qed (use assms in \<open>simp add: parse_size_def size_bytes_def\<close>)

lemma size_bytes_ex:
  assumes "parse_size m d len \<noteq> Some (- 1, - 1)" and "int d + len \<le> int (length m)"
  shows "\<exists>n. n \<le> 1275 \<and> lies m d (size_bytes n) \<and> int (length (size_bytes n)) \<le> len"
proof (cases "unat (m ! d) < 252")
  case True
  have "1 \<le> len" using assms(1) by (auto simp: parse_size_def split: if_splits)
  then show ?thesis using True assms(2) by (intro exI [of _ "unat (m ! d)"]) (simp add: size_bytes_def)
next
  case False
  have len: "1 \<le> len" using assms(1) by (auto simp: parse_size_def split: if_splits)
  then have "\<not> len < 2" using False assms by (auto simp: parse_size_def uint_byte_less split: if_splits)
  then have d: "Suc d < length m" "2 \<le> len" using assms(2) by linarith+
  have "size_bytes (unat (m ! d) + 4 * unat (m ! Suc d)) = [m ! d, m ! Suc d]"
    using False byte_less [of "m ! d"] by (simp add: size_bytes_two)
  moreover have "unat (m ! d) + 4 * unat (m ! Suc d) \<le> 1275" using byte_less [of "m ! Suc d"] byte_less [of "m ! d"] by simp
  ultimately show ?thesis using d by (intro exI [of _ "unat (m ! d) + 4 * unat (m ! Suc d)"]) simp
qed

lemma parse_size_cases:
  assumes "int d + len \<le> int (length m)"
  obtains n where "n \<le> 1275" "lies m d (size_bytes n)" "int (length (size_bytes n)) \<le> len"
    "parse_size m d len = Some (int (length (size_bytes n)), int n)"
  | "parse_size m d len = Some (- 1, - 1)"
  using size_bytes_ex [OF _ assms] parse_size_lies by blast

lemma uint_255 [simp]: "uint (255 :: 8 word) = 255"
  by (simp add: take_bit_eq_mod)

lemma padding_step:
  assumes "rd m d = Some 255" and "0 < len"
  shows "parse_padding m d len pad = parse_padding m (Suc d) (len - 255) (pad + 254)"
  using assms by (subst parse_padding.simps) (simp add: Let_def)

lemma padding_end:
  assumes "rd m d = Some b" and "b \<noteq> 255" and "0 < len"
  shows "parse_padding m d len pad = Some (Inr (Suc d, len - 1 - uint b, pad + uint b))"
proof -
  have "uint b \<noteq> 255" using assms(2) by (metis uint_255 word_uint_eq_iff)
  then show ?thesis using assms by (subst parse_padding.simps) (simp add: Let_def)
qed

lemma small_byte: "b \<le> 254 \<Longrightarrow> word_of_nat b \<noteq> (255 :: 8 word)"
proof
  assume "b \<le> 254" and "word_of_nat b = (255 :: 8 word)"
  then have "int b = 255" using uint_small_byte [of b] by simp
  then show False using \<open>b \<le> 254\<close> by simp
qed

lemma not_255: "b \<noteq> 255 \<Longrightarrow> unat (b :: 8 word) \<le> 254"
proof -
  assume "b \<noteq> 255"
  then have "unat b \<noteq> unat (255 :: 8 word)" by (simp only: word_unat_eq_iff simp_thms)
  then show ?thesis using byte_less [of b] by simp
qed

lemma parse_padding_lies:
  assumes "lies m d (pad_code (Some (k, b)))" and "b \<le> 254" and "int (255 * k + 1 + b) \<le> len"
  shows "parse_padding m d len pad = Some (Inr (d + k + 1, len - int (255 * k + 1 + b), pad + int (254 * k + b)))"
  using assms by (induction k arbitrary: d len pad) (simp_all add: padding_step padding_end small_byte algebra_simps)

lemma parse_padding_cases:
  assumes "int d + len \<le> int (length m)"
  shows "parse_padding m d len pad = Some (Inl OPUS_INVALID_PACKET) \<or>
     (\<exists>k b. b \<le> 254 \<and> lies m d (pad_code (Some (k, b))) \<and>
       parse_padding m d len pad = Some (Inr (d + k + 1, len - int (255 * k + 1 + b), pad + int (254 * k + b))))"
  using assms
proof (induction "nat len" arbitrary: d len pad rule: less_induct)
  case less
  show ?case
  proof (cases "0 < len")
    case True
    then have d: "rd m d = Some (m ! d)" "d < length m" using less.prems by auto
    show ?thesis
    proof (cases "m ! d = 255")
      case True
      with d have *: "parse_padding m d len pad = parse_padding m (Suc d) (len - 255) (pad + 254)"
        using \<open>0 < len\<close> by (simp add: padding_step)
      have "nat (len - 255) < nat len" "int (Suc d) + (len - 255) \<le> int (length m)" using less.prems \<open>0 < len\<close> by linarith+
      from less.hyps [OF this, of "pad + 254"] show ?thesis
      proof (elim disjE exE conjE)
        fix k b assume k: "b \<le> 254" "lies m (Suc d) (pad_code (Some (k, b)))"
          "parse_padding m (Suc d) (len - 255) (pad + 254) =
            Some (Inr (Suc d + k + 1, len - 255 - int (255 * k + 1 + b), pad + 254 + int (254 * k + b)))"
        then show ?thesis using d True
          by (intro disjI2 exI [of _ "Suc k"] exI [of _ b]) (simp add: * algebra_simps)
      qed (simp add: *)
    next
      case False
      show ?thesis using d \<open>0 < len\<close> False not_255 [OF False]
        by (intro disjI2 exI [of _ 0] exI [of _ "unat (m ! d)"]) (simp add: padding_end)
    qed
  qed (simp add: parse_padding.simps)
qed

section \<open>The sizes of the frames\<close>

definition sizes :: "nat list \<Rightarrow> mem" where
  "sizes ls = concat (map size_bytes ls)"

lemma sizes_simps [simp]: "sizes [] = []" "sizes (l # ls) = size_bytes l @ sizes ls"
  by (simp_all add: sizes_def)

lemma upt_Suc_Cons: "[i ..< Suc (i + n)] = i # [Suc i ..< Suc (i + n)]"
  by (simp add: upt_rec)

lemma take_Suc_update: "i < length xs \<Longrightarrow> take (Suc i) (xs[i := x]) = take i xs @ [x]"
  by (simp add: take_Suc_conv_app_nth)

lemma parse_sizes_lies:
  assumes "lies m d (sizes ls)" and "\<forall>l \<in> set ls. l \<le> 1275" and "int (length (sizes ls) + sum_list ls) \<le> len"
    and "i + length ls \<le> length sz"
  shows "parse_sizes m [i ..< i + length ls] d len last_size sz =
     Some (Inr (d + length (sizes ls), len - int (length (sizes ls)), last_size - int (length (sizes ls) + sum_list ls),
       take i sz @ map int ls @ drop (i + length ls) sz))"
  using assms
proof (induction ls arbitrary: i d len last_size sz)
  case (Cons l ls)
  have "parse_size m d len = Some (int (length (size_bytes l)), int l)"
    using Cons.prems by (intro parse_size_lies) simp_all
  then show ?case
    using Cons.prems Cons.IH [of "d + length (size_bytes l)" "len - int (length (size_bytes l))" "Suc i" "sz[i := int l]"
        "last_size - int (length (size_bytes l) + l)"]
    by (simp add: upt_Suc_Cons wr_def take_Suc_update algebra_simps del: upt_Suc)
qed simp

lemma parse_sizes_cases:
  assumes "int d + len \<le> int (length m)" and "i + n \<le> length sz" and "0 \<le> len"
  shows "(\<exists>sz'. parse_sizes m [i ..< i + n] d len last_size sz = Some (Inl sz') \<and> length sz' = length sz) \<or>
     (\<exists>ls. length ls = n \<and> lies m d (sizes ls) \<and> (\<forall>l \<in> set ls. l \<le> 1275) \<and> int (length (sizes ls)) \<le> len \<and>
       parse_sizes m [i ..< i + n] d len last_size sz =
         Some (Inr (d + length (sizes ls), len - int (length (sizes ls)), last_size - int (length (sizes ls) + sum_list ls),
           take i sz @ map int ls @ drop (i + n) sz)))"
  using assms
proof (induction n arbitrary: i d len last_size sz)
  case (Suc n)
  show ?case
  proof (rule parse_size_cases [OF Suc.prems(1)])
    fix l assume l: "l \<le> 1275" "lies m d (size_bytes l)" "int (length (size_bytes l)) \<le> len"
      "parse_size m d len = Some (int (length (size_bytes l)), int l)"
    let ?b = "length (size_bytes l)"
    show ?thesis
    proof (cases "int l > len - int ?b")
      case True
      then show ?thesis using Suc.prems l(4) by (simp add: upt_Suc_Cons wr_def del: upt_Suc)
    next
      case False
      have pre: "int (d + ?b) + (len - int ?b) \<le> int (length m)" "Suc i + n \<le> length (sz[i := int l])" "0 \<le> len - int ?b"
        using Suc.prems l(3) by simp_all
      have *: "parse_sizes m [i ..< Suc (i + n)] d len last_size sz =
          parse_sizes m [Suc i ..< Suc i + n] (d + ?b) (len - int ?b) (last_size - (int ?b + int l)) (sz[i := int l])"
        using Suc.prems l(4) False by (simp add: upt_Suc_Cons wr_def del: upt_Suc)
      from Suc.IH [OF pre, of "last_size - (int ?b + int l)"] show ?thesis
      proof (elim disjE exE conjE)
        fix ls assume ls: "length ls = n" "lies m (d + ?b) (sizes ls)" "\<forall>l \<in> set ls. l \<le> 1275"
          "int (length (sizes ls)) \<le> len - int ?b"
          "parse_sizes m [Suc i ..< Suc i + n] (d + ?b) (len - int ?b) (last_size - (int ?b + int l)) (sz[i := int l]) =
            Some (Inr (d + ?b + length (sizes ls), len - int ?b - int (length (sizes ls)),
              last_size - (int ?b + int l) - int (length (sizes ls) + sum_list ls),
              take (Suc i) (sz[i := int l]) @ map int ls @ drop (Suc i + n) (sz[i := int l])))"
        then show ?thesis using l(1,2) Suc.prems(2)
          by (intro disjI2 exI [of _ "l # ls"]) (simp add: * take_Suc_update algebra_simps del: upt_Suc)
      qed (simp add: * del: upt_Suc)
    qed
  next
    assume "parse_size m d len = Some (- 1, - 1)"
    then show ?thesis using Suc.prems by (simp add: upt_Suc_Cons wr_def del: upt_Suc)
  qed
qed simp

section \<open>A packet of the format is accepted\<close>

lemma int16_small: "n \<le> 1275 \<Longrightarrow> int16 (int n) = int n"
  by (simp add: int16_def signed_take_bit_int_eq_self_iff)

lemma set_sizes_eq: "n \<le> length sz \<Longrightarrow> set_sizes n s sz = Some (replicate n s @ drop n sz)"
proof (induction n)
  case (Suc n)
  then have "drop n sz = sz ! n # drop (Suc n) sz" by (simp add: Cons_nth_drop_Suc)
  then show ?case using Suc
    by (simp add: set_sizes_def foldM_append wr_def list_update_append nth_append replicate_append_same)
qed (simp add: set_sizes_def)

lemma place_frames_eq:
  assumes "take (length ls) (drop i sz) = map int ls" and "i + length ls \<le> length sz" and "case fr of None \<Rightarrow> True | Some fs \<Rightarrow> i + length ls \<le> length fs"
  shows "place_frames [i ..< i + length ls] d sz fr =
    Some (d + sum_list ls, map_option (\<lambda>fs. take i fs @ offsets d ls @ drop (i + length ls) fs) fr)"
  using assms
proof (induction ls arbitrary: i d fr)
  case (Cons l ls)
  have sz: "sz ! i = int l" "take (length ls) (drop (Suc i) sz) = map int ls" "i < length sz"
    using Cons.prems(1,2) by (auto simp: Cons_nth_drop_Suc [symmetric])
  show ?case
  proof (cases fr)
    case None
    then show ?thesis using Cons.IH [of "Suc i" None "d + l"] sz Cons.prems(2)
      by (simp add: upt_Suc_Cons nat_int_add algebra_simps del: upt_Suc)
  next
    case (Some fs)
    then have fs: "i < length fs" "Suc i + length ls \<le> length (fs[i := d])" using Cons.prems(3) by simp_all
    then show ?thesis using Cons.IH [of "Suc i" "Some (fs[i := d])" "d + l"] sz Cons.prems(2) Some
      by (simp add: upt_Suc_Cons nat_int_add wr_def take_Suc_update algebra_simps del: upt_Suc)
  qed
qed (auto split: option.splits)

lemma count_byte_parts:
  assumes "n < 64"
  shows "unat (count_byte n v p AND 0x3F) = n" "count_byte n v p AND 0x80 = 0 \<longleftrightarrow> \<not> v" "count_byte n v p AND 0x40 = 0 \<longleftrightarrow> \<not> p"
proof -
  define j :: nat where "j = (if v then 2 else 0) + (if p then 1 else 0)"
  have "j < 4" "odd (j div 2) \<longleftrightarrow> v" "odd j \<longleftrightarrow> p" by (simp_all add: j_def)
  then have u: "n + 64 * j < 256" "odd ((n + 64 * j) div 128) \<longleftrightarrow> v" "odd ((n + 64 * j) div 64) \<longleftrightarrow> p"
    using assms div_mult2_eq [of "n + 64 * j" 64 2] by simp_all
  have "n + (if v then 128 else 0) + (if p then 64 else 0) = n + 64 * j" by (simp add: j_def)
  then have "unat (count_byte n v p) = n + 64 * j" unfolding count_byte_def using u(1) by (simp only: unat_small_byte)
  then show "unat (count_byte n v p AND 0x3F) = n" "count_byte n v p AND 0x80 = 0 \<longleftrightarrow> \<not> v" "count_byte n v p AND 0x40 = 0 \<longleftrightarrow> \<not> p"
    using u assms by (simp_all add: byte_parts byte_tests bit_unat)
qed

lemma parse_last_plain:
  assumes "l \<le> 1275" and "0 < n" and "n \<le> length sz"
  shows "parse_last m d len False n cbr (int l) sz = Some (Inr (d, sz[n - 1 := int l]))"
  using assms by (simp add: parse_last_def int16_small wr_def)

lemma parse_last_delimited:
  assumes "lies m d (size_bytes l)" and "l \<le> 1275" and "int (length (size_bytes l) + (if cbr then n * l else l)) \<le> len"
    and "cbr \<or> int (length (size_bytes l) + l) \<le> last_size" and "0 < n" and "n \<le> length sz"
  shows "parse_last m d len True n cbr last_size sz =
    Some (Inr (d + length (size_bytes l), if cbr then replicate n (int l) @ drop n sz else sz[n - 1 := int l]))"
proof -
  have "l \<le> (if cbr then n * l else l)" using assms(5) by (cases cbr) simp_all
  then have room: "int (length (size_bytes l)) + int l \<le> len" using assms(3) by linarith
  then have "parse_size m d len = Some (int (length (size_bytes l)), int l)"
    using assms by (intro parse_size_lies) simp_all
  moreover have "replicate (n - 1) (int l) @ drop (n - 1) (sz[n - 1 := int l]) = replicate n (int l) @ drop n sz"
    using assms(5,6) by (cases n) (simp_all add: Cons_nth_drop_Suc [symmetric] drop_update_swap replicate_append_same [symmetric])
  moreover have "cbr \<Longrightarrow> int l * int n \<le> len - int (length (size_bytes l))" using assms(3) by (simp add: mult.commute)
  ultimately show ?thesis using assms(2,4-6) room by (auto simp: parse_last_def wr_def set_sizes_eq)
qed

fun constant_rate :: "framing \<Rightarrow> bool" where
  "constant_rate TwoEqual = True"
| "constant_rate (Many vbr pad) = (\<not> vbr)"
| "constant_rate fm = False"

lemma all_equal_replicate: "all_equal ls \<Longrightarrow> ls = replicate (length ls) (last ls)"
  by (rule replicate_eqI) (auto simp: all_equal_def, metis empty_iff last_in_set list.set(1))

lemma map_all_equal:
  assumes "all_equal ls"
  shows "map int ls = replicate (length ls) (int (last ls))" "map int (butlast ls) = replicate (length ls - 1) (int (last ls))"
proof -
  obtain n l where ls: "ls = replicate n l" using all_equal_replicate [OF assms] by blast
  then have "butlast ls = replicate (n - 1) l" by (simp add: butlast_conv_take take_replicate)
  then show "map int ls = replicate (length ls) (int (last ls))" "map int (butlast ls) = replicate (length ls - 1) (int (last ls))"
    using ls by (cases n; simp)+
qed

lemma sum_all_equal: "all_equal ls \<Longrightarrow> sum_list ls = length ls * last ls"
  using trans [OF arg_cong [where f = sum_list, OF all_equal_replicate] sum_list_replicate, of ls] by simp

lemma sum_butlast: "ls \<noteq> [] \<Longrightarrow> sum_list (ls :: nat list) = sum_list (butlast ls) + last ls"
  by (induction ls) auto

lemma form_ok_length: "form_ok fm c ls \<Longrightarrow> ls \<noteq> [] \<and> length ls \<le> 48"
proof (cases fm)
  case (Many vbr pad)
  assume "form_ok fm c ls"
  then have "length ls * frame_samples c \<le> 5760" "ls \<noteq> []" by (simp_all add: Many)
  moreover have "length ls * 120 \<le> length ls * frame_samples c" by (rule mult_le_mono2, rule samples_at(3) [of "[c]" 0 c]) simp
  ultimately show ?thesis by linarith
qed auto

text \<open>What the switch leaves for the rest of the parser.\<close>

definition coded :: "framing \<Rightarrow> bool \<Rightarrow> nat list \<Rightarrow> int list \<Rightarrow> int \<Rightarrow> int list \<Rightarrow> bool" where
  "coded fm sd ls sz last_size sz' \<longleftrightarrow>
     length sz' = length sz \<and> drop (length ls - 1) sz' = drop (length ls - 1) sz \<and>
     (\<not> sd \<longrightarrow> last_size = int (last ls)) \<and>
     (sd \<and> \<not> constant_rate fm \<longrightarrow> int (length (size_bytes (last ls)) + last ls) \<le> last_size) \<and>
     (\<not> (sd \<and> constant_rate fm) \<longrightarrow> take (length ls - 1) sz' = map int (butlast ls))"

lemma parse_code_lies:
  assumes "framing_ok fm c ls" and "lies m d (header fm ls)" and "length ls \<le> length sz"
    and "let n = int (length (header fm ls) + (if sd then length (size_bytes (last ls)) else 0) + sum_list ls + pad_bytes fm)
      in if sd then n \<le> len else n = len"
  shows "\<exists>last_size sz'. parse_code m d len sd c (int (frame_samples c)) sz =
      Some (Inr (d + length (header fm ls), len - int (length (header fm ls) + pad_bytes fm), length ls, constant_rate fm,
        last_size, int (pad_bytes fm), sz')) \<and> coded fm sd ls sz last_size sz'"
proof (cases fm)
  case One
  then obtain l where "ls = [l]" using assms(1) by (auto simp: framing_ok_def length_Suc_conv)
  then show ?thesis using assms One by (auto simp: framing_ok_def parse_code_def coded_def)
next
  case TwoEqual
  then obtain l where "ls = [l, l]" using assms(1) by (auto simp: framing_ok_def length_Suc_conv all_equal_def numeral_2_eq_2)
  then show ?thesis using assms TwoEqual
    by (cases sd; cases sz) (auto simp: framing_ok_def parse_code_def coded_def int16_small wr_def)
next
  case Two
  then obtain l k where ls: "ls = [l, k]" using assms(1) by (auto simp: framing_ok_def length_Suc_conv numeral_2_eq_2)
  have "parse_size m d len = Some (int (length (size_bytes l)), int l)"
    using assms Two ls by (intro parse_size_lies) (auto simp: framing_ok_def Let_def split: if_splits)
  then show ?thesis using assms Two ls
    by (cases sz) (auto simp: framing_ok_def parse_code_def coded_def wr_def Let_def split: if_splits)
next
  case (Many vbr pad)
  let ?n = "length ls" and ?p = "length (pad_code pad)" and ?q = "pad_bytes (Many vbr pad)"
  have ok: "c AND 3 = 3" "\<forall>l \<in> set ls. l \<le> 1275" "ls \<noteq> []" "?n * frame_samples c \<le> 5760" "\<not> vbr \<longrightarrow> all_equal ls" "?n < 64"
    using assms(1) form_ok_length [of fm c ls] by (auto simp: framing_ok_def Many)
  define ch where "ch = count_byte ?n vbr (pad \<noteq> None)"
  define d' where "d' = Suc d + ?p"
  define L where "L = len - 1 - int (?p + ?q)"
  have at: "rd m d = Some ch" "lies m (Suc d) (pad_code pad)" "lies m d' (if vbr then sizes (butlast ls) else [])"
    using assms(2) by (simp_all add: Many ch_def d'_def sizes_def split: if_splits)
  have len: "int (length (if vbr then sizes (butlast ls) else []) + (if sd then length (size_bytes (last ls)) else 0) + sum_list ls) \<le> L"
    "\<not> sd \<longrightarrow> L = int (length (if vbr then sizes (butlast ls) else []) + sum_list ls)"
    using assms(4) unfolding Many Let_def L_def by (cases sd; cases vbr; simp add: sizes_def)+
  have count: "unat (ch AND 0x3F) = ?n" "ch AND 0x80 = 0 \<longleftrightarrow> \<not> vbr"
    using count_byte_parts [OF ok(6)] by (simp_all add: ch_def)
  then have count': "uint (ch AND 0x3F) = int ?n" by (simp only: uint_nat)
  have padding: "(if ch AND 0x40 \<noteq> 0 then parse_padding m (Suc d) (len - 1) 0 else Some (Inr (Suc d, len - 1, 0))) =
      Some (Inr (d', L, int ?q))"
  proof (cases pad)
    case None
    then show ?thesis using count_byte_parts(3) [OF ok(6)] by (simp add: ch_def d'_def L_def)
  next
    case (Some kb)
    then obtain k b where kb: "pad = Some (k, b)" "b \<le> 254" using assms(1) by (cases kb) (auto simp: framing_ok_def Many)
    have "int (255 * k + 1 + b) \<le> len - 1" using len(1) kb(1) by (simp add: L_def)
    then show ?thesis using parse_padding_lies [OF at(2) [unfolded kb(1)] kb(2)] count_byte_parts(3) [OF ok(6)] kb(1)
      by (simp add: ch_def d'_def L_def algebra_simps)
  qed
  have fs: "\<not> 5760 < int (frame_samples c) * int ?n" using ok(4) by (simp add: mult.commute flip: of_nat_mult)
  have sum: "sum_list ls = sum_list (butlast ls) + last ls" using ok(3) by (rule sum_butlast)
  define q where "q = ?q"
  have "0 \<le> L" "1 \<le> len" using len(1) by (simp_all add: L_def)
  then have parse: "parse_code m d len sd c (int (frame_samples c)) sz =
      (if vbr
       then do { r \<leftarrow> parse_sizes m [0 ..< ?n - 1] d' L L sz;
                 (case r of Inl sz \<Rightarrow> Some (Inl (OPUS_INVALID_PACKET, sz))
                  | Inr (data, len', last_size, sz) \<Rightarrow>
                      if last_size < 0 then Some (Inl (OPUS_INVALID_PACKET, sz))
                      else Some (Inr (data, len', ?n, False, last_size, int ?q, sz))) }
       else if sd then Some (Inr (d', L, ?n, True, len, int ?q, sz))
       else if L div int ?n * int ?n \<noteq> L then Some (Inl (OPUS_INVALID_PACKET, sz))
       else do { sz \<leftarrow> set_sizes (?n - 1) (int16 (L div int ?n)) sz;
                 Some (Inr (d', L, ?n, True, L div int ?n, int ?q, sz)) })"
    using ok(1,3) padding unfolding q_def [symmetric]
    by (cases "ch AND 0x40 = 0") (simp_all add: parse_code_def at(1) count count' fs Let_def cong: sum.case_cong prod.case_cong if_cong)
  have end1: "len - int (length (header fm ls) + pad_bytes fm) = L - int (length (if vbr then sizes (butlast ls) else []))"
    "d + length (header fm ls) = d' + length (if vbr then sizes (butlast ls) else [])"
    by (simp_all add: Many L_def d'_def sizes_def)
  show ?thesis
  proof (cases vbr)
    case True
    have "parse_sizes m [0 ..< 0 + length (butlast ls)] d' L L sz =
        Some (Inr (d' + length (sizes (butlast ls)), L - int (length (sizes (butlast ls))),
          L - int (length (sizes (butlast ls)) + sum_list (butlast ls)),
          take 0 sz @ map int (butlast ls) @ drop (0 + length (butlast ls)) sz))"
      using assms(3) at(3) len(1) True sum ok(2) by (intro parse_sizes_lies) (auto dest: in_set_butlastD)
    then show ?thesis
      using True assms(3) len sum unfolding end1 parse by (cases sd) (simp_all add: Many coded_def q_def)
  next
    case False
    have eq: "sum_list ls = ?n * last ls" "ls = replicate ?n (last ls)"
      using ok(5) False sum_all_equal all_equal_replicate by simp_all
    show ?thesis
    proof (cases sd)
      case True
      then show ?thesis using False unfolding end1 parse by (simp add: Many coded_def q_def)
    next
      case sd: False
      have l: "L = int (last ls) * int ?n" using len(2) False sd eq(1) by (simp add: mult.commute)
      have bl: "map int (butlast ls) = replicate (?n - 1) (int (last ls))"
        using ok(5) False map_all_equal(2) by blast
      have "last ls \<le> 1275" using ok(2,3) by simp
      then show ?thesis using False sd assms(3) ok(3)
        unfolding end1 parse by (simp add: Many coded_def l bl set_sizes_eq int16_small q_def)
    qed
  qed
qed

lemma drop_more: "drop (n - 1) xs = drop (n - 1) ys \<Longrightarrow> drop n xs = drop n ys"
  by (cases n) (auto dest: arg_cong [where f = "drop 1"])

lemma coded_update:
  assumes "take (length ls - 1) sz' = map int (butlast ls)" and "drop (length ls - 1) sz' = drop (length ls - 1) sz"
    and "length sz' = length sz" and "ls \<noteq> []" and "length ls \<le> length sz"
  shows "sz'[length ls - 1 := int (last ls)] = map int ls @ drop (length ls) sz"
proof -
  let ?n = "length ls - 1"
  have "?n < length sz'" "Suc ?n = length ls" using assms(3-5) by (cases ls; simp)+
  then have "sz'[?n := int (last ls)] = take ?n sz' @ int (last ls) # drop (length ls) sz'"
    by (metis upd_conv_take_nth_drop)
  moreover have "drop (length ls) sz' = drop (length ls) sz"
    by (rule drop_more) (rule assms(2))
  moreover have "map int ls = map int (butlast ls) @ [int (last ls)]"
    using assms(4) by (metis append_butlast_last_id list.simps(8,9) map_append)
  ultimately show ?thesis using assms(1) by simp
qed

lemma code_rate: "form_ok fm c ls \<Longrightarrow> constant_rate fm \<Longrightarrow> all_equal ls"
  by (cases fm) auto

lemma parse_framed:
  assumes "framed m d len sd fm c ls" and "length ls \<le> length sz" and "case fr of None \<Rightarrow> True | Some fs \<Rightarrow> length ls \<le> length fs"
  shows "opus_packet_parse_impl m d len sd fr (Some sz) =
    Some (int (length ls), map int ls @ drop (length ls) sz,
      map_option (\<lambda>fs. offsets (d + length (lead fm c sd ls)) ls @ drop (length ls) fs) fr,
      Some (c, int (length (lead fm c sd ls)), int (length (lead fm c sd ls) + sum_list ls + pad_bytes fm)))"
proof -
  let ?n = "length ls" and ?h = "length (header fm ls)" and ?s = "if sd then size_bytes (last ls) else []"
  have ok: "framing_ok fm c ls" "form_ok fm c ls" "ls \<noteq> []" "last ls \<le> 1275"
    using assms(1) form_ok_length [of fm c ls] by (auto simp: framed_def framing_ok_def)
  have at: "rd m d = Some c" "lies m (Suc d) (header fm ls)" "lies m (Suc d + ?h) ?s"
    using assms(1) by (simp_all add: framed_def lead_def)
  have total: "let n = int (?h + length ?s + sum_list ls + pad_bytes fm) in if sd then n \<le> len - 1 else n = len - 1"
    using assms(1) by (auto simp: framed_def lead_def Let_def split: if_splits)
  then have "let n = int (?h + (if sd then length (size_bytes (last ls)) else 0) + sum_list ls + pad_bytes fm) in if sd then n \<le> len - 1 else n = len - 1"
    by (simp split: if_splits)
  from parse_code_lies [OF ok(1) at(2) assms(2) this] obtain last_size sz' where
    code: "parse_code m (Suc d) (len - 1) sd c (int (frame_samples c)) sz =
      Some (Inr (Suc d + ?h, len - 1 - int (?h + pad_bytes fm), ?n, constant_rate fm, last_size, int (pad_bytes fm), sz'))"
    and coded: "coded fm sd ls sz last_size sz'" by blast
  have n: "0 < ?n" "?n \<le> length sz'" using ok(3) assms(2) coded by (simp_all add: coded_def)
  have last: "parse_last m (Suc d + ?h) (len - 1 - int (?h + pad_bytes fm)) sd ?n (constant_rate fm) last_size sz' =
      Some (Inr (d + length (lead fm c sd ls), map int ls @ drop ?n sz))"
  proof (cases sd)
    case False
    then show ?thesis using parse_last_plain [OF ok(4) n] coded coded_update [OF _ _ _ ok(3) assms(2)]
      by (simp add: coded_def lead_def)
  next
    case True
    have "(if constant_rate fm then ?n * last ls else last ls) \<le> sum_list ls"
      using sum_butlast [OF ok(3)] sum_all_equal [OF code_rate [OF ok(2)]] by (cases "constant_rate fm") simp_all
    then have room: "int (length (size_bytes (last ls)) + (if constant_rate fm then ?n * last ls else last ls)) \<le> len - 1 - int (?h + pad_bytes fm)"
      using total True unfolding Let_def by (simp only: if_True)
    have at': "lies m (Suc d + ?h) (size_bytes (last ls))" using at(3) True by simp
    note last = parse_last_delimited [OF at' ok(4) room _ n, of last_size]
    show ?thesis
    proof (cases "constant_rate fm")
      case rate: True
      have "map int ls = replicate ?n (int (last ls))" by (rule map_all_equal [OF code_rate [OF ok(2) rate]])
      then have "map int ls @ drop ?n sz = replicate ?n (int (last ls)) @ drop ?n sz'"
        using coded drop_more [of ?n sz' sz] by (simp only: coded_def simp_thms)
      moreover have "d + length (lead fm c sd ls) = Suc d + ?h + length (size_bytes (last ls))" using True by (simp add: lead_def)
      ultimately show ?thesis using last [unfolded rate, simplified] rate True by simp
    next
      case False
      then have "sz'[?n - 1 := int (last ls)] = map int ls @ drop ?n sz" "int (length (size_bytes (last ls)) + last ls) \<le> last_size"
        using coded coded_update [OF _ _ _ ok(3) assms(2)] True by (simp_all add: coded_def)
      moreover have "length (lead fm c sd ls) = Suc (?h + length (size_bytes (last ls)))" using True by (simp add: lead_def)
      ultimately show ?thesis using last False True by (simp only: simp_thms if_False) simp
    qed
  qed
  have place: "place_frames [0 ..< ?n] (d + length (lead fm c sd ls)) (map int ls @ drop ?n sz) fr =
      Some (d + length (lead fm c sd ls) + sum_list ls, map_option (\<lambda>fs. offsets (d + length (lead fm c sd ls)) ls @ drop ?n fs) fr)"
    using place_frames_eq [of ls 0 "map int ls @ drop ?n sz" fr] assms(3) by (cases fr) simp_all
  have "\<not> len < 0" "len \<noteq> 0" using total by (auto simp: Let_def split: if_splits)
  then show ?thesis
    using samples_at(1) [OF at(1)] at(1) code last place by (simp add: opus_packet_parse_impl_def)
qed

section \<open>Only packets of the format are accepted\<close>

lemma code_cases: "c AND 3 = 0 \<or> c AND 3 = 1 \<or> c AND 3 = 2 \<or> c AND 3 = (3 :: 8 word)"
proof -
  have "unat (c AND 3) < 4" by (simp add: byte_parts)
  then have "unat (c AND 3) \<in> {0, 1, 2, 3}" by auto
  then show ?thesis by (auto simp: word_unat_eq_iff)
qed

text \<open>The sizes of the frames when the last one is \<open>x\<close>; \<open>ks\<close> are those the header gives.\<close>

definition with_last :: "framing \<Rightarrow> nat list \<Rightarrow> nat \<Rightarrow> nat list" where
  "with_last fm ks x = (if constant_rate fm then replicate (Suc (length ks)) x else ks @ [x])"

definition decoded :: "mem \<Rightarrow> nat \<Rightarrow> int \<Rightarrow> bool \<Rightarrow> 8 word \<Rightarrow> int list \<Rightarrow> framing \<Rightarrow> mem \<Rightarrow> nat list \<Rightarrow> int \<Rightarrow> int \<Rightarrow> int list \<Rightarrow> bool" where
  "decoded m d len sd c sz fm h ks L last_size sz' \<longleftrightarrow>
     parse_code m d len sd c (int (frame_samples c)) sz =
       Some (Inr (d + length h, L, Suc (length ks), constant_rate fm, last_size, int (pad_bytes fm), sz')) \<and>
     c AND 3 = code fm \<and> lies m d h \<and> (\<forall>k \<in> set ks. k \<le> 1275) \<and> length sz' = length sz \<and>
     length ks < length sz \<and> length ks < 48 \<and>
     (\<forall>x. form_ok fm c (with_last fm ks x) \<and> header fm (with_last fm ks x) = h) \<and>
     L = len - int (length h + pad_bytes fm) \<and> 0 \<le> L \<and>
     (if constant_rate fm then \<not> sd \<longrightarrow> last_size * int (Suc (length ks)) = L
      else last_size = L - int (sum_list ks) \<and> 0 \<le> last_size)"

text \<open>How many places the arrays need: those of the frames the first bytes announce, where the parser gets to use them.\<close>

definition enough :: "mem \<Rightarrow> nat \<Rightarrow> 8 word \<Rightarrow> nat \<Rightarrow> bool" where
  "enough m d c n \<longleftrightarrow>
     (if c AND 3 = 3 then \<forall>ch. rd m d = Some ch \<longrightarrow> unat (ch AND 0x3F) \<le> 48 \<longrightarrow> unat (ch AND 0x3F) \<le> n
      else if c AND 3 = 0 then 1 \<le> n else 2 \<le> n)"

definition rejected :: "(int \<times> int list + 'a) option \<Rightarrow> int list \<Rightarrow> bool" where
  "rejected r sz \<longleftrightarrow> (\<exists>sz'. r = Some (Inl (OPUS_INVALID_PACKET, sz')) \<and> length sz' = length sz)"

lemma decodedI: "decoded m d len sd c sz fm h ks L last_size sz' \<Longrightarrow> \<exists>fm h ks L last_size sz'. decoded m d len sd c sz fm h ks L last_size sz'"
  by blast

lemma all_equal_same [simp]: "all_equal (replicate n x)"
  by (cases n) (simp_all add: all_equal_def)

lemma parse_code_short:
  assumes "int d + len \<le> int (length m)" and "0 \<le> len" and "enough m d c (length sz)" and "c AND 3 \<noteq> 3"
  shows "rejected (parse_code m d len sd c (int (frame_samples c)) sz) sz \<or>
    (\<exists>fm h ks L last_size sz'. decoded m d len sd c sz fm h ks L last_size sz')"
proof -
  have size: "0 < length sz" "c AND 3 \<noteq> 0 \<Longrightarrow> 1 < length sz" using assms(3,4) by (auto simp: enough_def split: if_splits)
  then have sz: "wr sz 0 x = Some (sz[0 := x])" for x by (simp add: wr_def)
  have d: "d \<le> length m" using assms(1,2) by linarith
  consider "c AND 3 = 0" | "c AND 3 = 1" | "c AND 3 = 2" using code_cases [of c] assms(4) by blast
  then show ?thesis
  proof cases
    case 1
    have "decoded m d len sd c sz One [] [] len len sz"
      using 1 assms(2) d size(1) by (simp add: decoded_def parse_code_def with_last_def)
    then show ?thesis by (blast intro: decodedI)
  next
    case 2
    show ?thesis
    proof (cases "\<not> sd \<and> len mod 2 = 1")
      case True
      then show ?thesis using 2 by (simp add: rejected_def parse_code_def)
    next
      case False
      then have "decoded m d len sd c sz TwoEqual [] [0] len (if sd then len else len div 2) (if sd then sz else sz[0 := int16 (len div 2)])"
        using 2 assms(2) d size by (auto simp: decoded_def parse_code_def with_last_def sz numeral_2_eq_2 [symmetric])
      then show ?thesis by (blast intro: decodedI)
    qed
  next
    case 3
    show ?thesis
    proof (rule parse_size_cases [OF assms(1)])
      fix l assume l: "l \<le> 1275" "lies m d (size_bytes l)" "int (length (size_bytes l)) \<le> len"
        "parse_size m d len = Some (int (length (size_bytes l)), int l)"
      show ?thesis
      proof (cases "int l > len - int (length (size_bytes l))")
        case True
        then show ?thesis using 3 l by (simp add: rejected_def parse_code_def sz)
      next
        case False
        then have "decoded m d len sd c sz Two (size_bytes l) [l] (len - int (length (size_bytes l)))
            (len - int (length (size_bytes l)) - int l) (sz[0 := int l])"
          using 3 l size by (simp add: decoded_def parse_code_def with_last_def sz)
        then show ?thesis by (blast intro: decodedI)
      qed
    next
      assume "parse_size m d len = Some (- 1, - 1)"
      then show ?thesis using 3 by (simp add: rejected_def parse_code_def sz)
    qed
  qed
qed

lemma count_byte_ch: "count_byte (unat (ch AND 0x3F)) (ch AND 0x80 \<noteq> 0) (ch AND 0x40 \<noteq> 0) = ch"
proof -
  define j where "j = unat ch div 64"
  have "j < 4" using byte_less [of ch] by (simp add: j_def)
  then have "j \<in> {0, 1, 2, 3}" by auto
  then have "64 * j = (if odd (j div 2) then 128 else 0) + (if odd j then 64 else 0)" by auto
  moreover have "unat ch = unat ch mod 64 + 64 * j" by (simp add: j_def)
  ultimately have "unat ch mod 64 + (if odd (j div 2) then 128 else 0) + (if odd j then 64 else 0) = unat ch" by linarith
  moreover have "unat ch div 128 = j div 2" by (simp add: j_def div_mult2_eq [symmetric])
  ultimately show ?thesis by (simp add: count_byte_def byte_parts byte_tests bit_unat j_def)
qed

lemma padding_cases:
  assumes "int d + len \<le> int (length m)" and "0 \<le> len"
  obtains "(if P then parse_padding m d len 0 else Some (Inr (d, len, 0))) = Some (Inl OPUS_INVALID_PACKET)"
  | pad where "pad \<noteq> None \<longleftrightarrow> P" "lies m d (pad_code pad)" "case pad of None \<Rightarrow> True | Some (k, b) \<Rightarrow> b \<le> 254"
    "(if P then parse_padding m d len 0 else Some (Inr (d, len, 0))) =
      Some (Inr (d + length (pad_code pad), len - int (length (pad_code pad) + pad_bytes (Many v pad)), int (pad_bytes (Many v pad))))"
proof (cases P)
  case True
  from parse_padding_cases [OF assms(1), of 0] show ?thesis
  proof (elim disjE exE conjE)
    fix k b assume "b \<le> 254" "lies m d (pad_code (Some (k, b)))"
      "parse_padding m d len 0 = Some (Inr (d + k + 1, len - int (255 * k + 1 + b), 0 + int (254 * k + b)))"
    then show ?thesis using True by (intro that(2) [of "Some (k, b)"]) (simp_all add: algebra_simps)
  qed (use True that(1) in simp)
next
  case False
  have "d \<le> length m" using assms by linarith
  then show ?thesis using False by (intro that(2) [of None]) simp_all
qed

lemma parse_code_many:
  assumes "int d + len \<le> int (length m)" and "0 \<le> len" and "enough m d c (length sz)" and c: "c AND 3 = 3"
  shows "rejected (parse_code m d len sd c (int (frame_samples c)) sz) sz \<or>
    (\<exists>fm h ks L last_size sz'. decoded m d len sd c sz fm h ks L last_size sz')"
proof (cases "len < 1")
  case True
  then show ?thesis using c by (simp add: rejected_def parse_code_def)
next
  case False
  define ch where "ch = m ! d"
  define n where "n = unat (ch AND 0x3F)"
  have d: "d < length m" "rd m d = Some ch" using False assms(1) by (simp_all add: ch_def)
  have count: "uint (ch AND 0x3F) = int n" by (simp add: n_def)
  show ?thesis
  proof (cases "n = 0 \<or> 5760 < int (frame_samples c) * int n")
    case True
    then show ?thesis using c False d by (auto simp: rejected_def parse_code_def Let_def n_def)
  next
    case fs: False
    then have room: "n * frame_samples c \<le> 5760" by (simp add: mult.commute flip: of_nat_mult)
    have "n * 120 \<le> n * frame_samples c" by (rule mult_le_mono2, rule samples_at(3) [of "[c]" 0 c]) simp
    then have n: "0 < n" "n \<le> 48" using room fs by linarith+
    then have size: "n \<le> length sz" "n - Suc 0 < length sz" using assms(3) c d(2) by (simp_all add: enough_def n_def)
    have pre: "int (Suc d) + (len - 1) \<le> int (length m)" "0 \<le> len - 1" using assms(1) False by simp_all
    define v where "v \<longleftrightarrow> ch AND 0x80 \<noteq> 0"
    show ?thesis
    proof (rule padding_cases [OF pre, where P = "ch AND 0x40 \<noteq> 0" and v = v])
      assume "(if ch AND 0x40 \<noteq> 0 then parse_padding m (Suc d) (len - 1) 0 else Some (Inr (Suc d, len - 1, 0))) = Some (Inl OPUS_INVALID_PACKET)"
      then show ?thesis using c False d fs by (auto simp: rejected_def parse_code_def Let_def n_def split: if_splits)
    next
      fix pad
      assume pad: "pad \<noteq> None \<longleftrightarrow> ch AND 0x40 \<noteq> 0" "lies m (Suc d) (pad_code pad)" "case pad of None \<Rightarrow> True | Some (k, b) \<Rightarrow> b \<le> 254"
        "(if ch AND 0x40 \<noteq> 0 then parse_padding m (Suc d) (len - 1) 0 else Some (Inr (Suc d, len - 1, 0))) =
          Some (Inr (Suc d + length (pad_code pad), len - 1 - int (length (pad_code pad) + pad_bytes (Many v pad)), int (pad_bytes (Many v pad))))"
      define d' where "d' = Suc d + length (pad_code pad)"
      define L where "L = len - 1 - int (length (pad_code pad) + pad_bytes (Many v pad))"
      define q where "q = pad_bytes (Many v pad)"
      have padding: "(if ch AND 0x40 \<noteq> 0 then parse_padding m (Suc d) (len - 1) 0 else Some (Inr (Suc d, len - 1, 0))) =
          Some (Inr (d', L, int q))"
        unfolding d'_def L_def q_def by (rule pad(4))
      have ch: "count_byte n v (pad \<noteq> None) = ch" using count_byte_ch [of ch] pad(1) by (simp add: n_def v_def)
      have parse: "parse_code m d len sd c (int (frame_samples c)) sz =
          (if L < 0 then Some (Inl (OPUS_INVALID_PACKET, sz))
           else if v
           then do { r \<leftarrow> parse_sizes m [0 ..< n - 1] d' L L sz;
                     (case r of Inl sz \<Rightarrow> Some (Inl (OPUS_INVALID_PACKET, sz))
                      | Inr (data, len', last_size, sz) \<Rightarrow>
                          if last_size < 0 then Some (Inl (OPUS_INVALID_PACKET, sz))
                          else Some (Inr (data, len', n, False, last_size, int q, sz))) }
           else if sd then Some (Inr (d', L, n, True, len, int q, sz))
           else if L div int n * int n \<noteq> L then Some (Inl (OPUS_INVALID_PACKET, sz))
           else do { sz \<leftarrow> set_sizes (n - 1) (int16 (L div int n)) sz;
                     Some (Inr (d', L, n, True, L div int n, int q, sz)) })"
        using c False fs padding
        by (cases "ch AND 0x40 = 0")
          (simp_all add: parse_code_def d(2) count n_def [symmetric] v_def Let_def cong: sum.case_cong prod.case_cong if_cong)
      show ?thesis
      proof (cases "L < 0")
        case True
        then show ?thesis by (simp add: parse rejected_def)
      next
        case L: False
        have at: "lies m d (ch # pad_code pad)" using d(2) pad(2) by simp
        have d': "int d' + L \<le> int (length m)" "d' \<le> length m" using pre(1) lies_bound [OF pad(2)] by (simp_all add: d'_def L_def)
        show ?thesis
        proof (cases v)
          case True
          have "0 + (n - 1) \<le> length sz" "0 \<le> L" using n size L by simp_all
          from parse_sizes_cases [OF d'(1) this, of L] show ?thesis
          proof (elim disjE exE conjE)
            fix sz' assume "parse_sizes m [0 ..< 0 + (n - 1)] d' L L sz = Some (Inl sz')" "length sz' = length sz"
            then show ?thesis using L True by (simp add: parse rejected_def)
          next
            fix ks assume ks: "length ks = n - 1" "lies m d' (sizes ks)" "\<forall>l \<in> set ks. l \<le> 1275" "int (length (sizes ks)) \<le> L"
              "parse_sizes m [0 ..< 0 + (n - 1)] d' L L sz =
                Some (Inr (d' + length (sizes ks), L - int (length (sizes ks)), L - int (length (sizes ks) + sum_list ks),
                  take 0 sz @ map int ks @ drop (0 + (n - 1)) sz))"
            show ?thesis
            proof (cases "L - int (length (sizes ks) + sum_list ks) < 0")
              case True
              then show ?thesis using L \<open>v\<close> ks(1,5) n size by (simp add: parse rejected_def)
            next
              case False
              have "n = Suc (length ks)" using ks(1) n by simp
              then have "decoded m d len sd c sz (Many True pad) (ch # pad_code pad @ sizes ks) ks (L - int (length (sizes ks)))
                  (L - int (length (sizes ks) + sum_list ks)) (map int ks @ drop (n - 1) sz)"
                using False L \<open>v\<close> ks(2-5) at c n size room pad(3) ch
                by (simp add: decoded_def with_last_def parse) (simp add: d'_def L_def q_def sizes_def)
              then show ?thesis by (blast intro: decodedI)
            qed
          qed
        next
          case False
          show ?thesis
          proof (cases "sd \<or> L div int n * int n = L")
            case True
            have "n - Suc 0 < 48" using n by simp
            with True have "decoded m d len sd c sz (Many False pad) (ch # pad_code pad) (replicate (n - 1) 0) L
                (if sd then len else L div int n) (if sd then sz else replicate (n - 1) (int16 (L div int n)) @ drop (n - 1) sz)"
              using False L at c n size room pad(3) ch
              by (simp add: decoded_def with_last_def parse set_sizes_eq) (auto simp: d'_def L_def q_def)
            then show ?thesis by (blast intro: decodedI)
          next
            case F: False
            then show ?thesis using False L unfolding rejected_def parse by simp
          qed
        qed
      qed
    qed
  qed
qed

lemma parse_code_cases:
  assumes "int d + len \<le> int (length m)" and "0 \<le> len" and "enough m d c (length sz)"
  shows "rejected (parse_code m d len sd c (int (frame_samples c)) sz) sz \<or>
    (\<exists>fm h ks L last_size sz'. decoded m d len sd c sz fm h ks L last_size sz')"
  using parse_code_short [OF assms] parse_code_many [OF assms] by blast

lemma sum_with_last: "sum_list (with_last fm ks x) = (if constant_rate fm then Suc (length ks) * x else sum_list ks + x)"
  by (simp add: with_last_def sum_list_replicate)

lemma last_with_last [simp]: "last (with_last fm ks x) = x"
  by (simp add: with_last_def last_replicate)

lemma parse_last_cases:
  assumes dec: "decoded m d len sd c sz fm h ks L last_size sz'" and "int d + len \<le> int (length m)"
  defines "r \<equiv> parse_last m (d + length h) L sd (Suc (length ks)) (constant_rate fm) last_size sz'"
  shows "rejected r sz' \<or>
    (\<exists>x. x \<le> 1275 \<and> lies m (d + length h) (if sd then size_bytes x else []) \<and>
       (let n = int (length (if sd then size_bytes x else []) + sum_list (with_last fm ks x)) in if sd then n \<le> L else n = L))"
proof -
  have D: "lies m d h" "length sz' = length sz" "length ks < length sz" "L = len - int (length h + pad_bytes fm)" "0 \<le> L"
    "if constant_rate fm then \<not> sd \<longrightarrow> last_size * int (Suc (length ks)) = L else last_size = L - int (sum_list ks) \<and> 0 \<le> last_size"
    using dec unfolding decoded_def by blast+
  have sz: "wr sz' (length ks) x = Some (sz'[length ks := x])" for x using D(2,3) by (simp add: wr_def)
  have at: "d + length h \<le> length m" "int (d + length h) + L \<le> int (length m)" using lies_bound [OF D(1)] D(4) assms(2) by simp_all
  show ?thesis
  proof (cases sd)
    case False
    show ?thesis
    proof (cases "last_size > 1275")
      case True
      then show ?thesis using False by (simp add: r_def rejected_def parse_last_def)
    next
      case small: False
      have "0 \<le> last_size"
      proof (rule ccontr)
        assume neg: "\<not> 0 \<le> last_size"
        then have "last_size * int (Suc (length ks)) < 0" by (intro mult_neg_pos) simp_all
        then show False using D(5,6) False neg by (auto split: if_splits)
      qed
      then have x: "last_size = int (nat last_size)" "nat last_size \<le> 1275" using small by simp_all
      have "int (sum_list (with_last fm ks (nat last_size))) = L"
        using D(6) False x(1) by (auto simp: sum_with_last algebra_simps split: if_splits)
      then show ?thesis using x(2) False at(1) by (intro disjI2 exI [of _ "nat last_size"]) simp
    qed
  next
    case True
    show ?thesis
    proof (rule parse_size_cases [OF at(2)])
      assume "parse_size m (d + length h) L = Some (- 1, - 1)"
      then show ?thesis using True by (simp add: r_def rejected_def parse_last_def sz)
    next
      fix x assume x: "x \<le> 1275" "lies m (d + length h) (size_bytes x)" "int (length (size_bytes x)) \<le> L"
        "parse_size m (d + length h) L = Some (int (length (size_bytes x)), int x)"
      show ?thesis
      proof (cases "int (length (size_bytes x) + sum_list (with_last fm ks x)) \<le> L")
        case fits: True
        then show ?thesis using x True by (intro disjI2 exI [of _ x]) simp
      next
        case False
        then have "int x > L - int (length (size_bytes x)) \<or>
            (if constant_rate fm then int x * int (Suc (length ks)) > L - int (length (size_bytes x))
             else int (length (size_bytes x)) + int x > last_size)"
          using D(6) by (auto simp: sum_with_last algebra_simps split: if_splits)
        then show ?thesis using x(4) True
          by (cases "constant_rate fm") (auto simp: r_def rejected_def parse_last_def sz)
      qed
    qed
  qed
qed

lemma parse_rejects_or_framed:
  assumes "int d + len \<le> int (length m)" and "\<And>c. rd m d = Some c \<Longrightarrow> enough m (Suc d) c (length sz)"
  shows "(\<exists>fm c ls. framed m d len sd fm c ls) \<or>
    (\<exists>e sz'. opus_packet_parse_impl m d len sd fr (Some sz) = Some (e, sz', fr, None) \<and>
       e = (if len < 0 then OPUS_BAD_ARG else OPUS_INVALID_PACKET) \<and> length sz' = length sz)"
proof (cases "len \<le> 0")
  case True
  then show ?thesis by (auto simp: opus_packet_parse_impl_def)
next
  case False
  define c where "c = m ! d"
  have d: "rd m d = Some c" "int (Suc d) + (len - 1) \<le> int (length m)" "0 \<le> len - 1" using False assms(1) by (simp_all add: c_def)
  note defs = opus_packet_parse_impl_def d(1) samples_at(1) [OF d(1)] False
  from parse_code_cases [OF d(2,3) assms(2) [OF d(1)], of sd] show ?thesis
  proof (elim disjE exE)
    assume "rejected (parse_code m (Suc d) (len - 1) sd c (int (frame_samples c)) sz) sz"
    then show ?thesis using False by (auto simp: rejected_def defs)
  next
    fix fm h ks L last_size sz'
    assume dec: "decoded m (Suc d) (len - 1) sd c sz fm h ks L last_size sz'"
    then have D: "parse_code m (Suc d) (len - 1) sd c (int (frame_samples c)) sz =
        Some (Inr (Suc d + length h, L, Suc (length ks), constant_rate fm, last_size, int (pad_bytes fm), sz'))"
      "c AND 3 = code fm" "lies m (Suc d) h" "\<forall>k \<in> set ks. k \<le> 1275" "length sz' = length sz" "length ks < 48"
      "\<And>x. form_ok fm c (with_last fm ks x)" "\<And>x. header fm (with_last fm ks x) = h"
      "L = len - 1 - int (length h + pad_bytes fm)"
      by (simp_all add: decoded_def)
    from parse_last_cases [OF dec d(2)] show ?thesis
    proof (elim disjE exE conjE)
      assume "rejected (parse_last m (Suc d + length h) L sd (Suc (length ks)) (constant_rate fm) last_size sz') sz'"
      then show ?thesis using False D(1,5) by (auto simp: rejected_def defs)
    next
      fix x
      assume x: "x \<le> 1275" "lies m (Suc d + length h) (if sd then size_bytes x else [])"
        "let n = int (length (if sd then size_bytes x else []) + sum_list (with_last fm ks x)) in if sd then n \<le> L else n = L"
      have "framed m d len sd fm c (with_last fm ks x)"
        using x D d(1) by (auto simp: framed_def framing_ok_def lead_def Let_def with_last_def in_set_conv_nth split: if_splits)
      then show ?thesis by blast
    qed
  qed
qed

section \<open>The parser decides the format\<close>

text \<open>
  C11. On any bytes the parser touches nothing outside them and its arrays. It returns the number of
  frames, their sizes and places, the first byte, the offset of the first frame and the length of the
  packet exactly for the packets of the format, and for all other bytes a negative error, storing no
  pointer.
\<close>

theorem opus_parse_exact:
  assumes "int d + len \<le> int (length m)" and "48 \<le> length sz" and "48 \<le> length fs"
  shows "(\<forall>fm c ls. framed m d len sd fm c ls \<longrightarrow>
       1 \<le> length ls \<and> length ls \<le> 48 \<and> int (length (lead fm c sd ls) + sum_list ls + pad_bytes fm) \<le> len \<and>
       opus_packet_parse_impl m d len sd (Some fs) (Some sz) =
         Some (int (length ls), map int ls @ drop (length ls) sz,
           Some (offsets (d + length (lead fm c sd ls)) ls @ drop (length ls) fs),
           Some (c, int (length (lead fm c sd ls)), int (length (lead fm c sd ls) + sum_list ls + pad_bytes fm)))) \<and>
     ((\<nexists>fm c ls. framed m d len sd fm c ls) \<longrightarrow>
       (\<exists>e sz'. opus_packet_parse_impl m d len sd (Some fs) (Some sz) = Some (e, sz', Some fs, None) \<and>
          e < 0 \<and> length sz' = length sz))"
proof (intro conjI allI impI)
  fix fm c ls assume f: "framed m d len sd fm c ls"
  then have "form_ok fm c ls" by (simp add: framed_def framing_ok_def)
  from form_ok_length [OF this] show n: "1 \<le> length ls" "length ls \<le> 48" by (cases ls; simp)+
  show "int (length (lead fm c sd ls) + sum_list ls + pad_bytes fm) \<le> len" using f by (auto simp: framed_def Let_def split: if_splits)
  show "opus_packet_parse_impl m d len sd (Some fs) (Some sz) =
      Some (int (length ls), map int ls @ drop (length ls) sz,
        Some (offsets (d + length (lead fm c sd ls)) ls @ drop (length ls) fs),
        Some (c, int (length (lead fm c sd ls)), int (length (lead fm c sd ls) + sum_list ls + pad_bytes fm)))"
    using parse_framed [OF f, of sz "Some fs"] n assms by simp
next
  assume "\<nexists>fm c ls. framed m d len sd fm c ls"
  moreover have "enough m (Suc d) c (length sz)" for c using assms(2) by (simp add: enough_def)
  ultimately obtain e sz' where
    "opus_packet_parse_impl m d len sd (Some fs) (Some sz) = Some (e, sz', Some fs, None)"
    "e = (if len < 0 then OPUS_BAD_ARG else OPUS_INVALID_PACKET)" "length sz' = length sz"
    using parse_rejects_or_framed [OF assms(1), of sz sd "Some fs"] by blast
  then show "\<exists>e sz'. opus_packet_parse_impl m d len sd (Some fs) (Some sz) = Some (e, sz', Some fs, None) \<and> e < 0 \<and> length sz' = length sz"
    by (auto simp: OPUS_BAD_ARG_def OPUS_INVALID_PACKET_def)
qed

theorem opus_parse_exact_witness:
  "opus_packet_parse_impl [2, 1, 7, 8, 9] 0 5 False (Some (replicate 48 0)) (Some (replicate 48 0)) =
     Some (2, [1, 2] @ replicate 46 0, Some ([2, 3] @ replicate 46 0), Some (2, 2, 5))"
proof -
  have "framed [2, 1, 7, 8, 9] 0 5 False Two 2 [1, 2]"
    by (simp add: framed_def framing_ok_def lead_def size_bytes_def)
  then show ?thesis
    using opus_parse_exact [of 0 5 "[2, 1, 7, 8, 9]" "replicate 48 0" "replicate 48 0" False]
    by (simp add: lead_def size_bytes_def)
qed

end
