(* ===== verification/OpusRepack.thy ===== *)
theory OpusRepack
  imports OpusPacket
begin

text \<open>
  The repacketizer (opus/src/repacketizer.c): collecting the frames of packets with the same
  configuration and writing them out as one packet, padded or not, also in place; \<open>encode_size\<close> is in
  opus/src/opus.c. The assertions are off, as in the application's build.
\<close>

record OpusRepacketizer =
  rp_toc :: "8 word"
  nb_frames :: int
  rp_frames :: "nat list"
  rp_len :: "int list"
  rp_framesize :: int

definition encode_size :: "int \<Rightarrow> mem \<Rightarrow> nat \<Rightarrow> (nat \<times> mem) option" where
  "encode_size sz m data =
     (if sz < 252 then do { m \<leftarrow> wr m data (word_of_int sz); Some (1, m) }
      else do { m \<leftarrow> wr m data (word_of_int (252 + (sz AND 3)));
                b \<leftarrow> rd m data;
                m \<leftarrow> wr m (data + 1) (word_of_int (drop_bit 2 (sz - uint b)));
                Some (2, m) })"

definition opus_repacketizer_init :: "OpusRepacketizer \<Rightarrow> OpusRepacketizer" where
  "opus_repacketizer_init rp = rp\<lparr>nb_frames := 0\<rparr>"

text \<open>The parser stores at the end of the arrays: pointers behind the frames collected so far.\<close>

definition opus_repacketizer_cat_impl :: "mem \<Rightarrow> OpusRepacketizer \<Rightarrow> nat \<Rightarrow> int \<Rightarrow> bool \<Rightarrow> (int \<times> OpusRepacketizer) option" where
  "opus_repacketizer_cat_impl m rp data len self_delimited =
     (if len < 1 then Some (OPUS_INVALID_PACKET, rp)
      else do { b \<leftarrow> rd m data;
           (if nb_frames rp \<noteq> 0 \<and> rp_toc rp AND 0xFC \<noteq> b AND 0xFC then Some (OPUS_INVALID_PACKET, rp)
            else do { fs \<leftarrow> opus_packet_get_samples_per_frame m data 8000;
                 (let rp = (if nb_frames rp = 0 then rp\<lparr>rp_toc := b, rp_framesize := fs\<rparr> else rp)
                  in do { curr_nb_frames \<leftarrow> opus_packet_get_nb_frames m data len;
                       (if curr_nb_frames < 1 \<or> (curr_nb_frames + nb_frames rp) * rp_framesize rp > 960
                        then Some (OPUS_INVALID_PACKET, rp)
                        else (let k = nat (nb_frames rp)
                              in do { (ret, szs, frs, r) \<leftarrow> opus_packet_parse_impl m data len self_delimited
                                        (Some (drop k (rp_frames rp))) (Some (drop k (rp_len rp)));
                                   fs \<leftarrow> frs;
                                   (let rp = rp\<lparr>rp_frames := take k (rp_frames rp) @ fs, rp_len := take k (rp_len rp) @ szs\<rparr>
                                    in if ret < 1 then Some (ret, rp)
                                       else Some (OPUS_OK, rp\<lparr>nb_frames := nb_frames rp + curr_nb_frames\<rparr>)) })) }) }) })"

definition opus_repacketizer_cat :: "mem \<Rightarrow> OpusRepacketizer \<Rightarrow> nat \<Rightarrow> int \<Rightarrow> (int \<times> OpusRepacketizer) option" where
  "opus_repacketizer_cat m rp data len = opus_repacketizer_cat_impl m rp data len False"

definition opus_repacketizer_get_nb_frames :: "OpusRepacketizer \<Rightarrow> int" where
  "opus_repacketizer_get_nb_frames rp = nb_frames rp"

section \<open>Writing a packet\<close>

text \<open>Stores a list of bytes one after another: \<open>*ptr++ = b\<close> for each.\<close>

primrec put_bytes :: "8 word list \<Rightarrow> nat \<Rightarrow> mem \<Rightarrow> (nat \<times> mem) option" where
  "put_bytes [] ptr m = Some (ptr, m)"
| "put_bytes (b # bs) ptr m = do { m \<leftarrow> wr m ptr b; put_bytes bs (ptr + 1) m }"

primrec encode_sizes :: "int list \<Rightarrow> nat \<Rightarrow> mem \<Rightarrow> (nat \<times> mem) option" where
  "encode_sizes [] ptr m = Some (ptr, m)"
| "encode_sizes (l # ls) ptr m = do { (k, m) \<leftarrow> encode_size l m ptr; encode_sizes ls (ptr + k) m }"

definition size_extra :: "int \<Rightarrow> int" where
  "size_extra l = (if l \<ge> 252 then 1 else 0)"

text \<open>
  The headers of code 0, 1 and 2, for one and two frames; \<open>tot_size\<close>, the pointer and the memory, or the
  error. \<open>lens\<close> are the sizes of the frames written.
\<close>

definition short_header ::
  "8 word \<Rightarrow> int list \<Rightarrow> int \<Rightarrow> int \<Rightarrow> nat \<Rightarrow> mem \<Rightarrow> (int + int \<times> nat \<times> mem) option" where
  "short_header toc lens tot_size maxlen ptr m =
     (if length lens = 1
      then (let tot_size = tot_size + lens ! 0 + 1
            in if tot_size > maxlen then Some (Inl OPUS_BUFFER_TOO_SMALL)
               else do { (ptr, m) \<leftarrow> put_bytes [toc AND 0xFC] ptr m; Some (Inr (tot_size, ptr, m)) })
      else if length lens = 2
      then (if lens ! 1 = lens ! 0
            then (let tot_size = tot_size + 2 * lens ! 0 + 1
                  in if tot_size > maxlen then Some (Inl OPUS_BUFFER_TOO_SMALL)
                     else do { (ptr, m) \<leftarrow> put_bytes [(toc AND 0xFC) OR 1] ptr m; Some (Inr (tot_size, ptr, m)) })
            else (let tot_size = tot_size + lens ! 0 + lens ! 1 + 2 + size_extra (lens ! 0)
                  in if tot_size > maxlen then Some (Inl OPUS_BUFFER_TOO_SMALL)
                     else do { (ptr, m) \<leftarrow> put_bytes [(toc AND 0xFC) OR 2] ptr m;
                               (k, m) \<leftarrow> encode_size (lens ! 0) m ptr;
                               Some (Inr (tot_size, ptr + k, m)) }))
      else Some (Inr (tot_size, ptr, m)))"

definition code3_header ::
  "8 word \<Rightarrow> int list \<Rightarrow> int \<Rightarrow> int \<Rightarrow> bool \<Rightarrow> nat \<Rightarrow> mem \<Rightarrow> (int + int \<times> nat \<times> mem) option" where
  "code3_header toc lens tot_size maxlen pad data m =
     (let count = int (length lens);
          vbr = list_ex (\<lambda>i. lens ! i \<noteq> lens ! 0) [1 ..< length lens];
          tot_size = (if vbr then tot_size + 2 + sum_list (map (\<lambda>l. 1 + size_extra l + l) (butlast lens)) + last lens
                      else tot_size + count * lens ! 0 + 2)
      in if tot_size > maxlen then Some (Inl OPUS_BUFFER_TOO_SMALL)
         else do { (ptr, m) \<leftarrow> put_bytes [(toc AND 0xFC) OR 3, word_of_int (if vbr then count OR 0x80 else count)] data m;
                   (let pad_amount = (if pad then maxlen - tot_size else 0); nb_255s = (pad_amount - 1) div 255
                    in do { (ptr, m) \<leftarrow>
                              (if pad_amount \<noteq> 0
                               then do { b \<leftarrow> rd m (data + 1);
                                         m \<leftarrow> wr m (data + 1) (b OR 0x40);
                                         put_bytes (replicate (nat nb_255s) 255 @ [word_of_int (pad_amount - 255 * nb_255s - 1)]) ptr m }
                               else Some (ptr, m));
                            (ptr, m) \<leftarrow> (if vbr then encode_sizes (butlast lens) ptr m else Some (ptr, m));
                            Some (Inr (tot_size + pad_amount, ptr, m)) }) })"

text \<open>Copying the frames, in order.\<close>

primrec copy_frames :: "(nat \<times> nat) list \<Rightarrow> nat \<Rightarrow> mem \<Rightarrow> (nat \<times> mem) option" where
  "copy_frames [] ptr m = Some (ptr, m)"
| "copy_frames (fl # fls) ptr m =
     do { m \<leftarrow> OPUS_MOVE m ptr (fst fl) (snd fl); copy_frames fls (ptr + snd fl) m }"

definition opus_repacketizer_out_range_impl ::
  "mem \<Rightarrow> OpusRepacketizer \<Rightarrow> int \<Rightarrow> int \<Rightarrow> nat \<Rightarrow> int \<Rightarrow> bool \<Rightarrow> bool \<Rightarrow> (int \<times> mem) option" where
  "opus_repacketizer_out_range_impl m rp from until data maxlen self_delimited pad =
     (if from < 0 \<or> from \<ge> until \<or> until > nb_frames rp then Some (OPUS_BAD_ARG, m)
      else do { lens \<leftarrow> those (map (rd (rp_len rp)) [nat from ..< nat until]);
                frames \<leftarrow> those (map (rd (rp_frames rp)) [nat from ..< nat until]);
                (let tot_size = (if self_delimited then 1 + size_extra (last lens) else 0)
                 in do { r \<leftarrow> short_header (rp_toc rp) lens tot_size maxlen data m;
                      (case r of Inl e \<Rightarrow> Some (e, m)
                       | Inr (tot1, ptr, m1) \<Rightarrow>
                           do { r \<leftarrow> (if length lens > 2 \<or> pad \<and> tot1 < maxlen
                                     then code3_header (rp_toc rp) lens tot_size maxlen pad data m1
                                     else Some (Inr (tot1, ptr, m1)));
                                (case r of Inl e \<Rightarrow> Some (e, m1)
                                 | Inr (tot_size, ptr, m) \<Rightarrow>
                                     do { (k, m) \<leftarrow> (if self_delimited then encode_size (last lens) m ptr else Some (0, m));
                                          (ptr, m) \<leftarrow> copy_frames (zip frames (map nat lens)) (ptr + k) m;
                                          (ptr, m) \<leftarrow> (if pad then put_bytes (replicate (data + nat maxlen - ptr) 0) ptr m
                                                      else Some (ptr, m));
                                          Some (tot_size, m) }) }) }) })"

definition opus_repacketizer_out_range :: "mem \<Rightarrow> OpusRepacketizer \<Rightarrow> int \<Rightarrow> int \<Rightarrow> nat \<Rightarrow> int \<Rightarrow> (int \<times> mem) option" where
  "opus_repacketizer_out_range m rp from until data maxlen = opus_repacketizer_out_range_impl m rp from until data maxlen False False"

definition opus_repacketizer_out :: "mem \<Rightarrow> OpusRepacketizer \<Rightarrow> nat \<Rightarrow> int \<Rightarrow> (int \<times> mem) option" where
  "opus_repacketizer_out m rp data maxlen = opus_repacketizer_out_range_impl m rp 0 (nb_frames rp) data maxlen False False"

section \<open>Padding\<close>

text \<open>\<open>rp\<close> is the uninitialised repacketizer on the stack.\<close>

definition opus_packet_pad :: "OpusRepacketizer \<Rightarrow> mem \<Rightarrow> nat \<Rightarrow> int \<Rightarrow> int \<Rightarrow> (int \<times> mem) option" where
  "opus_packet_pad rp m data len new_len =
     (if len < 1 then Some (OPUS_BAD_ARG, m)
      else if len = new_len then Some (OPUS_OK, m)
      else if len > new_len then Some (OPUS_BAD_ARG, m)
      else (let src = data + nat (new_len - len)
            in do { m \<leftarrow> OPUS_MOVE m src data (nat len);
                    (ret, rp) \<leftarrow> opus_repacketizer_cat m (opus_repacketizer_init rp) src len;
                    (if ret \<noteq> OPUS_OK then Some (ret, m)
                     else do { (ret, m) \<leftarrow> opus_repacketizer_out_range_impl m rp 0 (nb_frames rp) data new_len False True;
                               Some (if ret > 0 then OPUS_OK else ret, m) }) }))"

definition opus_packet_unpad :: "OpusRepacketizer \<Rightarrow> mem \<Rightarrow> nat \<Rightarrow> int \<Rightarrow> (int \<times> mem) option" where
  "opus_packet_unpad rp m data len =
     (if len < 1 then Some (OPUS_BAD_ARG, m)
      else do { (ret, rp) \<leftarrow> opus_repacketizer_cat m (opus_repacketizer_init rp) data len;
                (if ret < 0 then Some (ret, m)
                 else opus_repacketizer_out_range_impl m rp 0 (nb_frames rp) data len False False) })"

text \<open>Of several streams: the first ones are self-delimited. \<open>junk\<close> is the uninitialised array of sizes.\<close>

primrec seek_last_stream :: "int list \<Rightarrow> mem \<Rightarrow> nat \<Rightarrow> nat \<Rightarrow> int \<Rightarrow> (int + nat \<times> int) option" where
  "seek_last_stream junk m 0 data len = Some (Inr (data, len))"
| "seek_last_stream junk m (Suc s) data len =
     (if len \<le> 0 then Some (Inl OPUS_INVALID_PACKET)
      else do { (count, szs, frs, r) \<leftarrow> opus_packet_parse_impl m data len True None (Some junk);
                (if count < 0 then Some (Inl count)
                 else do { (toc, po, packet_offset) \<leftarrow> r;
                           seek_last_stream szs m s (nat (int data + packet_offset)) (len - packet_offset) }) })"

definition opus_multistream_packet_pad ::
  "OpusRepacketizer \<Rightarrow> int list \<Rightarrow> mem \<Rightarrow> nat \<Rightarrow> int \<Rightarrow> int \<Rightarrow> int \<Rightarrow> (int \<times> mem) option" where
  "opus_multistream_packet_pad rp junk m data len new_len nb_streams =
     (if len < 1 then Some (OPUS_BAD_ARG, m)
      else if len = new_len then Some (OPUS_OK, m)
      else if len > new_len then Some (OPUS_BAD_ARG, m)
      else do { r \<leftarrow> seek_last_stream junk m (nat (nb_streams - 1)) data len;
                (case r of Inl e \<Rightarrow> Some (e, m)
                 | Inr (data', len') \<Rightarrow> opus_packet_pad rp m data' len' (len' + (new_len - len))) })"

text \<open>\<open>s\<close> counts the streams that are left; the last one is not self-delimited.\<close>

primrec unpad_streams ::
  "OpusRepacketizer \<Rightarrow> int list \<Rightarrow> nat \<Rightarrow> nat \<Rightarrow> int \<Rightarrow> nat \<Rightarrow> int \<Rightarrow> mem \<Rightarrow> (int \<times> mem) option" where
  "unpad_streams rp junk 0 data len dst dst_len m = Some (dst_len, m)"
| "unpad_streams rp junk (Suc s) data len dst dst_len m =
     (if len \<le> 0 then Some (OPUS_INVALID_PACKET, m)
      else do { (ret, szs, frs, r) \<leftarrow> opus_packet_parse_impl m data len (s \<noteq> 0) None (Some junk);
           (if ret < 0 then Some (ret, m)
            else do { (toc, po, packet_offset) \<leftarrow> r;
                 (ret, rp) \<leftarrow> opus_repacketizer_cat_impl m (opus_repacketizer_init rp) data packet_offset (s \<noteq> 0);
                 (if ret < 0 then Some (ret, m)
                  else do { (ret, m) \<leftarrow> opus_repacketizer_out_range_impl m rp 0 (nb_frames rp) dst len (s \<noteq> 0) False;
                       (if ret < 0 then Some (ret, m)
                        else unpad_streams rp szs s (nat (int data + packet_offset)) (len - packet_offset)
                               (dst + nat ret) (dst_len + ret) m) }) }) })"

definition opus_multistream_packet_unpad ::
  "OpusRepacketizer \<Rightarrow> int list \<Rightarrow> mem \<Rightarrow> nat \<Rightarrow> int \<Rightarrow> int \<Rightarrow> (int \<times> mem) option" where
  "opus_multistream_packet_unpad rp junk m data len nb_streams =
     (if len < 1 then Some (OPUS_BAD_ARG, m)
      else unpad_streams rp junk (nat nb_streams) data len data 0 m)"

end
