(* ===== verification/OpusWrite.thy ===== *)
theory OpusWrite
  imports OpusFraming OpusRepack
begin

text \<open>
  What the repacketizer writes: bytes over the memory at a place, the sizes, the headers and the copied
  frames, as the bytes of the format. The frames may lie in the region written, as when packets are
  padded in place, as long as no frame is overwritten before it is copied.
\<close>

section \<open>Bytes over the memory\<close>

definition over :: "mem \<Rightarrow> nat \<Rightarrow> mem \<Rightarrow> mem" where
  "over m d bs = take d m @ bs @ drop (d + length bs) m"

lemma over_Nil [simp]: "over m d [] = m"
  by (simp add: over_def)

lemma length_over [simp]: "d + length bs \<le> length m \<Longrightarrow> length (over m d bs) = length m"
  by (simp add: over_def)

lemma over_append: "d + length xs + length ys \<le> length m \<Longrightarrow> over (over m d xs) (d + length xs) ys = over m d (xs @ ys)"
  by (simp add: over_def add.assoc [symmetric]) (simp add: ac_simps)

lemma over_Cons: "d < length m \<Longrightarrow> m[d := b] = over m d [b]"
  by (simp add: over_def upd_conv_take_nth_drop)

lemma lies_over_same: "d + length bs \<le> length m \<Longrightarrow> lies (over m d bs) d bs"
  by (simp add: lies_iff over_def)

lemma take_drop_before: "e + n \<le> d \<Longrightarrow> d \<le> length m \<Longrightarrow> take n (drop e (over m d bs)) = take n (drop e m)"
  by (simp add: over_def drop_take min_absorb2)

lemma take_drop_behind:
  "d + length bs \<le> e \<Longrightarrow> d + length bs \<le> length m \<Longrightarrow> take n (drop e (over m d bs)) = take n (drop e m)"
  by (simp add: over_def min_def)

lemma lies_over_other:
  assumes "e + length xs \<le> d \<or> d + length bs \<le> e" and "d + length bs \<le> length m"
  shows "lies (over m d bs) e xs \<longleftrightarrow> lies m e xs"
  using assms take_drop_before [of e "length xs" d m bs] take_drop_behind [of d bs e m "length xs"] by (auto simp: lies_iff)

lemma wr_over: "d < length m \<Longrightarrow> wr m d b = Some (over m d [b])"
  by (simp add: wr_def over_Cons)

lemma put_bytes_over: "ptr + length bs \<le> length m \<Longrightarrow> put_bytes bs ptr m = Some (ptr + length bs, over m ptr bs)"
proof (induction bs arbitrary: ptr m)
  case (Cons b bs)
  then show ?case using Cons.IH [of "Suc ptr" "over m ptr [b]"] over_append [of ptr "[b]" bs m] by (simp add: wr_over)
qed simp

lemma OPUS_MOVE_over:
  assumes "dst + n \<le> length m" and "src + n \<le> length m"
  shows "OPUS_MOVE m dst src n = Some (over m dst (take n (drop src m)))"
  using assms by (simp add: OPUS_MOVE_def over_def)

section \<open>Sizes\<close>

lemma int_and_3: "int n AND 3 = int (n mod 4)"
  using take_bit_eq_mask [of 2 "int n"] by (simp add: mask_eq_exp_minus_1 take_bit_eq_mod zmod_int)

lemma encode_size_over:
  assumes "l \<le> 1275" and "ptr + length (size_bytes l) \<le> length m"
  shows "encode_size (int l) m ptr = Some (length (size_bytes l), over m ptr (size_bytes l))"
proof (cases "l < 252")
  case True
  then show ?thesis using assms by (simp add: encode_size_def size_bytes_def wr_over)
next
  case False
  then obtain a q where n: "252 \<le> a" "a < 256" "l = a + 4 * q" using two_byte_size [of l] by auto
  have a: "252 + (int l AND 3) = int a" using n by (simp only: int_and_3) presburger
  have q: "drop_bit 2 (int l - uint (word_of_nat a :: 8 word)) = int q" using n by (simp add: drop_bit_eq_div)
  have l: "size_bytes l = [word_of_nat a, word_of_nat q]" using size_bytes_two [OF n(1,2)] by (simp add: n(3))
  have "rd (over m ptr [word_of_nat a]) ptr = Some (word_of_nat a)"
    using lies_over_same [of ptr "[word_of_nat a]" m] assms(2) l by simp
  then show ?thesis using assms(2) False l a q over_append [of ptr "[word_of_nat a]" "[word_of_nat q]" m]
    by (simp add: encode_size_def wr_over)
qed

lemma encode_sizes_over:
  assumes "\<forall>l \<in> set ls. l \<le> 1275" and "ptr + length (sizes ls) \<le> length m"
  shows "encode_sizes (map int ls) ptr m = Some (ptr + length (sizes ls), over m ptr (sizes ls))"
  using assms
proof (induction ls arbitrary: ptr m)
  case (Cons l ls)
  then show ?case
    using Cons.IH [of "ptr + length (size_bytes l)" "over m ptr (size_bytes l)"] over_append [of ptr "size_bytes l" "sizes ls" m]
    by (simp add: encode_size_over add.assoc)
qed simp

lemma size_extra: "size_extra (int l) = int (length (size_bytes l)) - 1"
  by (simp add: size_extra_def size_bytes_def)

section \<open>Headers\<close>

text \<open>The first byte for a configuration and a code.\<close>

definition toc_byte :: "8 word \<Rightarrow> framing \<Rightarrow> 8 word" where
  "toc_byte c fm = (c AND 0xFC) OR code fm"

lemma toc_byte_code [simp]: "toc_byte c fm AND 3 = code fm"
  unfolding toc_byte_def by (cases fm) (simp_all add: byte_eq_iff less_8 bit_simps)

lemma toc_byte_config [simp]: "toc_byte c fm AND 0xFC = c AND 0xFC"
  unfolding toc_byte_def by (cases fm) (simp_all add: byte_eq_iff less_8 bit_simps)

lemma same_samples:
  assumes "a AND 0xFC = b AND (0xFC :: 8 word)"
  shows "frame_samples a = frame_samples b"
proof -
  have high: "\<not> bit (x :: 8 word) (8 + n)" for x n by (auto dest: bit_imp_le_length)
  have "drop_bit 3 (x AND 0xFC) = drop_bit 3 x" for x :: "8 word"
    using high [of x 0] high [of x 1] high [of x 2] by (simp add: byte_eq_iff less_8 bit_simps)
  then have "drop_bit 3 a = drop_bit 3 b" by (metis assms)
  then show ?thesis unfolding frame_samples_def by (simp flip: byte_parts(1))
qed

text \<open>The length of a packet, and the forms the repacketizer chooses: the shortest one, and one padded to \<open>n\<close> bytes.\<close>

definition total :: "framing \<Rightarrow> bool \<Rightarrow> nat list \<Rightarrow> nat" where
  "total fm sd ls = 1 + length (header fm ls) + (if sd then length (size_bytes (last ls)) else 0) + sum_list ls + pad_bytes fm"

definition many_form :: "nat list \<Rightarrow> (nat \<times> nat) option \<Rightarrow> framing" where
  "many_form ls pad = Many (\<not> all_equal ls) pad"

definition short_form :: "nat list \<Rightarrow> framing" where
  "short_form ls =
     (if length ls = 1 then One else if length ls = 2 then (if all_equal ls then TwoEqual else Two) else many_form ls None)"

definition pad_form :: "bool \<Rightarrow> nat \<Rightarrow> nat list \<Rightarrow> framing" where
  "pad_form sd n ls =
     (let a = n - total (many_form ls None) sd ls
      in many_form ls (if a = 0 then None else Some ((a - 1) div 255, (a - 1) mod 255)))"

lemma lead_total: "length (lead fm c sd ls) + sum_list ls + pad_bytes fm = total fm sd ls"
  by (simp add: lead_def total_def)

lemma all_equal_2: "length ls = 2 \<Longrightarrow> all_equal ls \<longleftrightarrow> ls ! 1 = ls ! 0"
  by (auto simp: all_equal_def length_Suc_conv numeral_2_eq_2)

lemma short_header_over:
  assumes "ls \<noteq> []" and "length ls \<le> 2" and "\<forall>l \<in> set ls. l \<le> 1275" and "int ptr + maxlen \<le> int (length m)"
  shows "short_header c (map int ls) (if sd then 1 + size_extra (int (last ls)) else 0) maxlen ptr m =
    (if int (total (short_form ls) sd ls) > maxlen then Some (Inl OPUS_BUFFER_TOO_SMALL)
     else Some (Inr (int (total (short_form ls) sd ls), ptr + 1 + length (header (short_form ls) ls),
       over m ptr (toc_byte c (short_form ls) # header (short_form ls) ls))))"
proof (cases "length ls = 1")
  case True
  then obtain l where "ls = [l]" by (auto simp: length_Suc_conv)
  then show ?thesis using assms
    by (auto simp: short_header_def short_form_def total_def size_extra toc_byte_def put_bytes_over wr_over)
next
  case False
  then have "length ls = 2" using assms(1,2) by (cases ls; cases "tl ls") auto
  then obtain l k where ls: "ls = [l, k]" by (auto simp: length_Suc_conv numeral_2_eq_2)
  show ?thesis
  proof (cases "k = l")
    case True
    then show ?thesis using assms
      by (auto simp: ls short_header_def short_form_def total_def size_extra toc_byte_def all_equal_def wr_over Let_def)
  next
    case False
    show ?thesis
    proof (cases "int (total Two sd ls) > maxlen")
      case True
      then show ?thesis using False by (cases sd) (simp_all add: ls short_header_def short_form_def total_def size_extra all_equal_def Let_def)
    next
      case fits: False
      then have room: "Suc (ptr + length (size_bytes l)) \<le> length m" using assms(4) by (auto simp: total_def ls)
      then have "encode_size (int l) (over m ptr [toc_byte c Two]) (Suc ptr) =
          Some (length (size_bytes l), over m ptr (toc_byte c Two # size_bytes l))"
        using assms(3) over_append [of ptr "[toc_byte c Two]" "size_bytes l" m] by (subst encode_size_over) (auto simp: ls)
      then show ?thesis using False fits room
        by (cases sd) (simp_all add: ls short_header_def short_form_def total_def size_extra all_equal_def toc_byte_def wr_over Let_def)
    qed
  qed
qed

lemma count_bytes:
  assumes "n < 64"
  shows "word_of_int (if v then int n OR 0x80 else int n) = count_byte n v False"
    and "count_byte n v False OR 0x40 = count_byte n v True"
proof -
  have "int n AND 2 ^ 7 = 0" unfolding and_exp_eq_0_iff_not_bit using assms by (simp add: bit_iff_odd)
  then have "int n OR 0x80 = int n + 0x80" using disjunctive_add_eq_or [of "int n" "0x80"] by simp
  then show "word_of_int (if v then int n OR 0x80 else int n) = count_byte n v False" by (simp add: count_byte_def)
  have "count_byte n v False AND 0x40 = 0" using count_byte_parts(3) [OF assms] by simp
  then show "count_byte n v False OR 0x40 = count_byte n v True"
    using disjunctive_add_eq_or [of "count_byte n v False" "0x40"] by (simp add: count_byte_def add.commute)
qed

lemma list_ex_differs: "ls \<noteq> [] \<Longrightarrow> list_ex (\<lambda>i. map int ls ! i \<noteq> map int ls ! 0) [1 ..< length (map int ls)] \<longleftrightarrow> \<not> all_equal ls"
proof -
  assume "ls \<noteq> []"
  then have "all_equal ls \<longleftrightarrow> (\<forall>i < length ls. ls ! i = ls ! 0)"
    by (simp add: all_equal_def hd_conv_nth all_set_conv_all_nth)
  also have "\<dots> \<longleftrightarrow> (\<forall>i \<in> set [1 ..< length ls]. ls ! i = ls ! 0)"
  proof
    assume all: "\<forall>i \<in> set [1 ..< length ls]. ls ! i = ls ! 0"
    show "\<forall>i < length ls. ls ! i = ls ! 0"
    proof (intro allI impI)
      fix i assume "i < length ls"
      then show "ls ! i = ls ! 0" using all by (cases "i = 0") simp_all
    qed
  qed simp
  finally show ?thesis using \<open>ls \<noteq> []\<close> by (auto simp: list_ex_iff)
qed

lemma sum_sizes: "sum_list (map (\<lambda>l. 1 + size_extra l + l) (map int ls)) = int (length (sizes ls) + sum_list ls)"
  by (induction ls) (simp_all add: size_extra)

lemma total_many:
  assumes "ls \<noteq> []"
  shows "int (total (many_form ls None) sd ls) =
    (if all_equal ls then (if sd then 1 + size_extra (int (last ls)) else 0) + int (length ls) * int (ls ! 0) + 2
     else (if sd then 1 + size_extra (int (last ls)) else 0) + 2 +
       sum_list (map (\<lambda>l. 1 + size_extra l + l) (butlast (map int ls))) + last (map int ls))"
proof (cases "all_equal ls")
  case True
  have "ls ! 0 = last ls" using True assms by (metis all_equal_replicate length_greater_0_conv nth_replicate)
  then show ?thesis using True sum_all_equal [OF True]
    by (simp add: total_def many_form_def size_extra)
next
  case False
  then show ?thesis using assms sum_butlast [OF assms] sum_sizes [of "butlast ls"]
    by (simp add: total_def many_form_def size_extra map_butlast last_map sizes_def)
qed

text \<open>The padding: \<open>n\<close> more bytes, of which the first ones give its length.\<close>

lemma pad_amount:
  assumes "0 < a"
  shows "pad_code (Some ((a - 1) div 255, (a - 1) mod 255)) =
      replicate (nat ((int a - 1) div 255)) 255 @ [word_of_int (int a - 255 * ((int a - 1) div 255) - 1)]"
    and "length (pad_code (Some ((a - 1) div 255, (a - 1) mod 255))) + pad_bytes (Many v (Some ((a - 1) div 255, (a - 1) mod 255))) = a"
proof -
  have a: "int a - 1 = int (a - 1)" using assms by simp
  have d: "int (a - 1) div 255 = int ((a - 1) div 255)" by (simp add: zdiv_int)
  then have "int a - 255 * ((int a - 1) div 255) - 1 = int ((a - 1) mod 255)"
    using mult_div_mod_eq [of 255 "a - 1"] assms unfolding a d by linarith
  then show "pad_code (Some ((a - 1) div 255, (a - 1) mod 255)) =
      replicate (nat ((int a - 1) div 255)) 255 @ [word_of_int (int a - 255 * ((int a - 1) div 255) - 1)]"
    unfolding a d by simp
  show "length (pad_code (Some ((a - 1) div 255, (a - 1) mod 255))) + pad_bytes (Many v (Some ((a - 1) div 255, (a - 1) mod 255))) = a"
    using mult_div_mod_eq [of 255 "a - 1"] assms by simp
qed

lemma over_second: "Suc d < length m \<Longrightarrow> over (over m d [x, y]) (Suc d) [z] = over m d [x, z]"
proof -
  assume d: "Suc d < length m"
  have "over (over m d [x, y]) (Suc d) [z] = over (over (over m d [x]) (Suc d) [y]) (Suc d) [z]"
    using over_append [of d "[x]" "[y]" m] d by simp
  also have "\<dots> = over (over m d [x]) (Suc d) [z]" using d by (simp flip: over_Cons)
  finally show ?thesis using over_append [of d "[x]" "[z]" m] d by simp
qed

lemma code3_header_over:
  assumes "ls \<noteq> []" and "length ls < 64" and "\<forall>l \<in> set ls. l \<le> 1275" and "int data + maxlen \<le> int (length m)"
    and fm: "fm = (if pad then pad_form sd (nat maxlen) ls else many_form ls None)"
  shows "code3_header c (map int ls) (if sd then 1 + size_extra (int (last ls)) else 0) maxlen pad data m =
    (if int (total (many_form ls None) sd ls) > maxlen then Some (Inl OPUS_BUFFER_TOO_SMALL)
     else Some (Inr (int (total fm sd ls), data + 1 + length (header fm ls), over m data (toc_byte c fm # header fm ls))))"
proof -
  let ?v = "\<not> all_equal ls" and ?n = "length ls" and ?t = "total (many_form ls None) sd ls"
  define kb where "kb = (if ?v then sizes (butlast ls) else [])"
  have tot: "(if ?v then (if sd then 1 + size_extra (int (last ls)) else 0) + 2 +
      sum_list (map (\<lambda>l. 1 + size_extra l + l) (butlast (map int ls))) + last (map int ls)
    else (if sd then 1 + size_extra (int (last ls)) else 0) + int (length (map int ls)) * map int ls ! 0 + 2) = int ?t"
    unfolding total_many [OF assms(1)] using assms(1) by simp
  show ?thesis
  proof (cases "int ?t > maxlen")
    case True
    then show ?thesis unfolding code3_header_def Let_def list_ex_differs [OF assms(1)] tot by simp
  next
    case False
    define a where "a = (if pad then nat maxlen - ?t else 0)"
    define pd where "pd = (if a = 0 then None else Some ((a - 1) div 255, (a - 1) mod 255))"
    have fm': "fm = many_form ls pd" by (simp add: fm pad_form_def a_def pd_def Let_def)
    have pd: "pad_code pd = (if a = 0 then [] else replicate (nat ((int a - 1) div 255)) 255 @ [word_of_int (int a - 255 * ((int a - 1) div 255) - 1)])"
      "length (pad_code pd) + pad_bytes fm = a"
      using pad_amount [of a] by (simp_all add: pd_def fm' many_form_def)
    have t: "?t = 2 + length kb + (if sd then length (size_bytes (last ls)) else 0) + sum_list ls"
      by (simp add: total_def many_form_def kb_def sizes_def)
    have "a \<le> nat maxlen - ?t" by (simp add: a_def)
    then have room: "data + ?t + a \<le> length m" using False assms(4) by linarith
    let ?hd = "[toc_byte c fm, count_byte ?n ?v (pd \<noteq> None)]"
    have pad: "(if (if pad then maxlen - int ?t else 0) \<noteq> 0
         then do { b \<leftarrow> rd (over m data [toc_byte c fm, count_byte ?n ?v False]) (data + 1);
                   m \<leftarrow> wr (over m data [toc_byte c fm, count_byte ?n ?v False]) (data + 1) (b OR 0x40);
                   put_bytes (replicate (nat (((if pad then maxlen - int ?t else 0) - 1) div 255)) 255 @
                     [word_of_int ((if pad then maxlen - int ?t else 0) - 255 * (((if pad then maxlen - int ?t else 0) - 1) div 255) - 1)]) (data + 2) m }
         else Some (data + 2, over m data [toc_byte c fm, count_byte ?n ?v False])) =
        Some (data + 2 + length (pad_code pd), over m data (?hd @ pad_code pd))"
    proof -
      have "(if pad then maxlen - int ?t else 0) = int a" using False by (simp add: a_def)
      moreover have "rd (over m data [toc_byte c fm, count_byte ?n ?v False]) (data + 1) = Some (count_byte ?n ?v False)"
        using lies_over_same [of data "[toc_byte c fm, count_byte ?n ?v False]" m] room t by simp
      ultimately show ?thesis
        using pd(1) room t count_bytes(2) [OF assms(2)] over_append [of data ?hd "pad_code pd" m] pd(2)
        by (cases "a = 0") (simp_all add: pd_def wr_over over_second put_bytes_over numeral_2_eq_2)
    qed
    have sizes: "(if ?v then encode_sizes (butlast (map int ls)) (data + 2 + length (pad_code pd)) (over m data (?hd @ pad_code pd))
         else Some (data + 2 + length (pad_code pd), over m data (?hd @ pad_code pd))) =
        Some (data + 2 + length (pad_code pd) + length kb, over m data (?hd @ pad_code pd @ kb))"
    proof (cases ?v)
      case True
      have "\<forall>l \<in> set (butlast ls). l \<le> 1275" using assms(3) by (auto dest: in_set_butlastD)
      then show ?thesis using True room t pd(2) over_append [of data "?hd @ pad_code pd" kb m]
        by (simp add: map_butlast [symmetric] encode_sizes_over kb_def)
    qed (simp add: kb_def)
    have head: "put_bytes [(c AND 0xFC) OR 3, word_of_int (if ?v then int ?n OR 0x80 else int ?n)] data m =
        Some (data + 2, over m data [toc_byte c fm, count_byte ?n ?v False])"
      using room t count_bytes(1) [OF assms(2)] by (subst put_bytes_over) (simp_all add: toc_byte_def fm' many_form_def)
    have "int ?t + int a = int (total fm sd ls)" using t pd(2) by (simp add: total_def fm' many_form_def kb_def sizes_def)
    moreover have "header fm ls = tl ?hd @ pad_code pd @ kb" by (simp add: fm' many_form_def kb_def sizes_def)
    ultimately show ?thesis
      using False unfolding code3_header_def Let_def list_ex_differs [OF assms(1)] tot
      by (simp only: length_map if_False head bind.simps prod.case case_prod_conv pad sizes) (auto simp: a_def)
  qed
qed

section \<open>The frames\<close>

definition piece :: "mem \<Rightarrow> nat \<times> nat \<Rightarrow> mem" where
  "piece m fl = take (snd fl) (drop (fst fl) m)"

text \<open>No frame is overwritten by the copy of an earlier one.\<close>

definition apart :: "nat \<times> nat \<Rightarrow> nat \<Rightarrow> nat \<Rightarrow> bool" where
  "apart fl p n \<longleftrightarrow> fst fl + snd fl \<le> p \<or> p + n \<le> fst fl"

primrec copy_ok :: "(nat \<times> nat) list \<Rightarrow> nat \<Rightarrow> bool" where
  "copy_ok [] p \<longleftrightarrow> True"
| "copy_ok (fl # fls) p \<longleftrightarrow> (\<forall>fl' \<in> set fls. apart fl' p (snd fl)) \<and> copy_ok fls (p + snd fl)"

lemma piece_over: "apart fl d (length bs) \<Longrightarrow> d + length bs \<le> length m \<Longrightarrow> piece (over m d bs) fl = piece m fl"
  unfolding piece_def apart_def by (metis add_leD1 take_drop_before take_drop_behind)

lemma length_piece: "fst fl + snd fl \<le> length m \<Longrightarrow> length (piece m fl) = snd fl"
  by (simp add: piece_def)

lemma copy_frames_over:
  assumes "\<forall>fl \<in> set fls. fst fl + snd fl \<le> length m" and "ptr + sum_list (map snd fls) \<le> length m" and "copy_ok fls ptr"
  shows "copy_frames fls ptr m = Some (ptr + sum_list (map snd fls), over m ptr (concat (map (piece m) fls)))"
  using assms
proof (induction fls arbitrary: ptr m)
  case (Cons fl fls)
  let ?m = "over m ptr (piece m fl)"
  have l: "length (piece m fl) = snd fl" using Cons.prems(1) by (simp add: length_piece)
  then have len: "length ?m = length m" using Cons.prems(2) by simp
  have same: "map (piece ?m) fls = map (piece m) fls" using Cons.prems(2,3) l by (auto intro: piece_over)
  have n: "length (concat (map (piece m) fls)) = sum_list (map snd fls)"
    using Cons.prems(1) by (induction fls) (auto simp: length_piece)
  have "OPUS_MOVE m ptr (fst fl) (snd fl) = Some ?m" using Cons.prems by (simp add: OPUS_MOVE_over piece_def)
  then show ?case
    using Cons.IH [of ?m "ptr + snd fl"] Cons.prems len same n over_append [of ptr "piece m fl" "concat (map (piece m) fls)" m] l
    by (simp add: add.assoc)
qed simp

lemma copy_ok_apart: "\<forall>fl \<in> set fls. apart fl p n \<Longrightarrow> sum_list (map snd fls) \<le> n \<Longrightarrow> copy_ok fls p"
proof (induction fls arbitrary: p n)
  case (Cons fl fls)
  then have "apart fl' p (snd fl) \<and> apart fl' (p + snd fl) (n - snd fl)" if "fl' \<in> set fls" for fl'
    using that by (fastforce simp: apart_def)
  then show ?case using Cons.IH [of "p + snd fl" "n - snd fl"] Cons.prems by auto
qed simp

lemma set_zip_offsets: "fl \<in> set (zip (offsets s ls) ls) \<Longrightarrow> s \<le> fst fl \<and> fst fl + snd fl \<le> s + sum_list ls"
  by (induction ls arbitrary: s) fastforce+

lemma copy_ok_forward: "p \<le> s \<Longrightarrow> copy_ok (zip (offsets s ls) ls) p"
proof (induction ls arbitrary: p s)
  case (Cons l ls)
  have "apart fl p l" if "fl \<in> set (zip (offsets (s + l) ls) ls)" for fl
    using set_zip_offsets [OF that] Cons.prems by (simp add: apart_def)
  then show ?case using Cons by simp
qed simp

section \<open>A whole packet\<close>

definition chosen :: "bool \<Rightarrow> bool \<Rightarrow> nat \<Rightarrow> nat list \<Rightarrow> framing" where
  "chosen sd pad n ls =
     (if 2 < length ls \<or> pad \<and> total (short_form ls) sd ls < n then (if pad then pad_form sd n ls else many_form ls None)
      else short_form ls)"

lemma total_many_short:
  assumes "ls \<noteq> []" and "length ls \<le> 2"
  shows "total (many_form ls None) sd ls = total (short_form ls) sd ls + 1"
    and "length (header (short_form ls) ls) \<le> length (header (many_form ls pd) ls)"
proof -
  consider l where "ls = [l]" | l k where "ls = [l, k]"
    using assms by (cases ls rule: remdups_adj.cases) auto
  then show "total (many_form ls None) sd ls = total (short_form ls) sd ls + 1"
    "length (header (short_form ls) ls) \<le> length (header (many_form ls pd) ls)"
    by (cases; auto simp: total_def short_form_def many_form_def all_equal_def)+
qed

lemma over_over: "length xs \<le> length ys \<Longrightarrow> d + length ys \<le> length m \<Longrightarrow> over (over m d xs) d ys = over m d ys"
  by (simp add: over_def add.commute)

lemma total_many_pad:
  "total (many_form ls (Some kb)) sd ls =
     total (many_form ls None) sd ls + (length (pad_code (Some kb)) + pad_bytes (Many (\<not> all_equal ls) (Some kb)))"
  by (cases kb) (simp add: total_def many_form_def)

lemma total_pad_form:
  assumes "total (many_form ls None) sd ls \<le> n"
  shows "total (pad_form sd n ls) sd ls = n"
proof -
  define a where "a = n - total (many_form ls None) sd ls"
  show ?thesis
  proof (cases "a = 0")
    case False
    then have "total (pad_form sd n ls) sd ls = total (many_form ls None) sd ls + a"
      unfolding pad_form_def Let_def a_def [symmetric] using pad_amount(2) [of a] by (simp only: if_False total_many_pad)
    then show ?thesis using assms by (simp add: a_def)
  qed (use assms in \<open>simp add: pad_form_def a_def\<close>)
qed

definition tail :: "bool \<Rightarrow> nat list \<Rightarrow> mem" where
  "tail sd ls = (if sd then size_bytes (last ls) else [])"

lemma lead_tail: "lead fm c sd ls = c # header fm ls @ tail sd ls"
  by (simp add: lead_def tail_def)

text \<open>The two steps that write the header: the short form, and over it the form with a count.\<close>

lemma headers_over:
  assumes "ls \<noteq> []" and "length ls < 64" and "\<forall>l \<in> set ls. l \<le> 1275" and "int data + maxlen \<le> int (length m)"
    and fm: "fm = chosen sd pad (nat maxlen) ls" and fits: "int (total (short_form ls) sd ls) \<le> maxlen"
  defines "t \<equiv> if sd then 1 + size_extra (int (last ls)) else 0"
  shows "\<exists>tot1 ptr m1. short_header c (map int ls) t maxlen data m = Some (Inr (tot1, ptr, m1)) \<and>
    (if length (map int ls) > 2 \<or> pad \<and> tot1 < maxlen then code3_header c (map int ls) t maxlen pad data m1
     else Some (Inr (tot1, ptr, m1))) =
      Some (Inr (int (total fm sd ls), data + 1 + length (header fm ls), over m data (toc_byte c fm # header fm ls)))"
proof (cases "2 < length ls")
  case True
  have "short_header c (map int ls) t maxlen data m = Some (Inr (t, data, m))" using True by (simp add: short_header_def)
  moreover have "short_form ls = many_form ls None" using True by (simp add: short_form_def)
  moreover have "fm = (if pad then pad_form sd (nat maxlen) ls else many_form ls None)" using True by (simp add: fm chosen_def)
  ultimately show ?thesis
    using True fits code3_header_over [OF assms(1-4), of fm pad sd c] by (simp add: t_def)
next
  case False
  let ?f = "short_form ls"
  let ?m1 = "over m data (toc_byte c ?f # header ?f ls)"
  have short: "short_header c (map int ls) t maxlen data m = Some (Inr (int (total ?f sd ls), data + 1 + length (header ?f ls), ?m1))"
    using short_header_over [OF assms(1) _ assms(3,4), of c sd] False fits by (simp add: t_def)
  have len: "length (toc_byte c ?f # header ?f ls) \<le> total ?f sd ls" by (simp add: total_def)
  show ?thesis
  proof (cases "pad \<and> int (total ?f sd ls) < maxlen")
    case pad: True
    then have fm': "fm = pad_form sd (nat maxlen) ls" by (auto simp: fm chosen_def)
    have many: "int (total (many_form ls None) sd ls) \<le> maxlen" using total_many_short(1) [OF assms(1)] False pad by simp
    then have many': "total (many_form ls None) sd ls \<le> nat maxlen" by linarith
    have lm: "length ?m1 = length m" using fits assms(4) len by simp
    have "code3_header c (map int ls) t maxlen pad data ?m1 =
        Some (Inr (int (total fm sd ls), data + 1 + length (header fm ls), over ?m1 data (toc_byte c fm # header fm ls)))"
      using code3_header_over [OF assms(1-3), of data maxlen ?m1 fm pad sd c] many pad assms(4) fm' lm by (simp add: t_def)
    moreover have "over ?m1 data (toc_byte c fm # header fm ls) = over m data (toc_byte c fm # header fm ls)"
    proof (rule over_over)
      obtain pd where "fm = many_form ls pd" by (auto simp: fm' pad_form_def Let_def)
      then show "length (toc_byte c ?f # header ?f ls) \<le> length (toc_byte c fm # header fm ls)"
        using total_many_short(2) [OF assms(1)] False by simp
      have "length (toc_byte c fm # header fm ls) \<le> nat maxlen"
        using total_pad_form [OF many'] by (simp add: fm' total_def)
      then show "data + length (toc_byte c fm # header fm ls) \<le> length m" using assms(4) by (simp add: le_nat_iff)
    qed
    ultimately show ?thesis using short pad by simp
  next
    case no: False
    then have "fm = ?f" using False by (auto simp: fm chosen_def)
    then show ?thesis using short no False by auto
  qed
qed

lemma pad_chosen:
  assumes "ls \<noteq> []" and "fm = chosen sd pad n ls" and "total (short_form ls) sd ls \<le> n"
  shows "if pad then total fm sd ls = n else pad_bytes fm = 0"
    and "\<not> pad \<Longrightarrow> fm = short_form ls"
proof -
  have many: "total (many_form ls None) sd ls \<le> n" if "2 < length ls \<or> pad \<and> total (short_form ls) sd ls < n"
  proof (cases "2 < length ls")
    case True
    then show ?thesis using assms(3) by (simp add: short_form_def)
  next
    case False
    then show ?thesis using that total_many_short(1) [OF assms(1)] by simp
  qed
  have short: "pad_bytes (short_form ls) = 0" by (simp add: short_form_def many_form_def)
  show "if pad then total fm sd ls = n else pad_bytes fm = 0"
    using assms(2,3) many short total_pad_form by (auto simp: chosen_def many_form_def)
  show "fm = short_form ls" if "\<not> pad"
    using that assms(2) by (auto simp: chosen_def short_form_def)
qed

lemma length_concat_pieces:
  "\<forall>fl \<in> set fls. fst fl + snd fl \<le> length m \<Longrightarrow> length (concat (map (piece m) fls)) = sum_list (map snd fls)"
  by (induction fls) (auto simp: length_piece)

lemma out_range_over:
  assumes "0 \<le> i" and "i < j" and "j \<le> nb_frames rp"
    and lens: "those (map (rd (rp_len rp)) [nat i ..< nat j]) = Some (map int ls)"
    and frames: "those (map (rd (rp_frames rp)) [nat i ..< nat j]) = Some frs"
    and ls: "length ls < 64" "\<forall>l \<in> set ls. l \<le> 1275" and room: "int data + maxlen \<le> int (length m)"
    and inside: "\<forall>fl \<in> set (zip frs ls). fst fl + snd fl \<le> length m"
    and fm: "fm = chosen sd pad (nat maxlen) ls"
    and safe: "int (total (short_form ls) sd ls) \<le> maxlen \<Longrightarrow>
      (\<forall>fl \<in> set (zip frs ls). apart fl data (length (lead fm c sd ls))) \<and> copy_ok (zip frs ls) (data + length (lead fm c sd ls))"
    and c: "c = toc_byte (rp_toc rp) fm"
  shows "opus_repacketizer_out_range_impl m rp i j data maxlen sd pad =
    (if int (total (short_form ls) sd ls) > maxlen then Some (OPUS_BUFFER_TOO_SMALL, m)
     else Some (int (total fm sd ls),
       over m data (lead fm c sd ls @ concat (map (piece m) (zip frs ls)) @ replicate (pad_bytes fm) 0)))"
proof -
  have n: "length ls = nat j - nat i" "length frs = nat j - nat i"
    using length_those [OF lens] length_those [OF frames] by simp_all
  have ne: "ls \<noteq> []" using n(1) assms(1,2) by auto
  let ?t = "if sd then 1 + size_extra (last (map int ls)) else 0"
  have t: "?t = (if sd then 1 + size_extra (int (last ls)) else 0)" using ne by (simp add: last_map)
  have guard: "\<not> (i < 0 \<or> i \<ge> j \<or> j > nb_frames rp)" using assms(1-3) by simp
  show ?thesis
  proof (cases "int (total (short_form ls) sd ls) > maxlen")
    case True
    have "short_header (rp_toc rp) (map int ls) ?t maxlen data m = Some (Inl OPUS_BUFFER_TOO_SMALL) \<or>
        2 < length ls \<and> short_header (rp_toc rp) (map int ls) ?t maxlen data m = Some (Inr (?t, data, m)) \<and>
        code3_header (rp_toc rp) (map int ls) ?t maxlen pad data m = Some (Inl OPUS_BUFFER_TOO_SMALL)"
    proof (cases "2 < length ls")
      case True
      then show ?thesis using code3_header_over [OF ne ls room refl, of "rp_toc rp" sd pad] \<open>int (total (short_form ls) sd ls) > maxlen\<close>
        by (simp add: t short_form_def short_header_def)
    next
      case False
      then show ?thesis using short_header_over [OF ne _ ls(2) room, of "rp_toc rp" sd] \<open>int (total (short_form ls) sd ls) > maxlen\<close>
        by (simp add: t)
    qed
    then show ?thesis using True guard unfolding opus_repacketizer_out_range_impl_def
      by (auto simp: lens frames Let_def)
  next
    case False
    then have fits: "int (total (short_form ls) sd ls) \<le> maxlen" "total (short_form ls) sd ls \<le> nat maxlen" by simp_all
    have safe: "\<forall>fl \<in> set (zip frs ls). apart fl data (length (lead fm c sd ls))" "copy_ok (zip frs ls) (data + length (lead fm c sd ls))"
      using safe [OF fits(1)] by simp_all
    from headers_over [OF ne ls room fm fits(1), of "rp_toc rp"] obtain tot1 ptr m1 where
      short: "short_header (rp_toc rp) (map int ls) ?t maxlen data m = Some (Inr (tot1, ptr, m1))" and
      code3: "(if length (map int ls) > 2 \<or> pad \<and> tot1 < maxlen then code3_header (rp_toc rp) (map int ls) ?t maxlen pad data m1
         else Some (Inr (tot1, ptr, m1))) =
        Some (Inr (int (total fm sd ls), data + 1 + length (header fm ls), over m data (c # header fm ls)))"
      unfolding t c by blast
    have pad: "if pad then total fm sd ls = nat maxlen else pad_bytes fm = 0" "\<not> pad \<Longrightarrow> fm = short_form ls"
      using pad_chosen [OF ne fm fits(2)] by blast+
    have "total fm sd ls \<le> nat maxlen" using pad fits(2) by (cases pad) auto
    then have tot: "data + total fm sd ls \<le> length m" "int (total fm sd ls) \<le> maxlen" using room fits(1) by linarith+
    have T: "total fm sd ls = Suc (length (header fm ls) + length (tail sd ls)) + sum_list ls + pad_bytes fm"
      by (simp add: total_def tail_def)
    have tail: "(if sd then encode_size (last (map int ls)) (over m data (c # header fm ls)) (data + 1 + length (header fm ls))
        else Some (0, over m data (c # header fm ls))) = Some (length (tail sd ls), over m data (lead fm c sd ls))"
    proof (cases sd)
      case True
      then show ?thesis using T tot(1) ls(2) ne over_append [of data "c # header fm ls" "size_bytes (last ls)" m]
        by (simp add: last_map encode_size_over tail_def lead_tail)
    qed (simp add: tail_def lead_tail)
    let ?fls = "zip frs ls" and ?d = "data + 1 + length (header fm ls) + length (tail sd ls)"
    have lead: "data + length (lead fm c sd ls) = ?d" by (simp add: lead_tail)
    have sum: "map snd ?fls = ls" using n by simp
    have pieces: "map (piece (over m data (lead fm c sd ls))) ?fls = map (piece m) ?fls"
      using safe(1) T tot(1) lead by (auto intro!: piece_over)
    have "copy_frames ?fls ?d (over m data (lead fm c sd ls)) =
        Some (?d + sum_list ls, over (over m data (lead fm c sd ls)) ?d (concat (map (piece m) ?fls)))"
      using copy_frames_over [of ?fls "over m data (lead fm c sd ls)" ?d] inside safe(2) T tot(1) lead sum pieces by simp
    also have "over (over m data (lead fm c sd ls)) ?d (concat (map (piece m) ?fls)) = over m data (lead fm c sd ls @ concat (map (piece m) ?fls))"
      using over_append [of data "lead fm c sd ls" "concat (map (piece m) ?fls)" m] T tot(1) lead length_concat_pieces [OF inside] sum by simp
    finally have copy: "copy_frames (zip frs (map nat (map int ls))) ?d (over m data (lead fm c sd ls)) =
        Some (?d + sum_list ls, over m data (lead fm c sd ls @ concat (map (piece m) ?fls)))" by (simp add: comp_def)
    have zeros: "(if pad then put_bytes (replicate (data + nat maxlen - (?d + sum_list ls)) 0) (?d + sum_list ls)
          (over m data (lead fm c sd ls @ concat (map (piece m) ?fls)))
        else Some (?d + sum_list ls, over m data (lead fm c sd ls @ concat (map (piece m) ?fls)))) =
        Some (?d + sum_list ls + pad_bytes fm, over m data (lead fm c sd ls @ concat (map (piece m) ?fls) @ replicate (pad_bytes fm) 0))"
    proof (cases pad)
      case True
      then have "data + nat maxlen - (?d + sum_list ls) = pad_bytes fm" using pad(1) T by simp
      then show ?thesis
        using True T tot(1) lead length_concat_pieces [OF inside] sum
          over_append [of data "lead fm c sd ls @ concat (map (piece m) ?fls)" "replicate (pad_bytes fm) 0" m]
        by (simp add: put_bytes_over add.assoc)
    next
      case False
      then show ?thesis using pad(1) by simp
    qed
    show ?thesis
      using False unfolding opus_repacketizer_out_range_impl_def if_not_P [OF guard] lens frames Let_def
      by (simp only: bind.simps short code3 sum.case prod.case case_prod_conv tail copy zeros) simp
  qed
qed

end
