(* ===== verification/OpusRepackProofs.thy ===== *)
theory OpusRepackProofs
  imports OpusWrite
begin

text \<open>
  What the repacketizer does to packets as lists of frames: a packet is its configuration and the bytes of
  its frames, as the parser finds them. Collecting packets appends their frames, writing a range out gives a
  packet of these frames, and padding and unpadding, in place, change neither configuration nor frames.
\<close>

section \<open>A packet as its frames\<close>

definition no_frames :: "nat list" where "no_frames = replicate 48 0"
definition no_sizes :: "int list" where "no_sizes = replicate 48 0"

definition packet_contents :: "mem \<Rightarrow> nat \<Rightarrow> int \<Rightarrow> bool \<Rightarrow> (8 word \<times> mem list) option" where
  "packet_contents m d len sd =
     (case opus_packet_parse_impl m d len sd (Some no_frames) (Some no_sizes) of
        Some (n, sz, Some fs, Some (toc, po, n_bytes)) \<Rightarrow>
          Some (toc AND 0xFC, map (piece m) (zip (take (nat n) fs) (map nat (take (nat n) sz))))
      | _ \<Rightarrow> None)"

lemma framed_length: "framed m d len sd fm c ls \<Longrightarrow> ls \<noteq> [] \<and> length ls \<le> 48"
  using form_ok_length [of fm c ls] by (simp add: framed_def framing_ok_def)

lemma contents_framed:
  assumes "framed m d len sd fm c ls"
  shows "packet_contents m d len sd = Some (c AND 0xFC, map (piece m) (zip (offsets (d + length (lead fm c sd ls)) ls) ls))"
  using parse_framed [OF assms, of no_sizes "Some no_frames"] framed_length [OF assms]
  by (simp add: packet_contents_def no_frames_def no_sizes_def comp_def)

lemma contents_SomeD:
  assumes "packet_contents m d len sd = Some (c, frs)" and "int d + len \<le> int (length m)"
  obtains fm toc ls where "framed m d len sd fm toc ls" "c = toc AND 0xFC"
    "frs = map (piece m) (zip (offsets (d + length (lead fm toc sd ls)) ls) ls)"
proof -
  have "enough m (Suc d) c (length no_sizes)" for c by (simp add: enough_def no_sizes_def)
  from parse_rejects_or_framed [OF assms(2) this, of sd "Some no_frames"] assms(1)
  obtain fm toc ls where f: "framed m d len sd fm toc ls" by (auto simp: packet_contents_def)
  then show ?thesis using contents_framed [OF f] assms(1) that by simp
qed

lemma framed_bounds:
  assumes "framed m d len sd fm c ls"
  shows "int (total fm sd ls) \<le> len" and "\<not> sd \<Longrightarrow> int (total fm sd ls) = len" and "\<forall>l \<in> set ls. l \<le> 1275"
    and "length ls * frame_samples c \<le> 5760"
proof -
  show "int (total fm sd ls) \<le> len" "\<not> sd \<Longrightarrow> int (total fm sd ls) = len" "\<forall>l \<in> set ls. l \<le> 1275"
    using assms by (auto simp: framed_def framing_ok_def lead_total Let_def split: if_splits)
  have "frame_samples c \<le> 2880" using samples_at(4) [of "[c]" 0 c] by simp
  then show "length ls * frame_samples c \<le> 5760"
    using assms by (cases fm) (auto simp: framed_def framing_ok_def)
qed

lemma pieces_lie:
  assumes "lies m d (concat frs)" and "map length frs = ls"
  shows "map (piece m) (zip (offsets d ls) ls) = frs"
  using assms
proof (induction frs arbitrary: d ls)
  case (Cons f frs)
  have "piece m (d, length f) = f" using Cons.prems(1) lies_iff [of m d f] by (simp add: piece_def)
  then show ?case using Cons by auto
qed simp

text \<open>What was written is a packet of the frames.\<close>

lemma written_framed:
  assumes "framing_ok fm c ls" and "map length frs = ls" and "d + total fm sd ls \<le> length m"
    and "if sd then int (total fm sd ls) \<le> len else int (total fm sd ls) = len"
  defines "m' \<equiv> over m d (lead fm c sd ls @ concat frs @ replicate (pad_bytes fm) 0)"
  shows "framed m' d len sd fm c ls" and "packet_contents m' d len sd = Some (c AND 0xFC, frs)" and "length m' = length m"
proof -
  have n: "length (concat frs) = sum_list ls" using assms(2) by (auto simp: length_concat)
  then have len: "length (lead fm c sd ls @ concat frs @ replicate (pad_bytes fm) 0) = total fm sd ls"
    by (simp add: lead_total [symmetric, of fm sd ls c])
  have lies: "lies m' d (lead fm c sd ls @ concat frs @ replicate (pad_bytes fm) 0)"
    unfolding m'_def using assms(3) len by (intro lies_over_same) simp
  show f: "framed m' d len sd fm c ls"
    using assms(1,4) lies unfolding framed_def lead_total by (simp add: Let_def)
  show "packet_contents m' d len sd = Some (c AND 0xFC, frs)"
    using lies contents_framed [OF f] pieces_lie [OF _ assms(2)] by simp
  show "length m' = length m" unfolding m'_def using assms(3) len by simp
qed

lemma chosen_ok:
  assumes "ls \<noteq> []" and "\<forall>l \<in> set ls. l \<le> 1275" and "length ls * frame_samples c \<le> 5760"
    and "fm = chosen sd pad n ls"
  shows "framing_ok fm (toc_byte c fm) ls"
proof -
  have "frame_samples (toc_byte c fm) = frame_samples c" by (rule same_samples) simp
  moreover have "(if length ls = 1 then True else length ls \<noteq> 2 \<longrightarrow> 2 < length ls)" using assms(1) by (cases ls; cases "tl ls") auto
  ultimately show ?thesis
    using assms by (auto simp: framing_ok_def chosen_def short_form_def many_form_def pad_form_def Let_def split: if_splits)
qed

section \<open>Collecting packets\<close>

definition duration :: "8 word \<Rightarrow> nat" where
  "duration c = frame_samples c div 6"

text \<open>
  Duration in samples at 8 kHz; a repacketizer holds at most 120 ms, 960 samples, and so never more
  frames than its arrays have places.
\<close>

definition entries :: "OpusRepacketizer \<Rightarrow> (nat \<times> int) list" where
  "entries rp = zip (take (nat (nb_frames rp)) (rp_frames rp)) (take (nat (nb_frames rp)) (rp_len rp))"

definition rp_ok :: "mem \<Rightarrow> OpusRepacketizer \<Rightarrow> bool" where
  "rp_ok m rp \<longleftrightarrow>
     length (rp_frames rp) = 48 \<and> length (rp_len rp) = 48 \<and> 0 \<le> nb_frames rp \<and>
     (0 < nb_frames rp \<longrightarrow> rp_framesize rp = int (duration (rp_toc rp)) \<and> nb_frames rp * rp_framesize rp \<le> 960) \<and>
     (\<forall>(f, l) \<in> set (entries rp). 0 \<le> l \<and> l \<le> 1275 \<and> f + nat l \<le> length m)"

definition collected :: "mem \<Rightarrow> OpusRepacketizer \<Rightarrow> mem list" where
  "collected m rp = map (\<lambda>(f, l). piece m (f, nat l)) (entries rp)"

lemma duration_bounds: "20 \<le> duration c"
  using samples_at(3) [of "[c]" 0 c] by (simp add: duration_def)

lemma duration_samples: "frame_samples c = 6 * duration c"
  using samples_at(5) [of "[c]" 0 c] by (simp add: duration_def)

lemma rp_ok_nb: "rp_ok m rp \<Longrightarrow> nat (nb_frames rp) \<le> 48"
proof (cases "0 < nb_frames rp")
  case True
  assume "rp_ok m rp"
  then have "rp_framesize rp = int (duration (rp_toc rp))" "nb_frames rp * rp_framesize rp \<le> 960" using True unfolding rp_ok_def by blast+
  then have "nb_frames rp * int (duration (rp_toc rp)) \<le> 960" by (simp only:)
  moreover have "nb_frames rp * 20 \<le> nb_frames rp * int (duration (rp_toc rp))"
    using True duration_bounds [of "rp_toc rp"] by (intro mult_left_mono) simp_all
  ultimately show ?thesis by linarith
qed simp

lemma nb_frames_framed:
  assumes "framed m d len sd fm c ls"
  shows "opus_packet_get_nb_frames m d len = Some (int (length ls))"
proof -
  have c: "rd m d = Some c" "c AND 3 = code fm" "form_ok fm c ls" using assms by (simp_all add: framed_def framing_ok_def lead_def)
  have len: "1 \<le> len" using framed_bounds(1) [OF assms] by (simp add: total_def)
  show ?thesis
  proof (cases fm)
    case (Many vbr pad)
    have "2 \<le> len" using framed_bounds(1) [OF assms] by (simp add: total_def Many)
    moreover have "rd m (Suc d) = Some (count_byte (length ls) vbr (pad \<noteq> None))" using assms by (simp add: framed_def lead_def Many)
    moreover have "length ls < 64" using framed_length [OF assms] by simp
    ultimately show ?thesis using c Many count_byte_parts(1) [of "length ls" vbr "pad \<noteq> None"]
      by (simp add: opus_packet_get_nb_frames_def Let_def uint_nat del: of_nat_unat)
  qed (use c len in \<open>simp_all add: opus_packet_get_nb_frames_def\<close>)
qed

lemma nb_frames_enough:
  assumes "opus_packet_get_nb_frames m d len = Some k" and "1 \<le> k" and "k \<le> int n" and "rd m d = Some c"
  shows "enough m (Suc d) c n"
  using assms by (auto simp: opus_packet_get_nb_frames_def enough_def Let_def uint_nat OPUS_BAD_ARG_def OPUS_INVALID_PACKET_def
      split: if_splits simp del: of_nat_unat)

lemma nb_frames_defined:
  assumes "int d + len \<le> int (length m)"
  shows "\<exists>k. opus_packet_get_nb_frames m d len = Some k"
  using assms by (auto simp: opus_packet_get_nb_frames_def Let_def)

lemma at_most_48:
  assumes "n * int (duration c) \<le> 960"
  shows "n \<le> 48"
proof (rule ccontr)
  assume "\<not> n \<le> 48"
  then have "49 * 20 \<le> n * int (duration c)" using duration_bounds [of c] by (intro mult_mono) simp_all
  then show False using assms by simp
qed

text \<open>What \<open>opus_repacketizer_cat\<close> takes: a packet with the configuration of the frames collected, as long as there are at most 120 ms.\<close>

lemma cat_takes:
  assumes ok: "rp_ok m rp" and f: "framed m d len sd fm c ls"
    and config: "nb_frames rp = 0 \<or> rp_toc rp AND 0xFC = c AND 0xFC"
    and room: "(int (length ls) + nb_frames rp) * int (duration c) \<le> 960"
  shows "opus_repacketizer_cat_impl m rp d len sd = Some (OPUS_OK,
    rp\<lparr>rp_toc := (if nb_frames rp = 0 then c else rp_toc rp), nb_frames := nb_frames rp + int (length ls),
       rp_frames := take (nat (nb_frames rp)) (rp_frames rp) @ offsets (d + length (lead fm c sd ls)) ls @ drop (nat (nb_frames rp) + length ls) (rp_frames rp),
       rp_len := take (nat (nb_frames rp)) (rp_len rp) @ map int ls @ drop (nat (nb_frames rp) + length ls) (rp_len rp),
       rp_framesize := int (duration c)\<rparr>)"
proof -
  let ?k = "nat (nb_frames rp)"
  have k: "length (rp_frames rp) = 48" "length (rp_len rp) = 48" "0 \<le> nb_frames rp" using ok by (auto simp: rp_ok_def)
  have c: "rd m d = Some c" using f by (simp add: framed_def lead_def)
  have len: "\<not> len < 1" using framed_bounds(1) [OF f] by (simp add: total_def)
  have size: "int (length ls) + nb_frames rp \<le> 48" using at_most_48 [OF room] .
  have n: "length ls \<le> length (drop ?k (rp_len rp))" "case Some (drop ?k (rp_frames rp)) of None \<Rightarrow> True | Some fs \<Rightarrow> length ls \<le> length fs"
    using k size by simp_all
  have ne: "0 < length ls" using framed_length [OF f] by simp
  have fs: "rp_framesize rp = int (duration c)" if "nb_frames rp \<noteq> 0"
    using that ok config k(3) same_samples [of "rp_toc rp" c] by (simp add: rp_ok_def duration_def)
  have parse: "opus_packet_parse_impl m d len sd (Some (drop ?k (rp_frames rp))) (Some (drop ?k (rp_len rp))) =
      Some (int (length ls), map int ls @ drop (length ls) (drop ?k (rp_len rp)),
        Some (offsets (d + length (lead fm c sd ls)) ls @ drop (length ls) (drop ?k (rp_frames rp))),
        Some (c, int (length (lead fm c sd ls)), int (total fm sd ls)))"
    using parse_framed [OF f n] by (simp add: lead_total)
  note unfolded = opus_repacketizer_cat_impl_def samples_at(2) [OF c] nb_frames_framed [OF f] duration_def [symmetric]
  show ?thesis
  proof (cases "nb_frames rp = 0")
    case True
    then show ?thesis using parse len c room ne by (simp add: unfolded Let_def)
  next
    case False
    then show ?thesis using parse len c room ne config fs [OF False] by (simp add: unfolded Let_def add.commute)
  qed
qed

lemma duration_config: "duration (c AND 0xFC) = duration c"
proof -
  have "(c AND 0xFC) AND 0xFC = c AND 0xFC" by (simp add: byte_eq_iff less_8 bit_simps)
  from same_samples [OF this] show ?thesis by (simp add: duration_def)
qed

lemma entries_lies:
  assumes "framed m d len sd fm c ls" and "int d + len \<le> int (length m)"
  shows "\<forall>(f, l) \<in> set (zip (offsets (d + length (lead fm c sd ls)) ls) ls). l \<le> 1275 \<and> f + l \<le> length m"
proof -
  have "d + total fm sd ls \<le> length m" using framed_bounds(1) [OF assms(1)] assms(2) by linarith
  moreover have "length (lead fm c sd ls) + sum_list ls \<le> total fm sd ls" using lead_total [of fm c sd ls] by simp
  ultimately show ?thesis
    using framed_bounds(3) [OF assms(1)] set_zip_offsets [of _ "d + length (lead fm c sd ls)" ls]
    by (fastforce dest: set_zip_rightD)
qed

lemma cat_takes_entries:
  assumes ok: "rp_ok m rp" and room: "int d + len \<le> int (length m)" and f: "framed m d len sd fm c ls"
    and config: "nb_frames rp = 0 \<or> rp_toc rp AND 0xFC = c AND 0xFC"
    and fits: "(int (length ls) + nb_frames rp) * int (duration c) \<le> 960"
  shows "\<exists>rp'. opus_repacketizer_cat_impl m rp d len sd = Some (OPUS_OK, rp') \<and> rp_ok m rp' \<and>
    rp_toc rp' AND 0xFC = c AND 0xFC \<and> nb_frames rp' = nb_frames rp + int (length ls) \<and>
    entries rp' = entries rp @ zip (offsets (d + length (lead fm c sd ls)) ls) (map int ls)"
proof -
  let ?k = "nat (nb_frames rp)"
  have k: "length (rp_frames rp) = 48" "length (rp_len rp) = 48" "0 \<le> nb_frames rp" using ok by (auto simp: rp_ok_def)
  note cat = cat_takes [OF ok f config fits]
  define rp' where "rp' = rp\<lparr>rp_toc := (if nb_frames rp = 0 then c else rp_toc rp), nb_frames := nb_frames rp + int (length ls),
       rp_frames := take ?k (rp_frames rp) @ offsets (d + length (lead fm c sd ls)) ls @ drop (?k + length ls) (rp_frames rp),
       rp_len := take ?k (rp_len rp) @ map int ls @ drop (?k + length ls) (rp_len rp), rp_framesize := int (duration c)\<rparr>"
  have size: "?k + length ls \<le> 48" using at_most_48 [OF fits] k(3) by linarith
  have nat: "nat (nb_frames rp + int (length ls)) = ?k + length ls" using k(3) by simp
  have entries: "entries rp' = entries rp @ zip (offsets (d + length (lead fm c sd ls)) ls) (map int ls)"
    using k size by (simp add: entries_def rp'_def nat)
  have toc: "rp_toc rp' AND 0xFC = c AND 0xFC" using config by (auto simp: rp'_def)
  have dur: "duration (rp_toc rp') = duration c" using duration_config [of "rp_toc rp'"] duration_config [of c] toc by simp
  have "rp_ok m rp'"
    unfolding rp_ok_def entries
    using ok entries_lies [OF f room] k size fits dur
    by (auto simp: rp_ok_def rp'_def zip_map2 add.commute)
  then show ?thesis using cat toc entries by (simp add: rp'_def)
qed

lemma length_collected:
  assumes "rp_ok m rp"
  shows "length (collected m rp) = nat (nb_frames rp)"
  using rp_ok_nb [OF assms] assms by (simp add: collected_def entries_def rp_ok_def)

text \<open>The lists the fields of a repacketizer stand for: the configuration and the frames collected.\<close>

definition cat_spec :: "8 word \<Rightarrow> mem list \<Rightarrow> (8 word \<times> mem list) option \<Rightarrow> bool" where
  "cat_spec c frs p =
     (case p of None \<Rightarrow> False
      | Some (c', frs') \<Rightarrow> (frs = [] \<or> c' = c) \<and> (length frs + length frs') * duration c' \<le> 960)"

lemma rp_ok_same:
  assumes "rp_ok m rp" and "nb_frames rp' = nb_frames rp" and "entries rp' = entries rp"
    and "length (rp_frames rp') = 48" and "length (rp_len rp') = 48"
    and "nb_frames rp \<noteq> 0 \<Longrightarrow> rp_toc rp' = rp_toc rp \<and> rp_framesize rp' = rp_framesize rp"
  shows "rp_ok m rp' \<and> collected m rp' = collected m rp"
  using assms by (auto simp: rp_ok_def collected_def)

text \<open>The errors: the repacketizer may have taken the first byte of the packet, but no frame.\<close>

lemma cat_refuses:
  assumes ok: "rp_ok m rp" and room: "int d + len \<le> int (length m)"
    and no: "\<And>fm c ls. framed m d len sd fm c ls \<Longrightarrow> nb_frames rp = 0 \<or> rp_toc rp AND 0xFC = c AND 0xFC \<Longrightarrow>
      960 < (int (length ls) + nb_frames rp) * int (duration c)"
  shows "\<exists>ret rp'. opus_repacketizer_cat_impl m rp d len sd = Some (ret, rp') \<and> ret < 0 \<and> rp_ok m rp' \<and> collected m rp' = collected m rp \<and>
    (nb_frames rp \<noteq> 0 \<longrightarrow> rp_toc rp' = rp_toc rp)"
proof (cases "len < 1 \<or> (nb_frames rp \<noteq> 0 \<and> rp_toc rp AND 0xFC \<noteq> m ! d AND 0xFC)")
  case True
  then show ?thesis using ok room by (auto simp: opus_repacketizer_cat_impl_def OPUS_INVALID_PACKET_def)
next
  case False
  define c where "c = m ! d"
  define rp0 where "rp0 = (if nb_frames rp = 0 then rp\<lparr>rp_toc := c, rp_framesize := int (duration c)\<rparr> else rp)"
  let ?k = "nat (nb_frames rp)"
  have c: "rd m d = Some c" using False room by (simp add: c_def)
  obtain cur where cur: "opus_packet_get_nb_frames m d len = Some cur" using nb_frames_defined [OF room] by blast
  have k: "length (rp_frames rp) = 48" "length (rp_len rp) = 48" "0 \<le> nb_frames rp" using ok by (auto simp: rp_ok_def)
  have rp0: "nb_frames rp0 = nb_frames rp" "rp_frames rp0 = rp_frames rp" "rp_len rp0 = rp_len rp" "entries rp0 = entries rp"
    "nb_frames rp \<noteq> 0 \<Longrightarrow> rp0 = rp" by (simp_all add: rp0_def entries_def)
  have fs: "rp_framesize rp0 = int (duration c)"
    using False ok k(3) same_samples [of "rp_toc rp" c] by (auto simp: rp0_def rp_ok_def duration_def c_def)
  have guard: "\<not> len < 1" "\<not> (nb_frames rp \<noteq> 0 \<and> rp_toc rp AND 0xFC \<noteq> c AND 0xFC)" using False by (auto simp: c_def)
  have cat: "opus_repacketizer_cat_impl m rp d len sd =
      (if cur < 1 \<or> (cur + nb_frames rp) * int (duration c) > 960 then Some (OPUS_INVALID_PACKET, rp0)
       else do { (ret, szs, frs, r) \<leftarrow> opus_packet_parse_impl m d len sd (Some (drop ?k (rp_frames rp))) (Some (drop ?k (rp_len rp)));
                 fs \<leftarrow> frs;
                 (let rp' = rp0\<lparr>rp_frames := take ?k (rp_frames rp) @ fs, rp_len := take ?k (rp_len rp) @ szs\<rparr>
                  in if ret < 1 then Some (ret, rp') else Some (OPUS_OK, rp'\<lparr>nb_frames := nb_frames rp' + cur\<rparr>)) })"
    unfolding opus_repacketizer_cat_impl_def if_not_P [OF guard(1)] c bind.simps if_not_P [OF guard(2)]
      samples_at(2) [OF c] duration_def [symmetric] cur rp0_def [symmetric]
    by (simp only: Let_def bind.simps rp0_def [symmetric] rp0(1-3) fs)
  have ok0: "rp_ok m rp0 \<and> collected m rp0 = collected m rp" by (rule rp_ok_same [OF ok]) (use k rp0 in auto)
  show ?thesis
  proof (cases "cur < 1 \<or> (cur + nb_frames rp) * int (duration c) > 960")
    case True
    then show ?thesis using cat ok0 rp0(5) by (auto simp: OPUS_INVALID_PACKET_def)
  next
    case small: False
    then have "cur + nb_frames rp \<le> 48" by (intro at_most_48 [of _ c]) simp
    then have "cur \<le> int (length (drop ?k (rp_len rp)))" using k by simp
    then have "enough m (Suc d) c (length (drop ?k (rp_len rp)))" using nb_frames_enough [OF cur] small c by simp
    then have "rd m d = Some b \<Longrightarrow> enough m (Suc d) b (length (drop ?k (rp_len rp)))" for b using c by simp
    note parse_rejects_or_framed [OF room this]
    then consider "\<exists>fm c ls. framed m d len sd fm c ls" | "\<exists>e sz'.
        opus_packet_parse_impl m d len sd (Some (drop ?k (rp_frames rp))) (Some (drop ?k (rp_len rp))) =
          Some (e, sz', Some (drop ?k (rp_frames rp)), None) \<and>
        e = (if len < 0 then OPUS_BAD_ARG else OPUS_INVALID_PACKET) \<and> length sz' = length (drop ?k (rp_len rp))"
      by blast
    then show ?thesis
    proof (cases; elim exE conjE)
      fix fm c' ls assume f: "framed m d len sd fm c' ls"
      moreover have "c' = c" using f c by (simp add: framed_def lead_def)
      ultimately show ?thesis using no [OF f] nb_frames_framed [OF f] cur small False c_def by auto
    next
      fix e sz'
      assume p: "opus_packet_parse_impl m d len sd (Some (drop ?k (rp_frames rp))) (Some (drop ?k (rp_len rp))) =
          Some (e, sz', Some (drop ?k (rp_frames rp)), None)"
        "e = (if len < 0 then OPUS_BAD_ARG else OPUS_INVALID_PACKET)" "length sz' = length (drop ?k (rp_len rp))"
      define rp' where "rp' = rp0\<lparr>rp_frames := rp_frames rp, rp_len := take ?k (rp_len rp) @ sz'\<rparr>"
      have "e < 0" using p(2) by (simp add: OPUS_BAD_ARG_def OPUS_INVALID_PACKET_def split: if_splits)
      then have "opus_repacketizer_cat_impl m rp d len sd = Some (e, rp')"
        using cat small p(1) by (simp add: rp'_def Let_def)
      moreover have "rp_ok m rp' \<and> collected m rp' = collected m rp0"
        using ok0 k rp0 p(3) \<open>cur + nb_frames rp \<le> 48\<close> small
        by (intro rp_ok_same) (auto simp: rp'_def entries_def)
      ultimately show ?thesis using \<open>e < 0\<close> ok0 rp0(5) by (auto simp: rp'_def)
    qed
  qed
qed

lemma cat_refines:
  assumes ok: "rp_ok m rp" and room: "int d + len \<le> int (length m)"
  shows "\<exists>ret rp'. opus_repacketizer_cat_impl m rp d len sd = Some (ret, rp') \<and> rp_ok m rp' \<and>
    (if cat_spec (rp_toc rp AND 0xFC) (collected m rp) (packet_contents m d len sd)
     then ret = OPUS_OK \<and> packet_contents m d len sd = Some (rp_toc rp' AND 0xFC, drop (length (collected m rp)) (collected m rp')) \<and>
       take (length (collected m rp)) (collected m rp') = collected m rp
     else ret < 0 \<and> collected m rp' = collected m rp \<and> (collected m rp \<noteq> [] \<longrightarrow> rp_toc rp' = rp_toc rp))"
proof (cases "cat_spec (rp_toc rp AND 0xFC) (collected m rp) (packet_contents m d len sd)")
  case True
  let ?k = "nat (nb_frames rp)"
  obtain c' frs where pc: "packet_contents m d len sd = Some (c', frs)" using True by (auto simp: cat_spec_def split: option.splits)
  from contents_SomeD [OF this room] obtain fm c ls where f: "framed m d len sd fm c ls" "c' = c AND 0xFC"
    "frs = map (piece m) (zip (offsets (d + length (lead fm c sd ls)) ls) ls)" by blast
  have n: "length frs = length ls" by (simp add: f(3))
  have k: "length (rp_frames rp) = 48" "length (rp_len rp) = 48" "0 \<le> nb_frames rp" using ok by (auto simp: rp_ok_def)
  have col: "length (collected m rp) = ?k" by (rule length_collected [OF ok])
  have config: "nb_frames rp = 0 \<or> rp_toc rp AND 0xFC = c AND 0xFC" "(?k + length ls) * duration c \<le> 960"
    using True pc n k(3) col by (auto simp: cat_spec_def f(2) duration_config)
  have "int ((?k + length ls) * duration c) \<le> 960" using config(2) by linarith
  then have room': "(int (length ls) + nb_frames rp) * int (duration c) \<le> 960" using k(3) by (simp add: add.commute)
  from cat_takes_entries [OF ok room f(1) config(1) this] obtain rp' where
    rp': "opus_repacketizer_cat_impl m rp d len sd = Some (OPUS_OK, rp')" "rp_ok m rp'" "rp_toc rp' AND 0xFC = c AND 0xFC"
      "entries rp' = entries rp @ zip (offsets (d + length (lead fm c sd ls)) ls) (map int ls)" by blast
  have "collected m rp' = collected m rp @ frs"
    by (simp add: collected_def rp'(4) f(3) zip_map2 comp_def case_prod_unfold)
  then show ?thesis using True rp' pc f(2) by simp
next
  case False
  have col: "length (collected m rp) = nat (nb_frames rp)" by (rule length_collected [OF ok])
  have nb: "0 \<le> nb_frames rp" using ok by (simp add: rp_ok_def)
  have big: "960 < (int (length ls) + nb_frames rp) * int (duration c)"
    if f: "framed m d len sd fm c ls" and config: "nb_frames rp = 0 \<or> rp_toc rp AND 0xFC = c AND 0xFC" for fm c ls
  proof (rule ccontr)
    assume "\<not> ?thesis"
    then have "int (nat (nb_frames rp) + length ls) * int (duration c) \<le> 960" using nb by (simp add: add.commute)
    then have "int ((nat (nb_frames rp) + length ls) * duration c) \<le> 960" by (simp only: of_nat_mult)
    then have "(nat (nb_frames rp) + length ls) * duration c \<le> 960" by linarith
    then show False using False config col nb contents_framed [OF f] by (auto simp: cat_spec_def duration_config)
  qed
  have "\<exists>ret rp'. opus_repacketizer_cat_impl m rp d len sd = Some (ret, rp') \<and> ret < 0 \<and> rp_ok m rp' \<and> collected m rp' = collected m rp \<and>
      (nb_frames rp \<noteq> 0 \<longrightarrow> rp_toc rp' = rp_toc rp)"
    by (rule cat_refuses [OF ok room]) (rule big)
  then show ?thesis using False col by auto
qed

end
