(* ===== verification/OpusRepackProps.thy ===== *)
theory OpusRepackProps
  imports OpusRepackProofs
begin

text \<open>
  Writing packets out of a repacketizer, and padding and unpadding them in place, also in packets of
  several streams: the frames and the configuration are kept, nothing else of the memory is touched.
\<close>

section \<open>Out of a repacketizer\<close>

lemma map_nth_range: "j \<le> length xs \<Longrightarrow> map ((!) xs) [i ..< j] = take (j - i) (drop i xs)"
  by (rule nth_equalityI) auto

lemma length_entries: "rp_ok m rp \<Longrightarrow> length (entries rp) = nat (nb_frames rp)"
  using length_collected [of m rp] by (simp add: collected_def)

lemma those_rd:
  assumes "\<And>k. k \<in> set ks \<Longrightarrow> rd xs k = Some (g k)"
  shows "those (map (rd xs) ks) = Some (map g ks)"
  using assms by (induction ks) auto

definition range_of :: "nat \<Rightarrow> nat \<Rightarrow> 'a list \<Rightarrow> 'a list" where
  "range_of i j xs = take (j - i) (drop i xs)"

lemma entries_read:
  assumes "rp_ok m rp" and "j \<le> nat (nb_frames rp)"
  shows "those (map (rd (rp_len rp)) [i ..< j]) = Some (map int (map (nat \<circ> snd) (range_of i j (entries rp))))"
    and "those (map (rd (rp_frames rp)) [i ..< j]) = Some (map fst (range_of i j (entries rp)))"
    and "zip (map fst (range_of i j (entries rp))) (map (nat \<circ> snd) (range_of i j (entries rp))) =
      map (\<lambda>(f, l). (f, nat l)) (range_of i j (entries rp))"
proof -
  have n: "length (entries rp) = nat (nb_frames rp)" "nat (nb_frames rp) \<le> 48" "length (rp_frames rp) = 48" "length (rp_len rp) = 48"
    using length_entries [OF assms(1)] rp_ok_nb [OF assms(1)] assms(1) by (simp_all add: rp_ok_def)
  have at: "rd (rp_len rp) k = Some (snd (entries rp ! k)) \<and> rd (rp_frames rp) k = Some (fst (entries rp ! k))" if "k \<in> set [i ..< j]" for k
    using that assms(2) n by (simp add: entries_def)
  have pos: "snd e = int (nat (snd e))" if "e \<in> set (entries rp)" for e using that assms(1) by (auto simp: rp_ok_def)
  have "range_of i j (entries rp) = map ((!) (entries rp)) [i ..< j]" using map_nth_range [of j "entries rp" i] assms(2) n by (simp add: range_of_def)
  moreover have "those (map (rd (rp_len rp)) [i ..< j]) = Some (map (\<lambda>k. snd (entries rp ! k)) [i ..< j])"
    "those (map (rd (rp_frames rp)) [i ..< j]) = Some (map (\<lambda>k. fst (entries rp ! k)) [i ..< j])"
    using at by (blast intro: those_rd)+
  moreover have "map (\<lambda>k. snd (entries rp ! k)) [i ..< j] = map (\<lambda>k. int (nat (snd (entries rp ! k)))) [i ..< j]"
    using pos n(1) assms(2) by auto
  ultimately show "those (map (rd (rp_len rp)) [i ..< j]) = Some (map int (map (nat \<circ> snd) (range_of i j (entries rp))))"
    "those (map (rd (rp_frames rp)) [i ..< j]) = Some (map fst (range_of i j (entries rp)))"
    by (simp_all add: comp_def)
  show "zip (map fst (range_of i j (entries rp))) (map (nat \<circ> snd) (range_of i j (entries rp))) =
      map (\<lambda>(f, l). (f, nat l)) (range_of i j (entries rp))"
    by (simp add: zip_map_map zip_same_conv_map case_prod_unfold)
qed

text \<open>The whole of \<open>opus_repacketizer_out_range_impl\<close> on a repacketizer whose frames are not overwritten.\<close>

lemma out_range_frames:
  fixes sd pad :: bool
  assumes ok: "rp_ok m rp" and ij: "0 \<le> i" "i < j" "j \<le> nb_frames rp" and room: "int data + maxlen \<le> int (length m)"
  defines "es \<equiv> map (\<lambda>(f, l). (f, nat l)) (range_of (nat i) (nat j) (entries rp))"
    and "frs \<equiv> range_of (nat i) (nat j) (collected m rp)"
  defines "ls \<equiv> map length frs"
  defines "fm \<equiv> chosen sd pad (nat maxlen) ls"
  assumes safe: "int (total (short_form ls) sd ls) \<le> maxlen \<Longrightarrow>
    (\<forall>e \<in> set es. apart e data (length (lead fm 0 sd ls))) \<and> copy_ok es (data + length (lead fm 0 sd ls))"
  shows "if int (total (short_form ls) sd ls) > maxlen
    then opus_repacketizer_out_range_impl m rp i j data maxlen sd pad = Some (OPUS_BUFFER_TOO_SMALL, m)
    else \<exists>bs. length bs = total fm sd ls \<and> int (length bs) \<le> maxlen \<and>
      opus_repacketizer_out_range_impl m rp i j data maxlen sd pad = Some (int (length bs), over m data bs) \<and>
      packet_contents (over m data bs) data (int (length bs)) sd = Some (rp_toc rp AND 0xFC, frs) \<and>
      framed (over m data bs) data (int (length bs)) sd fm (toc_byte (rp_toc rp) fm) ls"
proof -
  let ?r = "range_of (nat i) (nat j) (entries rp)"
  have nb: "nat j \<le> nat (nb_frames rp)" using ij by simp
  have inside: "\<forall>e \<in> set es. fst e + snd e \<le> length m \<and> snd e \<le> 1275"
    using ok by (fastforce simp: es_def range_of_def rp_ok_def dest: in_set_takeD in_set_dropD)
  have frs: "frs = map (piece m) es"
    by (simp add: frs_def es_def collected_def range_of_def drop_map take_map comp_def case_prod_unfold)
  have ls: "ls = map snd es" using inside by (auto simp: ls_def frs length_piece)
  have lens: "map (nat \<circ> snd) ?r = ls" by (simp add: ls es_def comp_def case_prod_unfold)
  have zip: "zip (map fst ?r) ls = es" using entries_read(3) [OF ok nb, of "nat i"] unfolding lens es_def .
  have n: "length ls = nat j - nat i" using length_entries [OF ok] nb by (simp add: ls es_def range_of_def)
  have n': "ls \<noteq> []" "length ls < 64" using n ij rp_ok_nb [OF ok] nb by auto
  have fm: "fm = chosen sd pad (nat maxlen) ls" by (simp add: fm_def)
  define c where "c = toc_byte (rp_toc rp) fm"
  have lead: "length (lead fm c sd ls) = length (lead fm 0 sd ls)" by (simp add: lead_def)
  have small: "\<forall>l \<in> set ls. l \<le> 1275" using inside by (simp add: ls)
  have out: "opus_repacketizer_out_range_impl m rp i j data maxlen sd pad =
      (if int (total (short_form ls) sd ls) > maxlen then Some (OPUS_BUFFER_TOO_SMALL, m)
       else Some (int (total fm sd ls), over m data (lead fm c sd ls @ concat frs @ replicate (pad_bytes fm) 0)))"
    using out_range_over [OF ij, of ls "map fst ?r" data maxlen m fm sd pad c] entries_read(1,2) [OF ok nb, of "nat i"]
      n' small room inside safe lead unfolding lens zip frs
    by (simp add: fm_def c_def)
  show ?thesis
  proof (cases "int (total (short_form ls) sd ls) > maxlen")
    case True
    then show ?thesis using out by simp
  next
    case False
    let ?bs = "lead fm c sd ls @ concat frs @ replicate (pad_bytes fm) 0"
    have "length (concat frs) = sum_list ls" by (simp add: ls_def length_concat)
    then have len: "length ?bs = total fm sd ls" using lead_total [of fm c sd ls] by simp
    have "total (short_form ls) sd ls \<le> nat maxlen" using False by simp
    then have fits: "total fm sd ls \<le> nat maxlen"
      using pad_chosen [OF n'(1) fm] by (cases pad) auto
    have "length ls * frame_samples (rp_toc rp) \<le> 5760"
    proof -
      have "0 < nb_frames rp" using ij by simp
      then have "rp_framesize rp = int (duration (rp_toc rp))" "nb_frames rp * rp_framesize rp \<le> 960" using ok unfolding rp_ok_def by blast+
      then have "nb_frames rp * int (duration (rp_toc rp)) \<le> 960" by (simp only:)
      moreover have "int (length ls) * int (duration (rp_toc rp)) \<le> nb_frames rp * int (duration (rp_toc rp))"
        using n ij by (intro mult_right_mono) simp_all
      ultimately have "int (length ls * duration (rp_toc rp)) \<le> 960" by simp
      then show ?thesis unfolding duration_samples by linarith
    qed
    then have ok': "framing_ok fm c ls" unfolding c_def by (intro chosen_ok [OF n'(1) small _ fm])
    have lens: "map length frs = ls" by (simp only: ls_def)
    have tot: "data + total fm sd ls \<le> length m" "int (total fm sd ls) \<le> maxlen" using fits room False by linarith+
    have "if sd then int (total fm sd ls) \<le> int (total fm sd ls) else int (total fm sd ls) = int (total fm sd ls)" by simp
    note written_framed(2,1) [OF ok' lens tot(1) this]
    moreover have "c AND 0xFC = rp_toc rp AND 0xFC" "toc_byte (rp_toc rp) fm = c" by (simp_all add: c_def)
    moreover have "int (length ?bs) \<le> maxlen" using tot(2) unfolding len .
    ultimately show ?thesis using out len unfolding if_not_P [OF False] by (intro exI [of _ ?bs]) (simp only: simp_thms)
  qed
qed

text \<open>
  C18. \<open>opus_repacketizer_out_range\<close> writes the frames from \<open>i\<close> to before \<open>j\<close> as one packet with the
  configuration of the repacketizer, if the indexes are in order and the packet fits, and otherwise an
  error and nothing. The buffer must not overlap the frames.
\<close>

theorem opus_repacketizer_out_range_frames:
  assumes "rp_ok m rp" and "0 \<le> maxlen" and "int data + maxlen \<le> int (length m)"
    and "\<forall>(f, l) \<in> set (entries rp). f + nat l \<le> data \<or> data + nat maxlen \<le> f"
  shows "\<exists>ret bs. opus_repacketizer_out_range m rp i j data maxlen = Some (ret, over m data bs) \<and>
    (let frs = take (nat j - nat i) (drop (nat i) (collected m rp));
         n = total (short_form (map length frs)) False (map length frs)
     in if i < 0 \<or> j \<le> i \<or> nb_frames rp < j then ret = OPUS_BAD_ARG \<and> bs = []
        else if maxlen < int n then ret = OPUS_BUFFER_TOO_SMALL \<and> bs = []
        else ret = int n \<and> length bs = n \<and>
          packet_contents (over m data bs) data ret False = Some (rp_toc rp AND 0xFC, frs))"
proof (cases "i < 0 \<or> j \<le> i \<or> nb_frames rp < j")
  case True
  then show ?thesis
    by (intro exI [of _ OPUS_BAD_ARG] exI [of _ "[]"]) (auto simp: opus_repacketizer_out_range_def opus_repacketizer_out_range_impl_def)
next
  case False
  then have ij: "0 \<le> i" "i < j" "j \<le> nb_frames rp" by simp_all
  define es where "es = map (\<lambda>(f, l). (f, nat l)) (range_of (nat i) (nat j) (entries rp))"
  define frs where "frs = range_of (nat i) (nat j) (collected m rp)"
  define ls where "ls = map length frs"
  have inside: "\<forall>e \<in> set es. fst e + snd e \<le> length m"
    using assms(1) by (fastforce simp: es_def range_of_def rp_ok_def dest: in_set_takeD in_set_dropD)
  have "frs = map (piece m) es"
    by (simp add: frs_def es_def collected_def range_of_def drop_map take_map comp_def case_prod_unfold)
  then have ls: "ls = map snd es" using inside by (auto simp: ls_def length_piece)
  have apart: "\<forall>e \<in> set es. apart e data (nat maxlen)"
    using assms(4) by (fastforce simp: es_def range_of_def apart_def dest: in_set_takeD in_set_dropD)
  have safe: "(\<forall>e \<in> set es. apart e data (length (lead fm 0 False ls))) \<and> copy_ok es (data + length (lead fm 0 False ls))"
    if "int (total fm False ls) \<le> maxlen" for fm
  proof -
    have n: "length (lead fm 0 False ls) + sum_list ls \<le> nat maxlen" using that lead_total [of fm 0 False ls] by linarith
    then have "\<forall>e \<in> set es. apart e data (length (lead fm 0 False ls)) \<and> apart e (data + length (lead fm 0 False ls)) (sum_list ls)"
      using apart by (fastforce simp: apart_def)
    then show ?thesis using copy_ok_apart [of es _ "sum_list ls"] by (simp add: ls)
  qed
  have short: "chosen False False k ls = short_form ls" for k by (simp add: chosen_def short_form_def)
  show ?thesis
    using out_range_frames [OF assms(1) ij assms(3), of False False] safe False
    unfolding es_def [symmetric] frs_def [symmetric] ls_def [symmetric] short opus_repacketizer_out_range_def
      range_of_def [symmetric] Let_def
    by (cases "maxlen < int (total (short_form ls) False ls)") (auto intro: exI [of _ "[]"])
qed

theorem opus_repacketizer_out_range_frames_witness:
  "\<exists>m'. opus_repacketizer_out_range [0, 7, 0, 8, 0, 0, 0, 0]
      \<lparr>rp_toc = 0, nb_frames = 2, rp_frames = [1, 3] @ replicate 46 0, rp_len = [1, 1] @ replicate 46 0, rp_framesize = 80\<rparr> 0 2 4 4 = Some (3, m') \<and>
    packet_contents m' 4 3 False = Some (0, [[7], [8]])"
  using opus_repacketizer_out_range_frames [of "[0, 7, 0, 8, 0, 0, 0, 0]"
      "\<lparr>rp_toc = 0, nb_frames = 2, rp_frames = [1, 3] @ replicate 46 0, rp_len = [1, 1] @ replicate 46 0, rp_framesize = 80\<rparr>" 4 4 0 2]
  by (auto simp: rp_ok_def entries_def collected_def piece_def duration_def frame_samples_def config_frame_def total_def
      short_form_def all_equal_def numeral_2_eq_2)

text \<open>
  C17. \<open>opus_repacketizer_cat\<close> keeps the repacketizer in order whatever bytes it is given. It appends the
  frames of a packet, if it has the configuration of the frames collected so far and all together last
  at most 120 ms, and refuses everything else, leaving the frames as they were.
\<close>

theorem opus_repacketizer_cat_appends:
  assumes "rp_ok m rp" and "int data + len \<le> int (length m)"
  shows "\<exists>ret rp'. opus_repacketizer_cat m rp data len = Some (ret, rp') \<and> rp_ok m rp' \<and>
    (if cat_spec (rp_toc rp AND 0xFC) (collected m rp) (packet_contents m data len False)
     then ret = OPUS_OK \<and>
       packet_contents m data len False = Some (rp_toc rp' AND 0xFC, drop (length (collected m rp)) (collected m rp')) \<and>
       take (length (collected m rp)) (collected m rp') = collected m rp
     else ret < 0 \<and> collected m rp' = collected m rp \<and> (collected m rp \<noteq> [] \<longrightarrow> rp_toc rp' = rp_toc rp))"
  unfolding opus_repacketizer_cat_def by (rule cat_refines [OF assms])

section \<open>Packets rewritten in place\<close>

lemma pad_bytes_short: "pad_bytes (short_form ls) = 0"
  by (simp add: short_form_def many_form_def)

text \<open>No framing is shorter than the one without padding.\<close>

lemma short_form_least:
  assumes "form_ok fm c ls"
  shows "length (header (short_form ls) ls) \<le> length (header fm ls)" and "total (short_form ls) sd ls \<le> total fm sd ls"
proof -
  have two: "2 = Suc (Suc 0)" by simp
  show h: "length (header (short_form ls) ls) \<le> length (header fm ls)"
    using assms by (cases fm) (auto simp: short_form_def many_form_def all_equal_def length_Suc_conv two)
  show "total (short_form ls) sd ls \<le> total fm sd ls"
    using h pad_bytes_short [of ls] by (simp add: total_def)
qed

lemma length_pieces:
  assumes "framed m d len sd fm c ls" and "int d + len \<le> int (length m)"
  shows "map length (map (piece m) (zip (offsets (d + length (lead fm c sd ls)) ls) ls)) = ls"
proof -
  have "map (length \<circ> piece m) (zip (offsets (d + length (lead fm c sd ls)) ls) ls) =
      map snd (zip (offsets (d + length (lead fm c sd ls)) ls) ls)"
    by (rule map_cong [OF refl]) (use entries_lies [OF assms] in \<open>auto simp: length_piece\<close>)
  then show ?thesis by simp
qed

lemma rewrite_packet:
  fixes sd pad :: bool and maxlen :: int
  assumes f: "framed m src len sd fm c ls" and room: "int src + len \<le> int (length m)" "int dst + maxlen \<le> int (length m)"
    and rp: "length (rp_frames rp) = 48" "length (rp_len rp) = 48"
    and fits: "int (total (short_form ls) sd ls) \<le> maxlen"
  defines "fm' \<equiv> chosen sd pad (nat maxlen) ls"
  assumes behind: "dst + length (lead fm' c sd ls) \<le> src + length (lead fm c sd ls)"
  shows "\<exists>rp' bs. opus_repacketizer_cat_impl m (opus_repacketizer_init rp) src len sd = Some (OPUS_OK, rp') \<and>
    length (rp_frames rp') = 48 \<and> length (rp_len rp') = 48 \<and> length bs = total fm' sd ls \<and> int (length bs) \<le> maxlen \<and>
    opus_repacketizer_out_range_impl m rp' 0 (nb_frames rp') dst maxlen sd pad = Some (int (length bs), over m dst bs) \<and>
    packet_contents (over m dst bs) dst (int (length bs)) sd = packet_contents m src len sd \<and>
    (\<exists>c'. framed (over m dst bs) dst (int (length bs)) sd fm' c' ls)"
proof -
  let ?rp = "opus_repacketizer_init rp" and ?at = "src + length (lead fm c sd ls)"
  have ok: "rp_ok m ?rp" using rp by (simp add: rp_ok_def opus_repacketizer_init_def entries_def)
  have "6 * (length ls * duration c) \<le> 5760" using framed_bounds(4) [OF f] by (simp add: duration_samples)
  then have "int (length ls * duration c) \<le> 960" by linarith
  then have "(int (length ls) + nb_frames ?rp) * int (duration c) \<le> 960" by (simp add: opus_repacketizer_init_def)
  from cat_takes_entries [OF ok room(1) f _ this] obtain rp' where
    cat: "opus_repacketizer_cat_impl m ?rp src len sd = Some (OPUS_OK, rp')" and rp': "rp_ok m rp'"
      "rp_toc rp' AND 0xFC = c AND 0xFC" "nb_frames rp' = int (length ls)" "entries rp' = zip (offsets ?at ls) (map int ls)"
    by (auto simp: opus_repacketizer_init_def entries_def)
  have ne: "0 < length ls" using framed_length [OF f] by simp
  have range: "range_of (nat 0) (nat (nb_frames rp')) xs = xs" if "length xs = length ls" for xs :: "'a list"
    using that rp'(3) by (simp add: range_of_def)
  have es: "map (\<lambda>(f, l). (f, nat l)) (range_of (nat 0) (nat (nb_frames rp')) (entries rp')) = zip (offsets ?at ls) ls"
    using rp'(4) by (simp add: range_of_def rp'(3) zip_map2 comp_def case_prod_unfold)
  have frs: "range_of (nat 0) (nat (nb_frames rp')) (collected m rp') = map (piece m) (zip (offsets ?at ls) ls)"
    using rp'(4) by (simp add: range_of_def rp'(3) collected_def zip_map2 comp_def case_prod_unfold)
  note ls = length_pieces [OF f room(1)]
  have lead: "length (lead fm' 0 sd ls) = length (lead fm' c sd ls)" by (simp add: lead_def)
  have "\<forall>e \<in> set (zip (offsets ?at ls) ls). apart e dst (length (lead fm' 0 sd ls))"
    using behind unfolding lead apart_def by (auto dest!: set_zip_offsets)
  moreover have "copy_ok (zip (offsets ?at ls) ls) (dst + length (lead fm' 0 sd ls))"
    using behind unfolding lead by (rule copy_ok_forward)
  ultimately have safe: "(\<forall>e \<in> set (zip (offsets ?at ls) ls). apart e dst (length (lead fm' 0 sd ls))) \<and>
      copy_ok (zip (offsets ?at ls) ls) (dst + length (lead fm' 0 sd ls))" by blast
  obtain bs where "length bs = total fm' sd ls" "int (length bs) \<le> maxlen"
    "opus_repacketizer_out_range_impl m rp' 0 (nb_frames rp') dst maxlen sd pad = Some (int (length bs), over m dst bs)"
    "packet_contents (over m dst bs) dst (int (length bs)) sd = Some (rp_toc rp' AND 0xFC, map (piece m) (zip (offsets ?at ls) ls))"
    "framed (over m dst bs) dst (int (length bs)) sd fm' (toc_byte (rp_toc rp') fm') ls"
    using out_range_frames [OF rp'(1) order_refl _ order_refl room(2), of sd pad] fits ne safe
    unfolding es frs ls fm'_def [symmetric] by (auto simp: rp'(3))
  moreover have "length (rp_frames rp') = 48" "length (rp_len rp') = 48" using rp'(1) by (simp_all add: rp_ok_def)
  moreover have "packet_contents m src len sd = Some (rp_toc rp' AND 0xFC, map (piece m) (zip (offsets ?at ls) ls))"
    using rp'(2) contents_framed [OF f] by simp
  ultimately show ?thesis using cat by (intro exI [of _ rp'] exI [of _ bs]) (simp only: simp_thms, blast)
qed

lemma chosen_no_pad [simp]: "chosen sd False n ls = short_form ls"
  by (simp add: chosen_def short_form_def)

text \<open>Padding more never has fewer zeros at the end, so the header of the padded packet ends before the frames moved behind it.\<close>

lemma zeros_mono: "x \<le> y \<Longrightarrow> 254 * (x div 255) + x mod 255 \<le> 254 * (y div 255) + y mod (255 :: nat)"
proof -
  assume "x \<le> y"
  then have "x div 255 \<le> y div 255" by (rule div_le_mono)
  moreover have "x = 255 * (x div 255) + x mod 255" "y = 255 * (y div 255) + y mod 255" by simp_all
  moreover have "x mod 255 < 255" by simp
  ultimately show ?thesis using \<open>x \<le> y\<close> by linarith
qed

lemma pad_form_zeros:
  assumes "form_ok fm c ls" and "total fm sd ls < n"
  shows "pad_bytes fm \<le> pad_bytes (pad_form sd n ls)"
proof -
  define g where "g a = (if a = 0 then 0 else 254 * ((a - 1) div 255) + (a - 1) mod 255)" for a :: nat
  have form: "pad_bytes (pad_form sd n ls) = g (n - total (many_form ls None) sd ls)"
    by (simp add: pad_form_def many_form_def g_def Let_def)
  show ?thesis
  proof (cases "pad_bytes fm = 0")
    case False
    then obtain v k b where fm: "fm = Many v (Some (k, b))" by (cases fm rule: pad_bytes.cases) auto
    have b: "b \<le> 254" using assms(1) by (simp add: fm)
    have v: "\<not> v \<Longrightarrow> all_equal ls" using assms(1) by (simp add: fm)
    then have "total (many_form ls None) sd ls + (255 * k + b + 1) \<le> total fm sd ls"
      by (cases "all_equal ls") (auto simp: total_def fm many_form_def)
    then have "255 * k + b \<le> n - total (many_form ls None) sd ls - 1" using assms(2) by linarith
    from zeros_mono [OF this] have "254 * k + b \<le> g (n - total (many_form ls None) sd ls)"
      using b assms(2) \<open>total (many_form ls None) sd ls + (255 * k + b + 1) \<le> total fm sd ls\<close> by (simp add: g_def)
    then show ?thesis using form by (simp add: fm)
  qed simp
qed

lemma framed_moved:
  assumes f: "framed m d len sd fm c ls" and same: "take n (drop d' m') = take n (drop d m)"
    and n: "total fm sd ls \<le> n" "d + n \<le> length m" "d' + n \<le> length m'"
  shows "framed m' d' len sd fm c ls" and "packet_contents m' d' len sd = packet_contents m d len sd"
proof -
  let ?h = "length (lead fm c sd ls)"
  have h: "?h + sum_list ls \<le> n" using n(1) lead_total [of fm c sd ls] by simp
  have at: "take k (drop (d' + a) m') = take k (drop (d + a) m)" if "a + k \<le> n" for a k
    using arg_cong [OF same, of "\<lambda>xs. take k (drop a xs)"] that by (simp add: take_drop min_absorb1 min_absorb2 ac_simps take_drop)
  have "lies m d (lead fm c sd ls)" using f by (simp add: framed_def)
  then have "lies m' d' (lead fm c sd ls)" using at [of 0 ?h] h n(3) by (simp add: lies_iff)
  then show f': "framed m' d' len sd fm c ls" using f by (simp add: framed_def)
  have shift: "offsets (e + ?h) ls = map (\<lambda>x. e + x) (offsets ?h ls)" for e
  proof -
    have "offsets (e + x) ls = map (\<lambda>x. e + x) (offsets x ls)" for x by (induction ls arbitrary: x) (simp_all add: add.assoc)
    then show ?thesis .
  qed
  have ends: "a + k \<le> n" if "(a, k) \<in> set (zip (offsets ?h ls) ls)" for a k
    using set_zip_offsets [OF that] h by simp
  have "map (piece m') (zip (offsets (d' + ?h) ls) ls) = map (piece m) (zip (offsets (d + ?h) ls) ls)"
    using ends by (auto simp: shift zip_map1 piece_def intro!: at)
  then show "packet_contents m' d' len sd = packet_contents m d len sd"
    by (simp add: contents_framed [OF f] contents_framed [OF f'])
qed

lemma over_covers:
  assumes "d \<le> e" and "e + length xs \<le> d + length ys" and "d + length ys \<le> length m"
  shows "over (over m e xs) d ys = over m d ys"
proof -
  have "drop (d + length ys) (over m e xs) = drop (d + length ys) m"
    using assms by (simp add: over_def)
  moreover have "take d (over m e xs) = take d m" using assms by (simp add: over_def)
  ultimately show ?thesis by (simp add: over_def)
qed

lemma over_self: "d + n \<le> length m \<Longrightarrow> over m d (take n (drop d m)) = m"
proof -
  assume n: "d + n \<le> length m"
  have "take n (drop d m) @ drop n (drop d m) = drop d m" by (rule append_take_drop_id)
  then show ?thesis using n by (simp add: over_def add.commute)
qed

text \<open>
  C19. Unpadding in place refuses what is not a packet without touching it. Of a packet it leaves one
  with the same configuration and the same frames, writing only its bytes, and no packet with these
  frames is shorter.
\<close>

theorem opus_packet_unpad_least:
  assumes room: "int data + len \<le> int (length m)" and rp: "length (rp_frames rp) = 48" "length (rp_len rp) = 48"
  shows "case packet_contents m data len False of
      None \<Rightarrow> \<exists>e. opus_packet_unpad rp m data len = Some (e, m) \<and> e < 0
    | Some p \<Rightarrow> \<exists>bs. opus_packet_unpad rp m data len = Some (int (length bs), over m data bs) \<and> int (length bs) \<le> len \<and>
        packet_contents (over m data bs) data (int (length bs)) False = Some p \<and>
        (\<forall>m' d n. int d + n \<le> int (length m') \<and> packet_contents m' d n False = Some p \<longrightarrow> int (length bs) \<le> n)"
proof (cases "packet_contents m data len False")
  case None
  let ?rp = "opus_repacketizer_init rp"
  have ok: "rp_ok m ?rp" using rp by (simp add: rp_ok_def opus_repacketizer_init_def entries_def)
  have "\<not> cat_spec (rp_toc ?rp AND 0xFC) (collected m ?rp) (packet_contents m data len False)" by (simp add: None cat_spec_def)
  with cat_refines [OF ok room, of False] obtain ret rp' where
    "opus_repacketizer_cat_impl m ?rp data len False = Some (ret, rp')" "ret < 0" by auto
  then show ?thesis
    by (simp add: None opus_packet_unpad_def opus_repacketizer_cat_def OPUS_BAD_ARG_def)
next
  case (Some p)
  obtain c frs where p: "p = (c, frs)" by (cases p)
  from contents_SomeD [OF Some [unfolded p] room] obtain fm toc ls where f: "framed m data len False fm toc ls" "c = toc AND 0xFC"
    "frs = map (piece m) (zip (offsets (data + length (lead fm toc False ls)) ls) ls)" .
  have form: "form_ok fm toc ls" using f(1) by (simp add: framed_def framing_ok_def)
  have len: "int (total fm False ls) = len" using framed_bounds(2) [OF f(1)] by simp
  have fits: "int (total (short_form ls) False ls) \<le> len" using short_form_least(2) [OF form, of False] len by simp
  have behind: "data + length (lead (chosen False False (nat len) ls) toc False ls) \<le> data + length (lead fm toc False ls)"
    using short_form_least(1) [OF form] by (simp add: lead_def)
  from rewrite_packet [OF f(1) room room rp fits behind] obtain rp' bs where R:
    "opus_repacketizer_cat_impl m (opus_repacketizer_init rp) data len False = Some (OPUS_OK, rp')" "length bs = total (short_form ls) False ls"
    "opus_repacketizer_out_range_impl m rp' 0 (nb_frames rp') data len False False = Some (int (length bs), over m data bs)"
    "packet_contents (over m data bs) data (int (length bs)) False = Some p" "int (length bs) \<le> len"
    by (auto simp: Some)
  have "\<not> len < 1" using len by (simp add: total_def)
  then have "opus_packet_unpad rp m data len = Some (int (length bs), over m data bs)"
    using R by (simp add: opus_packet_unpad_def opus_repacketizer_cat_def OPUS_OK_def)
  moreover have "int (length bs) \<le> n" if "int d + n \<le> int (length m')" "packet_contents m' d n False = Some p" for m' d n
  proof -
    from contents_SomeD [OF that(2) [unfolded p] that(1)] obtain fm' toc' ls' where g: "framed m' d n False fm' toc' ls'"
      "c = toc' AND 0xFC" "frs = map (piece m') (zip (offsets (d + length (lead fm' toc' False ls')) ls') ls')" .
    have "map length frs = ls" unfolding f(3) by (rule length_pieces [OF f(1) room])
    moreover have "map length frs = ls'" unfolding g(3) by (rule length_pieces [OF g(1) that(1)])
    ultimately have "ls' = ls" by simp
    then have "form_ok fm' toc' ls" "int (total fm' False ls) = n"
      using g(1) framed_bounds(2) [OF g(1)] by (simp_all add: framed_def framing_ok_def)
    then show ?thesis using short_form_least(2) [of fm' toc' ls False] R(2) by simp
  qed
  ultimately show ?thesis using R(4,5) Some by auto
qed

definition blank_repacketizer :: OpusRepacketizer where
  "blank_repacketizer = \<lparr>rp_toc = 0, nb_frames = 0, rp_frames = replicate 48 0, rp_len = replicate 48 0, rp_framesize = 0\<rparr>"

lemma padded_example: "packet_contents ([3, 0x41, 1, 9, 0] @ m) 0 5 False = Some (0, [[9]])"
proof -
  have "framed ([3, 0x41, 1, 9, 0] @ m) 0 5 False (Many False (Some (0, 1))) 3 [1]"
    by (simp add: framed_def framing_ok_def lead_def count_byte_def all_equal_def frame_samples_def config_frame_def)
  from contents_framed [OF this] show ?thesis by (simp add: lead_def piece_def)
qed

theorem opus_packet_unpad_least_witness:
  "\<exists>n m'. opus_packet_unpad blank_repacketizer [3, 0x41, 1, 9, 0] 0 5 = Some (n, m') \<and> packet_contents m' 0 n False = Some (0, [[9]])"
  using opus_packet_unpad_least [of 0 5 "[3, 0x41, 1, 9, 0]" blank_repacketizer] padded_example [of "[]"]
  by (auto simp: blank_repacketizer_def)

lemma pad_keeps:
  assumes room: "int data + new_len \<le> int (length m)" and len: "1 \<le> len" "len < new_len"
    and rp: "length (rp_frames rp) = 48" "length (rp_len rp) = 48"
  shows "\<exists>ret bs. opus_packet_pad rp m data len new_len = Some (ret, over m data bs) \<and> int (length bs) = new_len \<and>
    (case packet_contents m data len False of
      None \<Rightarrow> ret < 0
    | Some p \<Rightarrow> ret = OPUS_OK \<and> packet_contents (over m data bs) data new_len False = Some p)"
proof -
  define src where "src = data + nat (new_len - len)"
  define packet where "packet = take (nat len) (drop data m)"
  define m1 where "m1 = over m src packet"
  have n: "length packet = nat len" "src + nat len \<le> length m" "data + nat len \<le> length m" "src + nat len = data + nat new_len"
    using room len by (simp_all add: packet_def src_def)
  have move: "OPUS_MOVE m src data (nat len) = Some m1" using n by (simp add: OPUS_MOVE_over m1_def packet_def)
  have len1: "length m1 = length m" using n by (simp add: m1_def)
  have same: "take (nat len) (drop src m1) = take (nat len) (drop data m)"
    using lies_over_same [of src packet m] n by (simp add: lies_iff m1_def packet_def)
  have room1: "int src + len \<le> int (length m1)" "int data + new_len \<le> int (length m1)" using n len room len1 by linarith+
  have start: "opus_packet_pad rp m data len new_len =
      do { (ret, rp) \<leftarrow> opus_repacketizer_cat m1 (opus_repacketizer_init rp) src len;
           (if ret \<noteq> OPUS_OK then Some (ret, m1)
            else do { (ret, m) \<leftarrow> opus_repacketizer_out_range_impl m1 rp 0 (nb_frames rp) data new_len False True;
                      Some (if ret > 0 then OPUS_OK else ret, m) }) }"
    using len move by (simp add: opus_packet_pad_def src_def Let_def)
  show ?thesis
  proof (cases "packet_contents m data len False")
    case None
    let ?rp = "opus_repacketizer_init rp"
    have ok: "rp_ok m1 ?rp" using rp by (simp add: rp_ok_def opus_repacketizer_init_def entries_def)
    have "packet_contents m1 src len False = None"
    proof (rule ccontr)
      assume "packet_contents m1 src len False \<noteq> None"
      then obtain c frs where pc: "packet_contents m1 src len False = Some (c, frs)" by auto
      from contents_SomeD [OF pc room1(1)] obtain fm toc ls where f: "framed m1 src len False fm toc ls" .
      have "total fm False ls \<le> nat len" using framed_bounds(1) [OF f] by linarith
      from framed_moved(2) [OF f same [symmetric] this] n len1 pc None show False by simp
    qed
    then have "\<not> cat_spec (rp_toc ?rp AND 0xFC) (collected m1 ?rp) (packet_contents m1 src len False)" by (simp add: cat_spec_def)
    with cat_refines [OF ok room1(1), of False] obtain ret rp' where
      "opus_repacketizer_cat_impl m1 ?rp src len False = Some (ret, rp')" "ret < 0" by auto
    then have "opus_packet_pad rp m data len new_len = Some (ret, m1)"
      by (simp add: start opus_repacketizer_cat_def OPUS_OK_def)
    moreover have "m1 = over m data (take (nat new_len) (drop data m1))"
    proof -
      have "over m1 data (take (nat new_len) (drop data m1)) = over m data (take (nat new_len) (drop data m1))"
        unfolding m1_def by (rule over_covers) (use n len1 in \<open>simp_all add: src_def m1_def\<close>)
      moreover have "data + nat new_len \<le> length m1" using room1(2) len by linarith
      ultimately show ?thesis using over_self [of data "nat new_len" m1] by simp
    qed
    ultimately show ?thesis using \<open>ret < 0\<close> None room1(2) len by (intro exI [of _ ret] exI [of _ "take (nat new_len) (drop data m1)"]) auto
  next
    case (Some p)
    obtain c frs where p: "p = (c, frs)" by (cases p)
    have room0: "int data + len \<le> int (length m)" using room len by simp
    from contents_SomeD [OF Some [unfolded p] room0] obtain fm toc ls where f0: "framed m data len False fm toc ls" .
    have form: "form_ok fm toc ls" using f0 by (simp add: framed_def framing_ok_def)
    have tot: "int (total fm False ls) = len" using framed_bounds(2) [OF f0] by simp
    then have le: "total fm False ls \<le> nat len" "src + nat len \<le> length m1" using n len1 by simp_all
    note f = framed_moved [OF f0 same le(1) n(3) le(2)]
    have fits: "total (short_form ls) False ls \<le> total fm False ls" by (rule short_form_least(2) [OF form])
    then have short: "total (short_form ls) False ls < nat new_len" using tot len by linarith
    let ?fm = "chosen False True (nat new_len) ls"
    have ne: "ls \<noteq> []" using framed_length [OF f0] by simp
    have fm': "?fm = pad_form False (nat new_len) ls" using short by (simp add: chosen_def)
    have total: "total ?fm False ls = nat new_len" using pad_chosen(1) [OF ne refl, of False "nat new_len" True] short by simp
    have "pad_bytes fm \<le> pad_bytes ?fm" unfolding fm' by (rule pad_form_zeros [OF form]) (use tot len in linarith)
    moreover have "length (lead fm toc False ls) + sum_list ls + pad_bytes fm = total fm False ls"
      "length (lead ?fm toc False ls) + sum_list ls + pad_bytes ?fm = total ?fm False ls" by (rule lead_total)+
    ultimately have behind: "data + length (lead ?fm toc False ls) \<le> src + length (lead fm toc False ls)"
      using total tot n(4) by linarith
    have fits': "int (total (short_form ls) False ls) \<le> new_len" using short by simp
    from rewrite_packet [OF f(1) room1 rp fits' behind] obtain rp' bs where R:
      "opus_repacketizer_cat_impl m1 (opus_repacketizer_init rp) src len False = Some (OPUS_OK, rp')" "length bs = nat new_len"
      "opus_repacketizer_out_range_impl m1 rp' 0 (nb_frames rp') data new_len False True = Some (int (length bs), over m1 data bs)"
      "packet_contents (over m1 data bs) data (int (length bs)) False = Some p"
      unfolding total f(2) Some by blast
    have "over m1 data bs = over m data bs" unfolding m1_def
      by (rule over_covers) (use n R(2) in \<open>simp_all add: src_def\<close>)
    moreover have "opus_packet_pad rp m data len new_len = Some (OPUS_OK, over m1 data bs)"
      using R(1-3) len by (simp add: start opus_repacketizer_cat_def)
    ultimately show ?thesis using R(2,4) len Some by (intro exI [of _ OPUS_OK] exI [of _ bs]) simp
  qed
qed

text \<open>
  C16. Padding in place makes of every packet one of \<open>new_len\<close> bytes with the same configuration and the
  same frames, although the frames are moved within the buffer, and refuses what is not a packet; it
  writes nothing but the \<open>new_len\<close> bytes.
\<close>

theorem opus_packet_pad_keeps:
  assumes room: "int data + new_len \<le> int (length m)" and len: "1 \<le> len" "len < new_len"
    and rp: "length (rp_frames rp) = 48" "length (rp_len rp) = 48"
  shows "\<exists>ret bs. opus_packet_pad rp m data len new_len = Some (ret, over m data bs) \<and> int (length bs) = new_len \<and>
    (case packet_contents m data len False of
      None \<Rightarrow> ret < 0
    | Some p \<Rightarrow> ret = OPUS_OK \<and> packet_contents (over m data bs) data new_len False = Some p)"
  by (rule pad_keeps [OF assms])

theorem opus_packet_pad_keeps_witness:
  "\<exists>m'. opus_packet_pad blank_repacketizer ([3, 0x41, 1, 9, 0] @ replicate 4 0) 0 5 9 = Some (OPUS_OK, m') \<and>
     packet_contents m' 0 9 False = Some (0, [[9]])"
  using opus_packet_pad_keeps [of 0 9 "[3, 0x41, 1, 9, 0] @ replicate 4 0" 5 blank_repacketizer] padded_example [of "replicate 4 0"]
  by (auto simp: blank_repacketizer_def)

theorem opus_repacketizer_cat_appends_witness:
  "\<exists>rp'. opus_repacketizer_cat [3, 0x41, 1, 9, 0] blank_repacketizer 0 5 = Some (OPUS_OK, rp') \<and> collected [3, 0x41, 1, 9, 0] rp' = [[9]]"
proof -
  have "rp_ok [3, 0x41, 1, 9, 0] blank_repacketizer" "collected [3, 0x41, 1, 9, 0] blank_repacketizer = []"
    by (simp_all add: rp_ok_def entries_def collected_def blank_repacketizer_def)
  then show ?thesis
    using opus_repacketizer_cat_appends [of "[3, 0x41, 1, 9, 0]" blank_repacketizer 0 5] padded_example [of "[]"]
    by (auto simp: cat_spec_def duration_def frame_samples_def config_frame_def)
qed

end
