(* ===== verification/OpusStreams.thy ===== *)
theory OpusStreams
  imports OpusRepackProps
begin

text \<open>
  Packets of several streams: all but the last one self-delimited, one after another. Unpadding and
  padding them in place keep what each stream carries.
\<close>

section \<open>The packets of the streams\<close>

definition packet_bytes :: "mem \<Rightarrow> nat \<Rightarrow> int \<Rightarrow> bool \<Rightarrow> nat" where
  "packet_bytes m d len sd =
     (case opus_packet_parse_impl m d len sd None (Some no_sizes) of Some (n, sz, fs, Some (toc, po, k)) \<Rightarrow> nat k | _ \<Rightarrow> 0)"

text \<open>The contents of \<open>s\<close> packets; the last one has the rest of the bytes.\<close>

primrec streams :: "mem \<Rightarrow> nat \<Rightarrow> nat \<Rightarrow> int \<Rightarrow> (8 word \<times> mem list) list option" where
  "streams m 0 d len = Some []"
| "streams m (Suc s) d len =
     do { p \<leftarrow> packet_contents m d len (s \<noteq> 0);
          let k = packet_bytes m d len (s \<noteq> 0) in do { ps \<leftarrow> streams m s (d + k) (len - int k); Some (p # ps) } }"

lemma packet_bytes_framed: "framed m d len sd fm c ls \<Longrightarrow> packet_bytes m d len sd = total fm sd ls"
  using parse_framed [of m d len sd fm c ls no_sizes None] framed_length [of m d len sd fm c ls]
  by (simp add: packet_bytes_def no_sizes_def lead_total)

lemma streams_framed:
  assumes "framed m d len (s \<noteq> 0) fm c ls" and "packet_contents m d len (s \<noteq> 0) = Some p" and "k = total fm (s \<noteq> 0) ls"
  shows "streams m (Suc s) d len = map_option ((#) p) (streams m s (d + k) (len - int k))"
  using assms(2) packet_bytes_framed [OF assms(1)] assms(3) by (simp add: Let_def map_conv_bind_option comp_def)

lemma contents_moved:
  assumes "take (nat len) (drop d' m') = take (nat len) (drop d m)" and "d + nat len \<le> length m" and "d' + nat len \<le> length m'"
  shows "packet_contents m' d' len sd = packet_contents m d len sd"
proof (cases "packet_contents m d len sd = None \<and> packet_contents m' d' len sd = None")
  case False
  have room: "int d + len \<le> int (length m)" "int d' + len \<le> int (length m')" using assms(2,3) by linarith+
  have "(\<exists>fm c ls. framed m d len sd fm c ls) \<or> (\<exists>fm c ls. framed m' d' len sd fm c ls)"
    using False contents_SomeD [OF _ room(1)] contents_SomeD [OF _ room(2)] by (metis not_None_eq surj_pair)
  then show ?thesis
  proof (elim disjE exE)
    fix fm c ls assume f: "framed m d len sd fm c ls"
    have "total fm sd ls \<le> nat len" using framed_bounds(1) [OF f] by linarith
    then show ?thesis by (rule framed_moved(2) [OF f assms(1) _ assms(2,3)])
  next
    fix fm c ls assume f: "framed m' d' len sd fm c ls"
    have "total fm sd ls \<le> nat len" using framed_bounds(1) [OF f] by linarith
    from framed_moved(2) [OF f assms(1) [symmetric] this assms(3,2)] show ?thesis by simp
  qed
qed simp

lemma streams_moved:
  assumes "take (nat len) (drop d' m') = take (nat len) (drop d m)" and "d + nat len \<le> length m" and "d' + nat len \<le> length m'"
  shows "streams m' s d' len = streams m s d len"
  using assms
proof (induction s arbitrary: d d' len)
  case (Suc s)
  note same = contents_moved [OF Suc.prems, of "s \<noteq> 0"]
  show ?case
  proof (cases "packet_contents m d len (s \<noteq> 0)")
    case None
    then show ?thesis using same by simp
  next
    case (Some p)
    obtain c frs where p: "p = (c, frs)" by (cases p)
    have "int d + len \<le> int (length m)" using Suc.prems(2) by linarith
    from contents_SomeD [OF Some [unfolded p] this] obtain fm toc ls where f: "framed m d len (s \<noteq> 0) fm toc ls" .
    let ?k = "total fm (s \<noteq> 0) ls"
    have k: "?k \<le> nat len" using framed_bounds(1) [OF f] by linarith
    note f' = framed_moved(1) [OF f Suc.prems(1) k Suc.prems(2,3)]
    have len: "nat len = ?k + nat (len - int ?k)" using k by linarith
    have "take (nat (len - int ?k)) (drop (d' + ?k) m') = take (nat (len - int ?k)) (drop (d + ?k) m)"
      using arg_cong [OF Suc.prems(1), of "drop ?k"] unfolding len by (simp add: drop_take add.commute)
    moreover have "d + ?k + nat (len - int ?k) \<le> length m" "d' + ?k + nat (len - int ?k) \<le> length m'"
      using Suc.prems(2,3) len by linarith+
    ultimately have "streams m' s (d' + ?k) (len - int ?k) = streams m s (d + ?k) (len - int ?k)" by (rule Suc.IH)
    then show ?thesis using streams_framed [OF f Some refl] streams_framed [OF f' _ refl] same Some by simp
  qed
qed simp

section \<open>Unpadding\<close>

lemma framed_longer: "framed m d len True fm c ls \<Longrightarrow> len \<le> len' \<Longrightarrow> framed m d len' True fm c ls"
  by (simp add: framed_def Let_def)

lemma framed_exactly: "framed m d len sd fm c ls \<Longrightarrow> framed m d (int (total fm sd ls)) sd fm c ls"
  by (simp add: framed_def Let_def lead_total)

lemma unpad_streams_keep:
  assumes "dst \<le> data" and "int data + len \<le> int (length m)" and "length (rp_frames rp) = 48" and "length (rp_len rp) = 48"
    and "length junk = 48"
  shows "\<exists>ret bs. unpad_streams rp junk s data len dst dst_len m = Some (ret, over m dst bs) \<and>
    int (dst + length bs) \<le> int data + max 0 len \<and>
    (case streams m s data len of
      None \<Rightarrow> ret < 0
    | Some ps \<Rightarrow> ret = dst_len + int (length bs) \<and> streams (over m dst bs) s dst (int (length bs)) = Some ps \<and> (s = 0 \<longrightarrow> bs = []))"
  using assms
proof (induction s arbitrary: rp junk data len dst dst_len m)
  case 0
  then show ?case by (intro exI [of _ dst_len] exI [of _ "[]"]) simp
next
  case (Suc s)
  let ?sd = "s \<noteq> 0"
  show ?case
  proof (cases "packet_contents m data len ?sd")
    case None
    have "enough m (Suc data) c (length junk)" for c using Suc.prems(5) by (simp add: enough_def)
    from parse_rejects_or_framed [OF Suc.prems(2) this, of ?sd None] None obtain e sz' where
      "opus_packet_parse_impl m data len ?sd None (Some junk) = Some (e, sz', None, None)" "e < 0"
      by (auto simp: contents_framed OPUS_BAD_ARG_def OPUS_INVALID_PACKET_def split: if_splits)
    then show ?thesis using None Suc.prems(1)
      by (intro exI [of _ "if len \<le> 0 then OPUS_INVALID_PACKET else e"] exI [of _ "[]"]) (simp add: OPUS_INVALID_PACKET_def)
  next
    case (Some p)
    obtain c frs where p: "p = (c, frs)" by (cases p)
    from contents_SomeD [OF Some [unfolded p] Suc.prems(2)] obtain fm toc ls where f: "framed m data len ?sd fm toc ls" .
    let ?k = "total fm ?sd ls" and ?fm = "short_form ls"
    have k: "int ?k \<le> len" "0 < ?k" using framed_bounds(1) [OF f] by (simp_all add: total_def)
    have form: "form_ok fm toc ls" using f by (simp add: framed_def framing_ok_def)
    note f' = framed_exactly [OF f]
    have n: "length ls \<le> length junk" "case None of None \<Rightarrow> True | Some fs \<Rightarrow> length ls \<le> length (fs :: nat list)"
      using framed_length [OF f] Suc.prems(5) by simp_all
    have parse: "opus_packet_parse_impl m data len ?sd None (Some junk) =
        Some (int (length ls), map int ls @ drop (length ls) junk, None, Some (toc, int (length (lead fm toc ?sd ls)), int ?k))"
      using parse_framed [OF f n] by (simp add: lead_total)
    have room: "int data + int ?k \<le> int (length m)" "int dst + len \<le> int (length m)" using Suc.prems(1,2) k by linarith+
    have fits: "int (total ?fm ?sd ls) \<le> len" using short_form_least(2) [OF form, of ?sd] k by linarith
    have behind: "dst + length (lead (chosen ?sd False (nat len) ls) toc ?sd ls) \<le> data + length (lead fm toc ?sd ls)"
      using short_form_least(1) [OF form] Suc.prems(1) by (simp add: lead_def)
    from rewrite_packet [OF f' room Suc.prems(3,4) fits behind] obtain rp' bs1 c' where R:
      "opus_repacketizer_cat_impl m (opus_repacketizer_init rp) data (int ?k) ?sd = Some (OPUS_OK, rp')"
      "length (rp_frames rp') = 48" "length (rp_len rp') = 48" "length bs1 = total ?fm ?sd ls"
      "opus_repacketizer_out_range_impl m rp' 0 (nb_frames rp') dst len ?sd False = Some (int (length bs1), over m dst bs1)"
      "packet_contents (over m dst bs1) dst (int (length bs1)) ?sd = packet_contents m data (int ?k) ?sd"
      "framed (over m dst bs1) dst (int (length bs1)) ?sd ?fm c' ls"
      unfolding chosen_no_pad by blast
    let ?m1 = "over m dst bs1" and ?junk = "map int ls @ drop (length ls) junk"
    have le: "length bs1 \<le> ?k" using R(4) short_form_least(2) [OF form] by simp
    have len1: "length ?m1 = length m" using le room(1) Suc.prems(1) by simp
    have step: "unpad_streams rp junk (Suc s) data len dst dst_len m =
        unpad_streams rp' ?junk s (data + ?k) (len - int ?k) (dst + length bs1) (dst_len + int (length bs1)) ?m1"
      using k parse R(1,5) by (simp add: OPUS_OK_def nat_add_distrib)
    have pre: "dst + length bs1 \<le> data + ?k" "int (data + ?k) + (len - int ?k) \<le> int (length ?m1)" "length ?junk = 48"
      using Suc.prems(1,2,5) le len1 n(1) by simp_all
    obtain ret bs2 where I:
      "unpad_streams rp' ?junk s (data + ?k) (len - int ?k) (dst + length bs1) (dst_len + int (length bs1)) ?m1 =
        Some (ret, over ?m1 (dst + length bs1) bs2)"
      "int (dst + length bs1 + length bs2) \<le> int (data + ?k) + max 0 (len - int ?k)"
      "case streams ?m1 s (data + ?k) (len - int ?k) of None \<Rightarrow> ret < 0
       | Some ps \<Rightarrow> ret = dst_len + int (length bs1) + int (length bs2) \<and>
           streams (over ?m1 (dst + length bs1) bs2) s (dst + length bs1) (int (length bs2)) = Some ps \<and> (s = 0 \<longrightarrow> bs2 = [])"
      using Suc.IH [OF pre(1,2) R(2,3) pre(3), of "dst_len + int (length bs1)"] by blast
    have end2: "dst + length bs1 + length bs2 \<le> length m" using I(2) k Suc.prems(2) by (simp add: max_def split: if_splits)
    then have m2: "over ?m1 (dst + length bs1) bs2 = over m dst (bs1 @ bs2)" using over_append [of dst bs1 bs2 m] by simp
    have rest: "streams ?m1 s (data + ?k) (len - int ?k) = streams m s (data + ?k) (len - int ?k)"
      using take_drop_behind [of dst bs1 "data + ?k" m] pre(1) len1 room(1) Suc.prems(2) k
      by (intro streams_moved) simp_all
    have whole: "streams m (Suc s) data len = map_option ((#) p) (streams m s (data + ?k) (len - int ?k))"
      by (rule streams_framed [OF f Some refl])
    have bound: "int (dst + length (bs1 @ bs2)) \<le> int data + max 0 len" using I(2) k by simp
    show ?thesis
    proof (cases "streams m s (data + ?k) (len - int ?k)")
      case None
      then show ?thesis using step I(1,3) m2 rest whole bound by (intro exI [of _ ret] exI [of _ "bs1 @ bs2"]) simp
    next
      case (Some ps)
      then have I3: "ret = dst_len + int (length bs1) + int (length bs2)" "s = 0 \<longrightarrow> bs2 = []"
        "streams (over m dst (bs1 @ bs2)) s (dst + length bs1) (int (length bs2)) = Some ps"
        using I(3) rest m2 by simp_all
      have "take (length bs1) (drop dst (over m dst (bs1 @ bs2))) = take (length bs1) (drop dst ?m1)"
        using end2 Suc.prems(1) by (simp add: over_def)
      note g = framed_moved [OF R(7) this _ _ _]
      have g': "framed (over m dst (bs1 @ bs2)) dst (int (length bs1)) ?sd ?fm c' ls"
        "packet_contents (over m dst (bs1 @ bs2)) dst (int (length bs1)) ?sd = Some p"
        using g R(4,6) end2 len1 f contents_framed [OF f] contents_framed [OF f'] \<open>packet_contents m data len ?sd = Some p\<close>
        by simp_all
      have h: "framed (over m dst (bs1 @ bs2)) dst (int (length (bs1 @ bs2))) ?sd ?fm c' ls"
        using g'(1) I3(2) framed_longer by (cases "s = 0") auto
      have "packet_contents (over m dst (bs1 @ bs2)) dst (int (length (bs1 @ bs2))) ?sd = Some p"
        using g'(2) contents_framed [OF h] contents_framed [OF g'(1)] by simp
      from streams_framed [OF h this R(4)] have "streams (over m dst (bs1 @ bs2)) (Suc s) dst (int (length (bs1 @ bs2))) = Some (p # ps)"
        using I3(3) by simp
      then show ?thesis using step I(1) m2 whole Some I3(1) bound by (intro exI [of _ ret] exI [of _ "bs1 @ bs2"]) simp
    qed
  qed
qed

text \<open>
  C21. Unpadding the packets of several streams in place, each moved down over the padding of those
  before it, keeps what every stream carries and writes only the bytes of the result; anything that is
  not such a sequence of packets is refused.
\<close>

theorem opus_multistream_packet_unpad_keeps:
  assumes room: "int data + len \<le> int (length m)" and "1 \<le> nb_streams"
    and rp: "length (rp_frames rp) = 48" "length (rp_len rp) = 48" and junk: "length junk = 48"
  shows "\<exists>ret bs. opus_multistream_packet_unpad rp junk m data len nb_streams = Some (ret, over m data bs) \<and>
    int (length bs) \<le> max 0 len \<and>
    (case streams m (nat nb_streams) data len of
      None \<Rightarrow> ret < 0
    | Some ps \<Rightarrow> ret = int (length bs) \<and> streams (over m data bs) (nat nb_streams) data ret = Some ps)"
proof (cases "len < 1")
  case True
  obtain s where "nat nb_streams = Suc s" using assms(2) by (cases "nat nb_streams") auto
  moreover have "packet_contents m data len sd = None" for sd
    using True by (auto simp: packet_contents_def opus_packet_parse_impl_def no_sizes_def)
  ultimately show ?thesis using True
    by (intro exI [of _ OPUS_BAD_ARG] exI [of _ "[]"]) (simp add: opus_multistream_packet_unpad_def OPUS_BAD_ARG_def)
next
  case False
  from unpad_streams_keep [OF order_refl room rp junk, of "nat nb_streams" 0] obtain ret bs where
    "unpad_streams rp junk (nat nb_streams) data len data 0 m = Some (ret, over m data bs)" "int (data + length bs) \<le> int data + max 0 len"
    "case streams m (nat nb_streams) data len of None \<Rightarrow> ret < 0
     | Some ps \<Rightarrow> ret = 0 + int (length bs) \<and> streams (over m data bs) (nat nb_streams) data (int (length bs)) = Some ps \<and> (nat nb_streams = 0 \<longrightarrow> bs = [])"
    by blast
  then show ?thesis using False
    by (intro exI [of _ ret] exI [of _ bs]) (auto simp: opus_multistream_packet_unpad_def split: option.splits)
qed

lemma streams_example: "streams ([3, 0x41, 1, 1, 9, 0, 3, 0x41, 1, 8, 0] @ m) 2 0 11 = Some [(0, [[9]]), (0, [[8]])]"
proof -
  let ?m = "[3, 0x41, 1, 1, 9, 0, 3, 0x41, 1, 8, 0] @ m"
  have a: "framed ?m 0 11 True (Many False (Some (0, 1))) 3 [1]"
    by (simp add: framed_def framing_ok_def lead_def count_byte_def all_equal_def frame_samples_def config_frame_def size_bytes_def)
  have b: "framed ?m 6 5 False (Many False (Some (0, 1))) 3 [1]"
    by (simp add: framed_def framing_ok_def lead_def count_byte_def all_equal_def frame_samples_def config_frame_def)
  have "packet_contents ?m 0 11 True = Some (0, [[9]])" "packet_contents ?m 6 5 False = Some (0, [[8]])"
    using contents_framed [OF a] contents_framed [OF b] by (simp_all add: lead_def size_bytes_def piece_def)
  moreover have "packet_bytes ?m 0 11 True = 6" using packet_bytes_framed [OF a] by (simp add: total_def size_bytes_def)
  ultimately show ?thesis by (simp add: numeral_2_eq_2)
qed

theorem opus_multistream_packet_unpad_keeps_witness:
  "\<exists>n m'. opus_multistream_packet_unpad blank_repacketizer (replicate 48 0) [3, 0x41, 1, 1, 9, 0, 3, 0x41, 1, 8, 0] 0 11 2 = Some (n, m') \<and>
     streams m' 2 0 n = Some [(0, [[9]]), (0, [[8]])]"
  using opus_multistream_packet_unpad_keeps [of 0 11 "[3, 0x41, 1, 1, 9, 0, 3, 0x41, 1, 8, 0]" 2 blank_repacketizer "replicate 48 0"]
    streams_example [of "[]"]
  by (auto simp: blank_repacketizer_def)

section \<open>Padding\<close>

text \<open>What the search for the last stream has found: the packets before it, whatever follows.\<close>

definition before_last :: "mem \<Rightarrow> nat \<Rightarrow> int \<Rightarrow> nat \<Rightarrow> nat \<Rightarrow> int \<Rightarrow> (8 word \<times> mem list) list \<Rightarrow> bool" where
  "before_last m d len s d' len' ps \<longleftrightarrow> d \<le> d' \<and> int d' + len' = int d + len \<and>
     (\<forall>m' a. 0 \<le> a \<and> length m' = length m \<and> take (d' - d) (drop d m') = take (d' - d) (drop d m) \<longrightarrow>
        streams m' (Suc s) d (len + a) = map_option ((@) ps) (streams m' 1 d' (len' + a)))"

lemma seek_last_stream_finds:
  assumes "int d + len \<le> int (length m)" and "length junk = 48"
  shows "(\<exists>e. seek_last_stream junk m s d len = Some (Inl e) \<and> e < 0 \<and> streams m (Suc s) d len = None) \<or>
    (\<exists>d' len' ps. seek_last_stream junk m s d len = Some (Inr (d', len')) \<and> before_last m d len s d' len' ps)"
  using assms
proof (induction s arbitrary: junk d len)
  case 0
  have "before_last m d len 0 d len []" by (simp add: before_last_def option.map_ident_strong)
  then show ?case by auto
next
  case (Suc s)
  show ?case
  proof (cases "packet_contents m d len True")
    case None
    have "enough m (Suc d) c (length junk)" for c using Suc.prems(2) by (simp add: enough_def)
    from parse_rejects_or_framed [OF Suc.prems(1) this, of True None] None obtain e sz' where
      "opus_packet_parse_impl m d len True None (Some junk) = Some (e, sz', None, None)" "e < 0"
      by (auto simp: contents_framed OPUS_BAD_ARG_def OPUS_INVALID_PACKET_def split: if_splits)
    then show ?thesis using None by (auto simp: OPUS_INVALID_PACKET_def)
  next
    case (Some p)
    obtain c frs where p: "p = (c, frs)" by (cases p)
    from contents_SomeD [OF Some [unfolded p] Suc.prems(1)] obtain fm toc ls where f: "framed m d len True fm toc ls" .
    let ?k = "total fm True ls"
    have k: "int ?k \<le> len" "0 < ?k" using framed_bounds(1) [OF f] by (simp_all add: total_def)
    have n: "length ls \<le> length junk" "case None of None \<Rightarrow> True | Some fs \<Rightarrow> length ls \<le> length (fs :: nat list)"
      using framed_length [OF f] Suc.prems(2) by simp_all
    let ?junk = "map int ls @ drop (length ls) junk"
    have step: "seek_last_stream junk m (Suc s) d len = seek_last_stream ?junk m s (d + ?k) (len - int ?k)"
      using parse_framed [OF f n] k by (simp add: lead_total nat_add_distrib)
    have whole: "streams m (Suc (Suc s)) d len = map_option ((#) p) (streams m (Suc s) (d + ?k) (len - int ?k))"
      using f Some by (intro streams_framed) simp_all
    have pre: "int (d + ?k) + (len - int ?k) \<le> int (length m)" "length ?junk = 48" using Suc.prems n(1) by simp_all
    from Suc.IH [OF pre] show ?thesis
    proof (elim disjE exE conjE)
      fix e assume "seek_last_stream ?junk m s (d + ?k) (len - int ?k) = Some (Inl e)" "e < 0" "streams m (Suc s) (d + ?k) (len - int ?k) = None"
      then show ?thesis using step whole by auto
    next
      fix d' len' ps
      assume seek: "seek_last_stream ?junk m s (d + ?k) (len - int ?k) = Some (Inr (d', len'))"
        and b: "before_last m (d + ?k) (len - int ?k) s d' len' ps"
      have le: "d + ?k \<le> d'" "int d' + len' = int d + len" using b by (simp_all add: before_last_def)
      have "streams m' (Suc (Suc s)) d (len + a) = map_option ((@) (p # ps)) (streams m' 1 d' (len' + a))"
        if a: "0 \<le> a" and m': "length m' = length m" "take (d' - d) (drop d m') = take (d' - d) (drop d m)" for m' a
      proof -
        have same: "take ?k (drop d m') = take ?k (drop d m)"
          using arg_cong [OF m'(2), of "take ?k"] le(1) by (simp add: min_absorb1)
        have "d + ?k \<le> length m" using k Suc.prems(1) by linarith
        note g = framed_moved [OF f same order_refl this this [folded m'(1)]]
        have h: "framed m' d (len + a) True fm toc ls" using framed_longer [OF g(1)] a by simp
        have pc: "packet_contents m' d (len + a) True = Some p"
          using contents_framed [OF h] contents_framed [OF g(1)] g(2) Some by simp
        have "take (d' - (d + ?k)) (drop (d + ?k) m') = take (d' - (d + ?k)) (drop (d + ?k) m)"
          using arg_cong [OF m'(2), of "drop ?k"] by (simp add: drop_take add.commute)
        then have I: "streams m' (Suc s) (d + ?k) (len - int ?k + a) = map_option ((@) ps) (streams m' 1 d' (len' + a))"
          using b a m'(1) by (simp only: before_last_def)
        have "streams m' (Suc (Suc s)) d (len + a) = map_option ((#) p) (streams m' (Suc s) (d + ?k) (len + a - int ?k))"
          by (rule streams_framed) (use h pc in simp_all)
        also have "len + a - int ?k = len - int ?k + a" by simp
        also have "map_option ((#) p) (streams m' (Suc s) (d + ?k) (len - int ?k + a)) = map_option ((#) p \<circ> (@) ps) (streams m' 1 d' (len' + a))"
          unfolding I by (rule option.map_comp)
        also have "(#) p \<circ> (@) ps = (@) (p # ps)" by (rule ext) (simp only: comp_def append.simps)
        finally show ?thesis .
      qed
      then have "before_last m d len (Suc s) d' len' (p # ps)" using le by (simp add: before_last_def)
      then show ?thesis using step seek by auto
    qed
  qed
qed

text \<open>
  C22. Padding the packets of several streams pads the last one: \<open>new_len\<close> bytes that carry for every
  stream what it had, and nothing written elsewhere; what is not such a sequence of packets is refused.
\<close>

theorem opus_multistream_packet_pad_keeps:
  assumes room: "int data + new_len \<le> int (length m)" and len: "1 \<le> len" "len < new_len" and nb: "1 \<le> nb_streams"
    and rp: "length (rp_frames rp) = 48" "length (rp_len rp) = 48" and junk: "length junk = 48"
  shows "\<exists>ret bs. opus_multistream_packet_pad rp junk m data len new_len nb_streams = Some (ret, over m data bs) \<and>
    int (length bs) = new_len \<and>
    (case streams m (nat nb_streams) data len of
      None \<Rightarrow> ret < 0
    | Some ps \<Rightarrow> ret = OPUS_OK \<and> streams (over m data bs) (nat nb_streams) data new_len = Some ps)"
proof -
  let ?s = "nat (nb_streams - 1)"
  have s: "nat nb_streams = Suc ?s" using nb by simp
  have start: "opus_multistream_packet_pad rp junk m data len new_len nb_streams =
      do { r \<leftarrow> seek_last_stream junk m ?s data len;
           (case r of Inl e \<Rightarrow> Some (e, m)
            | Inr (data', len') \<Rightarrow> opus_packet_pad rp m data' len' (len' + (new_len - len))) }"
    using len by (simp add: opus_multistream_packet_pad_def)
  have room0: "int data + len \<le> int (length m)" "data + nat new_len \<le> length m" using room len by linarith+
  have self: "over m data (take (nat new_len) (drop data m)) = m" by (rule over_self [OF room0(2)])
  have self_len: "int (length (take (nat new_len) (drop data m))) = new_len" using room0(2) len by simp
  from seek_last_stream_finds [OF room0(1) junk, of ?s] show ?thesis
  proof (elim disjE exE conjE)
    fix e assume "seek_last_stream junk m ?s data len = Some (Inl e)" "e < 0" "streams m (Suc ?s) data len = None"
    then show ?thesis using start self self_len s
      by (intro exI [of _ e] exI [of _ "take (nat new_len) (drop data m)"]) simp
  next
    fix d' len' ps
    assume seek: "seek_last_stream junk m ?s data len = Some (Inr (d', len'))" and b: "before_last m data len ?s d' len' ps"
    have le: "data \<le> d'" "int d' + len' = int data + len" using b by (simp_all add: before_last_def)
    have found: "streams m' (Suc ?s) data (len + a) = map_option ((@) ps) (streams m' 1 d' (len' + a))"
      if "0 \<le> a" "length m' = length m" "take (d' - data) (drop data m') = take (d' - data) (drop data m)" for m' a
      using b that by (simp only: before_last_def)
    have one: "streams m' 1 d' n = map_option (\<lambda>p. [p]) (packet_contents m' d' n False)" for m' n
      by (simp add: Let_def map_conv_bind_option comp_def)
    have before: "streams m (nat nb_streams) data len = map_option ((@) ps) (streams m 1 d' len')"
      using found [of 0 m] by (simp only: s) simp
    have pad: "opus_multistream_packet_pad rp junk m data len new_len nb_streams = opus_packet_pad rp m d' len' (len' + (new_len - len))"
      using start seek by simp
    show ?thesis
    proof (cases "len' < 1")
      case True
      then have "packet_contents m d' len' False = None" by (auto simp: packet_contents_def opus_packet_parse_impl_def no_sizes_def)
      then have "streams m (nat nb_streams) data len = None" using before one [of m len'] by simp
      moreover have "opus_packet_pad rp m d' len' (len' + (new_len - len)) = Some (OPUS_BAD_ARG, m)" using True by (simp add: opus_packet_pad_def)
      ultimately show ?thesis using pad self self_len
        by (intro exI [of _ OPUS_BAD_ARG] exI [of _ "take (nat new_len) (drop data m)"]) (simp add: OPUS_BAD_ARG_def)
    next
      case False
      have pre: "int d' + (len' + (new_len - len)) \<le> int (length m)" "1 \<le> len'" "len' < len' + (new_len - len)"
        using False le(2) room len by linarith+
      obtain ret bs where P: "opus_packet_pad rp m d' len' (len' + (new_len - len)) = Some (ret, over m d' bs)"
        "int (length bs) = len' + (new_len - len)"
        "case packet_contents m d' len' False of None \<Rightarrow> ret < 0
         | Some p \<Rightarrow> ret = OPUS_OK \<and> packet_contents (over m d' bs) d' (len' + (new_len - len)) False = Some p"
        using pad_keeps [OF pre rp] by blast
      let ?bs = "take (d' - data) (drop data m) @ bs"
      have fit: "d' + length bs \<le> length m" "d' \<le> length m" using P(2) pre(1) by linarith+
      have over: "over m data ?bs = over m d' bs"
      proof -
        have "take d' m = take data m @ take (d' - data) (drop data m)" using le(1) by (metis le_add_diff_inverse take_add)
        then show ?thesis using le(1) fit by (simp add: over_def min_def)
      qed
      have bs: "int (length ?bs) = new_len" using P(2) le fit by simp
      have keep: "take (d' - data) (drop data (over m d' bs)) = take (d' - data) (drop data m)"
        using le(1) fit by (intro take_drop_before) simp_all
      have "len + (new_len - len) = new_len" by simp
      then have after: "streams (over m d' bs) (nat nb_streams) data new_len =
          map_option ((@) ps) (streams (over m d' bs) 1 d' (len' + (new_len - len)))"
        using found [OF _ _ keep, of "new_len - len"] fit len by (simp only: s length_over)
      show ?thesis
        using P(1,3) pad before after one over bs
        by (intro exI [of _ ret] exI [of _ ?bs]) (auto split: option.splits)
    qed
  qed
qed

theorem opus_multistream_packet_pad_keeps_witness:
  "\<exists>m'. opus_multistream_packet_pad blank_repacketizer (replicate 48 0) ([3, 0x41, 1, 1, 9, 0, 3, 0x41, 1, 8, 0] @ replicate 4 0) 0 11 15 2 = Some (OPUS_OK, m') \<and>
     streams m' 2 0 15 = Some [(0, [[9]]), (0, [[8]])]"
  using opus_multistream_packet_pad_keeps [of 0 15 "[3, 0x41, 1, 1, 9, 0, 3, 0x41, 1, 8, 0] @ replicate 4 0" 11 2 blank_repacketizer "replicate 48 0"]
    streams_example [of "replicate 4 0"]
  by (auto simp: blank_repacketizer_def)

end
