(* ===== verification/OpusRange.thy ===== *)
theory OpusRange
  imports OpusPacket
begin

text \<open>
  The range coder of opus (opus/celt/entcode.c, entenc.c, entdec.c and their headers), which CELT and SILK
  code every symbol with. Range-coded bytes are written from the front of the buffer, raw bits from its
  end. \<open>opus_uint32\<close> is a word; \<open>offs\<close>, \<open>end_offs\<close> and \<open>storage\<close> count bytes of the buffer and stay below
  its size. \<open>nbits_total\<close> is an \<open>int\<close> whose overflow is undefined.
\<close>

definition EC_WINDOW_SIZE :: int where "EC_WINDOW_SIZE = 32"
definition EC_UINT_BITS :: nat where "EC_UINT_BITS = 8"
definition BITRES :: nat where "BITRES = 3"
definition EC_SYM_BITS :: nat where "EC_SYM_BITS = 8"
definition EC_CODE_BITS :: nat where "EC_CODE_BITS = 32"
definition EC_SYM_MAX :: int where "EC_SYM_MAX = 2 ^ EC_SYM_BITS - 1"
definition EC_CODE_SHIFT :: nat where "EC_CODE_SHIFT = EC_CODE_BITS - EC_SYM_BITS - 1"
definition EC_CODE_TOP :: "32 word" where "EC_CODE_TOP = push_bit (EC_CODE_BITS - 1) 1"
definition EC_CODE_BOT :: "32 word" where "EC_CODE_BOT = drop_bit EC_SYM_BITS EC_CODE_TOP"
definition EC_CODE_EXTRA :: nat where "EC_CODE_EXTRA = (EC_CODE_BITS - 2) mod EC_SYM_BITS + 1"

record ec_ctx =
  ec_buf :: mem
  ec_storage :: nat
  ec_end_offs :: nat
  ec_end_window :: "32 word"
  ec_nend_bits :: int
  ec_nbits_total :: int
  ec_offs :: nat
  ec_rng :: "32 word"
  ec_val :: "32 word"
  ec_ext :: "32 word"
  ec_rem :: int
  ec_error :: int

section \<open>entcode\<close>

text \<open>
  \<open>ec_ilog\<close> is the code for compilers without a builtin; with one, \<open>EC_ILOG\<close> is the same number, and
  undefined for 0.
\<close>

definition ec_ilog :: "32 word \<Rightarrow> nat" where
  "ec_ilog v =
     (let ret = (if v \<noteq> 0 then 1 else 0);
          m = (if v AND 0xFFFF0000 \<noteq> 0 then 16 else 0); v = drop_bit m v; ret = ret OR m;
          m = (if v AND 0xFF00 \<noteq> 0 then 8 else 0); v = drop_bit m v; ret = ret OR m;
          m = (if v AND 0xF0 \<noteq> 0 then 4 else 0); v = drop_bit m v; ret = ret OR m;
          m = (if v AND 0xC \<noteq> 0 then 2 else 0); v = drop_bit m v; ret = ret OR m
      in ret + (if v AND 2 \<noteq> 0 then 1 else 0))"

definition EC_ILOG :: "32 word \<Rightarrow> nat option" where
  "EC_ILOG x = do { u \<leftarrow> ensure (x \<noteq> 0); Some (ec_ilog x) }"

definition EC_MINI :: "32 word \<Rightarrow> 32 word \<Rightarrow> 32 word" where
  "EC_MINI a b = a + ((b - a) AND - (if b < a then 1 else 0))"

definition celt_udiv :: "32 word \<Rightarrow> 32 word \<Rightarrow> 32 word option" where
  "celt_udiv n d = do { u \<leftarrow> ensure (d \<noteq> 0); Some (n div d) }"

definition ec_range_bytes :: "ec_ctx \<Rightarrow> nat" where "ec_range_bytes c = ec_offs c"
definition ec_get_buffer :: "ec_ctx \<Rightarrow> mem" where "ec_get_buffer c = ec_buf c"
definition ec_get_error :: "ec_ctx \<Rightarrow> int" where "ec_get_error c = ec_error c"

definition ec_tell :: "ec_ctx \<Rightarrow> int option" where
  "ec_tell c = do { l \<leftarrow> EC_ILOG (ec_rng c); Some (ec_nbits_total c - int l) }"

definition correction :: "32 word list" where
  "correction = [35733, 38967, 42495, 46340, 50535, 55109, 60097, 65535]"

definition ec_tell_frac :: "ec_ctx \<Rightarrow> 32 word option" where
  "ec_tell_frac c =
     do { nbits \<leftarrow> i32 (ec_nbits_total c * 2 ^ BITRES);
          l \<leftarrow> EC_ILOG (ec_rng c);
          u \<leftarrow> ensure (16 \<le> l);
          (let r = drop_bit (l - 16) (ec_rng c); b = drop_bit 12 r - 8
           in do { x \<leftarrow> rd correction (unat b);
                   (let b = b + (if r > x then 1 else 0); l = word_of_nat (8 * l) + b
                    in Some (word_of_int nbits - l)) }) }"

section \<open>entenc\<close>

definition ec_write_byte :: "ec_ctx \<Rightarrow> 32 word \<Rightarrow> (int \<times> ec_ctx) option" where
  "ec_write_byte c v =
     (if ec_offs c + ec_end_offs c \<ge> ec_storage c then Some (- 1, c)
      else do { b \<leftarrow> wr (ec_buf c) (ec_offs c) (ucast v); Some (0, c\<lparr>ec_buf := b, ec_offs := ec_offs c + 1\<rparr>) })"

definition ec_write_byte_at_end :: "ec_ctx \<Rightarrow> 32 word \<Rightarrow> (int \<times> ec_ctx) option" where
  "ec_write_byte_at_end c v =
     (if ec_offs c + ec_end_offs c \<ge> ec_storage c then Some (- 1, c)
      else do { b \<leftarrow> wr (ec_buf c) (ec_storage c - (ec_end_offs c + 1)) (ucast v);
                Some (0, c\<lparr>ec_buf := b, ec_end_offs := ec_end_offs c + 1\<rparr>) })"

text \<open>\<open>_this->error |= ec_write_byte(_this, v)\<close>.\<close>

definition put_byte :: "ec_ctx \<Rightarrow> 32 word \<Rightarrow> ec_ctx option" where
  "put_byte c v = do { (e, c) \<leftarrow> ec_write_byte c v; Some (c\<lparr>ec_error := ec_error c OR e\<rparr>) }"

definition put_byte_at_end :: "ec_ctx \<Rightarrow> 32 word \<Rightarrow> ec_ctx option" where
  "put_byte_at_end c v = do { (e, c) \<leftarrow> ec_write_byte_at_end c v; Some (c\<lparr>ec_error := ec_error c OR e\<rparr>) }"

lemma put_byte_ext: "put_byte c v = Some c' \<Longrightarrow> ec_ext c' = ec_ext c \<and> ec_nbits_total c' = ec_nbits_total c"
  by (auto simp: put_byte_def ec_write_byte_def split: if_splits Option.bind_splits)

function flush_ext :: "32 word \<Rightarrow> ec_ctx \<Rightarrow> ec_ctx option" where
  "flush_ext symb c =
     (if ec_ext c > 0
      then do { c \<leftarrow> put_byte c symb; flush_ext symb (c\<lparr>ec_ext := ec_ext c - 1\<rparr>) }
      else Some c)"
  by pat_completeness auto
termination
  by (relation "measure (\<lambda>(s, c). unat (ec_ext c))") (auto dest!: put_byte_ext simp: unat_minus_one word_gt_0 unat_gt_0 intro!: diff_less)

declare flush_ext.simps [simp del]

lemma flush_ext_nbits: "flush_ext symb c = Some c' \<Longrightarrow> ec_nbits_total c' = ec_nbits_total c"
proof (induction symb c rule: flush_ext.induct)
  case (1 symb c)
  from "1.prems" "1.IH" show ?case
    unfolding flush_ext.simps [of symb c] by (auto split: if_splits Option.bind_splits dest!: put_byte_ext)
qed

definition ec_enc_carry_out :: "ec_ctx \<Rightarrow> int \<Rightarrow> ec_ctx option" where
  "ec_enc_carry_out c symb =
     (if symb \<noteq> EC_SYM_MAX
      then (let carry = drop_bit EC_SYM_BITS symb
            in do { c \<leftarrow> (if ec_rem c \<ge> 0 then put_byte c (word_of_int (ec_rem c + carry)) else Some c);
                    c \<leftarrow> flush_ext (word_of_int ((EC_SYM_MAX + carry) AND EC_SYM_MAX)) c;
                    Some (c\<lparr>ec_rem := symb AND EC_SYM_MAX\<rparr>) })
      else Some (c\<lparr>ec_ext := ec_ext c + 1\<rparr>))"

lemma carry_out_nbits: "ec_enc_carry_out c symb = Some c' \<Longrightarrow> ec_nbits_total c' = ec_nbits_total c"
  by (auto simp: ec_enc_carry_out_def Let_def split: if_splits Option.bind_splits dest!: put_byte_ext flush_ext_nbits)

function ec_enc_normalize :: "ec_ctx \<Rightarrow> ec_ctx option" where
  "ec_enc_normalize c =
     (if ec_rng c \<le> EC_CODE_BOT
      then do { c \<leftarrow> ec_enc_carry_out c (uint (drop_bit EC_CODE_SHIFT (ec_val c)));
                n \<leftarrow> i32 (ec_nbits_total c + int EC_SYM_BITS);
                ec_enc_normalize (c\<lparr>ec_val := push_bit EC_SYM_BITS (ec_val c) AND (EC_CODE_TOP - 1),
                  ec_rng := push_bit EC_SYM_BITS (ec_rng c), ec_nbits_total := n\<rparr>) }
      else Some c)"
  by pat_completeness auto
termination
  by (relation "measure (\<lambda>c. nat (2 ^ 31 - ec_nbits_total c))")
    (auto dest!: carry_out_nbits simp: i32_def EC_SYM_BITS_def split: if_splits)

declare ec_enc_normalize.simps [simp del]

definition ec_enc_init :: "ec_ctx \<Rightarrow> mem \<Rightarrow> nat \<Rightarrow> ec_ctx" where
  "ec_enc_init c b sz =
     c\<lparr>ec_buf := b, ec_end_offs := 0, ec_end_window := 0, ec_nend_bits := 0, ec_nbits_total := int EC_CODE_BITS + 1,
       ec_offs := 0, ec_rng := EC_CODE_TOP, ec_rem := - 1, ec_val := 0, ec_ext := 0, ec_storage := sz, ec_error := 0\<rparr>"

definition ec_encode :: "ec_ctx \<Rightarrow> 32 word \<Rightarrow> 32 word \<Rightarrow> 32 word \<Rightarrow> ec_ctx option" where
  "ec_encode c fl fh ft =
     do { r \<leftarrow> celt_udiv (ec_rng c) ft;
          ec_enc_normalize
            (if fl > 0 then c\<lparr>ec_val := ec_val c + (ec_rng c - r * (ft - fl)), ec_rng := r * (fh - fl)\<rparr>
             else c\<lparr>ec_rng := ec_rng c - r * (ft - fh)\<rparr>) }"

definition ec_encode_bin :: "ec_ctx \<Rightarrow> 32 word \<Rightarrow> 32 word \<Rightarrow> nat \<Rightarrow> ec_ctx option" where
  "ec_encode_bin c fl fh bits =
     do { u \<leftarrow> ensure (bits < 32);
          (let r = drop_bit bits (ec_rng c)
           in ec_enc_normalize
                (if fl > 0 then c\<lparr>ec_val := ec_val c + (ec_rng c - r * (push_bit bits 1 - fl)), ec_rng := r * (fh - fl)\<rparr>
                 else c\<lparr>ec_rng := ec_rng c - r * (push_bit bits 1 - fh)\<rparr>)) }"

definition ec_enc_bit_logp :: "ec_ctx \<Rightarrow> bool \<Rightarrow> nat \<Rightarrow> ec_ctx option" where
  "ec_enc_bit_logp c v logp =
     do { u \<leftarrow> ensure (logp < 32);
          (let r = ec_rng c; l = ec_val c; s = drop_bit logp r; r = r - s;
               c = (if v then c\<lparr>ec_val := l + r\<rparr> else c)
           in ec_enc_normalize (c\<lparr>ec_rng := if v then s else r\<rparr>)) }"

definition ec_enc_icdf :: "ec_ctx \<Rightarrow> nat \<Rightarrow> mem \<Rightarrow> nat \<Rightarrow> ec_ctx option" where
  "ec_enc_icdf c s icdf ftb =
     do { u \<leftarrow> ensure (ftb < 32);
          (let r = drop_bit ftb (ec_rng c)
           in if s > 0
              then do { a \<leftarrow> rd icdf (s - 1); b \<leftarrow> rd icdf s;
                        ec_enc_normalize (c\<lparr>ec_val := ec_val c + (ec_rng c - r * ucast a),
                          ec_rng := r * word_of_int (uint a - uint b)\<rparr>) }
              else do { b \<leftarrow> rd icdf s; ec_enc_normalize (c\<lparr>ec_rng := ec_rng c - r * ucast b\<rparr>) }) }"

text \<open>\<open>do ... while (used >= EC_SYM_BITS)\<close>: whole bytes of the window.\<close>

function flush_window :: "ec_ctx \<Rightarrow> 32 word \<Rightarrow> int \<Rightarrow> (ec_ctx \<times> 32 word \<times> int) option" where
  "flush_window c window used =
     do { c \<leftarrow> put_byte_at_end c (window AND 0xFF);
          (let window = drop_bit EC_SYM_BITS window; used = used - int EC_SYM_BITS
           in if used \<ge> int EC_SYM_BITS then flush_window c window used else Some (c, window, used)) }"
  by pat_completeness auto
termination
  by (relation "measure (\<lambda>(c, w, u). nat u)") (auto simp: EC_SYM_BITS_def)

declare flush_window.simps [simp del]

definition ec_enc_bits :: "ec_ctx \<Rightarrow> 32 word \<Rightarrow> nat \<Rightarrow> ec_ctx option" where
  "ec_enc_bits c fl bits =
     do { (c, window, used) \<leftarrow>
            (if ec_nend_bits c + int bits > EC_WINDOW_SIZE then flush_window c (ec_end_window c) (ec_nend_bits c)
             else Some (c, ec_end_window c, ec_nend_bits c));
          u \<leftarrow> ensure (0 \<le> used \<and> used < 32);
          n \<leftarrow> i32 (ec_nbits_total c + int bits);
          Some (c\<lparr>ec_end_window := window OR push_bit (nat used) fl, ec_nend_bits := used + int bits, ec_nbits_total := n\<rparr>) }"

definition ec_enc_uint :: "ec_ctx \<Rightarrow> 32 word \<Rightarrow> 32 word \<Rightarrow> ec_ctx option" where
  "ec_enc_uint c fl ft0 =
     (let ft1 = ft0 - 1
      in do { ftb \<leftarrow> EC_ILOG ft1;
              (if ftb > EC_UINT_BITS
               then (let ftb = ftb - EC_UINT_BITS; ft = drop_bit ftb ft1 + 1; fl' = drop_bit ftb fl
                     in do { c \<leftarrow> ec_encode c fl' (fl' + 1) ft; ec_enc_bits c (fl AND (push_bit ftb 1 - 1)) ftb })
               else ec_encode c fl (fl + 1) (ft1 + 1)) })"

definition ec_enc_patch_initial_bits :: "ec_ctx \<Rightarrow> 32 word \<Rightarrow> nat \<Rightarrow> ec_ctx option" where
  "ec_enc_patch_initial_bits c v nbits =
     do { u \<leftarrow> ensure (nbits \<le> 8);
          (let shift = EC_SYM_BITS - nbits; mask = push_bit shift (push_bit nbits 1 - 1) :: 32 word
           in if ec_offs c > 0
              then do { b \<leftarrow> rd (ec_buf c) 0;
                        bs \<leftarrow> wr (ec_buf c) 0 (ucast (ucast b AND NOT mask OR push_bit shift v));
                        Some (c\<lparr>ec_buf := bs\<rparr>) }
              else if ec_rem c \<ge> 0
              then Some (c\<lparr>ec_rem := sint (word_of_int (ec_rem c) AND NOT mask OR push_bit shift v)\<rparr>)
              else if ec_rng c \<le> drop_bit nbits EC_CODE_TOP
              then Some (c\<lparr>ec_val := ec_val c AND NOT (push_bit EC_CODE_SHIFT mask) OR push_bit (EC_CODE_SHIFT + shift) v\<rparr>)
              else Some (c\<lparr>ec_error := - 1\<rparr>)) }"

definition ec_enc_shrink :: "ec_ctx \<Rightarrow> nat \<Rightarrow> ec_ctx option" where
  "ec_enc_shrink c sz =
     do { u \<leftarrow> ensure (ec_end_offs c \<le> sz \<and> ec_end_offs c \<le> ec_storage c);
          b \<leftarrow> OPUS_MOVE (ec_buf c) (sz - ec_end_offs c) (ec_storage c - ec_end_offs c) (ec_end_offs c);
          Some (c\<lparr>ec_buf := b, ec_storage := sz\<rparr>) }"

text \<open>The loop that writes the digits of \<open>end\<close>; it returns \<open>l\<close> too.\<close>

function put_end :: "ec_ctx \<Rightarrow> 32 word \<Rightarrow> int \<Rightarrow> (ec_ctx \<times> int) option" where
  "put_end c e l =
     (if l > 0
      then do { c \<leftarrow> ec_enc_carry_out c (uint (drop_bit EC_CODE_SHIFT e));
                put_end c (push_bit EC_SYM_BITS e AND (EC_CODE_TOP - 1)) (l - int EC_SYM_BITS) }
      else Some (c, l))"
  by pat_completeness auto
termination
  by (relation "measure (\<lambda>(c, e, l). nat l)") (auto simp: EC_SYM_BITS_def)

declare put_end.simps [simp del]

text \<open>\<open>memset\<close> of \<open>n\<close> bytes to 0.\<close>

definition OPUS_CLEAR :: "mem \<Rightarrow> nat \<Rightarrow> nat \<Rightarrow> mem option" where
  "OPUS_CLEAR m dst n = (if dst + n \<le> length m then Some (take dst m @ replicate n 0 @ drop (dst + n) m) else None)"

text \<open>The last incomplete byte of raw bits goes into the last free byte, or the free bits of the last range-coded one.\<close>

definition put_last_bits :: "ec_ctx \<Rightarrow> 32 word \<Rightarrow> int \<Rightarrow> int \<Rightarrow> ec_ctx option" where
  "put_last_bits c window used l =
     (if ec_end_offs c \<ge> ec_storage c then Some (c\<lparr>ec_error := - 1\<rparr>)
      else (let l = - l
            in do { (window, c) \<leftarrow>
                      (if ec_offs c + ec_end_offs c \<ge> ec_storage c \<and> l < used
                       then do { u \<leftarrow> ensure (0 \<le> l \<and> l < 32); Some (window AND (push_bit (nat l) 1 - 1), c\<lparr>ec_error := - 1\<rparr>) }
                       else Some (window, c));
                    b \<leftarrow> rd (ec_buf c) (ec_storage c - ec_end_offs c - 1);
                    bs \<leftarrow> wr (ec_buf c) (ec_storage c - ec_end_offs c - 1) (b OR ucast window);
                    Some (c\<lparr>ec_buf := bs\<rparr>) }))"

text \<open>
  The first and the last part of \<open>ec_enc_done\<close>: the choice of \<open>end\<close> and of the number \<open>l\<close> of its bits that
  matter; the bytes of raw bits and the rest of the buffer.
\<close>

definition enc_end :: "ec_ctx \<Rightarrow> (int \<times> 32 word) option" where
  "enc_end c =
     do { k \<leftarrow> EC_ILOG (ec_rng c);
          (let l = int EC_CODE_BITS - int k; msk = drop_bit (nat l) (EC_CODE_TOP - 1); e = (ec_val c + msk) AND NOT msk
           in if e OR msk \<ge> ec_val c + ec_rng c
              then (let msk = drop_bit 1 msk in Some (l + 1, (ec_val c + msk) AND NOT msk)) else Some (l, e)) }"

definition put_raw_end :: "ec_ctx \<Rightarrow> int \<Rightarrow> ec_ctx option" where
  "put_raw_end c l =
     do { (c, window, used) \<leftarrow>
            (if ec_nend_bits c \<ge> int EC_SYM_BITS then flush_window c (ec_end_window c) (ec_nend_bits c)
             else Some (c, ec_end_window c, ec_nend_bits c));
          (if ec_error c = 0
           then do { b \<leftarrow> OPUS_CLEAR (ec_buf c) (ec_offs c) (ec_storage c - ec_offs c - ec_end_offs c);
                     (let c = c\<lparr>ec_buf := b\<rparr> in if used > 0 then put_last_bits c window used l else Some c) }
           else Some c) }"

definition ec_enc_done :: "ec_ctx \<Rightarrow> ec_ctx option" where
  "ec_enc_done c =
     do { (l, e) \<leftarrow> enc_end c;
          (c, l) \<leftarrow> put_end c e l;
          c \<leftarrow> (if ec_rem c \<ge> 0 \<or> ec_ext c > 0 then ec_enc_carry_out c 0 else Some c);
          put_raw_end c l }"

section \<open>entdec\<close>

definition ec_read_byte :: "ec_ctx \<Rightarrow> (int \<times> ec_ctx) option" where
  "ec_read_byte c =
     (if ec_offs c < ec_storage c then do { b \<leftarrow> rd (ec_buf c) (ec_offs c); Some (uint b, c\<lparr>ec_offs := ec_offs c + 1\<rparr>) }
      else Some (0, c))"

definition ec_read_byte_from_end :: "ec_ctx \<Rightarrow> (int \<times> ec_ctx) option" where
  "ec_read_byte_from_end c =
     (if ec_end_offs c < ec_storage c
      then do { b \<leftarrow> rd (ec_buf c) (ec_storage c - (ec_end_offs c + 1)); Some (uint b, c\<lparr>ec_end_offs := ec_end_offs c + 1\<rparr>) }
      else Some (0, c))"

lemma read_byte_nbits: "ec_read_byte c = Some (b, c') \<Longrightarrow> ec_nbits_total c' = ec_nbits_total c"
  by (auto simp: ec_read_byte_def split: if_splits Option.bind_splits)

function ec_dec_normalize :: "ec_ctx \<Rightarrow> ec_ctx option" where
  "ec_dec_normalize c =
     (if ec_rng c \<le> EC_CODE_BOT
      then do { n \<leftarrow> i32 (ec_nbits_total c + int EC_SYM_BITS);
                (let symb = ec_rem c
                 in do { (b, c) \<leftarrow> ec_read_byte (c\<lparr>ec_nbits_total := n, ec_rng := push_bit EC_SYM_BITS (ec_rng c)\<rparr>);
                         (let symb = drop_bit (EC_SYM_BITS - EC_CODE_EXTRA) (push_bit EC_SYM_BITS symb OR b)
                          in ec_dec_normalize (c\<lparr>ec_rem := b,
                               ec_val := (push_bit EC_SYM_BITS (ec_val c) + word_of_int (EC_SYM_MAX AND NOT symb)) AND (EC_CODE_TOP - 1)\<rparr>)) }) }
      else Some c)"
  by pat_completeness auto
termination
  by (relation "measure (\<lambda>c. nat (2 ^ 31 - ec_nbits_total c))")
    (auto dest!: read_byte_nbits simp: i32_def EC_SYM_BITS_def split: if_splits)

declare ec_dec_normalize.simps [simp del]

definition ec_dec_init :: "ec_ctx \<Rightarrow> mem \<Rightarrow> nat \<Rightarrow> ec_ctx option" where
  "ec_dec_init c b sz =
     do { (r, c) \<leftarrow> ec_read_byte (c\<lparr>ec_buf := b, ec_storage := sz, ec_end_offs := 0, ec_end_window := 0, ec_nend_bits := 0,
              ec_nbits_total := int EC_CODE_BITS + 1 - int ((EC_CODE_BITS - EC_CODE_EXTRA) div EC_SYM_BITS * EC_SYM_BITS),
              ec_offs := 0, ec_rng := push_bit EC_CODE_EXTRA 1\<rparr>);
          ec_dec_normalize (c\<lparr>ec_rem := r, ec_val := ec_rng c - 1 - word_of_int (drop_bit (EC_SYM_BITS - EC_CODE_EXTRA) r),
            ec_error := 0\<rparr>) }"

definition ec_decode :: "ec_ctx \<Rightarrow> 32 word \<Rightarrow> (32 word \<times> ec_ctx) option" where
  "ec_decode c ft =
     do { x \<leftarrow> celt_udiv (ec_rng c) ft;
          u \<leftarrow> ensure (x \<noteq> 0);
          (let s = ec_val c div x in Some (ft - EC_MINI (s + 1) ft, c\<lparr>ec_ext := x\<rparr>)) }"

definition ec_decode_bin :: "ec_ctx \<Rightarrow> nat \<Rightarrow> (32 word \<times> ec_ctx) option" where
  "ec_decode_bin c bits =
     do { u \<leftarrow> ensure (bits < 32);
          (let x = drop_bit bits (ec_rng c)
           in do { u \<leftarrow> ensure (x \<noteq> 0);
                   (let s = ec_val c div x in Some (push_bit bits 1 - EC_MINI (s + 1) (push_bit bits 1), c\<lparr>ec_ext := x\<rparr>)) }) }"

definition ec_dec_update :: "ec_ctx \<Rightarrow> 32 word \<Rightarrow> 32 word \<Rightarrow> 32 word \<Rightarrow> ec_ctx option" where
  "ec_dec_update c fl fh ft =
     (let s = ec_ext c * (ft - fh)
      in ec_dec_normalize (c\<lparr>ec_val := ec_val c - s, ec_rng := if fl > 0 then ec_ext c * (fh - fl) else ec_rng c - s\<rparr>))"

definition ec_dec_bit_logp :: "ec_ctx \<Rightarrow> nat \<Rightarrow> (bool \<times> ec_ctx) option" where
  "ec_dec_bit_logp c logp =
     do { u \<leftarrow> ensure (logp < 32);
          (let r = ec_rng c; d = ec_val c; s = drop_bit logp r; ret = d < s;
               c = (if ret then c else c\<lparr>ec_val := d - s\<rparr>)
           in do { c \<leftarrow> ec_dec_normalize (c\<lparr>ec_rng := if ret then s else r - s\<rparr>); Some (ret, c) }) }"

text \<open>The search in the table: the symbol, \<open>t\<close> and \<open>s\<close>.\<close>

function icdf_search :: "32 word \<Rightarrow> 32 word \<Rightarrow> mem \<Rightarrow> nat \<Rightarrow> 32 word \<Rightarrow> (nat \<times> 32 word \<times> 32 word) option" where
  "icdf_search r d icdf k s =
     do { x \<leftarrow> rd icdf k;
          (let t = s; s = r * ucast x in if d < s then icdf_search r d icdf (k + 1) s else Some (k, t, s)) }"
  by pat_completeness auto
termination
  by (relation "measure (\<lambda>(r, d, icdf, k, s). length icdf - k)") (auto simp: rd_Some_iff)

declare icdf_search.simps [simp del]

definition ec_dec_icdf :: "ec_ctx \<Rightarrow> mem \<Rightarrow> nat \<Rightarrow> (nat \<times> ec_ctx) option" where
  "ec_dec_icdf c icdf ftb =
     do { u \<leftarrow> ensure (ftb < 32);
          (let s = ec_rng c; d = ec_val c; r = drop_bit ftb s
           in do { (ret, t, s) \<leftarrow> icdf_search r d icdf 0 s;
                   c \<leftarrow> ec_dec_normalize (c\<lparr>ec_val := d - s, ec_rng := t - s\<rparr>);
                   Some (ret, c) }) }"

text \<open>\<open>do ... while (available <= EC_WINDOW_SIZE - EC_SYM_BITS)\<close>.\<close>

function fill_window :: "ec_ctx \<Rightarrow> 32 word \<Rightarrow> int \<Rightarrow> (ec_ctx \<times> 32 word \<times> int) option" where
  "fill_window c window available =
     do { (b, c) \<leftarrow> ec_read_byte_from_end c;
          u \<leftarrow> ensure (0 \<le> available \<and> available < 32);
          (let window = window OR push_bit (nat available) (word_of_int b); available = available + int EC_SYM_BITS
           in if available \<le> EC_WINDOW_SIZE - int EC_SYM_BITS then fill_window c window available else Some (c, window, available)) }"
  by pat_completeness auto
termination
  by (relation "measure (\<lambda>(c, w, a). nat (32 - a))") (auto simp: EC_SYM_BITS_def)

declare fill_window.simps [simp del]

definition ec_dec_bits :: "ec_ctx \<Rightarrow> nat \<Rightarrow> (32 word \<times> ec_ctx) option" where
  "ec_dec_bits c bits =
     do { (c, window, available) \<leftarrow>
            (if ec_nend_bits c < int bits then fill_window c (ec_end_window c) (ec_nend_bits c)
             else Some (c, ec_end_window c, ec_nend_bits c));
          u \<leftarrow> ensure (bits < 32);
          n \<leftarrow> i32 (ec_nbits_total c + int bits);
          Some (window AND (push_bit bits 1 - 1),
            c\<lparr>ec_end_window := drop_bit bits window, ec_nend_bits := available - int bits, ec_nbits_total := n\<rparr>) }"

definition ec_dec_uint :: "ec_ctx \<Rightarrow> 32 word \<Rightarrow> (32 word \<times> ec_ctx) option" where
  "ec_dec_uint c ft0 =
     (let ft1 = ft0 - 1
      in do { ftb \<leftarrow> EC_ILOG ft1;
              (if ftb > EC_UINT_BITS
               then (let ftb = ftb - EC_UINT_BITS; ft = drop_bit ftb ft1 + 1
                     in do { (s, c) \<leftarrow> ec_decode c ft;
                             c \<leftarrow> ec_dec_update c s (s + 1) ft;
                             (b, c) \<leftarrow> ec_dec_bits c ftb;
                             (let t = push_bit ftb s OR b
                              in if t \<le> ft1 then Some (t, c) else Some (ft1, c\<lparr>ec_error := 1\<rparr>)) })
               else do { (s, c) \<leftarrow> ec_decode c (ft1 + 1);
                         c \<leftarrow> ec_dec_update c s (s + 1) (ft1 + 1);
                         Some (s, c) }) })"

end
