(* ===== verification/OpusRangeEnc.thy ===== *)
theory OpusRangeEnc
  imports OpusRange
begin

text \<open>
  What the range encoder holds: the bytes written, the byte awaiting a carry and the run of 255s behind it
  are the digits of a number \<open>D\<close> to base 256, the low end of the interval is \<open>D * 2^31 + val\<close>, and no
  later carry can get past the byte awaiting it.
\<close>

section \<open>Numbers to base 256\<close>

definition be :: "nat list \<Rightarrow> nat" where
  "be ds = foldl (\<lambda>a d. 256 * a + d) 0 ds"

lemma foldl_be: "foldl (\<lambda>a d. 256 * a + d) x ds = x * 256 ^ length ds + be ds"
proof (induction ds arbitrary: x)
  case (Cons d ds)
  have "be (d # ds) = d * 256 ^ length ds + be ds" using Cons.IH [of d] by (simp add: be_def)
  then show ?case using Cons.IH [of "256 * x + d"] by (simp add: algebra_simps)
qed (simp add: be_def)

lemma be_Nil [simp]: "be [] = 0"
  by (simp add: be_def)

lemma be_append: "be (xs @ ys) = be xs * 256 ^ length ys + be ys"
  using foldl_be [of "be xs" ys] by (simp add: be_def)

lemma be_one [simp]: "be [d] = d"
  by (simp add: be_def)

lemma be_snoc: "be (xs @ [d]) = 256 * be xs + d"
  by (simp add: be_append)

lemma be_less: "\<forall>d \<in> set ds. d < 256 \<Longrightarrow> be ds < 256 ^ length ds"
proof (induction ds rule: rev_induct)
  case (snoc d ds)
  then have "be ds + 1 \<le> 256 ^ length ds" "d < 256" by auto
  then show ?case by (simp add: be_snoc)
qed simp

lemma be_255: "be (replicate k 255) = 256 ^ k - 1"
proof (induction k)
  case (Suc k)
  obtain m where "(256 :: nat) ^ k = Suc m" using not0_implies_Suc [of "256 ^ k"] by auto
  then show ?case using Suc be_append [of "replicate k 255" "[255]"] by (simp add: replicate_append_same)
qed simp

lemma be_0: "be (replicate k 0) = 0"
proof (induction k)
  case (Suc k)
  then show ?case using be_append [of "replicate k 0" "[0]"] by (simp add: replicate_append_same)
qed simp

section \<open>Writing bytes\<close>

definition safe :: "ec_ctx \<Rightarrow> bool" where
  "safe c \<longleftrightarrow> length (ec_buf c) = ec_storage c \<and> ec_offs c + ec_end_offs c \<le> ec_storage c"

text \<open>A step that writes range-coded bytes only.\<close>

definition front_only :: "ec_ctx \<Rightarrow> ec_ctx \<Rightarrow> bool" where
  "front_only c c' \<longleftrightarrow> safe c' \<and> ec_storage c' = ec_storage c \<and> ec_end_offs c' = ec_end_offs c \<and>
     ec_end_window c' = ec_end_window c \<and> ec_nend_bits c' = ec_nend_bits c \<and> ec_nbits_total c' = ec_nbits_total c \<and>
     ec_rng c' = ec_rng c \<and> ec_val c' = ec_val c \<and>
     drop (ec_storage c - ec_end_offs c) (ec_buf c') = drop (ec_storage c - ec_end_offs c) (ec_buf c) \<and>
     (ec_error c' = 0 \<longrightarrow> ec_error c = 0)"

lemma front_only_refl: "safe c \<Longrightarrow> front_only c c"
  by (simp add: front_only_def)

lemma front_only_trans: "front_only a b \<Longrightarrow> front_only b c \<Longrightarrow> front_only a c"
  by (simp add: front_only_def)

lemma put_byte_eq:
  assumes "safe c"
  shows "put_byte c v = Some (if ec_offs c + ec_end_offs c < ec_storage c
    then c\<lparr>ec_buf := (ec_buf c)[ec_offs c := ucast v], ec_offs := ec_offs c + 1\<rparr> else c\<lparr>ec_error := - 1\<rparr>)"
  using assms by (auto simp: put_byte_def ec_write_byte_def safe_def wr_def)

lemma put_byte_front:
  assumes "safe c"
  obtains c' where "put_byte c v = Some c'" "front_only c c'" "ec_ext c' = ec_ext c" "ec_rem c' = ec_rem c"
    "ec_error c' = 0 \<Longrightarrow> ec_offs c' = Suc (ec_offs c) \<and> take (ec_offs c') (ec_buf c') = take (ec_offs c) (ec_buf c) @ [ucast v]"
proof
  define c' where "c' = (if ec_offs c + ec_end_offs c < ec_storage c
    then c\<lparr>ec_buf := (ec_buf c)[ec_offs c := ucast v], ec_offs := ec_offs c + 1\<rparr> else c\<lparr>ec_error := - 1\<rparr>)"
  show "put_byte c v = Some c'" using put_byte_eq [OF assms] by (simp add: c'_def)
  show "front_only c c'" using assms by (auto simp: c'_def front_only_def safe_def)
  show "ec_ext c' = ec_ext c" "ec_rem c' = ec_rem c" by (simp_all add: c'_def)
  show "ec_offs c' = Suc (ec_offs c) \<and> take (ec_offs c') (ec_buf c') = take (ec_offs c) (ec_buf c) @ [ucast v]" if "ec_error c' = 0"
    using that assms by (auto simp: c'_def safe_def take_Suc_conv_app_nth split: if_splits)
qed

lemma flush_ext_front:
  assumes "safe c"
  shows "\<exists>c'. flush_ext s c = Some c' \<and> front_only c c' \<and> ec_ext c' = 0 \<and> ec_rem c' = ec_rem c \<and>
    (ec_error c' = 0 \<longrightarrow> ec_offs c' = ec_offs c + unat (ec_ext c) \<and>
      take (ec_offs c') (ec_buf c') = take (ec_offs c) (ec_buf c) @ replicate (unat (ec_ext c)) (ucast s))"
  using assms
proof (induction s c rule: flush_ext.induct)
  case (1 s c)
  show ?case
  proof (cases "ec_ext c > 0")
    case False
    then show ?thesis using "1.prems" by (simp add: flush_ext.simps [of s c] front_only_refl word_gt_0)
  next
    case True
    obtain c1 where c1: "put_byte c s = Some c1" "front_only c c1" "ec_ext c1 = ec_ext c" "ec_rem c1 = ec_rem c"
      "ec_error c1 = 0 \<Longrightarrow> ec_offs c1 = Suc (ec_offs c) \<and> take (ec_offs c1) (ec_buf c1) = take (ec_offs c) (ec_buf c) @ [ucast s]"
      using put_byte_front [OF "1.prems", of s] by blast
    let ?c = "c1\<lparr>ec_ext := ec_ext c1 - 1\<rparr>"
    have f: "front_only c ?c" using c1(2) by (simp add: front_only_def safe_def)
    have "safe ?c" using f by (simp add: front_only_def)
    from "1.IH" [OF True c1(1) this] obtain c' where c': "flush_ext s ?c = Some c'" "front_only ?c c'" "ec_ext c' = 0" "ec_rem c' = ec_rem ?c"
      "ec_error c' = 0 \<longrightarrow> ec_offs c' = ec_offs ?c + unat (ec_ext ?c) \<and>
        take (ec_offs c') (ec_buf c') = take (ec_offs ?c) (ec_buf ?c) @ replicate (unat (ec_ext ?c)) (ucast s)" by blast
    have n: "unat (ec_ext c) = Suc (unat (ec_ext c - 1))" using True by (simp add: unat_minus_one word_gt_0 unat_gt_0)
    have "ec_offs c' = ec_offs c + unat (ec_ext c) \<and>
        take (ec_offs c') (ec_buf c') = take (ec_offs c) (ec_buf c) @ replicate (unat (ec_ext c)) (ucast s)" if "ec_error c' = 0"
    proof -
      have "ec_error c1 = 0" using that c'(2) by (simp add: front_only_def)
      then have "ec_offs c1 = Suc (ec_offs c)" "take (Suc (ec_offs c)) (ec_buf c1) = take (ec_offs c) (ec_buf c) @ [ucast s]"
        using c1(5) by auto
      moreover have w: "ec_offs c' = ec_offs c1 + unat (ec_ext c - 1)"
        using conjunct1 [OF mp [OF c'(5) that]] c1(3) by simp
      moreover have "take (ec_offs c') (ec_buf c') = take (ec_offs c1) (ec_buf c1) @ replicate (unat (ec_ext c - 1)) (ucast s)"
        using conjunct2 [OF mp [OF c'(5) that]] c1(3) by simp
      ultimately show ?thesis unfolding n by (auto simp del: take_Suc)
    qed
    moreover have "flush_ext s c = Some c'" using True c1(1) c'(1) by (simp add: flush_ext.simps [of s c])
    moreover have "ec_rem c' = ec_rem c" using c1(4) c'(4) by simp
    ultimately show ?thesis using c'(3) front_only_trans [OF f c'(2)] by blast
  qed
qed

section \<open>Carries\<close>

definition pending :: "ec_ctx \<Rightarrow> nat list" where
  "pending c = (if ec_rem c \<ge> 0 then [nat (ec_rem c)] else []) @ replicate (unat (ec_ext c)) 255"

definition written :: "ec_ctx \<Rightarrow> nat list" where
  "written c = map unat (take (ec_offs c) (ec_buf c))"

definition digits :: "ec_ctx \<Rightarrow> nat list" where
  "digits c = written c @ pending c"

text \<open>\<open>n\<close> digits with the number \<open>D\<close>, and an interval from \<open>V\<close> of \<open>R\<close> numbers behind them.\<close>

definition enc_at :: "ec_ctx \<Rightarrow> nat \<Rightarrow> nat \<Rightarrow> nat \<Rightarrow> nat \<Rightarrow> bool" where
  "enc_at c n D V R \<longleftrightarrow> safe c \<and> ec_error c = 0 \<and> ec_rem c \<le> 255 \<and> (ec_rem c < 0 \<longrightarrow> ec_offs c = 0) \<and>
     n = length (digits c) \<and> D = be (digits c) \<and> 0 < R \<and>
     D * 2 ^ 31 + V + R \<le> (be (written c) + 1) * 256 ^ length (pending c) * 2 ^ 31"

lemma enc_at_cong:
  assumes "ec_buf c' = ec_buf c" "ec_storage c' = ec_storage c" "ec_offs c' = ec_offs c" "ec_end_offs c' = ec_end_offs c"
    "ec_rem c' = ec_rem c" "ec_ext c' = ec_ext c" "ec_error c' = ec_error c"
  shows "enc_at c' n D V R \<longleftrightarrow> enc_at c n D V R"
  unfolding enc_at_def safe_def digits_def written_def pending_def assms by (rule refl)

lemma length_written: "safe c \<Longrightarrow> length (written c) = ec_offs c"
  by (simp add: written_def safe_def)

lemma carry_out_safe:
  assumes "safe c"
  obtains c' where "ec_enc_carry_out c s = Some c'" "front_only c c'"
proof (cases "s = EC_SYM_MAX")
  case True
  then show ?thesis using assms that by (simp add: ec_enc_carry_out_def front_only_def safe_def)
next
  case False
  obtain c1 where c1: "(if ec_rem c \<ge> 0 then put_byte c (word_of_int (ec_rem c + drop_bit EC_SYM_BITS s)) else Some c) = Some c1" "front_only c c1"
  proof (cases "ec_rem c \<ge> 0")
    case True
    then show ?thesis using that put_byte_front [OF assms, of "word_of_int (ec_rem c + drop_bit EC_SYM_BITS s)"] by auto
  next
    case False
    then show ?thesis using that front_only_refl [OF assms] by simp
  qed
  have "safe c1" using c1(2) by (simp add: front_only_def)
  from flush_ext_front [OF this] obtain c2 where
    c2: "flush_ext (word_of_int ((EC_SYM_MAX + drop_bit EC_SYM_BITS s) AND EC_SYM_MAX)) c1 = Some c2" "front_only c1 c2" by blast
  have "front_only c (c2\<lparr>ec_rem := s AND EC_SYM_MAX\<rparr>)"
    using front_only_trans [OF c1(2) c2(2)] by (simp add: front_only_def safe_def)
  then show ?thesis using that False c1(1) c2(1) by (simp add: ec_enc_carry_out_def Let_def)
qed

text \<open>There is no error where the buffer has room for the digits.\<close>

lemma put_byte_room:
  "safe c \<Longrightarrow> ec_offs c + ec_end_offs c < ec_storage c \<Longrightarrow> put_byte c v = Some c' \<Longrightarrow>
    ec_error c' = ec_error c \<and> safe c' \<and> ec_ext c' = ec_ext c \<and> ec_offs c' = Suc (ec_offs c) \<and> ec_end_offs c' = ec_end_offs c \<and> ec_storage c' = ec_storage c"
  by (auto simp: put_byte_eq safe_def)

lemma flush_ext_room:
  "safe c \<Longrightarrow> ec_offs c + unat (ec_ext c) + ec_end_offs c \<le> ec_storage c \<Longrightarrow> flush_ext s c = Some c' \<Longrightarrow> ec_error c' = ec_error c"
proof (induction s c rule: flush_ext.induct)
  case (1 s c)
  show ?case
  proof (cases "ec_ext c > 0")
    case False
    then show ?thesis using "1.prems"(3) by (simp add: flush_ext.simps [of s c])
  next
    case True
    then have n: "unat (ec_ext c) = Suc (unat (ec_ext c - 1))" by (simp add: unat_minus_one word_gt_0 unat_gt_0)
    obtain c1 where c1: "put_byte c s = Some c1" "flush_ext s (c1\<lparr>ec_ext := ec_ext c1 - 1\<rparr>) = Some c'"
      using "1.prems"(3) True by (auto simp: flush_ext.simps [of s c] split: Option.bind_splits)
    have "ec_offs c + ec_end_offs c < ec_storage c" using "1.prems"(2) n by simp
    note r = put_byte_room [OF "1.prems"(1) this c1(1)]
    then have "safe (c1\<lparr>ec_ext := ec_ext c1 - 1\<rparr>)" by (simp add: safe_def)
    from "1.IH" [OF True c1(1) this _ c1(2)] r "1.prems"(2) n show ?thesis by simp
  qed
qed

lemma carry_out_room:
  assumes "safe c" and "length (digits c) + ec_end_offs c \<le> ec_storage c" and out: "ec_enc_carry_out c s = Some c'"
  shows "ec_error c' = ec_error c"
proof (cases "s = EC_SYM_MAX")
  case True
  then show ?thesis using out by (auto simp: ec_enc_carry_out_def)
next
  case False
  have room: "ec_offs c + (if ec_rem c \<ge> 0 then 1 else 0) + unat (ec_ext c) + ec_end_offs c \<le> ec_storage c"
    using assms(1,2) by (auto simp: digits_def length_written pending_def)
  obtain c1 c2 where c1: "(if ec_rem c \<ge> 0 then put_byte c (word_of_int (ec_rem c + drop_bit EC_SYM_BITS s)) else Some c) = Some c1" and
    c2: "flush_ext (word_of_int ((EC_SYM_MAX + drop_bit EC_SYM_BITS s) AND EC_SYM_MAX)) c1 = Some c2" and c': "c' = c2\<lparr>ec_rem := s AND EC_SYM_MAX\<rparr>"
    using out False by (auto simp: ec_enc_carry_out_def Let_def split: Option.bind_splits)
  have "ec_error c1 = ec_error c \<and> safe c1 \<and> ec_offs c1 + unat (ec_ext c1) + ec_end_offs c1 \<le> ec_storage c1"
  proof (cases "ec_rem c \<ge> 0")
    case True
    then have "put_byte c (word_of_int (ec_rem c + drop_bit EC_SYM_BITS s)) = Some c1" using c1 by simp
    from put_byte_room [OF assms(1) _ this] show ?thesis using room True by simp
  next
    case False
    then show ?thesis using c1 room assms(1) by simp
  qed
  then show ?thesis using flush_ext_room [OF _ _ c2] c' by simp
qed

lemma one_carry: "s < 512 \<Longrightarrow> s div 256 = 0 \<and> s < 256 \<or> s div 256 = 1 \<and> 256 \<le> (s :: nat)"
proof (cases "s < 256")
  case False
  then obtain t where "s = 256 + t" using le_Suc_ex [of 256 s] by auto
  moreover assume "s < 512"
  ultimately show ?thesis by simp
qed simp

lemma digit_split: "256 * (D + s div 256) + s mod 256 = 256 * D + (s :: nat)"
  by (simp add: distrib_left)

lemma past_top: "D * 2 ^ 31 + V + R \<le> X * 2 ^ 31 \<Longrightarrow> 256 * 2 ^ 23 \<le> V \<Longrightarrow> 0 < R \<Longrightarrow> D + 1 < (X :: nat)"
  by simp

lemma byte_of: "unat (ucast (word_of_nat n :: 32 word) :: 8 word) = n mod 256"
  by (simp add: unsigned_ucast_eq unsigned_of_nat take_bit_eq_mod mod_mod_cancel)

lemma byte_255: "(255 + int k) AND 255 = int ((255 + k) mod 256)"
  using take_bit_eq_mask [of 8 "255 + int k"] by (simp add: mask_eq_exp_minus_1 take_bit_eq_mod zmod_int)

lemma symbol_of: "int n AND EC_SYM_MAX = int (n mod 256)"
  using take_bit_eq_mask [of 8 "int n"] by (simp add: mask_eq_exp_minus_1 take_bit_eq_mod zmod_int EC_SYM_MAX_def EC_SYM_BITS_def)

text \<open>What a carry of \<open>k\<close> makes of the bytes that await it.\<close>

lemma carry_out_writes:
  assumes "safe c" and "ec_rem c \<le> 255" and "m \<noteq> 255" and out: "ec_enc_carry_out c (int m) = Some c'" "ec_error c' = 0"
  shows "written c' = written c @ (if ec_rem c \<ge> 0 then [(nat (ec_rem c) + m div 256) mod 256] else []) @
      replicate (unat (ec_ext c)) ((255 + m div 256) mod 256)"
    and "pending c' = [m mod 256]" and "ec_rem c' = int (m mod 256)" and "safe c'"
proof -
  let ?k = "m div 256"
  let ?b = "word_of_int ((EC_SYM_MAX + drop_bit EC_SYM_BITS (int m)) AND EC_SYM_MAX) :: 32 word"
  have k: "drop_bit EC_SYM_BITS (int m) = int ?k" by (simp add: EC_SYM_BITS_def drop_bit_eq_div zdiv_int)
  have m: "int m \<noteq> EC_SYM_MAX" using assms(3) by (simp add: EC_SYM_MAX_def EC_SYM_BITS_def)
  obtain c1 c2 where c1: "(if ec_rem c \<ge> 0 then put_byte c (word_of_int (ec_rem c + int ?k)) else Some c) = Some c1" and
    c2: "flush_ext ?b c1 = Some c2" and c': "c' = c2\<lparr>ec_rem := int m AND EC_SYM_MAX\<rparr>"
    using out(1) m k by (auto simp: ec_enc_carry_out_def Let_def split: Option.bind_splits)
  have "?b = word_of_nat ((255 + ?k) mod 256)"
    unfolding k using byte_255 [of ?k] by (simp add: EC_SYM_MAX_def EC_SYM_BITS_def)
  then have b: "unat (ucast ?b :: 8 word) = (255 + ?k) mod 256" using byte_of [of "(255 + ?k) mod 256"] by simp
  have F: "front_only c c1 \<and> ec_ext c1 = ec_ext c \<and> (ec_error c1 = 0 \<longrightarrow>
      written c1 = written c @ (if ec_rem c \<ge> 0 then [(nat (ec_rem c) + ?k) mod 256] else []))"
  proof (cases "ec_rem c \<ge> 0")
    case False
    then show ?thesis using c1 front_only_refl [OF assms(1)] by simp
  next
    case True
    then have "ec_rem c + int ?k = int (nat (ec_rem c) + ?k)" by simp
    then have c1': "put_byte c (word_of_nat (nat (ec_rem c) + ?k)) = Some c1" using c1 True by (simp only: if_True of_int_of_nat_eq)
    obtain c3 where c3: "put_byte c (word_of_nat (nat (ec_rem c) + ?k)) = Some c3" "front_only c c3" "ec_ext c3 = ec_ext c"
      "ec_rem c3 = ec_rem c" "ec_error c3 = 0 \<Longrightarrow> ec_offs c3 = Suc (ec_offs c) \<and>
         take (ec_offs c3) (ec_buf c3) = take (ec_offs c) (ec_buf c) @ [ucast (word_of_nat (nat (ec_rem c) + ?k) :: 32 word)]"
      using put_byte_front [OF assms(1), of "word_of_nat (nat (ec_rem c) + ?k)"] by blast
    have "written c3 = written c @ [(nat (ec_rem c) + ?k) mod 256]" if "ec_error c3 = 0"
      unfolding written_def conjunct2 [OF c3(5) [OF that]] by (simp only: map_append list.map byte_of)
    then show ?thesis using c1' c3(1-3) True by simp
  qed
  then have "safe c1" by (simp add: front_only_def)
  from flush_ext_front [OF this, of ?b] c2 have G: "front_only c1 c2" "ec_ext c2 = 0" "ec_rem c2 = ec_rem c1"
    "ec_error c2 = 0 \<longrightarrow> ec_offs c2 = ec_offs c1 + unat (ec_ext c1) \<and>
      take (ec_offs c2) (ec_buf c2) = take (ec_offs c1) (ec_buf c1) @ replicate (unat (ec_ext c1)) (ucast ?b)" by auto
  have e: "ec_error c2 = 0" "ec_error c1 = 0" using out(2) c' G(1) by (simp_all add: front_only_def)
  have "written c2 = written c1 @ replicate (unat (ec_ext c1)) ((255 + ?k) mod 256)"
    unfolding written_def conjunct2 [OF mp [OF G(4) e(1)]] by (simp only: map_append map_replicate b)
  then show "written c' = written c @ (if ec_rem c \<ge> 0 then [(nat (ec_rem c) + ?k) mod 256] else []) @
      replicate (unat (ec_ext c)) ((255 + ?k) mod 256)"
    using F e by (simp add: c' written_def)
  show "pending c' = [m mod 256]" "ec_rem c' = int (m mod 256)" using G(2) by (simp_all add: c' pending_def symbol_of)
  show "safe c'" using G(1) by (simp add: c' front_only_def safe_def)
qed

text \<open>
  The carry: \<open>s\<close> is the next digit, with a carry above it, and \<open>V\<close> the value of which it is the top.
  Where it is below 255 the interval must not reach over the digit.
\<close>

lemma carry_out_at:
  assumes at: "enc_at c n D V R" and V: "V < 2 ^ 32" "V + R \<le> 2 ^ 32" "V div 2 ^ 23 < 255 \<Longrightarrow> V + R \<le> 2 ^ 31"
    and n: "Suc n < 2 ^ 32"
    and out: "ec_enc_carry_out c (int (V div 2 ^ 23)) = Some c'" "ec_error c' = 0"
  shows "enc_at c' (Suc n) (256 * D + V div 2 ^ 23) (V mod 2 ^ 23 * 256) (256 * R)"
proof -
  let ?s = "V div 2 ^ 23"
  have A: "safe c" "ec_rem c \<le> 255" "ec_rem c < 0 \<longrightarrow> ec_offs c = 0" "n = length (digits c)" "D = be (digits c)" "0 < R"
    "D * 2 ^ 31 + V + R \<le> (be (written c) + 1) * 256 ^ length (pending c) * 2 ^ 31"
    using at by (simp_all add: enc_at_def)
  have V': "256 * V = ?s * 2 ^ 31 + V mod 2 ^ 23 * 256"
  proof -
    have "V = V div 8388608 * 8388608 + V mod 8388608" by (rule div_mult_mod_eq [symmetric])
    then have "256 * V = V div 8388608 * 2147483648 + V mod 8388608 * 256" by linarith
    then show ?thesis by simp
  qed
  show ?thesis
  proof (cases "?s = 255")
    case True
    have "unat (ec_ext c) < 2 ^ 32 - 1" using A(4) n by (simp add: digits_def pending_def)
    then have ext: "unat (ec_ext c + 1) = Suc (unat (ec_ext c))" by (simp add: unat_word_ariths)
    have c': "c' = c\<lparr>ec_ext := ec_ext c + 1\<rparr>" using out(1) True by (simp add: ec_enc_carry_out_def EC_SYM_MAX_def EC_SYM_BITS_def)
    have p: "pending c' = pending c @ [255]" "written c' = written c" by (simp_all add: c' pending_def written_def ext replicate_append_same)
    have "(256 * D + 255) * 2 ^ 31 + V mod 2 ^ 23 * 256 + 256 * R = 256 * (D * 2 ^ 31 + V + R)" using V' True by simp
    also have "\<dots> \<le> 256 * ((be (written c) + 1) * 256 ^ length (pending c) * 2 ^ 31)" using A(7) by simp
    finally have "(256 * D + 255) * 2 ^ 31 + V mod 2 ^ 23 * 256 + 256 * R \<le> (be (written c') + 1) * 256 ^ length (pending c') * 2 ^ 31"
      by (simp add: p)
    moreover have "be (digits c') = 256 * D + 255" "length (digits c') = Suc n"
      using A(4,5) be_snoc [of "digits c" 255] by (simp_all add: digits_def p)
    ultimately show ?thesis using A(1-3,6) out(2) True by (simp add: enc_at_def c' safe_def)
  next
    case False
    let ?k = "?s div 256" and ?r = "nat (ec_rem c)" and ?e = "unat (ec_ext c)" and ?W = "be (written c)"
    note w = carry_out_writes [OF A(1,2) False out]
    have s: "?s < 512" using V(1) by (simp add: less_mult_imp_div_less)
    then have k: "?k = 0 \<and> ?s < 256 \<or> ?k = 1 \<and> 256 \<le> ?s" by (rule one_carry)
    have D: "D = ?W * 256 ^ length (pending c) + be (pending c)" using A(5) by (simp add: digits_def be_append)
    have e: "be (replicate ?e 255) + 1 = 256 ^ ?e" by (simp add: be_255)
    have over: "D + 1 < (?W + 1) * 256 ^ length (pending c)" if "?k = 1"
    proof -
      have "256 * 2 ^ 23 \<le> V" using k that less_eq_div_iff_mult_less_eq [of "2 ^ 23" 256 V] by simp
      from past_top [OF A(7) this A(6)] show ?thesis .
    qed
    have "be (written c') = D + ?k \<and> length (written c') = length (digits c)"
    proof (cases "ec_rem c \<ge> 0")
      case rem: False
      then have "written c = []" using A(1,3) by (simp add: written_def)
      moreover have "?k = 0" using k over e rem by (auto simp: D pending_def \<open>written c = []\<close>)
      ultimately show ?thesis using rem w(1) D by (simp add: digits_def pending_def)
    next
      case rem: True
      then have p: "be (pending c) + 1 = (?r + 1) * 256 ^ ?e" "length (pending c) = Suc ?e"
        using e be_append [of "[?r]" "replicate ?e 255"] by (simp_all add: pending_def)
      show ?thesis
      proof (cases "?k = 0")
        case True
        have "?r mod 256 = ?r" using A(2) rem by simp
        then show ?thesis using True rem w(1) A(5) by (simp add: digits_def pending_def)
      next
        case False
        then have k1: "?k = 1" using k by simp
        have "?W * (256 * 256 ^ ?e) + (?r + 1) * 256 ^ ?e < (?W + 1) * (256 * 256 ^ ?e)"
          using over [OF k1] p unfolding D by simp
        then have "(?r + 1) * 256 ^ ?e < 256 * 256 ^ ?e" by (simp add: distrib_right)
        then have "?r + 1 < 256" by (metis mult_less_cancel2)
        then have "written c' = written c @ [?r + 1] @ replicate ?e 0" using w(1) k1 rem by simp
        then show ?thesis using D p k1 be_append [of "[?r + 1]" "replicate ?e 0"] by (simp add: be_append be_0 digits_def)
      qed
    qed
    then have new: "be (written c') = D + ?k" "length (written c') = length (digits c)" by simp_all
    have "256 * (V + R) \<le> 256 * ((1 + ?k) * 2 ^ 31)" using k V(2,3) False by auto
    then have "256 * (D * 2 ^ 31 + V + R) \<le> (be (written c') + 1) * 256 * 2 ^ 31" unfolding new(1) by (simp add: algebra_simps)
    moreover have "(256 * D + ?s) * 2 ^ 31 + V mod 2 ^ 23 * 256 + 256 * R = 256 * (D * 2 ^ 31 + V + R)" using V' by simp
    moreover have "256 * (D + ?k) + ?s mod 256 = 256 * D + ?s" by (rule digit_split)
    moreover have "?s mod 256 < 256" by simp
    then have "?s mod 256 \<le> 255" by linarith
    ultimately show ?thesis
      using w(2-4) out(2) A(4,6) new by (auto simp: enc_at_def digits_def be_append)
  qed
qed

section \<open>Renormalisation\<close>

lemma bot_iff: "w \<le> EC_CODE_BOT \<longleftrightarrow> unat w \<le> 2 ^ 23"
  by (simp add: EC_CODE_BOT_def EC_CODE_TOP_def EC_SYM_BITS_def EC_CODE_BITS_def word_le_nat_alt)

lemma top_mask: "EC_CODE_TOP - 1 = mask 31"
  by (simp add: EC_CODE_TOP_def EC_CODE_BITS_def mask_eq_exp_minus_1)

lemma unat_push: "unat w * 2 ^ k < 2 ^ 32 \<Longrightarrow> unat (push_bit k (w :: 32 word)) = unat w * 2 ^ k"
  unfolding unsigned_push_bit_eq by (simp add: push_bit_eq_mult take_bit_nat_eq_self)

lemma unat_drop: "unat (drop_bit k (w :: 32 word)) = unat w div 2 ^ k"
  unfolding unat_drop_bit_eq by (rule drop_bit_eq_div)

lemma unat_shifted: "unat (push_bit EC_SYM_BITS v AND (EC_CODE_TOP - 1)) = unat v mod 2 ^ 23 * 256"
proof -
  have "push_bit EC_SYM_BITS v AND (EC_CODE_TOP - 1) = push_bit 8 (take_bit 23 v)"
    unfolding top_mask take_bit_eq_mask [symmetric] by (simp add: EC_SYM_BITS_def take_bit_push_bit)
  moreover have "unat (take_bit 23 v) = unat v mod 2 ^ 23" unfolding unsigned_take_bit_eq by (rule take_bit_eq_mod)
  moreover have "unat v mod 2 ^ 23 < 2 ^ 23" by simp
  ultimately show ?thesis using unat_push [of "take_bit 23 v" 8] by simp
qed

lemma uint_top: "uint (drop_bit EC_CODE_SHIFT (v :: 32 word)) = int (unat v div 2 ^ 23)"
proof -
  have "EC_CODE_SHIFT = 23" by (simp add: EC_CODE_SHIFT_def EC_CODE_BITS_def EC_SYM_BITS_def)
  then have "uint (drop_bit EC_CODE_SHIFT v) = int (unat (drop_bit 23 v))" by simp
  then show ?thesis by (simp only: unat_drop)
qed

text \<open>How often a range of \<open>R\<close> is too small.\<close>

function norm_steps :: "nat \<Rightarrow> nat" where
  "norm_steps R = (if 0 < R \<and> R \<le> 2 ^ 23 then Suc (norm_steps (256 * R)) else 0)"
  by pat_completeness auto
termination by (relation "measure (\<lambda>R. 2 ^ 24 - R)") auto

declare norm_steps.simps [simp del]

lemma norm_steps_range:
  assumes "0 < R" and "R \<le> 2 ^ 31"
  shows "2 ^ 23 < 256 ^ norm_steps R * R" and "256 ^ norm_steps R * R \<le> 2 ^ 31" and "norm_steps R \<le> 3"
proof -
  have "2 ^ 23 < 256 ^ norm_steps R * R \<and> 256 ^ norm_steps R * R \<le> 2 ^ 31" using assms
  proof (induction R rule: norm_steps.induct)
    case (1 R)
    then show ?case by (cases "R \<le> 2 ^ 23") (simp_all add: norm_steps.simps [of R] ac_simps)
  qed
  then show "2 ^ 23 < 256 ^ norm_steps R * R" "256 ^ norm_steps R * R \<le> 2 ^ 31" by simp_all
  have "256 ^ norm_steps R \<le> 256 ^ norm_steps R * R" using assms(1) by simp
  also have "\<dots> \<le> 2 ^ 31" by fact
  also have "(2 :: nat) ^ 31 < 256 ^ 4" by simp
  finally have "norm_steps R < 4" by (rule power_less_imp_less_exp [rotated]) simp
  then show "norm_steps R \<le> 3" by simp
qed

definition keeps_back :: "ec_ctx \<Rightarrow> ec_ctx \<Rightarrow> bool" where
  "keeps_back c c' \<longleftrightarrow> safe c' \<and> ec_storage c' = ec_storage c \<and> ec_end_offs c' = ec_end_offs c \<and>
     ec_end_window c' = ec_end_window c \<and> ec_nend_bits c' = ec_nend_bits c \<and>
     drop (ec_storage c - ec_end_offs c) (ec_buf c') = drop (ec_storage c - ec_end_offs c) (ec_buf c) \<and>
     (ec_error c' = 0 \<longrightarrow> ec_error c = 0)"

lemma keeps_back_refl: "safe c \<Longrightarrow> keeps_back c c"
  by (simp add: keeps_back_def)

lemma keeps_back_trans: "keeps_back a b \<Longrightarrow> keeps_back b c \<Longrightarrow> keeps_back a c"
  by (simp add: keeps_back_def)

lemma front_keeps_back: "front_only c c' \<Longrightarrow> keeps_back c c'"
  by (simp add: front_only_def keeps_back_def)

lemma rescale: "(256 * D + V div 2 ^ 23) * 2 ^ 31 + V mod 2 ^ 23 * 256 = 256 * (D * 2 ^ 31 + (V :: nat))"
proof -
  have "V = V div 8388608 * 8388608 + V mod 8388608" by (rule div_mult_mod_eq [symmetric])
  then have "256 * V = V div 8388608 * 2147483648 + V mod 8388608 * 256" by linarith
  then show ?thesis by simp
qed

lemma small_sum: "x < 2 ^ 31 \<Longrightarrow> r \<le> 2 ^ 23 \<Longrightarrow> x + 256 * r < (2 :: nat) ^ 32"
  by simp

lemma normalize_enc:
  assumes "safe c" and "ec_rng c \<noteq> 0" and "ec_nbits_total c + 8 * int (norm_steps (unat (ec_rng c))) < 2 ^ 31" and "0 \<le> ec_nbits_total c"
  shows "\<exists>c'. ec_enc_normalize c = Some c' \<and> keeps_back c c' \<and>
    ec_nbits_total c' = ec_nbits_total c + 8 * int (norm_steps (unat (ec_rng c))) \<and>
    unat (ec_rng c') = 256 ^ norm_steps (unat (ec_rng c)) * unat (ec_rng c) \<and>
    (ec_error c' = 0 \<longrightarrow> (\<forall>n D. enc_at c n D (unat (ec_val c)) (unat (ec_rng c)) \<and> unat (ec_val c) + unat (ec_rng c) < 2 ^ 32 \<and> 8 * int n + 32 \<le> ec_nbits_total c \<longrightarrow>
       (\<exists>D'. enc_at c' (n + norm_steps (unat (ec_rng c))) D' (unat (ec_val c')) (unat (ec_rng c')) \<and>
          D' * 2 ^ 31 + unat (ec_val c') = 256 ^ norm_steps (unat (ec_rng c)) * (D * 2 ^ 31 + unat (ec_val c)) \<and>
          unat (ec_val c') + unat (ec_rng c') < 2 ^ 32)))"
  using assms
proof (induction c rule: ec_enc_normalize.induct)
  case (1 c)
  show ?case
  proof (cases "unat (ec_rng c) \<le> 2 ^ 23")
    case False
    then show ?thesis using "1.prems"(1) by (auto simp: ec_enc_normalize.simps [of c] bot_iff norm_steps.simps [of "unat (ec_rng c)"] keeps_back_refl)
  next
    case True
    let ?R = "unat (ec_rng c)" and ?V = "unat (ec_val c)"
    have R: "0 < ?R" using "1.prems"(2) by (simp add: unat_gt_0)
    have steps: "norm_steps ?R = Suc (norm_steps (256 * ?R))" using True R by (simp add: norm_steps.simps [of ?R])
    obtain c1 where c1: "ec_enc_carry_out c (int (?V div 2 ^ 23)) = Some c1" "front_only c c1"
      using carry_out_safe [OF "1.prems"(1)] by blast
    have nbits: "i32 (ec_nbits_total c1 + int EC_SYM_BITS) = Some (ec_nbits_total c + 8)"
      using c1(2) "1.prems"(3,4) steps by (simp add: front_only_def i32_def EC_SYM_BITS_def)
    let ?c = "c1\<lparr>ec_val := push_bit EC_SYM_BITS (ec_val c1) AND (EC_CODE_TOP - 1), ec_rng := push_bit EC_SYM_BITS (ec_rng c1), ec_nbits_total := ec_nbits_total c + 8\<rparr>"
    have same: "ec_val c1 = ec_val c" "ec_rng c1 = ec_rng c" using c1(2) by (simp_all add: front_only_def)
    have rng: "unat (ec_rng ?c) = 256 * ?R" using True unat_push [of "ec_rng c" 8] by (simp add: same EC_SYM_BITS_def)
    have val: "unat (ec_val ?c) = ?V mod 2 ^ 23 * 256" using unat_shifted [of "ec_val c"] by (simp add: same)
    have kb: "keeps_back c ?c" using front_keeps_back [OF c1(2)] by (simp add: keeps_back_def safe_def)
    have "ec_rng ?c \<noteq> 0" using rng R by auto
    moreover have "safe ?c" using kb by (simp add: keeps_back_def)
    moreover have "ec_nbits_total ?c + 8 * int (norm_steps (unat (ec_rng ?c))) < 2 ^ 31" "0 \<le> ec_nbits_total ?c"
      using "1.prems"(3,4) steps unfolding rng by simp_all
    moreover have le: "ec_rng c \<le> EC_CODE_BOT" using True by (simp add: bot_iff)
    ultimately obtain c' where I: "ec_enc_normalize ?c = Some c'" "keeps_back ?c c'"
      "ec_nbits_total c' = ec_nbits_total ?c + 8 * int (norm_steps (256 * ?R))"
      "unat (ec_rng c') = 256 ^ norm_steps (256 * ?R) * (256 * ?R)"
      "ec_error c' = 0 \<longrightarrow> (\<forall>n D. enc_at ?c n D (?V mod 2 ^ 23 * 256) (256 * ?R) \<and> ?V mod 2 ^ 23 * 256 + 256 * ?R < 2 ^ 32 \<and> 8 * int n + 32 \<le> ec_nbits_total ?c \<longrightarrow>
         (\<exists>D'. enc_at c' (n + norm_steps (256 * ?R)) D' (unat (ec_val c')) (unat (ec_rng c')) \<and>
            D' * 2 ^ 31 + unat (ec_val c') = 256 ^ norm_steps (256 * ?R) * (D * 2 ^ 31 + ?V mod 2 ^ 23 * 256) \<and>
            unat (ec_val c') + unat (ec_rng c') < 2 ^ 32))"
      using "1.IH" [of c1 "ec_nbits_total c + 8"] c1(1) nbits unfolding rng val uint_top by blast
    have run: "ec_enc_normalize c = Some c'"
      using le c1(1) nbits I(1) by (simp add: ec_enc_normalize.simps [of c] uint_top same)
    have "\<exists>D'. enc_at c' (n + norm_steps ?R) D' (unat (ec_val c')) (unat (ec_rng c')) \<and>
        D' * 2 ^ 31 + unat (ec_val c') = 256 ^ norm_steps ?R * (D * 2 ^ 31 + ?V) \<and> unat (ec_val c') + unat (ec_rng c') < 2 ^ 32"
      if e: "ec_error c' = 0" and at: "enc_at c n D ?V ?R" and V: "?V + ?R < 2 ^ 32" and n: "8 * int n + 32 \<le> ec_nbits_total c" for n D
    proof -
      have e1: "ec_error c1 = 0" using e I(2) by (simp add: keeps_back_def)
      have "?V < 2 ^ 32" using unsigned_less [of "ec_val c"] by simp
      moreover have "?V + ?R \<le> 2 ^ 31" if "?V div 2 ^ 23 < 255" using that True by (simp add: div_less_iff_less_mult)
      moreover have "Suc n < 2 ^ 32"
      proof -
        have "ec_nbits_total c < 2147483648" using "1.prems"(3) by simp
        then have "Suc n < 4294967296" using n by linarith
        then show ?thesis by simp
      qed
      ultimately have "enc_at c1 (Suc n) (256 * D + ?V div 2 ^ 23) (?V mod 2 ^ 23 * 256) (256 * ?R)"
        using carry_out_at [OF at _ less_imp_le [OF V] _ _ c1(1) e1] by blast
      then have at1: "enc_at ?c (Suc n) (256 * D + ?V div 2 ^ 23) (?V mod 2 ^ 23 * 256) (256 * ?R)"
        by (simp add: enc_at_cong [of ?c c1])
      have small: "?V mod 2 ^ 23 * 256 < 2 ^ 31" by simp
      have "?V mod 2 ^ 23 * 256 + 256 * ?R < 2 ^ 32" by (rule small_sum [OF small True])
      moreover have "8 * int (Suc n) + 32 \<le> ec_nbits_total ?c" using n by simp
      ultimately obtain D' where D': "enc_at c' (Suc n + norm_steps (256 * ?R)) D' (unat (ec_val c')) (unat (ec_rng c'))"
        "D' * 2 ^ 31 + unat (ec_val c') = 256 ^ norm_steps (256 * ?R) * ((256 * D + ?V div 2 ^ 23) * 2 ^ 31 + ?V mod 2 ^ 23 * 256)"
        "unat (ec_val c') + unat (ec_rng c') < 2 ^ 32" using mp [OF I(5) e] at1 by blast
      have "(256 * D + ?V div 2 ^ 23) * 2 ^ 31 + ?V mod 2 ^ 23 * 256 = 256 * (D * 2 ^ 31 + ?V)" by (rule rescale)
      then show ?thesis using D' steps by (intro exI [of _ D']) (simp add: ac_simps)
    qed
    moreover have "keeps_back c c'" by (rule keeps_back_trans [OF kb I(2)])
    moreover have "ec_nbits_total c' = ec_nbits_total c + 8 * int (norm_steps ?R)" "unat (ec_rng c') = 256 ^ norm_steps ?R * ?R"
      using I(3,4) steps by simp_all
    ultimately show ?thesis using run by blast
  qed
qed

lemma normalize_room:
  assumes "enc_at c n D (unat (ec_val c)) (unat (ec_rng c))" and "unat (ec_val c) + unat (ec_rng c) < 2 ^ 32" and "8 * int n + 32 \<le> ec_nbits_total c"
    and "n + norm_steps (unat (ec_rng c)) + ec_end_offs c \<le> ec_storage c + 1" and "ec_enc_normalize c = Some c'" and "ec_nbits_total c < 2 ^ 31"
  shows "ec_error c' = 0"
  using assms
proof (induction c arbitrary: n D rule: ec_enc_normalize.induct)
  case (1 c)
  let ?R = "unat (ec_rng c)" and ?V = "unat (ec_val c)"
  have at: "safe c" "0 < ?R" "n = length (digits c)" "ec_error c = 0" using "1.prems"(1) by (simp_all add: enc_at_def)
  show ?case
  proof (cases "?R \<le> 2 ^ 23")
    case False
    then show ?thesis using "1.prems"(5) at(4) by (simp add: ec_enc_normalize.simps [of c] bot_iff)
  next
    case True
    have le: "ec_rng c \<le> EC_CODE_BOT" using True by (simp add: bot_iff)
    have steps: "norm_steps ?R = Suc (norm_steps (256 * ?R))" using True at(2) by (simp add: norm_steps.simps [of ?R])
    obtain c1 where c1: "ec_enc_carry_out c (int (?V div 2 ^ 23)) = Some c1" "front_only c c1"
      using carry_out_safe [OF at(1)] by blast
    have same: "ec_val c1 = ec_val c" "ec_rng c1 = ec_rng c" "ec_nbits_total c1 = ec_nbits_total c" "ec_end_offs c1 = ec_end_offs c" "ec_storage c1 = ec_storage c"
      using c1(2) by (simp_all add: front_only_def)
    let ?c = "c1\<lparr>ec_val := push_bit EC_SYM_BITS (ec_val c1) AND (EC_CODE_TOP - 1), ec_rng := push_bit EC_SYM_BITS (ec_rng c1), ec_nbits_total := ec_nbits_total c + 8\<rparr>"
    have nb: "i32 (ec_nbits_total c1 + int EC_SYM_BITS) = Some (ec_nbits_total c + 8) \<and> ec_nbits_total c + 8 < 2 ^ 31"
      and run: "ec_enc_normalize ?c = Some c'"
      using "1.prems"(5) le c1(1) same by (auto simp: ec_enc_normalize.simps [of c] uint_top i32_def EC_SYM_BITS_def split: Option.bind_splits if_splits)
    have rng: "unat (ec_rng ?c) = 256 * ?R" using True unat_push [of "ec_rng c" 8] by (simp add: same EC_SYM_BITS_def)
    have val: "unat (ec_val ?c) = ?V mod 2 ^ 23 * 256" using unat_shifted [of "ec_val c"] by (simp add: same)
    have e1: "ec_error c1 = 0" using carry_out_room [OF at(1) _ c1(1)] "1.prems"(4) steps at(3,4) by simp
    have "?V < 2 ^ 32" by (rule order.strict_trans2 [OF unsigned_less]) simp
    moreover have "?V + ?R \<le> 2 ^ 31" if "?V div 2 ^ 23 < 255" using that True by (simp add: div_less_iff_less_mult)
    moreover have "Suc n < 2 ^ 32" using "1.prems"(3,6) by simp
    ultimately have "enc_at c1 (Suc n) (256 * D + ?V div 2 ^ 23) (?V mod 2 ^ 23 * 256) (256 * ?R)"
      using carry_out_at [OF "1.prems"(1) _ less_imp_le [OF "1.prems"(2)] _ _ c1(1) e1] by blast
    then have at1: "enc_at ?c (Suc n) (256 * D + ?V div 2 ^ 23) (unat (ec_val ?c)) (unat (ec_rng ?c))"
      unfolding rng val by (simp add: enc_at_cong [of ?c c1])
    have small: "?V mod 2 ^ 23 * 256 < 2 ^ 31" by simp
    have lt: "unat (ec_val ?c) + unat (ec_rng ?c) < 2 ^ 32" unfolding val rng by (rule small_sum [OF small True])
    have bits: "8 * int (Suc n) + 32 \<le> ec_nbits_total ?c" using "1.prems"(3) by simp
    have room: "Suc n + norm_steps (unat (ec_rng ?c)) + ec_end_offs ?c \<le> ec_storage ?c + 1" using "1.prems"(4) steps unfolding rng by (simp add: same)
    have "ec_nbits_total ?c < 2 ^ 31" using nb by simp
    from "1.IH" [OF le _ conjunct1 [OF nb] at1 lt bits room run this] c1(1) show ?thesis by (simp only: uint_top)
  qed
qed

end
