(* ===== verification/OpusRangeDec.thy ===== *)
theory OpusRangeDec
  imports OpusRangeEnc
begin

text \<open>
  What the range decoder holds: with the buffer read as a number \<open>X\<close> of as many bits as have been taken
  in, \<open>val\<close> is the distance from the top of the current interval to \<open>X\<close>. The bytes of the buffer as a
  number from its other end are the raw bits.
\<close>

section \<open>The buffer as numbers\<close>

definition byte_at :: "mem \<Rightarrow> nat \<Rightarrow> nat" where
  "byte_at B i = (if i < length B then unat (B ! i) else 0)"

definition front :: "mem \<Rightarrow> nat \<Rightarrow> nat" where
  "front B k = be (map (byte_at B) [0 ..< k])"

text \<open>\<open>8 * m + 7\<close> bits.\<close>

definition X :: "mem \<Rightarrow> nat \<Rightarrow> nat" where
  "X B m = front B (Suc m) div 2"

lemma byte_at_less: "byte_at B i < 256"
proof -
  have "unat (B ! i) < 256" by (rule order.strict_trans2 [OF unsigned_less]) simp
  then show ?thesis by (simp add: byte_at_def)
qed

lemma front_0 [simp]: "front B 0 = 0"
  by (simp add: front_def)

lemma front_Suc: "front B (Suc k) = 256 * front B k + byte_at B k"
  by (simp add: front_def be_snoc)

lemma front_bit: "front B (Suc m) mod 2 = byte_at B m mod 2"
  by (simp add: front_Suc mod_add_eq [symmetric])

text \<open>The bits the decoder takes next: the last one of the byte it keeps and seven of the next byte.\<close>

definition next_bits :: "mem \<Rightarrow> nat \<Rightarrow> nat" where
  "next_bits B m = (256 * byte_at B m + byte_at B (Suc m)) div 2 mod 256"

lemma half_split: "(256 * a + b) div 2 = 256 * (a div 2) + (256 * (a mod 2) + b) div (2 :: nat)"
proof -
  have "a = 2 * (a div 2) + a mod 2" by simp
  then have "256 * a + b = (256 * (a mod 2) + b) + (256 * (a div 2)) * 2" by linarith
  then show ?thesis by simp
qed

lemma half_mod: "b < 256 \<Longrightarrow> (256 * a + b) div 2 mod 256 = (256 * (a mod 2) + b) div (2 :: nat)"
proof -
  assume "b < 256"
  moreover have "a mod 2 < 2" by simp
  ultimately have "256 * (a mod 2) + b < 256 * 2" by linarith
  then have "(256 * (a mod 2) + b) div 2 < 256" by (rule less_mult_imp_div_less)
  then show ?thesis unfolding half_split [of a b] by simp
qed

lemma X_Suc: "X B (Suc m) = 256 * X B m + next_bits B m"
proof -
  let ?f = "front B (Suc m)" and ?b = "byte_at B (Suc m)"
  have "next_bits B m = (256 * (?f mod 2) + ?b) div 2"
    unfolding next_bits_def front_bit by (rule half_mod) (rule byte_at_less)
  moreover have "(256 * ?f + ?b) div 2 = 256 * (?f div 2) + (256 * (?f mod 2) + ?b) div 2" by (rule half_split)
  ultimately show ?thesis by (simp add: X_def front_Suc [of B "Suc m"])
qed

lemma next_bits_less: "next_bits B m < 256"
  by (simp add: next_bits_def)

section \<open>Reading bytes\<close>

definition reads :: "mem \<Rightarrow> ec_ctx \<Rightarrow> bool" where
  "reads B d \<longleftrightarrow> ec_buf d = B \<and> ec_storage d = length B"

lemma read_byte_at:
  assumes "reads B d" and "ec_offs d = min k (length B)"
  shows "ec_read_byte d = Some (int (byte_at B k), d\<lparr>ec_offs := min (Suc k) (length B)\<rparr>)"
  using assms by (cases "k < length B") (auto simp: ec_read_byte_def reads_def byte_at_def uint_nat simp del: of_nat_unat)

text \<open>A decoder that has read \<open>m + 1\<close> bytes; the interval is \<open>R\<close> numbers from \<open>L\<close>.\<close>

definition dec_at :: "mem \<Rightarrow> ec_ctx \<Rightarrow> nat \<Rightarrow> nat \<Rightarrow> nat \<Rightarrow> bool" where
  "dec_at B d m L R \<longleftrightarrow> reads B d \<and> ec_offs d = min (Suc m) (length B) \<and> ec_rem d = int (byte_at B m) \<and>
     unat (ec_rng d) = R \<and> unat (ec_val d) + X B m + 1 = L + R \<and> L \<le> X B m"

lemma symbol_bits:
  assumes "b < 256"
  shows "drop_bit (EC_SYM_BITS - EC_CODE_EXTRA) (push_bit EC_SYM_BITS (int a) OR int b) = int ((256 * a + b) div 2)"
    and "EC_SYM_MAX AND NOT (int s) = int (255 - s mod 256)"
proof -
  have b: "take_bit 8 (int b) = int b" using assms by (intro take_bit_int_eq_self) simp_all
  have "push_bit 8 (int a) AND take_bit 8 (int b) = 0" by (rule bit_eqI) (auto simp: bit_simps)
  then have "push_bit 8 (int a) OR int b = int (256 * a + b)"
    using disjunctive_add_eq_or [of "push_bit 8 (int a)" "int b"] unfolding b by (simp add: push_bit_eq_mult)
  then show "drop_bit (EC_SYM_BITS - EC_CODE_EXTRA) (push_bit EC_SYM_BITS (int a) OR int b) = int ((256 * a + b) div 2)"
    by (simp add: EC_SYM_BITS_def EC_CODE_EXTRA_def EC_CODE_BITS_def drop_bit_eq_div zdiv_int)
  have "EC_SYM_MAX = mask 8" by (simp add: EC_SYM_MAX_def EC_SYM_BITS_def mask_eq_exp_minus_1)
  then have "EC_SYM_MAX AND NOT (int s) = take_bit 8 (NOT (int s))" by (simp add: take_bit_eq_mask and.commute)
  also have "\<dots> = mask 8 - take_bit 8 (int s)" by (rule take_bit_not_eq_mask_diff)
  also have "\<dots> = 255 - int (s mod 256)" by (simp add: mask_eq_exp_minus_1 take_bit_eq_mod zmod_int)
  also have "\<dots> = int (255 - s mod 256)"
  proof -
    have "s mod 256 < 256" by simp
    then show ?thesis by simp
  qed
  finally show "EC_SYM_MAX AND NOT (int s) = int (255 - s mod 256)" .
qed

text \<open>One turn of the loop of \<open>ec_dec_normalize\<close>.\<close>

lemma unat_taken:
  assumes "unat (v :: 32 word) < 2 ^ 23" and "b < 256"
  shows "unat ((push_bit EC_SYM_BITS v + word_of_int (int b)) AND (EC_CODE_TOP - 1)) = 256 * unat v + b"
proof -
  have lt: "256 * unat v + b < 2 ^ 31" using assms by simp
  have "unat (push_bit EC_SYM_BITS v) = 256 * unat v" using assms(1) unat_push [of v 8] by (simp add: EC_SYM_BITS_def)
  moreover have "unat (word_of_int (int b) :: 32 word) = b" using assms(2) by (simp add: unat_of_nat)
  ultimately have "unat (push_bit EC_SYM_BITS v + word_of_int (int b)) = 256 * unat v + b" using lt by (simp add: unat_word_ariths)
  then show ?thesis using lt unfolding top_mask take_bit_eq_mask [symmetric] unsigned_take_bit_eq
    by (simp add: take_bit_nat_eq_self)
qed

definition same_back :: "ec_ctx \<Rightarrow> ec_ctx \<Rightarrow> bool" where
  "same_back d d' \<longleftrightarrow> ec_end_offs d' = ec_end_offs d \<and> ec_end_window d' = ec_end_window d \<and> ec_nend_bits d' = ec_nend_bits d \<and>
     ec_error d' = ec_error d"

lemma normalize_dec:
  assumes "dec_at B d m L R" and "0 < R" and "R \<le> 2 ^ 31" and "ec_nbits_total d + 8 * int (norm_steps R) < 2 ^ 31" and "0 \<le> ec_nbits_total d"
    and "256 ^ norm_steps R * L \<le> X B (m + norm_steps R)"
  shows "\<exists>d'. ec_dec_normalize d = Some d' \<and> dec_at B d' (m + norm_steps R) (256 ^ norm_steps R * L) (256 ^ norm_steps R * R) \<and>
    ec_nbits_total d' = ec_nbits_total d + 8 * int (norm_steps R) \<and> same_back d d'"
  using assms
proof (induction R arbitrary: d m L rule: norm_steps.induct)
  case (1 R)
  have at: "reads B d" "ec_offs d = min (Suc m) (length B)" "ec_rem d = int (byte_at B m)" "unat (ec_rng d) = R"
    "unat (ec_val d) + X B m + 1 = L + R" "L \<le> X B m" using "1.prems"(1) by (simp_all add: dec_at_def)
  show ?case
  proof (cases "R \<le> 2 ^ 23")
    case False
    then show ?thesis using "1.prems"(1,2) at(4)
      by (simp add: ec_dec_normalize.simps [of d] bot_iff norm_steps.simps [of R] same_back_def)
  next
    case True
    have steps: "norm_steps R = Suc (norm_steps (256 * R))" using True "1.prems"(2) by (simp add: norm_steps.simps [of R])
    have small: "unat (ec_val d) < 2 ^ 23" using at(5,6) True by simp
    let ?b = "byte_at B (Suc m)" and ?s = "(256 * byte_at B m + byte_at B (Suc m)) div 2"
    define d1 where "d1 = d\<lparr>ec_nbits_total := ec_nbits_total d + 8, ec_rng := push_bit EC_SYM_BITS (ec_rng d), ec_offs := min (Suc (Suc m)) (length B),
      ec_rem := int ?b, ec_val := (push_bit EC_SYM_BITS (ec_val d) + word_of_int (int (255 - next_bits B m))) AND (EC_CODE_TOP - 1)\<rparr>"
    have nbits: "i32 (ec_nbits_total d + int EC_SYM_BITS) = Some (ec_nbits_total d + 8)"
      using "1.prems"(4,5) steps by (simp add: i32_def EC_SYM_BITS_def)
    have read: "ec_read_byte (d\<lparr>ec_nbits_total := ec_nbits_total d + 8, ec_rng := push_bit EC_SYM_BITS (ec_rng d)\<rparr>) =
        Some (int ?b, d\<lparr>ec_nbits_total := ec_nbits_total d + 8, ec_rng := push_bit EC_SYM_BITS (ec_rng d), ec_offs := min (Suc (Suc m)) (length B)\<rparr>)"
      using at(1,2) by (subst read_byte_at [of B _ "Suc m"]) (simp_all add: reads_def)
    have symb: "EC_SYM_MAX AND NOT (drop_bit (EC_SYM_BITS - EC_CODE_EXTRA) (push_bit EC_SYM_BITS (int (byte_at B m)) OR int ?b)) =
        int (255 - next_bits B m)"
      by (simp only: symbol_bits(1) [OF byte_at_less] symbol_bits(2) [OF byte_at_less] next_bits_def)
    have run: "ec_dec_normalize d = ec_dec_normalize d1"
      using True at(3,4) nbits read symb by (simp add: ec_dec_normalize.simps [of d] bot_iff d1_def)
    have nb: "255 - next_bits B m < 256" by simp
    have val: "unat (ec_val d1) = 256 * unat (ec_val d) + (255 - next_bits B m)"
      using unat_taken [OF small nb] by (simp add: d1_def)
    have rng: "unat (ec_rng d1) = 256 * R" using True at(4) unat_push [of "ec_rng d" 8] by (simp add: d1_def EC_SYM_BITS_def)
    have X: "X B (Suc m) = 256 * X B m + next_bits B m" "next_bits B m < 256" by (rule X_Suc next_bits_less)+
    have mid: "256 ^ norm_steps (256 * R) * (256 * L) \<le> X B (Suc m + norm_steps (256 * R))" using "1.prems"(6) steps by (simp add: ac_simps)
    have "dec_at B d1 (Suc m) (256 * L) (256 * R)"
      unfolding dec_at_def using at(1,5,6) rng val X by (simp add: d1_def reads_def)
    moreover have "ec_nbits_total d1 = ec_nbits_total d + 8" by (simp add: d1_def)
    ultimately obtain d' where "ec_dec_normalize d1 = Some d'" "dec_at B d' (Suc m + norm_steps (256 * R)) (256 ^ norm_steps (256 * R) * (256 * L)) (256 ^ norm_steps (256 * R) * (256 * R))"
      "ec_nbits_total d' = ec_nbits_total d + 8 + 8 * int (norm_steps (256 * R))" "same_back d1 d'"
      using "1.IH" [of d1 "Suc m" "256 * L"] "1.prems"(2,4,5) True steps mid by auto
    moreover have "same_back d d1" by (simp add: same_back_def d1_def)
    ultimately show ?thesis using run steps by (intro exI [of _ d']) (simp add: ac_simps same_back_def)
  qed
qed

section \<open>The start of a buffer\<close>

lemma dec_init:
  assumes "length B = n"
  shows "\<exists>d. ec_dec_init c B n = Some d \<and> dec_at B d 3 0 (2 ^ 31) \<and> ec_nbits_total d = 33 \<and> ec_end_offs d = 0 \<and> ec_end_window d = 0 \<and>
    ec_nend_bits d = 0 \<and> ec_error d = 0"
proof -
  let ?c = "c\<lparr>ec_buf := B, ec_storage := n, ec_end_offs := 0, ec_end_window := 0, ec_nend_bits := 0, ec_nbits_total := 9,
      ec_offs := 0, ec_rng := 128\<rparr>"
  let ?d = "?c\<lparr>ec_offs := min 1 (length B), ec_rem := int (byte_at B 0), ec_val := 127 - word_of_int (int (byte_at B 0 div 2)), ec_error := 0\<rparr>"
  have "reads B ?c" using assms by (simp add: reads_def)
  from read_byte_at [OF this, of 0] have read: "ec_read_byte ?c = Some (int (byte_at B 0), ?c\<lparr>ec_offs := min 1 (length B)\<rparr>)" by simp
  have bits: "drop_bit (EC_SYM_BITS - EC_CODE_EXTRA) (int (byte_at B 0)) = int (byte_at B 0 div 2)"
    by (simp add: EC_SYM_BITS_def EC_CODE_EXTRA_def EC_CODE_BITS_def drop_bit_eq_div zdiv_int)
  have init: "ec_dec_init c B n = ec_dec_normalize ?d"
    unfolding ec_dec_init_def using read bits
    by (simp add: EC_SYM_BITS_def EC_CODE_EXTRA_def EC_CODE_BITS_def push_bit_eq_mult)
  have small: "byte_at B 0 div 2 < 128" using byte_at_less [of B 0] by (intro less_mult_imp_div_less) simp
  have "unat (127 - word_of_nat (byte_at B 0 div 2) :: 32 word) = 127 - byte_at B 0 div 2"
    using small by (subst unat_sub) (simp_all add: word_le_nat_alt unat_of_nat)
  then have "dec_at B ?d 0 0 128"
    using assms small by (simp add: dec_at_def reads_def X_def front_Suc)
  moreover have "norm_steps 128 = 3"
    by (simp add: norm_steps.simps [of 128] norm_steps.simps [of 32768] norm_steps.simps [of 8388608] norm_steps.simps [of 2147483648] numeral_3_eq_3)
  ultimately show ?thesis
    using normalize_dec [of B ?d 0 0 128] init by (auto simp: same_back_def)
qed

end
