(* ===== verification/OpusRangeCode.thy ===== *)
theory OpusRangeCode
  imports OpusRangeDec
begin

text \<open>
  Encoder and decoder in step: what an encoding function and a decoding function must satisfy to be
  inverse to each other on every stream (\<open>codes\<close>), that it composes, and that the primitives satisfy it.
\<close>

section \<open>In step\<close>

definition count :: "ec_ctx \<Rightarrow> nat" where
  "count c = length (digits c)"

definition low :: "ec_ctx \<Rightarrow> nat" where
  "low c = be (digits c) * 2 ^ 31 + unat (ec_val c)"

definition from_end :: "mem \<Rightarrow> nat \<Rightarrow> nat" where
  "from_end B j = be (map unat (drop (length B - j) B))"

definition raw_bits :: "ec_ctx \<Rightarrow> nat" where
  "raw_bits c = 8 * ec_end_offs c + nat (ec_nend_bits c)"

definition raw_value :: "ec_ctx \<Rightarrow> nat" where
  "raw_value c = from_end (ec_buf c) (ec_end_offs c) + 256 ^ ec_end_offs c * unat (ec_end_window c)"

definition enc_wf :: "ec_ctx \<Rightarrow> bool" where
  "enc_wf c \<longleftrightarrow> safe c \<and> 2 ^ 23 < unat (ec_rng c) \<and> unat (ec_rng c) \<le> 2 ^ 31 \<and> 0 \<le> ec_nbits_total c \<and>
     0 \<le> ec_nend_bits c \<and> ec_nend_bits c \<le> 32"

definition enc_state :: "ec_ctx \<Rightarrow> bool" where
  "enc_state c \<longleftrightarrow> enc_wf c \<and> enc_at c (count c) (be (digits c)) (unat (ec_val c)) (unat (ec_rng c)) \<and>
     unat (ec_val c) + unat (ec_rng c) < 2 ^ 32 \<and> ec_nbits_total c = 33 + 8 * int (count c) + int (raw_bits c) \<and>
     unat (ec_end_window c) < 2 ^ nat (ec_nend_bits c)"

text \<open>A finished buffer whose bits lie in the interval of the encoder, and begin with its raw bits.\<close>

definition fits_in :: "mem \<Rightarrow> ec_ctx \<Rightarrow> bool" where
  "fits_in B c \<longleftrightarrow> low c \<le> X B (count c + 3) \<and> X B (count c + 3) < low c + unat (ec_rng c) \<and>
     be (map unat B) mod 2 ^ raw_bits c = raw_value c"

definition raw_at :: "mem \<Rightarrow> ec_ctx \<Rightarrow> nat \<Rightarrow> bool" where
  "raw_at B d t \<longleftrightarrow> 0 \<le> ec_nend_bits d \<and> ec_nend_bits d \<le> 32 \<and>
     (\<exists>j. 8 * j = t + nat (ec_nend_bits d) \<and> ec_end_offs d = min j (length B) \<and> unat (ec_end_window d) = from_end B j div 2 ^ t)"

definition in_step :: "mem \<Rightarrow> ec_ctx \<Rightarrow> ec_ctx \<Rightarrow> bool" where
  "in_step B c d \<longleftrightarrow> enc_state c \<and> fits_in B c \<and> dec_at B d (count c + 3) (low c) (unat (ec_rng c)) \<and>
     ec_nbits_total d = ec_nbits_total c \<and> ec_error d = 0 \<and> raw_at B d (raw_bits c)"

text \<open>
  \<open>codes E Dc v k\<close>: \<open>E\<close> puts \<open>v\<close> into the stream, \<open>Dc\<close> takes it out again; both use at most \<open>k\<close> bits, and
  there is no error as long as the bits used so far fit into the buffer.
\<close>

definition leads :: "(ec_ctx \<Rightarrow> ('a \<times> ec_ctx) option) \<Rightarrow> 'a \<Rightarrow> ec_ctx \<Rightarrow> ec_ctx \<Rightarrow> bool" where
  "leads Dc v c c' \<longleftrightarrow> (ec_error c' = 0 \<longrightarrow> ec_error c = 0 \<and> (enc_state c \<longrightarrow> enc_state c' \<and>
     (\<forall>B. length B = ec_storage c \<and> fits_in B c' \<longrightarrow> fits_in B c \<and>
        (\<forall>d. in_step B c d \<longrightarrow> (\<exists>d'. Dc d = Some (v, d') \<and> in_step B c' d')))))"

definition codes :: "(ec_ctx \<Rightarrow> ec_ctx option) \<Rightarrow> (ec_ctx \<Rightarrow> ('a \<times> ec_ctx) option) \<Rightarrow> 'a \<Rightarrow> nat \<Rightarrow> bool" where
  "codes E Dc v k \<longleftrightarrow> (\<forall>c. enc_wf c \<and> ec_nbits_total c + int k < 2 ^ 31 \<longrightarrow>
     (\<exists>c'. E c = Some c' \<and> enc_wf c' \<and> ec_storage c' = ec_storage c \<and>
        ec_nbits_total c \<le> ec_nbits_total c' \<and> ec_nbits_total c' \<le> ec_nbits_total c + int k \<and> leads Dc v c c' \<and>
        (enc_state c \<and> ec_nbits_total c' \<le> 8 * int (ec_storage c) + 32 \<longrightarrow> ec_error c' = 0)))"

lemma leads_refl: "leads (\<lambda>d. Some (v, d)) v c c"
  by (simp add: leads_def)

lemma leads_bind:
  assumes 1: "leads D1 v1 c c1" and 2: "leads (D2 v1) v2 c1 c2" and "ec_storage c1 = ec_storage c"
  shows "leads (\<lambda>d. do { (x, d) \<leftarrow> D1 d; D2 x d }) v2 c c2"
  unfolding leads_def
proof (intro impI conjI allI)
  assume e2: "ec_error c2 = 0"
  then have e1: "ec_error c1 = 0" using 2 by (simp add: leads_def)
  then show "ec_error c = 0" using 1 by (simp add: leads_def)
  assume s: "enc_state c"
  then have s1: "enc_state c1" using 1 e1 by (simp add: leads_def)
  then show "enc_state c2" using 2 e2 by (simp add: leads_def)
  fix B assume B: "length B = ec_storage c \<and> fits_in B c2"
  then have f1: "fits_in B c1" using 2 e2 s1 assms(3) by (simp add: leads_def)
  then show "fits_in B c" using 1 e1 s B by (simp add: leads_def)
  fix d assume "in_step B c d"
  then obtain d1 where "D1 d = Some (v1, d1)" "in_step B c1 d1" using 1 e1 s B f1 by (auto simp: leads_def)
  moreover from this(2) obtain d2 where "D2 v1 d1 = Some (v2, d2)" "in_step B c2 d2" using 2 e2 s1 B assms(3) by (auto simp: leads_def)
  ultimately show "\<exists>d'. (do { (x, d) \<leftarrow> D1 d; D2 x d }) = Some (v2, d') \<and> in_step B c2 d'" by simp
qed

lemma codesE:
  assumes "codes E Dc v k" and "enc_wf c" and "ec_nbits_total c + int k < 2 ^ 31"
  obtains c' where "E c = Some c'" "enc_wf c'" "ec_storage c' = ec_storage c" "ec_nbits_total c \<le> ec_nbits_total c'"
    "ec_nbits_total c' \<le> ec_nbits_total c + int k" "leads Dc v c c'"
    "enc_state c \<Longrightarrow> ec_nbits_total c' \<le> 8 * int (ec_storage c) + 32 \<Longrightarrow> ec_error c' = 0"
  using assms unfolding codes_def by blast

lemma enc_state_ok: "enc_state c \<Longrightarrow> enc_wf c \<and> ec_error c = 0"
  by (simp add: enc_state_def enc_at_def)

lemma codes_None: "codes Some (\<lambda>d. Some (v, d)) v 0"
  by (simp add: codes_def leads_refl enc_state_ok)

lemma codes_bind:
  assumes "codes E1 D1 v1 k1" and "codes E2 (D2 v1) v2 k2"
  shows "codes (\<lambda>c. do { c \<leftarrow> E1 c; E2 c }) (\<lambda>d. do { (x, d) \<leftarrow> D1 d; D2 x d }) v2 (k1 + k2)"
  unfolding codes_def
proof (intro allI impI, elim conjE)
  fix c assume c: "enc_wf c" "ec_nbits_total c + int (k1 + k2) < 2 ^ 31"
  have "ec_nbits_total c + int k1 < 2 ^ 31" using c(2) by simp
  from codesE [OF assms(1) c(1) this] obtain c1 where 1: "E1 c = Some c1" "enc_wf c1" "ec_storage c1 = ec_storage c"
    "ec_nbits_total c \<le> ec_nbits_total c1" "ec_nbits_total c1 \<le> ec_nbits_total c + int k1" "leads D1 v1 c c1"
    "enc_state c \<Longrightarrow> ec_nbits_total c1 \<le> 8 * int (ec_storage c) + 32 \<Longrightarrow> ec_error c1 = 0" by blast
  have "ec_nbits_total c1 + int k2 < 2 ^ 31" using c(2) 1(5) by simp
  from codesE [OF assms(2) 1(2) this] obtain c2 where 2: "E2 c1 = Some c2" "enc_wf c2" "ec_storage c2 = ec_storage c1"
    "ec_nbits_total c1 \<le> ec_nbits_total c2" "ec_nbits_total c2 \<le> ec_nbits_total c1 + int k2" "leads (D2 v1) v2 c1 c2"
    "enc_state c1 \<Longrightarrow> ec_nbits_total c2 \<le> 8 * int (ec_storage c1) + 32 \<Longrightarrow> ec_error c2 = 0" by blast
  have room: "ec_error c2 = 0" if "enc_state c" "ec_nbits_total c2 \<le> 8 * int (ec_storage c) + 32"
  proof -
    have "ec_error c1 = 0" using that 2(4) by (intro 1(7)) simp_all
    then have "enc_state c1" using 1(6) that(1) by (simp add: leads_def)
    then show ?thesis using that(2) 1(3) by (intro 2(7)) simp_all
  qed
  show "\<exists>c'. (do { c \<leftarrow> E1 c; E2 c }) = Some c' \<and> enc_wf c' \<and> ec_storage c' = ec_storage c \<and>
      ec_nbits_total c \<le> ec_nbits_total c' \<and> ec_nbits_total c' \<le> ec_nbits_total c + int (k1 + k2) \<and>
      leads (\<lambda>d. do { (x, d) \<leftarrow> D1 d; D2 x d }) v2 c c' \<and> (enc_state c \<and> ec_nbits_total c' \<le> 8 * int (ec_storage c) + 32 \<longrightarrow> ec_error c' = 0)"
    using 1(1-5) 2(1-5) leads_bind [of D1 v1 c c1 D2 v2 c2, OF 1(6) 2(6) 1(3)] room by (intro exI [of _ c2]) simp
qed

lemma codes_map:
  assumes "codes E Dc v k"
  shows "codes E (\<lambda>d. do { (x, d) \<leftarrow> Dc d; Some (f x, d) }) (f v) k"
proof -
  have "codes (\<lambda>c. do { c \<leftarrow> E c; Some c }) (\<lambda>d. do { (x, d) \<leftarrow> Dc d; Some (f x, d) }) (f v) (k + 0)"
    by (rule codes_bind [OF assms, of Some "\<lambda>x d. Some (f x, d)"]) (rule codes_None)
  then show ?thesis by simp
qed

lemma codes_weaken: "codes E Dc v k \<Longrightarrow> k \<le> k' \<Longrightarrow> codes E Dc v k'"
  unfolding codes_def
proof (intro allI impI)
  fix c
  assume *: "\<forall>c. enc_wf c \<and> ec_nbits_total c + int k < 2 ^ 31 \<longrightarrow> (\<exists>c'. E c = Some c' \<and> enc_wf c' \<and> ec_storage c' = ec_storage c \<and>
      ec_nbits_total c \<le> ec_nbits_total c' \<and> ec_nbits_total c' \<le> ec_nbits_total c + int k \<and> leads Dc v c c' \<and>
      (enc_state c \<and> ec_nbits_total c' \<le> 8 * int (ec_storage c) + 32 \<longrightarrow> ec_error c' = 0))"
    and k: "k \<le> k'" and c: "enc_wf c \<and> ec_nbits_total c + int k' < 2 ^ 31"
  then have "enc_wf c \<and> ec_nbits_total c + int k < 2 ^ 31" by simp
  then obtain c' where "E c = Some c' \<and> enc_wf c' \<and> ec_storage c' = ec_storage c \<and>
      ec_nbits_total c \<le> ec_nbits_total c' \<and> ec_nbits_total c' \<le> ec_nbits_total c + int k \<and> leads Dc v c c' \<and>
      (enc_state c \<and> ec_nbits_total c' \<le> 8 * int (ec_storage c) + 32 \<longrightarrow> ec_error c' = 0)" using * by blast
  then show "\<exists>c'. E c = Some c' \<and> enc_wf c' \<and> ec_storage c' = ec_storage c \<and>
      ec_nbits_total c \<le> ec_nbits_total c' \<and> ec_nbits_total c' \<le> ec_nbits_total c + int k' \<and> leads Dc v c c' \<and>
      (enc_state c \<and> ec_nbits_total c' \<le> 8 * int (ec_storage c) + 32 \<longrightarrow> ec_error c' = 0)"
    using k by (intro exI [of _ c']) simp
qed

section \<open>Narrowing the interval\<close>

lemma X_add: "\<exists>r < 256 ^ k. X B (m + k) = 256 ^ k * X B m + r"
proof (induction k)
  case (Suc k)
  then obtain r where r: "r < 256 ^ k" "X B (m + k) = 256 ^ k * X B m + r" by blast
  have "256 * r + next_bits B (m + k) < 256 ^ Suc k" using r(1) next_bits_less [of B "m + k"] by simp
  moreover have "X B (m + Suc k) = 256 ^ Suc k * X B m + (256 * r + next_bits B (m + k))" using r(2) X_Suc [of B "m + k"] by simp
  ultimately show ?case by blast
qed simp

lemma X_between:
  assumes "256 ^ k * p \<le> X B (m + k)" and "X B (m + k) < 256 ^ k * q"
  shows "p \<le> X B m" and "X B m < q"
proof -
  obtain r where r: "r < 256 ^ k" "X B (m + k) = 256 ^ k * X B m + r" using X_add by blast
  have "256 ^ k * p < 256 ^ k * Suc (X B m)" using assms(1) r by simp
  then have "p < Suc (X B m)" by (simp only: mult_less_cancel1)
  then show "p \<le> X B m" by simp
  have "256 ^ k * X B m < 256 ^ k * q" using assms(2) r by linarith
  then show "X B m < q" by (simp only: mult_less_cancel1)
qed

text \<open>
  What all range-coded symbols do: the encoder takes the part of \<open>b\<close> numbers from \<open>a\<close> on of its interval,
  the decoder, whose number is in it, likewise.
\<close>

lemma narrow_codes:
  fixes a b :: "nat \<Rightarrow> nat"
  assumes part: "\<And>R. 2 ^ 23 < R \<Longrightarrow> R \<le> 2 ^ 31 \<Longrightarrow> 0 < b R \<and> a R + b R \<le> R"
    and enc: "\<And>c R. unat (ec_rng c) = R \<Longrightarrow> 2 ^ 23 < R \<Longrightarrow> R \<le> 2 ^ 31 \<Longrightarrow>
      E c = ec_enc_normalize (c\<lparr>ec_val := ec_val c + word_of_nat (a R), ec_rng := word_of_nat (b R)\<rparr>)"
    and dec: "\<And>d R. unat (ec_rng d) = R \<Longrightarrow> 2 ^ 23 < R \<Longrightarrow> R \<le> 2 ^ 31 \<Longrightarrow> R - a R - b R \<le> unat (ec_val d) \<Longrightarrow> unat (ec_val d) < R - a R \<Longrightarrow>
      \<exists>x. Dc d = map_option (Pair v) (ec_dec_normalize
        (d\<lparr>ec_ext := x, ec_val := ec_val d - word_of_nat (R - a R - b R), ec_rng := word_of_nat (b R)\<rparr>))"
  shows "codes E Dc v 24"
  unfolding codes_def
proof (intro allI impI, elim conjE)
  fix c assume wf: "enc_wf c" and nb: "ec_nbits_total c + int 24 < 2 ^ 31"
  define R where "R = unat (ec_rng c)"
  have R: "2 ^ 23 < R" "R \<le> 2 ^ 31" using wf by (simp_all add: enc_wf_def R_def)
  have ab: "0 < b R" "a R + b R \<le> R" using part [OF R] by simp_all
  let ?c = "c\<lparr>ec_val := ec_val c + word_of_nat (a R), ec_rng := word_of_nat (b R)\<rparr>" and ?k = "norm_steps (b R)"
  have rng: "unat (ec_rng ?c) = b R" using ab R by (simp add: unat_of_nat)
  have k: "2 ^ 23 < 256 ^ ?k * b R" "256 ^ ?k * b R \<le> 2 ^ 31" "?k \<le> 3"
    using norm_steps_range [of "b R"] ab R by simp_all
  have pre: "safe ?c" "ec_rng ?c \<noteq> 0" "ec_nbits_total ?c + 8 * int (norm_steps (unat (ec_rng ?c))) < 2 ^ 31" "0 \<le> ec_nbits_total ?c"
  proof -
    show "safe ?c" "0 \<le> ec_nbits_total ?c" using wf by (simp_all add: enc_wf_def safe_def)
    show "ec_rng ?c \<noteq> 0" using rng ab(1) by (metis less_irrefl unat_0)
    show "ec_nbits_total ?c + 8 * int (norm_steps (unat (ec_rng ?c))) < 2 ^ 31" unfolding rng using nb k(3) by simp
  qed
  from normalize_enc [OF pre] obtain c' where N: "ec_enc_normalize ?c = Some c'" "keeps_back ?c c'"
    "ec_nbits_total c' = ec_nbits_total c + 8 * int ?k" "unat (ec_rng c') = 256 ^ ?k * b R"
    "ec_error c' = 0 \<Longrightarrow> enc_at ?c n D (unat (ec_val ?c)) (b R) \<Longrightarrow> unat (ec_val ?c) + b R < 2 ^ 32 \<Longrightarrow> 8 * int n + 32 \<le> ec_nbits_total c \<Longrightarrow>
       \<exists>D'. enc_at c' (n + ?k) D' (unat (ec_val c')) (unat (ec_rng c')) \<and>
          D' * 2 ^ 31 + unat (ec_val c') = 256 ^ ?k * (D * 2 ^ 31 + unat (ec_val ?c)) \<and>
          unat (ec_val c') + unat (ec_rng c') < 2 ^ 32" for n D
    unfolding rng by auto
  have kb: "keeps_back c c'" using N(2) by (simp add: keeps_back_def)
  have wf': "enc_wf c'" using kb N(3,4) k wf by (simp add: enc_wf_def keeps_back_def)
  have "leads Dc v c c'"
    unfolding leads_def
  proof (intro impI conjI allI)
    assume e: "ec_error c' = 0"
    then show e0: "ec_error c = 0" using kb by (simp add: keeps_back_def)
    assume s: "enc_state c"
    have S: "enc_at c (count c) (be (digits c)) (unat (ec_val c)) R" "unat (ec_val c) + R < 2 ^ 32"
      "ec_nbits_total c = 33 + 8 * int (count c) + int (raw_bits c)" "unat (ec_end_window c) < 2 ^ nat (ec_nend_bits c)"
      using s by (simp_all add: enc_state_def R_def)
    have val: "unat (ec_val ?c) = unat (ec_val c) + a R"
      using S(2) ab by (simp add: unat_word_ariths unat_of_nat)
    have "enc_at c (count c) (be (digits c)) (unat (ec_val c) + a R) (b R)"
      using S(1) ab unfolding enc_at_def by simp
    then have "enc_at ?c (count c) (be (digits c)) (unat (ec_val ?c)) (b R)"
      unfolding val by (simp add: enc_at_cong [of ?c c])
    from N(5) [OF e this] S(2,3) ab val obtain D' where D': "enc_at c' (count c + ?k) D' (unat (ec_val c')) (unat (ec_rng c'))"
      "D' * 2 ^ 31 + unat (ec_val c') = 256 ^ ?k * (be (digits c) * 2 ^ 31 + (unat (ec_val c) + a R))"
      "unat (ec_val c') + unat (ec_rng c') < 2 ^ 32" by auto
    have c': "count c' = count c + ?k" "be (digits c') = D'" using D'(1) by (simp_all add: enc_at_def count_def)
    have low: "low c' = 256 ^ ?k * (low c + a R)" using D'(2) by (simp add: low_def c'(2) algebra_simps)
    have raw: "raw_bits c' = raw_bits c" "raw_value c' = raw_value c"
      using kb s by (auto simp: raw_bits_def raw_value_def keeps_back_def from_end_def enc_state_def enc_wf_def safe_def)
    show s': "enc_state c'"
      unfolding enc_state_def using wf' D'(1,3) c' N(3) S(3,4) raw(1) kb by (simp add: keeps_back_def)
    fix B assume B: "length B = ec_storage c \<and> fits_in B c'"
    let ?m = "count c + 3" and ?x = "X B (count c + 3)"
    have m: "count c' + 3 = ?m + ?k" using c'(1) by simp
    have B': "256 ^ ?k * (low c + a R) \<le> X B (?m + ?k)" "X B (?m + ?k) < 256 ^ ?k * (low c + a R + b R)"
      using B unfolding fits_in_def m low N(4) by (simp_all add: distrib_left)
    then have x: "low c + a R \<le> ?x" "?x < low c + a R + b R" using X_between by blast+
    then show f: "fits_in B c" using B ab(2) raw by (simp add: fits_in_def R_def [symmetric])
    fix d assume d: "in_step B c d"
    have d': "dec_at B d ?m (low c) R" "ec_nbits_total d = ec_nbits_total c" "ec_error d = 0" "raw_at B d (raw_bits c)"
      using d by (simp_all add: in_step_def R_def)
    have T: "unat (ec_rng d) = R" "unat (ec_val d) + ?x + 1 = low c + R" using d'(1) by (simp_all add: dec_at_def)
    have "R - a R - b R \<le> unat (ec_val d)" "unat (ec_val d) < R - a R" using T(2) x by linarith+
    from dec [OF T(1) R this] obtain e where e: "Dc d = map_option (Pair v) (ec_dec_normalize
        (d\<lparr>ec_ext := e, ec_val := ec_val d - word_of_nat (R - a R - b R), ec_rng := word_of_nat (b R)\<rparr>))" ..
    let ?d = "d\<lparr>ec_ext := e, ec_val := ec_val d - word_of_nat (R - a R - b R), ec_rng := word_of_nat (b R)\<rparr>"
    have "unat (word_of_nat (R - a R - b R) :: 32 word) = R - a R - b R" using R by (simp add: unat_of_nat)
    moreover from this have "word_of_nat (R - a R - b R) \<le> ec_val d"
      using \<open>R - a R - b R \<le> unat (ec_val d)\<close> unfolding word_le_nat_alt by simp
    ultimately have "unat (ec_val ?d) = unat (ec_val d) - (R - a R - b R)" by (simp add: unat_sub)
    moreover have "unat (ec_rng ?d) = b R" using ab R by (simp add: unat_of_nat)
    ultimately have "dec_at B ?d ?m (low c + a R) (b R)"
      using d'(1) T(2) x ab(2) unfolding dec_at_def reads_def by auto
    moreover have "0 < b R" "b R \<le> 2 ^ 31" using ab R by linarith+
    moreover have "ec_nbits_total ?d + 8 * int ?k < 2 ^ 31" "0 \<le> ec_nbits_total ?d" using d'(2) wf nb k(3) by (simp_all add: enc_wf_def)
    ultimately obtain d2 where d2: "ec_dec_normalize ?d = Some d2" "dec_at B d2 (?m + ?k) (256 ^ ?k * (low c + a R)) (256 ^ ?k * b R)"
      "ec_nbits_total d2 = ec_nbits_total ?d + 8 * int ?k" "same_back ?d d2"
      using normalize_dec [of B ?d ?m "low c + a R" "b R"] B'(1) by blast
    have "dec_at B d2 (count c' + 3) (low c') (unat (ec_rng c'))" using d2(2) unfolding m low N(4) .
    moreover have "raw_at B d2 (raw_bits c')" using d'(4) d2(4) raw(1) by (simp add: raw_at_def same_back_def)
    ultimately have "in_step B c' d2"
      using s' B d2(3,4) d'(2,3) N(3) by (simp add: in_step_def same_back_def)
    then show "\<exists>d'. Dc d = Some (v, d') \<and> in_step B c' d'" using e d2(1) by simp
  qed
  moreover have "E c = Some c'" using enc [of c R] R N(1) by (simp add: R_def)
  moreover have "ec_error c' = 0" if s: "enc_state c" and fits: "ec_nbits_total c' \<le> 8 * int (ec_storage c) + 32"
  proof -
    have S: "enc_at c (count c) (be (digits c)) (unat (ec_val c)) R" "unat (ec_val c) + R < 2 ^ 32"
      "ec_nbits_total c = 33 + 8 * int (count c) + int (raw_bits c)" using s by (simp_all add: enc_state_def R_def)
    have val: "unat (ec_val ?c) = unat (ec_val c) + a R" using S(2) ab by (simp add: unat_word_ariths unat_of_nat)
    have "enc_at c (count c) (be (digits c)) (unat (ec_val c) + a R) (b R)" using S(1) ab unfolding enc_at_def by simp
    then have at: "enc_at ?c (count c) (be (digits c)) (unat (ec_val ?c)) (unat (ec_rng ?c))"
      unfolding val rng by (simp add: enc_at_cong [of ?c c])
    have "8 * int (ec_end_offs c) \<le> int (raw_bits c)" by (simp add: raw_bits_def)
    then have "count c + ?k + ec_end_offs c \<le> ec_storage c + 1" using fits S(3) N(3) by linarith
    then show ?thesis
      using normalize_room [OF at _ _ _ N(1)] S(2,3) ab(2) nb unfolding val rng by simp
  qed
  ultimately show "\<exists>c'. E c = Some c' \<and> enc_wf c' \<and> ec_storage c' = ec_storage c \<and>
      ec_nbits_total c \<le> ec_nbits_total c' \<and> ec_nbits_total c' \<le> ec_nbits_total c + int 24 \<and> leads Dc v c c' \<and>
      (enc_state c \<and> ec_nbits_total c' \<le> 8 * int (ec_storage c) + 32 \<longrightarrow> ec_error c' = 0)"
    using wf' kb N(3) k(3) by (intro exI [of _ c']) (simp add: keeps_back_def)
qed

end
