(* ===== verification/OpusRangeSyms.thy ===== *)
theory OpusRangeSyms
  imports OpusRangeCode
begin

text \<open>
  The functions that code a symbol with a range: each pair of an encoding and a decoding function
  satisfies the law \<open>codes\<close>.
\<close>

lemma EC_MINI_min: "EC_MINI a b = min a b"
  by (auto simp: EC_MINI_def min_def)

section \<open>Symbols with frequencies\<close>

text \<open>
  A decoding client: from the number \<open>ec_decode\<close> returns it finds the symbol and its range.
\<close>

definition decode_symbol :: "(32 word \<Rightarrow> 'a \<times> 32 word \<times> 32 word) \<Rightarrow> 32 word \<Rightarrow> ec_ctx \<Rightarrow> ('a \<times> ec_ctx) option" where
  "decode_symbol which ft d =
     do { (s, d) \<leftarrow> ec_decode d ft; (case which s of (v, fl, fh) \<Rightarrow> do { d \<leftarrow> ec_dec_update d fl fh ft; Some (v, d) }) }"

text \<open>The part of the interval of \<open>R\<close> numbers for the range from \<open>fl\<close> to \<open>fh\<close>, of \<open>ft\<close>.\<close>

definition part_from :: "nat \<Rightarrow> nat \<Rightarrow> nat \<Rightarrow> nat \<Rightarrow> nat" where
  "part_from fl fh ft R = (if fl = 0 then 0 else R - R div ft * (ft - fl))"

definition part_size :: "nat \<Rightarrow> nat \<Rightarrow> nat \<Rightarrow> nat \<Rightarrow> nat" where
  "part_size fl fh ft R = (if fl = 0 then R - R div ft * (ft - fh) else R div ft * (fh - fl))"

lemma part_bounds:
  assumes "fl < fh" and "fh \<le> ft" and "ft \<le> R"
  shows "0 < part_size fl fh ft R" and "part_from fl fh ft R + part_size fl fh ft R \<le> R"
    and "R - part_from fl fh ft R - part_size fl fh ft R = R div ft * (ft - fh)"
    and "R - part_from fl fh ft R = (if fl = 0 then R else R div ft * (ft - fl))"
proof -
  let ?r = "R div ft"
  have r: "0 < ?r" using assms by (simp add: div_greater_zero_iff)
  have all: "?r * ft \<le> R" by (simp add: div_times_less_eq_dividend)
  have le: "?r * (ft - fl) \<le> R" "?r * (ft - fh) \<le> R" using all by (meson diff_le_self le_trans mult_le_mono2)+
  have sub: "?r * (ft - fl) = ?r * (fh - fl) + ?r * (ft - fh)" using assms by (simp add: add_mult_distrib2 [symmetric])
  have gap: "?r * (ft - fh) < R" if "0 < fh"
  proof -
    have "?r * (ft - fh) < ?r * ft" using r that assms by (intro mult_strict_left_mono) simp_all
    also have "\<dots> \<le> R" by (rule all)
    finally show ?thesis .
  qed
  show "0 < part_size fl fh ft R" using r gap assms by (auto simp: part_size_def)
  show "part_from fl fh ft R + part_size fl fh ft R \<le> R" using le sub by (auto simp: part_from_def part_size_def)
  show "R - part_from fl fh ft R - part_size fl fh ft R = ?r * (ft - fh)" using le sub by (auto simp: part_from_def part_size_def)
  show "R - part_from fl fh ft R = (if fl = 0 then R else ?r * (ft - fl))" using le by (auto simp: part_from_def)
qed

lemma word_eq_nat: "unat (w :: 32 word) = n \<Longrightarrow> w = word_of_nat n"
  by auto

lemma unat_times: "unat x * unat y < 2 ^ 32 \<Longrightarrow> unat (x * y :: 32 word) = unat x * unat y"
  using unat_mult_lem [of x y] by simp

lemma unat_min: "unat (min x y :: 32 word) = min (unat x) (unat y)"
  by (simp add: min_def word_le_nat_alt)

lemma map_conv_bind_option: "do { x \<leftarrow> m; Some (f x) } = map_option f m"
  by (cases m) simp_all

lemma share_le: "n \<le> f \<Longrightarrow> R div f * n \<le> (R :: nat)"
  using mult_le_mono2 [of n f "R div f"] div_times_less_eq_dividend [of R f] by linarith

text \<open>The products of the code do not wrap round.\<close>

lemma share_words:
  assumes "unat (w :: 32 word) = R" and "x \<le> y" and "unat y - unat x \<le> unat ft"
  shows "unat (w div ft * (y - x)) = R div unat ft * (unat y - unat x)"
    and "w div ft * (y - x) = word_of_nat (R div unat ft * (unat y - unat x))"
    and "w - w div ft * (y - x) = word_of_nat (R - R div unat ft * (unat y - unat x))"
proof -
  have r: "unat (w div ft) = R div unat ft" using assms(1) by (simp add: unat_div_distrib)
  have d: "unat (y - x) = unat y - unat x" by (rule unat_sub [OF assms(2)])
  have le: "R div unat ft * (unat y - unat x) \<le> R" by (rule share_le [OF assms(3)])
  have "R < 2 ^ 32" unfolding assms(1) [symmetric] by (rule order.strict_trans2 [OF unsigned_less]) simp
  then show times: "unat (w div ft * (y - x)) = R div unat ft * (unat y - unat x)"
    using le unfolding r [symmetric] d [symmetric] by (intro unat_times) (rule le_less_trans)
  then show "w div ft * (y - x) = word_of_nat (R div unat ft * (unat y - unat x))" by (rule word_eq_nat)
  have "w div ft * (y - x) \<le> w" unfolding word_le_nat_alt times assms(1) by (rule le)
  then show "w - w div ft * (y - x) = word_of_nat (R - R div unat ft * (unat y - unat x))"
    by (intro word_eq_nat) (simp only: unat_sub times assms(1))
qed

text \<open>The number \<open>ec_decode\<close> returns for the value \<open>T\<close> lies in the range of the symbol.\<close>

lemma decoded_number:
  assumes "(fl :: nat) < fh" and "fh \<le> ft" and "0 < r"
    and "r * (ft - fh) \<le> T" and "fl \<noteq> 0 \<Longrightarrow> T < r * (ft - fl)"
  shows "fl \<le> ft - min (T div r + 1) ft" and "ft - min (T div r + 1) ft < fh"
proof -
  have "ft - fh \<le> T div r" using assms(3,4) by (simp add: less_eq_div_iff_mult_less_eq ac_simps)
  then show "ft - min (T div r + 1) ft < fh" using assms(1,2) by (simp add: min_def) linarith
  have "T div r < ft - fl" if "fl \<noteq> 0" using assms(5) [OF that] assms(3) by (simp add: div_less_iff_less_mult ac_simps)
  then show "fl \<le> ft - min (T div r + 1) ft" using assms(1,2) by (cases "fl = 0") (auto simp: min_def)
qed

lemma encode_codes:
  assumes "fl < fh" and "fh \<le> ft" and "unat ft \<le> 2 ^ 23"
    and which: "\<And>s. fl \<le> s \<Longrightarrow> s < fh \<Longrightarrow> which s = (v, fl, fh)"
  shows "codes (\<lambda>c. ec_encode c fl fh ft) (decode_symbol which ft) v 24"
proof (rule narrow_codes)
  have n: "unat fl < unat fh" "unat fh \<le> unat ft" using assms(1,2) by (simp_all add: word_less_nat_alt word_le_nat_alt)
  have ft: "ft \<noteq> 0" using n by (auto simp: word_le_nat_alt)
  have le: "fl \<le> ft" "fh \<le> ft" "fl \<le> fh" using assms(1,2) by simp_all
  let ?a = "part_from (unat fl) (unat fh) (unat ft)" and ?b = "part_size (unat fl) (unat fh) (unat ft)"
  show "0 < ?b R \<and> ?a R + ?b R \<le> R" if "2 ^ 23 < R" for R
    using part_bounds [OF n, of R] that assms(3) by simp
  have fl0: "fl > 0 \<longleftrightarrow> unat fl \<noteq> 0" by (simp add: word_gt_0 unat_gt_0)
  show "ec_encode c fl fh ft = ec_enc_normalize (c\<lparr>ec_val := ec_val c + word_of_nat (?a R), ec_rng := word_of_nat (?b R)\<rparr>)"
    if R: "unat (ec_rng c) = R" for c R
    using ft fl0 n by (simp add: ec_encode_def celt_udiv_def part_from_def part_size_def share_words(3) [OF R le(1)]
      share_words(3) [OF R le(2)] share_words(2) [OF R le(3)])
  show "\<exists>x. decode_symbol which ft d = map_option (Pair v) (ec_dec_normalize
      (d\<lparr>ec_ext := x, ec_val := ec_val d - word_of_nat (R - ?a R - ?b R), ec_rng := word_of_nat (?b R)\<rparr>))"
    if R: "unat (ec_rng d) = R" "2 ^ 23 < R" "R \<le> 2 ^ 31" and T: "R - ?a R - ?b R \<le> unat (ec_val d)" "unat (ec_val d) < R - ?a R" for d R
  proof -
    let ?x = "ec_rng d div ft" and ?T = "unat (ec_val d)"
    let ?s = "ft - min (ec_val d div ?x + 1) ft"
    have ftR: "unat ft \<le> R" using assms(3) R(2) by simp
    have x: "unat ?x = R div unat ft" using R(1) by (simp add: unat_div_distrib)
    have r: "0 < R div unat ft" using ftR n by (simp add: div_greater_zero_iff)
    have x0: "?x \<noteq> 0" using x r by (metis less_irrefl unat_0)
    have "?T < R" using T(2) by linarith
    moreover have "?T div (R div unat ft) \<le> ?T" by (rule div_le_dividend)
    moreover have "R < 4294967295" using R(3) by simp
    ultimately have "?T div (R div unat ft) + 1 < 4294967296" by linarith
    then have s1: "unat (ec_val d div ?x + 1) = ?T div (R div unat ft) + 1"
      unfolding x [symmetric] unat_div_distrib [symmetric] by (simp add: unat_word_ariths)
    have s: "unat ?s = unat ft - min (?T div (R div unat ft) + 1) (unat ft)"
      unfolding s1 [symmetric] unat_min [symmetric] by (rule unat_sub) (rule min.cobounded2)
    have T': "R div unat ft * (unat ft - unat fh) \<le> ?T" "unat fl \<noteq> 0 \<Longrightarrow> ?T < R div unat ft * (unat ft - unat fl)"
      using T(1) unfolding part_bounds(3) [OF n ftR] using T(2) unfolding part_bounds(4) [OF n ftR] by simp_all
    have "fl \<le> ?s" "?s < fh"
      unfolding word_le_nat_alt word_less_nat_alt s by (rule decoded_number [OF n r T'], assumption)+
    then have "which ?s = (v, fl, fh)" by (rule which)
    then have "decode_symbol which ft d = map_option (Pair v) (ec_dec_update (d\<lparr>ec_ext := ?x\<rparr>) fl fh ft)"
      using ft x0 by (simp add: decode_symbol_def ec_decode_def celt_udiv_def EC_MINI_min map_conv_bind_option)
    moreover have "ec_dec_update (d\<lparr>ec_ext := ?x\<rparr>) fl fh ft = ec_dec_normalize
        (d\<lparr>ec_ext := ?x, ec_val := ec_val d - word_of_nat (R - ?a R - ?b R), ec_rng := word_of_nat (?b R)\<rparr>)"
      unfolding part_bounds(3) [OF n ftR] unfolding part_size_def share_words(2) [OF R(1) le(2) diff_le_self, symmetric]
      using fl0 n by (simp add: ec_dec_update_def Let_def share_words(3) [OF R(1) le(2)] share_words(2) [OF R(1) le(3)] del: of_nat_mult)
    ultimately show ?thesis by (intro exI [of _ ?x]) simp
  qed
qed

section \<open>Frequencies that sum to a power of two\<close>

lemma div_power_word: "(w :: 32 word) div 2 ^ k = drop_bit k w"
  by (simp add: drop_bit_eq_div)

lemma unat_push_1: "k < 32 \<Longrightarrow> unat (push_bit k 1 :: 32 word) = 2 ^ k"
proof -
  assume "k < 32"
  then have "(2 :: nat) ^ k < 2 ^ 32" by (rule power_strict_increasing) simp
  then show ?thesis using unat_push [of 1 k] by simp
qed

lemma encode_bin_eq: "bits < 32 \<Longrightarrow> ec_encode_bin c fl fh bits = ec_encode c fl fh (push_bit bits 1)"
  by (simp add: ec_encode_bin_def ec_encode_def celt_udiv_def ensure_def Let_def div_power_word)

lemma decode_bin_eq: "bits < 32 \<Longrightarrow> ec_decode_bin c bits = ec_decode c (push_bit bits 1)"
  by (simp add: ec_decode_bin_def ec_decode_def celt_udiv_def ensure_def Let_def div_power_word)

definition decode_symbol_bin :: "(32 word \<Rightarrow> 'a \<times> 32 word \<times> 32 word) \<Rightarrow> nat \<Rightarrow> ec_ctx \<Rightarrow> ('a \<times> ec_ctx) option" where
  "decode_symbol_bin which bits d =
     do { (s, d) \<leftarrow> ec_decode_bin d bits;
          (case which s of (v, fl, fh) \<Rightarrow> do { d \<leftarrow> ec_dec_update d fl fh (push_bit bits 1); Some (v, d) }) }"

lemma encode_bin_codes:
  assumes "fl < fh" and "unat fh \<le> 2 ^ bits" and "bits \<le> 23" and "\<And>s. fl \<le> s \<Longrightarrow> s < fh \<Longrightarrow> which s = (v, fl, fh)"
  shows "codes (\<lambda>c. ec_encode_bin c fl fh bits) (decode_symbol_bin which bits) v 24"
proof -
  have bits: "bits < 32" using assms(3) by simp
  have "(2 :: nat) ^ bits \<le> 2 ^ 23" using assms(3) by (intro power_increasing) simp_all
  then have "codes (\<lambda>c. ec_encode c fl fh (push_bit bits 1)) (decode_symbol which (push_bit bits 1)) v 24"
    using assms(2) by (intro encode_codes [OF assms(1) _ _ assms(4)]) (simp_all only: word_le_nat_alt unat_push_1 [OF bits])
  moreover have "decode_symbol which (push_bit bits 1) = decode_symbol_bin which bits"
    by (intro ext) (simp add: decode_symbol_def decode_symbol_bin_def decode_bin_eq [OF bits])
  ultimately show ?thesis by (simp add: encode_bin_eq [OF bits])
qed

text \<open>The symbols coded by a table or a single bit: \<open>narrow_codes\<close> for a share of the interval.\<close>

lemma part_codes:
  assumes n: "fl < fh" "fh \<le> ft" "ft \<le> 2 ^ 23"
    and enc: "\<And>c R. unat (ec_rng c) = R \<Longrightarrow>
      E c = ec_enc_normalize (c\<lparr>ec_val := ec_val c + word_of_nat (part_from fl fh ft R), ec_rng := word_of_nat (part_size fl fh ft R)\<rparr>)"
    and dec: "\<And>d R. unat (ec_rng d) = R \<Longrightarrow> R div ft * (ft - fh) \<le> unat (ec_val d) \<Longrightarrow>
      unat (ec_val d) < (if fl = 0 then R else R div ft * (ft - fl)) \<Longrightarrow>
      \<exists>x. Dc d = map_option (Pair v) (ec_dec_normalize
        (d\<lparr>ec_ext := x, ec_val := ec_val d - word_of_nat (R div ft * (ft - fh)), ec_rng := word_of_nat (part_size fl fh ft R)\<rparr>))"
  shows "codes E Dc v 24"
proof (rule narrow_codes)
  fix R :: nat assume "2 ^ 23 < R"
  then have ft: "ft \<le> R" using n(3) by linarith
  show "0 < part_size fl fh ft R \<and> part_from fl fh ft R + part_size fl fh ft R \<le> R" using part_bounds [OF n(1,2) ft] by simp
  show "\<exists>x. Dc d = map_option (Pair v) (ec_dec_normalize (d\<lparr>ec_ext := x,
      ec_val := ec_val d - word_of_nat (R - part_from fl fh ft R - part_size fl fh ft R), ec_rng := word_of_nat (part_size fl fh ft R)\<rparr>))"
    if "unat (ec_rng d) = R" "R - part_from fl fh ft R - part_size fl fh ft R \<le> unat (ec_val d)" "unat (ec_val d) < R - part_from fl fh ft R" for d
    unfolding part_bounds(3) [OF n(1,2) ft]
    using that(2,3) unfolding part_bounds(3) [OF n(1,2) ft] unfolding part_bounds(4) [OF n(1,2) ft] by (rule dec [OF that(1)])
qed (rule enc)

lemma bit_logp_codes:
  assumes "0 < logp" and "logp \<le> 23"
  shows "codes (\<lambda>c. ec_enc_bit_logp c v logp) (\<lambda>d. ec_dec_bit_logp d logp) v 24"
proof -
  have small: "(2 :: nat) ^ logp \<le> 2 ^ 23" using assms(2) by (intro power_increasing) simp_all
  have two: "2 \<le> (2 :: nat) ^ logp" using assms(1) by (cases logp) simp_all
  have s: "unat (drop_bit logp w) = R div 2 ^ logp" if "unat (w :: 32 word) = R" for w R using that by (simp add: unat_drop)
  have word: "drop_bit logp w = word_of_nat (R div 2 ^ logp)" "w - drop_bit logp w = word_of_nat (R - R div 2 ^ logp)"
    if "unat (w :: 32 word) = R" for w R
  proof -
    show "drop_bit logp w = word_of_nat (R div 2 ^ logp)" by (rule word_eq_nat) (rule s [OF that])
    have "drop_bit logp w \<le> w" using s [OF that] that by (simp add: word_le_nat_alt)
    then show "w - drop_bit logp w = word_of_nat (R - R div 2 ^ logp)" by (intro word_eq_nat) (simp add: unat_sub s [OF that] that)
  qed
  show ?thesis
  proof (cases v)
    case True
    have "codes (\<lambda>c. ec_enc_bit_logp c True logp) (\<lambda>d. ec_dec_bit_logp d logp) True 24"
    proof (rule part_codes [of "2 ^ logp - 1" "2 ^ logp" "2 ^ logp"])
      show "ec_enc_bit_logp c True logp = ec_enc_normalize (c\<lparr>ec_val := ec_val c + word_of_nat (part_from (2 ^ logp - 1) (2 ^ logp) (2 ^ logp) R),
          ec_rng := word_of_nat (part_size (2 ^ logp - 1) (2 ^ logp) (2 ^ logp) R)\<rparr>)" if "unat (ec_rng c) = R" for c R
        using two assms(2) word [OF that] by (simp add: ec_enc_bit_logp_def ensure_def Let_def part_from_def part_size_def)
      show "\<exists>x. ec_dec_bit_logp d logp = map_option (Pair True) (ec_dec_normalize (d\<lparr>ec_ext := x,
          ec_val := ec_val d - word_of_nat (R div 2 ^ logp * (2 ^ logp - 2 ^ logp)), ec_rng := word_of_nat (part_size (2 ^ logp - 1) (2 ^ logp) (2 ^ logp) R)\<rparr>))"
        if "unat (ec_rng d) = R" "unat (ec_val d) < (if 2 ^ logp - 1 = (0 :: nat) then R else R div 2 ^ logp * (2 ^ logp - (2 ^ logp - 1)))" for d R
      proof -
        have "ec_val d < drop_bit logp (ec_rng d)" using that two by (simp add: word_less_nat_alt s [OF that(1)])
        then show ?thesis using two assms(2) word(1) [OF that(1)]
          by (intro exI [of _ "ec_ext d"]) (simp add: ec_dec_bit_logp_def ensure_def Let_def part_size_def map_conv_bind_option)
      qed
    qed (use two small in simp_all)
    then show ?thesis using True by simp
  next
    case False
    have "codes (\<lambda>c. ec_enc_bit_logp c False logp) (\<lambda>d. ec_dec_bit_logp d logp) False 24"
    proof (rule part_codes [of 0 "2 ^ logp - 1" "2 ^ logp"])
      show "ec_enc_bit_logp c False logp = ec_enc_normalize (c\<lparr>ec_val := ec_val c + word_of_nat (part_from 0 (2 ^ logp - 1) (2 ^ logp) R),
          ec_rng := word_of_nat (part_size 0 (2 ^ logp - 1) (2 ^ logp) R)\<rparr>)" if "unat (ec_rng c) = R" for c R
        using two assms(2) word(2) [OF that] by (simp add: ec_enc_bit_logp_def ensure_def Let_def part_from_def part_size_def)
      show "\<exists>x. ec_dec_bit_logp d logp = map_option (Pair False) (ec_dec_normalize (d\<lparr>ec_ext := x,
          ec_val := ec_val d - word_of_nat (R div 2 ^ logp * (2 ^ logp - (2 ^ logp - 1))), ec_rng := word_of_nat (part_size 0 (2 ^ logp - 1) (2 ^ logp) R)\<rparr>))"
        if "unat (ec_rng d) = R" "R div 2 ^ logp * (2 ^ logp - (2 ^ logp - 1)) \<le> unat (ec_val d)" for d R
      proof -
        have "\<not> ec_val d < drop_bit logp (ec_rng d)" using that(2) two by (simp add: word_less_nat_alt s [OF that(1)])
        then show ?thesis using two assms(2) word [OF that(1)]
          by (intro exI [of _ "ec_ext d"]) (simp add: ec_dec_bit_logp_def ensure_def Let_def part_size_def map_conv_bind_option)
      qed
    qed (use two small in simp_all)
    then show ?thesis using False by simp
  qed
qed

section \<open>Symbols of an inverse cumulative table\<close>

text \<open>
  A table for \<open>ftb\<close> bits in which the symbol \<open>s\<close> can be coded: its entries below \<open>2 ^ ftb\<close> fall, strictly
  at \<open>s\<close>.
\<close>

definition icdf_symbol :: "mem \<Rightarrow> nat \<Rightarrow> nat \<Rightarrow> bool" where
  "icdf_symbol icdf ftb s \<longleftrightarrow> ftb \<le> 23 \<and> s < length icdf \<and> (\<forall>k \<in> {..<s}. unat (icdf ! k) < 2 ^ ftb) \<and>
     unat (icdf ! s) < (if s = 0 then 2 ^ ftb else unat (icdf ! (s - 1))) \<and> (\<forall>k \<in> {..<s}. icdf ! (s - 1) \<le> icdf ! k)"

lemma icdf_search_finds:
  assumes "s < length icdf" and "\<And>k. k < s \<Longrightarrow> d < r * ucast (icdf ! k)" and "\<not> d < r * ucast (icdf ! s)" and "k \<le> s"
  shows "icdf_search r d icdf k t = Some (s, if k = s then t else r * ucast (icdf ! (s - 1)), r * ucast (icdf ! s))"
  using assms(4)
proof (induction "s - k" arbitrary: k t)
  case 0
  then show ?case using assms(1,3) by (simp add: icdf_search.simps [of r d icdf k])
next
  case (Suc n)
  then have "k < s" "n = s - (k + 1)" by simp_all
  moreover from this have "s - 1 = k" if "k + 1 = s" using that by simp
  ultimately show ?case using Suc.hyps(1) [of "k + 1" "r * ucast (icdf ! k)"] assms(1,2)
    by (simp add: icdf_search.simps [of r d icdf k])
qed

lemma icdf_words:
  assumes "unat (w :: 32 word) = R" and "unat (x :: 8 word) \<le> 2 ^ ftb"
  shows "unat (drop_bit ftb w * ucast x) = R div 2 ^ ftb * unat x"
    and "drop_bit ftb w * ucast x = word_of_nat (R div 2 ^ ftb * unat x)"
    and "w - drop_bit ftb w * ucast x = word_of_nat (R - R div 2 ^ ftb * unat x)"
proof -
  have r: "unat (drop_bit ftb w) = R div 2 ^ ftb" using assms(1) by (simp add: unat_drop)
  have "unat x < 2 ^ 32" by (rule order.strict_trans2 [OF unsigned_less]) simp
  then have x: "unat (ucast x :: 32 word) = unat x" unfolding unsigned_ucast_eq by (simp add: take_bit_nat_eq_self)
  have le: "R div 2 ^ ftb * unat x \<le> R" by (rule share_le [OF assms(2)])
  have "R < 2 ^ 32" unfolding assms(1) [symmetric] by (rule order.strict_trans2 [OF unsigned_less]) simp
  then show times: "unat (drop_bit ftb w * ucast x) = R div 2 ^ ftb * unat x"
    using le unfolding r [symmetric] x [symmetric] by (intro unat_times) (rule le_less_trans)
  then show "drop_bit ftb w * ucast x = word_of_nat (R div 2 ^ ftb * unat x)" by (rule word_eq_nat)
  have "drop_bit ftb w * ucast x \<le> w" unfolding word_le_nat_alt times assms(1) by (rule le)
  then show "w - drop_bit ftb w * ucast x = word_of_nat (R - R div 2 ^ ftb * unat x)"
    by (intro word_eq_nat) (simp only: unat_sub times assms(1))
qed

lemma icdf_codes:
  assumes "icdf_symbol icdf ftb s"
  shows "codes (\<lambda>c. ec_enc_icdf c s icdf ftb) (\<lambda>d. ec_dec_icdf d icdf ftb) s 24"
proof -
  define hi where "hi = (if s = 0 then 2 ^ ftb else unat (icdf ! (s - 1)))"
  define lo where "lo = unat (icdf ! s)"
  have ftb: "ftb \<le> 23" "ftb < 32" and s: "s < length icdf" and lo: "lo < hi"
    and below: "\<And>k. k < s \<Longrightarrow> unat (icdf ! k) < 2 ^ ftb" and falls: "\<And>k. k < s \<Longrightarrow> icdf ! (s - 1) \<le> icdf ! k"
    using assms by (auto simp: icdf_symbol_def hi_def lo_def)
  have hi: "hi \<le> 2 ^ ftb" "s \<noteq> 0 \<Longrightarrow> hi < 2 ^ ftb" using below [of "s - 1"] by (auto simp: hi_def intro: less_imp_le)
  have small: "(2 :: nat) ^ ftb \<le> 2 ^ 23" using ftb(1) by (intro power_increasing) simp_all
  let ?ft = "2 ^ ftb :: nat"
  have diffs: "?ft - (?ft - hi) = hi" "?ft - (?ft - lo) = lo" "?ft - lo - (?ft - hi) = hi - lo" using hi(1) lo by simp_all
  have zero: "?ft - hi = 0 \<longleftrightarrow> s = 0" using hi by (auto simp: hi_def)
  have loW: "unat (icdf ! s) \<le> ?ft" using lo hi(1) by (simp add: lo_def)
  have hiW: "unat (icdf ! (s - 1)) \<le> ?ft" if "s \<noteq> 0" using hi(1) that by (simp add: hi_def)
  have a: "part_from (?ft - hi) (?ft - lo) ?ft R = (if s = 0 then 0 else R - R div ?ft * hi)" for R
    unfolding part_from_def zero diffs by (rule refl)
  have b: "part_size (?ft - hi) (?ft - lo) ?ft R = (if s = 0 then R - R div ?ft * lo else R div ?ft * (hi - lo))" for R
    unfolding part_size_def zero diffs by (rule refl)
  have width: "drop_bit ftb w * word_of_int (uint (icdf ! (s - 1)) - uint (icdf ! s)) = word_of_nat (R div ?ft * (hi - lo))"
    "drop_bit ftb w * ucast (icdf ! (s - 1)) - drop_bit ftb w * ucast (icdf ! s) = word_of_nat (R div ?ft * (hi - lo))"
    if R: "unat (w :: 32 word) = R" and s0: "s \<noteq> 0" for w R
  proof -
    have h: "unat (drop_bit ftb w * ucast (icdf ! (s - 1))) = R div ?ft * hi" using icdf_words(1) [OF R hiW [OF s0]] s0 by (simp add: hi_def)
    have l: "unat (drop_bit ftb w * ucast (icdf ! s)) = R div ?ft * lo" using icdf_words(1) [OF R loW] by (simp add: lo_def)
    have "drop_bit ftb w * ucast (icdf ! s) \<le> drop_bit ftb w * ucast (icdf ! (s - 1))"
      unfolding word_le_nat_alt h l using lo by (intro mult_le_mono2) simp
    then show 2: "drop_bit ftb w * ucast (icdf ! (s - 1)) - drop_bit ftb w * ucast (icdf ! s) = word_of_nat (R div ?ft * (hi - lo))"
      by (intro word_eq_nat) (simp only: unat_sub h l diff_mult_distrib2)
    have "word_of_int (uint (icdf ! (s - 1)) - uint (icdf ! s)) = (ucast (icdf ! (s - 1)) - ucast (icdf ! s) :: 32 word)" by simp
    then show "drop_bit ftb w * word_of_int (uint (icdf ! (s - 1)) - uint (icdf ! s)) = word_of_nat (R div ?ft * (hi - lo))"
      unfolding 2 [symmetric] by (simp only: right_diff_distrib)
  qed
  show ?thesis
  proof (rule part_codes [of "?ft - hi" "?ft - lo" ?ft])
    show "?ft - hi < ?ft - lo" using lo hi(1) by simp
    show "?ft \<le> 2 ^ 23" by (rule small)
    show "ec_enc_icdf c s icdf ftb = ec_enc_normalize (c\<lparr>ec_val := ec_val c + word_of_nat (part_from (?ft - hi) (?ft - lo) ?ft R),
        ec_rng := word_of_nat (part_size (?ft - hi) (?ft - lo) ?ft R)\<rparr>)" if R: "unat (ec_rng c) = R" for c R
    proof (cases "s = 0")
      case True
      then show ?thesis unfolding a b using ftb(2) s icdf_words(3) [OF R loW] by (simp add: ec_enc_icdf_def ensure_def Let_def lo_def)
    next
      case False
      have "ec_rng c - drop_bit ftb (ec_rng c) * ucast (icdf ! (s - 1)) = word_of_nat (R - R div ?ft * hi)"
        using icdf_words(3) [OF R hiW [OF False]] False by (simp add: hi_def)
      then show ?thesis unfolding a b using ftb(2) s False width(1) [OF R False] by (simp add: ec_enc_icdf_def ensure_def Let_def)
    qed
    show "\<exists>x. ec_dec_icdf d icdf ftb = map_option (Pair s) (ec_dec_normalize (d\<lparr>ec_ext := x,
        ec_val := ec_val d - word_of_nat (R div ?ft * (?ft - (?ft - lo))), ec_rng := word_of_nat (part_size (?ft - hi) (?ft - lo) ?ft R)\<rparr>))"
      if R: "unat (ec_rng d) = R" and T: "R div ?ft * (?ft - (?ft - lo)) \<le> unat (ec_val d)"
        "unat (ec_val d) < (if ?ft - hi = 0 then R else R div ?ft * (?ft - (?ft - hi)))" for d R
    proof -
      let ?r = "drop_bit ftb (ec_rng d)"
      have stop: "\<not> ec_val d < ?r * ucast (icdf ! s)" using T(1) unfolding diffs by (simp add: word_less_nat_alt icdf_words(1) [OF R loW] lo_def)
      have go: "ec_val d < ?r * ucast (icdf ! k)" if k: "k < s" for k
      proof -
        have "unat (icdf ! (s - 1)) \<le> unat (icdf ! k)" using falls [OF k] by (simp add: word_le_nat_alt)
        then have "R div ?ft * hi \<le> R div ?ft * unat (icdf ! k)" using k by (simp add: hi_def)
        moreover have "unat (ec_val d) < R div ?ft * hi" using T(2) k unfolding zero diffs by simp
        ultimately show ?thesis
          unfolding word_less_nat_alt icdf_words(1) [OF R less_imp_le [OF below [OF k]]] by (rule less_le_trans [rotated])
      qed
      have "icdf_search ?r (ec_val d) icdf 0 (ec_rng d) =
          Some (s, if 0 = s then ec_rng d else ?r * ucast (icdf ! (s - 1)), ?r * ucast (icdf ! s))"
        using icdf_search_finds [OF s go stop] by simp
      then have "ec_dec_icdf d icdf ftb = map_option (Pair s) (ec_dec_normalize (d\<lparr>ec_val := ec_val d - ?r * ucast (icdf ! s),
          ec_rng := (if 0 = s then ec_rng d else ?r * ucast (icdf ! (s - 1))) - ?r * ucast (icdf ! s)\<rparr>))"
        using ftb(2) by (simp add: ec_dec_icdf_def ensure_def Let_def map_conv_bind_option)
      moreover have "?r * ucast (icdf ! s) = word_of_nat (R div ?ft * lo)" using icdf_words(2) [OF R loW] by (simp add: lo_def)
      moreover have "(if 0 = s then ec_rng d else ?r * ucast (icdf ! (s - 1))) - ?r * ucast (icdf ! s) = word_of_nat (part_size (?ft - hi) (?ft - lo) ?ft R)"
        unfolding b using icdf_words(3) [OF R loW] width(2) [OF R] by (cases "s = 0") (simp_all add: lo_def)
      ultimately show ?thesis unfolding diffs by (intro exI [of _ "ec_ext d"]) simp
    qed
  qed simp
qed

end
