(* ===== verification/OpusRangeBits.thy ===== *)
theory OpusRangeBits
  imports OpusRangeSyms
begin

text \<open>
  The raw bits at the end of the buffer, and the uniform numbers coded by a symbol and raw bits.
\<close>

section \<open>The buffer from its end\<close>

definition tail_byte :: "mem \<Rightarrow> nat \<Rightarrow> nat" where
  "tail_byte B j = (if j < length B then unat (B ! (length B - (j + 1))) else 0)"

lemma tail_byte_less: "tail_byte B j < 256"
proof -
  have "unat (B ! (length B - (j + 1))) < 256" by (rule order.strict_trans2 [OF unsigned_less]) simp
  then show ?thesis by (simp add: tail_byte_def)
qed

lemma be_Cons: "be (d # ds) = d * 256 ^ length ds + be ds"
  using be_append [of "[d]" ds] by simp

lemma from_end_0 [simp]: "from_end B 0 = 0"
  by (simp add: from_end_def)

lemma from_end_Suc: "from_end B (Suc j) = tail_byte B j * 256 ^ j + from_end B j"
proof (cases "j < length B")
  case True
  then have "drop (length B - Suc j) B = B ! (length B - Suc j) # drop (length B - j) B"
    using Cons_nth_drop_Suc [of "length B - Suc j" B] by (simp add: Suc_diff_Suc)
  then show ?thesis using True by (simp add: from_end_def be_Cons tail_byte_def)
qed (simp add: from_end_def tail_byte_def)

lemma from_end_less: "from_end B j < 256 ^ j"
proof (induction j)
  case (Suc j)
  have "tail_byte B j + 1 \<le> 256" using tail_byte_less [of B j] by simp
  then have "(tail_byte B j + 1) * 256 ^ j \<le> 256 * 256 ^ j" by (rule mult_le_mono1)
  then have "tail_byte B j * 256 ^ j + 256 ^ j \<le> 256 ^ Suc j" by (simp add: distrib_right)
  then show ?case using Suc unfolding from_end_Suc by linarith
qed simp

lemma from_end_mod: "from_end B j = be (map unat B) mod 256 ^ j"
proof -
  let ?xs = "map unat (take (length B - j) B)" and ?ys = "map unat (drop (length B - j) B)"
  have B: "map unat B = ?xs @ ?ys" unfolding map_append [symmetric] append_take_drop_id by (rule refl)
  have ys: "be ?ys = from_end B j" by (simp only: from_end_def)
  have "be ?xs * 256 ^ length ?ys mod 256 ^ j = 0" by (cases "j \<le> length B") simp_all
  then have "(be ?xs * 256 ^ length ?ys + from_end B j) mod 256 ^ j = from_end B j mod 256 ^ j" by (simp only: mod_add_left_eq [symmetric] add_0 mod_mod_trivial)
  moreover have "from_end B j mod 256 ^ j = from_end B j" by (rule mod_less) (rule from_end_less)
  moreover have "be (map unat B) = be ?xs * 256 ^ length ?ys + from_end B j" unfolding ys [symmetric] by (subst B) (rule be_append)
  ultimately show ?thesis by simp
qed

lemma power_256: "(256 :: nat) ^ j = 2 ^ (8 * j)"
  by (simp add: power_mult)

lemma window_less: "8 * j = t + n \<Longrightarrow> from_end B j div 2 ^ t < 2 ^ n"
  using from_end_less [of B j] unfolding power_256 by (intro less_mult_imp_div_less) (simp add: power_add ac_simps)

text \<open>Bits \<open>t\<close> to \<open>t + n\<close> of a number.\<close>

lemma bits_of_mod: "t + n \<le> s \<Longrightarrow> (b mod 2 ^ s) div 2 ^ t mod 2 ^ n = (b mod 2 ^ (t + n)) div 2 ^ t" for b :: nat
proof -
  assume "t + n \<le> s"
  then have "(b mod 2 ^ s) mod 2 ^ (t + n) = b mod 2 ^ (t + n)" by (intro mod_mod_cancel le_imp_power_dvd)
  moreover have "x mod 2 ^ (t + n) div 2 ^ t = x div 2 ^ t mod 2 ^ n" for x :: nat
    by (simp add: power_add mod_mult2_eq)
  ultimately show ?thesis by metis
qed

section \<open>Words joined bit by bit\<close>

lemma or_push_nat: "a < 2 ^ k \<Longrightarrow> a OR push_bit k b = a + 2 ^ k * (b :: nat)"
proof -
  assume "a < 2 ^ k"
  then have a: "take_bit k a = a" by (rule take_bit_nat_eq_self)
  have "take_bit k a AND push_bit k b = 0" by (rule bit_eqI) (auto simp: bit_simps)
  then have "a + push_bit k b = a OR push_bit k b" unfolding a by (rule disjunctive_add_eq_or)
  then show ?thesis unfolding push_bit_eq_mult [of k b] by (simp only: mult.commute)
qed

lemma or_push:
  assumes "unat (w :: 32 word) < 2 ^ k" and "2 ^ k * unat x < 2 ^ 32"
  shows "unat (w OR push_bit k x) = unat w + 2 ^ k * unat x"
proof -
  have "unat (push_bit k x) = push_bit k (unat x)"
    using assms(2) unat_push [of x k] by (simp add: push_bit_eq_mult ac_simps)
  then show ?thesis unfolding unsigned_or_eq by (simp only: or_push_nat [OF assms(1)])
qed

section \<open>Writing raw bits\<close>

text \<open>A step that writes bytes at the end only.\<close>

definition back_only :: "ec_ctx \<Rightarrow> ec_ctx \<Rightarrow> bool" where
  "back_only c c' \<longleftrightarrow> safe c' \<and> ec_storage c' = ec_storage c \<and> ec_offs c' = ec_offs c \<and> ec_rem c' = ec_rem c \<and> ec_ext c' = ec_ext c \<and>
     ec_val c' = ec_val c \<and> ec_rng c' = ec_rng c \<and> ec_nbits_total c' = ec_nbits_total c \<and> ec_end_window c' = ec_end_window c \<and>
     ec_nend_bits c' = ec_nend_bits c \<and> take (ec_offs c) (ec_buf c') = take (ec_offs c) (ec_buf c) \<and> (ec_error c' = 0 \<longrightarrow> ec_error c = 0)"

lemma back_only_refl: "safe c \<Longrightarrow> back_only c c"
  by (simp add: back_only_def)

lemma back_only_trans: "back_only a b \<Longrightarrow> back_only b c \<Longrightarrow> back_only a c"
  by (simp add: back_only_def)

lemma put_byte_back:
  assumes "safe c"
  obtains c' where "put_byte_at_end c v = Some c'" "back_only c c'"
    "ec_error c' = 0 \<Longrightarrow> ec_end_offs c' = Suc (ec_end_offs c) \<and>
       from_end (ec_buf c') (ec_end_offs c') = unat (ucast v :: 8 word) * 256 ^ ec_end_offs c + from_end (ec_buf c) (ec_end_offs c)"
proof
  let ?e = "ec_end_offs c" and ?n = "ec_storage c"
  define c' where "c' = (if ec_offs c + ?e < ?n
    then c\<lparr>ec_buf := (ec_buf c)[?n - (?e + 1) := ucast v], ec_end_offs := ?e + 1\<rparr> else c\<lparr>ec_error := - 1\<rparr>)"
  have len: "length (ec_buf c) = ?n" using assms by (simp add: safe_def)
  show "put_byte_at_end c v = Some c'"
    using assms by (auto simp: put_byte_at_end_def ec_write_byte_at_end_def safe_def wr_def c'_def)
  show "back_only c c'" using assms by (auto simp: c'_def back_only_def safe_def)
  show "ec_end_offs c' = Suc ?e \<and> from_end (ec_buf c') (ec_end_offs c') = unat (ucast v :: 8 word) * 256 ^ ?e + from_end (ec_buf c) ?e"
    if "ec_error c' = 0"
  proof -
    have room: "ec_offs c + ?e < ?n" using that by (cases "ec_offs c + ?e < ?n") (simp_all add: c'_def)
    then have c': "c' = c\<lparr>ec_buf := (ec_buf c)[?n - (?e + 1) := ucast v], ec_end_offs := ?e + 1\<rparr>" by (simp add: c'_def)
    have "?n - Suc ?e < ?n - ?e" using room by simp
    then have "from_end ((ec_buf c)[?n - Suc ?e := ucast v]) ?e = from_end (ec_buf c) ?e" by (simp add: from_end_def len)
    then show ?thesis using room by (simp add: c' from_end_Suc tail_byte_def len)
  qed
qed

lemma put_byte_back_room:
  "safe c \<Longrightarrow> ec_offs c + ec_end_offs c < ec_storage c \<Longrightarrow> put_byte_at_end c v = Some c' \<Longrightarrow>
    ec_error c' = ec_error c \<and> safe c' \<and> ec_offs c' = ec_offs c \<and> ec_end_offs c' = Suc (ec_end_offs c) \<and> ec_storage c' = ec_storage c"
  by (auto simp: put_byte_at_end_def ec_write_byte_at_end_def safe_def wr_def)

lemma flush_window_room:
  "safe c \<Longrightarrow> 8 \<le> u \<Longrightarrow> ec_offs c + ec_end_offs c + nat u div 8 \<le> ec_storage c \<Longrightarrow> flush_window c w u = Some (c', w', u') \<Longrightarrow> ec_error c' = ec_error c"
proof (induction c w u rule: flush_window.induct)
  case (1 c w u)
  let ?w = "drop_bit EC_SYM_BITS w" and ?u = "u - int EC_SYM_BITS"
  obtain c1 where c1: "put_byte_at_end c (w AND 0xFF) = Some c1"
    "(if ?u \<ge> int EC_SYM_BITS then flush_window c1 ?w ?u else Some (c1, ?w, ?u)) = Some (c', w', u')"
    using "1.prems"(4) by (auto simp: flush_window.simps [of c w u] Let_def split: Option.bind_splits)
  have u: "nat u div 8 = Suc (nat ?u div 8)"
  proof -
    have "nat u = nat ?u + 8" using "1.prems"(2) by (simp add: EC_SYM_BITS_def)
    then show ?thesis by simp
  qed
  then have "ec_offs c + ec_end_offs c < ec_storage c" using "1.prems"(3) by simp
  note r = put_byte_back_room [OF "1.prems"(1) this c1(1)]
  show ?case
  proof (cases "?u \<ge> int EC_SYM_BITS")
    case True
    then have "8 \<le> ?u" "flush_window c1 ?w ?u = Some (c', w', u')" using c1(2) by (simp_all add: EC_SYM_BITS_def)
    from "1.IH" [OF c1(1) refl refl True _ this(1) _ this(2)] r u "1.prems"(3) show ?thesis by simp
  next
    case False
    then show ?thesis using c1(2) r by simp
  qed
qed

lemma flush_window_back:
  assumes "safe c" and "8 \<le> u" and "u \<le> 32"
  shows "\<exists>c' w' u'. flush_window c w u = Some (c', w', u') \<and> back_only c c' \<and> 0 \<le> u' \<and> u' < 8 \<and>
    (unat w < 2 ^ nat u \<longrightarrow> unat w' < 2 ^ nat u') \<and>
    (ec_error c' = 0 \<longrightarrow> 8 * ec_end_offs c' + nat u' = 8 * ec_end_offs c + nat u \<and>
       from_end (ec_buf c') (ec_end_offs c') + 256 ^ ec_end_offs c' * unat w' = from_end (ec_buf c) (ec_end_offs c) + 256 ^ ec_end_offs c * unat w)"
  using assms
proof (induction c w u rule: flush_window.induct)
  case (1 c w u)
  obtain c1 where c1: "put_byte_at_end c (w AND 0xFF) = Some c1" "back_only c c1"
    "ec_error c1 = 0 \<Longrightarrow> ec_end_offs c1 = Suc (ec_end_offs c) \<and>
       from_end (ec_buf c1) (ec_end_offs c1) = unat (ucast (w AND 0xFF) :: 8 word) * 256 ^ ec_end_offs c + from_end (ec_buf c) (ec_end_offs c)"
    using put_byte_back [OF "1.prems"(1), of "w AND 0xFF"] by blast
  let ?w = "drop_bit EC_SYM_BITS w" and ?u = "u - int EC_SYM_BITS"
  have w: "unat ?w = unat w div 256" by (simp add: unat_drop EC_SYM_BITS_def)
  have u: "?u = u - 8" "nat u = 8 + nat ?u" using "1.prems"(2) by (simp_all add: EC_SYM_BITS_def)
  have byte: "unat (ucast (w AND 0xFF) :: 8 word) = unat w mod 256"
  proof -
    have "(0xFF :: 32 word) = mask 8" by (simp add: mask_eq_exp_minus_1)
    then have "w AND 0xFF = take_bit 8 w" by (simp only: take_bit_eq_mask)
    then have "unat (w AND 0xFF) = unat w mod 256" by (simp only: unsigned_take_bit_eq) (simp add: take_bit_eq_mod)
    then show ?thesis unfolding unsigned_ucast_eq by (simp add: take_bit_eq_mod)
  qed
  have win: "unat ?w < 2 ^ nat ?u" if "unat w < 2 ^ nat u"
    using that unfolding w u(2) power_add by (intro less_mult_imp_div_less) (simp add: ac_simps)
  have step: "8 * ec_end_offs c1 + nat ?u = 8 * ec_end_offs c + nat u"
    "from_end (ec_buf c1) (ec_end_offs c1) + 256 ^ ec_end_offs c1 * unat ?w = from_end (ec_buf c) (ec_end_offs c) + 256 ^ ec_end_offs c * unat w"
    if "ec_error c1 = 0"
  proof -
    have e: "ec_end_offs c1 = Suc (ec_end_offs c)" using c1(3) [OF that] by simp
    have f: "from_end (ec_buf c1) (ec_end_offs c1) = unat w mod 256 * 256 ^ ec_end_offs c + from_end (ec_buf c) (ec_end_offs c)"
      using conjunct2 [OF c1(3) [OF that]] unfolding byte .
    show "8 * ec_end_offs c1 + nat ?u = 8 * ec_end_offs c + nat u" using e u(2) by simp
    have "256 ^ ec_end_offs c * unat w = 256 ^ ec_end_offs c * (256 * (unat w div 256) + unat w mod 256)" by simp
    then show "from_end (ec_buf c1) (ec_end_offs c1) + 256 ^ ec_end_offs c1 * unat ?w = from_end (ec_buf c) (ec_end_offs c) + 256 ^ ec_end_offs c * unat w"
      unfolding f unfolding w e distrib_left by (simp add: ac_simps)
  qed
  show ?case
  proof (cases "?u \<ge> int EC_SYM_BITS")
    case False
    then have "flush_window c w u = Some (c1, ?w, ?u)" using c1(1) by (simp add: flush_window.simps [of c w u] Let_def)
    moreover have "0 \<le> ?u" "?u < 8" using False "1.prems"(2) by (simp_all add: EC_SYM_BITS_def)
    ultimately show ?thesis using c1(2) win step by blast
  next
    case True
    have "safe c1" "8 \<le> ?u" "?u \<le> 32" using c1(2) True "1.prems"(3) by (simp_all add: back_only_def EC_SYM_BITS_def)
    from "1.IH" [OF c1(1) refl refl True this] obtain c' w' u' where I: "flush_window c1 ?w ?u = Some (c', w', u')" "back_only c1 c'" "0 \<le> u'" "u' < 8"
      "unat ?w < 2 ^ nat ?u \<longrightarrow> unat w' < 2 ^ nat u'"
      "ec_error c' = 0 \<longrightarrow> 8 * ec_end_offs c' + nat u' = 8 * ec_end_offs c1 + nat ?u \<and>
         from_end (ec_buf c') (ec_end_offs c') + 256 ^ ec_end_offs c' * unat w' = from_end (ec_buf c1) (ec_end_offs c1) + 256 ^ ec_end_offs c1 * unat ?w"
      by blast
    have "ec_error c1 = 0" if "ec_error c' = 0" using that I(2) by (simp add: back_only_def)
    then have "ec_error c' = 0 \<longrightarrow> 8 * ec_end_offs c' + nat u' = 8 * ec_end_offs c + nat u \<and>
         from_end (ec_buf c') (ec_end_offs c') + 256 ^ ec_end_offs c' * unat w' = from_end (ec_buf c) (ec_end_offs c) + 256 ^ ec_end_offs c * unat w"
      using I(6) step by metis
    moreover have "flush_window c w u = Some (c', w', u')" using True c1(1) I(1) by (simp add: flush_window.simps [of c w u] Let_def)
    ultimately show ?thesis using back_only_trans [OF c1(2) I(2)] I(3-5) win by blast
  qed
qed

section \<open>Reading raw bits\<close>

lemma read_byte_from_end_at:
  assumes "reads B d" and "ec_end_offs d = min j (length B)"
  shows "ec_read_byte_from_end d = Some (int (tail_byte B j), d\<lparr>ec_end_offs := min (Suc j) (length B)\<rparr>)"
  using assms by (cases "j < length B") (auto simp: ec_read_byte_from_end_def reads_def tail_byte_def uint_nat simp del: of_nat_unat)

lemma fill_window_reads:
  assumes "reads B d" and "ec_end_offs d = min j (length B)" and "0 \<le> a" and "a \<le> 24" and "8 * j = t + nat a"
    and "unat w = from_end B j div 2 ^ t"
  shows "\<exists>w' a' j'. fill_window d w a = Some (d\<lparr>ec_end_offs := min j' (length B)\<rparr>, w', a') \<and> 25 \<le> a' \<and> a' \<le> 32 \<and>
    8 * j' = t + nat a' \<and> unat w' = from_end B j' div 2 ^ t"
  using assms
proof (induction d w a arbitrary: j rule: fill_window.induct)
  case (1 d w a)
  let ?b = "tail_byte B j" and ?d = "d\<lparr>ec_end_offs := min (Suc j) (length B)\<rparr>"
  let ?w = "w OR push_bit (nat a) (word_of_int (int ?b))" and ?a = "a + int EC_SYM_BITS"
  have read: "ec_read_byte_from_end d = Some (int ?b, ?d)" by (rule read_byte_from_end_at [OF "1.prems"(1,2)])
  have ens: "ensure (0 \<le> a \<and> a < 32) = Some ()" using "1.prems"(3,4) by (simp add: ensure_def)
  have a: "?a = a + 8" "8 * Suc j = t + nat ?a" "0 \<le> ?a" using "1.prems"(3,5) by (simp_all add: EC_SYM_BITS_def nat_add_distrib)
  have b: "unat (word_of_int (int ?b) :: 32 word) = ?b" using tail_byte_less [of B j] by (simp add: unat_of_nat)
  have "2 ^ nat a * ?b < 2 ^ nat a * 2 ^ 8" using tail_byte_less [of B j] by simp
  also have "\<dots> = 2 ^ (nat a + 8)" by (simp only: power_add)
  also have "(2 :: nat) ^ (nat a + 8) \<le> 2 ^ 32" using "1.prems"(4) by (intro power_increasing) simp_all
  finally have fits: "2 ^ nat a * unat (word_of_int (int ?b) :: 32 word) < 2 ^ 32" unfolding b .
  have "unat w < 2 ^ nat a" unfolding "1.prems"(6) by (rule window_less [OF "1.prems"(5)])
  then have "unat ?w = from_end B j div 2 ^ t + 2 ^ nat a * ?b" using or_push [OF _ fits] "1.prems"(6) b by simp
  moreover have "from_end B (Suc j) = from_end B j + (2 ^ nat a * ?b) * 2 ^ t"
    using "1.prems"(5) by (simp add: from_end_Suc power_256 power_add ac_simps)
  ultimately have w: "unat ?w = from_end B (Suc j) div 2 ^ t" by simp
  show ?case
  proof (cases "?a \<le> EC_WINDOW_SIZE - int EC_SYM_BITS")
    case False
    then have "fill_window d w a = Some (?d, ?w, ?a)" using read ens by (simp add: fill_window.simps [of d w a] Let_def)
    moreover have "25 \<le> ?a" "?a \<le> 32" using False "1.prems"(4) by (simp_all add: EC_SYM_BITS_def EC_WINDOW_SIZE_def)
    ultimately show ?thesis using a(2) w by blast
  next
    case True
    have d: "reads B ?d" "ec_end_offs ?d = min (Suc j) (length B)" using "1.prems"(1) by (simp_all add: reads_def)
    have "?a \<le> 24" using True by (simp add: EC_SYM_BITS_def EC_WINDOW_SIZE_def)
    from "1.IH" [OF read refl ens refl refl True d a(3) this a(2) w] obtain w' a' j' where
      I: "fill_window ?d ?w ?a = Some (?d\<lparr>ec_end_offs := min j' (length B)\<rparr>, w', a')" "25 \<le> a'" "a' \<le> 32" "8 * j' = t + nat a'"
        "unat w' = from_end B j' div 2 ^ t" by blast
    have "fill_window d w a = fill_window ?d ?w ?a" using True read ens by (simp add: fill_window.simps [of d w a] Let_def)
    then show ?thesis using I by (intro exI [of _ w'] exI [of _ a'] exI [of _ j']) simp
  qed
qed

lemma dec_bits_reads:
  assumes "reads B d" and "raw_at B d t" and "bits \<le> 25" and "ec_nbits_total d + int bits < 2 ^ 31" and "0 \<le> ec_nbits_total d"
    and "be (map unat B) mod 2 ^ (t + bits) div 2 ^ t = unat fl"
  shows "\<exists>e w n. ec_dec_bits d bits = Some (fl, d\<lparr>ec_end_offs := e, ec_end_window := w, ec_nend_bits := n, ec_nbits_total := ec_nbits_total d + int bits\<rparr>) \<and>
    raw_at B (d\<lparr>ec_end_offs := e, ec_end_window := w, ec_nend_bits := n, ec_nbits_total := ec_nbits_total d + int bits\<rparr>) (t + bits)"
proof -
  obtain j where n: "0 \<le> ec_nend_bits d" "ec_nend_bits d \<le> 32" and j: "8 * j = t + nat (ec_nend_bits d)" "ec_end_offs d = min j (length B)"
    "unat (ec_end_window d) = from_end B j div 2 ^ t" using assms(2) by (auto simp: raw_at_def)
  obtain j' w a where F: "(if ec_nend_bits d < int bits then fill_window d (ec_end_window d) (ec_nend_bits d)
      else Some (d, ec_end_window d, ec_nend_bits d)) = Some (d\<lparr>ec_end_offs := min j' (length B)\<rparr>, w, a)"
    "int bits \<le> a" "a \<le> 32" "8 * j' = t + nat a" "unat w = from_end B j' div 2 ^ t"
  proof (cases "ec_nend_bits d < int bits")
    case True
    then have "ec_nend_bits d \<le> 24" using assms(3) by simp
    from fill_window_reads [OF assms(1) j(2) n(1) this j(1) j(3)] obtain w' a' j' where
      W: "fill_window d (ec_end_window d) (ec_nend_bits d) = Some (d\<lparr>ec_end_offs := min j' (length B)\<rparr>, w', a')"
        "25 \<le> a'" "a' \<le> 32" "8 * j' = t + nat a'" "unat w' = from_end B j' div 2 ^ t" by blast
    have "int bits \<le> a'" using W(2) assms(3) by simp
    moreover have "(if ec_nend_bits d < int bits then fill_window d (ec_end_window d) (ec_nend_bits d)
      else Some (d, ec_end_window d, ec_nend_bits d)) = Some (d\<lparr>ec_end_offs := min j' (length B)\<rparr>, w', a')"
      unfolding if_P [OF True] by (rule W(1))
    ultimately show ?thesis using that W(3-5) by blast
  next
    case False
    have "d\<lparr>ec_end_offs := ec_end_offs d\<rparr> = d" by (cases d) simp
    then have "d\<lparr>ec_end_offs := min j (length B)\<rparr> = d" unfolding j(2) .
    then show ?thesis using that [of j "ec_end_window d" "ec_nend_bits d"] n(2) j(1,3) False by simp
  qed
  have bits: "bits < 32" using assms(3) by simp
  have taken: "w AND (push_bit bits 1 - 1) = fl"
  proof -
    have "w AND (push_bit bits 1 - 1) = take_bit bits w" by (simp add: take_bit_eq_mask mask_eq_exp_minus_1)
    moreover have "unat (take_bit bits w) = unat fl"
    proof -
      have "unat (take_bit bits w) = from_end B j' div 2 ^ t mod 2 ^ bits"
        by (simp only: unsigned_take_bit_eq F(5)) (simp add: take_bit_eq_mod)
      also have "\<dots> = unat fl"
        unfolding from_end_mod power_256 assms(6) [symmetric] by (rule bits_of_mod) (use F(2,4) in linarith)
      finally show ?thesis .
    qed
    ultimately show ?thesis by (simp add: word_unat_eq_iff)
  qed
  let ?d = "d\<lparr>ec_end_offs := min j' (length B), ec_end_window := drop_bit bits w, ec_nend_bits := a - int bits,
    ec_nbits_total := ec_nbits_total d + int bits\<rparr>"
  have "i32 (ec_nbits_total d + int bits) = Some (ec_nbits_total d + int bits)" using assms(4,5) by (simp add: i32_def)
  then have "ec_dec_bits d bits = Some (fl, ?d)"
    unfolding ec_dec_bits_def F(1) using bits taken by (simp add: ensure_def)
  moreover have "unat (drop_bit bits w) = from_end B j' div 2 ^ (t + bits)" by (simp add: unat_drop F(5) power_add div_mult2_eq)
  then have "raw_at B ?d (t + bits)" using F(2-4) by (auto simp: raw_at_def nat_diff_distrib intro!: exI [of _ j'])
  ultimately show ?thesis by blast
qed

section \<open>Raw bits\<close>

lemma raw_value_less: "unat (ec_end_window c) < 2 ^ nat (ec_nend_bits c) \<Longrightarrow> raw_value c < 2 ^ raw_bits c"
proof -
  assume "unat (ec_end_window c) < 2 ^ nat (ec_nend_bits c)"
  then have "256 ^ ec_end_offs c * (unat (ec_end_window c) + 1) \<le> 256 ^ ec_end_offs c * 2 ^ nat (ec_nend_bits c)" by (intro mult_le_mono2) simp
  moreover have "2 ^ raw_bits c = 256 ^ ec_end_offs c * (2 :: nat) ^ nat (ec_nend_bits c)" by (simp add: raw_bits_def power_add power_256)
  moreover have "from_end (ec_buf c) (ec_end_offs c) < 256 ^ ec_end_offs c" by (rule from_end_less)
  ultimately show ?thesis unfolding raw_value_def distrib_left by linarith
qed

lemma back_digits:
  assumes "back_only c c'"
  shows "digits c' = digits c" "count c' = count c" "low c' = low c"
proof -
  show d: "digits c' = digits c" using assms by (simp add: back_only_def digits_def written_def pending_def)
  then show "count c' = count c" "low c' = low c" using assms by (simp_all add: count_def low_def back_only_def)
qed

lemma back_enc_at: "back_only c c' \<Longrightarrow> ec_error c' = 0 \<Longrightarrow> enc_at c n D V R \<Longrightarrow> enc_at c' n D V R"
  by (auto simp: back_only_def enc_at_def digits_def written_def pending_def)

lemma mod_split_at:
  assumes "b mod 2 ^ (t + n) = r + 2 ^ t * (f :: nat)" and "r < 2 ^ t"
  shows "b mod 2 ^ t = r" and "b mod 2 ^ (t + n) div 2 ^ t = f"
proof -
  have "b mod 2 ^ (t + n) mod 2 ^ t = b mod 2 ^ t" by (intro mod_mod_cancel le_imp_power_dvd) simp
  then show "b mod 2 ^ t = r" unfolding assms(1) using assms(2) by simp
  show "b mod 2 ^ (t + n) div 2 ^ t = f" unfolding assms(1) using assms(2) by simp
qed

lemma bits_codes:
  assumes "unat fl < 2 ^ bits" and "0 < bits" and "bits \<le> 25"
  shows "codes (\<lambda>c. ec_enc_bits c fl bits) (\<lambda>d. ec_dec_bits d bits) fl bits"
  unfolding codes_def
proof (intro allI impI, elim conjE)
  fix c assume wf: "enc_wf c" and nb: "ec_nbits_total c + int bits < 2 ^ 31"
  have n: "safe c" "0 \<le> ec_nend_bits c" "ec_nend_bits c \<le> 32" "0 \<le> ec_nbits_total c" using wf by (simp_all add: enc_wf_def)
  obtain c1 w u where F: "(if ec_nend_bits c + int bits > EC_WINDOW_SIZE then flush_window c (ec_end_window c) (ec_nend_bits c)
      else Some (c, ec_end_window c, ec_nend_bits c)) = Some (c1, w, u)" "back_only c c1" "0 \<le> u" "u + int bits \<le> 32"
    "unat (ec_end_window c) < 2 ^ nat (ec_nend_bits c) \<longrightarrow> unat w < 2 ^ nat u"
    "ec_error c1 = 0 \<longrightarrow> 8 * ec_end_offs c1 + nat u = raw_bits c \<and>
       from_end (ec_buf c1) (ec_end_offs c1) + 256 ^ ec_end_offs c1 * unat w = raw_value c"
  proof (cases "ec_nend_bits c + int bits > EC_WINDOW_SIZE")
    case True
    then have "8 \<le> ec_nend_bits c" using assms(3) by (simp add: EC_WINDOW_SIZE_def)
    from flush_window_back [OF n(1) this n(3), of "ec_end_window c"] show ?thesis
      using that True assms(3) unfolding raw_bits_def raw_value_def by fastforce
  next
    case False
    then show ?thesis using that [of c "ec_end_window c" "ec_nend_bits c"] n back_only_refl [OF n(1)]
      by (simp add: raw_bits_def raw_value_def EC_WINDOW_SIZE_def)
  qed
  define c' where "c' = c1\<lparr>ec_end_window := w OR push_bit (nat u) fl, ec_nend_bits := u + int bits, ec_nbits_total := ec_nbits_total c + int bits\<rparr>"
  have "ec_nbits_total c1 = ec_nbits_total c" using F(2) by (simp add: back_only_def)
  then have run: "ec_enc_bits c fl bits = Some c'"
    unfolding ec_enc_bits_def F(1) using F(3,4) assms(2) nb n(4) by (simp add: ensure_def i32_def c'_def)
  have "enc_wf c'" using F(2-4) wf by (simp add: enc_wf_def back_only_def safe_def c'_def)
  moreover have "leads (\<lambda>d. ec_dec_bits d bits) fl c c'"
    unfolding leads_def
  proof (intro impI conjI allI)
    assume e: "ec_error c' = 0"
    then have e1: "ec_error c1 = 0" by (simp add: c'_def)
    then show "ec_error c = 0" using F(2) by (simp add: back_only_def)
    assume s: "enc_state c"
    then have win: "unat (ec_end_window c) < 2 ^ nat (ec_nend_bits c)" by (simp add: enc_state_def)
    have w: "unat w < 2 ^ nat u" using F(5) win by blast
    have raw: "8 * ec_end_offs c1 + nat u = raw_bits c" "from_end (ec_buf c1) (ec_end_offs c1) + 256 ^ ec_end_offs c1 * unat w = raw_value c"
      using F(6) e1 by blast+
    have nu: "nat (u + int bits) = nat u + bits" using F(3) by (simp add: nat_add_distrib)
    have up: "2 ^ nat u * (unat fl + 1) \<le> 2 ^ nat u * 2 ^ bits" using assms(1) by (intro mult_le_mono2) simp
    have "2 ^ nat u * unat fl < 2 ^ nat u * 2 ^ bits" using assms(1) by simp
    also have "\<dots> = 2 ^ (nat u + bits)" by (simp only: power_add)
    also have "(2 :: nat) ^ (nat u + bits) \<le> 2 ^ 32" using F(3,4) by (intro power_increasing) simp_all
    finally have W: "unat (w OR push_bit (nat u) fl) = unat w + 2 ^ nat u * unat fl" by (rule or_push [OF w])
    have bits': "raw_bits c' = raw_bits c + bits" using raw(1) nu by (simp add: raw_bits_def c'_def)
    have val': "raw_value c' = raw_value c + 2 ^ raw_bits c * unat fl"
      unfolding raw(2) [symmetric] unfolding raw(1) [symmetric] by (simp add: raw_value_def c'_def W power_256 power_add distrib_left)
    have "digits c' = digits c1" by (simp add: c'_def digits_def written_def pending_def)
    then have same: "digits c' = digits c" "count c' = count c" "low c' = low c"
      using back_digits(1) [OF F(2)] F(2) by (simp_all add: count_def low_def c'_def back_only_def)
    have keep: "ec_val c' = ec_val c" "ec_rng c' = ec_rng c" "ec_nbits_total c' = ec_nbits_total c + int bits"
      using F(2) by (simp_all add: c'_def back_only_def)
    have "enc_at c1 (count c) (be (digits c)) (unat (ec_val c)) (unat (ec_rng c))"
      using s by (intro back_enc_at [OF F(2) e1]) (simp add: enc_state_def)
    then have "enc_at c' (count c) (be (digits c)) (unat (ec_val c)) (unat (ec_rng c))" unfolding c'_def by (subst enc_at_cong [of _ c1]) simp_all
    moreover have "unat (ec_end_window c') < 2 ^ nat (ec_nend_bits c')"
      using w up by (simp add: c'_def W nu power_add)
    ultimately show s': "enc_state c'"
      using \<open>enc_wf c'\<close> s by (simp add: enc_state_def same keep bits')
    fix B assume B: "length B = ec_storage c \<and> fits_in B c'"
    have "be (map unat B) mod 2 ^ (raw_bits c + bits) = raw_value c + 2 ^ raw_bits c * unat fl"
      using B by (simp add: fits_in_def bits' val')
    note b = mod_split_at [OF this raw_value_less [OF win]]
    show f: "fits_in B c" using B b(1) by (simp add: fits_in_def same keep)
    fix d assume d: "in_step B c d"
    have d': "reads B d" "raw_at B d (raw_bits c)" "ec_nbits_total d = ec_nbits_total c" using d by (simp_all add: in_step_def dec_at_def)
    have "ec_nbits_total d + int bits < 2 ^ 31" "0 \<le> ec_nbits_total d" using nb n(4) d'(3) by simp_all
    from dec_bits_reads [OF d'(1,2) assms(3) this b(2)] obtain x y z where R: "ec_dec_bits d bits = Some (fl, d\<lparr>ec_end_offs := x,
        ec_end_window := y, ec_nend_bits := z, ec_nbits_total := ec_nbits_total d + int bits\<rparr>)"
      "raw_at B (d\<lparr>ec_end_offs := x, ec_end_window := y, ec_nend_bits := z, ec_nbits_total := ec_nbits_total d + int bits\<rparr>) (raw_bits c + bits)" by blast
    moreover have "in_step B c' (d\<lparr>ec_end_offs := x, ec_end_window := y, ec_nend_bits := z, ec_nbits_total := ec_nbits_total d + int bits\<rparr>)"
      using d s' B R(2) by (simp add: in_step_def dec_at_def reads_def same keep bits')
    ultimately show "\<exists>d'. ec_dec_bits d bits = Some (fl, d') \<and> in_step B c' d'" by blast
  qed
  moreover have "ec_storage c' = ec_storage c" "ec_nbits_total c' = ec_nbits_total c + int bits" using F(2) by (simp_all add: c'_def back_only_def)
  moreover have "ec_error c' = 0" if s: "enc_state c" and fits: "ec_nbits_total c' \<le> 8 * int (ec_storage c) + 32"
  proof -
    have nbits: "ec_nbits_total c = 33 + 8 * int (count c) + int (raw_bits c)" "ec_error c = 0"
      using s by (simp_all add: enc_state_def enc_at_def)
    have "ec_offs c \<le> count c" using length_written [OF n(1)] by (simp add: count_def digits_def)
    moreover have "int (raw_bits c) = 8 * int (ec_end_offs c) + int (nat (ec_nend_bits c))" by (simp only: raw_bits_def of_nat_add of_nat_mult of_nat_numeral)
    moreover have "ec_nbits_total c' = ec_nbits_total c + int bits" by (simp add: c'_def)
    ultimately have "8 * count c + 8 * ec_end_offs c + nat (ec_nend_bits c) \<le> 8 * ec_storage c" using fits nbits(1) by linarith
    moreover have "ec_offs c \<le> count c" by fact
    moreover have "8 * (nat (ec_nend_bits c) div 8) \<le> nat (ec_nend_bits c)" by simp
    ultimately have room: "ec_offs c + ec_end_offs c + nat (ec_nend_bits c) div 8 \<le> ec_storage c" by linarith
    have "ec_error c1 = 0"
    proof (cases "ec_nend_bits c + int bits > EC_WINDOW_SIZE")
      case True
      then have "8 \<le> ec_nend_bits c" "flush_window c (ec_end_window c) (ec_nend_bits c) = Some (c1, w, u)"
        using assms(3) F(1) by (simp_all add: EC_WINDOW_SIZE_def)
      from flush_window_room [OF n(1) this(1) room this(2)] nbits(2) show ?thesis by simp
    qed (use F(1) nbits(2) in simp)
    then show ?thesis by (simp add: c'_def)
  qed
  ultimately show "\<exists>c'. ec_enc_bits c fl bits = Some c' \<and> enc_wf c' \<and> ec_storage c' = ec_storage c \<and>
      ec_nbits_total c \<le> ec_nbits_total c' \<and> ec_nbits_total c' \<le> ec_nbits_total c + int bits \<and> leads (\<lambda>d. ec_dec_bits d bits) fl c c' \<and>
      (enc_state c \<and> ec_nbits_total c' \<le> 8 * int (ec_storage c) + 32 \<longrightarrow> ec_error c' = 0)"
    using run by (intro exI [of _ c']) simp
qed

section \<open>The number of bits of a number\<close>

lemma half_zero:
  assumes "unat (v :: 32 word) < 2 ^ (2 * k)"
  shows "v AND push_bit k (mask k) \<noteq> 0 \<longleftrightarrow> 2 ^ k \<le> unat v"
proof -
  have "unat v div 2 ^ k < 2 ^ k" using assms by (intro less_mult_imp_div_less) (simp flip: power_add add: mult_2)
  then have "take_bit k (unat v div 2 ^ k) = unat v div 2 ^ k" by (rule take_bit_nat_eq_self)
  then have "take_bit k (drop_bit k v) = drop_bit k v"
    by (simp only: word_unat_eq_iff unsigned_take_bit_eq unat_drop)
  moreover have "v AND push_bit k (mask k) = push_bit k (take_bit k (drop_bit k v))"
    by (rule bit_word_eqI) (auto simp: bit_simps)
  ultimately have e: "v AND push_bit k (mask k) = push_bit k (drop_bit k v)" by simp
  have "unat v div 2 ^ k * 2 ^ k \<le> unat v" by simp
  also have "\<dots> < 2 ^ 32" by (rule order.strict_trans2 [OF unsigned_less]) simp
  finally have "unat (push_bit k (drop_bit k v)) = unat v div 2 ^ k * 2 ^ k" by (subst unat_push) (simp_all add: unat_drop)
  then have "v AND push_bit k (mask k) \<noteq> 0 \<longleftrightarrow> unat v div 2 ^ k * 2 ^ k \<noteq> 0" unfolding e word_unat_eq_iff by simp
  then show ?thesis by (simp add: div_eq_0_iff not_less)
qed

lemma ilog_step:
  assumes "unat (v :: 32 word) < 2 ^ (2 * k)" and "0 < unat v" and "m = (if v AND push_bit k (mask k) \<noteq> 0 then k else 0)"
  shows "unat (drop_bit m v) < 2 ^ k" and "0 < unat (drop_bit m v)" and "m = 0 \<or> m = k"
proof -
  have m: "m = (if 2 ^ k \<le> unat v then k else 0)" unfolding assms(3) half_zero [OF assms(1)] by (rule refl)
  show "0 < unat (drop_bit m v)" "m = 0 \<or> m = k" using assms(2) by (auto simp: m unat_drop div_greater_zero_iff)
  show "unat (drop_bit m v) < 2 ^ k"
    using assms(1) by (auto simp: m unat_drop mult_2 power_add intro: less_mult_imp_div_less)
qed

definition bits_in :: "nat \<Rightarrow> nat \<Rightarrow> bool" where
  "bits_in n r \<longleftrightarrow> 0 < r \<and> 2 ^ (r - 1) \<le> n \<and> n < 2 ^ r"

lemma bits_in_shift: "bits_in (n div 2 ^ m) r \<Longrightarrow> bits_in n (r + m)"
proof (cases r)
  case (Suc q)
  assume b: "bits_in (n div 2 ^ m) r"
  then have "2 ^ q * 2 ^ m \<le> n" by (simp add: Suc bits_in_def less_eq_div_iff_mult_less_eq)
  moreover have "n < 2 ^ r * 2 ^ m" using b by (simp add: bits_in_def div_less_iff_less_mult)
  ultimately show ?thesis by (simp add: Suc bits_in_def power_add)
qed (simp add: bits_in_def)

lemma ec_ilog_bits:
  assumes "v \<noteq> 0"
  shows "bits_in (unat v) (ec_ilog v)"
proof -
  define m1 where "m1 = (if v AND 0xFFFF0000 \<noteq> 0 then 16 else 0 :: nat)"
  define v1 where "v1 = drop_bit m1 v"
  define m2 where "m2 = (if v1 AND 0xFF00 \<noteq> 0 then 8 else 0 :: nat)"
  define v2 where "v2 = drop_bit m2 v1"
  define m3 where "m3 = (if v2 AND 0xF0 \<noteq> 0 then 4 else 0 :: nat)"
  define v3 where "v3 = drop_bit m3 v2"
  define m4 where "m4 = (if v3 AND 0xC \<noteq> 0 then 2 else 0 :: nat)"
  define v4 where "v4 = drop_bit m4 v3"
  have masks: "push_bit 16 (mask 16) = (0xFFFF0000 :: 32 word)" "push_bit 8 (mask 8) = (0xFF00 :: 32 word)"
    "push_bit 4 (mask 4) = (0xF0 :: 32 word)" "push_bit 2 (mask 2) = (0xC :: 32 word)"
    by (simp_all add: mask_eq_exp_minus_1 push_bit_eq_mult)
  have "unat v < 2 ^ 32" by (rule order.strict_trans2 [OF unsigned_less]) simp
  then have 0: "unat v < 2 ^ (2 * 16)" "0 < unat v" using assms by (simp_all add: unat_gt_0)
  note 1 = ilog_step [OF 0 m1_def [folded masks], folded v1_def]
  have "unat v1 < 2 ^ (2 * 8)" using 1(1) by simp
  note 2 = ilog_step [OF this 1(2) m2_def [folded masks], folded v2_def]
  have "unat v2 < 2 ^ (2 * 4)" using 2(1) by simp
  note 3 = ilog_step [OF this 2(2) m3_def [folded masks], folded v3_def]
  have "unat v3 < 2 ^ (2 * 2)" using 3(1) by simp
  note 4 = ilog_step [OF this 3(2) m4_def [folded masks], folded v4_def]
  define b where "b = (if v4 AND 2 \<noteq> 0 then 1 else 0 :: nat)"
  have "unat v4 = 1 \<or> unat v4 = 2 \<or> unat v4 = 3" using 4(1,2) by auto
  then have "v4 = 1 \<or> v4 = 2 \<or> v4 = 3" by (auto simp: word_unat_eq_iff)
  then have last: "bits_in (unat v4) (1 + b)" "b = 0 \<or> b = 1" by (auto simp: bits_in_def b_def)
  have "bits_in (unat v4) r \<Longrightarrow> bits_in (unat v) (r + m4 + m3 + m2 + m1)" for r
    unfolding v4_def v3_def v2_def v1_def unat_drop by (intro bits_in_shift)
  then have "bits_in (unat v) (1 + b + m4 + m3 + m2 + m1)" using last(1) .
  moreover have "ec_ilog v = ((((1 OR m1) OR m2) OR m3) OR m4) + b"
    unfolding ec_ilog_def Let_def if_P [OF assms] m1_def [symmetric] v1_def [symmetric] m2_def [symmetric] v2_def [symmetric]
      m3_def [symmetric] v3_def [symmetric] m4_def [symmetric] v4_def [symmetric] b_def [symmetric] by (rule refl)
  moreover have "((((1 OR m1) OR m2) OR m3) OR m4) = 1 + m4 + m3 + m2 + m1"
    using 1(3) 2(3) 3(3) 4(3) by (elim disjE) simp_all
  ultimately show ?thesis by (simp add: ac_simps)
qed

section \<open>Uniform numbers\<close>

lemma codes_then:
  assumes "codes E Dc v k" and "\<And>d. F v d = Some (w, d)"
  shows "codes E (\<lambda>d. do { (x, d) \<leftarrow> Dc d; F x d }) w k"
proof -
  have "F v = (\<lambda>d. Some (w, d))" using assms(2) by (rule ext)
  then have "codes Some (F v) w 0" by (simp only: codes_None)
  from codes_bind [where ?D2.0 = F, OF assms(1) this] show ?thesis by simp
qed

lemma split_bits: "push_bit t (drop_bit t x) OR (x AND (push_bit t 1 - 1)) = (x :: 32 word)"
proof -
  have "push_bit t 1 - 1 = (mask t :: 32 word)" by (simp add: mask_eq_exp_minus_1)
  then show ?thesis by (simp only:) (rule bit_word_eqI, auto simp: bit_simps)
qed

lemma unat_low: "unat (x AND (push_bit t 1 - 1) :: 32 word) < 2 ^ t"
proof -
  have "push_bit t 1 - 1 = (mask t :: 32 word)" by (simp add: mask_eq_exp_minus_1)
  then have "unat (x AND (push_bit t 1 - 1)) = take_bit t (unat x)" by (simp only: take_bit_eq_mask [symmetric] unsigned_take_bit_eq)
  then show ?thesis by simp
qed

lemma unat_plus_1: "unat (x :: 32 word) + 1 < 2 ^ 32 \<Longrightarrow> unat (x + 1) = unat x + 1"
  by (simp add: unat_word_ariths)

lemma one_symbol_codes:
  assumes "unat s < unat ft" and "unat ft \<le> 2 ^ 23"
  shows "codes (\<lambda>c. ec_encode c s (s + 1) ft) (\<lambda>d. do { (s, d) \<leftarrow> ec_decode d ft; d \<leftarrow> ec_dec_update d s (s + 1) ft; Some (s, d) }) s 24"
proof -
  have s1: "unat (s + 1) = unat s + 1" using assms by (intro unat_plus_1) simp
  have "codes (\<lambda>c. ec_encode c s (s + 1) ft) (decode_symbol (\<lambda>s. (s, s, s + 1)) ft) s 24"
  proof (rule encode_codes)
    show "s < s + 1" "s + 1 \<le> ft" using assms(1) by (simp_all add: word_less_nat_alt word_le_nat_alt s1)
    show "(x, x, x + 1) = (s, s, s + 1)" if "s \<le> x" "x < s + 1" for x
    proof -
      have "unat x = unat s" using that unfolding word_le_nat_alt word_less_nat_alt s1 by linarith
      then have "x = s" by (simp only: word_unat_eq_iff)
      then show ?thesis by simp
    qed
  qed (rule assms(2))
  then show ?thesis by (simp add: decode_symbol_def [abs_def])
qed

lemma uint_codes:
  assumes "1 < unat ft0" and "fl < ft0"
  shows "codes (\<lambda>c. ec_enc_uint c fl ft0) (\<lambda>d. ec_dec_uint d ft0) fl 48"
proof -
  let ?ft1 = "ft0 - 1"
  have ft1: "unat ?ft1 = unat ft0 - 1" using assms(1) by (subst unat_minus_one) auto
  have fl: "unat fl \<le> unat ?ft1" "fl \<le> ?ft1" using assms(2) unfolding ft1 word_le_nat_alt word_less_nat_alt by linarith+
  have "?ft1 \<noteq> 0" using ft1 assms(1) by auto
  then have ilog: "EC_ILOG ?ft1 = Some (ec_ilog ?ft1)" "bits_in (unat ?ft1) (ec_ilog ?ft1)"
    using ec_ilog_bits [of ?ft1] by (simp_all add: EC_ILOG_def ensure_def)
  let ?k = "ec_ilog ?ft1"
  have "unat ?ft1 < 2 ^ 32" by (rule order.strict_trans2 [OF unsigned_less]) simp
  then have "(2 :: nat) ^ (?k - 1) < 2 ^ 32" using ilog(2) by (simp add: bits_in_def)
  then have k: "?k - 1 < 32" by (rule power_less_imp_less_exp [rotated]) simp
  show ?thesis
  proof (cases "?k > EC_UINT_BITS")
    case True
    define t where "t = ?k - EC_UINT_BITS"
    have t: "0 < t" "t \<le> 24" "?k = 8 + t" using True k by (simp_all add: t_def EC_UINT_BITS_def)
    let ?ft = "drop_bit t ?ft1 + 1" and ?s = "drop_bit t fl" and ?b = "fl AND (push_bit t 1 - 1)"
    have "unat ?ft1 < 2 ^ 8 * 2 ^ t" using ilog(2) unfolding bits_in_def t(3) power_add by simp
    then have top: "unat (drop_bit t ?ft1) < 256" by (simp add: unat_drop div_less_iff_less_mult)
    have ft: "unat ?ft = unat (drop_bit t ?ft1) + 1" using top by (intro unat_plus_1) simp
    have "unat ?s \<le> unat (drop_bit t ?ft1)" unfolding unat_drop by (rule div_le_mono) (rule fl(1))
    then have s: "unat ?s < unat ?ft" "unat ?ft \<le> 2 ^ 23" using ft top by simp_all
    let ?F = "\<lambda>s b d. (let v = push_bit t s OR b in if v \<le> ?ft1 then Some (v, d) else Some (?ft1, d\<lparr>ec_error := 1\<rparr>))"
    have "codes (\<lambda>c. ec_enc_bits c ?b t) (\<lambda>d. ec_dec_bits d t) ?b t"
      using t by (intro bits_codes unat_low) simp_all
    then have 2: "codes (\<lambda>c. ec_enc_bits c ?b t) (\<lambda>d. do { (b, d) \<leftarrow> ec_dec_bits d t; ?F ?s b d }) fl t"
      by (rule codes_then) (simp only: split_bits Let_def if_P [OF fl(2)])
    from codes_bind [where ?D2.0 = "\<lambda>s d. do { (b, d) \<leftarrow> ec_dec_bits d t; ?F s b d }", OF one_symbol_codes [OF s] this]
    have both: "codes (\<lambda>c. do { c \<leftarrow> ec_encode c ?s (?s + 1) ?ft; ec_enc_bits c ?b t })
      (\<lambda>d. do { (s, d) \<leftarrow> (do { (s, d) \<leftarrow> ec_decode d ?ft; d \<leftarrow> ec_dec_update d s (s + 1) ?ft; Some (s, d) });
                (b, d) \<leftarrow> ec_dec_bits d t; ?F s b d }) fl (24 + t)" .
    have dec: "(do { (s, d) \<leftarrow> (do { (s, d) \<leftarrow> ec_decode d ?ft; d \<leftarrow> ec_dec_update d s (s + 1) ?ft; Some (s, d) });
                (b, d) \<leftarrow> ec_dec_bits d t; ?F s b d }) = ec_dec_uint d ft0" for d
    proof (cases "ec_decode d ?ft")
      case None
      then show ?thesis using True by (simp add: ec_dec_uint_def ilog(1) Let_def flip: t_def)
    next
      case (Some p)
      obtain s d1 where "p = (s, d1)" by (rule prod.exhaust)
      then show ?thesis using True Some
        by (cases "ec_dec_update d1 s (s + 1) ?ft") (simp_all add: ec_dec_uint_def ilog(1) Let_def flip: t_def)
    qed
    have "codes (\<lambda>c. ec_enc_uint c fl ft0) (\<lambda>d. ec_dec_uint d ft0) fl (24 + t)"
      using both True unfolding dec by (simp add: ec_enc_uint_def ilog(1) t_def Let_def)
    then show ?thesis by (rule codes_weaken) (use t(2) in simp)
  next
    case False
    have ft: "?ft1 + 1 = ft0" by simp
    have "?k \<le> 8" using False by (simp add: EC_UINT_BITS_def)
    then have "(2 :: nat) ^ ?k \<le> 2 ^ 8" by (intro power_increasing) simp_all
    moreover have "unat ft0 - 1 < 2 ^ ?k" using ilog(2) ft1 by (simp add: bits_in_def)
    ultimately have "unat ft0 \<le> 256" by simp
    then have "unat ft0 \<le> 2 ^ 23" by simp
    moreover have "unat fl < unat ft0" using assms(2) by (simp add: word_less_nat_alt)
    ultimately have "codes (\<lambda>c. ec_encode c fl (fl + 1) ft0) (\<lambda>d. do { (s, d) \<leftarrow> ec_decode d ft0; d \<leftarrow> ec_dec_update d s (s + 1) ft0; Some (s, d) }) fl 24"
      by (intro one_symbol_codes)
    then have "codes (\<lambda>c. ec_enc_uint c fl ft0) (\<lambda>d. ec_dec_uint d ft0) fl 24"
      using False by (simp add: ec_enc_uint_def ec_dec_uint_def ilog(1) Let_def)
    then show ?thesis by (rule codes_weaken) simp
  qed
qed

end
