(* ===== verification/OpusRangeDone.thy ===== *)
theory OpusRangeDone
  imports OpusRangeBits
begin

text \<open>
  \<open>ec_enc_done\<close>: the value it chooses lies in the last interval with all the values that begin alike, so
  that any bits behind it decode to the same symbols, and the raw bits keep their place.
\<close>

section \<open>The last digits\<close>

lemma put_end_step:
  assumes "2 ^ nat (31 - l) dvd e" and "0 < l" and "l \<le> 9"
  shows "2 ^ nat (31 - (l - 8)) dvd e mod 2 ^ 23 * (256 :: nat)" and "256 * 2 ^ nat (31 - l) = (2 :: nat) ^ nat (31 - (l - 8))"
proof -
  have n: "nat (31 - (l - 8)) = nat (31 - l) + 8" using assms(2,3) by simp
  show "256 * 2 ^ nat (31 - l) = (2 :: nat) ^ nat (31 - (l - 8))" unfolding n power_add by simp
  have "2 ^ nat (31 - l) dvd e mod 2 ^ 23"
  proof (cases "23 \<le> nat (31 - l)")
    case True
    then have "(2 :: nat) ^ 23 dvd 2 ^ nat (31 - l)" by (rule le_imp_power_dvd)
    then have "2 ^ 23 dvd e" using assms(1) by (rule dvd_trans)
    then have "e mod 2 ^ 23 = 0" by (rule dvd_imp_mod_0)
    then show ?thesis by simp
  next
    case False
    then have "(2 :: nat) ^ nat (31 - l) dvd 2 ^ 23" by (intro le_imp_power_dvd) simp
    then show ?thesis using assms(1) by (intro dvd_mod)
  qed
  then have "2 ^ nat (31 - l) * 256 dvd e mod 2 ^ 23 * 256" by (intro mult_dvd_mono) simp_all
  then show "2 ^ nat (31 - (l - 8)) dvd e mod 2 ^ 23 * 256" unfolding n power_add by simp
qed

lemma up_to_multiple:
  assumes "(m :: nat) dvd e" and "m dvd t" and "e < t"
  shows "e + m \<le> t"
proof -
  obtain a where a: "e = m * a" using assms(1) by (rule dvdE)
  obtain b where b: "t = m * b" using assms(2) by (rule dvdE)
  have "a < b" using assms(3) unfolding a b by (simp only: mult_less_cancel1)
  then have "m * (a + 1) \<le> m * b" by (intro mult_le_mono2) simp
  then show ?thesis unfolding a b by simp
qed

lemma put_end_turn:
  assumes at: "enc_at c n D (unat e) (2 ^ nat (31 - l))" and d: "2 ^ nat (31 - l) dvd unat e" and l: "0 < l" "l \<le> 9" and n: "8 * int n + l < 2 ^ 34"
    and out: "ec_enc_carry_out c (int (unat e div 2 ^ 23)) = Some c1" "ec_error c1 = 0"
  defines "e1 \<equiv> push_bit EC_SYM_BITS e AND (EC_CODE_TOP - 1)"
  shows "enc_at c1 (Suc n) (256 * D + unat e div 2 ^ 23) (unat e1) (2 ^ nat (31 - (l - 8)))" and "2 ^ nat (31 - (l - 8)) dvd unat e1"
    and "unat e1 < 2 ^ 31" and "8 * int (Suc n) + (l - 8) < 2 ^ 34" and "unat e1 = unat e mod 2 ^ 23 * 256"
proof -
  show e: "unat e1 = unat e mod 2 ^ 23 * 256" unfolding e1_def by (rule unat_shifted)
  then show "unat e1 < 2 ^ 31" by simp
  show "8 * int (Suc n) + (l - 8) < 2 ^ 34" using n by simp
  show "2 ^ nat (31 - (l - 8)) dvd unat e1" unfolding e by (rule put_end_step(1) [OF d l])
  have d31: "(2 :: nat) ^ nat (31 - l) dvd 2 ^ 31" "(2 :: nat) ^ nat (31 - l) dvd 2 ^ 32"
    using l(1) by (intro le_imp_power_dvd, simp)+
  have lt: "unat e < 2 ^ 32" by (rule order.strict_trans2 [OF unsigned_less]) simp
  have "unat e + 2 ^ nat (31 - l) \<le> 2 ^ 32" by (rule up_to_multiple [OF d d31(2) lt])
  moreover have "unat e + 2 ^ nat (31 - l) \<le> 2 ^ 31" if "unat e div 2 ^ 23 < 255"
    using that by (intro up_to_multiple [OF d d31(1)]) (simp add: div_less_iff_less_mult)
  moreover have "Suc n < 2 ^ 32" using n l(1) by simp
  ultimately have "enc_at c1 (Suc n) (256 * D + unat e div 2 ^ 23) (unat e mod 2 ^ 23 * 256) (256 * 2 ^ nat (31 - l))"
    using carry_out_at [OF at lt _ _ _ out] by blast
  then show "enc_at c1 (Suc n) (256 * D + unat e div 2 ^ 23) (unat e1) (2 ^ nat (31 - (l - 8)))"
    unfolding put_end_step(2) [OF d l] e .
qed

lemma put_end_room:
  assumes "enc_at c n D (unat e) (2 ^ nat (31 - l))" and "2 ^ nat (31 - l) dvd unat e" and "l \<le> 9" and "8 * int n + l < 2 ^ 34"
    and "8 * int n + l + 8 * int (ec_end_offs c) \<le> 8 * int (ec_storage c)" and "put_end c e l = Some (c', l')"
  shows "ec_error c' = 0"
  using assms
proof (induction c e l arbitrary: n D rule: put_end.induct)
  case (1 c e l)
  have at: "safe c" "n = length (digits c)" "ec_error c = 0" using "1.prems"(1) by (simp_all add: enc_at_def)
  show ?case
  proof (cases "0 < l")
    case False
    then show ?thesis using "1.prems"(6) at(3) by (simp add: put_end.simps [of c e l])
  next
    case True
    have l: "l - int EC_SYM_BITS = l - 8" by (simp add: EC_SYM_BITS_def)
    obtain c1 where c1: "ec_enc_carry_out c (int (unat e div 2 ^ 23)) = Some c1" "front_only c c1"
      using carry_out_safe [OF at(1)] by blast
    have run: "put_end c1 (push_bit EC_SYM_BITS e AND (EC_CODE_TOP - 1)) (l - int EC_SYM_BITS) = Some (c', l')"
      using "1.prems"(6) True c1(1) by (simp add: put_end.simps [of c e l] uint_top)
    have "length (digits c) + ec_end_offs c \<le> ec_storage c" using "1.prems"(5) True at(2) by linarith
    then have "ec_error c1 = 0" using carry_out_room [OF at(1) _ c1(1)] at(3) by simp
    note turn = put_end_turn [OF "1.prems"(1,2) True "1.prems"(3,4) c1(1) this]
    have "l - 8 \<le> 9" "8 * int (Suc n) + (l - 8) + 8 * int (ec_end_offs c1) \<le> 8 * int (ec_storage c1)"
      using "1.prems"(3,5) c1(2) by (simp_all add: front_only_def)
    from "1.IH" [OF True _ turn(1,2) [folded l] this(1) [folded l] turn(4) [folded l] this(2) [folded l] run] c1(1) show ?thesis
      by (simp only: uint_top)
  qed
qed

lemma put_end_at:
  assumes "safe c" and "l \<le> 9"
  shows "\<exists>c' l'. put_end c e l = Some (c', l') \<and> front_only c c' \<and> l' \<le> 0 \<and> (0 \<le> l \<longrightarrow> - 8 < l') \<and>
    (ec_error c' = 0 \<longrightarrow> (\<forall>n D. enc_at c n D (unat e) (2 ^ nat (31 - l)) \<and> 2 ^ nat (31 - l) dvd unat e \<and> (l \<le> 0 \<longrightarrow> unat e < 2 ^ 31) \<and> 8 * int n + l < 2 ^ 34 \<longrightarrow>
       (\<exists>D' j. enc_at c' (n + j) D' 0 (2 ^ nat (31 - l')) \<and> D' * 2 ^ 31 = 256 ^ j * (D * 2 ^ 31 + unat e) \<and> l = l' + 8 * int j)))"
  using assms
proof (induction c e l rule: put_end.induct)
  case (1 c e l)
  show ?case
  proof (cases "0 < l")
    case False
    have "unat e = 0" if "2 ^ nat (31 - l) dvd unat e" "unat e < 2 ^ 31"
    proof (rule ccontr)
      assume "unat e \<noteq> 0"
      then have "2 ^ nat (31 - l) \<le> unat e" using that(1) by (intro dvd_imp_le) simp_all
      moreover have "(2 :: nat) ^ 31 \<le> 2 ^ nat (31 - l)" using False by (intro power_increasing) simp_all
      ultimately show False using that(2) by linarith
    qed
    then have "\<exists>D' j. enc_at c (n + j) D' 0 (2 ^ nat (31 - l)) \<and> D' * 2 ^ 31 = 256 ^ j * (D * 2 ^ 31 + unat e) \<and> l = l + 8 * int j"
      if "enc_at c n D (unat e) (2 ^ nat (31 - l))" "2 ^ nat (31 - l) dvd unat e" "unat e < 2 ^ 31" for n D
      using that by (intro exI [of _ D] exI [of _ "0 :: nat"]) simp
    then show ?thesis using False front_only_refl [OF "1.prems"(1)]
      by (intro exI [of _ c] exI [of _ l]) (auto simp: put_end.simps [of c e l])
  next
    case True
    let ?e = "push_bit EC_SYM_BITS e AND (EC_CODE_TOP - 1)" and ?l = "l - int EC_SYM_BITS"
    obtain c1 where c1: "ec_enc_carry_out c (int (unat e div 2 ^ 23)) = Some c1" "front_only c c1"
      using carry_out_safe [OF "1.prems"(1)] by blast
    have e: "unat ?e = unat e mod 2 ^ 23 * 256" by (rule unat_shifted)
    have l: "?l = l - 8" by (simp add: EC_SYM_BITS_def)
    have "safe c1" "?l \<le> 9" using c1(2) "1.prems"(2) l by (simp_all add: front_only_def)
    from "1.IH" [OF True _ this] c1(1) obtain c' l' where I: "put_end c1 ?e ?l = Some (c', l')" "front_only c1 c'" "l' \<le> 0" "0 \<le> ?l \<longrightarrow> - 8 < l'"
      "ec_error c' = 0 \<longrightarrow> (\<forall>n D. enc_at c1 n D (unat ?e) (2 ^ nat (31 - ?l)) \<and> 2 ^ nat (31 - ?l) dvd unat ?e \<and> (?l \<le> 0 \<longrightarrow> unat ?e < 2 ^ 31) \<and> 8 * int n + ?l < 2 ^ 34 \<longrightarrow>
       (\<exists>D' j. enc_at c' (n + j) D' 0 (2 ^ nat (31 - l')) \<and> D' * 2 ^ 31 = 256 ^ j * (D * 2 ^ 31 + unat ?e) \<and> ?l = l' + 8 * int j))"
      unfolding uint_top by blast
    have run: "put_end c e l = Some (c', l')" using True c1(1) I(1) by (simp add: put_end.simps [of c e l] uint_top)
    have low: "- 8 < l'"
    proof (cases "0 \<le> ?l")
      case False
      then have "put_end c1 ?e ?l = Some (c1, ?l)" by (simp add: put_end.simps [of c1 ?e ?l])
      then show ?thesis using I(1) True l by simp
    qed (use I(4) in blast)
    have "\<exists>D' j. enc_at c' (n + j) D' 0 (2 ^ nat (31 - l')) \<and> D' * 2 ^ 31 = 256 ^ j * (D * 2 ^ 31 + unat e) \<and> l = l' + 8 * int j"
      if err: "ec_error c' = 0" and at: "enc_at c n D (unat e) (2 ^ nat (31 - l))" and d: "2 ^ nat (31 - l) dvd unat e"
        and n: "8 * int n + l < 2 ^ 34" for n D
    proof -
      have err1: "ec_error c1 = 0" using err I(2) by (simp add: front_only_def)
      note turn = put_end_turn [OF at d True "1.prems"(2) n c1(1) err1, folded l]
      obtain D' j where D': "enc_at c' (Suc n + j) D' 0 (2 ^ nat (31 - l'))"
        "D' * 2 ^ 31 = 256 ^ j * ((256 * D + unat e div 2 ^ 23) * 2 ^ 31 + unat ?e)" "?l = l' + 8 * int j"
        using mp [OF I(5) err] turn(1-4) by blast
      have "D' * 2 ^ 31 = 256 ^ Suc j * (D * 2 ^ 31 + unat e)"
        unfolding D'(2) e rescale by simp
      moreover have "l = l' + 8 * int (Suc j)" using D'(3) l by simp
      ultimately show ?thesis using D'(1) by (intro exI [of _ D'] exI [of _ "Suc j"]) simp
    qed
    then show ?thesis using run front_only_trans [OF c1(2) I(2)] I(3) low by blast
  qed
qed

section \<open>The choice of the last value\<close>

lemma round_up:
  assumes "unat (v :: 32 word) + 2 ^ s \<le> 2 ^ 32"
  shows "unat ((v + mask s) AND NOT (mask s)) = (unat v + (2 ^ s - 1)) div 2 ^ s * 2 ^ s"
    and "unat (((v + mask s) AND NOT (mask s)) OR mask s) = (unat v + (2 ^ s - 1)) div 2 ^ s * 2 ^ s + (2 ^ s - 1)"
proof -
  have pos: "(0 :: nat) < 2 ^ s" by simp
  have "(2 :: nat) ^ s \<le> 2 ^ 32" using assms by linarith
  then have s: "s \<le> 32" by (rule power_le_imp_le_exp [rotated]) simp
  have m: "unat (mask s :: 32 word) = 2 ^ s - 1"
    unfolding take_bit_minus_one_eq_mask [symmetric] unsigned_take_bit_eq unsigned_minus_1_eq_mask take_bit_of_mask
    using s by (simp add: mask_eq_exp_minus_1 min_def)
  have "unat v + (2 ^ s - 1) < 2 ^ 32" using assms pos by linarith
  then have sum: "unat (v + mask s) = unat v + (2 ^ s - 1)" unfolding m [symmetric] by (simp add: unat_word_ariths)
  have shape: "(v + mask s) AND NOT (mask s) = push_bit s (drop_bit s (v + mask s))"
    by (rule bit_word_eqI) (auto simp: bit_simps)
  have "unat (v + mask s) div 2 ^ s * 2 ^ s \<le> unat (v + mask s)" by (rule div_times_less_eq_dividend)
  then have lt: "unat (v + mask s) div 2 ^ s * 2 ^ s < 2 ^ 32" unfolding sum using assms pos by linarith
  then show e: "unat ((v + mask s) AND NOT (mask s)) = (unat v + (2 ^ s - 1)) div 2 ^ s * 2 ^ s"
    unfolding shape by (subst unat_push) (simp_all only: unat_drop sum)
  have "unat (mask s OR push_bit s (drop_bit s (v + mask s))) = unat (mask s :: 32 word) + 2 ^ s * unat (drop_bit s (v + mask s))"
  proof (rule or_push)
    show "unat (mask s :: 32 word) < 2 ^ s" unfolding m by simp
    show "2 ^ s * unat (drop_bit s (v + mask s)) < 2 ^ 32" using lt by (simp only: unat_drop mult.commute)
  qed
  then show "unat (((v + mask s) AND NOT (mask s)) OR mask s) = (unat v + (2 ^ s - 1)) div 2 ^ s * 2 ^ s + (2 ^ s - 1)"
    unfolding shape or.commute [of _ "mask s"] by (simp only: unat_drop sum m ac_simps)
qed

lemma round_up_bounds:
  fixes v m :: nat
  assumes "0 < m"
  shows "v \<le> (v + (m - 1)) div m * m" and "(v + (m - 1)) div m * m < v + m" and "m dvd (v + (m - 1)) div m * m"
proof -
  have "(v + (m - 1)) mod m < m" using assms by simp
  moreover have "(v + (m - 1)) div m * m + (v + (m - 1)) mod m = v + (m - 1)" by (rule div_mult_mod_eq)
  ultimately show "v \<le> (v + (m - 1)) div m * m" "(v + (m - 1)) div m * m < v + m" using assms by linarith+
qed simp

lemma enc_end_fits:
  assumes "enc_wf c"
  obtains l e k where "enc_end c = Some (l, e)" "0 \<le> l" "l \<le> 9" "EC_ILOG (ec_rng c) = Some k" "l \<le> 33 - int k"
    "unat (ec_val c) + unat (ec_rng c) < 2 ^ 32 \<Longrightarrow> unat (ec_val c) \<le> unat e \<and>
       unat e + 2 ^ nat (31 - l) \<le> unat (ec_val c) + unat (ec_rng c) \<and> 2 ^ nat (31 - l) dvd unat e \<and> (l \<le> 0 \<longrightarrow> unat e < 2 ^ 31)"
proof -
  let ?V = "unat (ec_val c)" and ?R = "unat (ec_rng c)"
  have R: "2 ^ 23 < ?R" "?R \<le> 2 ^ 31" using assms by (simp_all add: enc_wf_def)
  then have "ec_rng c \<noteq> 0" by auto
  then obtain k where k: "EC_ILOG (ec_rng c) = Some k" "bits_in ?R k"
    using ec_ilog_bits [of "ec_rng c"] by (simp add: EC_ILOG_def ensure_def)
  have "(2 :: nat) ^ 23 < 2 ^ k" using R(1) k(2) by (simp add: bits_in_def)
  then have k1: "23 < k" by (rule power_less_imp_less_exp [rotated]) simp
  have "(2 :: nat) ^ (k - 1) \<le> 2 ^ 31" using R(2) k(2) unfolding bits_in_def by linarith
  then have k2: "k - 1 \<le> 31" by (rule power_le_imp_le_exp [rotated]) simp
  define s where "s = k - 1"
  have s: "23 \<le> s" "s \<le> 31" "k = Suc s" using k1 k2 by (simp_all add: s_def)
  let ?l = "int EC_CODE_BITS - int k"
  have l: "?l = 31 - int s" "nat ?l = 31 - s" "nat (31 - ?l) = s" "nat (31 - (?l + 1)) = s - 1"
    using s by (simp_all add: EC_CODE_BITS_def nat_diff_distrib)
  have drop: "drop_bit (b - a) (mask b :: 32 word) = mask a" if "a \<le> b" "b \<le> 32" for a b
    using that by (intro bit_word_eqI) (auto simp: bit_simps)
  have msk: "drop_bit (nat ?l) (EC_CODE_TOP - 1) = mask s" "drop_bit 1 (mask s :: 32 word) = mask (s - 1)"
    unfolding top_mask l(2) using s drop [of s 31] drop [of "s - 1" s] by simp_all
  have size: "2 ^ s \<le> ?R" "?R < 2 * 2 ^ s" using k(2) by (simp_all add: bits_in_def s(3))
  have half: "(2 :: nat) ^ s = 2 * 2 ^ (s - 1)" using s(1) by (cases s) simp_all
  let ?w = "ec_val c" and ?e = "(ec_val c + mask s) AND NOT (mask s)" and ?h = "(ec_val c + mask (s - 1)) AND NOT (mask (s - 1))"
  have run: "enc_end c = Some (if ?e OR mask s \<ge> ?w + ec_rng c then (?l + 1, ?h) else (?l, ?e))"
    by (simp add: enc_end_def k(1) Let_def msk msk(2) [simplified])
  show ?thesis
  proof (cases "?e OR mask s \<ge> ?w + ec_rng c")
    case True
    show ?thesis
    proof (rule that)
      show "enc_end c = Some (?l + 1, ?h)" using run True by simp
      show "0 \<le> ?l + 1" "?l + 1 \<le> 9" using s unfolding l(1) by simp_all
      show "EC_ILOG (ec_rng c) = Some k" "?l + 1 \<le> 33 - int k" using k(1) by (simp_all add: EC_CODE_BITS_def)
      assume "?V + ?R < 2 ^ 32"
      then have fit: "?V + 2 ^ (s - 1) \<le> 2 ^ 32" using size(1) half by linarith
      note b = round_up_bounds [of "2 ^ (s - 1)" ?V]
      have "?V \<le> unat ?h" "unat ?h < ?V + 2 ^ (s - 1)" "2 ^ (s - 1) dvd unat ?h" unfolding round_up(1) [OF fit] by (rule b, simp)+
      then show "?V \<le> unat ?h \<and> unat ?h + 2 ^ nat (31 - (?l + 1)) \<le> ?V + ?R \<and> 2 ^ nat (31 - (?l + 1)) dvd unat ?h \<and> (?l + 1 \<le> 0 \<longrightarrow> unat ?h < 2 ^ 31)"
        using size(1) half s(2) unfolding l(4) by (auto simp: l(1))
    qed
  next
    case False
    show ?thesis
    proof (rule that)
      show "enc_end c = Some (?l, ?e)" using run False by simp
      show "0 \<le> ?l" "?l \<le> 9" using s unfolding l(1) by simp_all
      show "EC_ILOG (ec_rng c) = Some k" "?l \<le> 33 - int k" using k(1) by (simp_all add: EC_CODE_BITS_def)
      assume small: "?V + ?R < 2 ^ 32"
      then have fit: "?V + 2 ^ s \<le> 2 ^ 32" using size(1) by linarith
      have sum: "unat (?w + ec_rng c) = ?V + ?R" using small by (simp add: unat_word_ariths)
      note b = round_up_bounds [of "2 ^ s" ?V]
      have "unat (?e OR mask s) < ?V + ?R" using False sum by (simp add: word_le_nat_alt)
      then have "unat ?e + (2 ^ s - 1) < ?V + ?R" unfolding round_up [OF fit] .
      then have top: "unat ?e + 2 ^ s \<le> ?V + ?R" by linarith
      moreover have "?V \<le> unat ?e" "2 ^ s dvd unat ?e" unfolding round_up(1) [OF fit] by (rule b, simp)+
      moreover have "unat ?e < 2 ^ 31" if "?l \<le> 0"
      proof -
        have "s = 31" using that s(2) unfolding l(1) by simp
        then show ?thesis using top small by simp
      qed
      ultimately show "?V \<le> unat ?e \<and> unat ?e + 2 ^ nat (31 - ?l) \<le> ?V + ?R \<and> 2 ^ nat (31 - ?l) dvd unat ?e \<and> (?l \<le> 0 \<longrightarrow> unat ?e < 2 ^ 31)"
        unfolding l(3) by blast
    qed
  qed
qed

section \<open>The rest of the buffer\<close>

lemma front_take: "k \<le> length B \<Longrightarrow> front B k = be (map unat (take k B))"
proof -
  assume "k \<le> length B"
  then have "map (byte_at B) [0 ..< k] = map unat (take k B)" by (intro nth_equalityI) (simp_all add: byte_at_def)
  then show ?thesis by (simp add: front_def)
qed

text \<open>A byte of raw bits at place \<open>e\<close> from the end.\<close>

lemma raw_bits_end:
  assumes "tail_byte B e mod 2 ^ u = w" and "u \<le> 8"
  shows "be (map unat B) mod 2 ^ (8 * e + u) = from_end B e + 256 ^ e * w"
proof -
  have "(2 :: nat) ^ (8 * e + u) dvd 2 ^ (8 * Suc e)" using assms(2) by (intro le_imp_power_dvd) simp
  then have "be (map unat B) mod 2 ^ (8 * e + u) = from_end B (Suc e) mod 2 ^ (8 * e + u)"
    unfolding from_end_mod [of B "Suc e"] power_256 by (simp add: mod_mod_cancel)
  also have "\<dots> = (tail_byte B e * 256 ^ e + from_end B e) mod (256 ^ e * 2 ^ u)"
    by (simp only: from_end_Suc power_add power_256)
  also have "\<dots> = 256 ^ e * (tail_byte B e mod 2 ^ u) + from_end B e"
    using from_end_less [of B e] by (simp add: mod_mult2_eq)
  finally show ?thesis unfolding assms(1) by simp
qed

lemma or_low_bits:
  assumes "2 ^ k dvd b" and "w < 2 ^ k"
  shows "b OR w = b + (w :: nat)"
proof -
  obtain a where a: "b = 2 ^ k * a" using assms(1) by (rule dvdE)
  have "w OR push_bit k a = w + 2 ^ k * a" by (rule or_push_nat [OF assms(2)])
  then show ?thesis unfolding a push_bit_eq_mult by (simp add: or.commute ac_simps)
qed

text \<open>The last incomplete byte, in a buffer \<open>B\<close> whose free bytes have been cleared.\<close>

lemma put_last_bits_fits:
  assumes safe: "safe c" and l: "- 8 < l" "l \<le> 0" and u: "0 < u" "u < 8" and free: "\<And>i. ec_offs c \<le> i \<Longrightarrow> i < ec_storage c - ec_end_offs c \<Longrightarrow> ec_buf c ! i = 0"
  shows "\<exists>c'. put_last_bits c w u l = Some c' \<and> length (ec_buf c') = ec_storage c \<and>
    (ec_error c' = 0 \<longrightarrow> ec_error c = 0 \<and> (unat w < 2 ^ nat u \<and> 2 ^ nat (- l) dvd be (written c) \<longrightarrow>
      be (map unat (ec_buf c')) mod 2 ^ (8 * ec_end_offs c + nat u) = from_end (ec_buf c) (ec_end_offs c) + 256 ^ ec_end_offs c * unat w \<and>
      (\<exists>x < 2 ^ nat (- l). front (ec_buf c') (ec_offs c) = be (written c) + x)))"
proof (cases "ec_storage c \<le> ec_end_offs c")
  case True
  then show ?thesis using safe by (simp add: put_last_bits_def safe_def)
next
  case room: False
  let ?e = "ec_end_offs c" and ?n = "ec_storage c" and ?p = "ec_storage c - ec_end_offs c - 1" and ?B = "ec_buf c"
  have len: "length ?B = ?n" "ec_offs c + ?e \<le> ?n" using safe by (simp_all add: safe_def)
  have p: "?p < ?n" "?p < ?n - ?e" using room by simp_all
  show ?thesis
  proof (cases "ec_offs c + ?e \<ge> ?n \<and> - l < u")
    case True
    then show ?thesis using room p l len by (simp add: put_last_bits_def ensure_def Let_def wr_def)
  next
    case ok: False
    define B' where "B' = ?B[?p := ?B ! ?p OR ucast w]"
    have run: "put_last_bits c w u l = Some (c\<lparr>ec_buf := B'\<rparr>)"
      using room ok p len by (auto simp: put_last_bits_def Let_def wr_def B'_def)
    have "be (map unat B') mod 2 ^ (8 * ?e + nat u) = from_end ?B ?e + 256 ^ ?e * unat w \<and> (\<exists>x < 2 ^ nat (- l). front B' (ec_offs c) = be (written c) + x)"
      if w: "unat w < 2 ^ nat u" and d: "2 ^ nat (- l) dvd be (written c)"
    proof -
      have "(2 :: nat) ^ nat u \<le> 2 ^ 7" using u by (intro power_increasing) simp_all
      then have w8: "unat (ucast w :: 8 word) = unat w" using w by (simp add: unsigned_ucast_eq take_bit_nat_eq_self)
      have tail: "tail_byte B' ?e = unat (?B ! ?p) OR unat w" using room p len by (simp add: tail_byte_def B'_def unsigned_or_eq w8)
      have same: "from_end B' ?e = from_end ?B ?e" using p by (simp add: from_end_def B'_def len)
      have "tail_byte B' ?e mod 2 ^ nat u = unat w \<and> (\<exists>x < 2 ^ nat (- l). front B' (ec_offs c) = be (written c) + x)"
      proof (cases "ec_offs c + ?e \<ge> ?n")
        case False
        then have "ec_offs c \<le> ?p" by simp
        moreover from this have "?B ! ?p = 0" using p by (intro free) simp_all
        ultimately have "tail_byte B' ?e = unat w" "take (ec_offs c) B' = take (ec_offs c) ?B" unfolding tail by (simp_all add: B'_def)
        moreover have "front B' (ec_offs c) = be (map unat (take (ec_offs c) B'))" using len by (intro front_take) (simp add: B'_def)
        ultimately show ?thesis using w by (intro conjI exI [of _ 0]) (simp_all add: written_def)
      next
        case True
        then have o: "ec_offs c = Suc ?p" using len(2) room by simp
        have lu: "nat u \<le> nat (- l)" using ok True l by simp
        have wr: "written c = map unat (take ?p ?B) @ [unat (?B ! ?p)]" unfolding written_def o using p len by (simp add: take_Suc_conv_app_nth)
        have "(2 :: nat) ^ nat (- l) dvd 2 ^ 8" using l by (intro le_imp_power_dvd) simp
        then have "2 ^ nat (- l) dvd 256 * be (map unat (take ?p ?B))" by (intro dvd_mult2) simp
        then have b: "2 ^ nat (- l) dvd unat (?B ! ?p)" using d unfolding wr be_snoc by (simp only: dvd_add_right_iff)
        have wl: "unat w < 2 ^ nat (- l)" using w lu by (rule order.strict_trans2 [OF _ power_increasing]) simp
        have t: "tail_byte B' ?e = unat (?B ! ?p) + unat w" unfolding tail by (rule or_low_bits [OF b wl])
        have "2 ^ nat u dvd unat (?B ! ?p)" using lu b by (intro dvd_trans [OF le_imp_power_dvd b]) simp
        then have "(unat (?B ! ?p) + unat w) mod 2 ^ nat u = unat w" using w by (simp add: dvd_imp_mod_0 mod_add_left_eq [symmetric])
        moreover have "front B' (ec_offs c) = be (written c) + unat w"
        proof -
          have "front B' (ec_offs c) = 256 * front B' ?p + byte_at B' ?p" unfolding o by (rule front_Suc)
          also have "byte_at B' ?p = tail_byte B' ?e" using room p len by (simp add: byte_at_def tail_byte_def B'_def)
          also have "front B' ?p = be (map unat (take ?p ?B))" using p len by (subst front_take) (simp_all add: B'_def)
          finally show ?thesis unfolding t wr be_snoc by simp
        qed
        ultimately show ?thesis using wl t by auto
      qed
      then show ?thesis using raw_bits_end [of B' ?e "nat u" "unat w"] u(2) unfolding same by simp
    qed
    then show ?thesis using run len by (auto simp: B'_def)
  qed
qed

lemma put_raw_end_fits:
  assumes safe: "safe c" and l: "- 8 < l" "l \<le> 0" and n: "0 \<le> ec_nend_bits c" "ec_nend_bits c \<le> 32"
  shows "\<exists>c'. put_raw_end c l = Some c' \<and> length (ec_buf c') = ec_storage c \<and>
    (ec_error c' = 0 \<longrightarrow> ec_error c = 0 \<and> (unat (ec_end_window c) < 2 ^ nat (ec_nend_bits c) \<and> 2 ^ nat (- l) dvd be (written c) \<longrightarrow>
      be (map unat (ec_buf c')) mod 2 ^ raw_bits c = raw_value c \<and> (\<exists>x < 2 ^ nat (- l). front (ec_buf c') (ec_offs c) = be (written c) + x)))"
proof -
  obtain c1 w u where F: "(if ec_nend_bits c \<ge> int EC_SYM_BITS then flush_window c (ec_end_window c) (ec_nend_bits c)
      else Some (c, ec_end_window c, ec_nend_bits c)) = Some (c1, w, u)" "back_only c c1" "0 \<le> u" "u < 8"
    "unat (ec_end_window c) < 2 ^ nat (ec_nend_bits c) \<longrightarrow> unat w < 2 ^ nat u"
    "ec_error c1 = 0 \<longrightarrow> 8 * ec_end_offs c1 + nat u = raw_bits c \<and>
       from_end (ec_buf c1) (ec_end_offs c1) + 256 ^ ec_end_offs c1 * unat w = raw_value c"
  proof (cases "ec_nend_bits c \<ge> int EC_SYM_BITS")
    case True
    then have "8 \<le> ec_nend_bits c" by (simp add: EC_SYM_BITS_def)
    from flush_window_back [OF safe this n(2), of "ec_end_window c"] show ?thesis
      using that True unfolding raw_bits_def raw_value_def by fastforce
  next
    case False
    then show ?thesis using that [of c "ec_end_window c" "ec_nend_bits c"] n back_only_refl [OF safe]
      by (simp add: raw_bits_def raw_value_def EC_SYM_BITS_def)
  qed
  let ?o = "ec_offs c1" and ?e = "ec_end_offs c1" and ?n = "ec_storage c1"
  have c1: "?n = ec_storage c" "?o = ec_offs c" "length (ec_buf c1) = ?n" "?o + ?e \<le> ?n" "take ?o (ec_buf c1) = take ?o (ec_buf c)"
    "ec_error c1 = 0 \<Longrightarrow> ec_error c = 0" using F(2) by (auto simp: back_only_def safe_def)
  have wr: "written c1 = written c" unfolding written_def c1(5) unfolding c1(2) by (rule refl)
  show ?thesis
  proof (cases "ec_error c1 = 0")
    case False
    then show ?thesis unfolding put_raw_end_def F(1) using c1 by simp
  next
    case True
    define b where "b = take ?o (ec_buf c1) @ replicate (?n - ?o - ?e) 0 @ drop (?n - ?e) (ec_buf c1)"
    let ?c = "c1\<lparr>ec_buf := b\<rparr>"
    have len: "length b = ?n" using c1(3,4) by (simp add: b_def)
    have "?o + (?n - ?o - ?e) = ?n - ?e" using c1(4) by simp
    then have clear: "OPUS_CLEAR (ec_buf c1) ?o (?n - ?o - ?e) = Some b" using c1(3,4) by (simp add: OPUS_CLEAR_def b_def)
    have run: "put_raw_end c l = (if u > 0 then put_last_bits ?c w u l else Some ?c)"
      unfolding put_raw_end_def F(1) using True clear by (simp add: Let_def)
    have fe: "from_end b ?e = from_end (ec_buf c1) ?e" using c1(3,4) by (simp add: from_end_def len) (simp add: b_def)
    have wb: "written ?c = written c" using c1(3,4) unfolding wr [symmetric] by (simp add: written_def b_def)
    have raw: "8 * ?e + nat u = raw_bits c" "from_end b ?e + 256 ^ ?e * unat w = raw_value c" using F(6) True unfolding fe by blast+
    show ?thesis
    proof (cases "u > 0")
      case False
      then have "u = 0" using F(3) by simp
      have "be (map unat b) mod 2 ^ raw_bits c = raw_value c \<and> (\<exists>x < 2 ^ nat (- l). front b (ec_offs c) = be (written c) + x)"
        if "unat (ec_end_window c) < 2 ^ nat (ec_nend_bits c)"
      proof -
        have "unat w = 0" using F(5) that \<open>u = 0\<close> by simp
        then have "be (map unat b) mod 2 ^ raw_bits c = raw_value c" using raw \<open>u = 0\<close> from_end_mod [of b ?e] unfolding power_256 by simp
        moreover have "front b (ec_offs c) = be (written c)"
          using front_take [of "ec_offs c" b] wb c1(2,4) len by (simp add: written_def)
        ultimately show ?thesis by (intro conjI exI [of _ 0]) simp_all
      qed
      then show ?thesis using run False len c1(1) True c1(6) by auto
    next
      case up: True
      have sf: "safe ?c" using c1(4) len by (simp add: safe_def)
      have free: "ec_buf ?c ! i = 0" if "ec_offs ?c \<le> i" "i < ec_storage ?c - ec_end_offs ?c" for i
      proof -
        have "i - ?o < ?n - ?o - ?e" using that by simp
        then show ?thesis using that(1) c1(3,4) by (simp add: b_def nth_append)
      qed
      have sel: "ec_storage ?c = ?n" "ec_end_offs ?c = ?e" "ec_offs ?c = ?o" "ec_buf ?c = b" by simp_all
      obtain c' where c': "put_last_bits ?c w u l = Some c'" "length (ec_buf c') = ?n"
        "ec_error c' = 0 \<longrightarrow> ec_error ?c = 0 \<and> (unat w < 2 ^ nat u \<and> 2 ^ nat (- l) dvd be (written ?c) \<longrightarrow>
          be (map unat (ec_buf c')) mod 2 ^ (8 * ?e + nat u) = from_end b ?e + 256 ^ ?e * unat w \<and>
          (\<exists>x < 2 ^ nat (- l). front (ec_buf c') ?o = be (written ?c) + x))"
        using put_last_bits_fits [OF sf l up F(4) free, of w] unfolding sel by blast
      have "ec_error c = 0" using True by (rule c1(6))
      moreover have "put_raw_end c l = Some c'" using run up c'(1) by simp
      moreover have "unat (ec_end_window c) < 2 ^ nat (ec_nend_bits c) \<and> 2 ^ nat (- l) dvd be (written c) \<longrightarrow>
          be (map unat (ec_buf c')) mod 2 ^ raw_bits c = raw_value c \<and> (\<exists>x < 2 ^ nat (- l). front (ec_buf c') (ec_offs c) = be (written c) + x)"
        if "ec_error c' = 0"
        using mp [OF c'(3) that] F(5) unfolding raw wb c1(2) by blast
      ultimately show ?thesis using c'(2) c1(1) by auto
    qed
  qed
qed

section \<open>The finished buffer\<close>

lemma flush_last:
  assumes "safe c"
  shows "\<exists>c'. (if ec_rem c \<ge> 0 \<or> ec_ext c > 0 then ec_enc_carry_out c 0 else Some c) = Some c' \<and> front_only c c' \<and>
    (ec_error c' = 0 \<longrightarrow> ec_rem c \<le> 255 \<longrightarrow> written c' = digits c)"
proof (cases "ec_rem c \<ge> 0 \<or> ec_ext c > 0")
  case False
  then have "pending c = []" by (simp add: pending_def word_gt_0)
  then show ?thesis using False front_only_refl [OF assms] by (auto simp: digits_def)
next
  case True
  obtain c' where c': "ec_enc_carry_out c 0 = Some c'" "front_only c c'" using carry_out_safe [OF assms] by blast
  have "written c' = digits c" if "ec_error c' = 0" "ec_rem c \<le> 255"
  proof -
    have "ec_enc_carry_out c (int 0) = Some c'" using c'(1) by simp
    from carry_out_writes(1) [OF assms that(2) _ this that(1)] that(2) show ?thesis by (simp add: digits_def pending_def)
  qed
  then show ?thesis using True c' by auto
qed

lemma front_plus: "\<exists>y < 256 ^ k. front B (n + k) = front B n * 256 ^ k + y"
proof (induction k)
  case (Suc k)
  then obtain y where "y < 256 ^ k" "front B (n + k) = front B n * 256 ^ k + y" by blast
  then have "256 * y + byte_at B (n + k) < 256 ^ Suc k" "front B (n + Suc k) = front B n * 256 ^ Suc k + (256 * y + byte_at B (n + k))"
    using byte_at_less [of B "n + k"] by (simp_all add: front_Suc)
  then show ?case by blast
qed simp

lemma X_front: "\<exists>y < 2 ^ 31. X B (n + 3) = front B n * 2 ^ 31 + y"
proof -
  obtain y where y: "y < 256 ^ 4" "front B (n + 4) = front B n * 256 ^ 4 + y" using front_plus [of 4 B n] by blast
  have s: "Suc (n + 3) = n + 4" by simp
  have "256 ^ 4 = 2 * (2 :: nat) ^ 31" by simp
  then have "X B (n + 3) = (2 * (front B n * 2 ^ 31) + y) div 2" unfolding X_def s y(2) by (simp only: ac_simps)
  also have "\<dots> = front B n * 2 ^ 31 + y div 2" by simp
  finally show ?thesis using y(1) by (intro exI [of _ "y div 2"]) simp
qed

lemma enc_done_fits:
  assumes wf: "enc_wf c"
  obtains c' where "ec_enc_done c = Some c'" "length (ec_buf c') = ec_storage c" "ec_error c' = 0 \<Longrightarrow> ec_error c = 0"
    "ec_error c' = 0 \<Longrightarrow> enc_state c \<Longrightarrow> ec_nbits_total c < 2 ^ 31 \<Longrightarrow> fits_in (ec_buf c') c"
proof -
  have safe: "safe c" and n: "0 \<le> ec_nend_bits c" "ec_nend_bits c \<le> 32" using wf by (simp_all add: enc_wf_def)
  obtain l e k where E: "enc_end c = Some (l, e)" "0 \<le> l" "l \<le> 9"
    "unat (ec_val c) + unat (ec_rng c) < 2 ^ 32 \<Longrightarrow> unat (ec_val c) \<le> unat e \<and>
       unat e + 2 ^ nat (31 - l) \<le> unat (ec_val c) + unat (ec_rng c) \<and> 2 ^ nat (31 - l) dvd unat e \<and> (l \<le> 0 \<longrightarrow> unat e < 2 ^ 31)"
    using enc_end_fits [OF wf] by blast
  obtain c1 l1 where P: "put_end c e l = Some (c1, l1)" "front_only c c1" "l1 \<le> 0" "0 \<le> l \<longrightarrow> - 8 < l1"
    "ec_error c1 = 0 \<longrightarrow> (\<forall>n D. enc_at c n D (unat e) (2 ^ nat (31 - l)) \<and> 2 ^ nat (31 - l) dvd unat e \<and> (l \<le> 0 \<longrightarrow> unat e < 2 ^ 31) \<and> 8 * int n + l < 2 ^ 34 \<longrightarrow>
       (\<exists>D' j. enc_at c1 (n + j) D' 0 (2 ^ nat (31 - l1)) \<and> D' * 2 ^ 31 = 256 ^ j * (D * 2 ^ 31 + unat e) \<and> l = l1 + 8 * int j))"
    using put_end_at [OF safe E(3)] by blast
  have "safe c1" using P(2) by (simp add: front_only_def)
  then obtain c2 where Q: "(if ec_rem c1 \<ge> 0 \<or> ec_ext c1 > 0 then ec_enc_carry_out c1 0 else Some c1) = Some c2" "front_only c1 c2"
    "ec_error c2 = 0 \<longrightarrow> ec_rem c1 \<le> 255 \<longrightarrow> written c2 = digits c1" using flush_last by blast
  have f: "front_only c c2" by (rule front_only_trans [OF P(2) Q(2)])
  then have c2: "safe c2" "ec_storage c2 = ec_storage c" "ec_nend_bits c2 = ec_nend_bits c" "ec_end_window c2 = ec_end_window c"
    "raw_bits c2 = raw_bits c" "ec_error c2 = 0 \<longrightarrow> ec_error c = 0" by (simp_all add: front_only_def raw_bits_def)
  have rv: "raw_value c2 = raw_value c" using f safe c2(1) by (simp add: raw_value_def front_only_def from_end_def safe_def)
  obtain c3 where R: "put_raw_end c2 l1 = Some c3" "length (ec_buf c3) = ec_storage c"
    "ec_error c3 = 0 \<longrightarrow> ec_error c2 = 0 \<and> (unat (ec_end_window c) < 2 ^ nat (ec_nend_bits c) \<and> 2 ^ nat (- l1) dvd be (written c2) \<longrightarrow>
      be (map unat (ec_buf c3)) mod 2 ^ raw_bits c = raw_value c \<and> (\<exists>x < 2 ^ nat (- l1). front (ec_buf c3) (ec_offs c2) = be (written c2) + x))"
    using put_raw_end_fits [OF c2(1) mp [OF P(4) E(2)] P(3)] n unfolding c2(2-5) rv by blast
  show thesis
  proof (rule that)
    show "ec_enc_done c = Some c3" by (simp add: ec_enc_done_def E(1) P(1) Q(1) R(1))
    show "length (ec_buf c3) = ec_storage c" by (rule R(2))
    show "ec_error c = 0" if "ec_error c3 = 0" using that R(3) c2(6) by blast
    assume err: "ec_error c3 = 0" and s: "enc_state c" and nb: "ec_nbits_total c < 2 ^ 31"
    let ?N = "count c" and ?D = "be (digits c)" and ?V = "unat (ec_val c)" and ?R = "unat (ec_rng c)" and ?B = "ec_buf c3" and ?M = "2 ^ nat (31 - l) :: nat"
    have S: "enc_at c ?N ?D ?V ?R" "?V + ?R < 2 ^ 32" "ec_nbits_total c = 33 + 8 * int ?N + int (raw_bits c)"
      "unat (ec_end_window c) < 2 ^ nat (ec_nend_bits c)" using s by (simp_all add: enc_state_def)
    have e: "?V \<le> unat e" "unat e + ?M \<le> ?V + ?R" "?M dvd unat e" "l \<le> 0 \<longrightarrow> unat e < 2 ^ 31" using E(4) [OF S(2)] by blast+
    have err2: "ec_error c2 = 0" using err R(3) by blast
    then have err1: "ec_error c1 = 0" using Q(2) by (simp add: front_only_def)
    have "enc_at c ?N ?D (unat e) ?M" using S(1) e(2) by (auto simp: enc_at_def)
    moreover have "8 * int ?N + l < 2 ^ 34" using S(3) nb E(3) by simp
    ultimately obtain D j where D: "enc_at c1 (?N + j) D 0 (2 ^ nat (31 - l1))" "D * 2 ^ 31 = 256 ^ j * (?D * 2 ^ 31 + unat e)" "l = l1 + 8 * int j"
      using mp [OF P(5) err1] e(3,4) by blast
    have "ec_rem c1 \<le> 255" "be (digits c1) = D" "length (digits c1) = ?N + j" using D(1) by (simp_all add: enc_at_def)
    then have w: "be (written c2) = D" "ec_offs c2 = ?N + j" using Q(3) err2 length_written [OF c2(1)] by simp_all
    have pw: "(2 :: nat) ^ 31 * 2 ^ nat (- l1) = 256 ^ j * ?M"
    proof -
      have "31 + nat (- l1) = 8 * j + nat (31 - l)" using D(3) P(3) E(3) by (simp add: nat_eq_iff2 nat_add_distrib [symmetric] zadd_int_left)
      then show ?thesis unfolding power_256 power_add [symmetric] by simp
    qed
    have "?M dvd 2 ^ 31" using E(2) by (intro le_imp_power_dvd) simp
    then have "256 ^ j * ?M dvd 256 ^ j * (?D * 2 ^ 31 + unat e)" using e(3) by (intro mult_dvd_mono dvd_add dvd_mult) simp_all
    then have "2 ^ 31 * 2 ^ nat (- l1) dvd 2 ^ 31 * D" unfolding pw [symmetric] D(2) [symmetric] by (simp only: mult.commute)
    then have "2 ^ nat (- l1) dvd be (written c2)" unfolding w(1) by simp
    then obtain x where x: "be (map unat ?B) mod 2 ^ raw_bits c = raw_value c" "x < 2 ^ nat (- l1)" "front ?B (?N + j) = D + x"
      using R(3) err S(4) unfolding w by blast
    obtain y where y: "y < 2 ^ 31" "X ?B (?N + j + 3) = front ?B (?N + j) * 2 ^ 31 + y" using X_front by blast
    have X: "X ?B (?N + 3 + j) = D * 2 ^ 31 + x * 2 ^ 31 + y" using y(2) unfolding x(3) by (simp add: ac_simps)
    have "(x + 1) * 2 ^ 31 \<le> 2 ^ nat (- l1) * 2 ^ 31" using x(2) by (intro mult_le_mono1) simp
    then have "x * 2 ^ 31 + y < 256 ^ j * ?M" using y(1) unfolding pw [symmetric] by (simp add: ac_simps)
    then have "X ?B (?N + 3 + j) < 256 ^ j * (?D * 2 ^ 31 + unat e + ?M)" unfolding X D(2) distrib_left by linarith
    also have "\<dots> \<le> 256 ^ j * (low c + ?R)" using e(2) unfolding low_def by (intro mult_le_mono2) linarith
    finally have up: "X ?B (?N + 3 + j) < 256 ^ j * (low c + ?R)" .
    have "256 ^ j * low c \<le> 256 ^ j * (?D * 2 ^ 31 + unat e)" using e(1) unfolding low_def by (intro mult_le_mono2) linarith
    then have "256 ^ j * low c \<le> X ?B (?N + 3 + j)" unfolding X D(2) by linarith
    from X_between [OF this up] show "fits_in ?B c" using x(1) by (simp add: fits_in_def)
  qed
qed

section \<open>No error where the bits fit\<close>

lemma put_last_bits_room:
  assumes "safe c" and "ec_error c = 0" and "- 8 < l" "l \<le> 0" and "0 < u" and "ec_offs c = 0 \<longrightarrow> l = 0"
    and "8 * int (ec_offs c) + 8 * int (ec_end_offs c) + u + l \<le> 8 * int (ec_storage c)" and "put_last_bits c w u l = Some c'"
  shows "ec_error c' = 0"
proof -
  have "\<not> ec_storage c \<le> ec_end_offs c"
  proof
    assume "ec_storage c \<le> ec_end_offs c"
    then have "8 * int (ec_offs c) + u + l \<le> 0" using assms(7) by linarith
    moreover from this have "ec_offs c = 0" using assms(3,5) by linarith
    ultimately show False using assms(5,6) by simp
  qed
  moreover have "\<not> (ec_offs c + ec_end_offs c \<ge> ec_storage c \<and> - l < u)"
  proof
    assume "ec_offs c + ec_end_offs c \<ge> ec_storage c \<and> - l < u"
    then show False using assms(7) by linarith
  qed
  ultimately show ?thesis using assms(1,2,8) by (auto simp: put_last_bits_def safe_def Let_def wr_def split: Option.bind_splits if_splits)
qed

lemma put_raw_end_room:
  assumes safe: "safe c" and err: "ec_error c = 0" and l: "- 8 < l" "l \<le> 0" and n: "0 \<le> ec_nend_bits c" "ec_nend_bits c \<le> 32"
    and none: "ec_offs c = 0 \<longrightarrow> l = 0"
    and room: "8 * int (ec_offs c) + 8 * int (ec_end_offs c) + ec_nend_bits c + l \<le> 8 * int (ec_storage c)" and out: "put_raw_end c l = Some c'"
  shows "ec_error c' = 0"
proof -
  obtain c1 w u where F: "(if ec_nend_bits c \<ge> int EC_SYM_BITS then flush_window c (ec_end_window c) (ec_nend_bits c)
      else Some (c, ec_end_window c, ec_nend_bits c)) = Some (c1, w, u)" "safe c1" "ec_error c1 = 0" "ec_offs c1 = ec_offs c"
    "ec_storage c1 = ec_storage c" "8 * int (ec_end_offs c1) + u = 8 * int (ec_end_offs c) + ec_nend_bits c"
  proof (cases "ec_nend_bits c \<ge> int EC_SYM_BITS")
    case True
    then have n8: "8 \<le> ec_nend_bits c" by (simp add: EC_SYM_BITS_def)
    from flush_window_back [OF safe n8 n(2), of "ec_end_window c"] obtain c1 w u where W:
      "flush_window c (ec_end_window c) (ec_nend_bits c) = Some (c1, w, u)" "back_only c c1" "0 \<le> u"
      "ec_error c1 = 0 \<longrightarrow> 8 * ec_end_offs c1 + nat u = 8 * ec_end_offs c + nat (ec_nend_bits c)" by blast
    have "8 * (nat (ec_nend_bits c) div 8) \<le> nat (ec_nend_bits c)" by simp
    then have "ec_offs c + ec_end_offs c + nat (ec_nend_bits c) div 8 \<le> ec_storage c" using room l n by linarith
    from flush_window_room [OF safe n8 this W(1)] have e: "ec_error c1 = 0" using err by simp
    then have "8 * int (ec_end_offs c1) + u = 8 * int (ec_end_offs c) + ec_nend_bits c" using W(3,4) n(1) by linarith
    then show ?thesis using that True W(1,2) e by (simp add: back_only_def)
  next
    case False
    then show ?thesis using that safe err by simp
  qed
  obtain b where b: "OPUS_CLEAR (ec_buf c1) (ec_offs c1) (ec_storage c1 - ec_offs c1 - ec_end_offs c1) = Some b"
    and put: "(if u > 0 then put_last_bits (c1\<lparr>ec_buf := b\<rparr>) w u l else Some (c1\<lparr>ec_buf := b\<rparr>)) = Some c'"
    using out unfolding put_raw_end_def F(1) by (auto simp: F(3) Let_def split: Option.bind_splits)
  show ?thesis
  proof (cases "u > 0")
    case True
    have "length b = length (ec_buf c1)" using b by (auto simp: OPUS_CLEAR_def split: if_splits)
    then have "safe (c1\<lparr>ec_buf := b\<rparr>)" using F(2) by (simp add: safe_def)
    then show ?thesis using put_last_bits_room [of "c1\<lparr>ec_buf := b\<rparr>" l u w c'] put True F(3-6) l none room by simp
  next
    case False
    then show ?thesis using put F(3) by auto
  qed
qed

lemma enc_done_room:
  assumes s: "enc_state c" and tell: "ec_tell c = Some t" "t \<le> 8 * int (ec_storage c)" and nb: "ec_nbits_total c < 2 ^ 31" and out: "ec_enc_done c = Some c'"
  shows "ec_error c' = 0"
proof -
  have S: "enc_wf c" "enc_at c (count c) (be (digits c)) (unat (ec_val c)) (unat (ec_rng c))" "unat (ec_val c) + unat (ec_rng c) < 2 ^ 32"
    "ec_nbits_total c = 33 + 8 * int (count c) + int (raw_bits c)" using s by (simp_all add: enc_state_def)
  have wf: "safe c" "0 \<le> ec_nend_bits c" "ec_nend_bits c \<le> 32" using S(1) by (simp_all add: enc_wf_def)
  let ?N = "count c" and ?D = "be (digits c)"
  obtain l e k where E: "enc_end c = Some (l, e)" "0 \<le> l" "l \<le> 9" "EC_ILOG (ec_rng c) = Some k" "l \<le> 33 - int k"
    "unat (ec_val c) + unat (ec_rng c) < 2 ^ 32 \<Longrightarrow> unat (ec_val c) \<le> unat e \<and>
       unat e + 2 ^ nat (31 - l) \<le> unat (ec_val c) + unat (ec_rng c) \<and> 2 ^ nat (31 - l) dvd unat e \<and> (l \<le> 0 \<longrightarrow> unat e < 2 ^ 31)"
    using enc_end_fits [OF S(1)] by blast
  obtain c1 l1 c2 where P: "put_end c e l = Some (c1, l1)"
    and Q: "(if ec_rem c1 \<ge> 0 \<or> ec_ext c1 > 0 then ec_enc_carry_out c1 0 else Some c1) = Some c2" and R: "put_raw_end c2 l1 = Some c'"
    using out E(1) by (auto simp: ec_enc_done_def split: Option.bind_splits)
  have rb: "int (raw_bits c) = 8 * int (ec_end_offs c) + ec_nend_bits c" using wf(2) by (simp add: raw_bits_def)
  have "t = ec_nbits_total c - int k" using tell(1) E(4) by (simp add: ec_tell_def)
  then have room: "8 * int ?N + l + 8 * int (ec_end_offs c) + ec_nend_bits c \<le> 8 * int (ec_storage c)" using tell(2) E(5) S(4) rb by linarith
  note e = E(6) [OF S(3)]
  have at: "enc_at c ?N ?D (unat e) (2 ^ nat (31 - l))" using S(2) e by (auto simp: enc_at_def)
  have n: "8 * int ?N + l < 2 ^ 34" using S(4) nb E(3) by simp
  have d: "2 ^ nat (31 - l) dvd unat e" "l \<le> 0 \<longrightarrow> unat e < 2 ^ 31" using e by blast+
  have "8 * int ?N + l + 8 * int (ec_end_offs c) \<le> 8 * int (ec_storage c)" using room wf(2) by linarith
  then have e1: "ec_error c1 = 0" by (rule put_end_room [OF at d(1) E(3) n _ P])
  obtain c1' l1' where P': "put_end c e l = Some (c1', l1')" "front_only c c1'" "l1' \<le> 0" "0 \<le> l \<longrightarrow> - 8 < l1'"
    "ec_error c1' = 0 \<longrightarrow> (\<forall>n D. enc_at c n D (unat e) (2 ^ nat (31 - l)) \<and> 2 ^ nat (31 - l) dvd unat e \<and> (l \<le> 0 \<longrightarrow> unat e < 2 ^ 31) \<and> 8 * int n + l < 2 ^ 34 \<longrightarrow>
       (\<exists>D' j. enc_at c1' (n + j) D' 0 (2 ^ nat (31 - l1')) \<and> D' * 2 ^ 31 = 256 ^ j * (D * 2 ^ 31 + unat e) \<and> l = l1' + 8 * int j))"
    using put_end_at [OF wf(1) E(3)] by blast
  have same: "c1' = c1" "l1' = l1" using P P'(1) by simp_all
  obtain D j where D: "enc_at c1 (?N + j) D 0 (2 ^ nat (31 - l1))" "l = l1 + 8 * int j"
    using mp [OF P'(5)] e1 at d n unfolding same by blast
  have f1: "front_only c c1" and l1: "- 8 < l1" "l1 \<le> 0" using P'(2-4) E(2) unfolding same by simp_all
  have dig: "length (digits c1) = ?N + j" "ec_rem c1 \<le> 255" "safe c1" using D(1) by (simp_all add: enc_at_def)
  have tail: "ec_end_offs c1 = ec_end_offs c" "ec_storage c1 = ec_storage c" "ec_nend_bits c1 = ec_nend_bits c" using f1 by (simp_all add: front_only_def)
  have used: "8 * int (?N + j) + l1 + 8 * int (ec_end_offs c) + ec_nend_bits c \<le> 8 * int (ec_storage c)" using room D(2) by simp
  then have "length (digits c1) + ec_end_offs c1 \<le> ec_storage c1" using l1 wf(2) unfolding dig(1) tail by presburger
  then have e2: "ec_error c2 = 0" using Q e1 carry_out_room [OF dig(3), of 0 c2] by (auto split: if_splits)
  obtain c2' where Q': "(if ec_rem c1 \<ge> 0 \<or> ec_ext c1 > 0 then ec_enc_carry_out c1 0 else Some c1) = Some c2'" "front_only c1 c2'"
    "ec_error c2' = 0 \<longrightarrow> ec_rem c1 \<le> 255 \<longrightarrow> written c2' = digits c1" using flush_last [OF dig(3)] by blast
  have c2': "c2' = c2" using Q Q'(1) by simp
  have w: "written c2 = digits c1" "safe c2" "ec_end_offs c2 = ec_end_offs c" "ec_storage c2 = ec_storage c" "ec_nend_bits c2 = ec_nend_bits c"
    using Q'(2,3) e2 dig(2) tail unfolding c2' by (simp_all add: front_only_def)
  have o: "ec_offs c2 = ?N + j" using length_written [OF w(2)] w(1) dig(1) by simp
  have "ec_offs c2 = 0 \<longrightarrow> l1 = 0" using o D(2) E(2) l1(2) by simp
  then show ?thesis using put_raw_end_room [OF w(2) e2 l1 _ _ _ _ R] wf(2,3) used unfolding w(3-5) o by simp
qed

end
