(* ===== verification/OpusRangeProps.thy ===== *)
theory OpusRangeProps
  imports OpusRangeDone
begin

text \<open>
  The range coder as a whole. A coder of symbols is a locale whose law is \<open>codes\<close>; whatever satisfies it
  can be put into a stream, finished by \<open>ec_enc_done\<close> and taken out again. The symbols of the range coder
  are its interpretation.
\<close>

section \<open>Streams of symbols\<close>

primrec enc_all :: "('k \<Rightarrow> 'v \<Rightarrow> ec_ctx \<Rightarrow> ec_ctx option) \<Rightarrow> ('k \<times> 'v) list \<Rightarrow> ec_ctx \<Rightarrow> ec_ctx option" where
  "enc_all put [] c = Some c"
| "enc_all put (x # xs) c = do { c \<leftarrow> put (fst x) (snd x) c; enc_all put xs c }"

primrec dec_all :: "('k \<Rightarrow> ec_ctx \<Rightarrow> ('v \<times> ec_ctx) option) \<Rightarrow> 'k list \<Rightarrow> ec_ctx \<Rightarrow> ('v list \<times> ec_ctx) option" where
  "dec_all get [] d = Some ([], d)"
| "dec_all get (k # ks) d = do { (v, d) \<leftarrow> get k d; (vs, d) \<leftarrow> dec_all get ks d; Some (v # vs, d) }"

lemma enc_all_append: "enc_all put (xs @ ys) c = do { c \<leftarrow> enc_all put xs c; enc_all put ys c }"
  by (induction xs arbitrary: c) simp_all

lemma init_state: "length b = n \<Longrightarrow> enc_state (ec_enc_init z b n)"
  by (simp add: enc_state_def enc_wf_def enc_at_def safe_def count_def digits_def written_def pending_def raw_bits_def
      ec_enc_init_def EC_CODE_TOP_def EC_CODE_BITS_def)

lemma init_in_step:
  assumes "length B = n" and "length b = n"
  obtains d where "ec_dec_init z' B n = Some d" "in_step B (ec_enc_init z b n) d"
proof -
  let ?c = "ec_enc_init z b n"
  obtain d where d: "ec_dec_init z' B n = Some d" "dec_at B d 3 0 (2 ^ 31)" "ec_nbits_total d = 33" "ec_end_offs d = 0" "ec_end_window d = 0"
    "ec_nend_bits d = 0" "ec_error d = 0" using dec_init [OF assms(1), of z'] by blast
  have c: "count ?c = 0" "low ?c = 0" "unat (ec_rng ?c) = 2 ^ 31" "raw_bits ?c = 0" "raw_value ?c = 0" "ec_nbits_total ?c = 33"
    by (simp_all add: count_def low_def digits_def written_def pending_def raw_bits_def raw_value_def from_end_def
        ec_enc_init_def EC_CODE_TOP_def EC_CODE_BITS_def)
  obtain y where "y < 2 ^ 31" "X B (0 + 3) = front B 0 * 2 ^ 31 + y" using X_front by blast
  then have "fits_in B ?c" by (simp add: fits_in_def c)
  moreover have "raw_at B d 0" by (auto simp: raw_at_def d intro!: exI [of _ 0])
  ultimately have "in_step B ?c d" using d(2,3,7) init_state [OF assms(2)] unfolding in_step_def c by simp
  then show thesis by (rule that [OF d(1)])
qed

lemma in_step_tell:
  assumes "in_step B c d"
  shows "ec_tell d = ec_tell c" and "ec_tell_frac d = ec_tell_frac c" and "ec_error d = 0" and "ec_rng d = ec_rng c"
proof -
  have "ec_nbits_total d = ec_nbits_total c" "unat (ec_rng d) = unat (ec_rng c)" using assms by (simp_all add: in_step_def dec_at_def)
  moreover from this(2) show "ec_rng d = ec_rng c" by (simp add: word_unat_eq_iff)
  ultimately show "ec_tell d = ec_tell c" "ec_tell_frac d = ec_tell_frac c" by (simp_all add: ec_tell_def ec_tell_frac_def)
  show "ec_error d = 0" using assms by (simp add: in_step_def)
qed

lemma enc_wf_ilog:
  assumes "enc_wf c"
  shows "EC_ILOG (ec_rng c) = Some (ec_ilog (ec_rng c))" and "23 < ec_ilog (ec_rng c)" and "ec_ilog (ec_rng c) \<le> 32"
proof -
  let ?k = "ec_ilog (ec_rng c)"
  have R: "2 ^ 23 < unat (ec_rng c)" "unat (ec_rng c) \<le> 2 ^ 31" using assms by (simp_all add: enc_wf_def)
  then have "ec_rng c \<noteq> 0" by auto
  then show "EC_ILOG (ec_rng c) = Some ?k" by (simp add: EC_ILOG_def ensure_def)
  have b: "bits_in (unat (ec_rng c)) ?k" by (rule ec_ilog_bits) fact
  then have "(2 :: nat) ^ (?k - 1) \<le> 2 ^ 31" using R(2) unfolding bits_in_def by linarith
  then have "?k - 1 \<le> 31" by (rule power_le_imp_le_exp [rotated]) simp
  then show "?k \<le> 32" by simp
  have "(2 :: nat) ^ 23 < 2 ^ ?k" using b R(1) unfolding bits_in_def by linarith
  then show "23 < ?k" by (rule power_less_imp_less_exp [rotated]) simp
qed

locale symbol_coder =
  fixes put :: "'k \<Rightarrow> 'v \<Rightarrow> ec_ctx \<Rightarrow> ec_ctx option" and get :: "'k \<Rightarrow> ec_ctx \<Rightarrow> ('v \<times> ec_ctx) option"
    and ok :: "'k \<Rightarrow> 'v \<Rightarrow> bool" and cost :: nat
  assumes inverse: "ok k v \<Longrightarrow> codes (put k v) (get k) v cost"
begin

lemma stream_codes:
  "\<forall>(k, v) \<in> set xs. ok k v \<Longrightarrow> codes (enc_all put xs) (dec_all get (map fst xs)) (map snd xs) (cost * length xs)"
proof (induction xs)
  case Nil
  have "enc_all put [] = Some" "dec_all get [] = (\<lambda>d. Some ([], d))" by (rule ext, simp)+
  then show ?case by (simp add: codes_None)
next
  case (Cons x xs)
  obtain k v where x: "x = (k, v)" by (rule prod.exhaust)
  have "codes (enc_all put xs) (dec_all get (map fst xs)) (map snd xs) (cost * length xs)" using Cons by simp
  then have "codes (enc_all put xs) (\<lambda>d. do { (vs, d) \<leftarrow> dec_all get (map fst xs) d; Some (v # vs, d) }) (v # map snd xs) (cost * length xs)"
    by (rule codes_map)
  from codes_bind [where ?D2.0 = "\<lambda>v d. do { (vs, d) \<leftarrow> dec_all get (map fst xs) d; Some (v # vs, d) }", OF inverse [of k v] this] Cons.prems
  have "codes (\<lambda>c. do { c \<leftarrow> put k v c; enc_all put xs c })
    (\<lambda>d. do { (v, d) \<leftarrow> get k d; (vs, d) \<leftarrow> dec_all get (map fst xs) d; Some (v # vs, d) }) (v # map snd xs) (cost + cost * length xs)"
    by (simp add: x)
  moreover have "enc_all put (x # xs) = (\<lambda>c. do { c \<leftarrow> put k v c; enc_all put xs c })" by (rule ext) (simp add: x)
  moreover have "dec_all get (map fst (x # xs)) = (\<lambda>d. do { (v, d) \<leftarrow> get k d; (vs, d) \<leftarrow> dec_all get (map fst xs) d; Some (v # vs, d) })"
    by (rule ext) (simp add: x)
  ultimately show ?case by (simp add: x)
qed

lemma finished_stream:
  assumes ok: "\<forall>(k, v) \<in> set xs. ok k v" and b: "length b = n" and cost: "33 + cost * length xs < 2 ^ 31"
  shows "\<exists>c c'. enc_all put xs (ec_enc_init z b n) = Some c \<and> ec_enc_done c = Some c' \<and> length (ec_buf c') = n \<and>
    (\<exists>t. ec_tell c = Some t \<and> 1 \<le> t \<and> t \<le> 9 + int cost * int (length xs) \<and> (t \<le> 8 * int n \<longrightarrow> ec_error c' = 0)) \<and>
    (ec_error c' = 0 \<longrightarrow> (\<exists>d. ec_dec_init z' (ec_buf c') n = Some d \<and>
      (\<forall>i \<le> length xs. \<exists>ci di. enc_all put (take i xs) (ec_enc_init z b n) = Some ci \<and>
        dec_all get (map fst (take i xs)) d = Some (map snd (take i xs), di) \<and> ec_tell di = ec_tell ci \<and>
        ec_tell_frac di = ec_tell_frac ci \<and> ec_rng di = ec_rng ci \<and> ec_error di = 0)))"
proof -
  let ?c0 = "ec_enc_init z b n"
  have s0: "enc_state ?c0" by (rule init_state [OF b])
  have wf0: "enc_wf ?c0" "ec_storage ?c0 = n" "ec_nbits_total ?c0 = 33"
    using enc_state_ok [OF s0] by (simp_all add: ec_enc_init_def EC_CODE_BITS_def)
  have nb: "ec_nbits_total ?c0 + int (cost * length xs) < 2 ^ 31"
  proof -
    have "int (33 + cost * length xs) < int (2 ^ 31)" using cost by (simp only: of_nat_less_iff)
    then show ?thesis unfolding wf0(3) by simp
  qed
  obtain c where c: "enc_all put xs ?c0 = Some c" "enc_wf c" "ec_storage c = ec_storage ?c0" "ec_nbits_total ?c0 \<le> ec_nbits_total c"
    "ec_nbits_total c \<le> ec_nbits_total ?c0 + int (cost * length xs)" "leads (dec_all get (map fst xs)) (map snd xs) ?c0 c"
    "enc_state ?c0 \<Longrightarrow> ec_nbits_total c \<le> 8 * int (ec_storage ?c0) + 32 \<Longrightarrow> ec_error c = 0"
    using codesE [OF stream_codes [OF ok] wf0(1) nb] by blast
  have nbc: "ec_nbits_total c < 2 ^ 31" using c(5) nb by linarith
  obtain c' where c': "ec_enc_done c = Some c'" "length (ec_buf c') = ec_storage c" "ec_error c' = 0 \<Longrightarrow> ec_error c = 0"
    "ec_error c' = 0 \<Longrightarrow> enc_state c \<Longrightarrow> ec_nbits_total c < 2 ^ 31 \<Longrightarrow> fits_in (ec_buf c') c"
    using enc_done_fits [OF c(2)] by blast
  have sc: "enc_state c" if "ec_error c = 0" using c(6) that s0 by (simp add: leads_def)
  have len: "length (ec_buf c') = n" using c'(2) c(3) wf0(2) by simp
  define k where "k = ec_ilog (ec_rng c)"
  have k: "23 < k" "k \<le> 32" and tell: "ec_tell c = Some (ec_nbits_total c - int k)"
    using enc_wf_ilog [OF c(2)] by (simp_all add: k_def ec_tell_def)
  have "ec_error c' = 0" if t: "ec_nbits_total c - int k \<le> 8 * int n"
  proof -
    have "ec_nbits_total c \<le> 8 * int (ec_storage ?c0) + 32" using t k(2) wf0(2) by simp
    then have "ec_error c = 0" by (rule c(7) [OF s0])
    then show ?thesis using enc_done_room [OF sc tell _ nbc c'(1)] t c(3) wf0(2) by simp
  qed
  then have "\<exists>t. ec_tell c = Some t \<and> 1 \<le> t \<and> t \<le> 9 + int cost * int (length xs) \<and> (t \<le> 8 * int n \<longrightarrow> ec_error c' = 0)"
    using tell k c(4,5) unfolding wf0(3) by (intro exI [of _ "ec_nbits_total c - int k"]) simp
  moreover have "\<exists>d. ec_dec_init z' (ec_buf c') n = Some d \<and>
      (\<forall>i \<le> length xs. \<exists>ci di. enc_all put (take i xs) ?c0 = Some ci \<and>
        dec_all get (map fst (take i xs)) d = Some (map snd (take i xs), di) \<and> ec_tell di = ec_tell ci \<and>
        ec_tell_frac di = ec_tell_frac ci \<and> ec_rng di = ec_rng ci \<and> ec_error di = 0)"
    if e: "ec_error c' = 0"
  proof -
    let ?B = "ec_buf c'"
    obtain d where d: "ec_dec_init z' ?B n = Some d" "in_step ?B ?c0 d" using init_in_step [OF len b] by blast
    have f: "fits_in ?B c" using c'(3,4) e sc nbc by blast
    have "\<exists>ci di. enc_all put (take i xs) ?c0 = Some ci \<and> dec_all get (map fst (take i xs)) d = Some (map snd (take i xs), di) \<and>
        ec_tell di = ec_tell ci \<and> ec_tell_frac di = ec_tell_frac ci \<and> ec_rng di = ec_rng ci \<and> ec_error di = 0" if i: "i \<le> length xs" for i
    proof -
      have "\<forall>(k, v) \<in> set (take i xs). ok k v" "\<forall>(k, v) \<in> set (drop i xs). ok k v"
        using ok by (auto dest: in_set_takeD in_set_dropD)
      note codes = this [THEN stream_codes]
      have sum: "cost * length (take i xs) + cost * length (drop i xs) = cost * length xs" using i by (simp flip: add_mult_distrib2)
      have "ec_nbits_total ?c0 + int (cost * length (take i xs)) < 2 ^ 31" using nb sum by linarith
      from codesE [OF codes(1) wf0(1) this] obtain ci where ci: "enc_all put (take i xs) ?c0 = Some ci" "enc_wf ci" "ec_storage ci = ec_storage ?c0"
        "ec_nbits_total ci \<le> ec_nbits_total ?c0 + int (cost * length (take i xs))"
        "leads (dec_all get (map fst (take i xs))) (map snd (take i xs)) ?c0 ci" by blast
      have "ec_nbits_total ci + int (cost * length (drop i xs)) < 2 ^ 31" using ci(4) nb sum by linarith
      from codesE [OF codes(2) ci(2) this] obtain ce where ce: "enc_all put (drop i xs) ci = Some ce"
        "leads (dec_all get (map fst (drop i xs))) (map snd (drop i xs)) ci ce" by blast
      have "ce = c" using c(1) ci(1) ce(1) enc_all_append [of put "take i xs" "drop i xs" ?c0] by simp
      then have l: "leads (dec_all get (map fst (drop i xs))) (map snd (drop i xs)) ci c" using ce(2) by simp
      have ei: "ec_error ci = 0" using l c'(3) [OF e] by (simp add: leads_def)
      have si: "enc_state ci" using ci(5) ei s0 by (simp add: leads_def)
      have fi: "fits_in ?B ci" using l c'(3) [OF e] si f len ci(3) wf0(2) by (simp add: leads_def)
      have B: "length ?B = ec_storage ?c0 \<and> fits_in ?B ci" using fi len wf0(2) by simp
      obtain di where "dec_all get (map fst (take i xs)) d = Some (map snd (take i xs), di)" "in_step ?B ci di"
        using ci(5) ei s0 B d(2) unfolding leads_def by blast
      then show ?thesis using ci(1) in_step_tell [of ?B ci di] by auto
    qed
    then show ?thesis using d(1) by blast
  qed
  ultimately show ?thesis using c(1) c'(1) len by blast
qed

end

section \<open>The symbols of the range coder\<close>

text \<open>
  What encoder and decoder know of a symbol: a table of cumulative frequencies (the last one the total),
  such a table for a power of two, the probability of a bit, an inverse table, the number of raw bits, the
  number of values. The client of \<open>ec_decode\<close> searches the table.
\<close>

datatype ec_kind = Cumulative "32 word list" | Cumulative_bin "32 word list" nat | Logp nat | Icdf mem nat | Raw nat | Uniform "32 word"

definition range_of :: "32 word list \<Rightarrow> 32 word \<Rightarrow> nat \<times> 32 word \<times> 32 word" where
  "range_of cum s = (let v = length (takeWhile (\<lambda>e. e \<le> s) (tl cum)) in (v, cum ! v, cum ! (v + 1)))"

definition get_map :: "('a \<Rightarrow> nat) \<Rightarrow> ('a \<times> ec_ctx) option \<Rightarrow> (nat \<times> ec_ctx) option" where
  "get_map f r = do { (x, d) \<leftarrow> r; Some (f x, d) }"

fun enc_sym :: "ec_kind \<Rightarrow> nat \<Rightarrow> ec_ctx \<Rightarrow> ec_ctx option" where
  "enc_sym (Cumulative cum) v c = ec_encode c (cum ! v) (cum ! (v + 1)) (last cum)"
| "enc_sym (Cumulative_bin cum bits) v c = ec_encode_bin c (cum ! v) (cum ! (v + 1)) bits"
| "enc_sym (Logp logp) v c = ec_enc_bit_logp c (v = 1) logp"
| "enc_sym (Icdf icdf ftb) v c = ec_enc_icdf c v icdf ftb"
| "enc_sym (Raw bits) v c = ec_enc_bits c (word_of_nat v) bits"
| "enc_sym (Uniform ft) v c = ec_enc_uint c (word_of_nat v) ft"

fun dec_sym :: "ec_kind \<Rightarrow> ec_ctx \<Rightarrow> (nat \<times> ec_ctx) option" where
  "dec_sym (Cumulative cum) d = decode_symbol (range_of cum) (last cum) d"
| "dec_sym (Cumulative_bin cum bits) d = decode_symbol_bin (range_of cum) bits d"
| "dec_sym (Logp logp) d = get_map (\<lambda>b. if b then 1 else 0) (ec_dec_bit_logp d logp)"
| "dec_sym (Icdf icdf ftb) d = ec_dec_icdf d icdf ftb"
| "dec_sym (Raw bits) d = get_map unat (ec_dec_bits d bits)"
| "dec_sym (Uniform ft) d = get_map unat (ec_dec_uint d ft)"

fun codable :: "ec_kind \<Rightarrow> nat \<Rightarrow> bool" where
  "codable (Cumulative cum) v = (sorted_wrt (<) cum \<and> v + 1 < length cum \<and> unat (last cum) \<le> 2 ^ 23)"
| "codable (Cumulative_bin cum bits) v = (sorted_wrt (<) cum \<and> v + 1 < length cum \<and> unat (last cum) \<le> 2 ^ bits \<and> bits \<le> 23)"
| "codable (Logp logp) v = (v \<le> 1 \<and> 0 < logp \<and> logp \<le> 23)"
| "codable (Icdf icdf ftb) v = icdf_symbol icdf ftb v"
| "codable (Raw bits) v = (v < 2 ^ bits \<and> 0 < bits \<and> bits \<le> 25)"
| "codable (Uniform ft) v = (v < unat ft \<and> 1 < unat ft)"

lemma range_of_symbol:
  assumes "sorted_wrt (<) cum" and "v + 1 < length cum" and "cum ! v \<le> s" and "s < cum ! (v + 1)"
  shows "range_of cum s = (v, cum ! v, cum ! (v + 1))"
proof -
  have "takeWhile (\<lambda>e. e \<le> s) (tl cum) = take v (tl cum)"
  proof (rule takeWhile_eq_take_P_nth)
    show "tl cum ! i \<le> s" if "i < v" "i < length (tl cum)" for i
    proof -
      have "cum ! Suc i \<le> cum ! v" using that assms(1,2) by (cases "Suc i = v") (auto simp: sorted_wrt_iff_nth_less less_imp_le)
      then show ?thesis using that assms(3) by (simp add: nth_tl)
    qed
    show "\<not> tl cum ! v \<le> s" if "v < length (tl cum)" using that assms(4) by (simp add: nth_tl)
  qed
  then show ?thesis using assms(2) by (simp add: range_of_def)
qed

lemma table_range:
  fixes cum :: "32 word list"
  assumes "sorted_wrt (<) cum" and "v + 1 < length cum"
  shows "cum ! v < cum ! (v + 1)" and "cum ! (v + 1) \<le> last cum"
proof -
  show "cum ! v < cum ! (v + 1)" using assms by (simp add: sorted_wrt_iff_nth_less)
  have "cum \<noteq> []" using assms(2) by auto
  then have "last cum = cum ! (length cum - 1)" by (rule last_conv_nth)
  then show "cum ! (v + 1) \<le> last cum"
    using assms by (cases "v + 1 = length cum - 1") (auto simp: sorted_wrt_iff_nth_less less_imp_le)
qed

lemma codes_get_map: "codes E Dc v k \<Longrightarrow> codes E (\<lambda>d. get_map f (Dc d)) (f v) k"
  unfolding get_map_def by (rule codes_map)

lemma enc_sym_codes:
  assumes "codable k v"
  shows "codes (enc_sym k v) (dec_sym k) v 48"
proof (cases k)
  case (Cumulative cum)
  then have c: "sorted_wrt (<) cum" "v + 1 < length cum" "unat (last cum) \<le> 2 ^ 23" using assms by simp_all
  have "codes (\<lambda>c. ec_encode c (cum ! v) (cum ! (v + 1)) (last cum)) (decode_symbol (range_of cum) (last cum)) v 24"
    using table_range [OF c(1,2)] c(3) by (rule encode_codes) (rule range_of_symbol [OF c(1,2)])
  moreover have "enc_sym k v = (\<lambda>c. ec_encode c (cum ! v) (cum ! (v + 1)) (last cum))" "dec_sym k = decode_symbol (range_of cum) (last cum)"
    by (rule ext, simp add: Cumulative)+
  ultimately show ?thesis by (auto intro: codes_weaken)
next
  case (Cumulative_bin cum bits)
  then have c: "sorted_wrt (<) cum" "v + 1 < length cum" "unat (last cum) \<le> 2 ^ bits" "bits \<le> 23" using assms by simp_all
  have "unat (cum ! (v + 1)) \<le> 2 ^ bits" using table_range(2) [OF c(1,2)] c(3) by (simp add: word_le_nat_alt)
  then have "codes (\<lambda>c. ec_encode_bin c (cum ! v) (cum ! (v + 1)) bits) (decode_symbol_bin (range_of cum) bits) v 24"
    by (rule encode_bin_codes [OF table_range(1) [OF c(1,2)] _ c(4)]) (rule range_of_symbol [OF c(1,2)])
  moreover have "enc_sym k v = (\<lambda>c. ec_encode_bin c (cum ! v) (cum ! (v + 1)) bits)" "dec_sym k = decode_symbol_bin (range_of cum) bits"
    by (rule ext, simp add: Cumulative_bin)+
  ultimately show ?thesis by (auto intro: codes_weaken)
next
  case (Logp logp)
  then have l: "v \<le> 1" "0 < logp" "logp \<le> 23" using assms by simp_all
  have "codes (\<lambda>c. ec_enc_bit_logp c (v = 1) logp) (\<lambda>d. get_map (\<lambda>b. if b then 1 else 0) (ec_dec_bit_logp d logp)) (if v = 1 then 1 else 0) 24"
    by (rule codes_get_map) (rule bit_logp_codes [OF l(2,3)])
  moreover have "(if v = 1 then 1 else 0) = v" using l(1) by auto
  moreover have "enc_sym k v = (\<lambda>c. ec_enc_bit_logp c (v = 1) logp)" "dec_sym k = (\<lambda>d. get_map (\<lambda>b. if b then 1 else 0) (ec_dec_bit_logp d logp))"
    by (rule ext, simp add: Logp)+
  ultimately show ?thesis by (auto intro: codes_weaken)
next
  case (Icdf icdf ftb)
  have "codes (\<lambda>c. ec_enc_icdf c v icdf ftb) (\<lambda>d. ec_dec_icdf d icdf ftb) v 24"
    by (rule icdf_codes) (use assms Icdf in simp)
  moreover have "enc_sym k v = (\<lambda>c. ec_enc_icdf c v icdf ftb)" "dec_sym k = (\<lambda>d. ec_dec_icdf d icdf ftb)" by (rule ext, simp add: Icdf)+
  ultimately show ?thesis by (auto intro: codes_weaken)
next
  case (Raw bits)
  then have b: "v < 2 ^ bits" "0 < bits" "bits \<le> 25" using assms by simp_all
  have "(2 :: nat) ^ bits \<le> 2 ^ 25" using b(3) by (intro power_increasing) simp_all
  then have v: "unat (word_of_nat v :: 32 word) = v" using b(1) by (simp add: unat_of_nat)
  have "codes (\<lambda>c. ec_enc_bits c (word_of_nat v) bits) (\<lambda>d. get_map unat (ec_dec_bits d bits)) (unat (word_of_nat v :: 32 word)) bits"
    by (rule codes_get_map) (rule bits_codes, use b v in simp_all)
  moreover have "enc_sym k v = (\<lambda>c. ec_enc_bits c (word_of_nat v) bits)" "dec_sym k = (\<lambda>d. get_map unat (ec_dec_bits d bits))"
    by (rule ext, simp add: Raw)+
  ultimately show ?thesis using b(3) unfolding v by (auto intro: codes_weaken)
next
  case (Uniform ft)
  then have f: "v < unat ft" "1 < unat ft" using assms by simp_all
  have "unat ft < 2 ^ 32" by (rule order.strict_trans2 [OF unsigned_less]) simp
  then have v: "unat (word_of_nat v :: 32 word) = v" using f(1) by (simp add: unat_of_nat)
  then have "word_of_nat v < ft" using f(1) by (simp add: word_less_nat_alt)
  then have "codes (\<lambda>c. ec_enc_uint c (word_of_nat v) ft) (\<lambda>d. get_map unat (ec_dec_uint d ft)) (unat (word_of_nat v :: 32 word)) 48"
    by (intro codes_get_map uint_codes f(2))
  moreover have "enc_sym k v = (\<lambda>c. ec_enc_uint c (word_of_nat v) ft)" "dec_sym k = (\<lambda>d. get_map unat (ec_dec_uint d ft))"
    by (rule ext, simp add: Uniform)+
  ultimately show ?thesis unfolding v by simp
qed

interpretation range_coder: symbol_coder enc_sym dec_sym codable 48
  by unfold_locales (rule enc_sym_codes)

section \<open>Properties\<close>

text \<open> C12. The range coder loses nothing: whatever symbols are encoded into a buffer (at most 2^25 of them, each within its table),
  encoding and finishing return; \<open>ec_tell\<close> is defined and at most 48 bits per symbol; no error is reported if the bits it counts
  fit into the buffer; and if none is reported,
  decoding the buffer gives the same symbols, where after every symbol \<open>ec_tell\<close>, \<open>ec_tell_frac\<close> and the range are the same in
  the encoder and in the decoder, and the decoder reports no error.\<close>

theorem range_coder_roundtrip:
  assumes "\<forall>(k, v) \<in> set xs. codable k v" and "length b = n" and "length xs \<le> 2 ^ 25"
  shows "\<exists>c c'. enc_all enc_sym xs (ec_enc_init z b n) = Some c \<and> ec_enc_done c = Some c' \<and> length (ec_buf c') = n \<and>
    (\<exists>t. ec_tell c = Some t \<and> 1 \<le> t \<and> t \<le> 9 + 48 * int (length xs) \<and> (t \<le> 8 * int n \<longrightarrow> ec_error c' = 0)) \<and>
    (ec_error c' = 0 \<longrightarrow> (\<exists>d. ec_dec_init z' (ec_buf c') n = Some d \<and>
      (\<forall>i \<le> length xs. \<exists>ci di. enc_all enc_sym (take i xs) (ec_enc_init z b n) = Some ci \<and>
        dec_all dec_sym (map fst (take i xs)) d = Some (map snd (take i xs), di) \<and> ec_tell di = ec_tell ci \<and>
        ec_tell_frac di = ec_tell_frac ci \<and> ec_rng di = ec_rng ci \<and> ec_error di = 0)))"
proof -
  have "length xs \<le> 33554432" using assms(3) by simp
  then have "33 + 48 * length xs < 2147483648" by linarith
  then have "33 + 48 * length xs < 2 ^ 31" by simp
  from range_coder.finished_stream [OF assms(1,2) this] show ?thesis by (simp only: of_nat_numeral)
qed

lemma range_coder_roundtrip_witness:
  "\<forall>z. \<exists>c' d di. ec_enc_done (the (enc_all enc_sym [(Cumulative [0, 3, 10], 1), (Logp 3, 1), (Icdf [200, 100, 50, 0] 8, 2), (Uniform 1000000, 123456), (Raw 3, 5)]
      (ec_enc_init z (replicate 64 0) 64))) = Some c' \<and> ec_error c' = 0 \<and> ec_dec_init z (ec_buf c') 64 = Some d \<and>
    dec_all dec_sym [Cumulative [0, 3, 10], Logp 3, Icdf [200, 100, 50, 0] 8, Uniform 1000000, Raw 3] d = Some ([1, 1, 2, 123456, 5], di)"
proof
  fix z
  define xs :: "(ec_kind \<times> nat) list" where
    "xs = [(Cumulative [0, 3, 10], 1), (Logp 3, 1), (Icdf [200, 100, 50, 0] 8, 2), (Uniform 1000000, 123456), (Raw 3, 5)]"
  have "{..<2} = {0, 1 :: nat}" by auto
  then have "\<forall>(k, v) \<in> set xs. codable k v" by (simp add: icdf_symbol_def xs_def)
  moreover have "length xs \<le> 2 ^ 25" by (simp add: xs_def)
  ultimately obtain c c' t where c: "enc_all enc_sym xs (ec_enc_init z (replicate 64 0) 64) = Some c" "ec_enc_done c = Some c'"
    "t \<le> 9 + 48 * int (length xs)" "t \<le> 8 * int 64 \<longrightarrow> ec_error c' = 0"
    and dec: "ec_error c' = 0 \<longrightarrow> (\<exists>d. ec_dec_init z (ec_buf c') 64 = Some d \<and>
      (\<forall>i \<le> length xs. \<exists>di. dec_all dec_sym (map fst (take i xs)) d = Some (map snd (take i xs), di)))"
    using range_coder_roundtrip [of xs "replicate 64 0" 64 z z] length_replicate [of 64 0] by blast
  have e: "ec_error c' = 0" using c(3,4) by (simp add: xs_def)
  with dec obtain d where d: "ec_dec_init z (ec_buf c') 64 = Some d"
    "\<forall>i \<le> length xs. \<exists>di. dec_all dec_sym (map fst (take i xs)) d = Some (map snd (take i xs), di)" by blast
  from d(2) obtain di where "dec_all dec_sym (map fst (take (length xs) xs)) d = Some (map snd (take (length xs) xs), di)" by blast
  then have "dec_all dec_sym (map fst xs) d = Some (map snd xs, di)" by simp
  then show "\<exists>c' d di. ec_enc_done (the (enc_all enc_sym [(Cumulative [0, 3, 10], 1), (Logp 3, 1), (Icdf [200, 100, 50, 0] 8, 2), (Uniform 1000000, 123456), (Raw 3, 5)]
      (ec_enc_init z (replicate 64 0) 64))) = Some c' \<and> ec_error c' = 0 \<and> ec_dec_init z (ec_buf c') 64 = Some d \<and>
    dec_all dec_sym [Cumulative [0, 3, 10], Logp 3, Icdf [200, 100, 50, 0] 8, Uniform 1000000, Raw 3] d = Some ([1, 1, 2, 123456, 5], di)"
    using e c(1,2) d(1) by (intro exI [of _ c'] exI [of _ d] exI [of _ di]) (simp add: xs_def)
qed

end
