(* ===== verification/OpusTell.thy ===== *)
theory OpusTell
  imports OpusRangeProps
begin

text \<open>
  \<open>ec_tell_frac\<close> (entcode.c): the version that is compiled, with its table of thresholds, and the one it
  replaced, which squares the range three times (the \<open>#else\<close> branch), count the same eighths of a bit.
\<close>

text \<open>\<open>for(i=BITRES;i-->0;)\<close>.\<close>

fun frac_loop :: "nat \<Rightarrow> int \<Rightarrow> 32 word \<Rightarrow> int \<times> 32 word" where
  "frac_loop 0 l r = (l, r)"
| "frac_loop (Suc i) l r =
     (let r = drop_bit 15 (r * r); b = uint (drop_bit 16 r) in frac_loop i (push_bit 1 l OR b) (drop_bit (nat b) r))"

definition ec_tell_frac_squares :: "ec_ctx \<Rightarrow> 32 word option" where
  "ec_tell_frac_squares c =
     do { nbits \<leftarrow> i32 (ec_nbits_total c * 2 ^ BITRES);
          l \<leftarrow> EC_ILOG (ec_rng c);
          u \<leftarrow> ensure (16 \<le> l);
          (let (l, r) = frac_loop BITRES (int l) (drop_bit (l - 16) (ec_rng c))
           in Some (word_of_int nbits - word_of_int l)) }"

section \<open>The squares, on numbers\<close>

fun squares :: "nat \<Rightarrow> nat \<Rightarrow> nat \<Rightarrow> nat" where
  "squares 0 l r = l"
| "squares (Suc i) l r = (let t = r * r div 2 ^ 15; b = t div 2 ^ 16 in squares i (2 * l + b) (t div 2 ^ b))"

lemma square_step:
  assumes "2 ^ 15 \<le> r" and "r < 2 ^ 16"
  defines "t \<equiv> r * r div 2 ^ 15"
  shows "t div 2 ^ 16 \<le> 1" and "2 ^ 15 \<le> t div 2 ^ (t div 2 ^ 16)" and "t div 2 ^ (t div 2 ^ 16) < 2 ^ 16" and "r * r < 2 ^ 32" and "t < 2 ^ 17"
proof -
  have "r * r < 2 ^ 16 * 2 ^ 16" using assms(2) by (intro mult_strict_mono) simp_all
  then show sq: "r * r < 2 ^ 32" by simp
  have "2 ^ 15 * 2 ^ 15 \<le> r * r" using assms(1) by (intro mult_le_mono)
  then have lo: "2 ^ 15 \<le> t" unfolding t_def by (simp add: less_eq_div_iff_mult_less_eq)
  show hi: "t < 2 ^ 17" using sq unfolding t_def by (simp add: div_less_iff_less_mult)
  then have b: "t div 2 ^ 16 = 0 \<and> t < 2 ^ 16 \<or> t div 2 ^ 16 = 1 \<and> 2 ^ 16 \<le> t"
    by (cases "t < 2 ^ 16") (simp_all add: div_nat_eqI)
  then show "t div 2 ^ 16 \<le> 1" "2 ^ 15 \<le> t div 2 ^ (t div 2 ^ 16)" "t div 2 ^ (t div 2 ^ 16) < 2 ^ 16" using lo hi by auto
qed

lemma squares_mono:
  assumes "2 ^ 15 \<le> r" and "r < 2 ^ 16" and "2 ^ 15 \<le> r'" and "r' < 2 ^ 16" and "l < l' \<or> l = l' \<and> r \<le> r'"
  shows "squares i l r \<le> squares i l' r'"
  using assms
proof (induction i arbitrary: l r l' r')
  case (Suc i)
  let ?t = "r * r div 2 ^ 15" and ?t' = "r' * r' div 2 ^ 15"
  let ?b = "?t div 2 ^ 16" and ?b' = "?t' div 2 ^ 16"
  note s = square_step [OF Suc.prems(1,2)] and s' = square_step [OF Suc.prems(3,4)]
  have "2 * l + ?b < 2 * l' + ?b' \<or> 2 * l + ?b = 2 * l' + ?b' \<and> ?t div 2 ^ ?b \<le> ?t' div 2 ^ ?b'"
  proof (cases "l < l'")
    case True
    then show ?thesis using s(1) by linarith
  next
    case False
    then have l: "l = l'" "r \<le> r'" using Suc.prems(5) by simp_all
    have t: "?t \<le> ?t'" using l(2) by (intro div_le_mono mult_le_mono)
    then have "?b \<le> ?b'" by (rule div_le_mono)
    moreover have "?t div 2 ^ ?b \<le> ?t' div 2 ^ ?b'" if "?b = ?b'" unfolding that using t by (rule div_le_mono)
    ultimately show ?thesis using l(1) by (cases "?b = ?b'") simp_all
  qed
  from Suc.IH [OF s(2,3) s'(2,3) this] show ?case by (simp only: squares.simps Let_def)
qed auto

lemma frac_loop_squares:
  assumes "2 ^ 15 \<le> unat r" and "unat r < 2 ^ 16"
  shows "fst (frac_loop i (int l) r) = int (squares i l (unat r))"
  using assms
proof (induction i arbitrary: l r)
  case (Suc i)
  let ?t = "unat r * unat r div 2 ^ 15"
  note s = square_step [OF Suc.prems]
  have t: "unat (drop_bit 15 (r * r)) = ?t" unfolding unat_drop using s(4) by (subst unat_times) simp_all
  have b: "uint (drop_bit 16 (drop_bit 15 (r * r))) = int (?t div 2 ^ 16)"
    using unat_drop [of 16 "drop_bit 15 (r * r)"] unfolding t by (simp add: uint_nat)
  have r: "unat (drop_bit (?t div 2 ^ 16) (drop_bit 15 (r * r))) = ?t div 2 ^ (?t div 2 ^ 16)" by (subst unat_drop) (simp only: t)
  have l: "push_bit 1 (int l) OR int (?t div 2 ^ 16) = int (2 * l + ?t div 2 ^ 16)"
    using s(1) by (cases "?t div 2 ^ 16") (simp_all add: push_bit_eq_mult or_one_eq)
  show ?case
    using Suc.IH [of "drop_bit (?t div 2 ^ 16) (drop_bit 15 (r * r))" "2 * l + ?t div 2 ^ 16"] s(2,3)
    unfolding frac_loop.simps Let_def b l nat_int r squares.simps by simp
qed simp

section \<open>The thresholds\<close>

definition eighths :: "nat \<Rightarrow> nat" where
  "eighths r = r div 2 ^ 12 - 8 + (if unat (correction ! (r div 2 ^ 12 - 8)) < r then 1 else 0)"

lemma squares_unfold:
  "squares 3 l r = squares 2 (2 * l + r * r div 32768 div 65536) (r * r div 32768 div 2 ^ (r * r div 32768 div 65536))"
  "squares 2 l r = squares (Suc 0) (2 * l + r * r div 32768 div 65536) (r * r div 32768 div 2 ^ (r * r div 32768 div 65536))"
proof -
  have 2: "Suc 2 = 3" "Suc (Suc 0) = 2" by simp_all
  show "squares 3 l r = squares 2 (2 * l + r * r div 32768 div 65536) (r * r div 32768 div 2 ^ (r * r div 32768 div 65536))"
    using squares.simps(2) [of 2 l r] unfolding 2 Let_def by simp
  show "squares 2 l r = squares (Suc 0) (2 * l + r * r div 32768 div 65536) (r * r div 32768 div 2 ^ (r * r div 32768 div 65536))"
    using squares.simps(2) [of "Suc 0" l r] unfolding 2 Let_def by (simp del: squares.simps)
qed

lemma squares_at_thresholds:
  "squares 3 0 32768 = 0" "squares 3 0 35733 = 0" "squares 3 0 35734 = 1" "squares 3 0 38967 = 1" "squares 3 0 38968 = 2"
  "squares 3 0 42495 = 2" "squares 3 0 42496 = 3" "squares 3 0 46340 = 3" "squares 3 0 46341 = 4" "squares 3 0 50535 = 4"
  "squares 3 0 50536 = 5" "squares 3 0 55109 = 5" "squares 3 0 55110 = 6" "squares 3 0 60097 = 6" "squares 3 0 60098 = 7" "squares 3 0 65535 = 7"
  by (simp_all add: squares_unfold)

lemma squares_between:
  assumes "a \<le> r" and "r \<le> b" and "2 ^ 15 \<le> a" and "b < 2 ^ 16" and "squares 3 0 a = k" and "squares 3 0 b = k"
  shows "squares 3 0 r = k"
proof -
  have "squares 3 0 a \<le> squares 3 0 r" "squares 3 0 r \<le> squares 3 0 b" using assms(1-4) by (intro squares_mono; simp)+
  then show ?thesis using assms(5,6) by simp
qed

lemma squares_add: "squares i l r = l * 2 ^ i + squares i 0 r"
proof (induction i arbitrary: l r)
  case (Suc i)
  show ?case
    unfolding squares.simps Let_def Suc.IH [of "2 * l + _"] Suc.IH [of "2 * 0 + _"] by (simp add: algebra_simps)
qed simp

text \<open>A sixteenth of the range: the threshold \<open>t\<close> lies in it.\<close>

lemma eighths_case:
  assumes r: "(8 + b) * 4096 \<le> r" "r < (9 + b) * 4096" and t: "unat (correction ! b) = t" "squares 3 0 t = b" "t < 2 ^ 16"
    and p: "squares 3 0 p = b" "p \<le> (8 + b) * 4096" "2 ^ 15 \<le> p"
    and q: "t < r \<Longrightarrow> squares 3 0 (t + 1) = b + 1" "t < r \<Longrightarrow> squares 3 0 q = b + 1" "(9 + b) * 4096 \<le> q + 1" "q < 2 ^ 16" "2 ^ 15 \<le> t"
  shows "eighths r = squares 3 0 r"
proof -
  have "r div 4096 = 8 + b" using r by (intro div_nat_eqI) simp_all
  then have e: "eighths r = b + (if t < r then 1 else 0)" by (simp add: eighths_def t(1))
  show ?thesis
  proof (cases "t < r")
    case True
    have "t + 1 \<le> r" "r \<le> q" "2 ^ 15 \<le> t + 1" using True r(2) q(3,5) by linarith+
    from squares_between [OF this q(4) q(1,2) [OF True]] show ?thesis using e True by simp
  next
    case False
    have "p \<le> r" "r \<le> t" using False r(1) p(2) by linarith+
    from squares_between [OF this p(3) t(3) p(1) t(2)] show ?thesis using e False by simp
  qed
qed

lemma eighths_squares:
  assumes "2 ^ 15 \<le> r" and "r < 2 ^ 16"
  shows "eighths r = squares 3 0 r"
proof -
  note sq = squares_at_thresholds
  have r: "32768 \<le> r" "r < 65536" using assms by simp_all
  consider "r < 36864" | "36864 \<le> r" "r < 40960" | "40960 \<le> r" "r < 45056" | "45056 \<le> r" "r < 49152" | "49152 \<le> r" "r < 53248"
    | "53248 \<le> r" "r < 57344" | "57344 \<le> r" "r < 61440" | "61440 \<le> r" by linarith
  then show ?thesis
  proof cases
    case 1
    then show ?thesis using r by (intro eighths_case [of 0 r 35733 32768 38967]) (simp_all add: correction_def sq)
  next
    case 2
    then show ?thesis by (intro eighths_case [of 1 r 38967 35734 42495]) (simp_all add: correction_def sq)
  next
    case 3
    then show ?thesis by (intro eighths_case [of 2 r 42495 38968 46340]) (simp_all add: correction_def sq)
  next
    case 4
    then show ?thesis by (intro eighths_case [of 3 r 46340 42496 50535]) (simp_all add: correction_def sq)
  next
    case 5
    then show ?thesis by (intro eighths_case [of 4 r 50535 46341 55109]) (simp_all add: correction_def sq)
  next
    case 6
    then show ?thesis by (intro eighths_case [of 5 r 55109 50536 60097]) (simp_all add: correction_def sq)
  next
    case 7
    then show ?thesis by (intro eighths_case [of 6 r 60097 55110 65535]) (simp_all add: correction_def sq)
  next
    case 8
    then show ?thesis using r by (intro eighths_case [of 7 r 65535 60098 65535]) (simp_all add: correction_def sq)
  qed
qed

lemma word_minus_8: "8 \<le> unat w \<Longrightarrow> unat (w - 8 :: 32 word) = unat w - 8"
  by (subst unat_sub) (simp_all add: word_le_nat_alt)

text \<open> C20. \<open>ec_tell_frac\<close> with the linear function and the table of eight thresholds is the same function as the
  version it replaced, which squares the range once for each bit of the fraction: the thresholds are exact.\<close>

theorem ec_tell_frac_thresholds: "ec_tell_frac c = ec_tell_frac_squares c"
proof (cases "ec_rng c = 0")
  case True
  then show ?thesis by (simp add: ec_tell_frac_def ec_tell_frac_squares_def EC_ILOG_def ensure_def)
next
  case False
  define l where "l = ec_ilog (ec_rng c)"
  have ilog: "EC_ILOG (ec_rng c) = Some l" using False by (simp add: EC_ILOG_def ensure_def l_def)
  have bits: "bits_in (unat (ec_rng c)) l" unfolding l_def by (rule ec_ilog_bits [OF False])
  show ?thesis
  proof (cases "16 \<le> l")
    case False
    then show ?thesis by (simp add: ec_tell_frac_def ec_tell_frac_squares_def ilog ensure_def)
  next
    case True
    let ?w = "drop_bit (l - 16) (ec_rng c)"
    have w: "unat ?w = unat (ec_rng c) div 2 ^ (l - 16)" by (rule unat_drop)
    have "2 ^ 15 * 2 ^ (l - 16) = (2 :: nat) ^ (l - 1)" "(2 :: nat) ^ 16 * 2 ^ (l - 16) = 2 ^ l" using True by (simp_all only: power_add [symmetric] le_add_diff_inverse) simp
    then have r: "2 ^ 15 \<le> unat ?w" "unat ?w < 2 ^ 16"
      using bits unfolding w bits_in_def by (simp_all add: less_eq_div_iff_mult_less_eq div_less_iff_less_mult)
    have top: "unat (drop_bit 12 ?w) = unat ?w div 2 ^ 12" by (rule unat_drop)
    have "8 \<le> unat ?w div 2 ^ 12" "unat ?w div 2 ^ 12 < 16" using r by (simp_all add: less_eq_div_iff_mult_less_eq div_less_iff_less_mult)
    then have b: "unat (drop_bit 12 ?w - 8) = unat ?w div 2 ^ 12 - 8" "unat ?w div 2 ^ 12 - 8 < 8"
      using word_minus_8 [of "drop_bit 12 ?w"] unfolding top by (blast, linarith)
    have "(drop_bit 12 ?w - 8) + (if ?w > correction ! unat (drop_bit 12 ?w - 8) then 1 else 0) = word_of_nat (eighths (unat ?w))"
      unfolding word_less_nat_alt b(1) unfolding word_eq_nat [OF b(1)] eighths_def by simp
    then have new: "word_of_nat (8 * l) + ((drop_bit 12 ?w - 8) + (if ?w > correction ! unat (drop_bit 12 ?w - 8) then 1 else 0)) =
        (word_of_nat (8 * l + squares 3 0 (unat ?w)) :: 32 word)"
      unfolding eighths_squares [OF r, symmetric] by simp
    have rd: "rd correction (unat (drop_bit 12 ?w - 8)) = Some (correction ! unat (drop_bit 12 ?w - 8))"
      by (rule rd_lt) (use b in \<open>simp add: correction_def\<close>)
    have "fst (frac_loop 3 (int l) ?w) = int (8 * l + squares 3 0 (unat ?w))"
      unfolding frac_loop_squares [OF r] squares_add [of 3 l] by simp
    moreover obtain l' r' where lr: "frac_loop 3 (int l) ?w = (l', r')" by (rule prod.exhaust)
    ultimately have old: "word_of_int l' = (word_of_nat (8 * l + squares 3 0 (unat ?w)) :: 32 word)" by simp
    show ?thesis
      unfolding ec_tell_frac_def ec_tell_frac_squares_def ilog using True
      by (simp only: bind.bind_lunit ensure_def if_True Let_def rd new) (simp only: BITRES_def lr prod.case old)
  qed
qed

end
