(* ===== verification/OpusLaplace.thy ===== *)
theory OpusLaplace
  imports OpusRangeProps
begin

text \<open>
  The coder of energy differences (opus/celt/laplace.c): values with a two-sided geometric distribution,
  cut into 32768 parts. \<open>unsigned\<close> is a word of 32 bits; the assertions are \<open>ensure\<close>.
\<close>

definition LAPLACE_LOG_MINP :: nat where "LAPLACE_LOG_MINP = 0"
definition LAPLACE_MINP :: int where "LAPLACE_MINP = 2 ^ LAPLACE_LOG_MINP"
definition LAPLACE_NMIN :: int where "LAPLACE_NMIN = 16"

definition ec_laplace_get_freq1 :: "32 word \<Rightarrow> int \<Rightarrow> 32 word" where
  "ec_laplace_get_freq1 fs0 decay =
     (let ft = word_of_int (32768 - LAPLACE_MINP * (2 * LAPLACE_NMIN)) - fs0
      in drop_bit 15 (ft * word_of_int (16384 - decay)))"

section \<open>Encoding\<close>

text \<open>The loop over the decaying part, from \<open>i = 1\<close>.\<close>

function laplace_walk :: "int \<Rightarrow> int \<Rightarrow> int \<Rightarrow> 32 word \<Rightarrow> 32 word \<Rightarrow> int \<times> 32 word \<times> 32 word" where
  "laplace_walk decay val i fl fs =
     (if fs > 0 \<and> i < val
      then (let fs = fs * 2; fl = fl + (fs + word_of_int (2 * LAPLACE_MINP)); fs = drop_bit 15 (fs * word_of_int decay)
            in laplace_walk decay val (i + 1) fl fs)
      else (i, fl, fs))"
  by pat_completeness auto
termination by (relation "measure (\<lambda>(decay, val, i, fl, fs). nat (val - i))") auto

declare laplace_walk.simps [simp del]

text \<open>Everything beyond the decaying part: the value that is coded, and its part of the interval.\<close>

definition laplace_tail :: "int \<Rightarrow> int \<Rightarrow> int \<Rightarrow> 32 word \<Rightarrow> int \<times> 32 word \<times> 32 word" where
  "laplace_tail val s i fl =
     (let ndi_max = sint (drop_bit LAPLACE_LOG_MINP (32768 - fl + word_of_int LAPLACE_MINP - 1));
          ndi_max = drop_bit 1 (ndi_max - s);
          di = min (val - i) (ndi_max - 1);
          fl = fl + word_of_int ((2 * di + 1 + s) * LAPLACE_MINP);
          fs = min (word_of_int LAPLACE_MINP) (32768 - fl)
      in ((i + di + s) XOR s, fl, fs))"

text \<open>The value that is coded, and its part of the interval.\<close>

definition laplace_part :: "int \<Rightarrow> 32 word \<Rightarrow> int \<Rightarrow> (int \<times> 32 word \<times> 32 word) option" where
  "laplace_part value fs decay =
     (if value \<noteq> 0
      then (let s = (if value < 0 then - 1 else 0)
            in do { val \<leftarrow> i32 (value + s);
                    (let val = val XOR s;
                         (i, fl, fs) = laplace_walk decay val 1 fs (ec_laplace_get_freq1 fs decay);
                         (v, fl, fs) =
                           (if fs = 0 then laplace_tail val s i fl
                            else (let fs = fs + word_of_int LAPLACE_MINP; fl = fl + (fs AND NOT (word_of_int s)) in (value, fl, fs)))
                     in do { u \<leftarrow> ensure (fl + fs \<le> 32768);
                             u \<leftarrow> ensure (fs > 0);
                             Some (v, fl, fs) }) })
      else Some (value, 0, fs))"

definition ec_laplace_encode :: "ec_ctx \<Rightarrow> int \<Rightarrow> 32 word \<Rightarrow> int \<Rightarrow> (int \<times> ec_ctx) option" where
  "ec_laplace_encode c value fs decay =
     do { (value, fl, fs) \<leftarrow> laplace_part value fs decay;
          c \<leftarrow> ec_encode_bin c fl (fl + fs) 15;
          Some (value, c) }"

section \<open>Decoding\<close>

partial_function (option) laplace_search :: "32 word \<Rightarrow> int \<Rightarrow> int \<Rightarrow> 32 word \<Rightarrow> 32 word \<Rightarrow> (int \<times> 32 word \<times> 32 word) option" where
  "laplace_search fm decay val fl fs =
     (if fs > word_of_int LAPLACE_MINP \<and> fm \<ge> fl + 2 * fs
      then (let fs = fs * 2; fl = fl + fs; fs = drop_bit 15 ((fs - word_of_int (2 * LAPLACE_MINP)) * word_of_int decay);
                fs = fs + word_of_int LAPLACE_MINP
            in laplace_search fm decay (val + 1) fl fs)
      else Some (val, fl, fs))"

declare laplace_search.simps [simp del]

text \<open>The value whose part holds the number \<open>fm\<close>.\<close>

definition laplace_find :: "32 word \<Rightarrow> 32 word \<Rightarrow> int \<Rightarrow> (int \<times> 32 word \<times> 32 word) option" where
  "laplace_find fm fs decay =
     do { (val, fl, fs) \<leftarrow>
            (if fm \<ge> fs
             then do { (val, fl, fs) \<leftarrow> laplace_search fm decay 1 fs (ec_laplace_get_freq1 fs decay + word_of_int LAPLACE_MINP);
                       (let (val, fl) =
                          (if fs \<le> word_of_int LAPLACE_MINP
                           then (let di = sint (drop_bit (LAPLACE_LOG_MINP + 1) (fm - fl))
                                 in (val + di, fl + word_of_int (2 * di * LAPLACE_MINP)))
                           else (val, fl))
                        in if fm < fl + fs then Some (- val, fl, fs) else Some (val, fl + fs, fs)) }
             else Some (0, 0, fs));
          u \<leftarrow> ensure (fl < 32768);
          u \<leftarrow> ensure (fs > 0);
          u \<leftarrow> ensure (fl \<le> fm);
          u \<leftarrow> ensure (fm < min (fl + fs) 32768);
          Some (val, fl, min (fl + fs) 32768) }"

definition ec_laplace_decode :: "ec_ctx \<Rightarrow> 32 word \<Rightarrow> int \<Rightarrow> (int \<times> ec_ctx) option" where
  "ec_laplace_decode d fs decay =
     do { (fm, d) \<leftarrow> ec_decode_bin d 15;
          (val, fl, fh) \<leftarrow> laplace_find fm fs decay;
          d \<leftarrow> ec_dec_update d fl fh 32768;
          Some (val, d) }"

end
