(* ===== verification/OpusLaplaceProofs.thy ===== *)
theory OpusLaplaceProofs
  imports OpusLaplace
begin

text \<open>
  The parts of the interval on unbounded numbers: the values \<open>k + 1\<close> and \<open>- (k + 1)\<close> have the two halves of what
  lies between \<open>L f d k\<close> and \<open>L f d (k + 1)\<close>. The coder encodes every value of at most 16 as it is, whatever
  the parameters.
\<close>

section \<open>The parts\<close>

primrec G :: "nat \<Rightarrow> nat \<Rightarrow> nat \<Rightarrow> nat" where
  "G f d 0 = (32736 - f) * (16384 - d) div 2 ^ 15"
| "G f d (Suc k) = 2 * G f d k * d div 2 ^ 15"

primrec L :: "nat \<Rightarrow> nat \<Rightarrow> nat \<Rightarrow> nat" where
  "L f d 0 = f"
| "L f d (Suc k) = L f d k + 2 * G f d k + 2"

lemma G_less: "d \<le> 16384 \<Longrightarrow> G f d k \<le> 16368"
proof (induction k)
  case 0
  have "(32736 - f) * (16384 - d) \<le> 32736 * 16384" by (intro mult_le_mono) simp_all
  then have "(32736 - f) * (16384 - d) div 2 ^ 15 \<le> 32736 * 16384 div 2 ^ 15" by (rule div_le_mono)
  then show ?case by simp
next
  case (Suc k)
  have "2 * G f d k * d \<le> 2 * 16368 * 16384" using Suc by (intro mult_le_mono) simp_all
  then have "2 * G f d k * d div 2 ^ 15 \<le> 2 * 16368 * 16384 div 2 ^ 15" by (rule div_le_mono)
  then show ?case by simp
qed

lemma G_stays_0: "G f d j = 0 \<Longrightarrow> G f d (j + i) = 0"
  by (induction i) simp_all

lemma L_tail: "G f d j = 0 \<Longrightarrow> L f d (j + i) = L f d j + 2 * i"
  by (induction i) (simp_all add: G_stays_0)

lemma L_mono: "j \<le> k \<Longrightarrow> L f d j \<le> L f d k"
  by (rule lift_Suc_mono_le [of "L f d"]) simp_all

lemma geometric:
  assumes "d \<le> 16384"
  shows "\<exists>S. L f d k = f + 2 * S + 2 * k \<and> (16384 - d) * (2 * S) + 32768 * G f d k \<le> (16384 - d) * (32736 - f)"
proof (induction k)
  case 0
  have "32768 * ((32736 - f) * (16384 - d) div 32768) \<le> (32736 - f) * (16384 - d)" by simp
  then show ?case by (intro exI [of _ 0]) (simp add: mult.commute)
next
  case (Suc k)
  then obtain S where S: "L f d k = f + 2 * S + 2 * k" "(16384 - d) * (2 * S) + 32768 * G f d k \<le> (16384 - d) * (32736 - f)" by blast
  have "32768 * (2 * G f d k * d div 32768) \<le> 2 * G f d k * d" by simp
  then have "32768 * G f d (Suc k) \<le> 2 * G f d k * d" by simp
  moreover have "(16384 - d) * (2 * (S + G f d k)) + 2 * G f d k * d = (16384 - d) * (2 * S) + 32768 * G f d k"
  proof -
    obtain e where "16384 = d + e" using assms le_Suc_ex by blast
    then have e: "16384 - d = e" "32768 = 2 * (d + e)" by simp_all
    show ?thesis unfolding e by (simp add: algebra_simps)
  qed
  ultimately have "(16384 - d) * (2 * (S + G f d k)) + 32768 * G f d (Suc k) \<le> (16384 - d) * (32736 - f)" using S(2) by linarith
  then show ?case using S(1) by (intro exI [of _ "S + G f d k"]) simp
qed

lemma L_bound:
  assumes "f \<le> 32736" and "d < 16384"
  shows "L f d k \<le> 32736 + 2 * k"
proof -
  obtain S where S: "L f d k = f + 2 * S + 2 * k" "(16384 - d) * (2 * S) + 32768 * G f d k \<le> (16384 - d) * (32736 - f)"
    using geometric [of d f k] assms(2) by auto
  then have "(16384 - d) * (2 * S) \<le> (16384 - d) * (32736 - f)" by linarith
  then have "2 * S \<le> 32736 - f" using assms(2) by simp
  then show ?thesis using S(1) assms(1) by simp
qed

section \<open>The words\<close>

abbreviation W :: "nat \<Rightarrow> 32 word" where "W \<equiv> word_of_nat"

lemma drop_W: "n < 2 ^ 32 \<Longrightarrow> drop_bit 15 (W n) = W (n div 2 ^ 15)"
proof -
  assume "n < 2 ^ 32"
  then have "unat (drop_bit 15 (W n)) = n div 2 ^ 15" unfolding unat_drop by (simp only: unat_of_nat_32)
  then show ?thesis by (rule word_eq_natI)
qed

definition laplace_args :: "32 word \<Rightarrow> int \<Rightarrow> bool" where
  "laplace_args fs decay \<longleftrightarrow> 0 < fs \<and> fs \<le> 32736 \<and> 0 \<le> decay \<and> decay < 16384"

lemma MINP [simp]: "LAPLACE_MINP = 1" "LAPLACE_NMIN = 16"
  by (simp_all add: LAPLACE_MINP_def LAPLACE_LOG_MINP_def LAPLACE_NMIN_def)

lemma freq1_G:
  assumes "f \<le> 32736" and "d \<le> 16384"
  shows "ec_laplace_get_freq1 (W f) (int d) = W (G f d 0)"
proof -
  have "(32736 - f) * (16384 - d) \<le> 32736 * 16384" by (intro mult_le_mono) simp_all
  then have less: "(32736 - f) * (16384 - d) < 2 ^ 32" by simp
  have "word_of_int (16384 - int d) = W (16384 - d)" "(32736 :: 32 word) - W f = W (32736 - f)" using assms by (simp_all add: of_nat_diff)
  then have "word_of_int (32768 - LAPLACE_MINP * (2 * LAPLACE_NMIN)) - W f = W (32736 - f)" by simp
  then show ?thesis unfolding ec_laplace_get_freq1_def Let_def \<open>word_of_int (16384 - int d) = _\<close> G.simps
    by (simp only: drop_W [OF less] flip: of_nat_mult)
qed

lemma next_G:
  assumes "d \<le> 16384"
  shows "drop_bit 15 (W (G f d k) * 2 * word_of_int (int d)) = W (G f d (Suc k))"
proof -
  have "2 * G f d k * d \<le> 2 * 16368 * 16384" using assms G_less [OF assms, of f k] by (intro mult_le_mono) simp_all
  then have less: "2 * G f d k * d < 2 ^ 32" by simp
  have "W (G f d k) * 2 * word_of_int (int d) = W (2 * G f d k * d)" by simp
  then show ?thesis by (simp only: drop_W [OF less] G.simps)
qed

section \<open>Encoding\<close>

lemma W_pos: "n < 2 ^ 32 \<Longrightarrow> 0 < W n \<longleftrightarrow> 0 < n"
  by (simp add: word_less_nat_alt unat_of_nat_32)

lemma G_word: "d \<le> 16384 \<Longrightarrow> 0 < W (G f d k) \<longleftrightarrow> 0 < G f d k"
  using G_less [of d f k] by (intro W_pos) simp

lemma walk_eq:
  assumes "d \<le> 16384" and "k \<le> n"
  shows "\<exists>j. k \<le> j \<and> j \<le> n \<and> laplace_walk (int d) (int n + 1) (int k + 1) (W (L f d k)) (W (G f d k)) =
    (int j + 1, W (L f d j), W (G f d j)) \<and> (j = n \<or> G f d j = 0) \<and> (\<forall>m \<in> {k..<j}. 0 < G f d m)"
  using assms(2)
proof (induction "n - k" arbitrary: k)
  case 0
  then show ?case by (intro exI [of _ k]) (simp add: laplace_walk.simps)
next
  case (Suc x)
  then have kn: "k < n" and nxt: "x = n - Suc k" "Suc k \<le> n" by simp_all
  show ?case
  proof (cases "G f d k = 0")
    case True
    then show ?thesis using Suc.prems by (intro exI [of _ k]) (simp add: laplace_walk.simps)
  next
    case False
    have "laplace_walk (int d) (int n + 1) (int k + 1) (W (L f d k)) (W (G f d k)) =
        laplace_walk (int d) (int n + 1) (int (Suc k) + 1) (W (L f d (Suc k))) (W (G f d (Suc k)))"
      using False G_word [OF assms(1), of f k] kn next_G [OF assms(1), of f k]
      by (subst laplace_walk.simps) (simp add: Let_def ac_simps del: G.simps)
    moreover obtain j where "Suc k \<le> j" "j \<le> n" "laplace_walk (int d) (int n + 1) (int (Suc k) + 1) (W (L f d (Suc k))) (W (G f d (Suc k))) =
        (int j + 1, W (L f d j), W (G f d j))" "j = n \<or> G f d j = 0" "\<forall>m \<in> {Suc k..<j}. 0 < G f d m"
      using Suc.hyps(1) [OF nxt] by blast
    moreover have "{k..<j} = insert k {Suc k..<j}" using \<open>Suc k \<le> j\<close> by auto
    moreover have "k \<le> j" using \<open>Suc k \<le> j\<close> by simp
    ultimately show ?thesis using False by (intro exI [of _ j]) (simp del: L.simps G.simps)
  qed
qed

text \<open>Enough room for the value \<open>n + 1\<close>, up to which the search goes.\<close>

definition room :: "nat \<Rightarrow> nat \<Rightarrow> nat \<Rightarrow> bool" where
  "room f d n \<longleftrightarrow> (\<forall>j \<le> n. (\<forall>m < j. 0 < G f d m) \<longrightarrow> L f d j + 2 \<le> 32768) \<and>
     ((\<forall>m \<le> n. 0 < G f d m) \<longrightarrow> L f d (Suc n) \<le> 32768)"

definition part_base :: "nat \<Rightarrow> nat \<Rightarrow> bool \<Rightarrow> nat \<Rightarrow> nat" where
  "part_base f d neg n = L f d n + (if neg then 0 else G f d n + 1)"

definition with_sign :: "bool \<Rightarrow> nat \<Rightarrow> int" where
  "with_sign neg n = (if neg then - (int n + 1) else int n + 1)"

lemma sign_xor: "(x + (if neg then - 1 else 0)) XOR (if neg then - 1 else 0) = (if neg then - x else x :: int)"
  by (simp add: not_int_def flip: not_eq_complement)

lemma tail_part:
  assumes "G f d j = 0" and "L f d j + 2 \<le> 32768" and "j \<le> n"
  shows "\<exists>n'. j \<le> n' \<and> n' \<le> n \<and> (L f d n + 2 \<le> 32768 \<longrightarrow> n' = n) \<and> part_base f d neg n' + 1 \<le> 32768 \<and>
    laplace_tail (int n + 1) (if neg then - 1 else 0) (int j + 1) (W (L f d j)) = (with_sign neg n', W (part_base f d neg n'), W (G f d n' + 1))"
proof -
  let ?R = "32768 - L f d j"
  define h where "h = (if neg then ?R + 1 else ?R) div 2"
  define i where "i = min (n - j) (h - 1)"
  have R: "2 \<le> ?R" "?R \<le> 32768" using assms(2) by simp_all
  have "2 div 2 \<le> (if neg then ?R + 1 else ?R) div 2" using R(1) by (intro div_le_mono) simp
  then have h: "1 \<le> h" by (simp add: h_def)
  have w: "32768 - W (L f d j) + word_of_int LAPLACE_MINP - 1 = W ?R" using assms(2) by (simp add: of_nat_diff)
  have "sint (W ?R) = int ?R" using R(2) by (simp add: signed_of_nat signed_take_bit_int_eq_self)
  then have nd: "drop_bit 1 (sint (drop_bit LAPLACE_LOG_MINP (32768 - W (L f d j) + word_of_int LAPLACE_MINP - 1)) - (if neg then - 1 else 0)) = int h"
    unfolding w LAPLACE_LOG_MINP_def by (simp add: drop_bit_eq_div h_def zdiv_int add.commute)
  have di: "min ((int n + 1) - (int j + 1)) (int h - 1) = int i" using assms(3) h unfolding i_def by linarith
  let ?n = "j + i"
  have n: "j \<le> ?n" "?n \<le> n" using assms(3) by (simp_all add: i_def)
  have Gn: "G f d ?n = 0" "L f d ?n = L f d j + 2 * i" using assms(1) by (simp_all add: G_stays_0 L_tail)
  have "2 * h \<le> (if neg then ?R + 1 else ?R)" by (simp add: h_def)
  moreover have "i \<le> h - 1" by (simp add: i_def)
  ultimately have b: "part_base f d neg ?n + 1 \<le> 32768" using h R by (auto simp: part_base_def Gn)
  have all: "L f d n + 2 \<le> 32768 \<longrightarrow> ?n = n"
  proof
    assume *: "L f d n + 2 \<le> 32768"
    have "L f d n = L f d j + 2 * (n - j)" using L_tail [OF assms(1), of "n - j"] assms(3) by simp
    then have "2 * (n - j) + 2 \<le> ?R" using * by simp
    then have "n - j \<le> h - 1" by (auto simp: h_def)
    then show "?n = n" using assms(3) by (simp add: i_def)
  qed
  have fl: "W (L f d j) + word_of_int ((2 * int i + 1 + (if neg then - 1 else 0)) * LAPLACE_MINP) = W (part_base f d neg ?n)"
    by (simp add: part_base_def Gn)
  have "32768 - W (part_base f d neg ?n) = W (32768 - part_base f d neg ?n)" using b by (simp add: of_nat_diff)
  moreover have "unat (W (32768 - part_base f d neg ?n)) = 32768 - part_base f d neg ?n" by (rule unat_of_nat_32) simp
  then have "1 \<le> W (32768 - part_base f d neg ?n)" using b by (simp only: word_le_nat_alt unat_1)
  ultimately have fs: "min (word_of_int LAPLACE_MINP) (32768 - W (part_base f d neg ?n)) = 1" by (simp add: min_def)
  have v: "(int j + 1 + int i + (if neg then - 1 else 0)) XOR (if neg then - 1 else 0) = with_sign neg ?n" unfolding sign_xor by (simp add: with_sign_def)
  have "laplace_tail (int n + 1) (if neg then - 1 else 0) (int j + 1) (W (L f d j)) = (with_sign neg ?n, W (part_base f d neg ?n), W (G f d ?n + 1))"
    unfolding laplace_tail_def Let_def nd di fl fs v Gn by simp
  then show ?thesis using n b all by blast
qed

lemma sign_32: "n < 2 ^ 31 - 1 \<Longrightarrow> i32 (with_sign neg n + (if neg then - 1 else 0)) = Some (with_sign neg n + (if neg then - 1 else 0))"
  by (simp add: i32_def with_sign_def)

lemma part_eq:
  assumes "d \<le> 16384" and "f \<le> 32736" and "room f d n" and "n < 2 ^ 31 - 1"
  shows "\<exists>n' \<le> n. (L f d n + 2 * G f d n + 2 \<le> 32768 \<longrightarrow> n' = n) \<and> part_base f d neg n' + G f d n' + 1 \<le> 32768 \<and>
    laplace_part (with_sign neg n) (W f) (int d) = Some (with_sign neg n', W (part_base f d neg n'), W (G f d n' + 1))"
proof -
  have sg: "(with_sign neg n + (if neg then - 1 else 0)) XOR (if neg then - 1 else 0) = int n + 1" unfolding sign_xor by (simp add: with_sign_def)
  have neg: "with_sign neg n \<noteq> 0" "with_sign neg n < 0 \<longleftrightarrow> neg" by (auto simp: with_sign_def)
  obtain j where j: "j \<le> n" "laplace_walk (int d) (int n + 1) (int 0 + 1) (W (L f d 0)) (W (G f d 0)) = (int j + 1, W (L f d j), W (G f d j))"
    "j = n \<or> G f d j = 0" "\<forall>m < j. 0 < G f d m" using walk_eq [OF assms(1), of 0 n f] by (metis atLeastLessThan_iff zero_le)
  from j(2) have walk: "laplace_walk (int d) (int n + 1) 1 (W f) (W (G f d 0)) = (int j + 1, W (L f d j), W (G f d j))" by simp
  have run: "laplace_part (with_sign neg n) (W f) (int d) = Some (with_sign neg n', W (part_base f d neg n'), W (G f d n' + 1))"
    if b: "part_base f d neg n' + G f d n' + 1 \<le> 32768"
      and r: "(if W (G f d j) = 0 then laplace_tail (int n + 1) (if neg then - 1 else 0) (int j + 1) (W (L f d j))
        else (with_sign neg n, W (L f d j) + ((W (G f d j) + word_of_int LAPLACE_MINP) AND NOT (word_of_int (if neg then - 1 else 0))),
          W (G f d j) + word_of_int LAPLACE_MINP)) = (with_sign neg n', W (part_base f d neg n'), W (G f d n' + 1))" for n'
  proof -
    have "W (part_base f d neg n') + W (G f d n' + 1) = W (part_base f d neg n' + G f d n' + 1)" by simp
    moreover have "unat (W (part_base f d neg n' + G f d n' + 1)) = part_base f d neg n' + G f d n' + 1" by (rule unat_of_nat_32) (use b in simp)
    ultimately have 1: "W (part_base f d neg n') + W (G f d n' + 1) \<le> 32768" using b by (simp only: word_le_nat_alt) simp
    have 2: "W (G f d n' + 1) > 0" using b by (subst W_pos) simp_all
    show ?thesis
      unfolding laplace_part_def if_P [OF neg(1)] Let_def neg(2) sign_32 [OF assms(4)] bind.bind_lunit sg freq1_G [OF assms(2,1)] walk prod.case r
      using 1 2 by (simp only: ensure_True bind.bind_lunit)
  qed
  show ?thesis
  proof (cases "G f d j = 0")
    case True
    have "L f d j + 2 \<le> 32768" using assms(3) j(1,4) unfolding room_def by blast
    from tail_part [OF True this j(1), of neg] obtain n' where n': "j \<le> n'" "n' \<le> n" "L f d n + 2 \<le> 32768 \<longrightarrow> n' = n"
      "part_base f d neg n' + 1 \<le> 32768"
      "laplace_tail (int n + 1) (if neg then - 1 else 0) (int j + 1) (W (L f d j)) = (with_sign neg n', W (part_base f d neg n'), W (G f d n' + 1))" by blast
    have g: "G f d n' = 0" using G_stays_0 [OF True, of "n' - j"] n'(1) by simp
    have "part_base f d neg n' + G f d n' + 1 \<le> 32768" using n'(4) g by simp
    moreover from this have "laplace_part (with_sign neg n) (W f) (int d) = Some (with_sign neg n', W (part_base f d neg n'), W (G f d n' + 1))"
      by (rule run) (simp add: True n'(5))
    moreover have "L f d n + 2 * G f d n + 2 \<le> 32768 \<longrightarrow> n' = n" using n'(3) by linarith
    ultimately show ?thesis using n'(2) by blast
  next
    case False
    then have jn: "j = n" "\<forall>m \<le> n. 0 < G f d m" using j(3,4) by (auto simp: le_less)
    then have b: "part_base f d neg n + G f d n + 1 \<le> 32768" using assms(3) by (auto simp: room_def part_base_def)
    moreover from this have "laplace_part (with_sign neg n) (W f) (int d) = Some (with_sign neg n, W (part_base f d neg n), W (G f d n + 1))"
      by (rule run) (use False G_word [OF assms(1), of f n] in \<open>auto simp: jn(1) part_base_def\<close>)
    ultimately show ?thesis by blast
  qed
qed

section \<open>Decoding\<close>

lemma search_eq:
  assumes "d \<le> 16384" and "k \<le> n" and "L f d n \<le> unat fm" and "unat fm < L f d (Suc n)" and "unat fm < 32768"
  shows "\<exists>j. k \<le> j \<and> j \<le> n \<and> laplace_search fm (int d) (int k + 1) (W (L f d k)) (W (G f d k + 1)) =
    Some (int j + 1, W (L f d j), W (G f d j + 1)) \<and> (j = n \<or> G f d j = 0)"
  using assms(2)
proof (induction "n - k" arbitrary: k)
  case 0
  then have k: "k = n" by simp
  have "L f d n + 2 * (G f d n + 1) < 2 ^ 32" using assms(3,5) G_less [OF assms(1), of f n] by simp
  then have "unat (W (L f d n + 2 * (G f d n + 1))) = L f d (Suc n)" by (subst unat_of_nat_32) simp_all
  moreover have "W (L f d n + 2 * (G f d n + 1)) = W (L f d n) + 2 * W (G f d n + 1)" by simp
  ultimately have u: "unat (W (L f d n) + 2 * W (G f d n + 1)) = L f d (Suc n)" by (simp only:)
  have "\<not> W (L f d n) + 2 * W (G f d n + 1) \<le> fm" using assms(4) unfolding word_le_nat_alt u by simp
  then show ?case by (intro exI [of _ n]) (simp add: k laplace_search.simps del: of_nat_add of_nat_Suc)
next
  case (Suc x)
  then have kn: "k < n" and nxt: "x = n - Suc k" "Suc k \<le> n" by simp_all
  have g: "W (G f d k + 1) > word_of_int LAPLACE_MINP \<longleftrightarrow> 0 < G f d k"
    using G_less [OF assms(1), of f k] unat_of_nat_32 [of "G f d k + 1"] by (simp add: word_less_nat_alt del: of_nat_add of_nat_Suc)
  show ?case
  proof (cases "G f d k = 0")
    case True
    then show ?thesis using Suc.prems g by (intro exI [of _ k]) (simp add: laplace_search.simps)
  next
    case False
    have le: "L f d (Suc k) \<le> unat fm" using L_mono [OF nxt(2), of f d] assms(3) by linarith
    then have "unat (W (L f d k + 2 * (G f d k + 1))) = L f d (Suc k)" using assms(5) by (subst unat_of_nat_32) simp_all
    moreover have "W (L f d k + 2 * (G f d k + 1)) = W (L f d k) + 2 * W (G f d k + 1)" by simp
    ultimately have u: "unat (W (L f d k) + 2 * W (G f d k + 1)) = L f d (Suc k)" by (simp only:)
    have fm: "W (L f d k) + 2 * W (G f d k + 1) \<le> fm" using le unfolding word_le_nat_alt u .
    have ng: "drop_bit 15 ((W (G f d k + 1) * 2 - word_of_int (2 * LAPLACE_MINP)) * word_of_int (int d)) = W (G f d (Suc k))"
      unfolding next_G [OF assms(1), symmetric] by simp
    have l: "W (L f d k) + W (G f d k + 1) * 2 = W (L f d (Suc k))" "W (G f d (Suc k)) + word_of_int LAPLACE_MINP = W (G f d (Suc k) + 1)" by simp_all
    have "int k + 1 + 1 = int (Suc k) + 1" by simp
    note arg = this l ng
    have "laplace_search fm (int d) (int k + 1) (W (L f d k)) (W (G f d k + 1)) =
        laplace_search fm (int d) (int (Suc k) + 1) (W (L f d (Suc k))) (W (G f d (Suc k) + 1))"
      by (subst laplace_search.simps) (use False g fm in \<open>simp only: Let_def arg simp_thms if_True neq0_conv\<close>)
    moreover obtain j where "Suc k \<le> j" "j \<le> n" "laplace_search fm (int d) (int (Suc k) + 1) (W (L f d (Suc k))) (W (G f d (Suc k) + 1)) =
        Some (int j + 1, W (L f d j), W (G f d j + 1))" "j = n \<or> G f d j = 0" using Suc.hyps(1) [OF nxt] by blast
    ultimately show ?thesis by (intro exI [of _ j]) (simp del: L.simps G.simps)
  qed
qed

lemma find_zero:
  assumes "fm < fs" and "fs \<le> 32736"
  shows "laplace_find fm fs decay = Some (0, 0, fs)"
proof -
  have w: "\<not> fm \<ge> fs" "0 + fs = fs" "0 < fs" "min fs 32768 = fs" "(0 :: 32 word) < 32768" "(0 :: 32 word) \<le> fm"
    using assms by (auto simp: word_less_nat_alt word_le_nat_alt min_def)
  show ?thesis unfolding laplace_find_def if_not_P [OF w(1)] bind.bind_lunit prod.case w(2,4) using assms(1) w(3,5,6)
    by (simp only: ensure_True bind.bind_lunit)
qed

lemma find_eq:
  assumes "d \<le> 16384" and "f \<le> 32736" and "part_base f d neg n \<le> unat fm" and "unat fm < part_base f d neg n + G f d n + 1"
    and "part_base f d neg n + G f d n + 1 \<le> 32768"
  shows "laplace_find fm (W f) (int d) = Some (with_sign neg n, W (part_base f d neg n), W (part_base f d neg n + G f d n + 1))"
proof -
  have fm: "L f d n \<le> unat fm" "unat fm < L f d (Suc n)" "unat fm < 32768" using assms(3-5) by (auto simp: part_base_def split: if_splits)
  obtain j where j: "j \<le> n" "laplace_search fm (int d) (int 0 + 1) (W (L f d 0)) (W (G f d 0 + 1)) = Some (int j + 1, W (L f d j), W (G f d j + 1))"
    "j = n \<or> G f d j = 0" using search_eq [OF assms(1) le0 fm] by blast
  have g: "unat (W (G f d i + 1)) = G f d i + 1" for i using G_less [OF assms(1), of f i] by (intro unat_of_nat_32) simp
  have same: "G f d j = G f d n" using j(1,3) G_stays_0 [of f d j "n - j"] by auto
  have walk: "(if W (G f d j + 1) \<le> word_of_int LAPLACE_MINP
      then (let di = sint (drop_bit (LAPLACE_LOG_MINP + 1) (fm - W (L f d j)))
            in (int j + 1 + di, W (L f d j) + word_of_int (2 * di * LAPLACE_MINP)))
      else (int j + 1, W (L f d j))) = (int n + 1, W (L f d n))"
  proof (cases "G f d j = 0")
    case True
    have ln: "L f d n = L f d j + 2 * (n - j)" using L_tail [OF True, of "n - j"] j(1) by simp
    have gn: "G f d n = 0" using True same by simp
    have lj: "unat (W (L f d j)) = L f d j" using ln fm(1,3) by (intro unat_of_nat_32) simp
    have "unat (fm - W (L f d j)) = unat fm - L f d j" using unat_sub [of "W (L f d j)" fm] ln fm(1) by (simp add: word_le_nat_alt lj)
    then have "unat (drop_bit (LAPLACE_LOG_MINP + 1) (fm - W (L f d j))) = (unat fm - L f d j) div 2"
      by (simp add: LAPLACE_LOG_MINP_def drop_bit_eq_div unat_div)
    also have "\<dots> = n - j" using ln fm(1,2) gn by simp
    finally have di: "drop_bit (LAPLACE_LOG_MINP + 1) (fm - W (L f d j)) = W (n - j)" by (rule word_eq_natI)
    have "n - j < 32768" using ln fm(1,3) by simp
    then have "sint (W (n - j)) = int (n - j)" by (simp add: signed_of_nat signed_take_bit_int_eq_self)
    then show ?thesis unfolding Let_def di using j(1) True by (simp add: ln)
  next
    case False
    then have "\<not> W (G f d j + 1) \<le> word_of_int LAPLACE_MINP" unfolding word_le_nat_alt g by simp
    then show ?thesis using False j(3) by simp
  qed
  have b: "unat (W (part_base f d neg n)) = part_base f d neg n" "unat (W (part_base f d neg n + G f d n + 1)) = part_base f d neg n + G f d n + 1"
    using assms(5) by (intro unat_of_nat_32; simp)+
  have l: "unat (W (L f d n + G f d n + 1)) = L f d n + G f d n + 1" using fm(1,3) G_less [OF assms(1), of f n] by (intro unat_of_nat_32) simp
  have "f \<le> L f d n" using L_mono [of 0 n f d] by simp
  then have "unat (W f) \<le> unat fm" using fm(1) assms(2) by (subst unat_of_nat_32) simp_all
  then have ge: "W f \<le> fm" by (simp only: word_le_nat_alt)
  have step: "W (L f d n) + W (G f d n + 1) = W (L f d n + G f d n + 1)" "W (part_base f d neg n) + W (G f d n + 1) = W (part_base f d neg n + G f d n + 1)" by simp_all
  have half: "fm < W (L f d n + G f d n + 1) \<longleftrightarrow> neg" unfolding word_less_nat_alt l using assms(3,4) by (cases neg) (auto simp: part_base_def)
  have res: "(if neg then Some (- (int n + 1), W (L f d n), W (G f d n + 1)) else Some (int n + 1, W (L f d n + G f d n + 1), W (G f d n + 1)))
      = Some (with_sign neg n, W (part_base f d neg n), W (G f d n + 1))" by (simp add: with_sign_def part_base_def)
  have top: "min (W (part_base f d neg n + G f d n + 1)) 32768 = W (part_base f d neg n + G f d n + 1)"
    by (rule min_absorb1) (use assms(5) in \<open>simp only: word_le_nat_alt b(2), simp\<close>)
  have asserts: "W (part_base f d neg n) < 32768" "W (G f d n + 1) > 0" "W (part_base f d neg n) \<le> fm" "fm < W (part_base f d neg n + G f d n + 1)"
    using assms(3,4,5) g [of n] by (simp_all only: word_less_nat_alt word_le_nat_alt b g) simp_all
  have first: "ec_laplace_get_freq1 (W f) (int d) + word_of_int LAPLACE_MINP = W (G f d 0 + 1)" unfolding freq1_G [OF assms(2,1)] by simp
  have srch: "laplace_search fm (int d) 1 (W f) (W (G f d 0 + 1)) = Some (int j + 1, W (L f d j), W (G f d j + 1))"
    using j(2) by (simp del: G.simps of_nat_add of_nat_Suc)
  show ?thesis
    unfolding laplace_find_def if_P [OF ge] first srch bind.bind_lunit prod.case Let_def walk [unfolded Let_def]
    unfolding prod.case same step(1) half res bind.bind_lunit step(2) top using asserts by (simp only: ensure_True bind.bind_lunit)
qed

section \<open>The coder\<close>

lemma argsE:
  assumes "laplace_args fs decay"
  obtains f d where "fs = W f" "decay = int d" "0 < f" "f \<le> 32736" "d < 16384" "unat fs = f" "nat decay = d"
proof (rule that [of "unat fs" "nat decay"])
  show "0 < unat fs" "unat fs \<le> 32736" "nat decay < 16384" using assms by (auto simp: laplace_args_def word_le_nat_alt unat_gt_0)
qed (use assms in \<open>simp_all add: laplace_args_def\<close>)

definition laplace_room :: "32 word \<Rightarrow> int \<Rightarrow> int \<Rightarrow> bool" where
  "laplace_room fs decay v \<longleftrightarrow> v = 0 \<or> room (unat fs) (nat decay) (nat \<bar>v\<bar> - 1)"

definition laplace_codable :: "32 word \<Rightarrow> int \<Rightarrow> int \<Rightarrow> bool" where
  "laplace_codable fs decay v \<longleftrightarrow> laplace_args fs decay \<and> laplace_room fs decay v \<and> L (unat fs) (nat decay) (nat \<bar>v\<bar>) \<le> 32768"

lemma part_find:
  assumes "laplace_args fs decay" and "laplace_room fs decay v" and "\<bar>v\<bar> < 2 ^ 31"
  shows "\<exists>v' fl w. laplace_part v fs decay = Some (v', fl, w) \<and> fl < fl + w \<and> unat (fl + w) \<le> 2 ^ 15 \<and>
    (\<forall>fm. fl \<le> fm \<and> fm < fl + w \<longrightarrow> laplace_find fm fs decay = Some (v', fl, fl + w)) \<and>
    \<bar>v'\<bar> \<le> \<bar>v\<bar> \<and> sgn v' = sgn v \<and> (L (unat fs) (nat decay) (nat \<bar>v\<bar>) \<le> 32768 \<longrightarrow> v' = v) \<and>
    (v' \<noteq> 0 \<longrightarrow> L (unat fs) (nat decay) (nat \<bar>v'\<bar> - 1) < 32768)"
proof -
  obtain f d where a: "fs = W f" "decay = int d" "0 < f" "f \<le> 32736" "d < 16384" "unat fs = f" "nat decay = d" using argsE [OF assms(1)] .
  show ?thesis
  proof (cases "v = 0")
    case True
    have "0 < fs" "fs \<le> 32736" using a(3,4,6) by (simp_all add: word_less_nat_alt word_le_nat_alt)
    then show ?thesis using True a(4,6) find_zero [of _ fs decay] by (simp add: laplace_part_def)
  next
    case False
    define n neg where "n = nat \<bar>v\<bar> - 1" and "neg \<longleftrightarrow> v < 0"
    have v: "v = with_sign neg n" "nat \<bar>v\<bar> = Suc n" using False by (auto simp: with_sign_def n_def neg_def)
    have "room f d n" "n < 2 ^ 31 - 1" using assms(2,3) False by (simp_all add: laplace_room_def a(6,7) n_def)
    then obtain n' where n': "n' \<le> n" "L f d n + 2 * G f d n + 2 \<le> 32768 \<longrightarrow> n' = n" "part_base f d neg n' + G f d n' + 1 \<le> 32768"
      "laplace_part (with_sign neg n) (W f) (int d) = Some (with_sign neg n', W (part_base f d neg n'), W (G f d n' + 1))"
      using part_eq [of d f n neg] a(4,5) by auto
    let ?b = "part_base f d neg n'" and ?e = "part_base f d neg n' + G f d n' + 1"
    have e: "W ?b + W (G f d n' + 1) = W ?e" by simp
    have u: "unat (W ?b) = ?b" "unat (W ?e) = ?e" using n'(3) by (intro unat_of_nat_32; simp)+
    have "laplace_find fm (W f) (int d) = Some (with_sign neg n', W ?b, W ?e)" if "W ?b \<le> fm" "fm < W ?e" for fm
      using that by (intro find_eq) (use a(4,5) n'(3) in \<open>simp_all only: word_le_nat_alt word_less_nat_alt u\<close>)
    moreover have "W ?b < W ?e" "unat (W ?e) \<le> 2 ^ 15" using n'(3) by (simp_all only: word_less_nat_alt u) simp_all
    moreover have "\<bar>with_sign neg n'\<bar> \<le> \<bar>v\<bar>" "sgn (with_sign neg n') = sgn v" using n'(1) unfolding v(1) by (auto simp: with_sign_def)
    moreover have "L f d (nat \<bar>v\<bar>) \<le> 32768 \<longrightarrow> with_sign neg n' = v" using n'(2) unfolding v(2) by (simp add: v(1))
    moreover have "nat \<bar>with_sign neg n'\<bar> - 1 = n'" by (auto simp: with_sign_def)
    then have "L f d (nat \<bar>with_sign neg n'\<bar> - 1) < 32768" using n'(3) by (simp add: part_base_def)
    ultimately show ?thesis using n'(4) unfolding v(1) [symmetric] a(6,7) unfolding a(1,2) e [symmetric] by blast
  qed
qed

lemma laplace_part_codes:
  assumes "laplace_part v fs decay = Some (v', fl, w)" and "fl < fl + w" and "unat (fl + w) \<le> 2 ^ 15"
    and "\<And>fm. fl \<le> fm \<Longrightarrow> fm < fl + w \<Longrightarrow> laplace_find fm fs decay = Some (v', fl, fl + w)"
  shows "codes (\<lambda>c. ec_encode_bin c fl (fl + w) 15) (\<lambda>d. ec_laplace_decode d fs decay) v' 24"
proof -
  define which where "which = (\<lambda>fm. case laplace_find fm fs decay of Some (v, fl, fh) \<Rightarrow> (Some v, fl, fh) | None \<Rightarrow> (None, 0, 0))"
  define give where "give = (\<lambda>(v :: int option) (d :: ec_ctx). map_option (\<lambda>v. (v, d)) v)"
  have "codes (\<lambda>c. ec_encode_bin c fl (fl + w) 15) (decode_symbol_bin which 15) (Some v') 24"
    by (rule encode_bin_codes [OF assms(2,3)]) (simp_all add: which_def assms(4))
  then have "codes (\<lambda>c. ec_encode_bin c fl (fl + w) 15) (\<lambda>d. do { (x, d) \<leftarrow> decode_symbol_bin which 15 d; give x d }) v' 24"
    by (rule codes_then) (simp add: give_def)
  moreover have "(do { (x, d) \<leftarrow> decode_symbol_bin which 15 d; give x d }) = ec_laplace_decode d fs decay" for d
  proof (cases "ec_decode_bin d 15")
    case (Some r)
    obtain fm d' where r: "r = (fm, d')" by (rule prod.exhaust)
    show ?thesis
    proof (cases "laplace_find fm fs decay")
      case None
      then show ?thesis using Some r
        by (cases "ec_dec_update d' 0 0 (push_bit 15 1)") (simp_all add: decode_symbol_bin_def ec_laplace_decode_def which_def give_def)
    next
      case s: (Some t)
      then show ?thesis using Some r
        by (cases t) (simp add: decode_symbol_bin_def ec_laplace_decode_def which_def give_def)
    qed
  qed (simp add: decode_symbol_bin_def ec_laplace_decode_def)
  ultimately show ?thesis by simp
qed

lemma room_16: "\<lbrakk>laplace_args fs decay; \<bar>v\<bar> \<le> 16\<rbrakk> \<Longrightarrow> laplace_codable fs decay v"
proof -
  assume "laplace_args fs decay" "\<bar>v\<bar> \<le> 16"
  moreover from this obtain f d where a: "f \<le> 32736" "d < 16384" "unat fs = f" "nat decay = d" by (elim argsE)
  moreover have "L f d j + 2 \<le> 32768" if "j \<le> nat \<bar>v\<bar> - 1" for j using L_bound [OF a(1,2), of j] that \<open>\<bar>v\<bar> \<le> 16\<close> by simp
  moreover have "L f d j \<le> 32768" if "j \<le> nat \<bar>v\<bar>" for j using L_bound [OF a(1,2), of j] that \<open>\<bar>v\<bar> \<le> 16\<close> by simp
  moreover have "v = 0 \<or> nat \<bar>v\<bar> = Suc (nat \<bar>v\<bar> - 1)" by auto
  ultimately show ?thesis by (auto simp: laplace_codable_def laplace_room_def room_def simp del: L.simps)
qed

end
