(* ===== verification/OpusPvq.thy ===== *)
theory OpusPvq
  imports Prelude
begin

text \<open>
  The codebook of pulse vectors (opus/celt/cwrs.c) on unbounded numbers: the numbers U(N,K) and V(N,K) of
  the comment there, the index of a vector, and that indexes and vectors are in bijection.
\<close>

section \<open>The numbers U(N,K)\<close>

fun U :: "nat \<Rightarrow> nat \<Rightarrow> nat" where
  "U 0 0 = 1"
| "U 0 (Suc k) = 0"
| "U (Suc n) 0 = 0"
| "U (Suc n) (Suc k) = U n (Suc k) + U (Suc n) k + U n k"

definition V :: "nat \<Rightarrow> nat \<Rightarrow> nat" where
  "V n k = U n k + U n (Suc k)"

lemma U_sym: "U n k = U k n"
  by (induction n k rule: U.induct) simp_all

lemma U_mono_step: "0 < n \<Longrightarrow> U n k \<le> U n (Suc k)"
  by (cases n) simp_all

lemma U_mono: "0 < n \<Longrightarrow> j \<le> k \<Longrightarrow> U n j \<le> U n k"
  by (rule lift_Suc_mono_le [of "U n"]) (rule U_mono_step)

lemma U_step: "U (Suc n) (Suc k) = U (Suc n) k + V n k"
  by (simp add: V_def)

lemma U_1: "U (Suc 0) (Suc k) = 1"
  by (induction k) simp_all

lemma U_2: "U 2 (Suc k) = 2 * k + 1"
proof -
  have "U (Suc (Suc 0)) (Suc k) = 2 * k + 1"
  proof (induction k)
    case (Suc k)
    have "U (Suc (Suc 0)) (Suc (Suc k)) = U (Suc 0) (Suc (Suc k)) + U (Suc (Suc 0)) (Suc k) + U (Suc 0) (Suc k)" by (rule U.simps)
    then show ?case using Suc U_1 [of "Suc k"] U_1 [of k] by simp
  qed simp
  then show ?thesis by (simp add: numeral_2_eq_2)
qed

section \<open>The index of a vector\<close>

definition pulses :: "int list \<Rightarrow> nat" where
  "pulses y = sum_list (map (\<lambda>v. nat \<bar>v\<bar>) y)"

lemma pulses_simps [simp]: "pulses [] = 0" "pulses (v # y) = nat \<bar>v\<bar> + pulses y"
  by (simp_all add: pulses_def)

fun index_of :: "int list \<Rightarrow> nat" where
  "index_of [] = 0"
| "index_of (v # y) = index_of y + U (Suc (length y)) (pulses y) +
     (if v < 0 then U (Suc (length y)) (pulses y + nat \<bar>v\<bar> + 1) else 0)"

text \<open>The largest \<open>j \<le> k\<close> with \<open>U n j \<le> i\<close>.\<close>

fun largest :: "nat \<Rightarrow> nat \<Rightarrow> nat \<Rightarrow> nat" where
  "largest n i 0 = 0"
| "largest n i (Suc k) = (if U n (Suc k) \<le> i then Suc k else largest n i k)"

fun vector_at :: "nat \<Rightarrow> nat \<Rightarrow> nat \<Rightarrow> int list" where
  "vector_at 0 k i = []"
| "vector_at (Suc n) k i =
     (let p = U (Suc n) (Suc k); neg = p \<le> i; i = (if neg then i - p else i); k' = largest (Suc n) i k
      in (if neg then - int (k - k') else int (k - k')) # vector_at n k' (i - U (Suc n) k'))"

lemma largest_props: "largest (Suc n) i k \<le> k \<and> U (Suc n) (largest (Suc n) i k) \<le> i \<and> (i < U (Suc n) (Suc k) \<longrightarrow> i < U (Suc n) (Suc (largest (Suc n) i k)))"
  by (induction k) (auto simp del: U.simps(4))

lemma largest_unique:
  assumes "j \<le> k" and "U (Suc n) j \<le> i" and "i < U (Suc n) (Suc j)"
  shows "largest (Suc n) i k = j"
proof -
  let ?m = "largest (Suc n) i k"
  have m: "?m \<le> k" "U (Suc n) ?m \<le> i" "i < U (Suc n) (Suc k) \<longrightarrow> i < U (Suc n) (Suc ?m)" using largest_props by blast+
  have "U (Suc n) (Suc j) \<le> U (Suc n) (Suc k)" using assms(1) by (intro U_mono) simp_all
  then have up: "i < U (Suc n) (Suc ?m)" using m(3) assms(3) by (simp only: less_le_trans)
  show ?thesis
  proof (rule linorder_cases [of ?m j])
    assume "?m < j"
    then have "U (Suc n) (Suc ?m) \<le> U (Suc n) j" by (intro U_mono) simp_all
    then show ?thesis using up assms(2) by linarith
  next
    assume "j < ?m"
    then have "U (Suc n) (Suc j) \<le> U (Suc n) ?m" by (intro U_mono) simp_all
    then show ?thesis using m(2) assms(3) by linarith
  qed
qed

lemma index_less: "index_of y < V (length y) (pulses y)"
proof (induction y)
  case (Cons v y)
  let ?n = "Suc (length y)" and ?k = "pulses y" and ?m = "nat \<bar>v\<bar> + pulses y"
  have base: "index_of y + U ?n ?k < U ?n (Suc ?k)" using Cons U_step [of "length y" ?k] by simp
  show ?case
  proof (cases "v < 0")
    case True
    then have "U ?n (Suc ?k) \<le> U ?n ?m" by (intro U_mono) simp_all
    then show ?thesis using base True by (simp add: V_def ac_simps del: U.simps)
  next
    case False
    have "U ?n (Suc ?k) \<le> U ?n (Suc ?m)" by (intro U_mono) simp_all
    then show ?thesis using base False by (simp add: V_def del: U.simps)
  qed
qed (simp add: V_def)

lemma vector_at_index: "vector_at (length y) (pulses y) (index_of y) = y"
proof (induction y)
  case (Cons v y)
  let ?n = "Suc (length y)" and ?k = "pulses y" and ?m = "nat \<bar>v\<bar> + pulses y" and ?r = "index_of y + U (Suc (length y)) (pulses y)"
  have r: "U ?n ?k \<le> ?r" "?r < U ?n (Suc ?k)" using index_less [of y] U_step [of "length y" ?k] by simp_all
  have l: "largest ?n ?r ?m = ?k" using r by (intro largest_unique) simp_all
  have neg: "U ?n (Suc ?m) \<le> index_of (v # y) \<longleftrightarrow> v < 0"
  proof (cases "v < 0")
    case True
    then show ?thesis by (simp add: ac_simps del: U.simps)
  next
    case False
    have "U ?n (Suc ?k) \<le> U ?n (Suc ?m)" by (intro U_mono) simp_all
    then show ?thesis using False r by (simp del: U.simps)
  qed
  have i: "(if v < 0 then index_of (v # y) - U ?n (Suc ?m) else index_of (v # y)) = ?r" by (simp add: ac_simps del: U.simps)
  show ?case using Cons unfolding list.size(4) pulses_simps add_Suc_right add_0_right vector_at.simps Let_def neg i l by auto
qed simp

lemma vector_at_props:
  assumes "i < V n k"
  shows "length (vector_at n k i) = n \<and> pulses (vector_at n k i) = k \<and> index_of (vector_at n k i) = i"
  using assms
proof (induction n arbitrary: k i)
  case 0
  then show ?case by (cases k) (simp_all add: V_def)
next
  case (Suc n)
  let ?p = "U (Suc n) (Suc k)"
  define neg where "neg \<longleftrightarrow> ?p \<le> i"
  define j where "j = (if neg then i - ?p else i)"
  define k' where "k' = largest (Suc n) j k"
  have i: "i < U (Suc n) k + ?p" using Suc.prems by (simp only: V_def)
  have j: "j < ?p" "neg \<longrightarrow> j < U (Suc n) k"
    using i U_mono_step [of "Suc n" k] by (auto simp: j_def neg_def simp del: U.simps)
  have k': "k' \<le> k" "U (Suc n) k' \<le> j" "j < U (Suc n) (Suc k')" using largest_props [of n j k] j(1) unfolding k'_def by blast+
  have less: "k' < k" if neg
  proof (rule ccontr)
    assume "\<not> k' < k"
    then have "k' = k" using k'(1) by simp
    then show False using k'(2) j(2) that by simp
  qed
  have "j - U (Suc n) k' < V n k'" using k'(2,3) U_step [of n k'] by simp
  from Suc.IH [OF this] have ih: "length (vector_at n k' (j - U (Suc n) k')) = n" "pulses (vector_at n k' (j - U (Suc n) k')) = k'"
    "index_of (vector_at n k' (j - U (Suc n) k')) = j - U (Suc n) k'" by blast+
  have run: "vector_at (Suc n) k i = (if neg then - int (k - k') else int (k - k')) # vector_at n k' (j - U (Suc n) k')"
    by (simp add: Let_def neg_def j_def k'_def del: U.simps)
  have abs: "nat \<bar>if neg then - int (k - k') else int (k - k')\<bar> = k - k'" by simp
  have sign: "(if neg then - int (k - k') else int (k - k')) < 0 \<longleftrightarrow> neg" using less by auto
  have "index_of (vector_at (Suc n) k i) = i"
    unfolding run index_of.simps ih abs sign using k' by (auto simp: j_def neg_def simp del: U.simps)
  moreover have "length (vector_at (Suc n) k i) = Suc n" "pulses (vector_at (Suc n) k i) = k"
    unfolding run list.size pulses_simps ih abs using k'(1) by simp_all
  ultimately show ?case by blast
qed

text \<open>The pulse vectors of \<open>n\<close> places and \<open>k\<close> pulses.\<close>

definition codebook :: "nat \<Rightarrow> nat \<Rightarrow> int list set" where
  "codebook n k = {y. length y = n \<and> pulses y = k}"

lemma index_bij: "bij_betw index_of (codebook n k) {..< V n k}"
proof (rule bij_betw_byWitness [where f' = "vector_at n k"])
  show "\<forall>y \<in> codebook n k. vector_at n k (index_of y) = y" using vector_at_index by (auto simp: codebook_def)
  show "\<forall>i \<in> {..< V n k}. index_of (vector_at n k i) = i" using vector_at_props by blast
  show "index_of ` codebook n k \<subseteq> {..< V n k}" using index_less by (auto simp: codebook_def)
  show "vector_at n k ` {..< V n k} \<subseteq> codebook n k" using vector_at_props by (auto simp: codebook_def)
qed

end
