(* ===== verification/OpusCwrs.thy ===== *)
theory OpusCwrs
  imports OpusPvq OpusRange
begin

text \<open>
  The pulse coder of CELT (opus/celt/cwrs.c, the build without SMALL_FOOTPRINT and CUSTOM_MODES): the table
  of U(N,K), the index of a pulse vector and the vector of an index. \<open>ensure\<close> also stands for the
  assertions of the code. The pulses of a band, and the places, are counted by natural numbers.
\<close>

section \<open>The table\<close>

text \<open>\<open>CELT_PVQ_U_DATA\<close>, row by row; row N starts with U(N,N).\<close>

definition PVQ_N0 :: "32 word list" where
  "PVQ_N0 = [
    1, 0, 0, 0, 0, 0, 0, 0, 0, 0, 0, 0, 0, 0, 0, 0, 0, 0, 0, 0, 0, 0, 0, 0, 0, 0,
    0, 0, 0, 0, 0, 0, 0, 0, 0, 0, 0, 0, 0, 0, 0, 0, 0, 0, 0, 0, 0, 0, 0, 0, 0, 0,
    0, 0, 0, 0, 0, 0, 0, 0, 0, 0, 0, 0, 0, 0, 0, 0, 0, 0, 0, 0, 0, 0, 0, 0, 0, 0,
    0, 0, 0, 0, 0, 0, 0, 0, 0, 0, 0, 0, 0, 0, 0, 0, 0, 0, 0, 0, 0, 0, 0, 0, 0, 0,
    0, 0, 0, 0, 0, 0, 0, 0, 0, 0, 0, 0, 0, 0, 0, 0, 0, 0, 0, 0, 0, 0, 0, 0, 0, 0,
    0, 0, 0, 0, 0, 0, 0, 0, 0, 0, 0, 0, 0, 0, 0, 0, 0, 0, 0, 0, 0, 0, 0, 0, 0, 0,
    0, 0, 0, 0, 0, 0, 0, 0, 0, 0, 0, 0, 0, 0, 0, 0, 0, 0, 0, 0, 0]"

definition PVQ_N1 :: "32 word list" where
  "PVQ_N1 = [
    1, 1, 1, 1, 1, 1, 1, 1, 1, 1, 1, 1, 1, 1, 1, 1, 1, 1, 1, 1, 1, 1, 1, 1, 1, 1,
    1, 1, 1, 1, 1, 1, 1, 1, 1, 1, 1, 1, 1, 1, 1, 1, 1, 1, 1, 1, 1, 1, 1, 1, 1, 1,
    1, 1, 1, 1, 1, 1, 1, 1, 1, 1, 1, 1, 1, 1, 1, 1, 1, 1, 1, 1, 1, 1, 1, 1, 1, 1,
    1, 1, 1, 1, 1, 1, 1, 1, 1, 1, 1, 1, 1, 1, 1, 1, 1, 1, 1, 1, 1, 1, 1, 1, 1, 1,
    1, 1, 1, 1, 1, 1, 1, 1, 1, 1, 1, 1, 1, 1, 1, 1, 1, 1, 1, 1, 1, 1, 1, 1, 1, 1,
    1, 1, 1, 1, 1, 1, 1, 1, 1, 1, 1, 1, 1, 1, 1, 1, 1, 1, 1, 1, 1, 1, 1, 1, 1, 1,
    1, 1, 1, 1, 1, 1, 1, 1, 1, 1, 1, 1, 1, 1, 1, 1, 1, 1, 1, 1]"

definition PVQ_N2 :: "32 word list" where
  "PVQ_N2 = [
    3, 5, 7, 9, 11, 13, 15, 17, 19, 21, 23, 25, 27, 29, 31, 33, 35, 37, 39, 41,
    43, 45, 47, 49, 51, 53, 55, 57, 59, 61, 63, 65, 67, 69, 71, 73, 75, 77, 79,
    81, 83, 85, 87, 89, 91, 93, 95, 97, 99, 101, 103, 105, 107, 109, 111, 113,
    115, 117, 119, 121, 123, 125, 127, 129, 131, 133, 135, 137, 139, 141, 143,
    145, 147, 149, 151, 153, 155, 157, 159, 161, 163, 165, 167, 169, 171, 173,
    175, 177, 179, 181, 183, 185, 187, 189, 191, 193, 195, 197, 199, 201, 203,
    205, 207, 209, 211, 213, 215, 217, 219, 221, 223, 225, 227, 229, 231, 233,
    235, 237, 239, 241, 243, 245, 247, 249, 251, 253, 255, 257, 259, 261, 263,
    265, 267, 269, 271, 273, 275, 277, 279, 281, 283, 285, 287, 289, 291, 293,
    295, 297, 299, 301, 303, 305, 307, 309, 311, 313, 315, 317, 319, 321, 323,
    325, 327, 329, 331, 333, 335, 337, 339, 341, 343, 345, 347, 349, 351]"

definition PVQ_N3 :: "32 word list" where
  "PVQ_N3 = [
    13, 25, 41, 61, 85, 113, 145, 181, 221, 265, 313, 365, 421, 481, 545, 613,
    685, 761, 841, 925, 1013, 1105, 1201, 1301, 1405, 1513, 1625, 1741, 1861,
    1985, 2113, 2245, 2381, 2521, 2665, 2813, 2965, 3121, 3281, 3445, 3613, 3785,
    3961, 4141, 4325, 4513, 4705, 4901, 5101, 5305, 5513, 5725, 5941, 6161, 6385,
    6613, 6845, 7081, 7321, 7565, 7813, 8065, 8321, 8581, 8845, 9113, 9385, 9661,
    9941, 10225, 10513, 10805, 11101, 11401, 11705, 12013, 12325, 12641, 12961,
    13285, 13613, 13945, 14281, 14621, 14965, 15313, 15665, 16021, 16381, 16745,
    17113, 17485, 17861, 18241, 18625, 19013, 19405, 19801, 20201, 20605, 21013,
    21425, 21841, 22261, 22685, 23113, 23545, 23981, 24421, 24865, 25313, 25765,
    26221, 26681, 27145, 27613, 28085, 28561, 29041, 29525, 30013, 30505, 31001,
    31501, 32005, 32513, 33025, 33541, 34061, 34585, 35113, 35645, 36181, 36721,
    37265, 37813, 38365, 38921, 39481, 40045, 40613, 41185, 41761, 42341, 42925,
    43513, 44105, 44701, 45301, 45905, 46513, 47125, 47741, 48361, 48985, 49613,
    50245, 50881, 51521, 52165, 52813, 53465, 54121, 54781, 55445, 56113, 56785,
    57461, 58141, 58825, 59513, 60205, 60901, 61601]"

definition PVQ_N4 :: "32 word list" where
  "PVQ_N4 = [
    63, 129, 231, 377, 575, 833, 1159, 1561, 2047, 2625, 3303, 4089, 4991, 6017,
    7175, 8473, 9919, 11521, 13287, 15225, 17343, 19649, 22151, 24857, 27775,
    30913, 34279, 37881, 41727, 45825, 50183, 54809, 59711, 64897, 70375, 76153,
    82239, 88641, 95367, 102425, 109823, 117569, 125671, 134137, 142975, 152193,
    161799, 171801, 182207, 193025, 204263, 215929, 228031, 240577, 253575,
    267033, 280959, 295361, 310247, 325625, 341503, 357889, 374791, 392217,
    410175, 428673, 447719, 467321, 487487, 508225, 529543, 551449, 573951,
    597057, 620775, 645113, 670079, 695681, 721927, 748825, 776383, 804609,
    833511, 863097, 893375, 924353, 956039, 988441, 1021567, 1055425, 1090023,
    1125369, 1161471, 1198337, 1235975, 1274393, 1313599, 1353601, 1394407,
    1436025, 1478463, 1521729, 1565831, 1610777, 1656575, 1703233, 1750759,
    1799161, 1848447, 1898625, 1949703, 2001689, 2054591, 2108417, 2163175,
    2218873, 2275519, 2333121, 2391687, 2451225, 2511743, 2573249, 2635751,
    2699257, 2763775, 2829313, 2895879, 2963481, 3032127, 3101825, 3172583,
    3244409, 3317311, 3391297, 3466375, 3542553, 3619839, 3698241, 3777767,
    3858425, 3940223, 4023169, 4107271, 4192537, 4278975, 4366593, 4455399,
    4545401, 4636607, 4729025, 4822663, 4917529, 5013631, 5110977, 5209575,
    5309433, 5410559, 5512961, 5616647, 5721625, 5827903, 5935489, 6044391,
    6154617, 6266175, 6379073, 6493319, 6608921, 6725887, 6844225, 6963943,
    7085049, 7207551]"

definition PVQ_N5 :: "32 word list" where
  "PVQ_N5 = [
    321, 681, 1289, 2241, 3649, 5641, 8361, 11969, 16641, 22569, 29961, 39041,
    50049, 63241, 78889, 97281, 118721, 143529, 172041, 204609, 241601, 283401,
    330409, 383041, 441729, 506921, 579081, 658689, 746241, 842249, 947241,
    1061761, 1186369, 1321641, 1468169, 1626561, 1797441, 1981449, 2179241,
    2391489, 2618881, 2862121, 3121929, 3399041, 3694209, 4008201, 4341801,
    4695809, 5071041, 5468329, 5888521, 6332481, 6801089, 7295241, 7815849,
    8363841, 8940161, 9545769, 10181641, 10848769, 11548161, 12280841, 13047849,
    13850241, 14689089, 15565481, 16480521, 17435329, 18431041, 19468809,
    20549801, 21675201, 22846209, 24064041, 25329929, 26645121, 28010881,
    29428489, 30899241, 32424449, 34005441, 35643561, 37340169, 39096641,
    40914369, 42794761, 44739241, 46749249, 48826241, 50971689, 53187081,
    55473921, 57833729, 60268041, 62778409, 65366401, 68033601, 70781609,
    73612041, 76526529, 79526721, 82614281, 85790889, 89058241, 92418049,
    95872041, 99421961, 103069569, 106816641, 110664969, 114616361, 118672641,
    122835649, 127107241, 131489289, 135983681, 140592321, 145317129, 150160041,
    155123009, 160208001, 165417001, 170752009, 176215041, 181808129, 187533321,
    193392681, 199388289, 205522241, 211796649, 218213641, 224775361, 231483969,
    238341641, 245350569, 252512961, 259831041, 267307049, 274943241, 282741889,
    290705281, 298835721, 307135529, 315607041, 324252609, 333074601, 342075401,
    351257409, 360623041, 370174729, 379914921, 389846081, 399970689, 410291241,
    420810249, 431530241, 442453761, 453583369, 464921641, 476471169, 488234561,
    500214441, 512413449, 524834241, 537479489, 550351881, 563454121, 576788929,
    590359041, 604167209, 618216201, 632508801]"

definition PVQ_N6 :: "32 word list" where
  "PVQ_N6 = [
    1683, 3653, 7183, 13073, 22363, 36365, 56695, 85305, 124515, 177045, 246047,
    335137, 448427, 590557, 766727, 982729, 1244979, 1560549, 1937199, 2383409,
    2908411, 3522221, 4235671, 5060441, 6009091, 7095093, 8332863, 9737793,
    11326283, 13115773, 15124775, 17372905, 19880915, 22670725, 25765455,
    29189457, 32968347, 37129037, 41699767, 46710137, 52191139, 58175189,
    64696159, 71789409, 79491819, 87841821, 96879431, 106646281, 117185651,
    128542501, 140763503, 153897073, 167993403, 183104493, 199284183, 216588185,
    235074115, 254801525, 275831935, 298228865, 322057867, 347386557, 374284647,
    402823977, 433078547, 465124549, 499040399, 534906769, 572806619, 612825229,
    655050231, 699571641, 746481891, 795875861, 847850911, 902506913, 959946283,
    1020274013, 1083597703, 1150027593, 1219676595, 1292660325, 1369097135,
    1449108145, 1532817275, 1620351277, 1711839767, 1807415257, 1907213187,
    2011371957, 2120032959]"

definition PVQ_N7 :: "32 word list" where
  "PVQ_N7 = [
    8989, 19825, 40081, 75517, 134245, 227305, 369305, 579125, 880685, 1303777,
    1884961, 2668525, 3707509, 5064793, 6814249, 9041957, 11847485, 15345233,
    19665841, 24957661, 31388293, 39146185, 48442297, 59511829, 72616013,
    88043969, 106114625, 127178701, 151620757, 179861305, 212358985, 249612805,
    292164445, 340600625, 395555537, 457713341, 527810725, 606639529, 695049433,
    793950709, 904317037, 1027188385, 1163673953, 1314955181, 1482288821,
    1667010073, 1870535785, 2094367717]"

definition PVQ_N8 :: "32 word list" where
  "PVQ_N8 = [
    48639, 108545, 224143, 433905, 795455, 1392065, 2340495, 3800305, 5984767,
    9173505, 13726991, 20103025, 28875327, 40754369, 56610575, 77500017,
    104692735, 139703809, 184327311, 240673265, 311207743, 398796225, 506750351,
    638878193, 799538175, 993696769, 1226990095, 1505789553, 1837271615,
    2229491905]"

definition PVQ_N9 :: "32 word list" where
  "PVQ_N9 = [
    265729, 598417, 1256465, 2485825, 4673345, 8405905, 14546705, 24331777,
    39490049, 62390545, 96220561, 145198913, 214828609, 312193553, 446304145,
    628496897, 872893441, 1196924561, 1621925137, 2173806145]"

definition PVQ_N10 :: "32 word list" where
  "PVQ_N10 = [
    1462563, 3317445, 7059735, 14218905, 27298155, 50250765, 89129247, 152951073,
    254831667, 413442773, 654862247, 1014889769, 1541911931, 2300409629,
    3375210671]"

definition PVQ_N11 :: "32 word list" where
  "PVQ_N11 = [
    8097453, 18474633, 39753273, 81270333, 158819253, 298199265, 540279585,
    948062325, 1616336765]"

definition PVQ_N12 :: "32 word list" where
  "PVQ_N12 = [
    45046719, 103274625, 224298231, 464387817, 921406335, 1759885185,
    3248227095]"

definition PVQ_N13 :: "32 word list" where
  "PVQ_N13 = [
    251595969, 579168825, 1267854873, 2653649025]"

definition PVQ_N14 :: "32 word list" where
  "PVQ_N14 = [
    1409933619]"

definition PVQ_ROWS :: "32 word list list" where
  "PVQ_ROWS = [PVQ_N0, PVQ_N1, PVQ_N2, PVQ_N3, PVQ_N4, PVQ_N5, PVQ_N6, PVQ_N7, PVQ_N8, PVQ_N9, PVQ_N10, PVQ_N11,
    PVQ_N12, PVQ_N13, PVQ_N14]"

definition CELT_PVQ_U_DATA :: "32 word list" where
  "CELT_PVQ_U_DATA = concat PVQ_ROWS"

definition CELT_PVQ_U_ROW :: "nat list" where
  "CELT_PVQ_U_ROW = [0, 176, 351, 525, 698, 870, 1041, 1131, 1178, 1207, 1226, 1240, 1248, 1254, 1257]"

text \<open>\<open>CELT_PVQ_U_ROW[r][c]\<close>.\<close>

definition pvq_row :: "nat \<Rightarrow> nat \<Rightarrow> 32 word option" where
  "pvq_row r c = do { p \<leftarrow> rd CELT_PVQ_U_ROW r; rd CELT_PVQ_U_DATA (p + c) }"

definition CELT_PVQ_U :: "nat \<Rightarrow> nat \<Rightarrow> 32 word option" where
  "CELT_PVQ_U n k = pvq_row (min n k) (max n k)"

definition CELT_PVQ_V :: "nat \<Rightarrow> nat \<Rightarrow> 32 word option" where
  "CELT_PVQ_V n k = do { a \<leftarrow> CELT_PVQ_U n k; b \<leftarrow> CELT_PVQ_U n (k + 1); Some (a + b) }"

section \<open>Encoding\<close>

text \<open>The loop of \<open>icwrs\<close>, entered with \<open>j > 0\<close>.\<close>

fun icwrs_loop :: "nat \<Rightarrow> int list \<Rightarrow> nat \<Rightarrow> nat \<Rightarrow> 32 word \<Rightarrow> 32 word option" where
  "icwrs_loop n y 0 k i = Some i"
| "icwrs_loop n y (Suc j) k i =
     do { a \<leftarrow> CELT_PVQ_U (n - j) k;
          v \<leftarrow> rd y j;
          l \<leftarrow> i32 \<bar>v\<bar>;
          k \<leftarrow> i32 (int k + l);
          b \<leftarrow> (if v < 0 then CELT_PVQ_U (n - j) (nat k + 1) else Some 0);
          icwrs_loop n y j (nat k) (i + a + b) }"

definition icwrs :: "nat \<Rightarrow> int list \<Rightarrow> 32 word option" where
  "icwrs n y =
     do { u \<leftarrow> ensure (2 \<le> n);
          v \<leftarrow> rd y (n - 1);
          k \<leftarrow> i32 \<bar>v\<bar>;
          icwrs_loop n y (n - 1) (nat k) (if v < 0 then 1 else 0) }"

definition encode_pulses :: "int list \<Rightarrow> nat \<Rightarrow> nat \<Rightarrow> ec_ctx \<Rightarrow> ec_ctx option" where
  "encode_pulses y n k c =
     do { u \<leftarrow> ensure (0 < k);
          i \<leftarrow> icwrs n y;
          v \<leftarrow> CELT_PVQ_V n k;
          ec_enc_uint c i v }"

section \<open>Decoding\<close>

text \<open>\<open>opus_int16 val\<close> and the sum of squares after it; \<open>s\<close> is -1 for a negative value.\<close>

definition i16 :: "int \<Rightarrow> int" where
  "i16 x = sint (word_of_int x :: 16 word)"

definition emit :: "int \<Rightarrow> nat \<Rightarrow> nat \<Rightarrow> int \<Rightarrow> (int \<times> int) option" where
  "emit s k0 k yy =
     (let val = i16 ((int k0 - int k + s) XOR s)
      in do { yy \<leftarrow> i32 (yy + val * val); Some (val, yy) })"

text \<open>
  The loops that look for the pulses left: down a column of the table, from the row above, and down a row.
  The first column of a row is not left: the loops end before.
\<close>

fun down_col :: "nat \<Rightarrow> 32 word \<Rightarrow> nat \<Rightarrow> (nat \<times> 32 word) option" where
  "down_col n i 0 = None"
| "down_col n i (Suc k) = do { p \<leftarrow> pvq_row k n; if p > i then down_col n i k else Some (k, p) }"

fun down_row :: "nat \<Rightarrow> 32 word \<Rightarrow> nat \<Rightarrow> (nat \<times> 32 word) option" where
  "down_row n i 0 = do { p \<leftarrow> pvq_row n 0; u \<leftarrow> ensure (p \<le> i); Some (0, p) }"
| "down_row n i (Suc k) = do { p \<leftarrow> pvq_row n (Suc k); if p > i then down_row n i k else Some (Suc k, p) }"

text \<open>One turn of the loop of \<open>cwrsi\<close>: the value of the place, the pulses left, the index left, the sum of squares.\<close>

definition pulse_place :: "nat \<Rightarrow> nat \<Rightarrow> 32 word \<Rightarrow> int \<Rightarrow> (int \<times> nat \<times> 32 word \<times> int) option" where
  "pulse_place n k i yy =
     (if k \<ge> n
      then do { p \<leftarrow> pvq_row n (k + 1);
                (let s = (if i \<ge> p then - 1 else 0); i = i - (p AND word_of_int s)
                 in do { q \<leftarrow> pvq_row n n;
                         (k', p) \<leftarrow> (if q > i then do { u \<leftarrow> ensure (p > q); down_col n i n } else down_row n i k);
                         (val, yy) \<leftarrow> emit s k k' yy;
                         Some (val, k', i - p, yy) }) }
      else do { p \<leftarrow> pvq_row k n;
                q \<leftarrow> pvq_row (k + 1) n;
                (if p \<le> i \<and> i < q then Some (0, k, i - p, yy)
                 else (let s = (if i \<ge> q then - 1 else 0); i = i - (q AND word_of_int s)
                       in do { (k', p) \<leftarrow> down_col n i k;
                               (val, yy) \<leftarrow> emit s k k' yy;
                               Some (val, k', i - p, yy) })) })"

fun cwrsi_loop :: "nat \<Rightarrow> nat \<Rightarrow> 32 word \<Rightarrow> int \<Rightarrow> (int list \<times> nat \<times> 32 word \<times> int) option" where
  "cwrsi_loop n k i yy =
     (if n > 2
      then do { (v, k, i, yy) \<leftarrow> pulse_place n k i yy; (y, r) \<leftarrow> cwrsi_loop (n - 1) k i yy; Some (v # y, r) }
      else Some ([], k, i, yy))"

declare cwrsi_loop.simps [simp del]

text \<open>The last two places.\<close>

definition last_places :: "nat \<Rightarrow> 32 word \<Rightarrow> int \<Rightarrow> (int \<times> int \<times> int) option" where
  "last_places k i yy =
     (let p = word_of_nat (2 * k + 1); s = (if i \<ge> p then - 1 else 0); i = i - (p AND word_of_int s);
          k0 = k; k = unat (drop_bit 1 (i + 1)); i = (if k \<noteq> 0 then i - word_of_int (2 * int k - 1) else i)
      in do { (v1, yy) \<leftarrow> emit s k0 k yy;
              s \<leftarrow> i32 (- sint i);
              (v2, yy) \<leftarrow> emit s k 0 yy;
              Some (v1, v2, yy) })"

definition cwrsi :: "nat \<Rightarrow> nat \<Rightarrow> 32 word \<Rightarrow> (int list \<times> int) option" where
  "cwrsi n k i =
     do { u \<leftarrow> ensure (0 < k \<and> 1 < n);
          (y, k, i, yy) \<leftarrow> cwrsi_loop n k i 0;
          (v1, v2, yy) \<leftarrow> last_places k i yy;
          Some (y @ [v1, v2], yy) }"

definition decode_pulses :: "nat \<Rightarrow> nat \<Rightarrow> ec_ctx \<Rightarrow> ((int list \<times> int) \<times> ec_ctx) option" where
  "decode_pulses n k c =
     do { v \<leftarrow> CELT_PVQ_V n k;
          (i, c) \<leftarrow> ec_dec_uint c v;
          r \<leftarrow> cwrsi n k i;
          Some (r, c) }"

end
