(* ===== verification/OpusCwrsProofs.thy ===== *)
theory OpusCwrsProofs
  imports OpusCwrs OpusRangeProps
begin

text \<open>
  The pulse coder refines the codebook of OpusPvq: the table holds U(N,K) at every place the code reads,
  \<open>icwrs\<close> is \<open>index_of\<close>, \<open>cwrsi\<close> is \<open>vector_at\<close> with the sum of squares, and a vector put into the
  range coder is taken out again.
\<close>

section \<open>The table holds U(N,K)\<close>

fun follows :: "nat \<Rightarrow> nat \<Rightarrow> 32 word list \<Rightarrow> 32 word list \<Rightarrow> bool" where
  "follows p r P [] = True"
| "follows p r [] (s # R) = False"
| "follows p r (q # P) (s # R) = (unat s = unat q + r + p \<and> follows (unat q) (unat s) P R)"

definition row_from :: "nat \<Rightarrow> nat \<Rightarrow> 32 word list \<Rightarrow> bool" where
  "row_from n c R \<longleftrightarrow> (\<forall>i < length R. unat (R ! i) = U n (c + i))"

lemma row_from_Cons: "row_from n c (x # R) \<longleftrightarrow> unat x = U n c \<and> row_from n (Suc c) R"
  unfolding row_from_def by (auto simp: less_Suc_eq_0_disj simp del: U.simps)

lemma follows_row:
  "follows (U n c) (U (Suc n) c) P R \<Longrightarrow> row_from n (Suc c) P \<Longrightarrow> row_from (Suc n) (Suc c) R"
proof (induction P arbitrary: c R)
  case Nil
  then show ?case by (cases R) (simp_all add: row_from_def)
next
  case (Cons q P)
  show ?case
  proof (cases R)
    case (Cons s R')
    have q: "unat q = U n (Suc c)" "row_from n (Suc (Suc c)) P" using Cons.prems(2) by (simp_all add: row_from_Cons)
    have f: "unat s = unat q + U (Suc n) c + U n c" "follows (unat q) (unat s) P R'" using Cons.prems(1) unfolding Cons follows.simps by blast+
    have s: "unat s = U (Suc n) (Suc c)" "follows (U n (Suc c)) (unat s) P R'" using f q(1) by simp_all
    have "row_from (Suc n) (Suc (Suc c)) R'" using s(2) unfolding s(1) by (rule Cons.IH [OF _ q(2)])
    then show ?thesis using s(1) Cons by (simp only: row_from_Cons)
  qed (simp add: row_from_def)
qed

lemma next_row:
  assumes "follows (unat p) (unat q) (q # P) R" and "row_from n n (p # q # P)"
  shows "row_from (Suc n) (Suc n) R"
proof (rule follows_row)
  have r: "unat p = U n n" "unat q = U n (Suc n)" "row_from n (Suc n) (q # P)" using assms(2) by (simp_all add: row_from_Cons)
  then show "row_from n (Suc n) (q # P)" by simp
  show "follows (U n n) (U (Suc n) n) (q # P) R" using assms(1) r(1,2) U_sym [of "Suc n" n] by simp
qed

lemma row_0: "row_from 0 0 PVQ_N0"
  unfolding PVQ_N0_def row_from_Cons by (simp add: row_from_def)

lemma row_1: "row_from (Suc 0) (Suc 0) PVQ_N1"
  by (rule next_row [OF _ row_0 [unfolded PVQ_N0_def]]) (simp add: PVQ_N1_def)

lemma row_2: "row_from (Suc (Suc 0)) (Suc (Suc 0)) PVQ_N2"
  by (rule next_row [OF _ row_1 [unfolded PVQ_N1_def]]) (simp add: PVQ_N2_def)

lemma row_3: "row_from (Suc (Suc (Suc 0))) (Suc (Suc (Suc 0))) PVQ_N3"
  by (rule next_row [OF _ row_2 [unfolded PVQ_N2_def]]) (simp add: PVQ_N3_def)

lemma row_4: "row_from (Suc (Suc (Suc (Suc 0)))) (Suc (Suc (Suc (Suc 0)))) PVQ_N4"
  by (rule next_row [OF _ row_3 [unfolded PVQ_N3_def]]) (simp add: PVQ_N4_def)

lemma row_5: "row_from (Suc (Suc (Suc (Suc (Suc 0))))) (Suc (Suc (Suc (Suc (Suc 0))))) PVQ_N5"
  by (rule next_row [OF _ row_4 [unfolded PVQ_N4_def]]) (simp add: PVQ_N5_def)

lemma row_6: "row_from (Suc (Suc (Suc (Suc (Suc (Suc 0)))))) (Suc (Suc (Suc (Suc (Suc (Suc 0)))))) PVQ_N6"
  by (rule next_row [OF _ row_5 [unfolded PVQ_N5_def]]) (simp add: PVQ_N6_def)

lemma row_7: "row_from (Suc (Suc (Suc (Suc (Suc (Suc (Suc 0))))))) (Suc (Suc (Suc (Suc (Suc (Suc (Suc 0))))))) PVQ_N7"
  by (rule next_row [OF _ row_6 [unfolded PVQ_N6_def]]) (simp add: PVQ_N7_def)

lemma row_8: "row_from (Suc (Suc (Suc (Suc (Suc (Suc (Suc (Suc 0)))))))) (Suc (Suc (Suc (Suc (Suc (Suc (Suc (Suc 0)))))))) PVQ_N8"
  by (rule next_row [OF _ row_7 [unfolded PVQ_N7_def]]) (simp add: PVQ_N8_def)

lemma row_9: "row_from (Suc (Suc (Suc (Suc (Suc (Suc (Suc (Suc (Suc 0))))))))) (Suc (Suc (Suc (Suc (Suc (Suc (Suc (Suc (Suc 0))))))))) PVQ_N9"
  by (rule next_row [OF _ row_8 [unfolded PVQ_N8_def]]) (simp add: PVQ_N9_def)

lemma row_10: "row_from (Suc (Suc (Suc (Suc (Suc (Suc (Suc (Suc (Suc (Suc 0)))))))))) (Suc (Suc (Suc (Suc (Suc (Suc (Suc (Suc (Suc (Suc 0)))))))))) PVQ_N10"
  by (rule next_row [OF _ row_9 [unfolded PVQ_N9_def]]) (simp add: PVQ_N10_def)

lemma row_11: "row_from (Suc (Suc (Suc (Suc (Suc (Suc (Suc (Suc (Suc (Suc (Suc 0))))))))))) (Suc (Suc (Suc (Suc (Suc (Suc (Suc (Suc (Suc (Suc (Suc 0))))))))))) PVQ_N11"
  by (rule next_row [OF _ row_10 [unfolded PVQ_N10_def]]) (simp add: PVQ_N11_def)

lemma row_12: "row_from (Suc (Suc (Suc (Suc (Suc (Suc (Suc (Suc (Suc (Suc (Suc (Suc 0)))))))))))) (Suc (Suc (Suc (Suc (Suc (Suc (Suc (Suc (Suc (Suc (Suc (Suc 0)))))))))))) PVQ_N12"
  by (rule next_row [OF _ row_11 [unfolded PVQ_N11_def]]) (simp add: PVQ_N12_def)

lemma row_13: "row_from (Suc (Suc (Suc (Suc (Suc (Suc (Suc (Suc (Suc (Suc (Suc (Suc (Suc 0))))))))))))) (Suc (Suc (Suc (Suc (Suc (Suc (Suc (Suc (Suc (Suc (Suc (Suc (Suc 0))))))))))))) PVQ_N13"
  by (rule next_row [OF _ row_12 [unfolded PVQ_N12_def]]) (simp add: PVQ_N13_def)

lemma row_14: "row_from (Suc (Suc (Suc (Suc (Suc (Suc (Suc (Suc (Suc (Suc (Suc (Suc (Suc (Suc 0)))))))))))))) (Suc (Suc (Suc (Suc (Suc (Suc (Suc (Suc (Suc (Suc (Suc (Suc (Suc (Suc 0)))))))))))))) PVQ_N14"
  by (rule next_row [OF _ row_13 [unfolded PVQ_N13_def]]) (simp add: PVQ_N14_def)

lemmas rows = row_0 row_1 row_2 row_3 row_4 row_5 row_6 row_7 row_8 row_9 row_10 row_11 row_12 row_13 row_14

text \<open>The last column of each row.\<close>

definition pvq_last :: "nat list" where
  "pvq_last = [176, 176, 176, 176, 176, 176, 96, 54, 37, 28, 24, 19, 18, 16, 14]"

lemma rows_ok: "list_all2 (\<lambda>n R. row_from n n R) [0..<15] PVQ_ROWS"
  using rows unfolding PVQ_ROWS_def by (simp add: upt_rec)

lemma rows_length: "map length PVQ_ROWS = map (\<lambda>(n, m). Suc m - n) (zip [0..<15] pvq_last)"
  unfolding PVQ_ROWS_def pvq_last_def
  by (simp add: upt_rec PVQ_N0_def PVQ_N1_def PVQ_N2_def PVQ_N3_def PVQ_N4_def PVQ_N5_def PVQ_N6_def PVQ_N7_def PVQ_N8_def PVQ_N9_def
      PVQ_N10_def PVQ_N11_def PVQ_N12_def PVQ_N13_def PVQ_N14_def)

lemma rows_offset: "list_all (\<lambda>r. CELT_PVQ_U_ROW ! r + r = sum_list (take r (map length PVQ_ROWS))) [0..<15]"
  unfolding rows_length pvq_last_def CELT_PVQ_U_ROW_def by (simp add: upt_rec)

lemma rd_concat:
  assumes "r < length Rs" and "i < length (Rs ! r)"
  shows "rd (concat Rs) (sum_list (take r (map length Rs)) + i) = Some (Rs ! r ! i)"
proof -
  have "concat Rs = concat (take r Rs) @ Rs ! r @ concat (drop (Suc r) Rs)"
    using arg_cong [OF id_take_nth_drop [OF assms(1)], of concat] by simp
  moreover have "length (concat (take r Rs)) = sum_list (take r (map length Rs))" by (simp add: length_concat take_map)
  ultimately show ?thesis using assms(2) by (simp add: rd_append)
qed

definition in_table :: "nat \<Rightarrow> nat \<Rightarrow> bool" where
  "in_table n k \<longleftrightarrow> min n k \<le> 14 \<and> max n k \<le> pvq_last ! min n k"

lemma row_length: "r < 15 \<Longrightarrow> length (PVQ_ROWS ! r) = Suc (pvq_last ! r) - r"
proof -
  have "length PVQ_ROWS = 15" "length pvq_last = 15" by (simp_all add: PVQ_ROWS_def pvq_last_def)
  then show "r < 15 \<Longrightarrow> length (PVQ_ROWS ! r) = Suc (pvq_last ! r) - r" using arg_cong [OF rows_length, of "\<lambda>l. l ! r"] by simp
qed

lemma pvq_row_U:
  assumes "r \<le> c" and "in_table r c"
  shows "\<exists>p. pvq_row r c = Some p \<and> unat p = U r c"
proof -
  have r: "r < 15" "c \<le> pvq_last ! r" using assms by (simp_all add: in_table_def)
  have "rd CELT_PVQ_U_ROW r = Some (CELT_PVQ_U_ROW ! r)" using r(1) by (simp add: CELT_PVQ_U_ROW_def)
  moreover have "CELT_PVQ_U_ROW ! r + r = sum_list (take r (map length PVQ_ROWS))" using rows_offset r(1) by (simp add: list_all_iff)
  moreover note row_length [OF r(1)]
  moreover have "row_from r r (PVQ_ROWS ! r)" using rows_ok r(1) by (auto dest!: list_all2_nthD [of _ _ _ r])
  moreover have "length PVQ_ROWS = 15" by (simp add: PVQ_ROWS_def)
  moreover have "CELT_PVQ_U_ROW ! r + c = (CELT_PVQ_U_ROW ! r + r) + (c - r)" using assms(1) by simp
  ultimately show ?thesis
    using rd_concat [of r PVQ_ROWS "c - r"] assms(1) r by (simp add: pvq_row_def CELT_PVQ_U_DATA_def row_from_def)
qed

lemma U_less:
  assumes "r \<le> c" and "in_table r c"
  shows "U r c < 2 ^ 32"
proof -
  obtain p :: "32 word" where "unat p = U r c" using pvq_row_U [OF assms] by blast
  moreover have "unat p < 2 ^ 32" by (rule order.strict_trans2 [OF unsigned_less]) simp
  ultimately show ?thesis by simp
qed

lemma celt_u: "in_table n k \<Longrightarrow> \<exists>p. CELT_PVQ_U n k = Some p \<and> unat p = U n k"
  using pvq_row_U [of "min n k" "max n k"] U_sym [of n k] by (auto simp: CELT_PVQ_U_def min_def max_def in_table_def split: if_splits)

lemma last_antimono: "r \<le> s \<Longrightarrow> s \<le> 14 \<Longrightarrow> pvq_last ! s \<le> pvq_last ! r"
proof -
  have "sorted_wrt (\<ge>) pvq_last" by (simp add: pvq_last_def)
  moreover have "length pvq_last = 15" by (simp add: pvq_last_def)
  ultimately show "r \<le> s \<Longrightarrow> s \<le> 14 \<Longrightarrow> pvq_last ! s \<le> pvq_last ! r" by (cases "r = s") (auto simp: sorted_wrt_iff_nth_less)
qed

lemma in_table_mono:
  assumes "in_table n k" and "n' \<le> n" and "k' \<le> k"
  shows "in_table n' k'"
proof -
  have "min n' k' \<le> min n k" "max n' k' \<le> max n k" using assms(2,3) by (auto simp: min_def max_def)
  then show ?thesis using assms(1) last_antimono [of "min n' k'" "min n k"] unfolding in_table_def by linarith
qed

lemma in_table_sym: "in_table n k \<longleftrightarrow> in_table k n"
  by (simp add: in_table_def min.commute max.commute)

section \<open>The index of a vector\<close>

lemma celt_u_word:
  assumes "in_table n k" and "n' \<le> n" and "k' \<le> k"
  shows "CELT_PVQ_U n' k' = Some (word_of_nat (U n' k'))"
proof -
  obtain p where p: "CELT_PVQ_U n' k' = Some p" "unat p = U n' k'" using celt_u [OF in_table_mono [OF assms]] by blast
  then have "p = word_of_nat (U n' k')" by (simp flip: p(2))
  then show ?thesis using p(1) by simp
qed

lemma pulses_append: "pulses (xs @ ys) = pulses xs + pulses ys"
  by (simp add: pulses_def)

lemma pulses_drop: "pulses (drop j y) \<le> pulses y"
  using pulses_append [of "take j y" "drop j y"] by simp

lemma icwrs_loop_index:
  assumes "in_table (length y) (pulses y + 1)" and "pulses y < 2 ^ 31" and "j < length y"
  shows "icwrs_loop (length y) y j (pulses (drop j y)) (word_of_nat (index_of (drop j y))) = Some (word_of_nat (index_of y))"
  using assms(3)
proof (induction j)
  case (Suc j)
  define t v where "t = drop (Suc j) y" and "v = y ! j"
  have d: "drop j y = v # t" using Suc.prems unfolding t_def v_def by (simp add: Cons_nth_drop_Suc)
  have n: "length y - j = Suc (length t)" "Suc (length t) \<le> length y" using Suc.prems by (simp_all add: t_def)
  have le: "nat \<bar>v\<bar> + pulses t \<le> pulses y" using pulses_drop [of j y] by (simp add: d)
  have u: "CELT_PVQ_U (length y - j) (pulses t) = Some (word_of_nat (U (Suc (length t)) (pulses t)))"
    "CELT_PVQ_U (length y - j) (nat \<bar>v\<bar> + pulses t + 1) = Some (word_of_nat (U (Suc (length t)) (nat \<bar>v\<bar> + pulses t + 1)))"
    unfolding n(1) using le n(2) by (intro celt_u_word [OF assms(1)]; simp)+
  have i: "i32 \<bar>v\<bar> = Some \<bar>v\<bar>" "i32 (int (pulses t) + \<bar>v\<bar>) = Some (int (nat \<bar>v\<bar> + pulses t))"
    using le assms(2) by (auto simp: i32_def)
  have "icwrs_loop (length y) y (Suc j) (pulses t) (word_of_nat (index_of t)) =
      icwrs_loop (length y) y j (pulses (v # t)) (word_of_nat (index_of (v # t)))"
  proof (cases "v < 0")
    case True
    have "rd y j = Some v" using Suc.prems by (simp add: v_def)
    moreover have "nat (int (pulses t) - v) = pulses t + nat (- v)" using True by simp
    ultimately show ?thesis unfolding icwrs_loop.simps(2) u(1) using True i u(2) by (simp add: ac_simps del: U.simps)
  next
    case False
    have "rd y j = Some v" using Suc.prems by (simp add: v_def)
    moreover have "nat (v + int (pulses t)) = nat v + pulses t" using False by simp
    ultimately show ?thesis unfolding icwrs_loop.simps(2) u(1) using False i by (simp add: ac_simps del: U.simps)
  qed
  then show ?case using Suc by (simp add: d flip: t_def)
qed simp

lemma icwrs_index:
  assumes "in_table n (k + 1)" and "k < 2 ^ 31" and "2 \<le> n" and "length y = n" and "pulses y = k"
  shows "icwrs n y = Some (word_of_nat (index_of y))"
proof -
  have "y \<noteq> []" using assms(3,4) by auto
  have "drop (length (butlast y)) (butlast y @ [last y]) = [last y]" by simp
  then have "drop (n - 1) y = [last y]" unfolding append_butlast_last_id [OF \<open>y \<noteq> []\<close>] by (simp add: assms(4))
  then have y: "y \<noteq> []" "y ! (n - 1) = last y" "drop (n - 1) y = [last y]"
    using \<open>y \<noteq> []\<close> by (simp_all add: last_conv_nth flip: assms(4))
  have "nat \<bar>last y\<bar> \<le> k" using pulses_drop [of "n - 1" y] unfolding y(3) assms(5) by simp
  then have i: "i32 \<bar>last y\<bar> = Some \<bar>last y\<bar>" using assms(2) by (auto simp: i32_def)
  have s: "word_of_nat (index_of [last y]) = (if last y < 0 then 1 else 0 :: 32 word)" "pulses [last y] = nat \<bar>last y\<bar>"
    using U_1 [of "nat \<bar>last y\<bar>"] by (cases "last y < 0"; simp del: U.simps(4))+
  have "icwrs_loop (length y) y (n - 1) (pulses (drop (n - 1) y)) (word_of_nat (index_of (drop (n - 1) y))) = Some (word_of_nat (index_of y))"
    by (rule icwrs_loop_index) (use assms in simp_all)
  then have "icwrs_loop n y (n - 1) (pulses [last y]) (word_of_nat (index_of [last y])) = Some (word_of_nat (index_of y))"
    unfolding y(3) assms(4) .
  then show ?thesis unfolding s using assms(3,4) i y by (simp add: icwrs_def del: icwrs_loop.simps)
qed

section \<open>The vector of an index\<close>

lemma i16_id: "\<bar>x\<bar> < 2 ^ 15 \<Longrightarrow> i16 x = x"
  unfolding i16_def by (simp add: signed_of_int signed_take_bit_int_eq_self)

lemma xor_sign: "((x + (if neg then - 1 else 0)) XOR (if neg then - 1 else 0)) = (if neg then - x else x :: int)"
  by (simp add: not_int_def flip: not_eq_complement)

lemma emit_eq:
  assumes "k' \<le> k" and "k < 2 ^ 15" and "0 \<le> yy" and "yy + (int (k - k'))\<^sup>2 < 2 ^ 31"
  shows "emit (if neg then - 1 else 0) k k' yy = Some (if neg then - int (k - k') else int (k - k'), yy + (int (k - k'))\<^sup>2)"
proof -
  let ?v = "if neg then - int (k - k') else int (k - k')"
  have "int k - int k' = int (k - k')" using assms(1) by simp
  moreover have "i16 ?v = ?v" by (rule i16_id) (use assms(2) in auto)
  moreover have "?v * ?v = (int (k - k'))\<^sup>2" by (simp add: power2_eq_square)
  moreover have "0 \<le> yy + (int (k - k'))\<^sup>2" using assms(3) by simp
  then have "- (2 ^ 31) \<le> yy + (int (k - k'))\<^sup>2" by (rule order_trans [rotated]) simp
  then have "i32 (yy + (int (k - k'))\<^sup>2) = Some (yy + (int (k - k'))\<^sup>2)" unfolding i32_def using assms(4) by (simp only: simp_thms if_True)
  ultimately show ?thesis by (simp only: emit_def Let_def xor_sign bind.bind_lunit)
qed

lemma down_col_largest:
  assumes "in_table n k" and "U n 0 \<le> unat i" and "k \<le> n" and "0 < k"
  shows "down_col n i k = Some (largest n (unat i) (k - 1), word_of_nat (U n (largest n (unat i) (k - 1))))"
  using assms(1,3,4)
proof (induction k)
  case (Suc k)
  obtain p where p: "pvq_row k n = Some p" "unat p = U n k"
    using pvq_row_U [of k n] in_table_mono [OF Suc.prems(1), of n k] in_table_sym [of n k] Suc.prems(2) unfolding U_sym [of k n] by auto
  have w: "p = word_of_nat (U n k)" by (simp flip: p(2))
  show ?case
  proof (cases "p > i")
    case True
    then have "\<not> U n k \<le> unat i" by (simp add: word_less_nat_alt p(2))
    then obtain j where "k = Suc j" using assms(2) by (cases k) auto
    then show ?thesis using Suc in_table_mono [OF Suc.prems(1), of n k] True p \<open>\<not> U n k \<le> unat i\<close> by simp
  next
    case False
    then have "U n k \<le> unat i" by (simp add: word_less_nat_alt p(2) not_less)
    then have "largest n (unat i) k = k" by (cases k) simp_all
    then show ?thesis using False p w by simp
  qed
qed simp

lemma down_row_largest:
  assumes "in_table n k" and "U n n \<le> unat i" and "n \<le> k"
  shows "down_row n i k = Some (largest n (unat i) k, word_of_nat (U n (largest n (unat i) k)))"
  using assms(1,3)
proof (induction k)
  case 0
  then obtain p where "pvq_row 0 0 = Some p" "unat p = U 0 0" using pvq_row_U [of 0 0] by auto
  then show ?case using assms(2) 0 by (simp add: word_le_nat_alt word_unat_eq_iff)
next
  case (Suc k)
  obtain p where p: "pvq_row n (Suc k) = Some p" "unat p = U n (Suc k)" using pvq_row_U [OF Suc.prems(2,1)] by auto
  have w: "p = word_of_nat (U n (Suc k))" by (simp flip: p(2))
  show ?case
  proof (cases "p > i")
    case True
    then have less: "\<not> U n (Suc k) \<le> unat i" by (simp add: word_less_nat_alt p(2))
    then have "n \<noteq> Suc k" using assms(2) by auto
    then have "down_row n i k = Some (largest n (unat i) k, word_of_nat (U n (largest n (unat i) k)))"
      using Suc in_table_mono [OF Suc.prems(1), of n k] by simp
    then show ?thesis using True p less by (simp del: U.simps)
  next
    case False
    then have "U n (Suc k) \<le> unat i" by (simp add: word_less_nat_alt p(2) not_less)
    then show ?thesis using False p w by (simp del: U.simps)
  qed
qed

text \<open>One place, in numbers.\<close>

definition place :: "nat \<Rightarrow> nat \<Rightarrow> nat \<Rightarrow> int \<times> nat \<times> nat" where
  "place n k i =
     (let p = U n (Suc k); neg = p \<le> i; i = (if neg then i - p else i); k' = largest n i k
      in (if neg then - int (k - k') else int (k - k'), k', i - U n k'))"

lemma vector_at_place: "vector_at (Suc n) k i = (let (v, k', i') = place (Suc n) k i in v # vector_at n k' i')"
  by (simp add: place_def Let_def del: U.simps)

lemma place_less:
  assumes "i < V (Suc n) k" and "place (Suc n) k i = (v, k', i')"
  shows "k' \<le> k" and "i' < V n k'" and "\<bar>v\<bar> = int (k - k')" and "i' \<le> i"
proof -
  let ?p = "U (Suc n) (Suc k)"
  define j where "j = (if ?p \<le> i then i - ?p else i)"
  have p: "k' = largest (Suc n) j k" "i' = j - U (Suc n) k'" "v = (if ?p \<le> i then - int (k - k') else int (k - k'))"
    using assms(2) unfolding place_def Let_def prod.inject j_def [symmetric] by auto
  have "j < ?p" using assms(1) U_mono_step [of "Suc n" k] by (auto simp: j_def V_def simp del: U.simps)
  then have k': "k' \<le> k" "U (Suc n) k' \<le> j" "j < U (Suc n) (Suc k')" using largest_props [of n j k] unfolding p(1) by blast+
  then show "k' \<le> k" "i' < V n k'" using U_step [of n k'] by (simp_all add: p(2))
  show "\<bar>v\<bar> = int (k - k')" by (simp add: p(3))
  show "i' \<le> i" by (simp add: p(2) j_def)
qed

lemma unat_minus_sign:
  fixes i p :: "32 word"
  shows "i - (p AND word_of_int (if i \<ge> p then - 1 else 0)) = (if i \<ge> p then i - p else i)"
  by simp

lemma largest_below:
  assumes "j < U (Suc n) m" and "m \<le> Suc k"
  shows "0 < m" and "largest (Suc n) j (m - 1) = largest (Suc n) j k"
proof -
  show m: "0 < m" using assms(1) by (cases m) simp_all
  let ?l = "largest (Suc n) j (m - 1)"
  have "?l \<le> m - 1" "U (Suc n) ?l \<le> j" "j < U (Suc n) (Suc ?l)"
    using largest_props [of n j "m - 1"] assms(1) m by simp_all
  then show "?l = largest (Suc n) j k" using assms(2) by (intro largest_unique [symmetric]) simp_all
qed

lemma U_pos: "0 < U (Suc n) (Suc k)"
  by (induction n) (simp_all add: U_1 del: U.simps(4), simp)

lemma take_off:
  fixes i q :: "32 word"
  assumes "unat q = u"
  shows "i \<ge> q \<longleftrightarrow> u \<le> unat i"
    and "unat (i - (q AND word_of_int (if i \<ge> q then - 1 else 0))) = (if u \<le> unat i then unat i - u else unat i)"
  using assms by (auto simp: word_le_nat_alt unat_sub_if')

lemma pulse_place_eq:
  assumes "in_table (Suc n) (k + 1)" and "k < 2 ^ 15" and "0 \<le> yy" and "yy + (int k)\<^sup>2 < 2 ^ 31"
    and "unat i < V (Suc n) k" and "place (Suc n) k (unat i) = (v, k', i')" and "0 < n"
  shows "pulse_place (Suc n) k i yy = Some (v, k', word_of_nat i', yy + v\<^sup>2)"
proof -
  let ?n = "Suc n" and ?u = "U (Suc n) (Suc k)"
  define neg where "neg \<longleftrightarrow> ?u \<le> unat i"
  define j where "j = (if neg then unat i - ?u else unat i)"
  have pl: "k' = largest ?n j k" "i' = j - U ?n k'" "v = (if neg then - int (k - k') else int (k - k'))"
    using assms(6) unfolding place_def Let_def prod.inject j_def neg_def [symmetric] by auto
  have j: "j < ?u" "neg \<Longrightarrow> j < U ?n k"
    using assms(5) U_mono_step [of ?n k] by (auto simp: j_def neg_def V_def simp del: U.simps)
  have k': "k' \<le> k" "U ?n k' \<le> j" using largest_props [of n j k] unfolding pl(1) by blast+
  have v2: "v\<^sup>2 = (int (k - k'))\<^sup>2" by (simp add: pl(3))
  have "(int (k - k'))\<^sup>2 \<le> (int k)\<^sup>2" by (rule power_mono) simp_all
  then have yy: "yy + (int (k - k'))\<^sup>2 < 2 ^ 31" using assms(4) by (rule order.strict_trans1 [OF add_left_mono])
  note emit = emit_eq [OF k'(1) assms(2,3) yy, of neg, folded pl(3) v2]
  have left: "i1 - word_of_nat (U ?n k') = word_of_nat i'" if "unat i1 = j" for i1 :: "32 word"
    using that k'(2) unfolding pl(2) by (auto simp: of_nat_diff)
  show ?thesis
  proof (cases "?n \<le> k")
    case True
    obtain p where p: "pvq_row ?n (k + 1) = Some p" "unat p = ?u" using pvq_row_U [OF _ assms(1)] True by auto
    have tn: "in_table ?n ?n" "in_table ?n k" using True by (auto intro: in_table_mono [OF assms(1)])
    obtain q where q: "pvq_row ?n ?n = Some q" "unat q = U ?n ?n" using pvq_row_U [OF _ tn(1)] by auto
    define i1 where "i1 = i - (p AND word_of_int (if neg then - 1 else 0))"
    note off = take_off [OF p(2), of i, folded neg_def]
    have i1: "unat i1 = j" using off(2) unfolding off(1) i1_def j_def .
    have down: "(if q > i1 then do { u \<leftarrow> ensure (p > q); down_col ?n i1 ?n } else down_row ?n i1 k) = Some (k', word_of_nat (U ?n k'))"
    proof (cases "q > i1")
      case less: True
      have "U ?n ?n \<le> U ?n k" by (rule U_mono) (use True in simp_all)
      then have "q < p" unfolding word_less_nat_alt p(2) q(2) using U_pos [of "n - 1" k] assms(7) U_step [of n k] by (simp add: V_def)
      moreover have "j < U ?n ?n" using less by (simp add: word_less_nat_alt q(2) i1)
      note largest_below(2) [OF this, of k]
      ultimately show ?thesis using less down_col_largest [OF tn(1), of i1] True unfolding pl(1) i1 by simp
    next
      case False
      then show ?thesis using down_row_largest [OF tn(2), of i1] True unfolding pl(1) i1 word_less_nat_alt q(2) by simp
    qed
    show ?thesis
      unfolding pulse_place_def if_P [OF True] p(1) q(1) bind.bind_lunit Let_def off(1) i1_def [symmetric] down prod.case emit
      by (simp only: bind.bind_lunit prod.case left [OF i1])
  next
    case False
    have t: "in_table k ?n" "in_table (k + 1) ?n" using in_table_mono [OF assms(1), of ?n k] assms(1) by (simp_all add: in_table_sym)
    obtain p where p: "pvq_row k ?n = Some p" "unat p = U ?n k" using pvq_row_U [OF _ t(1)] False U_sym [of k ?n] by auto
    obtain q where q: "pvq_row (k + 1) ?n = Some q" "unat q = ?u" using pvq_row_U [OF _ t(2)] False U_sym [of "k + 1" ?n] by auto
    note off = take_off [OF q(2), of i, folded neg_def]
    show ?thesis
    proof (cases "p \<le> i \<and> i < q")
      case True
      then have nn: "\<not> neg" "U ?n k \<le> j" by (auto simp: word_le_nat_alt word_less_nat_alt p(2) q(2) neg_def j_def)
      then have "k' = k" unfolding pl(1) using j(1) by (intro largest_unique) simp_all
      moreover have "unat i = j" using nn(1) by (simp add: j_def)
      ultimately have "v = 0" "i - p = word_of_nat i'" using left [of i] word_eq_natI [OF p(2)] by (simp_all add: pl(3))
      then show ?thesis unfolding pulse_place_def using False p(1) q(1) True \<open>k' = k\<close> by simp
    next
      case no: False
      define i1 where "i1 = i - (q AND word_of_int (if neg then - 1 else 0))"
      have i1: "unat i1 = j" using off(2) unfolding off(1) i1_def j_def .
      have "j < U ?n k"
      proof (cases neg)
        case False
        then show ?thesis using no by (auto simp: word_le_nat_alt word_less_nat_alt p(2) q(2) neg_def j_def)
      qed (rule j(2))
      note lb = largest_below [OF this, of k]
      have down: "down_col ?n i1 k = Some (k', word_of_nat (U ?n k'))"
        using down_col_largest [of ?n k i1] t(1) False lb unfolding pl(1) i1 by (simp add: in_table_sym)
      show ?thesis
        unfolding pulse_place_def if_not_P [OF False] p(1) q(1) bind.bind_lunit if_not_P [OF no] Let_def off(1) i1_def [symmetric] down prod.case emit
        by (simp only: bind.bind_lunit prod.case left [OF i1])
    qed
  qed
qed

definition squares :: "int list \<Rightarrow> int" where
  "squares y = sum_list (map (\<lambda>v. v\<^sup>2) y)"

lemma squares_simps [simp]: "squares [] = 0" "squares (v # y) = v\<^sup>2 + squares y"
  by (simp_all add: squares_def)

lemma two_squares:
  assumes "k' \<le> k" and "\<bar>v\<bar> = int (k - k')"
  shows "v\<^sup>2 + (int k')\<^sup>2 \<le> (int k)\<^sup>2"
proof -
  have "v\<^sup>2 = \<bar>v\<bar>\<^sup>2" by simp
  moreover have k: "int k = \<bar>v\<bar> + int k'" using assms by simp
  have "(int k)\<^sup>2 = \<bar>v\<bar>\<^sup>2 + (int k')\<^sup>2 + 2 * \<bar>v\<bar> * int k'" unfolding k power2_sum ..
  moreover have "0 \<le> 2 * \<bar>v\<bar> * int k'" by simp
  ultimately show ?thesis by linarith
qed

definition squares_fit :: "nat \<Rightarrow> int \<Rightarrow> bool" where
  "squares_fit k yy \<longleftrightarrow> k < 2 ^ 15 \<and> 0 \<le> yy \<and> yy + (int k)\<^sup>2 < 2 ^ 31"

lemma squares_fit_step:
  assumes "squares_fit k yy" and "k' \<le> k" and "\<bar>v\<bar> = int (k - k')"
  shows "squares_fit k' (yy + v\<^sup>2)"
proof -
  have "yy + v\<^sup>2 + (int k')\<^sup>2 \<le> yy + (int k)\<^sup>2" using two_squares [OF assms(2,3)] by linarith
  then have "yy + v\<^sup>2 + (int k')\<^sup>2 < 2 ^ 31" using assms(1) unfolding squares_fit_def by linarith
  moreover have "0 \<le> yy + v\<^sup>2" using assms(1) by (simp add: squares_fit_def)
  ultimately show ?thesis using assms(1,2) unfolding squares_fit_def by linarith
qed

lemma cwrsi_loop_eq:
  assumes "in_table n (k + 1)" and "squares_fit k yy" and "unat i < V n k" and "2 \<le> n"
  shows "\<exists>y k' i'. cwrsi_loop n k i yy = Some (y, k', i', yy + squares y) \<and> vector_at n k (unat i) = y @ vector_at 2 k' (unat i') \<and>
    k' \<le> k \<and> unat i' < V 2 k' \<and> squares_fit k' (yy + squares y)"
  using assms
proof (induction n arbitrary: k i yy)
  case (Suc n)
  show ?case
  proof (cases "2 < Suc n")
    case True
    obtain v k' i' where pl: "place (Suc n) k (unat i) = (v, k', i')" by (metis prod_cases3)
    note less = place_less [OF Suc.prems(3) pl]
    have run: "pulse_place (Suc n) k i yy = Some (v, k', word_of_nat i', yy + v\<^sup>2)"
      using Suc.prems True pl by (intro pulse_place_eq) (simp_all add: squares_fit_def)
    have t: "in_table n (k' + 1)" by (rule in_table_mono [OF Suc.prems(1)]) (use less(1) in simp_all)
    have fit: "squares_fit k' (yy + v\<^sup>2)" by (rule squares_fit_step [OF Suc.prems(2) less(1,3)])
    have u: "unat (word_of_nat i' :: 32 word) = i'"
      using less(4) by (intro unat_of_nat_32 order.strict_trans1 [OF less(4)] order.strict_trans2 [OF unsigned_less]) simp
    obtain y k2 i2 where ih: "cwrsi_loop n k' (word_of_nat i') (yy + v\<^sup>2) = Some (y, k2, i2, yy + v\<^sup>2 + squares y)"
      "vector_at n k' i' = y @ vector_at 2 k2 (unat i2)" "k2 \<le> k'" "unat i2 < V 2 k2" "squares_fit k2 (yy + v\<^sup>2 + squares y)"
      using Suc.IH [OF t fit, of "word_of_nat i'"] less(2) True unfolding u by auto
    have "cwrsi_loop (Suc n) k i yy = Some (v # y, k2, i2, yy + squares (v # y))"
      using True ih(1) by (subst cwrsi_loop.simps) (simp add: run ac_simps)
    moreover have "vector_at (Suc n) k (unat i) = (v # y) @ vector_at 2 k2 (unat i2)"
      unfolding vector_at_place pl Let_def prod.case ih(2) by simp
    ultimately show ?thesis using ih(3-5) less(1) by (intro exI [of _ "v # y"] exI [of _ k2] exI [of _ i2]) (simp add: ac_simps)
  next
    case False
    then have "Suc n = 2" using Suc.prems(4) by simp
    then show ?thesis using Suc.prems(2,3) unfolding \<open>Suc n = 2\<close> by (subst cwrsi_loop.simps) simp
  qed
qed simp

lemma U_2_eq: "U 2 k = (if k = 0 then 0 else 2 * k - 1)"
  using U_2 [of "k - 1"] by (cases k) (simp_all add: numeral_2_eq_2)

lemma U_1_eq: "U 1 k = (if k = 0 then 0 else 1)"
  using U_1 [of "k - 1"] by (cases k) simp_all

lemma largest_2: "j < 2 * k + 1 \<Longrightarrow> largest 2 j k = (j + 1) div 2"
proof -
  let ?m = "(j + 1) div 2"
  assume "j < 2 * k + 1"
  then have "?m \<le> k" "U 2 ?m \<le> j" "j < U 2 (Suc ?m)" unfolding U_2_eq by auto
  then show ?thesis using largest_unique [of ?m k "Suc 0" j] by (simp add: numeral_2_eq_2 del: U.simps)
qed

lemma largest_1: "largest 1 0 k = 0"
  using largest_unique [of 0 k 0 0] by simp

lemma place_1:
  assumes "i < V 1 k"
  shows "place 1 k i = (if i = 0 then int k else - int k, 0, 0)" and "i \<le> 1" and "k = 0 \<longrightarrow> i = 0"
proof -
  have i: "i < U 1 k + U 1 (Suc k)" using assms by (simp only: V_def)
  then show "i \<le> 1" and "k = 0 \<longrightarrow> i = 0" unfolding U_1_eq by (auto split: if_splits)
  then have "(if 1 \<le> i then i - 1 else i) = 0" by simp
  then show "place 1 k i = (if i = 0 then int k else - int k, 0, 0)"
    unfolding place_def Let_def U_1_eq [of "Suc k"] by (simp add: largest_1 [simplified] del: U.simps) (auto simp: largest_1 [simplified])
qed

lemma last_places_eq:
  assumes "squares_fit k yy" and "unat i < V 2 k"
  shows "\<exists>v1 v2. last_places k i yy = Some (v1, v2, yy + squares [v1, v2]) \<and> vector_at 2 k (unat i) = [v1, v2]"
proof -
  obtain v1 k' i' where pl: "place 2 k (unat i) = (v1, k', i')" by (metis prod_cases3)
  have pl': "place (Suc 1) k (unat i) = (v1, k', i')" "unat i < V (Suc 1) k" using pl assms(2) by (simp_all add: numeral_2_eq_2)
  note less = place_less [OF pl'(2,1)]
  define neg where "neg \<longleftrightarrow> 2 * k + 1 \<le> unat i"
  define j where "j = (if neg then unat i - (2 * k + 1) else unat i)"
  define p :: "32 word" where "p = word_of_nat (2 * k + 1)"
  define i1 where "i1 = i - (p AND word_of_int (if neg then - 1 else 0))"
  have k: "k < 2 ^ 15" "k' < 2 ^ 15" using assms(1) less(1) by (simp_all add: squares_fit_def)
  have p: "unat p = 2 * k + 1" unfolding p_def by (rule unat_of_nat_32) (use k(1) in simp)
  note off = take_off [OF p, of i, folded neg_def]
  have i1: "unat i1 = j" using off(2) unfolding off(1) i1_def j_def .
  have j: "j < 2 * k + 1" using assms(2) by (auto simp: V_def U_2_eq j_def neg_def split: if_splits)
  have "U 2 (Suc k) = 2 * k + 1" by (simp add: U_2_eq)
  from pl [unfolded place_def Let_def prod.inject this, folded neg_def, folded j_def]
  have pl2: "k' = (j + 1) div 2" "i' = j - U 2 k'" "v1 = (if neg then - int (k - k') else int (k - k'))" using largest_2 [OF j] by auto
  have "unat (i1 + 1) = j + 1" using j k(1) by (simp add: unat_word_ariths i1)
  then have k1: "unat (drop_bit 1 (i1 + 1)) = k'" by (simp add: pl2(1) drop_bit_eq_div unat_div)
  define i2 where "i2 = (if k' \<noteq> 0 then i1 - word_of_int (2 * int k' - 1) else i1)"
  have i2: "i2 = word_of_nat i'"
  proof (cases "k' = 0")
    case True
    then show ?thesis using i1 by (simp add: i2_def pl2(2) U_2_eq flip: i1)
  next
    case False
    then have le: "2 * k' - 1 \<le> j" "int (2 * k' - 1) = 2 * int k' - 1" by (auto simp: pl2(1))
    have "i2 = i1 - word_of_nat (2 * k' - 1)" using False unfolding i2_def le(2) [symmetric] by simp
    then show ?thesis using False le(1) by (simp add: pl2(2) U_2_eq of_nat_diff flip: i1)
  qed
  note last = place_1 [OF less(2)]
  define v2 where "v2 = (if i' = 0 then int k' else - int k')"
  have s: "i32 (- sint i2) = Some (if i' \<noteq> 0 then - 1 else 0)" using last(2) by (cases "i' = 0") (auto simp: i2 i32_def le_Suc_eq)
  have fit: "squares_fit k' (yy + v1\<^sup>2)" by (rule squares_fit_step [OF assms(1) less(1,3)])
  have sq: "v1\<^sup>2 = (int (k - k'))\<^sup>2" by (simp add: pl2(3))
  have "yy + (int (k - k'))\<^sup>2 \<le> yy + v1\<^sup>2 + (int k')\<^sup>2" unfolding sq by simp
  also have "\<dots> < 2 ^ 31" using fit by (simp add: squares_fit_def)
  finally have e1: "emit (if neg then - 1 else 0) k k' yy = Some (v1, yy + v1\<^sup>2)"
    unfolding pl2(3) [symmetric] sq using assms(1) k(1) less(1) by (subst emit_eq) (simp_all add: pl2(3) [symmetric] squares_fit_def)
  have v2: "v2\<^sup>2 = (int k')\<^sup>2" "(if i' \<noteq> 0 then - int (k' - 0) else int (k' - 0)) = v2" by (simp_all add: v2_def)
  have e2: "emit (if i' \<noteq> 0 then - 1 else 0) k' 0 (yy + v1\<^sup>2) = Some (v2, yy + v1\<^sup>2 + v2\<^sup>2)"
    using emit_eq [of 0 k' "yy + v1\<^sup>2" "i' \<noteq> 0"] fit k(2) unfolding v2(2) by (simp add: squares_fit_def v2(1))
  have "last_places k i yy = Some (v1, v2, yy + v1\<^sup>2 + v2\<^sup>2)"
    unfolding last_places_def Let_def p_def [symmetric] off(1) i1_def [symmetric] k1 e1 bind.bind_lunit prod.case
    unfolding i2_def [symmetric] s e2 bind.bind_lunit prod.case ..
  moreover have "vector_at 2 k (unat i) = [v1, v2]"
    using vector_at_place [of 1 k "unat i"] vector_at_place [of 0 k' i'] pl'(1) last(1) by (simp add: numeral_2_eq_2 v2_def)
  ultimately show ?thesis by (simp add: ac_simps)
qed

section \<open>The coder\<close>

lemma squares_append: "squares (x @ y) = squares x + squares y"
  by (simp add: squares_def)

definition supported :: "nat \<Rightarrow> nat \<Rightarrow> bool" where
  "supported n k \<longleftrightarrow> 2 \<le> n \<and> 0 < k \<and> in_table n (k + 1) \<and> V n k < 2 ^ 32"

lemma in_table_bound: "in_table n k \<Longrightarrow> n \<le> 176 \<and> k \<le> 176"
proof -
  have "pvq_last ! 0 = 176" by (simp add: pvq_last_def)
  then show "in_table n k \<Longrightarrow> n \<le> 176 \<and> k \<le> 176" using last_antimono [of 0 "min n k"] by (auto simp: in_table_def)
qed

lemma supportedD:
  assumes "supported n k"
  shows "2 \<le> n" and "0 < k" and "in_table n (k + 1)" and "V n k < 2 ^ 32" and "squares_fit k 0" and "k < 2 ^ 31"
proof -
  have k: "k \<le> 175" using in_table_bound [of n "k + 1"] assms by (simp add: supported_def)
  then have "(int k)\<^sup>2 \<le> 175\<^sup>2" by (intro power_mono) simp_all
  then show "squares_fit k 0" using k by (simp add: squares_fit_def)
  show "k < 2 ^ 31" using k by simp
  show "2 \<le> n" "0 < k" "in_table n (k + 1)" "V n k < 2 ^ 32" using assms by (simp_all only: supported_def)
qed

lemma celt_v:
  assumes "supported n k"
  shows "CELT_PVQ_V n k = Some (word_of_nat (V n k))"
proof -
  have t: "in_table n (k + 1)" using assms by (simp add: supported_def)
  show ?thesis unfolding CELT_PVQ_V_def V_def using celt_u_word [OF t, of n k] celt_u_word [OF t, of n "k + 1"] by simp
qed

lemma cwrsi_eq:
  assumes "supported n k" and "unat i < V n k"
  shows "cwrsi n k i = Some (vector_at n k (unat i), squares (vector_at n k (unat i)))"
proof -
  note s = supportedD(1,2,3,5) [OF assms(1)]
  obtain y k' i' where loop: "cwrsi_loop n k i 0 = Some (y, k', i', squares y)" "vector_at n k (unat i) = y @ vector_at 2 k' (unat i')"
    "unat i' < V 2 k'" "squares_fit k' (squares y)" using cwrsi_loop_eq [OF s(3,4) assms(2) s(1)] by auto
  obtain v1 v2 where last: "last_places k' i' (squares y) = Some (v1, v2, squares y + squares [v1, v2])" "vector_at 2 k' (unat i') = [v1, v2]"
    using last_places_eq [OF loop(4,3)] by blast
  show ?thesis using s(1,2) unfolding cwrsi_def loop(2) last(2) squares_append by (simp add: loop(1) last(1))
qed

lemma icwrs_eq:
  assumes "supported n k" and "y \<in> codebook n k"
  shows "icwrs n y = Some (word_of_nat (index_of y))" and "unat (word_of_nat (index_of y) :: 32 word) = index_of y" and "index_of y < V n k"
proof -
  note s = supportedD(1,3,4,6) [OF assms(1)]
  have y: "length y = n" "pulses y = k" using assms(2) by (simp_all add: codebook_def)
  show "icwrs n y = Some (word_of_nat (index_of y))" by (rule icwrs_index [OF s(2,4,1) y])
  show less: "index_of y < V n k" using index_less [of y] by (simp add: y)
  show "unat (word_of_nat (index_of y) :: 32 word) = index_of y" by (rule unat_of_nat_32 [OF order.strict_trans [OF less s(3)]])
qed

lemma vector_in_codebook: "i < V n k \<Longrightarrow> vector_at n k i \<in> codebook n k"
  using vector_at_props by (simp add: codebook_def)

lemma pulses_codes:
  assumes "supported n k" and "y \<in> codebook n k"
  shows "codes (encode_pulses y n k) (decode_pulses n k) (y, squares y) 48"
proof -
  note idx = icwrs_eq [OF assms] and v = celt_v [OF assms(1)]
  note s = supportedD(1,2,4) [OF assms(1)]
  let ?i = "word_of_nat (index_of y) :: 32 word" and ?v = "word_of_nat (V n k) :: 32 word"
  have uv: "unat ?v = V n k" by (rule unat_of_nat_32 [OF s(3)])
  have less: "?i < ?v" unfolding word_less_nat_alt uv idx(2) by (rule idx(3))
  have "1 < V n k" using s(1,2) U_pos [of "n - 1" "k - 1"] U_pos [of "n - 1" k] by (simp add: V_def)
  then have "codes (\<lambda>c. ec_enc_uint c ?i ?v) (\<lambda>d. ec_dec_uint d ?v) ?i 48" by (intro uint_codes less) (simp add: uv)
  moreover have "cwrsi n k ?i = Some (y, squares y)"
    using cwrsi_eq [OF assms(1), of ?i] idx(2,3) assms(2) vector_at_index [of y] by (simp add: codebook_def)
  then have "(do { r \<leftarrow> cwrsi n k ?i; Some (r, d) }) = Some ((y, squares y), d)" for d :: ec_ctx by (simp only: bind.bind_lunit)
  ultimately have "codes (\<lambda>c. ec_enc_uint c ?i ?v) (\<lambda>d. do { (i, d) \<leftarrow> ec_dec_uint d ?v; r \<leftarrow> cwrsi n k i; Some (r, d) }) (y, squares y) 48"
    by (rule codes_then)
  moreover have "encode_pulses y n k = (\<lambda>c. ec_enc_uint c ?i ?v)" by (rule ext) (simp add: encode_pulses_def s(2) idx(1) v)
  moreover have "decode_pulses n k = (\<lambda>d. do { (i, d) \<leftarrow> ec_dec_uint d ?v; r \<leftarrow> cwrsi n k i; Some (r, d) })"
    by (rule ext) (simp add: decode_pulses_def v)
  ultimately show ?thesis by simp
qed

text \<open>The band sizes of the standard modes, and how many pulses a band gets at most (\<open>pn\<close> and \<open>pkmax\<close> of
  celt/tests/test_unit_cwrs32.c).\<close>

definition pn :: "nat list" where
  "pn = [2, 3, 4, 6, 8, 9, 11, 12, 16, 18, 22, 24, 32, 36, 44, 48, 64, 72, 88, 96, 144, 176]"

definition pkmax :: "nat list" where
  "pkmax = [128, 128, 128, 88, 36, 26, 18, 16, 12, 11, 9, 9, 7, 7, 6, 6, 5, 5, 5, 5, 4, 4]"

definition in_row :: "nat \<Rightarrow> nat \<Rightarrow> nat" where
  "in_row n k = unat (PVQ_ROWS ! min n k ! (max n k - min n k))"

lemma in_row_U: "in_table n k \<Longrightarrow> U n k = in_row n k"
proof -
  have "U r c = unat (PVQ_ROWS ! r ! (c - r))" if "r \<le> c" "in_table r c" for r c
  proof -
    have "r < 15" "c \<le> pvq_last ! r" using that by (simp_all add: in_table_def)
    then show ?thesis using rows_ok row_length [of r] that(1) by (auto simp: row_from_def dest!: list_all2_nthD [of _ _ _ r])
  qed
  then show "in_table n k \<Longrightarrow> U n k = in_row n k"
    using U_sym [of n k] by (auto simp: in_row_def in_table_def min_def max_def split: if_splits)
qed

lemma bands_fit: "list_all (\<lambda>(n, k). in_row n k + in_row n (k + 1) < 2 ^ 32) (zip pn pkmax)"
  by (simp add: pn_def pkmax_def in_row_def PVQ_ROWS_def)
    (simp add: PVQ_N2_def PVQ_N3_def PVQ_N4_def PVQ_N5_def PVQ_N6_def PVQ_N7_def PVQ_N8_def PVQ_N9_def PVQ_N10_def PVQ_N11_def
      PVQ_N12_def PVQ_N13_def)

lemma bands_in_table: "list_all (\<lambda>(n, k). 2 \<le> n \<and> in_table n (k + 1)) (zip pn pkmax)"
  by code_simp

lemma bands_supported:
  assumes "(n, m) \<in> set (zip pn pkmax)" and "0 < k" and "k \<le> m"
  shows "supported n k"
proof -
  have n: "2 \<le> n" "in_table n (m + 1)" "in_row n m + in_row n (m + 1) < 2 ^ 32"
    using assms(1) bands_fit bands_in_table by (auto simp: list_all_iff)
  have "U n m = in_row n m" "U n (m + 1) = in_row n (m + 1)" using in_table_mono [OF n(2), of n m] n(2) by (auto intro: in_row_U)
  moreover have "U n k \<le> U n m" "U n (Suc k) \<le> U n (Suc m)" using assms(3) n(1) by (intro U_mono; simp)+
  ultimately have "V n k < 2 ^ 32" using n(3) by (simp add: V_def)
  moreover have "in_table n (k + 1)" by (rule in_table_mono [OF n(2)]) (use assms(3) in simp_all)
  ultimately show ?thesis using n(1) assms(2) by (simp add: supported_def)
qed

section \<open>Properties\<close>

text \<open> C13. The table counts and the coder enumerates: for every supported number of places and pulses, \<open>CELT_PVQ_V\<close> is the number
  of integer vectors of \<open>n\<close> places whose absolute values sum to \<open>k\<close>; \<open>icwrs\<close> gives each of them an index below it, \<open>cwrsi\<close> gives
  the vector and its energy back from the index, and every index is that of such a vector.\<close>

theorem pulse_codebook_bijection:
  assumes "supported n k"
  shows "\<exists>v. CELT_PVQ_V n k = Some v \<and> unat v = card (codebook n k) \<and>
    (\<forall>y \<in> codebook n k. \<exists>i < v. icwrs n y = Some i \<and> cwrsi n k i = Some (y, squares y)) \<and>
    (\<forall>i < v. \<exists>y \<in> codebook n k. cwrsi n k i = Some (y, squares y) \<and> icwrs n y = Some i)"
proof -
  let ?v = "word_of_nat (V n k) :: 32 word"
  have v: "unat ?v = V n k" by (rule unat_of_nat_32 [OF supportedD(4) [OF assms]])
  have "card (codebook n k) = card {..< V n k}" by (rule bij_betw_same_card [OF index_bij])
  then have card: "unat ?v = card (codebook n k)" by (simp add: v)
  moreover have "\<exists>i < ?v. icwrs n y = Some i \<and> cwrsi n k i = Some (y, squares y)" if y: "y \<in> codebook n k" for y
  proof -
    note i = icwrs_eq [OF assms y]
    have "vector_at n k (index_of y) = y" using y vector_at_index [of y] by (simp add: codebook_def)
    then show ?thesis using i cwrsi_eq [OF assms, of "word_of_nat (index_of y)"]
      by (intro exI [of _ "word_of_nat (index_of y)"]) (simp add: word_less_nat_alt v)
  qed
  moreover have "\<exists>y \<in> codebook n k. cwrsi n k i = Some (y, squares y) \<and> icwrs n y = Some i" if "i < ?v" for i
  proof -
    have i: "unat i < V n k" using that by (simp add: word_less_nat_alt v)
    note y = vector_in_codebook [OF i]
    show ?thesis using cwrsi_eq [OF assms i] icwrs_eq(1) [OF assms y] vector_at_props [OF i] y by (intro bexI [of _ "vector_at n k (unat i)"]) simp_all
  qed
  ultimately show ?thesis using celt_v [OF assms] by blast
qed

lemma pulse_codebook_bijection_witness:
  "\<exists>v. CELT_PVQ_V 176 4 = Some v \<and> unat v = card (codebook 176 4) \<and>
    (\<forall>i < v. \<exists>y \<in> codebook 176 4. cwrsi 176 4 i = Some (y, squares y) \<and> icwrs 176 y = Some i)"
proof -
  have "(176, 4) \<in> set (zip pn pkmax)" by (simp add: pn_def pkmax_def)
  then have "supported 176 4" by (rule bands_supported) simp_all
  from pulse_codebook_bijection [OF this] show ?thesis by blast
qed

end
