(* ===== verification/OpusCelt.thy ===== *)
theory OpusCelt
  imports OpusLaplaceProofs OpusCwrsProofs
begin

text \<open>
  The symbols of CELT together: those of the range coder, energy differences and pulse vectors, in any
  order in one stream, as another interpretation of \<open>symbol_coder\<close>.
\<close>

section \<open>The values every part of the interval belongs to\<close>

text \<open> C14. Every energy difference of at most 16 (\<open>LAPLACE_NMIN\<close>) is coded as it is, for whatever probability of 0 and whatever decay
  below 16384: it has a non-empty part of the 32768, and the decoder finds it from every number of that part, with the same bounds;
  no assertion fails.\<close>

theorem laplace_guarantee:
  assumes "laplace_args fs decay" and "\<bar>v\<bar> \<le> 16"
  shows "\<exists>fl w. laplace_part v fs decay = Some (v, fl, w) \<and> fl < fl + w \<and> unat (fl + w) \<le> 2 ^ 15 \<and>
    (\<forall>fm. fl \<le> fm \<and> fm < fl + w \<longrightarrow> laplace_find fm fs decay = Some (v, fl, fl + w))"
proof -
  have "laplace_room fs decay v" "L (unat fs) (nat decay) (nat \<bar>v\<bar>) \<le> 32768" using room_16 [OF assms] by (simp_all add: laplace_codable_def)
  then show ?thesis using part_find [OF assms(1), of v] assms(2) by auto
qed

lemma laplace_guarantee_witness:
  "\<exists>fl w. laplace_part (- 16) 18816 2560 = Some (- 16, fl, w) \<and> fl < fl + w \<and>
    (\<forall>fm. fl \<le> fm \<and> fm < fl + w \<longrightarrow> laplace_find fm 18816 2560 = Some (- 16, fl, fl + w))"
  using laplace_guarantee [of 18816 2560 "- 16"] by (auto simp: laplace_args_def)

section \<open>One stream\<close>

datatype celt_kind = Symbol ec_kind | Difference "32 word" int | Pulses nat nat
datatype celt_value = Number nat | Delta int | Vector "int list"

fun enc_celt :: "celt_kind \<Rightarrow> celt_value \<Rightarrow> ec_ctx \<Rightarrow> ec_ctx option" where
  "enc_celt (Symbol k) (Number v) c = enc_sym k v c"
| "enc_celt (Difference fs decay) (Delta v) c = map_option snd (ec_laplace_encode c v fs decay)"
| "enc_celt (Pulses n k) (Vector y) c = encode_pulses y n k c"
| "enc_celt _ _ c = None"

fun dec_celt :: "celt_kind \<Rightarrow> ec_ctx \<Rightarrow> (celt_value \<times> ec_ctx) option" where
  "dec_celt (Symbol k) d = do { (v, d) \<leftarrow> dec_sym k d; Some (Number v, d) }"
| "dec_celt (Difference fs decay) d = do { (v, d) \<leftarrow> ec_laplace_decode d fs decay; Some (Delta v, d) }"
| "dec_celt (Pulses n k) d = do { (y, d) \<leftarrow> decode_pulses n k d; Some (Vector (fst y), d) }"

fun codable_celt :: "celt_kind \<Rightarrow> celt_value \<Rightarrow> bool" where
  "codable_celt (Symbol k) (Number v) = codable k v"
| "codable_celt (Difference fs decay) (Delta v) = (laplace_codable fs decay v \<and> \<bar>v\<bar> < 2 ^ 31)"
| "codable_celt (Pulses n k) (Vector y) = (supported n k \<and> y \<in> codebook n k)"
| "codable_celt _ _ = False"

lemma enc_celt_codes: "codable_celt k v \<Longrightarrow> codes (enc_celt k v) (dec_celt k) v 48"
proof (induction k v rule: codable_celt.induct)
  case (1 k v)
  have "enc_celt (Symbol k) (Number v) = enc_sym k v" "dec_celt (Symbol k) = (\<lambda>d. do { (v, d) \<leftarrow> dec_sym k d; Some (Number v, d) })"
    by (rule ext, simp)+
  then show ?case using codes_map [OF enc_sym_codes, of k v Number] 1 by simp
next
  case (2 fs decay v)
  then have l: "laplace_args fs decay" "laplace_room fs decay v" "\<bar>v\<bar> < 2 ^ 31" "L (unat fs) (nat decay) (nat \<bar>v\<bar>) \<le> 32768"
    by (simp_all add: laplace_codable_def)
  obtain fl w where p: "laplace_part v fs decay = Some (v, fl, w)" "fl < fl + w" "unat (fl + w) \<le> 2 ^ 15"
    "\<forall>fm. fl \<le> fm \<and> fm < fl + w \<longrightarrow> laplace_find fm fs decay = Some (v, fl, fl + w)" using part_find [OF l(1-3)] l(4) by blast
  have "codes (\<lambda>c. ec_encode_bin c fl (fl + w) 15) (\<lambda>d. ec_laplace_decode d fs decay) v 24"
    by (rule laplace_part_codes [OF p(1-3)]) (use p(4) in blast)
  from codes_weaken [OF codes_map [OF this, of Delta], of 48]
  have "codes (\<lambda>c. ec_encode_bin c fl (fl + w) 15) (\<lambda>d. do { (v, d) \<leftarrow> ec_laplace_decode d fs decay; Some (Delta v, d) }) (Delta v) 48" by simp
  moreover have "enc_celt (Difference fs decay) (Delta v) = (\<lambda>c. ec_encode_bin c fl (fl + w) 15)"
    by (rule ext) (simp add: ec_laplace_encode_def p(1) split: Option.bind_split)
  moreover have "dec_celt (Difference fs decay) = (\<lambda>d. do { (v, d) \<leftarrow> ec_laplace_decode d fs decay; Some (Delta v, d) })" by (rule ext) simp
  ultimately show ?case by simp
next
  case (3 n k y)
  have "enc_celt (Pulses n k) (Vector y) = encode_pulses y n k"
    "dec_celt (Pulses n k) = (\<lambda>d. do { (y, d) \<leftarrow> decode_pulses n k d; Some (Vector (fst y), d) })" by (rule ext, simp)+
  then show ?case using codes_map [OF pulses_codes, of n k y "\<lambda>y. Vector (fst y)"] 3 by simp
qed simp_all

interpretation celt_coder: symbol_coder enc_celt dec_celt codable_celt 48
  by unfold_locales (rule enc_celt_codes)

text \<open> C15. Energy differences, pulse vectors and the symbols of the range coder share one stream: whatever is codable, in any order,
  is encoded into a buffer that holds the bits \<open>ec_tell\<close> counts without error, and decoding the finished buffer gives the same values;
  before each of them the decoder has spent the same number of bits as the encoder had.\<close>

theorem celt_stream_roundtrip:
  assumes "\<forall>(k, v) \<in> set xs. codable_celt k v" and "length b = n" and "length xs \<le> 2 ^ 25"
  shows "\<exists>c c'. enc_all enc_celt xs (ec_enc_init z b n) = Some c \<and> ec_enc_done c = Some c' \<and> length (ec_buf c') = n \<and>
    (\<exists>t. ec_tell c = Some t \<and> 1 \<le> t \<and> t \<le> 9 + 48 * int (length xs) \<and> (t \<le> 8 * int n \<longrightarrow> ec_error c' = 0)) \<and>
    (ec_error c' = 0 \<longrightarrow> (\<exists>d. ec_dec_init z' (ec_buf c') n = Some d \<and>
      (\<forall>i \<le> length xs. \<exists>ci di. enc_all enc_celt (take i xs) (ec_enc_init z b n) = Some ci \<and>
        dec_all dec_celt (map fst (take i xs)) d = Some (map snd (take i xs), di) \<and> ec_tell di = ec_tell ci \<and>
        ec_tell_frac di = ec_tell_frac ci \<and> ec_rng di = ec_rng ci \<and> ec_error di = 0)))"
proof -
  have "length xs \<le> 33554432" using assms(3) by simp
  then have "33 + 48 * length xs < 2147483648" by linarith
  then have "33 + 48 * length xs < 2 ^ 31" by simp
  from celt_coder.finished_stream [OF assms(1,2) this, of z z'] show ?thesis by (simp only: of_nat_numeral)
qed

lemma celt_stream_roundtrip_witness:
  "\<forall>z. \<exists>c' d di. ec_enc_done (the (enc_all enc_celt [(Difference 9216 7808, Delta (- 3)), (Pulses 4 3, Vector [0, - 2, 0, 1]), (Symbol (Logp 3), Number 1)]
      (ec_enc_init z (replicate 30 0) 30))) = Some c' \<and> ec_dec_init z (ec_buf c') 30 = Some d \<and>
    dec_all dec_celt [Difference 9216 7808, Pulses 4 3, Symbol (Logp 3)] d = Some ([Delta (- 3), Vector [0, - 2, 0, 1], Number 1], di)"
proof
  fix z
  define xs where "xs = [(Difference 9216 7808, Delta (- 3)), (Pulses 4 3, Vector [0, - 2, 0, 1]), (Symbol (Logp 3), Number 1)]"
  have "laplace_codable 9216 7808 (- 3)" by (rule room_16) (simp_all add: laplace_args_def)
  moreover have "supported 4 3" by (rule bands_supported [of 4 128]) (simp_all add: pn_def pkmax_def)
  ultimately have "\<forall>(k, v) \<in> set xs. codable_celt k v" by (simp add: xs_def codebook_def)
  moreover have "length xs \<le> 2 ^ 25" by (simp add: xs_def)
  ultimately obtain c c' t where c: "enc_all enc_celt xs (ec_enc_init z (replicate 30 0) 30) = Some c" "ec_enc_done c = Some c'"
    "t \<le> 9 + 48 * int (length xs)" "t \<le> 8 * int 30 \<longrightarrow> ec_error c' = 0"
    and dec: "ec_error c' = 0 \<longrightarrow> (\<exists>d. ec_dec_init z (ec_buf c') 30 = Some d \<and>
      (\<forall>i \<le> length xs. \<exists>di. dec_all dec_celt (map fst (take i xs)) d = Some (map snd (take i xs), di)))"
    using celt_stream_roundtrip [of xs "replicate 30 0" 30 z z] length_replicate [of 30 0] by blast
  have "ec_error c' = 0" using c(3,4) by (simp add: xs_def)
  with dec obtain d where d: "ec_dec_init z (ec_buf c') 30 = Some d"
    "\<forall>i \<le> length xs. \<exists>di. dec_all dec_celt (map fst (take i xs)) d = Some (map snd (take i xs), di)" by blast
  from d(2) obtain di where "dec_all dec_celt (map fst (take (length xs) xs)) d = Some (map snd (take (length xs) xs), di)" by blast
  then have "dec_all dec_celt (map fst xs) d = Some (map snd xs, di)" by simp
  then show "\<exists>c' d di. ec_enc_done (the (enc_all enc_celt [(Difference 9216 7808, Delta (- 3)), (Pulses 4 3, Vector [0, - 2, 0, 1]), (Symbol (Logp 3), Number 1)]
      (ec_enc_init z (replicate 30 0) 30))) = Some c' \<and> ec_dec_init z (ec_buf c') 30 = Some d \<and>
    dec_all dec_celt [Difference 9216 7808, Pulses 4 3, Symbol (Logp 3)] d = Some ([Delta (- 3), Vector [0, - 2, 0, 1], Number 1], di)"
    using c(1,2) d(1) by (intro exI [of _ c'] exI [of _ d] exI [of _ di]) (simp add: xs_def)
qed

end
