(* ===== verification/OpusEnergy.thy ===== *)
theory OpusEnergy
  imports OpusCelt
begin

text \<open>
  The energies of the bands (opus/celt/quant_bands.c, the build with FIXED_POINT): what the encoder writes and
  the decoder reads, coarse, fine and the remaining bits. \<open>opus_val16\<close> and \<open>opus_val32\<close> are integers; a sum
  that leaves 32 bits is undefined (\<open>i32\<close>), a conversion to 16 bits wraps (\<open>i16\<close>).
\<close>

section \<open>Fixed point arithmetic\<close>

definition DB_SHIFT :: nat where "DB_SHIFT = 10"
definition MAX_FINE_BITS :: int where "MAX_FINE_BITS = 8"

definition SHL32 :: "int \<Rightarrow> nat \<Rightarrow> int" where
  "SHL32 a s = sint (word_of_int (a * 2 ^ s) :: 32 word)"

definition SHL16 :: "int \<Rightarrow> nat \<Rightarrow> int" where
  "SHL16 a s = sint (word_of_int (a * 2 ^ s) :: 16 word)"

definition PSHR32 :: "int \<Rightarrow> nat \<Rightarrow> int option" where
  "PSHR32 a s = do { x \<leftarrow> i32 (a + 2 ^ s div 2); Some (drop_bit s x) }"

definition MULT16_16 :: "int \<Rightarrow> int \<Rightarrow> int" where
  "MULT16_16 a b = i16 a * i16 b"

definition SUB16 :: "int \<Rightarrow> int \<Rightarrow> int" where
  "SUB16 a b = i16 a - i16 b"

section \<open>Tables\<close>

definition pred_coef :: "int list" where "pred_coef = [29440, 26112, 21248, 16384]"
definition beta_coef :: "int list" where "beta_coef = [30147, 22282, 12124, 6554]"
definition beta_intra :: int where "beta_intra = 4915"

definition e_prob_model :: "8 word list list list" where
  "e_prob_model =
    [[[72, 127, 65, 129, 66, 128, 65, 128, 64, 128, 62, 128, 64, 128,
       64, 128, 92, 78, 92, 79, 92, 78, 90, 79, 116, 41, 115, 40,
       114, 40, 132, 26, 132, 26, 145, 17, 161, 12, 176, 10, 177, 11],
      [24, 179, 48, 138, 54, 135, 54, 132, 53, 134, 56, 133, 55, 132,
       55, 132, 61, 114, 70, 96, 74, 88, 75, 88, 87, 74, 89, 66,
       91, 67, 100, 59, 108, 50, 120, 40, 122, 37, 97, 43, 78, 50]],
     [[83, 78, 84, 81, 88, 75, 86, 74, 87, 71, 90, 73, 93, 74,
       93, 74, 109, 40, 114, 36, 117, 34, 117, 34, 143, 17, 145, 18,
       146, 19, 162, 12, 165, 10, 178, 7, 189, 6, 190, 8, 177, 9],
      [23, 178, 54, 115, 63, 102, 66, 98, 69, 99, 74, 89, 71, 91,
       73, 91, 78, 89, 86, 80, 92, 66, 93, 64, 102, 59, 103, 60,
       104, 60, 117, 52, 123, 44, 138, 35, 133, 31, 97, 38, 77, 45]],
     [[61, 90, 93, 60, 105, 42, 107, 41, 110, 45, 116, 38, 113, 38,
       112, 38, 124, 26, 132, 27, 136, 19, 140, 20, 155, 14, 159, 16,
       158, 18, 170, 13, 177, 10, 187, 8, 192, 6, 175, 9, 159, 10],
      [21, 178, 59, 110, 71, 86, 75, 85, 84, 83, 91, 66, 88, 73,
       87, 72, 92, 75, 98, 72, 105, 58, 107, 54, 115, 52, 114, 55,
       112, 56, 129, 51, 132, 40, 150, 33, 140, 29, 98, 35, 77, 42]],
     [[42, 121, 96, 66, 108, 43, 111, 40, 117, 44, 123, 32, 120, 36,
       119, 33, 127, 33, 134, 34, 139, 21, 147, 23, 152, 20, 158, 25,
       154, 26, 166, 21, 173, 16, 184, 13, 184, 10, 150, 13, 139, 15],
      [22, 178, 63, 114, 74, 82, 84, 83, 92, 82, 103, 62, 96, 72,
       96, 67, 101, 73, 107, 72, 113, 55, 118, 52, 125, 52, 118, 52,
       117, 55, 135, 49, 137, 39, 157, 32, 145, 29, 97, 33, 77, 40]]]"

definition small_energy_icdf :: mem where
  "small_energy_icdf = [2, 1, 0]"

section \<open>Coarse energy\<close>

text \<open>The difference to the prediction, \<open>f\<close>, and the number of steps it is nearest to.\<close>

definition coarse_qi :: "int \<Rightarrow> int \<Rightarrow> int \<Rightarrow> int \<Rightarrow> int \<Rightarrow> (int \<times> int) option" where
  "coarse_qi x old coef prev max_decay =
     (let oldE = max (- (9 * 2 ^ DB_SHIFT)) old
      in do { a \<leftarrow> PSHR32 (MULT16_16 coef oldE) 8;
              f \<leftarrow> i32 (SHL32 x 7 - a);
              f \<leftarrow> i32 (f - prev);
              h \<leftarrow> i32 (f + 2 ^ (DB_SHIFT + 7) div 2);
              b \<leftarrow> i32 (old - max_decay);
              (let qi = drop_bit (DB_SHIFT + 7) h; decay_bound = i16 (max (- (28 * 2 ^ DB_SHIFT)) b)
               in Some (f, if qi < 0 \<and> x < decay_bound
                           then (let qi = qi + drop_bit DB_SHIFT (SUB16 decay_bound x) in if qi > 0 then 0 else qi)
                           else qi)) })"

definition limit_qi :: "bool \<Rightarrow> nat \<Rightarrow> nat \<Rightarrow> int \<Rightarrow> int \<Rightarrow> int" where
  "limit_qi lfe start i bits_left qi =
     (let qi = (if i \<noteq> start \<and> bits_left < 30
                then (let qi = (if bits_left < 24 then min 1 qi else qi) in if bits_left < 16 then max (- 1) qi else qi)
                else qi)
      in if lfe \<and> i \<ge> 2 then min qi 0 else qi)"

text \<open>The symbol for a difference of \<open>qi\<close> steps, by the bits left; the result is the difference the encoder goes on with.\<close>

definition enc_delta :: "int \<Rightarrow> 8 word list \<Rightarrow> nat \<Rightarrow> int \<Rightarrow> int \<Rightarrow> ec_ctx \<Rightarrow> (int \<times> ec_ctx) option" where
  "enc_delta budget prob_model i qi tell enc =
     (if budget - tell \<ge> 15
      then (let pi = 2 * min i 20
            in do { p \<leftarrow> rd prob_model pi;
                    q \<leftarrow> rd prob_model (pi + 1);
                    ec_laplace_encode enc qi (word_of_int (uint p * 2 ^ 7)) (uint q * 2 ^ 6) })
      else if budget - tell \<ge> 2
      then (let qi = max (- 1) (min qi 1)
            in do { enc \<leftarrow> ec_enc_icdf enc (nat ((2 * qi) XOR - (if qi < 0 then 1 else 0))) small_energy_icdf 2; Some (qi, enc) })
      else if budget - tell \<ge> 1
      then (let qi = min 0 qi in do { enc \<leftarrow> ec_enc_bit_logp enc (- qi \<noteq> 0) 1; Some (qi, enc) })
      else Some (- 1, enc))"

text \<open>The new energy of the band and the new prediction, from the difference; encoder and decoder alike.\<close>

definition reconstruct :: "int \<Rightarrow> int \<Rightarrow> int \<Rightarrow> int \<Rightarrow> int \<Rightarrow> (int \<times> int) option" where
  "reconstruct coef beta oldE prev qi =
     (let q = SHL32 qi DB_SHIFT
      in do { a \<leftarrow> PSHR32 (MULT16_16 coef oldE) 8;
              t \<leftarrow> i32 (a + prev);
              t \<leftarrow> i32 (t + SHL32 q 7);
              e \<leftarrow> PSHR32 (max (- (28 * 2 ^ (DB_SHIFT + 7))) t) 7;
              p \<leftarrow> i32 (prev + SHL32 q 7);
              b \<leftarrow> PSHR32 q 8;
              p \<leftarrow> i32 (p - MULT16_16 beta b);
              Some (i16 e, p) })"

text \<open>What the functions know of the mode and of the frame: \<open>nbEBands\<close>, the bands coded, the channels.\<close>

record celt_frame =
  nbEBands :: nat
  band_start :: nat
  band_end :: nat
  channels :: nat

text \<open>\<open>for (i = start; i < end; i++) { c = 0; do ... while (++c < C); }\<close>.\<close>

definition bands :: "celt_frame \<Rightarrow> (nat \<times> nat) list" where
  "bands m = concat (map (\<lambda>i. map (Pair i) [0..<max 1 (channels m)]) [band_start m..<band_end m])"

record coarse =
  oldEBands :: "int list"
  band_error :: "int list"
  prev_q :: "int list"
  badness :: int

definition quant_band ::
  "celt_frame \<Rightarrow> int list \<Rightarrow> int \<Rightarrow> 8 word list \<Rightarrow> int \<Rightarrow> int \<Rightarrow> int \<Rightarrow> bool \<Rightarrow> nat \<times> nat \<Rightarrow> coarse \<Rightarrow> ec_ctx \<Rightarrow> (coarse \<times> ec_ctx) option" where
  "quant_band m eBands budget prob_model coef beta max_decay lfe ic s enc =
     (let (i, c) = ic; j = i + c * nbEBands m
      in do { x \<leftarrow> rd eBands j;
              old \<leftarrow> rd (oldEBands s) j;
              prev \<leftarrow> rd (prev_q s) c;
              (f, qi0) \<leftarrow> coarse_qi x old coef prev max_decay;
              tell \<leftarrow> ec_tell enc;
              bits_left \<leftarrow> i32 (budget - tell - 3 * int (channels m) * (int (band_end m) - int i));
              (qi, enc) \<leftarrow> enc_delta budget prob_model i (limit_qi lfe (band_start m) i bits_left qi0) tell enc;
              e \<leftarrow> PSHR32 f 7;
              er \<leftarrow> wr (band_error s) j (i16 (e - SHL16 qi DB_SHIFT));
              bad \<leftarrow> i32 (badness s + \<bar>qi0 - qi\<bar>);
              (old, prev) \<leftarrow> reconstruct coef beta (max (- (9 * 2 ^ DB_SHIFT)) old) prev qi;
              es \<leftarrow> wr (oldEBands s) j old;
              ps \<leftarrow> wr (prev_q s) c prev;
              Some (\<lparr>oldEBands = es, band_error = er, prev_q = ps, badness = bad\<rparr>, enc) })"

definition prediction :: "bool \<Rightarrow> nat \<Rightarrow> (int \<times> int) option" where
  "prediction intra LM =
     (if intra then Some (0, beta_intra)
      else do { b \<leftarrow> rd beta_coef LM; p \<leftarrow> rd pred_coef LM; Some (p, b) })"

definition quant_coarse_energy_impl ::
  "celt_frame \<Rightarrow> int list \<Rightarrow> int list \<Rightarrow> int \<Rightarrow> int \<Rightarrow> 8 word list \<Rightarrow> int list \<Rightarrow> nat \<Rightarrow> bool \<Rightarrow> int \<Rightarrow> bool \<Rightarrow>
   ec_ctx \<Rightarrow> ((int \<times> int list \<times> int list) \<times> ec_ctx) option" where
  "quant_coarse_energy_impl m eBands old budget tell prob_model error LM intra max_decay lfe enc =
     do { enc \<leftarrow> (if tell + 3 \<le> budget then ec_enc_bit_logp enc intra 3 else Some enc);
          (coef, beta) \<leftarrow> prediction intra LM;
          (s, enc) \<leftarrow> foldM (\<lambda>ic (s, enc). quant_band m eBands budget prob_model coef beta max_decay lfe ic s enc) (bands m)
            (\<lparr>oldEBands = old, band_error = error, prev_q = [0, 0], badness = 0\<rparr>, enc);
          Some ((if lfe then 0 else badness s, oldEBands s, band_error s), enc) }"

definition MULT16_16_Q15 :: "int \<Rightarrow> int \<Rightarrow> int" where
  "MULT16_16_Q15 a b = drop_bit 15 (MULT16_16 a b)"

definition MULT16_32_Q15 :: "int \<Rightarrow> int \<Rightarrow> int" where
  "MULT16_32_Q15 a b = drop_bit 15 (i16 a * b)"

definition loss_distortion :: "celt_frame \<Rightarrow> int list \<Rightarrow> int list \<Rightarrow> nat \<Rightarrow> int option" where
  "loss_distortion m eBands old effEnd =
     do { dist \<leftarrow> foldM (\<lambda>j dist. do { x \<leftarrow> rd eBands j;
                                   y \<leftarrow> rd old j;
                                   (let d = i16 (SUB16 (drop_bit 3 x) (drop_bit 3 y)) in i32 (dist + MULT16_16 d d)) })
             (concat (map (\<lambda>c. map (\<lambda>i. i + c * nbEBands m) [band_start m..<effEnd]) [0..<max 1 (channels m)])) 0;
          Some (min 200 (drop_bit (2 * DB_SHIFT - 6) dist)) }"

text \<open>One pass with the model for the flag.\<close>

definition coarse_pass ::
  "celt_frame \<Rightarrow> int list \<Rightarrow> int list \<Rightarrow> 32 word \<Rightarrow> 32 word \<Rightarrow> int list \<Rightarrow> nat \<Rightarrow> bool \<Rightarrow> int \<Rightarrow> bool \<Rightarrow>
   ec_ctx \<Rightarrow> ((int \<times> int list \<times> int list) \<times> ec_ctx) option" where
  "coarse_pass m eBands old budget tell error LM intra max_decay lfe enc =
     do { models \<leftarrow> rd e_prob_model LM;
          prob_model \<leftarrow> rd models (if intra then 1 else 0);
          quant_coarse_energy_impl m eBands old (sint budget) (sint tell) prob_model error LM intra max_decay lfe enc }"

text \<open>The bytes of the intra pass, saved before and copied back after the other pass.\<close>

definition save_bytes :: "ec_ctx \<Rightarrow> ec_ctx \<Rightarrow> mem option" where
  "save_bytes enc enc1 =
     do { u \<leftarrow> ensure (ec_range_bytes enc \<le> ec_range_bytes enc1 \<and> ec_range_bytes enc1 \<le> length (ec_get_buffer enc1));
          Some (take (ec_range_bytes enc1 - ec_range_bytes enc) (drop (ec_range_bytes enc) (ec_get_buffer enc1))) }"

definition restore_bytes :: "nat \<Rightarrow> mem \<Rightarrow> mem \<Rightarrow> mem option" where
  "restore_bytes p saved b =
     do { u \<leftarrow> ensure (p + length saved \<le> length b); Some (take p b @ saved @ drop (p + length saved) b) }"

text \<open>
  The passes: both write into the same buffer; \<open>*enc = enc_start_state\<close> and \<open>*enc = enc_intra_state\<close> copy the
  state but not the buffer. \<open>error_intra\<close> is allocated and not initialised: the model is given its contents.
\<close>

definition coarse_passes ::
  "celt_frame \<Rightarrow> int list \<Rightarrow> int list \<Rightarrow> 32 word \<Rightarrow> 32 word \<Rightarrow> int list \<Rightarrow> int list \<Rightarrow> nat \<Rightarrow> bool \<Rightarrow> bool \<Rightarrow> int \<Rightarrow> int \<Rightarrow> bool \<Rightarrow>
   ec_ctx \<Rightarrow> ((int list \<times> int list \<times> bool) \<times> ec_ctx) option" where
  "coarse_passes m eBands old budget tell error error_intra LM two_pass intra intra_bias max_decay lfe enc =
     do { ((bad1, old1, error1), enc1) \<leftarrow>
            (if two_pass \<or> intra then coarse_pass m eBands old budget tell error_intra LM True max_decay lfe enc
             else Some ((0, old, error_intra), enc));
          (if intra then Some ((old1, error1, True), enc1)
           else do { tell_intra \<leftarrow> ec_tell_frac enc1;
                     saved \<leftarrow> save_bytes enc enc1;
                     ((bad2, old2, error2), enc2) \<leftarrow>
                       coarse_pass m eBands old budget tell error LM False max_decay lfe (enc\<lparr>ec_buf := ec_buf enc1\<rparr>);
                     better \<leftarrow> (if two_pass \<and> bad1 = bad2
                               then do { f \<leftarrow> ec_tell_frac enc2; x \<leftarrow> i32 (sint f + intra_bias); Some (x > sint tell_intra) }
                               else Some (two_pass \<and> bad1 < bad2));
                     (if better
                      then do { b \<leftarrow> restore_bytes (ec_range_bytes enc) saved (ec_buf enc2);
                                Some ((old1, error1, True), enc1\<lparr>ec_buf := b\<rparr>) }
                      else Some ((old2, error2, False), enc2)) }) }"

definition quant_coarse_energy ::
  "celt_frame \<Rightarrow> nat \<Rightarrow> int list \<Rightarrow> int list \<Rightarrow> 32 word \<Rightarrow> int list \<Rightarrow> int list \<Rightarrow> nat \<Rightarrow> int \<Rightarrow> bool \<Rightarrow> int \<Rightarrow> bool \<Rightarrow> int \<Rightarrow> bool \<Rightarrow>
   ec_ctx \<Rightarrow> ((int list \<times> int list \<times> int) \<times> ec_ctx) option" where
  "quant_coarse_energy m effEnd eBands old budget error error_intra LM nbAvailableBytes force_intra delayedIntra two_pass loss_rate lfe enc =
     (let C = int (channels m); w = int (band_end m) - int (band_start m);
          intra = (force_intra \<or> (\<not> two_pass \<and> delayedIntra > 2 * C * w \<and> nbAvailableBytes > w * C));
          intra_bias = sint ((budget * word_of_int delayedIntra * word_of_int loss_rate) div word_of_int (C * 512))
      in do { new_distortion \<leftarrow> loss_distortion m eBands old effEnd;
              te \<leftarrow> ec_tell enc;
              (let tell = word_of_int te :: 32 word;
                   (two_pass, intra) = (if tell + 3 > budget then (False, False) else (two_pass, intra));
                   max_decay = 16 * 2 ^ DB_SHIFT;
                   max_decay = (if w > 10 then i16 (min max_decay (SHL32 nbAvailableBytes (DB_SHIFT - 3))) else max_decay);
                   max_decay = (if lfe then 3 * 2 ^ DB_SHIFT else max_decay)
               in do { ((old, error, intra), enc) \<leftarrow>
                         coarse_passes m eBands old budget tell error error_intra LM two_pass intra intra_bias max_decay lfe enc;
                       delayed \<leftarrow> (if intra then Some new_distortion
                                  else do { p \<leftarrow> rd pred_coef LM; i32 (MULT16_32_Q15 (MULT16_16_Q15 p p) delayedIntra + new_distortion) });
                       Some ((old, error, delayed), enc) }) })"

definition dec_delta :: "int \<Rightarrow> 8 word list \<Rightarrow> nat \<Rightarrow> int \<Rightarrow> ec_ctx \<Rightarrow> (int \<times> ec_ctx) option" where
  "dec_delta budget prob_model i tell dec =
     (if budget - tell \<ge> 15
      then (let pi = 2 * min i 20
            in do { p \<leftarrow> rd prob_model pi;
                    q \<leftarrow> rd prob_model (pi + 1);
                    ec_laplace_decode dec (word_of_int (uint p * 2 ^ 7)) (uint q * 2 ^ 6) })
      else if budget - tell \<ge> 2
      then do { (s, dec) \<leftarrow> ec_dec_icdf dec small_energy_icdf 2; Some (drop_bit 1 (int s) XOR - (int s AND 1), dec) }
      else if budget - tell \<ge> 1
      then do { (b, dec) \<leftarrow> ec_dec_bit_logp dec 1; Some (- (if b then 1 else 0), dec) }
      else Some (- 1, dec))"

definition unquant_band ::
  "celt_frame \<Rightarrow> int \<Rightarrow> 8 word list \<Rightarrow> int \<Rightarrow> int \<Rightarrow> nat \<times> nat \<Rightarrow> int list \<times> int list \<Rightarrow> ec_ctx \<Rightarrow> ((int list \<times> int list) \<times> ec_ctx) option" where
  "unquant_band m budget prob_model coef beta ic s dec =
     (let (i, c) = ic; j = i + c * nbEBands m; (olds, prevs) = s
      in do { u \<leftarrow> ensure (c < 2);
              tell \<leftarrow> ec_tell dec;
              (qi, dec) \<leftarrow> dec_delta budget prob_model i tell dec;
              old \<leftarrow> rd olds j;
              olds \<leftarrow> wr olds j (max (- (9 * 2 ^ DB_SHIFT)) old);
              old \<leftarrow> rd olds j;
              prev \<leftarrow> rd prevs c;
              (old, prev) \<leftarrow> reconstruct coef beta old prev qi;
              olds \<leftarrow> wr olds j old;
              prevs \<leftarrow> wr prevs c prev;
              Some ((olds, prevs), dec) })"

definition unquant_coarse_energy :: "celt_frame \<Rightarrow> int list \<Rightarrow> bool \<Rightarrow> nat \<Rightarrow> ec_ctx \<Rightarrow> (int list \<times> ec_ctx) option" where
  "unquant_coarse_energy m old intra LM dec =
     (let budget = int (ec_storage dec) * 8
      in do { models \<leftarrow> rd e_prob_model LM;
              prob_model \<leftarrow> rd models (if intra then 1 else 0);
              (coef, beta) \<leftarrow> prediction intra LM;
              (s, dec) \<leftarrow> foldM (\<lambda>ic (s, dec). unquant_band m budget prob_model coef beta ic s dec) (bands m) ((old, [0, 0]), dec);
              Some (fst s, dec) })"

section \<open>Fine energy\<close>

text \<open>The offset of a fine number, and of one of the remaining bits.\<close>

definition fine_offset :: "int \<Rightarrow> nat \<Rightarrow> int" where
  "fine_offset q2 bits = i16 (SUB16 (drop_bit bits (SHL32 q2 DB_SHIFT + 2 ^ DB_SHIFT div 2)) (2 ^ DB_SHIFT div 2))"

definition last_offset :: "int \<Rightarrow> int \<Rightarrow> int" where
  "last_offset q2 bits = i16 (drop_bit (nat (bits + 1)) (SHL16 q2 DB_SHIFT - 2 ^ DB_SHIFT div 2))"

definition quant_fine_band :: "celt_frame \<Rightarrow> int list \<Rightarrow> nat \<times> nat \<Rightarrow> int list \<times> int list \<Rightarrow> ec_ctx \<Rightarrow> ((int list \<times> int list) \<times> ec_ctx) option" where
  "quant_fine_band m fine_quant ic s enc =
     (let (i, c) = ic; j = i + c * nbEBands m; (olds, errors) = s
      in do { b \<leftarrow> rd fine_quant i;
              u \<leftarrow> ensure (0 \<le> b \<and> b < 31);
              (if b \<le> 0 then Some (s, enc)
               else do { u \<leftarrow> ensure (b \<le> 10);
                         e \<leftarrow> rd errors j;
                         (let frac = i16 (2 ^ nat b); q2 = drop_bit (DB_SHIFT - nat b) (e + 2 ^ DB_SHIFT div 2);
                              q2 = (if q2 > frac - 1 then frac - 1 else q2); q2 = (if q2 < 0 then 0 else q2)
                          in do { enc \<leftarrow> ec_enc_bits enc (word_of_int q2) (nat b);
                                  old \<leftarrow> rd olds j;
                                  olds \<leftarrow> wr olds j (i16 (old + fine_offset q2 (nat b)));
                                  errors \<leftarrow> wr errors j (i16 (e - fine_offset q2 (nat b)));
                                  Some ((olds, errors), enc) }) }) })"

definition quant_fine_energy :: "celt_frame \<Rightarrow> int list \<Rightarrow> int list \<Rightarrow> int list \<Rightarrow> ec_ctx \<Rightarrow> ((int list \<times> int list) \<times> ec_ctx) option" where
  "quant_fine_energy m old error fine_quant enc =
     foldM (\<lambda>ic (s, enc). quant_fine_band m fine_quant ic s enc) (bands m) ((old, error), enc)"

definition unquant_fine_band :: "celt_frame \<Rightarrow> int list \<Rightarrow> nat \<times> nat \<Rightarrow> int list \<Rightarrow> ec_ctx \<Rightarrow> (int list \<times> ec_ctx) option" where
  "unquant_fine_band m fine_quant ic olds dec =
     (let (i, c) = ic; j = i + c * nbEBands m
      in do { b \<leftarrow> rd fine_quant i;
              (if b \<le> 0 then Some (olds, dec)
               else do { (q2, dec) \<leftarrow> ec_dec_bits dec (nat b);
                         old \<leftarrow> rd olds j;
                         olds \<leftarrow> wr olds j (i16 (old + fine_offset (sint q2) (nat b)));
                         Some (olds, dec) }) })"

definition unquant_fine_energy :: "celt_frame \<Rightarrow> int list \<Rightarrow> int list \<Rightarrow> ec_ctx \<Rightarrow> (int list \<times> ec_ctx) option" where
  "unquant_fine_energy m old fine_quant dec =
     foldM (\<lambda>ic (s, dec). unquant_fine_band m fine_quant ic s dec) (bands m) (old, dec)"

section \<open>The remaining bits\<close>

definition quant_final_place ::
  "celt_frame \<Rightarrow> int list \<Rightarrow> int \<Rightarrow> nat \<Rightarrow> nat \<Rightarrow> int list \<times> int \<Rightarrow> ec_ctx \<Rightarrow> ((int list \<times> int) \<times> ec_ctx) option" where
  "quant_final_place m error b i c s enc =
     (let j = i + c * nbEBands m; (olds, left) = s
      in do { e \<leftarrow> rd error j;
              (let q2 = (if e < 0 then 0 else 1)
               in do { enc \<leftarrow> ec_enc_bits enc (word_of_int q2) 1;
                       old \<leftarrow> rd olds j;
                       olds \<leftarrow> wr olds j (i16 (old + last_offset q2 b));
                       left \<leftarrow> i32 (left - 1);
                       Some ((olds, left), enc) }) })"

text \<open>A turn of the loop over the bands; with less than a bit per channel left the loop has ended.\<close>

definition quant_final_band ::
  "celt_frame \<Rightarrow> int list \<Rightarrow> int list \<Rightarrow> int list \<Rightarrow> int \<times> nat \<Rightarrow> int list \<times> int \<Rightarrow> ec_ctx \<Rightarrow> ((int list \<times> int) \<times> ec_ctx) option" where
  "quant_final_band m error fine_quant fine_priority pi s enc =
     (let (prio, i) = pi
      in if snd s < int (channels m) then Some (s, enc)
         else do { b \<leftarrow> rd fine_quant i;
                   p \<leftarrow> (if b \<ge> MAX_FINE_BITS then Some prio else rd fine_priority i);
                   (if b \<ge> MAX_FINE_BITS \<or> p \<noteq> prio then Some (s, enc)
                    else do { u \<leftarrow> ensure (0 \<le> b + 1);
                              foldM (\<lambda>c (s, enc). quant_final_place m error b i c s enc) [0..<max 1 (channels m)] (s, enc) }) })"

definition final_bands :: "celt_frame \<Rightarrow> (int \<times> nat) list" where
  "final_bands m = concat (map (\<lambda>prio. map (Pair prio) [band_start m..<band_end m]) [0, 1])"

definition quant_energy_finalise ::
  "celt_frame \<Rightarrow> int list \<Rightarrow> int list \<Rightarrow> int list \<Rightarrow> int list \<Rightarrow> int \<Rightarrow> ec_ctx \<Rightarrow> (int list \<times> ec_ctx) option" where
  "quant_energy_finalise m old error fine_quant fine_priority bits_left enc =
     do { (s, enc) \<leftarrow> foldM (\<lambda>pi (s, enc). quant_final_band m error fine_quant fine_priority pi s enc) (final_bands m) ((old, bits_left), enc);
          Some (fst s, enc) }"

definition unquant_final_place ::
  "celt_frame \<Rightarrow> int \<Rightarrow> nat \<Rightarrow> nat \<Rightarrow> int list \<times> int \<Rightarrow> ec_ctx \<Rightarrow> ((int list \<times> int) \<times> ec_ctx) option" where
  "unquant_final_place m b i c s dec =
     (let j = i + c * nbEBands m; (olds, left) = s
      in do { (q2, dec) \<leftarrow> ec_dec_bits dec 1;
              old \<leftarrow> rd olds j;
              olds \<leftarrow> wr olds j (i16 (old + last_offset (sint q2) b));
              left \<leftarrow> i32 (left - 1);
              Some ((olds, left), dec) })"

definition unquant_final_band ::
  "celt_frame \<Rightarrow> int list \<Rightarrow> int list \<Rightarrow> int \<times> nat \<Rightarrow> int list \<times> int \<Rightarrow> ec_ctx \<Rightarrow> ((int list \<times> int) \<times> ec_ctx) option" where
  "unquant_final_band m fine_quant fine_priority pi s dec =
     (let (prio, i) = pi
      in if snd s < int (channels m) then Some (s, dec)
         else do { b \<leftarrow> rd fine_quant i;
                   p \<leftarrow> (if b \<ge> MAX_FINE_BITS then Some prio else rd fine_priority i);
                   (if b \<ge> MAX_FINE_BITS \<or> p \<noteq> prio then Some (s, dec)
                    else do { u \<leftarrow> ensure (0 \<le> b + 1);
                              foldM (\<lambda>c (s, dec). unquant_final_place m b i c s dec) [0..<max 1 (channels m)] (s, dec) }) })"

definition unquant_energy_finalise ::
  "celt_frame \<Rightarrow> int list \<Rightarrow> int list \<Rightarrow> int list \<Rightarrow> int \<Rightarrow> ec_ctx \<Rightarrow> (int list \<times> ec_ctx) option" where
  "unquant_energy_finalise m old fine_quant fine_priority bits_left dec =
     do { (s, dec) \<leftarrow> foldM (\<lambda>pi (s, dec). unquant_final_band m fine_quant fine_priority pi s dec) (final_bands m) ((old, bits_left), dec);
          Some (fst s, dec) }"

section \<open>The energies of a frame\<close>

text \<open>The flag and the coarse energies, as celt_decoder.c reads them.\<close>

definition dec_intra :: "int \<Rightarrow> ec_ctx \<Rightarrow> (bool \<times> ec_ctx) option" where
  "dec_intra total_bits dec =
     do { tell \<leftarrow> ec_tell dec;
          (if tell + 3 \<le> total_bits then ec_dec_bit_logp dec 3 else Some (False, dec)) }"

definition decode_coarse :: "celt_frame \<Rightarrow> int list \<Rightarrow> nat \<Rightarrow> ec_ctx \<Rightarrow> (int list \<times> ec_ctx) option" where
  "decode_coarse m old LM dec =
     do { (intra, dec) \<leftarrow> dec_intra (int (ec_storage dec) * 8) dec; unquant_coarse_energy m old intra LM dec }"

text \<open>
  The energies in the order of celt_encode_with_ec and celt_decode_with_ec, between other symbols: coarse,
  \<open>xs\<close>, fine, \<open>ys\<close>, the remaining bits.
\<close>

definition enc_energies ::
  "celt_frame \<Rightarrow> nat \<Rightarrow> int list \<Rightarrow> int list \<Rightarrow> int list \<Rightarrow> int list \<Rightarrow> nat \<Rightarrow> int \<Rightarrow> bool \<Rightarrow> int \<Rightarrow> bool \<Rightarrow> int \<Rightarrow> bool \<Rightarrow> int list \<Rightarrow> int list \<Rightarrow>
   (celt_kind \<times> celt_value) list \<Rightarrow> (celt_kind \<times> celt_value) list \<Rightarrow> ec_ctx \<Rightarrow> (int list \<times> ec_ctx) option" where
  "enc_energies m effEnd eBands old error error_intra LM nbAvailableBytes force_intra delayedIntra two_pass loss_rate lfe fine_quant fine_priority xs ys enc =
     (let total_bits = int (ec_storage enc) * 8
      in do { ((old, error, delayed), enc) \<leftarrow>
                quant_coarse_energy m effEnd eBands old (word_of_int total_bits) error error_intra LM nbAvailableBytes force_intra delayedIntra two_pass loss_rate lfe enc;
              enc \<leftarrow> enc_all enc_celt xs enc;
              ((old, error), enc) \<leftarrow> quant_fine_energy m old error fine_quant enc;
              enc \<leftarrow> enc_all enc_celt ys enc;
              tell \<leftarrow> ec_tell enc;
              quant_energy_finalise m old error fine_quant fine_priority (total_bits - tell) enc })"

definition dec_energies ::
  "celt_frame \<Rightarrow> int list \<Rightarrow> nat \<Rightarrow> int list \<Rightarrow> int list \<Rightarrow> celt_kind list \<Rightarrow> celt_kind list \<Rightarrow> ec_ctx \<Rightarrow>
   ((celt_value list \<times> celt_value list \<times> int list) \<times> ec_ctx) option" where
  "dec_energies m old LM fine_quant fine_priority ks ls dec =
     (let total_bits = int (ec_storage dec) * 8
      in do { (old, dec) \<leftarrow> decode_coarse m old LM dec;
              (vs, dec) \<leftarrow> dec_all dec_celt ks dec;
              (old, dec) \<leftarrow> unquant_fine_energy m old fine_quant dec;
              (ws, dec) \<leftarrow> dec_all dec_celt ls dec;
              tell \<leftarrow> ec_tell dec;
              (old, dec) \<leftarrow> unquant_energy_finalise m old fine_quant fine_priority (total_bits - tell) dec;
              Some ((vs, ws, old), dec) })"

end
