(* ===== verification/OpusEnergyModel.thy ===== *)
theory OpusEnergyModel
  imports OpusEnergy
begin

text \<open>
  The probability models of the coarse energy: each of the 168 pairs of \<open>e_prob_model\<close> leaves room for every
  difference, cut off at 64 steps at most.
\<close>

section \<open>The probability models\<close>

text \<open>All values have their part, and only values of at most 64 have one of their own.\<close>

fun probs_fit :: "nat \<Rightarrow> nat \<Rightarrow> nat \<Rightarrow> nat \<Rightarrow> bool" where
  "probs_fit 0 l g d = False"
| "probs_fit (Suc n) l g d = (l + 2 \<le> 32768 \<and> (if g = 0 then 32768 \<le> l + 2 * n else probs_fit n (l + 2 * g + 2) (2 * g * d div 2 ^ 15) d))"

lemma probs_fit_rec: "probs_fit n l g d = (0 < n \<and> l + 2 \<le> 32768 \<and>
    (if g = 0 then 32768 \<le> l + 2 * (n - 1) else probs_fit (n - 1) (l + 2 * g + 2) (2 * g * d div 2 ^ 15) d))"
  by (cases n) simp_all

lemma probs_fit_L:
  assumes "probs_fit n (L f d k) (G f d k) d"
  shows "32768 \<le> L f d (k + n - 1)" and "k \<le> j \<Longrightarrow> (\<forall>m < j. 0 < G f d m) \<Longrightarrow> L f d j + 2 \<le> 32768"
  using assms
proof (induction n arbitrary: k)
  case (Suc n)
  {
    case 1
    then show ?case using L_tail [of f d k n] Suc.IH(1) [of "Suc k"] by (cases "G f d k = 0") simp_all
  next
    case 2
    show ?case
    proof (cases "j = k")
      case False
      then have "k < j" using 2(1) by simp
      then have "G f d k \<noteq> 0" using 2(2) by blast
      then have "probs_fit n (L f d (Suc k)) (G f d (Suc k)) d" using 2(3) by (simp only: probs_fit.simps if_False L.simps G.simps)
      then show ?thesis using 2(2) Suc.IH(2) [of "Suc k"] \<open>k < j\<close> by (simp only: Suc_leI)
    qed (use 2(3) in simp)
  }
qed simp_all

definition pair_fits :: "8 word \<Rightarrow> 8 word \<Rightarrow> bool" where
  "pair_fits p q \<longleftrightarrow> 0 < unat p \<and> unat p * 2 ^ 7 \<le> 32736 \<and>
     probs_fit 65 (unat p * 2 ^ 7) ((32736 - unat p * 2 ^ 7) * (16384 - unat q * 2 ^ 6) div 2 ^ 15) (unat q * 2 ^ 6)"

fun row_fits :: "8 word list \<Rightarrow> bool" where
  "row_fits (p # q # r) = (pair_fits p q \<and> row_fits r)"
| "row_fits r = True"

lemma model_fits: "list_all (list_all (\<lambda>r. length r = 42 \<and> row_fits r)) e_prob_model"
  by (simp add: e_prob_model_def pair_fits_def) (simp add: probs_fit_rec [of "numeral k" for k])

lemma row_fits_nth: "row_fits r \<Longrightarrow> 2 * i + 1 < length r \<Longrightarrow> pair_fits (r ! (2 * i)) (r ! (2 * i + 1))"
proof (induction r arbitrary: i rule: row_fits.induct)
  case (1 p q r)
  then show ?case by (cases i) simp_all
qed simp_all

end
