(* ===== verification/OpusAdapt.thy ===== *)
theory OpusAdapt
  imports OpusCelt
begin

text \<open>
  Encoder and decoder in step when the encoder decides itself what it writes. A locale-free companion of
  \<open>symbol_coder\<close>: \<open>adapts\<close> composes, over sequences, loops and choices by \<open>ec_tell\<close>.
\<close>

section \<open>What an encoder leaves behind\<close>

text \<open>From \<open>c\<close> to \<open>c'\<close> with at most \<open>k\<close> bits, such that the decoder obtains \<open>w\<close>.\<close>

definition outcome :: "(ec_ctx \<Rightarrow> ('w \<times> ec_ctx) option) \<Rightarrow> 'w \<Rightarrow> nat \<Rightarrow> ec_ctx \<Rightarrow> ec_ctx \<Rightarrow> bool" where
  "outcome Dc w k c c' \<longleftrightarrow> enc_wf c' \<and> ec_storage c' = ec_storage c \<and> ec_nbits_total c \<le> ec_nbits_total c' \<and>
     ec_nbits_total c' \<le> ec_nbits_total c + int k \<and> leads Dc w c c' \<and>
     (enc_state c \<and> ec_nbits_total c' \<le> 8 * int (ec_storage c) + 32 \<longrightarrow> ec_error c' = 0)"

lemma outcomeD:
  assumes "outcome Dc w k c c'"
  shows "enc_wf c'" and "ec_storage c' = ec_storage c" and "ec_nbits_total c \<le> ec_nbits_total c'" and "ec_nbits_total c' \<le> ec_nbits_total c + int k"
    and "leads Dc w c c'" and "enc_state c \<Longrightarrow> ec_nbits_total c' \<le> 8 * int (ec_storage c) + 32 \<Longrightarrow> ec_error c' = 0"
  using assms by (simp_all add: outcome_def)

lemma outcome_codes:
  assumes "codes E Dc w k" and "enc_wf c" and "ec_nbits_total c + int k < 2 ^ 31"
  shows "\<exists>c'. E c = Some c' \<and> outcome Dc w k c c'"
  using codesE [OF assms] unfolding outcome_def by metis

lemma outcome_refl: "enc_wf c \<Longrightarrow> outcome (\<lambda>d. Some (w, d)) w 0 c c"
  by (simp add: outcome_def leads_refl enc_state_ok)

lemma outcome_bind:
  assumes 1: "outcome D1 v k1 c c1" and 2: "outcome (D2 v) w k2 c1 c2"
  shows "outcome (\<lambda>d. do { (v, d) \<leftarrow> D1 d; D2 v d }) w (k1 + k2) c c2"
proof -
  have "leads (\<lambda>d. do { (v, d) \<leftarrow> D1 d; D2 v d }) w c c2"
    by (rule leads_bind [where ?D2.0 = D2 and ?v1.0 = v and ?c1.0 = c1]) (use 1 2 in \<open>simp_all add: outcome_def\<close>)
  moreover have "ec_error c2 = 0" if "enc_state c" "ec_nbits_total c2 \<le> 8 * int (ec_storage c) + 32"
  proof -
    have "ec_error c1 = 0" using 1 2 that by (simp add: outcome_def)
    then have "enc_state c1" using 1 that(1) by (simp add: outcome_def leads_def)
    then show ?thesis using 1 2 that(2) by (simp add: outcome_def)
  qed
  ultimately show ?thesis using 1 2 by (simp add: outcome_def)
qed

lemma outcome_weaken: "outcome Dc w k c c' \<Longrightarrow> k \<le> k' \<Longrightarrow> outcome Dc w k' c c'"
  by (auto simp: outcome_def)

lemma in_step_storage: "in_step B c d \<Longrightarrow> ec_storage d = length B"
  by (simp add: in_step_def dec_at_def reads_def)

lemma leads_cong:
  assumes "leads D1 v c c'" and "\<And>B d. in_step B c d \<Longrightarrow> length B = ec_storage c \<Longrightarrow> D2 d = D1 d"
  shows "leads D2 v c c'"
  using assms unfolding leads_def by metis

lemma outcome_cong:
  assumes "outcome D1 w k c c'" and "\<And>B d. in_step B c d \<Longrightarrow> length B = ec_storage c \<Longrightarrow> D2 d = D1 d"
  shows "outcome D2 w k c c'"
proof -
  have "leads D2 w c c'" by (rule leads_cong [OF _ assms(2)]) (use assms(1) in \<open>simp_all add: outcome_def\<close>)
  then show ?thesis using assms(1) by (simp add: outcome_def)
qed

section \<open>Encoders that choose by the bits left\<close>

text \<open>
  \<open>codes\<close> is for a symbol that is given. Here the encoder computes what it writes, also from \<open>ec_tell\<close>;
  \<open>adapts\<close> says that, from any state with at most \<open>t\<close> bits counted and \<open>n\<close> bytes of storage, it returns a
  result with \<open>P\<close> and that the decoder obtains the part \<open>g\<close> of it.
\<close>

definition adapts :: "int \<Rightarrow> nat \<Rightarrow> (ec_ctx \<Rightarrow> ('v \<times> ec_ctx) option) \<Rightarrow> (ec_ctx \<Rightarrow> ('w \<times> ec_ctx) option) \<Rightarrow> ('v \<Rightarrow> 'w) \<Rightarrow> ('v \<Rightarrow> bool) \<Rightarrow> nat \<Rightarrow> bool" where
  "adapts t n E Dc g P k \<longleftrightarrow> (\<forall>c. enc_wf c \<and> 33 \<le> ec_nbits_total c \<and> ec_nbits_total c \<le> t \<and> ec_storage c = n \<longrightarrow>
     (\<exists>v c'. E c = Some (v, c') \<and> P v \<and> outcome Dc (g v) k c c'))"

lemma adapts_outcome:
  assumes "adapts t n E Dc g P k" and "enc_wf c" and "33 \<le> ec_nbits_total c" and "ec_nbits_total c \<le> t" and "ec_storage c = n"
  shows "\<exists>v c'. E c = Some (v, c') \<and> P v \<and> outcome Dc (g v) k c c'"
  using assms unfolding adapts_def by blast

lemma outcome_adapts:
  assumes "\<And>c. enc_wf c \<Longrightarrow> 33 \<le> ec_nbits_total c \<Longrightarrow> ec_nbits_total c \<le> t \<Longrightarrow> ec_storage c = n \<Longrightarrow>
    \<exists>v c'. E c = Some (v, c') \<and> P v \<and> outcome Dc (g v) k c c'"
  shows "adapts t n E Dc g P k"
  using assms unfolding adapts_def by blast

lemma adapts_return: "P v \<Longrightarrow> adapts t n (\<lambda>c. Some (v, c)) (\<lambda>d. Some (g v, d)) g P 0"
  by (rule outcome_adapts) (simp add: outcome_refl)

lemma adapts_codes:
  assumes "codes E Dc w k" and "t + int k < 2 ^ 31" and "P v" and "g v = w"
  shows "adapts t n (\<lambda>c. do { c \<leftarrow> E c; Some (v, c) }) Dc g P k"
proof (rule outcome_adapts)
  fix c assume c: "enc_wf c" "33 \<le> ec_nbits_total c" "ec_nbits_total c \<le> t" "ec_storage c = n"
  have "ec_nbits_total c + int k < 2 ^ 31" using c(3) assms(2) by linarith
  from outcome_codes [OF assms(1) c(1) this] assms(3,4)
  show "\<exists>va c'. (do { c \<leftarrow> E c; Some (v, c) }) = Some (va, c') \<and> P va \<and> outcome Dc (g va) k c c'" by auto
qed

lemma adapts_bind:
  assumes 1: "adapts t n E1 D1 g1 P1 k1" and 2: "\<And>v. P1 v \<Longrightarrow> adapts (t + int k1) n (E2 v) (D2 (g1 v)) g2 P2 k2"
  shows "adapts t n (\<lambda>c. do { (v, c) \<leftarrow> E1 c; E2 v c }) (\<lambda>d. do { (v, d) \<leftarrow> D1 d; D2 v d }) g2 P2 (k1 + k2)"
proof (rule outcome_adapts)
  fix c assume c: "enc_wf c" "33 \<le> ec_nbits_total c" "ec_nbits_total c \<le> t" "ec_storage c = n"
  from adapts_outcome [OF 1 c] obtain v c1 where 3: "E1 c = Some (v, c1)" "P1 v" "outcome D1 (g1 v) k1 c c1" by blast
  have o: "enc_wf c1" "ec_storage c1 = ec_storage c" "ec_nbits_total c \<le> ec_nbits_total c1" "ec_nbits_total c1 \<le> ec_nbits_total c + int k1"
    using outcomeD [OF 3(3)] by (simp_all only:)
  have c1: "33 \<le> ec_nbits_total c1" "ec_nbits_total c1 \<le> t + int k1" using o(3,4) c(2,3) by linarith+
  have n: "ec_storage c1 = n" using o(2) c(4) by (rule trans)
  from adapts_outcome [OF 2 [OF 3(2)] o(1) c1 n] obtain w c2 where 4: "E2 v c1 = Some (w, c2)" "P2 w" "outcome (D2 (g1 v)) (g2 w) k2 c1 c2" by blast
  show "\<exists>w c2. (do { (v, c) \<leftarrow> E1 c; E2 v c }) = Some (w, c2) \<and> P2 w \<and> outcome (\<lambda>d. do { (v, d) \<leftarrow> D1 d; D2 v d }) (g2 w) (k1 + k2) c c2"
    using 3(1) 4(1,2) outcome_bind [where ?D2.0 = D2, OF 3(3) 4(3)] by (intro exI [of _ w] exI [of _ c2]) simp
qed

lemma adapts_weaken:
  assumes "adapts t n E Dc g P k" and "k \<le> k'" and "\<And>v. P v \<Longrightarrow> P' v" and "t' \<le> t"
  shows "adapts t' n E Dc g P' k'"
proof (rule outcome_adapts)
  fix c assume c: "enc_wf c" "33 \<le> ec_nbits_total c" "ec_nbits_total c \<le> t'" "ec_storage c = n"
  have "ec_nbits_total c \<le> t" using c(3) assms(4) by linarith
  from adapts_outcome [OF assms(1) c(1,2) this c(4)] obtain v c' where "E c = Some (v, c')" "P v" "outcome Dc (g v) k c c'" by blast
  then show "\<exists>v c'. E c = Some (v, c') \<and> P' v \<and> outcome Dc (g v) k' c c'"
    using assms(3) outcome_weaken [OF _ assms(2)] by (intro exI [of _ v] exI [of _ c']) simp
qed

lemma enc_wf_tell:
  assumes "enc_wf c"
  shows "\<exists>te. ec_tell c = Some te \<and> ec_nbits_total c - 32 \<le> te \<and> te \<le> ec_nbits_total c - 24"
  using enc_wf_ilog [OF assms] by (auto simp: ec_tell_def)

lemma adapts_tell:
  assumes "\<And>te. 1 \<le> te \<Longrightarrow> te \<le> t - 24 \<Longrightarrow> adapts t n (E te) (Dc te) g P k"
  shows "adapts t n (\<lambda>c. do { te \<leftarrow> ec_tell c; E te c }) (\<lambda>d. do { te \<leftarrow> ec_tell d; Dc te d }) g P k"
proof (rule outcome_adapts)
  fix c assume c: "enc_wf c" "33 \<le> ec_nbits_total c" "ec_nbits_total c \<le> t" "ec_storage c = n"
  obtain te where tell: "ec_tell c = Some te" "1 \<le> te" "te \<le> t - 24" using enc_wf_tell [OF c(1)] c(2,3) by auto
  from adapts_outcome [OF assms [OF tell(2,3)] c] obtain v c' where v: "E te c = Some (v, c')" "P v" "outcome (Dc te) (g v) k c c'" by blast
  have "outcome (\<lambda>d. do { te \<leftarrow> ec_tell d; Dc te d }) (g v) k c c'"
    by (rule outcome_cong [OF v(3)]) (simp add: in_step_tell(1) tell(1))
  then show "\<exists>v c'. (do { te \<leftarrow> ec_tell c; E te c }) = Some (v, c') \<and> P v \<and> outcome (\<lambda>d. do { te \<leftarrow> ec_tell d; Dc te d }) (g v) k c c'"
    using v by (simp add: tell(1))
qed

lemma adapts_storage:
  assumes "adapts t n E (Dc n) g P k"
  shows "adapts t n E (\<lambda>d. Dc (ec_storage d) d) g P k"
proof (rule outcome_adapts)
  fix c assume c: "enc_wf c" "33 \<le> ec_nbits_total c" "ec_nbits_total c \<le> t" "ec_storage c = n"
  from adapts_outcome [OF assms c] obtain v c' where v: "E c = Some (v, c')" "P v" "outcome (Dc n) (g v) k c c'" by blast
  have "outcome (\<lambda>d. Dc (ec_storage d) d) (g v) k c c'" by (rule outcome_cong [OF v(3)]) (simp add: in_step_storage c(4))
  then show "\<exists>v c'. E c = Some (v, c') \<and> P v \<and> outcome (\<lambda>d. Dc (ec_storage d) d) (g v) k c c'" using v by blast
qed

lemma adapts_cong:
  assumes "adapts t n E Dc g P k" and "\<And>c te. ec_tell c = Some te \<Longrightarrow> 1 \<le> te \<Longrightarrow> te \<le> t - 24 \<Longrightarrow> ec_storage c = n \<Longrightarrow> E' c = E c"
  shows "adapts t n E' Dc g P k"
proof (rule outcome_adapts)
  fix c assume c: "enc_wf c" "33 \<le> ec_nbits_total c" "ec_nbits_total c \<le> t" "ec_storage c = n"
  obtain te where "ec_tell c = Some te" "1 \<le> te" "te \<le> t - 24" using enc_wf_tell [OF c(1)] c(2,3) by auto
  then have "E' c = E c" using assms(2) c(4) by blast
  then show "\<exists>v c'. E' c = Some (v, c') \<and> P v \<and> outcome Dc (g v) k c c'" using adapts_outcome [OF assms(1) c] by simp
qed

lemma adapts_foldM:
  assumes "\<And>j x s. j < length xs \<Longrightarrow> xs ! j = x \<Longrightarrow> P (i + j) s \<Longrightarrow> adapts (t + int (k * j)) n (E x s) (Dc x (g s)) g (P (Suc (i + j))) k" and "P i s"
  shows "adapts t n (\<lambda>c. foldM (\<lambda>x (s, c). E x s c) xs (s, c)) (\<lambda>d. foldM (\<lambda>x (s, d). Dc x s d) xs (g s, d)) g (P (i + length xs)) (k * length xs)"
  using assms
proof (induction xs arbitrary: s t i)
  case Nil
  then show ?case using adapts_return [of "P i" s t n g] by simp
next
  case (Cons x xs)
  have 1: "adapts t n (E x s) (Dc x (g s)) g (P (Suc i)) k" using Cons.prems(1) [of 0 x s] Cons.prems(2) by simp
  have "adapts (t + int k) n (\<lambda>c. foldM (\<lambda>x (s, c). E x s c) xs (s', c)) (\<lambda>d. foldM (\<lambda>x (s, d). Dc x s d) xs (g s', d)) g (P (Suc i + length xs)) (k * length xs)"
    if "P (Suc i) s'" for s'
  proof (rule Cons.IH [OF _ that])
    show "adapts (t + int k + int (k * j)) n (E y r) (Dc y (g r)) g (P (Suc (Suc i + j))) k"
      if "j < length xs" "xs ! j = y" "P (Suc i + j) r" for j y r
      using Cons.prems(1) [of "Suc j" y r] that by (simp add: algebra_simps)
  qed
  from adapts_bind [where ?E2.0 = "\<lambda>s c. foldM (\<lambda>x (s, c). E x s c) xs (s, c)" and ?D2.0 = "\<lambda>s d. foldM (\<lambda>x (s, d). Dc x s d) xs (s, d)", OF 1 this]
  show ?case by (simp add: split_def)
qed

section \<open>The buffer\<close>

text \<open>What a range-coded symbol does not touch: the bytes written before it, from both ends.\<close>

definition keeps :: "ec_ctx \<Rightarrow> ec_ctx \<Rightarrow> bool" where
  "keeps c c' \<longleftrightarrow> safe c' \<and> ec_storage c' = ec_storage c \<and> ec_end_offs c' = ec_end_offs c \<and> ec_offs c \<le> ec_offs c' \<and>
     take (ec_offs c) (ec_buf c') = take (ec_offs c) (ec_buf c) \<and>
     drop (ec_storage c - ec_end_offs c) (ec_buf c') = drop (ec_storage c - ec_end_offs c) (ec_buf c)"

lemma keeps_refl: "safe c \<Longrightarrow> keeps c c"
  by (simp add: keeps_def)

lemma keeps_trans:
  assumes "keeps a b" and "keeps b c"
  shows "keeps a c"
proof -
  have "take (ec_offs a) (take (ec_offs b) (ec_buf c)) = take (ec_offs a) (take (ec_offs b) (ec_buf b))" using assms by (simp add: keeps_def)
  then have "take (ec_offs a) (ec_buf c) = take (ec_offs a) (ec_buf b)" using assms by (simp add: keeps_def min_absorb1)
  then show ?thesis using assms by (auto simp: keeps_def)
qed

lemma keeps_safe: "keeps a b \<Longrightarrow> safe b"
  by (simp add: keeps_def)

lemma put_byte_keeps: "safe c \<Longrightarrow> put_byte c v = Some c' \<Longrightarrow> keeps c c'"
  by (auto simp: put_byte_eq keeps_def safe_def split: if_splits)

lemma keeps_field:
  "keeps c c' \<Longrightarrow> keeps c (c'\<lparr>ec_ext := x\<rparr>)" "keeps c c' \<Longrightarrow> keeps c (c'\<lparr>ec_rem := y\<rparr>)"
  "keeps c c' \<Longrightarrow> keeps c (c'\<lparr>ec_val := v, ec_rng := r, ec_nbits_total := z\<rparr>)"
  "keeps (c\<lparr>ec_ext := x\<rparr>) c' \<Longrightarrow> keeps c c'" "keeps (c\<lparr>ec_val := v, ec_rng := r\<rparr>) c' \<Longrightarrow> keeps c c'"
  "keeps (c\<lparr>ec_rng := r\<rparr>) c' \<Longrightarrow> keeps c c'" "keeps (c\<lparr>ec_val := v\<rparr>) c' \<Longrightarrow> keeps c c'"
  by (simp_all add: keeps_def safe_def)

lemma flush_ext_keeps: "safe c \<Longrightarrow> flush_ext s c = Some c' \<Longrightarrow> keeps c c'"
proof (induction s c rule: flush_ext.induct)
  case (1 s c)
  show ?case
  proof (cases "ec_ext c > 0")
    case True
    then obtain c1 where c1: "put_byte c s = Some c1" "flush_ext s (c1\<lparr>ec_ext := ec_ext c1 - 1\<rparr>) = Some c'"
      using "1.prems"(2) by (auto simp: flush_ext.simps [of s c] split: Option.bind_splits)
    have k: "keeps c (c1\<lparr>ec_ext := ec_ext c1 - 1\<rparr>)" by (rule keeps_field) (rule put_byte_keeps [OF "1.prems"(1) c1(1)])
    show ?thesis by (rule keeps_trans [OF k "1.IH" [OF True c1(1) keeps_safe [OF k] c1(2)]])
  qed (use "1.prems" in \<open>simp add: flush_ext.simps [of s c] keeps_refl\<close>)
qed

lemma carry_out_keeps:
  assumes "safe c" and "ec_enc_carry_out c symb = Some c'"
  shows "keeps c c'"
proof (cases "symb = EC_SYM_MAX")
  case True
  then have "\<not> symb \<noteq> EC_SYM_MAX" by blast
  then have "c\<lparr>ec_ext := ec_ext c + 1\<rparr> = c'" using assms(2) unfolding ec_enc_carry_out_def by (simp only: if_False option.inject)
  then show ?thesis using keeps_field(1) [OF keeps_refl [OF assms(1)]] by blast
next
  case False
  then have ne: "symb \<noteq> EC_SYM_MAX" .
  from assms(2) obtain c1 c2 s where c1: "(if ec_rem c \<ge> 0 then put_byte c (word_of_int (ec_rem c + drop_bit EC_SYM_BITS symb)) else Some c) = Some c1"
    and c2: "flush_ext s c1 = Some c2" "Some (c2\<lparr>ec_rem := symb AND EC_SYM_MAX\<rparr>) = Some c'"
    unfolding ec_enc_carry_out_def Let_def if_P [OF ne] option_bind_Some_iff by (elim exE conjE) (rule that)
  have k: "keeps c c1"
  proof (cases "ec_rem c \<ge> 0")
    case True
    show ?thesis by (rule put_byte_keeps [OF assms(1) c1 [unfolded if_P [OF True]]])
  next
    case False
    then have "c = c1" using c1 by (simp only: if_False option.inject)
    then show ?thesis using keeps_refl [OF assms(1)] by blast
  qed
  have "keeps c (c2\<lparr>ec_rem := symb AND EC_SYM_MAX\<rparr>)" by (rule keeps_field(2) [OF keeps_trans [OF k flush_ext_keeps [OF keeps_safe [OF k] c2(1)]]])
  then show ?thesis using c2(2) by (simp only: option.inject)
qed

lemma normalize_keeps: "safe c \<Longrightarrow> ec_enc_normalize c = Some c' \<Longrightarrow> keeps c c'"
proof (induction c rule: ec_enc_normalize.induct)
  case (1 c)
  show ?case
  proof (cases "ec_rng c \<le> EC_CODE_BOT")
    case True
    from "1.prems"(2) obtain c1 n where c1: "ec_enc_carry_out c (uint (drop_bit EC_CODE_SHIFT (ec_val c))) = Some c1"
      "i32 (ec_nbits_total c1 + int EC_SYM_BITS) = Some n"
      "ec_enc_normalize (c1\<lparr>ec_val := push_bit EC_SYM_BITS (ec_val c1) AND (EC_CODE_TOP - 1),
        ec_rng := push_bit EC_SYM_BITS (ec_rng c1), ec_nbits_total := n\<rparr>) = Some c'"
      unfolding ec_enc_normalize.simps [of c] if_P [OF True] option_bind_Some_iff by blast
    have k: "keeps c (c1\<lparr>ec_val := push_bit EC_SYM_BITS (ec_val c1) AND (EC_CODE_TOP - 1), ec_rng := push_bit EC_SYM_BITS (ec_rng c1), ec_nbits_total := n\<rparr>)"
      by (rule keeps_field) (rule carry_out_keeps [OF "1.prems"(1) c1(1)])
    show ?thesis by (rule keeps_trans [OF k "1.IH" [OF True c1(1,2) keeps_safe [OF k] c1(3)]])
  qed (use "1.prems" in \<open>simp add: ec_enc_normalize.simps [of c] keeps_refl\<close>)
qed

lemma safe_field [simp]: "safe (c\<lparr>ec_rng := r\<rparr>) = safe c" "safe (c\<lparr>ec_val := v\<rparr>) = safe c" "safe (c\<lparr>ec_ext := x\<rparr>) = safe c"
  by (simp_all add: safe_def)

lemma coder_keeps:
  assumes "safe c" and "ec_enc_normalize (c\<lparr>ec_val := v, ec_rng := r\<rparr>) = Some c' \<or> ec_enc_normalize (c\<lparr>ec_rng := r\<rparr>) = Some c'"
  shows "keeps c c'"
  using assms(2)
proof (elim disjE)
  assume "ec_enc_normalize (c\<lparr>ec_val := v, ec_rng := r\<rparr>) = Some c'"
  then show ?thesis by (rule keeps_field(5) [OF normalize_keeps, rotated]) (simp add: assms(1))
next
  assume "ec_enc_normalize (c\<lparr>ec_rng := r\<rparr>) = Some c'"
  then show ?thesis by (rule keeps_field(6) [OF normalize_keeps, rotated]) (simp add: assms(1))
qed

lemma encode_bin_keeps:
  assumes "safe c" and "ec_encode_bin c fl fh bits = Some c'"
  shows "keeps c c'"
proof (cases "fl > 0")
  case True
  show ?thesis using assms(2) unfolding ec_encode_bin_def Let_def if_P [OF True] option_bind_Some_iff
    by (elim exE conjE) (rule coder_keeps [OF assms(1) disjI1])
next
  case False
  show ?thesis using assms(2) unfolding ec_encode_bin_def Let_def if_not_P [OF False] option_bind_Some_iff
    by (elim exE conjE) (rule coder_keeps [OF assms(1) disjI2])
qed

lemma bit_logp_keeps:
  assumes "safe c" and "ec_enc_bit_logp c v logp = Some c'"
  shows "keeps c c'"
proof (cases v)
  case True
  have "c\<lparr>ec_val := x\<rparr>\<lparr>ec_rng := r\<rparr> = c\<lparr>ec_val := x, ec_rng := r\<rparr>" for x r by simp
  show ?thesis using assms(2) unfolding ec_enc_bit_logp_def Let_def if_P [OF True] option_bind_Some_iff
    by (elim exE conjE) (rule coder_keeps [OF assms(1) disjI1])
next
  case False
  show ?thesis using assms(2) unfolding ec_enc_bit_logp_def Let_def if_not_P [OF False] option_bind_Some_iff
    by (elim exE conjE) (rule coder_keeps [OF assms(1) disjI2])
qed

lemma enc_icdf_keeps:
  assumes "safe c" and "ec_enc_icdf c s icdf ftb = Some c'"
  shows "keeps c c'"
proof (cases "s > 0")
  case True
  show ?thesis using assms(2) unfolding ec_enc_icdf_def Let_def if_P [OF True] option_bind_Some_iff
    by (elim exE conjE) (rule coder_keeps [OF assms(1) disjI1])
next
  case False
  show ?thesis using assms(2) unfolding ec_enc_icdf_def Let_def if_not_P [OF False] option_bind_Some_iff
    by (elim exE conjE) (rule coder_keeps [OF assms(1) disjI2])
qed

text \<open>The same state over another buffer that has the same bytes written.\<close>

definition rebuffer :: "ec_ctx \<Rightarrow> mem \<Rightarrow> bool" where
  "rebuffer c b \<longleftrightarrow> length b = length (ec_buf c) \<and> take (ec_offs c) b = take (ec_offs c) (ec_buf c) \<and>
     drop (ec_storage c - ec_end_offs c) b = drop (ec_storage c - ec_end_offs c) (ec_buf c)"

lemma rebuffer_same:
  assumes "rebuffer c b" and "safe c"
  shows "enc_wf (c\<lparr>ec_buf := b\<rparr>) = enc_wf c" and "enc_state (c\<lparr>ec_buf := b\<rparr>) = enc_state c" and "fits_in B (c\<lparr>ec_buf := b\<rparr>) = fits_in B c"
    and "in_step B (c\<lparr>ec_buf := b\<rparr>) d = in_step B c d"
proof -
  let ?c = "c\<lparr>ec_buf := b\<rparr>"
  have s: "safe ?c = safe c" "length b = ec_storage c" using assms by (auto simp: safe_def rebuffer_def)
  have d: "written ?c = written c" "pending ?c = pending c" "digits ?c = digits c" using assms(1) by (simp_all add: digits_def written_def pending_def rebuffer_def)
  then have n: "count ?c = count c" "low ?c = low c" by (simp_all add: count_def low_def)
  have l: "length (ec_buf c) = ec_storage c" using assms(2) by (simp add: safe_def)
  have e: "drop (ec_storage c - ec_end_offs c) b = drop (ec_storage c - ec_end_offs c) (ec_buf c)" using assms(1) by (simp add: rebuffer_def)
  have raw: "raw_bits ?c = raw_bits c" "raw_value ?c = raw_value c"
    by (simp_all add: raw_bits_def raw_value_def from_end_def s(2) l e)
  show wf: "enc_wf ?c = enc_wf c" by (simp add: enc_wf_def s)
  have at: "enc_at ?c x y v r = enc_at c x y v r" for x y v r using s(1) by (simp add: enc_at_def d)
  show st: "enc_state ?c = enc_state c" unfolding enc_state_def wf n at d raw by simp
  show fits: "fits_in B ?c = fits_in B c" unfolding fits_in_def n raw by simp
  show "in_step B ?c d = in_step B c d" unfolding in_step_def st fits n raw by simp
qed

lemma leads_from_rebuffer:
  assumes "leads Dc v (c\<lparr>ec_buf := b\<rparr>) c'" and "rebuffer c b" and "safe c"
  shows "leads Dc v c c'"
  using assms(1) unfolding leads_def rebuffer_same [OF assms(2,3)] by simp

lemma leads_to_rebuffer:
  assumes "leads Dc v c c'" and "rebuffer c' b" and "safe c'"
  shows "leads Dc v c (c'\<lparr>ec_buf := b\<rparr>)"
  using assms(1) unfolding leads_def rebuffer_same [OF assms(2,3)] by simp

lemma outcome_from:
  assumes "outcome Dc w k (c\<lparr>ec_buf := b\<rparr>) c'" and "rebuffer c b" and "safe c"
  shows "outcome Dc w k c c'"
proof -
  have "leads Dc w c c'" by (rule leads_from_rebuffer [OF _ assms(2,3)]) (use assms(1) in \<open>simp add: outcome_def\<close>)
  then show ?thesis using assms(1) rebuffer_same(2) [OF assms(2,3)] by (simp add: outcome_def)
qed

lemma outcome_to:
  assumes "outcome Dc w k c c'" and "rebuffer c' b" and "safe c'"
  shows "outcome Dc w k c (c'\<lparr>ec_buf := b\<rparr>)"
proof -
  have "leads Dc w c (c'\<lparr>ec_buf := b\<rparr>)" by (rule leads_to_rebuffer [OF _ assms(2,3)]) (use assms(1) in \<open>simp add: outcome_def\<close>)
  then show ?thesis using assms(1) rebuffer_same(1) [OF assms(2,3)] by (simp add: outcome_def)
qed

end
