(* ===== verification/OpusEnergyBands.thy ===== *)
theory OpusEnergyBands
  imports OpusEnergyModel OpusAdapt
begin

text \<open>
  The coarse energy of one band (OpusEnergy): whatever the encoder decides by the bits left, the decoder reads
  the same difference and forms the same energy and prediction, and all numbers stay in range.
\<close>

section \<open>One difference\<close>

lemma pair_args:
  assumes "pair_fits p q"
  shows "laplace_args (word_of_int (uint p * 2 ^ 7)) (uint q * 2 ^ 6)" (is "laplace_args ?fs ?decay")
    and "laplace_room (word_of_int (uint p * 2 ^ 7)) (uint q * 2 ^ 6) v"
    and "32768 \<le> L (unat (word_of_int (uint p * 2 ^ 7) :: 32 word)) (nat (uint q * 2 ^ 6)) 64"
proof -
  let ?f = "unat p * 2 ^ 7" and ?d = "unat q * 2 ^ 6"
  have p: "0 < ?f" "?f \<le> 32736" "probs_fit 65 (L ?f ?d 0) (G ?f ?d 0) ?d" using assms by (simp_all add: pair_fits_def)
  have "unat q < 2 ^ 8" by (rule order.strict_trans2 [OF unsigned_less]) simp
  then have q: "?d < 16384" by simp
  have fs: "?fs = word_of_nat ?f" by simp
  have u: "unat ?fs = ?f" unfolding fs by (rule unat_of_nat_32) (rule order.strict_trans1 [OF p(2)], simp)
  have "int ?d = ?decay" by simp
  then have d: "nat ?decay = ?d" "0 \<le> ?decay" "?decay < 16384" using q by linarith+
  show "laplace_args ?fs ?decay" unfolding laplace_args_def word_less_nat_alt word_le_nat_alt u using p(1,2) d(2,3) by simp
  show "32768 \<le> L (unat ?fs) (nat ?decay) 64" unfolding u d(1) using probs_fit_L(1) [OF p(3)] by simp
  have "L ?f ?d j + 2 \<le> 32768" if "\<forall>m < j. 0 < G ?f ?d m" for j by (rule probs_fit_L(2) [OF p(3) le0 that])
  moreover have "L ?f ?d (Suc n) \<le> 32768" if "\<forall>m \<le> n. 0 < G ?f ?d m" for n
  proof -
    have "L ?f ?d (Suc n) + 2 \<le> 32768" by (rule probs_fit_L(2) [OF p(3) le0]) (use that in \<open>simp only: less_Suc_eq_le\<close>)
    then show ?thesis by (rule add_leD1)
  qed
  ultimately show "laplace_room ?fs ?decay v" unfolding laplace_room_def room_def u d(1) by blast
qed

lemma laplace_adapts:
  assumes "pair_fits p q" and "\<bar>qi\<bar> < 2 ^ 31" and "t + 24 < 2 ^ 31"
  shows "adapts t n (\<lambda>c. ec_laplace_encode c qi (word_of_int (uint p * 2 ^ 7)) (uint q * 2 ^ 6))
    (\<lambda>d. ec_laplace_decode d (word_of_int (uint p * 2 ^ 7)) (uint q * 2 ^ 6)) (\<lambda>v. v) (\<lambda>v. \<bar>v\<bar> \<le> 64) 24"
proof -
  let ?fs = "word_of_int (uint p * 2 ^ 7) :: 32 word" and ?decay = "uint q * 2 ^ 6"
  note a = pair_args [OF assms(1)]
  obtain v fl w where v: "laplace_part qi ?fs ?decay = Some (v, fl, w)" "fl < fl + w" "unat (fl + w) \<le> 2 ^ 15"
    "\<forall>fm. fl \<le> fm \<and> fm < fl + w \<longrightarrow> laplace_find fm ?fs ?decay = Some (v, fl, fl + w)"
    "v \<noteq> 0 \<longrightarrow> L (unat ?fs) (nat ?decay) (nat \<bar>v\<bar> - 1) < 32768"
    using part_find [OF a(1,2) assms(2)] by (elim exE conjE)
  have codes: "codes (\<lambda>c. ec_encode_bin c fl (fl + w) 15) (\<lambda>d. ec_laplace_decode d ?fs ?decay) v 24"
    by (rule laplace_part_codes [OF v(1-3)]) (rule v(4) [rule_format], rule conjI)
  have "\<bar>v\<bar> \<le> 64"
  proof (rule ccontr)
    assume *: "\<not> \<bar>v\<bar> \<le> 64"
    then have "64 \<le> nat \<bar>v\<bar> - 1" "v \<noteq> 0" by auto
    then show False using L_mono [of 64 "nat \<bar>v\<bar> - 1" "unat ?fs" "nat ?decay"] a(3) v(5) by simp
  qed
  then have "adapts t n (\<lambda>c. do { c \<leftarrow> ec_encode_bin c fl (fl + w) 15; Some (v, c) }) (\<lambda>d. ec_laplace_decode d ?fs ?decay) (\<lambda>v. v) (\<lambda>v. \<bar>v\<bar> \<le> 64) 24"
    by (intro adapts_codes [OF codes]) (use assms(3) in simp_all)
  moreover have "(\<lambda>c. ec_laplace_encode c qi ?fs ?decay) = (\<lambda>c. do { c \<leftarrow> ec_encode_bin c fl (fl + w) 15; Some (v, c) })"
    by (rule ext) (simp only: ec_laplace_encode_def v(1) bind.bind_lunit prod.case)
  ultimately show ?thesis by simp
qed

lemma icdf_delta_adapts:
  assumes "- 1 \<le> qi" and "qi \<le> 1" and "t + 24 < 2 ^ 31"
  shows "adapts t n (\<lambda>c. do { c \<leftarrow> ec_enc_icdf c (nat ((2 * qi) XOR - (if qi < 0 then 1 else 0))) small_energy_icdf 2; Some (qi, c) })
    (\<lambda>d. do { (s, d) \<leftarrow> ec_dec_icdf d small_energy_icdf 2; Some (drop_bit 1 (int s) XOR - (int s AND 1), d) }) (\<lambda>v. v) (\<lambda>v. \<bar>v\<bar> \<le> 64) 24"
proof -
  define s where "s = nat ((2 * qi) XOR - (if qi < 0 then 1 else 0))"
  have qi: "qi = - 1 \<or> qi = 0 \<or> qi = 1" using assms(1,2) by auto
  then have s: "(qi = - 1 \<and> s = 1) \<or> (qi = 0 \<and> s = 0) \<or> (qi = 1 \<and> s = 2)" by (auto simp: s_def)
  have sets: "{..<2} = {0, 1 :: nat}" "{..<1} = {0 :: nat}" by auto
  have "icdf_symbol small_energy_icdf 2 0" "icdf_symbol small_energy_icdf 2 1" "icdf_symbol small_energy_icdf 2 2"
    unfolding icdf_symbol_def small_energy_icdf_def sets by simp_all
  then have "icdf_symbol small_energy_icdf 2 s" using s by blast
  from codes_map [OF icdf_codes [OF this], of "\<lambda>s. drop_bit 1 (int s) XOR - (int s AND 1)"]
  show ?thesis unfolding s_def [symmetric] by (rule adapts_codes) (use assms(3) qi s in auto)
qed

lemma bit_delta_adapts:
  fixes qi :: int
  assumes "- 1 \<le> qi" and "t + 24 < 2 ^ 31"
  shows "adapts t n (\<lambda>c. do { c \<leftarrow> ec_enc_bit_logp c (- min 0 qi \<noteq> 0) 1; Some (min 0 qi, c) })
    (\<lambda>d. do { (b, d) \<leftarrow> ec_dec_bit_logp d 1; Some (- (if b then 1 else 0), d) }) (\<lambda>v. v) (\<lambda>v. \<bar>v\<bar> \<le> 64) 24"
proof -
  have "min 0 qi = - 1 \<or> min 0 qi = 0" using assms(1) by (auto simp: min_def)
  then show ?thesis using codes_map [OF bit_logp_codes [of 1 "- min 0 qi \<noteq> 0"], of "\<lambda>b. - (if b then 1 else 0) :: int"]
    by (intro adapts_codes) (use assms(2) in auto)
qed

lemma delta_adapts:
  assumes "length r = 42" and "row_fits r" and "\<bar>qi\<bar> < 2 ^ 31" and "t + 24 < 2 ^ 31" and "budget - te = 1 \<Longrightarrow> - 1 \<le> qi"
  shows "adapts t n (enc_delta budget r i qi te) (dec_delta budget r i te) (\<lambda>v. v) (\<lambda>v. \<bar>v\<bar> \<le> 64) 24"
proof -
  define p where "p = r ! (2 * min i 20)"
  define q where "q = r ! (2 * min i 20 + 1)"
  have "2 * min i 20 + 1 < length r" unfolding assms(1) by (auto simp: min_def)
  then have pq: "rd r (2 * min i 20) = Some p" "rd r (2 * min i 20 + 1) = Some q" "pair_fits p q"
    using row_fits_nth [OF assms(2), of "min i 20"] by (simp_all add: p_def q_def)
  consider "15 \<le> budget - te" | "budget - te < 15" "2 \<le> budget - te" | "budget - te = 1" | "budget - te < 1" by linarith
  then show ?thesis
  proof cases
    case 1
    then have "enc_delta budget r i qi te = (\<lambda>c. ec_laplace_encode c qi (word_of_int (uint p * 2 ^ 7)) (uint q * 2 ^ 6))"
      "dec_delta budget r i te = (\<lambda>d. ec_laplace_decode d (word_of_int (uint p * 2 ^ 7)) (uint q * 2 ^ 6))"
      by (intro ext, simp only: enc_delta_def dec_delta_def if_True Let_def pq bind.bind_lunit)+
    then show ?thesis using laplace_adapts [OF pq(3) assms(3,4)] by simp
  next
    case 2
    then have "enc_delta budget r i qi te = (\<lambda>c. do { c \<leftarrow> ec_enc_icdf c (nat ((2 * max (- 1) (min qi 1)) XOR - (if max (- 1) (min qi 1) < 0 then 1 else 0)))
        small_energy_icdf 2; Some (max (- 1) (min qi 1), c) })"
      "dec_delta budget r i te = (\<lambda>d. do { (s, d) \<leftarrow> ec_dec_icdf d small_energy_icdf 2; Some (drop_bit 1 (int s) XOR - (int s AND 1), d) })"
      by (intro ext, simp add: enc_delta_def dec_delta_def Let_def)+
    then show ?thesis using icdf_delta_adapts [of "max (- 1) (min qi 1)" t n] assms(4) by simp
  next
    case 3
    then have "enc_delta budget r i qi te = (\<lambda>c. do { c \<leftarrow> ec_enc_bit_logp c (- min 0 qi \<noteq> 0) 1; Some (min 0 qi, c) })"
      "dec_delta budget r i te = (\<lambda>d. do { (b, d) \<leftarrow> ec_dec_bit_logp d 1; Some (- (if b then 1 else 0), d) })"
      by (intro ext, simp add: enc_delta_def dec_delta_def Let_def)+
    then show ?thesis using bit_delta_adapts [OF assms(5) [OF 3] assms(4)] by simp
  next
    case 4
    then have "enc_delta budget r i qi te = (\<lambda>c. Some (- 1, c))" "dec_delta budget r i te = (\<lambda>d. Some (- 1, d))"
      by (intro ext, simp add: enc_delta_def dec_delta_def)+
    then show ?thesis using adapts_weaken [OF adapts_return [of "\<lambda>v. \<bar>v\<bar> \<le> 64" "- 1 :: int" t n "\<lambda>v. v"], of 24 _ t] by simp
  qed
qed

section \<open>No overflow\<close>

text \<open>The number of bands coded is at most 64; the prediction of a channel grows by at most \<open>3 * 2 ^ 23\<close> with each.\<close>

lemma drop_bit_bound: "\<bar>x\<bar> \<le> b * 2 ^ s \<Longrightarrow> \<bar>drop_bit s x\<bar> \<le> (b :: int)"
proof -
  assume "\<bar>x\<bar> \<le> b * 2 ^ s"
  then have "(- b) * 2 ^ s \<le> x" "x \<le> b * 2 ^ s" by simp_all
  then have "(- b) * 2 ^ s div 2 ^ s \<le> x div 2 ^ s" "x div 2 ^ s \<le> b * 2 ^ s div 2 ^ s" by (simp_all only: zdiv_mono1 zero_less_power zero_less_numeral)
  moreover have "(- b) * 2 ^ s div 2 ^ s = - b" "b * 2 ^ s div 2 ^ s = b" by (rule nonzero_mult_div_cancel_right, simp)+
  ultimately show ?thesis by (simp only: drop_bit_eq_div)
qed

definition is16 :: "int \<Rightarrow> bool" where
  "is16 x \<longleftrightarrow> - (2 ^ 15) \<le> x \<and> x < 2 ^ 15"

lemma is16_i16: "is16 (i16 x)"
  unfolding is16_def i16_def using sint_greater_eq [of "word_of_int x :: 16 word"] sint_less [of "word_of_int x :: 16 word"] by simp

lemma i16_same: "is16 x \<Longrightarrow> i16 x = x"
  unfolding i16_def is16_def by (simp add: signed_of_int signed_take_bit_int_eq_self)

lemma is16_bound: "is16 x \<Longrightarrow> \<bar>x\<bar> \<le> 2 ^ 15"
  by (auto simp: is16_def)

lemmas i16_bound = is16_bound [OF is16_i16]

lemma MULT_bound: "\<bar>MULT16_16 a b\<bar> \<le> 2 ^ 30"
proof -
  have "\<bar>i16 a\<bar> * \<bar>i16 b\<bar> \<le> 2 ^ 15 * 2 ^ 15" by (rule mult_mono) (simp_all only: i16_bound abs_ge_zero zero_le_power zero_le_numeral)
  then show ?thesis by (simp add: MULT16_16_def abs_mult)
qed

lemma sint_word_32: "\<bar>x\<bar> < 2 ^ 31 \<Longrightarrow> sint (word_of_int x :: 32 word) = x"
  by (simp add: signed_of_int signed_take_bit_int_eq_self)

lemma SHL32_eq: "\<bar>x * 2 ^ s\<bar> < 2 ^ 31 \<Longrightarrow> SHL32 x s = x * 2 ^ s"
  unfolding SHL32_def by (rule sint_word_32)

lemma i32_Some: "\<bar>x\<bar> < 2 ^ 31 \<Longrightarrow> i32 x = Some x"
  by (simp add: i32_def abs_less_iff)

lemma PSHR32_Some:
  assumes "\<bar>a\<bar> \<le> b" and "b + 2 ^ s div 2 < 2 ^ 31" and "b + 2 ^ s div 2 \<le> e * 2 ^ s"
  shows "\<exists>x. PSHR32 a s = Some x \<and> \<bar>x\<bar> \<le> e"
proof -
  have h: "0 \<le> (2 :: int) ^ s div 2" by simp
  then have b: "\<bar>a + 2 ^ s div 2\<bar> \<le> b + 2 ^ s div 2" using assms(1) by linarith
  have "\<bar>a + 2 ^ s div 2\<bar> < 2 ^ 31" using b assms(2) by linarith
  moreover have "\<bar>drop_bit s (a + 2 ^ s div 2)\<bar> \<le> e" by (rule drop_bit_bound) (use b assms(3) in linarith)
  ultimately show ?thesis by (simp add: PSHR32_def i32_Some)
qed

lemma coarse_qi_total:
  assumes "is16 x" and "is16 old" and "\<bar>prev\<bar> \<le> 189 * 2 ^ 23" and "is16 max_decay"
  shows "\<exists>f qi. coarse_qi x old coef prev max_decay = Some (f, qi) \<and> \<bar>f\<bar> \<le> 189 * 2 ^ 23 + 2 ^ 24 \<and> \<bar>qi\<bar> \<le> 2 ^ 14"
proof -
  obtain a where a: "PSHR32 (MULT16_16 coef (max (- (9 * 2 ^ DB_SHIFT)) old)) 8 = Some a" "\<bar>a\<bar> \<le> 2 ^ 23"
    using PSHR32_Some [of "MULT16_16 coef (max (- (9 * 2 ^ DB_SHIFT)) old)" "2 ^ 30" 8 "2 ^ 23"] MULT_bound by auto
  note b = assms(1,2,4) [THEN is16_bound]
  have x: "SHL32 x 7 = x * 2 ^ 7" by (rule SHL32_eq) (use b(1) in simp)
  have "\<bar>SHL32 x 7 - a\<bar> \<le> 2 ^ 24" using a(2) b(1) unfolding x by simp
  then have f: "i32 (SHL32 x 7 - a) = Some (SHL32 x 7 - a)" "\<bar>SHL32 x 7 - a - prev\<bar> \<le> 189 * 2 ^ 23 + 2 ^ 24"
    using assms(3) by (simp_all add: i32_Some)
  define f where "f = SHL32 x 7 - a - prev"
  have f2: "i32 f = Some f" "i32 (f + 2 ^ (DB_SHIFT + 7) div 2) = Some (f + 2 ^ (DB_SHIFT + 7) div 2)" "i32 (old - max_decay) = Some (old - max_decay)"
    using f(2) b(2,3) unfolding f_def [symmetric] by (simp_all add: i32_Some DB_SHIFT_def)
  define q where "q = drop_bit (DB_SHIFT + 7) (f + 2 ^ (DB_SHIFT + 7) div 2)"
  have q: "\<bar>q\<bar> \<le> 2 ^ 14" unfolding q_def by (rule drop_bit_bound) (use f(2) in \<open>simp add: f_def [symmetric] DB_SHIFT_def\<close>)
  define db where "db = i16 (max (- (28 * 2 ^ DB_SHIFT)) (old - max_decay))"
  define r where "r = drop_bit DB_SHIFT (SUB16 db x)"
  have "\<bar>r\<bar> \<le> 2 ^ 6" unfolding r_def by (rule drop_bit_bound) (use i16_bound [of db] i16_bound [of x] in \<open>simp add: SUB16_def DB_SHIFT_def\<close>)
  moreover have "0 \<le> r" if "x < db"
  proof -
    have "i16 x = x" "i16 db = db" using assms(1) by (simp_all add: i16_same is16_i16 db_def)
    then show ?thesis using that by (simp add: r_def SUB16_def)
  qed
  ultimately have "\<bar>if q < 0 \<and> x < db then (if q + r > 0 then 0 else q + r) else q\<bar> \<le> 2 ^ 14" using q by auto
  then show ?thesis using f(2)
    unfolding coarse_qi_def Let_def a(1) f(1) bind.bind_lunit f_def [symmetric] f2 q_def [symmetric] db_def [symmetric] r_def [symmetric] by blast
qed

lemma reconstruct_total:
  assumes "\<bar>prev\<bar> \<le> int j * (3 * 2 ^ 23)" and "j < 64" and "\<bar>qi\<bar> \<le> 64"
  shows "\<exists>old p. reconstruct coef beta oldE prev qi = Some (old, p) \<and> is16 old \<and> \<bar>p\<bar> \<le> int (Suc j) * (3 * 2 ^ 23)"
proof -
  have q: "SHL32 qi DB_SHIFT = qi * 2 ^ 10" by (subst SHL32_eq) (use assms(3) in \<open>simp_all add: DB_SHIFT_def\<close>)
  have q7: "SHL32 (qi * 2 ^ 10) 7 = qi * 2 ^ 17" by (subst SHL32_eq) (use assms(3) in simp_all)
  have pr: "\<bar>prev\<bar> \<le> 189 * 2 ^ 23" using assms(1,2) by simp
  obtain a where a: "PSHR32 (MULT16_16 coef oldE) 8 = Some a" "\<bar>a\<bar> \<le> 2 ^ 23"
    using PSHR32_Some [of "MULT16_16 coef oldE" "2 ^ 30" 8 "2 ^ 23"] MULT_bound by auto
  have t: "i32 (a + prev) = Some (a + prev)" "i32 (a + prev + qi * 2 ^ 17) = Some (a + prev + qi * 2 ^ 17)" "\<bar>a + prev + qi * 2 ^ 17\<bar> \<le> 191 * 2 ^ 23"
    using a(2) pr assms(3) by (simp_all add: i32_Some)
  have "\<bar>max (- (28 * 2 ^ (DB_SHIFT + 7))) (a + prev + qi * 2 ^ 17)\<bar> \<le> 191 * 2 ^ 23" using t(3) by (simp add: DB_SHIFT_def max_def)
  then obtain e where e: "PSHR32 (max (- (28 * 2 ^ (DB_SHIFT + 7))) (a + prev + qi * 2 ^ 17)) 7 = Some e"
    using PSHR32_Some [of "max (- (28 * 2 ^ (DB_SHIFT + 7))) (a + prev + qi * 2 ^ 17)" "191 * 2 ^ 23" 7 "2 ^ 24"] by auto
  have "\<bar>qi * 2 ^ 10\<bar> \<le> 2 ^ 16" using assms(3) by (simp add: abs_mult)
  then obtain b where b: "PSHR32 (qi * 2 ^ 10) 8 = Some b" "\<bar>b\<bar> \<le> 2 ^ 9"
    using PSHR32_Some [of "qi * 2 ^ 10" "2 ^ 16" 8 "2 ^ 9"] by auto
  have "i16 b = b" by (rule i16_same) (use b(2) in \<open>auto simp: is16_def\<close>)
  moreover have "\<bar>i16 beta\<bar> * \<bar>b\<bar> \<le> 2 ^ 15 * 2 ^ 9" by (rule mult_mono) (simp_all only: i16_bound b(2) abs_ge_zero zero_le_power zero_le_numeral)
  ultimately have m: "\<bar>MULT16_16 beta b\<bar> \<le> 2 ^ 24" by (simp add: MULT16_16_def abs_mult)
  have p: "i32 (prev + qi * 2 ^ 17) = Some (prev + qi * 2 ^ 17)" using pr assms(3) by (simp add: i32_Some)
  have "\<bar>prev + qi * 2 ^ 17 - MULT16_16 beta b\<bar> \<le> \<bar>prev\<bar> + \<bar>qi\<bar> * 2 ^ 17 + \<bar>MULT16_16 beta b\<bar>" by (simp add: abs_mult)
  also have "\<dots> \<le> int j * (3 * 2 ^ 23) + 64 * 2 ^ 17 + 2 ^ 24" using assms(1,3) m by (intro add_mono mult_mono) simp_all
  finally have p2: "\<bar>prev + qi * 2 ^ 17 - MULT16_16 beta b\<bar> \<le> int (Suc j) * (3 * 2 ^ 23)" by simp
  have "int (Suc j) * (3 * 2 ^ 23) < 2 ^ 31" using assms(2) by simp
  then have p3: "i32 (prev + qi * 2 ^ 17 - MULT16_16 beta b) = Some (prev + qi * 2 ^ 17 - MULT16_16 beta b)"
    by (intro i32_Some order.strict_trans1 [OF p2])
  show ?thesis unfolding reconstruct_def Let_def q q7 a(1) bind.bind_lunit t(1,2) e p b(1) p3 using is16_i16 p2 by blast
qed

section \<open>The loop over the bands\<close>

lemma concat_rows:
  assumes "0 < C" and "a \<le> b"
  shows "concat (map (\<lambda>i. map (Pair i) [0..<C]) [a..<b]) = map (\<lambda>j. (a + j div C, j mod C)) [0..<(b - a) * C]"
  using assms(2)
proof (induction "b - a" arbitrary: b)
  case (Suc q)
  then obtain b' where b: "b = Suc b'" "a \<le> b'" "b' - a = q" by (cases b) auto
  have "map (\<lambda>j. (a + j div C, j mod C)) [q * C..<q * C + C] = map (Pair b') [0..<C]"
    using b(2,3) assms(1) by (intro nth_equalityI) auto
  moreover have "[0..<(b - a) * C] = [0..<q * C] @ [q * C..<q * C + C]"
    using upt_add_eq_append [of 0 "q * C" C] Suc.hyps(2) by (simp add: add.commute flip: Suc.hyps(2))
  moreover have "concat (map (\<lambda>i. map (Pair i) [0..<C]) [a..<b']) = map (\<lambda>j. (a + j div C, j mod C)) [0..<q * C]"
    using Suc.hyps(1) [of b'] b by simp
  ultimately show ?case using b by simp
qed simp

definition frame_ok :: "celt_frame \<Rightarrow> bool" where
  "frame_ok m \<longleftrightarrow> band_start m \<le> band_end m \<and> band_end m \<le> nbEBands m \<and> 1 \<le> channels m \<and> channels m \<le> 2 \<and>
     (band_end m - band_start m) * channels m \<le> 64"

definition values16 :: "celt_frame \<Rightarrow> int list \<Rightarrow> bool" where
  "values16 m xs \<longleftrightarrow> length xs = channels m * nbEBands m \<and> list_all is16 xs"

definition coarse_ok :: "celt_frame \<Rightarrow> nat \<Rightarrow> coarse \<Rightarrow> bool" where
  "coarse_ok m j s \<longleftrightarrow> values16 m (oldEBands s) \<and> values16 m (band_error s) \<and> length (prev_q s) = 2 \<and>
     (\<forall>c < 2. \<bar>prev_q s ! c\<bar> \<le> int j * (3 * 2 ^ 23)) \<and> \<bar>badness s\<bar> \<le> int j * 2 ^ 15"

lemma bands_nth:
  assumes "frame_ok m" and "j < length (bands m)" and "bands m ! j = (i, c)"
  shows "band_start m \<le> i" and "i < band_end m" and "c < channels m" and "i + c * nbEBands m < channels m * nbEBands m"
    and "j < 64" and "i = band_start m \<Longrightarrow> j \<le> 1"
proof -
  let ?C = "channels m"
  have C: "max 1 ?C = ?C" "0 < ?C" "band_start m \<le> band_end m" "?C \<le> 2" using assms(1) by (simp_all add: frame_ok_def)
  have b: "bands m = map (\<lambda>j. (band_start m + j div ?C, j mod ?C)) [0..<(band_end m - band_start m) * ?C]"
    unfolding bands_def C(1) by (rule concat_rows [OF C(2,3)])
  then have j: "j < (band_end m - band_start m) * ?C" "i = band_start m + j div ?C" "c = j mod ?C" using assms(2,3) by simp_all
  show "j < 64" using j(1) assms(1) by (simp add: frame_ok_def)
  have "j div ?C < band_end m - band_start m" using j(1) by (simp add: less_mult_imp_div_less)
  then show i: "band_start m \<le> i" "i < band_end m" using j(2) by simp_all
  show c: "c < ?C" using j(3) C(2) by simp
  have "i < nbEBands m" using i(2) assms(1) by (simp add: frame_ok_def)
  moreover have "Suc c * nbEBands m \<le> ?C * nbEBands m" using c by (intro mult_le_mono1) simp
  ultimately show "i + c * nbEBands m < ?C * nbEBands m" by simp
  show "j \<le> 1" if "i = band_start m"
  proof -
    have "j div ?C = 0" using that j(2) by simp
    then have "j < ?C" using C(2) by (simp add: div_eq_0_iff)
    then show ?thesis using C(4) by simp
  qed
qed

lemma values16_update: "values16 m xs \<Longrightarrow> is16 x \<Longrightarrow> values16 m (xs[j := x])"
  by (auto simp: values16_def list_all_iff dest!: set_update_subset_insert [THEN subsetD])

lemma values16_nth: "values16 m xs \<Longrightarrow> j < channels m * nbEBands m \<Longrightarrow> rd xs j = Some (xs ! j) \<and> is16 (xs ! j)"
  by (simp add: values16_def list_all_length)

lemma values16_wr: "values16 m xs \<Longrightarrow> j < channels m * nbEBands m \<Longrightarrow> wr xs j v = Some (xs[j := v])"
  by (simp add: values16_def wr_def)

lemma limit_bound: "\<bar>qi\<bar> \<le> 2 ^ 14 \<Longrightarrow> \<bar>limit_qi lfe st i left qi\<bar> \<le> 2 ^ 14"
  by (auto simp: limit_qi_def Let_def min_def max_def)

lemma limit_ge: "i \<noteq> st \<Longrightarrow> left < 16 \<Longrightarrow> - 1 \<le> limit_qi lfe st i left qi"
  by (auto simp: limit_qi_def Let_def min_def max_def)

definition shared :: "coarse \<Rightarrow> int list \<times> int list" where
  "shared s = (oldEBands s, prev_q s)"

lemma band_adapts:
  assumes m: "frame_ok m" "j < length (bands m)" "bands m ! j = (i, c)"
    and r: "length r = 42" "row_fits r" and n: "int n * 8 < 2 ^ 30" and t: "t + 24 < 2 ^ 30"
    and first: "i = band_start m \<Longrightarrow> t + 2 \<le> int n * 8 + 24"
    and s: "coarse_ok m j s" and e: "values16 m eBands" and d: "is16 max_decay"
  shows "adapts t n (quant_band m eBands (int n * 8) r coef beta max_decay lfe (i, c) s) (unquant_band m (int n * 8) r coef beta (i, c) (shared s))
    shared (coarse_ok m (Suc j)) 24"
proof -
  let ?k = "i + c * nbEBands m"
  note b = bands_nth [OF m]
  have so: "values16 m (oldEBands s)" "values16 m (band_error s)" "length (prev_q s) = 2" "\<bar>prev_q s ! c\<bar> \<le> int j * (3 * 2 ^ 23)" "\<bar>badness s\<bar> \<le> int j * 2 ^ 15"
    and sp: "\<forall>c < 2. \<bar>prev_q s ! c\<bar> \<le> int j * (3 * 2 ^ 23)"
    using s b(3) m(1) by (auto simp: coarse_ok_def frame_ok_def)
  have c2: "c < 2" using b(3) m(1) by (simp add: frame_ok_def)
  have "\<bar>prev_q s ! c\<bar> \<le> 189 * 2 ^ 23" using so(4) b(5) by simp
  then obtain f qi0 where f: "coarse_qi (eBands ! ?k) (oldEBands s ! ?k) coef (prev_q s ! c) max_decay = Some (f, qi0)"
    "\<bar>f\<bar> \<le> 189 * 2 ^ 23 + 2 ^ 24" "\<bar>qi0\<bar> \<le> 2 ^ 14"
    using coarse_qi_total [of "eBands ! ?k" "oldEBands s ! ?k" "prev_q s ! c" max_decay coef] values16_nth [OF e b(4)] values16_nth [OF so(1) b(4)] d by blast
  obtain fe where fe: "PSHR32 f 7 = Some fe" using PSHR32_Some [of f "191 * 2 ^ 23" 7 "2 ^ 24"] f(2) by auto
  define E2 where "E2 = (\<lambda>qi enc. do {
      er \<leftarrow> wr (band_error s) ?k (i16 (fe - SHL16 qi DB_SHIFT)); bad \<leftarrow> i32 (badness s + \<bar>qi0 - qi\<bar>);
      (old, prev) \<leftarrow> reconstruct coef beta (max (- (9 * 2 ^ DB_SHIFT)) (oldEBands s ! ?k)) (prev_q s ! c) qi;
      es \<leftarrow> wr (oldEBands s) ?k old; ps \<leftarrow> wr (prev_q s) c prev;
      Some (\<lparr>oldEBands = es, band_error = er, prev_q = ps, badness = bad\<rparr>, enc :: ec_ctx) })"
  define D2 where "D2 = (\<lambda>qi dec. do {
      old \<leftarrow> rd (oldEBands s) ?k; olds \<leftarrow> wr (oldEBands s) ?k (max (- (9 * 2 ^ DB_SHIFT)) old); old \<leftarrow> rd olds ?k;
      prev \<leftarrow> rd (prev_q s) c; (old, prev) \<leftarrow> reconstruct coef beta old prev qi;
      olds \<leftarrow> wr olds ?k old; prevs \<leftarrow> wr (prev_q s) c prev; Some ((olds, prevs), dec :: ec_ctx) })"
  have rest: "adapts t' n (E2 v) (D2 v) shared (coarse_ok m (Suc j)) 0" if v: "\<bar>v\<bar> \<le> 64" for v t'
  proof -
    obtain old p where rec: "reconstruct coef beta (max (- (9 * 2 ^ DB_SHIFT)) (oldEBands s ! ?k)) (prev_q s ! c) v = Some (old, p)"
      "is16 old" "\<bar>p\<bar> \<le> int (Suc j) * (3 * 2 ^ 23)" using reconstruct_total [OF so(4) b(5) v] by blast
    have bad: "\<bar>badness s + \<bar>qi0 - v\<bar>\<bar> \<le> int (Suc j) * 2 ^ 15" using so(5) f(3) v by simp
    then have "\<bar>badness s + \<bar>qi0 - v\<bar>\<bar> < 2 ^ 31" using b(5) by simp
    then have i: "i32 (badness s + \<bar>qi0 - v\<bar>) = Some (badness s + \<bar>qi0 - v\<bar>)" by (rule i32_Some)
    define s' where "s' = \<lparr>oldEBands = (oldEBands s)[?k := old], band_error = (band_error s)[?k := i16 (fe - SHL16 v DB_SHIFT)],
      prev_q = (prev_q s)[c := p], badness = badness s + \<bar>qi0 - v\<bar>\<rparr>"
    have w: "wr (prev_q s) c p = Some ((prev_q s)[c := p])" "rd (prev_q s) c = Some (prev_q s ! c)" using c2 so(3) by (simp_all add: wr_def)
    have k: "?k < length (oldEBands s)" using so(1) b(4) by (simp add: values16_def)
    have "E2 v = (\<lambda>c. Some (s', c))"
      by (rule ext) (simp add: E2_def values16_wr [OF so(2) b(4)] values16_wr [OF so(1) b(4)] i rec(1) w s'_def)
    moreover have "D2 v = (\<lambda>d. Some (shared s', d))"
      by (rule ext) (simp add: D2_def k wr_def w rec(1) shared_def s'_def so(3) c2)
    moreover have "coarse_ok m (Suc j) s'"
    proof -
      have "\<bar>(prev_q s)[c := p] ! c'\<bar> \<le> int (Suc j) * (3 * 2 ^ 23)" if "c' < 2" for c'
        using sp [rule_format, OF that] rec(3) that so(3) by (cases "c' = c") simp_all
      then show ?thesis using bad so(3) values16_update [OF so(1) rec(2)] values16_update [OF so(2) is16_i16] by (simp add: coarse_ok_def s'_def)
    qed
    ultimately show ?thesis using adapts_return [of "coarse_ok m (Suc j)" s' t' n shared] by simp
  qed
  have delta: "adapts t n
      (\<lambda>enc. do { left \<leftarrow> i32 (int n * 8 - te - 3 * int (channels m) * (int (band_end m) - int i));
                  (qi, enc) \<leftarrow> enc_delta (int n * 8) r i (limit_qi lfe (band_start m) i left qi0) te enc; E2 qi enc })
      (\<lambda>dec. do { (qi, dec) \<leftarrow> dec_delta (int n * 8) r i te dec; D2 qi dec }) shared (coarse_ok m (Suc j)) 24"
    if te: "1 \<le> te" "te \<le> t - 24" for te
  proof -
    let ?left = "int n * 8 - te - 3 * int (channels m) * (int (band_end m) - int i)"
    have "int (channels m) * (int (band_end m) - int i) \<le> int (channels m) * (int (band_end m) - int (band_start m))"
      using b(1) by (intro mult_left_mono) simp_all
    also have "\<dots> = int ((band_end m - band_start m) * channels m)" using m(1) by (simp add: frame_ok_def of_nat_diff)
    also have "\<dots> \<le> int 64" using m(1) by (simp only: of_nat_le_iff frame_ok_def)
    finally have "3 * int (channels m) * (int (band_end m) - int i) \<le> 192" by simp
    moreover have ge: "0 \<le> 3 * int (channels m) * (int (band_end m) - int i)" using b(2) by simp
    ultimately have "\<bar>?left\<bar> < 2 ^ 31" using n te t by simp
    then have left: "i32 ?left = Some ?left" by (rule i32_Some)
    have "\<bar>limit_qi lfe (band_start m) i ?left qi0\<bar> < 2 ^ 31" using limit_bound [OF f(3)] by (rule order.strict_trans1) simp
    moreover have "- 1 \<le> limit_qi lfe (band_start m) i ?left qi0" if one: "int n * 8 - te = 1"
    proof (rule limit_ge)
      show "i \<noteq> band_start m" using first one te by auto
      show "?left < 16" using one ge by linarith
    qed
    moreover have "t + 24 < 2 ^ 31" using t by simp
    ultimately have "adapts t n (enc_delta (int n * 8) r i (limit_qi lfe (band_start m) i ?left qi0) te) (dec_delta (int n * 8) r i te) (\<lambda>v. v) (\<lambda>v. \<bar>v\<bar> \<le> 64) 24"
      by (intro delta_adapts r) simp_all
    from adapts_bind [where ?E2.0 = E2 and ?D2.0 = D2, OF this rest] show ?thesis by (simp add: left)
  qed
  from adapts_tell [OF this]
  have "adapts t n
      (\<lambda>enc. do { te \<leftarrow> ec_tell enc; left \<leftarrow> i32 (int n * 8 - te - 3 * int (channels m) * (int (band_end m) - int i));
                  (qi, enc) \<leftarrow> enc_delta (int n * 8) r i (limit_qi lfe (band_start m) i left qi0) te enc; E2 qi enc })
      (\<lambda>dec. do { te \<leftarrow> ec_tell dec; (qi, dec) \<leftarrow> dec_delta (int n * 8) r i te dec; D2 qi dec }) shared (coarse_ok m (Suc j)) 24" .
  moreover have "quant_band m eBands (int n * 8) r coef beta max_decay lfe (i, c) s =
      (\<lambda>enc. do { te \<leftarrow> ec_tell enc; left \<leftarrow> i32 (int n * 8 - te - 3 * int (channels m) * (int (band_end m) - int i));
                  (qi, enc) \<leftarrow> enc_delta (int n * 8) r i (limit_qi lfe (band_start m) i left qi0) te enc; E2 qi enc })"
    using c2 so(3) by (intro ext) (simp add: quant_band_def Let_def values16_nth [OF e b(4)] values16_nth [OF so(1) b(4)] f(1) fe E2_def)
  moreover have "unquant_band m (int n * 8) r coef beta (i, c) (shared s) =
      (\<lambda>dec. do { te \<leftarrow> ec_tell dec; (qi, dec) \<leftarrow> dec_delta (int n * 8) r i te dec; D2 qi dec })"
    using c2 by (intro ext) (simp add: unquant_band_def shared_def Let_def D2_def)
  ultimately show ?thesis by simp
qed

section \<open>Coarse energy\<close>

lemma prediction_total: "LM < 4 \<Longrightarrow> \<exists>coef beta. prediction intra LM = Some (coef, beta)"
  by (simp add: prediction_def beta_coef_def pred_coef_def)

lemma model_row:
  assumes "LM < 4"
  shows "\<exists>ms r. rd e_prob_model LM = Some ms \<and> rd ms (if intra then 1 else 0) = Some r \<and> length r = 42 \<and> row_fits r"
proof -
  have l: "length e_prob_model = 4" "list_all (\<lambda>ms. length ms = 2) e_prob_model" by (simp_all add: e_prob_model_def)
  define ms where "ms = e_prob_model ! LM"
  have ms: "rd e_prob_model LM = Some ms" "length ms = 2" "list_all (\<lambda>r. length r = 42 \<and> row_fits r) ms"
    using l assms model_fits by (simp_all add: ms_def list_all_length)
  define k where "k = (if intra then 1 else 0 :: nat)"
  have k: "k < length ms" using ms(2) by (simp add: k_def)
  then have "rd ms k = Some (ms ! k)" "length (ms ! k) = 42 \<and> row_fits (ms ! k)" using ms(3) by (simp_all add: list_all_length)
  then show ?thesis using ms(1) unfolding k_def by blast
qed

lemma leads_same: "leads Dc v c c' \<Longrightarrow> (\<And>d. D' d = Dc d) \<Longrightarrow> leads D' v c c'"
  by (rule leads_cong)

lemma bands_length: "frame_ok m \<Longrightarrow> length (bands m) \<le> 64"
proof -
  assume m: "frame_ok m"
  then have "bands m = map (\<lambda>j. (band_start m + j div channels m, j mod channels m)) [0..<(band_end m - band_start m) * channels m]"
    unfolding bands_def using concat_rows [of "channels m" "band_start m" "band_end m"] by (simp add: frame_ok_def)
  then show ?thesis using m by (simp add: frame_ok_def)
qed

lemma loop_adapts:
  assumes m: "frame_ok m" and r: "length r = 42" "row_fits r" and n: "int n * 8 < 2 ^ 30" and t: "t + 2 \<le> int n * 8"
    and s: "coarse_ok m 0 s" and e: "values16 m eBands" and d: "is16 max_decay" and big: "t + 1600 < 2 ^ 30"
  shows "adapts t n (\<lambda>enc. foldM (\<lambda>ic (s, enc). quant_band m eBands (int n * 8) r coef beta max_decay lfe ic s enc) (bands m) (s, enc))
    (\<lambda>dec. foldM (\<lambda>ic (s, dec). unquant_band m (int n * 8) r coef beta ic s dec) (bands m) (shared s, dec))
    shared (coarse_ok m (0 + length (bands m))) (24 * length (bands m))"
proof (rule adapts_foldM [where P = "coarse_ok m" and i = 0, OF _ s])
  fix j x s'
  assume j: "j < length (bands m)" "bands m ! j = x" "coarse_ok m (0 + j) s'"
  obtain i c where x: "x = (i, c)" by (rule prod.exhaust)
  note b = bands_nth [OF m j(1) j(2) [unfolded x]]
  have late: "t + int (24 * j) + 24 < 2 ^ 30" using b(5) big by simp
  have first: "t + int (24 * j) + 2 \<le> int n * 8 + 24" if "i = band_start m" using b(6) [OF that] t by simp
  show "adapts (t + int (24 * j)) n (quant_band m eBands (int n * 8) r coef beta max_decay lfe x s') (unquant_band m (int n * 8) r coef beta x (shared s'))
      shared (coarse_ok m (Suc (0 + j))) 24"
    unfolding x using band_adapts [OF m j(1) j(2) [unfolded x] r n late first _ e d, of s' coef beta lfe] j(3) by simp
qed

end
