(* ===== verification/OpusEnergyPasses.thy ===== *)
theory OpusEnergyPasses
  imports OpusEnergyBands
begin

text \<open>
  The coarse energies of a frame: one pass, the two passes of the encoder into one buffer with the copies of
  states and bytes between them, and the decoder that follows the pass kept.
\<close>

section \<open>One pass\<close>

definition quantised :: "celt_frame \<Rightarrow> int \<times> int list \<times> int list \<Rightarrow> bool" where
  "quantised m r \<longleftrightarrow> values16 m (fst (snd r)) \<and> values16 m (snd (snd r)) \<and> \<bar>fst r\<bar> \<le> 2 ^ 21"

text \<open>The decoder from the flag on.\<close>

definition dec_pass :: "celt_frame \<Rightarrow> int list \<Rightarrow> nat \<Rightarrow> ec_ctx \<Rightarrow> (int list \<times> ec_ctx) option" where
  "dec_pass m old LM dec = do { (intra, dec) \<leftarrow> ec_dec_bit_logp dec 3; unquant_coarse_energy m old intra LM dec }"

lemma pass_adapts:
  assumes m: "frame_ok m" and LM: "LM < 4" and v: "values16 m eBands" "values16 m old" "values16 m error" and d: "is16 max_decay"
    and n: "int n * 8 \<le> 2 ^ 29" and t: "t + 26 \<le> int n * 8" and te: "1 \<le> te" "te \<le> t - 24"
  shows "adapts t n (coarse_pass m eBands old (word_of_int (int n * 8)) (word_of_int te) error LM intra max_decay lfe)
    (dec_pass m old LM) (\<lambda>r. fst (snd r)) (quantised m) (24 + 24 * length (bands m))"
proof -
  obtain coef beta where p: "prediction intra LM = Some (coef, beta)" using prediction_total [OF LM] by blast
  obtain ms r where r: "rd e_prob_model LM = Some ms" "rd ms (if intra then 1 else 0) = Some r" "length r = 42" "row_fits r"
    using model_row [OF LM] by blast
  have s: "sint (word_of_int (int n * 8) :: 32 word) = int n * 8" "sint (word_of_int te :: 32 word) = te"
    by (rule sint_word_32, use n t te in simp)+
  define s0 where "s0 = \<lparr>oldEBands = old, band_error = error, prev_q = [0, 0], badness = 0\<rparr>"
  have ok: "coarse_ok m 0 s0" using v by (auto simp: coarse_ok_def s0_def nth_Cons split: nat.splits)
  let ?E = "\<lambda>s enc. foldM (\<lambda>ic (s, enc). quant_band m eBands (int n * 8) r coef beta max_decay lfe ic s enc) (bands m) (s, enc)"
  let ?D = "\<lambda>dec. foldM (\<lambda>ic (s, dec). unquant_band m (int n * 8) r coef beta ic s dec) (bands m) ((old, [0, 0]), dec)"
  define fin where "fin = (\<lambda>s :: coarse. (if lfe then 0 else badness s, oldEBands s, band_error s))"
  have loop: "adapts (t + 24) n (?E s0) ?D shared (coarse_ok m (length (bands m))) (24 * length (bands m))"
    using loop_adapts [OF m r(3,4) _ _ ok v(1) d, of n "t + 24" coef beta lfe] n t by (simp add: shared_def s0_def)
  have q: "quantised m (fin s)" if "coarse_ok m (length (bands m)) s" for s
  proof -
    have "int (length (bands m)) * 2 ^ 15 \<le> 64 * 2 ^ 15" using bands_length [OF m] by simp
    then have "\<bar>badness s\<bar> \<le> 2 ^ 21" using that by (simp add: coarse_ok_def)
    then show ?thesis using that by (simp add: quantised_def fin_def coarse_ok_def)
  qed
  have 1: "adapts (t + 24) n (\<lambda>enc. do { (s, enc) \<leftarrow> ?E s0 enc; Some (fin s, enc) }) (\<lambda>dec. do { (s, dec) \<leftarrow> ?D dec; Some (fst s, dec) })
      (\<lambda>r. fst (snd r)) (quantised m) (24 * length (bands m) + 0)"
  proof (rule adapts_bind [where ?E2.0 = "\<lambda>s enc. Some (fin s, enc)" and ?D2.0 = "\<lambda>s dec. Some (fst s, dec)", OF loop])
    fix s assume "coarse_ok m (length (bands m)) s"
    from adapts_return [where P = "quantised m" and v = "fin s" and n = n and g = "\<lambda>r. fst (snd r)", OF q [OF this]]
    show "adapts (t + 24 + int (24 * length (bands m))) n (\<lambda>enc. Some (fin s, enc)) (\<lambda>dec. Some (fst (shared s), dec)) (\<lambda>r. fst (snd r)) (quantised m) 0"
      by (simp add: fin_def shared_def)
  qed
  have un: "adapts (t + 24) n (\<lambda>enc. do { (s, enc) \<leftarrow> ?E s0 enc; Some (fin s, enc) }) (unquant_coarse_energy m old intra LM)
      (\<lambda>r. fst (snd r)) (quantised m) (24 * length (bands m))"
  proof -
    let ?U = "\<lambda>k dec. do { (s, dec) \<leftarrow> foldM (\<lambda>ic (s, dec). unquant_band m (int k * 8) r coef beta ic s dec) (bands m) ((old, [0, 0]), dec); Some (fst s, dec) }"
    have "unquant_coarse_energy m old intra LM = (\<lambda>dec. ?U (ec_storage dec) dec)"
      by (rule ext) (simp add: unquant_coarse_energy_def p r(1) r(2) [simplified])
    moreover have "adapts (t + 24) n (\<lambda>enc. do { (s, enc) \<leftarrow> ?E s0 enc; Some (fin s, enc) }) (\<lambda>dec. ?U (ec_storage dec) dec)
      (\<lambda>r. fst (snd r)) (quantised m) (24 * length (bands m))"
      by (rule adapts_storage) (use 1 in simp)
    ultimately show ?thesis by simp
  qed
  have bit: "adapts t n (\<lambda>c. do { c \<leftarrow> ec_enc_bit_logp c intra 3; Some ((), c) }) (\<lambda>d. ec_dec_bit_logp d 3) (\<lambda>u. intra) (\<lambda>u. True) 24"
    by (rule adapts_codes [OF bit_logp_codes]) (use n t in simp_all)
  have "adapts t n (\<lambda>c. do { (u, c) \<leftarrow> do { c \<leftarrow> ec_enc_bit_logp c intra 3; Some ((), c) }; (s, c) \<leftarrow> ?E s0 c; Some (fin s, c) })
      (\<lambda>d. do { (i, d) \<leftarrow> ec_dec_bit_logp d 3; unquant_coarse_energy m old i LM d }) (\<lambda>r. fst (snd r)) (quantised m) (24 + 24 * length (bands m))"
    by (rule adapts_bind [where ?E2.0 = "\<lambda>u enc. do { (s, enc) \<leftarrow> ?E s0 enc; Some (fin s, enc) }" and ?D2.0 = "\<lambda>i. unquant_coarse_energy m old i LM", OF bit])
      (use un in simp)
  moreover have "coarse_pass m eBands old (word_of_int (int n * 8)) (word_of_int te) error LM intra max_decay lfe =
      (\<lambda>c. do { (u, c) \<leftarrow> do { c \<leftarrow> ec_enc_bit_logp c intra 3; Some ((), c) }; (s, c) \<leftarrow> ?E s0 c; Some (fin s, c) })"
  proof
    fix c
    have "te + 3 \<le> int n * 8" using te t by linarith
    then show "coarse_pass m eBands old (word_of_int (int n * 8)) (word_of_int te) error LM intra max_decay lfe c =
        (do { (u, c) \<leftarrow> do { c \<leftarrow> ec_enc_bit_logp c intra 3; Some ((), c) }; (s, c) \<leftarrow> ?E s0 c; Some (fin s, c) })"
      unfolding coarse_pass_def quant_coarse_energy_impl_def r(1) bind.bind_lunit r(2) s p prod.case if_P s0_def [symmetric] by (simp add: fin_def)
  qed
  ultimately show ?thesis by (simp add: dec_pass_def [abs_def])
qed


section \<open>Both passes\<close>

text \<open>What a pass does not touch.\<close>

definition keeping :: "(ec_ctx \<Rightarrow> ('v \<times> ec_ctx) option) \<Rightarrow> bool" where
  "keeping E \<longleftrightarrow> (\<forall>c v c'. safe c \<and> E c = Some (v, c') \<longrightarrow> keeps c c')"

lemma keepingD: "keeping E \<Longrightarrow> safe c \<Longrightarrow> E c = Some (v, c') \<Longrightarrow> keeps c c'"
  by (auto simp: keeping_def)

lemma keepingI: "(\<And>c v c'. safe c \<Longrightarrow> E c = Some (v, c') \<Longrightarrow> keeps c c') \<Longrightarrow> keeping E"
  by (auto simp: keeping_def)

lemma keeping_return: "keeping (\<lambda>c. Some (v, c))"
  by (auto simp: keeping_def keeps_refl)

lemma keeping_bind:
  assumes "keeping E" and "\<And>v. keeping (F v)"
  shows "keeping (\<lambda>c. do { (v, c) \<leftarrow> E c; F v c })"
proof (rule keepingI)
  fix c w c' assume c: "safe c" "(do { (v, c) \<leftarrow> E c; F v c }) = Some (w, c')"
  then obtain v c1 where "E c = Some (v, c1)" "F v c1 = Some (w, c')" by (auto simp: option_bind_Some_iff)
  then show "keeps c c'" using keepingD [OF assms(1) c(1)] keepingD [OF assms(2) keeps_safe] keeps_trans by blast
qed

lemma keeping_pure:
  assumes "\<And>x. keeping (F x)"
  shows "keeping (\<lambda>c. do { x \<leftarrow> f c; F x c })"
proof (rule keepingI)
  fix c w c' assume c: "safe c" "(do { x \<leftarrow> f c; F x c }) = Some (w, c')"
  then obtain x where "F x c = Some (w, c')" by (auto simp: option_bind_Some_iff)
  then show "keeps c c'" by (rule keepingD [OF assms c(1)])
qed

lemma keeping_foldM: "(\<And>x s. keeping (E x s)) \<Longrightarrow> keeping (\<lambda>c. foldM (\<lambda>x (s, c). E x s c) xs (s, c))"
proof (induction xs arbitrary: s)
  case (Cons x xs)
  from keeping_bind [where F = "\<lambda>s c. foldM (\<lambda>x (s, c). E x s c) xs (s, c)", OF Cons.prems Cons.IH [OF Cons.prems]]
  show ?case by (simp add: split_def)
qed (simp add: keeping_return)

lemma keeping_plain:
  assumes "\<And>c c'. safe c \<Longrightarrow> E c = Some c' \<Longrightarrow> keeps c c'"
  shows "keeping (\<lambda>c. do { c \<leftarrow> E c; Some (v, c) })"
  using assms by (auto simp: keeping_def option_bind_Some_iff)

lemma enc_delta_keeping: "keeping (enc_delta budget r i qi te)"
proof -
  have "keeping (\<lambda>c. ec_laplace_encode c qi fs decay)" for fs decay
    unfolding ec_laplace_encode_def split_def
    by (intro keeping_pure keeping_plain) (rule encode_bin_keeps)
  then have 1: "keeping (\<lambda>c. do { p \<leftarrow> rd r pi; q \<leftarrow> rd r (pi + 1); ec_laplace_encode c qi (word_of_int (uint p * 2 ^ 7)) (uint q * 2 ^ 6) })" for pi
    by (intro keeping_pure)
  have 2: "keeping (\<lambda>c. do { c \<leftarrow> ec_enc_icdf c s small_energy_icdf 2; Some (v, c) })" for s and v :: int
    by (rule keeping_plain) (rule enc_icdf_keeps)
  have 3: "keeping (\<lambda>c. do { c \<leftarrow> ec_enc_bit_logp c b 1; Some (v, c) })" for b and v :: int
    by (rule keeping_plain) (rule bit_logp_keeps)
  show ?thesis
  proof (rule keepingI)
    fix c v c' assume c: "safe c" "enc_delta budget r i qi te c = Some (v, c')"
    show "keeps c c'" using c(2) unfolding enc_delta_def Let_def
      by (cases "15 \<le> budget - te"; cases "2 \<le> budget - te"; cases "1 \<le> budget - te"; simp only: if_True if_False)
         (use keepingD [OF 1 c(1)] keepingD [OF 2 c(1)] keepingD [OF 3 c(1)] keeps_refl [OF c(1)] in \<open>blast+\<close>)
  qed
qed

lemma quant_band_keeping: "keeping (quant_band m eBands budget r coef beta max_decay lfe ic s)"
  unfolding quant_band_def split_def Let_def
  by (intro keeping_pure keeping_bind [unfolded split_def] enc_delta_keeping keeping_return)

section \<open>Two passes\<close>

lemma coarse_pass_keeping: "keeping (coarse_pass m eBands old budget te error LM intra max_decay lfe)"
proof (rule keepingI)
  fix c v c' assume c: "safe c" "coarse_pass m eBands old budget te error LM intra max_decay lfe c = Some (v, c')"
  obtain r where "quant_coarse_energy_impl m eBands old (sint budget) (sint te) r error LM intra max_decay lfe c = Some (v, c')"
    using c(2) unfolding coarse_pass_def option_bind_Some_iff by blast
  then obtain c1 coef beta where 1: "(if sint te + 3 \<le> sint budget then ec_enc_bit_logp c intra 3 else Some c) = Some c1"
    and 2: "(do { (s, enc) \<leftarrow> foldM (\<lambda>ic (s, enc). quant_band m eBands (sint budget) r coef beta max_decay lfe ic s enc) (bands m)
            (\<lparr>oldEBands = old, band_error = error, prev_q = [0, 0], badness = 0\<rparr>, c1);
          Some ((if lfe then 0 else badness s, oldEBands s, band_error s), enc) }) = Some (v, c')"
    unfolding quant_coarse_energy_impl_def option_bind_Some_iff split_paired_Ex prod.case by blast
  have k: "keeps c c1"
  proof (cases "sint te + 3 \<le> sint budget")
    case True
    show ?thesis by (rule bit_logp_keeps [OF c(1) 1 [unfolded if_P [OF True]]])
  next
    case False
    then show ?thesis using 1 keeps_refl [OF c(1)] by simp
  qed
  have "keeping (\<lambda>enc. do { (s, enc) \<leftarrow> foldM (\<lambda>ic (s, enc). quant_band m eBands (sint budget) r coef beta max_decay lfe ic s enc) (bands m)
            (\<lparr>oldEBands = old, band_error = error, prev_q = [0, 0], badness = 0\<rparr>, enc);
          Some ((if lfe then 0 else badness s, oldEBands s, band_error s), enc) })"
    by (intro keeping_bind keeping_foldM quant_band_keeping keeping_return)
  from keeps_trans [OF k keepingD [OF this keeps_safe [OF k] 2]] show "keeps c c'" .
qed

lemma tell_frac_total:
  assumes "enc_wf c" and "ec_nbits_total c \<le> 2 ^ 27 + 2 ^ 12"
  shows "\<exists>f. ec_tell_frac c = Some f \<and> \<bar>sint f\<bar> \<le> 2 ^ 30 + 2 ^ 16"
proof -
  define k where "k = ec_ilog (ec_rng c)"
  have ilog: "EC_ILOG (ec_rng c) = Some k" "23 < k" "k \<le> 32" using enc_wf_ilog [OF assms(1)] by (simp_all add: k_def)
  have nb: "0 \<le> ec_nbits_total c" using assms(1) by (simp add: enc_wf_def)
  have i: "i32 (ec_nbits_total c * 2 ^ BITRES) = Some (ec_nbits_total c * 2 ^ BITRES)" by (rule i32_Some) (use nb assms(2) in \<open>simp add: BITRES_def\<close>)
  have "ec_rng c \<noteq> 0" using assms(1) by (auto simp: enc_wf_def)
  then have b: "bits_in (unat (ec_rng c)) k" unfolding k_def by (rule ec_ilog_bits)
  define r where "r = drop_bit (k - 16) (ec_rng c)"
  have ur: "unat r = unat (ec_rng c) div 2 ^ (k - 16)" unfolding r_def by (rule unat_drop)
  have "2 ^ (k - 1) \<le> unat (ec_rng c)" "unat (ec_rng c) < 2 ^ k" using b ilog(2) by (simp_all add: bits_in_def)
  moreover have "k - 1 = 15 + (k - 16)" "k = 16 + (k - 16)" using ilog(2) by simp_all
  ultimately have "2 ^ 15 * 2 ^ (k - 16) \<le> unat (ec_rng c)" "unat (ec_rng c) < 2 ^ 16 * 2 ^ (k - 16)" by (metis power_add)+
  then have "2 ^ 15 \<le> unat r" "unat r < 2 ^ 16" unfolding ur by (simp_all add: less_eq_div_iff_mult_less_eq div_less_iff_less_mult)
  then have "8 \<le> unat (drop_bit 12 r)" "unat (drop_bit 12 r) < 16" unfolding unat_drop by (simp_all add: less_eq_div_iff_mult_less_eq div_less_iff_less_mult)
  then have u: "unat (drop_bit 12 r - 8) < 8" by (subst unat_sub) (simp_all add: word_le_nat_alt)
  define q where "q = drop_bit 12 r - (8 :: 32 word)"
  obtain x where x: "rd correction (unat q) = Some x" using u by (simp add: correction_def q_def)
  define e where "e = q + (if r > x then 1 else 0)"
  have e: "uint e = int (unat q) + (if r > x then 1 else 0)" "int (unat q) < 8"
  proof -
    show q8: "int (unat q) < 8" unfolding q_def using u by linarith
    have "unat q + 1 < 9" using u unfolding q_def by linarith
    then have "unat q + 1 < 2 ^ 32" by (rule order.strict_trans) simp
    then have "unat (q + 1) = unat q + 1" by (rule unat_plus_1)
    then show "uint e = int (unat q) + (if r > x then 1 else 0)" by (cases "r > x") (simp_all only: e_def uint_nat if_True if_False add_0_right of_nat_add of_nat_1)
  qed
  define f where "f = word_of_int (ec_nbits_total c * 2 ^ BITRES) - (word_of_nat (8 * k) + e)"
  have ef: "ec_tell_frac c = Some f"
    unfolding ec_tell_frac_def i ilog(1) bind.bind_lunit Let_def r_def [symmetric] q_def [symmetric] x e_def [symmetric] f_def [symmetric]
    using ilog(2) by (simp add: ensure_def)
  have "f = word_of_int (ec_nbits_total c * 2 ^ BITRES - (8 * int k + uint e))" by (simp add: f_def)
  moreover have bd: "\<bar>ec_nbits_total c * 2 ^ BITRES - (8 * int k + uint e)\<bar> \<le> 2 ^ 30 + 2 ^ 16" 
  proof -
    have "0 \<le> uint e" "uint e < 9" using e by (cases "r > x"; simp)+
    then obtain z where z: "uint e = z" "0 \<le> z" "z < 9" by blast
    show ?thesis unfolding z(1) using z(2,3) nb assms(2) ilog(3) by (simp add: BITRES_def abs_le_iff)
  qed
  moreover have "sint (word_of_int (ec_nbits_total c * 2 ^ BITRES - (8 * int k + uint e)) :: 32 word) = ec_nbits_total c * 2 ^ BITRES - (8 * int k + uint e)"
    by (rule sint_word_32) (rule order.strict_trans1 [OF bd], simp)
  ultimately show ?thesis using ef by simp
qed


lemma restore_rebuffer:
  assumes s: "safe c" and k1: "keeps c c1" and k2: "keeps (c\<lparr>ec_buf := ec_buf c1\<rparr>) c2"
  shows "\<exists>saved b. save_bytes c c1 = Some saved \<and> restore_bytes (ec_range_bytes c) saved (ec_buf c2) = Some b \<and> rebuffer c1 b"
proof -
  let ?p = "ec_offs c" and ?q = "ec_offs c1" and ?e = "ec_storage c - ec_end_offs c"
  have a: "safe c1" "ec_storage c1 = ec_storage c" "ec_end_offs c1 = ec_end_offs c" "?p \<le> ?q" using k1 by (simp_all add: keeps_def)
  have b: "safe c2" "ec_storage c2 = ec_storage c" "take ?p (ec_buf c2) = take ?p (ec_buf c1)" "drop ?e (ec_buf c2) = drop ?e (ec_buf c1)"
    using k2 by (simp_all add: keeps_def)
  have l: "length (ec_buf c1) = ec_storage c" "length (ec_buf c2) = ec_storage c" "?q \<le> ?e" "?e \<le> ec_storage c"
    using a b(1,2) by (auto simp: safe_def)
  define saved where "saved = take (?q - ?p) (drop ?p (ec_buf c1))"
  have sl: "length saved = ?q - ?p" using l by (simp add: saved_def)
  have sv: "save_bytes c c1 = Some saved" using a(4) l by (simp add: save_bytes_def ec_range_bytes_def ec_get_buffer_def ensure_def saved_def)
  define b' where "b' = take ?p (ec_buf c2) @ saved @ drop ?q (ec_buf c2)"
  have "?p + length saved = ?q" using sl a(4) by simp
  then have rs: "restore_bytes (ec_range_bytes c) saved (ec_buf c2) = Some b'"
    using l by (simp add: restore_bytes_def ec_range_bytes_def ensure_def b'_def)
  have "take ?p (ec_buf c1) @ saved = take ?q (ec_buf c1)" unfolding saved_def using a(4) by (metis le_add_diff_inverse take_add)
  then have b'': "b' = take ?q (ec_buf c1) @ drop ?q (ec_buf c2)" unfolding b'_def b(3) by (metis append_assoc)
  have "rebuffer c1 b'" unfolding rebuffer_def a(2,3)
  proof (intro conjI)
    show "length b' = length (ec_buf c1)" "take ?q b' = take ?q (ec_buf c1)" unfolding b'' using l by simp_all
    obtain j where "?e = ?q + j" using l(3) le_Suc_ex by blast
    then have "drop ?e b' = drop ?e (ec_buf c2)" unfolding b'' using l(1,3,4) by (simp add: add.commute)
    then show "drop ?e b' = drop ?e (ec_buf c1)" using b(4) by simp
  qed
  then show ?thesis using sv rs by blast
qed

lemma buffer_keeps:
  assumes "safe c" and "keeps c c1"
  shows "rebuffer c (ec_buf c1)"
  using assms by (simp add: keeps_def rebuffer_def safe_def)

definition shown :: "celt_frame \<Rightarrow> int list \<times> int list \<times> bool \<Rightarrow> bool" where
  "shown m r \<longleftrightarrow> values16 m (fst r) \<and> values16 m (fst (snd r))"

lemma passes_adapts:
  assumes m: "frame_ok m" and LM: "LM < 4" and v: "values16 m eBands" "values16 m old" "values16 m error" "values16 m error_intra"
    and d: "is16 max_decay" and n: "int n * 8 \<le> 2 ^ 27" and t: "t + 26 \<le> int n * 8" and te: "1 \<le> te" "te \<le> t - 24"
    and bias: "\<bar>intra_bias\<bar> \<le> 2 ^ 23"
  shows "adapts t n (coarse_passes m eBands old (word_of_int (int n * 8)) (word_of_int te) error error_intra LM two_pass intra intra_bias max_decay lfe)
    (dec_pass m old LM) fst (shown m) (24 + 24 * length (bands m))" (is "adapts t n ?all ?D fst (shown m) ?k")
proof (rule outcome_adapts)
  fix c assume c: "enc_wf c" "33 \<le> ec_nbits_total c" "ec_nbits_total c \<le> t" "ec_storage c = n"
  define bw where "bw = (word_of_int (int n * 8) :: 32 word)"
  let ?pass = "\<lambda>er i c. coarse_pass m eBands old bw (word_of_int te) er LM i max_decay lfe c"
  have s: "safe c" using c(1) by (simp add: enc_wf_def)
  have pass: "\<exists>bad old' er' c'. ?pass er i c0 = Some ((bad, old', er'), c') \<and> values16 m old' \<and> values16 m er' \<and> outcome ?D old' ?k c0 c' \<and> keeps c0 c'"
    if c0: "enc_wf c0" "ec_nbits_total c0 = ec_nbits_total c" "ec_storage c0 = n" and er: "values16 m er" for er i c0
  proof -
    have "adapts t n (?pass er i) ?D (\<lambda>r. fst (snd r)) (quantised m) ?k" using pass_adapts [OF m LM v(1,2) er d _ t te] n unfolding bw_def by simp
    from adapts_outcome [OF this c0(1)] c0(2,3) c(2,3) obtain r c' where r: "?pass er i c0 = Some (r, c')" "quantised m r" "outcome ?D (fst (snd r)) ?k c0 c'"
      by auto
    have "keeps c0 c'" by (rule keepingD [OF coarse_pass_keeping _ r(1)]) (use c0(1) in \<open>simp add: enc_wf_def\<close>)
    then show ?thesis using r by (cases r) (auto simp: quantised_def)
  qed
  have tf: "\<exists>f. ec_tell_frac c' = Some f \<and> \<bar>sint f\<bar> \<le> 2 ^ 30 + 2 ^ 16" if "outcome ?D w ?k c0 c'" "ec_nbits_total c0 = ec_nbits_total c" for w c0 c'
    using that c(3) t n bands_length [OF m] by (intro tell_frac_total) (auto simp: outcome_def)
  show "\<exists>v c'. ?all c = Some (v, c') \<and> shown m v \<and> outcome ?D (fst v) ?k c c'"
  proof (cases "two_pass \<or> intra")
    case True
    obtain bad1 old1 er1 c1 where p1: "?pass error_intra True c = Some ((bad1, old1, er1), c1)" "values16 m old1" "values16 m er1" "outcome ?D old1 ?k c c1" "keeps c c1"
      using pass [OF c(1) refl c(4) v(4)] by blast
    have r: "rebuffer c (ec_buf c1)" by (rule buffer_keeps [OF s p1(5)])
    let ?c = "c\<lparr>ec_buf := ec_buf c1\<rparr>"
    have wf: "enc_wf ?c" using rebuffer_same(1) [OF r s] c(1) by simp
    obtain bad2 old2 er2 c2 where p2: "?pass error False ?c = Some ((bad2, old2, er2), c2)" "values16 m old2" "values16 m er2" "outcome ?D old2 ?k ?c c2" "keeps ?c c2"
    proof -
      have "ec_nbits_total ?c = ec_nbits_total c" "ec_storage ?c = n" using c(4) by simp_all
      from pass [OF wf this v(3), of False] show thesis using that by blast
    qed
    obtain f1 f2 where f: "ec_tell_frac c1 = Some f1" "ec_tell_frac c2 = Some f2" "\<bar>sint f2\<bar> \<le> 2 ^ 30 + 2 ^ 16" using tf [OF p1(4)] tf [OF p2(4)] by auto
    have "\<bar>sint f2 + intra_bias\<bar> < 2 ^ 31" using f(3) bias by simp
    then have i: "i32 (sint f2 + intra_bias) = Some (sint f2 + intra_bias)" by (rule i32_Some)
    obtain saved b where b: "save_bytes c c1 = Some saved" "restore_bytes (ec_range_bytes c) saved (ec_buf c2) = Some b" "rebuffer c1 b"
      using restore_rebuffer [OF s p1(5) p2(5)] by blast
    have o1: "outcome ?D old1 ?k c (c1\<lparr>ec_buf := b\<rparr>)" by (rule outcome_to [OF p1(4) b(3)]) (use p1(5) in \<open>simp add: keeps_def\<close>)
    have o2: "outcome ?D old2 ?k c c2" by (rule outcome_from [OF p2(4) r s])
    define better where "better = (if two_pass \<and> bad1 = bad2 then sint f2 + intra_bias > sint f1 else two_pass \<and> bad1 < bad2)"
    have "?all c = Some (if intra then ((old1, er1, True), c1) else if better then ((old1, er1, True), c1\<lparr>ec_buf := b\<rparr>) else ((old2, er2, False), c2))"
      unfolding bw_def [symmetric] using True by (simp add: coarse_passes_def p1(1) p2(1) f(1,2) i b(1,2) better_def)
    then show ?thesis using p1(2-4) p2(2,3) o1 o2 by (auto simp: shown_def)
  next
    case False
    obtain bad2 old2 er2 c2 where p2: "?pass error False c = Some ((bad2, old2, er2), c2)" "values16 m old2" "values16 m er2" "outcome ?D old2 ?k c c2" "keeps c c2"
      using pass [OF c(1) refl c(4) v(3)] by blast
    have "ec_nbits_total c \<le> 2 ^ 27 + 2 ^ 12" using c(3) t n by simp
    then obtain f where f: "ec_tell_frac c = Some f" using tell_frac_total [OF c(1)] by blast
    have sv: "save_bytes c c = Some []" using s by (simp add: save_bytes_def ec_range_bytes_def ec_get_buffer_def ensure_def safe_def)
    have "?all c = Some ((old2, er2, False), c2)" unfolding bw_def [symmetric] using False by (simp add: coarse_passes_def f sv p2(1))
    then show ?thesis using p2(2-4) by (auto simp: shown_def)
  qed
qed

section \<open>The coarse energies\<close>

lemma foldM_all: "foldM f xs a = Some r \<Longrightarrow> Q a \<Longrightarrow> (\<And>x a r. f x a = Some r \<Longrightarrow> Q r) \<Longrightarrow> Q r"
  by (induction xs arbitrary: a) (auto simp: option_bind_Some_iff)

lemma i32_bound: "i32 x = Some y \<Longrightarrow> \<bar>y\<bar> \<le> 2 ^ 31"
  by (auto simp: i32_def split: if_splits)

lemma distortion_bound:
  assumes "loss_distortion m eBands old effEnd = Some nd"
  shows "\<bar>nd\<bar> \<le> 2 ^ 17"
proof -
  obtain dist where dist: "foldM (\<lambda>j dist. do { x \<leftarrow> rd eBands j; y \<leftarrow> rd old j;
      (let d = i16 (SUB16 (drop_bit 3 x) (drop_bit 3 y)) in i32 (dist + MULT16_16 d d)) })
    (concat (map (\<lambda>c. map (\<lambda>i. i + c * nbEBands m) [band_start m..<effEnd]) [0..<max 1 (channels m)])) 0 = Some dist"
    and nd: "nd = min 200 (drop_bit (2 * DB_SHIFT - 6) dist)"
    using assms unfolding loss_distortion_def option_bind_Some_iff option.inject by blast
  have "\<bar>dist\<bar> \<le> 2 ^ 31" by (rule foldM_all [OF dist]) (auto simp: option_bind_Some_iff Let_def dest!: i32_bound)
  then have "\<bar>drop_bit (2 * DB_SHIFT - 6) dist\<bar> \<le> 2 ^ 17" by (intro drop_bit_bound) (simp add: DB_SHIFT_def)
  then show ?thesis unfolding nd by (auto simp: min_def)
qed

lemma bias_bound:
  fixes x :: "32 word"
  assumes "1 \<le> C" and "C \<le> 2"
  shows "\<bar>sint (x div word_of_int (int C * 512))\<bar> \<le> 2 ^ 23"
proof -
  have "C = 1 \<or> C = 2" using assms by auto
  then have u: "uint (word_of_int (int C * 512) :: 32 word) = int C * 512" by auto
  have x: "0 \<le> uint x" "uint x < 4294967296" using uint_bounded [of x] by simp_all
  have "uint (x div word_of_int (int C * 512)) = uint x div (int C * 512)" by (simp only: uint_div u)
  also have "\<dots> \<le> uint x div 512" by (rule zdiv_mono2) (use assms(1) x in simp_all)
  also have "\<dots> \<le> 4294967296 div 512" by (rule zdiv_mono1) (use x in simp_all)
  finally have b: "uint (x div word_of_int (int C * 512)) \<le> 2 ^ 23" by simp
  define y where "y = x div word_of_int (int C * 512)"
  have y: "0 \<le> uint y" "uint y \<le> 2 ^ 23" using b by (simp_all add: y_def)
  then have "sint (word_of_int (uint y) :: 32 word) = uint y" by (intro sint_word_32) simp
  then have "sint y = uint y" by simp
  then show ?thesis using y unfolding y_def [symmetric] by simp
qed

lemma delayed_total:
  assumes "LM < 4" and "\<bar>d\<bar> \<le> 2 ^ 31" and "\<bar>nd\<bar> \<le> 2 ^ 17"
  shows "\<exists>p x. rd pred_coef LM = Some p \<and> i32 (MULT16_32_Q15 (MULT16_16_Q15 p p) d + nd) = Some x"
proof -
  have "LM = 0 \<or> LM = 1 \<or> LM = 2 \<or> LM = 3" using assms(1) by auto
  then obtain p where p: "rd pred_coef LM = Some p" "p \<in> {29440, 26112, 21248, 16384}" by (auto simp: pred_coef_def)
  have sq: "is16 p" using p(2) by (auto simp: is16_def)
  have "0 \<le> MULT16_16_Q15 p p \<and> MULT16_16_Q15 p p \<le> 26450"
    unfolding MULT16_16_Q15_def MULT16_16_def i16_same [OF sq] drop_bit_eq_div using p(2) by auto
  then have q: "is16 (MULT16_16_Q15 p p)" "\<bar>MULT16_16_Q15 p p\<bar> \<le> 26450" by (simp_all add: is16_def)
  have "\<bar>MULT16_16_Q15 p p * d\<bar> \<le> 26450 * 2 ^ 31" unfolding abs_mult by (rule mult_mono [OF q(2) assms(2)]) simp_all
  then have "\<bar>MULT16_32_Q15 (MULT16_16_Q15 p p) d\<bar> \<le> 26450 * 2 ^ 16" unfolding MULT16_32_Q15_def i16_same [OF q(1)] by (intro drop_bit_bound) simp
  then have "\<bar>MULT16_32_Q15 (MULT16_16_Q15 p p) d + nd\<bar> < 2 ^ 31" using assms(3) by simp
  then show ?thesis using p(1) i32_Some by blast
qed

definition pair_ok :: "celt_frame \<Rightarrow> int list \<times> int list \<Rightarrow> bool" where
  "pair_ok m s \<longleftrightarrow> values16 m (fst s) \<and> values16 m (snd s)"

lemma quant_coarse_adapts:
  assumes m: "frame_ok m" and LM: "LM < 4" and v: "values16 m eBands" "values16 m old" "values16 m error" "values16 m error_intra"
    and n: "int n * 8 \<le> 2 ^ 27" and t: "t + 26 \<le> int n * 8" and nd: "loss_distortion m eBands old effEnd = Some nd" and di: "\<bar>delayedIntra\<bar> \<le> 2 ^ 31"
  shows "adapts t n (\<lambda>enc. do { ((old, error, delayed), enc) \<leftarrow>
      quant_coarse_energy m effEnd eBands old (word_of_int (int n * 8)) error error_intra LM nbAvailableBytes force_intra delayedIntra two_pass loss_rate lfe enc;
      Some ((old, error), enc) })
    (decode_coarse m old LM) fst (pair_ok m) (24 + 24 * length (bands m))"
proof -
  let ?C = "int (channels m)" and ?w = "int (band_end m) - int (band_start m)"
  define intra where "intra = (force_intra \<or> (\<not> two_pass \<and> delayedIntra > 2 * ?C * ?w \<and> nbAvailableBytes > ?w * ?C))"
  define bias where "bias = sint ((word_of_int (int n * 8) * word_of_int delayedIntra * word_of_int loss_rate) div word_of_int (?C * 512) :: 32 word)"
  define decay where "decay = (if lfe then 3 * 2 ^ DB_SHIFT else if ?w > 10 then i16 (min (16 * 2 ^ DB_SHIFT) (SHL32 nbAvailableBytes (DB_SHIFT - 3))) else 16 * 2 ^ DB_SHIFT)"
  have bias: "\<bar>bias\<bar> \<le> 2 ^ 23" unfolding bias_def by (rule bias_bound) (use m in \<open>simp_all add: frame_ok_def\<close>)
  have decay: "is16 decay" by (auto simp: decay_def is16_i16) (simp_all add: is16_def DB_SHIFT_def)
  define E where "E = (\<lambda>te enc. do { ((old, error, i), enc) \<leftarrow>
      coarse_passes m eBands old (word_of_int (int n * 8)) (word_of_int te) error error_intra LM two_pass intra bias decay lfe enc;
      delayed \<leftarrow> (if i then Some nd else do { p \<leftarrow> rd pred_coef LM; i32 (MULT16_32_Q15 (MULT16_16_Q15 p p) delayedIntra + nd) });
      Some ((old, error), enc) })"
  have te: "adapts t n (E te) (\<lambda>d. do { (i, d) \<leftarrow> (if te + 3 \<le> int n * 8 then ec_dec_bit_logp d 3 else Some (False, d)); unquant_coarse_energy m old i LM d })
      fst (pair_ok m) (24 + 24 * length (bands m))" if "1 \<le> te" "te \<le> t - 24" for te
  proof -
    obtain p x where px: "rd pred_coef LM = Some p" "i32 (MULT16_32_Q15 (MULT16_16_Q15 p p) delayedIntra + nd) = Some x"
      using delayed_total [OF LM di distortion_bound [OF nd]] by blast
    have "adapts t n (\<lambda>enc. do { (r, enc) \<leftarrow> coarse_passes m eBands old (word_of_int (int n * 8)) (word_of_int te) error error_intra LM two_pass intra bias decay lfe enc;
        (\<lambda>r enc. Some ((fst r, fst (snd r)), enc)) r enc }) (\<lambda>d. do { (r, d) \<leftarrow> dec_pass m old LM d; (\<lambda>r d. Some (r, d)) r d }) fst (pair_ok m) (24 + 24 * length (bands m) + 0)"
    proof (rule adapts_bind [OF passes_adapts [OF m LM v decay n t that bias]])
      fix r assume "shown m r"
      then have "pair_ok m (fst r, fst (snd r))" by (simp add: shown_def pair_ok_def)
      from adapts_return [of "pair_ok m" "(fst r, fst (snd r))" "t + int (24 + 24 * length (bands m))" n fst, OF this]
      show "adapts (t + int (24 + 24 * length (bands m))) n (\<lambda>c. Some ((fst r, fst (snd r)), c)) (\<lambda>d. Some (fst r, d)) fst (pair_ok m) 0" by simp
    qed
    moreover have "E te = (\<lambda>enc. do { (r, enc) \<leftarrow> coarse_passes m eBands old (word_of_int (int n * 8)) (word_of_int te) error error_intra LM two_pass intra bias decay lfe enc;
        (\<lambda>r enc. Some ((fst r, fst (snd r)), enc)) r enc })"
    proof -
      have "(if i then Some nd else do { p \<leftarrow> rd pred_coef LM; i32 (MULT16_32_Q15 (MULT16_16_Q15 p p) delayedIntra + nd) }) = Some (if i then nd else x)" for i
        by (simp add: px)
      then show ?thesis unfolding E_def by (intro ext) (simp only: bind.bind_lunit split_def)
    qed
    moreover have "(\<lambda>d. do { (r, d) \<leftarrow> dec_pass m old LM d; (\<lambda>r d. Some (r, d)) r d }) =
        (\<lambda>d. do { (i, d) \<leftarrow> (if te + 3 \<le> int n * 8 then ec_dec_bit_logp d 3 else Some (False, d)); unquant_coarse_energy m old i LM d })"
      using that t by (intro ext) (simp add: dec_pass_def split_def)
    ultimately show ?thesis by simp
  qed
  let ?D = "\<lambda>k d. do { te \<leftarrow> ec_tell d; (i, d) \<leftarrow> (if te + 3 \<le> int k * 8 then ec_dec_bit_logp d 3 else Some (False, d)); unquant_coarse_energy m old i LM d }"
  have "adapts t n (\<lambda>enc. do { te \<leftarrow> ec_tell enc; E te enc }) (\<lambda>d. ?D (ec_storage d) d) fst (pair_ok m) (24 + 24 * length (bands m))"
    by (rule adapts_storage) (rule adapts_tell [where E = E, OF te])
  moreover have "(\<lambda>d. ?D (ec_storage d) d) = decode_coarse m old LM"
    by (rule ext) (simp add: decode_coarse_def dec_intra_def)
  ultimately have "adapts t n (\<lambda>enc. do { te \<leftarrow> ec_tell enc; E te enc }) (decode_coarse m old LM) fst (pair_ok m) (24 + 24 * length (bands m))" by simp
  then show ?thesis
  proof (rule adapts_cong)
    fix c te assume te: "ec_tell c = Some te" "1 \<le> te" "te \<le> t - 24"
    have "\<not> (word_of_int te + 3 :: 32 word) > word_of_int (int n * 8)"
    proof -
      have "uint (word_of_int (te + 3) :: 32 word) = te + 3" "uint (word_of_int (int n * 8) :: 32 word) = int n * 8"
        using te t n by (simp_all only: uint_word_of_int) (simp_all add: take_bit_int_eq_self)
      then show ?thesis using te t by (simp add: word_less_def)
    qed
    then show "(do { ((old, error, delayed), enc) \<leftarrow>
        quant_coarse_energy m effEnd eBands old (word_of_int (int n * 8)) error error_intra LM nbAvailableBytes force_intra delayedIntra two_pass loss_rate lfe c;
        Some ((old, error), enc) }) = (do { te \<leftarrow> ec_tell c; E te c })"
      unfolding quant_coarse_energy_def Let_def te(1) nd bind.bind_lunit E_def intra_def [symmetric] bias_def [symmetric]
      by (simp only: if_False prod.case decay_def [symmetric] bind_assoc split_def fst_conv snd_conv bind.bind_lunit)
  qed
qed

end
