(* ===== verification/OpusEnergyProofs.thy ===== *)
theory OpusEnergyProofs
  imports OpusEnergyPasses
begin

text \<open>
  Fine energies and the remaining bits, and the theorem on all energies of a frame: what the decoder ends with
  is what the encoder has kept.
\<close>

section \<open>Fine energy\<close>

definition fine_ok :: "celt_frame \<Rightarrow> int list \<Rightarrow> bool" where
  "fine_ok m fine_quant \<longleftrightarrow> band_end m \<le> length fine_quant \<and> (\<forall>i. band_start m \<le> i \<and> i < band_end m \<longrightarrow> 0 \<le> fine_quant ! i \<and> fine_quant ! i \<le> MAX_FINE_BITS)"

lemma bits_adapts:
  assumes "0 < b" and "b \<le> 25" and "0 \<le> q" and "q < 2 ^ b" and "t + int b < 2 ^ 31" and "P v" and "f (word_of_int q) = g v"
  shows "adapts t n (\<lambda>c. do { c \<leftarrow> ec_enc_bits c (word_of_int q) b; Some (v, c) }) (\<lambda>d. do { (x, d) \<leftarrow> ec_dec_bits d b; Some (f x, d) }) g P b"
proof -
  have "(2 :: int) ^ b \<le> 2 ^ 25" using assms(2) by (intro power_increasing) simp_all
  then have "uint (word_of_int q :: 32 word) = q" using assms(3,4) by (simp add: uint_word_of_int take_bit_int_eq_self)
  then have "unat (word_of_int q :: 32 word) = nat q" by (metis nat_uint_eq)
  then have "unat (word_of_int q :: 32 word) < 2 ^ b" using assms(3,4) by (simp add: nat_less_iff)
  from codes_map [OF bits_codes [OF this assms(1,2)], of f] show ?thesis by (rule adapts_codes) (use assms in simp_all)
qed

lemma fine_band_adapts:
  assumes m: "frame_ok m" "j < length (bands m)" "bands m ! j = (i, c)" and f: "fine_ok m fq" and s: "pair_ok m s" and t: "t + 8 < 2 ^ 31"
  shows "adapts t n (quant_fine_band m fq (i, c) s) (unquant_fine_band m fq (i, c) (fst s)) fst (pair_ok m) 8"
proof -
  let ?j = "i + c * nbEBands m"
  note b = bands_nth [OF m]
  have fq: "rd fq i = Some (fq ! i)" "0 \<le> fq ! i" "fq ! i \<le> 8" using f b(1,2) by (simp_all add: fine_ok_def MAX_FINE_BITS_def)
  have so: "values16 m (fst s)" "values16 m (snd s)" using s by (simp_all add: pair_ok_def)
  note rds = values16_nth [OF so(1) b(4)] values16_nth [OF so(2) b(4)]
  show ?thesis
  proof (cases "fq ! i = 0")
    case True
    then have "quant_fine_band m fq (i, c) s = (\<lambda>c. Some (s, c))" "unquant_fine_band m fq (i, c) (fst s) = (\<lambda>d. Some (fst s, d))"
      by (rule_tac [!] ext) (simp_all add: quant_fine_band_def unquant_fine_band_def fq(1) split_def ensure_def)
    then show ?thesis using adapts_weaken [OF adapts_return [of "pair_ok m" s t n fst, OF s], of 8 "pair_ok m" t] by simp
  next
    case False
    define k where "k = nat (fq ! i)"
    have k: "fq ! i = int k" "0 < k" "k \<le> 8" using fq(2,3) False by (simp_all add: k_def)
    have pw: "2 ^ 0 < (2 :: int) ^ k" "(2 :: int) ^ k \<le> 2 ^ 8"
      using k(2,3) power_increasing [of k 8 "2 :: int"] by (rule_tac power_strict_increasing, simp_all)
    define e where "e = snd s ! ?j"
    define q where "q = (let frac = i16 (2 ^ k); q2 = drop_bit (DB_SHIFT - k) (e + 2 ^ DB_SHIFT div 2); q2 = (if q2 > frac - 1 then frac - 1 else q2) in if q2 < 0 then 0 else q2)"
    have "i16 (2 ^ k) = 2 ^ k" by (rule i16_same) (use pw in \<open>simp add: is16_def\<close>)
    then have q: "0 \<le> q" "q < 2 ^ k" using pw by (auto simp: q_def Let_def)
    have sq: "sint (word_of_int q :: 32 word) = q" by (rule sint_word_32) (use q pw in simp)
    define s' where "s' = ((fst s)[?j := i16 (fst s ! ?j + fine_offset q k)], (snd s)[?j := i16 (e - fine_offset q k)])"
    have s': "pair_ok m s'" using so by (simp add: pair_ok_def s'_def values16_update is16_i16)
    have E: "quant_fine_band m fq (i, c) s = (\<lambda>c. do { c \<leftarrow> ec_enc_bits c (word_of_int q) k; Some (s', c) })"
      using k by (intro ext) (simp add: quant_fine_band_def split_def fq(1) ensure_def rds values16_wr [OF so(1) b(4)] values16_wr [OF so(2) b(4)] Let_def q_def s'_def e_def)
    have D: "unquant_fine_band m fq (i, c) (fst s) = (\<lambda>d. do { (x, d) \<leftarrow> ec_dec_bits d k; Some ((fst s)[?j := i16 (fst s ! ?j + fine_offset (sint x) k)], d) })"
      using k by (intro ext) (simp add: unquant_fine_band_def split_def fq(1) rds values16_wr [OF so(1) b(4)] Let_def)
    have "adapts t n (quant_fine_band m fq (i, c) s) (unquant_fine_band m fq (i, c) (fst s)) fst (pair_ok m) k"
      unfolding E D by (rule bits_adapts [OF k(2) _ q]) (use k(3) t s' sq in \<open>simp_all add: s'_def\<close>)
    from adapts_weaken [OF this k(3)] show ?thesis by simp
  qed
qed

lemma fine_adapts:
  assumes m: "frame_ok m" and f: "fine_ok m fq" and s: "pair_ok m s" and t: "t + 600 < 2 ^ 31"
  shows "adapts t n (quant_fine_energy m (fst s) (snd s) fq) (unquant_fine_energy m (fst s) fq) fst (pair_ok m) (8 * length (bands m))"
proof -
  have "adapts t n (\<lambda>enc. foldM (\<lambda>ic (s, enc). quant_fine_band m fq ic s enc) (bands m) (s, enc))
    (\<lambda>dec. foldM (\<lambda>ic (s, dec). unquant_fine_band m fq ic s dec) (bands m) (fst s, dec)) fst (pair_ok m) (8 * length (bands m))"
  proof (rule adapts_foldM [where P = "\<lambda>i. pair_ok m" and i = 0, OF _ s])
    fix j x s'
    assume j: "j < length (bands m)" "bands m ! j = x" "pair_ok m s'"
    obtain i c where x: "x = (i, c)" by (rule prod.exhaust)
    have "j < 64" using j(1) bands_length [OF m] by simp
    then show "adapts (t + int (8 * j)) n (quant_fine_band m fq x s') (unquant_fine_band m fq x (fst s')) fst (pair_ok m) 8"
      unfolding x using t by (intro fine_band_adapts [OF m j(1) j(2) [unfolded x] f j(3)]) simp
  qed
  moreover have "quant_fine_energy m (fst s) (snd s) fq = (\<lambda>enc. foldM (\<lambda>ic (s, enc). quant_fine_band m fq ic s enc) (bands m) (s, enc))"
    "unquant_fine_energy m (fst s) fq = (\<lambda>dec. foldM (\<lambda>ic (s, dec). unquant_fine_band m fq ic s dec) (bands m) (fst s, dec))"
    by (rule ext, simp add: quant_fine_energy_def unquant_fine_energy_def)+
  ultimately show ?thesis by simp
qed

section \<open>The remaining bits\<close>

definition left_ok :: "celt_frame \<Rightarrow> int list \<times> int \<Rightarrow> bool" where
  "left_ok m s \<longleftrightarrow> values16 m (fst s) \<and> - (2 ^ 31) \<le> snd s \<and> snd s < 2 ^ 31"

lemma final_place_adapts:
  assumes j: "i + c * nbEBands m < channels m * nbEBands m" and e: "values16 m error" and s: "values16 m (fst s)" "1 \<le> snd s" "snd s < 2 ^ 31" and t: "t + 1 < 2 ^ 31"
  shows "adapts t n (quant_final_place m error b i c s) (unquant_final_place m b i c s) (\<lambda>s. s) (\<lambda>s'. values16 m (fst s') \<and> snd s' = snd s - 1) 1"
proof -
  let ?j = "i + c * nbEBands m"
  note rds = values16_nth [OF s(1) j] values16_nth [OF e j] values16_wr [OF s(1) j]
  define q :: int where "q = (if error ! ?j < 0 then 0 else 1)"
  have q: "0 \<le> q" "q < 2 ^ 1" "sint (word_of_int q :: 32 word) = q" by (auto simp: q_def)
  define f where "f = (\<lambda>x :: 32 word. ((fst s)[?j := i16 (fst s ! ?j + last_offset (sint x) b)], snd s - 1))"
  have left: "i32 (snd s - 1) = Some (snd s - 1)" by (rule i32_Some) (use s(2,3) in simp)
  have E: "quant_final_place m error b i c s = (\<lambda>c. do { c \<leftarrow> ec_enc_bits c (word_of_int q) 1; Some (f (word_of_int q), c) })"
    by (rule ext) (simp add: quant_final_place_def split_def rds left f_def Let_def flip: q_def, simp add: q(3))
  have D: "unquant_final_place m b i c s = (\<lambda>d. do { (x, d) \<leftarrow> ec_dec_bits d 1; Some (f x, d) })"
    by (rule ext) (simp add: unquant_final_place_def split_def rds left f_def Let_def)
  show ?thesis unfolding E D by (rule bits_adapts [OF _ _ q(1,2)]) (use t values16_update [OF s(1) is16_i16] in \<open>simp_all add: f_def\<close>)
qed


lemma final_band_adapts:
  assumes m: "frame_ok m" and i: "band_start m \<le> i" "i < band_end m" and e: "values16 m error" and f: "fine_ok m fq" "band_end m \<le> length fp"
    and s: "left_ok m s" and t: "t + 2 < 2 ^ 31"
  shows "adapts t n (quant_final_band m error fq fp (prio, i) s) (unquant_final_band m fq fp (prio, i) s) (\<lambda>s. s) (left_ok m) 2"
proof -
  have fq: "rd fq i = Some (fq ! i)" "0 \<le> fq ! i" "rd fp i = Some (fp ! i)" using f i by (simp_all add: fine_ok_def)
  have C: "max 1 (channels m) = channels m" "channels m \<le> 2" "i < nbEBands m" using m i by (simp_all add: frame_ok_def)
  let ?E = "\<lambda>c. foldM (\<lambda>c (s, enc). quant_final_place m error (fq ! i) i c s enc) [0..<channels m] (s, c)"
  let ?D = "\<lambda>d. foldM (\<lambda>c (s, dec). unquant_final_place m (fq ! i) i c s dec) [0..<channels m] (s, d)"
  show ?thesis
  proof (cases "snd s < int (channels m) \<or> fq ! i \<ge> MAX_FINE_BITS \<or> fp ! i \<noteq> prio")
    case True
    then have "quant_final_band m error fq fp (prio, i) s = (\<lambda>c. Some (s, c))" "unquant_final_band m fq fp (prio, i) s = (\<lambda>d. Some (s, d))"
      by (rule_tac [!] ext) (auto simp: quant_final_band_def unquant_final_band_def fq)
    then show ?thesis using adapts_weaken [OF adapts_return [of "left_ok m" s t n "\<lambda>s. s", OF s], of 2 "left_ok m" t] by simp
  next
    case False
    define P where "P = (\<lambda>c s'. values16 m (fst s' :: int list) \<and> snd s' = snd s - int c)"
    have "adapts t n ?E ?D (\<lambda>s. s) (P (0 + length [0..<channels m])) (1 * length [0..<channels m])"
    proof (rule adapts_foldM [where P = P and i = 0 and g = "\<lambda>s. s"])
      show "P 0 s" using s by (simp add: P_def left_ok_def)
      fix j x s'
      assume j: "j < length [0..<channels m]" "[0..<channels m] ! j = x" "P (0 + j) s'"
      then have x: "x = j" "j < channels m" by simp_all
      have "Suc j * nbEBands m \<le> channels m * nbEBands m" using x(2) by (intro mult_le_mono1) simp
      then have k: "i + j * nbEBands m < channels m * nbEBands m" using C(3) by simp
      have "adapts (t + int (1 * j)) n (quant_final_place m error (fq ! i) i j s') (unquant_final_place m (fq ! i) i j s') (\<lambda>s. s)
          (\<lambda>s''. values16 m (fst s'') \<and> snd s'' = snd s' - 1) 1"
        using j(3) False s x(2) t C(2) by (intro final_place_adapts [OF k e]) (simp_all add: P_def left_ok_def)
      then show "adapts (t + int (1 * j)) n (quant_final_place m error (fq ! i) i x s') (unquant_final_place m (fq ! i) i x s') (\<lambda>s. s) (P (Suc (0 + j))) 1"
        unfolding x(1) by (rule adapts_weaken) (use j(3) in \<open>simp_all add: P_def\<close>)
    qed
    from adapts_weaken [OF this, of 2 "left_ok m" t] have "adapts t n ?E ?D (\<lambda>s. s) (left_ok m) 2"
      using C(2) False s by (simp add: P_def left_ok_def)
    moreover have "quant_final_band m error fq fp (prio, i) s = ?E" "unquant_final_band m fq fp (prio, i) s = ?D"
      using False by (rule_tac [!] ext) (simp_all add: quant_final_band_def unquant_final_band_def fq C(1) [simplified] ensure_def)
    ultimately show ?thesis by simp
  qed
qed

lemma final_bands_length:
  assumes m: "frame_ok m"
  shows "length (final_bands m) \<le> 128"
proof -
  have "length (final_bands m) = 2 * (band_end m - band_start m)" by (simp add: final_bands_def)
  moreover have "band_end m - band_start m \<le> (band_end m - band_start m) * channels m" using m by (simp add: frame_ok_def)
  moreover have "(band_end m - band_start m) * channels m \<le> 64" using m by (simp add: frame_ok_def)
  ultimately show ?thesis by linarith
qed

lemma finalise_adapts:
  assumes m: "frame_ok m" and e: "values16 m error" "values16 m old" and f: "fine_ok m fq" "band_end m \<le> length fp"
    and left: "- (2 ^ 31) \<le> left" "left < 2 ^ 31" and t: "t + 300 < 2 ^ 31"
  shows "adapts t n (quant_energy_finalise m old error fq fp left) (unquant_energy_finalise m old fq fp left) (\<lambda>v. v) (values16 m) (2 * length (final_bands m))"
proof -
  have len: "length (final_bands m) \<le> 128" by (rule final_bands_length [OF m])
  have mem: "band_start m \<le> i" "i < band_end m" if "(p, i) \<in> set (final_bands m)" for p i using that by (auto simp: final_bands_def)
  have "adapts t n (\<lambda>enc. foldM (\<lambda>pi (s, enc). quant_final_band m error fq fp pi s enc) (final_bands m) ((old, left), enc))
    (\<lambda>dec. foldM (\<lambda>pi (s, dec). unquant_final_band m fq fp pi s dec) (final_bands m) ((old, left), dec)) (\<lambda>s. s) (left_ok m) (2 * length (final_bands m))"
  proof (rule adapts_foldM [where P = "\<lambda>i. left_ok m" and i = 0 and g = "\<lambda>s. s"])
    show "left_ok m (old, left)" using e left by (simp add: left_ok_def)
    fix j x s'
    assume j: "j < length (final_bands m)" "final_bands m ! j = x" "left_ok m s'"
    obtain p i where x: "x = (p, i)" by (rule prod.exhaust)
    have "(p, i) \<in> set (final_bands m)" using nth_mem [OF j(1)] j(2) x by simp
    from mem [OF this] show "adapts (t + int (2 * j)) n (quant_final_band m error fq fp x s') (unquant_final_band m fq fp x s') (\<lambda>s. s) (left_ok m) 2"
      unfolding x using t j(1) len by (intro final_band_adapts [OF m _ _ e(1) f j(3)]) simp_all
  qed
  from adapts_bind [where ?E2.0 = "\<lambda>s c. Some (fst s, c)" and ?D2.0 = "\<lambda>s d. Some (fst s, d)" and ?P2.0 = "values16 m" and ?k2.0 = 0 and ?g2.0 = "\<lambda>v. v", OF this]
  have "adapts t n (\<lambda>enc. do { (s, enc) \<leftarrow> foldM (\<lambda>pi (s, enc). quant_final_band m error fq fp pi s enc) (final_bands m) ((old, left), enc); Some (fst s, enc) })
    (\<lambda>dec. do { (s, dec) \<leftarrow> foldM (\<lambda>pi (s, dec). unquant_final_band m fq fp pi s dec) (final_bands m) ((old, left), dec); Some (fst s, dec) })
    (\<lambda>v. v) (values16 m) (2 * length (final_bands m))"
    using adapts_return [where g = "\<lambda>v. v" and P = "values16 m"] by (simp add: left_ok_def)
  then show ?thesis unfolding quant_energy_finalise_def [abs_def] unquant_energy_finalise_def [abs_def] .
qed

section \<open>All energies of a frame\<close>

lemma adapts_seq:
  assumes "codes E Dc w k" and "t + int k < 2 ^ 31" and "adapts (t + int k) n E' (D' w) g P k'"
  shows "adapts t n (\<lambda>c. do { c \<leftarrow> E c; E' c }) (\<lambda>d. do { (w, d) \<leftarrow> Dc d; D' w d }) g P (k + k')"
proof -
  have 1: "adapts t n (\<lambda>c. do { c \<leftarrow> E c; Some ((), c) }) Dc (\<lambda>u. w) (\<lambda>u. True) k"
    by (rule adapts_codes [OF assms(1,2)]) simp_all
  from adapts_bind [where ?E2.0 = "\<lambda>u c. E' c" and ?D2.0 = D', OF 1 assms(3)] show ?thesis by simp
qed

lemma adapts_map:
  assumes "adapts t n E Dc (\<lambda>v. v) P k"
  shows "adapts t n E (\<lambda>d. do { (x, d) \<leftarrow> Dc d; Some (h x, d) }) h P k"
proof -
  have "adapts t n (\<lambda>c. do { (v, c) \<leftarrow> E c; Some (v, c) }) (\<lambda>d. do { (x, d) \<leftarrow> Dc d; Some (h x, d) }) h P (k + 0)"
    by (rule adapts_bind [where ?E2.0 = "\<lambda>v c. Some (v, c)" and ?D2.0 = "\<lambda>x d. Some (h x, d)", OF assms]) (rule adapts_return)
  then show ?thesis by simp
qed

lemma finalise_tell_adapts:
  assumes m: "frame_ok m" and e: "values16 m error" "values16 m old" and f: "fine_ok m fq" "band_end m \<le> length fp"
    and n: "int n * 8 \<le> 2 ^ 27" and t: "t + 300 < 2 ^ 30"
  shows "adapts t n (\<lambda>c. do { te \<leftarrow> ec_tell c; quant_energy_finalise m old error fq fp (int n * 8 - te) c })
    (\<lambda>d. do { te \<leftarrow> ec_tell d; (old, d) \<leftarrow> unquant_energy_finalise m old fq fp (int n * 8 - te) d; Some (h old, d) }) h (values16 m) (2 * length (final_bands m))"
proof (rule adapts_tell [where Dc = "\<lambda>te d. do { (old, d) \<leftarrow> unquant_energy_finalise m old fq fp (int n * 8 - te) d; Some (h old, d) }"])
  fix te :: int assume te: "1 \<le> te" "te \<le> t - 24"
  have fin: "adapts t n (quant_energy_finalise m old error fq fp (int n * 8 - te)) (unquant_energy_finalise m old fq fp (int n * 8 - te)) (\<lambda>v. v) (values16 m) (2 * length (final_bands m))"
    by (rule finalise_adapts [OF m e f]) (use n t te in simp_all)
  show "adapts t n (quant_energy_finalise m old error fq fp (int n * 8 - te))
      (\<lambda>d. do { (old, d) \<leftarrow> unquant_energy_finalise m old fq fp (int n * 8 - te) d; Some (h old, d) }) h (values16 m) (2 * length (final_bands m))"
    by (rule adapts_map [OF fin])
qed

definition energy_bits :: "celt_frame \<Rightarrow> (celt_kind \<times> celt_value) list \<Rightarrow> (celt_kind \<times> celt_value) list \<Rightarrow> nat" where
  "energy_bits m xs ys = 24 + 24 * length (bands m) + (48 * length xs + (8 * length (bands m) + (48 * length ys + 2 * length (final_bands m))))"

lemma energies_adapts:
  assumes m: "frame_ok m" and LM: "LM < 4" and v: "values16 m eBands" "values16 m old" "values16 m error" "values16 m error_intra"
    and f: "fine_ok m fq" "band_end m \<le> length fp" and n: "int n * 8 \<le> 2 ^ 27" and t: "t + 26 \<le> int n * 8"
    and nd: "loss_distortion m eBands old effEnd = Some nd" and di: "\<bar>delayedIntra\<bar> \<le> 2 ^ 31"
    and xs: "\<forall>(k, v) \<in> set xs. codable_celt k v" "length xs \<le> 2 ^ 20" and ys: "\<forall>(k, v) \<in> set ys. codable_celt k v" "length ys \<le> 2 ^ 20"
  shows "adapts t n (enc_energies m effEnd eBands old error error_intra LM nbAvailableBytes force_intra delayedIntra two_pass loss_rate lfe fq fp xs ys)
    (dec_energies m old LM fq fp (map fst xs) (map fst ys)) (\<lambda>old. (map snd xs, map snd ys, old)) (values16 m) (energy_bits m xs ys)"
proof -
  let ?N = "int n * 8" and ?vs = "map snd xs" and ?ws = "map snd ys"
  define E4 where "E4 = (\<lambda>(old, error) c. do { te \<leftarrow> ec_tell c; quant_energy_finalise m old error fq fp (?N - te) c })"
  define D4 where "D4 = (\<lambda>old (vs :: celt_value list) (ws :: celt_value list) d. do { te \<leftarrow> ec_tell d; (old, d) \<leftarrow> unquant_energy_finalise m old fq fp (?N - te) d; Some ((vs, ws, old), d) })"
  define E3 where "E3 = (\<lambda>v c. do { c \<leftarrow> enc_all enc_celt ys c; E4 v c })"
  define D3 where "D3 = (\<lambda>old vs d. do { (ws, d) \<leftarrow> dec_all dec_celt (map fst ys) d; D4 old vs ws d })"
  define E2 where "E2 = (\<lambda>(old, error) c. do { (v, c) \<leftarrow> quant_fine_energy m old error fq c; E3 v c })"
  define D2 where "D2 = (\<lambda>old vs d. do { (old, d) \<leftarrow> unquant_fine_energy m old fq d; D3 old vs d })"
  define E1 where "E1 = (\<lambda>v c. do { c \<leftarrow> enc_all enc_celt xs c; E2 v c })"
  define D1 where "D1 = (\<lambda>old d. do { (vs, d) \<leftarrow> dec_all dec_celt (map fst xs) d; D2 old vs d })"
  define E0 where "E0 = (\<lambda>c. do { ((old, error, delayed), c) \<leftarrow>
      quant_coarse_energy m effEnd eBands old (word_of_int ?N) error error_intra LM nbAvailableBytes force_intra delayedIntra two_pass loss_rate lfe c;
      Some ((old, error), c) })"
  let ?lb = "length (bands m)" and ?lf = "length (final_bands m)"
  have lb: "?lb \<le> 64" by (rule bands_length [OF m])
  have lens: "length xs \<le> 1048576" "length ys \<le> 1048576" using xs(2) ys(2) by simp_all
  let ?g = "\<lambda>old. (?vs, ?ws, old)"
  have tt: "int (48 * length xs) \<le> 2 ^ 27" "int (48 * length ys) \<le> 2 ^ 27" "t \<le> 2 ^ 27" "int (24 + 24 * ?lb) \<le> 1560" "int (8 * ?lb) \<le> 512"
    using lens lb n t by simp_all
  have a4: "adapts t' n (E4 v) (D4 (fst v) ?vs ?ws) ?g (values16 m) (2 * ?lf)" if "pair_ok m v" "t' + 300 < 2 ^ 30" for v t'
    using finalise_tell_adapts [OF m _ _ f n that(2), of "snd v" "fst v" ?g] that(1) by (simp add: E4_def D4_def split_def pair_ok_def)
  have a3: "adapts t' n (E3 v) (D3 (fst v) ?vs) ?g (values16 m) (48 * length ys + 2 * ?lf)" if "pair_ok m v" "t' + int (48 * length ys) + 300 < 2 ^ 30" for v t'
    unfolding E3_def D3_def
    by (rule adapts_seq [where D' = "\<lambda>ws. D4 (fst v) ?vs ws", OF celt_coder.stream_codes [OF ys(1)] _ a4 [OF that(1)]]) (use that(2) in simp_all)
  have a2: "adapts t' n (E2 v) (D2 (fst v) ?vs) ?g (values16 m) (8 * ?lb + (48 * length ys + 2 * ?lf))"
    if "pair_ok m v" "t' + int (8 * ?lb) + int (48 * length ys) + 600 < 2 ^ 30" for v t'
  proof -
    have "adapts t' n (quant_fine_energy m (fst v) (snd v) fq) (unquant_fine_energy m (fst v) fq) fst (pair_ok m) (8 * ?lb)"
      by (rule fine_adapts [OF m f(1) that(1)]) (use that(2) in simp)
    from adapts_bind [where ?E2.0 = E3 and ?D2.0 = "\<lambda>old. D3 old ?vs", OF this a3] that(2) show ?thesis by (simp add: E2_def D2_def split_def)
  qed
  have a1: "adapts t' n (E1 v) (D1 (fst v)) ?g (values16 m) (48 * length xs + (8 * ?lb + (48 * length ys + 2 * ?lf)))"
    if "pair_ok m v" "t' + int (48 * length xs) + int (8 * ?lb) + int (48 * length ys) + 600 < 2 ^ 30" for v t'
    unfolding E1_def D1_def
    by (rule adapts_seq [where D' = "D2 (fst v)", OF celt_coder.stream_codes [OF xs(1)] _ a2 [OF that(1)]]) (use that(2) in simp_all)
  have a0: "adapts t n E0 (decode_coarse m old LM) fst (pair_ok m) (24 + 24 * ?lb)"
    unfolding E0_def by (rule quant_coarse_adapts [OF m LM v n t nd di])
  have "adapts t n (\<lambda>c. do { (v, c) \<leftarrow> E0 c; E1 v c }) (\<lambda>d. do { (old, d) \<leftarrow> decode_coarse m old LM d; D1 old d }) ?g (values16 m) (energy_bits m xs ys)"
    unfolding energy_bits_def
  proof (rule adapts_bind [where ?E2.0 = E1 and ?D2.0 = D1, OF a0 a1])
    show "t + int (24 + 24 * ?lb) + int (48 * length xs) + int (8 * ?lb) + int (48 * length ys) + 600 < 2 ^ 30" using tt by simp
  qed
  then have "adapts t n (enc_energies m effEnd eBands old error error_intra LM nbAvailableBytes force_intra delayedIntra two_pass loss_rate lfe fq fp xs ys)
      (\<lambda>d. do { (old, d) \<leftarrow> decode_coarse m old LM d; D1 old d }) ?g (values16 m) (energy_bits m xs ys)"
  proof (rule adapts_cong)
    fix c :: ec_ctx assume "ec_storage c = n"
    then show "enc_energies m effEnd eBands old error error_intra LM nbAvailableBytes force_intra delayedIntra two_pass loss_rate lfe fq fp xs ys c =
        (do { (v, c) \<leftarrow> E0 c; E1 v c })"
      unfolding enc_energies_def Let_def by (simp only: E0_def E1_def E2_def E3_def E4_def split_def bind_assoc bind.bind_lunit fst_conv snd_conv)
  qed
  from adapts_storage [where Dc = "\<lambda>k d. do { (old, d) \<leftarrow> decode_coarse m old LM d; (vs, d) \<leftarrow> dec_all dec_celt (map fst xs) d;
      (old, d) \<leftarrow> unquant_fine_energy m old fq d; (ws, d) \<leftarrow> dec_all dec_celt (map fst ys) d; te \<leftarrow> ec_tell d;
      (old, d) \<leftarrow> unquant_energy_finalise m old fq fp (int k * 8 - te) d; Some ((vs, ws, old), d) }", OF this [unfolded D1_def D2_def D3_def D4_def]]
  show ?thesis unfolding dec_energies_def [abs_def] Let_def .
qed

lemma finished_outcome:
  assumes o: "outcome Dc w k (ec_enc_init z b n) c" and b: "length b = n" and nbc: "ec_nbits_total c < 2 ^ 31"
  shows "\<exists>c'. ec_enc_done c = Some c' \<and> length (ec_buf c') = n \<and> (\<forall>t. ec_tell c = Some t \<and> t \<le> 8 * int n \<longrightarrow> ec_error c' = 0) \<and>
    (ec_error c' = 0 \<longrightarrow> (\<exists>d d'. ec_dec_init z' (ec_buf c') n = Some d \<and> Dc d = Some (w, d') \<and> in_step (ec_buf c') c d'))"
proof -
  let ?c0 = "ec_enc_init z b n"
  have s0: "enc_state ?c0" by (rule init_state [OF b])
  have st: "ec_storage ?c0 = n" by (simp add: ec_enc_init_def)
  note c = outcomeD [OF o]
  obtain c' where c': "ec_enc_done c = Some c'" "length (ec_buf c') = ec_storage c" "ec_error c' = 0 \<Longrightarrow> ec_error c = 0"
    "ec_error c' = 0 \<Longrightarrow> enc_state c \<Longrightarrow> ec_nbits_total c < 2 ^ 31 \<Longrightarrow> fits_in (ec_buf c') c"
    using enc_done_fits [OF c(1)] by blast
  have sc: "enc_state c" if "ec_error c = 0" using c(5) that s0 by (simp add: leads_def)
  have len: "length (ec_buf c') = n" using c'(2) c(2) st by simp
  have room: "ec_error c' = 0" if t: "ec_tell c = Some t" "t \<le> 8 * int n" for t
  proof -
    have "ec_nbits_total c - 32 \<le> t" using enc_wf_tell [OF c(1)] t(1) by auto
    then have "ec_error c = 0" using t(2) st by (intro c(6) [OF s0]) simp
    then show ?thesis using enc_done_room [OF sc t(1) _ nbc c'(1)] t(2) c(2) st by simp
  qed
  have "\<exists>d d'. ec_dec_init z' (ec_buf c') n = Some d \<and> Dc d = Some (w, d') \<and> in_step (ec_buf c') c d'" if e: "ec_error c' = 0"
  proof -
    obtain d where d: "ec_dec_init z' (ec_buf c') n = Some d" "in_step (ec_buf c') ?c0 d" using init_in_step [OF len b] by blast
    have f: "fits_in (ec_buf c') c" "ec_error c = 0" using c'(3,4) e sc nbc by blast+
    have "\<forall>B. length B = n \<and> fits_in B c \<longrightarrow> (\<forall>d. in_step B ?c0 d \<longrightarrow> (\<exists>d'. Dc d = Some (w, d') \<and> in_step B c d'))"
      using c(5) f(2) s0 st unfolding leads_def by simp
    then obtain d' where "Dc d = Some (w, d')" "in_step (ec_buf c') c d'" using f(1) len d(2) by blast
    then show ?thesis using d(1) by blast
  qed
  then show ?thesis using c'(1) len room by blast
qed

lemma outcome_map:
  assumes "outcome Dc w k c c'"
  shows "outcome (\<lambda>d. do { (x, d) \<leftarrow> Dc d; Some (h x, d) }) (h w) k c c'"
  using outcome_bind [where ?D2.0 = "\<lambda>x d. Some (h x, d)", OF assms outcome_refl [OF outcomeD(1) [OF assms]]] by simp

text \<open>
  C32. Encoder and decoder of CELT agree on the energies of the bands. Behind any symbols \<open>zs\<close>, with at
  least 58 bits left, the encoder codes the coarse energies - trying both passes, comparing what they
  cost, copying states and bytes - other symbols \<open>xs\<close>, the fine energies, other symbols \<open>ys\<close> and the
  remaining bits of the energies. No sum overflows, no index is out of range, at most \<open>energy_bits\<close> bits are
  added (up to the rounding of \<open>ec_tell\<close>), and when the bits that \<open>ec_tell\<close> counts fit the buffer
  there is no error. The decoder, started on the finished buffer with the energies of the frame before, reads the same symbols and ends with the very energies the encoder has kept
  for the next frame, after the same number of bits. (The encoder's buffer keeps its size between coarse and
  fine energies, as at a constant bit rate, and the sum \<open>loss_distortion\<close> forms does not overflow.)
\<close>

theorem celt_energies_agree:
  assumes m: "frame_ok m" and LM: "LM < 4" and v: "values16 m eBands" "values16 m old" "values16 m error" "values16 m error_intra"
    and f: "fine_ok m fine_quant" "band_end m \<le> length fine_priority" and n: "int n * 8 \<le> 2 ^ 27" "length b = n"
    and nd: "loss_distortion m eBands old effEnd \<noteq> None" and di: "\<bar>delayedIntra\<bar> \<le> 2 ^ 31"
    and sy: "\<forall>(k, v) \<in> set zs \<union> set xs \<union> set ys. codable_celt k v" "length zs \<le> 2 ^ 20" "length xs \<le> 2 ^ 20" "length ys \<le> 2 ^ 20"
    and c0: "enc_all enc_celt zs (ec_enc_init z b n) = Some c0" "ec_tell c0 = Some t0" "t0 + 58 \<le> 8 * int n"
  shows "\<exists>old' c c' t. enc_energies m effEnd eBands old error error_intra LM nbAvailableBytes force_intra delayedIntra two_pass loss_rate lfe
        fine_quant fine_priority xs ys c0 = Some (old', c) \<and> values16 m old' \<and> ec_tell c = Some t \<and> t \<le> t0 + int (energy_bits m xs ys) + 8 \<and>
      ec_enc_done c = Some c' \<and> length (ec_buf c') = n \<and> (t \<le> 8 * int n \<longrightarrow> ec_error c' = 0) \<and>
      (ec_error c' = 0 \<longrightarrow> (\<exists>d d0 d'. ec_dec_init z' (ec_buf c') n = Some d \<and> dec_all dec_celt (map fst zs) d = Some (map snd zs, d0) \<and>
         dec_energies m old LM fine_quant fine_priority (map fst xs) (map fst ys) d0 = Some ((map snd xs, map snd ys, old'), d') \<and>
         ec_tell d' = Some t \<and> ec_rng d' = ec_rng c \<and> ec_error d' = 0))"
proof -
  let ?c = "ec_enc_init z b n" and ?D = "dec_energies m old LM fine_quant fine_priority (map fst xs) (map fst ys)"
  have s0: "enc_wf ?c" using enc_state_ok [OF init_state [OF n(2)]] by blast
  have i: "ec_nbits_total ?c = 33" "ec_storage ?c = n" by (simp_all add: ec_enc_init_def EC_CODE_BITS_def)
  have ok: "\<forall>(k, v) \<in> set zs. codable_celt k v" "\<forall>(k, v) \<in> set xs. codable_celt k v" "\<forall>(k, v) \<in> set ys. codable_celt k v" using sy(1) by blast+
  have "ec_nbits_total ?c + int (48 * length zs) < 2 ^ 31" using sy(2) unfolding i by simp
  from outcome_codes [OF celt_coder.stream_codes [OF ok(1)] s0 this]
  have o1: "outcome (dec_all dec_celt (map fst zs)) (map snd zs) (48 * length zs) ?c c0" using c0(1) by auto
  note w = outcomeD [OF o1]
  have nb: "33 \<le> ec_nbits_total c0" "ec_storage c0 = n" "ec_nbits_total c0 + 26 \<le> int n * 8" using w(2,3) i enc_wf_tell [OF w(1)] c0(2,3) by auto
  obtain d where d: "loss_distortion m eBands old effEnd = Some d" using nd by blast
  let ?E = "enc_energies m effEnd eBands old error error_intra LM nbAvailableBytes force_intra delayedIntra two_pass loss_rate lfe fine_quant fine_priority xs ys"
  have "adapts (ec_nbits_total c0) n ?E ?D (\<lambda>old. (map snd xs, map snd ys, old)) (values16 m) (energy_bits m xs ys)"
    by (rule energies_adapts [OF m LM v f n(1) nb(3) d di ok(2) sy(3) ok(3) sy(4)])
  from adapts_outcome [OF this w(1) nb(1) order_refl nb(2)] obtain old' c where
    E: "?E c0 = Some (old', c)" "values16 m old'" "outcome ?D (map snd xs, map snd ys, old') (energy_bits m xs ys) c0 c" by blast
  have o: "outcome (\<lambda>d. do { (u, d) \<leftarrow> dec_all dec_celt (map fst zs) d; (r, d) \<leftarrow> ?D d; Some ((u, r), d) }) (map snd zs, map snd xs, map snd ys, old')
      (48 * length zs + energy_bits m xs ys) ?c c"
    by (rule outcome_bind [where ?D2.0 = "\<lambda>u d. do { (r, d) \<leftarrow> ?D d; Some ((u, r), d) }", OF o1 outcome_map [OF E(3), of "Pair (map snd zs)"]])
  have "length (bands m) \<le> 64" by (rule bands_length [OF m])
  moreover have "length (final_bands m) \<le> 128" by (rule final_bands_length [OF m])
  ultimately have "energy_bits m xs ys \<le> 3000 + 48 * 2097152" using sy(3,4) by (simp add: energy_bits_def)
  then have "ec_nbits_total c < 2 ^ 31" using outcomeD(4) [OF E(3)] nb(3) n(1) by simp
  from finished_outcome [OF o n(2) this, of z'] obtain c' where c': "ec_enc_done c = Some c'" "length (ec_buf c') = n"
    "\<And>t. ec_tell c = Some t \<Longrightarrow> t \<le> 8 * int n \<Longrightarrow> ec_error c' = 0"
    "ec_error c' = 0 \<Longrightarrow> \<exists>d d'. ec_dec_init z' (ec_buf c') n = Some d \<and> (do { (u, d) \<leftarrow> dec_all dec_celt (map fst zs) d; (r, d) \<leftarrow> ?D d; Some ((u, r), d) }) =
       Some ((map snd zs, map snd xs, map snd ys, old'), d') \<and> in_step (ec_buf c') c d'" by blast
  obtain t where t: "ec_tell c = Some t" "t \<le> ec_nbits_total c - 24" using enc_wf_tell [OF outcomeD(1) [OF o]] by blast
  have t0: "t \<le> t0 + int (energy_bits m xs ys) + 8" using t(2) outcomeD(4) [OF E(3)] enc_wf_tell [OF w(1)] c0(2) by auto
  have "\<exists>d d0 d'. ec_dec_init z' (ec_buf c') n = Some d \<and> dec_all dec_celt (map fst zs) d = Some (map snd zs, d0) \<and>
      ?D d0 = Some ((map snd xs, map snd ys, old'), d') \<and> ec_tell d' = Some t \<and> ec_rng d' = ec_rng c \<and> ec_error d' = 0" if e: "ec_error c' = 0"
  proof -
    obtain d d' where d: "ec_dec_init z' (ec_buf c') n = Some d"
      "(do { (u, d) \<leftarrow> dec_all dec_celt (map fst zs) d; (r, d) \<leftarrow> ?D d; Some ((u, r), d) }) = Some ((map snd zs, map snd xs, map snd ys, old'), d')"
      "in_step (ec_buf c') c d'" using c'(4) [OF e] by blast
    from d(2) obtain d0 where "dec_all dec_celt (map fst zs) d = Some (map snd zs, d0)" "?D d0 = Some ((map snd xs, map snd ys, old'), d')"
      by (auto simp: option_bind_Some_iff)
    moreover have "ec_tell d' = Some t" "ec_rng d' = ec_rng c" "ec_error d' = 0" using in_step_tell [OF d(3)] d(3) t(1) by (simp_all add: in_step_def)
    ultimately show ?thesis using d(1) by blast
  qed
  note fin = this
  show ?thesis
    by (rule exI [of _ old'], rule exI [of _ c], rule exI [of _ c'], rule exI [of _ t])
      (use fin E(1,2) t(1) c'(1,2) c'(3) [OF t(1)] t0 in simp)
qed

lemma celt_energies_agree_witness:
  "\<forall>z z'. \<exists>old' c c'. enc_energies \<lparr>nbEBands = 2, band_start = 0, band_end = 2, channels = 1\<rparr> 2 [3000, - 2500] [100, 200] [0, 0] [7, 7] 3 40 False 5 True 10 False
      [2, 0] [0, 1] [(Difference 9216 7808, Delta (- 3))] [(Symbol (Logp 3), Number 1)] (ec_enc_init z (replicate 40 0) 40) = Some (old', c) \<and>
    ec_enc_done c = Some c' \<and> ec_error c' = 0 \<and> (\<exists>d d'. ec_dec_init z' (ec_buf c') 40 = Some d \<and>
      dec_energies \<lparr>nbEBands = 2, band_start = 0, band_end = 2, channels = 1\<rparr> [100, 200] 3 [2, 0] [0, 1] [Difference 9216 7808] [Symbol (Logp 3)] d =
        Some (([Delta (- 3)], [Number 1], old'), d'))"
proof (intro allI)
  fix z z'
  define m where "m = \<lparr>nbEBands = 2, band_start = 0, band_end = 2, channels = 1\<rparr>"
  have m: "frame_ok m" "(3::nat) < 4" "values16 m [3000, - 2500]" "values16 m [100, 200]" "values16 m [0, 0]" "values16 m [7, 7]" "fine_ok m [2, 0]"
    by (auto simp: m_def frame_ok_def values16_def is16_def fine_ok_def MAX_FINE_BITS_def nth_Cons')
  have d: "loss_distortion m [3000, - 2500] [100, 200] 2 \<noteq> None"
    by (simp add: m_def loss_distortion_def upt_rec MULT16_16_def SUB16_def i16_def i32_def)
  have "laplace_codable 9216 7808 (- 3)" by (rule room_16) (simp_all add: laplace_args_def)
  then have s: "\<forall>(k, v) \<in> set [] \<union> set [(Difference 9216 7808, Delta (- 3))] \<union> set [(Symbol (Logp 3), Number 1)]. codable_celt k v" by simp
  have t: "ec_tell (ec_enc_init z (replicate 40 0) 40) = Some 1"
    by (simp add: ec_tell_def ec_enc_init_def EC_CODE_BITS_def EC_CODE_TOP_def EC_ILOG_def ec_ilog_def ensure_def)
  have b: "energy_bits m [(Difference 9216 7808, Delta (- 3))] [(Symbol (Logp 3), Number 1)] = 192"
    by (simp add: energy_bits_def m_def bands_def final_bands_def upt_rec)
  have l: "band_end m \<le> length [0 :: int, 1]" "int 40 * 8 \<le> 2 ^ 27" "length (replicate 40 (0 :: 8 word)) = 40" "\<bar>5 :: int\<bar> \<le> 2 ^ 31"
    "length ([] :: (celt_kind \<times> celt_value) list) \<le> 2 ^ 20" "length [(Difference 9216 7808, Delta (- 3))] \<le> 2 ^ 20" "length [(Symbol (Logp 3), Number 1)] \<le> 2 ^ 20"
    "enc_all enc_celt [] (ec_enc_init z (replicate 40 0) 40) = Some (ec_enc_init z (replicate 40 0) 40)" "(1 :: int) + 58 \<le> 8 * int 40"
    by (simp_all add: m_def)
  let ?xs = "[(Difference 9216 7808, Delta (- 3))]" and ?ys = "[(Symbol (Logp 3), Number 1)]"
  from celt_energies_agree [OF m l(1-3) d l(4) s l(5-8) t l(9), of 40 False True 10 False z', unfolded b]
  obtain old' c c' t where c: "enc_energies m 2 [3000, - 2500] [100, 200] [0, 0] [7, 7] 3 40 False 5 True 10 False
      [2, 0] [0, 1] ?xs ?ys (ec_enc_init z (replicate 40 0) 40) = Some (old', c)"
    "ec_enc_done c = Some c'" "t \<le> 1 + int 192 + 8" "t \<le> 8 * int 40 \<longrightarrow> ec_error c' = 0"
    and dec: "ec_error c' = 0 \<longrightarrow> (\<exists>d d0 d'. ec_dec_init z' (ec_buf c') 40 = Some d \<and> dec_all dec_celt (map fst ([] :: (celt_kind \<times> celt_value) list)) d = Some (map snd ([] :: (celt_kind \<times> celt_value) list), d0) \<and>
      dec_energies m [100, 200] 3 [2, 0] [0, 1] (map fst ?xs) (map fst ?ys) d0 = Some ((map snd ?xs, map snd ?ys, old'), d') \<and>
      ec_tell d' = Some t \<and> ec_rng d' = ec_rng c \<and> ec_error d' = 0)" by (elim exE conjE) (rule that)
  have e: "ec_error c' = 0" using c(3,4) by simp
  with dec obtain d d0 d' where d: "ec_dec_init z' (ec_buf c') 40 = Some d" "dec_all dec_celt (map fst ([] :: (celt_kind \<times> celt_value) list)) d = Some (map snd ([] :: (celt_kind \<times> celt_value) list), d0)"
    "dec_energies m [100, 200] 3 [2, 0] [0, 1] (map fst ?xs) (map fst ?ys) d0 = Some ((map snd ?xs, map snd ?ys, old'), d')" by blast
  have "d0 = d" using d(2) by simp
  then have d3: "dec_energies m [100, 200] 3 [2, 0] [0, 1] [Difference 9216 7808] [Symbol (Logp 3)] d = Some (([Delta (- 3)], [Number 1], old'), d')"
    using d(3) by simp
  show "\<exists>old' c c'. enc_energies \<lparr>nbEBands = 2, band_start = 0, band_end = 2, channels = 1\<rparr> 2 [3000, - 2500] [100, 200] [0, 0] [7, 7] 3 40 False 5 True 10 False
      [2, 0] [0, 1] ?xs ?ys (ec_enc_init z (replicate 40 0) 40) = Some (old', c) \<and>
    ec_enc_done c = Some c' \<and> ec_error c' = 0 \<and> (\<exists>d d'. ec_dec_init z' (ec_buf c') 40 = Some d \<and>
      dec_energies \<lparr>nbEBands = 2, band_start = 0, band_end = 2, channels = 1\<rparr> [100, 200] 3 [2, 0] [0, 1] [Difference 9216 7808] [Symbol (Logp 3)] d =
        Some (([Delta (- 3)], [Number 1], old'), d'))"
    unfolding m_def [symmetric] using c(1,2) e d(1) d3 by blast
qed

end
