(* ===== verification/Spec2Isabelle.thy ===== *)
theory Spec2Isabelle
  imports EdifyDeviceProofs EdifyLexRules NlMsgProps C2Props OpusStreams OpusTell OpusEnergyProofs
begin

text \<open>
  A model of the native code of the Serval Mesh Android application (src/app/src/main/jni) with the
  theorems that make it correct.

  \<^bold>\<open>The program.\<close> The application drives the phone's network through small native programs. The
  one that carries logic of the project's own is \<open>adhoc\<close> (adhoc-edify/adhoc.c): it loads
  /data/data/org.servalproject/conf/adhoc.edify, registers the functions of edify/expr.c and
  install.c in a table, scans (edify/lex.yy.c, generated from lexer.l) and parses (edify/y.tab.c,
  generated from parser.y) the script, evaluates the tree and reports through a pipe and its exit
  status. \<open>edify/main.c\<close> is a host tool that runs the interpreter's test-suite. \<open>libnl\<close> is the
  library through which \<open>iw\<close> configures the wireless interface: netlink messages (libnl/msg.c) carry
  streams of type-length-value attributes (libnl/attr.c). \<open>codec2\<close> is the low bit rate voice codec: frames of
  20 or 40 ms of speech are analysed, quantised and packed into 48 to 64 bits (codec2/codec2.c). \<open>opus\<close> is
  the wideband codec; its packets carry one or several frames (opus/src/opus.c) and are taken apart,
  joined, padded and unpadded by the repacketizer (opus/src/repacketizer.c); what is in a frame is written
  by a range coder (opus/celt/entenc.c and entdec.c).

  \<^bold>\<open>Conventions.\<close> A function of the code is a HOL function; state is passed explicitly. A result of
  type \<open>option\<close> is \<^term>\<open>None\<close> where the C code has undefined behaviour (a read or write outside an
  array, a null or uninitialised pointer, a loop that does not end), so "is \<^term>\<open>Some\<close>" says that
  the code is safe and returns. A C string is the list of the characters before its NUL. \<open>malloc\<close>
  succeeds. Freed memory has no counterpart: strings are values, copied where the code copies them.

  \<^bold>\<open>Theories.\<close>
  \<^item> Prelude, CLib: partial array access (\<open>rd\<close>, \<open>wr\<close>, \<open>ensure\<close>) and the functions of the C library the
    code calls (\<open>strcmp\<close>, \<open>strstr\<close>, \<open>strtol\<close>, \<open>strtok\<close>, \<open>fgets\<close>, \<open>sscanf\<close>'s words, \<open>printf\<close>'s \<open>%d\<close>).
  \<^item> EdifyTypes, EdifyRegistry: expression nodes; the function table of expr.c, as an implementation
    of the locale \<open>name_registry\<close> (register, finish, look up), with \<open>qsort\<close> and \<open>bsearch\<close>. Property:
    the device's table finds every registered function.
  \<^item> EdifyLexTables, EdifyLexer: the scanner's tables and its code, down to the end-of-buffer action
    and backing up. EdifyLexSpec: the 22 rules of lex.yy.c as functions on the unread text, and the
    equivalence of the tables with them. EdifyLexRules: the patterns of lexer.l and the longest match among
    them, which is what the tables choose; lexer.l has one rule more. EdifyLexProofs: which scripts scan without overflowing
    \<open>string_buffer\<close>, and the round trip of string literals; the locale \<open>token_source\<close> is what the
    parser needs of a scanner.
  \<^item> EdifyParserTables, EdifyParser: the LALR automaton of y.tab.c with its three stacks, error
    recovery and semantic actions. EdifyParserProofs: the invariant of the stacks and a measure under
    which every step decreases, so that \<open>yyparse\<close> returns. EdifyGrammar: the grammar of parser.y as an
    inductive relation between tokens and trees, and soundness of the automaton for it.
  \<^item> EdifyEval, EdifyInstall: the functions of expr.c and install.c over a record \<open>os\<close> of operating
    system operations (files, processes, modules, properties), the parameter of the model: nothing is
    assumed of it but what a theorem names. EdifyEvalProofs: equivalences of operators, denotation of pure
    expressions, definedness of parsed trees, integer comparison.
  \<^item> EdifyMain: the two programs. EdifyDeviceProofs: the configuration file, the console protocol, the
    white list overflow, and that the driver runs only scripts that parsed.

  \<^item> NlMem: blocks of bytes with partial little-endian access, and alignment. NlMsg: msg.c, the size
    calculations, the message stream, allocation and building. NlAttr: attr.c and the attribute
    functions of msg.c. A pointer into a block is an offset; \<open>size_t\<close> is a word of a length that is a
    type parameter, 32 bits on armeabi-v7a and 64 on arm64-v8a.
  \<^item> NlAttrProofs: streams as lists of type and payload; \<open>nla_parse\<close> of a well-formed stream, and its
    safety on arbitrary bytes, both from one rule for the loop \<open>nla_for_each_attr\<close>. NlMsgProofs: the
    locale \<open>attr_writer\<close>, what code that fills a message relies on, interpreted on \<open>nla_put\<close>; the
    refinement of \<open>nla_put\<close> and of nesting to appending to a list, and the round trip from allocation
    to \<open>nlmsg_parse\<close>. NlMsgProps: scalars, \<open>nlmsg_append\<close>, and the negative remaining length.

  \<^item> WordLib: small facts on words. C2Fifo: the ring buffer of samples, the locale \<open>bounded_queue\<close> and its
    interpretation. C2Pack: the Gray-coded bit fields, as operations on a stream of bits.
  \<^item> C2Quantise: the quantisers and the interpolation, over a record \<open>fops\<close> of floating point operations and
    a record of code book numbers: no law is assumed of either, so that what is proved (indexes fit their
    fields, frames read back) holds for IEEE arithmetic with its rounding and NaNs. A conversion to \<open>int\<close> out of
    range, which C leaves undefined, is a number of the record too. C2Codec: the
    encoders and decoders of the six modes, over a record \<open>dsp\<close> of the signal processing they call.
  \<^item> C2CodecProofs: the bounds of the indexes. C2FrameProofs: the layout of the frames, what the encoders
    send and the decoders play as lists of fields, and that they agree. C2Props: witnesses, the spare
    voicing bit, the order of line spectral pairs.

  \<^item> OpusPacket: the parser of opus.c and the packet functions of opus_decoder.c. All buffers are regions of
    one memory, a list of bytes. OpusFraming: the format of RFC 6716 (\<open>framed\<close>) and that the parser accepts
    exactly it. OpusRepack: repacketizer.c. OpusWrite: what its writing loops put into the memory,
    also when the frames lie in the region written.
  \<^item> OpusRepackProofs: \<open>opus_repacketizer_cat\<close> refines appending to a list of frames. OpusRepackProps:
    writing a packet and reading it back, padding and unpadding in place. OpusStreams: the same for the
    packets of several streams.
  \<^item> OpusRange: the range coder (celt/entcode.c, entenc.c, entdec.c). OpusRangeEnc, OpusRangeDec: what the
    encoder and the decoder hold, as numbers: the low end of the interval with its pending carry, and the
    distance of the stream from the top of the interval. OpusRangeCode: encoder and decoder in step (\<open>codes\<close>), and that
    this composes. OpusRangeSyms, OpusRangeBits: the symbols, the raw bits and uniform numbers.
    OpusRangeDone: \<open>ec_enc_done\<close>. OpusRangeProps: the locale \<open>symbol_coder\<close>, its interpretation and the round
    trip. OpusTell: the two versions of \<open>ec_tell_frac\<close>.
  \<^item> OpusPvq: the codebook of pulse vectors, on natural numbers: the recurrence U(N,K), the index of a vector,
    and that both are in bijection. OpusCwrs: celt/cwrs.c with its table. OpusCwrsProofs: the table follows the
    recurrence, row by row, and the code refines the codebook. OpusLaplace, OpusLaplaceProofs: celt/laplace.c
    and the parts it gives to the values. OpusCelt: all these symbols in one stream, a second interpretation of
    \<open>symbol_coder\<close>.
  \<^item> OpusEnergy: celt/quant_bands.c, the energies of the bands in fixed point, and their order in
    celt_encoder.c and celt_decoder.c (\<open>enc_energies\<close>, \<open>dec_energies\<close>, with any symbols between). The contents of the
    uninitialised \<open>error_intra\<close> are a parameter. OpusAdapt: encoder and decoder in step when the encoder decides
    what it writes (\<open>adapts\<close>), and what a second pass keeps of the bytes before it. OpusEnergyModel: every
    pair of \<open>e_prob_model\<close> leaves room for every difference. OpusEnergyBands, OpusEnergyPasses,
    OpusEnergyProofs: one band; one pass and both; all energies of a frame.

  \<^bold>\<open>Bounds.\<close> \<open>yy_next\<close>, \<open>yy_scan\<close>, \<open>yylex\<close> and \<open>yyloop\<close> are \<open>partial_function (option)\<close>: not returning
  is \<^term>\<open>None\<close>, and the theorems show that they return. The parser's stacks grow to \<open>YYMAXDEPTH\<close> =
  10000 as in the code, and the theorems cover the exhausted case. \<open>string_buffer\<close> has 1024 bytes, the
  arrays of install.c their declared sizes. The theorems on messages cover blocks below 2^30 bytes,
  where no sum of sizes wraps; the definitions wrap as the code does. The loops of the range coder are
  functions with a measure; its streams have at most 2^25 symbols, so that \<open>nbits_total\<close> fits an \<open>int\<close>.
  A pulse vector is \<open>supported\<close> when the table has its entries and their number fits 32 bits, as for all
  band sizes of the standard modes (\<open>bands_supported\<close>). The energies are those of at most 64 bands times
  channels (\<open>frame_ok\<close>; a standard mode has 21 bands), in a buffer of at most 2^24 bytes whose size stays the same from
  coarse to fine energies (constant bit rate), with at least 58 bits left before them, fine numbers of at most
  \<open>MAX_FINE_BITS\<close>, and no overflow in the sum of \<open>loss_distortion\<close>.

  \<^bold>\<open>Not modelled.\<close> The Java application; of libnl the sockets, caches, objects and the route,
  netfilter and generic families, the dump functions and abstract data and address objects in
  attributes; of codec2 the signal processing, the experimental quantisers no mode uses, the modem, and
  the Golay code, which the application does not build; of opus the codecs behind the packets (SILK, and of
  CELT the signal processing, the allocation of bits and the choice of the other symbols); iw and wireless_tools (third party); ifconfig,
  codec2_jni.c and batphone_features.c (system calls and glue); flex's file input and buffer stack; bison's debug
  output.
\<close>

end
